(* ===== verification/Prelude.thy ===== *)
theory Prelude
  imports Main "HOL-Library.Word"
begin

text \<open>
  Shared vocabulary of the development: the machine integer types of the i686-elf target the
  loader is compiled for, the faults an operation can end in, the result type that carries them,
  and the generic facts on words and lists the component theories share.

  The target fixes the C types: \<open>char\<close> is a signed byte, \<open>int\<close>, \<open>long\<close>, \<open>size_t\<close>, every
  pointer and every enum are 32 bits wide, \<open>uint64_t\<close> is 64 bits wide and 4-byte aligned inside
  a structure.
\<close>

unbundle bit_operations_syntax

section \<open>Machine integers\<close>

type_synonym u8 = "8 word"
type_synonym u16 = "16 word"
type_synonym u32 = "32 word"
type_synonym u64 = "64 word"

text \<open>Byte-addressed physical memory of a 32-bit machine.\<close>

type_synonym mem = "u32 \<Rightarrow> u8"

section \<open>Faults and results\<close>

text \<open>
  \<open>arch_panic\<close> never returns: an operation that panics ends the program. A fault is also what
  an operation ends in when the C code has no defined behaviour (a division by zero, a shift by
  the width of its operand or more, a read or write outside an object, a use of a null pointer),
  so that no branch of the source is hidden.
\<close>

datatype fault =
    PanicNoHeap          \<comment> \<open>malloc() or free() before default_heap_init()\<close>
  | PanicHeapFull        \<comment> \<open>heap_alloc(): "Heap is full"\<close>
  | PanicMarkBounds      \<comment> \<open>memory_mark_pages(): start or count out of bounds\<close>
  | PanicNoPages         \<comment> \<open>memory_find_available_pages(): can't find enough\<close>
  | PanicAllocSize       \<comment> \<open>memory_allocate(): size was <= 0\<close>
  | PanicAllocHigh       \<comment> \<open>memory_allocate(): address bigger than 32 bit\<close>
  | PanicDiskRead        \<comment> \<open>biosdisk: a read above 1M of more than the bounce buffer\<close>
  | PanicNullGeometry    \<comment> \<open>biosdisk: pointer to disk geometry struct may not be NULL\<close>
  | PanicFatType         \<comment> \<open>fat_getFatEntry(): unknown FAT type\<close>
  | PanicDescriptors     \<comment> \<open>loader block: no space left for memory descriptors\<close>
  | PanicImages          \<comment> \<open>loader block: no space left for image descriptors\<close>
  | PanicLoader          \<comment> \<open>loader_loadGeexOS(): a load failed or landed above 4 MB\<close>
  | DivideError          \<comment> \<open>integer division by zero\<close>
  | UndefinedShift       \<comment> \<open>shift by the width of the type or more\<close>
  | OutOfBounds          \<comment> \<open>access outside an object\<close>
  | NullPointer          \<comment> \<open>dereference of a null pointer\<close>
  | BadVarArg            \<comment> \<open>va_arg() of another type than the argument passed\<close>
  | Diverges             \<comment> \<open>the loop does not end\<close>
  | AssertFailed         \<comment> \<open>kernel: ASSERT() of a false condition halts the processor\<close>
  | PanicNoFrames        \<comment> \<open>kernel: no more frames left to allocate\<close>
  | PanicFrameUsed       \<comment> \<open>kernel: frame already was marked as used\<close>
  | PanicBounds          \<comment> \<open>kernel: arguments out of bounds of a region\<close>
  | PanicPlacement       \<comment> \<open>kernel: placement region overflow\<close>
  | PanicCache           \<comment> \<open>kernel: unable to initialize or find a slab cache\<close>
  | PanicDuplicate       \<comment> \<open>kernel: value exists twice in a hash table\<close>
  | PanicForeign         \<comment> \<open>kernel: object does not belong to the allocator it is freed to\<close>
  | PanicPageFault       \<comment> \<open>kernel: page fault that no memory region resolves\<close>
  | PanicNested          \<comment> \<open>kernel: maximum number of nested exceptions reached\<close>
  | PanicNoKernelInfo    \<comment> \<open>kernel: the pointer to the loader block is null\<close>
  | CorruptsSlab         \<comment> \<open>kernel: a write to an object that lies on the header of its slab\<close>

text \<open>Sequencing of operations that may fault: the first fault ends the sequence.\<close>

definition rbind :: "'e + 'a \<Rightarrow> ('a \<Rightarrow> 'e + 'b) \<Rightarrow> 'e + 'b" where
  "rbind r f = (case r of Inl e \<Rightarrow> Inl e | Inr x \<Rightarrow> f x)"

lemma rbind_simps [simp]:
  "rbind (Inl e) f = Inl e"
  "rbind (Inr x) f = f x"
  by (simp_all add: rbind_def)

lemma rbind_Inr_iff: "rbind r f = Inr y \<longleftrightarrow> (\<exists>x. r = Inr x \<and> f x = Inr y)"
  by (cases r) auto

lemma rbind_cong [fundef_cong]:
  "r = r' \<Longrightarrow> (\<And>x. r' = Inr x \<Longrightarrow> f x = f' x) \<Longrightarrow> rbind r f = rbind r' f'"
  by (cases r') auto

section \<open>Hint collections\<close>

named_theorems mem_simps \<open>reads after writes of the byte memory\<close>
named_theorems sep_intros \<open>separation of memory regions\<close>
named_theorems wf_intros \<open>preservation of the components' invariants\<close>

section \<open>Words and their values\<close>

lemma unat_bound32 [simp]: "unat (w :: u32) < 4294967296"
  using unsigned_less [of w] by simp

lemma unat_bound64 [simp]: "unat (w :: u64) < 18446744073709551616"
  using unsigned_less [of w] by simp

lemma unat_bound8 [simp]: "unat (w :: u8) < 256"
  using unsigned_less [of w] by simp

lemma uint_bound64 [simp]: "uint (w :: u64) < 18446744073709551616"
  using unsigned_less [of w] by simp

lemma uint_bound8 [simp]: "uint (w :: u8) < 256"
  using unsigned_less [of w] by simp

lemma unat_of_nat32: "n < 4294967296 \<Longrightarrow> unat (of_nat n :: u32) = n"
  by (simp add: unat_of_nat take_bit_eq_mod)

lemma unat_of_nat64: "n < 18446744073709551616 \<Longrightarrow> unat (of_nat n :: u64) = n"
  by (simp add: unat_of_nat take_bit_eq_mod)

lemma unat_add32: "unat a + unat b < 4294967296 \<Longrightarrow> unat (a + b :: u32) = unat a + unat b"
  by (simp add: unat_word_ariths take_bit_eq_mod)

lemma unat_add64:
  "unat a + unat b < 18446744073709551616 \<Longrightarrow> unat (a + b :: u64) = unat a + unat b"
  by (simp add: unat_word_ariths take_bit_eq_mod)

lemma unat_sub_le: "b \<le> a \<Longrightarrow> unat (a - b :: 'a::len word) = unat a - unat b"
  by (simp add: unat_sub word_le_nat_alt)

lemma unat_add_of_nat32:
  "unat a + n < 4294967296 \<Longrightarrow> unat (a + of_nat n :: u32) = unat a + n"
  by (subst unat_add32) (simp_all add: unat_of_nat32)

lemma unat_neg1_32 [simp]: "unat (- 1 :: u32) = 4294967295"
  by (simp add: unsigned_minus_1_eq_mask mask_eq_exp_minus_1)

lemma word_eq_unat_iff: "(a :: 'a::len word) = b \<longleftrightarrow> unat a = unat b"
  by (simp add: word_unat_eq_iff)

lemma unat_eq_0 [simp]: "unat (w :: 'a::len word) = 0 \<longleftrightarrow> w = 0"
  by (simp add: unat_eq_zero)

lemma of_nat_unat_same [simp]: "of_nat (unat w) = (w :: 'a::len word)"
  by simp

lemma of_int_uint_same [simp]: "of_int (uint w) = (w :: 'a::len word)"
  by simp

lemma sint_eq_0 [simp]: "sint (w :: 'a::len word) = 0 \<longleftrightarrow> w = 0"
  by (rule signed_eq_0_iff)

lemma unat_drop_bit_div: "unat (drop_bit n (w :: 'a::len word)) = unat w div 2 ^ n"
  unfolding unsigned_drop_bit_eq by (simp add: drop_bit_eq_div take_bit_nat_eq_self)

lemma unat_push_bit64:
  "unat (w :: u64) * 2 ^ k < 18446744073709551616 \<Longrightarrow> unat (push_bit k w) = unat w * 2 ^ k"
  unfolding unsigned_push_bit_eq by (simp add: push_bit_eq_mult take_bit_nat_eq_self)

lemma uint_eq_uint [simp]: "uint (a :: 'a::len word) = uint b \<longleftrightarrow> a = b"
  by (simp add: word_uint_eq_iff)

lemma uint_eq_0 [simp]: "uint (a :: 'a::len word) = 0 \<longleftrightarrow> a = 0"
  using uint_eq_uint [of a 0] by simp

lemma sint_eq_sint [simp]: "sint (a :: 'a::len word) = sint b \<longleftrightarrow> a = b"
  by (metis signed_word_eqI)

text \<open>A loop counter below its bound steps without wrapping, and the distance shrinks.\<close>

lemma unat_Suc_less: "(i :: 'a::len word) < n \<Longrightarrow> unat (i + 1) = Suc (unat i)"
proof -
  assume "i < n"
  then have "unat i < unat n" by (simp add: word_less_nat_alt)
  moreover have "unat n < 2 ^ LENGTH('a)" by (rule unsigned_less)
  ultimately have "unat i + 1 < 2 ^ LENGTH('a)" by linarith
  then show ?thesis by (simp add: unat_word_ariths take_bit_nat_eq_self)
qed

lemma unat_step [simp]: "(i :: 'a::len word) < n \<Longrightarrow> unat n - unat (i + 1) < unat n - unat i"
  by (simp add: unat_Suc_less word_less_nat_alt)

lemma unat_ucast_16_32: "unat (ucast (w :: u16) :: u32) = unat w"
proof -
  have "unat w < 2 ^ 32" by (rule less_le_trans [OF unsigned_less]) simp
  then show ?thesis by (simp add: unsigned_ucast_eq take_bit_nat_eq_self del: unsigned_less)
qed

lemma unat_ucast_32_64 [simp]: "unat (ucast (w :: u32) :: u64) = unat w"
proof -
  have "unat w < 2 ^ 64" by (rule less_trans [OF unat_bound32]) simp
  then show ?thesis by (simp add: unsigned_ucast_eq take_bit_nat_eq_self)
qed

end
