(* ===== verification/Math64.thy ===== *)
theory Math64
  imports Prelude "HOL-Library.Signed_Division"
begin

text \<open>
  The 64-bit division of the loader, math_support.c: on the 32-bit target the compiler turns
  every 64-bit \<open>/\<close> and \<open>%\<close> into a call of one of these functions. A shift-and-subtract
  division with its normalisation loop, and the four functions built on it. The normalisation
  loop has no bound of its own, so it is a \<open>partial_function\<close>; that it returns for every
  divisor but 0 is part of the theorems.
\<close>

section \<open>The division\<close>

text \<open>The first loop of \<open>__udivmoddi4\<close>: left-justify the denominator and count the shift.\<close>

partial_function (option) left_justify :: "u64 \<Rightarrow> u64 \<Rightarrow> (u64 \<times> u64) option" where
  "left_justify den qbit =
     (if 0 \<le> sint den then left_justify (push_bit 1 den) (push_bit 1 qbit) else Some (den, qbit))"

lemma drop_bit_1_less: "(w :: u64) \<noteq> 0 \<Longrightarrow> unat (drop_bit (Suc 0) w) < unat w"
  by (simp add: unat_drop_bit_div flip: unat_eq_0)

text \<open>The second loop: subtract the shifted denominator, bit by bit.\<close>

function div_loop :: "u64 \<Rightarrow> u64 \<Rightarrow> u64 \<Rightarrow> u64 \<Rightarrow> u64 \<times> u64" where
  "div_loop num quot den qbit =
     (if qbit \<noteq> 0 then
        (if den \<le> num then div_loop (num - den) (quot + qbit) (drop_bit 1 den) (drop_bit 1 qbit)
         else div_loop num quot (drop_bit 1 den) (drop_bit 1 qbit))
      else (quot, num))"
  by pat_completeness auto

termination
  by (relation "measure (\<lambda>(num, quot, den, qbit). unat qbit)") (auto simp: drop_bit_1_less)

declare div_loop.simps [simp del]

text \<open>Quotient and remainder; the division by zero traps, as \<open>1 / ((unsigned) den)\<close> does.\<close>

definition udivmoddi4 :: "u64 \<Rightarrow> u64 \<Rightarrow> (fault + u64 \<times> u64)" where
  "udivmoddi4 num den =
     (if den = 0 then Inl DivideError
      else case left_justify den 1 of
          None \<Rightarrow> Inl Diverges
        | Some (den', qbit) \<Rightarrow> Inr (div_loop num 0 den' qbit))"

definition umoddi3 :: "u64 \<Rightarrow> u64 \<Rightarrow> fault + u64" where
  "umoddi3 num den = rbind (udivmoddi4 num den) (\<lambda>(q, r). Inr r)"

definition udivdi3 :: "u64 \<Rightarrow> u64 \<Rightarrow> fault + u64" where
  "udivdi3 num den = rbind (udivmoddi4 num den) (\<lambda>(q, r). Inr q)"

text \<open>
  The signed functions work on the magnitudes and put the sign back: \<open>minus\<close> is set by a
  negative numerator and toggled by a negative denominator. An \<open>int64_t\<close> is its 64-bit pattern.
\<close>

definition divdi3 :: "u64 \<Rightarrow> u64 \<Rightarrow> fault + u64" where
  "divdi3 num den =
     (let minus1 = sint num < 0; num' = (if sint num < 0 then - num else num);
          minus2 = (if sint den < 0 then \<not> minus1 else minus1);
          den' = (if sint den < 0 then - den else den)
      in rbind (udivmoddi4 num' den') (\<lambda>(v, r). Inr (if minus2 then - v else v)))"

definition moddi3 :: "u64 \<Rightarrow> u64 \<Rightarrow> fault + u64" where
  "moddi3 num den =
     (let minus1 = sint num < 0; num' = (if sint num < 0 then - num else num);
          minus2 = (if sint den < 0 then \<not> minus1 else minus1);
          den' = (if sint den < 0 then - den else den)
      in rbind (udivmoddi4 num' den') (\<lambda>(q, v). Inr (if minus2 then - v else v)))"

section \<open>The loops\<close>

lemma bit_63_iff: "bit (w :: u64) 63 \<longleftrightarrow> 9223372036854775808 \<le> unat w"
proof -
  have "bit w 63 \<longleftrightarrow> odd (unat w div 9223372036854775808)"
    using bit_iff_odd [of "unat w" 63] by (simp add: bit_unsigned_iff)
  moreover have "unat w div 9223372036854775808 < 2" using unat_bound64 [of w] by linarith
  moreover have "odd q \<longleftrightarrow> q = 1" if "q < 2" for q :: nat using that by (cases q) auto
  moreover have "unat w div 9223372036854775808 = 1 \<longleftrightarrow> 9223372036854775808 \<le> unat w" using unat_bound64 [of w] by linarith
  ultimately show ?thesis by metis
qed

lemma sint_nonneg_iff: "0 \<le> sint (w :: u64) \<longleftrightarrow> unat w < 9223372036854775808"
  using bit_last_iff [of w] bit_63_iff [of w] by (auto simp: not_less)

lemma sint_u64: "sint (w :: u64) = (if unat w < 9223372036854775808 then int (unat w) else int (unat w) - 18446744073709551616)"
proof -
  have "sint w = take_bit 64 (uint w) - 18446744073709551616 * of_bool (bit (uint w) 63)"
    by (simp add: sint_uint signed_take_bit_eq_take_bit_minus)
  moreover have "take_bit 64 (uint w) = uint w"
    using unsigned_less [of w] by (intro take_bit_int_eq_self) simp_all
  ultimately show ?thesis
    using bit_63_iff [of w] by (simp add: bit_unsigned_iff not_less)
qed

lemma left_justify_total:
  assumes "9223372036854775808 \<le> unat den * 2 ^ k" "unat den * 2 ^ k < 18446744073709551616"
  shows "left_justify den qbit = Some (push_bit k den, push_bit k qbit)"
  using assms
proof (induction k arbitrary: den qbit)
  case 0
  then show ?case by (subst left_justify.simps) (simp add: sint_nonneg_iff)
next
  case (Suc k)
  have "unat den * 2 \<le> unat den * 2 ^ Suc k" by (intro mult_le_mono2) simp
  with Suc.prems(2) have small: "unat den < 9223372036854775808" by linarith
  then have "unat (push_bit 1 den) = unat den * 2"
    using unat_push_bit64 [of den 1] by simp
  with Suc.prems have "left_justify (push_bit 1 den) (push_bit 1 qbit) =
      Some (push_bit k (push_bit 1 den), push_bit k (push_bit 1 qbit))"
    by (intro Suc.IH) (simp_all add: algebra_simps)
  with small show ?case
    by (subst left_justify.simps) (simp add: sint_nonneg_iff)
qed

text \<open>Every denominator but 0 can be justified, by fewer than 64 shifts.\<close>

lemma shift_exists:
  assumes "0 < d" "d < 18446744073709551616"
  shows "\<exists>k. 9223372036854775808 \<le> d * 2 ^ k \<and> d * 2 ^ k < (18446744073709551616 :: nat) \<and> k < 64"
  using assms
proof (induction "18446744073709551616 - d" arbitrary: d rule: less_induct)
  case less
  show ?case
  proof (cases "9223372036854775808 \<le> d")
    case True
    with less.prems show ?thesis by (intro exI [of _ 0]) simp
  next
    case False
    with less.prems have "18446744073709551616 - 2 * d < 18446744073709551616 - d" "0 < 2 * d" "2 * d < 18446744073709551616" by auto
    from less.hyps [OF this] obtain k
      where k: "9223372036854775808 \<le> 2 * d * 2 ^ k" "2 * d * 2 ^ k < (18446744073709551616 :: nat)" "k < 64" by blast
    have "Suc k < 64"
    proof (rule ccontr)
      assume "\<not> Suc k < 64"
      with k(3) have "k = 63" by simp
      with k(2) \<open>0 < d\<close> show False by simp
    qed
    with k show ?thesis by (intro exI [of _ "Suc k"]) (simp add: algebra_simps)
  qed
qed

text \<open>
  The subtraction loop, by induction on the number of bits left: with the denominator shifted by
  \<open>j\<close> and a numerator below twice the shifted denominator it divides.
\<close>

lemma div_loop_divides:
  assumes "unat den = d * 2 ^ j" "unat qbit = 2 ^ j" "j < 64" "0 < d"
    "unat num < d * 2 ^ Suc j"
  shows "div_loop num quot den qbit = (quot + of_nat (unat num div d), of_nat (unat num mod d))"
  using assms
proof (induction j arbitrary: num quot den qbit)
  case 0
  then have q1: "qbit = 1" by (simp add: word_eq_unat_iff)
  have stop: "div_loop n q x 0 = (q, n)" for n q x by (subst div_loop.simps) simp
  show ?case
  proof (cases "den \<le> num")
    case True
    then have le: "d \<le> unat num" using 0 by (simp add: word_le_nat_alt)
    with 0 have "unat num div d = 1" "unat num mod d = unat num - d"
      by (simp_all add: div_nat_eqI le_mod_geq)
    moreover have "num - den = of_nat (unat num - d)"
      using 0 True by (simp add: word_eq_unat_iff unat_sub_le unat_of_nat64 less_imp_diff_less)
    ultimately show ?thesis using True q1 by (subst div_loop.simps) (simp add: stop)
  next
    case False
    then have "unat num < d" using 0 by (simp add: word_le_nat_alt)
    with False q1 show ?thesis by (subst div_loop.simps) (simp add: stop)
  qed
next
  case (Suc j)
  have qbit: "unat (drop_bit 1 qbit) = 2 ^ j" "qbit \<noteq> 0"
    using Suc.prems by (auto simp: unat_drop_bit_div)
  have den: "unat (drop_bit 1 den) = d * 2 ^ j"
    using Suc.prems by (simp add: unat_drop_bit_div)
  show ?case
  proof (cases "den \<le> num")
    case True
    then have le: "d * 2 ^ Suc j \<le> unat num" using Suc.prems by (simp add: word_le_nat_alt)
    have sub: "unat (num - den) = unat num - d * 2 ^ Suc j"
      using True Suc.prems(1) by (simp add: unat_sub_le)
    have "div_loop (num - den) (quot + qbit) (drop_bit 1 den) (drop_bit 1 qbit) =
        (quot + qbit + of_nat (unat (num - den) div d), of_nat (unat (num - den) mod d))"
      using Suc.prems le sub qbit den by (intro Suc.IH) auto
    moreover have split: "unat num = unat (num - den) + 2 ^ Suc j * d"
      using le sub by (simp add: mult.commute)
    then have "unat num div d = unat (num - den) div d + 2 ^ Suc j"
      "unat num mod d = unat (num - den) mod d"
      using Suc.prems by (simp_all only: div_mult_self3 mod_mult_self1) simp_all
    moreover have "qbit = of_nat (2 ^ Suc j)"
      using Suc.prems(2) by (metis of_nat_unat scast_id ucast_id)
    ultimately show ?thesis
      using True qbit by (subst div_loop.simps) (simp add: algebra_simps)
  next
    case False
    then have "unat num < d * 2 ^ Suc j" using Suc.prems by (simp add: word_le_nat_alt)
    with Suc.prems qbit den have "div_loop num quot (drop_bit 1 den) (drop_bit 1 qbit) =
        (quot + of_nat (unat num div d), of_nat (unat num mod d))"
      by (intro Suc.IH) auto
    with False qbit show ?thesis by (subst div_loop.simps) simp
  qed
qed

lemma udivmoddi4_eq:
  assumes "den \<noteq> 0"
  shows "udivmoddi4 num den = Inr (num div den, num mod den)"
proof -
  let ?d = "unat den"
  have "0 < ?d" "?d < 18446744073709551616" using assms by (simp_all flip: unat_eq_0)
  from shift_exists [OF this] obtain k
    where k: "9223372036854775808 \<le> ?d * 2 ^ k" "?d * 2 ^ k < 18446744073709551616" "k < 64" by blast
  have "?d * 2 ^ Suc k = 2 * (?d * 2 ^ k)" by simp
  then have "unat num < ?d * 2 ^ Suc k" using k(1) unat_bound64 [of num] by linarith
  moreover have "unat (push_bit k (1 :: u64)) = 2 ^ k"
    using power_strict_increasing [OF k(3), of "2 :: nat"] by (subst unat_push_bit64) simp_all
  ultimately have "div_loop num 0 (push_bit k den) (push_bit k 1) =
      (of_nat (unat num div ?d), of_nat (unat num mod ?d))"
    using k \<open>0 < ?d\<close> by (subst div_loop_divides [where j = k and d = ?d])
      (simp_all add: unat_push_bit64)
  moreover have "of_nat (unat num div ?d) = num div den" "of_nat (unat num mod ?d) = num mod den"
    by (simp_all only: unat_div [symmetric] unat_mod [symmetric] of_nat_unat_same)
  ultimately show ?thesis
    using assms left_justify_total [OF k(1,2), of 1] by (simp add: udivmoddi4_def)
qed

lemma udivdi3_eq: "den \<noteq> 0 \<Longrightarrow> udivdi3 num den = Inr (num div den)"
  by (simp add: udivdi3_def udivmoddi4_eq)

lemma umoddi3_eq: "den \<noteq> 0 \<Longrightarrow> umoddi3 num den = Inr (num mod den)"
  by (simp add: umoddi3_def udivmoddi4_eq)

section \<open>The signed functions\<close>

text \<open>The magnitude the code computes is the absolute value, for the least integer too.\<close>

definition magnitude :: "u64 \<Rightarrow> u64" where
  "magnitude w = (if sint w < 0 then - w else w)"

lemma uint_magnitude: "uint (magnitude w) = \<bar>sint w\<bar>"
proof (cases "sint w < 0")
  case True
  have "- w = of_int (- sint w)" by simp
  then have "uint (- w) = uint (of_int (- sint w) :: u64)" by (rule arg_cong)
  also have "\<dots> = take_bit LENGTH(64) (- sint w)" by (simp add: unsigned_of_int del: of_int_minus)
  also have "\<dots> = take_bit 64 (- sint w)" by simp
  also have "\<dots> = - sint w"
  proof (rule take_bit_int_eq_self)
    show "0 \<le> - sint w" using True by simp
    show "- sint w < 2 ^ 64" using sint_ge [of w] by simp
  qed
  finally show ?thesis using True by (simp add: magnitude_def)
next
  case False
  then show ?thesis using sint_u64 [of w] uint_bound64 [of w]
    by (simp add: magnitude_def split: if_splits)
qed

lemma magnitude_0 [simp]: "magnitude w = 0 \<longleftrightarrow> w = 0"
  using uint_magnitude [of w] by (simp add: magnitude_def)

lemma magnitude_div: "magnitude a div magnitude b = of_int (\<bar>sint a\<bar> div \<bar>sint b\<bar>)"
  by (simp only: uint_magnitude [symmetric] uint_div [symmetric] of_int_uint_same)

lemma magnitude_mod: "magnitude a mod magnitude b = of_int (\<bar>sint a\<bar> mod \<bar>sint b\<bar>)"
  by (simp only: uint_magnitude [symmetric] uint_mod [symmetric] of_int_uint_same)

lemma divdi3_magnitude:
  "b \<noteq> 0 \<Longrightarrow> divdi3 a b = Inr (if (sint a < 0) \<noteq> (sint b < 0)
     then - (magnitude a div magnitude b) else magnitude a div magnitude b)"
  using udivmoddi4_eq [of "magnitude b" "magnitude a"]
  by (simp add: divdi3_def magnitude_def [symmetric] Let_def)

lemma moddi3_magnitude:
  "b \<noteq> 0 \<Longrightarrow> moddi3 a b = Inr (if (sint a < 0) \<noteq> (sint b < 0)
     then - (magnitude a mod magnitude b) else magnitude a mod magnitude b)"
  using udivmoddi4_eq [of "magnitude b" "magnitude a"]
  by (simp add: moddi3_def magnitude_def [symmetric] Let_def)

lemma divdi3_eq: "b \<noteq> 0 \<Longrightarrow> divdi3 a b = Inr (of_int (sint a sdiv sint b))"
  by (auto simp: divdi3_magnitude magnitude_div signed_divide_int_def sgn_if abs_if)

lemma moddi3_eq:
  "b \<noteq> 0 \<Longrightarrow> moddi3 a b = Inr (of_int (sgn (sint a) * sgn (sint b) * (\<bar>sint a\<bar> mod \<bar>sint b\<bar>)))"
  by (auto simp: moddi3_magnitude magnitude_mod sgn_if abs_if)

section \<open>The contract of a 64-bit division\<close>

text \<open>
  What the code that divides relies on: the quotient and the remainder of the division with
  remainder. The formatting of numbers is proved against this contract.
\<close>

locale unsigned_division =
  fixes udiv umod :: "u64 \<Rightarrow> u64 \<Rightarrow> fault + u64"
  assumes udiv_ok: "b \<noteq> 0 \<Longrightarrow> udiv a b = Inr (a div b)"
    and umod_ok: "b \<noteq> 0 \<Longrightarrow> umod a b = Inr (a mod b)"
begin

lemma reconstruct:
  "b \<noteq> 0 \<Longrightarrow> rbind (udiv a b) (\<lambda>q. rbind (umod a b) (\<lambda>r. Inr (q * b + r))) = Inr a"
  by (simp add: udiv_ok umod_ok div_mult_mod_eq)

end

interpretation gcc_udiv: unsigned_division udivdi3 umoddi3
  by unfold_locales (simp_all add: udivdi3_eq umoddi3_eq)

section \<open>Properties\<close>

text \<open>C31. The unsigned 64-bit division returns for every divisor but 0, with the quotient and the
  remainder; by 0 it faults.\<close>

theorem udivmoddi4_divides:
  "udivmoddi4 num den = (if den = 0 then Inl DivideError else Inr (num div den, num mod den))"
  by (simp add: udivmoddi4_eq) (simp add: udivmoddi4_def)

text \<open>The signed 64-bit division truncates towards zero for every divisor but 0, as C defines it;
  the one overflow, the least integer by -1, wraps.\<close>

lemma divdi3_truncates:
  "divdi3 a b = (if b = 0 then Inl DivideError else Inr (of_int (sint a sdiv sint b)))"
proof (cases "b = 0")
  case True
  then show ?thesis by (simp add: divdi3_def udivmoddi4_def Let_def)
qed (simp add: divdi3_eq)

text \<open>The signed remainder has the sign of the numerator times the sign of the denominator. C gives
  it the sign of the numerator, so for a negative denominator and a remainder other than 0 the result
  is wrong, as for 7 and -2.\<close>

lemma moddi3_sign:
  "moddi3 a b = (if b = 0 then Inl DivideError
     else Inr (of_int (sgn (sint a) * sgn (sint b) * (\<bar>sint a\<bar> mod \<bar>sint b\<bar>))))
   \<and> moddi3 7 (- 2) \<noteq> Inr (of_int (sint (7 :: u64) smod sint (- 2 :: u64)))"
proof
  show "moddi3 a b = (if b = 0 then Inl DivideError
      else Inr (of_int (sgn (sint a) * sgn (sint b) * (\<bar>sint a\<bar> mod \<bar>sint b\<bar>))))"
  proof (cases "b = 0")
    case True
    then show ?thesis by (simp add: moddi3_def udivmoddi4_def Let_def)
  qed (simp add: moddi3_eq)
  have "sint (7 :: u64) = 7" "sint (- 2 :: u64) = - 2" by (simp_all add: sint_u64)
  then show "moddi3 7 (- 2) \<noteq> Inr (of_int (sint (7 :: u64) smod sint (- 2 :: u64)))"
    by (simp add: moddi3_eq signed_modulo_int_def)
qed

end
