(* ===== verification/ByteMemory.thy ===== *)
theory ByteMemory
  imports Prelude
begin

text \<open>
  The byte-addressed memory the loader runs in: little-endian loads and stores of 16, 32 and 64
  bits, runs of bytes, and separation of regions. The address space is circular (the sum of an
  address and an offset wraps), so separation is stated on differences and needs no assumption
  on wrap-around.
\<close>

section \<open>Loads and stores\<close>

definition load16 :: "mem \<Rightarrow> u32 \<Rightarrow> u16" where
  "load16 m a = ucast (m a) OR push_bit 8 (ucast (m (a + 1)))"

definition load32 :: "mem \<Rightarrow> u32 \<Rightarrow> u32" where
  "load32 m a = ucast (m a) OR push_bit 8 (ucast (m (a + 1)))
     OR push_bit 16 (ucast (m (a + 2))) OR push_bit 24 (ucast (m (a + 3)))"

definition load64 :: "mem \<Rightarrow> u32 \<Rightarrow> u64" where
  "load64 m a = ucast (load32 m a) OR push_bit 32 (ucast (load32 m (a + 4)))"

definition store8 :: "mem \<Rightarrow> u32 \<Rightarrow> u8 \<Rightarrow> mem" where
  "store8 m a w = m(a := w)"

definition store16 :: "mem \<Rightarrow> u32 \<Rightarrow> u16 \<Rightarrow> mem" where
  "store16 m a w = m(a := ucast w, a + 1 := ucast (drop_bit 8 w))"

definition store32 :: "mem \<Rightarrow> u32 \<Rightarrow> u32 \<Rightarrow> mem" where
  "store32 m a w = m(a := ucast w, a + 1 := ucast (drop_bit 8 w),
     a + 2 := ucast (drop_bit 16 w), a + 3 := ucast (drop_bit 24 w))"

definition store64 :: "mem \<Rightarrow> u32 \<Rightarrow> u64 \<Rightarrow> mem" where
  "store64 m a w = store32 (store32 m a (ucast w)) (a + 4) (ucast (drop_bit 32 w))"

section \<open>Separation of regions\<close>

text \<open>
  \<open>sep a n b k\<close>: the \<open>n\<close> bytes from \<open>a\<close> and the \<open>k\<close> bytes from \<open>b\<close> have no
  address in common.
\<close>

definition sep :: "u32 \<Rightarrow> nat \<Rightarrow> u32 \<Rightarrow> nat \<Rightarrow> bool" where
  "sep a n b k \<longleftrightarrow> n = 0 \<or> k = 0 \<or> (n \<le> unat (b - a) \<and> k \<le> unat (a - b))"

lemma sep_sym: "sep a n b k \<longleftrightarrow> sep b k a n"
  by (auto simp: sep_def)

lemma sep_mono: "sep a n b k \<Longrightarrow> n' \<le> n \<Longrightarrow> k' \<le> k \<Longrightarrow> sep a n' b k'"
  by (auto simp: sep_def)

lemma sep_neq:
  assumes "sep a n b k" "i < n" "j < k"
  shows "a + of_nat i \<noteq> b + of_nat j"
proof
  assume eq: "a + of_nat i = b + of_nat j"
  from assms have le: "n \<le> unat (b - a)" "k \<le> unat (a - b)" by (auto simp: sep_def)
  with assms have small: "i < 4294967296" "j < 4294967296"
    using unat_bound32 [of "b - a"] unat_bound32 [of "a - b"] by linarith+
  show False
  proof (cases "j \<le> i")
    case True
    from eq have "b - a = of_nat i - of_nat j" by (simp add: algebra_simps)
    also have "\<dots> = of_nat (i - j)" using True by (simp add: of_nat_diff)
    finally have "unat (b - a) = i - j" using small by (simp add: unat_of_nat32)
    with assms le show False by simp
  next
    case False
    from eq have "a - b = of_nat j - of_nat i" by (simp add: algebra_simps)
    also have "\<dots> = of_nat (j - i)" using False by (simp add: of_nat_diff)
    finally have "unat (a - b) = j - i" using small by (simp add: unat_of_nat32)
    with assms le False show False by simp
  qed
qed

lemma sep_iff: "sep a n b k \<longleftrightarrow> (\<forall>i<n. \<forall>j<k. a + of_nat i \<noteq> b + of_nat j)"
proof
  assume "sep a n b k"
  then show "\<forall>i<n. \<forall>j<k. a + of_nat i \<noteq> b + of_nat j" using sep_neq by blast
next
  assume neq: "\<forall>i<n. \<forall>j<k. a + of_nat i \<noteq> b + of_nat j"
  show "sep a n b k"
  proof (rule ccontr)
    assume "\<not> sep a n b k"
    then consider "0 < k" "unat (b - a) < n" | "0 < n" "unat (a - b) < k"
      by (auto simp: sep_def)
    then show False
    proof cases
      case 1
      then show False using neq [rule_format, of "unat (b - a)" 0] by simp
    next
      case 2
      then show False using neq [rule_format, of 0 "unat (a - b)"] by simp
    qed
  qed
qed

lemma sep_sub:
  assumes "sep a n b k" "i + n' \<le> n"
  shows "sep (a + of_nat i) n' b k"
  unfolding sep_iff
proof (intro allI impI)
  fix i' j
  assume "i' < n'" "j < k"
  then have "a + of_nat (i + i') \<noteq> b + of_nat j"
    using sep_neq [OF assms(1), of "i + i'" j] assms(2) by simp
  then show "a + of_nat i + of_nat i' \<noteq> b + of_nat j" by (simp add: add.assoc)
qed

lemma sep_sub2: "sep a n b k \<Longrightarrow> j + k' \<le> k \<Longrightarrow> sep a n (b + of_nat j) k'"
  using sep_sub sep_sym by blast

text \<open>Separation is invariant under translation: offsets into one object compare directly.\<close>

lemma sep_translate [simp]:
  "sep (p + c) n (p + d) k \<longleftrightarrow> sep c n d k"
  "sep p n (p + d) k \<longleftrightarrow> sep 0 n d k"
  "sep (p + c) n p k \<longleftrightarrow> sep c n 0 k"
  by (simp_all add: sep_def)

lemma sep_numerals [simp]:
  "sep 0 n (numeral d) k \<longleftrightarrow> n = 0 \<or> k = 0 \<or> n \<le> unat (numeral d :: u32) \<and> k \<le> unat (- numeral d :: u32)"
  "sep (numeral c) n 0 k \<longleftrightarrow> n = 0 \<or> k = 0 \<or> n \<le> unat (- numeral c :: u32) \<and> k \<le> unat (numeral c :: u32)"
  "sep (numeral c) n (numeral d) k \<longleftrightarrow> n = 0 \<or> k = 0 \<or>
     n \<le> unat (numeral d - numeral c :: u32) \<and> k \<le> unat (numeral c - numeral d :: u32)"
  by (simp_all add: sep_def)

lemma sep_neq_num:
  assumes "sep a n b k"
  shows "0 < n \<Longrightarrow> 0 < k \<Longrightarrow> a \<noteq> b"
    and "0 < n \<Longrightarrow> numeral j < k \<Longrightarrow> a \<noteq> b + numeral j"
    and "0 < n \<Longrightarrow> 1 < k \<Longrightarrow> a \<noteq> b + 1"
    and "1 < n \<Longrightarrow> 0 < k \<Longrightarrow> a + 1 \<noteq> b"
    and "1 < n \<Longrightarrow> 1 < k \<Longrightarrow> a + 1 \<noteq> b + 1"
    and "1 < n \<Longrightarrow> numeral j < k \<Longrightarrow> a + 1 \<noteq> b + numeral j"
    and "numeral i < n \<Longrightarrow> 0 < k \<Longrightarrow> a + numeral i \<noteq> b"
    and "numeral i < n \<Longrightarrow> 1 < k \<Longrightarrow> a + numeral i \<noteq> b + 1"
    and "numeral i < n \<Longrightarrow> numeral j < k \<Longrightarrow> a + numeral i \<noteq> b + numeral j"
  using sep_neq [OF assms, of 0 0] sep_neq [OF assms, of 0 "numeral j"]
    sep_neq [OF assms, of 0 1] sep_neq [OF assms, of 1 0] sep_neq [OF assms, of 1 1]
    sep_neq [OF assms, of 1 "numeral j"] sep_neq [OF assms, of "numeral i" 0]
    sep_neq [OF assms, of "numeral i" 1] sep_neq [OF assms, of "numeral i" "numeral j"]
  by simp_all

text \<open>Regions that do not wrap are separate when one ends before the other starts.\<close>

lemma sep_below [sep_intros]:
  assumes "unat a + n \<le> unat b" "unat b + k \<le> 4294967296"
  shows "sep a n b k"
proof (cases "n = 0 \<or> k = 0")
  case True
  then show ?thesis by (auto simp: sep_def)
next
  case False
  with assms(1) have le: "unat a < unat b" by simp
  then have ba: "unat (b - a) = unat b - unat a"
    by (simp add: unat_sub_le word_le_nat_alt)
  from le have "unat (a - b) = unat a + 4294967296 - unat b"
    by (simp add: unat_sub_if')
  with ba assms le have "n \<le> unat (b - a) \<and> k \<le> unat (a - b)" by linarith
  then show ?thesis by (simp add: sep_def)
qed

lemma sep_above [sep_intros]:
  "unat b + k \<le> unat a \<Longrightarrow> unat a + n \<le> 4294967296 \<Longrightarrow> sep a n b k"
  using sep_below sep_sym by blast

section \<open>Reads after writes\<close>

lemma offset_neq [simp]:
  "(a :: u32) + 1 \<noteq> a" "a + 2 \<noteq> a" "a + 3 \<noteq> a" "a + 4 \<noteq> a"
  "a \<noteq> a + 1" "a \<noteq> a + 2" "a \<noteq> a + 3" "a \<noteq> a + 4"
  by simp_all

lemma load16_store16 [simp]: "load16 (store16 m a w) a = w"
  by (rule bit_word_eqI) (auto simp: load16_def store16_def bit_simps)

lemma byte_of_bit: "n < 32 \<Longrightarrow>
  n < 8 \<or> (\<exists>k<8. n = 8 + k) \<or> (\<exists>k<8. n = 16 + k) \<or> (\<exists>k<8. n = 24 + k)" for n :: nat
  by presburger

lemma load32_store32 [simp]: "load32 (store32 m a w) a = w"
proof (rule bit_word_eqI)
  fix n
  assume "n < LENGTH(32)"
  then have "n < 8 \<or> (\<exists>k<8. n = 8 + k) \<or> (\<exists>k<8. n = 16 + k) \<or> (\<exists>k<8. n = 24 + k)"
    by (intro byte_of_bit) simp
  then show "bit (load32 (store32 m a w) a) n \<longleftrightarrow> bit w n"
    by (elim disjE exE conjE) (simp_all add: load32_def store32_def bit_simps)
qed

text \<open>Two memories agree on a region; the frame of every write is stated with it.\<close>

definition agree :: "mem \<Rightarrow> mem \<Rightarrow> u32 \<Rightarrow> nat \<Rightarrow> bool" where
  "agree m m' a n \<longleftrightarrow> (\<forall>i<n. m (a + of_nat i) = m' (a + of_nat i))"

lemma agree_refl [simp]: "agree m m a n"
  by (simp add: agree_def)

lemma agree_sym: "agree m m' a n \<Longrightarrow> agree m' m a n"
  by (simp add: agree_def)

lemma agree_trans: "agree m1 m2 a n \<Longrightarrow> agree m2 m3 a n \<Longrightarrow> agree m1 m3 a n"
  by (simp add: agree_def)

lemma agree_sub:
  assumes "agree m m' a n" "k + j \<le> n"
  shows "agree m m' (a + of_nat k) j"
  unfolding agree_def
proof (intro allI impI)
  fix i
  assume "i < j"
  with assms(2) have "k + i < n" by simp
  with assms(1) have "m (a + of_nat (k + i)) = m' (a + of_nat (k + i))"
    unfolding agree_def by blast
  then show "m (a + of_nat k + of_nat i) = m' (a + of_nat k + of_nat i)"
    by (simp add: add.assoc)
qed

lemma agree_prefix: "agree m m' a n \<Longrightarrow> j \<le> n \<Longrightarrow> agree m m' a j"
  using agree_sub [of m m' a n 0 j] by simp

lemma agree_upd: "sep a n b k \<Longrightarrow> i < n \<Longrightarrow> agree m (m(a + of_nat i := w)) b k"
  using sep_neq [of a n b k i] by (fastforce simp: agree_def)

lemma agreeD:
  assumes "agree m m' a n"
  shows "0 < n \<Longrightarrow> m a = m' a"
    and "1 < n \<Longrightarrow> m (a + 1) = m' (a + 1)"
    and "numeral i < n \<Longrightarrow> m (a + numeral i) = m' (a + numeral i)"
  using assms [unfolded agree_def, rule_format, of 0]
    assms [unfolded agree_def, rule_format, of 1]
    assms [unfolded agree_def, rule_format, of "numeral i"]
  by simp_all

section \<open>Cells: the contract of a load and store pair\<close>

text \<open>
  Every width of access obeys the same three laws: a load gives back what was stored, a store
  writes its own bytes only, a load reads its own bytes only.
\<close>

locale cell =
  fixes load :: "mem \<Rightarrow> u32 \<Rightarrow> 'w"
    and store :: "mem \<Rightarrow> u32 \<Rightarrow> 'w \<Rightarrow> mem"
    and width :: nat
  assumes load_store: "load (store m a w) a = w"
    and store_frame: "sep a width b k \<Longrightarrow> agree m (store m a w) b k"
    and load_cong: "agree m m' a width \<Longrightarrow> load m a = load m' a"
begin

lemma load_store_sep: "sep a width b width \<Longrightarrow> load (store m a w) b = load m b"
  using load_cong store_frame by metis

lemma store_keeps: "agree m m' b k \<Longrightarrow> sep a width b k \<Longrightarrow> agree m (store m' a w) b k"
  using store_frame agree_trans by blast

end

text \<open>A load of one width after a store of another.\<close>

locale cell_pair = rd: cell load store width + wr: cell load' store' width'
  for load :: "mem \<Rightarrow> u32 \<Rightarrow> 'w" and store and width
    and load' :: "mem \<Rightarrow> u32 \<Rightarrow> 'v" and store' and width'
begin

lemma load_other_sep: "sep a width' b width \<Longrightarrow> load (store' m a w) b = load m b"
  using rd.load_cong wr.store_frame by metis

end

lemma store32_frame: "sep a 4 b k \<Longrightarrow> agree m (store32 m a w) b k"
  using agree_trans [OF agree_trans [OF agree_trans [OF agree_upd [of a 4 b k 0 m]
    agree_upd [of a 4 b k 1]] agree_upd [of a 4 b k 2]] agree_upd [of a 4 b k 3]]
  by (simp add: store32_def)

lemma load32_cong: "agree m m' a 4 \<Longrightarrow> load32 m a = load32 m' a"
  by (simp add: load32_def agreeD [of m m' a 4])

interpretation c8: cell "\<lambda>m a. m a" store8 1
  by unfold_locales
    (use agree_upd [of _ 1 _ _ 0] in \<open>auto simp: store8_def agree_def sep_neq_num\<close>)

lemma store16_frame: "sep a 2 b k \<Longrightarrow> agree m (store16 m a w) b k"
  using agree_trans [OF agree_upd [of a 2 b k 0 m] agree_upd [of a 2 b k 1]]
  by (simp add: store16_def)

lemma load16_cong: "agree m m' a 2 \<Longrightarrow> load16 m a = load16 m' a"
  by (simp add: load16_def agreeD [of m m' a 2])

interpretation c16: cell load16 store16 2
  by unfold_locales (simp, erule store16_frame, erule load16_cong)

interpretation c32: cell load32 store32 4
  by unfold_locales (simp, erule store32_frame, erule load32_cong)

lemma store64_frame: "sep a 8 b k \<Longrightarrow> agree m (store64 m a w) b k"
proof -
  assume s: "sep a 8 b k"
  then have "sep a 4 b k" by (rule sep_mono) simp_all
  moreover from s have "sep (a + of_nat 4) 4 b k" by (rule sep_sub) simp
  ultimately show ?thesis
    unfolding store64_def
    using store32_frame [of a b k m] store32_frame [of "a + 4" b k] by (auto intro: agree_trans)
qed

lemma load64_cong: "agree m m' a 8 \<Longrightarrow> load64 m a = load64 m' a"
  using load32_cong [of m m' a] load32_cong [of m m' "a + 4"]
    agree_prefix [of m m' a 8 4] agree_sub [of m m' a 8 4 4]
  by (simp add: load64_def)

lemma load64_store64 [simp]: "load64 (store64 m a w) a = w"
proof (rule bit_word_eqI)
  fix n
  assume n: "n < LENGTH(64)"
  have "load32 (store64 m a w) a = ucast w"
    by (simp add: store64_def c32.load_store_sep)
  moreover have "load32 (store64 m a w) (a + 4) = ucast (drop_bit 32 w)"
    by (simp add: store64_def)
  moreover have "n < 32 \<or> (\<exists>k<32. n = 32 + k)" using n by simp presburger
  ultimately show "bit (load64 (store64 m a w) a) n \<longleftrightarrow> bit w n"
    by (elim disjE exE conjE) (simp_all add: load64_def bit_simps)
qed

interpretation c64: cell load64 store64 8
  by unfold_locales (simp, erule store64_frame, erule load64_cong)

interpretation p32_64: cell_pair load32 store32 4 load64 store64 8 ..

interpretation p64_32: cell_pair load64 store64 8 load32 store32 4 ..

interpretation p8_32: cell_pair "\<lambda>m a. m a" store8 1 load32 store32 4 ..

interpretation p32_8: cell_pair load32 store32 4 "\<lambda>m a. m a" store8 1 ..

lemmas load_store_simps = c8.load_store_sep c16.load_store_sep c32.load_store_sep
  c64.load_store_sep p32_64.load_other_sep p64_32.load_other_sep p8_32.load_other_sep
  p32_8.load_other_sep

lemmas store_frames = store16_frame store32_frame store64_frame

section \<open>Runs of bytes\<close>

definition load_bytes :: "mem \<Rightarrow> u32 \<Rightarrow> nat \<Rightarrow> u8 list" where
  "load_bytes m a n = map (\<lambda>i. m (a + of_nat i)) [0..<n]"

primrec store_bytes :: "mem \<Rightarrow> u32 \<Rightarrow> u8 list \<Rightarrow> mem" where
  "store_bytes m a [] = m"
| "store_bytes m a (b # bs) = store_bytes (m(a := b)) (a + 1) bs"

lemma length_load_bytes [simp]: "length (load_bytes m a n) = n"
  by (simp add: load_bytes_def)

lemma nth_load_bytes [simp]: "i < n \<Longrightarrow> load_bytes m a n ! i = m (a + of_nat i)"
  by (simp add: load_bytes_def)

lemma load_bytes_eq_iff: "load_bytes m a n = load_bytes m' a n \<longleftrightarrow> agree m m' a n"
  by (auto simp: agree_def load_bytes_def)

lemma load_bytes_0 [simp]: "load_bytes m a 0 = []"
  by (simp add: load_bytes_def)

lemma load_bytes_Suc: "load_bytes m a (Suc n) = m a # load_bytes m (a + 1) n"
  by (rule nth_equalityI) (auto simp: nth_Cons add.assoc split: nat.splits)

lemma load_bytes_append:
  "load_bytes m a (n + k) = load_bytes m a n @ load_bytes m (a + of_nat n) k"
  by (rule nth_equalityI) (auto simp: nth_append add.assoc simp flip: of_nat_add)

lemma store_bytes_frame: "sep a (length bs) b k \<Longrightarrow> agree m (store_bytes m a bs) b k"
proof (induction bs arbitrary: m a)
  case Nil
  then show ?case by simp
next
  case (Cons c bs)
  have "agree m (m(a := c)) b k"
    using agree_upd [OF Cons.prems, of 0 m c] by simp
  moreover have "sep (a + of_nat 1) (length bs) b k"
    using Cons.prems by (rule sep_sub) simp
  then have "agree (m(a := c)) (store_bytes (m(a := c)) (a + 1) bs) b k"
    by (intro Cons.IH) simp
  ultimately show ?case by (auto intro: agree_trans)
qed

lemma load_bytes_store_bytes:
  "length bs \<le> 4294967296 \<Longrightarrow> load_bytes (store_bytes m a bs) a (length bs) = bs"
proof (induction bs arbitrary: m a)
  case Nil
  then show ?case by simp
next
  case (Cons c bs)
  have "sep (a + 1) (length bs) a 1"
    using Cons.prems by (simp add: sep_def)
  then have "agree (m(a := c)) (store_bytes (m(a := c)) (a + 1) bs) a 1"
    by (rule store_bytes_frame)
  then have "store_bytes (m(a := c)) (a + 1) bs a = c"
    by (simp add: agree_def)
  with Cons show ?case by (simp add: load_bytes_Suc)
qed

end
