(* ===== verification/CLib.thy ===== *)
theory CLib
  imports ByteMemory
begin

text \<open>
  The C library of the loader, lib.c: the memory functions and the string functions, on the byte
  memory. A loop that counts \<open>size_t\<close> down is a recursion on its count. A scan for the
  terminating zero byte that may not end (an address space of non-zero bytes, or a string that is
  overwritten while it is copied) is a \<open>partial_function\<close>: not returning is \<open>None\<close>. A null
  result pointer is the address 0.
\<close>

section \<open>The memory functions\<close>

primrec memset_loop :: "nat \<Rightarrow> mem \<Rightarrow> u32 \<Rightarrow> u8 \<Rightarrow> mem" where
  "memset_loop 0 m temp v = m"
| "memset_loop (Suc n) m temp v = memset_loop n (m(temp := v)) (temp + 1) v"

definition memset :: "mem \<Rightarrow> u32 \<Rightarrow> u32 \<Rightarrow> u32 \<Rightarrow> mem" where
  "memset m dest val count = memset_loop (unat count) m dest (ucast val)"

primrec memcpy_loop :: "nat \<Rightarrow> mem \<Rightarrow> u32 \<Rightarrow> u32 \<Rightarrow> mem" where
  "memcpy_loop 0 m d s = m"
| "memcpy_loop (Suc n) m d s = memcpy_loop n (m(d := m s)) (d + 1) (s + 1)"

definition memcpy :: "mem \<Rightarrow> u32 \<Rightarrow> u32 \<Rightarrow> u32 \<Rightarrow> mem" where
  "memcpy m dest src count = memcpy_loop (unat count) m dest src"

primrec memmove_back :: "nat \<Rightarrow> mem \<Rightarrow> u32 \<Rightarrow> u32 \<Rightarrow> mem" where
  "memmove_back 0 m d s = m"
| "memmove_back (Suc n) m d s = memmove_back n (m(d := m s)) (d - 1) (s - 1)"

definition memmove :: "mem \<Rightarrow> u32 \<Rightarrow> u32 \<Rightarrow> u32 \<Rightarrow> mem" where
  "memmove m dest src count =
     (if dest < src then memcpy_loop (unat count) m dest src
      else memmove_back (unat count) m (dest + count) (src + count))"

primrec memcmp_loop :: "nat \<Rightarrow> mem \<Rightarrow> u32 \<Rightarrow> u32 \<Rightarrow> int" where
  "memcmp_loop 0 m sp1 sp2 = 0"
| "memcmp_loop (Suc n) m sp1 sp2 =
     (if m sp1 = m sp2 then memcmp_loop n m (sp1 + 1) (sp2 + 1)
      else uint (m sp1) - uint (m sp2))"

definition memcmp :: "mem \<Rightarrow> u32 \<Rightarrow> u32 \<Rightarrow> u32 \<Rightarrow> int" where
  "memcmp m s1 s2 len = memcmp_loop (unat len) m s1 s2"

section \<open>The string functions\<close>

definition tolower :: "u8 \<Rightarrow> u8" where
  "tolower c = (if 65 \<le> sint c \<and> sint c \<le> 90 then 97 + (c - 65) else c)"

partial_function (option) strlen_loop :: "mem \<Rightarrow> u32 \<Rightarrow> u32 \<Rightarrow> u32 option" where
  "strlen_loop m str retval =
     (if m str \<noteq> 0 then strlen_loop m (str + 1) (retval + 1) else Some retval)"

definition strlen :: "mem \<Rightarrow> u32 \<Rightarrow> u32 option" where
  "strlen m str = strlen_loop m str 0"

partial_function (option) strcpy :: "mem \<Rightarrow> u32 \<Rightarrow> u32 \<Rightarrow> mem option" where
  "strcpy m dest src =
     (let m' = m(dest := m src) in if m src = 0 then Some m' else strcpy m' (dest + 1) (src + 1))"

primrec strncpy_loop :: "nat \<Rightarrow> mem \<Rightarrow> u32 \<Rightarrow> u32 \<Rightarrow> mem" where
  "strncpy_loop 0 m s1 s2 = m"
| "strncpy_loop (Suc n) m s1 s2 =
     (if m s2 \<noteq> 0 then strncpy_loop n (m(s1 := m s2)) (s1 + 1) (s2 + 1)
      else memset_loop (Suc n) m s1 0)"

definition strncpy :: "mem \<Rightarrow> u32 \<Rightarrow> u32 \<Rightarrow> u32 \<Rightarrow> mem" where
  "strncpy m s1 s2 n = strncpy_loop (unat n) m s1 s2"

partial_function (option) strcmp :: "mem \<Rightarrow> u32 \<Rightarrow> u32 \<Rightarrow> int option" where
  "strcmp m s1 s2 =
     (if m s1 \<noteq> 0 \<and> m s1 = m s2 then strcmp m (s1 + 1) (s2 + 1)
      else if m s1 = 0 \<or> m s2 = 0 then Some (uint (m s1) - uint (m s2))
      else Some (sint (m s1) - sint (m s2)))"

partial_function (option) stricmp :: "mem \<Rightarrow> u32 \<Rightarrow> u32 \<Rightarrow> int option" where
  "stricmp m s1 s2 =
     (if m s1 \<noteq> 0 \<and> tolower (m s1) = tolower (m s2) then stricmp m (s1 + 1) (s2 + 1)
      else if m s1 = 0 \<or> m s2 = 0 then Some (uint (tolower (m s1)) - uint (tolower (m s2)))
      else Some (sint (tolower (m s1)) - sint (tolower (m s2))))"

primrec strncmp_loop :: "nat \<Rightarrow> mem \<Rightarrow> u32 \<Rightarrow> u32 \<Rightarrow> int" where
  "strncmp_loop 0 m s1 s2 = 0"
| "strncmp_loop (Suc n) m s1 s2 =
     (if m s1 \<noteq> m s2 then uint (m s1) - uint (m s2)
      else if m s1 = 0 then 0
      else strncmp_loop n m (s1 + 1) (s2 + 1))"

definition strncmp :: "mem \<Rightarrow> u32 \<Rightarrow> u32 \<Rightarrow> u32 \<Rightarrow> int" where
  "strncmp m s1 s2 n = strncmp_loop (unat n) m s1 s2"

partial_function (option) strchr :: "mem \<Rightarrow> u32 \<Rightarrow> int \<Rightarrow> u32 option" where
  "strchr m s c =
     (if sint (m s) = c then Some s
      else if m s = 0 then Some 0
      else strchr m (s + 1) c)"

text \<open>\<open>strrchr\<close>: index the terminating zero, then test the indices down to 0.\<close>

partial_function (option) strrchr_end :: "mem \<Rightarrow> u32 \<Rightarrow> u32 \<Rightarrow> u32 option" where
  "strrchr_end m s i = (if m (s + i) \<noteq> 0 then strrchr_end m s (i + 1) else Some i)"

primrec strrchr_down :: "nat \<Rightarrow> mem \<Rightarrow> u32 \<Rightarrow> int \<Rightarrow> u32" where
  "strrchr_down 0 m s c = (if sint (m s) = c then s else 0)"
| "strrchr_down (Suc i) m s c =
     (if sint (m (s + of_nat (Suc i))) = c then s + of_nat (Suc i) else strrchr_down i m s c)"

definition strrchr :: "mem \<Rightarrow> u32 \<Rightarrow> int \<Rightarrow> u32 option" where
  "strrchr m s c = map_option (\<lambda>i. strrchr_down (unat i) m s c) (strrchr_end m s 0)"

definition strcat :: "mem \<Rightarrow> u32 \<Rightarrow> u32 \<Rightarrow> mem option" where
  "strcat m dst src = Option.bind (strchr m dst 0) (\<lambda>e. strcpy m e src)"

definition strncat :: "mem \<Rightarrow> u32 \<Rightarrow> u32 \<Rightarrow> u32 \<Rightarrow> mem option" where
  "strncat m dst src n = map_option (\<lambda>e. strncpy m e src n) (strchr m dst 0)"

section \<open>Lemmas: memset and memcpy\<close>

lemma memset_loop_frame: "sep d n b k \<Longrightarrow> agree m (memset_loop n m d v) b k"
proof (induction n arbitrary: m d)
  case 0
  then show ?case by simp
next
  case (Suc n)
  have "agree m (m(d := v)) b k"
    using agree_upd [OF Suc.prems, of 0 m v] by simp
  moreover have "agree (m(d := v)) (memset_loop n (m(d := v)) (d + 1) v) b k"
    using sep_sub [OF Suc.prems, of 1 n] by (intro Suc.IH) simp
  ultimately show ?case by (auto intro: agree_trans)
qed

lemma memset_loop_value: "n \<le> 4294967296 \<Longrightarrow> load_bytes (memset_loop n m d v) d n = replicate n v"
proof (induction n arbitrary: m d)
  case 0
  then show ?case by simp
next
  case (Suc n)
  have "sep (d + 1) n d 1" using Suc.prems by (simp add: sep_def)
  then have "agree (m(d := v)) (memset_loop n (m(d := v)) (d + 1) v) d 1"
    by (rule memset_loop_frame)
  with Suc show ?case by (simp add: load_bytes_Suc agree_def)
qed

lemma memset_frame: "sep d (unat n) b k \<Longrightarrow> agree m (memset m d v n) b k"
  by (simp add: memset_def memset_loop_frame)

lemma memset_value: "load_bytes (memset m d v n) d (unat n) = replicate (unat n) (ucast v)"
  by (simp add: memset_def memset_loop_value less_imp_le)

text \<open>
  The forward copy is right when no byte is overwritten before it is read, which holds for
  separate regions and for a destination below the source.
\<close>

definition fwd_ok :: "u32 \<Rightarrow> u32 \<Rightarrow> nat \<Rightarrow> bool" where
  "fwd_ok d s n \<longleftrightarrow> (\<forall>j<n. \<forall>i<j. d + of_nat i \<noteq> s + of_nat j)"

lemma fwd_ok_Suc: "fwd_ok d s (Suc n) \<Longrightarrow> fwd_ok (d + 1) (s + 1) n"
  by (fastforce simp: fwd_ok_def)

lemma fwd_ok_sep: "sep d n s n \<Longrightarrow> fwd_ok d s n"
  by (auto simp: fwd_ok_def sep_iff)

lemma fwd_ok_below:
  assumes "d < s" "unat s + n \<le> 4294967296"
  shows "fwd_ok d s n"
  unfolding fwd_ok_def
proof (intro allI impI notI)
  fix i j
  assume ij: "j < n" "i < j" and eq: "d + of_nat i = s + of_nat j"
  have "unat (s + of_nat j) = unat s + j" "unat (d + of_nat i) = unat d + i"
    using assms ij by (auto intro!: unat_add_of_nat32 simp: word_less_nat_alt)
  with eq ij assms(1) show False by (simp add: word_less_nat_alt)
qed

lemma memcpy_loop_frame: "sep d n b k \<Longrightarrow> agree m (memcpy_loop n m d s) b k"
proof (induction n arbitrary: m d s)
  case 0
  then show ?case by simp
next
  case (Suc n)
  have "agree m (m(d := m s)) b k"
    using agree_upd [OF Suc.prems, of 0 m "m s"] by simp
  moreover have "agree (m(d := m s)) (memcpy_loop n (m(d := m s)) (d + 1) (s + 1)) b k"
    using sep_sub [OF Suc.prems, of 1 n] by (intro Suc.IH) simp
  ultimately show ?case by (auto intro: agree_trans)
qed

lemma memcpy_loop_value:
  "n \<le> 4294967296 \<Longrightarrow> fwd_ok d s n \<Longrightarrow> load_bytes (memcpy_loop n m d s) d n = load_bytes m s n"
proof (induction n arbitrary: m d s)
  case 0
  then show ?case by simp
next
  case (Suc n)
  let ?m1 = "m(d := m s)"
  have "sep (d + 1) n d 1" using Suc.prems by (simp add: sep_def)
  then have "agree ?m1 (memcpy_loop n ?m1 (d + 1) (s + 1)) d 1"
    by (rule memcpy_loop_frame)
  then have first: "memcpy_loop n ?m1 (d + 1) (s + 1) d = m s"
    by (simp add: agree_def)
  have "agree m ?m1 (s + 1) n"
    using Suc.prems(2) by (fastforce simp: agree_def fwd_ok_def add.assoc)
  then have "load_bytes (memcpy_loop n ?m1 (d + 1) (s + 1)) (d + 1) n = load_bytes m (s + 1) n"
    using Suc fwd_ok_Suc by (simp add: load_bytes_eq_iff agree_sym)
  with first show ?case by (simp add: load_bytes_Suc)
qed

lemma memcpy_frame: "sep d (unat n) b k \<Longrightarrow> agree m (memcpy m d s n) b k"
  by (simp add: memcpy_def memcpy_loop_frame)

lemma memcpy_value:
  "sep d (unat n) s (unat n) \<Longrightarrow> load_bytes (memcpy m d s n) d (unat n) = load_bytes m s (unat n)"
  by (simp add: memcpy_def memcpy_loop_value fwd_ok_sep less_imp_le)

section \<open>Lemmas: memmove\<close>

lemma memmove_forward:
  assumes "dest < src" "unat src + unat n \<le> 4294967296"
  shows "load_bytes (memmove m dest src n) dest (unat n) = load_bytes m src (unat n)"
  using assms fwd_ok_below
  by (simp add: memmove_def memcpy_loop_value less_imp_le)

text \<open>
  The backward copy starts at \<open>dest + count\<close> and \<open>src + count\<close>, one past the last byte of each
  region: it moves the bytes at offsets 1 to \<open>count\<close>, not those at 0 to \<open>count - 1\<close>.
\<close>

lemma memmove_back_other:
  "(\<And>i. i < n \<Longrightarrow> x \<noteq> d - of_nat i) \<Longrightarrow> memmove_back n m d s x = m x"
proof (induction n arbitrary: m d s)
  case 0
  then show ?case by simp
next
  case (Suc n)
  have "x \<noteq> d" using Suc.prems [of 0] by simp
  moreover have "x \<noteq> d - 1 - of_nat i" if "i < n" for i
    using Suc.prems [of "Suc i"] that by (simp add: algebra_simps)
  ultimately show ?case using Suc.IH by simp
qed

lemma memmove_back_value:
  assumes "n \<le> 4294967296"
    and "\<And>i j. j < n \<Longrightarrow> i < j \<Longrightarrow> d - of_nat i \<noteq> s - of_nat j"
    and "k < n"
  shows "memmove_back n m d s (d - of_nat k) = m (s - of_nat k)"
  using assms
proof (induction n arbitrary: m d s k)
  case 0
  then show ?case by simp
next
  case (Suc n)
  let ?m1 = "m(d := m s)"
  show ?case
  proof (cases k)
    case 0
    have "d \<noteq> d - 1 - of_nat i" if "i < n" for i
    proof
      assume "d = d - 1 - of_nat i"
      then have "(of_nat (Suc i) :: u32) = 0" by (simp add: algebra_simps)
      then have "unat (of_nat (Suc i) :: u32) = 0" by simp
      with that Suc.prems(1) show False
        by (simp add: unat_of_nat32 del: unat_eq_0 of_nat_Suc)
    qed
    then have "memmove_back n ?m1 (d - 1) (s - 1) d = ?m1 d"
      by (rule memmove_back_other)
    with 0 show ?thesis by simp
  next
    case (Suc k')
    have step: "d - 1 - of_nat i \<noteq> s - 1 - of_nat j" if "j < n" "i < j" for i j
      using Suc.prems(2) [of "Suc j" "Suc i"] that by (simp add: algebra_simps)
    have "memmove_back n ?m1 (d - 1) (s - 1) (d - 1 - of_nat k') = ?m1 (s - 1 - of_nat k')"
      using Suc.prems Suc step by (intro Suc.IH) auto
    moreover have "s - 1 - of_nat k' \<noteq> d"
      using Suc.prems(2) [of k 0] Suc.prems(3) Suc by (auto simp: algebra_simps)
    ultimately show ?thesis using Suc by (simp add: algebra_simps)
  qed
qed

lemma memmove_backward:
  assumes le: "src \<le> dest" and room: "unat dest + unat n < 4294967296"
  shows "0 < i \<Longrightarrow> i \<le> unat n \<Longrightarrow> memmove m dest src n (dest + of_nat i) = m (src + of_nat i)"
    and "(\<And>i. 0 < i \<Longrightarrow> i \<le> unat n \<Longrightarrow> x \<noteq> dest + of_nat i) \<Longrightarrow> memmove m dest src n x = m x"
proof -
  have move: "memmove m dest src n = memmove_back (unat n) m (dest + n) (src + n)"
    using le by (simp add: memmove_def leD)
  have neq: "dest + n - of_nat i \<noteq> src + n - of_nat j" if "j < unat n" "i < j" for i j
  proof
    assume "dest + n - of_nat i = src + n - of_nat j"
    then have "dest + of_nat j = src + of_nat i" by (simp add: algebra_simps)
    moreover have "unat (dest + of_nat j) = unat dest + j" "unat (src + of_nat i) = unat src + i"
      using that room le by (auto intro!: unat_add_of_nat32 simp: word_le_nat_alt)
    ultimately show False using that le by (simp add: word_le_nat_alt)
  qed
  have off: "dest + of_nat i = dest + n - of_nat (unat n - i)" if "i \<le> unat n" for i
    using that by (simp add: of_nat_diff)
  have soff: "src + of_nat i = src + n - of_nat (unat n - i)" if "i \<le> unat n" for i
    using that by (simp add: of_nat_diff)
  show "memmove m dest src n (dest + of_nat i) = m (src + of_nat i)"
    if "0 < i" "i \<le> unat n" for i
    unfolding move off [OF that(2)] soff [OF that(2)]
    using that neq by (intro memmove_back_value) (auto simp: less_imp_le)
  show "memmove m dest src n x = m x" if x: "\<And>i. 0 < i \<Longrightarrow> i \<le> unat n \<Longrightarrow> x \<noteq> dest + of_nat i"
    unfolding move
  proof (rule memmove_back_other)
    fix i
    assume "i < unat n"
    then show "x \<noteq> dest + n - of_nat i"
      using x [of "unat n - i"] by (simp add: of_nat_diff add_diff_eq)
  qed
qed

section \<open>Lemmas: comparison of memory\<close>

lemma memcmp_loop_0: "memcmp_loop n m a b = 0 \<longleftrightarrow> load_bytes m a n = load_bytes m b n"
  by (induction n arbitrary: a b) (simp_all add: load_bytes_Suc)

lemma memcmp_0: "memcmp m a b n = 0 \<longleftrightarrow> load_bytes m a (unat n) = load_bytes m b (unat n)"
  by (simp add: memcmp_def memcmp_loop_0)

section \<open>Lemmas: C strings\<close>

text \<open>\<open>cstr m p s\<close>: the zero-terminated string at \<open>p\<close> has the characters \<open>s\<close>.\<close>

primrec cstr :: "mem \<Rightarrow> u32 \<Rightarrow> u8 list \<Rightarrow> bool" where
  "cstr m p [] \<longleftrightarrow> m p = 0"
| "cstr m p (c # cs) \<longleftrightarrow> c \<noteq> 0 \<and> m p = c \<and> cstr m (p + 1) cs"

lemma cstr_load_bytes:
  "cstr m p s \<longleftrightarrow> load_bytes m p (Suc (length s)) = s @ [0] \<and> 0 \<notin> set s"
  by (induction s arbitrary: p) (auto simp: load_bytes_Suc)

lemma cstr_unique: "cstr m p s \<Longrightarrow> cstr m p t \<Longrightarrow> s = t"
proof (induction s arbitrary: p t)
  case Nil
  then show ?case by (cases t) auto
next
  case (Cons c s)
  then show ?case by (cases t) auto
qed

lemma cstr_agree: "agree m m' p (Suc (length s)) \<Longrightarrow> cstr m p s \<longleftrightarrow> cstr m' p s"
  unfolding cstr_load_bytes load_bytes_eq_iff [symmetric] by simp

text \<open>The length of a string is below the size of the address space.\<close>

lemma cstr_length: "cstr m p s \<Longrightarrow> length s < 4294967296"
proof (rule ccontr)
  assume cs: "cstr m p s" and "\<not> length s < 4294967296"
  then have long: "unat (of_nat (length s) :: u32) < length s"
    using unat_bound32 [of "of_nat (length s)"] by linarith
  from cs have eq: "load_bytes m p (Suc (length s)) = s @ [0]" and nz: "0 \<notin> set s"
    by (auto simp: cstr_load_bytes)
  have "m (p + of_nat (length s)) = 0"
    using arg_cong [OF eq, of "\<lambda>xs. xs ! length s"] by (simp add: nth_load_bytes)
  moreover have "m (p + of_nat (unat (of_nat (length s) :: u32))) = s ! unat (of_nat (length s) :: u32)"
    using arg_cong [OF eq, of "\<lambda>xs. xs ! unat (of_nat (length s) :: u32)"] long
    by (simp add: nth_append )
  ultimately show False using nz long by (metis nth_mem of_nat_unat scast_id ucast_id)
qed

lemma strlen_loop_cstr: "cstr m p s \<Longrightarrow> strlen_loop m p r = Some (r + of_nat (length s))"
proof (induction s arbitrary: p r)
  case Nil
  then show ?case by (subst strlen_loop.simps) simp
next
  case (Cons c s)
  then show ?case by (subst strlen_loop.simps) (simp add: add.assoc)
qed

lemma strlen_cstr: "cstr m p s \<Longrightarrow> strlen m p = Some (of_nat (length s))"
  by (simp add: strlen_def strlen_loop_cstr)

lemma strlen_loop_zero: "strlen_loop m p r = Some x \<Longrightarrow> \<exists>a. m a = 0"
  by (rule strlen_loop.raw_induct [of "\<lambda>m p r x. \<exists>a. m a = 0"]) (auto split: if_splits)

lemma cstr_exists:
  assumes "m a = 0"
  shows "\<exists>s. cstr m p s"
proof (induction "unat (a - p)" arbitrary: p rule: less_induct)
  case less
  show ?case
  proof (cases "m p = 0")
    case True
    then have "cstr m p []" by simp
    then show ?thesis by blast
  next
    case False
    with assms have "a - p \<noteq> 0" by auto
    then have "unat (a - p - 1) < unat (a - p)"
      by (simp add: unat_minus_one flip: unat_eq_0 del: unat_eq_0)
    then have "unat (a - (p + 1)) < unat (a - p)" by (simp add: diff_diff_eq)
    with less obtain s where "cstr m (p + 1) s" by blast
    with False have "cstr m p (m p # s)" by simp
    then show ?thesis by blast
  qed
qed

lemma tolower_0 [simp]: "tolower c = 0 \<longleftrightarrow> c = 0"
proof (cases "65 \<le> sint c \<and> sint c \<le> 90")
  case True
  have "97 + (c - 65) \<noteq> 0"
  proof
    assume "97 + (c - 65) = 0"
    then have "c + 32 = 0" by (simp add: algebra_simps)
    then have "c = - 32" by (simp add: eq_neg_iff_add_eq_0)
    with True show False by simp
  qed
  moreover from True have "c \<noteq> 0" by auto
  ultimately show ?thesis using True by (simp add: tolower_def)
next
  case False
  then show ?thesis by (simp only: tolower_def if_False)
qed

lemma tolower_zero [simp]: "tolower 0 = 0" "0 = tolower c \<longleftrightarrow> c = 0"
  using tolower_0 [of 0] tolower_0 [of c] by auto

lemma strcmp_cstr:
  "cstr m p s \<Longrightarrow> cstr m q t \<Longrightarrow> \<exists>r. strcmp m p q = Some r \<and> (r = 0 \<longleftrightarrow> s = t)"
proof (induction s arbitrary: p q t)
  case Nil
  then show ?case
    by (cases t) (subst strcmp.simps, auto)+
next
  case (Cons c s)
  show ?case
  proof (cases t)
    case Nil
    with Cons.prems show ?thesis by (subst strcmp.simps) auto
  next
    case (Cons d t')
    with Cons.prems Cons.IH [of "p + 1" "q + 1" t'] show ?thesis
      by (subst strcmp.simps) auto
  qed
qed

lemma stricmp_cstr:
  "cstr m p s \<Longrightarrow> cstr m q t \<Longrightarrow>
     \<exists>r. stricmp m p q = Some r \<and> (r = 0 \<longleftrightarrow> map tolower s = map tolower t)"
proof (induction s arbitrary: p q t)
  case Nil
  then show ?case
    by (cases t) (subst stricmp.simps, auto)+
next
  case (Cons c s)
  show ?case
  proof (cases t)
    case Nil
    with Cons.prems show ?thesis by (subst stricmp.simps) auto
  next
    case (Cons d t')
    with Cons.prems Cons.IH [of "p + 1" "q + 1" t'] show ?thesis
      by (subst stricmp.simps) auto
  qed
qed

section \<open>Properties\<close>

text \<open>\<open>strlen\<close> returns on every memory that has a zero byte anywhere, since the address space is
  circular, and then gives the number of bytes before the first one; without one it never returns.\<close>

lemma strlen_counts:
  "case strlen m p of None \<Rightarrow> \<forall>a. m a \<noteq> 0 | Some n \<Rightarrow> cstr m p (load_bytes m p (unat n))"
proof (cases "\<exists>a. m a = 0")
  case True
  then obtain s where s: "cstr m p s" using cstr_exists by blast
  have "unat (of_nat (length s) :: u32) = length s" using cstr_length [OF s] by (rule unat_of_nat32)
  moreover have "load_bytes m p (length s) = s"
    using s load_bytes_append [of m p "length s" 1] by (simp add: cstr_load_bytes load_bytes_Suc)
  ultimately show ?thesis using strlen_cstr [OF s] s by simp
next
  case False
  then have "strlen m p = None"
    using strlen_loop_zero [of m p 0] by (cases "strlen m p") (auto simp: strlen_def)
  with False show ?thesis by simp
qed

text \<open>On two strings \<open>strcmp\<close> returns, and returns 0 exactly when they are equal; \<open>stricmp\<close> returns
  0 exactly when they are equal but for the case of the letters A to Z.\<close>

lemma strcmp_equal:
  assumes "cstr m p s" "cstr m q t"
  shows "(\<exists>r. strcmp m p q = Some r \<and> (r = 0 \<longleftrightarrow> s = t))
    \<and> (\<exists>r. stricmp m p q = Some r \<and> (r = 0 \<longleftrightarrow> map tolower s = map tolower t))"
  using strcmp_cstr [OF assms] stricmp_cstr [OF assms] by blast

definition two_names :: mem where
  "two_names = store_bytes (store_bytes (\<lambda>_. 0) 0x100 [0x61, 0x62]) 0x110 [0x41, 0x42]"

lemma strcmp_equal_example:
  "(\<exists>r. strcmp two_names 0x100 0x110 = Some r \<and> (r = 0 \<longleftrightarrow> [0x61, 0x62] = [0x41 :: u8, 0x42]))
    \<and> (\<exists>r. stricmp two_names 0x100 0x110 = Some r \<and>
          (r = 0 \<longleftrightarrow> map tolower [0x61, 0x62] = map tolower [0x41, 0x42]))"
  by (rule strcmp_equal) (simp_all add: two_names_def)

text \<open>\<open>memcpy\<close> between regions that do not overlap copies every byte and writes nothing outside its
  destination; \<open>memmove\<close> to a lower address copies every byte, overlapping or not.\<close>

lemma copies_forward:
  assumes "sep d (unat n) s (unat n)" "d' < s" "unat s + unat n \<le> 4294967296" "sep d (unat n) b k"
  shows "load_bytes (memcpy m d s n) d (unat n) = load_bytes m s (unat n)
    \<and> agree m (memcpy m d s n) b k
    \<and> load_bytes (memmove m d' s n) d' (unat n) = load_bytes m s (unat n)"
  using memcpy_value [OF assms(1)] memcpy_frame [OF assms(4)] memmove_forward [OF assms(2,3)] by blast

lemma copies_forward_example:
  "load_bytes (memcpy two_names 0x200 0x100 5) 0x200 (unat (5 :: u32)) = load_bytes two_names 0x100 (unat (5 :: u32))
    \<and> agree two_names (memcpy two_names 0x200 0x100 5) 0x300 8
    \<and> load_bytes (memmove two_names 0xFE 0x100 5) 0xFE (unat (5 :: u32)) = load_bytes two_names 0x100 (unat (5 :: u32))"
  by (rule copies_forward) simp_all

text \<open>\<open>memmove\<close> to the same or a higher address copies one byte too far and misses the first: it
  writes the bytes at offsets 1 to \<open>n\<close> of the destination, the last of them past its end, and leaves
  the byte at offset 0.\<close>

lemma memmove_backward_off_by_one:
  assumes "src \<le> dest" "unat dest + unat n < 4294967296"
  shows "(\<forall>i. 0 < i \<and> i \<le> unat n \<longrightarrow> memmove m dest src n (dest + of_nat i) = m (src + of_nat i))
    \<and> memmove m dest src n dest = m dest"
proof (intro conjI allI impI)
  fix i
  assume "0 < i \<and> i \<le> unat n"
  then show "memmove m dest src n (dest + of_nat i) = m (src + of_nat i)"
    using memmove_backward(1) [OF assms] by blast
next
  show "memmove m dest src n dest = m dest"
  proof (rule memmove_backward(2) [OF assms])
    fix i
    assume i: "0 < i" "i \<le> unat n"
    then have "unat (dest + of_nat i) = unat dest + i" using assms(2) by (intro unat_add_of_nat32) simp
    with i show "dest \<noteq> dest + of_nat i" by (metis add_cancel_left_right less_numeral_extra(3))
  qed
qed

lemma memmove_backward_off_by_one_example:
  "memmove two_names 0x104 0x100 4 (0x104 + of_nat 1) = two_names (0x100 + of_nat 1)
    \<and> memmove two_names 0x104 0x100 4 (0x104 + of_nat 4) = two_names (0x100 + of_nat 4)
    \<and> memmove two_names 0x104 0x100 4 0x104 = two_names 0x104"
proof -
  have w: "(\<forall>i. 0 < i \<and> i \<le> unat (4 :: u32) \<longrightarrow>
      memmove two_names 0x104 0x100 4 (0x104 + of_nat i) = two_names (0x100 + of_nat i))
    \<and> memmove two_names 0x104 0x100 4 0x104 = two_names 0x104"
    by (rule memmove_backward_off_by_one) simp_all
  from conjunct1 [OF w, rule_format, of 1] conjunct1 [OF w, rule_format, of 4] conjunct2 [OF w]
  show ?thesis by simp
qed

end
