(* ===== verification/PhysMem.thy ===== *)
theory PhysMem
  imports CLib
begin

text \<open>
  The physical memory manager of the loader, memory.c: the firmware memory map, and the page
  lookup table that says for every physical page what it is used for. Map and table are arrays of
  structures in the byte memory; the globals of the file are the other fields of the state.
\<close>

section \<open>Page arithmetic and memory types\<close>

definition arch_pagesize :: u32 where
  "arch_pagesize = 0x1000"

definition PAGENUM :: "u64 \<Rightarrow> u64" where
  "PAGENUM addr = addr div ucast arch_pagesize"

definition PAGE_MASK :: u64 where
  "PAGE_MASK = NOT (ucast arch_pagesize - 1)"

definition PAGE_OFFSET :: "u64 \<Rightarrow> u64" where
  "PAGE_OFFSET x = x AND NOT PAGE_MASK"

definition PAGE_START :: "u64 \<Rightarrow> u64" where
  "PAGE_START x = x AND PAGE_MASK"

definition PAGE_END :: "u64 \<Rightarrow> u64" where
  "PAGE_END x = PAGE_START (x + (ucast arch_pagesize - 1))"

text \<open>The enum is a 32-bit integer in memory; its members are its first 16 values.\<close>

type_synonym MemoryType = u32

abbreviation (input) MemoryTypeFree :: MemoryType where "MemoryTypeFree \<equiv> 0"
abbreviation (input) MemoryTypeBad :: MemoryType where "MemoryTypeBad \<equiv> 1"
abbreviation (input) MemoryTypeUnusable :: MemoryType where "MemoryTypeUnusable \<equiv> 2"
abbreviation (input) MemoryTypeSpecial :: MemoryType where "MemoryTypeSpecial \<equiv> 3"
abbreviation (input) MemoryTypeLoaderExecutable :: MemoryType where "MemoryTypeLoaderExecutable \<equiv> 4"
abbreviation (input) MemoryTypeLoaderTemporary :: MemoryType where "MemoryTypeLoaderTemporary \<equiv> 5"
abbreviation (input) MemoryTypeLoaderStack :: MemoryType where "MemoryTypeLoaderStack \<equiv> 6"
abbreviation (input) MemoryTypeLoaderHeap :: MemoryType where "MemoryTypeLoaderHeap \<equiv> 7"
abbreviation (input) MemoryTypeFirmware :: MemoryType where "MemoryTypeFirmware \<equiv> 8"
abbreviation (input) MemoryTypePageLookupTable :: MemoryType where "MemoryTypePageLookupTable \<equiv> 9"
abbreviation (input) MemoryTypeGeexOSPageStructures :: MemoryType
  where "MemoryTypeGeexOSPageStructures \<equiv> 10"
abbreviation (input) MemoryTypeGeexOSPageDirectory :: MemoryType
  where "MemoryTypeGeexOSPageDirectory \<equiv> 11"
abbreviation (input) MemoryTypeGeexOSKernelEnvironmentInformation :: MemoryType
  where "MemoryTypeGeexOSKernelEnvironmentInformation \<equiv> 12"
abbreviation (input) MemoryTypeGeexOSKernelExecutable :: MemoryType
  where "MemoryTypeGeexOSKernelExecutable \<equiv> 13"
abbreviation (input) MemoryTypeGeexOSKernelStack :: MemoryType
  where "MemoryTypeGeexOSKernelStack \<equiv> 14"
abbreviation (input) MemoryTypeGeexOSKernelLibrary :: MemoryType
  where "MemoryTypeGeexOSKernelLibrary \<equiv> 15"

definition MemoryTypeNames :: "string list" where
  "MemoryTypeNames = [''MemoryTypeFree'', ''MemoryTypeBad'', ''MemoryTypeUnusable'',
    ''MemoryTypeSpecial'', ''MemoryTypeLoaderExecutable'', ''MemoryTypeLoaderTemporary'',
    ''MemoryTypeLoaderStack'', ''MemoryTypeLoaderHeap'', ''MemoryTypeFirmware'',
    ''MemoryTypePageLookupTable'', ''MemoryTypeGeexOSPageStructures'',
    ''MemoryTypeGeexOSPageDirectory'', ''MemoryTypeGeexOSKernelEnvironmentInformation'',
    ''MemoryTypeGeexOSKernelExecutable'', ''MemoryTypeGeexOSKernelStack'',
    ''MemoryTypeGeexOSKernelLibrary'']"

definition memory_getTypeName :: "MemoryType \<Rightarrow> string" where
  "memory_getTypeName t =
     (if length MemoryTypeNames \<le> unat t then ''<<Index out of bounds>>''
      else MemoryTypeNames ! unat t)"

section \<open>The state\<close>

record mm =
  ram :: mem
  highestPhysicalPage :: u64
  lowestPhysicalPage :: u64
  pageLookupTable :: u32
  FirmwareMemoryMap :: u32

text \<open>\<open>FirmwareMemoryMapItem\<close>, 20 bytes: type, base page, page count.\<close>

definition map_item :: "u32 \<Rightarrow> u32 \<Rightarrow> u32" where
  "map_item mp i = mp + 20 * i"

definition map_Type :: "mem \<Rightarrow> u32 \<Rightarrow> MemoryType" where
  "map_Type m it = load32 m it"

definition map_BasePage :: "mem \<Rightarrow> u32 \<Rightarrow> u64" where
  "map_BasePage m it = load64 m (it + 4)"

definition map_PageCount :: "mem \<Rightarrow> u32 \<Rightarrow> u64" where
  "map_PageCount m it = load64 m (it + 12)"

text \<open>\<open>PageLookupTableItem\<close>, 12 bytes: type, length.\<close>

definition lookup_item :: "mm \<Rightarrow> nat \<Rightarrow> u32" where
  "lookup_item s i = pageLookupTable s + 12 * of_nat i"

definition page_type :: "mm \<Rightarrow> nat \<Rightarrow> MemoryType" where
  "page_type s i = load32 (ram s) (lookup_item s i)"

definition page_length :: "mm \<Rightarrow> nat \<Rightarrow> u64" where
  "page_length s i = load64 (ram s) (lookup_item s i + 4)"

section \<open>The firmware memory map\<close>

text \<open>The first loop: the number of entries \<open>c\<close> and the place of insertion \<open>i\<close>.\<close>

function map_scan :: "mem \<Rightarrow> u32 \<Rightarrow> u32 \<Rightarrow> u64 \<Rightarrow> u32 \<Rightarrow> u32 \<Rightarrow> u32 \<times> u32" where
  "map_scan m mp maxEntries base i c =
     (if c < maxEntries \<and> map_PageCount m (map_item mp c) \<noteq> 0
      then map_scan m mp maxEntries base
        (if map_BasePage m (map_item mp i) + map_PageCount m (map_item mp i) \<le> base
         then i + 1 else i) (c + 1)
      else (i, c))"
  by pat_completeness auto
termination
  by (relation "measure (\<lambda>(m, mp, maxEntries, base, i, c). unat maxEntries - unat c)")
    auto

text \<open>
  The second loop skips what the entries at and after the place already cover: \<open>Inl\<close> when the new
  region is covered entirely.
\<close>

function map_skip :: "mem \<Rightarrow> u32 \<Rightarrow> u32 \<Rightarrow> u64 \<Rightarrow> u64 \<Rightarrow> u32 \<Rightarrow> unit + u64 \<times> u64 \<times> u32" where
  "map_skip m mp c base sz i =
     (if i < c \<and> map_BasePage m (map_item mp i) \<le> base then
        (let NextBase = map_BasePage m (map_item mp i) + map_PageCount m (map_item mp i)
         in if base + sz \<le> NextBase then Inl ()
            else map_skip m mp c NextBase (sz - (NextBase - base)) (i + 1))
      else Inr (base, sz, i))"
  by pat_completeness auto
termination
  by (relation "measure (\<lambda>(m, mp, c, base, sz, i). unat c - unat i)")
    auto

declare map_scan.simps [simp del] map_skip.simps [simp del]

definition store_map_item :: "mem \<Rightarrow> u32 \<Rightarrow> u64 \<Rightarrow> u64 \<Rightarrow> MemoryType \<Rightarrow> mem" where
  "store_map_item m it base count type =
     store32 (store64 (store64 m (it + 4) base) (it + 12) count) it type"

partial_function (option) memory_add_map_entry ::
    "mem \<Rightarrow> u32 \<Rightarrow> u32 \<Rightarrow> u64 \<Rightarrow> u64 \<Rightarrow> MemoryType \<Rightarrow> (u32 \<times> mem) option" where
  "memory_add_map_entry m mp maxEntries base sz type =
     (let (i, c) = map_scan m mp maxEntries base 0 0
      in if maxEntries \<le> c then Some (c, m)
         else case map_skip m mp c base sz i of
             Inl _ \<Rightarrow> Some (c, m)
           | Inr (base, sz, i) \<Rightarrow>
               if i < c then
                 (let m1 = memmove m (map_item mp (i + 1)) (map_item mp i) ((c - i) * 20);
                      room = map_BasePage m1 (map_item mp (i + 1)) - base;
                      count = (if sz < room then sz else room);
                      m2 = store_map_item m1 (map_item mp i) base count type
                  in if count < sz
                     then memory_add_map_entry m2 mp maxEntries (base + count) (sz - count) type
                     else Some (c + 1, m2))
               else Some (c + 1, store_map_item m (map_item mp i) base sz type))"

section \<open>The page lookup table\<close>

primrec mark_loop :: "nat \<Rightarrow> mem \<Rightarrow> u32 \<Rightarrow> MemoryType \<Rightarrow> mem" where
  "mark_loop 0 m cur type = m"
| "mark_loop (Suc n) m cur type =
     mark_loop n (store64 (store32 m cur type) (cur + 4) (if type = MemoryTypeFree then 0 else 1))
       (cur + 12) type"

definition memory_mark_pages :: "mm \<Rightarrow> u64 \<Rightarrow> u64 \<Rightarrow> MemoryType \<Rightarrow> fault + mm" where
  "memory_mark_pages s start count type =
     (if start < lowestPhysicalPage s \<or> highestPhysicalPage s < start + count - 1
      then Inl PanicMarkBounds
      else Inr (s\<lparr>ram := mark_loop (unat count) (ram s)
        (pageLookupTable s + 12 * ucast (start - lowestPhysicalPage s)) type\<rparr>))"

function find_loop :: "mm \<Rightarrow> u64 \<Rightarrow> u64 \<Rightarrow> u64 \<Rightarrow> fault + u64" where
  "find_loop s count i currentFree =
     (if i < highestPhysicalPage s - lowestPhysicalPage s then
        (let cf = (if load32 (ram s) (pageLookupTable s + 12 * ucast i) = MemoryTypeFree
                   then currentFree + 1 else 0)
         in if count \<le> cf then Inr (lowestPhysicalPage s + (i - cf + 1))
            else find_loop s count (i + 1) cf)
      else Inl PanicNoPages)"
  by pat_completeness auto
termination
  by (relation "measure (\<lambda>(s, count, i, cf).
      unat (highestPhysicalPage s - lowestPhysicalPage s) - unat i)")
    auto

declare find_loop.simps [simp del]

definition memory_find_available_pages :: "mm \<Rightarrow> u64 \<Rightarrow> fault + u64" where
  "memory_find_available_pages s count = find_loop s count 0 0"

definition memory_allocate :: "mm \<Rightarrow> u32 \<Rightarrow> MemoryType \<Rightarrow> fault + u32 \<times> mm" where
  "memory_allocate s sz type =
     (if sz \<le> 0 then Inl PanicAllocSize
      else
        (let pagesNeeded = PAGE_START (ucast sz) div ucast arch_pagesize
         in rbind (memory_find_available_pages s pagesNeeded) (\<lambda>firstFreePage.
            rbind (memory_mark_pages s firstFreePage pagesNeeded type) (\<lambda>s'.
              if 0xFFFFFFFF < (firstFreePage + pagesNeeded) * ucast arch_pagesize
              then Inl PanicAllocHigh
              else Inr (ucast (firstFreePage * ucast arch_pagesize), s')))))"

text \<open>
  The loops over the firmware map stop at an entry of no pages. They have no bound of their own,
  so they are partial: \<open>None\<close> is a loop that never returns.
\<close>

partial_function (option) count_loop ::
    "mem \<Rightarrow> u32 \<Rightarrow> u64 \<Rightarrow> u64 \<Rightarrow> (u64 \<times> u64) option" where
  "count_loop m cur highest lowest =
     (if 0 < map_PageCount m cur
      then count_loop m (cur + 20)
        (if highest < map_BasePage m cur + map_PageCount m cur \<and> map_Type m cur = MemoryTypeFree
         then map_BasePage m cur + map_PageCount m cur - 1 else highest)
        (if map_BasePage m cur < lowest then map_BasePage m cur else lowest)
      else Some (highest, lowest))"

definition memory_count_usable_pages :: "mm \<Rightarrow> (u64 \<times> mm) option" where
  "memory_count_usable_pages s =
     Option.bind (count_loop (ram s) (FirmwareMemoryMap s) 0 0) (\<lambda>(highest, lowest).
       Some (highest - lowest,
         s\<lparr>highestPhysicalPage := highest, lowestPhysicalPage := lowest\<rparr>))"

partial_function (option) location_loop :: "mem \<Rightarrow> u32 \<Rightarrow> u64 \<Rightarrow> u64 \<Rightarrow> u32 option" where
  "location_loop m cur tableSize sizeInPages =
     (if 0 < map_PageCount m cur then
        (if map_Type m cur \<noteq> MemoryTypeFree \<or> map_PageCount m cur < sizeInPages
           \<or> 0xFFFFFFFF < map_BasePage m cur * ucast arch_pagesize
         then location_loop m (cur + 20) tableSize sizeInPages
         else
           (let loc = (map_BasePage m cur + map_PageCount m cur) * ucast arch_pagesize - tableSize
            in if 0xFFFFFFFF < loc
               then if map_BasePage m cur * ucast arch_pagesize < 0x100000000 - tableSize
                    then Some (ucast (0x100000000 - tableSize)) else Some 0
               else Some (ucast loc)))
      else Some 0)"

definition memory_find_page_lookup_table_location :: "mem \<Rightarrow> u64 \<Rightarrow> u32 \<Rightarrow> u32 option" where
  "memory_find_page_lookup_table_location m totalPageCount mp =
     (let totalTableSize = totalPageCount * 12
      in location_loop m mp totalTableSize (PAGE_END totalTableSize div ucast arch_pagesize))"

partial_function (option) init_loop :: "mm \<Rightarrow> u32 \<Rightarrow> (fault + mm) option" where
  "init_loop s cur =
     (if 0 < map_PageCount (ram s) cur
      then if map_BasePage (ram s) cur < highestPhysicalPage s
        then case memory_mark_pages s (map_BasePage (ram s) cur) (map_PageCount (ram s) cur)
               (map_Type (ram s) cur) of
            Inl e \<Rightarrow> Some (Inl e)
          | Inr s' \<Rightarrow> init_loop s' (cur + 20)
        else init_loop s (cur + 20)
      else Some (Inr s))"

definition memory_init :: "mm \<Rightarrow> (fault + mm) option" where
  "memory_init s =
     Option.bind (memory_count_usable_pages s) (\<lambda>(usablePages, s).
     Option.bind (memory_find_page_lookup_table_location (ram s) usablePages (FirmwareMemoryMap s))
       (\<lambda>table.
       case memory_mark_pages (s\<lparr>pageLookupTable := table\<rparr>) (lowestPhysicalPage s) usablePages
           MemoryTypeUnusable of
         Inl e \<Rightarrow> Some (Inl e)
       | Inr s \<Rightarrow>
         Option.bind (init_loop s (FirmwareMemoryMap s)) (\<lambda>r. Some (rbind r (\<lambda>s.
           memory_mark_pages s (PAGENUM (PAGE_START (ucast (pageLookupTable s))))
             (PAGENUM (PAGE_END (ucast (ucast (usablePages * 12) :: u32))))
             MemoryTypePageLookupTable)))))"

definition memory_getHighestPhysicalPage :: "mm \<Rightarrow> u64" where
  "memory_getHighestPhysicalPage s = highestPhysicalPage s"

text \<open>A null \<open>noEntries\<close> is allowed: then nothing is stored.\<close>

definition memory_getMemoryMap :: "mm \<Rightarrow> u32 \<Rightarrow> u32 \<times> mm" where
  "memory_getMemoryMap s noEntries =
     (pageLookupTable s,
      if noEntries = 0 then s
      else s\<lparr>ram := store32 (ram s) noEntries
        (ucast (highestPhysicalPage s - lowestPhysicalPage s))\<rparr>)"

text \<open>The letter \<open>memory_print_alloc_map\<close> prints for a page.\<close>

definition memory_print_letter :: "MemoryType \<Rightarrow> char" where
  "memory_print_letter t =
     (if unat t < length ''*-U+XTSHFLPYAKCD'' then ''*-U+XTSHFLPYAKCD'' ! unat t
      else CHR ''?'')"

section \<open>What marking does\<close>

text \<open>The table holds \<open>n\<close> entries without wrapping around the address space.\<close>

definition table_fits :: "mm \<Rightarrow> nat \<Rightarrow> bool" where
  "table_fits s n \<longleftrightarrow> unat (pageLookupTable s) + 12 * n \<le> 4294967296"

lemma sep_next12: "12 * Suc n \<le> 4294967296 \<Longrightarrow> sep a 12 (a + 12) (12 * n)"
  by (simp add: sep_def)

lemma mark_item_frame:
  "sep a 12 b k \<Longrightarrow> agree m (store64 (store32 m a t) (a + 4) l) b k"
  by (rule agree_trans [OF store32_frame store64_frame])
    (use sep_mono [of a 12 b k 4 k] sep_sub [of a 12 b k 4 8] in auto)

lemma mark_loop_frame:
  "sep a (12 * n) b k \<Longrightarrow> agree m (mark_loop n m a t) b k"
proof (induction n arbitrary: m a)
  case 0
  then show ?case by simp
next
  case (Suc n)
  have "sep a 12 b k" using Suc.prems by (rule sep_mono) simp_all
  then have 1: "agree m (store64 (store32 m a t) (a + 4) l) b k" for l by (rule mark_item_frame)
  have "sep (a + of_nat 12) (12 * n) b k" using Suc.prems by (rule sep_sub) simp
  then have "sep (a + 12) (12 * n) b k" by simp
  from agree_trans [OF 1 Suc.IH [OF this]] show ?case by simp
qed

lemma mark_loop_value:
  assumes "12 * n \<le> 4294967296" "i < n"
  shows "load32 (mark_loop n m a t) (a + 12 * of_nat i) = t"
    and "load64 (mark_loop n m a t) (a + 12 * of_nat i + 4) = (if t = 0 then 0 else 1)"
proof -
  have "load32 (mark_loop n m a t) (a + 12 * of_nat i) = t \<and>
    load64 (mark_loop n m a t) (a + 12 * of_nat i + 4) = (if t = 0 then 0 else 1)"
    using assms
  proof (induction n arbitrary: m a i)
    case 0
    then show ?case by simp
  next
    case (Suc n)
    show ?case
    proof (cases i)
      case 0
      let ?m = "store64 (store32 m a t) (a + 4) (if t = 0 then 0 else 1)"
      have ag: "agree ?m (mark_loop n ?m (a + 12) t) a 12"
        by (rule mark_loop_frame) (use sep_next12 [OF Suc.prems(1)] sep_sym in blast)
      have "load32 (mark_loop n ?m (a + 12) t) a = load32 ?m a"
        by (rule load32_cong [OF agree_sym [OF agree_prefix [OF ag]]]) simp
      moreover have "load64 (mark_loop n ?m (a + 12) t) (a + 4) = load64 ?m (a + 4)"
        using load64_cong [OF agree_sym [OF agree_sub [OF ag, of 4 8]]] by simp
      ultimately show ?thesis using 0 by (simp add: p32_64.load_other_sep sep_def)
    next
      case (Suc j)
      with Suc.prems Suc.IH [of j _ "a + 12"] show ?thesis by (simp add: algebra_simps)
    qed
  qed
  then show "load32 (mark_loop n m a t) (a + 12 * of_nat i) = t"
    "load64 (mark_loop n m a t) (a + 12 * of_nat i + 4) = (if t = 0 then 0 else 1)" by auto
qed

text \<open>An entry of the table outside the run that is written keeps its bytes.\<close>

lemma mark_loop_other:
  assumes "unat a + 12 * N \<le> 4294967296" "k + n \<le> N" "i < N" "i < k \<or> k + n \<le> i"
  shows "agree m (mark_loop n m (a + 12 * of_nat k) t) (a + 12 * of_nat i) 12"
proof (cases "n = 0")
  case True
  then show ?thesis by simp
next
  case False
  have ui: "unat (a + 12 * of_nat i) = unat a + 12 * i"
    using unat_add_of_nat32 [of a "12 * i"] assms by simp
  have uk: "unat (a + 12 * of_nat k) = unat a + 12 * k"
    using unat_add_of_nat32 [of a "12 * k"] assms False by simp
  from assms(4) have "sep (a + 12 * of_nat k) (12 * n) (a + 12 * of_nat i) 12"
  proof
    assume "i < k"
    then show ?thesis using assms by (intro sep_above) (simp_all add: ui uk)
  next
    assume "k + n \<le> i"
    then show ?thesis using assms by (intro sep_below) (simp_all add: ui uk)
  qed
  then show ?thesis by (rule mark_loop_frame)
qed

lemma mark_pages_panics:
  "memory_mark_pages s start count t = Inl e \<longleftrightarrow>
     e = PanicMarkBounds \<and> (start < lowestPhysicalPage s \<or> highestPhysicalPage s < start + count - 1)"
  by (auto simp: memory_mark_pages_def)

text \<open>What a successful call leaves: the state but for memory, and the marked run.\<close>

lemma mark_pages_InrD:
  assumes "memory_mark_pages s start count t = Inr s'"
  shows "s' = s\<lparr>ram := mark_loop (unat count) (ram s)
      (lookup_item s (unat (start - lowestPhysicalPage s))) t\<rparr>"
  using assms by (auto simp: memory_mark_pages_def lookup_item_def split: if_splits)

lemma page_type_mark:
  assumes ok: "memory_mark_pages s start count t = Inr s'"
    and fits: "table_fits s N" "unat (start - lowestPhysicalPage s) + unat count \<le> N" "i < N"
  shows "page_type s' i = (if unat (start - lowestPhysicalPage s) \<le> i
      \<and> i < unat (start - lowestPhysicalPage s) + unat count then t else page_type s i)"
proof -
  let ?k = "unat (start - lowestPhysicalPage s)" and ?n = "unat count"
  note s' = mark_pages_InrD [OF ok]
  show ?thesis
  proof (cases "?k \<le> i \<and> i < ?k + ?n")
    case True
    have "page_type s' i = load32 (mark_loop ?n (ram s) (lookup_item s ?k) t)
        (lookup_item s ?k + 12 * of_nat (i - ?k))"
      using True by (simp add: s' page_type_def lookup_item_def of_nat_diff algebra_simps)
    also have "\<dots> = t"
      using fits True by (intro mark_loop_value) (auto simp: table_fits_def)
    finally show ?thesis using True by simp
  next
    case False
    have "agree (ram s) (mark_loop ?n (ram s) (lookup_item s ?k) t) (lookup_item s i) 12"
      using mark_loop_other [of "pageLookupTable s" N ?k ?n i] fits False
      by (auto simp: lookup_item_def table_fits_def)
    then have "page_type s' i = page_type s i"
      using load32_cong [OF agree_sym [OF agree_prefix]]
      by (simp add: s' page_type_def lookup_item_def)
    with False show ?thesis by auto
  qed
qed

section \<open>What the search finds\<close>

text \<open>Page indices \<open>i, \<dots>, i + n - 1\<close> are all free.\<close>

definition free_run :: "mm \<Rightarrow> nat \<Rightarrow> nat \<Rightarrow> bool" where
  "free_run s i n \<longleftrightarrow> (\<forall>j<n. page_type s (i + j) = MemoryTypeFree)"

definition page_span :: "mm \<Rightarrow> nat" where
  "page_span s = unat (highestPhysicalPage s - lowestPhysicalPage s)"

text \<open>
  The loop state: the \<open>cf\<close> pages before \<open>i\<close> are free, the page before them is not, and \<open>cf\<close> has
  not reached the count yet.
\<close>

definition run_before :: "mm \<Rightarrow> nat \<Rightarrow> nat \<Rightarrow> bool" where
  "run_before s i cf \<longleftrightarrow> cf \<le> i \<and> free_run s (i - cf) cf \<and>
     (cf < i \<longrightarrow> page_type s (i - cf - 1) \<noteq> MemoryTypeFree)"

lemma run_before_step:
  assumes "run_before s i cf"
  shows "run_before s (Suc i) (if page_type s i = MemoryTypeFree then Suc cf else 0)"
proof (cases "page_type s i = MemoryTypeFree")
  case True
  with assms show ?thesis by (auto simp: run_before_def free_run_def less_Suc_eq)
next
  case False
  then show ?thesis by (simp add: run_before_def free_run_def)
qed

text \<open>No run of \<open>n\<close> pages can start before the current one and end inside the scanned part.\<close>

lemma no_run_before:
  assumes "run_before s i cf" "cf < n" "j + n \<le> i"
    and "\<forall>j. j + n \<le> i - 1 \<longrightarrow> \<not> free_run s j n"
  shows "\<not> free_run s j n"
proof
  assume fr: "free_run s j n"
  with assms have "\<not> j + n \<le> i - 1" by blast
  with assms have "j + n = i" by simp
  with assms have "j \<le> i - cf - 1" "cf < i" "i - cf - 1 < j + n" by auto
  then have "page_type s (j + (i - cf - 1 - j)) = MemoryTypeFree"
    using fr unfolding free_run_def by (metis add_less_cancel_left le_add_diff_inverse)
  with assms(1) \<open>cf < i\<close> \<open>j \<le> i - cf - 1\<close> show False by (simp add: run_before_def)
qed

lemma page_type_index:
  "load32 (ram s) (pageLookupTable s + 12 * ucast i) = page_type s (unat (i :: u64))"
  by (simp add: page_type_def lookup_item_def)

lemma find_loop_correct:
  assumes "run_before s (unat i) (unat cf)" "0 < count" "cf < count"
    and "unat i \<le> page_span s"
    and "\<forall>j. j + unat count \<le> unat i \<longrightarrow> \<not> free_run s j (unat count)"
  shows "case find_loop s count i cf of
      Inl e \<Rightarrow> e = PanicNoPages \<and> (\<forall>j. j + unat count \<le> page_span s \<longrightarrow> \<not> free_run s j (unat count))
    | Inr p \<Rightarrow> (\<exists>j. p = lowestPhysicalPage s + of_nat j \<and> j + unat count \<le> page_span s \<and>
        free_run s j (unat count) \<and> (\<forall>j'<j. \<not> free_run s j' (unat count)))"
  using assms
proof (induction s count i cf rule: find_loop.induct)
  case (1 s count i cf)
  show ?case
  proof (cases "i < highestPhysicalPage s - lowestPhysicalPage s")
    case False
    then have "unat i = page_span s"
      using 1(5) by (simp add: page_span_def word_less_nat_alt)
    with False 1(6) show ?thesis by (subst find_loop.simps) simp
  next
    case True
    let ?cf = "if page_type s (unat i) = MemoryTypeFree then cf + 1 else 0"
    have ui: "unat (i + 1) = Suc (unat i)" using True by (rule unat_Suc_less)
    have ucf: "unat (cf + 1) = Suc (unat cf)" using 1(4) by (rule unat_Suc_less)
    have rb: "run_before s (Suc (unat i)) (unat ?cf)"
      using run_before_step [OF 1(2)] by (auto simp: ucf)
    have le: "Suc (unat i) \<le> page_span s" using True by (simp add: page_span_def word_less_nat_alt)
    show ?thesis
    proof (cases "count \<le> ?cf")
      case False
      then have lt: "?cf < count" by simp
      have nr: "\<forall>j. j + unat count \<le> Suc (unat i) \<longrightarrow> \<not> free_run s j (unat count)"
        using no_run_before [OF rb, of "unat count"] lt 1(6) by (simp add: word_less_nat_alt)
      from 1(1) [OF True _ _ _ 1(3)] rb lt le nr ui False True
      show ?thesis by (subst find_loop.simps) (simp add: page_type_index Let_def)
    next
      case reached: True
      then have cf: "?cf = cf + 1" "page_type s (unat i) = MemoryTypeFree"
        using 1(3) by (auto split: if_splits simp: word_le_nat_alt word_less_nat_alt)
      with reached 1(4) have cnt: "unat count = Suc (unat cf)"
        by (simp add: word_le_nat_alt word_less_nat_alt ucf)
      let ?j = "unat i - unat cf"
      from 1(2) have cfi: "unat cf \<le> unat i" by (simp add: run_before_def)
      have "free_run s ?j (unat count)"
        using rb cf cnt cfi by (simp add: run_before_def ucf)
      moreover have "?j + unat count \<le> page_span s" using le cnt cfi by simp
      moreover have "\<forall>j'<?j. \<not> free_run s j' (unat count)" using 1(6) cnt cfi by simp
      moreover have "i - (cf + 1) + 1 = of_nat ?j" using cfi by (simp add: of_nat_diff)
      then have "find_loop s count i cf = Inr (lowestPhysicalPage s + of_nat ?j)"
        using True reached cf by (subst find_loop.simps) (simp add: page_type_index Let_def)
      ultimately show ?thesis by auto
    qed
  qed
qed

lemma find_available_correct:
  assumes "0 < count"
  shows "case memory_find_available_pages s count of
      Inl e \<Rightarrow> e = PanicNoPages \<and> (\<forall>j. j + unat count \<le> page_span s \<longrightarrow> \<not> free_run s j (unat count))
    | Inr p \<Rightarrow> (\<exists>j. p = lowestPhysicalPage s + of_nat j \<and> j + unat count \<le> page_span s \<and>
        free_run s j (unat count) \<and> (\<forall>j'<j. \<not> free_run s j' (unat count)))"
  unfolding memory_find_available_pages_def
  by (rule find_loop_correct) (use assms in \<open>auto simp: run_before_def free_run_def word_less_nat_alt\<close>)

section \<open>What an allocation does\<close>

lemma drop_page_offset: "drop_bit 12 (x AND NOT 4095) = drop_bit 12 (x :: u64)"
proof -
  have m: "(4503599627370495 :: u64) = mask 52" by (simp add: mask_eq_exp_minus_1)
  show ?thesis
    by (rule bit_word_eqI) (auto simp: bit_simps m dest: bit_imp_le_length)
qed

lemma PAGE_START_div: "PAGE_START x div ucast arch_pagesize = drop_bit 12 x"
  using drop_page_offset [of x]
  by (simp add: PAGE_START_def PAGE_MASK_def arch_pagesize_def drop_bit_eq_div)

lemma pages_floor: "unat (PAGE_START (ucast (sz :: u32)) div ucast arch_pagesize) = unat sz div 4096"
  by (simp add: PAGE_START_div unat_drop_bit_div)

lemma memory_allocate_cases:
  assumes "memory_allocate s sz t = Inr (p, s')"
  obtains first where "0 < sz"
    "memory_find_available_pages s (PAGE_START (ucast sz) div ucast arch_pagesize) = Inr first"
    "memory_mark_pages s first (PAGE_START (ucast sz) div ucast arch_pagesize) t = Inr s'"
    "p = ucast (first * 4096)"
    "\<not> 0xFFFFFFFF < (first + PAGE_START (ucast sz) div ucast arch_pagesize) * 4096"
  using assms
  by (auto simp: memory_allocate_def Let_def rbind_Inr_iff arch_pagesize_def word_gt_0 split: if_splits)

text \<open>A request below one page reserves nothing: the state is unchanged.\<close>

lemma allocate_small:
  assumes "memory_allocate s sz t = Inr (p, s')" "unat sz < 4096"
  shows "s' = s"
proof -
  from assms(2) have "unat (PAGE_START (ucast sz) div ucast arch_pagesize) = 0"
    by (simp add: pages_floor)
  then have "PAGE_START (ucast sz) div ucast arch_pagesize = 0" by simp
  with assms(1) show ?thesis
    by (auto elim!: memory_allocate_cases simp: memory_mark_pages_def split: if_splits)
qed


lemma page_unat:
  assumes "p = lowestPhysicalPage s + of_nat j" "j + n \<le> page_span s"
  shows "unat (p - lowestPhysicalPage s) = j"
proof -
  have "j < 18446744073709551616"
    using assms(2) unat_bound64 [of "highestPhysicalPage s - lowestPhysicalPage s"]
    unfolding page_span_def by linarith
  with assms(1) show ?thesis by (simp add: unat_of_nat64)
qed

text \<open>
  A request of a page or more takes the first run of \<open>sz div 4096\<close> free pages: it is free before, it
  has the requested type after, every other page keeps its type.
\<close>

lemma allocate_run:
  assumes ok: "memory_allocate s sz t = Inr (p, s')" and sz: "4096 \<le> unat sz"
    and fits: "table_fits s N" "page_span s \<le> N"
  obtains j where "p = ucast ((lowestPhysicalPage s + of_nat j) * 4096)"
    "j + unat sz div 4096 \<le> page_span s" "free_run s j (unat sz div 4096)"
    "\<forall>j'<j. \<not> free_run s j' (unat sz div 4096)"
    "\<forall>i<N. page_type s' i = (if j \<le> i \<and> i < j + unat sz div 4096 then t else page_type s i)"
proof -
  let ?c = "PAGE_START (ucast sz) div ucast arch_pagesize :: u64"
  from ok obtain first where f: "memory_find_available_pages s ?c = Inr first"
    "memory_mark_pages s first ?c t = Inr s'" "p = ucast (first * 4096)"
    by (rule memory_allocate_cases)
  have c: "unat ?c = unat sz div 4096" by (rule pages_floor)
  with sz have "0 < ?c" by (metis div_greater_zero_iff unat_eq_0 word_gt_0 zero_less_numeral neq0_conv)
  from find_available_correct [OF this, of s] f(1) obtain j where
    j: "first = lowestPhysicalPage s + of_nat j" "j + unat ?c \<le> page_span s"
      "free_run s j (unat ?c)" "\<forall>j'<j. \<not> free_run s j' (unat ?c)" by auto
  note u = page_unat [OF j(1,2)]
  have "\<forall>i<N. page_type s' i = (if j \<le> i \<and> i < j + unat ?c then t else page_type s i)"
    using page_type_mark [OF f(2) fits(1)] j(2) fits(2) u by simp
  with j f(3) that show thesis unfolding c by blast
qed

section \<open>The firmware memory map as a list of regions\<close>

text \<open>Base page and page count of entry \<open>k\<close>.\<close>

definition region :: "mem \<Rightarrow> u32 \<Rightarrow> nat \<Rightarrow> u64 \<times> u64" where
  "region m mp k = (map_BasePage m (map_item mp (of_nat k)), map_PageCount m (map_item mp (of_nat k)))"

abbreviation reg_start :: "u64 \<times> u64 \<Rightarrow> nat" where "reg_start r \<equiv> unat (fst r)"
abbreviation reg_end :: "u64 \<times> u64 \<Rightarrow> nat" where "reg_end r \<equiv> unat (fst r) + unat (snd r)"

text \<open>The map's first entries are \<open>rs\<close> and every later entry of the array is empty.\<close>

definition map_holds :: "mem \<Rightarrow> u32 \<Rightarrow> nat \<Rightarrow> (u64 \<times> u64) list \<Rightarrow> bool" where
  "map_holds m mp M rs \<longleftrightarrow> length rs \<le> M \<and> (\<forall>k<length rs. region m mp k = rs ! k) \<and>
     (\<forall>k. length rs \<le> k \<and> k < M \<longrightarrow> snd (region m mp k) = 0)"

definition ordered_regions :: "(u64 \<times> u64) list \<Rightarrow> bool" where
  "ordered_regions rs \<longleftrightarrow> (\<forall>r\<in>set rs. snd r \<noteq> 0 \<and> reg_end r < 18446744073709551616) \<and>
     sorted_wrt (\<lambda>r r'. reg_end r \<le> reg_start r') rs"

definition covered :: "(u64 \<times> u64) list \<Rightarrow> nat set" where
  "covered rs = (\<Union>r\<in>set rs. {reg_start r..<reg_end r})"

text \<open>The array lies in the address space, with the byte after it.\<close>

definition map_fits :: "u32 \<Rightarrow> nat \<Rightarrow> bool" where
  "map_fits mp M \<longleftrightarrow> unat mp + 20 * (M + 1) < 4294967296"

lemma map_item_unat:
  "map_fits mp M \<Longrightarrow> k \<le> M \<Longrightarrow> unat (map_item mp (of_nat k)) = unat mp + 20 * k"
  using unat_add_of_nat32 [of mp "20 * k"] by (simp add: map_item_def map_fits_def)

lemma map_holdsD: "map_holds m mp M rs \<Longrightarrow> k < length rs \<Longrightarrow>
    map_BasePage m (map_item mp (of_nat k)) = fst (rs ! k) \<and>
    map_PageCount m (map_item mp (of_nat k)) = snd (rs ! k)"
  by (metis map_holds_def region_def fst_conv snd_conv)

lemma map_holds_empty: "map_holds m mp M rs \<Longrightarrow> length rs < M \<Longrightarrow>
    map_PageCount m (map_item mp (of_nat (length rs))) = 0"
  by (auto simp: map_holds_def region_def)

lemma ordered_nth:
  assumes "ordered_regions rs" "k < length rs"
  shows "snd (rs ! k) \<noteq> 0" "reg_end (rs ! k) < 18446744073709551616"
    "unat (fst (rs ! k) + snd (rs ! k)) = reg_end (rs ! k)"
    "k' < k \<Longrightarrow> reg_end (rs ! k') \<le> reg_start (rs ! k)"
proof -
  have "rs ! k \<in> set rs" using assms(2) by simp
  with assms(1) show 1: "snd (rs ! k) \<noteq> 0" "reg_end (rs ! k) < 18446744073709551616"
    by (auto simp: ordered_regions_def)
  then show "unat (fst (rs ! k) + snd (rs ! k)) = reg_end (rs ! k)" by (simp add: unat_add64)
  show "reg_end (rs ! k') \<le> reg_start (rs ! k)" if "k' < k"
    using assms that by (auto simp: ordered_regions_def sorted_wrt_iff_nth_less)
qed

subsection \<open>The scan\<close>

lemma map_scan_step:
  assumes mh: "map_holds m mp M rs" and M: "M < 4294967296"
    and j: "j = length (takeWhile (\<lambda>r. fst r + snd r \<le> base) rs)"
    and ne: "\<forall>r\<in>set rs. snd r \<noteq> 0" and c: "c \<le> length rs"
  shows "map_scan m mp (of_nat M) base (of_nat (min c j)) (of_nat c) =
    (of_nat j, of_nat (length rs))"
  using c
proof (induction "length rs - c" arbitrary: c)
  case 0
  then have c: "c = length rs" by simp
  have jl: "j \<le> length rs" by (simp add: j length_takeWhile_le)
  have lM: "length rs \<le> M" using mh by (simp add: map_holds_def)
  have "\<not> (of_nat c < (of_nat M :: u32) \<and> map_PageCount m (map_item mp (of_nat c)) \<noteq> 0)"
    using map_holds_empty [OF mh] lM M c
    by (cases "length rs < M") (auto simp: word_less_nat_alt unat_of_nat32)
  note stop = if_not_P [OF this]
  show ?case using c jl by (subst map_scan.simps, subst stop) (simp add: min_def)
next
  case (Suc x)
  then have c: "c < length rs" by simp
  have lM: "length rs \<le> M" using mh by (simp add: map_holds_def)
  note at_c = map_holdsD [OF mh c]
  have go: "of_nat c < (of_nat M :: u32)"
    using c lM M by (simp add: word_less_nat_alt unat_of_nat32)
  have nz: "map_PageCount m (map_item mp (of_nat c)) \<noteq> 0" using at_c ne c by simp
  let ?i = "min c j"
  have i: "?i < length rs" using c by simp
  have step: "(if map_BasePage m (map_item mp (of_nat ?i)) + map_PageCount m (map_item mp (of_nat ?i)) \<le> base
      then of_nat ?i + 1 else of_nat ?i) = (of_nat (min (Suc c) j) :: u32)"
  proof (cases "c < j")
    case True
    then have "fst (rs ! c) + snd (rs ! c) \<le> base"
      using nth_mem [of c "takeWhile (\<lambda>r. fst r + snd r \<le> base) rs"]
      by (auto simp: j takeWhile_nth dest: set_takeWhileD)
    with True at_c show ?thesis by (simp add: min_def)
  next
    case False
    then have "\<not> fst (rs ! j) + snd (rs ! j) \<le> base"
      using nth_length_takeWhile [of "\<lambda>r. fst r + snd r \<le> base" rs] c by (simp add: j)
    with False c map_holdsD [OF mh, of j] show ?thesis by (simp add: min_def)
  qed
  have "map_scan m mp (of_nat M) base (of_nat (min (Suc c) j)) (of_nat (Suc c)) =
      (of_nat j, of_nat (length rs))"
    using Suc by (intro Suc.hyps) auto
  then show ?case using go nz step by (subst map_scan.simps) (simp add: add.commute)
qed

lemma map_scan_eq:
  assumes "map_holds m mp M rs" "M < 4294967296" "ordered_regions rs"
  shows "map_scan m mp (of_nat M) base 0 0 =
    (of_nat (length (takeWhile (\<lambda>r. fst r + snd r \<le> base) rs)), of_nat (length rs))"
  using map_scan_step [OF assms(1,2) refl, where c = 0 and base = base] assms(3) by (simp add: ordered_regions_def)

subsection \<open>The skip\<close>

lemma map_skip_correct:
  assumes mh: "map_holds m mp M rs" and M: "M < 4294967296" and ord: "ordered_regions rs"
    and "i \<le> length rs" "\<forall>k<i. reg_end (rs ! k) \<le> unat base"
    and "i < length rs \<longrightarrow> unat base < reg_end (rs ! i)"
    and "sz \<noteq> 0" "unat base + unat sz < 18446744073709551616"
  shows "case map_skip m mp (of_nat (length rs)) base sz (of_nat i) of
      Inl _ \<Rightarrow> {unat base..<unat base + unat sz} \<subseteq> covered rs
    | Inr (base', sz', i') \<Rightarrow> \<exists>j. i' = of_nat j \<and> j \<le> length rs \<and> sz' \<noteq> 0
        \<and> (\<forall>k<j. reg_end (rs ! k) \<le> unat base') \<and> (j < length rs \<longrightarrow> base' < fst (rs ! j))
        \<and> unat base \<le> unat base' \<and> unat base' + unat sz' = unat base + unat sz
        \<and> {unat base..<unat base'} \<subseteq> covered rs"
  using assms(4-)
proof (induction "length rs - i" arbitrary: i base sz rule: less_induct)
  case less
  have lM: "length rs \<le> M" using mh by (simp add: map_holds_def)
  have lt: "(of_nat i :: u32) < of_nat (length rs) \<longleftrightarrow> i < length rs"
    using less.prems(1) lM M by (simp add: word_less_nat_alt unat_of_nat32)
  show ?case
  proof (cases "i < length rs \<and> fst (rs ! i) \<le> base")
    case False
    then show ?thesis using less.prems lt map_holdsD [OF mh, of i]
      by (subst map_skip.simps) auto
  next
    case True
    then have i: "i < length rs" "fst (rs ! i) \<le> base" by auto
    note r = ordered_nth [OF ord i(1)]
    let ?nb = "fst (rs ! i) + snd (rs ! i)"
    have nb: "unat ?nb = reg_end (rs ! i)" by (rule r(3))
    have bs: "unat (base + sz) = unat base + unat sz" using less.prems(5) by (rule unat_add64)
    have cov: "{unat base..<unat ?nb} \<subseteq> covered rs"
      using i nb nth_mem [OF i(1)] unfolding covered_def word_le_nat_alt by force
    show ?thesis
    proof (cases "base + sz \<le> ?nb")
      case True
      then have "{unat base..<unat base + unat sz} \<subseteq> covered rs"
        using cov bs by (auto simp: word_le_nat_alt)
      with True i lt map_holdsD [OF mh i(1)] show ?thesis by (subst map_skip.simps) simp
    next
      case False
      have lt_nb: "unat base < unat ?nb" using less.prems(3) i nb by simp
      have d: "unat (?nb - base) = unat ?nb - unat base"
        using lt_nb by (simp add: unat_sub_le word_le_nat_alt)
      have gt: "unat ?nb < unat base + unat sz" using False bs by (simp add: word_le_nat_alt)
      have s': "unat (sz - (?nb - base)) = unat sz - (unat ?nb - unat base)"
        using gt lt_nb d by (subst unat_sub_le) (simp_all add: word_le_nat_alt)
      let ?sz = "sz - (?nb - base)"
      have "unat ?sz \<noteq> 0" unfolding s' using gt lt_nb by linarith
      then have nz: "?sz \<noteq> 0" unfolding unat_eq_0 .
      have sum: "unat ?nb + unat ?sz = unat base + unat sz" using s' gt lt_nb by simp
      have nxt: "Suc i < length rs \<longrightarrow> unat ?nb < reg_end (rs ! Suc i)"
        using ordered_nth(1) [OF ord, of "Suc i"] ordered_nth(4) [OF ord, of "Suc i" i] nb
        by (auto simp: neq0_conv [symmetric] intro: le_neq_trans add_strict_increasing2 simp del: neq0_conv)
      have pre: "\<forall>k<Suc i. reg_end (rs ! k) \<le> unat ?nb"
        using less.prems(2) lt_nb nb by (auto simp: less_Suc_eq)
      have ih: "case map_skip m mp (of_nat (length rs)) ?nb ?sz (of_nat (Suc i)) of
          Inl _ \<Rightarrow> {unat ?nb..<unat ?nb + unat ?sz} \<subseteq> covered rs
        | Inr (base', sz', i') \<Rightarrow> \<exists>j. i' = of_nat j \<and> j \<le> length rs \<and> sz' \<noteq> 0
            \<and> (\<forall>k<j. reg_end (rs ! k) \<le> unat base') \<and> (j < length rs \<longrightarrow> base' < fst (rs ! j))
            \<and> unat ?nb \<le> unat base' \<and> unat base' + unat sz' = unat ?nb + unat ?sz
            \<and> {unat ?nb..<unat base'} \<subseteq> covered rs"
        using i pre nxt nz sum less.prems(5) by (intro less.hyps) auto
      have eq: "map_skip m mp (of_nat (length rs)) base sz (of_nat i) =
          map_skip m mp (of_nat (length rs)) ?nb ?sz (of_nat (Suc i))"
        using i lt False map_holdsD [OF mh i(1)]
        by (subst map_skip.simps) (simp add: Let_def add.commute)
      have join: "{unat ?nb..<x} \<subseteq> covered rs \<Longrightarrow> {unat base..<x} \<subseteq> covered rs" for x
        using cov by (meson atLeastLessThan_iff linorder_not_less subset_iff)
      show ?thesis
      proof (cases "map_skip m mp (of_nat (length rs)) ?nb ?sz (of_nat (Suc i))")
        case (Inl u)
        with ih join sum show ?thesis unfolding eq by simp
      next
        case (Inr r)
        obtain b' s' i' where "r = (b', s', i')" by (cases r)
        note r = Inr [unfolded this]
        from ih [unfolded r sum.case prod.case] obtain j where
          j: "i' = of_nat j" "j \<le> length rs" "s' \<noteq> 0"
          "\<forall>k<j. reg_end (rs ! k) \<le> unat b'" "j < length rs \<longrightarrow> b' < fst (rs ! j)"
          "unat ?nb \<le> unat b'" "unat b' + unat s' = unat ?nb + unat ?sz"
          "{unat ?nb..<unat b'} \<subseteq> covered rs" by blast
        from j(6) lt_nb have "unat base \<le> unat b'" by linarith
        moreover from j(7) sum have "unat b' + unat s' = unat base + unat sz" by linarith
        ultimately show ?thesis
          unfolding eq r sum.case prod.case using j(1-5) join [OF j(8)] by blast
      qed
    qed
  qed
qed

subsection \<open>The insertion\<close>

lemma load64_shift: "(\<And>i. i < 8 \<Longrightarrow> m (a + of_nat i) = m' (b + of_nat i)) \<Longrightarrow> load64 m a = load64 m' b"
  using load64_cong [of m "\<lambda>x. m' (x - a + b)" a]
  by (simp add: agree_def add.commute) (simp add: load64_def load32_def algebra_simps)

lemma store_map_item_frame:
  assumes "sep it 20 b k"
  shows "agree m (store_map_item m it base count t) b k"
proof -
  have "sep (it + 4) 8 b k" "sep (it + 12) 8 b k" "sep it 4 b k"
    using sep_sub [OF assms, of 4 8] sep_sub [OF assms, of 12 8] sep_mono [OF assms, of 4 k] by auto
  then show ?thesis unfolding store_map_item_def
    by (intro c32.store_keeps c64.store_keeps agree_refl)
qed

lemma region_cong: "agree m m' (map_item mp (of_nat k)) 20 \<Longrightarrow> region m mp k = region m' mp k"
  using load64_cong [OF agree_sub [of m m' "map_item mp (of_nat k)" 20 4 8]]
    load64_cong [OF agree_sub [of m m' "map_item mp (of_nat k)" 20 12 8]]
  by (simp add: region_def map_BasePage_def map_PageCount_def)

lemma region_store:
  assumes "map_fits mp M" "i \<le> M" "k \<le> M"
  shows "region (store_map_item m (map_item mp (of_nat i)) base count t) mp k =
    (if k = i then (base, count) else region m mp k)"
proof (cases "k = i")
  case True
  then show ?thesis
    by (simp add: region_def map_BasePage_def map_PageCount_def store_map_item_def
        p64_32.load_other_sep c64.load_store_sep)
next
  case False
  have "sep (map_item mp (of_nat i)) 20 (map_item mp (of_nat k)) 20"
  proof (cases "i < k")
    case True
    then show ?thesis
      using assms map_item_unat [OF assms(1)] by (intro sep_below) (auto simp: map_fits_def)
  next
    case below: False
    then show ?thesis
      using False assms map_item_unat [OF assms(1)] by (intro sep_above) (auto simp: map_fits_def)
  qed
  then have "agree m (store_map_item m (map_item mp (of_nat i)) base count t) (map_item mp (of_nat k)) 20"
    by (rule store_map_item_frame)
  with False show ?thesis using region_cong by metis
qed

lemma region_shift:
  fixes m :: mem
  assumes fits: "map_fits mp M" and i: "i < c" "c < M" and k: "k < M"
  defines m1_def: "m1 \<equiv> memmove (m :: mem) (map_item mp (of_nat i + 1)) (map_item mp (of_nat i)) ((of_nat c - of_nat i) * 20)"
  shows "region m1 mp k = (if i < k \<and> k \<le> c then region m mp (k - 1) else region m mp k)"
proof -
  let ?d = "map_item mp (of_nat (i + 1))" and ?s = "map_item mp (of_nat i)"
  let ?n = "(of_nat c - of_nat i) * 20 :: u32"
  have d: "unat ?d = unat mp + 20 * (i + 1)" using map_item_unat [OF fits, of "i + 1"] i by simp
  have s: "unat ?s = unat mp + 20 * i" using map_item_unat [OF fits, of i] i by simp
  have n_eq: "?n = of_nat (20 * (c - i))" using i by (simp add: of_nat_diff)
  have n: "unat ?n = 20 * (c - i)"
    unfolding n_eq using i fits by (intro unat_of_nat32) (simp add: map_fits_def)
  have le: "?s \<le> ?d" using d s by (simp add: word_le_nat_alt)
  have room: "unat ?d + unat ?n < 4294967296"
    using d n i fits by (simp add: map_fits_def)
  have m1: "m1 = memmove m ?d ?s ?n" by (simp add: m1_def add.commute)
  note mv = memmove_backward [OF le room, where m = m, folded m1]
  show ?thesis
  proof (cases "i < k \<and> k \<le> c")
    case True
    have "m1 (map_item mp (of_nat k) + 4 + of_nat j) = m (map_item mp (of_nat (k - 1)) + 4 + of_nat j)"
      if "j < 16" for j
    proof -
      have "0 < 20 * (k - (i + 1)) + 4 + j" "20 * (k - (i + 1)) + 4 + j \<le> unat ?n"
        unfolding n using True that by auto
      then have "m1 (?d + of_nat (20 * (k - (i + 1)) + 4 + j)) = m (?s + of_nat (20 * (k - (i + 1)) + 4 + j))"
        by (rule mv(1))
      moreover have "?d + of_nat (20 * (k - (i + 1)) + 4 + j) = map_item mp (of_nat k) + 4 + of_nat j"
        using True by (simp add: map_item_def of_nat_diff algebra_simps)
      moreover have "?s + of_nat (20 * (k - (i + 1)) + 4 + j) = map_item mp (of_nat (k - 1)) + 4 + of_nat j"
        using True by (simp add: map_item_def of_nat_diff algebra_simps)
      ultimately show ?thesis by metis
    qed
    note b = this
    have "load64 m1 (map_item mp (of_nat k) + 4) = load64 m (map_item mp (of_nat (k - 1)) + 4)"
      using b by (intro load64_shift) simp
    moreover have "load64 m1 (map_item mp (of_nat k) + 12) = load64 m (map_item mp (of_nat (k - 1)) + 12)"
      using b [of "8 + _"] by (intro load64_shift) (simp add: ac_simps)
    ultimately show ?thesis using True
      by (simp add: region_def map_BasePage_def map_PageCount_def)
  next
    case False
    have "m1 (map_item mp (of_nat k) + of_nat j) = m (map_item mp (of_nat k) + of_nat j)"
      if "4 \<le> j" "j < 20" for j
    proof (rule mv(2))
      fix x
      assume x: "0 < x" "x \<le> unat ?n"
      have "unat (?d + of_nat x) = unat ?d + x"
        using x room by (intro unat_add_of_nat32) simp
      moreover have "unat (map_item mp (of_nat k) + of_nat j) = unat mp + 20 * k + j"
        using that k fits map_item_unat [OF fits, of k]
        by (subst unat_add_of_nat32) (simp_all add: map_fits_def)
      moreover have "unat mp + 20 * k + j \<noteq> unat ?d + x"
      proof (cases "k \<le> i")
        case True
        then show ?thesis using that unfolding d by simp
      next
        case kc: False
        with False have "c < k" by simp
        moreover have "x \<le> 20 * (c - i)" using x n by simp
        ultimately show ?thesis using that i(1) unfolding d by simp
      qed
      ultimately show "map_item mp (of_nat k) + of_nat j \<noteq> ?d + of_nat x" by metis
    qed
    note b = this
    have "load64 m1 (map_item mp (of_nat k) + 4) = load64 m (map_item mp (of_nat k) + 4)"
      using b [of "4 + _"] by (intro load64_shift) (simp add: ac_simps)
    moreover have "load64 m1 (map_item mp (of_nat k) + 12) = load64 m (map_item mp (of_nat k) + 12)"
      using b [of "12 + _"] by (intro load64_shift) (simp add: ac_simps)
    ultimately show ?thesis using False
      by (auto simp: region_def map_BasePage_def map_PageCount_def)
  qed
qed

lemma map_holds_append:
  assumes "map_holds m mp M rs" "map_fits mp M" "length rs < M"
  shows "map_holds (store_map_item m (map_item mp (of_nat (length rs))) b n t) mp M (rs @ [(b, n)])"
  using assms region_store [OF assms(2), of "length rs"]
  by (auto simp: map_holds_def nth_append less_Suc_eq)

lemma map_holds_insert:
  assumes mh: "map_holds m mp M rs" and fits: "map_fits mp M"
    and i: "i < length rs" "length rs < M"
  shows "map_holds (store_map_item (memmove m (map_item mp (of_nat i + 1)) (map_item mp (of_nat i))
      ((of_nat (length rs) - of_nat i) * 20)) (map_item mp (of_nat i)) b n t) mp M
    (take i rs @ (b, n) # drop i rs)"
proof -
  let ?m1 = "memmove m (map_item mp (of_nat i + 1)) (map_item mp (of_nat i))
      ((of_nat (length rs) - of_nat i) * 20)"
  let ?m2 = "store_map_item ?m1 (map_item mp (of_nat i)) b n t"
  have r: "region ?m2 mp k = (if k = i then (b, n)
      else if i < k \<and> k \<le> length rs then region m mp (k - 1) else region m mp k)" if "k < M" for k
    using region_store [OF fits, of i k ?m1] region_shift [OF fits i that, of m] i that by simp
  have old: "region m mp k = rs ! k" if "k < length rs" for k
    using mh that by (simp add: map_holds_def)
  show ?thesis
    unfolding map_holds_def
  proof (intro conjI allI impI)
    show "length (take i rs @ (b, n) # drop i rs) \<le> M" using i by simp
  next
    fix k
    assume "k < length (take i rs @ (b, n) # drop i rs)"
    then have k: "k \<le> length rs" using i by simp
    consider "k < i" | "k = i" | x where "k = Suc (i + x)"
      by (metis less_imp_Suc_add linorder_neqE_nat)
    then show "region ?m2 mp k = (take i rs @ (b, n) # drop i rs) ! k"
      using i k r [of k] old [of k] old [of "k - 1"]
      by cases (simp_all add: nth_append)
  next
    fix k
    assume k: "length (take i rs @ (b, n) # drop i rs) \<le> k \<and> k < M"
    then have "length rs < k" using i by simp
    with k mh i r [of k] show "snd (region ?m2 mp k) = 0" by (simp add: map_holds_def)
  qed
qed


subsection \<open>Adding an entry\<close>

lemma covered_append [simp]: "covered (xs @ ys) = covered xs \<union> covered ys"
  by (auto simp: covered_def)

lemma covered_Cons [simp]: "covered (r # rs) = {reg_start r..<reg_end r} \<union> covered rs"
  by (auto simp: covered_def)

lemma covered_Nil [simp]: "covered [] = {}"
  by (simp add: covered_def)

lemma covered_take_drop: "covered (take i rs) \<union> covered (drop i rs) = covered rs"
  by (metis append_take_drop_id covered_append)

lemma ordered_insert:
  assumes ord: "ordered_regions rs" and i: "i \<le> length rs"
    and b: "n \<noteq> 0" "unat b + unat n < 18446744073709551616"
    and before: "\<forall>k<i. reg_end (rs ! k) \<le> unat b"
    and after: "i < length rs \<longrightarrow> unat b + unat n \<le> reg_start (rs ! i)"
  shows "ordered_regions (take i rs @ (b, n) # drop i rs)"
proof -
  have 1: "\<forall>r\<in>set (take i rs). reg_end r \<le> unat b"
    using before by (auto simp: in_set_conv_nth) (metis fst_conv snd_conv)
  have 2: "\<forall>r\<in>set (drop i rs). unat b + unat n \<le> reg_start r"
  proof
    fix r
    assume "r \<in> set (drop i rs)"
    then obtain k where "k < length rs - i" "r = rs ! (i + k)"
      by (auto simp: in_set_conv_nth)
    then have k: "i + k < length rs" "r = rs ! (i + k)" by simp_all
    show "unat b + unat n \<le> reg_start r"
    proof (cases k)
      case 0
      with k after show ?thesis by simp
    next
      case (Suc x)
      with k ordered_nth(4) [OF ord k(1), of i] after show ?thesis by simp
    qed
  qed
  have 3: "sorted_wrt (\<lambda>r r'. reg_end r \<le> reg_start r') (take i rs @ drop i rs)"
    using ord by (simp add: ordered_regions_def)
  then have 4: "\<forall>r\<in>set (take i rs). \<forall>r'\<in>set (drop i rs). reg_end r \<le> reg_start r'"
    unfolding sorted_wrt_append by blast
  show ?thesis
    using ord 1 2 3 4 b by (auto simp: ordered_regions_def sorted_wrt_append dest: in_set_takeD in_set_dropD)
qed

lemma takeWhile_end:
  fixes base :: u64
  assumes ord: "ordered_regions rs"
  defines j_def: "j \<equiv> length (takeWhile (\<lambda>r. fst r + snd r \<le> base) rs)"
  shows "j \<le> length rs" "\<forall>k<j. reg_end (rs ! k) \<le> unat base"
    "j < length rs \<longrightarrow> unat base < reg_end (rs ! j)"
proof -
  show j: "j \<le> length rs" by (simp add: j_def length_takeWhile_le)
  show "\<forall>k<j. reg_end (rs ! k) \<le> unat base"
  proof (intro allI impI)
    fix k
    assume k: "k < j"
    then have "fst (rs ! k) + snd (rs ! k) \<le> base"
      using nth_mem [of k "takeWhile (\<lambda>r. fst r + snd r \<le> base) rs"]
      by (auto simp: j_def takeWhile_nth dest: set_takeWhileD)
    with ordered_nth(3) [OF ord, of k] k j show "reg_end (rs ! k) \<le> unat base"
      by (simp add: word_le_nat_alt)
  qed
  show "j < length rs \<longrightarrow> unat base < reg_end (rs ! j)"
    using nth_length_takeWhile [of "\<lambda>r. fst r + snd r \<le> base" rs] ordered_nth(3) [OF ord, of j]
    by (auto simp: j_def word_le_nat_alt not_le)
qed

lemma add_map_entry_correct:
  assumes "map_holds m mp M rs" "ordered_regions rs" "map_fits mp M"
    "sz \<noteq> 0" "unat base + unat sz < 18446744073709551616"
  shows "\<exists>m' rs'. memory_add_map_entry m mp (of_nat M) base sz t = Some (of_nat (length rs'), m')
    \<and> map_holds m' mp M rs' \<and> ordered_regions rs'
    \<and> covered rs \<subseteq> covered rs' \<and> covered rs' \<subseteq> covered rs \<union> {unat base..<unat base + unat sz}
    \<and> (length rs' < M \<longrightarrow> {unat base..<unat base + unat sz} \<subseteq> covered rs')"
  using assms
proof (induction "M - length rs" arbitrary: m rs base sz rule: less_induct)
  case less
  note mh = less.prems(1) and ord = less.prems(2) and fits = less.prems(3)
  have M: "M < 4294967296" using fits by (simp add: map_fits_def)
  have lM: "length rs \<le> M" using mh by (simp add: map_holds_def)
  note scan = map_scan_eq [OF mh M ord]
  let ?j = "length (takeWhile (\<lambda>r. fst r + snd r \<le> base) rs)"
  show ?case
  proof (cases "length rs < M")
    case False
    with lM have "memory_add_map_entry m mp (of_nat M) base sz t = Some (of_nat (length rs), m)"
      by (subst memory_add_map_entry.simps) (simp add: scan)
    with False mh ord show ?thesis by (intro exI [of _ m] exI [of _ rs]) simp
  next
    case room: True
    have cM: "\<not> of_nat M \<le> (of_nat (length rs) :: u32)"
      using room M by (simp add: word_le_nat_alt unat_of_nat32)
    note skip = map_skip_correct [OF mh M ord takeWhile_end [OF ord] less.prems(4,5)]
    show ?thesis
    proof (cases "map_skip m mp (of_nat (length rs)) base sz (of_nat ?j)")
      case (Inl u)
      then have "memory_add_map_entry m mp (of_nat M) base sz t = Some (of_nat (length rs), m)"
        using cM by (subst memory_add_map_entry.simps) (simp add: scan)
      with skip Inl mh ord show ?thesis by (intro exI [of _ m] exI [of _ rs]) simp
    next
      case (Inr r)
      obtain b s i' where "r = (b, s, i')" by (cases r)
      note sk = Inr [unfolded this]
      from skip [unfolded sk sum.case prod.case] obtain i where
        i: "i' = of_nat i" "i \<le> length rs" "s \<noteq> 0" "\<forall>k<i. reg_end (rs ! k) \<le> unat b"
        "i < length rs \<longrightarrow> b < fst (rs ! i)" "unat base \<le> unat b"
        "unat b + unat s = unat base + unat sz" "{unat base..<unat b} \<subseteq> covered rs" by blast
      have lt: "(of_nat i :: u32) < of_nat (length rs) \<longleftrightarrow> i < length rs"
        using i(2) lM M by (simp add: word_less_nat_alt unat_of_nat32)
      show ?thesis
      proof (cases "i < length rs")
        case False
        let ?rs = "rs @ [(b, s)]"
        have il: "i = length rs" using False i(2) by simp
        have res: "memory_add_map_entry m mp (of_nat M) base sz t =
            Some (of_nat (length ?rs), store_map_item m (map_item mp (of_nat (length rs))) b s t)"
          using cM sk il i(1) lt
          by (subst memory_add_map_entry.simps) (simp add: scan add.commute)
        have ord': "ordered_regions ?rs"
          using ordered_insert [OF ord i(2,3) _ i(4)] il less.prems(5) i(7) by simp
        have cov: "covered ?rs = covered rs \<union> {unat b..<unat base + unat sz}"
          using i(7) by auto
        have parts: "{unat base..<unat base + unat sz} \<subseteq> {unat base..<unat b} \<union> {unat b..<unat base + unat sz}"
          "{unat b..<unat base + unat sz} \<subseteq> {unat base..<unat base + unat sz}"
          using i(6) by auto
        show ?thesis
          unfolding res
          by (intro exI conjI impI, rule refl, rule map_holds_append [OF mh fits room], rule ord')
            (use cov parts i(8) in blast)+
      next
        case True
        let ?m1 = "memmove m (map_item mp (of_nat i + 1)) (map_item mp (of_nat i))
          ((of_nat (length rs) - of_nat i) * 20)"
        let ?cnt = "if s < fst (rs ! i) - b then s else fst (rs ! i) - b"
        let ?m2 = "store_map_item ?m1 (map_item mp (of_nat i)) b ?cnt t"
        let ?rs = "take i rs @ (b, ?cnt) # drop i rs"
        have "region ?m1 mp (i + 1) = rs ! i"
          using region_shift [OF fits True room, of "i + 1" m] True room mh
          by (simp add: map_holds_def)
        then have nextb: "map_BasePage ?m1 (map_item mp (of_nat i + 1)) = fst (rs ! i)"
          unfolding region_def by (metis fst_conv of_nat_Suc Suc_eq_plus1 add.commute)
        have bl: "b < fst (rs ! i)" using i(5) True by simp
        then have ud: "unat (fst (rs ! i) - b) = reg_start (rs ! i) - unat b" "fst (rs ! i) - b \<noteq> 0"
          by (simp_all add: unat_sub_le)
        have cnt: "?cnt \<noteq> 0" "unat ?cnt \<le> unat s" "unat b + unat ?cnt \<le> reg_start (rs ! i)"
          using ud i(3) bl by (auto simp: word_less_nat_alt)
        have mh2: "map_holds ?m2 mp M ?rs" by (rule map_holds_insert [OF mh fits True room])
        have ord2: "ordered_regions ?rs"
          using cnt i(7) less.prems(5) by (intro ordered_insert [OF ord i(2) _ _ i(4)]) auto
        have cov2: "covered ?rs = covered rs \<union> {unat b..<unat b + unat ?cnt}"
          using covered_take_drop [of i rs] by auto
        have len: "length ?rs = Suc (length rs)" using True by simp
        have step: "memory_add_map_entry m mp (of_nat M) base sz t =
            (if ?cnt < s then memory_add_map_entry ?m2 mp (of_nat M) (b + ?cnt) (s - ?cnt) t
             else Some (of_nat (length ?rs), ?m2))"
          using cM sk True i(1) lt nextb
          by (subst memory_add_map_entry.simps) (simp add: scan add.commute Let_def)
        show ?thesis
        proof (cases "?cnt < s")
          case False
          then have "unat ?cnt = unat s" using cnt(2) by (simp add: word_less_nat_alt)
          with False step mh2 ord2 cov2 i(6,7,8) show ?thesis
            by (intro exI [of _ ?m2] exI [of _ ?rs]) auto
        next
          case more: True
          have ub: "unat (b + ?cnt) = unat b + unat ?cnt"
            using cnt(2) i(7) less.prems(5) by (intro unat_add64) simp
          have us: "unat (s - ?cnt) = unat s - unat ?cnt" using more by (simp add: unat_sub_le)
          have nz: "s - ?cnt \<noteq> 0" using more by auto
          have sum: "unat (b + ?cnt) + unat (s - ?cnt) = unat base + unat sz"
            unfolding ub us using cnt(2) i(7) by simp
          have "M - length ?rs < M - length rs" using len room by simp
          note ih = less.hyps [OF this mh2 ord2 fits nz, of "b + ?cnt", unfolded sum, OF less.prems(5)]
          from ih obtain m' rs' where
            r: "memory_add_map_entry ?m2 mp (of_nat M) (b + ?cnt) (s - ?cnt) t = Some (of_nat (length rs'), m')"
            "map_holds m' mp M rs'" "ordered_regions rs'" "covered ?rs \<subseteq> covered rs'"
            "covered rs' \<subseteq> covered ?rs \<union> {unat (b + ?cnt)..<unat base + unat sz}"
            "length rs' < M \<longrightarrow> {unat (b + ?cnt)..<unat base + unat sz} \<subseteq> covered rs'" by (elim exE conjE)
          have "covered rs' \<subseteq> covered rs \<union> {unat base..<unat base + unat sz}"
            using r(5) cov2 i(6,7) cnt(2) ub by fastforce
          moreover have "{unat base..<unat base + unat sz} \<subseteq> {unat base..<unat b} \<union>
              {unat b..<unat b + unat ?cnt} \<union> {unat (b + ?cnt)..<unat base + unat sz}"
            unfolding ub by auto
          then have "length rs' < M \<longrightarrow> {unat base..<unat base + unat sz} \<subseteq> covered rs'"
            using r(4,6) cov2 i(8) by blast
          moreover have "covered rs \<subseteq> covered rs'" using r(4) cov2 by blast
          ultimately show ?thesis using r(1-3) step more by auto
        qed
      qed
    qed
  qed
qed

section \<open>Properties\<close>

text \<open>C18. \<open>memory_add_map_entry\<close> always returns, whatever region is added to a map of disjoint
  regions in increasing order: the map stays disjoint and in order, no page of it is lost, no page
  outside the requested region is added, and unless the array is full every requested page is
  covered afterwards. The value returned is the number of entries.\<close>

theorem add_map_entry_covers:
  assumes "map_holds m mp M rs" "ordered_regions rs" "map_fits mp M"
    "sz \<noteq> 0" "unat base + unat sz < 18446744073709551616"
  shows "\<exists>m' rs'. memory_add_map_entry m mp (of_nat M) base sz t = Some (of_nat (length rs'), m')
    \<and> map_holds m' mp M rs' \<and> ordered_regions rs'
    \<and> covered rs \<subseteq> covered rs' \<and> covered rs' \<subseteq> covered rs \<union> {unat base..<unat base + unat sz}
    \<and> (length rs' < M \<longrightarrow> {unat base..<unat base + unat sz} \<subseteq> covered rs')"
  using assms by (rule add_map_entry_correct)

definition empty_ram :: mem where
  "empty_ram = (\<lambda>_. 0)"

lemma map_holds_empty_ram: "map_holds empty_ram mp M []"
  by (simp add: map_holds_def region_def map_PageCount_def load64_def load32_def empty_ram_def)

definition one_entry_ram :: mem where
  "one_entry_ram = store_map_item empty_ram (map_item 0x1000 (of_nat 0)) 10 5 MemoryTypeUnusable"

lemma map_holds_one_entry: "map_holds one_entry_ram 0x1000 32 [(10, 5)]"
  using map_holds_append [OF map_holds_empty_ram, of "0x1000" 32 10 5 MemoryTypeUnusable]
  by (simp add: one_entry_ram_def map_fits_def)

theorem add_map_entry_covers_witness:
  "\<exists>m' rs'. memory_add_map_entry one_entry_ram 0x1000 (of_nat 32) 0 20 MemoryTypeFree =
      Some (of_nat (length rs'), m')
    \<and> map_holds m' 0x1000 32 rs' \<and> ordered_regions rs'
    \<and> covered [(10, 5)] \<subseteq> covered rs' \<and> covered rs' \<subseteq> covered [(10, 5)] \<union> {unat (0 :: u64)..<unat (0 :: u64) + unat (20 :: u64)}
    \<and> (length rs' < 32 \<longrightarrow> {unat (0 :: u64)..<unat (0 :: u64) + unat (20 :: u64)} \<subseteq> covered rs')"
  by (rule add_map_entry_covers [OF map_holds_one_entry])
    (simp_all add: ordered_regions_def map_fits_def)

text \<open>What the backward copy by one entry leaves at the place of the moved entry.\<close>

lemma moved_type:
  assumes fits: "map_fits mp M" and i: "i < M"
  shows "memmove m (map_item mp (of_nat i + 1)) (map_item mp (of_nat i)) 20 (map_item mp (of_nat i + 1)) =
      m (map_item mp (of_nat i + 1))"
    and "0 < k \<Longrightarrow> k < 20 \<Longrightarrow>
      memmove m (map_item mp (of_nat i + 1)) (map_item mp (of_nat i)) 20
        (map_item mp (of_nat i + 1) + of_nat k) = m (map_item mp (of_nat i) + of_nat k)"
proof -
  let ?d = "map_item mp (of_nat i + 1)" and ?s = "map_item mp (of_nat i)"
  have d: "unat ?d = unat mp + 20 * (i + 1)"
    using map_item_unat [OF fits, of "i + 1"] i by (simp add: add.commute)
  have s: "unat ?s = unat mp + 20 * i" using map_item_unat [OF fits, of i] i by simp
  have le: "?s \<le> ?d" using d s by (simp add: word_le_nat_alt)
  have room: "unat ?d + unat (20 :: u32) < 4294967296"
    using d i fits by (simp add: map_fits_def)
  note mv = memmove_backward [OF le room, where m = m]
  show "0 < k \<Longrightarrow> k < 20 \<Longrightarrow> memmove m ?d ?s 20 (?d + of_nat k) = m (?s + of_nat k)"
    by (rule mv(1)) simp_all
  show "memmove m ?d ?s 20 ?d = m ?d"
  proof (rule mv(2))
    fix x
    assume x: "0 < x" "x \<le> unat (20 :: u32)"
    then have "unat (?d + of_nat x) = unat ?d + x"
      using room by (intro unat_add_of_nat32) simp
    with x show "?d \<noteq> ?d + of_nat x" by (metis add_cancel_left_right less_numeral_extra(3))
  qed
qed

lemma load32_low_byte:
  assumes "m' a = b" "m' (a + 1) = m (c + 1)" "m' (a + 2) = m (c + 2)" "m' (a + 3) = m (c + 3)"
  shows "load32 m' a = (load32 m c AND NOT 0xFF) OR ucast b"
proof -
  have m: "(0xFF :: u32) = mask 8" by (simp add: mask_eq_exp_minus_1)
  show ?thesis
  proof (rule bit_word_eqI)
    fix n
    assume "n < LENGTH(32)"
    then have "n < 8 \<or> (\<exists>k<8. n = 8 + k) \<or> (\<exists>k<8. n = 16 + k) \<or> (\<exists>k<8. n = 24 + k)"
      by (intro byte_of_bit) simp
    then show "bit (load32 m' a) n \<longleftrightarrow> bit ((load32 m c AND NOT 0xFF) OR ucast b) n"
      unfolding load32_def assms m
      by (elim disjE exE conjE) (auto simp: bit_simps dest: bit_imp_le_length)
  qed
qed

lemma scan_place:
  fixes base :: u64
  assumes ord: "ordered_regions rs" and i: "i < length rs"
    and before: "\<forall>k<i. reg_end (rs ! k) \<le> unat base" and at: "unat base < reg_end (rs ! i)"
  shows "length (takeWhile (\<lambda>r. fst r + snd r \<le> base) rs) = i"
proof -
  let ?j = "length (takeWhile (\<lambda>r. fst r + snd r \<le> base) rs)"
  note tw = takeWhile_end [OF ord, of base]
  have "\<not> i < ?j" using tw(2) at by (meson not_less)
  moreover have "\<not> ?j < i" using tw(3) before i by (meson less_trans not_less)
  ultimately show ?thesis by simp
qed

text \<open>Inserting a region in front of the last entry of the map changes the type of that entry: the
  backward copy of \<open>memmove\<close> skips the first byte of the block, so the moved entry takes the low
  byte of the entry it lands on, zero in an array that was cleared, and reads as
  \<open>MemoryTypeFree\<close> if its type was one of the enumeration's.\<close>

lemma add_map_entry_changes_type:
  assumes mh: "map_holds m mp M rs" and ord: "ordered_regions rs" and fits: "map_fits mp M"
    and len: "length rs = Suc i" "length rs < M" and sz: "sz \<noteq> 0"
    and before: "\<forall>k<i. reg_end (rs ! k) \<le> unat base"
    and room: "unat base + unat sz \<le> reg_start (rs ! i)"
  shows "\<exists>m'. memory_add_map_entry m mp (of_nat M) base sz t = Some (of_nat (Suc (length rs)), m')
    \<and> map_Type m' (map_item mp (of_nat (Suc i))) =
       (map_Type m (map_item mp (of_nat i)) AND NOT 0xFF) OR ucast (m (map_item mp (of_nat (Suc i))))"
proof -
  have M: "M < 4294967296" using fits by (simp add: map_fits_def)
  have i: "i < length rs" using len by simp
  have szp: "0 < unat sz" using sz by (simp add: unat_gt_0)
  have lt: "unat base < reg_start (rs ! i)" using room szp by simp
  then have bl: "base < fst (rs ! i)" by (simp add: word_less_nat_alt)
  have place: "length (takeWhile (\<lambda>r. fst r + snd r \<le> base) rs) = i"
    using scan_place [OF ord i before] lt by simp
  have scan: "map_scan m mp (of_nat M) base 0 0 = (of_nat i, of_nat (length rs))"
    using map_scan_eq [OF mh M ord, of base] place by simp
  have skip: "map_skip m mp (of_nat (length rs)) base sz (of_nat i) = Inr (base, sz, of_nat i)"
    using bl map_holdsD [OF mh i] by (subst map_skip.simps) (auto simp: not_le)
  have cM: "\<not> of_nat M \<le> (of_nat (length rs) :: u32)" "(of_nat i :: u32) < of_nat (length rs)"
    using len M by (simp_all add: word_le_nat_alt word_less_nat_alt unat_of_nat32 del: of_nat_Suc)
  have n20: "(of_nat (length rs) - of_nat i) * 20 = (20 :: u32)" by (simp add: len)
  let ?m1 = "memmove m (map_item mp (of_nat i + 1)) (map_item mp (of_nat i)) 20"
  have "region ?m1 mp (i + 1) = rs ! i"
    using region_shift [OF fits i len(2), of "i + 1" m] len mh unfolding n20
    by (simp add: map_holds_def)
  then have nextb: "map_BasePage ?m1 (map_item mp (of_nat i + 1)) = fst (rs ! i)"
    unfolding region_def by (metis fst_conv of_nat_Suc Suc_eq_plus1 add.commute)
  have "unat (fst (rs ! i) - base) = reg_start (rs ! i) - unat base"
    using bl by (simp add: unat_sub_le)
  then have cnt: "(if sz < fst (rs ! i) - base then sz else fst (rs ! i) - base) = sz"
    using room by (auto simp: word_less_nat_alt word_eq_unat_iff)
  then have nl: "\<not> fst (rs ! i) - base < sz" by (metis order.irrefl less_le_not_le linear)
  from cnt have eq: "fst (rs ! i) - base = sz" if "\<not> sz < fst (rs ! i) - base" using that by simp
  let ?m2 = "store_map_item ?m1 (map_item mp (of_nat i)) base sz t"
  have res: "memory_add_map_entry m mp (of_nat M) base sz t = Some (of_nat (Suc (length rs)), ?m2)"
    using cM n20 nextb
    by (subst memory_add_map_entry.simps) (simp add: scan skip nl eq Let_def add.commute)
  let ?d = "map_item mp (of_nat i + 1)"
  note ui = map_item_unat [OF fits, of i] map_item_unat [OF fits, of "Suc i"]
  have "sep (map_item mp (of_nat i)) 20 ?d 4"
    using ui len fits by (intro sep_below) (simp_all add: map_fits_def add.commute)
  then have "load32 ?m2 ?d = load32 ?m1 ?d"
    by (metis load32_cong store_map_item_frame)
  moreover have "load32 ?m1 ?d = (load32 m (map_item mp (of_nat i)) AND NOT 0xFF) OR ucast (m ?d)"
    using moved_type(1) [OF fits, of i m] moved_type(2) [OF fits, of i 1]
      moved_type(2) [OF fits, of i 2] moved_type(2) [OF fits, of i 3] len
    by (intro load32_low_byte) simp_all
  ultimately show ?thesis using res by (auto simp: map_Type_def add.commute)
qed

lemma add_map_entry_changes_type_example:
  "\<exists>m'. memory_add_map_entry one_entry_ram 0x1000 (of_nat 32) 0 10 MemoryTypeFree =
      Some (of_nat (Suc (length [(10 :: u64, 5 :: u64)])), m')
    \<and> map_Type m' (map_item 0x1000 (of_nat (Suc 0))) =
       (map_Type one_entry_ram (map_item 0x1000 (of_nat 0)) AND NOT 0xFF)
         OR ucast (one_entry_ram (map_item 0x1000 (of_nat (Suc 0))))"
  by (rule add_map_entry_changes_type [OF map_holds_one_entry])
    (simp_all add: ordered_regions_def map_fits_def)

text \<open>\<open>memory_mark_pages\<close> panics exactly when the run starts below the lowest page or ends above
  the highest; otherwise it gives every page of the run the type, leaves the type of every other
  page, and writes nothing outside the run's entries of the table.\<close>

lemma mark_pages_effect:
  assumes "table_fits s N" "unat (start - lowestPhysicalPage s) + unat count \<le> N"
  shows "case memory_mark_pages s start count t of
      Inl e \<Rightarrow> e = PanicMarkBounds \<and>
        (start < lowestPhysicalPage s \<or> highestPhysicalPage s < start + count - 1)
    | Inr s' \<Rightarrow> lowestPhysicalPage s \<le> start \<and> start + count - 1 \<le> highestPhysicalPage s
        \<and> (\<forall>i<N. page_type s' i = (if unat (start - lowestPhysicalPage s) \<le> i
             \<and> i < unat (start - lowestPhysicalPage s) + unat count then t else page_type s i))
        \<and> (\<forall>b k. sep (lookup_item s (unat (start - lowestPhysicalPage s))) (12 * unat count) b k
             \<longrightarrow> agree (ram s) (ram s') b k)
        \<and> s' = s\<lparr>ram := ram s'\<rparr>"
proof (cases "memory_mark_pages s start count t")
  case (Inl e)
  with mark_pages_panics [THEN iffD1, OF Inl] show ?thesis by (simp only: sum.case)
next
  case (Inr s')
  then have "\<not> (start < lowestPhysicalPage s \<or> highestPhysicalPage s < start + count - 1)"
    by (auto simp: memory_mark_pages_def)
  with Inr mark_pages_InrD [OF Inr] page_type_mark [OF Inr assms] show ?thesis
    by (simp add: mark_loop_frame not_less)
qed

definition example_mm :: mm where
  "example_mm = \<lparr>ram = empty_ram, highestPhysicalPage = 15, lowestPhysicalPage = 0,
     pageLookupTable = 0x2000, FirmwareMemoryMap = 0x1000\<rparr>"

lemma mark_pages_effect_example:
  "case memory_mark_pages example_mm 2 3 MemoryTypeBad of
      Inl e \<Rightarrow> e = PanicMarkBounds \<and>
        (2 < lowestPhysicalPage example_mm \<or> highestPhysicalPage example_mm < 2 + 3 - 1)
    | Inr s' \<Rightarrow> lowestPhysicalPage example_mm \<le> 2 \<and> 2 + 3 - 1 \<le> highestPhysicalPage example_mm
        \<and> (\<forall>i<16. page_type s' i = (if unat (2 - lowestPhysicalPage example_mm) \<le> i
             \<and> i < unat (2 - lowestPhysicalPage example_mm) + unat (3 :: u64)
             then MemoryTypeBad else page_type example_mm i))
        \<and> (\<forall>b k. sep (lookup_item example_mm (unat (2 - lowestPhysicalPage example_mm)))
               (12 * unat (3 :: u64)) b k \<longrightarrow> agree (ram example_mm) (ram s') b k)
        \<and> s' = example_mm\<lparr>ram := ram s'\<rparr>"
  by (rule mark_pages_effect) (simp_all add: example_mm_def table_fits_def)

text \<open>The search for free pages returns the first run of the requested length, and panics only
  when the table has no such run.\<close>

lemma find_available_first_fit:
  assumes "0 < count"
  shows "case memory_find_available_pages s count of
      Inl e \<Rightarrow> e = PanicNoPages \<and> (\<forall>j. j + unat count \<le> page_span s \<longrightarrow> \<not> free_run s j (unat count))
    | Inr p \<Rightarrow> (\<exists>j. p = lowestPhysicalPage s + of_nat j \<and> j + unat count \<le> page_span s \<and>
        free_run s j (unat count) \<and> (\<forall>j'<j. \<not> free_run s j' (unat count)))"
  using assms by (rule find_available_correct)

lemma find_available_first_fit_example:
  "case memory_find_available_pages example_mm 4 of
      Inl e \<Rightarrow> e = PanicNoPages \<and>
        (\<forall>j. j + unat (4 :: u64) \<le> page_span example_mm \<longrightarrow> \<not> free_run example_mm j (unat (4 :: u64)))
    | Inr p \<Rightarrow> (\<exists>j. p = lowestPhysicalPage example_mm + of_nat j \<and>
        j + unat (4 :: u64) \<le> page_span example_mm \<and> free_run example_mm j (unat (4 :: u64)) \<and>
        (\<forall>j'<j. \<not> free_run example_mm j' (unat (4 :: u64))))"
  by (rule find_available_first_fit) simp

lemma find_loop_fault: "find_loop s count i cf = Inl e \<Longrightarrow> e = PanicNoPages"
proof (induction s count i cf rule: find_loop.induct)
  case (1 s count i cf)
  from 1(2) show ?case
    by (subst (asm) find_loop.simps) (auto simp: Let_def split: if_splits intro: 1(1))
qed

text \<open>C19. A request of at least one page, with the lowest page not above the highest (both numbers of pages of 64-bit
  addresses) and a table in memory that holds the pages between: when the pages below the highest hold a run of
  \<open>sz div 4096\<close> free pages (the size is rounded down) that ends below 4 GB, the request is served with the first such run: every page of the run was
  free before the call and has the requested type afterwards, every other page keeps its type, so a page is never handed out twice. It panics for two
  reasons only: there is no such run, or the first one reaches 4 GB.\<close>

theorem allocate_takes_free_run:
  assumes sz: "4096 \<le> unat sz" and fits: "table_fits s N" "page_span s \<le> N" and pages: "lowestPhysicalPage s \<le> highestPhysicalPage s" "unat (highestPhysicalPage s) < 2 ^ 52"
  defines "n \<equiv> unat sz div 4096"
  shows "if \<exists>j. j + n \<le> page_span s \<and> free_run s j n
    then \<exists>j. j + n \<le> page_span s \<and> free_run s j n \<and> (\<forall>j'<j. \<not> free_run s j' n) \<and>
      (if 2 ^ 32 \<le> 4096 * (unat (lowestPhysicalPage s) + j + n) then memory_allocate s sz t = Inl PanicAllocHigh
       else \<exists>s'. memory_allocate s sz t = Inr (of_nat (4096 * (unat (lowestPhysicalPage s) + j)), s') \<and> s' = s\<lparr>ram := ram s'\<rparr> \<and>
         (\<forall>i<N. page_type s' i = (if j \<le> i \<and> i < j + n then t else page_type s i)))
    else memory_allocate s sz t = Inl PanicNoPages"
proof -
  let ?c = "PAGE_START (ucast sz) div ucast arch_pagesize :: u64" and ?lo = "unat (lowestPhysicalPage s)"
  have c: "unat ?c = n" unfolding n_def by (rule pages_floor)
  have n: "0 < n" using sz by (simp add: n_def div_greater_zero_iff)
  then have "0 < ?c" by (metis c unat_eq_0 word_gt_0 neq0_conv)
  note find = find_available_correct [OF this, of s, unfolded c]
  have sz0: "\<not> sz \<le> 0" using sz by auto
  show ?thesis
  proof (cases "memory_find_available_pages s ?c")
    case (Inl e)
    then have "memory_allocate s sz t = Inl PanicNoPages" "\<not> (\<exists>j. j + n \<le> page_span s \<and> free_run s j n)"
      using find sz0 by (auto simp: memory_allocate_def Let_def)
    then show ?thesis by (simp only: if_False)
  next
    case (Inr first)
    then obtain j where j: "first = lowestPhysicalPage s + of_nat j" "j + n \<le> page_span s" "free_run s j n" "\<forall>j'<j. \<not> free_run s j' n"
      using find by auto
    have hi: "unat (highestPhysicalPage s) = ?lo + page_span s"
      using pages(1) by (simp add: page_span_def unat_sub_le word_le_nat_alt)
    then have small: "?lo + j + n < 4503599627370496" using j(2) pages(2) by simp
    have first: "unat first = ?lo + j" using small unfolding j(1) by (simp add: unat_word_ariths unat_of_nat take_bit_eq_mod)
    have last: "unat (first + ?c - 1) = ?lo + j + n - 1" and behind: "unat ((first + ?c) * 4096) = 4096 * (?lo + j + n)"
      using small n first c by (simp_all add: unat_word_ariths unat_sub_if' take_bit_eq_mod)
    define s' where "s' = s\<lparr>ram := mark_loop (unat ?c) (ram s) (pageLookupTable s + 12 * ucast (first - lowestPhysicalPage s)) t\<rparr>"
    have mark: "memory_mark_pages s first ?c t = Inr s'"
      using j(2) n first last hi by (simp add: memory_mark_pages_def s'_def word_less_nat_alt)
    have "(0xFFFFFFFF < (first + ?c) * ucast arch_pagesize) = (4294967295 < unat ((first + ?c) * 4096))"
      by (simp add: word_less_nat_alt arch_pagesize_def)
    also have "(4294967295 < x) = (2 ^ 32 \<le> x)" for x :: nat by auto
    also note behind
    finally have res0: "(0xFFFFFFFF < (first + ?c) * ucast arch_pagesize) = (2 ^ 32 \<le> 4096 * (?lo + j + n))" .
    then have res: "memory_allocate s sz t = (if 2 ^ 32 \<le> 4096 * (?lo + j + n) then Inl PanicAllocHigh else Inr (ucast (first * 4096), s'))"
      using sz0 Inr mark by (simp add: memory_allocate_def Let_def arch_pagesize_def)
    have "unat (first * 4096) = 4096 * (?lo + j)" using small first by (simp add: unat_word_ariths take_bit_eq_mod)
    then have p: "ucast (first * 4096) = (of_nat (4096 * (?lo + j)) :: u32)" by (simp only: word_unat_eq_iff unat_of_nat unsigned_ucast_eq take_bit_eq_mod)
    have "\<forall>i<N. page_type s' i = (if j \<le> i \<and> i < j + n then t else page_type s i)"
      using page_type_mark [OF mark fits(1)] j(2) fits(2) page_unat [OF j(1,2)] c by simp
    moreover have "s' = s\<lparr>ram := ram s'\<rparr>" by (simp add: s'_def)
    ultimately show ?thesis using res p j(2-4) by auto
  qed
qed

theorem allocate_takes_free_run_witness:
  "\<exists>s'. memory_allocate example_mm 0x2800 MemoryTypeLoaderTemporary = Inr (0, s') \<and>
    page_type s' 0 = MemoryTypeLoaderTemporary \<and> page_type s' 1 = MemoryTypeLoaderTemporary \<and> page_type s' 2 = MemoryTypeFree"
proof -
  have h: "4096 \<le> unat (0x2800 :: u32)" "table_fits example_mm 15" "page_span example_mm \<le> 15"
    "lowestPhysicalPage example_mm \<le> highestPhysicalPage example_mm" "unat (highestPhysicalPage example_mm) < 2 ^ 52"
    by (simp_all add: example_mm_def table_fits_def page_span_def)
  have free: "page_type example_mm i = MemoryTypeFree" for i by (simp add: page_type_def example_mm_def load32_def empty_ram_def)
  have span: "page_span example_mm = 15" by (simp add: page_span_def example_mm_def)
  have ex: "\<exists>j. j + unat (0x2800 :: u32) div 4096 \<le> page_span example_mm \<and> free_run example_mm j (unat (0x2800 :: u32) div 4096)"
    using h(3) by (intro exI [of _ 0]) (simp add: free_run_def free span)
  have two: "unat (0x2800 :: u32) div 4096 = 2" by simp
  from allocate_takes_free_run [OF h, of MemoryTypeLoaderTemporary, unfolded if_P [OF ex], unfolded two] obtain j where
    j: "\<forall>j'<j. \<not> free_run example_mm j' 2" and r: "if 2 ^ 32 \<le> 4096 * (unat (lowestPhysicalPage example_mm) + j + 2)
       then memory_allocate example_mm 0x2800 MemoryTypeLoaderTemporary = Inl PanicAllocHigh
       else \<exists>s'. memory_allocate example_mm 0x2800 MemoryTypeLoaderTemporary = Inr (of_nat (4096 * (unat (lowestPhysicalPage example_mm) + j)), s') \<and>
         s' = example_mm\<lparr>ram := ram s'\<rparr> \<and>
         (\<forall>i<15. page_type s' i = (if j \<le> i \<and> i < j + 2 then MemoryTypeLoaderTemporary else page_type example_mm i))"
    by (elim exE conjE) (rule that)
  have "free_run example_mm 0 2" by (simp add: free_run_def free)
  then have "j = 0" using j by (cases j) auto
  with r obtain s' where "memory_allocate example_mm 0x2800 MemoryTypeLoaderTemporary = Inr (0, s')"
    "\<forall>i<15. page_type s' i = (if i < 2 then MemoryTypeLoaderTemporary else page_type example_mm i)" by (auto simp: example_mm_def)
  then show ?thesis by (intro exI [of _ s']) (simp add: free)
qed

text \<open>A request of less than one page reserves nothing. When page 0 is in use the call returns
  address 0x1000 whatever page 1 holds and leaves the table as it is, so every such request gets the
  same page.\<close>

lemma allocate_below_page_reserves_nothing:
  assumes "0 < sz" "unat sz < 4096" "lowestPhysicalPage s = 0" "highestPhysicalPage s \<noteq> 0"
    "page_type s 0 \<noteq> MemoryTypeFree"
  shows "memory_allocate s sz t = Inr (0x1000, s)"
proof -
  have "unat (PAGE_START (ucast sz) div ucast arch_pagesize) = 0"
    using assms(2) by (simp add: pages_floor)
  then have n: "PAGE_START (ucast sz) div ucast arch_pagesize = 0" by simp
  have "memory_find_available_pages s 0 = Inr 1"
    using assms(3-5) page_type_index [of s 0]
    unfolding memory_find_available_pages_def
    by (subst find_loop.simps) (simp add: word_gt_0)
  then show ?thesis
    using assms(1,3) n
    by (simp add: memory_allocate_def Let_def memory_mark_pages_def arch_pagesize_def word_gt_0)
qed

definition used_page_mm :: mm where
  "used_page_mm = example_mm\<lparr>ram := store32 empty_ram 0x2000 MemoryTypeFirmware\<rparr>"

lemma allocate_below_page_reserves_nothing_example:
  "memory_allocate used_page_mm 2716 MemoryTypeLoaderTemporary = Inr (0x1000, used_page_mm)"
  by (rule allocate_below_page_reserves_nothing)
    (simp_all add: used_page_mm_def example_mm_def page_type_def lookup_item_def)

end
