(* ===== verification/Allocator.thy ===== *)
theory Allocator
  imports ByteMemory
begin

text \<open>
  The contract of an allocator, which the heap of the loader and the buddy allocator of the kernel both keep.
\<close>

section \<open>The contract\<close>

text \<open>
  What a client of an allocator relies on: a call returns, the block handed out joins the blocks the
  client owns, the bytes of the blocks owned before are kept, and two owned blocks never overlap.
\<close>

locale allocator =
  fixes ok :: "'s \<Rightarrow> 'c \<Rightarrow> bool"
    and owned :: "'c \<Rightarrow> (u32 \<times> nat) set"
    and bytes :: "'s \<Rightarrow> mem"
    and room :: "'n \<Rightarrow> nat"
    and get :: "'s \<Rightarrow> 'n \<Rightarrow> (fault + u32 \<times> 's) option"
  assumes get_returns: "ok s c \<Longrightarrow> get s n \<noteq> None"
    and get_block: "ok s c \<Longrightarrow> get s n = Some (Inr (p, s')) \<Longrightarrow>
      \<exists>c' k. ok s' c' \<and> room n \<le> k \<and> (p, k) \<notin> owned c \<and> owned c' = insert (p, k) (owned c) \<and>
        (\<forall>(q, j)\<in>owned c. agree (bytes s) (bytes s') q j)"
    and owned_sep: "ok s c \<Longrightarrow> (p, k) \<in> owned c \<Longrightarrow> (q, j) \<in> owned c \<Longrightarrow> (p, k) \<noteq> (q, j) \<Longrightarrow> sep p k q j"
begin

text \<open>A new block overlaps no block the client owns.\<close>

lemma get_fresh:
  assumes "ok s c" "get s n = Some (Inr (p, s'))" "(q, j) \<in> owned c"
  shows "sep p (room n) q j"
proof -
  from get_block [OF assms(1,2)] obtain c' k where
    c': "ok s' c'" "room n \<le> k" "(p, k) \<notin> owned c" "owned c' = insert (p, k) (owned c)" by blast
  have "sep p k q j" by (rule owned_sep [OF c'(1)]) (use c' assms(3) in auto)
  then show ?thesis using c'(2) by (rule sep_mono) simp
qed

text \<open>Filling the new block leaves the blocks the client owned as they were before the call.\<close>

lemma fill_keeps:
  assumes "ok s c" "get s n = Some (Inr (p, s'))" "(q, j) \<in> owned c" "length bs \<le> room n"
  shows "agree (bytes s) (store_bytes (bytes s') p bs) q j"
proof -
  have "sep p (length bs) q j" using get_fresh [OF assms(1-3)] assms(4) by (rule sep_mono) simp
  then have "agree (bytes s') (store_bytes (bytes s') p bs) q j" by (rule store_bytes_frame)
  moreover have "agree (bytes s) (bytes s') q j" using get_block [OF assms(1,2)] assms(3) by blast
  ultimately show ?thesis using agree_trans by blast
qed

end

end
