(* ===== verification/HeapAlloc.thy ===== *)
theory HeapAlloc
  imports PhysMem Allocator
begin

text \<open>
  The heap of the loader, heap.c, and its malloc() and free() wrappers in lib.c. A heap is a run of
  pages: a 16 byte header (size, freelist, two counters), then chunks. A chunk is a 4 byte size
  followed by that many bytes; a free chunk keeps the address of the next free chunk in its first
  four bytes. The model works on the byte memory, so the freelist is the one the code threads
  through it.
\<close>

section \<open>The operations\<close>

definition chunk_sz :: "mem \<Rightarrow> u32 \<Rightarrow> u32" where
  "chunk_sz m fp = load32 m fp"

definition chunk_nx :: "mem \<Rightarrow> u32 \<Rightarrow> u32" where
  "chunk_nx m fp = load32 m (fp + 4)"

definition heap_MaxSize :: "mem \<Rightarrow> u32 \<Rightarrow> u32" where
  "heap_MaxSize m heap = load32 m heap"

definition heap_Freelist :: "mem \<Rightarrow> u32 \<Rightarrow> u32" where
  "heap_Freelist m heap = load32 m (heap + 4)"

text \<open>The word that points to the chunk after \<open>fp\<close>, or to the first chunk for a null \<open>fp\<close>.\<close>

definition set_link :: "mem \<Rightarrow> u32 \<Rightarrow> u32 \<Rightarrow> u32 \<Rightarrow> mem" where
  "set_link m heap fp q = (if fp \<noteq> 0 then store32 m (fp + 4) q else store32 m (heap + 4) q)"

definition heap_create :: "mm \<Rightarrow> u32 \<Rightarrow> fault + u32 \<times> mm" where
  "heap_create s MaxSize =
     (let MaxSize = ucast (PAGE_END (ucast MaxSize)) :: u32
      in rbind (memory_allocate s MaxSize MemoryTypeLoaderHeap) (\<lambda>(heap, s).
        let m = store32 (ram s) heap MaxSize;
            m = store32 m (heap + 4) 0;
            m = store32 m (heap + 8) 0;
            m = store32 m (heap + 12) 0;
            dataSpace = MaxSize - 16 - 4;
            firstBlock = heap + 16;
            m = store32 m firstBlock dataSpace;
            m = store32 m (firstBlock + 4) 0;
            m = store32 m (heap + 4) firstBlock
        in Inr (heap, s\<lparr>ram := m\<rparr>)))"

definition heap_destroy :: "mm \<Rightarrow> u32 \<Rightarrow> fault + mm" where
  "heap_destroy s heap =
     (let pageCount = ucast (heap_MaxSize (ram s) heap div arch_pagesize);
          heapStart = ucast (heap div arch_pagesize)
      in memory_mark_pages s heapStart pageCount MemoryTypeFree)"

text \<open>
  The walk of \<open>heap_alloc\<close>: \<open>Inl\<close> the chunk of exactly the requested size and the one before it,
  or \<open>Inr\<close> the size of the smallest chunk that is larger, that chunk and the one before it. The
  walk does not end on a cyclic list.
\<close>

partial_function (option) alloc_scan ::
    "mem \<Rightarrow> u32 \<Rightarrow> u32 \<Rightarrow> u32 \<Rightarrow> u32 \<Rightarrow> u32 \<Rightarrow> u32 \<Rightarrow> (u32 \<times> u32 + u32 \<times> u32 \<times> u32) option" where
  "alloc_scan m len fp1 fp2 s sfp1 sfp2 =
     (if fp1 = 0 then Some (Inr (s, sfp1, sfp2))
      else if chunk_sz m fp1 < len then alloc_scan m len (chunk_nx m fp1) fp1 s sfp1 sfp2
      else if chunk_sz m fp1 = len then Some (Inl (fp1, fp2))
      else if s = 0 \<or> chunk_sz m fp1 < s
        then alloc_scan m len (chunk_nx m fp1) fp1 (chunk_sz m fp1) fp1 fp2
      else alloc_scan m len (chunk_nx m fp1) fp1 s sfp1 sfp2)"

definition alloc_take :: "mem \<Rightarrow> u32 \<Rightarrow> u32 \<Rightarrow> u32 \<times> u32 + u32 \<times> u32 \<times> u32 \<Rightarrow> fault + u32 \<times> mem" where
  "alloc_take m heap len found =
     (case found of
        Inl (fp1, fp2) \<Rightarrow> Inr (fp1 + 4, set_link m heap fp2 (chunk_nx m fp1))
      | Inr (s, sfp1, sfp2) \<Rightarrow>
          if s = 0 then Inl PanicHeapFull
          else if s - len < 8 then Inr (sfp1 + 4, set_link m heap sfp2 (chunk_nx m sfp1))
          else
            (let s = s - len;
                 cp = sfp1 + s;
                 m = store32 m cp len;
                 m = store32 m sfp1 (s - 4)
             in Inr (cp + 4, m)))"

definition heap_alloc :: "mem \<Rightarrow> u32 \<Rightarrow> u32 \<Rightarrow> (fault + u32 \<times> mem) option" where
  "heap_alloc m heap len =
     (let len = (if len < 4 then 4 else len);
          m = store32 m (heap + 8) (load32 m (heap + 8) + 1)
      in Option.bind (alloc_scan m len (heap_Freelist m heap) 0 0 0 0)
           (\<lambda>found. Some (alloc_take m heap len found)))"

text \<open>The walk of \<open>heap_free\<close>: the first chunk not below the freed one, and the chunk before it.\<close>

partial_function (option) free_scan :: "mem \<Rightarrow> u32 \<Rightarrow> u32 \<Rightarrow> u32 \<Rightarrow> (u32 \<times> u32) option" where
  "free_scan m fpnew fp1 fp2 =
     (if fp1 \<noteq> 0 \<and> fp1 < fpnew then free_scan m fpnew (chunk_nx m fp1) fp1 else Some (fp1, fp2))"

text \<open>Put the freed chunk in front of \<open>fp1\<close>, taking the upper neighbour in when it is adjacent.\<close>

definition free_upper :: "mem \<Rightarrow> u32 \<Rightarrow> u32 \<Rightarrow> mem" where
  "free_upper m fpnew fp1 =
     (if fp1 = 0 then m
      else
        (let m = store32 m (fpnew + 4) fp1
         in if fpnew + 4 + chunk_sz m fpnew = fp1
            then let m = store32 m fpnew (chunk_sz m fpnew + (chunk_sz m fp1 + 4))
                 in store32 m (fpnew + 4) (chunk_nx m fp1)
            else m))"

text \<open>Link the freed chunk after \<open>fp2\<close>, merging the two when they are adjacent.\<close>

definition free_lower :: "mem \<Rightarrow> u32 \<Rightarrow> u32 \<Rightarrow> mem" where
  "free_lower m fpnew fp2 =
     (let m = store32 m (fp2 + 4) fpnew
      in if fp2 + 4 + chunk_sz m fp2 = fpnew
         then let m = store32 m fp2 (chunk_sz m fp2 + (chunk_sz m fpnew + 4))
              in store32 m (fp2 + 4) (chunk_nx m fpnew)
         else m)"

definition heap_free :: "mem \<Rightarrow> u32 \<Rightarrow> u32 \<Rightarrow> (fault + mem) option" where
  "heap_free m heap p =
     (if p = 0 then Some (Inr m)
      else
        (let m = store32 m (heap + 12) (load32 m (heap + 12) + 1);
             fpnew = p - 4;
             m = store32 m (fpnew + 4) 0;
             m = (if heap_Freelist m heap = 0 then store32 m (heap + 4) fpnew else m)
         in Option.bind (free_scan m fpnew (heap_Freelist m heap) 0) (\<lambda>(fp1, fp2).
           let m = free_upper m fpnew fp1
           in Some (if fp2 \<noteq> 0 then Inr (free_lower m fpnew fp2)
              else if fp1 \<noteq> 0 then Inr (store32 m (heap + 4) fpnew)
              else Inl NullPointer))))"

text \<open>The default heap of lib.c: its address is a global of the loader, null before it is made.\<close>

record loader = mm +
  default_heap :: u32

definition DEFAULT_HEAP_SIZE :: u32 where
  "DEFAULT_HEAP_SIZE = 1 * 1024 * 1024"

definition default_heap_init :: "loader \<Rightarrow> fault + loader" where
  "default_heap_init s =
     (if default_heap s \<noteq> 0 then Inr s
      else rbind (heap_create (mm.truncate s) DEFAULT_HEAP_SIZE) (\<lambda>(heap, s').
        Inr (s\<lparr>ram := ram s', default_heap := heap\<rparr>)))"

definition malloc :: "loader \<Rightarrow> u32 \<Rightarrow> (fault + u32 \<times> loader) option" where
  "malloc s len =
     (if default_heap s = 0 then Some (Inl PanicNoHeap)
      else Option.bind (heap_alloc (ram s) (default_heap s) len) (\<lambda>r.
        Some (rbind r (\<lambda>(p, m). Inr (p, s\<lparr>ram := m\<rparr>)))))"

definition free :: "loader \<Rightarrow> u32 \<Rightarrow> (fault + loader) option" where
  "free s p =
     (if default_heap s = 0 then Some (Inl PanicNoHeap)
      else Option.bind (heap_free (ram s) (default_heap s) p) (\<lambda>r.
        Some (rbind r (\<lambda>m. Inr (s\<lparr>ram := m\<rparr>)))))"

section \<open>Freelists\<close>

text \<open>
  \<open>links m q fs e\<close>: following the chain from the word at \<open>q\<close> visits the chunks \<open>fs\<close> and arrives at
  \<open>e\<close>. \<open>last_link q fs\<close> is the word that holds \<open>e\<close>.
\<close>

fun links :: "mem \<Rightarrow> u32 \<Rightarrow> u32 list \<Rightarrow> u32 \<Rightarrow> bool" where
  "links m q [] e \<longleftrightarrow> load32 m q = e"
| "links m q (b # fs) e \<longleftrightarrow> load32 m q = b \<and> links m (b + 4) fs e"

definition last_link :: "u32 \<Rightarrow> u32 list \<Rightarrow> u32" where
  "last_link q fs = (if fs = [] then q else last fs + 4)"

lemma last_link_simps [simp]:
  "last_link q [] = q" "last_link q (b # fs) = last_link (b + 4) fs"
  by (auto simp: last_link_def)

lemma links_append: "links m q (xs @ ys) e \<longleftrightarrow> (\<exists>y. links m q xs y \<and> links m (last_link q xs) ys e)"
  by (induction xs arbitrary: q) auto

lemma links_snoc: "links m q (xs @ b # ys) e \<longleftrightarrow> links m q xs b \<and> links m (b + 4) ys e"
proof (induction xs arbitrary: q)
  case Nil
  then show ?case by (cases ys) auto
qed auto

lemma links_last: "links m q xs y \<Longrightarrow> load32 m (last_link q xs) = y"
  by (induction xs arbitrary: q) auto

lemma links_cong:
  "links m q fs e \<Longrightarrow> (\<And>a. a = q \<or> (\<exists>b\<in>set fs. a = b + 4) \<Longrightarrow> load32 m' a = load32 m a) \<Longrightarrow>
    links m' q fs e"
  by (induction fs arbitrary: q) auto

text \<open>Writing the last link of a chain redirects it.\<close>

lemma links_redirect:
  assumes "links m q fs e"
    and "\<And>a. (a = q \<or> (\<exists>b\<in>set fs. a = b + 4)) \<Longrightarrow> a \<noteq> last_link q fs \<Longrightarrow> load32 m' a = load32 m a"
    and "distinct (q # map (\<lambda>b. b + 4) fs)" "load32 m' (last_link q fs) = e'"
  shows "links m' q fs e'"
  using assms
proof (induction fs arbitrary: q)
  case Nil
  then show ?case by simp
next
  case (Cons b fs)
  have "last_link q (b # fs) \<in> set (map (\<lambda>b. b + 4) (b # fs))" by (auto simp: last_link_def)
  then have "q \<noteq> last_link q (b # fs)" using Cons.prems(3) by auto
  then have "load32 m' q = load32 m q" using Cons.prems(2) by blast
  moreover have "links m' (b + 4) fs e'"
    using Cons.prems by (intro Cons.IH) auto
  ultimately show ?case using Cons.prems(1) by simp
qed

section \<open>Tilings\<close>

text \<open>
  A chunk is its address, its size and whether it is free. The chunks \<open>cs\<close> tile the addresses from
  \<open>a\<close> to \<open>e\<close> when each one starts where the one before it ends.
\<close>

type_synonym chunk = "u32 \<times> u32 \<times> bool"

fun tiles :: "nat \<Rightarrow> chunk list \<Rightarrow> nat \<Rightarrow> bool" where
  "tiles a [] e \<longleftrightarrow> a = e"
| "tiles a ((b, n, f) # cs) e \<longleftrightarrow> unat b = a \<and> 4 \<le> unat n \<and> tiles (a + 4 + unat n) cs e"

lemma tiles_append: "tiles a (xs @ ys) e \<longleftrightarrow> (\<exists>k. tiles a xs k \<and> tiles k ys e)"
  by (induction a xs e rule: tiles.induct) auto

lemma tiles_le: "tiles a cs e \<Longrightarrow> a \<le> e"
  by (induction a cs e rule: tiles.induct) auto

lemma tiles_mem: "tiles a cs e \<Longrightarrow> (b, n, f) \<in> set cs \<Longrightarrow> a \<le> unat b \<and> 4 \<le> unat n \<and> unat b + 4 + unat n \<le> e"
proof (induction a cs e rule: tiles.induct)
  case (2 a b' n' f' cs e)
  then show ?case using tiles_le [of "a + 4 + unat n'" cs e] by auto
qed auto

definition frees :: "chunk list \<Rightarrow> u32 list" where
  "frees cs = map fst (filter (\<lambda>c. snd (snd c)) cs)"

lemma frees_simps [simp]:
  "frees [] = []" "frees ((b, n, True) # cs) = b # frees cs" "frees ((b, n, False) # cs) = frees cs"
  "frees (xs @ ys) = frees xs @ frees ys"
  by (simp_all add: frees_def)

lemma frees_mem: "x \<in> set (frees cs) \<longleftrightarrow> (\<exists>n. (x, n, True) \<in> set cs)"
  by (force simp: frees_def)

text \<open>
  The invariant of a heap at \<open>h\<close> with chunks \<open>cs\<close>: they tile its run of memory, their sizes are the
  ones stored, and the freelist is the free ones in order of address.
\<close>

definition heap_inv :: "mem \<Rightarrow> u32 \<Rightarrow> chunk list \<Rightarrow> bool" where
  "heap_inv m h cs \<longleftrightarrow> unat h + unat (heap_MaxSize m h) < 4294967296 \<and>
     tiles (unat h + 16) cs (unat h + unat (heap_MaxSize m h)) \<and>
     (\<forall>(b, n, f)\<in>set cs. load32 m b = n) \<and> links m (h + 4) (frees cs) 0"

text \<open>
  Inside one heap two addresses are compared by their distance from its start, which never wraps.
\<close>

lemma tiles_split_unat:
  assumes "tiles a (xs @ (b, n, f) # ys) e"
  shows "unat b + 4 + unat n \<le> e" "a \<le> unat b" "4 \<le> unat n"
    "(b', n', f') \<in> set xs \<Longrightarrow> unat b' + 4 + unat n' \<le> unat b"
    "(b', n', f') \<in> set ys \<Longrightarrow> unat b + 4 + unat n \<le> unat b'"
proof -
  from assms have t: "tiles a xs (unat b)" "4 \<le> unat n" "tiles (unat b + 4 + unat n) ys e"
    by (auto simp: tiles_append)
  show "4 \<le> unat n" by (rule t(2))
  show "unat b + 4 + unat n \<le> e" "a \<le> unat b" using tiles_le [OF t(1)] tiles_le [OF t(3)] by simp_all
  show "unat b' + 4 + unat n' \<le> unat b" if "(b', n', f') \<in> set xs"
    using tiles_mem [OF t(1) that] by simp
  show "unat b + 4 + unat n \<le> unat b'" if "(b', n', f') \<in> set ys"
    using tiles_mem [OF t(3) that] by simp
qed

lemma tiles_distinct:
  assumes "tiles a cs e"
  shows "distinct (map fst cs)" "sorted_wrt (\<lambda>c d. unat (fst c) < unat (fst d)) cs"
  using assms
proof (induction a cs e rule: tiles.induct)
  case (2 a b n f cs e)
  {
    case 1
    with 2 show ?case by (auto dest: tiles_mem)
  next
    case 2
    with "2.IH" show ?case by (auto dest: tiles_mem)
  }
qed auto

section \<open>The words of a heap\<close>

text \<open>
  The words the heap works on: the header, and size and link of every chunk. Two of them are the
  same or have no byte in common, so a store to one leaves the others.
\<close>

definition cells :: "u32 \<Rightarrow> chunk list \<Rightarrow> u32 set" where
  "cells h cs = {h, h + 4, h + 8, h + 12} \<union> (\<Union>c\<in>set cs. {fst c, fst c + 4})"

definition heap_tiles :: "u32 \<Rightarrow> chunk list \<Rightarrow> bool" where
  "heap_tiles h cs \<longleftrightarrow> (\<exists>e<4294967296. tiles (unat h + 16) cs e)"

lemma heap_tiles_mem:
  assumes "heap_tiles h cs" "(b, n, f) \<in> set cs"
  shows "unat h + 16 \<le> unat b" "4 \<le> unat n" "unat b + 4 + unat n < 4294967296"
    "unat (b + 4) = unat b + 4"
proof -
  from assms obtain e where e: "e < 4294967296" "tiles (unat h + 16) cs e"
    by (auto simp: heap_tiles_def)
  from tiles_mem [OF e(2) assms(2)] e(1)
  show "unat h + 16 \<le> unat b" "4 \<le> unat n" "unat b + 4 + unat n < 4294967296" by auto
  then show "unat (b + 4) = unat b + 4" by (intro trans [OF unat_add32]) simp_all
qed

lemma heap_tiles_head:
  assumes "heap_tiles h cs"
  shows "unat (h + 4) = unat h + 4" "unat (h + 8) = unat h + 8" "unat (h + 12) = unat h + 12"
    "unat h + 16 < 4294967296"
proof -
  from assms show "unat h + 16 < 4294967296" by (auto simp: heap_tiles_def dest: tiles_le)
  then show "unat (h + 4) = unat h + 4" "unat (h + 8) = unat h + 8" "unat (h + 12) = unat h + 12"
    by (auto intro!: trans [OF unat_add32])
qed

lemma heap_tiles_order:
  assumes "heap_tiles h cs" "(b, n, f) \<in> set cs" "(c, k, g) \<in> set cs"
  shows "(b, n, f) = (c, k, g) \<or> unat b + 4 + unat n \<le> unat c \<or> unat c + 4 + unat k \<le> unat b"
proof -
  from assms obtain e where e: "tiles (unat h + 16) cs e" by (auto simp: heap_tiles_def)
  from assms(2) obtain xs ys where cs: "cs = xs @ (b, n, f) # ys" by (auto dest: split_list)
  from assms(3) tiles_split_unat(4,5) [OF e [unfolded cs], of c k g] show ?thesis
    by (auto simp: cs)
qed

lemma neq_by_unat: "unat x < unat y \<or> unat y < unat x \<Longrightarrow> x \<noteq> y"
  by auto

lemma chunk_neq:
  assumes ht: "heap_tiles h cs" and b: "(b, n, f) \<in> set cs"
  shows "b \<noteq> 0" "b \<noteq> h" "b \<noteq> h + 4" "b \<noteq> h + 8" "b \<noteq> h + 12"
    "b + 4 \<noteq> h" "b + 4 \<noteq> h + 4" "b + 4 \<noteq> h + 8" "b + 4 \<noteq> h + 12"
proof -
  note u = heap_tiles_mem [OF ht b] heap_tiles_head [OF ht] unat_0 [where 'a = 32]
  show "b \<noteq> 0" "b \<noteq> h" "b \<noteq> h + 4" "b \<noteq> h + 8" "b \<noteq> h + 12"
    "b + 4 \<noteq> h" "b + 4 \<noteq> h + 4" "b + 4 \<noteq> h + 8" "b + 4 \<noteq> h + 12"
    by (rule neq_by_unat, use u in linarith)+
qed

lemma chunk_link_neq:
  assumes ht: "heap_tiles h cs" and "(b, n, f) \<in> set cs" "(c, k, g) \<in> set cs"
  shows "b \<noteq> c + 4"
  using heap_tiles_order [OF assms] heap_tiles_mem [OF ht assms(2)] heap_tiles_mem [OF ht assms(3)]
  by auto

lemma chunk_sz_unique:
  assumes "heap_tiles h cs" "(b, n, f) \<in> set cs" "(b, k, g) \<in> set cs"
  shows "n = k" "f = g"
  using heap_tiles_order [OF assms] by auto

lemma sep_of_unat: "unat x + i \<le> unat y \<Longrightarrow> unat y + j \<le> 4294967296 \<Longrightarrow> sep x i y j \<and> sep y j x i"
  using sep_below sep_sym by blast

lemma cells_sep:
  assumes ht: "heap_tiles h cs" and xy: "x \<in> cells h cs" "y \<in> cells h cs" "x \<noteq> y"
  shows "sep x 4 y 4"
proof -
  note hd = heap_tiles_head [OF ht]
  have hdr: "unat z + 4 \<le> unat h + 16 \<and> (\<forall>z'\<in>{h, h + 4, h + 8, h + 12}. z \<noteq> z' \<longrightarrow> sep z 4 z' 4)"
    if "z \<in> {h, h + 4, h + 8, h + 12}" for z
    using that hd by (auto simp: sep_def)
  have chk: "\<exists>b n f. (b, n, f) \<in> set cs \<and> unat b \<le> unat z \<and> unat z + 4 \<le> unat b + 4 + unat n \<and>
      (z = b \<or> z = b + 4)"
    if "z \<in> (\<Union>c\<in>set cs. {fst c, fst c + 4})" for z
  proof -
    from that obtain b n f where b: "(b, n, f) \<in> set cs" "z = b \<or> z = b + 4" by auto
    with heap_tiles_mem [OF ht b(1)] show ?thesis by fastforce
  qed
  have hc: "sep z 4 w 4 \<and> sep w 4 z 4"
    if z: "z \<in> {h, h + 4, h + 8, h + 12}" and w: "w \<in> (\<Union>c\<in>set cs. {fst c, fst c + 4})" for z w
  proof -
    from chk [OF w] obtain b n f where b: "(b, n, f) \<in> set cs" "unat b \<le> unat w"
      "unat w + 4 \<le> unat b + 4 + unat n" by blast
    with heap_tiles_mem [OF ht b(1)] hdr [OF z] show ?thesis by (intro sep_of_unat) auto
  qed
  have cc: "sep x 4 y 4"
    if x: "x \<in> (\<Union>c\<in>set cs. {fst c, fst c + 4})" and y: "y \<in> (\<Union>c\<in>set cs. {fst c, fst c + 4})"
  proof -
    from chk [OF x] obtain b n f where b: "(b, n, f) \<in> set cs" "unat b \<le> unat x"
      "unat x + 4 \<le> unat b + 4 + unat n" "x = b \<or> x = b + 4" by blast
    from chk [OF y] obtain c k g where c: "(c, k, g) \<in> set cs" "unat c \<le> unat y"
      "unat y + 4 \<le> unat c + 4 + unat k" "y = c \<or> y = c + 4" by blast
    from heap_tiles_order [OF ht b(1) c(1)] consider "b = c" | "unat b + 4 + unat n \<le> unat c"
      | "unat c + 4 + unat k \<le> unat b" by auto
    then show ?thesis
    proof cases
      case 1
      with b(4) c(4) xy(3) show ?thesis by (auto simp: sep_def)
    next
      case 2
      with b c heap_tiles_mem [OF ht c(1)] sep_of_unat [of x 4 y 4] show ?thesis by auto
    next
      case 3
      with b c heap_tiles_mem [OF ht b(1)] sep_of_unat [of y 4 x 4] show ?thesis by auto
    qed
  qed
  show ?thesis
  proof (cases "x \<in> {h, h + 4, h + 8, h + 12}")
    case True
    then show ?thesis
    proof (cases "y \<in> {h, h + 4, h + 8, h + 12}")
      case False
      with xy(2) have "y \<in> (\<Union>c\<in>set cs. {fst c, fst c + 4})" by (simp add: cells_def)
      from hc [OF True this] show ?thesis by (rule conjunct1)
    qed (use hdr xy(3) in blast)
  next
    case False
    with xy(1) have x: "x \<in> (\<Union>c\<in>set cs. {fst c, fst c + 4})" by (simp add: cells_def)
    show ?thesis
    proof (cases "y \<in> {h, h + 4, h + 8, h + 12}")
      case True
      from hc [OF this x] show ?thesis by (rule conjunct2)
    next
      case False
      with xy(2) have "y \<in> (\<Union>c\<in>set cs. {fst c, fst c + 4})" by (simp add: cells_def)
      with cc x show ?thesis by blast
    qed
  qed
qed

lemma load_cell:
  "heap_tiles h cs \<Longrightarrow> x \<in> cells h cs \<Longrightarrow> y \<in> cells h cs \<Longrightarrow>
    load32 (store32 m x v) y = (if y = x then v else load32 m y)"
  using cells_sep c32.load_store_sep by (metis load32_store32)

text \<open>The bytes of a chunk after its size lie apart from every word but the chunk's own link.\<close>

lemma data_sep:
  assumes ht: "heap_tiles h cs" and b: "(b, n, f) \<in> set cs"
    and x: "x \<in> cells h cs" "x \<noteq> b + 4"
  shows "sep x 4 (b + 4) (unat n)"
proof -
  note mb = heap_tiles_mem [OF ht b]
  show ?thesis
  proof (cases "x \<in> {h, h + 4, h + 8, h + 12}")
    case True
    with heap_tiles_head [OF ht] mb show ?thesis by (intro conjunct1 [OF sep_of_unat]) auto
  next
    case False
    with x(1) obtain c k g where c: "(c, k, g) \<in> set cs" "x = c \<or> x = c + 4"
      by (auto simp: cells_def)
    note mc = heap_tiles_mem [OF ht c(1)]
    from heap_tiles_order [OF ht b c(1)] consider "b = c" | "unat b + 4 + unat n \<le> unat c"
      | "unat c + 4 + unat k \<le> unat b" by auto
    then show ?thesis
    proof cases
      case 1
      with c(2) x(2) mb show ?thesis by (intro conjunct1 [OF sep_of_unat]) auto
    next
      case 2
      with c(2) mb mc show ?thesis by (intro conjunct2 [OF sep_of_unat]) auto
    next
      case 3
      with c(2) mb mc show ?thesis by (intro conjunct1 [OF sep_of_unat]) auto
    qed
  qed
qed

lemma cells_head [simp]:
  "h \<in> cells h cs" "h + 4 \<in> cells h cs" "h + 8 \<in> cells h cs" "h + 12 \<in> cells h cs"
  by (simp_all add: cells_def)

lemma cells_chunk: "(b, n, f) \<in> set cs \<Longrightarrow> b \<in> cells h cs \<and> b + 4 \<in> cells h cs"
  by (force simp: cells_def)

lemma heap_inv_tiles: "heap_inv m h cs \<Longrightarrow> heap_tiles h cs"
  by (auto simp: heap_inv_def heap_tiles_def)

lemma heap_inv_sz: "heap_inv m h cs \<Longrightarrow> (b, n, f) \<in> set cs \<Longrightarrow> load32 m b = n"
  by (auto simp: heap_inv_def)

lemma frees_neq_0: "heap_tiles h cs \<Longrightarrow> b \<in> set (frees cs) \<Longrightarrow> b \<noteq> 0"
  unfolding frees_mem by (elim exE) (rule chunk_neq(1))

lemma frees_cell: "b \<in> set (frees cs) \<Longrightarrow> b \<in> cells h cs \<and> b + 4 \<in> cells h cs"
  using cells_chunk by (auto simp: frees_mem)

lemma frees_distinct: "heap_tiles h cs \<Longrightarrow> distinct (frees cs)"
  using tiles_distinct(1) unfolding frees_def heap_tiles_def by (metis distinct_map_filter)

lemma links_distinct:
  assumes "heap_tiles h cs"
  shows "distinct ((h + 4) # map (\<lambda>b. b + 4) (frees cs))"
proof -
  have "h \<notin> set (frees cs)" using chunk_neq(2) [OF assms] by (metis frees_mem)
  with frees_distinct [OF assms] show ?thesis by (auto simp: distinct_map inj_on_def)
qed

text \<open>The invariant from the words of the heap.\<close>

lemma heap_inv_cong:
  assumes inv: "heap_inv m h cs"
    and keep: "\<And>x. x \<in> cells h cs \<Longrightarrow> x \<noteq> h + 8 \<Longrightarrow> x \<noteq> h + 12 \<Longrightarrow> load32 m' x = load32 m x"
  shows "heap_inv m' h cs"
proof -
  note ht = heap_inv_tiles [OF inv]
  note hd = heap_tiles_head [OF ht]
  have "h \<noteq> h + 8" "h \<noteq> h + 12" "h + 4 \<noteq> h + 8" "h + 4 \<noteq> h + 12" by simp_all
  moreover have "load32 m' b = n" if "(b, n, f) \<in> set cs" for b n f
    using keep cells_chunk [OF that] chunk_neq [OF ht that] heap_inv_sz [OF inv that] by simp
  moreover have "links m' (h + 4) (frees cs) 0"
  proof (rule links_cong)
    show "links m (h + 4) (frees cs) 0" using inv by (simp add: heap_inv_def)
    fix a
    assume "a = h + 4 \<or> (\<exists>b\<in>set (frees cs). a = b + 4)"
    then show "load32 m' a = load32 m a"
    proof
      assume "\<exists>b\<in>set (frees cs). a = b + 4"
      then obtain b n where b: "(b, n, True) \<in> set cs" "a = b + 4" by (auto simp: frees_mem)
      from cells_chunk [OF b(1), of h] chunk_neq [OF ht b(1)] show ?thesis
        unfolding b(2) by (intro keep) simp_all
    qed (use keep [of "h + 4"] in simp)
  qed
  ultimately show ?thesis
    using inv keep [of h] by (auto simp: heap_inv_def heap_MaxSize_def)
qed

lemma heap_inv_count:
  assumes "heap_inv m h cs" "x = h + 8 \<or> x = h + 12"
  shows "heap_inv (store32 m x v) h cs"
  using assms(1)
proof (rule heap_inv_cong)
  fix y
  assume "y \<in> cells h cs" "y \<noteq> h + 8" "y \<noteq> h + 12"
  with assms(2) show "load32 (store32 m x v) y = load32 m y"
    using load_cell [OF heap_inv_tiles [OF assms(1)]] by auto
qed

section \<open>The walk of an allocation\<close>

text \<open>The same walk over the list of chunks.\<close>

primrec scan_list :: "mem \<Rightarrow> u32 \<Rightarrow> u32 list \<Rightarrow> u32 \<Rightarrow> u32 \<times> u32 \<times> u32 \<Rightarrow> u32 \<times> u32 + u32 \<times> u32 \<times> u32" where
  "scan_list m len [] fp2 best = Inr best"
| "scan_list m len (b # fs) fp2 best =
     (if load32 m b < len then scan_list m len fs b best
      else if load32 m b = len then Inl (b, fp2)
      else if fst best = 0 \<or> load32 m b < fst best then scan_list m len fs b (load32 m b, b, fp2)
      else scan_list m len fs b best)"

lemma alloc_scan_links:
  "links m q fs 0 \<Longrightarrow> 0 \<notin> set fs \<Longrightarrow>
    alloc_scan m len (load32 m q) fp2 s sfp1 sfp2 = Some (scan_list m len fs fp2 (s, sfp1, sfp2))"
proof (induction fs arbitrary: q fp2 s sfp1 sfp2)
  case Nil
  then show ?case by (subst alloc_scan.simps) simp
next
  case (Cons b fs)
  then show ?case by (subst alloc_scan.simps) (auto simp: chunk_sz_def chunk_nx_def)
qed

definition before :: "u32 \<Rightarrow> u32 list \<Rightarrow> u32" where
  "before fp2 xs = (if xs = [] then fp2 else last xs)"

lemma before_simps [simp]: "before fp2 [] = fp2" "before fp2 (x # xs) = before x xs"
  by (auto simp: before_def)

lemma scan_list_Inl:
  "scan_list m len fs fp2 best = Inl (b, p) \<Longrightarrow>
    \<exists>xs ys. fs = xs @ b # ys \<and> load32 m b = len \<and> p = before fp2 xs"
proof (induction fs arbitrary: fp2 best)
  case (Cons c fs)
  show ?case
  proof (cases "load32 m c = len")
    case True
    with Cons.prems show ?thesis by (intro exI [of _ "[]"] exI [of _ fs]) auto
  next
    case False
    with Cons.prems obtain best' where "scan_list m len fs c best' = Inl (b, p)"
      by (auto split: if_splits)
    from Cons.IH [OF this] obtain xs ys where
      "fs = xs @ b # ys" "load32 m b = len" "p = before c xs" by blast
    then show ?thesis by (intro exI [of _ "c # xs"] exI [of _ ys]) simp
  qed
qed simp

text \<open>
  Best fit: no chunk has exactly the size; the size found is that of the smallest larger chunk, and
  zero only when there is none.
\<close>

lemma scan_list_Inr:
  "scan_list m len fs fp2 best = Inr (s, b, p) \<Longrightarrow> fst best = 0 \<or> len < fst best \<Longrightarrow>
    (\<forall>y\<in>set fs. load32 m y \<noteq> len) \<and> (s = 0 \<or> len < s) \<and>
    (fst best \<noteq> 0 \<longrightarrow> s \<noteq> 0 \<and> s \<le> fst best) \<and>
    (\<forall>y\<in>set fs. len < load32 m y \<longrightarrow> s \<noteq> 0 \<and> s \<le> load32 m y) \<and>
    ((s, b, p) = best \<or> (\<exists>xs ys. fs = xs @ b # ys \<and> load32 m b = s \<and> p = before fp2 xs))"
proof (induction fs arbitrary: fp2 best)
  case Nil
  then show ?case by auto
next
  case (Cons c fs)
  let ?best = "if \<not> load32 m c < len \<and> (fst best = 0 \<or> load32 m c < fst best)
    then (load32 m c, c, fp2) else best"
  have ne: "load32 m c \<noteq> len" using Cons.prems(1) by (auto split: if_splits)
  have rec: "scan_list m len fs c ?best = Inr (s, b, p)"
    using Cons.prems(1) ne by (auto split: if_splits)
  have pre: "fst ?best = 0 \<or> len < fst ?best" using Cons.prems(2) ne by (auto simp: not_less)
  note ih = Cons.IH [OF rec pre]
  have pos: "len < x \<Longrightarrow> x \<noteq> 0" for x :: u32 by auto
  have gt: "\<not> load32 m c < len \<Longrightarrow> len < load32 m c" using ne by simp
  have "fst best \<noteq> 0 \<Longrightarrow> fst ?best \<noteq> 0 \<and> fst ?best \<le> fst best"
    using pos [OF gt] by auto
  then have "fst best \<noteq> 0 \<longrightarrow> s \<noteq> 0 \<and> s \<le> fst best" using ih by (meson order_trans)
  moreover have "len < load32 m c \<Longrightarrow> fst ?best \<noteq> 0 \<and> fst ?best \<le> load32 m c"
    using pos [of "load32 m c"] by (auto simp: not_less)
  then have "len < load32 m c \<longrightarrow> s \<noteq> 0 \<and> s \<le> load32 m c" using ih by (meson order_trans)
  moreover have "(s, b, p) = best \<or> (\<exists>xs ys. c # fs = xs @ b # ys \<and> load32 m b = s \<and> p = before fp2 xs)"
  proof -
    from ih consider "(s, b, p) = ?best" | xs ys where "fs = xs @ b # ys" "load32 m b = s" "p = before c xs"
      by blast
    then show ?thesis
    proof cases
      case 1
      show ?thesis
      proof (cases "?best = best")
        case False
        with 1 have "b = c" "s = load32 m c" "p = fp2" by (auto split: if_splits)
        then show ?thesis by (intro disjI2 exI [of _ "[]"] exI [of _ fs]) simp
      qed (use 1 in simp)
    next
      case 2
      then show ?thesis by (intro disjI2 exI [of _ "c # xs"] exI [of _ ys]) simp
    qed
  qed
  ultimately show ?case using ih ne by auto
qed


section \<open>What an allocation does\<close>

lemma set_link_before:
  assumes "heap_tiles h cs" "set xs \<subseteq> set (frees cs)"
  shows "set_link m h (before 0 xs) q = store32 m (last_link (h + 4) xs) q"
proof (cases "xs = []")
  case False
  then have "last xs \<in> set (frees cs)" using assms(2) by (meson last_in_set subsetD)
  with frees_neq_0 [OF assms(1)] False show ?thesis
    by (auto simp: set_link_def before_def last_link_def)
qed (simp add: set_link_def)

lemma last_link_cell: "set xs \<subseteq> set (frees cs) \<Longrightarrow> last_link (h + 4) xs \<in> cells h cs"
  by (cases "xs = []") (auto simp: last_link_def intro!: frees_cell [THEN conjunct2] dest: last_in_set)

lemma last_link_neq:
  assumes ht: "heap_tiles h cs" and xs: "set xs \<subseteq> set (frees cs)"
  shows "h \<noteq> last_link (h + 4) xs \<and> ((c, k, f) \<in> set cs \<longrightarrow> c \<noteq> last_link (h + 4) xs)"
proof (cases "xs = []")
  case True
  with chunk_neq(3) [OF ht, of c k f] show ?thesis by auto
next
  case False
  then have "last xs \<in> set (frees cs)" using xs by (meson last_in_set subsetD)
  then obtain n where n: "(last xs, n, True) \<in> set cs" by (auto simp: frees_mem)
  from False have "last_link (h + 4) xs = last xs + 4" by (simp add: last_link_def)
  with chunk_link_neq [OF ht _ n, of c k f] chunk_neq(6) [OF ht n] show ?thesis by metis
qed

lemma frees_split:
  assumes "frees cs = xs @ b # ys"
  obtains A n B where "cs = A @ (b, n, True) # B" "frees A = xs" "frees B = ys"
proof -
  have "\<exists>A n B. cs = A @ (b, n, True) # B \<and> frees A = xs \<and> frees B = ys"
    using assms
  proof (induction cs arbitrary: xs)
    case (Cons c cs)
    obtain a k f where c: "c = (a, k, f)" by (cases c)
    show ?case
    proof (cases "f \<and> xs = []")
      case True
      with Cons.prems c show ?thesis by (intro exI [of _ "[]"]) auto
    next
      case False
      with Cons.prems c obtain xs' where xs': "frees cs = xs' @ b # ys" "xs = (if f then a # xs' else xs')"
        by (cases f; cases xs) auto
      from Cons.IH [OF xs'(1)] obtain A n B where
        "cs = A @ (b, n, True) # B" "frees A = xs'" "frees B = ys" by blast
      with xs'(2) c show ?thesis by (intro exI [of _ "c # A"] exI [of _ n] exI [of _ B]) auto
    qed
  qed simp
  with that show thesis by blast
qed

text \<open>Taking a whole chunk: its predecessor in the freelist now points past it.\<close>

lemma heap_inv_take:
  assumes inv: "heap_inv m h (A @ (b, n, True) # B)"
  defines "m' \<equiv> store32 m (last_link (h + 4) (frees A)) (load32 m (b + 4))"
  shows "heap_inv m' h (A @ (b, n, False) # B)"
proof -
  let ?cs = "A @ (b, n, True) # B" and ?l = "last_link (h + 4) (frees A)"
  note ht = heap_inv_tiles [OF inv]
  have l: "?l \<in> cells h ?cs" by (rule last_link_cell) auto
  have ld: "load32 m' x = (if x = ?l then load32 m (b + 4) else load32 m x)" if "x \<in> cells h ?cs" for x
    unfolding m'_def by (rule load_cell [OF ht l that])
  have neq: "h \<noteq> ?l \<and> ((c, k, f) \<in> set ?cs \<longrightarrow> c \<noteq> ?l)" for c k f
    by (rule last_link_neq [OF ht]) auto
  have bsz: "load32 m' c = k" if "(c, k, f) \<in> set ?cs" for c k f
    using ld [of c] cells_chunk [OF that] neq [of c k f] that heap_inv_sz [OF inv that] by auto
  have max: "heap_MaxSize m' h = heap_MaxSize m h"
    using ld [of h] neq by (simp add: heap_MaxSize_def)
  have li: "links m (h + 4) (frees A) b" "links m (b + 4) (frees B) 0"
    using inv by (auto simp: heap_inv_def links_snoc)
  have dist: "distinct ((h + 4) # map (\<lambda>b. b + 4) (frees A @ b # frees B))"
    using links_distinct [OF ht] by simp
  have lB: "?l \<notin> (\<lambda>b. b + 4) ` set (frees B)"
  proof (cases "frees A = []")
    case False
    then have "?l \<in> (\<lambda>b. b + 4) ` set (frees A)" by (auto simp: last_link_def)
    with dist show ?thesis by auto
  qed (use dist in simp)
  have "links m' (h + 4) (frees A) (load32 m (b + 4))"
  proof (rule links_redirect [OF li(1)])
    show "distinct ((h + 4) # map (\<lambda>b. b + 4) (frees A))" using dist by auto
    show "load32 m' ?l = load32 m (b + 4)" using ld [OF l] by simp
    fix a
    assume "a = h + 4 \<or> (\<exists>c\<in>set (frees A). a = c + 4)" "a \<noteq> ?l"
    then show "load32 m' a = load32 m a"
      using ld [of a] frees_cell [of _ ?cs h] by auto
  qed
  moreover have "links m' ?l (frees B) 0"
  proof (cases "frees B")
    case Nil
    with li(2) ld [OF l] show ?thesis by simp
  next
    case (Cons c fs)
    with li(2) have c: "load32 m (b + 4) = c" "links m (c + 4) fs 0" by simp_all
    have "links m' (c + 4) fs 0"
    proof (rule links_cong [OF c(2)])
      fix a
      assume "a = c + 4 \<or> (\<exists>b\<in>set fs. a = b + 4)"
      then have a: "\<exists>b\<in>set (frees B). a = b + 4" using Cons by auto
      then have "a \<noteq> ?l" using lB by blast
      with a ld [of a] frees_cell [of _ ?cs h] show "load32 m' a = load32 m a" by auto
    qed
    with Cons c ld [OF l] show ?thesis by simp
  qed
  ultimately have "links m' (h + 4) (frees (A @ (b, n, False) # B)) 0"
    by (auto simp: links_append)
  with inv bsz max show ?thesis by (fastforce simp: heap_inv_def tiles_append)
qed

text \<open>Splitting a chunk: its lower part stays in the freelist, the upper part is handed out.\<close>

lemma heap_inv_split_chunk:
  assumes inv: "heap_inv m h (A @ (b, n, True) # B)" and len: "4 \<le> unat len" "unat len + 8 \<le> unat n"
  defines "c \<equiv> b + (n - len)"
  shows "heap_inv (store32 (store32 m c len) b (n - len - 4)) h
    (A @ (b, n - len - 4, True) # (c, len, False) # B)"
proof -
  let ?cs = "A @ (b, n, True) # B" and ?cs' = "A @ (b, n - len - 4, True) # (c, len, False) # B"
  let ?m' = "store32 (store32 m c len) b (n - len - 4)"
  note ht = heap_inv_tiles [OF inv]
  have b: "(b, n, True) \<in> set ?cs" by simp
  note mb = heap_tiles_mem [OF ht b]
  have s: "unat (n - len) = unat n - unat len" using len by (simp add: unat_sub_le word_le_nat_alt)
  then have s4: "unat (n - len - 4) = unat n - unat len - 4"
    using len by (subst unat_sub_le) (simp_all add: word_le_nat_alt)
  have c: "unat c = unat b + (unat n - unat len)"
    unfolding c_def using mb s len by (subst unat_add32) simp_all
  have til: "tiles (unat h + 16) ?cs' (unat h + unat (heap_MaxSize m h))"
  proof -
    have "tiles (unat h + 16) A (unat b)"
      "tiles (unat b + 4 + unat n) B (unat h + unat (heap_MaxSize m h))"
      using inv by (auto simp: heap_inv_def tiles_append)
    moreover have "unat b + 4 + unat (n - len - 4) = unat c" "unat c + 4 + unat len = unat b + 4 + unat n"
      using c s4 len by simp_all
    ultimately show ?thesis using len s4 by (auto simp: tiles_append add_ac)
  qed
  then have ht': "heap_tiles h ?cs'" using inv by (auto simp: heap_inv_def heap_tiles_def)
  have cell: "b \<in> cells h ?cs'" "c \<in> cells h ?cs'" by (simp_all add: cells_def)
  have sub: "cells h ?cs \<subseteq> cells h ?cs'" by (auto simp: cells_def)
  have cm: "(c, len, False) \<in> set ?cs'" by simp
  have ld: "load32 ?m' x = (if x = b then n - len - 4 else if x = c then len else load32 m x)"
    if "x \<in> cells h ?cs'" for x
    using load_cell [OF ht' cell(1) that, of "store32 m c len"] load_cell [OF ht' cell(2) that, of m]
    by simp
  have "links ?m' (h + 4) (frees ?cs) 0"
  proof (rule links_cong)
    show "links m (h + 4) (frees ?cs) 0" using inv by (simp add: heap_inv_def)
    fix a
    assume a: "a = h + 4 \<or> (\<exists>x\<in>set (frees ?cs). a = x + 4)"
    have bt: "(b, n - len - 4, True) \<in> set ?cs'" by simp
    have "a \<noteq> b \<and> a \<noteq> c"
      using a
    proof (elim disjE bexE)
      assume "a = h + 4"
      then show ?thesis using chunk_neq(3) [OF ht' cm] chunk_neq(3) [OF ht' bt] by auto
    next
      fix x
      assume x: "x \<in> set (frees ?cs)" "a = x + 4"
      then have "x \<in> set (frees ?cs')" by simp
      then obtain k where "(x, k, True) \<in> set ?cs'" by (auto simp: frees_mem)
      then show ?thesis
        using chunk_link_neq [OF ht' cm, of x k True] chunk_link_neq [OF ht' bt, of x k True] x(2) by auto
    qed
    moreover have "a \<in> cells h ?cs'" using a sub frees_cell [of _ ?cs h] by auto
    ultimately show "load32 ?m' a = load32 m a" using ld by simp
  qed
  moreover have "load32 ?m' x = k" if x: "(x, k, f) \<in> set ?cs'" for x k f
  proof (cases "x = b \<or> x = c")
    case True
    have bt: "(b, n - len - 4, True) \<in> set ?cs'" by simp
    have "k = (if x = b then n - len - 4 else len)"
    proof (cases "x = b")
      case xb: True
      from chunk_sz_unique(1) [OF ht' x [unfolded xb] bt] xb show ?thesis by simp
    next
      case False
      with True have xc: "x = c" by simp
      from chunk_sz_unique(1) [OF ht' x [unfolded xc] cm] False show ?thesis by simp
    qed
    with True ld cell show ?thesis by auto
  next
    case False
    then have "(x, k, f) \<in> set ?cs" using x by auto
    with False ld [of x] cells_chunk [OF x, of h] heap_inv_sz [OF inv] show ?thesis by simp
  qed
  moreover have "heap_MaxSize ?m' h = heap_MaxSize m h"
    using ld [of h] chunk_neq(2) [OF ht' cm] chunk_neq(2) [OF ht b] by (auto simp: heap_MaxSize_def)
  ultimately show ?thesis using til inv by (auto simp: heap_inv_def)
qed

text \<open>The bytes the users of the heap own are those of its allocated chunks.\<close>

definition users_keep :: "mem \<Rightarrow> mem \<Rightarrow> chunk list \<Rightarrow> bool" where
  "users_keep m m' cs \<longleftrightarrow> (\<forall>c k. (c, k, False) \<in> set cs \<longrightarrow> agree m m' (c + 4) (unat k))"

lemma users_keep_refl [simp]: "users_keep m m cs"
  by (simp add: users_keep_def)

lemma users_keep_store:
  assumes "users_keep m m' cs" "heap_tiles h cs'" "x \<in> cells h cs'"
    and "\<And>c k. (c, k, False) \<in> set cs \<Longrightarrow> (c, k, False) \<in> set cs' \<and> x \<noteq> c + 4"
  shows "users_keep m (store32 m' x v) cs"
  unfolding users_keep_def
proof (intro allI impI)
  fix c k
  assume c: "(c, k, False) \<in> set cs"
  with assms(1) have "agree m m' (c + 4) (unat k)" by (simp add: users_keep_def)
  moreover have "sep x 4 (c + 4) (unat k)"
    using assms(4) [OF c] by (intro data_sep [OF assms(2) _ assms(3)]) auto
  ultimately show "agree m (store32 m' x v) (c + 4) (unat k)" by (rule c32.store_keeps)
qed

lemma last_link_user:
  assumes ht: "heap_tiles h cs" and xs: "set xs \<subseteq> set (frees cs)" and c: "(c, k, False) \<in> set cs"
  shows "last_link (h + 4) xs \<noteq> c + 4"
proof (cases "xs = []")
  case True
  with chunk_neq(7) [OF ht c] show ?thesis by auto
next
  case False
  then have "last xs \<in> set (frees cs)" using xs by (meson last_in_set subsetD)
  then obtain n where n: "(last xs, n, True) \<in> set cs" by (auto simp: frees_mem)
  have "last xs \<noteq> c"
  proof
    assume "last xs = c"
    with chunk_sz_unique(2) [OF ht n, of k False] c show False by auto
  qed
  with False show ?thesis by (simp add: last_link_def)
qed

text \<open>
  What an allocation of \<open>len\<close> bytes makes of the free chunk \<open>(b, n)\<close> it takes: the address handed
  out, and the chunks.
\<close>

definition take_chunk :: "chunk list \<Rightarrow> u32 \<Rightarrow> u32 \<Rightarrow> chunk list \<Rightarrow> u32 \<Rightarrow> u32 \<times> chunk list" where
  "take_chunk A b n B len =
     (if n - len < 8 then (b + 4, A @ (b, n, False) # B)
      else (b + (n - len) + 4, A @ (b, n - len - 4, True) # (b + (n - len), len, False) # B))"

definition request :: "u32 \<Rightarrow> u32" where
  "request len = (if len < 4 then 4 else len)"

lemma take_whole:
  assumes inv: "heap_inv m h (A @ (b, n, True) # B)" and xs: "frees A = xs"
  shows "heap_inv (set_link m h (before 0 xs) (chunk_nx m b)) h (A @ (b, n, False) # B)"
    and "users_keep m (set_link m h (before 0 xs) (chunk_nx m b)) (A @ (b, n, True) # B)"
proof -
  note ht = heap_inv_tiles [OF inv]
  have sub: "set xs \<subseteq> set (frees (A @ (b, n, True) # B))" using xs by auto
  note sl = set_link_before [OF ht sub]
  show "heap_inv (set_link m h (before 0 xs) (chunk_nx m b)) h (A @ (b, n, False) # B)"
    unfolding sl using heap_inv_take [OF inv] xs by (simp add: chunk_nx_def)
  show "users_keep m (set_link m h (before 0 xs) (chunk_nx m b)) (A @ (b, n, True) # B)"
    unfolding sl
    by (rule users_keep_store [OF users_keep_refl ht last_link_cell [OF sub]])
      (use last_link_user [OF ht sub] in auto)
qed

lemma take_part:
  assumes inv: "heap_inv m h (A @ (b, n, True) # B)" and len: "4 \<le> unat len" "unat len + 8 \<le> unat n"
  shows "users_keep m (store32 (store32 m (b + (n - len)) len) b (n - len - 4)) (A @ (b, n, True) # B)"
proof -
  let ?cs' = "A @ (b, n - len - 4, True) # (b + (n - len), len, False) # B"
  have ht: "heap_tiles h ?cs'" by (rule heap_inv_tiles [OF heap_inv_split_chunk [OF inv len]])
  have bt: "(b, n - len - 4, True) \<in> set ?cs'" "(b + (n - len), len, False) \<in> set ?cs'" by simp_all
  have cell: "b \<in> cells h ?cs'" "b + (n - len) \<in> cells h ?cs'" using cells_chunk bt by blast+
  have sub: "(c, k, False) \<in> set ?cs'" if "(c, k, False) \<in> set (A @ (b, n, True) # B)" for c k
    using that by auto
  show ?thesis
    by (intro users_keep_store [OF users_keep_store [OF users_keep_refl ht cell(2)] ht cell(1)] conjI)
      (use sub chunk_link_neq [OF ht bt(1)] chunk_link_neq [OF ht bt(2)] in blast)+
qed

lemma users_keep_trans: "users_keep m1 m2 cs \<Longrightarrow> users_keep m2 m3 cs \<Longrightarrow> users_keep m1 m3 cs"
  unfolding users_keep_def using agree_trans by blast

lemma users_keep_count:
  assumes "heap_tiles h cs" "x = h + 8 \<or> x = h + 12"
  shows "users_keep m (store32 m x v) cs"
  by (rule users_keep_store [OF users_keep_refl assms(1)])
    (use assms chunk_neq [OF assms(1)] in auto)

lemma heap_alloc_correct:
  assumes inv: "heap_inv m h cs"
  shows "(heap_alloc m h len = Some (Inl PanicHeapFull) \<and> (\<forall>b n. (b, n, True) \<in> set cs \<longrightarrow> n < request len))
    \<or> (\<exists>A b n B m'. cs = A @ (b, n, True) # B \<and> request len \<le> n
        \<and> (\<forall>c k. (c, k, True) \<in> set cs \<longrightarrow> request len \<le> k \<longrightarrow> n \<le> k)
        \<and> heap_alloc m h len = Some (Inr (fst (take_chunk A b n B (request len)), m'))
        \<and> heap_inv m' h (snd (take_chunk A b n B (request len))) \<and> users_keep m m' cs)"
proof -
  let ?L = "request len" and ?m = "store32 m (h + 8) (load32 m (h + 8) + 1)"
  have L4: "4 \<le> unat ?L" by (auto simp: request_def word_less_nat_alt)
  have inv0: "heap_inv ?m h cs" using inv by (rule heap_inv_count) simp
  note ht = heap_inv_tiles [OF inv]
  have keep0: "users_keep m ?m cs" using ht by (rule users_keep_count) simp
  have "alloc_scan ?m ?L (load32 ?m (h + 4)) 0 0 0 0 = Some (scan_list ?m ?L (frees cs) 0 (0, 0, 0))"
    using inv0 frees_neq_0 [OF ht] by (intro alloc_scan_links) (auto simp: heap_inv_def)
  then have alloc: "heap_alloc m h len = Some (alloc_take ?m h ?L (scan_list ?m ?L (frees cs) 0 (0, 0, 0)))"
    by (simp add: heap_alloc_def heap_Freelist_def Let_def request_def)
  show ?thesis
  proof (cases "scan_list ?m ?L (frees cs) 0 (0, 0, 0)")
    case (Inl r)
    obtain b p where "r = (b, p)" by (cases r)
    note scan = Inl [unfolded this]
    from scan_list_Inl [OF scan] obtain xs ys where
      f: "frees cs = xs @ b # ys" "load32 ?m b = ?L" "p = before 0 xs" by blast
    from f(1) obtain A n B where cs: "cs = A @ (b, n, True) # B" "frees A = xs" "frees B = ys"
      by (rule frees_split)
    have n: "n = ?L" using heap_inv_sz [OF inv0, of b n True] f(2) cs(1) by simp
    let ?m' = "set_link ?m h (before 0 xs) (chunk_nx ?m b)"
    have tk: "take_chunk A b n B ?L = (b + 4, A @ (b, n, False) # B)" by (simp add: take_chunk_def n)
    have res: "heap_alloc m h len = Some (Inr (b + 4, ?m'))"
      by (simp add: alloc scan alloc_take_def f(3))
    have "heap_inv ?m' h (A @ (b, n, False) # B)" "users_keep m ?m' cs"
      using take_whole [OF inv0 [unfolded cs(1)] cs(2)] users_keep_trans [OF keep0] cs(1) by auto
    with cs(1) n tk res show ?thesis
      by (intro disjI2 exI [of _ A] exI [of _ b] exI [of _ n] exI [of _ B] exI [of _ ?m']) simp
  next
    case (Inr r)
    obtain s b p where "r = (s, b, p)" by (cases r)
    note scan = Inr [unfolded this]
    from scan_list_Inr [OF scan] have sc: "\<forall>y\<in>set (frees cs). load32 ?m y \<noteq> ?L" "s = 0 \<or> ?L < s"
      "\<forall>y\<in>set (frees cs). ?L < load32 ?m y \<longrightarrow> s \<noteq> 0 \<and> s \<le> load32 ?m y"
      "(s, b, p) = (0, 0, 0) \<or> (\<exists>xs ys. frees cs = xs @ b # ys \<and> load32 ?m b = s \<and> p = before 0 xs)"
      by simp_all
    have size: "load32 ?m c = k \<and> c \<in> set (frees cs)" if "(c, k, True) \<in> set cs" for c k
      using heap_inv_sz [OF inv0 that] that by (auto simp: frees_mem)
    show ?thesis
    proof (cases "s = 0")
      case True
      have "n < ?L" if "(b, n, True) \<in> set cs" for b n
        using size [OF that] sc(1,3) True by (metis linorder_neqE)
      with alloc scan True show ?thesis by (simp add: alloc_take_def)
    next
      case False
      with sc(4) obtain xs ys where f: "frees cs = xs @ b # ys" "load32 ?m b = s" "p = before 0 xs"
        by auto
      from f(1) obtain A n B where cs: "cs = A @ (b, n, True) # B" "frees A = xs" "frees B = ys"
        by (rule frees_split)
      have n: "n = s" using heap_inv_sz [OF inv0, of b n True] f(2) cs(1) by simp
      have gt: "?L < n" using sc(2) False n by simp
      have best: "\<forall>c k. (c, k, True) \<in> set cs \<longrightarrow> ?L \<le> k \<longrightarrow> n \<le> k"
        using size sc(1,3) n by (metis order_le_imp_less_or_eq)
      show ?thesis
      proof (cases "n - ?L < 8")
        case True
        let ?m' = "set_link ?m h (before 0 xs) (chunk_nx ?m b)"
        have tk: "take_chunk A b n B ?L = (b + 4, A @ (b, n, False) # B)"
          using True by (simp add: take_chunk_def)
        have res: "heap_alloc m h len = Some (Inr (b + 4, ?m'))"
          using False True n by (simp add: alloc scan alloc_take_def f(3))
        have "heap_inv ?m' h (A @ (b, n, False) # B)" "users_keep m ?m' cs"
          using take_whole [OF inv0 [unfolded cs(1)] cs(2)] users_keep_trans [OF keep0] cs(1) by auto
        with cs(1) gt best tk res show ?thesis
          by (intro disjI2 exI [of _ A] exI [of _ b] exI [of _ n] exI [of _ B] exI [of _ ?m']) simp
      next
        case big: False
        let ?m' = "store32 (store32 ?m (b + (n - ?L)) ?L) b (n - ?L - 4)"
        have "unat (n - ?L) = unat n - unat ?L" using gt by (simp add: unat_sub_le)
        then have room: "unat ?L + 8 \<le> unat n" using big by (simp add: word_less_nat_alt)
        have tk: "take_chunk A b n B ?L = (b + (n - ?L) + 4,
            A @ (b, n - ?L - 4, True) # (b + (n - ?L), ?L, False) # B)"
          using big by (simp add: take_chunk_def)
        have res: "heap_alloc m h len = Some (Inr (b + (n - ?L) + 4, ?m'))"
          using False big n by (simp add: alloc scan alloc_take_def Let_def)
        have "users_keep m ?m' cs"
          using take_part [OF inv0 [unfolded cs(1)] L4 room] users_keep_trans [OF keep0] cs(1) by auto
        with heap_inv_split_chunk [OF inv0 [unfolded cs(1)] L4 room] cs(1) gt best tk res
        show ?thesis
          by (intro disjI2 exI [of _ A] exI [of _ b] exI [of _ n] exI [of _ B] exI [of _ ?m']) simp
      qed
    qed
  qed
qed

section \<open>What a release does\<close>

text \<open>The chunks after the release of \<open>(b, n)\<close>: it joins a free neighbour above, then one below.\<close>

definition merge_upper :: "u32 \<Rightarrow> chunk list \<Rightarrow> u32 \<times> chunk list" where
  "merge_upper n B = (case B of (z, k, True) # B' \<Rightarrow> (n + (k + 4), B') | _ \<Rightarrow> (n, B))"

definition merge_lower :: "chunk list \<Rightarrow> u32 \<Rightarrow> u32 \<Rightarrow> chunk list \<Rightarrow> chunk list" where
  "merge_lower A b n B =
     (if A \<noteq> [] \<and> snd (snd (last A))
      then butlast A @ (fst (last A), fst (snd (last A)) + (n + 4), True) # B
      else A @ (b, n, True) # B)"

definition free_chunk :: "chunk list \<Rightarrow> u32 \<Rightarrow> u32 \<Rightarrow> chunk list \<Rightarrow> chunk list" where
  "free_chunk A b n B = (let (n', B') = merge_upper n B in merge_lower A b n' B')"

lemma free_scan_links:
  "links m q (xs @ ys) 0 \<Longrightarrow> 0 \<notin> set (xs @ ys) \<Longrightarrow> \<forall>x\<in>set xs. x < b \<Longrightarrow> \<forall>y\<in>set ys. \<not> y < b \<Longrightarrow>
    free_scan m b (load32 m q) fp2 = Some (case ys of [] \<Rightarrow> 0 | y # _ \<Rightarrow> y, before fp2 xs)"
proof (induction xs arbitrary: q fp2)
  case Nil
  then show ?case by (subst free_scan.simps) (cases ys, auto)
next
  case (Cons x xs)
  then show ?case by (subst free_scan.simps) (auto simp: chunk_nx_def)
qed

text \<open>
  A heap whose chunk \<open>b\<close> is in transit: its size is in place, the chain of the free chunks below it
  arrives at \<open>y\<close>, its own link continues with the free chunks above.
\<close>

definition mid_inv :: "mem \<Rightarrow> u32 \<Rightarrow> chunk list \<Rightarrow> u32 \<Rightarrow> u32 \<Rightarrow> chunk list \<Rightarrow> u32 \<Rightarrow> bool" where
  "mid_inv m h A b n B y \<longleftrightarrow> unat h + unat (heap_MaxSize m h) < 4294967296 \<and>
     tiles (unat h + 16) (A @ (b, n, True) # B) (unat h + unat (heap_MaxSize m h)) \<and>
     (\<forall>(c, k, f)\<in>set (A @ (b, n, True) # B). load32 m c = k) \<and>
     links m (h + 4) (frees A) y \<and> links m (b + 4) (frees B) 0"

lemma mid_inv_tiles: "mid_inv m h A b n B y \<Longrightarrow> heap_tiles h (A @ (b, n, True) # B)"
  by (auto simp: mid_inv_def heap_tiles_def)

lemma mid_inv_sz: "mid_inv m h A b n B y \<Longrightarrow> (c, k, f) \<in> set (A @ (b, n, True) # B) \<Longrightarrow> load32 m c = k"
  unfolding mid_inv_def by blast

text \<open>Pointing the last link below \<open>b\<close> at \<open>b\<close> ends the transit.\<close>

lemma mid_inv_close:
  assumes mid: "mid_inv m h A b n B y"
  shows "heap_inv (store32 m (last_link (h + 4) (frees A)) b) h (A @ (b, n, True) # B)"
proof -
  let ?cs = "A @ (b, n, True) # B" and ?l = "last_link (h + 4) (frees A)"
  let ?m' = "store32 m ?l b"
  note ht = mid_inv_tiles [OF mid]
  have l: "?l \<in> cells h ?cs" by (rule last_link_cell) auto
  have ld: "load32 ?m' x = (if x = ?l then b else load32 m x)" if "x \<in> cells h ?cs" for x
    by (rule load_cell [OF ht l that])
  have neq: "h \<noteq> ?l \<and> ((c, k, f) \<in> set ?cs \<longrightarrow> c \<noteq> ?l)" for c k f
    by (rule last_link_neq [OF ht]) auto
  have bsz: "load32 ?m' c = k" if "(c, k, f) \<in> set ?cs" for c k f
    using ld [of c] cells_chunk [OF that] neq [of c k f] that mid_inv_sz [OF mid that] by auto
  have max: "heap_MaxSize ?m' h = heap_MaxSize m h"
    using ld [of h] neq by (simp add: heap_MaxSize_def)
  from mid have li: "links m (h + 4) (frees A) y" "links m (b + 4) (frees B) 0"
    by (auto simp: mid_inv_def)
  have dist: "distinct ((h + 4) # map (\<lambda>b. b + 4) (frees A @ b # frees B))"
    using links_distinct [OF ht] by simp
  have "links ?m' (h + 4) (frees A) b"
  proof (rule links_redirect [OF li(1)])
    show "distinct ((h + 4) # map (\<lambda>b. b + 4) (frees A))" using dist by auto
    show "load32 ?m' ?l = b" using ld [OF l] by simp
    fix a
    assume "a = h + 4 \<or> (\<exists>c\<in>set (frees A). a = c + 4)" "a \<noteq> ?l"
    then show "load32 ?m' a = load32 m a"
      using ld [of a] frees_cell [of _ ?cs h] by auto
  qed
  moreover have "links ?m' (b + 4) (frees B) 0"
  proof (rule links_cong [OF li(2)])
    have lB: "?l \<notin> (\<lambda>b. b + 4) ` set (b # frees B)"
    proof (cases "frees A = []")
      case False
      then have "?l \<in> (\<lambda>b. b + 4) ` set (frees A)" by (auto simp: last_link_def)
      with dist show ?thesis by auto
    qed (use dist in simp)
    fix a
    assume "a = b + 4 \<or> (\<exists>c\<in>set (frees B). a = c + 4)"
    then have a: "a \<in> (\<lambda>b. b + 4) ` set (b # frees B)" by auto
    then have "a \<noteq> ?l" using lB by blast
    moreover from a have "a \<in> cells h ?cs" using frees_cell [of _ ?cs h] by auto
    ultimately show "load32 ?m' a = load32 m a" using ld by simp
  qed
  ultimately have "links ?m' (h + 4) (frees ?cs) 0" by (simp add: links_snoc)
  with mid bsz max show ?thesis by (fastforce simp: heap_inv_def mid_inv_def)
qed


lemma heap_mid_iff: "heap_inv m h (A @ (b, n, True) # B) \<longleftrightarrow> mid_inv m h A b n B b"
  by (auto simp: heap_inv_def mid_inv_def links_snoc)

lemma heap_inv_data:
  assumes inv: "heap_inv m h cs" and b: "(b, n, False) \<in> set cs"
  shows "heap_inv (store32 m (b + 4) v) h cs"
proof -
  note ht = heap_inv_tiles [OF inv]
  have ld: "load32 (store32 m (b + 4) v) x = load32 m x" if "x \<in> cells h cs" "x \<noteq> b + 4" for x
    using load_cell [OF ht conjunct2 [OF cells_chunk [OF b]] that(1)] that(2) by simp
  have "links (store32 m (b + 4) v) (h + 4) (frees cs) 0"
  proof (rule links_cong)
    show "links m (h + 4) (frees cs) 0" using inv by (simp add: heap_inv_def)
    fix a
    assume a: "a = h + 4 \<or> (\<exists>c\<in>set (frees cs). a = c + 4)"
    then have "a \<noteq> b + 4"
    proof
      assume "\<exists>c\<in>set (frees cs). a = c + 4"
      then obtain c k where c: "(c, k, True) \<in> set cs" "a = c + 4" by (auto simp: frees_mem)
      have "c \<noteq> b" using chunk_sz_unique(2) [OF ht c(1), of n False] b by metis
      with c show ?thesis by simp
    qed (use chunk_neq(7) [OF ht b] in auto)
    moreover from a have "a \<in> cells h cs" using frees_cell [of _ cs h] by auto
    ultimately show "load32 (store32 m (b + 4) v) a = load32 m a" using ld by simp
  qed
  moreover have "load32 (store32 m (b + 4) v) c = k" if "(c, k, f) \<in> set cs" for c k f
    using ld [of c] cells_chunk [OF that] chunk_link_neq [OF ht that b] heap_inv_sz [OF inv that] by simp
  moreover have "heap_MaxSize (store32 m (b + 4) v) h = heap_MaxSize m h"
    using ld [of h] chunk_neq(6) [OF ht b] by (auto simp: heap_MaxSize_def)
  ultimately show ?thesis using inv by (auto simp: heap_inv_def)
qed

definition first_or_0 :: "u32 list \<Rightarrow> u32" where
  "first_or_0 fs = (case fs of [] \<Rightarrow> 0 | y # _ \<Rightarrow> y)"

lemma mid_start:
  assumes inv: "heap_inv m h (A @ (b, n, False) # B)"
    and nx: "load32 m (b + 4) = first_or_0 (frees B)"
  shows "mid_inv m h A b n B (first_or_0 (frees B))"
proof -
  from inv have l: "links m (h + 4) (frees A @ frees B) 0" by (simp add: heap_inv_def)
  then have "links m (h + 4) (frees A) (first_or_0 (frees B))"
    by (cases "frees B") (simp_all add: links_snoc first_or_0_def)
  moreover from l nx have "links m (b + 4) (frees B) 0"
    by (cases "frees B") (simp_all add: links_snoc first_or_0_def)
  ultimately show ?thesis using inv by (auto simp: heap_inv_def mid_inv_def tiles_append)
qed

text \<open>Two adjacent free chunks become one.\<close>

lemma mid_merge:
  assumes mid: "mid_inv m h A b n ((z, k, True) # B) y"
  shows "mid_inv (store32 (store32 m b (n + (k + 4))) (b + 4) (load32 m (z + 4))) h A b (n + (k + 4)) B y"
proof -
  let ?cs = "A @ (b, n, True) # (z, k, True) # B" and ?N = "n + (k + 4)"
  let ?m' = "store32 (store32 m b ?N) (b + 4) (load32 m (z + 4))"
  note ht = mid_inv_tiles [OF mid]
  have bz: "(b, n, True) \<in> set ?cs" "(z, k, True) \<in> set ?cs" by simp_all
  note cb = cells_chunk [OF bz(1), of h] and cz = cells_chunk [OF bz(2), of h]
  have ld: "load32 ?m' x = (if x = b + 4 then load32 m (z + 4) else if x = b then ?N else load32 m x)"
    if "x \<in> cells h ?cs" for x
    using load_cell [OF ht conjunct2 [OF cb] that] load_cell [OF ht conjunct1 [OF cb] that, of m] by simp
  have til: "tiles (unat h + 16) A (unat b)" "unat z = unat b + 4 + unat n"
    "tiles (unat z + 4 + unat k) B (unat h + unat (heap_MaxSize m h))"
    using mid by (auto simp: mid_inv_def tiles_append)
  have "unat (k + 4) = unat k + 4"
    using heap_tiles_mem [OF ht bz(2)] by (subst unat_add32) simp_all
  then have N: "unat ?N = unat n + unat k + 4"
    using heap_tiles_mem [OF ht bz(2)] til(2) by (subst unat_add32) simp_all
  have "tiles (unat b + 4 + unat ?N) B (unat h + unat (heap_MaxSize m h))"
    unfolding N using til(2,3) by (simp add: add_ac)
  then have til': "tiles (unat h + 16) (A @ (b, ?N, True) # B) (unat h + unat (heap_MaxSize m h))"
    using til(1) N heap_tiles_mem(2) [OF ht bz(1)] by (auto simp: tiles_append)
  have dist: "distinct ((h + 4) # map (\<lambda>b. b + 4) (frees A @ b # z # frees B))"
    using links_distinct [OF ht] by simp
  have li: "links m (h + 4) (frees A) y" "links m (z + 4) (frees B) 0"
    using mid by (auto simp: mid_inv_def)
  have same: "load32 ?m' a = load32 m a"
    if a: "a = h + 4 \<or> (\<exists>c\<in>set (frees A @ frees B). a = c + 4)" for a
  proof -
    have "a \<noteq> b + 4" using a dist by auto
    moreover have "a \<noteq> b"
      using a
    proof
      assume "\<exists>c\<in>set (frees A @ frees B). a = c + 4"
      then obtain c where c: "c \<in> set (frees ?cs)" "a = c + 4" by auto
      from c(1) obtain k' where "(c, k', True) \<in> set ?cs" unfolding frees_mem by blast
      note c = this c(2)
      from chunk_link_neq [OF ht bz(1) c(1)] c(2) show ?thesis by simp
    qed (use chunk_neq(3) [OF ht bz(1)] in auto)
    moreover have "a \<in> cells h ?cs" using a frees_cell [of _ ?cs h] by auto
    ultimately show ?thesis using ld by simp
  qed
  have "links ?m' (h + 4) (frees A) y" by (rule links_cong [OF li(1)], rule same) auto
  moreover have "links ?m' (b + 4) (frees B) 0"
  proof (cases "frees B")
    case Nil
    with li(2) ld cb show ?thesis by simp
  next
    case (Cons c fs)
    with li(2) have c: "load32 m (z + 4) = c" "links m (c + 4) fs 0" by simp_all
    have "links ?m' (c + 4) fs 0" by (rule links_cong [OF c(2)], rule same) (use Cons in auto)
    with Cons c ld cb show ?thesis by simp
  qed
  moreover have "load32 ?m' c = s" if c: "(c, s, f) \<in> set (A @ (b, ?N, True) # B)" for c s f
  proof (cases "c = b")
    case True
    have "heap_tiles h (A @ (b, ?N, True) # B)" using til' mid by (auto simp: heap_tiles_def mid_inv_def)
    from chunk_sz_unique(1) [OF this c [unfolded True], of ?N True] True ld [of b] cb
    show ?thesis by simp
  next
    case False
    then have c': "(c, s, f) \<in> set ?cs" using c by auto
    with False ld [of c] cells_chunk [OF c', of h] chunk_link_neq [OF ht c' bz(1)] mid_inv_sz [OF mid c']
    show ?thesis by simp
  qed
  moreover have "heap_MaxSize ?m' h = heap_MaxSize m h"
    using ld [of h] chunk_neq(2,6) [OF ht bz(1)] by (auto simp: heap_MaxSize_def)
  ultimately show ?thesis using mid til' by (auto simp: mid_inv_def)
qed

text \<open>A free chunk ends where the next free chunk starts exactly when the two are neighbours.\<close>

lemma next_free_adjacent:
  assumes ht: "heap_tiles h (A @ (b, n, f) # B)" and fs: "frees B = z # zs"
  shows "b + 4 + n = z \<longleftrightarrow> (\<exists>k B'. B = (z, k, True) # B')"
proof (cases B)
  case Nil
  with fs show ?thesis by simp
next
  case (Cons c B')
  obtain a k g where c: "c = (a, k, g)" by (cases c)
  let ?cs = "A @ (b, n, f) # B"
  have b: "(b, n, f) \<in> set ?cs" by simp
  have a: "(a, k, g) \<in> set ?cs" using Cons c by simp
  have "z \<in> set (frees B)" using fs by simp
  then obtain kz where z: "(z, kz, True) \<in> set B" by (auto simp: frees_mem)
  then have z': "(z, kz, True) \<in> set ?cs" by simp
  have "unat a = unat b + 4 + unat n"
    using ht Cons c by (auto simp: heap_tiles_def tiles_append)
  moreover have "unat (b + 4 + n) = unat b + 4 + unat n"
    using heap_tiles_mem [OF ht b] by (subst unat_add32) simp_all
  ultimately have adj: "b + 4 + n = a" by (simp add: word_eq_unat_iff)
  show ?thesis
  proof
    assume "b + 4 + n = z"
    with adj have "a = z" by simp
    from chunk_sz_unique [OF ht a z' [folded this]] have "g" by simp
    with Cons c \<open>a = z\<close> show "\<exists>k B'. B = (z, k, True) # B'" by auto
  next
    assume "\<exists>k B'. B = (z, k, True) # B'"
    with Cons c adj show "b + 4 + n = z" by auto
  qed
qed

lemma free_upper_mid:
  assumes inv: "heap_inv m h (A @ (b, n, False) # B)" and nul: "load32 m (b + 4) = 0"
  shows "\<exists>y. mid_inv (free_upper m b (first_or_0 (frees B))) h A b (fst (merge_upper n B))
    (snd (merge_upper n B)) y"
proof (cases "frees B")
  case Nil
  then have "merge_upper n B = (n, B)"
    by (auto simp: merge_upper_def split: list.splits bool.splits)
  with mid_start [OF inv] Nil nul show ?thesis
    by (auto simp: first_or_0_def free_upper_def)
next
  case (Cons z zs)
  let ?m1 = "store32 m (b + 4) z"
  have mid: "mid_inv ?m1 h A b n B z" using mid_start [OF heap_inv_data [OF inv, of b n z]] Cons by (simp add: first_or_0_def)
  note ht = mid_inv_tiles [OF mid]
  have b: "(b, n, True) \<in> set (A @ (b, n, True) # B)" by simp
  have z0: "z \<noteq> 0" using frees_neq_0 [OF ht, of z] Cons by simp
  have sz: "chunk_sz ?m1 b = n" using mid_inv_sz [OF mid b] by (simp add: chunk_sz_def)
  note adj = next_free_adjacent [OF ht Cons]
  show ?thesis
  proof (cases "\<exists>k B'. B = (z, k, True) # B'")
    case False
    then have "merge_upper n B = (n, B)"
      using Cons by (auto simp: merge_upper_def split: list.splits bool.splits)
    moreover have "free_upper m b z = ?m1" using z0 sz adj False by (simp add: free_upper_def Let_def)
    ultimately show ?thesis using mid Cons by (auto simp: first_or_0_def)
  next
    case True
    then obtain k B' where B: "B = (z, k, True) # B'" by blast
    have zin: "(z, k, True) \<in> set (A @ (b, n, True) # B)" using B by simp
    have szz: "chunk_sz ?m1 z = k" using mid_inv_sz [OF mid zin] by (simp add: chunk_sz_def)
    have "load32 (store32 ?m1 b (n + (k + 4))) (z + 4) = load32 ?m1 (z + 4)"
      using load_cell [OF ht, of b "z + 4"] cells_chunk [OF b, of h] cells_chunk [OF zin, of h]
        chunk_link_neq [OF ht b zin] by simp
    then have "free_upper m b z = store32 (store32 ?m1 b (n + (k + 4))) (b + 4) (load32 ?m1 (z + 4))"
      using z0 sz szz adj True by (simp add: free_upper_def Let_def chunk_nx_def)
    with mid_merge [OF mid [unfolded B]] B Cons show ?thesis
      by (auto simp: merge_upper_def first_or_0_def)
  qed
qed


lemma free_lower_inv:
  assumes mid: "mid_inv m h A b n B y" and a: "frees A = xs @ [a]"
  shows "heap_inv (free_lower m b a) h (merge_lower A b n B)"
proof -
  let ?m1 = "store32 m (a + 4) b"
  have inv: "heap_inv ?m1 h (A @ (b, n, True) # B)"
    using mid_inv_close [OF mid] a by (simp add: last_link_def)
  note ht = heap_inv_tiles [OF inv]
  from a obtain A1 k A2 where A: "A = A1 @ (a, k, True) # A2" "frees A2 = []"
    using frees_split [of A xs a "[]"] by metis
  have cs: "A @ (b, n, True) # B = A1 @ (a, k, True) # A2 @ (b, n, True) # B" by (simp add: A)
  have ain: "(a, k, True) \<in> set (A @ (b, n, True) # B)" and bin: "(b, n, True) \<in> set (A @ (b, n, True) # B)"
    by (simp_all add: A)
  have sza: "chunk_sz ?m1 a = k" using heap_inv_sz [OF inv ain] by (simp add: chunk_sz_def)
  have szb: "chunk_sz ?m1 b = n" using heap_inv_sz [OF inv bin] by (simp add: chunk_sz_def)
  have adj: "a + 4 + k = b \<longleftrightarrow> A2 = []"
  proof -
    have "a + 4 + k = b \<longleftrightarrow> (\<exists>k B'. A2 @ (b, n, True) # B = (b, k, True) # B')"
      using next_free_adjacent [OF ht [unfolded cs], of b "frees B"] A(2) by simp
    also have "\<dots> \<longleftrightarrow> A2 = []" using A(2) by (cases A2) auto
    finally show ?thesis .
  qed
  show ?thesis
  proof (cases "A2 = []")
    case False
    then have "last A = last A2" "A \<noteq> []" using A(1) by simp_all
    moreover have "\<not> snd (snd (last A2))"
      using A(2) False by (auto simp: frees_def filter_empty_conv)
    ultimately have "merge_lower A b n B = A @ (b, n, True) # B" by (simp add: merge_lower_def)
    moreover have "free_lower m b a = ?m1" using sza adj False by (simp add: free_lower_def Let_def)
    ultimately show ?thesis using inv by simp
  next
    case True
    have ml: "merge_lower A b n B = A1 @ (a, k + (n + 4), True) # B"
      by (simp add: merge_lower_def A(1) True)
    have "load32 (store32 ?m1 a (k + (n + 4))) (b + 4) = load32 ?m1 (b + 4)"
      using load_cell [OF ht, of a "b + 4"] cells_chunk [OF ain, of h] cells_chunk [OF bin, of h]
        chunk_link_neq [OF ht ain bin] by simp
    then have "free_lower m b a = store32 (store32 ?m1 a (k + (n + 4))) (a + 4) (load32 ?m1 (b + 4))"
      using sza szb adj True by (simp add: free_lower_def Let_def chunk_nx_def)
    moreover have "mid_inv ?m1 h A1 a k ((b, n, True) # B) a"
      using inv unfolding cs True by (simp add: heap_mid_iff)
    ultimately have "mid_inv (free_lower m b a) h A1 a (k + (n + 4)) B a"
      using mid_merge by simp
    then show ?thesis by (simp add: ml heap_mid_iff)
  qed
qed

text \<open>The stores of a release go to words that are not the link of a chunk that stays allocated.\<close>

lemma store_keeps_users:
  assumes "users_keep m m' (A @ B)" "heap_tiles h (A @ (b, n, False) # B)"
    and "x \<in> cells h (A @ (b, n, False) # B)"
    and "\<And>c k. (c, k, False) \<in> set (A @ B) \<Longrightarrow> x \<noteq> c + 4"
  shows "users_keep m (store32 m' x v) (A @ B)"
  by (rule users_keep_store [OF assms(1-3)]) (use assms(4) in auto)

lemma released_neq:
  assumes ht: "heap_tiles h (A @ (b, n, False) # B)" and c: "(c, k, f) \<in> set (A @ B)"
  shows "b \<noteq> c"
proof -
  have "distinct (map fst (A @ (b, n, False) # B))"
    using ht tiles_distinct(1) unfolding heap_tiles_def by blast
  with c show ?thesis by force
qed

lemma free_upper_users:
  assumes uk: "users_keep m m' (A @ B)" and ht: "heap_tiles h (A @ (b, n, False) # B)"
  shows "users_keep m (free_upper m' b q) (A @ B)"
proof -
  let ?cs = "A @ (b, n, False) # B"
  have b: "(b, n, False) \<in> set ?cs" by simp
  note cb = cells_chunk [OF b, of h]
  have n1: "b + 4 \<noteq> c + 4" and n2: "b \<noteq> c + 4" if c: "(c, k, False) \<in> set (A @ B)" for c k
    using released_neq [OF ht c] chunk_link_neq [OF ht b, of c k False] c by auto
  have s1: "users_keep m (store32 x (b + 4) v) (A @ B)" if "users_keep m x (A @ B)" for x v
    by (rule store_keeps_users [OF that ht conjunct2 [OF cb] n1])
  have s2: "users_keep m (store32 x b v) (A @ B)" if "users_keep m x (A @ B)" for x v
    by (rule store_keeps_users [OF that ht conjunct1 [OF cb] n2])
  show ?thesis unfolding free_upper_def Let_def using uk s1 s2 by simp
qed


lemma free_lower_users:
  assumes uk: "users_keep m m' (A @ B)" and ht: "heap_tiles h (A @ (b, n, False) # B)"
    and a: "(a, k, True) \<in> set A"
  shows "users_keep m (free_lower m' b a) (A @ B)"
proof -
  let ?cs = "A @ (b, n, False) # B"
  have a': "(a, k, True) \<in> set ?cs" using a by simp
  note ca = cells_chunk [OF a', of h]
  have n1: "a + 4 \<noteq> c + 4" and n2: "a \<noteq> c + 4" if c: "(c, j, False) \<in> set (A @ B)" for c j
  proof -
    have c': "(c, j, False) \<in> set ?cs" using c by auto
    show "a \<noteq> c + 4" by (rule chunk_link_neq [OF ht a' c'])
    have "a \<noteq> c"
    proof
      assume "a = c"
      from chunk_sz_unique(2) [OF ht a' c' [folded this]] show False by simp
    qed
    then show "a + 4 \<noteq> c + 4" by simp
  qed
  have s1: "users_keep m (store32 x (a + 4) v) (A @ B)" if "users_keep m x (A @ B)" for x v
    by (rule store_keeps_users [OF that ht conjunct2 [OF ca] n1])
  have s2: "users_keep m (store32 x a v) (A @ B)" if "users_keep m x (A @ B)" for x v
    by (rule store_keeps_users [OF that ht conjunct1 [OF ca] n2])
  show ?thesis unfolding free_lower_def Let_def using uk s1 s2 by simp
qed

lemma links_sorted:
  assumes ht: "heap_tiles h (A @ (b, n, f) # B)"
  shows "x \<in> set (frees A) \<Longrightarrow> x < b" and "x \<in> set (frees B) \<Longrightarrow> \<not> x < b"
proof -
  from ht obtain e where "tiles (unat h + 16) (A @ (b, n, f) # B) e" by (auto simp: heap_tiles_def)
  from tiles_distinct(2) [OF this] show "x \<in> set (frees A) \<Longrightarrow> x < b" "x \<in> set (frees B) \<Longrightarrow> \<not> x < b"
    by (auto simp: sorted_wrt_append frees_mem word_less_nat_alt)
qed

lemma heap_free_correct:
  assumes inv: "heap_inv m h (A @ (b, n, False) # B)" and some: "frees (A @ B) \<noteq> []"
  shows "\<exists>m'. heap_free m h (b + 4) = Some (Inr m') \<and> heap_inv m' h (free_chunk A b n B)
    \<and> users_keep m m' (A @ B)"
proof -
  let ?cs = "A @ (b, n, False) # B" and ?y = "first_or_0 (frees B)"
  let ?m0 = "store32 m (h + 12) (load32 m (h + 12) + 1)"
  let ?m1 = "store32 ?m0 (b + 4) 0"
  let ?m2 = "free_upper ?m1 b ?y"
  have b: "(b, n, False) \<in> set ?cs" by simp
  have inv0: "heap_inv ?m0 h ?cs" using inv by (rule heap_inv_count) simp
  have inv1: "heap_inv ?m1 h ?cs" by (rule heap_inv_data [OF inv0 b])
  note ht = heap_inv_tiles [OF inv]
  have b4: "b + 4 \<noteq> 0" using heap_tiles_mem [OF ht b] by (metis add_is_0 unat_0 zero_neq_numeral)
  have l1: "links ?m1 (h + 4) (frees A @ frees B) 0" using inv1 by (simp add: heap_inv_def)
  have fl: "heap_Freelist ?m1 h \<noteq> 0"
  proof -
    have "load32 ?m1 (h + 4) \<in> set (frees ?cs)"
      using l1 some by (cases "frees A"; cases "frees B") auto
    with frees_neq_0 [OF ht] show ?thesis by (auto simp: heap_Freelist_def)
  qed
  have scan: "free_scan ?m1 b (heap_Freelist ?m1 h) 0 = Some (?y, before 0 (frees A))"
    unfolding heap_Freelist_def first_or_0_def
    using frees_neq_0 [OF ht] links_sorted [OF ht]
    by (intro free_scan_links l1) auto
  have res: "heap_free m h (b + 4) = Some (if before 0 (frees A) \<noteq> 0
      then Inr (free_lower ?m2 b (before 0 (frees A)))
      else if ?y \<noteq> 0 then Inr (store32 ?m2 (h + 4) b) else Inl NullPointer)"
    using b4 fl scan by (simp add: heap_free_def Let_def)
  have uk0: "users_keep m ?m0 (A @ B)"
    using users_keep_count [OF ht, of "h + 12"] by (auto simp: users_keep_def)
  have "users_keep m ?m1 (A @ B)"
    using released_neq [OF ht] cells_chunk [OF b, of h] by (intro store_keeps_users [OF uk0 ht]) auto
  then have uk2: "users_keep m ?m2 (A @ B)" by (rule free_upper_users [OF _ ht])
  obtain y where mid: "mid_inv ?m2 h A b (fst (merge_upper n B)) (snd (merge_upper n B)) y"
    using free_upper_mid [OF inv1] by auto
  show ?thesis
  proof (cases "frees A = []")
    case True
    with some have "?y \<in> set (frees B)" by (cases "frees B") (auto simp: first_or_0_def)
    then have "?y \<noteq> 0" using frees_neq_0 [OF ht, of ?y] by simp
    then have r: "heap_free m h (b + 4) = Some (Inr (store32 ?m2 (h + 4) b))" using res True by simp
    have "merge_lower A b n' B' = A @ (b, n', True) # B'" for n' B'
    proof (cases "A = []")
      case False
      then have "\<not> snd (snd (last A))" using True by (auto simp: frees_def filter_empty_conv)
      then show ?thesis by (simp add: merge_lower_def)
    qed (simp add: merge_lower_def)
    then have "heap_inv (store32 ?m2 (h + 4) b) h (free_chunk A b n B)"
      using mid_inv_close [OF mid] True by (simp add: free_chunk_def case_prod_beta)
    moreover have "users_keep m (store32 ?m2 (h + 4) b) (A @ B)"
    proof (rule store_keeps_users [OF uk2 ht])
      fix c k
      assume "(c, k, False) \<in> set (A @ B)"
      then have "(c, k, False) \<in> set ?cs" by auto
      from chunk_neq(7) [OF ht this] show "h + 4 \<noteq> c + 4" by metis
    qed simp
    ultimately show ?thesis using r by blast
  next
    case False
    let ?a = "last (frees A)"
    have a: "frees A = butlast (frees A) @ [?a]" using False by simp
    have "?a \<in> set (frees A)" using False by simp
    then obtain k where ka: "(?a, k, True) \<in> set A" unfolding frees_mem by blast
    have bef: "before 0 (frees A) = ?a" using False by (simp add: before_def)
    have "?a \<noteq> 0" using chunk_neq(1) [OF ht, of ?a k True] ka by simp
    then have r: "heap_free m h (b + 4) = Some (Inr (free_lower ?m2 b ?a))" using res bef by simp
    have "heap_inv (free_lower ?m2 b ?a) h (free_chunk A b n B)"
      using free_lower_inv [OF mid a] by (simp add: free_chunk_def case_prod_beta)
    with r free_lower_users [OF uk2 ht ka] show ?thesis by blast
  qed
qed

text \<open>
  The release into an empty freelist: the code makes the chunk the head and then walks the list,
  finds the chunk itself, and links it in front of itself.
\<close>

lemma heap_free_into_empty:
  fixes A B b n
  defines "cs \<equiv> A @ (b, n, False) # B"
  assumes inv: "heap_inv m h cs" and none0: "frees (A @ B) = []"
  shows "\<exists>m'. heap_free m h (b + 4) = Some (Inr m') \<and> heap_Freelist m' h = b
    \<and> chunk_nx m' b = b \<and> chunk_sz m' b = n \<and> users_keep m m' (A @ B)"
proof -
  have b: "(b, n, False) \<in> set cs" and none: "frees cs = []" using none0 by (simp_all add: cs_def)
  let ?m0 = "store32 m (h + 12) (load32 m (h + 12) + 1)"
  let ?m1 = "store32 ?m0 (b + 4) 0"
  let ?m2 = "store32 ?m1 (h + 4) b"
  let ?m3 = "store32 ?m2 (b + 4) b"
  have inv0: "heap_inv ?m0 h cs" using inv by (rule heap_inv_count) simp
  have inv1: "heap_inv ?m1 h cs" by (rule heap_inv_data [OF inv0 b])
  note ht = heap_inv_tiles [OF inv] and cb = cells_chunk [OF b, of h]
  note nb = chunk_neq [OF ht b]
  have ld: "load32 (store32 x u v) w = (if w = u then v else load32 x w)"
    if "u \<in> {h + 4, b, b + 4}" "w \<in> {h + 4, b, b + 4}" for x u v w
    by (rule load_cell [OF ht]) (use that cb in auto)
  have b4: "b + 4 \<noteq> 0" using heap_tiles_mem [OF ht b] by (metis add_is_0 unat_0 zero_neq_numeral)
  have fl: "heap_Freelist ?m1 h = 0" using inv1 none by (simp add: heap_inv_def heap_Freelist_def)
  have sz: "load32 ?m1 b = n" by (rule heap_inv_sz [OF inv1 b])
  have szn: "chunk_sz ?m3 b = n" using sz nb ld by (simp add: chunk_sz_def)
  have nadj: "b + 4 + n \<noteq> b"
  proof
    assume "b + 4 + n = b"
    then have "unat (4 + n) = 0" by (simp add: add.assoc)
    moreover have "unat (4 + n) = 4 + unat n"
      using heap_tiles_mem [OF ht b] by (subst unat_add32) simp_all
    ultimately show False by simp
  qed
  have scan: "free_scan ?m2 b b 0 = Some (b, 0)" using nb(1) by (subst free_scan.simps) simp
  have up: "free_upper ?m2 b b = ?m3" using nb(1) szn nadj by (simp add: free_upper_def Let_def)
  have fl2: "heap_Freelist ?m2 h = b" by (simp add: heap_Freelist_def)
  have res: "heap_free m h (b + 4) = Some (Inr (store32 ?m3 (h + 4) b))"
    using b4 fl fl2 scan up nb(1) by (simp add: heap_free_def Let_def)
  moreover have "load32 (store32 ?m3 (h + 4) b) (b + 4) = b" "load32 (store32 ?m3 (h + 4) b) b = n"
    "load32 (store32 ?m3 (h + 4) b) (h + 4) = b"
    using ld nb szn by (simp_all add: chunk_sz_def)
  moreover have "users_keep m (store32 ?m3 (h + 4) b) (A @ B)"
  proof -
    have uk0: "users_keep m ?m0 (A @ B)"
      using users_keep_count [OF ht, of "h + 12"] by (auto simp: users_keep_def cs_def)
    have n1: "b + 4 \<noteq> c + 4" "h + 4 \<noteq> c + 4" if c: "(c, k, False) \<in> set (A @ B)" for c k
      using released_neq [OF ht [unfolded cs_def] c] chunk_neq(7) [OF ht, of c k False] c by (auto simp: cs_def)
    have s: "users_keep m (store32 x y v) (A @ B)" if x: "users_keep m x (A @ B)" "y = b + 4 \<or> y = h + 4" for x y v
    proof (rule store_keeps_users [OF x(1) ht [unfolded cs_def]])
      show "y \<in> cells h (A @ (b, n, False) # B)" using x(2) cb by (auto simp: cs_def)
      show "y \<noteq> c + 4" if "(c, k, False) \<in> set (A @ B)" for c k using x(2) n1 [OF that] by auto
    qed
    show ?thesis by (intro s uk0) simp_all
  qed
  ultimately show ?thesis by (auto simp: heap_Freelist_def chunk_nx_def chunk_sz_def)
qed

text \<open>On such a list the walk of an allocation never ends, unless the size is exactly the chunk's.\<close>

lemma alloc_scan_ends:
  assumes "alloc_scan m len fp fp2 s sfp1 sfp2 = Some r"
  shows "\<not> (fp = b \<and> chunk_nx m b = b \<and> b \<noteq> 0 \<and> chunk_sz m b \<noteq> len)"
  by (rule alloc_scan.raw_induct [where P = "\<lambda>m len fp fp2 s sfp1 sfp2 r.
      \<not> (fp = b \<and> chunk_nx m b = b \<and> b \<noteq> 0 \<and> chunk_sz m b \<noteq> len)", OF _ assms])
    (auto split: if_splits)

lemma alloc_scan_self_loop:
  assumes "chunk_nx m b = b" "b \<noteq> 0" "chunk_sz m b \<noteq> len"
  shows "alloc_scan m len b fp2 s sfp1 sfp2 = None"
  using assms alloc_scan_ends [of m len b fp2 s sfp1 sfp2] by (cases "alloc_scan m len b fp2 s sfp1 sfp2") auto

section \<open>A new heap\<close>

lemma page_multiple: "take_bit 12 (ucast (PAGE_START x) :: u32) = 0"
proof -
  have m: "(4095 :: u64) = mask 12" by (simp add: mask_eq_exp_minus_1)
  have "PAGE_START x = x AND NOT (mask 12)"
    by (simp add: PAGE_START_def PAGE_MASK_def arch_pagesize_def m)
  then show ?thesis by (auto intro!: bit_word_eqI simp: bit_simps)
qed

lemma page_multiple_ge:
  assumes "take_bit 12 (M :: u32) = 0" "M \<noteq> 0"
  shows "4096 \<le> unat M" "unat M div 4096 * 4096 = unat M"
proof -
  have "unat (take_bit 12 M) = unat M mod 4096"
    by (subst unsigned_take_bit_eq) (simp add: take_bit_eq_mod)
  with assms(1) have m: "unat M mod 4096 = 0" by simp
  then show "unat M div 4096 * 4096 = unat M" by (simp add: mult.commute minus_mod_eq_mult_div [symmetric])
  have "unat M \<noteq> 0" using assms(2) by simp
  with m show "4096 \<le> unat M" by (metis mod_less not_less)
qed

lemma heap_create_inv:
  assumes ok: "heap_create s sz = Inr (h, s')"
    and lo: "lowestPhysicalPage s \<le> highestPhysicalPage s"
    and hi: "unat (highestPhysicalPage s) < 4503599627370496"
  defines "M \<equiv> ucast (PAGE_END (ucast sz)) :: u32"
  shows "heap_inv (ram s') h [(h + 16, M - 20, True)]" "heap_MaxSize (ram s') h = M" "4096 \<le> unat M"
proof -
  let ?t = "MemoryTypeLoaderHeap"
  from ok obtain s1 where a: "memory_allocate s M ?t = Inr (h, s1)" and
    s': "ram s' = store32 (store32 (store32 (store32 (store32 (store32 (store32 (ram s1) h M)
      (h + 4) 0) (h + 8) 0) (h + 12) 0) (h + 16) (M - 20)) (h + 16 + 4) 0) (h + 4) (h + 16)"
    by (auto simp: heap_create_def M_def [symmetric] Let_def rbind_Inr_iff)
  let ?c = "PAGE_START (ucast M) div ucast arch_pagesize :: u64"
  from a obtain first where f: "0 < M" "memory_find_available_pages s ?c = Inr first"
    "h = ucast (first * 4096)" "\<not> 0xFFFFFFFF < (first + ?c) * 4096"
    by (rule memory_allocate_cases)
  have M: "4096 \<le> unat M" "unat M div 4096 * 4096 = unat M"
    using page_multiple_ge [of M] page_multiple f(1) by (auto simp: M_def PAGE_END_def)
  have c: "unat ?c = unat M div 4096" by (rule pages_floor)
  have "0 < ?c" using c M(1) by (metis div_greater_zero_iff unat_eq_0 word_gt_0 zero_less_numeral neq0_conv)
  from find_available_correct [OF this, of s] f(2) obtain j where
    j: "first = lowestPhysicalPage s + of_nat j" "j + unat ?c \<le> page_span s" by auto
  have span: "page_span s = unat (highestPhysicalPage s) - unat (lowestPhysicalPage s)"
    using lo by (simp add: page_span_def unat_sub_le)
  have lo': "unat (lowestPhysicalPage s) \<le> unat (highestPhysicalPage s)" using lo by (simp add: word_le_nat_alt)
  have "unat first = unat (lowestPhysicalPage s) + j"
    using j hi span lo' by (subst j(1), subst unat_add64) (simp_all add: unat_of_nat64)
  then have top: "unat first + unat ?c < 4503599627370496" using j(2) span hi lo' by simp
  have fc: "unat (first + ?c) = unat first + unat ?c" using top by (intro unat_add64) simp
  have mul: "unat (w * 4096 :: u64) = unat w * 4096" if "unat w < 4503599627370496" for w
    using that by (simp add: unat_word_ariths)
  have "(unat first + unat ?c) * 4096 \<le> 4294967295"
    using f(4) mul [of "first + ?c"] fc top by (simp add: word_less_nat_alt not_less)
  then have upto: "unat first * 4096 + unat M \<le> 4294967295" using M(2) c by (simp add: algebra_simps)
  have "unat h = unat (first * 4096) mod 4294967296"
    unfolding f(3) by (simp add: unsigned_ucast_eq take_bit_eq_mod)
  also have "unat (first * 4096) = unat first * 4096" using top by (intro mul) simp
  finally have h: "unat h = unat first * 4096" using upto by simp
  then have fit: "unat h + unat M \<le> 4294967295" using upto by simp
  have m20: "unat (M - 20) = unat M - 20" using M(1) by (subst unat_sub_le) (simp_all add: word_le_nat_alt)
  have h16: "unat (h + 16) = unat h + 16" using fit M(1) by (intro trans [OF unat_add32]) simp_all
  let ?cs = "[(h + 16, M - 20, True)]"
  have til: "tiles (unat h + 16) ?cs (unat h + unat M)" using h16 m20 M(1) by simp
  then have ht: "heap_tiles h ?cs" using fit by (auto simp: heap_tiles_def)
  have cin: "(h + 16, M - 20, True) \<in> set ?cs" by simp
  note cc = cells_chunk [OF cin, of h] and nb = chunk_neq [OF ht cin]
  have ld: "load32 (store32 x u v) w = (if w = u then v else load32 x w)"
    if "u \<in> {h, h + 4, h + 8, h + 12, h + 16, h + 16 + 4}" "w \<in> {h, h + 4, h + 8, h + 12, h + 16, h + 16 + 4}"
    for x u v w
    by (rule load_cell [OF ht]) (use that cc in auto)
  show max: "heap_MaxSize (ram s') h = M" using nb by (simp add: s' ld heap_MaxSize_def)
  have "links (ram s') (h + 4) (frees ?cs) 0" "load32 (ram s') (h + 16) = M - 20"
    using nb by (simp_all add: s' ld)
  then show "heap_inv (ram s') h ?cs" using max til fit by (simp add: heap_inv_def)
  show "4096 \<le> unat M" by (rule M(1))
qed

section \<open>The blocks of the heap\<close>

text \<open>The heap keeps the contract of an allocator for the blocks in use.\<close>

definition blocks :: "chunk list \<Rightarrow> (u32 \<times> nat) set" where
  "blocks cs = {(c + 4, unat k) |c k. (c, k, False) \<in> set cs}"

lemma blocks_take:
  "\<exists>k. (fst (take_chunk A b n B len), k) \<in> blocks (snd (take_chunk A b n B len)) \<and>
    blocks (snd (take_chunk A b n B len)) =
      insert (fst (take_chunk A b n B len), k) (blocks (A @ (b, n, True) # B)) \<and>
    (len \<le> n \<longrightarrow> unat len \<le> k)"
  by (auto simp: take_chunk_def blocks_def word_le_nat_alt)

lemma blocks_sep:
  assumes inv: "heap_inv m h cs" and p: "(p, k) \<in> blocks cs" and q: "(q, j) \<in> blocks cs"
    and neq: "(p, k) \<noteq> (q, j)"
  shows "sep p k q j"
proof -
  note ht = heap_inv_tiles [OF inv]
  from p obtain c n where c: "(c, n, False) \<in> set cs" "p = c + 4" "k = unat n" by (auto simp: blocks_def)
  from q obtain d l where d: "(d, l, False) \<in> set cs" "q = d + 4" "j = unat l" by (auto simp: blocks_def)
  note mc = heap_tiles_mem [OF ht c(1)] and md = heap_tiles_mem [OF ht d(1)]
  from heap_tiles_order [OF ht c(1) d(1)] neq c d
  consider "unat c + 4 + unat n \<le> unat d" | "unat d + 4 + unat l \<le> unat c" by auto
  then show ?thesis
  proof cases
    case 1
    with mc md c d show ?thesis by (intro sep_below) simp_all
  next
    case 2
    with mc md c d show ?thesis by (intro sep_above) simp_all
  qed
qed

lemma take_fresh:
  assumes inv: "heap_inv m' h (snd (take_chunk A b n B len))" and L: "4 \<le> unat len" "len \<le> n"
  shows "(fst (take_chunk A b n B len), k) \<notin> blocks (A @ (b, n, True) # B)"
proof
  let ?cs = "snd (take_chunk A b n B len)"
  note ht = heap_inv_tiles [OF inv]
  assume "(fst (take_chunk A b n B len), k) \<in> blocks (A @ (b, n, True) # B)"
  then obtain c j where c: "(c, j, False) \<in> set (A @ B)" "fst (take_chunk A b n B len) = c + 4"
    by (auto simp: blocks_def)
  show False
  proof (cases "n - len < 8")
    case True
    then have cs: "?cs = A @ (b, n, False) # B" "b = c" using c(2) by (auto simp: take_chunk_def)
    from released_neq [OF ht [unfolded cs(1)] c(1)] cs(2) show False by simp
  next
    case False
    then have cs: "?cs = (A @ [(b, n - len - 4, True)]) @ (b + (n - len), len, False) # B"
      "b + (n - len) = c" using c(2) by (auto simp: take_chunk_def)
    from released_neq [OF ht [unfolded cs(1)], of c j False] c(1) cs(2) show False by auto
  qed
qed

lemma unat_request: "unat len \<le> unat (request len)" "4 \<le> unat (request len)"
  by (auto simp: request_def word_less_nat_alt)

interpretation heap: allocator "\<lambda>m cs. heap_inv m h cs" blocks "\<lambda>m. m" unat "\<lambda>m n. heap_alloc m h n" for h
proof unfold_locales
  show "heap_inv m h c \<Longrightarrow> heap_alloc m h n \<noteq> None" for m c n
    using heap_alloc_correct [of m h c n] by auto
  show "heap_inv m h c \<Longrightarrow> (p, k) \<in> blocks c \<Longrightarrow> (q, j) \<in> blocks c \<Longrightarrow> (p, k) \<noteq> (q, j) \<Longrightarrow> sep p k q j"
    for m c p k q j by (rule blocks_sep)
  fix m m' c n p
  assume inv: "heap_inv m h c" and get: "heap_alloc m h n = Some (Inr (p, m'))"
  from heap_alloc_correct [OF inv, of n] get obtain A b k B where
    t: "c = A @ (b, k, True) # B" "request n \<le> k" "p = fst (take_chunk A b k B (request n))"
      "heap_inv m' h (snd (take_chunk A b k B (request n)))" "users_keep m m' c"
    by auto
  let ?c' = "snd (take_chunk A b k B (request n))"
  from blocks_take [of A b k B "request n"] t(1-3) obtain j where
    j: "blocks ?c' = insert (p, j) (blocks c)" "unat (request n) \<le> j" by auto
  moreover have "(p, j) \<notin> blocks c"
    using take_fresh [OF t(4) unat_request(2) t(2)] t(1,3) by simp
  moreover have "\<forall>(q, i)\<in>blocks c. agree m m' q i"
    using t(5) by (auto simp: users_keep_def blocks_def)
  moreover have "unat n \<le> j" using unat_request(1) j(2) by (rule order_trans)
  ultimately show "\<exists>c' k. heap_inv m' h c' \<and> unat n \<le> k \<and> (p, k) \<notin> blocks c \<and>
      blocks c' = insert (p, k) (blocks c) \<and> (\<forall>(q, j)\<in>blocks c. agree m m' q j)"
    using t(4) by blast
qed

section \<open>The freelist that points to itself\<close>

definition self_loop :: "mem \<Rightarrow> u32 \<Rightarrow> chunk list \<Rightarrow> u32 \<Rightarrow> u32 \<Rightarrow> bool" where
  "self_loop m h cs b n \<longleftrightarrow> heap_tiles h cs \<and> (\<exists>f. (b, n, f) \<in> set cs) \<and> heap_Freelist m h = b \<and>
     chunk_nx m b = b \<and> chunk_sz m b = n"

lemma self_loop_store:
  assumes sl: "self_loop m h cs b n" and xv: "x = h + 8 \<or> x = h + 4 \<and> v = b"
  shows "self_loop (store32 m x v) h cs b n"
proof -
  from sl obtain f where ht: "heap_tiles h cs" and b: "(b, n, f) \<in> set cs"
    by (auto simp: self_loop_def)
  note cb = cells_chunk [OF b, of h] and nb = chunk_neq [OF ht b]
  have ld: "load32 (store32 m x v) w = (if w = x then v else load32 m w)" if "w \<in> {h + 4, b, b + 4}" for w
    by (rule load_cell [OF ht]) (use that xv cb in auto)
  from sl have old: "load32 m (h + 4) = b" "load32 m (b + 4) = b" "load32 m b = n"
    by (simp_all add: self_loop_def heap_Freelist_def chunk_nx_def chunk_sz_def)
  have "load32 (store32 m x v) (h + 4) = b" "load32 (store32 m x v) (b + 4) = b" "load32 (store32 m x v) b = n"
    using xv nb old by (auto simp: ld)
  then show ?thesis
    using ht b by (auto simp: self_loop_def heap_Freelist_def chunk_nx_def chunk_sz_def)
qed

lemma self_loop_neq_0: "self_loop m h cs b n \<Longrightarrow> b \<noteq> 0"
  using chunk_neq(1) unfolding self_loop_def by blast

lemma self_loop_alloc_other:
  assumes sl: "self_loop m h cs b n" and n: "request len \<noteq> n"
  shows "heap_alloc m h len = None"
proof -
  let ?m = "store32 m (h + 8) (load32 m (h + 8) + 1)"
  have sl': "self_loop ?m h cs b n" by (rule self_loop_store [OF sl]) simp
  then have "b \<noteq> 0" by (rule self_loop_neq_0)
  with sl' n have "alloc_scan ?m (request len) (heap_Freelist ?m h) 0 0 0 0 = None"
    by (simp add: self_loop_def alloc_scan_self_loop)
  then show ?thesis by (simp add: heap_alloc_def Let_def request_def)
qed

lemma self_loop_alloc_same:
  assumes sl: "self_loop m h cs b n" and n: "request len = n"
  shows "\<exists>m'. heap_alloc m h len = Some (Inr (b + 4, m')) \<and> self_loop m' h cs b n"
proof -
  let ?m = "store32 m (h + 8) (load32 m (h + 8) + 1)"
  have sl': "self_loop ?m h cs b n" by (rule self_loop_store [OF sl]) simp
  then have b0: "b \<noteq> 0" by (rule self_loop_neq_0)
  have "alloc_scan ?m (request len) b 0 0 0 0 = Some (Inl (b, 0))"
    using sl' b0 n by (subst alloc_scan.simps) (simp add: self_loop_def)
  moreover have "heap_Freelist ?m h = b" "chunk_nx ?m b = b" using sl' by (simp_all add: self_loop_def)
  ultimately have "heap_alloc m h len = Some (Inr (b + 4, store32 ?m (h + 4) b))"
    by (simp add: heap_alloc_def Let_def request_def alloc_take_def set_link_def)
  moreover have "self_loop (store32 ?m (h + 4) b) h cs b n" by (rule self_loop_store [OF sl']) simp
  ultimately show ?thesis by blast
qed


section \<open>Properties\<close>

text \<open>C15. \<open>heap_alloc\<close> always returns on a well-formed heap. It panics only when no free chunk is large
  enough; otherwise it takes a smallest free chunk that fits, whole when the rest would be smaller
  than a freelist entry and split otherwise, keeps the heap well formed, and leaves the bytes of
  every allocated chunk as they were.\<close>

theorem heap_alloc_best_fit:
  assumes "heap_inv m h cs"
  shows "(heap_alloc m h len = Some (Inl PanicHeapFull) \<and> (\<forall>b n. (b, n, True) \<in> set cs \<longrightarrow> n < request len))
    \<or> (\<exists>A b n B m'. cs = A @ (b, n, True) # B \<and> request len \<le> n
        \<and> (\<forall>c k. (c, k, True) \<in> set cs \<longrightarrow> request len \<le> k \<longrightarrow> n \<le> k)
        \<and> heap_alloc m h len = Some (Inr (fst (take_chunk A b n B (request len)), m'))
        \<and> heap_inv m' h (snd (take_chunk A b n B (request len))) \<and> users_keep m m' cs)"
  using assms by (rule heap_alloc_correct)

lemma load32_empty_ram [simp]: "load32 empty_ram a = 0"
  by (simp add: load32_def empty_ram_def)

definition example_heap :: mem where
  "example_heap = store32 (store32 (store32 (store32 empty_ram 0x10000 0x1000) 0x10004 0x10024)
     0x10010 16) 0x10024 0xFD8"

definition example_chunks :: "chunk list" where
  "example_chunks = [(0x10010, 16, False), (0x10024, 0xFD8, True)]"

lemma example_heap_inv: "heap_inv example_heap 0x10000 example_chunks"
  by (simp add: example_chunks_def heap_inv_def heap_MaxSize_def example_heap_def c32.load_store_sep)

theorem heap_alloc_best_fit_witness:
  "(heap_alloc example_heap 0x10000 100 = Some (Inl PanicHeapFull) \<and>
      (\<forall>b n. (b, n, True) \<in> set example_chunks \<longrightarrow> n < request 100))
    \<or> (\<exists>A b n B m'. example_chunks = A @ (b, n, True) # B \<and> request 100 \<le> n
        \<and> (\<forall>c k. (c, k, True) \<in> set example_chunks \<longrightarrow> request 100 \<le> k \<longrightarrow> n \<le> k)
        \<and> heap_alloc example_heap 0x10000 100 = Some (Inr (fst (take_chunk A b n B (request 100)), m'))
        \<and> heap_inv m' 0x10000 (snd (take_chunk A b n B (request 100)))
        \<and> users_keep example_heap m' example_chunks)"
  by (rule heap_alloc_best_fit [OF example_heap_inv])

text \<open>Releasing a chunk while the freelist is empty makes the freelist point to itself: the return
  after the trivial case is missing. From then on an allocation of another size never returns, and
  an allocation of exactly the chunk's size hands out the same block every time.\<close>

lemma heap_free_into_empty_loops:
  assumes inv: "heap_inv m h (A @ (b, n, False) # B)" and none: "frees (A @ B) = []"
  shows "\<exists>m'. heap_free m h (b + 4) = Some (Inr m') \<and> users_keep m m' (A @ B) \<and> heap_Freelist m' h = b \<and> chunk_nx m' b = b
    \<and> (\<forall>len. if request len \<noteq> n then heap_alloc m' h len = None
         else \<exists>m1 m2. heap_alloc m' h len = Some (Inr (b + 4, m1)) \<and>
                heap_alloc m1 h len = Some (Inr (b + 4, m2)))"
proof -
  from heap_free_into_empty [OF assms] obtain m' where m': "heap_free m h (b + 4) = Some (Inr m')"
    "heap_Freelist m' h = b" "chunk_nx m' b = b" "chunk_sz m' b = n" "users_keep m m' (A @ B)" by blast
  then have sl: "self_loop m' h (A @ (b, n, False) # B) b n"
    using none heap_inv_tiles [OF inv] by (auto simp: self_loop_def)
  have "if request len \<noteq> n then heap_alloc m' h len = None
      else \<exists>m1 m2. heap_alloc m' h len = Some (Inr (b + 4, m1)) \<and>
        heap_alloc m1 h len = Some (Inr (b + 4, m2))" for len
  proof (cases "request len = n")
    case True
    from self_loop_alloc_same [OF sl True] obtain m1 where
      m1: "heap_alloc m' h len = Some (Inr (b + 4, m1))" "self_loop m1 h (A @ (b, n, False) # B) b n" by blast
    from self_loop_alloc_same [OF m1(2) True] m1(1) True show ?thesis by auto
  qed (use self_loop_alloc_other [OF sl] in simp)
  with m' show ?thesis by blast
qed

definition full_heap :: mem where
  "full_heap = store32 (store32 empty_ram 0x10000 0x1000) 0x10010 0xFEC"

lemma full_heap_inv: "heap_inv full_heap 0x10000 [(0x10010, 0xFEC, False)]"
  by (simp add: heap_inv_def heap_MaxSize_def full_heap_def c32.load_store_sep)

text \<open>C16. Releasing an allocated chunk returns and leaves the bytes of every chunk that stays allocated as they were.
  While another chunk is free it joins the chunk with the free neighbours it has on either side and keeps the heap
  well formed. When no other chunk is free it does not: the freelist is then the chunk linked to itself, so that an
  allocation of another size never returns, and an allocation of exactly the chunk's size hands out the same block
  every time.\<close>

theorem heap_free_merges:
  assumes "heap_inv m h (A @ (b, n, False) # B)"
  shows "\<exists>m'. heap_free m h (b + 4) = Some (Inr m') \<and> users_keep m m' (A @ B) \<and>
    (if frees (A @ B) \<noteq> [] then heap_inv m' h (free_chunk A b n B)
     else heap_Freelist m' h = b \<and> chunk_nx m' b = b \<and>
       (\<forall>len. if request len \<noteq> n then heap_alloc m' h len = None
         else \<exists>m1 m2. heap_alloc m' h len = Some (Inr (b + 4, m1)) \<and> heap_alloc m1 h len = Some (Inr (b + 4, m2))))"
proof (cases "frees (A @ B) = []")
  case True
  from heap_free_into_empty_loops [OF assms True] show ?thesis using True by auto
next
  case False
  from heap_free_correct [OF assms False] show ?thesis using False by auto
qed

theorem heap_free_merges_witness:
  "(\<exists>m'. heap_free example_heap 0x10000 (0x10010 + 4) = Some (Inr m')
    \<and> heap_inv m' 0x10000 (free_chunk [] 0x10010 16 [(0x10024, 0xFD8, True)])) \<and>
   (\<exists>m' m1. heap_free full_heap 0x10000 (0x10010 + 4) = Some (Inr m') \<and> chunk_nx m' 0x10010 = 0x10010
    \<and> heap_alloc m' 0x10000 100 = None \<and> heap_alloc m' 0x10000 0xFEC = Some (Inr (0x10010 + 4, m1)))"
proof
  show "\<exists>m'. heap_free example_heap 0x10000 (0x10010 + 4) = Some (Inr m')
    \<and> heap_inv m' 0x10000 (free_chunk [] 0x10010 16 [(0x10024, 0xFD8, True)])"
    using heap_free_merges [of example_heap "0x10000" "[]" "0x10010" 16 "[(0x10024, 0xFD8, True)]"] example_heap_inv
    by (auto simp: example_chunks_def)
  from heap_free_merges [of full_heap "0x10000" "[]" "0x10010" "0xFEC" "[]"] full_heap_inv
  obtain m' where m: "heap_free full_heap 0x10000 (0x10010 + 4) = Some (Inr m')" "chunk_nx m' 0x10010 = 0x10010"
    "\<And>len. if request len \<noteq> 0xFEC then heap_alloc m' 0x10000 len = None
         else \<exists>m1 m2. heap_alloc m' 0x10000 len = Some (Inr (0x10010 + 4, m1)) \<and> heap_alloc m1 0x10000 len = Some (Inr (0x10010 + 4, m2))"
    by auto
  from m(1,2) m(3) [of 100] m(3) [of "0xFEC"]
  show "\<exists>m' m1. heap_free full_heap 0x10000 (0x10010 + 4) = Some (Inr m') \<and> chunk_nx m' 0x10010 = 0x10010
    \<and> heap_alloc m' 0x10000 100 = None \<and> heap_alloc m' 0x10000 0xFEC = Some (Inr (0x10010 + 4, m1))"
    by (auto simp: request_def)
qed

text \<open>A block from \<open>heap_alloc\<close> overlaps no block allocated before, and filling it leaves their
  bytes as they were before the call.\<close>

lemma heap_alloc_fresh:
  assumes "heap_inv m h cs" "heap_alloc m h n = Some (Inr (p, m'))" "(q, j) \<in> blocks cs"
    "length bs \<le> unat n"
  shows "sep p (unat n) q j \<and> agree m (store_bytes m' p bs) q j"
  using heap.get_fresh [OF assms(1-3)] heap.fill_keeps [OF assms] by blast

lemma example_alloc: "\<exists>p m'. heap_alloc example_heap 0x10000 100 = Some (Inr (p, m'))"
  using heap_alloc_correct [OF example_heap_inv, of 100] by (auto simp: request_def example_chunks_def)

lemma heap_alloc_fresh_example:
  "\<exists>p m'. heap_alloc example_heap 0x10000 100 = Some (Inr (p, m')) \<and>
    sep p (unat (100 :: u32)) 0x10014 16 \<and> agree example_heap (store_bytes m' p [1, 2, 3]) 0x10014 16"
proof -
  obtain p m' where a: "heap_alloc example_heap 0x10000 100 = Some (Inr (p, m'))"
    using example_alloc by blast
  have "(0x10014, 16) \<in> blocks example_chunks"
    by (auto simp: blocks_def example_chunks_def)
  from heap_alloc_fresh [OF example_heap_inv a this, of "[1, 2, 3]"] a show ?thesis by auto
qed

text \<open>A heap that \<open>heap_create\<close> returns is well formed: its header holds the size rounded up to
  pages and a freelist of one chunk that fills the rest.\<close>

lemma heap_create_well_formed:
  assumes "lowestPhysicalPage s \<le> highestPhysicalPage s"
    "unat (highestPhysicalPage s) < 4503599627370496"
  shows "case heap_create s sz of Inl e \<Rightarrow> e \<noteq> PanicHeapFull
    | Inr (h, s') \<Rightarrow> heap_MaxSize (ram s') h = ucast (PAGE_END (ucast sz))
        \<and> heap_inv (ram s') h [(h + 16, ucast (PAGE_END (ucast sz)) - 20, True)]"
proof (cases "heap_create s sz")
  case (Inl e)
  then have "e \<noteq> PanicHeapFull"
    by (auto simp: heap_create_def Let_def rbind_def memory_allocate_def
        memory_find_available_pages_def memory_mark_pages_def dest: find_loop_fault
        split: sum.splits if_splits prod.splits)
  with Inl show ?thesis by simp
next
  case (Inr r)
  obtain h s' where "r = (h, s')" by (cases r)
  with heap_create_inv [OF Inr [unfolded this] assms] Inr show ?thesis by simp
qed

lemma heap_create_well_formed_example:
  "case heap_create example_mm 5000 of Inl e \<Rightarrow> e \<noteq> PanicHeapFull
    | Inr (h, s') \<Rightarrow> heap_MaxSize (ram s') h = ucast (PAGE_END (ucast (5000 :: u32)))
        \<and> heap_inv (ram s') h [(h + 16, ucast (PAGE_END (ucast (5000 :: u32))) - 20, True)]"
  by (rule heap_create_well_formed) (simp_all add: example_mm_def)

end
