(* ===== verification/Program.thy ===== *)
theory Program
  imports HeapAlloc
begin

text \<open>
  Programs over an explicit state, for the components that call each other: a program may end in a
  fault, may not end at all, or returns a value and the new state. A small calculus of total
  correctness, \<open>runs\<close>, says that a program ends and what holds of its result. The heap of lib.c
  becomes a program over every state that extends the loader's.
\<close>

section \<open>Programs\<close>

type_synonym ('s, 'a) prog = "'s \<Rightarrow> (fault + 'a \<times> 's) option"

definition ret :: "'a \<Rightarrow> ('s, 'a) prog" where
  "ret x s = Some (Inr (x, s))"

definition stop :: "fault \<Rightarrow> ('s, 'a) prog" where
  "stop e s = Some (Inl e)"

definition bnd :: "('s, 'a) prog \<Rightarrow> ('a \<Rightarrow> ('s, 'b) prog) \<Rightarrow> ('s, 'b) prog" where
  "bnd p f s = (case p s of None \<Rightarrow> None | Some (Inl e) \<Rightarrow> Some (Inl e) | Some (Inr (x, s')) \<Rightarrow> f x s')"

definition seq :: "('s, 'a) prog \<Rightarrow> ('s, 'b) prog \<Rightarrow> ('s, 'b) prog" where
  "seq p q = bnd p (\<lambda>_. q)"

text \<open>Reading the state, changing it, and a computation on the memory that may fault or not end.\<close>

definition reads_of :: "('s \<Rightarrow> 'a) \<Rightarrow> ('s, 'a) prog" where
  "reads_of f s = Some (Inr (f s, s))"

definition modify :: "('s \<Rightarrow> 's) \<Rightarrow> ('s, unit) prog" where
  "modify f s = Some (Inr ((), f s))"

definition lift_option :: "('s \<Rightarrow> 'a option) \<Rightarrow> ('s, 'a) prog" where
  "lift_option f s = (case f s of None \<Rightarrow> None | Some x \<Rightarrow> Some (Inr (x, s)))"

definition lift_result :: "fault + 'a \<Rightarrow> ('s, 'a) prog" where
  "lift_result r s = (case r of Inl e \<Rightarrow> Some (Inl e) | Inr x \<Rightarrow> Some (Inr (x, s)))"

text \<open>Access to an object through a pointer that may not point to one.\<close>

definition deref :: "('s \<Rightarrow> u32 \<Rightarrow> 'a option) \<Rightarrow> u32 \<Rightarrow> ('s, 'a) prog" where
  "deref f p s = (case f s p of
       None \<Rightarrow> Some (Inl (if p = 0 then NullPointer else OutOfBounds))
     | Some x \<Rightarrow> Some (Inr (x, s)))"

definition when_do :: "bool \<Rightarrow> ('s, unit) prog \<Rightarrow> ('s, unit) prog" where
  "when_do b p = (if b then p else ret ())"

text \<open>The body for every element of a list, in order: a loop with a fixed number of rounds.\<close>

primrec for_each :: "'a list \<Rightarrow> ('a \<Rightarrow> ('s, unit) prog) \<Rightarrow> ('s, unit) prog" where
  "for_each [] f = ret ()"
| "for_each (x # xs) f = seq (f x) (for_each xs f)"

lemma bnd_simps [simp]:
  "bnd (ret x) f = f x"
  "bnd (stop e) f = stop e"
  "bnd (reads_of g) f s = f (g s) s"
  "bnd (lift_result (Inl e)) f = stop e"
  "bnd (lift_result (Inr x)) f = f x"
  by (auto simp: bnd_def ret_def stop_def reads_of_def lift_result_def)

lemma bnd_modify [simp]: "bnd (modify h) f s = f () (h s)"
  by (simp add: bnd_def modify_def)

lemma seq_simps [simp]:
  "seq (ret x) q = q"
  "seq (stop e) q = stop e"
  "seq (modify h) r s = r (h s)"
  by (simp_all add: seq_def)

lemma bnd_assoc: "bnd (bnd p f) g = bnd p (\<lambda>x. bnd (f x) g)"
  by (auto simp: bnd_def fun_eq_iff split: option.splits sum.splits)

lemma bnd_mono [partial_function_mono]:
  fixes p :: "('r \<Rightarrow> 'o option) \<Rightarrow> ('s, 'a) prog" and f :: "('r \<Rightarrow> 'o option) \<Rightarrow> 'a \<Rightarrow> ('s, 'b) prog"
  assumes "\<And>s. mono_option (\<lambda>g. p g s)" "\<And>x s. mono_option (\<lambda>g. f g x s)"
  shows "mono_option (\<lambda>g. bnd (p g) (f g) s)"
proof (rule monotoneI)
  fix g h :: "'r \<Rightarrow> 'o option"
  assume le: "option.le_fun g h"
  have p: "flat_ord None (p g s) (p h s)" for s
    using assms(1) [of s] le by (auto dest: monotoneD)
  have f: "flat_ord None (f g x s) (f h x s)" for x s
    using assms(2) [of x s] le by (auto dest: monotoneD)
  show "flat_ord None (bnd (p g) (f g) s) (bnd (p h) (f h) s)"
  proof (cases "p g s")
    case None
    then show ?thesis by (simp add: bnd_def flat_ord_def)
  next
    case (Some r)
    with p [of s] have "p h s = Some r" by (simp add: flat_ord_def)
    with Some f show ?thesis by (auto simp: bnd_def flat_ord_def split: sum.splits)
  qed
qed

lemma seq_mono [partial_function_mono]:
  assumes "\<And>s. mono_option (\<lambda>g. p g s)" "\<And>s. mono_option (\<lambda>g. q g s)"
  shows "mono_option (\<lambda>g. seq (p g) (q g) s)"
  unfolding seq_def by (rule bnd_mono) (rule assms)+

section \<open>Total correctness\<close>

text \<open>\<open>runs p s Q\<close>: from \<open>s\<close> the program ends without a fault, in a result that satisfies \<open>Q\<close>.\<close>

definition runs :: "('s, 'a) prog \<Rightarrow> 's \<Rightarrow> ('a \<Rightarrow> 's \<Rightarrow> bool) \<Rightarrow> bool" where
  "runs p s Q \<longleftrightarrow> (\<exists>x s'. p s = Some (Inr (x, s')) \<and> Q x s')"

named_theorems runs_intros \<open>total correctness of the program constructors\<close>

lemma runs_ret [simp]: "runs (ret x) s Q \<longleftrightarrow> Q x s"
  by (simp add: runs_def ret_def)

lemma runs_stop [simp]: "\<not> runs (stop e) s Q"
  by (simp add: runs_def stop_def)

lemma runs_reads [simp]: "runs (reads_of f) s Q \<longleftrightarrow> Q (f s) s"
  by (simp add: runs_def reads_of_def)

lemma runs_modify [simp]: "runs (modify f) s Q \<longleftrightarrow> Q () (f s)"
  by (simp add: runs_def modify_def)

lemma runs_bnd [simp]: "runs (bnd p f) s Q \<longleftrightarrow> runs p s (\<lambda>x s'. runs (f x) s' Q)"
  by (auto simp: runs_def bnd_def split: option.splits sum.splits)

lemma runs_seq [simp]: "runs (seq p q) s Q \<longleftrightarrow> runs p s (\<lambda>_ s'. runs q s' Q)"
  by (simp add: seq_def)

lemma runs_deref [simp]: "runs (deref f p) s Q \<longleftrightarrow> (\<exists>x. f s p = Some x \<and> Q x s)"
  by (auto simp: runs_def deref_def split: option.splits)

lemma runs_when [simp]: "runs (when_do b p) s Q \<longleftrightarrow> (if b then runs p s Q else Q () s)"
  by (simp add: when_do_def)

lemma runs_lift_option [simp]: "runs (lift_option f) s Q \<longleftrightarrow> (\<exists>x. f s = Some x \<and> Q x s)"
  by (auto simp: runs_def lift_option_def split: option.splits)

lemma runs_lift_result [simp]: "runs (lift_result r) s Q \<longleftrightarrow> (\<exists>x. r = Inr x \<and> Q x s)"
  by (auto simp: runs_def lift_result_def split: sum.splits)

lemma runs_weaken [runs_intros]:
  "runs p s P \<Longrightarrow> (\<And>x s'. P x s' \<Longrightarrow> Q x s') \<Longrightarrow> runs p s Q"
  by (auto simp: runs_def)

lemma runs_for_each [runs_intros]:
  assumes "P xs s"
    and "\<And>x xs s. P (x # xs) s \<Longrightarrow> runs (f x) s (\<lambda>_. P xs)"
  shows "runs (for_each xs f) s (\<lambda>_. P [])"
  using assms(1)
proof (induction xs arbitrary: s)
  case Nil
  then show ?case by simp
next
  case (Cons x xs)
  from runs_weaken [OF assms(2) [OF Cons.prems] Cons.IH] show ?case by simp
qed

section \<open>The heap as a program\<close>

definition on_loader ::
    "(loader \<Rightarrow> (fault + 'x \<times> loader) option) \<Rightarrow> ('a loader_scheme, 'x) prog" where
  "on_loader f s = (case f (loader.truncate s) of
       None \<Rightarrow> None
     | Some (Inl e) \<Rightarrow> Some (Inl e)
     | Some (Inr (x, l)) \<Rightarrow> Some (Inr (x, loader.extend l (loader.more s))))"

definition malloc_p :: "u32 \<Rightarrow> ('a loader_scheme, u32) prog" where
  "malloc_p n = on_loader (\<lambda>l. malloc l n)"

definition free_p :: "u32 \<Rightarrow> ('a loader_scheme, unit) prog" where
  "free_p p = on_loader (\<lambda>l. Option.bind (free l p) (\<lambda>r. Some (rbind r (\<lambda>l. Inr ((), l)))))"

definition memset_p :: "u32 \<Rightarrow> u32 \<Rightarrow> u32 \<Rightarrow> ('a loader_scheme, unit) prog" where
  "memset_p d v n = modify (\<lambda>s. s\<lparr>ram := memset (ram s) d v n\<rparr>)"

definition memcpy_p :: "u32 \<Rightarrow> u32 \<Rightarrow> u32 \<Rightarrow> ('a loader_scheme, unit) prog" where
  "memcpy_p d p n = modify (\<lambda>s. s\<lparr>ram := memcpy (ram s) d p n\<rparr>)"

definition store8_p :: "u32 \<Rightarrow> u8 \<Rightarrow> ('a loader_scheme, unit) prog" where
  "store8_p a w = modify (\<lambda>s. s\<lparr>ram := store8 (ram s) a w\<rparr>)"

definition store32_p :: "u32 \<Rightarrow> u32 \<Rightarrow> ('a loader_scheme, unit) prog" where
  "store32_p a w = modify (\<lambda>s. s\<lparr>ram := store32 (ram s) a w\<rparr>)"

end
