(* ===== verification/Firmware.thy ===== *)
theory Firmware
  imports Program
begin

text \<open>
  Calls of the BIOS (bioscall.h) and the memory map the loader builds from them
  (arch/i386/memory.c). What the BIOS does with an interrupt is an input of the model:
  \<open>bios_answer s k n r m\<close> is what the \<open>k\<close>-th call makes of the registers \<open>r\<close> and the memory \<open>m\<close> for
  interrupt \<open>n\<close>; the trampoline \<open>callInt\<close> of realmode.asm stores all of the registers back.
\<close>

section \<open>BIOS calls\<close>

record bios_int_registers =
  eax :: u32
  es :: u16
  ds :: u16
  flags :: u16
  dummy :: u16
  ebx :: u32
  ecx :: u32
  edi :: u32
  esi :: u32
  edx :: u32

definition zero_registers :: bios_int_registers where
  "zero_registers = \<lparr>eax = 0, es = 0, ds = 0, flags = 0, dummy = 0, ebx = 0, ecx = 0, edi = 0, esi = 0, edx = 0\<rparr>"

definition EFLAGS_CARRY :: u16 where
  "EFLAGS_CARRY = 1"

definition EFLAGS_IS_SET :: "u16 \<Rightarrow> u16 \<Rightarrow> bool" where
  "EFLAGS_IS_SET flgs flag \<longleftrightarrow> flgs AND flag \<noteq> 0"

definition BIOSCALLBUFFER :: u32 where "BIOSCALLBUFFER = 0x1000"
definition BIOSCALLBUFFER_SIZE :: u32 where "BIOSCALLBUFFER_SIZE = 6 * 0x1000"
definition BIOSCALLBUF_SEGMENT :: u16 where "BIOSCALLBUF_SEGMENT = 0x100"
definition BIOSCALLBUF_OFFSET :: u32 where "BIOSCALLBUF_OFFSET = 0"
definition GXLDR_RMODE_STACKTOP :: u32 where "GXLDR_RMODE_STACKTOP = 0x8000"
definition GXLDR_RMODE_STACKSIZE :: u32 where "GXLDR_RMODE_STACKSIZE = 0x1000"
definition GXLDR_STACKTOP :: u32 where "GXLDR_STACKTOP = 0x9000"
definition GXLDR_STACKSIZE :: u32 where "GXLDR_STACKSIZE = 0x1000"
definition GXLDR_EXEC_BASE :: u32 where "GXLDR_EXEC_BASE = 0x9000"
definition ARCH_PAGE_SIZE :: u32 where "ARCH_PAGE_SIZE = 0x1000"
definition MAX_MEMORY_MAP_ENTRIES :: u32 where "MAX_MEMORY_MAP_ENTRIES = 32"

text \<open>
  The stack pointer is part of the state for the arrays whose size is only known at run time: they
  are taken from the stack, 16-byte aligned, and given back when the function returns.
\<close>

record bios = loader +
  bios_answer :: "nat \<Rightarrow> u8 \<Rightarrow> bios_int_registers \<Rightarrow> mem \<Rightarrow> bios_int_registers \<times> mem"
  bios_calls :: nat
  stack_pointer :: u32

definition callInt :: "u8 \<Rightarrow> bios_int_registers \<Rightarrow> ('a bios_scheme, bios_int_registers) prog" where
  "callInt intNum registers s =
     (let (r, m) = bios_answer s (bios_calls s) intNum registers (ram s)
      in Some (Inr (r, s\<lparr>ram := m, bios_calls := bios_calls s + 1\<rparr>)))"

definition stack_array :: "u32 \<Rightarrow> (u32 \<Rightarrow> ('a bios_scheme, 'b) prog) \<Rightarrow> ('a bios_scheme, 'b) prog" where
  "stack_array n body s =
     (let a = (stack_pointer s - n) AND NOT 15
      in bnd (body a) (\<lambda>x s'. Some (Inr (x, s'\<lparr>stack_pointer := stack_pointer s\<rparr>)))
           (s\<lparr>stack_pointer := a\<rparr>))"

section \<open>The firmware memory map\<close>

text \<open>\<open>BiosMemoryMap\<close>, 24 bytes: base, length, type, reserved. The local variable is a list of bytes.\<close>

definition bytes32 :: "u8 list \<Rightarrow> nat \<Rightarrow> u32" where
  "bytes32 bs i = ucast (bs ! i) OR push_bit 8 (ucast (bs ! (i + 1)))
     OR push_bit 16 (ucast (bs ! (i + 2))) OR push_bit 24 (ucast (bs ! (i + 3)))"

definition bytes64 :: "u8 list \<Rightarrow> nat \<Rightarrow> u64" where
  "bytes64 bs i = ucast (bytes32 bs i) OR push_bit 32 (ucast (bytes32 bs (i + 4)))"

definition BaseAddress :: "u8 list \<Rightarrow> u64" where "BaseAddress mp = bytes64 mp 0"
definition Length :: "u8 list \<Rightarrow> u64" where "Length mp = bytes64 mp 8"
definition BiosType :: "u8 list \<Rightarrow> u32" where "BiosType mp = bytes32 mp 16"

definition BiosMemoryUsable :: u32 where "BiosMemoryUsable = 1"
definition BiosMemoryBad :: u32 where "BiosMemoryBad = 5"

text \<open>The static entries, as the compiler initialises the array.\<close>

definition initial_entries :: "(MemoryType \<times> u64 \<times> u64) list" where
  "initial_entries =
     [(MemoryTypeLoaderTemporary, 0x0, 0x1),
      (MemoryTypeLoaderTemporary, ucast (BIOSCALLBUFFER div ARCH_PAGE_SIZE), 0x6),
      (MemoryTypeLoaderStack, ucast ((GXLDR_RMODE_STACKTOP - GXLDR_RMODE_STACKSIZE) div ARCH_PAGE_SIZE), 0x1),
      (MemoryTypeLoaderStack, ucast ((GXLDR_STACKTOP - GXLDR_STACKSIZE) div ARCH_PAGE_SIZE), 0x1)]"

primrec store_entries :: "mem \<Rightarrow> u32 \<Rightarrow> (MemoryType \<times> u64 \<times> u64) list \<Rightarrow> mem" where
  "store_entries m it [] = m"
| "store_entries m it (x # xs) =
     (case x of (t, base, count) \<Rightarrow> store_entries (store_map_item m it base count t) (it + 20) xs)"

definition add_entry_p :: "u64 \<Rightarrow> u64 \<Rightarrow> MemoryType \<Rightarrow> ('a bios_scheme, unit) prog" where
  "add_entry_p base sz t s =
     (case memory_add_map_entry (ram s) (FirmwareMemoryMap s) MAX_MEMORY_MAP_ENTRIES base sz t of
        None \<Rightarrow> None | Some (c, m) \<Rightarrow> Some (Inr ((), s\<lparr>ram := m\<rparr>)))"

text \<open>One answer of the BIOS: the entry it makes in the map.\<close>

definition add_bios_entry :: "u8 list \<Rightarrow> ('a bios_scheme, unit) prog" where
  "add_bios_entry mp =
     (let basePage = PAGE_START (BaseAddress mp) div ucast ARCH_PAGE_SIZE;
          sz = PAGE_END (Length mp) div ucast ARCH_PAGE_SIZE
      in if BiosType mp = BiosMemoryUsable then add_entry_p basePage sz MemoryTypeFree
         else add_entry_p basePage sz
           (if BiosType mp = BiosMemoryBad then MemoryTypeBad else MemoryTypeSpecial))"

text \<open>
  \<open>memcpy(&map, \<dots>, regs.ecx)\<close>: the answer says how many bytes it has; more than the variable has
  are written behind it.
\<close>

definition copy_to_map :: "mem \<Rightarrow> u32 \<Rightarrow> u8 list \<Rightarrow> fault + u8 list" where
  "copy_to_map m n mp =
     (if length mp < unat n then Inl OutOfBounds
      else Inr (load_bytes m BIOSCALLBUFFER (unat n) @ drop (unat n) mp))"

partial_function (option) e820_loop :: "bios_int_registers \<Rightarrow> u8 list \<Rightarrow> 'a bios_scheme \<Rightarrow> (fault + unit \<times> 'a bios_scheme) option" where
  "e820_loop regs mp s =
     bnd (callInt 0x15 (regs\<lparr>eax := 0x0000E820, edx := 0x534D4150, ecx := 24,
         es := BIOSCALLBUF_SEGMENT, edi := BIOSCALLBUF_OFFSET\<rparr>)) (\<lambda>regs s.
       if eax regs \<noteq> 0x534D4150 then ret () s
       else bnd (\<lambda>s. lift_result (copy_to_map (ram s) (ecx regs) mp) s) (\<lambda>mp.
         seq (add_bios_entry mp) (\<lambda>s.
           if ebx regs = 0 then ret () s else e820_loop regs mp s)) s) s"

text \<open>\<open>stale\<close> is what the local variable holds when the function is entered.\<close>

definition mem_i386_e820_detect :: "u8 list \<Rightarrow> ('a bios_scheme, unit) prog" where
  "mem_i386_e820_detect stale = e820_loop zero_registers stale"

text \<open>The address of \<open>end\<close>, the end of the image, comes from the linker.\<close>

definition mem_i386_build_memory_map :: "u32 \<Rightarrow> u8 list \<Rightarrow> ('a bios_scheme, unit) prog" where
  "mem_i386_build_memory_map end_address stale =
     seq (modify (\<lambda>s. s\<lparr>ram :=
            (let mp = FirmwareMemoryMap s;
                 m = store_map_item (ram s) (map_item mp 4) (ucast (GXLDR_EXEC_BASE div ARCH_PAGE_SIZE))
                       (ucast (end_address div ARCH_PAGE_SIZE)) MemoryTypeLoaderExecutable
             in memset m (map_item mp 5) 0 ((MAX_MEMORY_MAP_ENTRIES - 5) * 20))\<rparr>))
       (mem_i386_e820_detect stale)"

end
