(* ===== verification/ListHead.thy ===== *)
theory ListHead
  imports Prelude
begin

text \<open>
  The intrusive circular doubly linked list of list.h, which carries the disk devices, the mounts
  and the loaded images. The two fields of \<open>struct list_head\<close> are two maps from the address of a
  node to the address of a node, so every assignment of the source is one update. \<open>ring s h xs\<close>
  says what a list is: the nodes \<open>xs\<close>, in order, between the head \<open>h\<close> and itself, linked in
  both directions. Every operation is proved against it.
\<close>

section \<open>Nodes and operations\<close>

record list_store =
  nxt :: "u32 \<Rightarrow> u32"
  prv :: "u32 \<Rightarrow> u32"

definition set_nxt :: "u32 \<Rightarrow> u32 \<Rightarrow> list_store \<Rightarrow> list_store" where
  "set_nxt p v s = s\<lparr>nxt := (nxt s)(p := v)\<rparr>"

definition set_prv :: "u32 \<Rightarrow> u32 \<Rightarrow> list_store \<Rightarrow> list_store" where
  "set_prv p v s = s\<lparr>prv := (prv s)(p := v)\<rparr>"

lemma store_fields [simp]:
  "nxt (set_nxt p v s) = (nxt s)(p := v)" "prv (set_nxt p v s) = prv s"
  "prv (set_prv p v s) = (prv s)(p := v)" "nxt (set_prv p v s) = nxt s"
  by (simp_all add: set_nxt_def set_prv_def)

definition INIT_LIST_HEAD :: "u32 \<Rightarrow> list_store \<Rightarrow> list_store" where
  "INIT_LIST_HEAD ptr s = set_prv ptr ptr (set_nxt ptr ptr s)"

definition list_add_between :: "u32 \<Rightarrow> u32 \<Rightarrow> u32 \<Rightarrow> list_store \<Rightarrow> list_store" where
  "list_add_between new prev nx s =
     set_nxt prev new (set_prv new prev (set_nxt new nx (set_prv nx new s)))"

definition list_add :: "u32 \<Rightarrow> u32 \<Rightarrow> list_store \<Rightarrow> list_store" where
  "list_add new head s = list_add_between new head (nxt s head) s"

definition list_add_tail :: "u32 \<Rightarrow> u32 \<Rightarrow> list_store \<Rightarrow> list_store" where
  "list_add_tail new head s = list_add_between new (prv s head) head s"

definition list_unlink :: "u32 \<Rightarrow> u32 \<Rightarrow> list_store \<Rightarrow> list_store" where
  "list_unlink prev nx s = set_nxt prev nx (set_prv nx prev s)"

definition list_del :: "u32 \<Rightarrow> list_store \<Rightarrow> list_store" where
  "list_del entry s = set_prv entry 0 (set_nxt entry 0 (list_unlink (prv s entry) (nxt s entry) s))"

definition list_del_init :: "u32 \<Rightarrow> list_store \<Rightarrow> list_store" where
  "list_del_init entry s = INIT_LIST_HEAD entry (list_unlink (prv s entry) (nxt s entry) s)"

definition list_move :: "u32 \<Rightarrow> u32 \<Rightarrow> list_store \<Rightarrow> list_store" where
  "list_move l head s = list_add l head (list_unlink (prv s l) (nxt s l) s)"

definition list_move_tail :: "u32 \<Rightarrow> u32 \<Rightarrow> list_store \<Rightarrow> list_store" where
  "list_move_tail l head s = list_add_tail l head (list_unlink (prv s l) (nxt s l) s)"

definition list_empty :: "u32 \<Rightarrow> list_store \<Rightarrow> bool" where
  "list_empty head s \<longleftrightarrow> nxt s head = head"

definition list_splice_raw :: "u32 \<Rightarrow> u32 \<Rightarrow> list_store \<Rightarrow> list_store" where
  "list_splice_raw l head s =
     (let first = nxt s l; lst = prv s l; at = nxt s head
      in set_prv at lst (set_nxt lst at (set_nxt head first (set_prv first head s))))"

definition list_splice :: "u32 \<Rightarrow> u32 \<Rightarrow> list_store \<Rightarrow> list_store" where
  "list_splice l head s = (if \<not> list_empty l s then list_splice_raw l head s else s)"

definition list_splice_init :: "u32 \<Rightarrow> u32 \<Rightarrow> list_store \<Rightarrow> list_store" where
  "list_splice_init l head s =
     (if \<not> list_empty l s then INIT_LIST_HEAD l (list_splice_raw l head s) else s)"

text \<open>\<open>list_entry\<close>: the structure a node is embedded in, at a fixed offset.\<close>

definition list_entry :: "u32 \<Rightarrow> u32 \<Rightarrow> u32" where
  "list_entry ptr member = ptr - member"

text \<open>
  The traversals, as the list of the nodes they visit. A list that does not lead back to its
  head is walked forever.
\<close>

partial_function (option) walk :: "list_store \<Rightarrow> u32 \<Rightarrow> u32 \<Rightarrow> u32 list option" where
  "walk s pos head =
     (if pos \<noteq> head then Option.bind (walk s (nxt s pos) head) (\<lambda>xs. Some (pos # xs)) else Some [])"

definition list_for_each :: "u32 \<Rightarrow> list_store \<Rightarrow> u32 list option" where
  "list_for_each head s = walk s (nxt s head) head"

partial_function (option) walk_prev :: "list_store \<Rightarrow> u32 \<Rightarrow> u32 \<Rightarrow> u32 list option" where
  "walk_prev s pos head =
     (if pos \<noteq> head then Option.bind (walk_prev s (prv s pos) head) (\<lambda>xs. Some (pos # xs)) else Some [])"

definition list_for_each_prev :: "u32 \<Rightarrow> list_store \<Rightarrow> u32 list option" where
  "list_for_each_prev head s = walk_prev s (prv s head) head"

section \<open>What a list is\<close>

primrec linked :: "list_store \<Rightarrow> u32 \<Rightarrow> u32 list \<Rightarrow> u32 \<Rightarrow> bool" where
  "linked s a [] b \<longleftrightarrow> nxt s a = b \<and> prv s b = a"
| "linked s a (x # xs) b \<longleftrightarrow> nxt s a = x \<and> prv s x = a \<and> linked s x xs b"

definition ring :: "list_store \<Rightarrow> u32 \<Rightarrow> u32 list \<Rightarrow> bool" where
  "ring s head xs \<longleftrightarrow> linked s head xs head \<and> distinct (head # xs)"

lemma linked_append [simp]:
  "linked s a (xs @ y # ys) b \<longleftrightarrow> linked s a xs y \<and> linked s y ys b"
  by (induction xs arbitrary: a) auto

lemma linked_set_nxt [simp]:
  "p \<noteq> a \<Longrightarrow> p \<notin> set xs \<Longrightarrow> linked (set_nxt p v s) a xs b = linked s a xs b"
  by (induction xs arbitrary: a) auto

lemma linked_set_prv [simp]:
  "p \<noteq> b \<Longrightarrow> p \<notin> set xs \<Longrightarrow> linked (set_prv p v s) a xs b = linked s a xs b"
  by (induction xs arbitrary: a) auto

lemma linked_first: "linked s a xs b \<Longrightarrow> nxt s a = hd (xs @ [b])"
  by (cases xs) auto

lemma linked_last: "linked s a xs b \<Longrightarrow> prv s b = last (a # xs)"
  by (induction xs arbitrary: a) auto

text \<open>Splitting a segment at its last node.\<close>

lemma linked_snoc: "linked s a (xs @ [y]) b \<longleftrightarrow> linked s a xs y \<and> nxt s y = b \<and> prv s b = y"
  by simp

text \<open>
  Linking a node in between two neighbours splits their segment in two; unlinking joins the
  segments again.
\<close>

lemma ring_empty: "ring (INIT_LIST_HEAD h s) h []"
  by (simp add: ring_def INIT_LIST_HEAD_def)

lemma ring_add:
  assumes "ring s h xs" "new \<noteq> h" "new \<notin> set xs"
  shows "ring (list_add new h s) h (new # xs)"
  using assms
  by (cases xs) (auto simp: ring_def list_add_def list_add_between_def)

lemma ring_add_tail:
  assumes "ring s h xs" "new \<noteq> h" "new \<notin> set xs"
  shows "ring (list_add_tail new h s) h (xs @ [new])"
  using assms
  by (cases xs rule: rev_cases) (auto simp: ring_def list_add_tail_def list_add_between_def)

lemma ring_unlink:
  assumes "ring s h (xs @ e # ys)"
  shows "ring (list_unlink (prv s e) (nxt s e) s) h (xs @ ys)"
  using assms
  by (cases xs rule: rev_cases; cases ys) (auto simp: ring_def list_unlink_def)

lemma ring_del:
  assumes "ring s h (xs @ e # ys)"
  shows "ring (list_del e s) h (xs @ ys)"
    and "nxt (list_del e s) e = 0" and "prv (list_del e s) e = 0"
proof -
  have "ring (list_unlink (prv s e) (nxt s e) s) h (xs @ ys)"
    using assms by (rule ring_unlink)
  moreover have "e \<noteq> h" "e \<notin> set (xs @ ys)" using assms by (auto simp: ring_def)
  ultimately show "ring (list_del e s) h (xs @ ys)"
    by (simp add: list_del_def ring_def)
qed (simp_all add: list_del_def)

lemma ring_del_init:
  assumes "ring s h (xs @ e # ys)"
  shows "ring (list_del_init e s) h (xs @ ys)" and "ring (list_del_init e s) e []"
proof -
  have "ring (list_unlink (prv s e) (nxt s e) s) h (xs @ ys)"
    using assms by (rule ring_unlink)
  moreover have "e \<noteq> h" "e \<notin> set (xs @ ys)" using assms by (auto simp: ring_def)
  ultimately show "ring (list_del_init e s) h (xs @ ys)"
    by (simp add: list_del_init_def ring_def INIT_LIST_HEAD_def)
qed (simp add: list_del_init_def ring_empty)

lemma ring_move:
  "ring s h (xs @ e # ys) \<Longrightarrow> ring (list_move e h s) h (e # xs @ ys)"
  unfolding list_move_def
  by (rule ring_add [OF ring_unlink]) (auto simp: ring_def)

lemma ring_move_tail:
  "ring s h (xs @ e # ys) \<Longrightarrow> ring (list_move_tail e h s) h (xs @ ys @ [e])"
  unfolding list_move_tail_def append_assoc [symmetric]
  by (rule ring_add_tail [OF ring_unlink]) (auto simp: ring_def)

lemma ring_list_empty: "ring s h xs \<Longrightarrow> list_empty h s \<longleftrightarrow> xs = []"
  by (cases xs) (auto simp: ring_def list_empty_def)

text \<open>Splicing puts the nodes of the second list in front of those of the first.\<close>

lemma ring_splice_raw:
  assumes "ring s l xs" "ring s h ys" "set (l # xs) \<inter> set (h # ys) = {}" "xs \<noteq> []"
  shows "ring (list_splice_raw l h s) h (xs @ ys)"
proof -
  from assms(4) obtain x xs' where xs: "xs = x # xs'" by (cases xs) auto
  show ?thesis
  proof (cases xs' rule: rev_cases)
    case Nil
    with assms xs show ?thesis
      by (cases ys) (auto simp: ring_def list_splice_raw_def Let_def)
  next
    case (snoc zs z)
    with assms xs show ?thesis
      by (cases ys) (auto simp: ring_def list_splice_raw_def Let_def)
  qed
qed

lemma ring_splice:
  assumes "ring s l xs" "ring s h ys" "set (l # xs) \<inter> set (h # ys) = {}"
  shows "ring (list_splice l h s) h (xs @ ys)"
  using assms ring_splice_raw [OF assms] ring_list_empty [OF assms(1)]
  by (cases "xs = []") (auto simp: list_splice_def)

lemma ring_splice_init:
  assumes "ring s l xs" "ring s h ys" "set (l # xs) \<inter> set (h # ys) = {}"
  shows "ring (list_splice_init l h s) h (xs @ ys)" and "ring (list_splice_init l h s) l []"
proof -
  have raw: "ring (INIT_LIST_HEAD l (list_splice_raw l h s)) h (xs @ ys)" if "xs \<noteq> []"
    using ring_splice_raw [OF assms that] assms
    by (auto simp: ring_def INIT_LIST_HEAD_def)
  show "ring (list_splice_init l h s) h (xs @ ys)"
    using assms raw ring_list_empty [OF assms(1)]
    by (cases "xs = []") (auto simp: list_splice_init_def)
  show "ring (list_splice_init l h s) l []"
    using assms ring_list_empty [OF assms(1)] ring_empty
    by (cases "xs = []") (auto simp: list_splice_init_def)
qed

section \<open>Traversals\<close>

lemma walk_linked:
  "linked s a xs h \<Longrightarrow> h \<notin> set xs \<Longrightarrow> walk s (nxt s a) h = Some xs"
proof (induction xs arbitrary: a)
  case Nil
  then show ?case by (subst walk.simps) simp
next
  case (Cons x xs)
  then show ?case by (subst walk.simps) auto
qed

lemma walk_ring: "ring s h xs \<Longrightarrow> list_for_each h s = Some xs"
  by (simp add: ring_def list_for_each_def walk_linked)

lemma walk_prev_linked:
  "linked s h xs b \<Longrightarrow> h \<notin> set xs \<Longrightarrow> walk_prev s (prv s b) h = Some (rev xs)"
proof (induction xs arbitrary: b rule: rev_induct)
  case Nil
  then show ?case by (subst walk_prev.simps) simp
next
  case (snoc x xs)
  then show ?case by (subst walk_prev.simps) auto
qed

lemma walk_prev_ring: "ring s h xs \<Longrightarrow> list_for_each_prev h s = Some (rev xs)"
  by (simp add: ring_def list_for_each_prev_def walk_prev_linked)

section \<open>The contract of a registry\<close>

text \<open>
  The disk devices, the mounts and the loaded images are each kept in such a list, added at its
  head and searched by walking it. What those clients rely on, and the lookups they all use.
\<close>

locale registry =
  fixes holds :: "'s \<Rightarrow> 'a list \<Rightarrow> bool"
    and node :: "'a \<Rightarrow> bool"
    and add remove :: "'a \<Rightarrow> 's \<Rightarrow> 's"
    and visit :: "'s \<Rightarrow> 'a list option"
  assumes holds_add: "holds s xs \<Longrightarrow> node x \<Longrightarrow> x \<notin> set xs \<Longrightarrow> holds (add x s) (x # xs)"
    and holds_remove: "holds s (xs @ x # ys) \<Longrightarrow> holds (remove x s) (xs @ ys)"
    and visit_holds: "holds s xs \<Longrightarrow> visit s = Some xs"
begin

text \<open>Adding the entries of a list one by one leaves them in reverse order.\<close>

lemma holds_add_all:
  "holds s xs \<Longrightarrow> distinct (ys @ xs) \<Longrightarrow> \<forall>y \<in> set ys. node y \<Longrightarrow> holds (fold add ys s) (rev ys @ xs)"
proof (induction ys arbitrary: s xs)
  case Nil
  then show ?case by simp
next
  case (Cons y ys)
  then have "holds (add y s) (y # xs)" by (intro holds_add) auto
  with Cons.prems have "holds (fold add ys (add y s)) (rev ys @ y # xs)"
    by (intro Cons.IH) auto
  then show ?case by simp
qed

lemma visit_add: "holds s xs \<Longrightarrow> node x \<Longrightarrow> x \<notin> set xs \<Longrightarrow> visit (add x s) = Some (x # xs)"
  by (intro visit_holds holds_add)

lemma visit_remove: "holds s (xs @ x # ys) \<Longrightarrow> visit (remove x s) = Some (xs @ ys)"
  by (intro visit_holds holds_remove)

lemma visit_add_remove:
  "holds s xs \<Longrightarrow> node x \<Longrightarrow> x \<notin> set xs \<Longrightarrow> visit (remove x (add x s)) = Some xs"
  using visit_remove [of "add x s" "[]" x xs] holds_add by simp

text \<open>The registry is emptied by removing the first entry until none is left.\<close>

lemma holds_remove_all: "holds s xs \<Longrightarrow> holds (fold remove xs s) []"
proof (induction xs arbitrary: s)
  case Nil
  then show ?case by simp
next
  case (Cons x xs)
  then show ?case using holds_remove [of s "[]" x xs] by simp
qed

end

interpretation lst: registry "\<lambda>s. ring s h" "\<lambda>x. x \<noteq> h" "\<lambda>x. list_add x h" list_del
  "list_for_each h" for h
  by unfold_locales (auto intro: ring_add ring_del walk_ring)

section \<open>Properties\<close>

text \<open>On a well-formed list, adding an entry at the head or at the tail and deleting it again are
  seen by both traversals exactly as the corresponding operations on the sequence of entries.\<close>

lemma list_add_del_traversals:
  assumes "ring s h xs" "new \<noteq> h" "new \<notin> set xs"
  shows "list_for_each h (list_add new h s) = Some (new # xs)
    \<and> list_for_each_prev h (list_add new h s) = Some (rev xs @ [new])
    \<and> list_for_each h (list_add_tail new h s) = Some (xs @ [new])
    \<and> list_for_each_prev h (list_add_tail new h s) = Some (new # rev xs)
    \<and> list_for_each h (list_del new (list_add new h s)) = Some xs
    \<and> list_for_each_prev h (list_del new (list_add_tail new h s)) = Some (rev xs)"
  using ring_add_tail [OF assms] ring_add [OF assms] lst.visit_add [OF assms]
    lst.visit_add_remove [OF assms] ring_del(1) [of "list_add_tail new h s" h xs new "[]"]
  by (simp add: walk_ring walk_prev_ring)

definition one_entry_list :: list_store where
  "one_entry_list = list_add 0x20 0x10 (INIT_LIST_HEAD 0x10 \<lparr>nxt = \<lambda>_. 0, prv = \<lambda>_. 0\<rparr>)"

lemma ring_one_entry: "ring one_entry_list 0x10 [0x20]"
  unfolding one_entry_list_def by (rule ring_add [OF ring_empty]) simp_all

lemma list_add_del_traversals_example:
  "list_for_each 0x10 (list_add 0x30 0x10 one_entry_list) = Some [0x30, 0x20]
    \<and> list_for_each_prev 0x10 (list_add 0x30 0x10 one_entry_list) = Some (rev [0x20] @ [0x30])
    \<and> list_for_each 0x10 (list_add_tail 0x30 0x10 one_entry_list) = Some ([0x20] @ [0x30])
    \<and> list_for_each_prev 0x10 (list_add_tail 0x30 0x10 one_entry_list) = Some (0x30 # rev [0x20])
    \<and> list_for_each 0x10 (list_del 0x30 (list_add 0x30 0x10 one_entry_list)) = Some [0x20]
    \<and> list_for_each_prev 0x10 (list_del 0x30 (list_add_tail 0x30 0x10 one_entry_list)) = Some (rev [0x20])"
  by (rule list_add_del_traversals [OF ring_one_entry]) simp_all

text \<open>Splicing one well-formed list into another puts its entries in front of the other's, in order
  and linked both ways, and re-initialises the emptied head, also when it was empty.\<close>

lemma list_splice_init_moves:
  assumes "ring s l xs" "ring s h ys" "set (l # xs) \<inter> set (h # ys) = {}"
  shows "ring (list_splice_init l h s) h (xs @ ys) \<and> ring (list_splice_init l h s) l []"
  using ring_splice_init [OF assms] by blast

definition two_lists :: list_store where
  "two_lists = list_add 0x21 0x20 (list_add 0x11 0x10 (list_add 0x12 0x10
     (INIT_LIST_HEAD 0x20 (INIT_LIST_HEAD 0x10 \<lparr>nxt = \<lambda>_. 0, prv = \<lambda>_. 0\<rparr>))))"

lemma list_splice_init_moves_example:
  "ring (list_splice_init 0x10 0x20 two_lists) 0x20 ([0x11, 0x12] @ [0x21]) \<and>
    ring (list_splice_init 0x10 0x20 two_lists) 0x10 []"
  by (rule list_splice_init_moves)
    (simp_all add: two_lists_def ring_def list_add_def list_add_between_def INIT_LIST_HEAD_def)

end
