(* ===== verification/Printf.thy ===== *)
theory Printf
  imports CLib Math64
begin

text \<open>
  The formatted output of the loader, print.c. The output buffer and the strings are in the byte
  memory; the variable arguments are the 32-bit words the caller pushed, a 64-bit argument being
  two of them, low word first. A directive that finds no argument left is a fault, and so is the
  shift of \<open>__format_add_bin\<close> by the width of its operand.
\<close>

section \<open>The code\<close>

text \<open>\<open>buffer_t\<close> without the address, which never changes: memory and \<open>sz\<close>.\<close>

definition buf_add :: "u32 \<Rightarrow> u32 \<Rightarrow> u8 \<Rightarrow> mem \<times> u32 \<Rightarrow> mem \<times> u32" where
  "buf_add buffer len c b = (case b of (m, sz) \<Rightarrow>
     if sz < len then (m(buffer + sz := c), sz + 1) else (m, sz))"

partial_function (option) format_add_str :: "u32 \<Rightarrow> u32 \<Rightarrow> u32 \<Rightarrow> mem \<times> u32 \<Rightarrow> (mem \<times> u32) option" where
  "format_add_str buffer len s b =
     (if fst b s \<noteq> 0 then format_add_str buffer len (s + 1) (buf_add buffer len (fst b s) b)
      else Some b)"

definition format_add_chr :: "u32 \<Rightarrow> u32 \<Rightarrow> u32 \<Rightarrow> mem \<times> u32 \<Rightarrow> mem \<times> u32" where
  "format_add_chr buffer len c b = buf_add buffer len (ucast c) b"

text \<open>The mask \<open>1 << (n - i)\<close> is an \<open>int\<close>; it is sign extended for the conjunction.\<close>

function format_add_bin :: "u32 \<Rightarrow> u32 \<Rightarrow> u64 \<Rightarrow> u32 \<Rightarrow> u32 \<Rightarrow> mem \<times> u32 \<Rightarrow> fault + mem \<times> u32" where
  "format_add_bin buffer len v n i b =
     (if i < n then
        if 32 \<le> n - i then Inl UndefinedShift
        else
          (let bit = ucast (v AND scast (push_bit (unat (n - i)) 1 :: u32)) :: u32
           in format_add_bin buffer len v n (i + 1)
                (buf_add buffer len (if bit \<noteq> 0 then 0x31 else 0x30) b))
      else Inr b)"
  by pat_completeness auto
termination by (relation "measure (\<lambda>(buffer, len, v, n, i, b). unat n - unat i)") auto

declare format_add_bin.simps [simp del]

text \<open>
  The digits, least significant first, as the loops put them in \<open>rep\<close>. \<open>value % 10\<close> and
  \<open>value /= 10\<close> are the calls of the 64-bit division.
\<close>

definition quot10 :: "u64 \<Rightarrow> u64" where
  "quot10 v = (case divdi3 v 10 of Inl e \<Rightarrow> 0 | Inr q \<Rightarrow> q)"

definition rem10 :: "u64 \<Rightarrow> u64" where
  "rem10 v = (case moddi3 v 10 of Inl e \<Rightarrow> 0 | Inr r \<Rightarrow> r)"

lemma abs_sdiv: "\<bar>a sdiv (10 :: int)\<bar> = \<bar>a\<bar> div 10"
  by (simp add: signed_divide_int_def abs_mult sgn_if)

lemma sint_range64: "- 9223372036854775808 \<le> sint (v :: u64)" "sint (v :: u64) < 9223372036854775808"
  using unat_bound64 [of v] unfolding sint_u64 by (split if_split, linarith)+

lemma sint_quot10: "sint (quot10 v) = sint v sdiv 10"
proof -
  have ten: "sint (10 :: u64) = 10" by (simp add: sint_u64)
  have q: "quot10 v = of_int (sint v sdiv 10)"
    using divdi3_eq [of "10" v] by (simp add: quot10_def ten)
  have "\<bar>sint v sdiv 10\<bar> \<le> 922337203685477580"
    unfolding abs_sdiv using sint_range64 [of v] by linarith
  then have "signed_take_bit 63 (sint v sdiv 10) = sint v sdiv 10"
    by (intro signed_take_bit_int_eq_self) auto
  then show ?thesis unfolding q by (simp add: signed_of_int)
qed

lemma quot10_less: "v \<noteq> 0 \<Longrightarrow> nat \<bar>sint (quot10 v)\<bar> < nat \<bar>sint v\<bar>"
proof -
  assume "v \<noteq> 0"
  then have "sint v \<noteq> 0" by simp
  then show ?thesis unfolding sint_quot10 abs_sdiv by linarith
qed

function dec_rep :: "u64 \<Rightarrow> u8 list" where
  "dec_rep v = (if v \<noteq> 0 then (ucast (rem10 v) + 0x30) # dec_rep (quot10 v) else [])"
  by pat_completeness auto
termination by (relation "measure (\<lambda>v. nat \<bar>sint v\<bar>)") (auto simp: quot10_less simp del: zless_nat_conj)

declare dec_rep.simps [simp del]

definition hexChars :: "u8 list" where
  "hexChars = [0x30, 0x31, 0x32, 0x33, 0x34, 0x35, 0x36, 0x37, 0x38, 0x39,
     0x41, 0x42, 0x43, 0x44, 0x45, 0x46]"

function hex_rep :: "u64 \<Rightarrow> u8 list" where
  "hex_rep v = (if v \<noteq> 0 then hexChars ! unat (v mod 16) # hex_rep (v div 16) else [])"
  by pat_completeness auto
termination
  by (relation "measure unat") (auto simp: unat_div simp flip: unat_eq_0)

declare hex_rep.simps [simp del]

text \<open>\<open>while (dec.sz--)\<close>: the characters of \<open>rep\<close> from the last to the first.\<close>

definition add_rep :: "u32 \<Rightarrow> u32 \<Rightarrow> u8 list \<Rightarrow> mem \<times> u32 \<Rightarrow> mem \<times> u32" where
  "add_rep buffer len rep b = fold (buf_add buffer len) (rev rep) b"

definition format_add_dec :: "u32 \<Rightarrow> u32 \<Rightarrow> u64 \<Rightarrow> mem \<times> u32 \<Rightarrow> mem \<times> u32" where
  "format_add_dec buffer len v b =
     (let b = (if v = 0 then buf_add buffer len 0x30 b else b);
          (v, b) = (if sint v < 0 then (- v, buf_add buffer len 0x2D b) else (v, b))
      in add_rep buffer len (dec_rep v) b)"

definition format_add_hex :: "u32 \<Rightarrow> u32 \<Rightarrow> u64 \<Rightarrow> mem \<times> u32 \<Rightarrow> mem \<times> u32" where
  "format_add_hex buffer len v b =
     (let b = (if v = 0 then buf_add buffer len 0x30 b else b)
      in add_rep buffer len (hex_rep v) b)"

text \<open>\<open>va_arg\<close> of a 32-bit and of a 64-bit type.\<close>

definition va32 :: "u32 list \<Rightarrow> (fault + u32 \<times> u32 list)" where
  "va32 ps = (case ps of p # ps \<Rightarrow> Inr (p, ps) | [] \<Rightarrow> Inl BadVarArg)"

definition va64 :: "u32 list \<Rightarrow> (fault + u64 \<times> u32 list)" where
  "va64 ps = (case ps of p # q # ps \<Rightarrow> Inr (ucast p OR push_bit 32 (ucast q), ps) | _ \<Rightarrow> Inl BadVarArg)"

text \<open>One directive: the character after a percent sign.\<close>

definition directive :: "u32 \<Rightarrow> u32 \<Rightarrow> u8 \<Rightarrow> u32 list \<Rightarrow> mem \<times> u32 \<Rightarrow>
    (fault + u32 list \<times> mem \<times> u32) option" where
  "directive buffer len c ps b =
     (if c = 0x73 then
        (case va32 ps of Inl e \<Rightarrow> Some (Inl e)
         | Inr (s, ps) \<Rightarrow> Option.bind (format_add_str buffer len s b) (\<lambda>b. Some (Inr (ps, b))))
      else Some
       (if c = 0x63 then rbind (va32 ps) (\<lambda>(v, ps). Inr (ps, format_add_chr buffer len v b))
        else if c = 0x62 then
          rbind (va32 ps) (\<lambda>(v, ps). rbind (format_add_bin buffer len (ucast v) 32 0 b) (\<lambda>b. Inr (ps, b)))
        else if c = 0x42 then
          rbind (va64 ps) (\<lambda>(v, ps). rbind (format_add_bin buffer len v 64 0 b) (\<lambda>b. Inr (ps, b)))
        else if c = 0x64 then rbind (va32 ps) (\<lambda>(v, ps). Inr (ps, format_add_dec buffer len (scast v) b))
        else if c = 0x44 then rbind (va64 ps) (\<lambda>(v, ps). Inr (ps, format_add_dec buffer len v b))
        else if c = 0x78 then rbind (va32 ps) (\<lambda>(v, ps). Inr (ps, format_add_hex buffer len (ucast v) b))
        else if c = 0x58 then rbind (va64 ps) (\<lambda>(v, ps). Inr (ps, format_add_hex buffer len v b))
        else Inr (ps, buf_add buffer len c b)))"

partial_function (option) format_loop :: "u32 \<Rightarrow> u32 \<Rightarrow> u32 \<Rightarrow> bool \<Rightarrow> u32 list \<Rightarrow> mem \<times> u32 \<Rightarrow>
    (fault + mem \<times> u32) option" where
  "format_loop buffer len format interp ps b =
     (let c = fst b format in
      if c = 0 then Some (Inr b)
      else if interp then
        Option.bind (directive buffer len c ps b) (\<lambda>r. case r of
            Inl e \<Rightarrow> Some (Inl e)
          | Inr (ps, b) \<Rightarrow> format_loop buffer len (format + 1) False ps b)
      else if c = 0x25 then format_loop buffer len (format + 1) True ps b
      else format_loop buffer len (format + 1) False ps (buf_add buffer len c b))"

definition vsnprintf :: "mem \<Rightarrow> u32 \<Rightarrow> u32 \<Rightarrow> u32 \<Rightarrow> u32 list \<Rightarrow> (fault + u32 \<times> mem) option" where
  "vsnprintf m buffer len format params =
     (let len = (if len \<noteq> 0 then len - 1 else len)
      in Option.bind (format_loop buffer len format False params (m, 0)) (\<lambda>r.
           Some (rbind r (\<lambda>(m, sz). Inr (sz + 1, m(buffer + sz := 0))))))"

definition snprintf :: "mem \<Rightarrow> u32 \<Rightarrow> u32 \<Rightarrow> u32 \<Rightarrow> u32 list \<Rightarrow> (fault + u32 \<times> mem) option" where
  "snprintf m buff len format params = vsnprintf m buff len format params"

text \<open>
  \<open>vprintf\<close> formats into its own buffer of 1024 bytes and puts the bytes up to the first zero on
  the screen. The buffer is a global: its address is an argument. The result carries the bytes in
  order, for \<open>arch_screen_putchar\<close>.
\<close>

partial_function (option) string_at :: "mem \<Rightarrow> u32 \<Rightarrow> u8 list option" where
  "string_at m ptr =
     (if m ptr \<noteq> 0 then Option.bind (string_at m (ptr + 1)) (\<lambda>cs. Some (m ptr # cs)) else Some [])"

definition vprintf :: "mem \<Rightarrow> u32 \<Rightarrow> u32 \<Rightarrow> u32 list \<Rightarrow> (fault + u32 \<times> u8 list \<times> mem) option" where
  "vprintf m vprint_buffer format params =
     Option.bind (vsnprintf m vprint_buffer 1024 format params) (\<lambda>r. case r of
         Inl e \<Rightarrow> Some (Inl e)
       | Inr (retval, m) \<Rightarrow> Option.bind (string_at m vprint_buffer) (\<lambda>cs. Some (Inr (retval, cs, m))))"

definition printf :: "mem \<Rightarrow> u32 \<Rightarrow> u32 \<Rightarrow> u32 list \<Rightarrow> (fault + u32 \<times> u8 list \<times> mem) option" where
  "printf m vprint_buffer format params = vprintf m vprint_buffer format params"

section \<open>String literals\<close>

text \<open>
  A call with a format that is a string literal: the literal is constant data of the program, so it
  is a list of characters here and no memory is read for it.
\<close>

definition literal :: "string \<Rightarrow> u8 list" where
  "literal cs = map of_char cs"

primrec format_literal :: "u32 \<Rightarrow> u32 \<Rightarrow> u8 list \<Rightarrow> bool \<Rightarrow> u32 list \<Rightarrow> mem \<times> u32 \<Rightarrow>
    (fault + mem \<times> u32) option" where
  "format_literal buffer len [] interp ps b = Some (Inr b)"
| "format_literal buffer len (c # cs) interp ps b =
     (if interp then
        Option.bind (directive buffer len c ps b) (\<lambda>r. case r of
            Inl e \<Rightarrow> Some (Inl e)
          | Inr (ps, b) \<Rightarrow> format_literal buffer len cs False ps b)
      else if c = 0x25 then format_literal buffer len cs True ps b
      else format_literal buffer len cs False ps (buf_add buffer len c b))"

definition snprintf_literal :: "mem \<Rightarrow> u32 \<Rightarrow> u32 \<Rightarrow> u8 list \<Rightarrow> u32 list \<Rightarrow> (fault + u32 \<times> mem) option" where
  "snprintf_literal m buff len cs params =
     (let len = (if len \<noteq> 0 then len - 1 else len)
      in Option.bind (format_literal buff len cs False params (m, 0)) (\<lambda>r.
           Some (rbind r (\<lambda>(m, sz). Inr (sz + 1, m(buff + sz := 0))))))"

section \<open>The output stays in the buffer\<close>

text \<open>
  Output of at most \<open>len\<close> bytes so far, and no byte at a distance of \<open>len\<close> or more from the start of
  the buffer changed since \<open>m0\<close>.
\<close>

definition in_buffer :: "mem \<Rightarrow> u32 \<Rightarrow> u32 \<Rightarrow> mem \<times> u32 \<Rightarrow> bool" where
  "in_buffer m0 buffer len b \<longleftrightarrow> snd b \<le> len \<and> (\<forall>a. len \<le> a - buffer \<longrightarrow> fst b a = m0 a)"

named_theorems buffer_intros \<open>operations that stay in the buffer\<close>

lemma buf_add_in [buffer_intros]: "in_buffer m0 buffer len b \<Longrightarrow> in_buffer m0 buffer len (buf_add buffer len c b)"
  using unat_Suc_less [of "snd b" len]
  by (cases b) (auto simp: in_buffer_def buf_add_def word_le_nat_alt word_less_nat_alt)

lemma format_add_chr_in [buffer_intros]:
  "in_buffer m0 buffer len b \<Longrightarrow> in_buffer m0 buffer len (format_add_chr buffer len c b)"
  by (simp add: format_add_chr_def buf_add_in)

lemma fold_buf_add_in [buffer_intros]:
  "in_buffer m0 buffer len b \<Longrightarrow> in_buffer m0 buffer len (fold (buf_add buffer len) cs b)"
  by (induction cs arbitrary: b) (simp_all add: buf_add_in)

lemma format_add_dec_in [buffer_intros]:
  "in_buffer m0 buffer len b \<Longrightarrow> in_buffer m0 buffer len (format_add_dec buffer len v b)"
  by (auto simp: format_add_dec_def Let_def add_rep_def intro!: buffer_intros)

lemma format_add_hex_in [buffer_intros]:
  "in_buffer m0 buffer len b \<Longrightarrow> in_buffer m0 buffer len (format_add_hex buffer len v b)"
  by (auto simp: format_add_hex_def Let_def add_rep_def intro!: buffer_intros)

lemma format_add_bin_in:
  "format_add_bin buffer len v n i b = Inr b' \<Longrightarrow> in_buffer m0 buffer len b \<Longrightarrow> in_buffer m0 buffer len b'"
proof (induction buffer len v n i b rule: format_add_bin.induct)
  case (1 buffer len v n i b)
  from 1(2,3) show ?case
    by (subst (asm) format_add_bin.simps) (auto simp: Let_def split: if_splits intro!: 1(1) buf_add_in)
qed

lemma format_add_str_in:
  assumes "format_add_str buffer len s b = Some b'"
  shows "in_buffer m0 buffer len b \<longrightarrow> in_buffer m0 buffer len b'"
proof (rule format_add_str.raw_induct [where P = "\<lambda>buffer len s b b'.
    in_buffer m0 buffer len b \<longrightarrow> in_buffer m0 buffer len b'", OF _ assms])
  fix rec buffer len s b b'
  assume IH: "\<And>buffer len s b b'. rec buffer len s b = Some b' \<Longrightarrow>
      in_buffer m0 buffer len b \<longrightarrow> in_buffer m0 buffer len b'"
    and step: "(if fst b s \<noteq> 0 then rec buffer len (s + 1) (buf_add buffer len (fst b s) b) else Some b) = Some b'"
  show "in_buffer m0 buffer len b \<longrightarrow> in_buffer m0 buffer len b'"
  proof (cases "fst b s = 0")
    case False
    with step IH have "in_buffer m0 buffer len (buf_add buffer len (fst b s) b) \<longrightarrow> in_buffer m0 buffer len b'"
      by simp
    then show ?thesis by (blast intro: buf_add_in)
  qed (use step in simp)
qed

lemma directive_in:
  assumes "directive buffer len c ps b = Some (Inr (ps', b'))" "in_buffer m0 buffer len b"
  shows "in_buffer m0 buffer len b'"
  using assms format_add_bin_in [OF _ assms(2)] format_add_str_in [of buffer len _ b _ m0]
  by (auto simp: directive_def rbind_Inr_iff bind_eq_Some_conv split: if_splits sum.splits intro: buffer_intros)

lemma format_loop_in:
  assumes "format_loop buffer len format interp ps b = Some r"
  shows "\<forall>b'. r = Inr b' \<longrightarrow> in_buffer m0 buffer len b \<longrightarrow> in_buffer m0 buffer len b'"
proof (rule format_loop.raw_induct [where P = "\<lambda>buffer len format interp ps b r.
    \<forall>b'. r = Inr b' \<longrightarrow> in_buffer m0 buffer len b \<longrightarrow> in_buffer m0 buffer len b'", OF _ assms])
  fix rec buffer len format interp ps b r
  assume IH: "\<And>buffer len format interp ps b r. rec buffer len format interp ps b = Some r \<Longrightarrow>
      \<forall>b'. r = Inr b' \<longrightarrow> in_buffer m0 buffer len b \<longrightarrow> in_buffer m0 buffer len b'"
    and step: "(let c = fst b format in
      if c = 0 then Some (Inr b)
      else if interp then
        Option.bind (directive buffer len c ps b) (\<lambda>r. case r of
            Inl e \<Rightarrow> Some (Inl e)
          | Inr (ps, b) \<Rightarrow> rec buffer len (format + 1) False ps b)
      else if c = 0x25 then rec buffer len (format + 1) True ps b
      else rec buffer len (format + 1) False ps (buf_add buffer len c b)) = Some r"
  let ?c = "fst b format"
  consider "?c = 0" | "?c \<noteq> 0" "interp" | "?c = 0x25" "\<not> interp" | "?c \<noteq> 0" "?c \<noteq> 0x25" "\<not> interp" by blast
  then show "\<forall>b'. r = Inr b' \<longrightarrow> in_buffer m0 buffer len b \<longrightarrow> in_buffer m0 buffer len b'"
  proof cases
    case 1
    with step have "r = Inr b" by simp
    then show ?thesis by (intro allI impI) simp
  next
    case 2
    with step obtain d where d: "directive buffer len ?c ps b = Some d"
      "(case d of Inl e \<Rightarrow> Some (Inl e) | Inr (ps, b) \<Rightarrow> rec buffer len (format + 1) False ps b) = Some r"
      by (auto simp: Let_def bind_eq_Some_conv)
    show ?thesis
    proof (cases d)
      case (Inr x)
      obtain ps' b' where x: "x = (ps', b')" by (cases x)
      from d(2) have "rec buffer len (format + 1) False ps' b' = Some r" by (simp add: Inr x)
      from IH [OF this] directive_in [OF d(1) [unfolded Inr x]] show ?thesis by blast
    next
      case (Inl e)
      with d(2) have "r = Inl e" by simp
      then show ?thesis by (intro allI impI) simp
    qed
  next
    case 3
    with step have "rec buffer len (format + 1) True ps b = Some r" by simp
    from IH [OF this] show ?thesis .
  next
    case 4
    with step have "rec buffer len (format + 1) False ps (buf_add buffer len ?c b) = Some r"
      by (simp add: Let_def)
    from IH [OF this] show ?thesis by (blast intro: buf_add_in)
  qed
qed

section \<open>What is written\<close>

text \<open>The bytes \<open>cs\<close> have been written, and nothing was cut off.\<close>

definition written :: "u32 \<Rightarrow> u8 list \<Rightarrow> mem \<times> u32 \<Rightarrow> bool" where
  "written buffer cs b \<longleftrightarrow> snd b = of_nat (length cs) \<and> load_bytes (fst b) buffer (length cs) = cs"

lemma written_add:
  assumes "written buffer cs b" "length cs < unat len"
  shows "written buffer (cs @ [c]) (buf_add buffer len c b)"
proof -
  obtain m sz where b: "b = (m, sz)" by (cases b)
  have n: "unat (of_nat (length cs) :: u32) = length cs"
    using assms(2) unat_bound32 [of len] by (intro unat_of_nat32) linarith
  have sz: "sz < len" "sz = of_nat (length cs)"
    using assms n by (simp_all add: b written_def word_less_nat_alt)
  have "load_bytes (m(buffer + sz := c)) buffer (length cs) = load_bytes m buffer (length cs)"
  proof (rule nth_equalityI)
    fix i
    assume "i < length (load_bytes (m(buffer + sz := c)) buffer (length cs))"
    then have i: "i < length cs" by simp
    then have "unat (of_nat i :: u32) = i"
      using assms(2) unat_bound32 [of len] by (intro unat_of_nat32) linarith
    then have "of_nat i \<noteq> sz" using i n sz(2) by auto
    then show "load_bytes (m(buffer + sz := c)) buffer (length cs) ! i = load_bytes m buffer (length cs) ! i"
      using i by simp
  qed simp
  then show ?thesis
    using assms(1) sz load_bytes_append [of "m(buffer + sz := c)" buffer "length cs" 1]
    by (simp add: b written_def buf_add_def load_bytes_Suc)
qed

lemma written_fold:
  "written buffer cs b \<Longrightarrow> length cs + length ds \<le> unat len \<Longrightarrow>
    written buffer (cs @ ds) (fold (buf_add buffer len) ds b)"
proof (induction ds arbitrary: cs b)
  case (Cons d ds)
  then have "written buffer (cs @ [d]) (buf_add buffer len d b)" by (intro written_add) simp_all
  from Cons.IH [OF this] Cons.prems(2) show ?case by simp
qed simp

text \<open>The numerals a number is printed as.\<close>

fun show_nat :: "nat \<Rightarrow> u8 list" where
  "show_nat n = (if n < 10 then [] else show_nat (n div 10)) @ [of_nat (48 + n mod 10)]"

definition show_int :: "int \<Rightarrow> u8 list" where
  "show_int i = (if i < 0 then 0x2D # show_nat (nat (- i)) else show_nat (nat i))"

fun show_hex :: "nat \<Rightarrow> u8 list" where
  "show_hex n = (if n < 16 then [] else show_hex (n div 16)) @ [hexChars ! (n mod 16)]"

declare show_nat.simps [simp del] show_hex.simps [simp del]

lemma sint_eq_unat: "0 \<le> sint (v :: u64) \<Longrightarrow> sint v = int (unat v)"
proof -
  assume "0 \<le> sint v"
  then have "unat v < 9223372036854775808" unfolding sint_nonneg_iff .
  then show ?thesis unfolding sint_u64 by (rule if_P)
qed

lemma dec_rep_show:
  "0 < n \<Longrightarrow> sint v = int n \<Longrightarrow> rev (dec_rep v) = show_nat n"
proof (induction n arbitrary: v rule: less_induct)
  case (less n)
  have v0: "v \<noteq> 0" using less.prems by auto
  have ten: "sint (10 :: u64) = 10" by (simp add: sint_u64)
  have "rem10 v = of_int (int n mod 10)"
    using moddi3_eq [of 10 v] less.prems by (simp add: rem10_def ten)
  also have "int n mod 10 = int (n mod 10)" by (simp add: zmod_int)
  finally have "rem10 v = of_nat (n mod 10)" by simp
  then have "(ucast (rem10 v) :: u8) = of_nat (take_bit 64 (n mod 10))"
    by (simp add: unsigned_of_nat)
  also have "take_bit 64 (n mod 10) = n mod 10" by (rule take_bit_nat_eq_self) simp
  finally have r: "(ucast (rem10 v) + 0x30 :: u8) = of_nat (48 + n mod 10)" by simp
  have q: "sint (quot10 v) = int (n div 10)"
    using less.prems by (simp add: sint_quot10 signed_divide_int_def zdiv_int)
  show ?case
  proof (cases "n < 10")
    case True
    then have "quot10 v = 0" using q by (simp flip: sint_eq_0)
    moreover have "dec_rep 0 = []" by (subst dec_rep.simps) simp
    ultimately show ?thesis using True v0 r by (subst dec_rep.simps, subst show_nat.simps) simp
  next
    case False
    then have "rev (dec_rep (quot10 v)) = show_nat (n div 10)"
      using less.prems q by (intro less.IH) simp_all
    then show ?thesis using False v0 r by (subst dec_rep.simps, subst show_nat.simps) simp
  qed
qed

lemma hex_rep_show: "v \<noteq> 0 \<Longrightarrow> rev (hex_rep v) = show_hex (unat v)"
proof (induction "unat v" arbitrary: v rule: less_induct)
  case less
  have m: "unat (v mod 16) = unat v mod 16" and d: "unat (v div 16) = unat v div 16"
    by (simp_all add: unat_mod unat_div)
  show ?case
  proof (cases "unat v < 16")
    case True
    then have "v div 16 = 0" using d by (simp flip: unat_eq_0)
    moreover have "hex_rep 0 = []" by (subst hex_rep.simps) simp
    ultimately show ?thesis using True less.prems m by (subst hex_rep.simps, subst show_hex.simps) simp
  next
    case False
    then have "v div 16 \<noteq> 0" using d by (auto simp flip: unat_eq_0)
    moreover have "unat (v div 16) < unat v" using d False by simp
    ultimately have "rev (hex_rep (v div 16)) = show_hex (unat v div 16)"
      using less.hyps d by metis
    then show ?thesis using False less.prems m by (subst hex_rep.simps, subst show_hex.simps) simp
  qed
qed

lemma dec_rep_0 [simp]: "dec_rep 0 = []" "hex_rep 0 = []"
  by (subst dec_rep.simps, simp) (subst hex_rep.simps, simp)

lemma show_nat_0: "show_nat 0 = [0x30]" "show_hex 0 = [0x30]"
  by (subst show_nat.simps, simp) (subst show_hex.simps, simp add: hexChars_def)

lemma sint_uminus64:
  assumes "sint (v :: u64) \<noteq> - 9223372036854775808"
  shows "sint (- v) = - sint v"
proof -
  have "- v = of_int (- sint v)" by simp
  then have "sint (- v) = signed_take_bit 63 (- sint v)" by (simp add: signed_of_int del: of_int_minus of_int_sint)
  also have "\<dots> = - sint v"
    using assms sint_range64 [of v] by (intro signed_take_bit_int_eq_self) auto
  finally show ?thesis .
qed


section \<open>Properties\<close>

text \<open>C33. Whatever the format and the arguments, \<open>vsnprintf\<close> writes only the first \<open>len\<close> bytes of the
  buffer, ends what it wrote with a zero byte and returns the number of bytes written with that zero;
  for a length of 0 it still writes one byte.\<close>

theorem vsnprintf_in_buffer:
  assumes ok: "vsnprintf m buffer len format ps = Some (Inr (n, m'))"
  shows "1 \<le> n \<and> n \<le> max len 1 \<and> m' (buffer + (n - 1)) = 0
    \<and> (\<forall>a. max len 1 \<le> a - buffer \<longrightarrow> m' a = m a)"
proof -
  let ?len = "if len \<noteq> 0 then len - 1 else len"
  from ok obtain m1 sz where loop: "format_loop buffer ?len format False ps (m, 0) = Some (Inr (m1, sz))"
    by (auto simp: vsnprintf_def Let_def bind_eq_Some_conv rbind_Inr_iff)
  then have res: "n = sz + 1" "m' = m1(buffer + sz := 0)"
    using ok by (auto simp: vsnprintf_def Let_def)
  have "in_buffer m buffer ?len (m, 0)" by (simp add: in_buffer_def)
  with format_loop_in [OF loop, of m] have ib: "in_buffer m buffer ?len (m1, sz)" by blast
  then have sz: "sz \<le> ?len" by (simp add: in_buffer_def)
  have lt: "sz < max len 1"
  proof (cases "len = 0")
    case False
    then have "1 \<le> len" by (simp add: word_le_nat_alt Suc_le_eq unat_gt_0)
    then have "len - 1 < len" using False by (simp add: word_less_nat_alt unat_sub_le unat_gt_0)
    with sz False \<open>1 \<le> len\<close> show ?thesis by (simp add: max_absorb1)
  qed (use sz in simp)
  have "unat (sz + 1) = Suc (unat sz)" using lt by (rule unat_Suc_less)
  then have "1 \<le> sz + 1" "sz + 1 \<le> max len 1"
    using lt by (simp_all add: word_le_nat_alt word_less_nat_alt)
  moreover have "(m1(buffer + sz := 0)) a = m a" if a: "max len 1 \<le> a - buffer" for a
  proof -
    have "sz < a - buffer" using lt a by (rule less_le_trans)
    then have "a \<noteq> buffer + sz" by auto
    moreover have "?len \<le> a - buffer"
    proof (rule order_trans [OF _ a])
      show "?len \<le> max len 1"
      proof (cases "len = 0")
        case False
        then have "1 \<le> len" by (simp add: word_le_nat_alt Suc_le_eq unat_gt_0)
        then show ?thesis using False by (simp add: max_absorb1) (simp add: word_le_nat_alt unat_sub_le)
      qed simp
    qed
    then have "m1 a = m a" using ib by (simp add: in_buffer_def)
    ultimately show ?thesis by simp
  qed
  ultimately show ?thesis unfolding res by simp
qed

text \<open>A memory with the format \<open>%%x\<close> at 0x100, and nothing else.\<close>

definition percent_x :: mem where
  "percent_x = (\<lambda>a. if a = 0x100 \<or> a = 0x101 then 0x25 else if a = 0x102 then 0x78 else 0)"

lemma percent_x_printed:
  "vsnprintf percent_x 0x500 8 0x100 [] = Some (Inr (3, percent_x(0x500 := 0x25, 0x501 := 0x78, 0x502 := 0)))"
proof -
  have "format_loop 0x500 7 0x100 False [] (percent_x, 0)
      = Some (Inr (percent_x(0x500 := 0x25, 0x501 := 0x78), 2))"
    unfolding percent_x_def
    by (subst format_loop.simps, simp, subst format_loop.simps, simp add: directive_def buf_add_def,
        subst format_loop.simps, simp add: buf_add_def, subst format_loop.simps, simp)
  then show ?thesis by (simp add: vsnprintf_def)
qed

theorem vsnprintf_in_buffer_witness:
  "\<exists>n m'. vsnprintf percent_x 0x500 8 0x100 [] = Some (Inr (n, m'))
    \<and> 1 \<le> n \<and> n \<le> max 8 1 \<and> m' (0x500 + (n - 1)) = 0
    \<and> (\<forall>a. max 8 1 \<le> a - 0x500 \<longrightarrow> m' a = percent_x a)"
  using vsnprintf_in_buffer [OF percent_x_printed] percent_x_printed by blast

text \<open>A 64-bit number is printed as its decimal numeral with a sign, and as its hexadecimal numeral,
  both without leading zeros, when the buffer has room; the least integer is excluded, whose negation
  overflows.\<close>

lemma numbers_printed:
  assumes "sint v \<noteq> - 9223372036854775808" "length (show_int (sint v)) \<le> unat len"
    "length (show_hex (unat v)) \<le> unat len"
  shows "written buffer (show_int (sint v)) (format_add_dec buffer len v (m, 0))
    \<and> written buffer (show_hex (unat v)) (format_add_hex buffer len v (m, 0))"
proof
  have w0: "written buffer [] (m, 0)" by (simp add: written_def)
  show "written buffer (show_hex (unat v)) (format_add_hex buffer len v (m, 0))"
  proof (cases "v = 0")
    case True
    with assms(3) written_add [OF w0, of len "0x30"] show ?thesis
      by (simp add: format_add_hex_def add_rep_def show_nat_0)
  next
    case False
    with assms(3) written_fold [OF w0, of "rev (hex_rep v)" len] show ?thesis
      by (simp add: format_add_hex_def add_rep_def hex_rep_show)
  qed
  show "written buffer (show_int (sint v)) (format_add_dec buffer len v (m, 0))"
  proof (cases rule: linorder_cases [of "sint v" 0])
    case less
    have neg: "sint (- v) = int (nat (- sint v))" using sint_uminus64 [OF assms(1)] less by simp
    have rep: "rev (dec_rep (- v)) = show_nat (nat (- sint v))"
      using less by (intro dec_rep_show neg) simp
    have "written buffer [0x2D] (buf_add buffer len 0x2D (m, 0))"
      using written_add [OF w0, of len "0x2D"] assms(2) less by (simp add: show_int_def)
    from written_fold [OF this, of "rev (dec_rep (- v))" len] assms(2) less show ?thesis
      by (auto simp: format_add_dec_def add_rep_def show_int_def rep)
  next
    case equal
    then have "v = 0" by simp
    with assms(2) written_add [OF w0, of len "0x30"] show ?thesis
      by (simp add: format_add_dec_def add_rep_def show_int_def show_nat_0)
  next
    case greater
    then have rep: "rev (dec_rep v) = show_nat (nat (sint v))" by (intro dec_rep_show) simp_all
    from written_fold [OF w0, of "rev (dec_rep v)" len] assms(2) greater show ?thesis
      by (auto simp: format_add_dec_def add_rep_def show_int_def rep)
  qed
qed

lemma numbers_printed_example:
  "written 0x500 (show_int (sint (305 :: u64))) (format_add_dec 0x500 64 305 (two_names, 0))
    \<and> written 0x500 (show_hex (unat (305 :: u64))) (format_add_hex 0x500 64 305 (two_names, 0))"
  by (rule numbers_printed) (simp_all add: sint_u64 show_int_def show_nat.simps show_hex.simps)

text \<open>The binary directives never print anything: the first round of the loop shifts by 32 or 64,
  the width of the operand or more.\<close>

lemma binary_directives_fault:
  "directive buffer len 0x62 (p # ps) b = Some (Inl UndefinedShift)
    \<and> directive buffer len 0x42 (p # q # ps) b = Some (Inl UndefinedShift)"
  by (subst (1 2) directive_def) (simp add: va32_def va64_def format_add_bin.simps)

lemma format_literal_eq:
  assumes "cstr m0 format cs" "\<forall>i \<le> length cs. len \<le> format + of_nat i - buffer"
    and "in_buffer m0 buffer len b"
  shows "format_loop buffer len format interp ps b = format_literal buffer len cs interp ps b"
  using assms
proof (induction cs arbitrary: format interp ps b)
  case Nil
  then have "fst b format = 0" by (auto simp: in_buffer_def)
  then show ?case by (subst format_loop.simps) simp
next
  case (Cons c cs)
  have c: "fst b format = c" "c \<noteq> 0"
    using Cons.prems by (auto simp: in_buffer_def dest: spec [of _ 0])
  have "\<forall>i \<le> length cs. len \<le> (format + 1) + of_nat i - buffer"
  proof (intro allI impI)
    fix i
    assume "i \<le> length cs"
    then have "len \<le> format + of_nat (Suc i) - buffer" using Cons.prems(2) by (metis Suc_le_mono length_Cons)
    then show "len \<le> (format + 1) + of_nat i - buffer" by (simp add: algebra_simps)
  qed
  note IH = Cons.IH [OF _ this]
  have s: "cstr m0 (format + 1) cs" using Cons.prems(1) by simp
  show ?case
  proof (cases interp)
    case True
    have "format_loop buffer len (format + 1) False ps' b' = format_literal buffer len cs False ps' b'"
      if "directive buffer len c ps b = Some (Inr (ps', b'))" for ps' b'
      by (rule IH [OF s directive_in [OF that Cons.prems(3)]])
    then show ?thesis
      using True c
      by (subst format_loop.simps) (auto simp: Let_def split: sum.splits intro!: Option.bind_cong)
  next
    case False
    then show ?thesis
      using c IH [OF s Cons.prems(3)] IH [OF s buf_add_in [OF Cons.prems(3)]]
      by (subst format_loop.simps) (simp add: Let_def)
  qed
qed

text \<open>Formatting with a string literal, the form in which the loader calls it, gives what the loop
  over the format in memory gives, as long as the format is not in the part of the buffer that is
  written.\<close>

lemma literal_format_equivalent:
  assumes "cstr m format cs" "\<forall>i \<le> length cs. max len 1 \<le> format + of_nat i - buffer"
  shows "vsnprintf m buffer len format ps = snprintf_literal m buffer len cs ps"
proof -
  let ?len = "if len \<noteq> 0 then len - 1 else len"
  have "?len \<le> max len 1"
  proof (cases "len = 0")
    case False
    then have "1 \<le> len" by (simp add: word_le_nat_alt Suc_le_eq unat_gt_0)
    then show ?thesis using False by (simp add: max_absorb1) (simp add: word_le_nat_alt unat_sub_le)
  qed simp
  then have "\<forall>i \<le> length cs. ?len \<le> format + of_nat i - buffer"
    using assms(2) by (meson order_trans)
  from format_literal_eq [OF assms(1) this, of "(m, 0)" False ps] show ?thesis
    by (simp add: vsnprintf_def snprintf_literal_def in_buffer_def Let_def)
qed

lemma literal_format_equivalent_example:
  "vsnprintf percent_x 0x500 8 0x100 [] = snprintf_literal percent_x 0x500 8 [0x25, 0x25, 0x78] []"
proof (rule literal_format_equivalent)
  show "cstr percent_x 0x100 [0x25, 0x25, 0x78]" by (simp add: percent_x_def)
  have "unat (max 8 1 :: u32) \<le> unat (0x100 + of_nat i - 0x500 :: u32)" if "i \<le> 3" for i
  proof -
    have "i \<in> {0, 1, 2, 3}" using that by auto
    then show ?thesis by auto
  qed
  then show "\<forall>i \<le> length [0x25, 0x25, 0x78 :: u8]. max 8 1 \<le> 0x100 + of_nat i - (0x500 :: u32)"
    by (simp add: word_le_nat_alt)
qed
end
