(* ===== verification/Disk.thy ===== *)
theory Disk
  imports Firmware ListHead Printf
begin

text \<open>
  The disk devices (disk.h, disk.c). A \<open>DiskDevice\<close> is allocated on the heap; its address is its
  identity. The scalar fields and the function pointers of the structure are in a record per
  address, the name is an array of characters in the byte memory at the address, and the list node
  is in the list store at the address of the member \<open>Link\<close>. A released device has no record:
  every later use of it is a fault.
\<close>

section \<open>The structures\<close>

record DiskGeometry =
  Heads :: u32
  Cylinders :: u32
  SectorsPerTrack :: u32
  TotalLBASectors :: u64
  BytesPerSector :: u32

datatype DeviceType = DEVICETYPE_FLOPPY | DEVICETYPE_HDD | DEVICETYPE_CDROM | DEVICETYPE_PARTITION

text \<open>The functions the two pointers of a device point to: of biosdisk.c or of mbr_partmap.c.\<close>

datatype disk_driver = NoDriver | BiosDriver | PartitionDriver

record DiskDevice =
  startLBA :: u64
  endLBA :: u64
  device_type :: DeviceType
  diskNumber :: u32
  parentDevice :: u32
  read_sectors :: disk_driver
  get_disk_geometry :: disk_driver

text \<open>The size of the structure, and the offsets of the members that are not in the record.\<close>

definition sizeof_DiskDevice :: u32 where "sizeof_DiskDevice = 76"
definition name_offset :: u32 where "name_offset = 0"
definition sizeof_name :: u32 where "sizeof_name = 32"
definition Link_offset :: u32 where "Link_offset = 68"

text \<open>The structure after \<open>memset\<close>: the first value of the enumeration, null pointers.\<close>

definition zero_device :: DiskDevice where
  "zero_device = \<lparr>startLBA = 0, endLBA = 0, device_type = DEVICETYPE_FLOPPY, diskNumber = 0,
     parentDevice = 0, read_sectors = NoDriver, get_disk_geometry = NoDriver\<rparr>"

record disks = bios +
  list_nodes :: list_store
  DeviceList :: u32
  devices :: "u32 \<Rightarrow> DiskDevice option"

definition device_name :: "u32 \<Rightarrow> u32" where
  "device_name dev = dev + name_offset"

definition device_link :: "u32 \<Rightarrow> u32" where
  "device_link dev = dev + Link_offset"

definition on_links :: "(list_store \<Rightarrow> list_store) \<Rightarrow> ('a disks_scheme, unit) prog" where
  "on_links f = modify (\<lambda>s. s\<lparr>list_nodes := f (list_nodes s)\<rparr>)"

definition set_device :: "u32 \<Rightarrow> DiskDevice \<Rightarrow> ('a disks_scheme, unit) prog" where
  "set_device dev d = modify (\<lambda>s. s\<lparr>devices := (devices s)(dev := Some d)\<rparr>)"

definition get_device :: "u32 \<Rightarrow> ('a disks_scheme, DiskDevice) prog" where
  "get_device = deref devices"

text \<open>\<open>malloc(sizeof(DiskDevice))\<close> and \<open>memset\<close>.\<close>

definition new_device :: "('a disks_scheme, u32) prog" where
  "new_device =
     bnd (malloc_p sizeof_DiskDevice) (\<lambda>dev.
     seq (memset_p dev 0 sizeof_DiskDevice) (
     seq (set_device dev zero_device) (
     ret dev)))"

text \<open>\<open>snprintf\<close> into the name, with a literal format.\<close>

definition print_name :: "u32 \<Rightarrow> string \<Rightarrow> u32 list \<Rightarrow> ('a disks_scheme, unit) prog" where
  "print_name dev format args s =
     (case snprintf_literal (ram s) (device_name dev) sizeof_name (literal format) args of
        None \<Rightarrow> None
      | Some (Inl e) \<Rightarrow> Some (Inl e)
      | Some (Inr (n, m)) \<Rightarrow> Some (Inr ((), s\<lparr>ram := m\<rparr>)))"

section \<open>The list of devices\<close>

definition add_disk_device_callback :: "u32 \<Rightarrow> ('a disks_scheme, unit) prog" where
  "add_disk_device_callback device s = on_links (list_add (device_link device) (DeviceList s)) s"

text \<open>
  \<open>list_for_each_entry_safe\<close>: the node after the current one is read before the current one is
  deleted and released.
\<close>

partial_function (option) destroy_loop :: "u32 \<Rightarrow> u32 \<Rightarrow> 'a disks_scheme \<Rightarrow> (fault + unit \<times> 'a disks_scheme) option" where
  "destroy_loop dev1 dev2 s =
     (if device_link dev1 \<noteq> DeviceList s then
        seq (on_links (list_del (device_link dev1)))
          (seq (free_p dev1)
            (seq (modify (\<lambda>s. s\<lparr>devices := (devices s)(dev1 := None)\<rparr>))
              (\<lambda>s. destroy_loop dev2 (list_entry (nxt (list_nodes s) (device_link dev2)) Link_offset) s))) s
      else ret () s)"

definition disk_destroy :: "('a disks_scheme, unit) prog" where
  "disk_destroy s =
     (let dev1 = list_entry (nxt (list_nodes s) (DeviceList s)) Link_offset;
          dev2 = list_entry (nxt (list_nodes s) (device_link dev1)) Link_offset
      in destroy_loop dev1 dev2 s)"

partial_function (option) find_device_loop :: "u32 \<Rightarrow> u32 \<Rightarrow> 'a disks_scheme \<Rightarrow> (fault + u32 \<times> 'a disks_scheme) option" where
  "find_device_loop nm dev s =
     (if device_link dev \<noteq> DeviceList s then
        bnd (lift_option (\<lambda>s. strcmp (ram s) nm (device_name dev))) (\<lambda>c s.
          if c = 0 then ret dev s
          else find_device_loop nm (list_entry (nxt (list_nodes s) (device_link dev)) Link_offset) s) s
      else ret 0 s)"

definition disk_getDeviceByName :: "u32 \<Rightarrow> ('a disks_scheme, u32) prog" where
  "disk_getDeviceByName nm s =
     find_device_loop nm (list_entry (nxt (list_nodes s) (DeviceList s)) Link_offset) s"

end
