(* ===== verification/BiosDisk.thy ===== *)
theory BiosDisk
  imports Disk
begin

text \<open>
  Disk access through the BIOS (arch/i386/biosdisk.c): interrupt 13h in its linear form, with the
  packet and the drive parameters in the call buffer at 0x1000, and in its cylinder, head and sector
  form.
\<close>

section \<open>Single calls\<close>

definition carry :: "bios_int_registers \<Rightarrow> bool" where
  "carry regs \<longleftrightarrow> EFLAGS_IS_SET (flags regs) EFLAGS_CARRY"

definition biosdisk_i386_reset_controller :: "u8 \<Rightarrow> ('a disks_scheme, bool) prog" where
  "biosdisk_i386_reset_controller driveNumber =
     bnd (callInt 0x13 (zero_registers\<lparr>eax := 0x0000, edx := ucast driveNumber\<rparr>)) (\<lambda>regs.
     ret (\<not> carry regs))"

definition biosdisk_i386_extendedmode_supported :: "u8 \<Rightarrow> ('a disks_scheme, bool) prog" where
  "biosdisk_i386_extendedmode_supported driveNumber =
     bnd (callInt 0x13 (zero_registers\<lparr>eax := 0x4100, ebx := 0x55AA, edx := ucast driveNumber\<rparr>)) (\<lambda>regs.
     ret (\<not> carry regs))"

text \<open>\<open>DiskType\<close>; the error value is \<open>-1\<close>.\<close>

definition DISKTYPE_FLOPPY :: u32 where "DISKTYPE_FLOPPY = 1"
definition DISKTYPE_FLOPPY_CHANGEDETECT :: u32 where "DISKTYPE_FLOPPY_CHANGEDETECT = 2"
definition DISKTYPE_FIXED :: u32 where "DISKTYPE_FIXED = 3"
definition DISKTYPE_DETECTION_ERROR :: u32 where "DISKTYPE_DETECTION_ERROR = - 1"

definition biosdisk_i386_get_disk_type :: "u8 \<Rightarrow> ('a disks_scheme, u32) prog" where
  "biosdisk_i386_get_disk_type driveNumber =
     bnd (callInt 0x13 (zero_registers\<lparr>eax := 0x1500, edx := ucast driveNumber\<rparr>)) (\<lambda>regs.
     ret (if carry regs then DISKTYPE_DETECTION_ERROR else drop_bit 8 (eax regs) AND 0xFF))"

section \<open>Geometry\<close>

text \<open>
  \<open>ExtendedDiskParameters\<close>, 30 bytes: size, flags, cylinders, heads, sectors, total sectors, bytes
  per sector. The caller's structure is the list of its bytes; \<open>None\<close> is the result \<open>false\<close>. Its
  address is that of a local variable in the only call, so the check for a null pointer succeeds.
\<close>

definition sizeof_ExtendedDiskParameters :: u32 where
  "sizeof_ExtendedDiskParameters = 30"

definition biosdisk_i386_get_extended_drive_parameters :: "u8 \<Rightarrow> ('a disks_scheme, u8 list option) prog" where
  "biosdisk_i386_get_extended_drive_parameters driveNumber =
     bnd (biosdisk_i386_extendedmode_supported driveNumber) (\<lambda>supported.
     if \<not> supported then ret None
     else
       seq (memset_p BIOSCALLBUFFER 0 sizeof_ExtendedDiskParameters) (
       seq (modify (\<lambda>s. s\<lparr>ram := store16 (ram s) BIOSCALLBUFFER (ucast sizeof_ExtendedDiskParameters)\<rparr>)) (
       bnd (callInt 0x13 (zero_registers\<lparr>eax := 0x4800, edx := ucast driveNumber,
              ds := BIOSCALLBUF_SEGMENT, esi := BIOSCALLBUF_OFFSET\<rparr>)) (\<lambda>regs.
       if carry regs then ret None
       else reads_of (\<lambda>s. Some (load_bytes (ram s) BIOSCALLBUFFER (unat sizeof_ExtendedDiskParameters)))))))"

definition bytes16 :: "u8 list \<Rightarrow> nat \<Rightarrow> u16" where
  "bytes16 bs i = ucast (bs ! i) OR push_bit 8 (ucast (bs ! (i + 1)))"

definition extended_geometry :: "u8 list \<Rightarrow> DiskGeometry" where
  "extended_geometry p = \<lparr>Heads = bytes32 p 8, Cylinders = bytes32 p 4, SectorsPerTrack = bytes32 p 12,
     TotalLBASectors = bytes64 p 16, BytesPerSector = ucast (bytes16 p 24)\<rparr>"

text \<open>The number of cylinders is computed in an 8-bit variable.\<close>

definition chs_cylinders :: "u32 \<Rightarrow> u8" where
  "chs_cylinders ecx_value =
     (let c = ucast (push_bit 2 ((ecx_value AND 0xFF) AND 0xC0)) :: u8;
          c = c + ucast (drop_bit 8 (ecx_value AND 0xFF00))
      in c + 1)"

definition chs_geometry :: "bios_int_registers \<Rightarrow> DiskGeometry" where
  "chs_geometry regs =
     (let cylinders = ucast (chs_cylinders (ecx regs));
          heads = drop_bit 8 (ebx regs AND 0xFF00) + 1;
          sectors = (ecx regs AND 0xFF) AND 0x3F
      in \<lparr>Heads = heads, Cylinders = cylinders, SectorsPerTrack = sectors,
          TotalLBASectors = ucast (cylinders * heads * sectors), BytesPerSector = 512\<rparr>)"

text \<open>The result is the filled structure, or \<open>None\<close> for \<open>false\<close>.\<close>

definition biosdisk_i386_get_disk_geometry :: "u8 \<Rightarrow> ('a disks_scheme, DiskGeometry option) prog" where
  "biosdisk_i386_get_disk_geometry driveNumber =
     bnd (biosdisk_i386_get_extended_drive_parameters driveNumber) (\<lambda>extParams.
     case extParams of
       Some p \<Rightarrow> ret (Some (extended_geometry p))
     | None \<Rightarrow>
         bnd (callInt 0x13 (zero_registers\<lparr>eax := 0x0800, edx := ucast driveNumber\<rparr>)) (\<lambda>regs.
         ret (if carry regs then None else Some (chs_geometry regs))))"

section \<open>Reading\<close>

text \<open>\<open>INT13_LBA_Packet\<close>, 16 bytes: size, reserved, sectors, offset, segment, first sector in two words.\<close>

definition store_lba_packet :: "mem \<Rightarrow> u64 \<Rightarrow> u32 \<Rightarrow> u32 \<Rightarrow> mem" where
  "store_lba_packet m startSector sectorCount buffer =
     (let p = BIOSCALLBUFFER;
          m = memset m p 0 16;
          m = store8 m p 16;
          m = store16 m (p + 2) (ucast sectorCount);
          m = store32 m (p + 8) (ucast (startSector AND 0xFFFFFFFF));
          m = store32 m (p + 12) (ucast (drop_bit 32 startSector AND 0xFFFFFFFF));
          m = store16 m (p + 6) (ucast (drop_bit 4 buffer))
      in store16 m (p + 4) (ucast (buffer AND 0x0F)))"

text \<open>The tries left, of three.\<close>

primrec lba_tries :: "nat \<Rightarrow> u8 \<Rightarrow> u64 \<Rightarrow> u32 \<Rightarrow> u32 \<Rightarrow> ('a disks_scheme, bool) prog" where
  "lba_tries 0 driveNumber startSector sectorCount buffer = ret False"
| "lba_tries (Suc i) driveNumber startSector sectorCount buffer =
     seq (modify (\<lambda>s. s\<lparr>ram := store_lba_packet (ram s) startSector sectorCount buffer\<rparr>)) (
     bnd (callInt 0x13 (zero_registers\<lparr>eax := 0x4200, edx := ucast driveNumber,
            ds := BIOSCALLBUF_SEGMENT, esi := BIOSCALLBUF_OFFSET\<rparr>)) (\<lambda>regs.
     if \<not> carry regs then ret True
     else seq (biosdisk_i386_reset_controller driveNumber)
       (lba_tries i driveNumber startSector sectorCount buffer)))"

definition biosdisk_i386_read_lba :: "u8 \<Rightarrow> u64 \<Rightarrow> u32 \<Rightarrow> u32 \<Rightarrow> ('a disks_scheme, bool) prog" where
  "biosdisk_i386_read_lba = lba_tries 3"

text \<open>One round of the cylinder, head and sector loop: where it starts and how many sectors it reads.\<close>

definition chs_sector :: "DiskGeometry \<Rightarrow> u32 \<Rightarrow> u8" where
  "chs_sector g start = 1 + ucast (start mod SectorsPerTrack g)"

definition chs_head :: "DiskGeometry \<Rightarrow> u32 \<Rightarrow> u8" where
  "chs_head g start = ucast ((start div SectorsPerTrack g) mod Heads g)"

definition chs_track :: "DiskGeometry \<Rightarrow> u32 \<Rightarrow> u32" where
  "chs_track g start = (start div SectorsPerTrack g) div Heads g"

definition chs_count :: "DiskGeometry \<Rightarrow> u32 \<Rightarrow> u32 \<Rightarrow> u8" where
  "chs_count g start sectorCount =
     (let left = SectorsPerTrack g - (ucast (chs_sector g start) - 1)
      in if 1 < chs_sector g start
         then if left \<le> sectorCount then ucast left else ucast sectorCount
         else if SectorsPerTrack g \<le> sectorCount then ucast (SectorsPerTrack g) else ucast sectorCount)"

definition chs_in_bounds :: "DiskGeometry \<Rightarrow> u32 \<Rightarrow> u8 \<Rightarrow> bool" where
  "chs_in_bounds g start n \<longleftrightarrow>
     \<not> (Heads g \<le> ucast (chs_head g start) \<or> Cylinders g \<le> chs_track g start
       \<or> SectorsPerTrack g + 1 < ucast n + ucast (chs_sector g start)
       \<or> SectorsPerTrack g < ucast (chs_sector g start))"

definition chs_registers :: "DiskGeometry \<Rightarrow> u8 \<Rightarrow> u32 \<Rightarrow> u8 \<Rightarrow> u32 \<Rightarrow> bios_int_registers" where
  "chs_registers g driveNumber start n buffer =
     (let track = chs_track g start
      in zero_registers\<lparr>
           eax := push_bit 8 0x02 OR ucast n,
           ecx := push_bit 8 (track AND 0xFF)
             OR ucast (ucast (ucast (chs_sector g start) + drop_bit 2 (track AND 0x300)) :: u8),
           edx := push_bit 8 (ucast (chs_head g start)) OR ucast driveNumber,
           es := ucast (drop_bit 4 buffer),
           ebx := buffer AND 0x0F\<rparr>)"

primrec chs_tries :: "nat \<Rightarrow> u8 \<Rightarrow> bios_int_registers \<Rightarrow> ('a disks_scheme, bool) prog" where
  "chs_tries 0 driveNumber regs = ret False"
| "chs_tries (Suc i) driveNumber regs =
     bnd (callInt 0x13 regs) (\<lambda>r.
     if \<not> carry r then ret True
     else seq (biosdisk_i386_reset_controller driveNumber) (chs_tries i driveNumber regs))"

partial_function (option) chs_loop ::
    "u8 \<Rightarrow> DiskGeometry \<Rightarrow> u32 \<Rightarrow> u32 \<Rightarrow> u32 \<Rightarrow> 'a disks_scheme \<Rightarrow> (fault + bool \<times> 'a disks_scheme) option" where
  "chs_loop driveNumber g start sectorCount buffer s =
     (if sectorCount = 0 then ret True s
      else if SectorsPerTrack g = 0 \<or> Heads g = 0 then stop DivideError s
      else
        (let n = chs_count g start sectorCount
         in if \<not> chs_in_bounds g start n then ret False s
            else bnd (chs_tries 3 driveNumber (chs_registers g driveNumber start n buffer)) (\<lambda>done s.
              if \<not> done then ret False s
              else chs_loop driveNumber g (start + ucast n) (sectorCount - ucast n)
                (buffer + ucast n * BytesPerSector g) s) s))"

definition biosdisk_i386_read_chs :: "u8 \<Rightarrow> u64 \<Rightarrow> u32 \<Rightarrow> u32 \<Rightarrow> ('a disks_scheme, bool) prog" where
  "biosdisk_i386_read_chs driveNumber startSector sectorCount buffer =
     bnd (biosdisk_i386_get_disk_geometry driveNumber) (\<lambda>g.
     case g of None \<Rightarrow> ret False
     | Some g \<Rightarrow> chs_loop driveNumber g (ucast (startSector AND 0xFFFFFFFF)) sectorCount buffer)"

definition read_either :: "u8 \<Rightarrow> u64 \<Rightarrow> u32 \<Rightarrow> u32 \<Rightarrow> ('a disks_scheme, bool) prog" where
  "read_either driveNumber startSector sectorCount buffer =
     bnd (biosdisk_i386_extendedmode_supported driveNumber) (\<lambda>supported.
     if supported then biosdisk_i386_read_lba driveNumber startSector sectorCount buffer
     else biosdisk_i386_read_chs driveNumber startSector sectorCount buffer)"

definition biosdisk_i386_read_sectors :: "u8 \<Rightarrow> u64 \<Rightarrow> u32 \<Rightarrow> u32 \<Rightarrow> ('a disks_scheme, bool) prog" where
  "biosdisk_i386_read_sectors driveNumber startSector sectorCount buffer =
     (if 0x100000 < buffer then
        bnd (biosdisk_i386_get_disk_geometry driveNumber) (\<lambda>geometry.
        case geometry of None \<Rightarrow> ret False
        | Some g \<Rightarrow>
            if BIOSCALLBUFFER_SIZE < sectorCount * BytesPerSector g then stop PanicDiskRead
            else
              bnd (read_either driveNumber startSector sectorCount BIOSCALLBUFFER) (\<lambda>result.
              seq (memcpy_p buffer BIOSCALLBUFFER (sectorCount * BytesPerSector g)) (
              ret result)))
      else read_either driveNumber startSector sectorCount buffer)"

section \<open>The driver functions\<close>

text \<open>\<open>uint8_t driveNumber = diskNumber\<close>, from an \<open>int\<close>.\<close>

definition drive_of :: "DiskDevice \<Rightarrow> u8" where
  "drive_of d = ucast (if device_type d = DEVICETYPE_HDD then diskNumber d + 0x80 else diskNumber d)"

definition disk_interface_read_sectors :: "u32 \<Rightarrow> u64 \<Rightarrow> u32 \<Rightarrow> u32 \<Rightarrow> ('a disks_scheme, bool) prog" where
  "disk_interface_read_sectors device startSector sectorCount buffer =
     bnd (get_device device) (\<lambda>d. biosdisk_i386_read_sectors (drive_of d) startSector sectorCount buffer)"

definition disk_interface_get_disk_geometry :: "u32 \<Rightarrow> ('a disks_scheme, DiskGeometry option) prog" where
  "disk_interface_get_disk_geometry device =
     bnd (get_device device) (\<lambda>d. biosdisk_i386_get_disk_geometry (drive_of d))"

end
