(* ===== verification/Partitions.thy ===== *)
theory Partitions
  imports BiosDisk
begin

text \<open>
  Partitions of a disk with a master boot record (arch/i386/mbr_partmap.c), the dispatch through the
  function pointers of a device, and the detection of all devices (\<open>biosdisk_i386_initialize\<close>,
  \<open>disk_init\<close>).
\<close>

section \<open>Calls through the function pointers\<close>

text \<open>
  A partition reads through its parent device, whose driver may be a partition again: the recursion
  follows the chain of parents. \<open>mbr_read_sectors\<close> and \<open>mbr_get_disk_geometry\<close> are the cases of the
  partition driver.
\<close>

partial_function (option) device_read_sectors ::
    "u32 \<Rightarrow> u64 \<Rightarrow> u32 \<Rightarrow> u32 \<Rightarrow> 'a disks_scheme \<Rightarrow> (fault + bool \<times> 'a disks_scheme) option" where
  "device_read_sectors device startSector sectorCount buffer s =
     bnd (get_device device) (\<lambda>d s.
       if read_sectors d = NoDriver then stop NullPointer s
       else if read_sectors d = BiosDriver
         then disk_interface_read_sectors device startSector sectorCount buffer s
       else if device_type d \<noteq> DEVICETYPE_PARTITION then ret False s
       else if parentDevice d = 0 then ret False s
       else device_read_sectors (parentDevice d) (startSector + startLBA d) sectorCount buffer s) s"

partial_function (option) device_get_disk_geometry ::
    "u32 \<Rightarrow> 'a disks_scheme \<Rightarrow> (fault + DiskGeometry option \<times> 'a disks_scheme) option" where
  "device_get_disk_geometry device s =
     bnd (get_device device) (\<lambda>d s.
       if get_disk_geometry d = NoDriver then stop NullPointer s
       else if get_disk_geometry d = BiosDriver then disk_interface_get_disk_geometry device s
       else device_get_disk_geometry (parentDevice d) s) s"

section \<open>The master boot record\<close>

definition MBR_SIGNATURE :: u16 where "MBR_SIGNATURE = 0xAA55"
definition MAX_MBR_PARTITIONS :: nat where "MAX_MBR_PARTITIONS = 4"
definition PMBR_GPT_PARTITION :: u8 where "PMBR_GPT_PARTITION = 0xEE"

text \<open>\<open>MBR\<close>, 512 bytes: the four entries of 16 bytes at 446, the signature at 510.\<close>

definition Partition :: "u32 \<Rightarrow> nat \<Rightarrow> u32" where
  "Partition mbr i = mbr + 446 + 16 * of_nat i"

definition OSIndicator :: "mem \<Rightarrow> u32 \<Rightarrow> u8" where
  "OSIndicator m p = m (p + 4)"

definition StartingLBA :: "mem \<Rightarrow> u32 \<Rightarrow> u32" where
  "StartingLBA m p = load32 m (p + 8)"

definition SizeInLBA :: "mem \<Rightarrow> u32 \<Rightarrow> u32" where
  "SizeInLBA m p = load32 m (p + 12)"

definition Signature :: "mem \<Rightarrow> u32 \<Rightarrow> u16" where
  "Signature m mbr = load16 m (mbr + 510)"

definition entry_used :: "mem \<Rightarrow> u32 \<Rightarrow> nat \<Rightarrow> bool" where
  "entry_used m mbr i \<longleftrightarrow>
     \<not> (OSIndicator m (Partition mbr i) = 0 \<or> SizeInLBA m (Partition mbr i) = 0)"

text \<open>The end of entry \<open>j\<close> is computed one sector too far: it is compared like the last sector.\<close>

definition entries_overlap :: "mem \<Rightarrow> u32 \<Rightarrow> u32 \<Rightarrow> u32 \<Rightarrow> nat \<Rightarrow> bool" where
  "entries_overlap m mbr first final j \<longleftrightarrow>
     (let newEnd = StartingLBA m (Partition mbr j) + SizeInLBA m (Partition mbr j)
      in entry_used m mbr j \<and> first \<le> newEnd \<and> StartingLBA m (Partition mbr j) \<le> final)"

text \<open>The outer loop over the entries from \<open>i\<close> on; the inner loop is the search for an overlap.\<close>

function valid_loop :: "mem \<Rightarrow> u32 \<Rightarrow> u64 \<Rightarrow> nat \<Rightarrow> bool \<Rightarrow> bool" where
  "valid_loop m mbr totalSectors i valid =
     (if i < MAX_MBR_PARTITIONS then
        if \<not> entry_used m mbr i then valid_loop m mbr totalSectors (i + 1) valid
        else
          (let first = StartingLBA m (Partition mbr i);
               final = first + SizeInLBA m (Partition mbr i) - 1
           in if totalSectors \<le> ucast final then False
              else if list_ex (entries_overlap m mbr first final) [i + 1..<MAX_MBR_PARTITIONS] then False
              else valid_loop m mbr totalSectors (i + 1) True)
      else valid)"
  by pat_completeness auto
termination by (relation "measure (\<lambda>(m, mbr, totalSectors, i, valid). MAX_MBR_PARTITIONS - i)") auto

declare valid_loop.simps [simp del]

definition mbr_isValid :: "mem \<Rightarrow> u32 \<Rightarrow> u64 \<Rightarrow> bool" where
  "mbr_isValid m mbr totalSectors =
     (if Signature m mbr \<noteq> MBR_SIGNATURE then False else valid_loop m mbr totalSectors 0 False)"

definition add_partition :: "u32 \<Rightarrow> (u32 \<Rightarrow> ('a disks_scheme, unit) prog) \<Rightarrow> u32 \<Rightarrow> nat \<Rightarrow> ('a disks_scheme, unit) prog" where
  "add_partition device cb mbr i s =
     (let e = Partition mbr i
      in if \<not> entry_used (ram s) mbr i then ret () s
         else if OSIndicator (ram s) e = PMBR_GPT_PARTITION then ret () s
         else
           bnd new_device (\<lambda>part s.
             bnd (get_device part) (\<lambda>d.
             seq (set_device part (d\<lparr>
               parentDevice := device,
               startLBA := ucast (StartingLBA (ram s) e),
               endLBA := ucast (StartingLBA (ram s) e + SizeInLBA (ram s) e - 1),
               diskNumber := of_nat i,
               device_type := DEVICETYPE_PARTITION,
               read_sectors := PartitionDriver,
               get_disk_geometry := PartitionDriver\<rparr>)) (
             bnd (get_device device) (\<lambda>dev.
             seq (print_name part ''hd(%d,%d)'' [diskNumber dev, of_nat i])
               (cb part)))) s) s)"

definition mbr_detectPartitions :: "u32 \<Rightarrow> (u32 \<Rightarrow> ('a disks_scheme, unit) prog) \<Rightarrow> ('a disks_scheme, bool) prog" where
  "mbr_detectPartitions device cb =
     bnd (device_get_disk_geometry device) (\<lambda>geometry.
     case geometry of None \<Rightarrow> ret False
     | Some g \<Rightarrow>
         stack_array (BytesPerSector g) (\<lambda>firstSector.
         bnd (device_read_sectors device 0 1 firstSector) (\<lambda>done s.
         if \<not> done then ret False s
         else if \<not> mbr_isValid (ram s) firstSector (TotalLBASectors g) then ret False s
         else seq (for_each [0..<MAX_MBR_PARTITIONS] (add_partition device cb firstSector)) (ret True) s)))"

text \<open>The functions by their own names, for a device whose driver they are.\<close>

definition mbr_read_sectors :: "u32 \<Rightarrow> u64 \<Rightarrow> u32 \<Rightarrow> u32 \<Rightarrow> ('a disks_scheme, bool) prog" where
  "mbr_read_sectors device startSector sectorCount buffer =
     bnd (get_device device) (\<lambda>d.
       if device_type d \<noteq> DEVICETYPE_PARTITION then ret False
       else if parentDevice d = 0 then ret False
       else device_read_sectors (parentDevice d) (startSector + startLBA d) sectorCount buffer)"

definition mbr_get_disk_geometry :: "u32 \<Rightarrow> ('a disks_scheme, DiskGeometry option) prog" where
  "mbr_get_disk_geometry device =
     bnd (get_device device) (\<lambda>d. device_get_disk_geometry (parentDevice d))"

section \<open>Detection\<close>

text \<open>\<open>partmap_handlers\<close>: the handlers in order, until one of them accepts the disk.\<close>

definition partmap_handlers :: "(u32 \<Rightarrow> (u32 \<Rightarrow> ('a disks_scheme, unit) prog) \<Rightarrow> ('a disks_scheme, bool) prog) list" where
  "partmap_handlers = [mbr_detectPartitions]"

primrec try_handlers ::
    "(u32 \<Rightarrow> (u32 \<Rightarrow> ('a disks_scheme, unit) prog) \<Rightarrow> ('a disks_scheme, bool) prog) list \<Rightarrow>
     u32 \<Rightarrow> (u32 \<Rightarrow> ('a disks_scheme, unit) prog) \<Rightarrow> ('a disks_scheme, unit) prog" where
  "try_handlers [] dev cb = ret ()"
| "try_handlers (h # hs) dev cb = bnd (h dev cb) (\<lambda>done. if done then ret () else try_handlers hs dev cb)"

definition detect_floppy :: "(u32 \<Rightarrow> ('a disks_scheme, unit) prog) \<Rightarrow> u32 \<Rightarrow> ('a disks_scheme, unit) prog" where
  "detect_floppy cb floppy =
     seq (biosdisk_i386_reset_controller (ucast floppy)) (
     bnd (biosdisk_i386_get_disk_type (ucast floppy)) (\<lambda>t.
     if t = DISKTYPE_FLOPPY \<or> t = DISKTYPE_FLOPPY_CHANGEDETECT then
       bnd new_device (\<lambda>dev.
       seq (print_name dev ''fd(%d)'' [floppy]) (
       bnd (get_device dev) (\<lambda>d.
       seq (set_device dev (d\<lparr>device_type := DEVICETYPE_FLOPPY, diskNumber := floppy,
              read_sectors := BiosDriver, get_disk_geometry := BiosDriver\<rparr>))
         (cb dev))))
     else ret ()))"

definition detect_hdd :: "(u32 \<Rightarrow> ('a disks_scheme, unit) prog) \<Rightarrow> u32 \<Rightarrow> ('a disks_scheme, unit) prog" where
  "detect_hdd cb hdd =
     bnd (biosdisk_i386_get_disk_type (ucast hdd)) (\<lambda>t.
     if t = DISKTYPE_FIXED then
       bnd new_device (\<lambda>dev.
       seq (print_name dev ''hd(%d)'' [hdd - 0x80]) (
       bnd (get_device dev) (\<lambda>d.
       seq (set_device dev (d\<lparr>device_type := DEVICETYPE_HDD, diskNumber := hdd - 0x80,
              read_sectors := BiosDriver, get_disk_geometry := BiosDriver\<rparr>)) (
       seq (try_handlers partmap_handlers dev cb)
         (cb dev)))))
     else ret ())"

definition biosdisk_i386_initialize :: "(u32 \<Rightarrow> ('a disks_scheme, unit) prog) \<Rightarrow> ('a disks_scheme, unit) prog" where
  "biosdisk_i386_initialize cb =
     seq (for_each [0, 1] (detect_floppy cb))
       (for_each (map (\<lambda>i. 0x80 + of_nat i) [0..<16]) (detect_hdd cb))"

definition arch_disksystem_setup :: "(u32 \<Rightarrow> ('a disks_scheme, unit) prog) \<Rightarrow> ('a disks_scheme, unit) prog" where
  "arch_disksystem_setup cb = biosdisk_i386_initialize cb"

definition disk_init :: "('a disks_scheme, unit) prog" where
  "disk_init =
     seq (\<lambda>s. on_links (INIT_LIST_HEAD (DeviceList s)) s)
       (arch_disksystem_setup add_disk_device_callback)"

section \<open>What a valid master boot record is\<close>

text \<open>The first sector of an entry, and the sector behind its last one.\<close>

definition first_of :: "mem \<Rightarrow> u32 \<Rightarrow> nat \<Rightarrow> nat" where
  "first_of m mbr i = unat (StartingLBA m (Partition mbr i))"

definition end_of :: "mem \<Rightarrow> u32 \<Rightarrow> nat \<Rightarrow> nat" where
  "end_of m mbr i = first_of m mbr i + unat (SizeInLBA m (Partition mbr i))"

lemma used_size: "entry_used m mbr i \<Longrightarrow> 0 < unat (SizeInLBA m (Partition mbr i))"
  by (auto simp: entry_used_def unat_gt_0)

text \<open>The code adds in 32 bits: the last sector and the sector behind it, as they are compared.\<close>

definition last32 :: "mem \<Rightarrow> u32 \<Rightarrow> nat \<Rightarrow> nat" where
  "last32 m mbr i = (end_of m mbr i - 1) mod 2 ^ 32"

definition end32 :: "mem \<Rightarrow> u32 \<Rightarrow> nat \<Rightarrow> nat" where
  "end32 m mbr i = end_of m mbr i mod 2 ^ 32"

lemma entry_end:
  assumes "entry_used m mbr i"
  shows "unat (StartingLBA m (Partition mbr i) + SizeInLBA m (Partition mbr i)) = end32 m mbr i"
    "unat (StartingLBA m (Partition mbr i) + SizeInLBA m (Partition mbr i) - 1) = last32 m mbr i"
proof -
  let ?a = "StartingLBA m (Partition mbr i)" and ?b = "SizeInLBA m (Partition mbr i)"
  show "unat (?a + ?b) = end32 m mbr i" by (simp add: end32_def end_of_def first_of_def unat_word_ariths take_bit_eq_mod)
  have b: "0 < unat ?b" using used_size [OF assms] .
  then have "unat (?b - 1) = unat ?b - 1" by (subst unat_sub_le) (simp_all add: word_le_nat_alt)
  then have "unat (?a + (?b - 1)) = (unat ?a + (unat ?b - 1)) mod 2 ^ 32" by (simp add: unat_word_ariths take_bit_eq_mod)
  then show "unat (?a + ?b - 1) = last32 m mbr i" using b by (simp add: last32_def end_of_def first_of_def add_diff_eq)
qed

lemma entry_no_wrap:
  assumes "entry_used m mbr i" "end_of m mbr i < 2 ^ 32"
  shows "last32 m mbr i = end_of m mbr i - 1" "end32 m mbr i = end_of m mbr i" "0 < end_of m mbr i"
  using used_size [OF assms(1)] assms(2) by (simp_all add: last32_def end32_def end_of_def)

lemma valid_loop_spec:
  "valid_loop m mbr sectors i valid \<longleftrightarrow>
    (\<forall>j. i \<le> j \<and> j < 4 \<and> entry_used m mbr j \<longrightarrow> last32 m mbr j < unat sectors \<and>
       (\<forall>k. j < k \<and> k < 4 \<and> entry_used m mbr k \<longrightarrow>
          end32 m mbr k < first_of m mbr j \<or> last32 m mbr j < first_of m mbr k)) \<and>
    (valid \<or> (\<exists>j. i \<le> j \<and> j < 4 \<and> entry_used m mbr j))"
proof (induction "4 - i" arbitrary: i valid)
  case 0
  then show ?case by (subst valid_loop.simps) (auto simp: MAX_MBR_PARTITIONS_def)
next
  case (Suc n)
  then have i: "i < 4" "n = 4 - (i + 1)" by simp_all
  note IH = Suc.hyps(1) [OF i(2)]
  have split: "i \<le> j \<longleftrightarrow> j = i \<or> i + 1 \<le> j" for j by auto
  show ?case
  proof (cases "entry_used m mbr i")
    case False
    then have "valid_loop m mbr sectors i valid = valid_loop m mbr sectors (i + 1) valid"
      using i(1) by (subst valid_loop.simps) (simp add: MAX_MBR_PARTITIONS_def)
    then show ?thesis unfolding IH split using False by auto
  next
    case True
    let ?first = "StartingLBA m (Partition mbr i)"
    let ?final = "?first + SizeInLBA m (Partition mbr i) - 1"
    note e = entry_end(2) [OF True]
    have fit: "sectors \<le> ucast ?final \<longleftrightarrow> \<not> last32 m mbr i < unat sectors"
      using e by (auto simp: word_le_nat_alt unsigned_ucast_eq take_bit_nat_eq_self)
    have over: "entries_overlap m mbr ?first ?final k \<longleftrightarrow> entry_used m mbr k \<and>
        \<not> (end32 m mbr k < first_of m mbr i \<or> last32 m mbr i < first_of m mbr k)" for k
      using e entry_end(1) [of m mbr k]
      by (auto simp: entries_overlap_def Let_def word_le_nat_alt first_of_def)
    have "list_ex (entries_overlap m mbr ?first ?final) [i + 1..<4] \<longleftrightarrow> (\<exists>k. i < k \<and> k < 4 \<and> entry_used m mbr k \<and>
        \<not> (end32 m mbr k < first_of m mbr i \<or> last32 m mbr i < first_of m mbr k))"
      using over by (auto simp: list_ex_iff Suc_le_eq)
    then have "valid_loop m mbr sectors i valid \<longleftrightarrow> last32 m mbr i < unat sectors \<and>
        (\<forall>k. i < k \<and> k < 4 \<and> entry_used m mbr k \<longrightarrow>
          end32 m mbr k < first_of m mbr i \<or> last32 m mbr i < first_of m mbr k) \<and> valid_loop m mbr sectors (i + 1) True"
      using i(1) True fit by (subst valid_loop.simps) (auto simp: MAX_MBR_PARTITIONS_def Let_def)
    then show ?thesis unfolding IH split using True i(1) by auto
  qed
qed

text \<open>The first entry is sectors 200 to 299, the second 100 to 199.\<close>

definition touching_mbr :: mem where
  "touching_mbr = (\<lambda>_. 0)(450 := 6, 454 := 200, 458 := 100, 466 := 6, 470 := 100, 474 := 100, 510 := 0x55, 511 := 0xAA)"

lemma touching_used: "i < 4 \<Longrightarrow> entry_used touching_mbr 0 i \<longleftrightarrow> i = 0 \<or> i = 1"
proof -
  assume "i < 4"
  then consider "i = 0" | "i = 1" | "i = 2" | "i = 3" by linarith
  then show ?thesis
    by cases (simp_all add: entry_used_def OSIndicator_def SizeInLBA_def Partition_def touching_mbr_def load32_def)
qed

lemma touching_entries:
  "first_of touching_mbr 0 0 = 200" "end_of touching_mbr 0 0 = 300"
  "first_of touching_mbr 0 1 = 100" "end_of touching_mbr 0 1 = 200"
  by (simp_all add: end_of_def first_of_def SizeInLBA_def StartingLBA_def Partition_def touching_mbr_def load32_def)

text \<open>One entry from sector 0xFFFFFF00 on, of 0x200 sectors.\<close>

definition wrapping_mbr :: mem where
  "wrapping_mbr = (\<lambda>_. 0)(450 := 6, 455 := 0xFF, 456 := 0xFF, 457 := 0xFF, 459 := 2, 510 := 0x55, 511 := 0xAA)"

lemma wrapping_used: "i < 4 \<Longrightarrow> entry_used wrapping_mbr 0 i \<longleftrightarrow> i = 0"
proof -
  assume "i < 4"
  then consider "i = 0" | "i = 1" | "i = 2" | "i = 3" by linarith
  then show ?thesis
    by cases (simp_all add: entry_used_def OSIndicator_def SizeInLBA_def Partition_def wrapping_mbr_def load32_def)
qed

lemma wrapping_entry: "first_of wrapping_mbr 0 0 = 0xFFFFFF00" "end_of wrapping_mbr 0 0 = 0x100000100"
  by (simp_all add: end_of_def first_of_def SizeInLBA_def StartingLBA_def Partition_def wrapping_mbr_def load32_def)

text \<open>C28. What \<open>mbr_isValid\<close> accepts, for every master boot record: it has the signature, an entry is in use, the last sector of every used entry is on
  the disk, and of any two used entries the later one ends before the earlier one begins (by at least one sector: a disk whose entries touch in this
  order is refused) or begins behind its last sector. The sectors are computed in 32 bits, and an entry that passes sector 2 to the power of 32 is judged by the
  sector it wraps to: it can lie off the disk and be accepted, as in the second example. When no used entry does, the sums are exact.\<close>

theorem mbr_valid_spec:
  "(mbr_isValid m mbr sectors \<longleftrightarrow> Signature m mbr = 0xAA55 \<and> (\<exists>i<4. entry_used m mbr i) \<and>
    (\<forall>i<4. entry_used m mbr i \<longrightarrow> last32 m mbr i < unat sectors) \<and>
    (\<forall>i j. i < j \<and> j < 4 \<and> entry_used m mbr i \<and> entry_used m mbr j \<longrightarrow>
       end32 m mbr j < first_of m mbr i \<or> last32 m mbr i < first_of m mbr j)) \<and>
   ((\<forall>i<4. entry_used m mbr i \<longrightarrow> end_of m mbr i < 2 ^ 32) \<longrightarrow>
     (mbr_isValid m mbr sectors \<longleftrightarrow> Signature m mbr = 0xAA55 \<and> (\<exists>i<4. entry_used m mbr i) \<and>
      (\<forall>i<4. entry_used m mbr i \<longrightarrow> end_of m mbr i \<le> unat sectors) \<and>
      (\<forall>i j. i < j \<and> j < 4 \<and> entry_used m mbr i \<and> entry_used m mbr j \<longrightarrow>
         end_of m mbr j < first_of m mbr i \<or> end_of m mbr i \<le> first_of m mbr j)))"
proof -
  have pairs: "(\<forall>i j. i < j \<and> j < 4 \<and> U i \<and> U j \<longrightarrow> R i j) \<longleftrightarrow>
      (\<forall>i. i < 4 \<and> U i \<longrightarrow> (\<forall>j. i < j \<and> j < 4 \<and> U j \<longrightarrow> R i j))" for U and R :: "nat \<Rightarrow> nat \<Rightarrow> bool"
    by (blast intro: less_trans)
  have spec: "mbr_isValid m mbr sectors \<longleftrightarrow> Signature m mbr = 0xAA55 \<and> (\<exists>i<4. entry_used m mbr i) \<and>
    (\<forall>i<4. entry_used m mbr i \<longrightarrow> last32 m mbr i < unat sectors) \<and>
    (\<forall>i j. i < j \<and> j < 4 \<and> entry_used m mbr i \<and> entry_used m mbr j \<longrightarrow>
       end32 m mbr j < first_of m mbr i \<or> last32 m mbr i < first_of m mbr j)"
    unfolding mbr_isValid_def MBR_SIGNATURE_def pairs
    using valid_loop_spec [of m mbr sectors 0 False] by auto
  have exact: "last32 m mbr i < x \<longleftrightarrow> end_of m mbr i \<le> x" "end32 m mbr i = end_of m mbr i"
    if "\<forall>i<4. entry_used m mbr i \<longrightarrow> end_of m mbr i < 2 ^ 32" "entry_used m mbr i" "i < 4" for i x
    using entry_no_wrap [OF that(2)] that by auto
  have "(\<forall>i<4. entry_used m mbr i \<longrightarrow> last32 m mbr i < unat sectors) \<longleftrightarrow> (\<forall>i<4. entry_used m mbr i \<longrightarrow> end_of m mbr i \<le> unat sectors)"
    "(\<forall>i j. i < j \<and> j < 4 \<and> entry_used m mbr i \<and> entry_used m mbr j \<longrightarrow> end32 m mbr j < first_of m mbr i \<or> last32 m mbr i < first_of m mbr j) \<longleftrightarrow>
     (\<forall>i j. i < j \<and> j < 4 \<and> entry_used m mbr i \<and> entry_used m mbr j \<longrightarrow> end_of m mbr j < first_of m mbr i \<or> end_of m mbr i \<le> first_of m mbr j)"
    if w: "\<forall>i<4. entry_used m mbr i \<longrightarrow> end_of m mbr i < 2 ^ 32"
    using exact [OF w] by (auto dest: less_trans)
  then show ?thesis unfolding spec by blast
qed

text \<open>The touching entries are refused; the wrapping entry is accepted on a disk of 1000 sectors.\<close>

theorem mbr_valid_spec_witness:
  "\<not> mbr_isValid touching_mbr 0 1000 \<and> Signature touching_mbr 0 = 0xAA55 \<and>
   mbr_isValid wrapping_mbr 0 1000 \<and> first_of wrapping_mbr 0 0 = 0xFFFFFF00"
proof -
  have "end_of touching_mbr 0 i < 2 ^ 32" if "i < 4" "entry_used touching_mbr 0 i" for i
    using that touching_used [of i] touching_entries by auto
  then have w: "\<forall>i<4. entry_used touching_mbr 0 i \<longrightarrow> end_of touching_mbr 0 i < 2 ^ 32" by blast
  have "\<not> mbr_isValid touching_mbr 0 1000"
  proof
    assume "mbr_isValid touching_mbr 0 1000"
    then have "\<forall>i j. i < j \<and> j < 4 \<and> entry_used touching_mbr 0 i \<and> entry_used touching_mbr 0 j \<longrightarrow>
        end_of touching_mbr 0 j < first_of touching_mbr 0 i \<or> end_of touching_mbr 0 i \<le> first_of touching_mbr 0 j"
      using mbr_valid_spec [of touching_mbr 0 1000, THEN conjunct2, THEN mp, OF w] by blast
    from this [rule_format, of 0 1] show False using touching_used touching_entries by simp
  qed
  moreover have "Signature touching_mbr 0 = 0xAA55" "Signature wrapping_mbr 0 = 0xAA55"
    by (simp_all add: Signature_def touching_mbr_def wrapping_mbr_def load16_def)
  moreover have "last32 wrapping_mbr 0 0 = 0xFF" by (simp add: last32_def wrapping_entry)
  then have "mbr_isValid wrapping_mbr 0 1000"
    using mbr_valid_spec [of wrapping_mbr 0 1000, THEN conjunct1] wrapping_used [of 0] wrapping_used calculation(3) by force
  ultimately show ?thesis by (simp add: wrapping_entry)
qed

end
