(* ===== verification/FileTypes.thy ===== *)
theory FileTypes
  imports Partitions
begin

text \<open>
  The structures of the file layer (fs.h and the volume and file structures of fat.h) and the path
  functions of fs.c, which the FAT driver uses. As for devices, a structure on the heap is a record
  per address; a released structure has none.
\<close>

section \<open>The structures\<close>

datatype SeekMode = SEEK_CUR | SEEK_SET | SEEK_END

datatype FAT_TYPE = FAT12 | FAT16 | FAT32

record FatVolumeInformation =
  VolumeBytesPerSector :: u32
  SectorsPerCluster :: u32
  FatSectorStart :: u32
  ActiveFatSectorStart :: u32
  NumberOfFats :: u32
  SectorsPerFat :: u32
  RootDirSectorStart :: u32
  RootDirSectors :: u32
  RootDirStartCluster :: u32
  DataSectorStart :: u32
  FatType :: FAT_TYPE

record FatFileInfo =
  Attributes :: u8
  Filesize :: u32
  FATChain :: u32

record FILE =
  file_mount :: u32
  fsContext :: u32
  filePointer :: u32

text \<open>The file system of a mount: there is one driver, whose operations are \<open>fat_ops\<close>.\<close>

datatype fs_driver = FatDriver

record FilesystemMount =
  fsops :: fs_driver
  Device :: u32
  umount :: fs_driver
  mount_context :: u32

definition sizeof_FatVolumeInformation :: u32 where "sizeof_FatVolumeInformation = 44"
definition sizeof_FatFileInfo :: u32 where "sizeof_FatFileInfo = 12"
definition sizeof_FILE :: u32 where "sizeof_FILE = 12"
definition sizeof_FilesystemMount :: u32 where "sizeof_FilesystemMount = 24"
definition mount_Link_offset :: u32 where "mount_Link_offset = 16"

record filesystems = disks +
  FsMountList :: u32
  mounts :: "u32 \<Rightarrow> FilesystemMount option"
  volumes :: "u32 \<Rightarrow> FatVolumeInformation option"
  files :: "u32 \<Rightarrow> FILE option"
  fat_files :: "u32 \<Rightarrow> FatFileInfo option"

definition get_mount :: "u32 \<Rightarrow> ('a filesystems_scheme, FilesystemMount) prog" where
  "get_mount = deref mounts"

definition get_volume :: "u32 \<Rightarrow> ('a filesystems_scheme, FatVolumeInformation) prog" where
  "get_volume = deref volumes"

definition get_file :: "u32 \<Rightarrow> ('a filesystems_scheme, FILE) prog" where
  "get_file = deref files"

definition get_fat_file :: "u32 \<Rightarrow> ('a filesystems_scheme, FatFileInfo) prog" where
  "get_fat_file = deref fat_files"

definition set_mount :: "u32 \<Rightarrow> FilesystemMount option \<Rightarrow> ('a filesystems_scheme, unit) prog" where
  "set_mount p x = modify (\<lambda>s. s\<lparr>mounts := (mounts s)(p := x)\<rparr>)"

definition set_volume :: "u32 \<Rightarrow> FatVolumeInformation option \<Rightarrow> ('a filesystems_scheme, unit) prog" where
  "set_volume p x = modify (\<lambda>s. s\<lparr>volumes := (volumes s)(p := x)\<rparr>)"

definition set_file :: "u32 \<Rightarrow> FILE option \<Rightarrow> ('a filesystems_scheme, unit) prog" where
  "set_file p x = modify (\<lambda>s. s\<lparr>files := (files s)(p := x)\<rparr>)"

definition set_fat_file :: "u32 \<Rightarrow> FatFileInfo option \<Rightarrow> ('a filesystems_scheme, unit) prog" where
  "set_fat_file p x = modify (\<lambda>s. s\<lparr>fat_files := (fat_files s)(p := x)\<rparr>)"

section \<open>Paths\<close>

definition is_slash :: "u8 \<Rightarrow> bool" where
  "is_slash c \<longleftrightarrow> c = 0x5C \<or> c = 0x2F"

text \<open>The loops call \<open>strlen\<close> again in every round.\<close>

partial_function (option) num_parts_loop :: "mem \<Rightarrow> u32 \<Rightarrow> u32 \<Rightarrow> u32 \<Rightarrow> u32 option" where
  "num_parts_loop m path i num =
     Option.bind (strlen m path) (\<lambda>n.
       if i < n then num_parts_loop m path (i + 1) (if is_slash (m (path + i)) then num + 1 else num)
       else Some num)"

definition fs_getNumPathParts :: "mem \<Rightarrow> u32 \<Rightarrow> u32 option" where
  "fs_getNumPathParts m path = map_option (\<lambda>num. num + 1) (num_parts_loop m path 0 0)"

partial_function (option) first_element_loop :: "mem \<Rightarrow> u32 \<Rightarrow> u32 \<Rightarrow> u32 \<Rightarrow> (u32 \<times> mem) option" where
  "first_element_loop m path buffer i =
     Option.bind (strlen m path) (\<lambda>n.
       if i < n then
         if is_slash (m (path + i)) then Some (i, m)
         else first_element_loop (m(buffer + i := m (path + i))) path buffer (i + 1)
       else Some (i, m))"

definition fs_getFirstElementFromPath :: "mem \<Rightarrow> u32 \<Rightarrow> u32 \<Rightarrow> mem option" where
  "fs_getFirstElementFromPath m path buffer =
     map_option (\<lambda>(i, m). m(buffer + i := 0)) (first_element_loop m path buffer 0)"

definition fs_getFilename :: "mem \<Rightarrow> u32 \<Rightarrow> u32 option" where
  "fs_getFilename m path = map_option (\<lambda>f. if f = 0 then path else f + 1) (strrchr m path 0x2F)"

text \<open>\<open>strncat\<close> of a string literal; like the function of lib.c it pads with zeros to \<open>n\<close> bytes.\<close>

definition strncat_literal :: "mem \<Rightarrow> u32 \<Rightarrow> u8 list \<Rightarrow> u32 \<Rightarrow> mem option" where
  "strncat_literal m dst cs n =
     map_option (\<lambda>e. store_bytes m e (take (unat n) cs @ replicate (unat n - length cs) 0)) (strchr m dst 0)"

definition fs_concatPath :: "mem \<Rightarrow> u32 \<Rightarrow> u32 \<Rightarrow> u32 \<Rightarrow> mem option" where
  "fs_concatPath m first second buflen =
     (if first = 0 \<or> second = 0 then Some m
      else
        Option.bind (strlen m first) (\<lambda>n.
        Option.bind
          (if m (first + (n - 1)) \<noteq> 0x2F
           then strncat_literal m first (literal ''/'') (buflen - n - 1) else Some m) (\<lambda>m.
        Option.bind (strlen m first) (\<lambda>n.
        strncat m first second (buflen - n - 1)))))"

end
