(* ===== verification/Fat.thy ===== *)
theory Fat
  imports FileTypes
begin

text \<open>
  The FAT file system driver (fs/fat.c). Sectors are read into arrays on the stack or on the heap, in
  the byte memory; the boot sector and the directory entries are read from there byte by byte. A
  function that returns a pointer or stores a result through one returns it here; \<open>None\<close> is its
  \<open>false\<close>.
\<close>

section \<open>The volume\<close>

text \<open>\<open>FAT_BPB\<close>, at the start of the first sector.\<close>

definition bpb_BytesPerSector :: "mem \<Rightarrow> u32 \<Rightarrow> u32" where "bpb_BytesPerSector m p = ucast (load16 m (p + 11))"
definition bpb_SectorsPerCluster :: "mem \<Rightarrow> u32 \<Rightarrow> u32" where "bpb_SectorsPerCluster m p = ucast (m (p + 13))"
definition bpb_ReservedSectors :: "mem \<Rightarrow> u32 \<Rightarrow> u32" where "bpb_ReservedSectors m p = ucast (load16 m (p + 14))"
definition bpb_NumberOfFats :: "mem \<Rightarrow> u32 \<Rightarrow> u32" where "bpb_NumberOfFats m p = ucast (m (p + 16))"
definition bpb_RootDirEntries :: "mem \<Rightarrow> u32 \<Rightarrow> u32" where "bpb_RootDirEntries m p = ucast (load16 m (p + 17))"
definition bpb_TotalSectors :: "mem \<Rightarrow> u32 \<Rightarrow> u32" where "bpb_TotalSectors m p = ucast (load16 m (p + 19))"
definition bpb_SectorsPerFat :: "mem \<Rightarrow> u32 \<Rightarrow> u32" where "bpb_SectorsPerFat m p = ucast (load16 m (p + 22))"
definition bpb_TotalSectorsBig :: "mem \<Rightarrow> u32 \<Rightarrow> u32" where "bpb_TotalSectorsBig m p = load32 m (p + 32)"
definition bpb_FAT12_16_FilesystemType :: "u32 \<Rightarrow> u32" where "bpb_FAT12_16_FilesystemType p = p + 54"
definition bpb_SectorsPerFatBig :: "mem \<Rightarrow> u32 \<Rightarrow> u32" where "bpb_SectorsPerFatBig m p = load32 m (p + 36)"
definition bpb_ExtendedFlags :: "mem \<Rightarrow> u32 \<Rightarrow> u32" where "bpb_ExtendedFlags m p = ucast (load16 m (p + 40))"
definition bpb_RootDirStartCluster :: "mem \<Rightarrow> u32 \<Rightarrow> u32" where "bpb_RootDirStartCluster m p = load32 m (p + 44)"
definition bpb_FAT32_FilesystemType :: "u32 \<Rightarrow> u32" where "bpb_FAT32_FilesystemType p = p + 82"

text \<open>
  The division binds tighter than the sum, so the quotient is that of \<open>BytesPerSector - 1\<close> alone: it
  is 0, and the number of root directory sectors is 32 times the number of entries.
\<close>

definition fat_determine_type :: "mem \<Rightarrow> u32 \<Rightarrow> fault + FAT_TYPE" where
  "fat_determine_type m bpb =
     (if bpb_BytesPerSector m bpb = 0 then Inl DivideError
      else
        (let rootDirSectors = bpb_RootDirEntries m bpb * 32
               + (bpb_BytesPerSector m bpb - 1) div bpb_BytesPerSector m bpb;
             sectorsPerFat = (if bpb_SectorsPerFat m bpb \<noteq> 0 then bpb_SectorsPerFat m bpb
               else bpb_SectorsPerFatBig m bpb);
             totalSectors = (if bpb_TotalSectors m bpb \<noteq> 0 then bpb_TotalSectors m bpb
               else bpb_TotalSectorsBig m bpb);
             dataSectorCount = totalSectors - (bpb_ReservedSectors m bpb
               + bpb_NumberOfFats m bpb * sectorsPerFat + rootDirSectors);
             countOfClusters = (if bpb_SectorsPerCluster m bpb \<noteq> 0
               then dataSectorCount div bpb_SectorsPerCluster m bpb else 0)
         in Inr (if countOfClusters < 4085 then FAT12
              else if countOfClusters < 65525 then FAT16 else FAT32)))"

definition fat_type_to_string :: "FAT_TYPE \<Rightarrow> string" where
  "fat_type_to_string t = (case t of FAT12 \<Rightarrow> ''FAT12'' | FAT16 \<Rightarrow> ''FAT16'' | FAT32 \<Rightarrow> ''FAT32'')"

definition fat_signature :: "mem \<Rightarrow> u32 \<Rightarrow> bool" where
  "fat_signature m bpb \<longleftrightarrow>
     \<not> (load_bytes m (bpb_FAT12_16_FilesystemType bpb) 8 \<noteq> literal ''FAT12   '' \<and>
        load_bytes m (bpb_FAT12_16_FilesystemType bpb) 8 \<noteq> literal ''FAT16   '' \<and>
        load_bytes m (bpb_FAT32_FilesystemType bpb) 8 \<noteq> literal ''FAT32   '')"

definition volume32 :: "mem \<Rightarrow> u32 \<Rightarrow> FatVolumeInformation" where
  "volume32 m bpb =
     (let start = bpb_ReservedSectors m bpb; flgs = bpb_ExtendedFlags m bpb
      in \<lparr>VolumeBytesPerSector = bpb_BytesPerSector m bpb,
          SectorsPerCluster = bpb_SectorsPerCluster m bpb,
          FatSectorStart = start,
          ActiveFatSectorStart = start +
            (if flgs AND 0x80 \<noteq> 0 then (flgs AND 0x0F) * bpb_SectorsPerFatBig m bpb else 0),
          NumberOfFats = bpb_NumberOfFats m bpb,
          SectorsPerFat = bpb_SectorsPerFatBig m bpb,
          RootDirSectorStart = 0,
          RootDirSectors = 0,
          RootDirStartCluster = bpb_RootDirStartCluster m bpb,
          DataSectorStart = start + bpb_NumberOfFats m bpb * bpb_SectorsPerFatBig m bpb,
          FatType = FAT32\<rparr>)"

definition volume16 :: "mem \<Rightarrow> u32 \<Rightarrow> FAT_TYPE \<Rightarrow> fault + FatVolumeInformation" where
  "volume16 m bpb t =
     (if bpb_BytesPerSector m bpb = 0 then Inl DivideError
      else
        (let start = bpb_ReservedSectors m bpb;
             root = start + bpb_NumberOfFats m bpb * bpb_SectorsPerFat m bpb;
             rootSectors = (bpb_RootDirEntries m bpb * 32 + (bpb_BytesPerSector m bpb - 1))
               div bpb_BytesPerSector m bpb
         in Inr \<lparr>VolumeBytesPerSector = bpb_BytesPerSector m bpb,
              SectorsPerCluster = bpb_SectorsPerCluster m bpb,
              FatSectorStart = start,
              ActiveFatSectorStart = start,
              NumberOfFats = bpb_NumberOfFats m bpb,
              SectorsPerFat = bpb_SectorsPerFat m bpb,
              RootDirSectorStart = root,
              RootDirSectors = rootSectors,
              RootDirStartCluster = 0,
              DataSectorStart = root + rootSectors,
              FatType = t\<rparr>))"

definition fat_get_device_context :: "u32 \<Rightarrow> ('a filesystems_scheme, FatVolumeInformation) prog" where
  "fat_get_device_context fsmount = bnd (get_mount fsmount) (\<lambda>m. get_volume (mount_context m))"

text \<open>The mount's device is read through for every transfer.\<close>

definition mount_read :: "u32 \<Rightarrow> u32 \<Rightarrow> u32 \<Rightarrow> u32 \<Rightarrow> ('a filesystems_scheme, bool) prog" where
  "mount_read mount sector count buffer =
     bnd (get_mount mount) (\<lambda>m. device_read_sectors (Device m) (ucast sector) count buffer)"

definition fat_mount :: "u32 \<Rightarrow> ('a filesystems_scheme, u32) prog" where
  "fat_mount device =
     bnd (device_get_disk_geometry device) (\<lambda>geometry.
     case geometry of None \<Rightarrow> ret 0
     | Some g \<Rightarrow>
         stack_array (BytesPerSector g) (\<lambda>bpb.
         bnd (device_read_sectors device 0 1 bpb) (\<lambda>done s.
         if \<not> done then ret 0 s
         else if \<not> fat_signature (ram s) bpb then ret 0 s
         else
           bnd (malloc_p sizeof_FatVolumeInformation) (\<lambda>info.
           seq (memset_p info 0 sizeof_FatVolumeInformation) (
           bnd (\<lambda>s. lift_result (fat_determine_type (ram s) bpb) s) (\<lambda>t.
           bnd (\<lambda>s. lift_result (if t = FAT32 then Inr (volume32 (ram s) bpb) else volume16 (ram s) bpb t) s) (\<lambda>v.
           seq (set_volume info (Some v)) (
           bnd (malloc_p sizeof_FilesystemMount) (\<lambda>fsmount.
           seq (set_mount fsmount (Some \<lparr>fsops = FatDriver, Device = device, umount = FatDriver,
                  mount_context = info\<rparr>)) (
           ret fsmount))))))) s)))"

definition fat_umount :: "u32 \<Rightarrow> ('a filesystems_scheme, unit) prog" where
  "fat_umount mount =
     (if mount = 0 then ret ()
      else
        bnd (get_mount mount) (\<lambda>m.
        seq (if mount_context m \<noteq> 0
             then seq (free_p (mount_context m)) (set_volume (mount_context m) None) else ret ()) (
        seq (free_p mount)
          (set_mount mount None))))"

section \<open>The allocation table\<close>

text \<open>The last cluster of a chain has an end mark as its entry.\<close>

definition end_of_chain :: "FatVolumeInformation \<Rightarrow> u32 \<Rightarrow> bool" where
  "end_of_chain v c \<longleftrightarrow> FatType v = FAT12 \<and> 0xFF8 \<le> c \<or> FatType v = FAT16 \<and> 0xFFF8 \<le> c
     \<or> FatType v = FAT32 \<and> 0x0FFFFFF8 \<le> c"

text \<open>Offset of an entry in the table, number of sectors to read for it, and its value.\<close>

definition fat_offset :: "FAT_TYPE \<Rightarrow> u32 \<Rightarrow> u32" where
  "fat_offset t cluster = (case t of FAT12 \<Rightarrow> cluster + cluster div 2 | FAT16 \<Rightarrow> cluster * 2 | FAT32 \<Rightarrow> cluster * 4)"

definition fat_entry_sectors :: "FatVolumeInformation \<Rightarrow> u32 \<Rightarrow> u32" where
  "fat_entry_sectors v off =
     (if FatType v = FAT12 \<and> off = VolumeBytesPerSector v - 1 then 2 else 1)"

definition fat_entry_value :: "FAT_TYPE \<Rightarrow> u32 \<Rightarrow> mem \<Rightarrow> u32 \<Rightarrow> u32" where
  "fat_entry_value t cluster m a =
     (case t of
        FAT12 \<Rightarrow> (let fat = ucast (load16 m a) in if cluster AND 1 \<noteq> 0 then drop_bit 4 fat else fat AND 0xFFF)
      | FAT16 \<Rightarrow> ucast (load16 m a)
      | FAT32 \<Rightarrow> load32 m a AND 0x0FFFFFFF)"

definition fat_getFatEntry :: "u32 \<Rightarrow> u32 \<Rightarrow> ('a filesystems_scheme, u32 option) prog" where
  "fat_getFatEntry mount cluster =
     bnd (fat_get_device_context mount) (\<lambda>v.
     stack_array (VolumeBytesPerSector v * 2) (\<lambda>buffer.
     if VolumeBytesPerSector v = 0 then stop DivideError
     else
       (let fatOffset = fat_offset (FatType v) cluster;
            sector = ActiveFatSectorStart v + fatOffset div VolumeBytesPerSector v;
            off = fatOffset mod VolumeBytesPerSector v
        in bnd (mount_read mount sector (fat_entry_sectors v off) buffer) (\<lambda>done s.
             if \<not> done then ret None s
             else ret (Some (fat_entry_value (FatType v) cluster (ram s) (buffer + off))) s))))"

partial_function (option) count_clusters_loop ::
    "u32 \<Rightarrow> FatVolumeInformation \<Rightarrow> u32 \<Rightarrow> u32 \<Rightarrow> 'a filesystems_scheme \<Rightarrow> (fault + u32 \<times> 'a filesystems_scheme) option" where
  "count_clusters_loop mount v startCluster i s =
     (if end_of_chain v startCluster then ret i s
      else bnd (fat_getFatEntry mount startCluster) (\<lambda>r s.
        case r of None \<Rightarrow> ret 0 s | Some c \<Rightarrow> count_clusters_loop mount v c (i + 1) s) s)"

definition fat_countClustersInChain :: "u32 \<Rightarrow> u32 \<Rightarrow> ('a filesystems_scheme, u32) prog" where
  "fat_countClustersInChain mount startCluster =
     bnd (fat_get_device_context mount) (\<lambda>v. count_clusters_loop mount v startCluster 0)"

text \<open>The rounds left; the array is filled from \<open>i\<close> on. \<open>False\<close> is a failed read.\<close>

primrec fat_chain_loop ::
    "nat \<Rightarrow> u32 \<Rightarrow> FatVolumeInformation \<Rightarrow> u32 \<Rightarrow> u32 \<Rightarrow> u32 \<Rightarrow> ('a filesystems_scheme, bool) prog" where
  "fat_chain_loop 0 mount v fatArray i startCluster = ret True"
| "fat_chain_loop (Suc n) mount v fatArray i startCluster =
     seq (store32_p (fatArray + 4 * i) startCluster) (
     if end_of_chain v startCluster then ret True
     else bnd (fat_getFatEntry mount startCluster) (\<lambda>r.
       case r of None \<Rightarrow> ret False | Some c \<Rightarrow> fat_chain_loop n mount v fatArray (i + 1) c))"

definition fat_getFatChain :: "u32 \<Rightarrow> u32 \<Rightarrow> ('a filesystems_scheme, u32) prog" where
  "fat_getFatChain mount startCluster =
     bnd (fat_get_device_context mount) (\<lambda>v.
     bnd (fat_countClustersInChain mount startCluster) (\<lambda>clusterCount.
     bnd (malloc_p (clusterCount * 4)) (\<lambda>fatArray.
     if fatArray = 0 then ret 0
     else bnd (fat_chain_loop (unat clusterCount) mount v fatArray 0 startCluster) (\<lambda>done.
       if done then ret fatArray else seq (free_p fatArray) (ret 0)))))"

section \<open>Reading clusters\<close>

definition cluster_size :: "FatVolumeInformation \<Rightarrow> u32" where
  "cluster_size v = SectorsPerCluster v * VolumeBytesPerSector v"

definition cluster_sector :: "FatVolumeInformation \<Rightarrow> u32 \<Rightarrow> u32" where
  "cluster_sector v c = (c - 2) * SectorsPerCluster v + DataSectorStart v"

partial_function (option) cluster_chain_loop ::
    "u32 \<Rightarrow> FatVolumeInformation \<Rightarrow> u32 \<Rightarrow> u32 \<Rightarrow> u32 \<Rightarrow> u32 \<Rightarrow> 'a filesystems_scheme \<Rightarrow> (fault + bool \<times> 'a filesystems_scheme) option" where
  "cluster_chain_loop mount v tmpbuf startCluster maxClusters buffer s =
     (if maxClusters = 0 then ret True s
      else bnd (mount_read mount (cluster_sector v startCluster) (SectorsPerCluster v) tmpbuf) (\<lambda>done s.
        if \<not> done then ret False s
        else
          seq (memcpy_p buffer tmpbuf (cluster_size v))
            (bnd (fat_getFatEntry mount startCluster) (\<lambda>r s.
              case r of None \<Rightarrow> ret False s
              | Some c \<Rightarrow>
                  if end_of_chain v c then ret True s
                  else cluster_chain_loop mount v tmpbuf c (maxClusters - 1) (buffer + cluster_size v) s)) s) s)"

text \<open>\<open>tmpbuf\<close> is an array of pointers: it is four times as large as a cluster.\<close>

definition fat_readClusterChain :: "u32 \<Rightarrow> u32 \<Rightarrow> u32 \<Rightarrow> u32 \<Rightarrow> ('a filesystems_scheme, bool) prog" where
  "fat_readClusterChain mount startCluster maxClusters buffer =
     bnd (fat_get_device_context mount) (\<lambda>v.
     stack_array (4 * cluster_size v) (\<lambda>tmpbuf.
     cluster_chain_loop mount v tmpbuf startCluster maxClusters buffer))"

definition fat_readPartialCluster :: "u32 \<Rightarrow> u32 \<Rightarrow> u32 \<Rightarrow> u32 \<Rightarrow> u32 \<Rightarrow> ('a filesystems_scheme, bool) prog" where
  "fat_readPartialCluster mount clusterNumber offset len buffer =
     bnd (fat_get_device_context mount) (\<lambda>v.
     stack_array (4 * cluster_size v) (\<lambda>tmpbuf.
     bnd (mount_read mount (cluster_sector v clusterNumber) (SectorsPerCluster v) tmpbuf) (\<lambda>done.
     if \<not> done then ret False
     else seq (memcpy_p buffer (tmpbuf + offset) len) (ret True))))"

text \<open>Contents and size of a directory.\<close>

definition fat_getDirectoryContents :: "u32 \<Rightarrow> u32 \<Rightarrow> bool \<Rightarrow> ('a filesystems_scheme, u32 \<times> u32) prog" where
  "fat_getDirectoryContents mount startCluster rootDirectory =
     bnd (fat_get_device_context mount) (\<lambda>v.
     let root32 = rootDirectory \<and> FatType v = FAT32;
         startCluster = (if root32 then RootDirStartCluster v else startCluster);
         rootDirectory = (rootDirectory \<and> \<not> root32)
     in bnd (if rootDirectory then ret (RootDirSectors v * VolumeBytesPerSector v)
             else bnd (fat_countClustersInChain mount startCluster) (\<lambda>n.
               ret (n * SectorsPerCluster v * VolumeBytesPerSector v))) (\<lambda>directorySize.
        bnd (malloc_p directorySize) (\<lambda>directoryContents.
        if directoryContents = 0 then ret (0, directorySize)
        else
          bnd (if rootDirectory
               then mount_read mount (RootDirSectorStart v) (RootDirSectors v) directoryContents
               else fat_readClusterChain mount startCluster 0xFFFFFFFF directoryContents) (\<lambda>done.
          if \<not> done then seq (free_p directoryContents) (ret (0, directorySize))
          else ret (directoryContents, directorySize)))))"

section \<open>Directories\<close>

text \<open>\<open>FatDirEntry\<close> and \<open>FatLfnDirentry\<close>, 32 bytes.\<close>

definition sizeof_FatDirEntry :: u32 where "sizeof_FatDirEntry = 32"
definition dir_Attributes :: "mem \<Rightarrow> u32 \<Rightarrow> u8" where "dir_Attributes m e = m (e + 11)"
definition dir_ClusterHigh :: "mem \<Rightarrow> u32 \<Rightarrow> u32" where "dir_ClusterHigh m e = ucast (load16 m (e + 20))"
definition dir_ClusterLow :: "mem \<Rightarrow> u32 \<Rightarrow> u32" where "dir_ClusterLow m e = ucast (load16 m (e + 26))"
definition dir_Size :: "mem \<Rightarrow> u32 \<Rightarrow> u32" where "dir_Size m e = load32 m (e + 28)"

definition ATTR_VOLUMENAME :: u8 where "ATTR_VOLUMENAME = 0x08"
definition ATTR_DIRECTORY :: u8 where "ATTR_DIRECTORY = 0x10"
definition ATTR_LONG_NAME :: u8 where "ATTR_LONG_NAME = 0x0F"

text \<open>The offsets of the 13 characters of a long name entry.\<close>

definition lfn_offsets :: "u32 list" where
  "lfn_offsets = [1, 3, 5, 7, 9, 14, 16, 18, 20, 22, 24, 28, 30]"

definition sizeof_longNameBuffer :: nat where
  "sizeof_longNameBuffer = 265"

text \<open>
  One assignment of a character of a long name. The index is not checked: from sequence number 21
  on it is past the buffer.
\<close>

definition lfn_char :: "u32 \<Rightarrow> u32 \<Rightarrow> nat \<times> u32 \<Rightarrow> mem \<Rightarrow> fault + mem" where
  "lfn_char longName e ko m =
     (case ko of (k, off) \<Rightarrow>
        let w = load16 m (e + off); i = k + unat (m e) * 13
        in if w = 0xFFFF then Inr m
           else if sizeof_longNameBuffer \<le> i then Inl OutOfBounds
           else Inr (m(longName + of_nat i := ucast w)))"

primrec lfn_chars :: "u32 \<Rightarrow> u32 \<Rightarrow> (nat \<times> u32) list \<Rightarrow> mem \<Rightarrow> fault + mem" where
  "lfn_chars longName e [] m = Inr m"
| "lfn_chars longName e (x # xs) m = rbind (lfn_char longName e x m) (lfn_chars longName e xs)"

definition lfn_entry :: "u32 \<Rightarrow> u32 \<Rightarrow> mem \<Rightarrow> fault + mem" where
  "lfn_entry longName e m =
     (if m e AND 0x80 \<noteq> 0 then Inr m
      else
        (let m = m(e := (m e AND 0x3F) - 1)
         in lfn_chars longName e (List.enumerate 0 lfn_offsets) m))"

text \<open>The base name up to the first space, then a dot and the extension if it has one.\<close>

primrec short_base :: "nat \<Rightarrow> u32 \<Rightarrow> u32 \<Rightarrow> u32 \<Rightarrow> mem \<Rightarrow> u32 \<times> mem" where
  "short_base 0 e buffer i m = (i, m)"
| "short_base (Suc n) e buffer i m =
     (if m (e + i) = 0x20 then (i, m)
      else short_base n e buffer (i + 1) (m(buffer + i := m (e + i))))"

definition fat_parseShortFilename :: "u32 \<Rightarrow> u32 \<Rightarrow> mem \<Rightarrow> mem" where
  "fat_parseShortFilename e buffer m =
     (let m = memset m buffer 0 13;
          m = (if m e = 0x05 then m(e := 0xE5) else m);
          (i, m) = short_base 8 e buffer 0 m
      in if m (e + 8) \<noteq> 0x20 then
           (let blank0 = (\<lambda>c :: u8. if c = 0x20 then 0 else c);
                m = m(buffer + i := 0x2E);
                m = m(buffer + (i + 1) := blank0 (m (e + 8)));
                m = m(buffer + (i + 2) := blank0 (m (e + 9)))
            in m(buffer + (i + 3) := blank0 (m (e + 10))))
         else m)"

definition clear_names :: "u32 \<Rightarrow> u32 \<Rightarrow> mem \<Rightarrow> mem" where
  "clear_names longName shortName m = memset (memset m longName 0 265) shortName 0 20"

text \<open>\<open>stricmp(filename, shortNameBuffer) == 0 || stricmp(filename, longNameBuffer) == 0\<close>.\<close>

definition names_match :: "mem \<Rightarrow> u32 \<Rightarrow> u32 \<Rightarrow> u32 \<Rightarrow> bool option" where
  "names_match m filename shortName longName =
     Option.bind (stricmp m filename shortName) (\<lambda>c.
       if c = 0 then Some True else map_option (\<lambda>c. c = 0) (stricmp m filename longName))"

text \<open>The entry is found: attributes, size and chain of its clusters.\<close>

definition take_entry :: "u32 \<Rightarrow> u32 \<Rightarrow> u32 \<Rightarrow> ('a filesystems_scheme, bool) prog" where
  "take_entry mount fileinfo e s =
     (let startCluster = push_bit 16 (dir_ClusterHigh (ram s) e) OR dir_ClusterLow (ram s) e;
          attributes = dir_Attributes (ram s) e; sz = dir_Size (ram s) e
      in bnd (fat_getFatChain mount startCluster) (\<lambda>chain.
         seq (set_fat_file fileinfo (Some \<lparr>Attributes = attributes, Filesize = sz, FATChain = chain\<rparr>))
           (ret True)) s)"

text \<open>
  The loop over the entries. Its counter is never incremented, so the number of entries only
  decides whether it is entered: it ends at a matching name or at an empty entry.
\<close>

partial_function (option) search_loop ::
    "u32 \<Rightarrow> u32 \<Rightarrow> u32 \<Rightarrow> u32 \<Rightarrow> u32 \<Rightarrow> u32 \<Rightarrow> 'a filesystems_scheme \<Rightarrow> (fault + bool \<times> 'a filesystems_scheme) option" where
  "search_loop mount longName shortName filename fileinfo e s =
     (if ram s e = 0 then ret False s
      else if ram s e = 0xE5 then
        search_loop mount longName shortName filename fileinfo (e + sizeof_FatDirEntry)
          (s\<lparr>ram := clear_names longName shortName (ram s)\<rparr>)
      else if dir_Attributes (ram s) e = ATTR_LONG_NAME then
        (case lfn_entry longName e (ram s) of
           Inl f \<Rightarrow> stop f s
         | Inr m \<Rightarrow>
             search_loop mount longName shortName filename fileinfo (e + sizeof_FatDirEntry) (s\<lparr>ram := m\<rparr>))
      else if dir_Attributes (ram s) e AND ATTR_VOLUMENAME \<noteq> 0 then
        search_loop mount longName shortName filename fileinfo (e + sizeof_FatDirEntry)
          (s\<lparr>ram := clear_names longName shortName (ram s)\<rparr>)
      else
        bnd (seq (modify (\<lambda>s. s\<lparr>ram := fat_parseShortFilename e shortName (ram s)\<rparr>))
               (lift_option (\<lambda>s. names_match (ram s) filename shortName longName))) (\<lambda>found s.
          if found then take_entry mount fileinfo e s
          else search_loop mount longName shortName filename fileinfo (e + sizeof_FatDirEntry)
            (s\<lparr>ram := clear_names longName shortName (ram s)\<rparr>)) s)"

definition fat_searchDirectoryForFile :: "u32 \<Rightarrow> u32 \<Rightarrow> u32 \<Rightarrow> u32 \<Rightarrow> u32 \<Rightarrow> ('a filesystems_scheme, bool) prog" where
  "fat_searchDirectoryForFile mount directoryContents directorySize filename fileinfo =
     stack_array 265 (\<lambda>longName.
     stack_array 20 (\<lambda>shortName.
     seq (modify (\<lambda>s. s\<lparr>ram := clear_names longName shortName (ram s)\<rparr>)) (
     if directorySize div sizeof_FatDirEntry = 0 then ret False
     else search_loop mount longName shortName filename fileinfo directoryContents)))"

section \<open>Files\<close>

text \<open>\<open>for (; *filename != '\\' && \<dots>; filename++) {} filename++\<close>.\<close>

partial_function (option) skip_part :: "mem \<Rightarrow> u32 \<Rightarrow> u32 option" where
  "skip_part m filename =
     (if \<not> is_slash (m filename) \<and> m filename \<noteq> 0 then skip_part m (filename + 1)
      else Some (filename + 1))"

text \<open>Element of the chain of a file; the array is not bounded.\<close>

definition chain_cluster :: "FatFileInfo \<Rightarrow> u32 \<Rightarrow> ('a filesystems_scheme, u32) prog" where
  "chain_cluster fi i =
     (if FATChain fi = 0 then stop NullPointer else reads_of (\<lambda>s. load32 (ram s) (FATChain fi + 4 * i)))"

partial_function (option) find_file_loop ::
    "u32 \<Rightarrow> u32 \<Rightarrow> u32 \<Rightarrow> u32 \<Rightarrow> u32 \<Rightarrow> u32 \<Rightarrow> u32 \<Rightarrow> 'a filesystems_scheme \<Rightarrow> (fault + bool \<times> 'a filesystems_scheme) option" where
  "find_file_loop mount pathPart fileinfo numPathParts i filename directoryStartCluster s =
     (if i < numPathParts then
        bnd (lift_option (\<lambda>s. fs_getFirstElementFromPath (ram s) filename pathPart)) (\<lambda>m.
        seq (modify (\<lambda>s. s\<lparr>ram := m\<rparr>)) (
        bnd (lift_option (\<lambda>s. skip_part (ram s) filename)) (\<lambda>filename.
        bnd (fat_getDirectoryContents mount directoryStartCluster (i = 0)) (\<lambda>(directoryBuffer, directorySize) s.
          if directoryBuffer = 0 then ret False s
          else
            bnd (fat_searchDirectoryForFile mount directoryBuffer directorySize pathPart fileinfo) (\<lambda>found.
            seq (free_p directoryBuffer) (\<lambda>s.
              if \<not> found then ret False s
              else if i + 1 < numPathParts then
                bnd (get_fat_file fileinfo) (\<lambda>fi s.
                  if Attributes fi AND ATTR_DIRECTORY = 0
                  then seq (free_p (FATChain fi)) (ret False) s
                  else
                    bnd (chain_cluster fi 0) (\<lambda>c.
                    seq (free_p (FATChain fi)) (
                    seq (set_fat_file fileinfo (Some (fi\<lparr>FATChain := 0\<rparr>))) (\<lambda>s.
                      find_file_loop mount pathPart fileinfo numPathParts (i + 1) filename c s))) s) s
              else
                find_file_loop mount pathPart fileinfo numPathParts (i + 1) filename directoryStartCluster s)) s)))) s
      else ret True s)"

definition fat_findFile :: "u32 \<Rightarrow> u32 \<Rightarrow> u32 \<Rightarrow> ('a filesystems_scheme, bool) prog" where
  "fat_findFile mount filename fileinfo =
     stack_array 261 (\<lambda>pathPart.
     bnd (lift_option (\<lambda>s. fs_getNumPathParts (ram s) filename)) (\<lambda>numPathParts.
     find_file_loop mount pathPart fileinfo numPathParts 0 filename 0))"

text \<open>A structure that is not written yet has what the memory holds.\<close>

definition stale_fat_file :: "mem \<Rightarrow> u32 \<Rightarrow> FatFileInfo" where
  "stale_fat_file m p = \<lparr>Attributes = m p, Filesize = load32 m (p + 4), FATChain = load32 m (p + 8)\<rparr>"

definition fat_open :: "u32 \<Rightarrow> u32 \<Rightarrow> ('a filesystems_scheme, u32) prog" where
  "fat_open path mount =
     bnd (malloc_p sizeof_FILE) (\<lambda>file.
     bnd (reads_of (\<lambda>s. load32 (ram s) (file + 4))) (\<lambda>stale.
     seq (set_file file (Some \<lparr>file_mount = mount, fsContext = stale, filePointer = 0\<rparr>)) (
     bnd (malloc_p sizeof_FatFileInfo) (\<lambda>fileInfo.
     seq (\<lambda>s. set_fat_file fileInfo (Some (stale_fat_file (ram s) fileInfo)) s) (
     bnd (fat_findFile mount path fileInfo) (\<lambda>found.
     if \<not> found then ret 0
     else
       bnd (get_file file) (\<lambda>f.
       seq (set_file file (Some (f\<lparr>fsContext := fileInfo\<rparr>))) (ret file))))))))"

definition fat_close :: "u32 \<Rightarrow> ('a filesystems_scheme, bool) prog" where
  "fat_close f =
     (if f = 0 then ret True
      else
        bnd (get_file f) (\<lambda>file.
        seq (if fsContext file \<noteq> 0 then
               bnd (get_fat_file (fsContext file)) (\<lambda>fi.
               seq (if FATChain fi \<noteq> 0 then free_p (FATChain fi) else ret ()) (
               seq (free_p (fsContext file)) (set_fat_file (fsContext file) None)))
             else ret ()) (
        seq (free_p f) (
        seq (set_file f None) (
        ret True)))))"

section \<open>Reading and seeking\<close>

text \<open>The parts of \<open>fat_read\<close>: up to a cluster boundary, whole clusters, the rest.\<close>

definition advance :: "u32 \<Rightarrow> u32 \<Rightarrow> ('a filesystems_scheme, unit) prog" where
  "advance f n = bnd (get_file f) (\<lambda>file. set_file f (Some (file\<lparr>filePointer := filePointer file + n\<rparr>)))"

definition read_head :: "u32 \<Rightarrow> u32 \<Rightarrow> FatFileInfo \<Rightarrow> u32 \<Rightarrow> u32 \<Rightarrow> u32 \<Rightarrow> ('a filesystems_scheme, (u32 \<times> u32 \<times> u32) option) prog" where
  "read_head f mount fi bytesPerCluster sz buffer =
     bnd (get_file f) (\<lambda>file.
     let pos = filePointer file; offsetInCluster = pos mod bytesPerCluster
     in if offsetInCluster \<noteq> 0 then
          bnd (chain_cluster fi (pos div bytesPerCluster)) (\<lambda>clusterNumber.
          let len = (if bytesPerCluster - offsetInCluster < sz then bytesPerCluster - offsetInCluster else sz)
          in bnd (fat_readPartialCluster mount clusterNumber offsetInCluster len buffer) (\<lambda>done.
             if \<not> done then ret None
             else seq (advance f len) (ret (Some (len, sz - len, buffer + len)))))
        else ret (Some (0, sz, buffer)))"

definition read_middle :: "u32 \<Rightarrow> u32 \<Rightarrow> FatFileInfo \<Rightarrow> u32 \<Rightarrow> u32 \<times> u32 \<times> u32 \<Rightarrow> ('a filesystems_scheme, (u32 \<times> u32 \<times> u32) option) prog" where
  "read_middle f mount fi bytesPerCluster r =
     (case r of (bytesRead, sz, buffer) \<Rightarrow>
        let numberOfClusters = sz div bytesPerCluster
        in if 0 < sz \<and> 0 < numberOfClusters then
             bnd (get_file f) (\<lambda>file.
             bnd (chain_cluster fi (filePointer file div bytesPerCluster)) (\<lambda>clusterNumber.
             bnd (fat_readClusterChain mount clusterNumber numberOfClusters buffer) (\<lambda>done.
             if \<not> done then ret None
             else
               let n = numberOfClusters * bytesPerCluster
               in seq (advance f n) (ret (Some (bytesRead + n, sz - n, buffer + n))))))
           else ret (Some (bytesRead, sz, buffer)))"

text \<open>The size is set to 0 before it is added to the file pointer.\<close>

definition read_tail :: "u32 \<Rightarrow> u32 \<Rightarrow> FatFileInfo \<Rightarrow> u32 \<Rightarrow> u32 \<times> u32 \<times> u32 \<Rightarrow> ('a filesystems_scheme, u32) prog" where
  "read_tail f mount fi bytesPerCluster r =
     (case r of (bytesRead, sz, buffer) \<Rightarrow>
        if 0 < sz then
          bnd (get_file f) (\<lambda>file.
          bnd (chain_cluster fi (filePointer file div bytesPerCluster)) (\<lambda>clusterNumber.
          bnd (fat_readPartialCluster mount clusterNumber 0 sz buffer) (\<lambda>done.
          if \<not> done then ret (- 7)
          else seq (advance f (sz - sz)) (ret (bytesRead + sz)))))
        else ret bytesRead)"

definition fat_read :: "u32 \<Rightarrow> u32 \<Rightarrow> u32 \<Rightarrow> ('a filesystems_scheme, u32) prog" where
  "fat_read f buffer sz =
     (if f = 0 then ret (- 1)
      else
        bnd (get_file f) (\<lambda>file.
        if file_mount file = 0 then ret (- 2)
        else
          bnd (get_mount (file_mount file)) (\<lambda>mount.
          if mount_context mount = 0 then ret (- 3)
          else if fsContext file = 0 then ret (- 4)
          else
            bnd (get_volume (mount_context mount)) (\<lambda>v.
            bnd (get_fat_file (fsContext file)) (\<lambda>fi.
            if Filesize fi \<le> filePointer file then ret 0
            else
              let sz = (if Filesize fi < filePointer file + sz then Filesize fi - filePointer file else sz);
                  bytesPerCluster = cluster_size v
              in if bytesPerCluster = 0 then stop DivideError
                 else
                   bnd (read_head f (file_mount file) fi bytesPerCluster sz buffer) (\<lambda>r.
                   case r of None \<Rightarrow> ret (- 5)
                   | Some r \<Rightarrow>
                       bnd (read_middle f (file_mount file) fi bytesPerCluster r) (\<lambda>r.
                       case r of None \<Rightarrow> ret 0
                       | Some r \<Rightarrow> read_tail f (file_mount file) fi bytesPerCluster r)))))))"

text \<open>The new file pointer; \<open>long\<close> is 32 bits and the comparisons are made in 64 bits where a cast says so.\<close>

definition seek_target :: "u32 \<Rightarrow> u32 \<Rightarrow> u32 \<Rightarrow> SeekMode \<Rightarrow> u32" where
  "seek_target pos filesize offset mode =
     (case mode of
        SEEK_SET \<Rightarrow> if sint offset < 0 then 0
          else if uint filesize < sint offset then filesize else offset
      | SEEK_END \<Rightarrow> if 0 \<le> sint offset then filesize
          else if uint filesize + sint offset < 0 then 0 else filesize + offset
      | SEEK_CUR \<Rightarrow> if uint pos + sint offset < 0 then 0
          else if filesize < pos + offset then filesize else pos + offset)"

text \<open>A null file is not positioned, but its position is printed: it is read through the null pointer.\<close>

definition fat_seek :: "u32 \<Rightarrow> u32 \<Rightarrow> SeekMode \<Rightarrow> ('a filesystems_scheme, unit) prog" where
  "fat_seek f offset mode =
     (if f = 0 then stop NullPointer
      else
        bnd (get_file f) (\<lambda>file.
        if fsContext file = 0 then ret ()
        else
          bnd (get_fat_file (fsContext file)) (\<lambda>fi.
          set_file f (Some (file\<lparr>filePointer := seek_target (filePointer file) (Filesize fi) offset mode\<rparr>)))))"

end
