(* ===== verification/Fs.thy ===== *)
theory Fs
  imports Fat
begin

text \<open>
  The file layer (fs.c): mounts on demand, and the file operations through the operations of the
  mount. There is one file system, so the calls through \<open>fsops\<close> go to the functions of \<open>fat_ops\<close>.
\<close>

section \<open>Mounts\<close>

definition mount_link :: "u32 \<Rightarrow> u32" where
  "mount_link m = m + mount_Link_offset"

definition fs_init :: "('a filesystems_scheme, unit) prog" where
  "fs_init s = on_links (INIT_LIST_HEAD (FsMountList s)) s"

definition first_mount :: "('a filesystems_scheme, u32) prog" where
  "first_mount = reads_of (\<lambda>s. list_entry (nxt (list_nodes s) (FsMountList s)) mount_Link_offset)"

text \<open>The next mount of a traversal: the node is a member of the mount, which has to exist still.\<close>

definition next_mount :: "u32 \<Rightarrow> ('a filesystems_scheme, u32) prog" where
  "next_mount m =
     bnd (get_mount m) (\<lambda>_. reads_of (\<lambda>s. list_entry (nxt (list_nodes s) (mount_link m)) mount_Link_offset))"

partial_function (option) shutdown_loop :: "u32 \<Rightarrow> 'a filesystems_scheme \<Rightarrow> (fault + unit \<times> 'a filesystems_scheme) option" where
  "shutdown_loop mount s =
     (if mount_link mount \<noteq> FsMountList s then
        seq (fat_umount mount) (bnd (next_mount mount) (\<lambda>m s. shutdown_loop m s)) s
      else ret () s)"

definition fs_shutdown :: "('a filesystems_scheme, unit) prog" where
  "fs_shutdown = bnd first_mount (\<lambda>m. shutdown_loop m)"

text \<open>The mount of the device with the name, or 0.\<close>

partial_function (option) find_mount_loop :: "u32 \<Rightarrow> u32 \<Rightarrow> 'a filesystems_scheme \<Rightarrow> (fault + u32 \<times> 'a filesystems_scheme) option" where
  "find_mount_loop devicename mount s =
     (if mount_link mount \<noteq> FsMountList s then
        bnd (get_mount mount) (\<lambda>m.
        bnd (lift_option (\<lambda>s. strcmp (ram s) devicename (device_name (Device m)))) (\<lambda>c s.
          if c = 0 then ret mount s
          else bnd (next_mount mount) (\<lambda>m s. find_mount_loop devicename m s) s)) s
      else ret 0 s)"

definition filesystem_handlers :: "(u32 \<Rightarrow> ('a filesystems_scheme, u32) prog) list" where
  "filesystem_handlers = [fat_mount]"

primrec try_mount :: "(u32 \<Rightarrow> ('a filesystems_scheme, u32) prog) list \<Rightarrow> u32 \<Rightarrow> ('a filesystems_scheme, u32) prog" where
  "try_mount [] device = ret 0"
| "try_mount (h # hs) device = bnd (h device) (\<lambda>m. if m \<noteq> 0 then ret m else try_mount hs device)"

section \<open>File operations\<close>

definition open_file :: "u32 \<Rightarrow> ('a filesystems_scheme, u32) prog" where
  "open_file path =
     bnd (lift_option (\<lambda>s. strchr (ram s) path 0x29)) (\<lambda>filename.
     if filename = 0 then ret 0
     else
       let filename = filename + 1; len = filename - path
       in bnd (malloc_p (len + 1)) (\<lambda>devicename.
          seq (memset_p devicename 0 (len + 1)) (
          seq (memcpy_p devicename path len) (
          bnd (reads_of (\<lambda>s. if is_slash (ram s filename) then filename + 1 else filename)) (\<lambda>filename.
          bnd first_mount (\<lambda>m.
          bnd (find_mount_loop devicename m) (\<lambda>mount.
          if mount \<noteq> 0 then seq (free_p devicename) (fat_open filename mount)
          else
            bnd (disk_getDeviceByName devicename) (\<lambda>device.
            seq (free_p devicename) (
            if device = 0 then ret 0
            else
              bnd (try_mount filesystem_handlers device) (\<lambda>fsmount.
              if fsmount = 0 then ret 0
              else
                seq (\<lambda>s. on_links (list_add (mount_link fsmount) (FsMountList s)) s)
                  (fat_open filename fsmount)))))))))))"

text \<open>The file's mount and its operations are read through the file.\<close>

definition file_ops :: "u32 \<Rightarrow> ('a filesystems_scheme, fs_driver) prog" where
  "file_ops f = bnd (get_file f) (\<lambda>file. bnd (get_mount (file_mount file)) (\<lambda>m. ret (fsops m)))"

definition close_file :: "u32 \<Rightarrow> ('a filesystems_scheme, bool) prog" where
  "close_file f = (if f \<noteq> 0 then bnd (file_ops f) (\<lambda>ops. case ops of FatDriver \<Rightarrow> fat_close f) else ret False)"

definition seek_file :: "u32 \<Rightarrow> u32 \<Rightarrow> SeekMode \<Rightarrow> ('a filesystems_scheme, unit) prog" where
  "seek_file f offset m =
     (if f \<noteq> 0 then bnd (file_ops f) (\<lambda>ops. case ops of FatDriver \<Rightarrow> fat_seek f offset m) else ret ())"

definition read_file :: "u32 \<Rightarrow> u32 \<Rightarrow> u32 \<Rightarrow> ('a filesystems_scheme, u32) prog" where
  "read_file f buffer sz =
     (if f \<noteq> 0 then bnd (file_ops f) (\<lambda>ops. case ops of FatDriver \<Rightarrow> fat_read f buffer sz) else ret 0)"

section \<open>Shutting down\<close>

lemma runs_free:
  assumes "heap_free (ram s) (default_heap s) p = Some (Inr m)" "default_heap s \<noteq> 0"
  shows "runs (free_p p) s Q \<longleftrightarrow> Q () (s\<lparr>ram := m\<rparr>)"
  using assms by (cases s) (simp add: runs_def free_p_def on_loader_def free_def loader.defs)

lemma umount_removes:
  assumes "runs (fat_umount m) s (\<lambda>_ _. True)" "m \<noteq> 0"
  shows "runs (fat_umount m) s (\<lambda>_ s'. mounts s' m = None)"
  using assms
  by (auto simp: fat_umount_def get_mount_def set_mount_def set_volume_def split: if_splits elim!: runs_weaken)

text \<open>\<open>fs_shutdown\<close> faults as soon as there is a mount: the first mount is unmounted, which releases it,
  and the traversal then reads the link of the released structure.\<close>

lemma fs_shutdown_uses_freed_mount:
  assumes "list_entry (nxt (list_nodes s) (FsMountList s)) mount_Link_offset = m" "m \<noteq> 0" "mount_link m \<noteq> FsMountList s"
    and "runs (fat_umount m) s (\<lambda>_ _. True)"
  shows "fs_shutdown s = Some (Inl OutOfBounds)"
proof -
  obtain u s' where u: "fat_umount m s = Some (Inr (u, s'))" "mounts s' m = None"
    using umount_removes [OF assms(4,2)] by (auto simp: runs_def)
  then have "shutdown_loop m s = Some (Inl OutOfBounds)"
    using assms(2,3) by (subst shutdown_loop.simps) (simp add: seq_def bnd_def next_mount_def get_mount_def deref_def)
  then show ?thesis using assms(1) by (simp add: fs_shutdown_def first_mount_def bnd_def reads_of_def)
qed

text \<open>The only mount is the allocated block of the heap.\<close>

definition one_mount :: filesystems where
  "one_mount = \<lparr>ram = example_heap, highestPhysicalPage = 0x1000, lowestPhysicalPage = 0, pageLookupTable = 0,
     FirmwareMemoryMap = 0, default_heap = 0x10000, bios_answer = (\<lambda>k i r m. (r, m)), bios_calls = 0, stack_pointer = 0x9000,
     list_nodes = \<lparr>nxt = (\<lambda>_. 0x10014 + 16), prv = (\<lambda>_. 0x10014 + 16)\<rparr>, DeviceList = 0, devices = (\<lambda>_. None), FsMountList = 0x500,
     mounts = (\<lambda>_. None)(0x10014 \<mapsto> \<lparr>fsops = FatDriver, Device = 0, umount = FatDriver, mount_context = 0\<rparr>),
     volumes = (\<lambda>_. None), files = (\<lambda>_. None), fat_files = (\<lambda>_. None)\<rparr>"

lemma one_mount_umount: "runs (fat_umount 0x10014) one_mount (\<lambda>_ _. True)"
proof -
  obtain m' where "heap_free example_heap 0x10000 (0x10010 + 4) = Some (Inr m')"
    using heap_free_correct [of example_heap "0x10000" "[]" "0x10010" 16 "[(0x10024, 0xFD8, True)]"] example_heap_inv
    by (auto simp: example_chunks_def)
  then have "heap_free (ram one_mount) (default_heap one_mount) 0x10014 = Some (Inr m')" by (simp add: one_mount_def)
  then have "runs (free_p 0x10014) one_mount (\<lambda>_ _. True)" by (subst runs_free) (simp_all add: one_mount_def)
  then show ?thesis
    by (auto simp: fat_umount_def get_mount_def set_mount_def one_mount_def elim!: runs_weaken)
qed

lemma fs_shutdown_uses_freed_mount_example: "fs_shutdown one_mount = Some (Inl OutOfBounds)"
  by (rule fs_shutdown_uses_freed_mount [of one_mount "0x10014"])
    (use one_mount_umount in \<open>simp_all add: one_mount_def list_entry_def mount_Link_offset_def mount_link_def\<close>)

end
