(* ===== verification/Paging.thy ===== *)
theory Paging
  imports PhysMem
begin

text \<open>
  The two-level page tables the loader builds for the kernel, paging.c. A page directory and its
  page tables are pages of 1024 32-bit entries in the byte memory, taken from the physical memory
  manager; an entry is the bit field \<open>struct page\<close>: present, writable, user in bits 0 to 2, the
  frame in bits 12 to 31. The arithmetic on addresses is 64 bits wide where the code's is.
\<close>

section \<open>The code\<close>

record paging = mm +
  pageDirectory :: u32

definition PAGE_SIZE :: u64 where
  "PAGE_SIZE = 4096"

text \<open>The mask is an \<open>unsigned int\<close>: on a 64-bit operand it clears the upper half as well.\<close>

definition PAGEALIGN_MASK :: u32 where
  "PAGEALIGN_MASK = 0xFFFFF000"

definition PAGE_ALIGN_DOWN :: "u64 \<Rightarrow> u64" where
  "PAGE_ALIGN_DOWN x = x AND ucast PAGEALIGN_MASK"

definition PAGE_ALIGN :: "u32 \<Rightarrow> u32" where
  "PAGE_ALIGN x = (x AND PAGEALIGN_MASK) + ucast PAGE_SIZE"

definition IS_PAGE_ALIGNED :: "u32 \<Rightarrow> bool" where
  "IS_PAGE_ALIGNED x \<longleftrightarrow> x mod ucast PAGE_SIZE = 0"

text \<open>A memory allocation, and clearing of the new page.\<close>

definition alloc_cleared :: "paging \<Rightarrow> MemoryType \<Rightarrow> fault + u32 \<times> paging" where
  "alloc_cleared s t =
     rbind (memory_allocate (mm.truncate s) 4096 t) (\<lambda>(p, s'). Inr (p, s\<lparr>ram := memset (ram s') p 0 4096\<rparr>))"

definition paging_allocateNonPAE :: "paging \<Rightarrow> fault + paging" where
  "paging_allocateNonPAE s =
     rbind (alloc_cleared s MemoryTypeGeexOSPageDirectory) (\<lambda>(p, s). Inr (s\<lparr>pageDirectory := p\<rparr>))"

definition pdir_index :: "u64 \<Rightarrow> u32" where
  "pdir_index v = ucast (drop_bit 22 v AND 0x3FF)"

definition ptbl_index :: "u64 \<Rightarrow> u32" where
  "ptbl_index v = ucast (drop_bit 12 v AND 0x3FF)"

definition pde_addr :: "paging \<Rightarrow> u32 \<Rightarrow> u32" where
  "pde_addr s i = pageDirectory s + 4 * i"

definition pde :: "paging \<Rightarrow> u32 \<Rightarrow> u32" where
  "pde s i = load32 (ram s) (pde_addr s i)"

definition pte_addr :: "paging \<Rightarrow> u32 \<Rightarrow> u32 \<Rightarrow> u32" where
  "pte_addr s i j = (pde s i AND 0xFFFFF000) + 4 * j"

definition pte :: "paging \<Rightarrow> u32 \<Rightarrow> u32 \<Rightarrow> u32" where
  "pte s i j = load32 (ram s) (pte_addr s i j)"

text \<open>The four assignments to the bit fields of an entry.\<close>

definition set_entry :: "u32 \<Rightarrow> u32 \<Rightarrow> bool \<Rightarrow> bool \<Rightarrow> u32" where
  "set_entry e frame usermode writable =
     (let e = (e AND 0xFFF) OR push_bit 12 (frame AND 0xFFFFF);
          e = e OR 1;
          e = (e AND NOT 2) OR (if writable then 2 else 0)
      in (e AND NOT 4) OR (if usermode then 4 else 0))"

definition paging_ensureTable :: "paging \<Rightarrow> u32 \<Rightarrow> fault + paging" where
  "paging_ensureTable s i =
     (if pde s i AND 1 = 0
      then rbind (alloc_cleared s MemoryTypeGeexOSPageStructures) (\<lambda>(newPageTbl, s).
             Inr (s\<lparr>ram := store32 (ram s) (pde_addr s i) (newPageTbl OR 3)\<rparr>))
      else Inr s)"

definition paging_mapVirtualMemoryNonPAE :: "paging \<Rightarrow> u64 \<Rightarrow> u64 \<Rightarrow> bool \<Rightarrow> bool \<Rightarrow> fault + paging" where
  "paging_mapVirtualMemoryNonPAE s physical virtual usermode writable =
     (let pdirIndex = pdir_index virtual; ptblIndex = ptbl_index virtual
      in rbind (paging_ensureTable s pdirIndex) (\<lambda>s.
           Inr (s\<lparr>ram := store32 (ram s) (pte_addr s pdirIndex ptblIndex)
             (set_entry (pte s pdirIndex ptblIndex) (ucast (drop_bit 12 physical AND 0xFFFFF))
               usermode writable)\<rparr>)))"

text \<open>The loops are over 64-bit addresses and do not end when the end address is too close to the
  top of the 64-bit range.\<close>

partial_function (option) map_range_loop :: "paging \<Rightarrow> u64 \<Rightarrow> u64 \<Rightarrow> u64 \<Rightarrow> bool \<Rightarrow> bool \<Rightarrow> (fault + paging) option" where
  "map_range_loop s p v e usermode writable =
     (if p < e then
        (case paging_mapVirtualMemoryNonPAE s p v usermode writable of
           Inl f \<Rightarrow> Some (Inl f)
         | Inr s \<Rightarrow> map_range_loop s (p + PAGE_SIZE) (v + PAGE_SIZE) e usermode writable)
      else Some (Inr s))"

definition paging_mapRangeNonPAE :: "paging \<Rightarrow> u64 \<Rightarrow> u64 \<Rightarrow> u32 \<Rightarrow> bool \<Rightarrow> bool \<Rightarrow> (fault + paging) option" where
  "paging_mapRangeNonPAE s physical virtual len usermode writable =
     (let physical = PAGE_ALIGN_DOWN physical;
          virtual = PAGE_ALIGN_DOWN virtual;
          len = (if IS_PAGE_ALIGNED len then len else PAGE_ALIGN len)
      in map_range_loop s physical virtual (physical + ucast len) usermode writable)"

definition paging_isAddressPresentNonPAE :: "paging \<Rightarrow> u64 \<Rightarrow> bool" where
  "paging_isAddressPresentNonPAE s virtual =
     (if pde s (pdir_index virtual) AND 1 = 0 then False
      else pte s (pdir_index virtual) (ptbl_index virtual) AND 1 = 1)"

partial_function (option) range_free_loop :: "paging \<Rightarrow> u64 \<Rightarrow> u64 \<Rightarrow> bool option" where
  "range_free_loop s v e =
     (if v < e then
        (if paging_isAddressPresentNonPAE s v then Some False else range_free_loop s (v + PAGE_SIZE) e)
      else Some True)"

definition paging_isRangeFreeNonPAE :: "paging \<Rightarrow> u64 \<Rightarrow> u32 \<Rightarrow> bool option" where
  "paging_isRangeFreeNonPAE s virtual len =
     (let virtual = PAGE_ALIGN_DOWN virtual;
          len = (if IS_PAGE_ALIGNED len then len else PAGE_ALIGN len)
      in range_free_loop s virtual (virtual + ucast len))"

partial_function (option) find_range_loop :: "paging \<Rightarrow> u32 \<Rightarrow> u64 \<Rightarrow> u32 \<Rightarrow> u64 option" where
  "find_range_loop s sz curAddr continousFreeSpace =
     (if curAddr \<noteq> 0 then
        if sz \<le> continousFreeSpace then Some (curAddr - ucast sz)
        else find_range_loop s sz (curAddr + PAGE_SIZE)
          (if paging_isAddressPresentNonPAE s curAddr then 0 else continousFreeSpace + ucast PAGE_SIZE)
      else Some 0)"

definition paging_findFreeRangeNonPAE :: "paging \<Rightarrow> u64 \<Rightarrow> u32 \<Rightarrow> u64 option" where
  "paging_findFreeRangeNonPAE s base sz = find_range_loop s sz base 0"

text \<open>
  The entry points in arch.c: \<open>executable\<close> is ignored, and no page is a user page. The result of
  asking the processor for physical address extension changes only what is printed.
\<close>

definition arch_initialize_virtual_memory :: "paging \<Rightarrow> fault + paging" where
  "arch_initialize_virtual_memory s = paging_allocateNonPAE s"

definition arch_map_virtual_memory :: "paging \<Rightarrow> u64 \<Rightarrow> u64 \<Rightarrow> bool \<Rightarrow> bool \<Rightarrow> fault + paging" where
  "arch_map_virtual_memory s physical virtual writable executable =
     paging_mapVirtualMemoryNonPAE s physical virtual False writable"

definition arch_map_virtual_memory_range ::
    "paging \<Rightarrow> u64 \<Rightarrow> u64 \<Rightarrow> u32 \<Rightarrow> bool \<Rightarrow> bool \<Rightarrow> (fault + paging) option" where
  "arch_map_virtual_memory_range s physical virtual len writable executable =
     paging_mapRangeNonPAE s physical virtual len False writable"

definition arch_is_virtual_memory_range_free :: "paging \<Rightarrow> u64 \<Rightarrow> u32 \<Rightarrow> bool option" where
  "arch_is_virtual_memory_range_free s virtual len = paging_isRangeFreeNonPAE s virtual len"

definition arch_find_free_virtual_memory_region :: "paging \<Rightarrow> u64 \<Rightarrow> u32 \<Rightarrow> u64 option" where
  "arch_find_free_virtual_memory_region s base len = paging_findFreeRangeNonPAE s base len"

section \<open>What the processor translates to\<close>

text \<open>The physical address of a virtual one, and the flags of the entry; \<open>None\<close> is a page fault.\<close>

definition translate :: "paging \<Rightarrow> u64 \<Rightarrow> (u32 \<times> bool \<times> bool) option" where
  "translate s v =
     (if paging_isAddressPresentNonPAE s v
      then (let e = pte s (pdir_index v) (ptbl_index v)
            in Some ((e AND 0xFFFFF000) OR (ucast v AND 0xFFF), bit e 1, bit e 2))
      else None)"

section \<open>The invariant\<close>

text \<open>
  The address is that of a page whose entry of the lookup table is not free; no part of the table
  is in it.
\<close>

definition page_at :: "paging \<Rightarrow> nat \<Rightarrow> nat" where
  "page_at s j = (unat (lowestPhysicalPage s) + j) * 4096"

definition span :: "paging \<Rightarrow> nat" where
  "span s = page_span (mm.truncate s)"

definition type_of_page :: "paging \<Rightarrow> nat \<Rightarrow> MemoryType" where
  "type_of_page s j = page_type (mm.truncate s) j"

definition off_table :: "paging \<Rightarrow> u32 \<Rightarrow> bool" where
  "off_table s a \<longleftrightarrow> sep (pageLookupTable s) (12 * span s) a 4096"

definition in_use :: "paging \<Rightarrow> u32 \<Rightarrow> bool" where
  "in_use s a \<longleftrightarrow> off_table s a \<and>
     (\<exists>j < span s. type_of_page s j \<noteq> MemoryTypeFree \<and> unat a = page_at s j)"

text \<open>
  The lookup table fits, physical addresses fit 64 bits, and no free page holds a part of the table.
\<close>

definition mm_ok :: "paging \<Rightarrow> bool" where
  "mm_ok s \<longleftrightarrow> lowestPhysicalPage s \<le> highestPhysicalPage s
     \<and> unat (highestPhysicalPage s) < 2 ^ 51
     \<and> unat (pageLookupTable s) + 12 * span s \<le> 4294967296
     \<and> (\<forall>j < span s. type_of_page s j = MemoryTypeFree \<longrightarrow> page_at s j < 4294967296 \<longrightarrow>
          off_table s (of_nat (page_at s j)))"

definition present :: "paging \<Rightarrow> u32 \<Rightarrow> bool" where
  "present s i \<longleftrightarrow> pde s i AND 1 \<noteq> 0"

definition table_of :: "paging \<Rightarrow> u32 \<Rightarrow> u32" where
  "table_of s i = pde s i AND 0xFFFFF000"

text \<open>The directory and the tables are different pages that are in use.\<close>

definition pg_inv :: "paging \<Rightarrow> bool" where
  "pg_inv s \<longleftrightarrow> mm_ok s \<and> in_use s (pageDirectory s)
     \<and> (\<forall>i<1024. present s i \<longrightarrow> in_use s (table_of s i) \<and> table_of s i \<noteq> pageDirectory s)
     \<and> (\<forall>i<1024. \<forall>j<1024. present s i \<longrightarrow> present s j \<longrightarrow> table_of s i = table_of s j \<longrightarrow> i = j)"

section \<open>Pages and entries\<close>

lemma in_use_aligned: "in_use s a \<Longrightarrow> unat a mod 4096 = 0"
  by (auto simp: in_use_def page_at_def)

lemma aligned_room: "unat (a :: u32) mod 4096 = 0 \<Longrightarrow> unat a + 4096 \<le> 4294967296"
proof -
  assume "unat a mod 4096 = 0"
  then obtain k where k: "unat a = 4096 * k" by (meson dvdE mod_0_imp_dvd)
  with unat_bound32 [of a] have "k + 1 \<le> 1048576" by simp
  with k show ?thesis by simp
qed

lemma pages_sep:
  assumes "unat (a :: u32) mod 4096 = 0" "unat (b :: u32) mod 4096 = 0" "a \<noteq> b"
  shows "sep a 4096 b 4096"
proof -
  have ne: "unat a \<noteq> unat b" using assms(3) by (simp add: word_eq_unat_iff)
  obtain k l where kl: "unat a = 4096 * k" "unat b = 4096 * l"
    using assms(1,2) by (meson dvdE mod_0_imp_dvd)
  with ne have "k + 1 \<le> l \<or> l + 1 \<le> k" by auto
  with kl have "unat a + 4096 \<le> unat b \<or> unat b + 4096 \<le> unat a" by auto
  then show ?thesis
    using aligned_room [OF assms(1)] aligned_room [OF assms(2)] sep_below sep_above by blast
qed

lemma unat_4: "j < 1024 \<Longrightarrow> unat (4 * j :: u32) = 4 * unat j"
  by (simp add: unat_word_ariths take_bit_eq_mod word_less_nat_alt)

lemma entry_in_page: "j < 1024 \<Longrightarrow> sep a 4096 b k \<Longrightarrow> sep (a + 4 * j) 4 b k"
  using sep_sub [of a 4096 b k "4 * unat j" 4] by (simp add: word_less_nat_alt)

lemma entries_sep:
  assumes "i < 1024" "j < 1024" "i \<noteq> j"
  shows "sep (a + 4 * i) 4 (a + 4 * j) (4 :: nat)"
proof -
  have u: "unat (4 * i) = 4 * unat i" "unat (4 * j) = 4 * unat j" "unat i < 1024" "unat j < 1024"
    using assms unat_4 by (auto simp: word_less_nat_alt)
  have "unat i < unat j \<or> unat j < unat i" using assms(3) by (metis nat_neq_iff word_eq_unat_iff)
  then have "sep (4 * i) 4 (4 * j) (4 :: nat)"
    using sep_below [of "4 * i" 4 "4 * j" 4] sep_above [of "4 * j" 4 "4 * i" 4] u by auto
  then show ?thesis by simp
qed

lemma agree_entry: "j < 1024 \<Longrightarrow> agree m m' a 4096 \<Longrightarrow> load32 m (a + 4 * j) = load32 m' (a + 4 * j)"
  using load32_cong agree_sub [of m m' a 4096 "4 * unat j" 4] by (simp add: word_less_nat_alt)

lemma aligned_low:
  assumes "unat (p :: u32) mod 4096 = 0"
  shows "p AND 0xFFF = 0"
proof -
  have m: "(0xFFF :: u32) = mask 12" by (simp add: mask_eq_exp_minus_1)
  have "unat (take_bit 12 p) = take_bit 12 (unat p)" by (rule unsigned_take_bit_eq)
  then have "take_bit 12 p = 0" using assms by (simp add: take_bit_eq_mod flip: unat_eq_0)
  then show ?thesis unfolding m take_bit_eq_mask .
qed

lemma new_entry:
  assumes "unat (p :: u32) mod 4096 = 0"
  shows "(p OR 3) AND 0xFFFFF000 = p" "(p OR 3) AND 1 \<noteq> 0"
proof -
  have m: "(0xFFFFF000 :: u32) = NOT 0xFFF" by simp
  have "p = (p AND 0xFFF) OR (p AND NOT 0xFFF)"
    by (rule bit_word_eqI) (auto simp: bit_simps)
  then have "p AND NOT 0xFFF = p" using aligned_low [OF assms] by simp
  moreover have "(3 :: u32) AND NOT 0xFFF = 0" by simp
  ultimately show "(p OR 3) AND 0xFFFFF000 = p"
    unfolding m by (simp add: bit.conj_disj_distrib2 del: word_and_not)
  have "bit ((p OR 3) AND 1) 0" by (simp add: bit_simps)
  then show "(p OR 3) AND 1 \<noteq> 0" by auto
qed
section \<open>A new page\<close>

lemma mm_part [simp]:
  "lowestPhysicalPage (mm.truncate s) = lowestPhysicalPage (s :: paging)"
  "highestPhysicalPage (mm.truncate s) = highestPhysicalPage (s :: paging)"
  "pageLookupTable (mm.truncate s) = pageLookupTable (s :: paging)"
  "ram (mm.truncate s) = ram (s :: paging)"
  by (simp_all add: mm.truncate_def)

lemma span_cong [simp]:
  "span (s\<lparr>ram := m\<rparr>) = span s" "span (s\<lparr>pageDirectory := d\<rparr>) = span s"
  "page_at (s\<lparr>ram := m\<rparr>) j = page_at s j" "page_at (s\<lparr>pageDirectory := d\<rparr>) j = page_at s j"
  "off_table (s\<lparr>ram := m\<rparr>) a = off_table s a" "off_table (s\<lparr>pageDirectory := d\<rparr>) a = off_table s a"
  by (simp_all add: span_def page_at_def page_span_def off_table_def)

lemma lookup_item_of: "lookup_item (mm.truncate s) j = pageLookupTable (s :: paging) + 12 * of_nat j"
  by (simp add: lookup_item_def)

lemma type_of_page_cong:
  "agree (ram s) m (pageLookupTable s) (12 * span s) \<Longrightarrow> j < span s \<Longrightarrow>
     type_of_page (s\<lparr>ram := m\<rparr>) j = type_of_page s j"
  using load32_cong [of "ram s" m "pageLookupTable s + 12 * of_nat j"]
    agree_sub [of "ram s" m "pageLookupTable s" "12 * span s" "12 * j" 4]
  by (simp add: type_of_page_def page_type_def lookup_item_of)

text \<open>Writing outside the lookup table keeps the invariant of the memory manager.\<close>

lemma mm_ok_write:
  assumes "agree (ram s) m (pageLookupTable s) (12 * span s)"
  shows "mm_ok (s\<lparr>ram := m\<rparr>) = mm_ok s" "in_use (s\<lparr>ram := m\<rparr>) a = in_use s a"
  using type_of_page_cong [OF assms] by (auto simp: mm_ok_def in_use_def)

lemma unat_page64: "unat (x :: u64) < 4503599627370496 \<Longrightarrow> unat (x * 4096) = unat x * 4096"
  by (simp add: unat_word_ariths take_bit_eq_mod)

lemma page_addr_unat:
  assumes "mm_ok s" "j < span s" "\<not> 0xFFFFFFFF < (lowestPhysicalPage s + of_nat j + 1) * (4096 :: u64)"
  shows "unat (ucast ((lowestPhysicalPage s + of_nat j) * 4096) :: u32) = page_at s j"
proof -
  let ?l = "unat (lowestPhysicalPage s)" and ?h = "unat (highestPhysicalPage s)"
  have le: "?l \<le> ?h" "?h < 2251799813685248"
    using assms(1) by (simp_all add: mm_ok_def word_le_nat_alt)
  have "span s = ?h - ?l"
    using le by (simp add: span_def page_span_def unat_sub_le word_le_nat_alt)
  with assms(2) le have lj: "?l + j < 2251799813685248" by simp
  then have u: "unat (lowestPhysicalPage s + of_nat j) = ?l + j"
    by (subst unat_add64) (simp_all add: unat_of_nat64)
  then have u1: "unat (lowestPhysicalPage s + of_nat j + 1) = ?l + j + 1"
    using lj by (subst unat_add64) simp_all
  have m: "unat ((lowestPhysicalPage s + of_nat j) * 4096) = page_at s j"
    using unat_page64 [of "lowestPhysicalPage s + of_nat j"] lj unfolding u page_at_def by simp
  have m1: "unat ((lowestPhysicalPage s + of_nat j + 1) * 4096) = page_at s j + 4096"
    using unat_page64 [of "lowestPhysicalPage s + of_nat j + 1"] lj unfolding u1 page_at_def by simp
  have "page_at s j + 4096 \<le> 4294967295"
    using assms(3) m1 by (simp add: not_less word_le_nat_alt)
  then show ?thesis
    using m by (simp add: unsigned_ucast_eq take_bit_eq_mod)
qed

text \<open>
  The page is one that was free; it is cleared, its entry of the table has the type, every other
  entry and every byte outside the table and the page is as before.
\<close>

lemma alloc_cleared_effect:
  assumes ok: "alloc_cleared s t = Inr (p, s')" and inv: "mm_ok s"
  obtains j where "j < span s" "type_of_page s j = MemoryTypeFree" "unat p = page_at s j"
    "\<forall>i < span s. type_of_page s' i = (if i = j then t else type_of_page s i)"
    "s' = s\<lparr>ram := ram s'\<rparr>" "load_bytes (ram s') p 4096 = replicate 4096 0" "off_table s p"
    "\<And>b k. sep (pageLookupTable s) (12 * span s) b k \<Longrightarrow> sep p 4096 b k \<Longrightarrow> agree (ram s) (ram s') b k"
proof -
  from ok obtain s1 where a: "memory_allocate (mm.truncate s) 4096 t = Inr (p, s1)"
    and s': "s' = s\<lparr>ram := memset (ram s1) p 0 4096\<rparr>"
    by (auto simp: alloc_cleared_def rbind_Inr_iff)
  have cnt: "PAGE_START (ucast (4096 :: u32)) div ucast arch_pagesize = (1 :: u64)"
    using pages_floor [of 4096] by (simp add: word_eq_unat_iff)
  have tf: "table_fits (mm.truncate s) (span s)"
    using inv by (simp add: table_fits_def mm_ok_def)
  from a obtain first where f: "memory_find_available_pages (mm.truncate s) 1 = Inr first"
    "memory_mark_pages (mm.truncate s) first 1 t = Inr s1" "p = ucast (first * 4096)"
    "\<not> 0xFFFFFFFF < (first + 1) * (4096 :: u64)"
    using memory_allocate_cases [OF a, unfolded cnt] by blast
  from find_available_correct [of 1 "mm.truncate s"] f(1) obtain j where
    j: "first = lowestPhysicalPage s + of_nat j" "j + 1 \<le> span s" "type_of_page s j = MemoryTypeFree"
    by (auto simp: span_def free_run_def type_of_page_def)
  have jl: "j < span s" using j(2) by simp
  have u: "unat (first - lowestPhysicalPage s) = j"
    using page_unat [of first "mm.truncate s" j 1] j by (simp add: span_def)
  have p: "unat p = page_at s j"
    using page_addr_unat [OF inv jl] f(3,4) j(1) by simp
  have pt: "off_table s p"
    using inv j(3) jl p unat_bound32 [of p] by (auto simp: mm_ok_def simp flip: p)
  have s1: "s1 = (mm.truncate s)\<lparr>ram := mark_loop 1 (ram s) (lookup_item (mm.truncate s) j) t\<rparr>"
    using mark_pages_InrD [OF f(2)] u by simp
  have fr: "agree (ram s1) (ram s') b k" if "sep p 4096 b k" for b k
    using memset_frame [of p 4096 b k] that by (simp add: s')
  have fm: "agree (ram s) (ram s1) b k" if "sep (pageLookupTable s) (12 * span s) b k" for b k
  proof -
    have "sep (pageLookupTable s + of_nat (12 * j)) 12 b k"
      using that by (rule sep_sub) (use jl in simp)
    then have "sep (lookup_item (mm.truncate s) j) (12 * 1) b k" by (simp add: lookup_item_of)
    then show ?thesis unfolding s1 by (simp add: mark_loop_frame del: mark_loop.simps)
  qed
  have ty: "type_of_page s' i = (if i = j then t else type_of_page s i)" if "i < span s" for i
  proof -
    have "page_type s1 i = (if i = j then t else type_of_page s i)"
      using page_type_mark [OF f(2) tf _ that] u jl that by (auto simp: type_of_page_def)
    moreover have "agree (ram s1) (ram s') (pageLookupTable s) (12 * span s)"
      using fr pt sep_sym by (auto simp: off_table_def)
    then have "agree (ram s1) (ram s') (pageLookupTable s + of_nat (12 * i)) 4"
      by (rule agree_sub) (use that in simp)
    then have "type_of_page s' i = page_type s1 i"
      using load32_cong by (simp add: type_of_page_def page_type_def lookup_item_def s1 s')
    ultimately show ?thesis by simp
  qed
  show thesis
  proof (rule that [OF jl j(3) p _ _ _ pt])
    show "load_bytes (ram s') p 4096 = replicate 4096 0"
      using memset_value [of "ram s1" p 0 4096] by (simp add: s')
    show "agree (ram s) (ram s') b k"
      if "sep (pageLookupTable s) (12 * span s) b k" "sep p 4096 b k" for b k
      by (rule agree_trans [OF fm [OF that(1)] fr [OF that(2)]])
  qed (use ty s' in auto)
qed
section \<open>Writing entries\<close>

lemma pde_write: "i < 1024 \<Longrightarrow> agree (ram s) m (pageDirectory s) 4096 \<Longrightarrow> pde (s\<lparr>ram := m\<rparr>) i = pde s i"
  using agree_entry [of i "ram s" m "pageDirectory s"] by (simp add: pde_def pde_addr_def)

lemma pg_inv_write:
  assumes "agree (ram s) m (pageLookupTable s) (12 * span s)" "agree (ram s) m (pageDirectory s) 4096"
  shows "pg_inv (s\<lparr>ram := m\<rparr>) = pg_inv s"
  using pde_write [OF _ assms(2)] mm_ok_write [OF assms(1)]
  by (simp add: pg_inv_def present_def table_of_def)

lemma pte_eq: "pte s i j = load32 (ram s) (table_of s i + 4 * j)"
  by (simp add: pte_def pte_addr_def table_of_def)

lemma pg_invD:
  assumes "pg_inv s"
  shows "mm_ok s" "in_use s (pageDirectory s)" "off_table s (pageDirectory s)"
    "unat (pageDirectory s) mod 4096 = 0"
    "i < 1024 \<Longrightarrow> present s i \<Longrightarrow> in_use s (table_of s i)"
    "i < 1024 \<Longrightarrow> present s i \<Longrightarrow> off_table s (table_of s i)"
    "i < 1024 \<Longrightarrow> present s i \<Longrightarrow> unat (table_of s i) mod 4096 = 0"
    "i < 1024 \<Longrightarrow> present s i \<Longrightarrow> table_of s i \<noteq> pageDirectory s"
    "i < 1024 \<Longrightarrow> j < 1024 \<Longrightarrow> present s i \<Longrightarrow> present s j \<Longrightarrow> table_of s i = table_of s j \<Longrightarrow> i = j"
  using assms in_use_aligned unfolding pg_inv_def in_use_def by blast+

text \<open>Writing an entry of a table changes that entry only.\<close>

lemma write_pte:
  assumes inv: "pg_inv s" and ij: "i < 1024" "j < 1024" "present s i"
    and s'_def: "s' = s\<lparr>ram := store32 (ram s) (pte_addr s i j) e\<rparr>"
  shows "pg_inv s'" "k < 1024 \<Longrightarrow> pde s' k = pde s k"
    "k < 1024 \<Longrightarrow> l < 1024 \<Longrightarrow> present s k \<Longrightarrow> pte s' k l = (if k = i \<and> l = j then e else pte s k l)"
proof -
  let ?T = "table_of s i"
  have addr: "pte_addr s i j = ?T + 4 * j" by (simp add: pte_addr_def table_of_def)
  have fr: "agree (ram s) (ram s') b n" if "sep ?T 4096 b n" for b n
    using store32_frame [OF entry_in_page [OF ij(2) that]] by (simp add: s'_def addr)
  have ds: "sep ?T 4096 (pageDirectory s) 4096"
    by (rule pages_sep) (use pg_invD [OF inv] ij in auto)
  have "agree (ram s) (ram s') (pageLookupTable s) (12 * span s)"
    using fr pg_invD(6) [OF inv ij(1,3)] sep_sym by (auto simp: off_table_def)
  moreover note dd = fr [OF ds]
  ultimately show "pg_inv s'"
    using inv pg_inv_write [of s "ram s'"] by (simp add: s'_def)
  show pk: "pde s' k = pde s k" if "k < 1024" for k
    using pde_write [OF that, of s "ram s'"] dd by (simp add: s'_def)
  assume k: "k < 1024" "l < 1024" "present s k"
  then have t: "table_of s' k = table_of s k" using pk by (simp add: table_of_def)
  show "pte s' k l = (if k = i \<and> l = j then e else pte s k l)"
  proof (cases "k = i")
    case True
    then show ?thesis
      using entries_sep [OF ij(2) k(2), of ?T]
      unfolding pte_eq t by (auto simp: s'_def addr c32.load_store_sep)
  next
    case False
    then have "table_of s i \<noteq> table_of s k" using pg_invD(9) [OF inv ij(1) k(1) ij(3) k(3)] by blast
    then have "sep ?T 4096 (table_of s k) 4096"
      by (intro pages_sep pg_invD(7) [OF inv] ij k)
    then show ?thesis using False agree_entry [OF k(2) fr] by (simp add: pte_eq t)
  qed
qed

text \<open>Making sure a table is there: the existing tables are unchanged, a new one is empty.\<close>

lemma zero_page: "load_bytes m p 4096 = replicate 4096 0 \<Longrightarrow> l < 1024 \<Longrightarrow> load32 m (p + 4 * l) = 0"
proof -
  assume z: "load_bytes m p 4096 = replicate 4096 0" and l: "l < 1024"
  have b: "m (p + of_nat x) = 0" if "x < 4096" for x
    using arg_cong [OF z, of "\<lambda>xs. xs ! x"] that by simp
  have u: "unat l < 1024" using l by (simp add: word_less_nat_alt)
  have n: "p + 4 * l = p + of_nat (4 * unat l)" by simp
  have "m (p + 4 * l) = 0" "m (p + 4 * l + 1) = 0" "m (p + 4 * l + 2) = 0" "m (p + 4 * l + 3) = 0"
    using b [of "4 * unat l"] b [of "4 * unat l + 1"] b [of "4 * unat l + 2"] b [of "4 * unat l + 3"] u
    unfolding n by (simp_all add: ac_simps)
  then show ?thesis by (simp only: load32_def) simp
qed

lemma ensure_table:
  assumes inv: "pg_inv s" and i: "i < 1024" and ok: "paging_ensureTable s i = Inr s'"
  shows "pg_inv s'" "present s' i" "s' = s\<lparr>ram := ram s'\<rparr>"
    "k < 1024 \<Longrightarrow> k \<noteq> i \<Longrightarrow> present s' k = present s k"
    "k < 1024 \<Longrightarrow> l < 1024 \<Longrightarrow> present s k \<Longrightarrow> pte s' k l = pte s k l"
    "\<not> present s i \<Longrightarrow> l < 1024 \<Longrightarrow> pte s' i l = 0"
proof -
  have "pg_inv s' \<and> present s' i \<and> s' = s\<lparr>ram := ram s'\<rparr>
    \<and> (\<forall>k<1024. k \<noteq> i \<longrightarrow> present s' k = present s k)
    \<and> (\<forall>k<1024. \<forall>l<1024. present s k \<longrightarrow> pte s' k l = pte s k l)
    \<and> (\<forall>l<1024. \<not> present s i \<longrightarrow> pte s' i l = 0)"
  proof (cases "present s i")
    case True
    then have "s' = s" using ok by (simp add: paging_ensureTable_def present_def)
    with True inv show ?thesis by simp
  next
    case False
    then obtain p s1 where a: "alloc_cleared s MemoryTypeGeexOSPageStructures = Inr (p, s1)"
      and s': "s' = s1\<lparr>ram := store32 (ram s1) (pde_addr s1 i) (p OR 3)\<rparr>"
      using ok by (auto simp: paging_ensureTable_def present_def rbind_Inr_iff)
    note D = pg_invD [OF inv]
    from alloc_cleared_effect [OF a D(1)] obtain x where x:
      "x < span s" "type_of_page s x = MemoryTypeFree" "unat p = page_at s x"
      "\<forall>y < span s. type_of_page s1 y = (if y = x then MemoryTypeGeexOSPageStructures else type_of_page s y)"
      "s1 = s\<lparr>ram := ram s1\<rparr>" "load_bytes (ram s1) p 4096 = replicate 4096 0" "off_table s p"
      "\<And>b k. sep (pageLookupTable s) (12 * span s) b k \<Longrightarrow> sep p 4096 b k \<Longrightarrow> agree (ram s) (ram s1) b k"
      by blast
    have pa: "unat p mod 4096 = 0" using x(3) by (simp add: page_at_def)
    have fresh: "p \<noteq> a" if "in_use s a" for a
      using that x(2,3) by (auto simp: in_use_def page_at_def)
    have psep: "sep p 4096 a 4096" if "in_use s a" for a
      using pages_sep [OF pa in_use_aligned [OF that] fresh [OF that]] .
    have keep: "agree (ram s) (ram s1) a 4096" if "in_use s a" for a
      using x(8) [OF _ psep [OF that]] that by (simp add: in_use_def off_table_def)
    define m1 where "m1 = ram s1"
    have s1: "s1 = s\<lparr>ram := m1\<rparr>" using x(5) by (simp add: m1_def)
    have d1: "pageDirectory s1 = pageDirectory s" "span s1 = span s" "pageLookupTable s1 = pageLookupTable s"
      "off_table s1 a = off_table s a" "page_at s1 y = page_at s y"
      "lowestPhysicalPage s1 = lowestPhysicalPage s" "highestPhysicalPage s1 = highestPhysicalPage s" for a y
      unfolding s1 by simp_all
    have t1: "type_of_page s1 y \<noteq> MemoryTypeFree"
      if "y < span s" "type_of_page s y \<noteq> MemoryTypeFree \<or> y = x" for y
      using x(4) that by auto
    have use1: "in_use s1 a" if "in_use s a" for a
      using that t1 by (auto simp: in_use_def d1)
    have usep: "in_use s1 p" using x(1,3,7) t1 by (auto simp: in_use_def d1)
    have st: "ram s' = store32 (ram s1) (pageDirectory s + 4 * i) (p OR 3)" "s' = s1\<lparr>ram := ram s'\<rparr>"
      using s' by (simp_all add: pde_addr_def d1)
    have fr: "agree (ram s1) (ram s') b n" if "sep (pageDirectory s) 4096 b n" for b n
      using store32_frame [OF entry_in_page [OF i that]] by (simp add: st(1))
    have plt: "agree (ram s1) (ram s') (pageLookupTable s1) (12 * span s1)"
      using fr D(3) sep_sym unfolding off_table_def d1 by blast
    have mm1: "mm_ok s1" 
      using D(1) t1 unfolding mm_ok_def d1 by blast
    have mm': "mm_ok s'" "in_use s' a = in_use s1 a" for a
      using mm1 mm_ok_write [OF plt] st(2) by metis+
    have pi: "pde s' i = p OR 3"
      using st d1 by (simp add: pde_def pde_addr_def)
    have pk: "pde s' k = pde s k" if "k < 1024" "k \<noteq> i" for k
      using entries_sep [OF i that(1) that(2) [symmetric], of "pageDirectory s"]
        agree_entry [OF that(1) keep [OF D(2)]] st d1
      by (simp add: pde_def pde_addr_def c32.load_store_sep)
    have ti: "table_of s' i = p" "present s' i"
      using new_entry [OF pa] pi by (simp_all add: table_of_def present_def)
    have tk: "table_of s' k = table_of s k" "present s' k = present s k" if "k < 1024" "k \<noteq> i" for k
      using pk [OF that] by (simp_all add: table_of_def present_def)
    have dir: "pageDirectory s' = pageDirectory s" using arg_cong [OF st(2), of pageDirectory] d1 by simp
    have use': "in_use s' (table_of s' k)" "table_of s' k \<noteq> pageDirectory s'" if "k < 1024" "present s' k" for k
      using that usep use1 D(5,8) fresh [OF D(2)] by (cases "k = i"; simp add: ti tk mm' dir)+
    have inj1: "table_of s' k \<noteq> p" if "k < 1024" "present s' k" "k \<noteq> i" for k
      using that fresh [of "table_of s k"] D(5) [OF that(1)] tk [OF that(1,3)] by simp
    have inj: "k = l" if kl: "k < 1024" "l < 1024" "present s' k" "present s' l" "table_of s' k = table_of s' l" for k l
    proof (cases "k = i \<or> l = i")
      case True
      then show ?thesis using inj1 [OF kl(1,3)] inj1 [OF kl(2,4)] kl(5) ti(1) by metis
    next
      case False
      then show ?thesis using D(9) [OF kl(1,2)] kl tk by simp
    qed
    have inv': "pg_inv s'"
      using mm' use1 [OF D(2)] use' inj unfolding pg_inv_def by (simp add: dir)
    have old: "pte s' k l = pte s k l" if k: "k < 1024" "l < 1024" "present s k" for k l
    proof -
      have ne: "k \<noteq> i" using k False by blast
      have "sep (pageDirectory s) 4096 (table_of s k) 4096"
        using D(8) [OF k(1,3)] by (intro pages_sep D k) simp
      then show ?thesis
        using agree_entry [OF k(2) fr] agree_entry [OF k(2) keep [OF D(5) [OF k(1,3)]]]
        by (simp add: pte_eq tk [OF k(1) ne])
    qed
    have zero: "pte s' i l = 0" if "l < 1024" for l
    proof -
      have "sep (pageDirectory s) 4096 p 4096" using psep [OF D(2)] sep_sym by blast
      then show ?thesis
        using agree_entry [OF that fr] zero_page [OF x(6) that] by (simp add: pte_eq ti)
    qed
    have "s' = s\<lparr>ram := ram s'\<rparr>" using st(2) s1 by simp
    with inv' ti tk old zero show ?thesis by blast
  qed
  then show "pg_inv s'" "present s' i" "s' = s\<lparr>ram := ram s'\<rparr>"
    "k < 1024 \<Longrightarrow> k \<noteq> i \<Longrightarrow> present s' k = present s k"
    "k < 1024 \<Longrightarrow> l < 1024 \<Longrightarrow> present s k \<Longrightarrow> pte s' k l = pte s k l"
    "\<not> present s i \<Longrightarrow> l < 1024 \<Longrightarrow> pte s' i l = 0" by blast+
qed
section \<open>The translation\<close>

lemma mask_nat: "unat ((x :: u64) AND 0x3FF) = unat x mod 1024"
proof -
  have m: "(0x3FF :: u64) = mask 10" by (simp add: mask_eq_exp_minus_1)
  have "unat (take_bit 10 x) = take_bit 10 (unat x)" by (rule unsigned_take_bit_eq)
  then show ?thesis unfolding m by (simp add: take_bit_eq_mod flip: take_bit_eq_mask)
qed

lemma index_unat:
  "unat (pdir_index v) = unat v div 4194304 mod 1024"
  "unat (ptbl_index v) = unat v div 4096 mod 1024"
proof -
  have a: "unat (ucast (x AND 0x3FF) :: u32) = unat x mod 1024" for x :: u64
    using mask_nat [of x] by (simp add: unsigned_ucast_eq take_bit_eq_mod) 
  show "unat (pdir_index v) = unat v div 4194304 mod 1024"
    "unat (ptbl_index v) = unat v div 4096 mod 1024"
    unfolding pdir_index_def ptbl_index_def a by (simp_all add: unat_drop_bit_div)
qed

lemma index_bound: "pdir_index v < 1024" "ptbl_index v < 1024"
  by (simp_all add: word_less_nat_alt index_unat)

definition same_page :: "u64 \<Rightarrow> u64 \<Rightarrow> bool" where
  "same_page v w \<longleftrightarrow> pdir_index v = pdir_index w \<and> ptbl_index v = ptbl_index w"

lemma same_page_iff:
  assumes "unat v < 4294967296" "unat w < 4294967296"
  shows "same_page v w \<longleftrightarrow> unat v div 4096 = unat w div 4096"
proof -
  let ?a = "unat v div 4096" and ?b = "unat w div 4096"
  have d: "unat x div 4194304 = unat x div 4096 div 1024" for x :: u64
    by (simp add: div_mult2_eq [symmetric])
  have "?a < 1048576" "?b < 1048576" using assms by simp_all
  then have s: "?a div 1024 mod 1024 = ?a div 1024" "?b div 1024 mod 1024 = ?b div 1024" by simp_all
  have "?a div 1024 = ?b div 1024 \<and> ?a mod 1024 = ?b mod 1024 \<longleftrightarrow> ?a = ?b"
    by (metis mult_div_mod_eq)
  then show ?thesis
    unfolding same_page_def word_eq_unat_iff index_unat d by (simp add: s)
qed

text \<open>The bits of the entry after the four assignments.\<close>

lemma bit_four: "bit (4 :: u32) n \<longleftrightarrow> n = 2" "bit (4 :: nat) n \<longleftrightarrow> n = 2" "bit (4 :: int) n \<longleftrightarrow> n = 2"
  using bit_exp_iff [of 2 n, where 'a = u32] bit_exp_iff [of 2 n, where 'a = nat]
    bit_exp_iff [of 2 n, where 'a = int] by auto

lemma set_entry_fields:
  "set_entry e (ucast (drop_bit 12 (p :: u64) AND 0xFFFFF)) u w AND 0xFFFFF000 = ucast p AND 0xFFFFF000"
  "set_entry e f u w AND 1 \<noteq> 0" "bit (set_entry e f u w) (Suc 0) = w" "bit (set_entry e f u w) 2 = u"
proof -
  have m: "(0xFFF :: u32) = mask 12" "(0xFFFFF :: u32) = mask 20" "(0xFFFFF :: u64) = mask 20"
    "(0xFFFFF000 :: u32) = push_bit 12 (mask 20)" "(2 :: u32) = push_bit 1 1"
    by (simp_all add: mask_eq_exp_minus_1)
  show "set_entry e (ucast (drop_bit 12 p AND 0xFFFFF)) u w AND 0xFFFFF000 = ucast p AND 0xFFFFF000"
    unfolding set_entry_def Let_def m
    by (rule bit_word_eqI) (auto simp: bit_simps bit_four)
  have "bit (set_entry e f u w AND 1) 0"
    unfolding set_entry_def Let_def m by (auto simp: bit_simps bit_four)
  then show "set_entry e f u w AND 1 \<noteq> 0" by auto
  show "bit (set_entry e f u w) (Suc 0) = w" "bit (set_entry e f u w) 2 = u"
    unfolding set_entry_def Let_def m by (auto simp: bit_simps bit_four)
qed

lemma and_1: "(x :: u32) AND 1 = 1 \<longleftrightarrow> x AND 1 \<noteq> 0"
  by (simp add: and_one_eq odd_iff_mod_2_eq_one)

definition flags_of :: "u32 \<Rightarrow> u64 \<Rightarrow> (u32 \<times> bool \<times> bool) option" where
  "flags_of e v = (if e AND 1 = 0 then None
     else Some ((e AND 0xFFFFF000) OR (ucast v AND 0xFFF), bit e 1, bit e 2))"

lemma translate_alt:
  "translate s v = (if present s (pdir_index v) then flags_of (pte s (pdir_index v) (ptbl_index v)) v else None)"
  by (auto simp: translate_def paging_isAddressPresentNonPAE_def present_def flags_of_def and_1 Let_def)

lemma map_page:
  assumes inv: "pg_inv s" and ok: "paging_mapVirtualMemoryNonPAE s p v usermode writable = Inr s'"
  shows "pg_inv s'" "translate s' x = (if same_page x v
     then Some ((ucast p AND 0xFFFFF000) OR (ucast x AND 0xFFF), writable, usermode) else translate s x)"
proof -
  let ?i = "pdir_index v" and ?j = "ptbl_index v"
  let ?e = "\<lambda>s. set_entry (pte s ?i ?j) (ucast (drop_bit 12 p AND 0xFFFFF)) usermode writable"
  from ok obtain s1 where e: "paging_ensureTable s ?i = Inr s1"
    and s': "s' = s1\<lparr>ram := store32 (ram s1) (pte_addr s1 ?i ?j) (?e s1)\<rparr>"
    by (auto simp: paging_mapVirtualMemoryNonPAE_def Let_def rbind_Inr_iff)
  note E = ensure_table [OF inv index_bound(1) e]
  note W = write_pte [OF E(1) index_bound E(2) s']
  show "pg_inv s'" by (rule W(1))
  have pr: "present s' k = present s1 k" if "k < 1024" for k
    using W(2) [OF that] by (simp add: present_def)
  have new: "pte s1 ?i l = 0" if "l < 1024" "\<not> present s ?i" for l using E(6) that by blast
  show "translate s' x = (if same_page x v
     then Some ((ucast p AND 0xFFFFF000) OR (ucast x AND 0xFFF), writable, usermode) else translate s x)"
  proof (cases "pdir_index x = ?i")
    case True
    have t: "translate s' x = flags_of (if ptbl_index x = ?j then ?e s1 else pte s1 ?i (ptbl_index x)) x"
      using W(3) [OF index_bound E(2), of x] E(2) pr [OF index_bound(1)] index_bound
      by (simp add: translate_alt True W(3))
    show ?thesis
    proof (cases "ptbl_index x = ?j")
      case True
      then show ?thesis
        using t \<open>pdir_index x = ?i\<close> by (simp add: same_page_def flags_of_def set_entry_fields)
    next
      case False
      have "flags_of (pte s1 ?i (ptbl_index x)) x = translate s x"
        using E(5) [OF index_bound, of v x] new [OF index_bound(2) [of x]]
        by (cases "present s ?i") (simp_all add: translate_alt True flags_of_def)
      then show ?thesis using t False by (simp add: same_page_def)
    qed
  next
    case False
    then show ?thesis
      using pr [OF index_bound(1), of x] E(4) [OF index_bound(1), of x] E(5) [OF index_bound, of x x]
        W(3) [OF index_bound, of x x]
      by (simp add: translate_alt same_page_def)
  qed
qed

lemma alloc_fault:
  assumes "alloc_cleared s t = Inl e"
  shows "e = PanicNoPages \<and> (\<forall>j < span s. type_of_page s j \<noteq> MemoryTypeFree)
    \<or> e = PanicMarkBounds \<or> e = PanicAllocHigh"
proof -
  have cnt: "PAGE_START (ucast (4096 :: u32)) div ucast arch_pagesize = (1 :: u64)"
    using pages_floor [of 4096] by (simp add: word_eq_unat_iff)
  then have cnt: "PAGE_START 4096 div ucast arch_pagesize = (1 :: u64)" by simp
  have a: "memory_allocate (mm.truncate s) 4096 t = Inl e"
    using assms by (auto simp: alloc_cleared_def rbind_def split: sum.splits)
  show ?thesis
  proof (cases "memory_find_available_pages (mm.truncate s) 1")
    case (Inl e')
    with a have "e' = e" by (simp add: memory_allocate_def Let_def cnt)
    with find_available_correct [of 1 "mm.truncate s"] Inl show ?thesis
      by (auto simp: free_run_def span_def type_of_page_def Suc_le_eq)
  next
    case (Inr p)
    with a show ?thesis
      by (auto simp: memory_allocate_def Let_def cnt memory_mark_pages_def split: if_splits)
  qed
qed

lemma map_page_fault:
  assumes "paging_mapVirtualMemoryNonPAE s p v usermode writable = Inl e"
  shows "\<not> present s (pdir_index v)"
    "e = PanicNoPages \<and> (\<forall>j < span s. type_of_page s j \<noteq> MemoryTypeFree)
      \<or> e = PanicMarkBounds \<or> e = PanicAllocHigh"
proof -
  let ?i = "pdir_index v"
  have e: "paging_ensureTable s ?i = Inl e"
    using assms by (auto simp: paging_mapVirtualMemoryNonPAE_def Let_def rbind_def split: sum.splits)
  then show np: "\<not> present s ?i" by (auto simp: paging_ensureTable_def present_def split: if_splits)
  have "alloc_cleared s MemoryTypeGeexOSPageStructures = Inl e"
    using e np by (auto simp: paging_ensureTable_def present_def rbind_def split: sum.splits)
  then show "e = PanicNoPages \<and> (\<forall>j < span s. type_of_page s j \<noteq> MemoryTypeFree)
      \<or> e = PanicMarkBounds \<or> e = PanicAllocHigh"
    by (rule alloc_fault)
qed

section \<open>Ranges\<close>

text \<open>The address the first page of a run maps an address of that page to.\<close>

lemma page_offset:
  assumes "unat (p :: u64) mod 4096 = 0" "unat (v :: u64) mod 4096 = 0" "unat x div 4096 = unat v div 4096"
  shows "(ucast p AND 0xFFFFF000) OR (ucast x AND 0xFFF) = (ucast (p + (x - v)) :: u32)"
proof -
  have low: "unat x = unat v + unat x mod 4096"
    using assms(2,3) by (metis div_mult_mod_eq add_0_right)
  have m: "(0xFFF :: u32) = mask 12" "(0xFFFFF000 :: u32) = NOT (mask 12)"
    by (simp_all add: mask_eq_exp_minus_1)
  have xv: "x - v = take_bit 12 x"
  proof -
    have "unat (x - v) = unat x - unat v" using low by (simp add: unat_sub_le word_le_nat_alt)
    also have "\<dots> = unat x mod 4096" using low by simp
    also have "\<dots> = unat (take_bit 12 x)" by (simp only: unsigned_take_bit_eq) (simp add: take_bit_eq_mod)
    finally show ?thesis by (simp add: word_eq_unat_iff)
  qed
  have "unat (take_bit 12 p) = take_bit 12 (unat p)" by (rule unsigned_take_bit_eq)
  then have "take_bit 12 p = 0" using assms(1) by (simp add: take_bit_eq_mod flip: unat_eq_0)
  then have p0: "\<not> bit p n" if "n < 12" for n
    using that bit_take_bit_iff [of 12 p n] by simp
  have "p + take_bit 12 x = p OR take_bit 12 x"
    by (rule disjunctive_add) (use p0 in \<open>auto simp: bit_simps\<close>)
  then show ?thesis unfolding xv m
    by (intro bit_word_eqI) (use p0 in \<open>auto simp: bit_simps\<close>)
qed

declare map_range_loop.simps [code]

lemma map_range_loop_correct:
  assumes "pg_inv s" "unat p mod 4096 = 0" "unat v mod 4096 = 0"
    "unat e = unat p + 4096 * n" "unat v + 4096 * n \<le> 4294967296" "unat e \<le> 4294967296"
  shows "\<exists>r. map_range_loop s p v e usermode writable = Some r \<and> (case r of
      Inl f \<Rightarrow> f = PanicNoPages \<or> f = PanicMarkBounds \<or> f = PanicAllocHigh
    | Inr s' \<Rightarrow> pg_inv s' \<and> (\<forall>x. unat x < 4294967296 \<longrightarrow>
        translate s' x = (if unat v \<le> unat x \<and> unat x < unat v + 4096 * n
          then Some (ucast (p + (x - v)), writable, usermode) else translate s x)))"
  using assms
proof (induction n arbitrary: s p v)
  case 0
  then have "\<not> p < e" by (simp add: word_less_nat_alt)
  with 0 show ?case by (subst map_range_loop.simps) (simp, meson leD)
next
  case (Suc n)
  have pe: "p < e" using Suc.prems(4) by (simp add: word_less_nat_alt)
  show ?case
  proof (cases "paging_mapVirtualMemoryNonPAE s p v usermode writable")
    case (Inl f)
    with pe map_page_fault(2) [OF Inl] show ?thesis
      by (subst map_range_loop.simps) (simp, blast)
  next
    case (Inr s1)
    note M = map_page [OF Suc.prems(1) Inr]
    have p1: "unat (p + PAGE_SIZE) = unat p + 4096" "unat (v + PAGE_SIZE) = unat v + 4096"
      unfolding PAGE_SIZE_def using Suc.prems(4-6) by (subst unat_add64; simp)+
    have shift: "p + PAGE_SIZE + (x - (v + PAGE_SIZE)) = p + (x - v)" for x by simp
    have "\<exists>r. map_range_loop s1 (p + PAGE_SIZE) (v + PAGE_SIZE) e usermode writable = Some r \<and> (case r of
      Inl f \<Rightarrow> f = PanicNoPages \<or> f = PanicMarkBounds \<or> f = PanicAllocHigh
    | Inr s' \<Rightarrow> pg_inv s' \<and> (\<forall>x. unat x < 4294967296 \<longrightarrow>
        translate s' x = (if unat (v + PAGE_SIZE) \<le> unat x \<and> unat x < unat (v + PAGE_SIZE) + 4096 * n
          then Some (ucast (p + PAGE_SIZE + (x - (v + PAGE_SIZE))), writable, usermode) else translate s1 x)))"
      by (rule Suc.IH [OF M(1)]) (use Suc.prems(2-6) p1 in auto)
    then obtain r where r: "map_range_loop s1 (p + PAGE_SIZE) (v + PAGE_SIZE) e usermode writable = Some r"
      "case r of Inl f \<Rightarrow> f = PanicNoPages \<or> f = PanicMarkBounds \<or> f = PanicAllocHigh
       | Inr s' \<Rightarrow> pg_inv s' \<and> (\<forall>x. unat x < 4294967296 \<longrightarrow>
        translate s' x = (if unat v + 4096 \<le> unat x \<and> unat x < unat v + 4096 + 4096 * n
          then Some (ucast (p + (x - v)), writable, usermode) else translate s1 x))"
      unfolding p1 shift by blast
    have t1: "translate s1 x = (if unat v \<le> unat x \<and> unat x < unat v + 4096
        then Some (ucast (p + (x - v)), writable, usermode) else translate s x)"
      if "unat x < 4294967296" for x
    proof -
      have "same_page x v \<longleftrightarrow> unat x div 4096 = unat v div 4096"
        using Suc.prems(5) that by (intro same_page_iff) auto
      also have "\<dots> \<longleftrightarrow> unat v \<le> unat x \<and> unat x < unat v + 4096"
      proof -
        obtain k where "unat v = 4096 * k" using Suc.prems(3) by (meson dvdE mod_0_imp_dvd)
        then show ?thesis by (auto simp: div_nat_eqI)
      qed
      finally show ?thesis
        using M(2) [of x] page_offset [OF Suc.prems(2,3)] \<open>same_page x v \<longleftrightarrow> unat x div 4096 = unat v div 4096\<close>
        by auto
    qed
    show ?thesis
      using r pe Inr t1 by (subst map_range_loop.simps) (auto split: sum.splits)
  qed
qed
lemma align_down_unat: "unat x < 4294967296 \<Longrightarrow> unat (PAGE_ALIGN_DOWN x) = unat x div 4096 * 4096"
proof -
  assume x: "unat x < 4294967296"
  have m: "ucast PAGEALIGN_MASK = (push_bit 12 (mask 20) :: u64)"
    by (simp add: PAGEALIGN_MASK_def mask_eq_exp_minus_1)
  have hi: "\<not> bit x n" if "32 \<le> n" for n
  proof -
    have "unat (take_bit 32 x) = unat x"
      unfolding unsigned_take_bit_eq by (rule take_bit_nat_eq_self) (use x in simp)
    then have "take_bit 32 x = x" by (simp only: word_eq_unat_iff)
    then show ?thesis using bit_take_bit_iff [of 32 x n] that by simp
  qed
  have "PAGE_ALIGN_DOWN x = push_bit 12 (drop_bit 12 x)"
    unfolding PAGE_ALIGN_DOWN_def m
  proof (rule bit_word_eqI)
    fix n
    show "bit (x AND push_bit 12 (mask 20)) n \<longleftrightarrow> bit (push_bit 12 (drop_bit 12 x)) n" if "n < LENGTH(64)"
      using that hi [of n] by (cases "32 \<le> n") (auto simp: bit_simps)
  qed
  then show ?thesis
    using x by (simp add: unat_push_bit64 unat_drop_bit_div)
qed

lemma unat_push_bit32:
  "unat (w :: u32) * 2 ^ k < 4294967296 \<Longrightarrow> unat (push_bit k w) = unat w * 2 ^ k"
  unfolding unsigned_push_bit_eq by (simp add: push_bit_eq_mult take_bit_nat_eq_self)

lemma round_len: 
  assumes "unat len \<le> 4294963200"
  shows "unat (if IS_PAGE_ALIGNED len then len else PAGE_ALIGN len) = (unat len + 4095) div 4096 * 4096"
proof (cases "IS_PAGE_ALIGNED len")
  case True
  then have "unat len mod 4096 = 0" by (simp add: IS_PAGE_ALIGNED_def PAGE_SIZE_def word_eq_unat_iff unat_mod)
  then obtain k where "unat len = 4096 * k" by (meson dvdE mod_0_imp_dvd)
  then show ?thesis using True by simp
next
  case False
  then have nz: "unat len mod 4096 \<noteq> 0" by (simp add: IS_PAGE_ALIGNED_def PAGE_SIZE_def word_eq_unat_iff unat_mod)
  have m: "PAGEALIGN_MASK = (push_bit 12 (mask 20) :: u32)"
    by (simp add: PAGEALIGN_MASK_def mask_eq_exp_minus_1)
  have "len AND PAGEALIGN_MASK = push_bit 12 (drop_bit 12 len)"
    unfolding m by (rule bit_word_eqI) (auto simp: bit_simps)
  then have a: "unat (len AND PAGEALIGN_MASK) = unat len div 4096 * 4096"
    using unat_push_bit32 [of "drop_bit 12 len" 12] le_less_trans [OF div_times_less_eq_dividend unat_bound32 [of len]]
    by (simp only: unat_drop_bit_div) simp
  define k where "k = unat len div 4096"
  define r where "r = unat len mod 4096"
  have l: "unat len = 4096 * k + r" "0 < r" "r < 4096" using nz by (simp_all add: k_def r_def)
  have "k < 1048575" using l assms by simp
  then have "unat (PAGE_ALIGN len) = k * 4096 + 4096"
    using a unfolding PAGE_ALIGN_def PAGE_SIZE_def by (subst unat_add32) (simp_all add: k_def)
  moreover have "(4096 * k + r + 4095) div 4096 = k + 1"
    by (rule div_nat_eqI) (use l in auto)
  ultimately show ?thesis using False l by simp
qed

text \<open>The first page and the number of pages of a range call.\<close>

definition pages_of :: "u32 \<Rightarrow> nat" where
  "pages_of len = (unat len + 4095) div 4096"

lemma map_range_correct:
  assumes inv: "pg_inv s" and len: "unat len \<le> 4294963200"
    and v: "unat virtual div 4096 * 4096 + 4096 * pages_of len \<le> 4294967296" "unat virtual < 4294967296"
    and p: "unat physical div 4096 * 4096 + 4096 * pages_of len \<le> 4294967296" "unat physical < 4294967296"
  shows "\<exists>r. paging_mapRangeNonPAE s physical virtual len usermode writable = Some r \<and> (case r of
      Inl f \<Rightarrow> f = PanicNoPages \<or> f = PanicMarkBounds \<or> f = PanicAllocHigh
    | Inr s' \<Rightarrow> pg_inv s' \<and> (\<forall>x. unat x < 4294967296 \<longrightarrow>
        translate s' x =
          (if unat virtual div 4096 * 4096 \<le> unat x
              \<and> unat x < unat virtual div 4096 * 4096 + 4096 * pages_of len
           then Some (ucast (PAGE_ALIGN_DOWN physical + (x - PAGE_ALIGN_DOWN virtual)), writable, usermode)
           else translate s x)))"
proof -
  let ?v = "PAGE_ALIGN_DOWN virtual" and ?p = "PAGE_ALIGN_DOWN physical"
  let ?l = "if IS_PAGE_ALIGNED len then len else PAGE_ALIGN len"
  have u: "unat ?v = unat virtual div 4096 * 4096" "unat ?p = unat physical div 4096 * 4096"
    using align_down_unat v(2) p(2) by auto
  have l: "unat ?l = 4096 * pages_of len"
    using round_len [OF len] unfolding pages_of_def by simp
  have e: "unat (?p + ucast ?l) = unat ?p + 4096 * pages_of len"
    using p(1) l by (subst unat_add64) (simp_all add: u)
  show ?thesis
    unfolding paging_mapRangeNonPAE_def Let_def u(1) [symmetric]
    by (rule map_range_loop_correct [OF inv]) (use u e v(1) p(1) in auto)
qed

section \<open>Properties\<close>

text \<open>
  Sixteen pages: page 2 holds the lookup table, page 3 the page directory, the others are free.
\<close>

definition example_paging :: paging where
  "example_paging = mm.extend
     (example_mm\<lparr>ram := store32 (store32 empty_ram 0x2018 MemoryTypeLoaderTemporary) 0x2024
        MemoryTypeGeexOSPageDirectory\<rparr>) (paging.fields 0x3000)"

lemma example_pg_inv: "pg_inv example_paging"
proof -
  have pd: "pde example_paging i = 0" if "i < 1024" for i
  proof -
    have "sep (0x3000 + 4 * i) 4 0x2018 4" "sep (0x3000 + 4 * i) 4 0x2024 4"
      by (rule entry_in_page [OF that], simp add: sep_def)+
    then have s: "sep 0x2018 4 (0x3000 + 4 * i) 4" "sep 0x2024 4 (0x3000 + 4 * i) 4"
      using sep_sym by blast+
    have "pde example_paging i = load32 empty_ram (0x3000 + 4 * i)"
      by (simp add: pde_def pde_addr_def example_paging_def example_mm_def mm.defs paging.defs
          c32.load_store_sep [OF s(1)] c32.load_store_sep [OF s(2)])
    then show ?thesis by (simp add: load32_def empty_ram_def)
  qed
  have sp: "span example_paging = 15" "lowestPhysicalPage example_paging = 0" "highestPhysicalPage example_paging = 15"
      "pageLookupTable example_paging = 0x2000" "pageDirectory example_paging = 0x3000"
    by (simp_all add: span_def page_span_def example_paging_def example_mm_def mm.defs paging.defs)
  have ty: "type_of_page example_paging j = (if j = 2 then MemoryTypeLoaderTemporary else
      if j = 3 then MemoryTypeGeexOSPageDirectory else MemoryTypeFree)" if "j < 15" for j
  proof -
    have "j \<in> set [0..<15]" using that by simp
    then have "j \<in> {0,1,2,3,4,5,6,7,8,9,10,11,12,13,14}" by (simp add: upt_rec eval_nat_numeral)
    then show ?thesis
      by (elim insertE emptyE) (simp_all add: type_of_page_def page_type_def lookup_item_def example_paging_def example_mm_def
          mm.defs paging.defs load32_def store32_def empty_ram_def)
  qed
  have off: "off_table example_paging (of_nat (j * 4096))" if "j < 15" "j \<noteq> 2" for j
  proof -
    have u: "unat (of_nat (j * 4096) :: u32) = j * 4096" using that(1) by (intro unat_of_nat32) simp
    from that(2) have "j < 2 \<or> 2 < j" by auto
    then show ?thesis
    proof
      assume "j < 2"
      then show ?thesis unfolding off_table_def sp by (intro sep_above) (simp_all only: u, simp_all)
    next
      assume "2 < j"
      then show ?thesis using that unfolding off_table_def sp by (intro sep_below) (simp_all only: u, simp_all)
    qed
  qed
  have at: "page_at example_paging j = j * 4096" for j by (simp add: page_at_def sp)
  have "mm_ok example_paging"
    unfolding mm_ok_def at using off by (simp add: sp ty split: if_splits)
  moreover have "in_use example_paging (pageDirectory example_paging)"
    unfolding in_use_def at sp using off [of 3] ty [of 3] by (auto intro: exI [of _ 3])
  ultimately show ?thesis using pd by (simp add: pg_inv_def present_def)
qed


text \<open>A mapping of a range always returns. When it does not fail in the memory manager, every
  address of the pages from the one of the first virtual address on, as many as the rounded-up
  length has, translates to the physical address at the same distance from the start of the first
  physical page; the other addresses of the 4 GB translate as before.\<close>

lemma map_range_translates:
  assumes "pg_inv s" "unat len \<le> 4294963200"
    and "unat virtual div 4096 * 4096 + 4096 * pages_of len \<le> 4294967296" "unat virtual < 4294967296"
    and "unat physical div 4096 * 4096 + 4096 * pages_of len \<le> 4294967296" "unat physical < 4294967296"
  shows "\<exists>r. paging_mapRangeNonPAE s physical virtual len usermode writable = Some r \<and> (case r of
      Inl f \<Rightarrow> f = PanicNoPages \<or> f = PanicMarkBounds \<or> f = PanicAllocHigh
    | Inr s' \<Rightarrow> pg_inv s' \<and> (\<forall>x. unat x < 4294967296 \<longrightarrow>
        translate s' x =
          (if unat virtual div 4096 * 4096 \<le> unat x
              \<and> unat x < unat virtual div 4096 * 4096 + 4096 * pages_of len
           then Some (ucast (PAGE_ALIGN_DOWN physical + (x - PAGE_ALIGN_DOWN virtual)), writable, usermode)
           else translate s x)))"
  using assms by (rule map_range_correct)

lemma map_range_translates_example:
  "\<exists>r. paging_mapRangeNonPAE example_paging 0x5000 0xC0100000 0x1800 False True = Some r \<and> (case r of
      Inl f \<Rightarrow> f = PanicNoPages \<or> f = PanicMarkBounds \<or> f = PanicAllocHigh
    | Inr s' \<Rightarrow> pg_inv s' \<and> (\<forall>x. unat x < 4294967296 \<longrightarrow>
        translate s' x =
          (if unat (0xC0100000 :: u64) div 4096 * 4096 \<le> unat x
              \<and> unat x < unat (0xC0100000 :: u64) div 4096 * 4096 + 4096 * pages_of 0x1800
           then Some (ucast (PAGE_ALIGN_DOWN 0x5000 + (x - PAGE_ALIGN_DOWN 0xC0100000)), True, False)
           else translate example_paging x)))"
  by (rule map_range_translates [OF example_pg_inv]) (simp_all add: pages_of_def)

text \<open>A range whose first address is not at the start of a page is mapped one page short when its
  length is a whole number of pages: address and length are aligned separately, so the last bytes
  of the range translate as they did before the call.\<close>

lemma unaligned_range_misses_last_page:
  assumes inv: "pg_inv s" and len: "unat len = 4096 * n" "0 < n" "n < 1048575"
    and v: "unat virtual mod 4096 \<noteq> 0" "unat virtual + 4096 * n \<le> 4294967296"
    and p: "unat physical + 4096 * n \<le> 4294967296"
    and ok: "paging_mapRangeNonPAE s physical virtual len usermode writable = Some (Inr s')"
  shows "translate s' (virtual + ucast len - 1) = translate s (virtual + ucast len - 1)"
proof -
  let ?V = "unat virtual div 4096 * 4096"
  have pl: "pages_of len = n"
    unfolding pages_of_def len(1) by (rule div_nat_eqI) simp_all
  have le: "?V \<le> unat virtual" "unat physical div 4096 * 4096 \<le> unat physical" by simp_all
  have lt: "?V + unat virtual mod 4096 = unat virtual" by simp
  have u1: "unat (virtual + ucast len) = unat virtual + 4096 * n"
    using v(2) len(1) by (subst unat_add64) simp_all
  have "1 \<le> virtual + ucast len"
    using u1 len(2) by (simp add: word_le_nat_alt)
  then have u: "unat (virtual + ucast len - 1) = unat virtual + 4096 * n - 1"
    using u1 by (simp add: unat_sub_le)
  have out: "\<not> unat (virtual + ucast len - 1) < ?V + 4096 * n"
    unfolding u using lt v(1) len(2) by linarith
  have "unat len \<le> 4294963200" using len by simp
  from map_range_correct [OF inv this, of virtual physical usermode writable] le v(2) p len ok
  have "\<forall>x. unat x < 4294967296 \<longrightarrow> translate s' x =
          (if ?V \<le> unat x \<and> unat x < ?V + 4096 * n
           then Some (ucast (PAGE_ALIGN_DOWN physical + (x - PAGE_ALIGN_DOWN virtual)), writable, usermode)
           else translate s x)"
    unfolding pl by (fastforce simp del: div_mult_self_is_m)
  moreover have "unat (virtual + ucast len - 1) < 4294967296" unfolding u using v(2) len(2) by linarith
  ultimately show ?thesis using out by simp
qed

lemma example_maps:
  "\<exists>s'. paging_mapRangeNonPAE example_paging 0x5800 0xC0100800 0x1000 False True = Some (Inr s')"
proof -
  have f: "memory_find_available_pages (mm.truncate example_paging) 1 = Inr 0"
    unfolding memory_find_available_pages_def
    by (subst find_loop.simps)
      (simp add: example_paging_def example_mm_def mm.defs paging.defs load32_def store32_def empty_ram_def)
  have cnt: "PAGE_START 4096 div ucast arch_pagesize = (1 :: u64)"
    using pages_floor [of 4096] by (simp add: word_eq_unat_iff)
  have k: "\<exists>s1. memory_mark_pages (mm.truncate example_paging) 0 1 t = Inr s1" for t
    by (simp add: memory_mark_pages_def) (simp add: example_paging_def example_mm_def mm.defs paging.defs)
  have "\<exists>p s1. alloc_cleared example_paging t = Inr (p, s1)" for t
    using k [of t] by (auto simp: alloc_cleared_def memory_allocate_def Let_def cnt f) (simp add: arch_pagesize_def)
  then obtain p s1 where "alloc_cleared example_paging MemoryTypeGeexOSPageStructures = Inr (p, s1)" by blast
  then have "\<exists>s1. paging_mapVirtualMemoryNonPAE example_paging 0x5000 0xC0100000 False True = Inr s1"
    by (auto simp: paging_mapVirtualMemoryNonPAE_def paging_ensureTable_def Let_def)
  then show ?thesis
    by (auto simp: paging_mapRangeNonPAE_def Let_def PAGE_ALIGN_DOWN_def PAGEALIGN_MASK_def
        IS_PAGE_ALIGNED_def PAGE_SIZE_def map_range_loop.simps)
qed

lemma unaligned_range_misses_last_page_example:
  "\<exists>s'. paging_mapRangeNonPAE example_paging 0x5800 0xC0100800 0x1000 False True = Some (Inr s')
    \<and> translate s' (0xC0100800 + ucast (0x1000 :: u32) - 1) =
        translate example_paging (0xC0100800 + ucast (0x1000 :: u32) - 1)"
proof -
  obtain s' where s': "paging_mapRangeNonPAE example_paging 0x5800 0xC0100800 0x1000 False True = Some (Inr s')"
    using example_maps by blast
  have "translate s' (0xC0100800 + ucast (0x1000 :: u32) - 1) =
      translate example_paging (0xC0100800 + ucast (0x1000 :: u32) - 1)"
    by (rule unaligned_range_misses_last_page [OF example_pg_inv _ _ _ _ _ _ s', of 1]) simp_all
  with s' show ?thesis by blast
qed

lemma present_page:
  assumes "unat c mod 4096 = 0" "unat c \<le> unat x" "unat x < unat c + 4096"
  shows "paging_isAddressPresentNonPAE s x = paging_isAddressPresentNonPAE s c"
proof -
  obtain k where k: "unat c = 4096 * k" using assms(1) by (meson dvdE mod_0_imp_dvd)
  have "unat x div 4096 = k" using assms k by (intro div_nat_eqI) auto
  moreover have "unat v div 4194304 = unat v div 4096 div 1024" for v :: u64
    by (simp add: div_mult2_eq [symmetric])
  ultimately have "pdir_index x = pdir_index c" "ptbl_index x = ptbl_index c"
    using k by (simp_all add: word_eq_unat_iff index_unat)
  then show ?thesis by (simp add: paging_isAddressPresentNonPAE_def)
qed

text \<open>The loop state: the \<open>cont\<close> bytes before the current page are all free.\<close>

definition free_before :: "paging \<Rightarrow> u64 \<Rightarrow> u64 \<Rightarrow> u32 \<Rightarrow> bool" where
  "free_before s base cur cont \<longleftrightarrow> unat base + unat cont \<le> unat cur \<and>
     (\<forall>x. unat cur \<le> unat x + unat cont \<longrightarrow> unat x < unat cur \<longrightarrow> \<not> paging_isAddressPresentNonPAE s x)"

lemma find_range_loop_correct:
  assumes "unat cur mod 4096 = 0" "unat cur + 4096 * k = 18446744073709551616"
    "unat sz \<le> 4294963200" "unat cont < unat sz + 4096" "free_before s base cur cont"
  shows "\<exists>a. find_range_loop s sz cur cont = Some a \<and> (a = 0 \<or> base \<le> a \<and>
    (\<forall>x. unat a \<le> unat x \<longrightarrow> unat x < unat a + unat sz \<longrightarrow> \<not> paging_isAddressPresentNonPAE s x))"
  using assms
proof (induction k arbitrary: cur cont)
  case 0
  then have False using unat_bound64 [of cur] by simp
  then show ?case ..
next
  case (Suc k)
  show ?case
  proof (cases "cur = 0")
    case True
    then show ?thesis by (subst find_range_loop.simps) simp
  next
    case nz: False
    show ?thesis
    proof (cases "sz \<le> cont")
      case True
      have c: "unat sz \<le> unat cont" "unat base + unat cont \<le> unat cur"
        using True Suc.prems(5) by (simp_all add: free_before_def word_le_nat_alt)
      then have "ucast sz \<le> cur" by (simp add: word_le_nat_alt)
      then have u: "unat (cur - ucast sz) = unat cur - unat sz" by (simp add: unat_sub_le)
      have "\<not> paging_isAddressPresentNonPAE s x"
        if "unat cur - unat sz \<le> unat x" "unat x < unat cur - unat sz + unat sz" for x
        using Suc.prems(5) c that by (auto simp: free_before_def)
      then show ?thesis
        using nz True c u by (subst find_range_loop.simps) (auto simp: word_le_nat_alt)
    next
      case False
      let ?cur = "cur + PAGE_SIZE"
      let ?cont = "if paging_isAddressPresentNonPAE s cur then 0 else cont + ucast PAGE_SIZE"
      have lt: "unat cont < unat sz" using False by (simp add: word_le_nat_alt)
      then have uc: "unat (cont + ucast PAGE_SIZE) = unat cont + 4096"
        using Suc.prems(3) unfolding PAGE_SIZE_def by (subst unat_add32) simp_all
      have step: "find_range_loop s sz cur cont = find_range_loop s sz ?cur ?cont"
        using nz False by (subst find_range_loop.simps) simp
      show ?thesis
      proof (cases "k = 0")
        case True
        then have "?cur = 0"
          using Suc.prems(2) by (simp add: PAGE_SIZE_def word_eq_unat_iff unat_word_ariths take_bit_eq_mod flip: unat_eq_0)
        then show ?thesis unfolding step by (subst find_range_loop.simps) simp
      next
        case k: False
        then have u: "unat ?cur = unat cur + 4096"
          using Suc.prems(2) unfolding PAGE_SIZE_def by (subst unat_add64) simp_all
        have fb: "free_before s base ?cur ?cont"
        proof (cases "paging_isAddressPresentNonPAE s cur")
          case True
          then show ?thesis using Suc.prems(5) by (simp add: free_before_def u)
        next
          case np: False
          have "\<not> paging_isAddressPresentNonPAE s x"
            if x: "unat cur + 4096 \<le> unat x + (unat cont + 4096)" "unat x < unat cur + 4096" for x
          proof (cases "unat x < unat cur")
            case True
            then show ?thesis using Suc.prems(5) x by (simp add: free_before_def)
          next
            case False
            then show ?thesis using present_page [OF Suc.prems(1), of x s] np x by simp
          qed
          then show ?thesis using Suc.prems(5) np by (simp add: free_before_def u uc)
        qed
        have m: "unat ?cur mod 4096 = 0" unfolding u using Suc.prems(1) by simp
        have e: "unat ?cur + 4096 * k = 18446744073709551616" unfolding u using Suc.prems(2) by simp
        have l: "unat ?cont < unat sz + 4096" using uc lt by simp
        show ?thesis unfolding step by (rule Suc.IH [OF m e Suc.prems(3) l fb])
      qed
    qed
  qed
qed

text \<open>The search for free virtual addresses returns from every page-aligned start: either 0, or an
  address from the start on with as many unmapped bytes behind it as requested. From the start 0 it
  returns 0 at once, which callers cannot tell from a failure.\<close>

lemma find_free_region:
  assumes "unat base mod 4096 = 0" "unat sz \<le> 4294963200"
  shows "\<exists>a. arch_find_free_virtual_memory_region s base sz = Some a \<and> (a = 0 \<or> base \<le> a \<and>
      (\<forall>x. unat a \<le> unat x \<longrightarrow> unat x < unat a + unat sz \<longrightarrow> \<not> paging_isAddressPresentNonPAE s x))
    \<and> arch_find_free_virtual_memory_region s 0 sz = Some 0"
proof -
  obtain k where k: "unat base = 4096 * k" using assms(1) by (meson dvdE mod_0_imp_dvd)
  then have "k < 4503599627370496" using unat_bound64 [of base] by simp
  then have e: "unat base + 4096 * (4503599627370496 - k) = 18446744073709551616" using k by simp
  have fb: "free_before s base base 0" by (simp add: free_before_def)
  have "find_range_loop s sz 0 0 = Some 0" by (subst find_range_loop.simps) simp
  then show ?thesis
    using find_range_loop_correct [OF assms(1) e assms(2) _ fb]
    by (simp add: arch_find_free_virtual_memory_region_def paging_findFreeRangeNonPAE_def)
qed

lemma find_free_region_example:
  "\<exists>a. arch_find_free_virtual_memory_region example_paging 0xC0000000 0x3000 = Some a
      \<and> (a = 0 \<or> 0xC0000000 \<le> a \<and> (\<forall>x. unat a \<le> unat x \<longrightarrow> unat x < unat a + unat (0x3000 :: u32) \<longrightarrow>
        \<not> paging_isAddressPresentNonPAE example_paging x))
    \<and> arch_find_free_virtual_memory_region example_paging 0 0x3000 = Some 0"
  by (rule find_free_region) simp_all

end
