(* ===== verification/Images.thy ===== *)
theory Images
  imports Fs Paging
begin

text \<open>
  The images the loader has loaded (exeformats/loader.h, loader.c), the loader's context of an ELF
  image, and paging as a part of the machine. An image is a record per address; its name is in the
  byte memory, its list node in the list store.
\<close>

section \<open>The structures\<close>

record LoadedImage =
  PhysicalBase :: u64
  VirtualBase :: u64
  OriginalBase :: u64
  VirtualEntryPoint :: u64
  SizeOfImage :: u32
  ImageType :: u32
  Context :: u32

definition sizeof_LoadedImage :: u32 where "sizeof_LoadedImage = 84"
definition image_Link_offset :: u32 where "image_Link_offset = 68"
definition LOADER_IMAGETYPE_ELF :: u32 where "LOADER_IMAGETYPE_ELF = 2"

definition zero_image :: LoadedImage where
  "zero_image = \<lparr>PhysicalBase = 0, VirtualBase = 0, OriginalBase = 0, VirtualEntryPoint = 0,
     SizeOfImage = 0, ImageType = 0, Context = 0\<rparr>"

text \<open>\<open>elf32_loaderContext\<close>: pointers into the image are addresses.\<close>

record elf32_loaderContext =
  ctx_header :: u32
  ctx_phdrCount :: u32
  ctx_phdrs :: u32
  ctx_pltRelCount :: u32
  ctx_pltRel :: u32
  ctx_relCount :: u32
  ctx_rel :: u32
  ctx_strtab :: u32
  ctx_symtab :: u32
  ctx_nbucket :: u32
  ctx_nchain :: u32
  ctx_bucket :: u32
  ctx_chain :: u32
  ctx_has_symbolic :: bool

definition sizeof_elf32_loaderContext :: u32 where "sizeof_elf32_loaderContext = 56"

definition zero_context :: elf32_loaderContext where
  "zero_context = \<lparr>ctx_header = 0, ctx_phdrCount = 0, ctx_phdrs = 0, ctx_pltRelCount = 0, ctx_pltRel = 0,
     ctx_relCount = 0, ctx_rel = 0, ctx_strtab = 0, ctx_symtab = 0, ctx_nbucket = 0, ctx_nchain = 0,
     ctx_bucket = 0, ctx_chain = 0, ctx_has_symbolic = False\<rparr>"

record executables = filesystems +
  page_directory :: u32
  loader_loadedImages :: u32
  librarySearchPath :: u32
  image_info :: "u32 \<Rightarrow> LoadedImage option"
  elf_contexts :: "u32 \<Rightarrow> elf32_loaderContext option"

definition get_image :: "u32 \<Rightarrow> ('a executables_scheme, LoadedImage) prog" where
  "get_image = deref image_info"

definition set_image :: "u32 \<Rightarrow> LoadedImage option \<Rightarrow> ('a executables_scheme, unit) prog" where
  "set_image p x = modify (\<lambda>s. s\<lparr>image_info := (image_info s)(p := x)\<rparr>)"

definition get_context :: "u32 \<Rightarrow> ('a executables_scheme, elf32_loaderContext) prog" where
  "get_context = deref elf_contexts"

definition set_context :: "u32 \<Rightarrow> elf32_loaderContext option \<Rightarrow> ('a executables_scheme, unit) prog" where
  "set_context p x = modify (\<lambda>s. s\<lparr>elf_contexts := (elf_contexts s)(p := x)\<rparr>)"

definition image_Name :: "u32 \<Rightarrow> u32" where
  "image_Name img = img"

definition image_link :: "u32 \<Rightarrow> u32" where
  "image_link img = img + image_Link_offset"

section \<open>Memory and paging as programs\<close>

definition on_mm :: "(mm \<Rightarrow> fault + 'x \<times> mm) \<Rightarrow> ('a executables_scheme, 'x) prog" where
  "on_mm f s = (case f (mm.truncate s) of
       Inl e \<Rightarrow> Some (Inl e)
     | Inr (x, m) \<Rightarrow> Some (Inr (x, mm.extend m (mm.more s))))"

definition paging_of :: "'a executables_scheme \<Rightarrow> paging" where
  "paging_of s = mm.extend (mm.truncate s) (paging.fields (page_directory s))"

definition with_paging :: "paging \<Rightarrow> 'a executables_scheme \<Rightarrow> 'a executables_scheme" where
  "with_paging p s = (mm.extend (mm.truncate p) (mm.more s))\<lparr>page_directory := pageDirectory p\<rparr>"

definition on_paging :: "(paging \<Rightarrow> (fault + paging) option) \<Rightarrow> ('a executables_scheme, unit) prog" where
  "on_paging f s = (case f (paging_of s) of
       None \<Rightarrow> None
     | Some (Inl e) \<Rightarrow> Some (Inl e)
     | Some (Inr p) \<Rightarrow> Some (Inr ((), with_paging p s)))"

definition memory_allocate_p :: "u32 \<Rightarrow> MemoryType \<Rightarrow> ('a executables_scheme, u32) prog" where
  "memory_allocate_p sz t = on_mm (\<lambda>m. memory_allocate m sz t)"

definition map_range_p :: "u64 \<Rightarrow> u64 \<Rightarrow> u32 \<Rightarrow> bool \<Rightarrow> bool \<Rightarrow> ('a executables_scheme, unit) prog" where
  "map_range_p physical virtual len writable executable =
     on_paging (\<lambda>p. arch_map_virtual_memory_range p physical virtual len writable executable)"

definition range_free_p :: "u64 \<Rightarrow> u32 \<Rightarrow> ('a executables_scheme, bool) prog" where
  "range_free_p virtual len = lift_option (\<lambda>s. arch_is_virtual_memory_range_free (paging_of s) virtual len)"

definition find_free_p :: "u64 \<Rightarrow> u32 \<Rightarrow> ('a executables_scheme, u64) prog" where
  "find_free_p base len = lift_option (\<lambda>s. arch_find_free_virtual_memory_region (paging_of s) base len)"

section \<open>The list of images\<close>

definition first_image :: "('a executables_scheme, u32) prog" where
  "first_image = reads_of (\<lambda>s. list_entry (nxt (list_nodes s) (loader_loadedImages s)) image_Link_offset)"

definition next_image :: "u32 \<Rightarrow> ('a executables_scheme, u32) prog" where
  "next_image img =
     bnd (get_image img) (\<lambda>_. reads_of (\<lambda>s. list_entry (nxt (list_nodes s) (image_link img)) image_Link_offset))"

partial_function (option) count_images_loop :: "u32 \<Rightarrow> u32 \<Rightarrow> 'a executables_scheme \<Rightarrow> (fault + u32 \<times> 'a executables_scheme) option" where
  "count_images_loop img i s =
     (if image_link img \<noteq> loader_loadedImages s
      then bnd (next_image img) (\<lambda>img s. count_images_loop img (i + 1) s) s
      else ret i s)"

definition loader_getLoadedImageCount :: "('a executables_scheme, u32) prog" where
  "loader_getLoadedImageCount = bnd first_image (\<lambda>img s. count_images_loop img 0 s)"

text \<open>The image with the name, or none; the caller's pointer is set in the first case.\<close>

partial_function (option) find_image_loop :: "u32 \<Rightarrow> u32 \<Rightarrow> 'a executables_scheme \<Rightarrow> (fault + u32 option \<times> 'a executables_scheme) option" where
  "find_image_loop nm img s =
     (if image_link img \<noteq> loader_loadedImages s then
        bnd (lift_option (\<lambda>s. stricmp (ram s) nm (image_Name img))) (\<lambda>c s.
          if c = 0 then ret (Some img) s
          else bnd (next_image img) (\<lambda>img s. find_image_loop nm img s) s) s
      else ret None s)"

definition loader_isImageLoaded :: "u32 \<Rightarrow> ('a executables_scheme, u32 option) prog" where
  "loader_isImageLoaded nm = bnd first_image (\<lambda>img s. find_image_loop nm img s)"

definition loader_setLibrarySearchPath :: "u32 \<Rightarrow> ('a executables_scheme, unit) prog" where
  "loader_setLibrarySearchPath path = modify (\<lambda>s. s\<lparr>librarySearchPath := path\<rparr>)"

definition loader_getExecutable :: "('a executables_scheme, u32) prog" where
  "loader_getExecutable = reads_of (\<lambda>s.
     if \<not> list_empty (loader_loadedImages s) (list_nodes s)
     then list_entry (prv (list_nodes s) (loader_loadedImages s)) image_Link_offset
     else 0)"

end
