(* ===== verification/ElfLoader.thy ===== *)
theory ElfLoader
  imports Images
begin

text \<open>
  Loading and linking of 32-bit ELF files (exeformats/elfloader.c). Headers, dynamic entries,
  relocations and symbols are read from the byte memory at the offsets of elf.h. The loader's
  structures of an image are those of Images.
\<close>

section \<open>The file format\<close>

text \<open>\<open>Elf32_Ehdr\<close>, 52 bytes.\<close>

definition EI_NIDENT :: u32 where "EI_NIDENT = 16"
definition sizeof_Elf32_Ehdr :: u32 where "sizeof_Elf32_Ehdr = 52"
definition e_type :: "mem \<Rightarrow> u32 \<Rightarrow> u16" where "e_type m h = load16 m (h + 16)"
definition e_machine :: "mem \<Rightarrow> u32 \<Rightarrow> u16" where "e_machine m h = load16 m (h + 18)"
definition e_entry :: "mem \<Rightarrow> u32 \<Rightarrow> u32" where "e_entry m h = load32 m (h + 24)"
definition e_ehsize :: "mem \<Rightarrow> u32 \<Rightarrow> u16" where "e_ehsize m h = load16 m (h + 40)"
definition e_phentsize :: "mem \<Rightarrow> u32 \<Rightarrow> u16" where "e_phentsize m h = load16 m (h + 42)"
definition e_phnum :: "mem \<Rightarrow> u32 \<Rightarrow> u16" where "e_phnum m h = load16 m (h + 44)"

definition ELFCLASS32 :: u8 where "ELFCLASS32 = 1"
definition ELFCLASS64 :: u8 where "ELFCLASS64 = 2"
definition EM_386 :: u16 where "EM_386 = 3"
definition ET_DYN :: u16 where "ET_DYN = 3"

text \<open>\<open>Elf32_Phdr\<close>, 32 bytes.\<close>

definition phdr_at :: "u32 \<Rightarrow> u32 \<Rightarrow> u32" where "phdr_at phdrs i = phdrs + 32 * i"
definition p_type :: "mem \<Rightarrow> u32 \<Rightarrow> u32" where "p_type m p = load32 m p"
definition p_offset :: "mem \<Rightarrow> u32 \<Rightarrow> u32" where "p_offset m p = load32 m (p + 4)"
definition p_vaddr :: "mem \<Rightarrow> u32 \<Rightarrow> u32" where "p_vaddr m p = load32 m (p + 8)"
definition p_filesz :: "mem \<Rightarrow> u32 \<Rightarrow> u32" where "p_filesz m p = load32 m (p + 16)"
definition p_memsz :: "mem \<Rightarrow> u32 \<Rightarrow> u32" where "p_memsz m p = load32 m (p + 20)"
definition p_flags :: "mem \<Rightarrow> u32 \<Rightarrow> u32" where "p_flags m p = load32 m (p + 24)"

definition PT_LOAD :: u32 where "PT_LOAD = 1"
definition PT_DYNAMIC :: u32 where "PT_DYNAMIC = 2"
definition PF_X :: u32 where "PF_X = 1"
definition PF_W :: u32 where "PF_W = 2"

text \<open>\<open>Elf32_Dyn\<close>, 8 bytes, and the tags the loader knows.\<close>

definition d_tag :: "mem \<Rightarrow> u32 \<Rightarrow> u32" where "d_tag m d = load32 m d"
definition d_val :: "mem \<Rightarrow> u32 \<Rightarrow> u32" where "d_val m d = load32 m (d + 4)"

definition DT_NULL :: u32 where "DT_NULL = 0"
definition DT_NEEDED :: u32 where "DT_NEEDED = 1"
definition DT_PLTRELSZ :: u32 where "DT_PLTRELSZ = 2"
definition DT_HASH :: u32 where "DT_HASH = 4"
definition DT_STRTAB :: u32 where "DT_STRTAB = 5"
definition DT_SYMTAB :: u32 where "DT_SYMTAB = 6"
definition DT_RELA :: u32 where "DT_RELA = 7"
definition DT_SYMBOLIC :: u32 where "DT_SYMBOLIC = 16"
definition DT_REL :: u32 where "DT_REL = 17"
definition DT_RELSZ :: u32 where "DT_RELSZ = 18"
definition DT_PLTREL :: u32 where "DT_PLTREL = 20"
definition DT_JMPREL :: u32 where "DT_JMPREL = 23"

text \<open>\<open>Elf32_Rel\<close>, 8 bytes, and \<open>Elf32_Sym\<close>, 16 bytes.\<close>

definition rel_at :: "u32 \<Rightarrow> u32 \<Rightarrow> u32" where "rel_at relocs i = relocs + 8 * i"
definition r_offset :: "mem \<Rightarrow> u32 \<Rightarrow> u32" where "r_offset m r = load32 m r"
definition r_info :: "mem \<Rightarrow> u32 \<Rightarrow> u32" where "r_info m r = load32 m (r + 4)"
definition ELF32_R_SYM :: "u32 \<Rightarrow> u32" where "ELF32_R_SYM v = drop_bit 8 v"
definition ELF32_R_TYPE :: "u32 \<Rightarrow> u32" where "ELF32_R_TYPE v = v AND 0xFF"

definition sym_at :: "u32 \<Rightarrow> u32 \<Rightarrow> u32" where "sym_at symtab i = symtab + 16 * i"
definition st_name :: "mem \<Rightarrow> u32 \<Rightarrow> u32" where "st_name m s = load32 m s"
definition st_value :: "mem \<Rightarrow> u32 \<Rightarrow> u32" where "st_value m s = load32 m (s + 4)"
definition st_info :: "mem \<Rightarrow> u32 \<Rightarrow> u8" where "st_info m s = m (s + 12)"
definition st_shndx :: "mem \<Rightarrow> u32 \<Rightarrow> u16" where "st_shndx m s = load16 m (s + 14)"
definition ELF32_ST_BIND :: "u8 \<Rightarrow> u8" where "ELF32_ST_BIND v = drop_bit 4 v"

definition R_386_32 :: u32 where "R_386_32 = 1"
definition R_386_PC32 :: u32 where "R_386_PC32 = 2"
definition R_386_GLOB_DAT :: u32 where "R_386_GLOB_DAT = 6"
definition R_386_JMP_SLOT :: u32 where "R_386_JMP_SLOT = 7"
definition R_386_RELATIVE :: u32 where "R_386_RELATIVE = 8"

section \<open>Headers\<close>

text \<open>\<open>None\<close> is a null pointer to the context of an image.\<close>

definition context_of :: "u32 \<Rightarrow> ('a executables_scheme, elf32_loaderContext option) prog" where
  "context_of img =
     bnd (get_image img) (\<lambda>li.
     if Context li = 0 then ret None else bnd (get_context (Context li)) (\<lambda>c. ret (Some c)))"

definition update_context :: "u32 \<Rightarrow> (elf32_loaderContext \<Rightarrow> elf32_loaderContext) \<Rightarrow> ('a executables_scheme, unit) prog" where
  "update_context img f =
     bnd (get_image img) (\<lambda>li.
     bnd (get_context (Context li)) (\<lambda>c. set_context (Context li) (Some (f c))))"

definition elf32_freeLoaderContext :: "u32 \<Rightarrow> ('a executables_scheme, unit) prog" where
  "elf32_freeLoaderContext p =
     bnd (get_context p) (\<lambda>c.
     seq (free_p (ctx_header c)) (
     seq (free_p (ctx_phdrs c)) (
     seq (free_p p) (set_context p None))))"

definition elf_getElf32Header :: "u32 \<Rightarrow> u32 \<Rightarrow> ('a executables_scheme, bool) prog" where
  "elf_getElf32Header imageFile img =
     (if img = 0 then ret False
      else
        bnd (context_of img) (\<lambda>c.
        if c = None then ret False
        else
          bnd (malloc_p sizeof_Elf32_Ehdr) (\<lambda>header.
          if header = 0 then ret False
          else
            seq (update_context img (\<lambda>c. c\<lparr>ctx_header := header\<rparr>)) (
            bnd (read_file imageFile header sizeof_Elf32_Ehdr) (\<lambda>n s.
              if n \<noteq> sizeof_Elf32_Ehdr then ret False s
              else if e_machine (ram s) header \<noteq> EM_386 then ret False s
              else if e_type (ram s) header \<noteq> ET_DYN then ret False s
              else ret True s)))))"

definition elf_getElf32Phdrs :: "u32 \<Rightarrow> u32 \<Rightarrow> ('a executables_scheme, bool) prog" where
  "elf_getElf32Phdrs imageFile img =
     (if img = 0 then ret False
      else
        bnd (context_of img) (\<lambda>c.
        case c of None \<Rightarrow> ret False
        | Some c \<Rightarrow>
            if ctx_header c = 0 then ret False
            else (\<lambda>s.
              let h = ctx_header c;
                  phdrSize = ucast (e_phentsize (ram s) h) * ucast (e_phnum (ram s) h);
                  phdrCount = ucast (e_phnum (ram s) h);
                  phoffset = ucast (e_ehsize (ram s) h)
              in if 16 * 1024 < phdrSize then ret False s
                 else
                   bnd (malloc_p phdrSize) (\<lambda>phdrs.
                   seq (update_context img (\<lambda>c. c\<lparr>ctx_phdrs := phdrs\<rparr>)) (
                   if phdrs = 0 then ret False
                   else
                     seq (update_context img (\<lambda>c. c\<lparr>ctx_phdrCount := phdrCount\<rparr>)) (
                     seq (seek_file imageFile phoffset SEEK_SET) (
                     bnd (read_file imageFile phdrs phdrSize) (\<lambda>n. ret (n = phdrSize)))))) s)))"

section \<open>Loading\<close>

text \<open>Lowest and highest address of the loaded segments, from header \<open>i\<close> on.\<close>

primrec size_loop :: "nat \<Rightarrow> mem \<Rightarrow> u32 \<Rightarrow> u32 \<times> u32 \<Rightarrow> u32 \<times> u32" where
  "size_loop 0 m p r = r"
| "size_loop (Suc n) m p r =
     size_loop n m (p + 32)
       (if p_type m p = PT_LOAD then
          (case r of (minVaddr, maxVaddr) \<Rightarrow>
             (if p_vaddr m p < minVaddr then p_vaddr m p else minVaddr,
              if maxVaddr < p_vaddr m p + p_memsz m p then p_vaddr m p + p_memsz m p else maxVaddr))
        else r)"

text \<open>Size and lowest address; the size is 0 when it cannot be determined.\<close>

definition elf32_getImageSize :: "u32 \<Rightarrow> ('a executables_scheme, u32 \<times> u32) prog" where
  "elf32_getImageSize img =
     bnd (context_of img) (\<lambda>c.
     case c of None \<Rightarrow> ret (0, 0)
     | Some c \<Rightarrow> reads_of (\<lambda>s.
         let (minVaddr, maxVaddr) = size_loop (unat (ctx_phdrCount c)) (ram s) (ctx_phdrs c) (0xFFFFFFFF, 0)
         in if maxVaddr < minVaddr then (0, 0)
            else (ucast (PAGE_END (ucast maxVaddr)) - ucast (PAGE_START (ucast minVaddr)), minVaddr)))"

text \<open>One program header: a segment is read, its rest is cleared, and it is mapped.\<close>

definition load_segment :: "u32 \<Rightarrow> u32 \<Rightarrow> u32 \<Rightarrow> u32 \<Rightarrow> u32 \<Rightarrow> ('a executables_scheme, bool) prog" where
  "load_segment imageFile physicalBase originalVirtualBase virtualBase p s =
     (let m = ram s; offset = p_offset m p; vaddr = p_vaddr m p; filesz = p_filesz m p;
          memsz = p_memsz m p; flgs = p_flags m p;
          targetAddress = physicalBase + (vaddr - originalVirtualBase)
      in if p_type m p \<noteq> PT_LOAD then ret True s
         else
           bnd (if 0 < filesz
                then seq (seek_file imageFile offset SEEK_SET)
                       (bnd (read_file imageFile targetAddress filesz) (\<lambda>n. ret (n = filesz)))
                else ret True) (\<lambda>done.
           if \<not> done then ret False
           else
             seq (if filesz < memsz then memset_p (targetAddress + filesz) 0 (memsz - filesz) else ret ()) (
             seq (map_range_p (ucast targetAddress) (ucast ((vaddr - originalVirtualBase) + virtualBase)) memsz
                    (flgs AND PF_W = PF_W) (flgs AND PF_X = PF_X)) (
             ret True))) s)"

primrec load_segments :: "nat \<Rightarrow> u32 \<Rightarrow> u32 \<Rightarrow> u32 \<Rightarrow> u32 \<Rightarrow> u32 \<Rightarrow> ('a executables_scheme, bool) prog" where
  "load_segments 0 imageFile physicalBase original virtualBase p = ret True"
| "load_segments (Suc n) imageFile physicalBase original virtualBase p =
     bnd (load_segment imageFile physicalBase original virtualBase p) (\<lambda>done.
     if done then load_segments n imageFile physicalBase original virtualBase (p + 32) else ret False)"

definition elf_loadElf32File :: "u32 \<Rightarrow> MemoryType \<Rightarrow> u32 \<Rightarrow> ('a executables_scheme, bool) prog" where
  "elf_loadElf32File imageFile memType img =
     bnd (elf32_getImageSize img) (\<lambda>(totalImageSize, minAddr).
     if totalImageSize = 0 then ret False
     else
       bnd (range_free_p (ucast minAddr) totalImageSize) (\<lambda>free.
       bnd (if free then ret minAddr
            else bnd (find_free_p (ucast minAddr) totalImageSize) (\<lambda>v. ret (ucast v))) (\<lambda>virtualBase.
       if \<not> free \<and> virtualBase = 0 then ret False
       else
         bnd (memory_allocate_p totalImageSize memType) (\<lambda>physicalBase.
         if physicalBase = 0 then ret False
         else
           bnd (context_of img) (\<lambda>c.
           case c of None \<Rightarrow> ret False
           | Some c \<Rightarrow>
               bnd (load_segments (unat (ctx_phdrCount c)) imageFile physicalBase minAddr virtualBase (ctx_phdrs c)) (\<lambda>done.
               if \<not> done then ret False
               else
                 bnd (get_image img) (\<lambda>li.
                 seq (\<lambda>s. set_image img (Some (li\<lparr>PhysicalBase := ucast physicalBase,
                       VirtualBase := ucast virtualBase,
                       OriginalBase := ucast minAddr,
                       VirtualEntryPoint := ucast ((e_entry (ram s) (ctx_header c) - minAddr) + virtualBase),
                       SizeOfImage := totalImageSize\<rparr>)) s)
                   (ret True))))))))"

section \<open>Symbols\<close>

partial_function (option) elfhash_loop :: "mem \<Rightarrow> u32 \<Rightarrow> u32 \<Rightarrow> u32 option" where
  "elfhash_loop m nm h =
     (if m nm = 0 then Some h
      else
        (let h = push_bit 4 h + ucast (m nm); g = h AND 0xF0000000; h = h XOR g; h = h XOR drop_bit 24 g
         in elfhash_loop m (nm + 1) h))"

definition elfhash :: "mem \<Rightarrow> u32 \<Rightarrow> u32 option" where
  "elfhash m nm = elfhash_loop m nm 0"

text \<open>The chain of a bucket: the first defined global or weak symbol of the name, or 0.\<close>

partial_function (option) chain_loop :: "mem \<Rightarrow> elf32_loaderContext \<Rightarrow> u32 \<Rightarrow> u32 \<Rightarrow> u32 option" where
  "chain_loop m c symbol n =
     (if n = 0 then Some 0
      else
        Option.bind (strcmp m (ctx_strtab c + st_name m (sym_at (ctx_symtab c) n)) symbol) (\<lambda>d.
          if d = 0 \<and> ELF32_ST_BIND (st_info m (sym_at (ctx_symtab c) n)) \<in> {1, 2}
             \<and> st_shndx m (sym_at (ctx_symtab c) n) \<noteq> 0
          then Some (sym_at (ctx_symtab c) n)
          else chain_loop m c symbol (load32 m (ctx_chain c + 4 * n))))"

definition elf_elf32lookupSymbolInImage :: "u32 \<Rightarrow> u32 \<Rightarrow> ('a executables_scheme, u32) prog" where
  "elf_elf32lookupSymbolInImage img symbol =
     bnd (lift_option (\<lambda>s. elfhash (ram s) symbol)) (\<lambda>hash.
     bnd (context_of img) (\<lambda>c.
     case c of None \<Rightarrow> ret 0
     | Some c \<Rightarrow>
         if ctx_nbucket c = 0 then stop DivideError
         else lift_option (\<lambda>s. chain_loop (ram s) c symbol
           (load32 (ram s) (ctx_bucket c + 4 * (hash mod ctx_nbucket c))))))"

text \<open>
  The needed images. The loop increments a pointer to an image, not the pointer into the array of
  pointers: after the first image it looks at the memory behind it.
\<close>

partial_function (option) needed_symbol_loop :: "u32 \<Rightarrow> u32 \<Rightarrow> 'a executables_scheme \<Rightarrow> (fault + u32 \<times> 'a executables_scheme) option" where
  "needed_symbol_loop symbol im s =
     (if im = 0 then ret 0 s
      else bnd (elf_elf32lookupSymbolInImage im symbol) (\<lambda>symb s.
        if symb \<noteq> 0 then ret symb s else needed_symbol_loop symbol (im + sizeof_LoadedImage) s) s)"

definition elf_elf32lookupSymbol :: "u32 \<Rightarrow> u32 \<Rightarrow> u32 \<Rightarrow> ('a executables_scheme, u32) prog" where
  "elf_elf32lookupSymbol img symbol neededImages =
     bnd (context_of img) (\<lambda>c.
     case c of None \<Rightarrow> ret 0
     | Some c \<Rightarrow>
         bnd (if ctx_has_symbolic c then elf_elf32lookupSymbolInImage img symbol else ret 0) (\<lambda>symb.
         if symb \<noteq> 0 then ret symb
         else
           bnd loader_getExecutable (\<lambda>mainExecutable.
           bnd (if mainExecutable \<noteq> 0 then elf_elf32lookupSymbolInImage mainExecutable symbol else ret 0) (\<lambda>symb.
           if symb \<noteq> 0 then ret symb
           else
             bnd (reads_of (\<lambda>s. load32 (ram s) neededImages)) (\<lambda>im s. needed_symbol_loop symbol im s)))))"

section \<open>Relocation\<close>

text \<open>An address of the file in physical memory, and a symbol's value in virtual memory.\<close>

definition physical_of :: "LoadedImage \<Rightarrow> u32 \<Rightarrow> u32" where
  "physical_of li v = ucast (PhysicalBase li + (ucast v - OriginalBase li))"

definition virtual_of :: "LoadedImage \<Rightarrow> u32 \<Rightarrow> u32" where
  "virtual_of li v = ucast ((ucast v - OriginalBase li) + VirtualBase li)"

text \<open>The word at the relocated place; \<open>None\<close> is an unsupported relocation.\<close>

definition relocated :: "LoadedImage \<Rightarrow> u32 \<Rightarrow> u32 \<Rightarrow> u32 \<Rightarrow> u32 \<Rightarrow> u32 \<Rightarrow> u32 option" where
  "relocated li type symb symbolAddress relocPosition old =
     (if type = R_386_JMP_SLOT then Some symbolAddress
      else if type = R_386_GLOB_DAT then Some symbolAddress
      else if type = R_386_RELATIVE then
        (if symb \<noteq> 0 then None else Some (old + ucast (VirtualBase li - OriginalBase li)))
      else if type = R_386_32 then Some (old + symbolAddress)
      else if type = R_386_PC32 then Some (old + (symbolAddress - relocPosition))
      else None)"

text \<open>The address of the symbol; \<open>None\<close> when it is not found. The bases are those of the importing image.\<close>

definition symbol_address :: "u32 \<Rightarrow> elf32_loaderContext \<Rightarrow> u32 \<Rightarrow> u32 \<Rightarrow> ('a executables_scheme, u32 option) prog" where
  "symbol_address img c symb neededImages s =
     (if symb = 0 then ret (Some 0) s
      else
        (let symbolName = ctx_strtab c + st_name (ram s) (sym_at (ctx_symtab c) symb)
         in bnd (elf_elf32lookupSymbol img symbolName neededImages) (\<lambda>resolved.
            if resolved = 0 then ret None
            else
              bnd (get_image img) (\<lambda>li.
              reads_of (\<lambda>s. Some (virtual_of li (st_value (ram s) resolved))))) s))"

definition relocate :: "u32 \<Rightarrow> elf32_loaderContext \<Rightarrow> u32 \<Rightarrow> u32 \<Rightarrow> ('a executables_scheme, bool) prog" where
  "relocate img c neededImages r s =
     (let type = ELF32_R_TYPE (r_info (ram s) r); symb = ELF32_R_SYM (r_info (ram s) r)
      in bnd (get_image img) (\<lambda>li s.
           let relocPosition = physical_of li (r_offset (ram s) r)
           in if type = 0 then ret True s
              else
                bnd (symbol_address img c symb neededImages) (\<lambda>symbolAddress s.
                  case symbolAddress of None \<Rightarrow> ret False s
                  | Some a \<Rightarrow>
                      (case relocated li type symb a relocPosition (load32 (ram s) relocPosition) of
                         None \<Rightarrow> ret False s
                       | Some w \<Rightarrow> seq (store32_p relocPosition w) (ret True) s)) s) s)"

primrec reloc_loop :: "nat \<Rightarrow> u32 \<Rightarrow> elf32_loaderContext \<Rightarrow> u32 \<Rightarrow> u32 \<Rightarrow> ('a executables_scheme, bool) prog" where
  "reloc_loop 0 img c neededImages r = ret True"
| "reloc_loop (Suc n) img c neededImages r =
     bnd (relocate img c neededImages r) (\<lambda>done.
     if done then reloc_loop n img c neededImages (r + 8) else ret False)"

definition elf_elf32doRelocation :: "u32 \<Rightarrow> u32 \<Rightarrow> u32 \<Rightarrow> u32 \<Rightarrow> ('a executables_scheme, bool) prog" where
  "elf_elf32doRelocation img relCount relocs neededImages =
     bnd (context_of img) (\<lambda>c.
     case c of None \<Rightarrow> ret False
     | Some c \<Rightarrow> reloc_loop (unat relCount) img c neededImages relocs)"

section \<open>Finding a symbol\<close>

text \<open>The hash function of the System V ABI, on the characters of a name.\<close>

definition sysv_step :: "u32 \<Rightarrow> u8 \<Rightarrow> u32" where
  "sysv_step h c =
     (let h = push_bit 4 h + ucast c; g = h AND 0xF0000000
      in (if g \<noteq> 0 then h XOR drop_bit 24 g else h) AND NOT g)"

definition sysv_hash :: "u8 list \<Rightarrow> u32" where
  "sysv_hash cs = foldl sysv_step 0 cs"

lemma clear_high:
  fixes h G :: u32
  assumes "\<And>i. bit G i \<Longrightarrow> 28 \<le> i"
  shows "(h XOR (h AND G)) XOR drop_bit 24 (h AND G) = (h XOR drop_bit 24 (h AND G)) AND NOT (h AND G)"
proof (rule bit_word_eqI)
  fix i
  assume i: "i < LENGTH(32)"
  then have "\<not> (28 \<le> i \<and> bit G (24 + i))" using bit_imp_le_length [of G "24 + i"] by auto
  then show "bit ((h XOR (h AND G)) XOR drop_bit 24 (h AND G)) i = bit ((h XOR drop_bit 24 (h AND G)) AND NOT (h AND G)) i"
    using assms [of i] i by (auto simp: bit_simps)
qed

lemma hash_step:
  fixes x G :: u32
  assumes "\<And>i. bit G i \<Longrightarrow> 28 \<le> i"
  shows "(x XOR (x AND G)) XOR drop_bit 24 (x AND G) =
    (if x AND G \<noteq> 0 then x XOR drop_bit 24 (x AND G) else x) AND NOT (x AND G)"
  using clear_high [OF assms, of G x] by (cases "x AND G = 0") simp_all

lemma elfhash_loop_step: "m nm \<noteq> 0 \<Longrightarrow> elfhash_loop m nm h = elfhash_loop m (nm + 1) (sysv_step h (m nm))"
proof -
  assume nz: "m nm \<noteq> 0"
  have "(0xF0000000 :: u32) = push_bit 28 0xF" by simp
  then have high: "bit (0xF0000000 :: u32) i \<Longrightarrow> 28 \<le> i" for i by (simp only: bit_push_bit_iff)
  show ?thesis
    unfolding sysv_step_def
    by (subst elfhash_loop.simps) (simp only: nz if_False Let_def, rule arg_cong [OF hash_step [OF high]])
qed

lemma elfhash_sysv: "cstr m p cs \<Longrightarrow> elfhash m p = Some (sysv_hash cs)"
proof -
  have "cstr m p cs \<Longrightarrow> elfhash_loop m p h = Some (foldl sysv_step h cs)" for h
  proof (induction cs arbitrary: p h)
    case Nil
    then show ?case by (subst elfhash_loop.simps) simp
  next
    case (Cons c cs)
    then show ?case by (simp add: elfhash_loop_step)
  qed
  then show "cstr m p cs \<Longrightarrow> elfhash m p = Some (sysv_hash cs)" by (simp add: elfhash_def sysv_hash_def)
qed

text \<open>The indices of a chain of the hash table, and the symbols that are taken.\<close>

fun symbol_chain :: "mem \<Rightarrow> elf32_loaderContext \<Rightarrow> u32 \<Rightarrow> u32 list \<Rightarrow> bool" where
  "symbol_chain m c n [] \<longleftrightarrow> n = 0"
| "symbol_chain m c n (i # is) \<longleftrightarrow> n = i \<and> n \<noteq> 0 \<and> symbol_chain m c (load32 m (ctx_chain c + 4 * n)) is"

definition is_definition :: "mem \<Rightarrow> elf32_loaderContext \<Rightarrow> (u32 \<Rightarrow> u8 list) \<Rightarrow> u8 list \<Rightarrow> u32 \<Rightarrow> bool" where
  "is_definition m c nm t n \<longleftrightarrow> nm n = t \<and> ELF32_ST_BIND (st_info m (sym_at (ctx_symtab c) n)) \<in> {1, 2} \<and>
     st_shndx m (sym_at (ctx_symtab c) n) \<noteq> 0"

lemma chain_loop_finds:
  assumes "symbol_chain m c n is" "cstr m symbol t"
    and "\<forall>i \<in> set is. cstr m (ctx_strtab c + st_name m (sym_at (ctx_symtab c) i)) (nm i)"
  shows "chain_loop m c symbol n =
    Some (case find (is_definition m c nm t) is of Some i \<Rightarrow> sym_at (ctx_symtab c) i | None \<Rightarrow> 0)"
  using assms(1,3)
proof (induction "is" arbitrary: n)
  case Nil
  then show ?case by (subst chain_loop.simps) simp
next
  case (Cons i "is")
  obtain r where r: "strcmp m (ctx_strtab c + st_name m (sym_at (ctx_symtab c) i)) symbol = Some r" "r = 0 \<longleftrightarrow> nm i = t"
    using strcmp_cstr [of m _ "nm i" symbol t] Cons.prems(2) assms(2) by auto
  have d: "(r = 0 \<and> ELF32_ST_BIND (st_info m (sym_at (ctx_symtab c) i)) \<in> {1, 2}
      \<and> st_shndx m (sym_at (ctx_symtab c) i) \<noteq> 0) = is_definition m c nm t i"
    using r(2) by (auto simp: is_definition_def)
  have n: "n = i" "i \<noteq> 0" using Cons.prems(1) by auto
  show ?case
    using Cons by (subst chain_loop.simps) (simp add: n r(1), use d in auto)
qed

text \<open>C21. The look-up of a symbol in an image computes the hash of the System V ABI and returns the first global
  or weak symbol of that name in its bucket that is defined, and 0 when there is none.\<close>

theorem symbol_lookup_finds_first:
  assumes "image_info s img = Some li" "Context li \<noteq> 0" "elf_contexts s (Context li) = Some c" "ctx_nbucket c \<noteq> 0"
    and "cstr (ram s) symbol t"
    and "symbol_chain (ram s) c (load32 (ram s) (ctx_bucket c + 4 * (sysv_hash t mod ctx_nbucket c))) is"
    and "\<forall>i \<in> set is. cstr (ram s) (ctx_strtab c + st_name (ram s) (sym_at (ctx_symtab c) i)) (nm i)"
  shows "elf_elf32lookupSymbolInImage img symbol s =
    Some (Inr (case find (is_definition (ram s) c nm t) is of Some i \<Rightarrow> sym_at (ctx_symtab c) i | None \<Rightarrow> 0, s))"
  using elfhash_sysv [OF assms(5)] chain_loop_finds [OF assms(6,5,7)] assms(1-4)
  by (simp add: elf_elf32lookupSymbolInImage_def bnd_def lift_option_def context_of_def get_image_def get_context_def deref_def ret_def)

text \<open>An image with the symbols \<open>e\<close>, undefined, and \<open>f\<close>, in one bucket.\<close>

definition symbol_context :: elf32_loaderContext where
  "symbol_context = zero_context\<lparr>ctx_strtab := 0x1000, ctx_symtab := 0x2000, ctx_nbucket := 1, ctx_nchain := 3,
     ctx_bucket := 0x3000, ctx_chain := 0x4000\<rparr>"

definition symbol_ram :: mem where
  "symbol_ram = (\<lambda>_. 0)(0x1001 := 0x65, 0x1003 := 0x66, 0x2010 := 1, 0x201C := 0x12, 0x2020 := 3, 0x202C := 0x12, 0x202E := 1,
     0x3000 := 1, 0x4004 := 2, 0x5000 := 0x66)"

definition symbol_machine :: executables where
  "symbol_machine = \<lparr>ram = symbol_ram, highestPhysicalPage = 0x1000, lowestPhysicalPage = 0, pageLookupTable = 0,
     FirmwareMemoryMap = 0, default_heap = 0, bios_answer = (\<lambda>k i r m. (r, m)), bios_calls = 0, stack_pointer = 0x9000,
     list_nodes = \<lparr>nxt = id, prv = id\<rparr>, DeviceList = 0, devices = (\<lambda>_. None), FsMountList = 0, mounts = (\<lambda>_. None),
     volumes = (\<lambda>_. None), files = (\<lambda>_. None), fat_files = (\<lambda>_. None), page_directory = 0, loader_loadedImages = 0,
     librarySearchPath = 0, image_info = (\<lambda>_. None)(0x6000 \<mapsto> zero_image\<lparr>Context := 0x7000\<rparr>),
     elf_contexts = (\<lambda>_. None)(0x7000 \<mapsto> symbol_context)\<rparr>"

theorem symbol_lookup_finds_first_witness:
  "elf_elf32lookupSymbolInImage 0x6000 0x5000 symbol_machine = Some (Inr (0x2020, symbol_machine))"
proof -
  let ?nm = "\<lambda>n :: u32. if n = 1 then [0x65] else [0x66 :: u8]"
  have r: "ram symbol_machine = symbol_ram" by (simp add: symbol_machine_def)
  have chain: "symbol_chain symbol_ram symbol_context (load32 symbol_ram (ctx_bucket symbol_context
      + 4 * (sysv_hash [0x66] mod ctx_nbucket symbol_context))) [1, 2]"
    by (simp add: symbol_context_def symbol_ram_def load32_def)
  have names: "\<forall>i \<in> set [1, 2]. cstr symbol_ram (ctx_strtab symbol_context
      + st_name symbol_ram (sym_at (ctx_symtab symbol_context) i)) (?nm i)"
    by (simp add: symbol_context_def symbol_ram_def load32_def sym_at_def st_name_def)
  have found: "find (is_definition symbol_ram symbol_context ?nm [0x66]) [1, 2] = Some 2"
    by (simp add: is_definition_def symbol_context_def symbol_ram_def load16_def sym_at_def st_info_def st_shndx_def ELF32_ST_BIND_def)
  have str: "cstr symbol_ram 0x5000 [0x66]" by (simp add: symbol_ram_def)
  have img: "image_info symbol_machine 0x6000 = Some (zero_image\<lparr>Context := 0x7000\<rparr>)"
    "Context (zero_image\<lparr>Context := 0x7000\<rparr>) \<noteq> 0"
    "elf_contexts symbol_machine (Context (zero_image\<lparr>Context := 0x7000\<rparr>)) = Some symbol_context"
    "ctx_nbucket symbol_context \<noteq> 0"
    by (simp_all add: symbol_machine_def symbol_context_def)
  show ?thesis
    using symbol_lookup_finds_first [OF img str [folded r] chain [folded r] names [folded r]]
    unfolding r found by (simp add: symbol_context_def sym_at_def)
qed

end
