(* ===== verification/ElfLink.thy ===== *)
theory ElfLink
  imports ElfLoader
begin

text \<open>
  Linking of 32-bit ELF files and \<open>elf_loadFile\<close> (exeformats/elfloader.c). Linking an image loads the
  libraries it needs, which links them in turn: \<open>elf_loadFile\<close> takes the depth of this nesting as an
  argument, and the result \<open>None\<close> stands for a deeper nesting as well as for a loop that does not end.
\<close>

section \<open>The dynamic section\<close>

text \<open>One entry: the context after it, or \<open>None\<close> for an entry the loader does not support.\<close>

definition dyn_step :: "LoadedImage \<Rightarrow> mem \<Rightarrow> u32 \<Rightarrow> elf32_loaderContext \<Rightarrow> elf32_loaderContext option" where
  "dyn_step li m d c =
     (let tag = d_tag m d; v = d_val m d
      in if tag = DT_PLTREL then (if v \<noteq> DT_REL then None else Some c)
         else if tag = DT_RELA then None
         else if tag = DT_JMPREL then Some (c\<lparr>ctx_pltRel := physical_of li v\<rparr>)
         else if tag = DT_PLTRELSZ then Some (c\<lparr>ctx_pltRelCount := v div 8\<rparr>)
         else if tag = DT_REL then Some (c\<lparr>ctx_rel := physical_of li v\<rparr>)
         else if tag = DT_RELSZ then Some (c\<lparr>ctx_relCount := v div 8\<rparr>)
         else if tag = DT_SYMTAB then Some (c\<lparr>ctx_symtab := physical_of li v\<rparr>)
         else if tag = DT_STRTAB then Some (c\<lparr>ctx_strtab := physical_of li v\<rparr>)
         else if tag = DT_HASH then
           (let h = physical_of li v; nbucket = load32 m h
            in Some (c\<lparr>ctx_nbucket := nbucket, ctx_nchain := load32 m (h + 4),
                 ctx_bucket := h + 8, ctx_chain := h + 8 + nbucket * 4\<rparr>))
         else if tag = DT_SYMBOLIC then Some (c\<lparr>ctx_has_symbolic := True\<rparr>)
         else Some c)"

text \<open>The loop, with the number of needed libraries so far; \<open>None\<close> is the result \<open>false\<close>.\<close>

partial_function (option) dyn_loop :: "u32 \<Rightarrow> u32 \<Rightarrow> u32 \<Rightarrow> 'a executables_scheme \<Rightarrow> (fault + u32 option \<times> 'a executables_scheme) option" where
  "dyn_loop img d neededCount s =
     (if d_tag (ram s) d = DT_NULL then ret (Some neededCount) s
      else
        bnd (get_image img) (\<lambda>li.
        bnd (get_context (Context li)) (\<lambda>c s.
          case dyn_step li (ram s) d c of
            None \<Rightarrow> ret None s
          | Some c' \<Rightarrow>
              seq (set_context (Context li) (Some c'))
                (\<lambda>s. dyn_loop img (d + 8)
                  (if d_tag (ram s) d = DT_NEEDED then neededCount + 1 else neededCount) s) s)) s)"

section \<open>Needed libraries\<close>

text \<open>\<open>load\<close> is \<open>elf_loadFile\<close>: the image it loads, or \<open>None\<close>.\<close>

definition load_library ::
    "(u32 \<Rightarrow> MemoryType \<Rightarrow> ('a executables_scheme, u32 option) prog) \<Rightarrow> u32 \<Rightarrow> ('a executables_scheme, u32 option) prog" where
  "load_library load libname =
     stack_array 256 (\<lambda>fullPath.
     seq (memset_p fullPath 0 256) (
     seq (modify (\<lambda>s. s\<lparr>ram := strncpy (ram s) fullPath (librarySearchPath s) 255\<rparr>)) (
     bnd (lift_option (\<lambda>s. fs_concatPath (ram s) fullPath libname 256)) (\<lambda>m.
     seq (modify (\<lambda>s. s\<lparr>ram := m\<rparr>))
       (load fullPath MemoryTypeGeexOSKernelLibrary)))))"

partial_function (option) needed_loop ::
    "(u32 \<Rightarrow> MemoryType \<Rightarrow> 'a executables_scheme \<Rightarrow> (fault + u32 option \<times> 'a executables_scheme) option) \<Rightarrow>
     u32 \<Rightarrow> u32 \<Rightarrow> u32 \<Rightarrow> u32 \<Rightarrow> 'a executables_scheme \<Rightarrow> (fault + bool \<times> 'a executables_scheme) option" where
  "needed_loop load img d j neededImages s =
     (if d_tag (ram s) d = DT_NULL then ret True s
      else if d_tag (ram s) d \<noteq> DT_NEEDED then needed_loop load img (d + 8) j neededImages s
      else
        bnd (get_image img) (\<lambda>li.
        bnd (get_context (Context li)) (\<lambda>c s.
          bnd (loader_isImageLoaded (ctx_strtab c + d_val (ram s) d)) (\<lambda>found.
          bnd (case found of Some im \<Rightarrow> ret (Some im) | None \<Rightarrow> load_library load (ctx_strtab c + d_val (ram s) d))
            (\<lambda>imported s.
              case imported of None \<Rightarrow> ret False s
              | Some im \<Rightarrow>
                  seq (store32_p (neededImages + 4 * j) im)
                    (\<lambda>s. needed_loop load img (d + 8) (j + 1) neededImages s) s)) s)) s)"

section \<open>Linking\<close>

primrec find_phdr :: "nat \<Rightarrow> mem \<Rightarrow> u32 \<Rightarrow> u32 \<Rightarrow> u32 option" where
  "find_phdr 0 m type p = None"
| "find_phdr (Suc n) m type p = (if p_type m p = type then Some p else find_phdr n m type (p + 32))"

definition relocate_all :: "u32 \<Rightarrow> u32 \<Rightarrow> u32 \<Rightarrow> u32 \<Rightarrow> ('a executables_scheme, bool) prog" where
  "relocate_all img count relocs neededImages =
     (if 0 < count \<and> relocs \<noteq> 0 then
        bnd (elf_elf32doRelocation img count relocs neededImages) (\<lambda>done.
        if done then ret True else seq (free_p neededImages) (ret False))
      else ret True)"

text \<open>The part after the dynamic section is read: tables present, libraries loaded, relocations applied.\<close>

definition link_dynamic ::
    "(u32 \<Rightarrow> MemoryType \<Rightarrow> ('a executables_scheme, u32 option) prog) \<Rightarrow> u32 \<Rightarrow> u32 \<Rightarrow> u32 \<Rightarrow>
     ('a executables_scheme, bool) prog" where
  "link_dynamic load img dyn neededCount =
     bnd (get_image img) (\<lambda>li.
     bnd (get_context (Context li)) (\<lambda>c.
     if ctx_nbucket c = 0 then ret False
     else if ctx_strtab c = 0 then ret False
     else if ctx_symtab c = 0 then ret False
     else
       bnd (malloc_p (4 * (neededCount + 1))) (\<lambda>neededImages.
       seq (memset_p neededImages 0 (4 * (neededCount + 1))) (
       bnd (if 0 < neededCount then (\<lambda>s. needed_loop load img dyn 0 neededImages s) else ret True) (\<lambda>done.
       if \<not> done then ret False
       else
         bnd (relocate_all img (ctx_relCount c) (ctx_rel c) neededImages) (\<lambda>done.
         if \<not> done then ret False
         else
           bnd (relocate_all img (ctx_pltRelCount c) (ctx_pltRel c) neededImages) (\<lambda>done.
           if \<not> done then ret False else seq (free_p neededImages) (ret True))))))))"

definition elf_linkElf32File ::
    "(u32 \<Rightarrow> MemoryType \<Rightarrow> ('a executables_scheme, u32 option) prog) \<Rightarrow> u32 \<Rightarrow> ('a executables_scheme, bool) prog" where
  "elf_linkElf32File load img =
     bnd (context_of img) (\<lambda>c.
     case c of None \<Rightarrow> ret False
     | Some c \<Rightarrow>
         bnd (reads_of (\<lambda>s. find_phdr (unat (ctx_phdrCount c)) (ram s) PT_DYNAMIC (ctx_phdrs c))) (\<lambda>phdr.
         case phdr of None \<Rightarrow> ret False
         | Some p \<Rightarrow>
             bnd (get_image img) (\<lambda>li s.
               let dyn = physical_of li (p_vaddr (ram s) p)
               in bnd (range_free_p (VirtualBase li + (ucast (p_vaddr (ram s) p) - OriginalBase li)) (p_memsz (ram s) p)) (\<lambda>free.
                  if free then ret False
                  else
                    bnd (\<lambda>s. dyn_loop img dyn 0 s) (\<lambda>needed.
                    case needed of None \<Rightarrow> ret False
                    | Some neededCount \<Rightarrow> link_dynamic load img dyn neededCount)) s)))"

section \<open>Loading a file\<close>

definition elf_loadElf64File :: "u32 \<Rightarrow> MemoryType \<Rightarrow> u32 \<Rightarrow> ('a executables_scheme, bool) prog" where
  "elf_loadElf64File imageFile memType img = ret False"

text \<open>The label \<open>out_error\<close>; \<open>img\<close> is null before the structure is allocated.\<close>

definition out_error :: "u32 \<Rightarrow> u32 \<Rightarrow> ('a executables_scheme, u32 option) prog" where
  "out_error imageFile img =
     seq (if imageFile \<noteq> 0 then bnd (close_file imageFile) (\<lambda>_. ret ()) else ret ()) (
     seq (if img \<noteq> 0 then
            bnd (get_image img) (\<lambda>li.
            seq (elf32_freeLoaderContext (Context li)) (
            seq (on_links (list_del (image_link img))) (
            seq (free_p img) (set_image img None))))
          else ret ())
       (ret None))"

text \<open>The structures of a new image, in the list; \<open>None\<close> when there is no memory for one of them.\<close>

definition new_image :: "u32 \<Rightarrow> ('a executables_scheme, u32) prog" where
  "new_image filename =
     bnd (malloc_p sizeof_LoadedImage) (\<lambda>img.
     if img = 0 then ret 0
     else
       seq (memset_p img 0 sizeof_LoadedImage) (
       bnd (lift_option (\<lambda>s. fs_getFilename (ram s) filename)) (\<lambda>nm.
       seq (modify (\<lambda>s. s\<lparr>ram := (strncpy (ram s) (image_Name img) nm 31)(image_Name img + 31 := 0)\<rparr>)) (
       seq (set_image img (Some (zero_image\<lparr>ImageType := LOADER_IMAGETYPE_ELF\<rparr>))) (
       ret img)))))"

definition new_context :: "u32 \<Rightarrow> ('a executables_scheme, bool) prog" where
  "new_context img =
     bnd (malloc_p sizeof_elf32_loaderContext) (\<lambda>context.
     if context = 0 then ret False
     else
       seq (memset_p context 0 sizeof_elf32_loaderContext) (
       seq (set_context context (Some zero_context)) (
       bnd (get_image img) (\<lambda>li.
       seq (set_image img (Some (li\<lparr>Context := context\<rparr>))) (
       seq (\<lambda>s. on_links (list_add (image_link img) (loader_loadedImages s)) s) (
       ret True))))))"

definition elf_magic :: "mem \<Rightarrow> u32 \<Rightarrow> bool" where
  "elf_magic m e_ident \<longleftrightarrow> \<not> (m e_ident \<noteq> 0x7F \<or> m (e_ident + 1) \<noteq> 0x45 \<or> m (e_ident + 2) \<noteq> 0x4C \<or> m (e_ident + 3) \<noteq> 0x46)"

definition elf_class :: "mem \<Rightarrow> u32 \<Rightarrow> u8" where
  "elf_class m e_ident = m (e_ident + 4)"

definition elf_steps32 ::
    "(u32 \<Rightarrow> MemoryType \<Rightarrow> ('a executables_scheme, u32 option) prog) \<Rightarrow> u32 \<Rightarrow> MemoryType \<Rightarrow> u32 \<Rightarrow>
     ('a executables_scheme, bool) prog" where
  "elf_steps32 load imageFile memType img =
     bnd (elf_getElf32Header imageFile img) (\<lambda>done. if \<not> done then ret False
     else bnd (elf_getElf32Phdrs imageFile img) (\<lambda>done. if \<not> done then ret False
     else bnd (elf_loadElf32File imageFile memType img) (\<lambda>done. if \<not> done then ret False
     else elf_linkElf32File load img)))"

primrec elf_loadFile :: "nat \<Rightarrow> u32 \<Rightarrow> MemoryType \<Rightarrow> ('a executables_scheme, u32 option) prog" where
  "elf_loadFile 0 filename memType = (\<lambda>s. None)"
| "elf_loadFile (Suc depth) filename memType =
     bnd (open_file filename) (\<lambda>imageFile.
     if imageFile = 0 then ret None
     else
       stack_array EI_NIDENT (\<lambda>e_ident.
       bnd (read_file imageFile e_ident EI_NIDENT) (\<lambda>n s.
       if n \<noteq> EI_NIDENT then out_error imageFile 0 s
       else if \<not> elf_magic (ram s) e_ident then out_error imageFile 0 s
       else if elf_class (ram s) e_ident \<noteq> ELFCLASS64 \<and> elf_class (ram s) e_ident \<noteq> ELFCLASS32
       then out_error imageFile 0 s
       else
         bnd (new_image filename) (\<lambda>img.
         if img = 0 then out_error imageFile 0
         else
           bnd (new_context img) (\<lambda>done.
           if \<not> done then out_error imageFile img
           else
             seq (seek_file imageFile 0 SEEK_SET) (\<lambda>s.
             bnd (if elf_class (ram s) e_ident = ELFCLASS64 then elf_loadElf64File imageFile memType img
                  else elf_steps32 (elf_loadFile depth) imageFile memType img) (\<lambda>done.
             if \<not> done then out_error imageFile img
             else bnd (close_file imageFile) (\<lambda>_. ret (Some img))) s))) s)))"

end
