(* ===== verification/Geexos.thy ===== *)
theory Geexos
  imports ElfLink
begin

text \<open>
  Loading of the kernel (loaders/geexos.c): its stack and image, the loader block with the loaded
  images and the memory descriptors, and the jump. The loader block is in the byte memory; the
  jump is the result of \<open>loader_loadGeexOS\<close>, which does not return.
\<close>

section \<open>The loader block\<close>

definition GEEXOS_KERNEL_STACK_ADDRESS :: u32 where "GEEXOS_KERNEL_STACK_ADDRESS = 0xE0000000"
definition GEEXOS_KERNEL_STACK_SIZE :: u32 where "GEEXOS_KERNEL_STACK_SIZE = 0x4000"
definition GEEXOS_ENV_INFO_ADDRESS :: u32 where "GEEXOS_ENV_INFO_ADDRESS = 0xE0004000"
definition GEEXOS_MAX_IMAGE_DESCRIPTORS :: u32 where "GEEXOS_MAX_IMAGE_DESCRIPTORS = 32"
definition GEEXOS_MAX_MEMORY_DESCRIPTORS :: u16 where "GEEXOS_MAX_MEMORY_DESCRIPTORS = 32"

text \<open>
  \<open>LOADER_BLOCK\<close>, 2716 bytes: size, number of images at 4, 32 images of 64 bytes at 8, number of
  descriptors at 2056, 32 descriptors of 20 bytes at 2060, the ACPI pointer at 2700, the upper
  memory boundary at 2708.
\<close>

definition sizeof_LOADER_BLOCK :: u32 where "sizeof_LOADER_BLOCK = 2716"
definition block_LoadedImageCount :: "u32 \<Rightarrow> u32" where "block_LoadedImageCount b = b + 4"
definition block_image :: "u32 \<Rightarrow> u32 \<Rightarrow> u32" where "block_image b i = b + 8 + 64 * i"
definition block_MemoryDescriptorCount :: "u32 \<Rightarrow> u32" where "block_MemoryDescriptorCount b = b + 2056"
definition block_descriptor :: "u32 \<Rightarrow> u32 \<Rightarrow> u32" where "block_descriptor b i = b + 2060 + 20 * i"
definition block_ACPIRDSPDescriptor :: "u32 \<Rightarrow> u32" where "block_ACPIRDSPDescriptor b = b + 2700"
definition block_UpperMemoryBoundary :: "u32 \<Rightarrow> u32" where "block_UpperMemoryBoundary b = b + 2708"

definition descriptor_count :: "mem \<Rightarrow> u32 \<Rightarrow> u16" where
  "descriptor_count m b = load16 m (block_MemoryDescriptorCount b)"

text \<open>The types for which a descriptor is made.\<close>

definition reported_type :: "MemoryType \<Rightarrow> bool" where
  "reported_type t \<longleftrightarrow>
     t \<in> {MemoryTypeBad, MemoryTypeSpecial, MemoryTypeUnusable, MemoryTypeFirmware,
       MemoryTypeGeexOSPageStructures, MemoryTypeGeexOSPageDirectory,
       MemoryTypeGeexOSKernelEnvironmentInformation, MemoryTypeGeexOSKernelExecutable,
       MemoryTypeGeexOSKernelStack, MemoryTypeGeexOSKernelLibrary}"

definition loader_addPhysicalMemoryBlock :: "mem \<Rightarrow> u32 \<Rightarrow> u64 \<Rightarrow> u64 \<Rightarrow> MemoryType \<Rightarrow> fault + mem" where
  "loader_addPhysicalMemoryBlock m loaderBlock start len type =
     (if GEEXOS_MAX_MEMORY_DESCRIPTORS \<le> descriptor_count m loaderBlock then Inl PanicDescriptors
      else
        (let d = block_descriptor loaderBlock (ucast (descriptor_count m loaderBlock))
         in if reported_type type
            then Inr (store16 (store32 (store64 (store64 m d start) (d + 8) len) (d + 16) type)
              (block_MemoryDescriptorCount loaderBlock) (descriptor_count m loaderBlock + 1))
            else Inr m))"

text \<open>The loop over the pages, from page \<open>i\<close> on; the table is read while the block is written.\<close>

primrec build_map_loop :: "nat \<Rightarrow> u32 \<Rightarrow> u32 \<Rightarrow> u32 \<Rightarrow> u32 \<Rightarrow> u64 \<Rightarrow> u64 \<Rightarrow> MemoryType \<Rightarrow> mem \<Rightarrow> fault + mem" where
  "build_map_loop 0 mmap count loaderBlock i lastPageIndex pagesCount lastPageType m = Inr m"
| "build_map_loop (Suc n) mmap count loaderBlock i lastPageIndex pagesCount lastPageType m =
     (if load32 m (mmap + 12 * i) = lastPageType \<and> i \<noteq> count - 1
      then build_map_loop n mmap count loaderBlock (i + 1) lastPageIndex (pagesCount + 1) lastPageType m
      else
        rbind (loader_addPhysicalMemoryBlock m loaderBlock lastPageIndex pagesCount lastPageType) (\<lambda>m.
        build_map_loop n mmap count loaderBlock (i + 1) (ucast i) 1 (load32 m (mmap + 12 * i)) m))"

text \<open>The number of entries is stored in a local variable.\<close>

definition loader_buildPhysicalMemoryMap :: "u32 \<Rightarrow> ('a executables_scheme, unit) prog" where
  "loader_buildPhysicalMemoryMap loaderBlock s =
     (let mmap = pageLookupTable s; count = ucast (highestPhysicalPage s - lowestPhysicalPage s)
      in if mmap = 0 then stop PanicLoader s
         else
           (case build_map_loop (unat count) mmap count loaderBlock 0 0 0 (load32 (ram s) mmap) (ram s) of
              Inl e \<Rightarrow> stop e s
            | Inr m \<Rightarrow> Some (Inr ((), s\<lparr>ram := m\<rparr>))))"

text \<open>The search for the signature \<open>RSD PTR\<close> at every 16th address below 1 MB; \<open>-1\<close> is not found.\<close>

definition rsdp_signature :: "mem \<Rightarrow> u32 \<Rightarrow> bool" where
  "rsdp_signature m d \<longleftrightarrow> load_bytes m d 8 = literal ''RSD PTR ''"

function acpi_loop :: "mem \<Rightarrow> u32 \<Rightarrow> u64" where
  "acpi_loop m curAddr =
     (if curAddr < 0x100000 then
        if rsdp_signature m curAddr then ucast curAddr else acpi_loop m (curAddr + 16)
      else - 1)"
  by pat_completeness auto
termination
proof (relation "measure (\<lambda>(m, curAddr). 0x100010 - unat curAddr)", goal_cases)
  case (2 m curAddr)
  then have "unat curAddr < 0x100000" by (simp add: word_less_nat_alt)
  then have "unat (curAddr + 16) = unat curAddr + 16" by (subst unat_add32) simp_all
  with \<open>unat curAddr < 0x100000\<close> show ?case by simp
qed simp

declare acpi_loop.simps [simp del]

definition loader_findAndMapACPITables :: "mem \<Rightarrow> u64" where
  "loader_findAndMapACPITables m = acpi_loop m 0"

section \<open>Filling the block\<close>

text \<open>The entry of an image. The first image of the list is marked as the kernel.\<close>

definition store_image :: "u32 \<Rightarrow> u32 \<Rightarrow> u32 \<Rightarrow> LoadedImage \<Rightarrow> mem \<Rightarrow> mem" where
  "store_image loaderBlock i img li m =
     (let e = block_image loaderBlock i;
          m = memcpy m e (image_Name img) 32;
          m = store64 m (e + 32) (PhysicalBase li);
          m = store64 m (e + 40) (VirtualBase li);
          m = store64 m (e + 48) (VirtualEntryPoint li);
          m = store32 m (e + 56) (SizeOfImage li);
          m = store32 m (e + 60) (if i = 0 then 1 else 0)
      in store16 m (block_LoadedImageCount loaderBlock) (load16 m (block_LoadedImageCount loaderBlock) + 1))"

partial_function (option) images_loop :: "u32 \<Rightarrow> u32 \<Rightarrow> u32 \<Rightarrow> 'a executables_scheme \<Rightarrow> (fault + unit \<times> 'a executables_scheme) option" where
  "images_loop loaderBlock img i s =
     (if image_link img \<noteq> loader_loadedImages s then
        if GEEXOS_MAX_IMAGE_DESCRIPTORS \<le> i then stop PanicImages s
        else
          bnd (get_image img) (\<lambda>li.
          seq (modify (\<lambda>s. s\<lparr>ram := store_image loaderBlock i img li (ram s)\<rparr>)) (
          bnd (next_image img) (\<lambda>img s. images_loop loaderBlock img (i + 1) s))) s
      else ret () s)"

definition loader_allocateAndPopulateLoaderBlock :: "('a executables_scheme, u32) prog" where
  "loader_allocateAndPopulateLoaderBlock =
     bnd (memory_allocate_p sizeof_LOADER_BLOCK MemoryTypeGeexOSKernelEnvironmentInformation) (\<lambda>loaderBlock.
     seq (memset_p loaderBlock 0 sizeof_LOADER_BLOCK) (
     seq (on_paging (\<lambda>p. Some (arch_map_virtual_memory p (ucast loaderBlock) (ucast GEEXOS_ENV_INFO_ADDRESS) False False))) (
     seq (store32_p loaderBlock sizeof_LOADER_BLOCK) (
     seq (bnd first_image (\<lambda>img s. images_loop loaderBlock img 0 s)) (
     seq (modify (\<lambda>s. s\<lparr>ram := store64 (ram s) (block_ACPIRDSPDescriptor loaderBlock)
            (loader_findAndMapACPITables (ram s))\<rparr>)) (
     seq (loader_buildPhysicalMemoryMap loaderBlock) (
     seq (modify (\<lambda>s. s\<lparr>ram := store64 (ram s) (block_UpperMemoryBoundary loaderBlock)
            ((highestPhysicalPage s + 1) * ucast arch_pagesize)\<rparr>)) (
     ret loaderBlock))))))))"

section \<open>Loading the kernel\<close>

text \<open>Entry point, stack and argument of the jump; the page directory is loaded into CR3 before it.\<close>

record kernel_jump =
  jump_cr3 :: u32
  jump_address :: u32
  jump_stack :: u32
  jump_argument :: u32

text \<open>
  The addresses of the two string literals are arguments, as is the depth of library nesting. The
  low 4 MB are mapped one to one, because the loader runs there when paging is turned on.
\<close>

definition loader_loadGeexOS :: "nat \<Rightarrow> u32 \<Rightarrow> u32 \<Rightarrow> ('a executables_scheme, kernel_jump) prog" where
  "loader_loadGeexOS depth library_path kernel_path =
     seq (on_paging (\<lambda>p. Some (arch_initialize_virtual_memory p))) (
     bnd (memory_allocate_p GEEXOS_KERNEL_STACK_SIZE MemoryTypeGeexOSKernelStack) (\<lambda>kernelStack.
     seq (map_range_p (ucast kernelStack) (ucast GEEXOS_KERNEL_STACK_ADDRESS) GEEXOS_KERNEL_STACK_SIZE True False) (
     seq (loader_setLibrarySearchPath library_path) (
     bnd (elf_loadFile depth kernel_path MemoryTypeGeexOSKernelExecutable) (\<lambda>loaded.
     case loaded of None \<Rightarrow> stop PanicLoader
     | Some kernelImageInfo \<Rightarrow>
         seq (map_range_p 0 0 (4 * 1024 * 1024) True True) (
         bnd loader_allocateAndPopulateLoaderBlock (\<lambda>loaderBlock.
         if 4 * 1024 * 1024 < loaderBlock then stop PanicLoader
         else if 4 * 1024 * 1024 < kernelImageInfo then stop PanicLoader
         else
           bnd (get_image kernelImageInfo) (\<lambda>li.
           reads_of (\<lambda>s. \<lparr>jump_cr3 = page_directory s, jump_address = ucast (VirtualEntryPoint li),
             jump_stack = GEEXOS_KERNEL_STACK_ADDRESS + GEEXOS_KERNEL_STACK_SIZE,
             jump_argument = GEEXOS_ENV_INFO_ADDRESS\<rparr>)))))))))"

section \<open>The memory map handed to the kernel\<close>

text \<open>The first \<open>k\<close> descriptors of a block.\<close>

definition descriptor :: "mem \<Rightarrow> u32 \<Rightarrow> nat \<Rightarrow> u64 \<times> u64 \<times> MemoryType" where
  "descriptor m b i =
     (let d = block_descriptor b (of_nat i) in (load64 m d, load64 m (d + 8), load32 m (d + 16)))"

definition descriptors :: "mem \<Rightarrow> u32 \<Rightarrow> (u64 \<times> u64 \<times> MemoryType) list" where
  "descriptors m b = map (descriptor m b) [0..<unat (descriptor_count m b)]"

definition write_descriptor :: "mem \<Rightarrow> u32 \<Rightarrow> u32 \<Rightarrow> u64 \<Rightarrow> u64 \<Rightarrow> MemoryType \<Rightarrow> mem" where
  "write_descriptor m b d start len type =
     store16 (store32 (store64 (store64 m d start) (d + 8) len) (d + 16) type)
       (block_MemoryDescriptorCount b) (descriptor_count m b + 1)"

lemma sep_offsets:
  assumes "x + n \<le> y \<or> y + k \<le> x" "x + n \<le> 4294967296" "y + k \<le> 4294967296"
  shows "sep (b + of_nat x) n (b + of_nat y) k"
proof (cases "n = 0 \<or> k = 0")
  case True
  then show ?thesis by (auto simp: sep_def)
next
  case False
  then have "unat (of_nat x :: u32) = x" "unat (of_nat y :: u32) = y"
    using assms(2,3) by (simp_all add: unat_of_nat32)
  then have "sep (of_nat x) n (of_nat y) k"
    using assms by (cases "x + n \<le> y") (auto intro: sep_below sep_above)
  then show ?thesis by simp
qed

lemma write_descriptor_frame:
  assumes "sep d 20 a n" "sep (block_MemoryDescriptorCount b) 2 a n"
  shows "agree m (write_descriptor m b d start len type) a n"
proof -
  have "sep d 8 a n" "sep (d + 8) 8 a n" "sep (d + 16) 4 a n"
    using sep_sub [OF assms(1), of 0 8] sep_sub [OF assms(1), of 8 8] sep_sub [OF assms(1), of 16 4] by simp_all
  then show ?thesis
    unfolding write_descriptor_def
    by (intro c16.store_keeps c32.store_keeps c64.store_keeps assms(2)) simp_all
qed

lemma block_offsets:
  "block_descriptor b (of_nat i) = b + of_nat (2060 + 20 * i)"
  "block_MemoryDescriptorCount b = b + of_nat 2056"
  by (simp_all add: block_descriptor_def block_MemoryDescriptorCount_def)

lemma descriptor_cong: "agree m m' (block_descriptor b (of_nat i)) 20 \<Longrightarrow> descriptor m' b i = descriptor m b i"
proof -
  assume a: "agree m m' (block_descriptor b (of_nat i)) 20"
  show ?thesis
    using load64_cong [OF agree_sub [OF a, of 0 8, simplified]] load64_cong [OF agree_sub [OF a, of 8 8, simplified]]
      load32_cong [OF agree_sub [OF a, of 16 4, simplified]]
    by (simp add: descriptor_def Let_def)
qed

text \<open>A reported type appends a descriptor; the memory outside the block is kept.\<close>

lemma add_block:
  assumes "unat (descriptor_count m b) < 32"
  shows "\<exists>m'. loader_addPhysicalMemoryBlock m b start len type = Inr m' \<and>
    descriptors m' b = descriptors m b @ (if reported_type type then [(start, len, type)] else []) \<and>
    (\<forall>a n. sep b 2716 a n \<longrightarrow> agree m m' a n)"
proof (cases "reported_type type")
  case False
  then show ?thesis
    using assms by (auto simp: loader_addPhysicalMemoryBlock_def GEEXOS_MAX_MEMORY_DESCRIPTORS_def word_le_nat_alt)
next
  case True
  define k where "k = unat (descriptor_count m b)"
  define d where "d = block_descriptor b (of_nat k)"
  define m' where "m' = write_descriptor m b d start len type"
  have k: "k < 32" using assms by (simp add: k_def)
  have u: "ucast (descriptor_count m b) = (of_nat k :: u32)" by (simp add: k_def)
  have add: "loader_addPhysicalMemoryBlock m b start len type = Inr m'"
    using True k by (simp add: loader_addPhysicalMemoryBlock_def GEEXOS_MAX_MEMORY_DESCRIPTORS_def word_le_nat_alt
        k_def [symmetric] u d_def [symmetric] m'_def write_descriptor_def Let_def)
  have count: "unat (descriptor_count m' b) = k + 1"
  proof -
    have "descriptor_count m' b = descriptor_count m b + 1" by (simp add: m'_def write_descriptor_def descriptor_count_def)
    then show ?thesis using k by (simp add: k_def unat_word_ariths)
  qed
  have old: "descriptor m' b i = descriptor m b i" if "i < k" for i
    unfolding m'_def d_def using that k
    by (intro descriptor_cong write_descriptor_frame; unfold block_offsets; intro sep_offsets; simp)
  have new: "descriptor m' b k = (start, len, type)"
  proof -
    let ?m = "store32 (store64 (store64 m d start) (d + 8) len) (d + 16) type"
    have "sep (block_MemoryDescriptorCount b) 2 d 20" unfolding d_def block_offsets using k by (intro sep_offsets) simp_all
    then have "descriptor m' b k = descriptor ?m b k"
      unfolding m'_def write_descriptor_def
      by (intro descriptor_cong) (simp add: store16_frame d_def [symmetric])
    also have "\<dots> = (start, len, type)"
      unfolding descriptor_def d_def [symmetric] Let_def by (simp add: load_store_simps)
    finally show ?thesis .
  qed
  have "descriptors m' b = descriptors m b @ [(start, len, type)]"
    using old new by (simp add: descriptors_def count k_def [symmetric])
  moreover have "agree m m' a n" if "sep b 2716 a n" for a n
  proof -
    have "sep d 20 a n" "sep (block_MemoryDescriptorCount b) 2 a n"
      using sep_sub [OF that, of "2060 + 20 * k" 20] sep_sub [OF that, of 2056 2] k
      unfolding d_def block_offsets by simp_all
    then show ?thesis unfolding m'_def by (rule write_descriptor_frame)
  qed
  ultimately show ?thesis using add True by simp
qed

text \<open>The maximal runs of pages of one type, after a run of \<open>len\<close> pages of type \<open>t\<close> from \<open>start\<close>.\<close>

primrec page_runs :: "nat \<Rightarrow> nat \<Rightarrow> MemoryType \<Rightarrow> MemoryType list \<Rightarrow> (nat \<times> nat \<times> MemoryType) list" where
  "page_runs start len t [] = [(start, len, t)]"
| "page_runs start len t (x # xs) =
     (if x = t then page_runs start (len + 1) t xs else (start, len, t) # page_runs (start + len) 1 x xs)"

lemma page_runs_cover:
  "(\<exists>(a, l, ty) \<in> set (page_runs start len t xs). a \<le> p \<and> p < a + l \<and> ty = x) \<longleftrightarrow>
   (start \<le> p \<and> p < start + len \<and> x = t) \<or> (\<exists>j < length xs. p = start + len + j \<and> xs ! j = x)"
proof (induction xs arbitrary: start len t)
  case Nil
  then show ?case by auto
next
  case (Cons y ys)
  have shift: "(\<exists>j < length (y # ys). p = start + len + j \<and> (y # ys) ! j = x) \<longleftrightarrow>
      (p = start + len \<and> y = x) \<or> (\<exists>j < length ys. p = start + len + 1 + j \<and> ys ! j = x)"
    by (auto simp: Ex_less_Suc2)
  show ?case unfolding shift using Cons by auto
qed

lemma page_runs_below: "(a, l, ty) \<in> set (page_runs start len t xs) \<Longrightarrow> a + l \<le> start + len + length xs"
  by (induction xs arbitrary: start len t) (fastforce split: if_splits)+

text \<open>The descriptors of runs, for the types that are reported.\<close>

definition reported_runs :: "(nat \<times> nat \<times> MemoryType) list \<Rightarrow> (u64 \<times> u64 \<times> MemoryType) list" where
  "reported_runs rs = map (\<lambda>(a, l, t). (of_nat a, of_nat l, t)) (filter (\<lambda>(a, l, t). reported_type t) rs)"

lemma reported_runs_simps [simp]:
  "reported_runs [] = []"
  "reported_runs ((a, l, t) # rs) = (if reported_type t then [(of_nat a, of_nat l, t)] else []) @ reported_runs rs"
  by (simp_all add: reported_runs_def)

definition page_types :: "mem \<Rightarrow> u32 \<Rightarrow> nat \<Rightarrow> MemoryType" where
  "page_types m mmap i = load32 m (mmap + 12 * of_nat i)"

lemma page_types_kept:
  assumes "\<forall>a n. sep b 2716 a n \<longrightarrow> agree m m' a n" "sep b 2716 mmap (12 * n)" "j < n"
  shows "page_types m' mmap j = page_types m mmap j"
proof -
  have "sep b 2716 (mmap + of_nat (12 * j)) 4" using assms(3) by (intro sep_sub2 [OF assms(2)]) simp
  then have "agree m m' (mmap + 12 * of_nat j) 4" using assms(1) by simp
  then show ?thesis unfolding page_types_def by (rule load32_cong [symmetric])
qed

lemma build_map_runs:
  assumes "\<forall>j < n. page_types m mmap j = T j" "sep b 2716 mmap (12 * n)" "n < 4294967296"
    and "i + k + 1 = n" "start + len = i"
  shows "case build_map_loop (Suc k) mmap (of_nat n) b (of_nat i) (of_nat start) (of_nat len) t m of
      Inl e \<Rightarrow> e = PanicDescriptors \<and>
        32 \<le> length (descriptors m b) + length (reported_runs (page_runs start len t (map T [i..<i + k])))
    | Inr m' \<Rightarrow> descriptors m' b = descriptors m b @ reported_runs (page_runs start len t (map T [i..<i + k])) \<and>
        (\<forall>a n. sep b 2716 a n \<longrightarrow> agree m m' a n)"
  using assms(1,4,5)
proof (induction k arbitrary: i start len t m)
  case 0
  have last: "of_nat i = (of_nat n :: u32) - 1" using 0 by (simp flip: 0(2))
  show ?case
  proof (cases "unat (descriptor_count m b) < 32")
    case True
    from add_block [OF this, of "of_nat start" "of_nat len" t] show ?thesis using last by auto
  next
    case False
    then show ?thesis
      using last by (auto simp: loader_addPhysicalMemoryBlock_def GEEXOS_MAX_MEMORY_DESCRIPTORS_def word_le_nat_alt descriptors_def)
  qed
next
  case (Suc k)
  have i: "i < n" "i < 4294967296" "i + 1 + k + 1 = n" using Suc.prems(2) assms(3) by simp_all
  have ty: "load32 m (mmap + 12 * of_nat i) = T i" using Suc.prems(1) i(1) by (simp add: page_types_def)
  have inner: "(of_nat i :: u32) \<noteq> of_nat n - 1"
  proof
    assume e: "(of_nat i :: u32) = of_nat n - 1"
    then have "(of_nat (i + 1) :: u32) = of_nat n" by simp
    then have "unat (of_nat (i + 1) :: u32) = unat (of_nat n :: u32)" by simp
    then show False using i assms(3) by (simp add: unat_of_nat32 del: of_nat_add of_nat_Suc)
  qed
  have list: "map T [i..<i + Suc k] = T i # map T [i + 1..<i + 1 + k]"
    by (subst upt_conv_Cons) simp_all
  have wi: "(of_nat i :: u32) + 1 = of_nat (i + 1)" "(of_nat len :: u64) + 1 = of_nat (len + 1)" by simp_all
  show ?case
  proof (cases "T i = t")
    case True
    have step: "build_map_loop (Suc (Suc k)) mmap (of_nat n) b (of_nat i) (of_nat start) (of_nat len) t m =
        build_map_loop (Suc k) mmap (of_nat n) b (of_nat (i + 1)) (of_nat start) (of_nat (len + 1)) t m"
      by (subst build_map_loop.simps(2)) (simp add: True inner ty add.commute del: build_map_loop.simps)
    have runs: "page_runs start len t (T i # xs) = page_runs start (len + 1) t xs" for xs using True by simp
    have "start + (len + 1) = i + 1" using Suc.prems(3) by simp
    then show ?thesis
      unfolding step list runs by (rule Suc.IH [OF Suc.prems(1) i(3)])
  next
    case False
    show ?thesis
    proof (cases "unat (descriptor_count m b) < 32")
      case True
      from add_block [OF this, of "of_nat start" "of_nat len" t] obtain m1 where
        add: "loader_addPhysicalMemoryBlock m b (of_nat start) (of_nat len) t = Inr m1" and
        d: "descriptors m1 b = descriptors m b @ reported_runs [(start, len, t)]" and
        keep: "\<forall>a n. sep b 2716 a n \<longrightarrow> agree m m1 a n" by auto
      have T1: "\<forall>j < n. page_types m1 mmap j = T j"
        using page_types_kept [OF keep assms(2)] Suc.prems(1) by simp
      have ty1: "load32 m1 (mmap + 12 * of_nat i) = T i" using T1 i(1) by (simp add: page_types_def)
      have start: "(ucast (of_nat i :: u32) :: u64) = of_nat i"
        using i(2) by (simp add: word_unat_eq_iff unsigned_ucast_eq unat_of_nat32 take_bit_nat_eq_self unsigned_of_nat)
      have step: "build_map_loop (Suc (Suc k)) mmap (of_nat n) b (of_nat i) (of_nat start) (of_nat len) t m =
          build_map_loop (Suc k) mmap (of_nat n) b (of_nat (i + 1)) (of_nat i) (of_nat 1) (T i) m1"
        by (subst build_map_loop.simps(2)) (simp add: False ty ty1 add start add.commute del: build_map_loop.simps)
      have after: "agree m m2 a j" if "\<forall>a n. sep b 2716 a n \<longrightarrow> agree m1 m2 a n" "sep b 2716 a j" for m2 a j
        using that keep agree_trans by blast
      have runs: "page_runs start len t (T i # xs) = (start, len, t) # page_runs i 1 (T i) xs" for xs
        using False Suc.prems(3) by simp
      show ?thesis
        using Suc.IH [OF T1 i(3), of i 1 "T i"] after unfolding step list runs
        by (auto simp: d simp del: build_map_loop.simps page_runs.simps split: sum.splits)
    next
      case full: False
      then show ?thesis
        using False ty unfolding list build_map_loop.simps(2) [of "Suc k"]
        by (auto simp: loader_addPhysicalMemoryBlock_def GEEXOS_MAX_MEMORY_DESCRIPTORS_def word_le_nat_alt descriptors_def)
    qed
  qed
qed

text \<open>The block gets at most 32 descriptors; outside the descriptors and their number it is not changed.\<close>

lemma build_map_count:
  "build_map_loop n mmap c b i start len t m = Inr m' \<Longrightarrow> length (descriptors m b) \<le> 32 \<Longrightarrow> length (descriptors m' b) \<le> 32"
proof (induction n arbitrary: i start len t m)
  case (Suc n)
  have add: "length (descriptors m1 b) \<le> 32" if a: "loader_addPhysicalMemoryBlock m b start len t = Inr m1" for m1
  proof -
    have "unat (descriptor_count m b) < 32"
      using a by (auto simp: loader_addPhysicalMemoryBlock_def GEEXOS_MAX_MEMORY_DESCRIPTORS_def word_le_nat_alt split: if_splits)
    then show ?thesis using add_block [of m b start len t] a by (auto simp: descriptors_def split: if_splits)
  qed
  show ?case
  proof (cases "load32 m (mmap + 12 * i) = t \<and> i \<noteq> c - 1")
    case True
    then show ?thesis using Suc by simp
  next
    case False
    then obtain m1 where "loader_addPhysicalMemoryBlock m b start len t = Inr m1"
      "build_map_loop n mmap c b (i + 1) (ucast i) 1 (load32 m1 (mmap + 12 * i)) m1 = Inr m'"
      using Suc.prems(1) unfolding build_map_loop.simps by (auto simp: rbind_def split: sum.splits)
    then show ?thesis using Suc.IH add by blast
  qed
qed simp

lemma build_map_frame:
  "build_map_loop n mmap c b i start len t m = Inr m' \<Longrightarrow> sep (b + of_nat 2056) 644 a k \<Longrightarrow> agree m m' a k"
proof (induction n arbitrary: i start len t m)
  case (Suc n)
  have add: "agree m m1 a k" if "loader_addPhysicalMemoryBlock m b start len t = Inr m1" for m1
  proof -
    let ?d = "block_descriptor b (ucast (descriptor_count m b))"
    have c: "unat (descriptor_count m b) < 32" and m1: "m1 = m \<or> m1 = write_descriptor m b ?d start len t"
      using that by (auto simp: loader_addPhysicalMemoryBlock_def GEEXOS_MAX_MEMORY_DESCRIPTORS_def word_le_nat_alt Let_def write_descriptor_def split: if_splits)
    have d: "?d = b + of_nat 2056 + of_nat (4 + 20 * unat (descriptor_count m b))" by (simp add: block_descriptor_def)
    have "sep ?d 20 a k" unfolding d using c by (intro sep_sub [OF Suc.prems(2)]) simp
    moreover have "sep (block_MemoryDescriptorCount b) 2 a k" using sep_sub [OF Suc.prems(2), of 0 2] by (simp add: block_MemoryDescriptorCount_def)
    ultimately show ?thesis using m1 write_descriptor_frame by auto
  qed
  show ?case
  proof (cases "load32 m (mmap + 12 * i) = t \<and> i \<noteq> c - 1")
    case True
    then show ?thesis using Suc by simp
  next
    case False
    then obtain m1 where m1: "loader_addPhysicalMemoryBlock m b start len t = Inr m1"
      "build_map_loop n mmap c b (i + 1) (ucast i) 1 (load32 m1 (mmap + 12 * i)) m1 = Inr m'"
      using Suc.prems(1) unfolding build_map_loop.simps by (auto simp: rbind_def split: sum.splits)
    show ?thesis by (rule agree_trans [OF add [OF m1(1)] Suc.IH [OF m1(2) Suc.prems(2)]])
  qed
qed simp

text \<open>The descriptors are the reported runs of pages of one type.\<close>

lemma memory_map_runs:
  assumes "pageLookupTable s \<noteq> 0" "n = unat (ucast (highestPhysicalPage s - lowestPhysicalPage s) :: u32)" "0 < n"
    and "sep b 2716 (pageLookupTable s) (12 * n)" "descriptor_count (ram s) b = 0"
    and rs: "rs = page_runs 0 0 (page_types (ram s) (pageLookupTable s) 0) (map (page_types (ram s) (pageLookupTable s)) [0..<n - 1])"
  shows "case loader_buildPhysicalMemoryMap b s of
      None \<Rightarrow> False
    | Some (Inl e) \<Rightarrow> e = PanicDescriptors \<and> 32 \<le> length (reported_runs rs)
    | Some (Inr (u, s')) \<Rightarrow> s' = s\<lparr>ram := ram s'\<rparr> \<and> descriptors (ram s') b = reported_runs rs \<and> length (reported_runs rs) \<le> 32"
proof -
  let ?T = "page_types (ram s) (pageLookupTable s)"
  have n: "n < 4294967296" using assms(2) by simp
  have count: "(ucast (highestPhysicalPage s - lowestPhysicalPage s) :: u32) = of_nat n" using assms(2) by simp
  obtain k where k: "n = Suc k" using assms(3) by (cases n) simp_all
  have e: "descriptors (ram s) b = []" using assms(5) by (simp add: descriptors_def)
  moreover have "\<forall>j < n. page_types (ram s) (pageLookupTable s) j = ?T j" by simp
  ultimately have "case build_map_loop n (pageLookupTable s) (of_nat n) b (of_nat 0) (of_nat 0) (of_nat 0) (?T 0) (ram s) of
      Inl e \<Rightarrow> e = PanicDescriptors \<and> 32 \<le> length (reported_runs rs)
    | Inr m' \<Rightarrow> descriptors m' b = reported_runs rs"
    using build_map_runs [where T = ?T and i = 0 and k = k and start = 0 and len = 0 and t = "?T 0" and m = "ram s", OF _ assms(4) n] k
    unfolding rs by (auto simp del: build_map_loop.simps page_runs.simps split: sum.splits)
  moreover have "length (reported_runs rs) \<le> 32" if "build_map_loop n (pageLookupTable s) (of_nat n) b 0 0 0 (?T 0) (ram s) = Inr m'"
    "descriptors m' b = reported_runs rs" for m'
    using build_map_count [OF that(1)] that(2) e by simp
  moreover have "load32 (ram s) (pageLookupTable s) = ?T 0" by (simp add: page_types_def)
  moreover have "unat (of_nat n :: u32) = n" using n by (rule unat_of_nat32)
  ultimately show ?thesis
    using assms(1) unfolding loader_buildPhysicalMemoryMap_def Let_def count
    by (cases "build_map_loop n (pageLookupTable s) (of_nat n) b 0 0 0 (?T 0) (ram s)") (simp_all add: stop_def)
qed

lemma reported_runs_cover:
  assumes "0 < n" "n < 4294967296" "rs = page_runs 0 0 (T 0) (map T [0..<n - 1])"
  shows "(\<exists>(first, len, ty) \<in> set (reported_runs rs). unat first \<le> p \<and> p < unat first + unat len \<and> ty = t) \<longleftrightarrow> p + 1 < n \<and> T p = t \<and> reported_type t"
proof -
  have small: "unat (of_nat a :: u64) = a" "unat (of_nat l :: u64) = l" if "(a, l, ty) \<in> set rs" for a l ty
    using page_runs_below [OF that [unfolded assms(3)]] assms(2) by (simp_all add: unat_of_nat64)
  have "(\<exists>(first, len, ty) \<in> set (reported_runs rs). unat first \<le> p \<and> p < unat first + unat len \<and> ty = t) \<longleftrightarrow>
      (\<exists>(a, l, ty) \<in> set rs. a \<le> p \<and> p < a + l \<and> ty = t) \<and> reported_type t"
    using small by (fastforce simp: reported_runs_def)
  also have "\<dots> \<longleftrightarrow> p + 1 < n \<and> T p = t \<and> reported_type t"
    unfolding assms(3) page_runs_cover using assms(1) by auto
  finally show ?thesis .
qed

text \<open>C22. The memory map of the loader block: when the table of pages is apart from the block and the block has
  no descriptor yet, \<open>loader_buildPhysicalMemoryMap\<close> makes descriptors that cover exactly the pages of the
  reported types, each with the type of its pages, except the last page of the table, which no descriptor covers.
  It panics only when there are 32 runs of reported pages or more.\<close>

theorem memory_map_covers_all_but_last:
  assumes "pageLookupTable s \<noteq> 0" "n = unat (ucast (highestPhysicalPage s - lowestPhysicalPage s) :: u32)" "0 < n"
    and "sep b 2716 (pageLookupTable s) (12 * n)" "descriptor_count (ram s) b = 0"
  shows "case loader_buildPhysicalMemoryMap b s of
      None \<Rightarrow> False
    | Some (Inl e) \<Rightarrow> e = PanicDescriptors \<and> 32 \<le> length (reported_runs (page_runs 0 0
        (page_types (ram s) (pageLookupTable s) 0) (map (page_types (ram s) (pageLookupTable s)) [0..<n - 1])))
    | Some (Inr (u, s')) \<Rightarrow> s' = s\<lparr>ram := ram s'\<rparr> \<and>
        (\<forall>p t. (\<exists>(first, len, ty) \<in> set (descriptors (ram s') b). unat first \<le> p \<and> p < unat first + unat len \<and> ty = t) \<longleftrightarrow>
           p + 1 < n \<and> page_types (ram s) (pageLookupTable s) p = t \<and> reported_type t)"
proof -
  let ?T = "page_types (ram s) (pageLookupTable s)"
  define rs where "rs = page_runs 0 0 (?T 0) (map ?T [0..<n - 1])"
  have "n < 4294967296" using assms(2) by simp
  note cover = reported_runs_cover [OF assms(3) this rs_def] and runs = memory_map_runs [OF assms rs_def]
  show ?thesis
  proof (cases "loader_buildPhysicalMemoryMap b s")
    case (Some r)
    show ?thesis
    proof (cases r)
      case (Inr x)
      obtain u s' where "x = (u, s')" by (cases x)
      with runs Some Inr have "s' = s\<lparr>ram := ram s'\<rparr>" "descriptors (ram s') b = reported_runs rs" by simp_all
      then show ?thesis unfolding Some Inr \<open>x = (u, s')\<close> option.case sum.case prod.case by (simp only: cover simp_thms)
    qed (use runs Some in \<open>simp add: rs_def\<close>)
  qed (use runs in simp)
qed

text \<open>Three pages that are all special memory.\<close>

definition special_pages :: executables where
  "special_pages = \<lparr>ram = empty_ram(0x100000 := ucast MemoryTypeSpecial, 0x10000C := ucast MemoryTypeSpecial, 0x100018 := ucast MemoryTypeSpecial),
     highestPhysicalPage = 3, lowestPhysicalPage = 0, pageLookupTable = 0x100000, FirmwareMemoryMap = 0, default_heap = 0,
     bios_answer = (\<lambda>k i r m. (r, m)), bios_calls = 0, stack_pointer = 0x9000, list_nodes = \<lparr>nxt = id, prv = id\<rparr>,
     DeviceList = 0, devices = (\<lambda>_. None), FsMountList = 0, mounts = (\<lambda>_. None), volumes = (\<lambda>_. None),
     files = (\<lambda>_. None), fat_files = (\<lambda>_. None), page_directory = 0, loader_loadedImages = 0, librarySearchPath = 0,
     image_info = (\<lambda>_. None), elf_contexts = (\<lambda>_. None)\<rparr>"

theorem memory_map_covers_all_but_last_witness:
  "\<exists>s'. loader_buildPhysicalMemoryMap 0x200000 special_pages = Some (Inr ((), s')) \<and>
    (\<exists>(first, len, ty) \<in> set (descriptors (ram s') 0x200000). unat first \<le> 1 \<and> 1 < unat first + unat len \<and> ty = MemoryTypeSpecial) \<and>
    \<not> (\<exists>(first, len, ty) \<in> set (descriptors (ram s') 0x200000). unat first \<le> 2 \<and> 2 < unat first + unat len \<and> ty = MemoryTypeSpecial)"
proof -
  let ?T = "page_types (ram special_pages) (pageLookupTable special_pages)"
  have T: "?T 0 = 3" "?T 1 = 3" "?T 2 = 3"
    by (simp_all add: page_types_def special_pages_def load32_def empty_ram_def)
  have runs: "length (reported_runs (page_runs 0 0 (?T 0) (map ?T [0..<3 - 1]))) = 1"
    using T by (simp add: upt_rec reported_type_def)
  have "sep 0x200000 2716 (0x100000 :: u32) 36" by (intro sep_above) simp_all
  moreover have "descriptor_count (ram special_pages) 0x200000 = 0"
    by (simp add: special_pages_def descriptor_count_def block_MemoryDescriptorCount_def load16_def empty_ram_def)
  ultimately have "case loader_buildPhysicalMemoryMap 0x200000 special_pages of
      None \<Rightarrow> False
    | Some (Inl e) \<Rightarrow> e = PanicDescriptors \<and> 32 \<le> length (reported_runs (page_runs 0 0 (?T 0) (map ?T [0..<3 - 1])))
    | Some (Inr (u, s')) \<Rightarrow> s' = special_pages\<lparr>ram := ram s'\<rparr> \<and>
        (\<forall>p t. (\<exists>(first, len, ty) \<in> set (descriptors (ram s') 0x200000). unat first \<le> p \<and> p < unat first + unat len \<and> ty = t) \<longleftrightarrow>
           p + 1 < 3 \<and> ?T p = t \<and> reported_type t)"
    by (intro memory_map_covers_all_but_last) (simp_all add: special_pages_def)
  then obtain s' where s': "loader_buildPhysicalMemoryMap 0x200000 special_pages = Some (Inr ((), s'))"
      "\<And>p t. (\<exists>(first, len, ty) \<in> set (descriptors (ram s') 0x200000). unat first \<le> p \<and> p < unat first + unat len \<and> ty = t) \<longleftrightarrow>
           p + 1 < 3 \<and> ?T p = t \<and> reported_type t"
    unfolding runs by (auto split: option.splits sum.splits)
  have "(\<exists>(first, len, ty) \<in> set (descriptors (ram s') 0x200000). unat first \<le> 1 \<and> 1 < unat first + unat len \<and> ty = MemoryTypeSpecial)"
    unfolding s'(2) using T by (simp add: reported_type_def)
  moreover have "\<not> (\<exists>(first, len, ty) \<in> set (descriptors (ram s') 0x200000). unat first \<le> 2 \<and> 2 < unat first + unat len \<and> ty = MemoryTypeSpecial)"
    unfolding s'(2) by simp
  ultimately show ?thesis using s'(1) by blast
qed

end
