(* ===== verification/Console.thy ===== *)
theory Console
  imports Printf
begin

text \<open>
  The output devices of the loader: the VGA text screen (arch/i386/print.c), the serial ports
  (arch/i386/serial.c), their entry points in arch/i386/arch.c, the debug output of debug.c that
  goes to one or both of them, and the random number generator of rand.c.
\<close>

section \<open>Port input and output\<close>

text \<open>
  What the devices answer is an input of the model: \<open>answers p k\<close> is the byte the \<open>k\<close>-th read of
  port \<open>p\<close> gives. Reads are counted per port, writes are recorded in order.
\<close>

record ports =
  answers :: "u16 \<Rightarrow> nat \<Rightarrow> u8"
  reads :: "u16 \<Rightarrow> nat"
  writes :: "(u16 \<times> u8) list"

definition portio_outb :: "u16 \<Rightarrow> u8 \<Rightarrow> 'a ports_scheme \<Rightarrow> 'a ports_scheme" where
  "portio_outb p v s = s\<lparr>writes := writes s @ [(p, v)]\<rparr>"

definition portio_inb :: "u16 \<Rightarrow> 'a ports_scheme \<Rightarrow> u8 \<times> 'a ports_scheme" where
  "portio_inb p s = (answers s p (reads s p), s\<lparr>reads := (reads s)(p := reads s p + 1)\<rparr>)"

section \<open>The text screen\<close>

type_synonym Color = u32

record console = ports +
  vram :: mem
  cursorX :: u32
  cursorY :: u32
  foregroundColor :: Color
  backgroundColor :: Color

definition videoram :: u32 where
  "videoram = 0xB8000"

text \<open>Cell \<open>i\<close> of the screen, character and attribute.\<close>

definition screen_cell :: "u32 \<Rightarrow> u32" where
  "screen_cell i = videoram + 2 * i"

definition print_i386_setBackgroundColor :: "Color \<Rightarrow> 'a console_scheme \<Rightarrow> 'a console_scheme" where
  "print_i386_setBackgroundColor c s = s\<lparr>backgroundColor := c\<rparr>"

definition print_i386_setForegroundColor :: "Color \<Rightarrow> 'a console_scheme \<Rightarrow> 'a console_scheme" where
  "print_i386_setForegroundColor c s = s\<lparr>foregroundColor := c\<rparr>"

definition attributeByte :: "'a console_scheme \<Rightarrow> u8" where
  "attributeByte s = ucast (push_bit 4 (backgroundColor s) OR (foregroundColor s AND 0x0F))"

definition attribute :: "'a console_scheme \<Rightarrow> u16" where
  "attribute s = push_bit 8 (ucast (attributeByte s))"

definition blank :: "'a console_scheme \<Rightarrow> u16" where
  "blank s = 0x20 OR attribute s"

definition moveCursor :: "'a console_scheme \<Rightarrow> 'a console_scheme" where
  "moveCursor s =
     (let temp = ucast (cursorY s * 80 + cursorX s) :: u16
      in portio_outb 0x3D5 (ucast temp) (portio_outb 0x3D4 15
           (portio_outb 0x3D5 (ucast (drop_bit 8 temp)) (portio_outb 0x3D4 14 s))))"

text \<open>The loops over cells \<open>i, \<dots>, i + n - 1\<close>.\<close>

primrec fill_cells :: "nat \<Rightarrow> u32 \<Rightarrow> u16 \<Rightarrow> mem \<Rightarrow> mem" where
  "fill_cells 0 i w m = m"
| "fill_cells (Suc n) i w m = fill_cells n (i + 1) w (store16 m (screen_cell i) w)"

primrec copy_cells :: "nat \<Rightarrow> u32 \<Rightarrow> mem \<Rightarrow> mem" where
  "copy_cells 0 i m = m"
| "copy_cells (Suc n) i m =
     copy_cells n (i + 1) (store16 m (screen_cell i) (load16 m (screen_cell (i + 80))))"

definition print_i386_clear :: "'a console_scheme \<Rightarrow> 'a console_scheme" where
  "print_i386_clear s =
     (let s = s\<lparr>cursorX := 0, cursorY := 0\<rparr>
      in moveCursor (s\<lparr>vram := fill_cells (25 * 80) 0 (blank s) (vram s)\<rparr>))"

definition scroll :: "'a console_scheme \<Rightarrow> 'a console_scheme" where
  "scroll s =
     (if 25 \<le> cursorY s
      then s\<lparr>vram := fill_cells 80 (24 * 80) (blank s) (copy_cells (24 * 80) 0 (vram s)),
             cursorY := 24\<rparr>
      else s)"

text \<open>A character is signed: those from 128 on are not printed.\<close>

definition print_i386_char :: "u8 \<Rightarrow> 'a console_scheme \<Rightarrow> 'a console_scheme" where
  "print_i386_char c s =
     (let s = (if c = 0x08 \<and> cursorX s \<noteq> 0 then s\<lparr>cursorX := cursorX s - 1\<rparr>
               else if c = 0x09 then s\<lparr>cursorX := (cursorX s + 8) AND NOT (8 - 1)\<rparr>
               else if c = 0x0D then s\<lparr>cursorX := 0\<rparr>
               else if c = 0x0A then s\<lparr>cursorX := 0, cursorY := cursorY s + 1\<rparr>
               else if 0x20 \<le> sint c
                 then s\<lparr>vram := store16 (vram s) (screen_cell (cursorY s * 80 + cursorX s))
                          (ucast c OR attribute s), cursorX := cursorX s + 1\<rparr>
               else s);
          s = (if 80 \<le> cursorX s then s\<lparr>cursorX := 0, cursorY := cursorY s + 1\<rparr> else s)
      in moveCursor (scroll s))"

section \<open>The serial ports\<close>

definition arch_i386_serial_setup :: "u16 \<Rightarrow> 'a ports_scheme \<Rightarrow> 'a ports_scheme" where
  "arch_i386_serial_setup port s =
     fold (\<lambda>(p, v). portio_outb p v)
       [(port + 1, 0x00), (port + 3, 0x80), (port + 0, 0x01), (port + 1, 0x00), (port + 3, 0x03),
        (port + 2, 0xC7), (port + 4, 0x0B), (port + 1, 0x0C)] s"

text \<open>Poll the line status register until the bit is set; it may never be.\<close>

partial_function (option) serial_wait :: "u16 \<Rightarrow> u8 \<Rightarrow> 'a ports_scheme \<Rightarrow> 'a ports_scheme option" where
  "serial_wait port bits s =
     (if fst (portio_inb (port + 5) s) AND bits = 0
      then serial_wait port bits (snd (portio_inb (port + 5) s))
      else Some (snd (portio_inb (port + 5) s)))"

definition arch_i386_serial_put_char :: "u16 \<Rightarrow> u8 \<Rightarrow> 'a ports_scheme \<Rightarrow> 'a ports_scheme option" where
  "arch_i386_serial_put_char port c s =
     Option.bind (serial_wait port 0x20 s) (\<lambda>s. Some (portio_outb port c s))"

definition arch_i386_serial_get_char :: "u16 \<Rightarrow> 'a ports_scheme \<Rightarrow> (u8 \<times> 'a ports_scheme) option" where
  "arch_i386_serial_get_char port s =
     Option.bind (serial_wait port 0x01 s) (\<lambda>s. Some (portio_inb port s))"

text \<open>arch.c: the table of five ports. The check lets index 5 through, one past its end.\<close>

definition serial_ports :: "u16 list" where
  "serial_ports = [0, 0x3F8, 0x2F8, 0x3E8, 0x2E8]"

definition serial_port :: "u32 \<Rightarrow> fault + u16" where
  "serial_port port =
     (if unat port < length serial_ports then Inr (serial_ports ! unat port) else Inl OutOfBounds)"

definition arch_serial_setup :: "u32 \<Rightarrow> 'a ports_scheme \<Rightarrow> fault + 'a ports_scheme" where
  "arch_serial_setup port s =
     (if port < 1 \<or> 5 < port then Inr s
      else rbind (serial_port port) (\<lambda>p. Inr (arch_i386_serial_setup p s)))"

definition arch_serial_putchar :: "u32 \<Rightarrow> u8 \<Rightarrow> 'a ports_scheme \<Rightarrow> (fault + 'a ports_scheme) option" where
  "arch_serial_putchar port c s =
     (if port < 1 \<or> 5 < port then Some (Inr s)
      else case serial_port port of Inl e \<Rightarrow> Some (Inl e)
        | Inr p \<Rightarrow> Option.bind (arch_i386_serial_put_char p c s) (\<lambda>s. Some (Inr s)))"

definition arch_serial_getchar :: "u32 \<Rightarrow> 'a ports_scheme \<Rightarrow> (fault + u8 \<times> 'a ports_scheme) option" where
  "arch_serial_getchar port s =
     (if port < 1 \<or> 5 < port then Some (Inr (0x20, s))
      else case serial_port port of Inl e \<Rightarrow> Some (Inl e)
        | Inr p \<Rightarrow> Option.bind (arch_i386_serial_get_char p s) (\<lambda>r. Some (Inr r)))"

definition arch_screen_putchar :: "u8 \<Rightarrow> 'a console_scheme \<Rightarrow> 'a console_scheme" where
  "arch_screen_putchar c s = print_i386_char c s"

section \<open>The debug output\<close>

record debug = console +
  enabledOutputPorts :: u32
  messageComPort :: u32
  gdbComPort :: u32

definition DBGPORT_SCREEN :: u32 where "DBGPORT_SCREEN = 0x01"
definition DBGPORT_RS232 :: u32 where "DBGPORT_RS232 = 0x02"
definition DBGPORT_RS232_COM1 :: u32 where "DBGPORT_RS232_COM1 = 0x01"
definition DBGPORT_RS232_COM2 :: u32 where "DBGPORT_RS232_COM2 = 0x02"
definition DBGPORT_RS232_COM3 :: u32 where "DBGPORT_RS232_COM3 = 0x04"
definition DBGPORT_RS232_COM4 :: u32 where "DBGPORT_RS232_COM4 = 0x08"

definition debug_enableOutputPort :: "u32 \<Rightarrow> 'a debug_scheme \<Rightarrow> 'a debug_scheme" where
  "debug_enableOutputPort port s = s\<lparr>enabledOutputPorts := enabledOutputPorts s OR port\<rparr>"

definition debug_disableOutputPort :: "u32 \<Rightarrow> 'a debug_scheme \<Rightarrow> 'a debug_scheme" where
  "debug_disableOutputPort port s = s\<lparr>enabledOutputPorts := enabledOutputPorts s AND NOT port\<rparr>"

definition debug_setMessageComPort :: "u32 \<Rightarrow> 'a debug_scheme \<Rightarrow> fault + 'a debug_scheme" where
  "debug_setMessageComPort port s = arch_serial_setup port (s\<lparr>messageComPort := port\<rparr>)"

definition debug_setGdbComPort :: "u32 \<Rightarrow> 'a debug_scheme \<Rightarrow> fault + 'a debug_scheme" where
  "debug_setGdbComPort port s = arch_serial_setup port (s\<lparr>gdbComPort := port\<rparr>)"

definition debug_init :: "'a debug_scheme \<Rightarrow> fault + 'a debug_scheme" where
  "debug_init s =
     rbind (debug_setMessageComPort DBGPORT_RS232_COM1 (debug_enableOutputPort DBGPORT_RS232 s))
       (debug_setGdbComPort DBGPORT_RS232_COM2)"

definition debug_getGdbComPort :: "'a debug_scheme \<Rightarrow> u32" where
  "debug_getGdbComPort s = gdbComPort s"

text \<open>The loop of \<open>debug_printf\<close>: every byte to the screen, to the serial port, or to both.\<close>

definition debug_putchar :: "u8 \<Rightarrow> 'a debug_scheme \<Rightarrow> (fault + 'a debug_scheme) option" where
  "debug_putchar c s =
     (let s = (if enabledOutputPorts s AND DBGPORT_SCREEN \<noteq> 0 then arch_screen_putchar c s else s)
      in if enabledOutputPorts s AND DBGPORT_RS232 \<noteq> 0
         then arch_serial_putchar (messageComPort s) c s else Some (Inr s))"

primrec debug_puts :: "u8 list \<Rightarrow> 'a debug_scheme \<Rightarrow> (fault + 'a debug_scheme) option" where
  "debug_puts [] s = Some (Inr s)"
| "debug_puts (c # cs) s = Option.bind (debug_putchar c s) (\<lambda>r. case r of
       Inl e \<Rightarrow> Some (Inl e) | Inr s \<Rightarrow> debug_puts cs s)"

definition debug_printf :: "mem \<Rightarrow> u32 \<Rightarrow> u32 \<Rightarrow> u32 list \<Rightarrow> 'a debug_scheme \<Rightarrow>
    (fault + u32 \<times> mem \<times> 'a debug_scheme) option" where
  "debug_printf m vprintf_buffer format params s =
     Option.bind (vsnprintf m vprintf_buffer 1024 format params) (\<lambda>r. case r of
         Inl e \<Rightarrow> Some (Inl e)
       | Inr (retval, m) \<Rightarrow> Option.bind (string_at m vprintf_buffer) (\<lambda>cs.
           Option.bind (debug_puts cs s) (\<lambda>r. Some (rbind r (\<lambda>s. Inr (retval, m, s))))))"

section \<open>The random number generator\<close>

definition srand :: "u32 \<Rightarrow> u32" where
  "srand seed = seed"

text \<open>The state is the last number; the result is the new state.\<close>

definition rand :: "u32 \<Rightarrow> u32" where
  "rand rnd_lcg1_xn = rnd_lcg1_xn * 3039177861"

section \<open>The screen as a list of cells\<close>

definition screen :: "mem \<Rightarrow> u16 list" where
  "screen m = map (\<lambda>i. load16 m (screen_cell (of_nat i))) [0..<2000]"

text \<open>Nothing outside the 4000 bytes of the screen is different.\<close>

definition screen_only :: "mem \<Rightarrow> mem \<Rightarrow> bool" where
  "screen_only m m' \<longleftrightarrow> (\<forall>a. 4000 \<le> a - videoram \<longrightarrow> m' a = m a)"

definition cursor_ok :: "'a console_scheme \<Rightarrow> bool" where
  "cursor_ok s \<longleftrightarrow> cursorX s < 80 \<and> cursorY s < 25"

lemma length_screen [simp]: "length (screen m) = 2000"
  by (simp add: screen_def)

lemma nth_screen: "i < 2000 \<Longrightarrow> screen m ! i = load16 m (screen_cell (of_nat i))"
  by (simp add: screen_def)

lemma cell_distance: "i < 2000 \<Longrightarrow> unat (screen_cell (of_nat i) - videoram) = 2 * i"
  using unat_of_nat32 [of "2 * i"] by (simp add: screen_cell_def)

lemma cells_apart: "i < 2000 \<Longrightarrow> j < 2000 \<Longrightarrow> i \<noteq> j \<Longrightarrow> sep (screen_cell (of_nat i)) 2 (screen_cell (of_nat j)) 2"
proof -
  assume ij: "i < 2000" "j < 2000" "i \<noteq> j"
  have u: "unat (screen_cell (of_nat k)) = 753664 + 2 * k" if "k < 2000" for k
    using unat_add_of_nat32 [of videoram "2 * k"] that by (simp add: screen_cell_def videoram_def)
  show ?thesis
  proof (cases "i < j")
    case True
    then show ?thesis using ij by (intro sep_below) (simp_all add: u)
  next
    case False
    then show ?thesis using ij by (intro sep_above) (simp_all add: u)
  qed
qed

lemma screen_store: "i < 2000 \<Longrightarrow> screen (store16 m (screen_cell (of_nat i)) w) = (screen m)[i := w]"
proof (rule nth_equalityI)
  fix j
  assume i: "i < 2000" and "j < length (screen (store16 m (screen_cell (of_nat i)) w))"
  then have "j < 2000" by simp
  with i show "screen (store16 m (screen_cell (of_nat i)) w) ! j = (screen m)[i := w] ! j"
    using cells_apart [of i j] by (auto simp: nth_screen nth_list_update c16.load_store_sep)
qed simp

lemma screen_only_store:
  assumes "i < 2000"
  shows "screen_only m (store16 m (screen_cell (of_nat i)) w)"
  unfolding screen_only_def
proof (intro allI impI)
  fix a
  assume a: "4000 \<le> a - videoram"
  have "a \<noteq> screen_cell (of_nat i) + of_nat k" if "k < 2" for k
  proof
    assume "a = screen_cell (of_nat i) + of_nat k"
    then have "a - videoram = of_nat (2 * i + k)" by (simp add: screen_cell_def)
    then have "unat (a - videoram) = 2 * i + k"
      using assms that by (simp only: unat_of_nat32)
    with a assms that show False by (simp add: word_le_nat_alt)
  qed
  from this [of 0] this [of 1] show "store16 m (screen_cell (of_nat i)) w a = m a"
    by (simp add: store16_def)
qed

lemma screen_only_refl [simp]: "screen_only m m"
  by (simp add: screen_only_def)

lemma screen_only_trans: "screen_only m m' \<Longrightarrow> screen_only m' m'' \<Longrightarrow> screen_only m m''"
  by (simp add: screen_only_def)

lemma fill_cells_screen:
  "i + n \<le> 2000 \<Longrightarrow> screen (fill_cells n (of_nat i) w m) =
     take i (screen m) @ replicate n w @ drop (i + n) (screen m)
   \<and> screen_only m (fill_cells n (of_nat i) w m)"
proof (induction n arbitrary: i m)
  case 0
  then show ?case by simp
next
  case (Suc n)
  let ?m = "store16 m (screen_cell (of_nat i)) w"
  have ih: "screen (fill_cells n (of_nat (Suc i)) w ?m) =
      take (Suc i) (screen ?m) @ replicate n w @ drop (Suc i + n) (screen ?m)"
    "screen_only ?m (fill_cells n (of_nat (Suc i)) w ?m)"
    using Suc.IH [of "Suc i" ?m] Suc.prems by simp_all
  have "take (Suc i) ((screen m)[i := w]) = take i (screen m) @ [w]"
    using Suc.prems by (simp add: take_Suc_conv_app_nth)
  with ih screen_store [of i m w] screen_only_store [of i m w] Suc.prems show ?case
    by (auto simp: add.commute intro: screen_only_trans)
qed

lemma copy_cells_screen:
  "i + n \<le> 1920 \<Longrightarrow> screen (copy_cells n (of_nat i) m) =
     take i (screen m) @ take n (drop (i + 80) (screen m)) @ drop (i + n) (screen m)
   \<and> screen_only m (copy_cells n (of_nat i) m)"
proof (induction n arbitrary: i m)
  case 0
  then show ?case by simp
next
  case (Suc n)
  let ?w = "load16 m (screen_cell (of_nat i + 80))"
  let ?m = "store16 m (screen_cell (of_nat i)) ?w"
  have w: "?w = screen m ! (i + 80)" using Suc.prems by (simp add: nth_screen)
  have ih: "screen (copy_cells n (of_nat (Suc i)) ?m) =
      take (Suc i) (screen ?m) @ take n (drop (Suc i + 80) (screen ?m)) @ drop (Suc i + n) (screen ?m)"
    "screen_only ?m (copy_cells n (of_nat (Suc i)) ?m)"
    using Suc.IH [of "Suc i" ?m] Suc.prems by simp_all
  have "take (Suc i) ((screen m)[i := ?w]) = take i (screen m) @ [?w]"
    using Suc.prems by (simp add: take_Suc_conv_app_nth)
  moreover have "take (Suc n) (drop (i + 80) (screen m)) =
      screen m ! (i + 80) # take n (drop (Suc i + 80) (screen m))"
    using Suc.prems by (simp add: take_Suc_conv_app_nth Cons_nth_drop_Suc [symmetric])
  ultimately show ?case
    using ih screen_store [of i m ?w] screen_only_store [of i m ?w] Suc.prems w
    by (auto simp: add.commute intro: screen_only_trans)
qed

lemma scroll_screen:
  assumes "25 \<le> cursorY s"
  shows "screen (vram (scroll s)) = drop 80 (screen (vram s)) @ replicate 80 (blank s)"
    and "screen_only (vram s) (vram (scroll s))"
proof -
  let ?m = "copy_cells 1920 0 (vram s)"
  have c: "screen ?m = take 1920 (drop 80 (screen (vram s))) @ drop 1920 (screen (vram s))"
    "screen_only (vram s) ?m"
    using copy_cells_screen [of 0 1920 "vram s"] by simp_all
  have f: "screen (fill_cells 80 1920 (blank s) ?m) = take 1920 (screen ?m) @ replicate 80 (blank s)"
    "screen_only ?m (fill_cells 80 1920 (blank s) ?m)"
    using fill_cells_screen [of 1920 80 "blank s" ?m] by simp_all
  have v: "vram (scroll s) = fill_cells 80 1920 (blank s) ?m" using assms by (simp add: scroll_def)
  show "screen (vram (scroll s)) = drop 80 (screen (vram s)) @ replicate 80 (blank s)"
    unfolding v f(1) c(1) by simp
  show "screen_only (vram s) (vram (scroll s))"
    unfolding v using c(2) f(2) by (rule screen_only_trans)
qed

lemma moveCursor_fields [simp]:
  "vram (moveCursor s) = vram s" "cursorX (moveCursor s) = cursorX s" "cursorY (moveCursor s) = cursorY s"
  by (simp_all add: moveCursor_def portio_outb_def Let_def)

lemma scroll_cursor: "cursorY s \<le> 25 \<Longrightarrow> cursorX s < 80 \<Longrightarrow> cursor_ok (scroll s)"
  by (auto simp: scroll_def cursor_ok_def not_le)

lemma scroll_only: "screen_only (vram s) (vram (scroll s))"
  using scroll_screen(2) [of s] by (cases "25 \<le> cursorY s") (auto simp: scroll_def)

text \<open>The two halves of \<open>print_i386_char\<close>: the character itself, then the end of the line.\<close>

definition put_char :: "u8 \<Rightarrow> 'a console_scheme \<Rightarrow> 'a console_scheme" where
  "put_char c s =
     (if c = 0x08 \<and> cursorX s \<noteq> 0 then s\<lparr>cursorX := cursorX s - 1\<rparr>
      else if c = 0x09 then s\<lparr>cursorX := (cursorX s + 8) AND NOT (8 - 1)\<rparr>
      else if c = 0x0D then s\<lparr>cursorX := 0\<rparr>
      else if c = 0x0A then s\<lparr>cursorX := 0, cursorY := cursorY s + 1\<rparr>
      else if 0x20 \<le> sint c
        then s\<lparr>vram := store16 (vram s) (screen_cell (cursorY s * 80 + cursorX s))
                 (ucast c OR attribute s), cursorX := cursorX s + 1\<rparr>
      else s)"

definition end_of_line :: "'a console_scheme \<Rightarrow> 'a console_scheme" where
  "end_of_line s = (if 80 \<le> cursorX s then s\<lparr>cursorX := 0, cursorY := cursorY s + 1\<rparr> else s)"

lemma print_char_halves: "print_i386_char c s = moveCursor (scroll (end_of_line (put_char c s)))"
  by (simp add: print_i386_char_def put_char_def end_of_line_def Let_def)

lemma cursor_index:
  assumes "cursor_ok s"
  shows "cursorY s * 80 + cursorX s = of_nat (unat (cursorY s) * 80 + unat (cursorX s))"
    "unat (cursorY s) * 80 + unat (cursorX s) < 2000"
  using assms by (simp_all add: cursor_ok_def word_less_nat_alt)

lemma put_char_only: "cursor_ok s \<Longrightarrow> screen_only (vram s) (vram (put_char c s))"
  using cursor_index [of s] screen_only_store [of "unat (cursorY s) * 80 + unat (cursorX s)"]
  by (auto simp: put_char_def)

lemma put_char_cursor:
  assumes ok: "cursor_ok s"
  shows "cursorY (put_char c s) < 25 \<or> cursorY (put_char c s) = 25 \<and> cursorX (put_char c s) = 0"
proof -
  have "unat (cursorY s + 1) = Suc (unat (cursorY s))"
    using ok by (intro unat_Suc_less [of _ 25]) (simp add: cursor_ok_def)
  then have "cursorY s + 1 \<le> 25" using ok by (simp add: cursor_ok_def word_le_nat_alt word_less_nat_alt)
  then have "cursorY s + 1 < 25 \<or> cursorY s + 1 = 25" by (rule le_imp_less_or_eq)
  with ok show ?thesis by (auto simp: put_char_def cursor_ok_def)
qed

lemma end_of_line_cursor:
  assumes "cursorY s < 25 \<or> cursorY s = 25 \<and> cursorX s = 0"
  shows "cursorY (end_of_line s) \<le> 25" "cursorX (end_of_line s) < 80"
proof -
  have "cursorY s < 25 \<Longrightarrow> cursorY s + 1 \<le> 25"
  proof -
    assume lt: "cursorY s < 25"
    then have "unat (cursorY s + 1) = Suc (unat (cursorY s))" by (rule unat_Suc_less)
    with lt show ?thesis by (simp add: word_le_nat_alt word_less_nat_alt)
  qed
  with assms show "cursorY (end_of_line s) \<le> 25" by (auto simp: end_of_line_def)
  show "cursorX (end_of_line s) < 80" by (simp add: end_of_line_def not_le)
qed

lemma print_char_ok:
  assumes "cursor_ok s"
  shows "cursor_ok (print_i386_char c s)" "screen_only (vram s) (vram (print_i386_char c s))"
proof -
  note e = end_of_line_cursor [OF put_char_cursor [OF assms, of c]]
  show "cursor_ok (print_i386_char c s)"
    using scroll_cursor [OF e] by (simp add: print_char_halves cursor_ok_def)
  have "vram (end_of_line (put_char c s)) = vram (put_char c s)" by (simp add: end_of_line_def)
  then have "screen_only (vram s) (vram (end_of_line (put_char c s)))"
    using put_char_only [OF assms, of c] by simp
  from screen_only_trans [OF this scroll_only] show "screen_only (vram s) (vram (print_i386_char c s))"
    by (simp add: print_char_halves)
qed

section \<open>Properties\<close>

text \<open>C37. Printing never leaves the screen: from a cursor on the screen, any sequence of characters keeps
  the cursor on the screen and writes only the 4000 bytes of the text buffer.\<close>

theorem screen_output_stays_on_screen:
  assumes "cursor_ok s"
  shows "cursor_ok (fold arch_screen_putchar cs s)
    \<and> screen_only (vram s) (vram (fold arch_screen_putchar cs s))"
  using assms
proof (induction cs arbitrary: s)
  case Nil
  then show ?case by simp
next
  case (Cons c cs)
  from Cons.IH [OF print_char_ok(1) [OF Cons.prems, of c]] print_char_ok(2) [OF Cons.prems, of c]
  show ?case by (auto simp: arch_screen_putchar_def intro: screen_only_trans)
qed

definition blank_screen :: console where
  "blank_screen = print_i386_clear \<lparr>answers = \<lambda>_ _. 0, reads = \<lambda>_. 0, writes = [], vram = \<lambda>_. 0,
     cursorX = 77, cursorY = 99, foregroundColor = 15, backgroundColor = 0\<rparr>"

theorem screen_output_stays_on_screen_witness:
  "cursor_ok (fold arch_screen_putchar [0x41, 0x0A, 0x08] blank_screen)
    \<and> screen_only (vram blank_screen) (vram (fold arch_screen_putchar [0x41, 0x0A, 0x08] blank_screen))"
  by (rule screen_output_stays_on_screen)
    (simp add: blank_screen_def print_i386_clear_def cursor_ok_def Let_def)

text \<open>Scrolling moves every line up by one, drops the first and leaves the last one blank in the
  current colours.\<close>

lemma scroll_moves_lines_up:
  assumes "25 \<le> cursorY s"
  shows "screen (vram (scroll s)) = drop 80 (screen (vram s)) @ replicate 80 (blank s)
    \<and> cursorY (scroll s) = 24"
  using scroll_screen(1) [OF assms] assms by (simp add: scroll_def)

lemma scroll_moves_lines_up_example:
  "screen (vram (scroll (blank_screen\<lparr>cursorY := 25\<rparr>))) =
      drop 80 (screen (vram (blank_screen\<lparr>cursorY := 25\<rparr>))) @ replicate 80 (blank (blank_screen\<lparr>cursorY := 25\<rparr>))
    \<and> cursorY (scroll (blank_screen\<lparr>cursorY := 25\<rparr>)) = 24"
  by (rule scroll_moves_lines_up) simp

text \<open>The port number 5 passes the check of the serial functions and reads one past the end of the
  table; the names for COM3 and COM4 are the bits 4 and 8, so COM3 selects the fourth port of the
  table and COM4 is ignored.\<close>

lemma serial_port_numbers:
  "arch_serial_setup 5 s = Inl OutOfBounds
    \<and> arch_serial_setup DBGPORT_RS232_COM3 s = Inr (arch_i386_serial_setup 0x2E8 s)
    \<and> arch_serial_setup DBGPORT_RS232_COM4 s = Inr s"
  by (simp add: arch_serial_setup_def serial_port_def serial_ports_def DBGPORT_RS232_COM3_def
      DBGPORT_RS232_COM4_def)

end
