(* ===== verification/Gdbstub.thy ===== *)
theory Gdbstub
  imports Program Console
begin

text \<open>
  The stub of the GNU debugger (arch/i386/gdbstub.c): hexadecimal text, registers, packets over the
  serial port and the command loop. The static arrays of the file have addresses in the byte memory
  \<open>stub_ram\<close>; a pointer into them is an address, and a write behind their end is a write to the memory
  that follows. The debug messages of the file are left out: they go to another port.
\<close>

section \<open>The state\<close>

record stub = debug +
  stub_ram :: mem
  inputBuffer :: u32
  outputBuffer :: u32
  gdbRegisters :: u32
  gdbstub_enabled :: bool

definition BUFMAX :: u32 where "BUFMAX = 1000"
definition NUMREGS :: nat where "NUMREGS = 16"

definition hexchars :: "u8 list" where
  "hexchars = literal ''0123456789abcdef''"

definition gdbstub_i386_enable :: "'a stub_scheme \<Rightarrow> 'a stub_scheme" where
  "gdbstub_i386_enable s = s\<lparr>gdbstub_enabled := True\<rparr>"

section \<open>Hexadecimal text\<close>

text \<open>The result is an \<open>int\<close>; \<open>-1\<close> for another character.\<close>

definition hex :: "u8 \<Rightarrow> u32" where
  "hex ch =
     (if 0x61 \<le> ch \<and> ch \<le> 0x66 then ucast ch - 0x61 + 10
      else if 0x30 \<le> ch \<and> ch \<le> 0x39 then ucast ch - 0x30
      else if 0x41 \<le> ch \<and> ch \<le> 0x46 then ucast ch - 0x41 + 10
      else - 1)"

definition hex_digit :: "u8 \<Rightarrow> u8" where
  "hex_digit d = hexchars ! unat d"

text \<open>The number of rounds left; the results are the pointer behind the text and the memory.\<close>

primrec mem2hex :: "nat \<Rightarrow> mem \<Rightarrow> u32 \<Rightarrow> u32 \<Rightarrow> u32 \<times> mem" where
  "mem2hex 0 m src buf = (buf, m(buf := 0))"
| "mem2hex (Suc n) m src buf =
     (let ch = m src; m = m(buf := hex_digit (drop_bit 4 ch)); m = m(buf + 1 := hex_digit (ch mod 16))
      in mem2hex n m (src + 1) (buf + 2))"

primrec hex2mem :: "nat \<Rightarrow> mem \<Rightarrow> u32 \<Rightarrow> u32 \<Rightarrow> mem" where
  "hex2mem 0 m dst buf = m"
| "hex2mem (Suc n) m dst buf =
     (let ch = ucast (push_bit 4 (hex (m buf))) :: u8; ch = ch + ucast (hex (m (buf + 1)))
      in hex2mem n (m(dst := ch)) (dst + 1) (buf + 2))"

text \<open>A counter of type \<open>int\<close>: no round for a negative one.\<close>

definition rounds :: "u32 \<Rightarrow> nat" where
  "rounds count = nat (sint count)"

text \<open>Number of digits, pointer behind them, value.\<close>

partial_function (option) hexToInt_loop :: "mem \<Rightarrow> u32 \<Rightarrow> u32 \<Rightarrow> u32 \<Rightarrow> (u32 \<times> u32 \<times> u32) option" where
  "hexToInt_loop m p numChars intValue =
     (if m p = 0 then Some (numChars, p, intValue)
      else
        (let hexValue = hex (m p)
         in if 0 \<le> sint hexValue
            then hexToInt_loop m (p + 1) (numChars + 1) (push_bit 4 intValue OR hexValue)
            else Some (numChars, p, intValue)))"

definition hexToInt :: "mem \<Rightarrow> u32 \<Rightarrow> (u32 \<times> u32 \<times> u32) option" where
  "hexToInt m p = hexToInt_loop m p 0 0"

section \<open>Registers\<close>

text \<open>\<open>trapframe\<close>, 19 words; the offsets of its members.\<close>

definition trap_gs :: u32 where "trap_gs = 0"
definition trap_fs :: u32 where "trap_fs = 4"
definition trap_es :: u32 where "trap_es = 8"
definition trap_ds :: u32 where "trap_ds = 12"
definition trap_edi :: u32 where "trap_edi = 16"
definition trap_esi :: u32 where "trap_esi = 20"
definition trap_ebp :: u32 where "trap_ebp = 24"
definition trap_esp :: u32 where "trap_esp = 28"
definition trap_ebx :: u32 where "trap_ebx = 32"
definition trap_edx :: u32 where "trap_edx = 36"
definition trap_ecx :: u32 where "trap_ecx = 40"
definition trap_eax :: u32 where "trap_eax = 44"
definition trap_ex_no :: u32 where "trap_ex_no = 48"
definition trap_eip :: u32 where "trap_eip = 56"
definition trap_cs :: u32 where "trap_cs = 60"
definition trap_eflags :: u32 where "trap_eflags = 64"
definition trap_ss :: u32 where "trap_ss = 72"

definition reg_ESP :: nat where "reg_ESP = 4"
definition reg_EBP :: nat where "reg_EBP = 5"
definition reg_PC :: nat where "reg_PC = 8"

text \<open>\<open>registerConversion\<close>: size, offset in the trap frame, offset in \<open>gdbRegisters\<close>.\<close>

definition registerConversion :: "(u32 \<times> u32 \<times> u32) list" where
  "registerConversion =
     [(4, trap_eax, 0), (4, trap_ecx, 4), (4, trap_edx, 8), (4, trap_ebx, 12), (4, trap_esp, 16),
      (4, trap_ebp, 20), (4, trap_esi, 24), (4, trap_edi, 28), (4, trap_eip, 32), (4, trap_eflags, 36),
      (4, trap_cs, 40), (4, trap_ss, 44), (4, trap_ds, 48), (4, trap_es, 52), (4, trap_fs, 56),
      (4, trap_gs, 60)]"

definition import_registers :: "u32 \<Rightarrow> u32 \<Rightarrow> mem \<Rightarrow> mem" where
  "import_registers regs ctx m =
     fold (\<lambda>(n, tf, gdb) m. memcpy m (regs + gdb) (ctx + tf) n) registerConversion m"

definition export_registers :: "u32 \<Rightarrow> u32 \<Rightarrow> mem \<Rightarrow> mem" where
  "export_registers regs ctx m =
     fold (\<lambda>(n, tf, gdb) m. memcpy m (ctx + tf) (regs + gdb) n) registerConversion m"

definition gdbstub_i386_computeSignal :: "u32 \<Rightarrow> u8" where
  "gdbstub_i386_computeSignal exceptionVector =
     (if exceptionVector = 0 then 8
      else if exceptionVector = 1 then 5
      else if exceptionVector = 3 then 5
      else if exceptionVector = 4 then 16
      else if exceptionVector = 5 then 16
      else if exceptionVector = 6 then 4
      else if exceptionVector = 7 then 8
      else if exceptionVector = 8 then 7
      else if exceptionVector \<in> {9, 10, 11, 12, 13, 14} then 11
      else if exceptionVector = 16 then 7
      else 7)"

section \<open>Packets\<close>

definition get_char :: "('a stub_scheme, u8) prog" where
  "get_char s = arch_serial_getchar (debug_getGdbComPort s) s"

definition send_char :: "u8 \<Rightarrow> ('a stub_scheme, unit) prog" where
  "send_char c s =
     (case arch_serial_putchar (debug_getGdbComPort s) c s of
        None \<Rightarrow> None | Some (Inl e) \<Rightarrow> Some (Inl e) | Some (Inr s) \<Rightarrow> Some (Inr ((), s)))"

definition poke :: "u32 \<Rightarrow> u8 \<Rightarrow> ('a stub_scheme, unit) prog" where
  "poke a w = modify (\<lambda>s. s\<lparr>stub_ram := (stub_ram s)(a := w)\<rparr>)"

partial_function (option) wait_start :: "'a stub_scheme \<Rightarrow> (fault + unit \<times> 'a stub_scheme) option" where
  "wait_start s = bnd get_char (\<lambda>ch s. if ch \<noteq> 0x24 then wait_start s else ret () s) s"

text \<open>
  The loop from the label \<open>retry\<close> on: a dollar starts again. The results are the count, the checksum
  and whether the loop was left at a hash mark.
\<close>

partial_function (option) read_body :: "u32 \<Rightarrow> u8 \<Rightarrow> 'a stub_scheme \<Rightarrow> (fault + (u32 \<times> u8 \<times> bool) \<times> 'a stub_scheme) option" where
  "read_body count checksum s =
     (if count < BUFMAX - 1 then
        bnd get_char (\<lambda>ch s.
          if ch = 0x24 then read_body 0 0 s
          else if ch = 0x23 then ret (count, checksum, True) s
          else seq (poke (inputBuffer s + count) ch) (\<lambda>s. read_body (count + 1) (checksum + ch) s) s) s
      else ret (count, checksum, False) s)"

partial_function (option) getpacket_loop :: "'a stub_scheme \<Rightarrow> (fault + u32 \<times> 'a stub_scheme) option" where
  "getpacket_loop s =
     seq wait_start (
     bnd (read_body 0 0) (\<lambda>(count, checksum, hash).
     seq (\<lambda>s. poke (inputBuffer s + count) 0 s) (
     \<lambda>s.
       if \<not> hash then getpacket_loop s
       else
         bnd get_char (\<lambda>c1.
         bnd get_char (\<lambda>c2 s.
           if checksum \<noteq> ucast (push_bit 4 (hex c1)) + ucast (hex c2)
           then seq (send_char 0x2D) (\<lambda>s. getpacket_loop s) s
           else seq (send_char 0x2B) (reads_of inputBuffer) s)) s))) s"

definition getpacket :: "('a stub_scheme, u32) prog" where
  "getpacket s = getpacket_loop s"

partial_function (option) send_body :: "u32 \<Rightarrow> u8 \<Rightarrow> 'a stub_scheme \<Rightarrow> (fault + u8 \<times> 'a stub_scheme) option" where
  "send_body p checksum s =
     (if stub_ram s p = 0 then ret checksum s
      else seq (send_char (stub_ram s p)) (\<lambda>s'. send_body (p + 1) (checksum + stub_ram s p) s') s)"

definition send_packet :: "u32 \<Rightarrow> ('a stub_scheme, unit) prog" where
  "send_packet buffer =
     seq (send_char 0x24) (
     bnd (\<lambda>s. send_body buffer 0 s) (\<lambda>checksum.
     seq (send_char 0x23) (
     seq (send_char (hex_digit (drop_bit 4 checksum AND 0x0F)))
       (send_char (hex_digit (checksum AND 0x0F))))))"

partial_function (option) putpacket :: "u32 \<Rightarrow> 'a stub_scheme \<Rightarrow> (fault + unit \<times> 'a stub_scheme) option" where
  "putpacket buffer s =
     seq (send_packet buffer)
       (bnd get_char (\<lambda>c s. if c \<noteq> 0x2B then putpacket buffer s else ret () s)) s"

section \<open>Commands\<close>

definition on_ram :: "(mem \<Rightarrow> mem) \<Rightarrow> ('a stub_scheme, unit) prog" where
  "on_ram f = modify (\<lambda>s. s\<lparr>stub_ram := f (stub_ram s)\<rparr>)"

text \<open>\<open>strcpy(outputBuffer, \<dots>)\<close> of a literal.\<close>

definition answer :: "string \<Rightarrow> ('a stub_scheme, unit) prog" where
  "answer text s = on_ram (\<lambda>m. store_bytes m (outputBuffer s) (literal text @ [0])) s"

definition set_thread :: "u32 \<Rightarrow> ('a stub_scheme, unit) prog" where
  "set_thread req = answer ''OK''"

definition print_answer :: "string \<Rightarrow> u32 list \<Rightarrow> ('a stub_scheme, unit) prog" where
  "print_answer format ps s =
     (case snprintf_literal (stub_ram s) (outputBuffer s) BUFMAX (literal format) ps of
        None \<Rightarrow> None
      | Some (Inl e) \<Rightarrow> Some (Inl e)
      | Some (Inr (n, m)) \<Rightarrow> Some (Inr ((), s\<lparr>stub_ram := m\<rparr>)))"

text \<open>\<open>strncmp\<close> with a literal as the second string.\<close>

primrec starts_with :: "u8 list \<Rightarrow> mem \<Rightarrow> u32 \<Rightarrow> bool" where
  "starts_with [] m p = True"
| "starts_with (c # cs) m p = (m p = c \<and> starts_with cs m (p + 1))"

definition handle_query :: "u32 \<Rightarrow> ('a stub_scheme, unit) prog" where
  "handle_query req s =
     (if starts_with (literal ''Supported'') (stub_ram s) req
      then print_answer ''PacketSize=%d'' [BUFMAX - 1] s
      else if starts_with (literal ''Symbol'') (stub_ram s) req then print_answer ''OK'' [] s
      else if starts_with (literal ''Offset'') (stub_ram s) req
      then print_answer ''Text=0;Data=0;Bss=0;'' [] s
      else poke (outputBuffer s) 0 s)"

definition set_register :: "nat \<Rightarrow> u32 \<Rightarrow> ('a stub_scheme, unit) prog" where
  "set_register i w s = on_ram (\<lambda>m. store32 m (gdbRegisters s + 4 * of_nat i) w) s"

definition export :: "u32 \<Rightarrow> ('a stub_scheme, unit) prog" where
  "export ctx s = on_ram (export_registers (gdbRegisters s) ctx) s"

definition handle_read_registers :: "u32 \<Rightarrow> ('a stub_scheme, unit) prog" where
  "handle_read_registers ctx s =
     on_ram (\<lambda>m. snd (mem2hex (NUMREGS * 4) (import_registers (gdbRegisters s) ctx m) (gdbRegisters s) (outputBuffer s))) s"

definition handle_write_registers :: "u32 \<Rightarrow> u32 \<Rightarrow> ('a stub_scheme, unit) prog" where
  "handle_write_registers ctx p =
     seq (\<lambda>s. on_ram (\<lambda>m. hex2mem (NUMREGS * 4) m (gdbRegisters s) p) s) (
     seq (export ctx) (answer ''OK''))"

definition parse_int :: "u32 \<Rightarrow> ('a stub_scheme, u32 \<times> u32 \<times> u32) prog" where
  "parse_int p = lift_option (\<lambda>s. hexToInt (stub_ram s) p)"

definition handle_write_register :: "u32 \<Rightarrow> u32 \<Rightarrow> ('a stub_scheme, unit) prog" where
  "handle_write_register ctx p =
     bnd (parse_int p) (\<lambda>(n, p, regno) s.
       if n \<noteq> 0 \<and> stub_ram s p = 0x3D \<and> 0 \<le> sint regno \<and> sint regno < int NUMREGS then
         seq (\<lambda>s. on_ram (\<lambda>m. hex2mem 4 m (gdbRegisters s + 4 * regno) (p + 1)) s) (
         seq (export ctx) (answer ''OK'')) s
       else answer ''E01'' s)"

definition handle_read_memory :: "u32 \<Rightarrow> ('a stub_scheme, unit) prog" where
  "handle_read_memory p =
     bnd (parse_int p) (\<lambda>(n, p, addr) s.
       if n \<noteq> 0 \<and> stub_ram s p = 0x2C then
         bnd (parse_int (p + 1)) (\<lambda>(n, p, len).
           if n \<noteq> 0 then (\<lambda>s. on_ram (\<lambda>m. snd (mem2hex (rounds len) m addr (outputBuffer s))) s)
           else answer ''E01'') s
       else answer ''E01'' s)"

definition handle_write_memory :: "u32 \<Rightarrow> ('a stub_scheme, unit) prog" where
  "handle_write_memory p =
     bnd (parse_int p) (\<lambda>(n, p, addr) s.
       if n \<noteq> 0 \<and> stub_ram s p = 0x2C then
         bnd (parse_int (p + 1)) (\<lambda>(n, p, len) s.
           if n \<noteq> 0 \<and> stub_ram s p = 0x3A
           then seq (on_ram (\<lambda>m. hex2mem (rounds len) m addr (p + 1))) (answer ''OK'') s
           else answer ''E02'' s) s
       else answer ''E02'' s)"

text \<open>\<open>c\<close> and \<open>s\<close>: the trap flag of the flags in the trap frame.\<close>

definition handle_continue :: "u32 \<Rightarrow> bool \<Rightarrow> u32 \<Rightarrow> ('a stub_scheme, unit) prog" where
  "handle_continue ctx stepping p =
     bnd (parse_int p) (\<lambda>(n, p, addr).
     seq (if n \<noteq> 0 then seq (set_register reg_PC addr) (export ctx) else ret ()) (
     on_ram (\<lambda>m.
       let f = load32 m (ctx + trap_eflags) AND 0xFFFFFEFF
       in store32 m (ctx + trap_eflags) (if stepping then f OR 0x100 else f))))"

text \<open>One command, from the packet at \<open>p\<close>: \<open>True\<close> when the handler returns to the program.\<close>

definition command :: "u32 \<Rightarrow> u8 \<Rightarrow> u32 \<Rightarrow> ('a stub_scheme, bool) prog" where
  "command ctx unixSignal p s =
     (let c = stub_ram s p; p = p + 1; go = (\<lambda>q. seq q (ret False))
      in if c = 0x3F then go (on_ram (\<lambda>m. store_bytes m (outputBuffer s)
             [0x53, hex_digit (drop_bit 4 unixSignal), hex_digit (unixSignal AND 0x0F), 0])) s
         else if c = 0x48 then go (set_thread p) s
         else if c = 0x71 then go (handle_query p) s
         else if c = 0x67 then go (handle_read_registers ctx) s
         else if c = 0x47 then go (handle_write_registers ctx p) s
         else if c = 0x50 then go (handle_write_register ctx p) s
         else if c = 0x6D then go (handle_read_memory p) s
         else if c = 0x4D then go (handle_write_memory p) s
         else if c = 0x73 then seq (handle_continue ctx True p) (ret True) s
         else if c = 0x63 then seq (handle_continue ctx False p) (ret True) s
         else ret False s)"

partial_function (option) command_loop :: "u32 \<Rightarrow> u8 \<Rightarrow> 'a stub_scheme \<Rightarrow> (fault + unit \<times> 'a stub_scheme) option" where
  "command_loop ctx unixSignal s =
     seq (\<lambda>s. poke (outputBuffer s) 0 s) (
     bnd getpacket (\<lambda>p.
     bnd (command ctx unixSignal p) (\<lambda>done s.
       if done then ret () s
       else seq (\<lambda>s. putpacket (outputBuffer s) s) (\<lambda>s. command_loop ctx unixSignal s) s))) s"

text \<open>The packet that reports the stop: signal, stack pointer, frame pointer, instruction pointer.\<close>

definition stop_register :: "u32 \<Rightarrow> nat \<Rightarrow> u32 \<Rightarrow> u32 \<times> mem \<Rightarrow> u32 \<times> mem" where
  "stop_register a r ctx pm =
     (case pm of (p, m) \<Rightarrow>
        let m = m(p := hexchars ! r); m = m(p + 1 := 0x3A); (p, m) = mem2hex 4 m (ctx + a) (p + 2)
        in (p + 1, m(p := 0x3B)))"

definition stop_reply :: "u32 \<Rightarrow> u8 \<Rightarrow> u32 \<Rightarrow> mem \<Rightarrow> mem" where
  "stop_reply out unixSignal ctx m =
     (let m = store_bytes m out [0x54, hex_digit (drop_bit 4 unixSignal), hex_digit (unixSignal AND 0xF)];
          (p, m) = stop_register trap_eip reg_PC ctx
            (stop_register trap_ebp reg_EBP ctx (stop_register trap_esp reg_ESP ctx (out + 3, m)))
      in m(p := 0))"

definition gdbstub_i386_handle_exception :: "u32 \<Rightarrow> ('a stub_scheme, unit) prog" where
  "gdbstub_i386_handle_exception ctx s =
     (let unixSignal = gdbstub_i386_computeSignal (load32 (stub_ram s) (ctx + trap_ex_no))
      in seq (on_ram (stop_reply (outputBuffer s) unixSignal ctx)) (
         seq (\<lambda>s. putpacket (outputBuffer s) s)
           (\<lambda>s. command_loop ctx unixSignal s)) s)"

section \<open>Digits and bytes\<close>

definition hex_text :: "u8 list \<Rightarrow> u8 list" where
  "hex_text bs = concat (map (\<lambda>b. [hex_digit (drop_bit 4 b), hex_digit (b mod 16)]) bs)"

lemma hex_text_simps [simp]:
  "hex_text [] = []"
  "hex_text (b # bs) = hex_digit (drop_bit 4 b) # hex_digit (b mod 16) # hex_text bs"
  by (simp_all add: hex_text_def)

lemma length_hex_text [simp]: "length (hex_text bs) = 2 * length bs"
  by (induction bs) simp_all

lemma hexchars_list: "hexchars = [0x30, 0x31, 0x32, 0x33, 0x34, 0x35, 0x36, 0x37, 0x38, 0x39,
    0x61, 0x62, 0x63, 0x64, 0x65, 0x66]"
  by (simp add: hexchars_def literal_def of_char_def)

lemma hex_of_hex_digit:
  assumes "unat d < 16"
  shows "hex (hex_digit d) = ucast d" "hex_digit d \<noteq> 0" "hex_digit d \<noteq> 0x24" "hex_digit d \<noteq> 0x23"
proof -
  have "list_all (\<lambda>i. hex (hexchars ! i) = of_nat i \<and> hexchars ! i \<notin> {0, 0x23, 0x24}) [0..<16]"
    by (simp add: hexchars_list hex_def upt_rec)
  with assms have "hex (hexchars ! unat d) = of_nat (unat d)" "hexchars ! unat d \<notin> {0, 0x23, 0x24}"
    by (simp_all add: list_all_iff)
  then show "hex (hex_digit d) = ucast d" "hex_digit d \<noteq> 0" "hex_digit d \<noteq> 0x24" "hex_digit d \<noteq> 0x23"
    by (simp_all add: hex_digit_def)
qed

lemma nibbles_small: "unat (drop_bit 4 (b :: u8)) < 16" "unat (b mod 16 :: u8) < 16"
proof -
  have "unat b < 256" by simp
  then show "unat (drop_bit 4 b) < 16" by (simp add: unat_drop_bit_div less_mult_imp_div_less)
  show "unat (b mod 16) < 16" by (simp add: unat_mod)
qed

lemma ucast_u8_u32: "ucast (ucast (x :: u8) :: u32) = x"
  by (rule bit_word_eqI) (auto simp: bit_simps)

lemma nibbles_byte:
  "ucast (push_bit 4 (ucast (drop_bit 4 b) :: u32)) + ucast (ucast (b mod 16) :: u32) = (b :: u8)"
proof -
  have "(ucast (push_bit 4 (ucast (drop_bit 4 b) :: u32)) :: u8) = push_bit 4 (drop_bit 4 b)"
    by (rule bit_word_eqI) (auto simp: bit_simps)
  moreover have "(ucast (ucast (b mod 16) :: u32) :: u8) = take_bit 4 b"
    by (simp add: ucast_u8_u32 take_bit_eq_mod)
  ultimately show ?thesis by (simp add: bits_ident)
qed


text \<open>Apart from its source, which has to be elsewhere, \<open>mem2hex\<close> stores the text of the bytes.\<close>

lemma mem2hex_store:
  assumes "sep src n buf (2 * n)"
  shows "mem2hex n m src buf =
    (buf + of_nat (2 * n), store_bytes m buf (hex_text (load_bytes m src n) @ [0]))"
  using assms
proof (induction n arbitrary: m src buf)
  case 0
  then show ?case by (simp add: fun_upd_def)
next
  case (Suc n)
  let ?m = "m(buf := hex_digit (drop_bit 4 (m src)), buf + 1 := hex_digit (m src mod 16))"
  have "sep (src + of_nat 1) n buf (2 * Suc n)" using Suc.prems by (rule sep_sub) simp
  then have "sep (src + 1) n buf 2" "sep (src + 1) n (buf + of_nat 2) (2 * n)"
    using sep_sub2 [of "src + 1" n buf "2 * Suc n" 2 "2 * n"] by (auto intro: sep_mono)
  then have ih: "sep (src + 1) n (buf + 2) (2 * n)" and s2: "sep buf 2 (src + 1) n"
    by (simp_all add: sep_sym)
  have "agree m ?m (src + 1) n"
    using agree_trans [OF agree_upd [OF s2, of 0] agree_upd [OF s2, of 1]] by simp
  then have "load_bytes ?m (src + 1) n = load_bytes m (src + 1) n"
    by (simp add: load_bytes_eq_iff agree_sym)
  with Suc.IH [OF ih, of ?m] show ?case
    by (simp add: Let_def load_bytes_Suc add.assoc del: fun_upd_apply)
qed

lemma hex2mem_store:
  assumes "load_bytes m buf (2 * n) = hex_text bs" "length bs = n" "sep dst n buf (2 * n)"
  shows "hex2mem n m dst buf = store_bytes m dst bs"
  using assms
proof (induction n arbitrary: m dst buf bs)
  case 0
  then show ?case by simp
next
  case (Suc n)
  from Suc.prems(2) obtain b bs' where bs: "bs = b # bs'" "length bs' = n" by (cases bs) auto
  have "sep (dst + of_nat 1) n buf (2 * Suc n)" using Suc.prems(3) by (rule sep_sub) simp
  then have ih: "sep (dst + 1) n (buf + 2) (2 * n)" using sep_sub2 [of _ n buf "2 * Suc n" 2 "2 * n"] by simp
  have "sep dst 1 (buf + of_nat 2) (2 * n)"
    using sep_mono [OF Suc.prems(3), of 1 "2 * Suc n"] by (intro sep_sub2) auto
  then have "agree m (m(dst := b)) (buf + 2) (2 * n)" using agree_upd [of dst 1 "buf + 2" "2 * n" 0 m b] by simp
  then have "load_bytes (m(dst := b)) (buf + 2) (2 * n) = load_bytes m (buf + 2) (2 * n)"
    by (simp add: load_bytes_eq_iff agree_sym)
  moreover from Suc.prems(1) bs
  have parts: "m buf = hex_digit (drop_bit 4 b)" "m (buf + 1) = hex_digit (b mod 16)"
    "load_bytes m (buf + 2) (2 * n) = hex_text bs'"
    by (simp_all add: load_bytes_Suc add.assoc)
  ultimately have "hex2mem n (m(dst := b)) (dst + 1) (buf + 2) = store_bytes (m(dst := b)) (dst + 1) bs'"
    using ih bs(2) by (intro Suc.IH) (simp_all del: fun_upd_apply)
  then show ?case
    using bs by (simp add: Let_def parts(1,2) hex_of_hex_digit(1) nibbles_small nibbles_byte)
qed

section \<open>Properties\<close>

text \<open>Bytes written as hexadecimal text by \<open>mem2hex\<close> and read back by \<open>hex2mem\<close> are the same bytes; the
  text is twice as long and ends with a zero, and nothing but the two destinations is written.\<close>

lemma hex_round_trip:
  assumes "sep src n buf (2 * n + 1)" "sep dst n buf (2 * n + 1)" "2 * n < 4294967296"
  shows "case mem2hex n m src buf of (e, m') \<Rightarrow>
    e = buf + of_nat (2 * n) \<and> m' e = 0 \<and>
    load_bytes (hex2mem n m' dst buf) dst n = load_bytes m src n \<and>
    (\<forall>a. (\<forall>i<2 * n + 1. a \<noteq> buf + of_nat i) \<and> (\<forall>i<n. a \<noteq> dst + of_nat i) \<longrightarrow> hex2mem n m' dst buf a = m a)"
proof -
  let ?bs = "load_bytes m src n"
  let ?t = "hex_text ?bs @ [0]"
  let ?m = "store_bytes m buf ?t"
  have mem: "mem2hex n m src buf = (buf + of_nat (2 * n), ?m)"
    using assms(1) by (intro mem2hex_store) (auto intro: sep_mono)
  have written: "load_bytes ?m buf (2 * n + 1) = ?t"
    using load_bytes_store_bytes [of ?t m buf] assms(3) by simp
  then have zero: "?m (buf + of_nat (2 * n)) = 0" and text': "load_bytes ?m buf (2 * n) = hex_text ?bs"
    by (simp_all only: load_bytes_append append_eq_append_conv length_load_bytes length_hex_text)
      (simp_all add: load_bytes_def)
  have hex: "hex2mem n ?m dst buf = store_bytes ?m dst ?bs"
    using text' assms(2) by (intro hex2mem_store) (auto intro: sep_mono)
  have "store_bytes ?m dst ?bs a = m a"
    if "\<forall>i<2 * n + 1. a \<noteq> buf + of_nat i" "\<forall>i<n. a \<noteq> dst + of_nat i" for a
  proof -
    from that have "sep buf (length ?t) a 1" "sep dst (length ?bs) a 1" by (auto simp: sep_iff)
    from store_bytes_frame [OF this(1), of m] store_bytes_frame [OF this(2), of ?m]
    show ?thesis by (simp add: agree_def)
  qed
  moreover have "load_bytes (store_bytes ?m dst ?bs) dst n = ?bs"
    using load_bytes_store_bytes [of ?bs ?m dst] assms(3) by simp
  ultimately show ?thesis using zero by (simp add: mem hex)
qed

lemma hex_round_trip_example:
  "load_bytes (hex2mem 3 (snd (mem2hex 3 (\<lambda>a. ucast a) 0x100 0x200)) 0x300 0x200) 0x300 3 = [0, 1, 2]"
  using hex_round_trip [of "0x100" 3 "0x200" "0x300" "\<lambda>a. ucast a"]
  by (simp add: sep_def load_bytes_def case_prod_beta upt_rec)

section \<open>The line to the debugger\<close>

text \<open>
  The port of the debugger exists and its UART is always ready: it has a byte and takes one.
\<close>

definition gdb_line :: "'a stub_scheme \<Rightarrow> u16 \<Rightarrow> bool" where
  "gdb_line s p \<longleftrightarrow> 1 \<le> gdbComPort s \<and> gdbComPort s \<le> 5 \<and> serial_port (gdbComPort s) = Inr p
     \<and> (\<forall>k. answers s (p + 5) k AND 0x21 = 0x21)"

text \<open>The byte that comes \<open>i\<close>-th from now on.\<close>

definition incoming :: "'a stub_scheme \<Rightarrow> u16 \<Rightarrow> nat \<Rightarrow> u8" where
  "incoming s p i = answers s p (reads s p + i)"

text \<open>After \<open>n\<close> bytes received and the bytes \<open>cs\<close> sent.\<close>

definition after_io :: "u16 \<Rightarrow> nat \<Rightarrow> u8 list \<Rightarrow> 'a stub_scheme \<Rightarrow> 'a stub_scheme" where
  "after_io p n cs s = s\<lparr>reads := (reads s)(p := reads s p + n, p + 5 := reads s (p + 5) + n + length cs),
     writes := writes s @ map (Pair p) cs\<rparr>"

lemma after_io_simps [simp]:
  "stub_ram (after_io p n cs s) = stub_ram s"
  "inputBuffer (after_io p n cs s) = inputBuffer s"
  "outputBuffer (after_io p n cs s) = outputBuffer s"
  "gdbRegisters (after_io p n cs s) = gdbRegisters s"
  "writes (after_io p n cs s) = writes s @ map (Pair p) cs"
  "gdb_line (after_io p n cs s) q \<longleftrightarrow> gdb_line s q"
  "incoming (after_io p n cs s) p i = incoming s p (n + i)"
  "after_io p n' cs' (after_io p n cs s) = after_io p (n + n') (cs @ cs') s"
  "after_io p 0 [] s = s"
  by (simp_all add: after_io_def gdb_line_def incoming_def add.assoc fun_upd_twist add.left_commute [of "length cs"])

lemma ram_line [simp]:
  "gdb_line (s\<lparr>stub_ram := m\<rparr>) p \<longleftrightarrow> gdb_line s p"
  "incoming (s\<lparr>stub_ram := m\<rparr>) p i = incoming s p i"
  "after_io p n cs (s\<lparr>stub_ram := m\<rparr>) = (after_io p n cs s)\<lparr>stub_ram := m\<rparr>"
  by (simp_all add: gdb_line_def incoming_def after_io_def)

lemma ready_bits:
  assumes "x AND 0x21 = (0x21 :: u8)"
  shows "x AND 0x20 \<noteq> 0" "x AND 0x01 \<noteq> 0"
proof -
  have "x AND 0x20 = (x AND 0x21) AND 0x20" "x AND 0x01 = (x AND 0x21) AND 0x01"
    by (simp_all add: and.assoc)
  with assms show "x AND 0x20 \<noteq> 0" "x AND 0x01 \<noteq> 0" by simp_all
qed

lemma port_ready:
  assumes "gdb_line s p"
  shows "serial_wait p 0x20 s = Some (snd (portio_inb (p + 5) s))"
    "serial_wait p 0x01 s = Some (snd (portio_inb (p + 5) s))"
  using ready_bits [of "answers s (p + 5) (reads s (p + 5))"] assms
  by (subst serial_wait.simps; simp add: gdb_line_def portio_inb_def)+

lemma send_char_line:
  "gdb_line s p \<Longrightarrow> send_char c s = Some (Inr ((), after_io p 0 [c] s))"
  using port_ready [of s p]
  by (auto simp: send_char_def arch_serial_putchar_def arch_i386_serial_put_char_def gdb_line_def
      debug_getGdbComPort_def portio_inb_def portio_outb_def after_io_def)

lemma get_char_line:
  "gdb_line s p \<Longrightarrow> get_char s = Some (Inr (incoming s p 0, after_io p 1 [] s))"
  using port_ready [of s p]
  by (auto simp: get_char_def arch_serial_getchar_def arch_i386_serial_get_char_def gdb_line_def
      debug_getGdbComPort_def portio_inb_def after_io_def incoming_def fun_upd_twist)

lemma bnd_lines:
  "gdb_line s p \<Longrightarrow> bnd get_char f s = f (incoming s p 0) (after_io p 1 [] s)"
  "gdb_line s p \<Longrightarrow> seq (send_char c) q s = q (after_io p 0 [c] s)"
  by (simp_all add: bnd_def seq_def get_char_line send_char_line)

section \<open>Sending a packet\<close>

definition packet :: "u8 list \<Rightarrow> u8 list" where
  "packet cs = (0x24 # cs) @
     [0x23, hex_digit (drop_bit 4 (sum_list cs) AND 0x0F), hex_digit (sum_list cs AND 0x0F)]"

lemma send_body_line:
  assumes "gdb_line s p" "cstr (stub_ram s) a cs"
  shows "send_body a x s = Some (Inr (x + sum_list cs, after_io p 0 cs s))"
  using assms
proof (induction cs arbitrary: a x s)
  case Nil
  then show ?case by (subst send_body.simps) (simp add: ret_def)
next
  case (Cons c cs)
  then show ?case by (subst send_body.simps) (simp add: bnd_lines add.assoc)
qed

lemma send_packet_line:
  assumes "gdb_line s p" "cstr (stub_ram s) a cs"
  shows "send_packet a s = Some (Inr ((), after_io p 0 (packet cs) s))"
  using assms
  by (simp add: send_packet_def bnd_lines bnd_def [of "\<lambda>s. send_body a 0 s"] send_body_line send_char_line packet_def)

lemma putpacket_line:
  assumes "gdb_line s p" "cstr (stub_ram s) a cs" "incoming s p k = 0x2B" "\<forall>j<k. incoming s p j \<noteq> 0x2B"
  shows "putpacket a s = Some (Inr ((), after_io p (Suc k) (concat (replicate (Suc k) (packet cs))) s))"
  using assms
proof (induction k arbitrary: s)
  case 0
  then show ?case
    by (subst putpacket.simps) (simp add: seq_def bnd_def [of "send_packet a"] send_packet_line bnd_lines ret_def)
next
  case (Suc k)
  let ?s = "after_io p 1 (packet cs) s"
  have "putpacket a ?s = Some (Inr ((), after_io p (Suc k) (concat (replicate (Suc k) (packet cs))) ?s))"
    using Suc.prems by (intro Suc.IH) auto
  moreover have "incoming s p 0 \<noteq> 0x2B" using Suc.prems(4) by simp
  ultimately show ?case
    using Suc.prems(1,2)
    by (subst putpacket.simps) (simp add: seq_def bnd_def [of "send_packet a"] send_packet_line bnd_lines)
qed

section \<open>Receiving a packet\<close>

lemma wait_start_line:
  assumes "gdb_line s p" "incoming s p k = 0x24" "\<forall>j<k. incoming s p j \<noteq> 0x24"
  shows "wait_start s = Some (Inr ((), after_io p (Suc k) [] s))"
  using assms
proof (induction k arbitrary: s)
  case 0
  then show ?case by (subst wait_start.simps) (simp add: bnd_lines ret_def)
next
  case (Suc k)
  have "wait_start (after_io p 1 [] s) = Some (Inr ((), after_io p (Suc k) [] (after_io p 1 [] s)))"
    using Suc.prems by (intro Suc.IH) auto
  with Suc.prems show ?case by (subst wait_start.simps) (simp add: bnd_lines)
qed

lemma poke_seq:
  "seq (poke a w) q s = q (s\<lparr>stub_ram := (stub_ram s)(a := w)\<rparr>)"
  "seq (\<lambda>s. poke (f s) w s) q s = q (s\<lparr>stub_ram := (stub_ram s)(f s := w)\<rparr>)"
  by (simp_all add: poke_def seq_def bnd_def modify_def)

lemma read_body_line:
  assumes "gdb_line s p" "\<forall>i<length cs. incoming s p i = cs ! i" "incoming s p (length cs) = 0x23"
    and "0x23 \<notin> set cs" "0x24 \<notin> set cs" "n + length cs < 999"
  shows "read_body (of_nat n) x s = Some (Inr ((of_nat (n + length cs), x + sum_list cs, True),
    after_io p (Suc (length cs)) [] (s\<lparr>stub_ram := store_bytes (stub_ram s) (inputBuffer s + of_nat n) cs\<rparr>)))"
  using assms
proof (induction cs arbitrary: n x s)
  case Nil
  then have "(of_nat n :: u32) < BUFMAX - 1" by (simp add: word_less_nat_alt unat_of_nat32 BUFMAX_def)
  with Nil show ?case by (subst read_body.simps) (simp add: bnd_lines ret_def)
next
  case (Cons c cs)
  let ?s = "after_io p 1 [] (s\<lparr>stub_ram := (stub_ram s)(inputBuffer s + of_nat n := c)\<rparr>)"
  have lt: "(of_nat n :: u32) < BUFMAX - 1"
    using Cons.prems(6) by (simp add: word_less_nat_alt unat_of_nat32 BUFMAX_def)
  have first: "incoming s p 0 = c" using Cons.prems(2) by auto
  have "\<forall>i<length cs. incoming ?s p i = cs ! i" using Cons.prems(2) by auto
  then have "read_body (of_nat (Suc n)) (x + c) ?s = Some (Inr ((of_nat (Suc n + length cs), x + c + sum_list cs, True),
    after_io p (Suc (length cs)) [] (?s\<lparr>stub_ram := store_bytes (stub_ram ?s) (inputBuffer ?s + of_nat (Suc n)) cs\<rparr>)))"
    using Cons.prems by (intro Cons.IH) auto
  with Cons.prems first lt show ?case
    by (subst read_body.simps) (simp add: bnd_lines poke_seq ac_simps)
qed

lemma store_bytes_append: "store_bytes m a (cs @ ds) = store_bytes (store_bytes m a cs) (a + of_nat (length cs)) ds"
  by (induction cs arbitrary: m a) (simp_all add: add.assoc)

lemma checksum_digits:
  "ucast (push_bit 4 (hex (hex_digit (drop_bit 4 b AND 0x0F)))) + ucast (hex (hex_digit (b AND 0x0F))) = (b :: u8)"
proof -
  have "drop_bit 4 b AND 0x0F = drop_bit 4 b"
    using take_bit_eq_mask [of 4 "drop_bit 4 b"] nibbles_small(1) [of b]
    by (simp add: mask_eq_exp_minus_1 word_unat_eq_iff unsigned_take_bit_eq take_bit_nat_eq_self)
  moreover have "b AND 0x0F = b mod 16"
    using take_bit_eq_mask [of 4 b] by (simp add: take_bit_eq_mod mask_eq_exp_minus_1)
  ultimately show ?thesis by (simp add: hex_of_hex_digit(1) nibbles_small nibbles_byte)
qed

lemma nth_packet:
  "packet cs ! 0 = 0x24" "i < length cs \<Longrightarrow> packet cs ! Suc i = cs ! i"
  "packet cs ! Suc (length cs) = 0x23"
  "packet cs ! Suc (Suc (length cs)) = hex_digit (drop_bit 4 (sum_list cs) AND 0x0F)"
  "packet cs ! Suc (Suc (Suc (length cs))) = hex_digit (sum_list cs AND 0x0F)"
  "length (packet cs) = Suc (Suc (Suc (Suc (length cs))))"
  by (simp_all add: packet_def nth_append)

lemma getpacket_line:
  assumes line: "gdb_line s p" and inc: "\<forall>i<length (packet cs). incoming s p i = packet cs ! i"
    and cs: "0x23 \<notin> set cs" "0x24 \<notin> set cs" "length cs < 999"
  shows "getpacket s = Some (Inr (inputBuffer s, after_io p (length (packet cs)) [0x2B]
    (s\<lparr>stub_ram := store_bytes (stub_ram s) (inputBuffer s) (cs @ [0])\<rparr>)))"
proof -
  note at = inc [rule_format, unfolded nth_packet(6)]
  have start: "wait_start s = Some (Inr ((), after_io p (Suc 0) [] s))"
    using wait_start_line [OF line, of 0] at [of 0] by (simp add: nth_packet)
  let ?s = "after_io p (Suc 0) [] s"
  have body: "read_body 0 0 ?s = Some (Inr ((of_nat (length cs), sum_list cs, True),
    after_io p (Suc (Suc (length cs))) [] (s\<lparr>stub_ram := store_bytes (stub_ram s) (inputBuffer s) cs\<rparr>)))"
    using read_body_line [of ?s p cs 0 0] line cs at by (simp add: nth_packet)
  show ?thesis
    using line unfolding getpacket_def
    by (subst getpacket_loop.simps)
      (simp add: seq_def [of wait_start] bnd_def [of wait_start] start bnd_def [of "read_body 0 0"] body poke_seq
        bnd_lines send_char_line at nth_packet checksum_digits store_bytes_append reads_of_def
        bnd_def [of "send_char c" for c] seq_def [of "send_char c" for c])
qed

section \<open>Packets\<close>

text \<open>C20. A packet arrives as it was sent: what \<open>putpacket\<close> puts on its line in one attempt makes \<open>getpacket\<close> at
  the other end store the same text, zero-terminated, in its buffer and answer with a plus. The text has no
  dollar and no hash mark and fits the buffer; these characters are not escaped.\<close>

theorem packet_round_trip:
  fixes s :: "'a stub_scheme" and r :: "'b stub_scheme"
  assumes "gdb_line s q" "cstr (stub_ram s) buffer cs" "gdb_line r p"
    and "0x23 \<notin> set cs" "0x24 \<notin> set cs" "length cs < 999"
    and sent: "send_packet buffer s = Some (Inr ((), s'))" "writes s' = writes s @ map (Pair q) bs"
    and received: "\<forall>i<length bs. incoming r p i = bs ! i"
  shows "\<exists>r'. getpacket r = Some (Inr (inputBuffer r, r')) \<and> cstr (stub_ram r') (inputBuffer r) cs \<and>
    writes r' = writes r @ [(p, 0x2B)]"
proof -
  from send_packet_line [OF assms(1,2)] sent have "map (Pair q) bs = map (Pair q) (packet cs)" by auto
  then have "bs = packet cs" by (simp add: inj_map_eq_map inj_on_def)
  with received have "getpacket r = Some (Inr (inputBuffer r, after_io p (length (packet cs)) [0x2B]
    (r\<lparr>stub_ram := store_bytes (stub_ram r) (inputBuffer r) (cs @ [0])\<rparr>)))"
    using assms by (intro getpacket_line) auto
  moreover have "cstr (store_bytes (stub_ram r) (inputBuffer r) (cs @ [0])) (inputBuffer r) cs"
    using load_bytes_store_bytes [of "cs @ [0]" "stub_ram r" "inputBuffer r"] assms(2,6)
    by (simp add: cstr_load_bytes)
  ultimately show ?thesis by auto
qed

text \<open>C39. \<open>putpacket\<close> sends the packet again after every answer that is not a plus and ends after the first plus:
  when a plus comes as answer number \<open>k\<close>, the packet was sent \<open>k + 1\<close> times, whole, with its checksum.\<close>

theorem putpacket_ends_at_plus:
  assumes "gdb_line s p" "cstr (stub_ram s) buffer cs"
    and "incoming s p k = 0x2B" "\<forall>j<k. incoming s p j \<noteq> 0x2B"
  shows "\<exists>s'. putpacket buffer s = Some (Inr ((), s')) \<and>
    writes s' = writes s @ map (Pair p) (concat (replicate (k + 1) (0x24 # cs @
      [0x23, hex_digit (drop_bit 4 (sum_list cs) AND 0x0F), hex_digit (sum_list cs AND 0x0F)]))) \<and>
    reads s' p = reads s p + k + 1 \<and> stub_ram s' = stub_ram s"
proof -
  have "reads (after_io p n bs s) p = reads s p + n" for n bs
    by (simp add: after_io_def)
  with putpacket_line [OF assms] show ?thesis
    by (simp add: packet_def del: replicate.simps)
qed

text \<open>The second port, where \<open>bs\<close> and then only pluses arrive, and the text OK at 0x100.\<close>

definition line_example :: "u8 list \<Rightarrow> stub" where
  "line_example bs = \<lparr>answers = \<lambda>p k. if p = 0x2FD then 0x21 else if k < length bs then bs ! k else 0x2B,
     reads = \<lambda>_. 0, writes = [], vram = \<lambda>_. 0, cursorX = 0, cursorY = 0, foregroundColor = 15,
     backgroundColor = 0, enabledOutputPorts = 0, messageComPort = 1, gdbComPort = 2,
     stub_ram = (\<lambda>_. 0)(0x100 := 0x4F, 0x101 := 0x4B), inputBuffer = 0x400, outputBuffer = 0x800,
     gdbRegisters = 0xC00, gdbstub_enabled = True\<rparr>"

lemma line_example_line [simp]:
  "gdb_line (line_example bs) 0x2F8"
  "cstr (stub_ram (line_example bs)) 0x100 [0x4F, 0x4B]"
  by (simp_all add: line_example_def gdb_line_def serial_port_def serial_ports_def)

lemma packet_OK: "packet [0x4F, 0x4B] = [0x24, 0x4F, 0x4B, 0x23, 0x39, 0x61]"
  by (simp add: packet_def hex_digit_def hexchars_list)

theorem packet_round_trip_witness:
  "\<exists>r'. getpacket (line_example [0x24, 0x4F, 0x4B, 0x23, 0x39, 0x61]) = Some (Inr (0x400, r'))
    \<and> cstr (stub_ram r') 0x400 [0x4F, 0x4B]"
proof -
  let ?r = "line_example [0x24, 0x4F, 0x4B, 0x23, 0x39, 0x61]"
  have "\<forall>i<length (packet [0x4F, 0x4B]). incoming ?r 0x2F8 i = packet [0x4F, 0x4B] ! i"
    by (simp add: packet_OK incoming_def line_example_def)
  moreover note send_packet_line [OF line_example_line]
  ultimately have "\<exists>r'. getpacket ?r = Some (Inr (inputBuffer ?r, r')) \<and>
      cstr (stub_ram r') (inputBuffer ?r) [0x4F, 0x4B] \<and> writes r' = writes ?r @ [(0x2F8, 0x2B)]"
    by (intro packet_round_trip [OF line_example_line line_example_line(1), where bs = "packet [0x4F, 0x4B]"]) auto
  moreover have "inputBuffer ?r = 0x400" by (simp add: line_example_def)
  ultimately show ?thesis by auto
qed

theorem putpacket_ends_at_plus_witness:
  "\<exists>s'. putpacket 0x100 (line_example [0x2D]) = Some (Inr ((), s')) \<and> length (writes s') = 12"
proof -
  let ?s = "line_example [0x2D]"
  have "incoming ?s 0x2F8 1 = 0x2B" "\<forall>j<1. incoming ?s 0x2F8 j \<noteq> 0x2B"
    by (simp_all add: incoming_def line_example_def)
  from putpacket_ends_at_plus [OF line_example_line this] obtain s' where
    "putpacket 0x100 ?s = Some (Inr ((), s'))" "length (writes s') = length (writes ?s) + 12" by auto
  then show ?thesis by (auto simp: line_example_def)
qed

end
