(* ===== verification/Exception.thy ===== *)
theory Exception
  imports Gdbstub
begin

text \<open>
  The exception handler (arch/i386/exception.c), behind the stubs of trap.asm. The trap frame is a
  copy on the stack, at \<open>ctx\<close>. The result is \<open>None\<close> when the interrupted program goes on, and the
  description on the screen when the processor is halted; the registers printed below it are left out.
\<close>

definition i386ExceptionDescriptionText :: "string list" where
  "i386ExceptionDescriptionText =
     [''Exception 00: DIVIDE BY ZERO'',
      ''Exception 01: DEBUG EXCEPTION'',
      ''Exception 02: NON-MASKABLE INTERRUPT EXCEPTION'',
      ''Exception 03: BREAKPOINT (INT 3)'',
      ''Exception 04: OVERFLOW'',
      ''Exception 05: BOUND EXCEPTION'',
      ''Exception 06: INVALID OPCODE'',
      ''Exception 07: FPU NOT AVAILABLE'',
      ''Exception 08: DOUBLE FAULT'',
      ''Exception 09: COPROCESSOR SEGMENT OVERRUN'',
      ''Exception 0A: INVALID TSS'',
      ''Exception 0B: SEGMENT NOT PRESENT'',
      ''Exception 0C: STACK EXCEPTION'',
      ''Exception 0D: GENERAL PROTECTION FAULT'',
      ''Exception 0E: PAGE FAULT'',
      ''Exception 0F: Reserved'',
      ''Exception 10: COPROCESSOR ERROR'',
      ''Exception 11: ALIGNMENT CHECK'',
      ''Exception 12: MACHINE CHECK'']"

definition Red :: Color where "Red = 4"

definition printException :: "u32 \<Rightarrow> ('a stub_scheme, string option) prog" where
  "printException ctx =
     seq (\<lambda>s. if gdbstub_enabled s then gdbstub_i386_handle_exception ctx s else ret () s) (\<lambda>s.
       let n = load32 (stub_ram s) (ctx + trap_ex_no)
       in if n = 3 \<or> n = 1 then ret None s
          else
            (let s = print_i386_clear (print_i386_setBackgroundColor Red s)
             in if unat n < length i386ExceptionDescriptionText
                then ret (Some (i386ExceptionDescriptionText ! unat n)) s
                else stop OutOfBounds s))"

end
