(* ===== verification/Descriptors.thy ===== *)
theory Descriptors
  imports CLib
begin

text \<open>
  The descriptor tables of the i386: the global descriptor table of gdt.c and the interrupt
  descriptor table of idt.c, as the 8-byte entries the processor reads, in the byte memory. The
  addresses of the tables and of the exception stubs of trap.asm are arguments; loading the table
  registers is a single privileged instruction and has no effect on the memory.
\<close>

section \<open>The global descriptor table\<close>

definition I86_GDT_ENTRY_COUNT :: u16 where
  "I86_GDT_ENTRY_COUNT = 5"

text \<open>\<open>gdt_entry\<close>: limit, base, base, access, granularity, base.\<close>

definition gdt_entry :: "u32 \<Rightarrow> u16 \<Rightarrow> u32" where
  "gdt_entry gdt i = gdt + 8 * ucast i"

text \<open>The check lets index 5 through, one past the end of the table.\<close>

definition gdt_set_descriptor :: "u32 \<Rightarrow> u16 \<Rightarrow> u32 \<Rightarrow> u32 \<Rightarrow> u8 \<Rightarrow> u8 \<Rightarrow> mem \<Rightarrow> fault + mem" where
  "gdt_set_descriptor gdt i base limit access granularity m =
     (if I86_GDT_ENTRY_COUNT < i then Inr m
      else if i = I86_GDT_ENTRY_COUNT then Inl OutOfBounds
      else
        (let e = gdt_entry gdt i;
             m = memset m e 0 8;
             m = store16 m (e + 2) (ucast (base AND 0xFFFF));
             m = store8 m (e + 4) (ucast (drop_bit 16 base AND 0xFF));
             m = store8 m (e + 7) (ucast (drop_bit 24 base AND 0xFF));
             m = store16 m e (ucast (limit AND 0xFFFF));
             m = store8 m (e + 5) access;
             m = store8 m (e + 6) (ucast (drop_bit 16 limit AND 0x0F));
             m = store8 m (e + 6) (m (e + 6) OR (granularity AND 0xF0))
         in Inr m))"

text \<open>The pseudo descriptor \<open>gp\<close>: size and address of the table.\<close>

definition gdt_install :: "u32 \<Rightarrow> u32 \<Rightarrow> mem \<Rightarrow> mem" where
  "gdt_install gdt gp m = store32 (store16 m gp (8 * 5 - 1)) (gp + 2) gdt"

definition gdt_init :: "u32 \<Rightarrow> u32 \<Rightarrow> mem \<Rightarrow> fault + mem" where
  "gdt_init gdt gp m =
     rbind (gdt_set_descriptor gdt 0 0 0 0 0 m) (\<lambda>m.
     rbind (gdt_set_descriptor gdt 1 0 0xFFFFFFFF 0x9A 0xCF m) (\<lambda>m.
     rbind (gdt_set_descriptor gdt 2 0 0xFFFFFFFF 0x92 0xCF m) (\<lambda>m.
     rbind (gdt_set_descriptor gdt 3 0 0xFFFFF 0x9E 0x00 m) (\<lambda>m.
     rbind (gdt_set_descriptor gdt 4 0 0xFFFFF 0x92 0x00 m) (\<lambda>m.
     Inr (gdt_install gdt gp m))))))"

section \<open>The interrupt descriptor table\<close>

definition I86_IDT_ENTRY_COUNT :: u32 where
  "I86_IDT_ENTRY_COUNT = 32"

definition I86_IDT_ATTR_PRESENT :: u8 where "I86_IDT_ATTR_PRESENT = 0x80"
definition I86_IDT_ATTR_32BIT_INT_GATE :: u8 where "I86_IDT_ATTR_32BIT_INT_GATE = 0x0E"
definition I86_IDT_ATTR_PRIV_KERNEL :: u8 where "I86_IDT_ATTR_PRIV_KERNEL = 0x00"

text \<open>\<open>idt_entry\<close>: offset, selector, zero, type, offset.\<close>

definition idt_entry :: "u32 \<Rightarrow> u8 \<Rightarrow> u32" where
  "idt_entry idt i = idt + 8 * ucast i"

definition idt_set_gate :: "u32 \<Rightarrow> u8 \<Rightarrow> u32 \<Rightarrow> u16 \<Rightarrow> u8 \<Rightarrow> mem \<Rightarrow> mem" where
  "idt_set_gate idt i base sel flags m =
     (let e = idt_entry idt i;
          m = store16 m e (ucast (base AND 0xFFFF));
          m = store16 m (e + 6) (ucast (drop_bit 16 base AND 0xFFFF));
          m = store16 m (e + 2) sel;
          m = store8 m (e + 4) 0
      in store8 m (e + 5) flags)"

text \<open>The exceptions with a stub: 0 to 14 and 16 to 19. \<open>ex k\<close> is the address of stub \<open>exk\<close>.\<close>

definition idt_exceptions :: "u8 list" where
  "idt_exceptions = [0, 1, 2, 3, 4, 5, 6, 7, 8, 9, 10, 11, 12, 13, 14, 16, 17, 18, 19]"

definition idt_init :: "u32 \<Rightarrow> u32 \<Rightarrow> (u8 \<Rightarrow> u32) \<Rightarrow> mem \<Rightarrow> mem" where
  "idt_init idt pmodeIdt ex m =
     (let m = store16 m pmodeIdt (ucast (8 * I86_IDT_ENTRY_COUNT - 1));
          m = store32 m (pmodeIdt + 2) idt;
          m = memset m idt 0 (8 * I86_IDT_ENTRY_COUNT)
      in fold (\<lambda>k. idt_set_gate idt k (ex k) 0x08
           (I86_IDT_ATTR_PRESENT OR I86_IDT_ATTR_32BIT_INT_GATE OR I86_IDT_ATTR_PRIV_KERNEL))
           idt_exceptions m)"

section \<open>What the processor reads\<close>

definition segment_base :: "mem \<Rightarrow> u32 \<Rightarrow> u32" where
  "segment_base m e = ucast (load16 m (e + 2)) OR push_bit 16 (ucast (m (e + 4)))
     OR push_bit 24 (ucast (m (e + 7)))"

definition segment_limit :: "mem \<Rightarrow> u32 \<Rightarrow> u32" where
  "segment_limit m e = ucast (load16 m e) OR push_bit 16 (ucast (m (e + 6)) AND 0x0F)"

definition gate_offset :: "mem \<Rightarrow> u32 \<Rightarrow> u32" where
  "gate_offset m e = ucast (load16 m e) OR push_bit 16 (ucast (load16 m (e + 6)))"

section \<open>Properties\<close>

lemma descriptor_bytes:
  assumes "i < 5" "gdt_set_descriptor gdt i base limit access granularity m = Inr m'"
  defines "e \<equiv> gdt_entry gdt i"
  shows "m' e = ucast limit" "m' (e + 1) = ucast (drop_bit 8 limit)"
    "m' (e + 2) = ucast base" "m' (e + 3) = ucast (drop_bit 8 base)"
    "m' (e + 4) = ucast (drop_bit 16 base)" "m' (e + 5) = access"
    "m' (e + 6) = (ucast (drop_bit 16 limit) AND 0x0F) OR (granularity AND 0xF0)"
    "m' (e + 7) = ucast (drop_bit 24 base)"
proof -
  have i: "\<not> 5 < i" "i \<noteq> 5" using assms(1) by auto
  have ff: "(0xFF :: u32) = mask 8" "(0xFFFF :: u32) = mask 16" "(0x0F :: u32) = mask 4"
    "(0x0F :: u8) = mask 4"
    by (simp_all add: mask_eq_exp_minus_1)
  have b: "(ucast (ucast (w AND 0xFFFF) :: u16) :: u8) = ucast w"
    "(ucast (drop_bit 8 (ucast (w AND 0xFFFF) :: u16)) :: u8) = ucast (drop_bit 8 w)"
    "(ucast (w AND 0xFF) :: u8) = ucast w" "(ucast (w AND 0x0F) :: u8) = ucast w AND 0x0F" for w :: u32
    unfolding ff by (auto intro!: bit_word_eqI simp: bit_simps)
  note d = assms(2) [unfolded gdt_set_descriptor_def I86_GDT_ENTRY_COUNT_def]
  from d i show "m' e = ucast limit" "m' (e + 1) = ucast (drop_bit 8 limit)"
    "m' (e + 2) = ucast base" "m' (e + 3) = ucast (drop_bit 8 base)"
    "m' (e + 4) = ucast (drop_bit 16 base)" "m' (e + 5) = access"
    "m' (e + 6) = (ucast (drop_bit 16 limit) AND 0x0F) OR (granularity AND 0xF0)"
    "m' (e + 7) = ucast (drop_bit 24 base)"
    by (auto simp: Let_def e_def store16_def store8_def b)
qed

text \<open>The eight bytes that \<open>gdt_set_descriptor\<close> scatters base, limit and flags over are read back by
  the processor as the same base, the low 20 bits of the limit and the flags.\<close>

lemma gdt_descriptor_decodes:
  assumes "i < 5"
  shows "\<exists>m'. gdt_set_descriptor gdt i base limit access granularity m = Inr m'
    \<and> segment_base m' (gdt_entry gdt i) = base
    \<and> segment_limit m' (gdt_entry gdt i) = limit AND 0xFFFFF
    \<and> m' (gdt_entry gdt i + 5) = access
    \<and> m' (gdt_entry gdt i + 6) AND 0xF0 = granularity AND 0xF0"
proof -
  have "\<exists>m'. gdt_set_descriptor gdt i base limit access granularity m = Inr m'"
    using assms by (auto simp: gdt_set_descriptor_def I86_GDT_ENTRY_COUNT_def Let_def)
  then obtain m' where m': "gdt_set_descriptor gdt i base limit access granularity m = Inr m'" by blast
  note b = descriptor_bytes [OF assms m']
  have f: "(0x0F :: u8) = mask 4" "(0x0F :: u32) = mask 4" "(0xFFFFF :: u32) = mask 20"
    "(0xF0 :: u8) = NOT (mask 4)"
    by (simp_all add: mask_eq_exp_minus_1)
  have "segment_base m' (gdt_entry gdt i) = base"
  proof (rule bit_word_eqI)
    fix n
    assume "n < LENGTH(32)"
    then have "n < 8 \<or> (\<exists>k<8. n = 8 + k) \<or> (\<exists>k<8. n = 16 + k) \<or> (\<exists>k<8. n = 24 + k)"
      by (intro byte_of_bit) simp
    then show "bit (segment_base m' (gdt_entry gdt i)) n \<longleftrightarrow> bit base n"
      unfolding segment_base_def load16_def b(3-5,8) add.assoc
      by (elim disjE exE conjE) (auto simp: bit_simps b)
  qed
  moreover have "segment_limit m' (gdt_entry gdt i) = limit AND 0xFFFFF"
  proof (rule bit_word_eqI)
    fix n
    assume "n < LENGTH(32)"
    then have "n < 8 \<or> (\<exists>k<8. n = 8 + k) \<or> (\<exists>k<8. n = 16 + k) \<or> (\<exists>k<8. n = 24 + k)"
      by (intro byte_of_bit) simp
    then show "bit (segment_limit m' (gdt_entry gdt i)) n \<longleftrightarrow> bit (limit AND 0xFFFFF) n"
      unfolding segment_limit_def load16_def b(1,2,7) f
      by (elim disjE exE conjE) (auto simp: bit_simps)
  qed
  moreover have "m' (gdt_entry gdt i + 6) AND 0xF0 = granularity AND 0xF0"
    unfolding b(7) f by (rule bit_word_eqI) (auto simp: bit_simps)
  ultimately show ?thesis using m' b(6) by blast
qed


lemma gdt_descriptor_decodes_example:
  "\<exists>m'. gdt_set_descriptor 0x8000 1 0 0xFFFFFFFF 0x9A 0xCF two_names = Inr m'
    \<and> segment_base m' (gdt_entry 0x8000 1) = 0
    \<and> segment_limit m' (gdt_entry 0x8000 1) = 0xFFFFFFFF AND 0xFFFFF
    \<and> m' (gdt_entry 0x8000 1 + 5) = 0x9A
    \<and> m' (gdt_entry 0x8000 1 + 6) AND 0xF0 = 0xCF AND 0xF0"
  by (rule gdt_descriptor_decodes) simp

text \<open>
  What one call writes: the two halves of the offset, the selector, the flags and the reserved byte,
  and nothing outside the entry.
\<close>

lemma idt_gate_decodes:
  "gate_offset (idt_set_gate idt i base sel flags m) (idt_entry idt i) = base
    \<and> load16 (idt_set_gate idt i base sel flags m) (idt_entry idt i + 2) = sel
    \<and> idt_set_gate idt i base sel flags m (idt_entry idt i + 4) = 0
    \<and> idt_set_gate idt i base sel flags m (idt_entry idt i + 5) = flags
    \<and> (\<forall>b k. sep (idt_entry idt i) 8 b k \<longrightarrow> agree m (idt_set_gate idt i base sel flags m) b k)"
proof (intro conjI allI impI)
  let ?e = "idt_entry idt i" and ?m' = "idt_set_gate idt i base sel flags m"
  have f: "(0xFFFF :: u32) = mask 16" by (simp add: mask_eq_exp_minus_1)
  have lo: "load16 ?m' ?e = ucast (base AND 0xFFFF)"
    and hi: "load16 ?m' (?e + 6) = ucast (drop_bit 16 base AND 0xFFFF)"
    and sl: "load16 ?m' (?e + 2) = sel"
    by (simp_all add: idt_set_gate_def Let_def load16_def store16_def store8_def)
      (auto intro!: bit_word_eqI simp: bit_simps)
  show "load16 ?m' (?e + 2) = sel" by (rule sl)
  show "?m' (?e + 4) = 0" "?m' (?e + 5) = flags"
    by (simp_all add: idt_set_gate_def Let_def store8_def)
  show "gate_offset ?m' ?e = base"
    unfolding gate_offset_def lo hi f
    by (rule bit_word_eqI) (auto simp: bit_simps dest: bit_imp_le_length)
  fix b k
  assume s: "sep ?e 8 b k"
  have "sep (?e + 6) 2 b k" "sep (?e + 2) 2 b k" "sep (?e + 4) 1 b k" "sep (?e + 5) 1 b k" "sep ?e 2 b k"
    using sep_sub [OF s, of 6 2] sep_sub [OF s, of 2 2] sep_sub [OF s, of 4 1] sep_sub [OF s, of 5 1]
      sep_mono [OF s, of 2 k] by auto
  then show "agree m ?m' b k"
    unfolding idt_set_gate_def Let_def
    by (intro c8.store_keeps c16.store_keeps agree_refl)
qed

lemma idt_entry_offset: "unat (8 * ucast (i :: u8) :: u32) = 8 * unat i"
proof -
  have "unat i < 256" by simp
  then have "unat i < 536870912" by (rule less_trans) simp
  moreover from this have "unat i < 4294967296" by (rule less_trans) simp
  ultimately show ?thesis by (simp add: unat_word_ariths take_bit_eq_mod unsigned_ucast_eq)
qed

lemma idt_entries_sep: "i \<noteq> j \<Longrightarrow> sep (idt_entry idt i) 8 (idt_entry idt j) 8"
proof -
  assume "i \<noteq> j"
  then have ne: "unat i \<noteq> unat j" by (simp add: word_eq_unat_iff)
  have "unat i < 256" "unat j < 256" by simp_all
  with ne have "sep (8 * ucast i) 8 (8 * ucast j :: u32) 8"
    using sep_below [of "8 * ucast i" 8 "8 * ucast j" 8] sep_above [of "8 * ucast j" 8 "8 * ucast i" 8]
    unfolding idt_entry_offset by linarith
  then show ?thesis by (simp add: idt_entry_def)
qed

lemma fold_gates:
  "distinct ks \<Longrightarrow> k \<in> set ks \<Longrightarrow>
    \<exists>m0. agree (idt_set_gate idt k (ex k) sel flags m0)
      (fold (\<lambda>k. idt_set_gate idt k (ex k) sel flags) ks m) (idt_entry idt k) 8"
  "k \<notin> set ks \<Longrightarrow> agree m (fold (\<lambda>k. idt_set_gate idt k (ex k) sel flags) ks m) (idt_entry idt k) 8"
proof (induction ks arbitrary: m)
  case (Cons j ks)
  note frame = idt_gate_decodes [THEN conjunct2, THEN conjunct2, THEN conjunct2, THEN conjunct2, rule_format]
  {
    case 1
    show ?case
    proof (cases "k = j")
      case True
      with 1 have "k \<notin> set ks" by simp
      with True Cons.IH(2) show ?thesis by auto
    next
      case False
      with 1 Cons.IH(1) show ?thesis by auto
    qed
  next
    case 2
    then have "sep (idt_entry idt j) 8 (idt_entry idt k) 8" by (intro idt_entries_sep) auto
    from agree_trans [OF frame [OF this] Cons.IH(2)] 2 show ?case by simp
  }
qed simp_all

text \<open>After \<open>idt_init\<close> the processor finds, for every exception that has a stub, an interrupt gate
  that leads to that stub through the kernel's code segment, and for every other vector of the table
  (15 and 20 to 31) an entry that is not present.\<close>

lemma idt_init_installs:
  "\<exists>m'. idt_init idt pmodeIdt ex m = m'
    \<and> (\<forall>k\<in>set idt_exceptions. gate_offset m' (idt_entry idt k) = ex k
        \<and> load16 m' (idt_entry idt k + 2) = 8 \<and> m' (idt_entry idt k + 5) = 0x8E)
    \<and> (\<forall>k<32. k \<notin> set idt_exceptions \<longrightarrow> m' (idt_entry idt k + 5) = 0)"
proof -
  let ?start = "memset (store32 (store16 m pmodeIdt (ucast (8 * I86_IDT_ENTRY_COUNT - 1))) (pmodeIdt + 2) idt)
    idt 0 (8 * I86_IDT_ENTRY_COUNT)"
  let ?fin = "idt_init idt pmodeIdt ex m"
  have m: "?fin = fold (\<lambda>k. idt_set_gate idt k (ex k) 8 0x8E) idt_exceptions ?start"
    by (simp add: idt_init_def I86_IDT_ATTR_PRESENT_def I86_IDT_ATTR_32BIT_INT_GATE_def
        I86_IDT_ATTR_PRIV_KERNEL_def)
  have d: "distinct idt_exceptions" by (simp add: idt_exceptions_def)
  have one: "gate_offset ?fin (idt_entry idt k) = ex k \<and> load16 ?fin (idt_entry idt k + 2) = 8
    \<and> ?fin (idt_entry idt k + 5) = 0x8E" if "k \<in> set idt_exceptions" for k
  proof -
    let ?e = "idt_entry idt k"
    from fold_gates(1) [OF d that] obtain m1 where
      a: "agree (idt_set_gate idt k (ex k) 8 0x8E m1) ?fin ?e 8" unfolding m by blast
    note g = idt_gate_decodes [of idt k "ex k" 8 "0x8E" m1]
    have "load16 ?fin ?e = load16 (idt_set_gate idt k (ex k) 8 0x8E m1) ?e"
      "load16 ?fin (?e + 6) = load16 (idt_set_gate idt k (ex k) 8 0x8E m1) (?e + 6)"
      "load16 ?fin (?e + 2) = load16 (idt_set_gate idt k (ex k) 8 0x8E m1) (?e + 2)"
      using load16_cong [OF agree_sub [OF a, of 0 2]] load16_cong [OF agree_sub [OF a, of 6 2]]
        load16_cong [OF agree_sub [OF a, of 2 2]] by simp_all
    moreover have "?fin (?e + 5) = idt_set_gate idt k (ex k) 8 0x8E m1 (?e + 5)"
      using a unfolding agree_def by (metis of_nat_numeral numeral_less_iff rel_simps)
    ultimately show ?thesis using g by (simp add: gate_offset_def)
  qed
  have none: "?fin (idt_entry idt k + 5) = 0" if k: "k < 32" "k \<notin> set idt_exceptions" for k
  proof -
    have "unat k < 32" using k(1) by (simp add: word_less_nat_alt)
    then have n: "8 * unat k + 5 < 256" by simp
    have "load_bytes ?start idt 256 = replicate 256 0"
      using memset_value [of _ idt 0 "8 * I86_IDT_ENTRY_COUNT"] by (simp add: I86_IDT_ENTRY_COUNT_def)
    then have "?start (idt + of_nat (8 * unat k + 5)) = 0"
      using n by (metis nth_load_bytes nth_replicate)
    moreover have "idt + of_nat (8 * unat k + 5) = idt_entry idt k + 5"
      by (simp add: idt_entry_def add.assoc unsigned_ucast_eq)
    ultimately have z: "?start (idt_entry idt k + 5) = 0" by (simp only:)
    have "agree ?start ?fin (idt_entry idt k) 8" unfolding m by (rule fold_gates(2) [OF k(2)])
    then have "?start (idt_entry idt k + of_nat 5) = ?fin (idt_entry idt k + of_nat 5)"
      unfolding agree_def by (rule allE [of _ 5]) simp
    with z show ?thesis by simp
  qed
  from one none show ?thesis by blast
qed

lemma idt_init_installs_example:
  "\<exists>m'. idt_init 0x9000 0x9200 (\<lambda>k. 0x10000 + 16 * ucast k) two_names = m'
    \<and> (\<forall>k\<in>set idt_exceptions. gate_offset m' (idt_entry 0x9000 k) = 0x10000 + 16 * ucast k
        \<and> load16 m' (idt_entry 0x9000 k + 2) = 8 \<and> m' (idt_entry 0x9000 k + 5) = 0x8E)
    \<and> (\<forall>k<32. k \<notin> set idt_exceptions \<longrightarrow> m' (idt_entry 0x9000 k + 5) = 0)"
  by (rule idt_init_installs)
end
