(* ===== verification/Kmain.thy ===== *)
theory Kmain
  imports Geexos Exception Descriptors
begin

text \<open>
  The whole loader: \<open>kmain\<close> (main.c) and the machine setup of arch.c. What the linker and the
  processor provide, addresses of static objects, of the exception stubs and of string literals, the
  content of an uninitialised local variable and the time stamp counter, is a record of its own.
  Calls that only print are left out.
\<close>

record machine = executables +
  terminal :: debug
  rnd_lcg1_xn :: u32

record program_image =
  gdt_table :: u32
  gdt_pointer :: u32
  idt_table :: u32
  idt_pointer :: u32
  exception_stub :: "u8 \<Rightarrow> u32"
  end_of_image :: u32
  stale_map :: "u8 list"
  library_path :: u32
  kernel_path :: u32
  timestamp :: u32
  cpuid_leaf :: "u32 \<Rightarrow> u32 \<times> u32 \<times> u32 \<times> u32"

text \<open>What the processor says about itself (cpuid.h): \<open>cpuid_leaf\<close> gives the four registers of a leaf.\<close>

definition cpuid_hasfeature :: "program_image \<Rightarrow> u32 \<Rightarrow> bool \<Rightarrow> bool" where
  "cpuid_hasfeature im feature ecxRegister =
     (case cpuid_leaf im 1 of (a, b, c, d) \<Rightarrow> if ecxRegister then c AND feature \<noteq> 0 else d AND feature \<noteq> 0)"

definition cpuid_getVendorString :: "program_image \<Rightarrow> u32 \<Rightarrow> mem \<Rightarrow> mem" where
  "cpuid_getVendorString im buffer m =
     (case cpuid_leaf im 0 of (a, b, c, d) \<Rightarrow>
        store32 (store32 (store32 m buffer b) (buffer + 4) d) (buffer + 8) c)"

definition store_leaf :: "u32 \<times> u32 \<times> u32 \<times> u32 \<Rightarrow> u32 \<Rightarrow> mem \<Rightarrow> mem" where
  "store_leaf r buffer m =
     (case r of (a, b, c, d) \<Rightarrow>
        store32 (store32 (store32 (store32 m buffer a) (buffer + 4) b) (buffer + 8) c) (buffer + 12) d)"

text \<open>Without a brand string, the size of a pointer decides how much of the text is copied.\<close>

definition cpuid_getBrandString :: "program_image \<Rightarrow> u32 \<Rightarrow> mem \<Rightarrow> mem" where
  "cpuid_getBrandString im buffer m =
     (if fst (cpuid_leaf im 0x80000000) < 0x80000004
      then store_bytes m buffer (take 4 (literal ''unsupported''))
      else store_leaf (cpuid_leaf im 0x80000004) (buffer + 32)
        (store_leaf (cpuid_leaf im 0x80000003) (buffer + 16)
          (store_leaf (cpuid_leaf im 0x80000002) buffer m)))"

definition arch_early_machine_setup :: "program_image \<Rightarrow> ('a machine_scheme, unit) prog" where
  "arch_early_machine_setup im s =
     (case gdt_init (gdt_table im) (gdt_pointer im) (ram s) of
        Inl e \<Rightarrow> stop e s
      | Inr m \<Rightarrow> Some (Inr ((), s\<lparr>ram := idt_init (idt_table im) (idt_pointer im) (exception_stub im) m\<rparr>)))"

definition debug_init_p :: "('a machine_scheme, unit) prog" where
  "debug_init_p s = (case debug_init (terminal s) of Inl e \<Rightarrow> stop e s | Inr d \<Rightarrow> Some (Inr ((), s\<lparr>terminal := d\<rparr>)))"

text \<open>The screen, the firmware memory map, the seed of the random numbers.\<close>

definition arch_machine_setup :: "program_image \<Rightarrow> ('a machine_scheme, unit) prog" where
  "arch_machine_setup im =
     seq (modify (\<lambda>s. s\<lparr>terminal := print_i386_clear (terminal s)\<rparr>)) (
     seq (mem_i386_build_memory_map (end_of_image im) (stale_map im)) (
     seq (stack_array 17 (\<lambda>cpuvendor. stack_array 49 (\<lambda>cpubrand.
            modify (\<lambda>s. s\<lparr>ram := cpuid_getBrandString im cpubrand (cpuid_getVendorString im cpuvendor
              (memset (memset (ram s) cpuvendor 0 17) cpubrand 0 49))\<rparr>)))) (
     modify (\<lambda>s. s\<lparr>rnd_lcg1_xn := srand (timestamp im)\<rparr>))))"

definition memory_init_p :: "('a machine_scheme, unit) prog" where
  "memory_init_p s = (case memory_init (mm.truncate s) of
       None \<Rightarrow> None
     | Some (Inl e) \<Rightarrow> Some (Inl e)
     | Some (Inr m) \<Rightarrow> Some (Inr ((), mm.extend m (mm.more s))))"

text \<open>\<open>default_heap_init\<close> takes the memory of the heap from the page allocator.\<close>

definition default_heap_init_p :: "('a machine_scheme, unit) prog" where
  "default_heap_init_p = on_loader (\<lambda>l. Some (rbind (default_heap_init l) (\<lambda>l. Inr ((), l))))"

definition kmain :: "nat \<Rightarrow> program_image \<Rightarrow> ('a machine_scheme, kernel_jump) prog" where
  "kmain depth im =
     seq (arch_early_machine_setup im) (
     seq debug_init_p (
     seq (arch_machine_setup im) (
     seq memory_init_p (
     seq default_heap_init_p (
     seq disk_init (
     seq fs_init (
     loader_loadGeexOS depth (library_path im) (kernel_path im))))))))"

text \<open>\<open>arch_panic\<close>: the screen turns red and is cleared, and nothing more happens.\<close>

definition arch_panic_screen :: "'a console_scheme \<Rightarrow> 'a console_scheme" where
  "arch_panic_screen s = print_i386_clear (print_i386_setBackgroundColor Red s)"

end
