(* ===== verification/BlockDevice.thy ===== *)
theory BlockDevice
  imports Partitions
begin

text \<open>
  What a block device promises, as an interface: reading sectors into a buffer below 1 MB puts the
  contents of these sectors there and keeps the rest of the memory above the area the BIOS uses. The
  devices of the loader keep this promise when the BIOS does what its specification says.
\<close>

section \<open>The interface\<close>

text \<open>Below 0x7000 are the data of the BIOS, the call buffer and the real mode stack.\<close>

definition bios_area :: "u32 \<Rightarrow> bool" where
  "bios_area a \<longleftrightarrow> a < 0x7000"

text \<open>Nothing but the memory and the number of BIOS calls is different, and that only in one region.\<close>

definition only_ram :: "'a bios_scheme \<Rightarrow> 'a bios_scheme \<Rightarrow> bool" where
  "only_ram s s' \<longleftrightarrow> (\<exists>m k. s' = s\<lparr>ram := m, bios_calls := k\<rparr>)"

lemma only_ram_upd [simp]:
  "only_ram s (s\<lparr>ram := m, bios_calls := k\<rparr>)" "only_ram s (s\<lparr>ram := m\<rparr>)" "only_ram s s"
proof -
  show "only_ram s (s\<lparr>ram := m, bios_calls := k\<rparr>)" by (auto simp: only_ram_def)
  have "s\<lparr>ram := m\<rparr> = s\<lparr>ram := m, bios_calls := bios_calls s\<rparr>" "s = s\<lparr>ram := ram s, bios_calls := bios_calls s\<rparr>"
    by simp_all
  then show "only_ram s (s\<lparr>ram := m\<rparr>)" "only_ram s s" unfolding only_ram_def by blast+
qed

lemma only_ram_trans: "only_ram s s' \<Longrightarrow> only_ram s' s'' \<Longrightarrow> only_ram s s''"
  by (auto simp: only_ram_def [of s s'] only_ram_def [of s' s''])

lemma only_ram_same:
  "only_ram s s' \<Longrightarrow> bios_answer s' = bios_answer s"
  "only_ram s s' \<Longrightarrow> stack_pointer s' = stack_pointer s"
  by (auto simp: only_ram_def)

definition changes_in :: "u32 \<Rightarrow> nat \<Rightarrow> mem \<Rightarrow> mem \<Rightarrow> bool" where
  "changes_in b n m m' \<longleftrightarrow> (\<forall>a. \<not> bios_area a \<and> n \<le> unat (a - b) \<longrightarrow> m' a = m a)"

definition sectors_of :: "(u64 \<Rightarrow> u8 list) \<Rightarrow> u64 \<Rightarrow> nat \<Rightarrow> u8 list" where
  "sectors_of img first n = concat (map (\<lambda>i. img (first + of_nat i)) [0..<n])"

locale block_device =
  fixes rd :: "u64 \<Rightarrow> u32 \<Rightarrow> u32 \<Rightarrow> ('a bios_scheme, bool) prog"
    and ready :: "'a bios_scheme \<Rightarrow> bool"
    and img :: "u64 \<Rightarrow> u8 list"
  assumes sector_size: "ready s \<Longrightarrow> length (img l) = 512"
    and ready_ram: "ready s \<Longrightarrow> only_ram s s' \<Longrightarrow> ready s'"
    and read_law: "ready s \<Longrightarrow> 0 < unat n \<Longrightarrow> unat n \<le> 127 \<Longrightarrow> unat buf + 512 * unat n \<le> 0x100000 \<Longrightarrow>
      runs (rd l n buf) s (\<lambda>done s'. done \<and> only_ram s s'
        \<and> load_bytes (ram s') buf (512 * unat n) = sectors_of img l (unat n)
        \<and> changes_in buf (512 * unat n) (ram s) (ram s'))"
begin

lemma length_sectors: "ready s \<Longrightarrow> length (sectors_of img l n) = 512 * n"
  by (induction n) (simp_all add: sectors_of_def sector_size)

end

section \<open>The BIOS\<close>

text \<open>The packet of an extended read, as the BIOS takes it from memory.\<close>

definition packet_count :: "mem \<Rightarrow> u32 \<Rightarrow> nat" where
  "packet_count m p = unat (load16 m (p + 2))"

definition packet_buffer :: "mem \<Rightarrow> u32 \<Rightarrow> u32" where
  "packet_buffer m p = push_bit 4 (ucast (load16 m (p + 6))) + ucast (load16 m (p + 4))"

definition packet_first :: "mem \<Rightarrow> u32 \<Rightarrow> u64" where
  "packet_first m p = ucast (load32 m (p + 8)) OR push_bit 32 (ucast (load32 m (p + 12)))"

text \<open>
  A drive with extended services: functions 41h and 42h of interrupt 13h. Function 42h transfers the
  sectors of the packet at ds:si to the packet's buffer.
\<close>

definition bios_drive :: "'a bios_scheme \<Rightarrow> u8 \<Rightarrow> (u64 \<Rightarrow> u8 list) \<Rightarrow> bool" where
  "bios_drive s drive img \<longleftrightarrow>
     (\<forall>l. length (img l) = 512) \<and>
     (\<forall>k r m. eax r = 0x4100 \<and> edx r = ucast drive \<longrightarrow>
        (case bios_answer s k 0x13 r m of (r', m') \<Rightarrow> \<not> carry r' \<and> (\<forall>a. \<not> bios_area a \<longrightarrow> m' a = m a))) \<and>
     (\<forall>k r m. eax r = 0x4200 \<and> edx r = ucast drive \<longrightarrow>
        (let p = push_bit 4 (ucast (ds r)) + esi r; n = packet_count m p; b = packet_buffer m p
         in 0 < n \<and> n \<le> 127 \<longrightarrow>
            (case bios_answer s k 0x13 r m of (r', m') \<Rightarrow> \<not> carry r' \<and> changes_in b (512 * n) m m' \<and>
               load_bytes m' b (512 * n) = sectors_of img (packet_first m p) n)))"

interpretation p16_32: cell_pair load16 store16 2 load32 store32 4 ..

interpretation p32_16: cell_pair load32 store32 4 load16 store16 2 ..

lemma segment_offset:
  assumes "buf < 0x100000"
  shows "push_bit 4 (ucast (ucast (drop_bit 4 buf) :: u16)) + ucast (ucast (buf AND 0x0F) :: u16) = (buf :: u32)"
proof -
  have "unat buf < 0x100000" using assms by (simp add: word_less_nat_alt)
  then have "unat (drop_bit 4 buf) < 65536" by (simp add: unat_drop_bit_div)
  then have "(ucast (ucast (drop_bit 4 buf) :: u16) :: u32) = drop_bit 4 buf"
    by (simp add: word_unat_eq_iff unsigned_ucast_eq unsigned_take_bit_eq take_bit_nat_eq_self)
  moreover have "buf AND 0x0F = take_bit 4 buf"
    using take_bit_eq_mask [of 4 buf] by (simp add: mask_eq_exp_minus_1)
  then have "(ucast (ucast (buf AND 0x0F) :: u16) :: u32) = take_bit 4 buf"
    by (simp only:) (rule bit_word_eqI, auto simp: bit_simps)
  ultimately show ?thesis by (simp add: bits_ident)
qed

lemma low_word: "(l :: u64) AND 0xFFFFFFFF = take_bit 32 l"
  using take_bit_eq_mask [of 32 l] by (simp add: mask_eq_exp_minus_1)

lemma bios_drive_same: "bios_answer s' = bios_answer s \<Longrightarrow> bios_drive s' drive img \<longleftrightarrow> bios_drive s drive img"
  by (simp add: bios_drive_def)

lemma load_packet:
  assumes "unat n < 65536" "buf < 0x100000"
  shows "packet_count (store_lba_packet m l n buf) BIOSCALLBUFFER = unat n"
    "packet_buffer (store_lba_packet m l n buf) BIOSCALLBUFFER = buf"
    "packet_first (store_lba_packet m l n buf) BIOSCALLBUFFER = l"
proof -
  note simps = store_lba_packet_def Let_def BIOSCALLBUFFER_def load_store_simps
    p16_32.load_other_sep p32_16.load_other_sep
  show "packet_count (store_lba_packet m l n buf) BIOSCALLBUFFER = unat n"
    using assms(1) by (simp add: packet_count_def simps unsigned_ucast_eq take_bit_nat_eq_self)
  show "packet_buffer (store_lba_packet m l n buf) BIOSCALLBUFFER = buf"
    using segment_offset [OF assms(2)] by (simp add: packet_buffer_def simps)
  show "packet_first (store_lba_packet m l n buf) BIOSCALLBUFFER = l"
    by (simp add: packet_first_def simps low_word) (rule bit_word_eqI, auto simp: bit_simps)
qed

lemma lba_packet_area: "\<not> bios_area a \<Longrightarrow> store_lba_packet m l n buf a = m a"
proof -
  assume a: "\<not> bios_area a"
  then have neq: "w < 0x7000 \<Longrightarrow> a \<noteq> w" for w by (auto simp: bios_area_def)
  from a have "0x7000 \<le> unat a" by (simp add: bios_area_def word_le_nat_alt not_less)
  then have "sep 0x1000 16 a 1" by (intro sep_below) (simp_all add: Suc_le_eq)
  then have "agree m (memset m 0x1000 0 16) a 1" using memset_frame [of "0x1000" 16 a 1] by simp
  then show ?thesis
    by (simp add: store_lba_packet_def Let_def BIOSCALLBUFFER_def store8_def store16_def store32_def neq agreeD(1))
qed

text \<open>A successful call for an extended read.\<close>

lemma lba_read:
  assumes d: "bios_drive s drive img" and n: "0 < unat n" "unat n \<le> 127"
    and b: "unat buf + 512 * unat n \<le> 0x100000"
  shows "runs (biosdisk_i386_read_sectors drive l n buf) s (\<lambda>done s'. done \<and> only_ram s s'
    \<and> load_bytes (ram s') buf (512 * unat n) = sectors_of img l (unat n)
    \<and> changes_in buf (512 * unat n) (ram s) (ram s'))"
proof -
  have small: "buf < 0x100000" using b n(1) by (simp add: word_less_nat_alt)
  let ?r1 = "zero_registers\<lparr>eax := 0x4100, ebx := 0x55AA, edx := ucast drive\<rparr>"
  obtain r1 m1 where a1: "bios_answer s (bios_calls s) 0x13 ?r1 (ram s) = (r1, m1)" by fastforce
  then have c1: "\<not> carry r1" "\<And>a. \<not> bios_area a \<Longrightarrow> m1 a = ram s a"
    using d [unfolded bios_drive_def, THEN conjunct2, THEN conjunct1, rule_format, of ?r1 "ram s" "bios_calls s"]
    by simp_all
  let ?m2 = "store_lba_packet m1 l n buf"
  let ?r2 = "zero_registers\<lparr>eax := 0x4200, edx := ucast drive, ds := BIOSCALLBUF_SEGMENT, esi := BIOSCALLBUF_OFFSET\<rparr>"
  obtain r3 m3 where a2: "bios_answer s (bios_calls s + 1) 0x13 ?r2 ?m2 = (r3, m3)" by fastforce
  have p: "push_bit 4 (ucast (ds ?r2)) + esi ?r2 = BIOSCALLBUFFER"
    by (simp add: BIOSCALLBUF_SEGMENT_def BIOSCALLBUF_OFFSET_def BIOSCALLBUFFER_def)
  note at = load_packet [of n buf m1 l, OF _ small]
  have c3: "\<not> carry r3" "changes_in buf (512 * unat n) ?m2 m3"
    "load_bytes m3 buf (512 * unat n) = sectors_of img l (unat n)"
    using d [unfolded bios_drive_def, THEN conjunct2, THEN conjunct2, rule_format, of ?r2 ?m2 "bios_calls s + 1"]
      n p at a2 by (simp_all add: Let_def)
  have "changes_in buf (512 * unat n) (ram s) m3"
    using c3(2) c1(2) lba_packet_area [of _ m1 l n buf] by (simp add: changes_in_def)
  moreover have "\<not> 0x100000 < buf" using small by (simp add: less_not_sym)
  ultimately show ?thesis
    using c1(1) c3(1,3) a1 a2
    by (simp add: biosdisk_i386_read_sectors_def read_either_def biosdisk_i386_extendedmode_supported_def
        biosdisk_i386_read_lba_def numeral_3_eq_3 callInt_def runs_def bnd_def seq_def modify_def ret_def ex_bool_eq)
qed

section \<open>Devices\<close>

text \<open>The drive a device reads from, and the sector of the drive its first sector is.\<close>

inductive reaches :: "'a disks_scheme \<Rightarrow> u32 \<Rightarrow> u8 \<Rightarrow> u64 \<Rightarrow> bool" for s where
  drive: "devices s dev = Some d \<Longrightarrow> read_sectors d = BiosDriver \<Longrightarrow> drive_of d = n \<Longrightarrow> reaches s dev n 0"
| partition: "devices s dev = Some d \<Longrightarrow> read_sectors d = PartitionDriver \<Longrightarrow>
    device_type d = DEVICETYPE_PARTITION \<Longrightarrow> parentDevice d \<noteq> 0 \<Longrightarrow> reaches s (parentDevice d) n off \<Longrightarrow>
    reaches s dev n (startLBA d + off)"

lemma reaches_same: "reaches s dev n off \<Longrightarrow> devices s' = devices s \<Longrightarrow> reaches s' dev n off"
  by (induction rule: reaches.induct) (auto intro: reaches.intros)

definition device_ready :: "u32 \<Rightarrow> u8 \<Rightarrow> u64 \<Rightarrow> (u64 \<Rightarrow> u8 list) \<Rightarrow> 'a disks_scheme \<Rightarrow> bool" where
  "device_ready dev n off img s \<longleftrightarrow> reaches s dev n off \<and> bios_drive s n img"

lemma device_reads:
  assumes "reaches s dev n off" "bios_drive s n img" "0 < unat count" "unat count \<le> 127"
    and "unat buf + 512 * unat count \<le> 0x100000"
  shows "runs (\<lambda>s. device_read_sectors dev l count buf s) s (\<lambda>done s'. done \<and> only_ram s s'
    \<and> load_bytes (ram s') buf (512 * unat count) = sectors_of img (l + off) (unat count)
    \<and> changes_in buf (512 * unat count) (ram s) (ram s'))"
  using assms(1,2)
proof (induction arbitrary: l rule: reaches.induct)
  case (drive dev d n)
  then have "device_read_sectors dev l count buf s = biosdisk_i386_read_sectors n l count buf s"
    by (subst device_read_sectors.simps)
      (simp add: bnd_def get_device_def deref_def disk_interface_read_sectors_def)
  then show ?case using lba_read [OF drive.prems assms(3-5), of l] drive by (simp add: runs_def)
next
  case (partition dev d n off)
  then have "device_read_sectors dev l count buf s = device_read_sectors (parentDevice d) (l + startLBA d) count buf s"
    by (subst device_read_sectors.simps) (simp add: bnd_def get_device_def deref_def)
  with partition.IH [OF partition.prems, of "l + startLBA d"] show ?case by (simp add: runs_def add.assoc)
qed

interpretation bios_device: block_device "\<lambda>l count buf s. device_read_sectors dev l count buf s"
    "device_ready dev n off img" "\<lambda>l. img (l + off)" for dev n off img
proof unfold_locales
  fix s s' :: "'b disks_scheme" and l count buf
  assume r: "device_ready dev n off img s"
  then show "length (img (l + off)) = 512" by (simp add: device_ready_def bios_drive_def)
  show "only_ram s s' \<Longrightarrow> device_ready dev n off img s'"
    using r bios_drive_same [of s' s n img] by (auto simp: device_ready_def only_ram_def elim!: reaches_same)
  have "sectors_of img (l + off) k = sectors_of (\<lambda>l. img (l + off)) l k" for k
    by (simp add: sectors_of_def ac_simps)
  with r show "0 < unat count \<Longrightarrow> unat count \<le> 127 \<Longrightarrow> unat buf + 512 * unat count \<le> 0x100000 \<Longrightarrow>
      runs (\<lambda>s. device_read_sectors dev l count buf s) s (\<lambda>done s'. done \<and> only_ram s s'
        \<and> load_bytes (ram s') buf (512 * unat count) = sectors_of (\<lambda>l. img (l + off)) l (unat count)
        \<and> changes_in buf (512 * unat count) (ram s) (ram s'))"
    using device_reads [of s dev n off img count buf l] by (simp add: device_ready_def)
qed

end
