(* ===== verification/FatRead.thy ===== *)
theory FatRead
  imports Fat BlockDevice
begin

text \<open>
  Reading files of a FAT volume against an abstract view of the volume: the allocation table as the
  numbers it holds, a file as the clusters of its chain. The block device is any device that keeps the
  promise of \<open>block_device\<close>.
\<close>

section \<open>The volume as the specification sees it\<close>

text \<open>\<open>disk l\<close> is sector \<open>l\<close> of the volume. Byte \<open>i\<close> of the active table, as a number.\<close>

definition fat_byte :: "FatVolumeInformation \<Rightarrow> (u64 \<Rightarrow> u8 list) \<Rightarrow> nat \<Rightarrow> nat" where
  "fat_byte v disk i = unat (disk (of_nat (unat (ActiveFatSectorStart v) + i div 512)) ! (i mod 512))"

text \<open>Entry \<open>c\<close> of a table: 12 bits packed in pairs, 16 bits, or the low 28 of 32 bits.\<close>

definition fat_entry :: "FAT_TYPE \<Rightarrow> (nat \<Rightarrow> nat) \<Rightarrow> nat \<Rightarrow> nat" where
  "fat_entry t fat c =
     (case t of
        FAT12 \<Rightarrow> (let w = fat (c + c div 2) + 256 * fat (c + c div 2 + 1)
          in if odd c then w div 16 else w mod 4096)
      | FAT16 \<Rightarrow> fat (2 * c) + 256 * fat (2 * c + 1)
      | FAT32 \<Rightarrow> (fat (4 * c) + 256 * fat (4 * c + 1) + 65536 * fat (4 * c + 2) + 16777216 * fat (4 * c + 3))
          mod 268435456)"

definition next_cluster :: "FatVolumeInformation \<Rightarrow> (u64 \<Rightarrow> u8 list) \<Rightarrow> u32 \<Rightarrow> u32" where
  "next_cluster v disk c = of_nat (fat_entry (FatType v) (fat_byte v disk) (unat c))"

lemma unat_byte_or:
  fixes x :: u8 and z :: "'a::len word"
  assumes "unat z * 256 + 255 < 2 ^ LENGTH('a)" "8 \<le> LENGTH('a)"
  shows "unat (ucast x OR push_bit 8 z) = unat x + 256 * unat z"
proof -
  have x: "unat (ucast x :: 'a word) = unat x"
    using assms(2) unat_bound8 [of x]
    by (simp add: unsigned_ucast_eq take_bit_nat_eq_self order_less_le_trans [OF unat_bound8] power_increasing [of 8 _ 2, simplified])
  have z: "unat (push_bit 8 z) = 256 * unat z"
    using assms(1) unfolding unsigned_push_bit_eq by (simp add: push_bit_eq_mult take_bit_nat_eq_self)
  have "ucast x OR push_bit 8 z = ucast x + push_bit 8 z"
    by (rule disjunctive_add_eq_or [symmetric], rule bit_word_eqI) (auto simp: bit_simps dest: bit_imp_le_length)
  moreover have "unat x + 256 * unat z < 2 ^ LENGTH('a)"
    using assms(1) unat_bound8 [of x] by linarith
  ultimately show ?thesis using x z by (simp add: unat_word_ariths)
qed

lemma unat_load16: "unat (load16 m a) = unat (m a) + 256 * unat (m (a + 1))"
proof -
  have "unat (m (a + 1)) < 256" by simp
  then have "unat (m (a + 1)) * 256 + 255 < 65536" by linarith
  moreover have "unat (ucast (m (a + 1)) :: u16) = unat (m (a + 1))"
    by (simp add: unsigned_ucast_eq take_bit_nat_eq_self order_less_le_trans [OF unat_bound8])
  ultimately show ?thesis by (simp add: load16_def unat_byte_or)
qed

lemma unat_load32: "unat (load32 m a) = unat (m a) + 256 * unat (m (a + 1)) + 65536 * unat (m (a + 2))
    + 16777216 * unat (m (a + 3))"
proof -
  let ?b = "\<lambda>i. unat (m (a + i))"
  define w3 where "w3 = (ucast (m (a + 3)) :: u32)"
  define w2 where "w2 = ucast (m (a + 2)) OR push_bit 8 w3"
  define w1 where "w1 = ucast (m (a + 1)) OR push_bit 8 w2"
  have b: "?b 1 < 256" "?b 2 < 256" "?b 3 < 256" by simp_all
  have 3: "unat w3 = ?b 3"
    by (simp add: w3_def unsigned_ucast_eq take_bit_nat_eq_self order_less_le_trans [OF unat_bound8])
  have 2: "unat w2 = ?b 2 + 256 * ?b 3"
    unfolding w2_def 3 [symmetric] by (rule unat_byte_or) (use b 3 in \<open>auto simp del: unat_bound8\<close>)
  have 1: "unat w1 = ?b 1 + 256 * unat w2"
    unfolding w1_def by (rule unat_byte_or) (use b 2 in \<open>auto simp del: unat_bound8\<close>)
  have "load32 m a = ucast (m a) OR push_bit 8 w1"
    unfolding w1_def w2_def w3_def by (rule bit_word_eqI) (auto simp: load32_def bit_simps)
  then have "unat (load32 m a) = unat (m a) + 256 * unat w1"
    by (simp only:) (rule unat_byte_or, use b 1 2 in \<open>auto simp del: unat_bound8\<close>)
  with 1 2 show ?thesis by simp
qed

section \<open>A mounted volume\<close>

text \<open>The volume \<open>v\<close> is mounted at \<open>mount\<close> from a device; its sectors are \<open>disk\<close>.\<close>

definition fat_volume ::
    "u32 \<Rightarrow> FatVolumeInformation \<Rightarrow> (u64 \<Rightarrow> u8 list) \<Rightarrow> 'a filesystems_scheme \<Rightarrow> bool" where
  "fat_volume mount v disk s \<longleftrightarrow>
     (\<exists>mt n off img. mounts s mount = Some mt \<and> volumes s (mount_context mt) = Some v \<and>
        device_ready (Device mt) n off img s \<and> disk = (\<lambda>l. img (l + off))) \<and>
     VolumeBytesPerSector v = 512 \<and> 0 < unat (SectorsPerCluster v) \<and> unat (SectorsPerCluster v) \<le> 127"

lemma only_ram_fs:
  assumes "only_ram s s'"
  shows "mounts s' = mounts s" "volumes s' = volumes s" "files s' = files s" "fat_files s' = fat_files s"
  using assms by (auto simp: only_ram_def)

lemma fat_volume_same: "fat_volume mount v disk s \<Longrightarrow> only_ram s s' \<Longrightarrow> fat_volume mount v disk s'"
  using bios_device.ready_ram [of _ _ _ _ s s'] only_ram_fs [of s s'] unfolding fat_volume_def by metis

lemma fat_volume_stack [simp]: "fat_volume mount v disk (s\<lparr>stack_pointer := a\<rparr>) = fat_volume mount v disk s"
proof -
  have "reaches (s\<lparr>stack_pointer := a\<rparr>) dev n off = reaches s dev n off" for dev n off
    using reaches_same [of s dev n off "s\<lparr>stack_pointer := a\<rparr>"]
      reaches_same [of "s\<lparr>stack_pointer := a\<rparr>" dev n off s] by auto
  then show ?thesis by (simp add: fat_volume_def device_ready_def bios_drive_def)
qed

lemma volume_sector_length: "fat_volume mount v disk s \<Longrightarrow> length (disk l) = 512"
  using bios_device.sector_size unfolding fat_volume_def by metis

lemma volume_context:
  "fat_volume mount v disk s \<Longrightarrow> bnd (fat_get_device_context mount) f s = f v s"
  by (auto simp: fat_volume_def fat_get_device_context_def get_mount_def get_volume_def bnd_def deref_def)

lemma volume_read:
  assumes "fat_volume mount v disk s" "0 < unat n" "unat n \<le> 127" "unat buf + 512 * unat n \<le> 0x100000"
  shows "runs (mount_read mount l n buf) s (\<lambda>done s'. done \<and> only_ram s s'
        \<and> load_bytes (ram s') buf (512 * unat n) = sectors_of disk (ucast l) (unat n)
        \<and> changes_in buf (512 * unat n) (ram s) (ram s'))"
proof -
  from assms(1) obtain mt k off img where m: "mounts s mount = Some mt" and
    r: "device_ready (Device mt) k off img s" and d: "disk = (\<lambda>l. img (l + off))"
    by (auto simp: fat_volume_def)
  have "mount_read mount l n buf s = device_read_sectors (Device mt) (ucast l) n buf s"
    by (simp add: mount_read_def bnd_def get_mount_def deref_def m)
  then show ?thesis
    using bios_device.read_law [OF r assms(2-4), of "ucast l"] unfolding runs_def d by simp
qed

text \<open>An array on the stack: below the stack pointer, and gone afterwards.\<close>

lemma runs_stack_array [simp]:
  "runs (stack_array n body) s Q \<longleftrightarrow>
   runs (body ((stack_pointer s - n) AND NOT 15)) (s\<lparr>stack_pointer := (stack_pointer s - n) AND NOT 15\<rparr>)
     (\<lambda>x s'. Q x (s'\<lparr>stack_pointer := stack_pointer s\<rparr>))"
  by (auto simp: stack_array_def Let_def runs_def bnd_def split: option.splits sum.splits)

lemma only_ram_stack: "only_ram (s\<lparr>stack_pointer := a\<rparr>) s' \<Longrightarrow> only_ram s (s'\<lparr>stack_pointer := stack_pointer s\<rparr>)"
  by (auto simp: only_ram_def [of "s\<lparr>stack_pointer := a\<rparr>"])

lemma unat_and_not_15: "unat ((w :: u32) AND NOT 15) = unat w - unat w mod 16"
proof -
  have "w AND NOT 15 = w AND NOT (mask 4)" by (simp add: mask_eq_exp_minus_1)
  also have "\<dots> = push_bit 4 (drop_bit 4 w)"
    by (rule bit_word_eqI) (auto simp: bit_simps)
  finally have "w AND NOT 15 = push_bit 4 (drop_bit 4 w)" .
  moreover have "unat w div 16 * 16 < 4294967296" using unat_bound32 [of w] by (simp del: unat_bound32)
  ultimately have "unat (w AND NOT 15) = unat w div 16 * 16"
    by (simp only:) (simp only: unsigned_push_bit_eq, simp add: unat_drop_bit_div push_bit_eq_mult take_bit_nat_eq_self)
  then show ?thesis by (simp add: minus_mod_eq_div_mult)
qed

lemma stack_place:
  assumes "unat n + 15 \<le> unat (p :: u32)"
  shows "unat p - unat n - 15 \<le> unat ((p - n) AND NOT 15)" "unat ((p - n) AND NOT 15) + unat n \<le> unat p"
proof -
  have "unat (p - n) = unat p - unat n" using assms by (simp add: unat_sub_le word_le_nat_alt)
  moreover have "unat (p - n) mod 16 \<le> 15" by simp
  ultimately show "unat p - unat n - 15 \<le> unat ((p - n) AND NOT 15)"
    "unat ((p - n) AND NOT 15) + unat n \<le> unat p"
    using assms unfolding unat_and_not_15 by linarith+
qed

section \<open>Entries of the table\<close>

lemma nth_sectors:
  assumes "\<And>l. length (disk l) = 512" "j < 512 * n"
  shows "sectors_of disk l n ! j = disk (l + of_nat (j div 512)) ! (j mod 512)"
  using assms(2)
proof (induction n)
  case 0
  then show ?case by simp
next
  case (Suc n)
  have len: "length (sectors_of disk l n) = 512 * n"
    by (induction n) (simp_all add: sectors_of_def assms(1))
  have step: "sectors_of disk l (Suc n) = sectors_of disk l n @ disk (l + of_nat n)"
    by (simp add: sectors_of_def)
  show ?case
  proof (cases "j < 512 * n")
    case True
    then show ?thesis using Suc.IH len by (simp add: step nth_append)
  next
    case False
    with Suc.prems have d: "j div 512 = n" by simp
    have "j mod 512 = j - 512 * n" using minus_mult_div_eq_mod [of j 512] d by simp
    with d False show ?thesis using len by (simp add: step nth_append)
  qed
qed

lemma odd_word: "(c :: u32) AND 1 \<noteq> 0 \<longleftrightarrow> odd (unat c)"
  by (simp add: and_one_eq odd_iff_mod_2_eq_one unat_mod word_unat_eq_iff)

lemma fat_entry_value_unat:
  "unat (fat_entry_value FAT12 c m a) =
     (if odd (unat c) then unat (load16 m a) div 16 else unat (load16 m a) mod 4096)"
  "unat (fat_entry_value FAT16 c m a) = unat (load16 m a)"
  "unat (fat_entry_value FAT32 c m a) = unat (load32 m a) mod 268435456"
proof -
  have 12: "(w :: u32) AND 0xFFF = take_bit 12 w" for w
    using take_bit_eq_mask [of 12 w] by (simp add: mask_eq_exp_minus_1)
  have 28: "(w :: u32) AND 0x0FFFFFFF = take_bit 28 w" for w
    using take_bit_eq_mask [of 28 w] by (simp add: mask_eq_exp_minus_1)
  show "unat (fat_entry_value FAT12 c m a) =
     (if odd (unat c) then unat (load16 m a) div 16 else unat (load16 m a) mod 4096)"
    by (simp add: fat_entry_value_def Let_def odd_word unat_drop_bit_div unat_ucast_16_32 12
        unsigned_take_bit_eq take_bit_eq_mod unat_mod)
  show "unat (fat_entry_value FAT16 c m a) = unat (load16 m a)"
    by (simp add: fat_entry_value_def unat_ucast_16_32)
  show "unat (fat_entry_value FAT32 c m a) = unat (load32 m a) mod 268435456"
    by (simp add: fat_entry_value_def 28 unsigned_take_bit_eq take_bit_eq_mod unat_mod)
qed

definition fat_width :: "FAT_TYPE \<Rightarrow> nat" where
  "fat_width t = (case t of FAT32 \<Rightarrow> 4 | _ \<Rightarrow> 2)"

text \<open>An entry read from memory that holds the bytes of the table.\<close>

lemma fat_entry_value_eq:
  assumes "\<And>k. k < fat_width t \<Longrightarrow> unat (m (a + of_nat k)) = fat (o' + k)"
    and "o' = (case t of FAT12 \<Rightarrow> unat c + unat c div 2 | FAT16 \<Rightarrow> 2 * unat c | FAT32 \<Rightarrow> 4 * unat c)"
  shows "fat_entry_value t c m a = of_nat (fat_entry t fat (unat c))"
proof -
  have "unat (fat_entry_value t c m a) = fat_entry t fat (unat c)"
  proof (cases t)
    case FAT12
    then show ?thesis
      using assms(1) [of 0] assms(1) [of 1] assms(2)
      by (simp add: fat_entry_value_unat fat_entry_def fat_width_def unat_load16 Let_def)
  next
    case FAT16
    then show ?thesis
      using assms(1) [of 0] assms(1) [of 1] assms(2)
      by (simp add: fat_entry_value_unat fat_entry_def fat_width_def unat_load16)
  next
    case FAT32
    then show ?thesis
      using assms(1) [of 0] assms(1) [of 1] assms(1) [of 2] assms(1) [of 3] assms(2)
      by (simp add: fat_entry_value_unat fat_entry_def fat_width_def unat_load32)
  qed
  then show ?thesis by (metis of_nat_unat_same)
qed


section \<open>Reading an entry\<close>

text \<open>The offset of an entry does not wrap, and an entry of 16 or 32 bits does not cross sectors.\<close>

lemma unat_fat_offset:
  assumes "unat c < 268435456"
  shows "unat (fat_offset t c) =
    (case t of FAT12 \<Rightarrow> unat c + unat c div 2 | FAT16 \<Rightarrow> 2 * unat c | FAT32 \<Rightarrow> 4 * unat c)"
  using assms
  by (cases t) (simp_all add: fat_offset_def unat_word_ariths unat_div_distrib take_bit_nat_eq_self)

lemma entry_in_sectors:
  assumes "unat c < 268435456" "VolumeBytesPerSector v = 512"
  shows "unat (fat_offset (FatType v) c) mod 512 + fat_width (FatType v) \<le>
      512 * unat (fat_entry_sectors v (fat_offset (FatType v) c mod 512))"
proof -
  let ?o = "fat_offset (FatType v) c"
  have o: "unat (?o mod 512) = unat ?o mod 512" by (simp add: unat_mod)
  have e: "?o mod 512 = 511 \<longleftrightarrow> unat ?o mod 512 = 511"
    unfolding o [symmetric] by (simp add: word_unat_eq_iff)
  show ?thesis
  proof (cases "FatType v")
    case FAT12
    have "unat ?o mod 512 < 512" by simp
    then show ?thesis using FAT12 e assms(2) by (auto simp: fat_entry_sectors_def fat_width_def)
  next
    case FAT16
    then have "unat ?o mod 512 = 2 * unat c mod 512" using unat_fat_offset [OF assms(1)] by simp
    moreover have "2 * unat c mod 512 = 2 * (unat c mod 256)" using mod_mult_mult1 [of 2 "unat c" 256] by simp
    moreover have "unat c mod 256 < 256" by simp
    ultimately show ?thesis using FAT16 by (simp add: fat_entry_sectors_def fat_width_def del: mod_less_divisor)
  next
    case FAT32
    then have "unat ?o mod 512 = 4 * unat c mod 512" using unat_fat_offset [OF assms(1)] by simp
    moreover have "4 * unat c mod 512 = 4 * (unat c mod 128)" using mod_mult_mult1 [of 4 "unat c" 128] by simp
    moreover have "unat c mod 128 < 128" by simp
    ultimately show ?thesis using FAT32 by (simp add: fat_entry_sectors_def fat_width_def del: mod_less_divisor)
  qed
qed

text \<open>Memory from an address on is as it was.\<close>

definition kept_from :: "nat \<Rightarrow> mem \<Rightarrow> mem \<Rightarrow> bool" where
  "kept_from h m m' \<longleftrightarrow> (\<forall>a. h \<le> unat a \<longrightarrow> m' a = m a)"

lemma changes_kept:
  fixes b :: u32 and m m' :: mem
  assumes "changes_in b n m m'" "unat b + n \<le> h" "0x7000 \<le> h"
  shows "kept_from h m m'"
  unfolding kept_from_def
proof (intro allI impI)
  fix a :: u32
  assume a: "h \<le> unat a"
  then have "unat (a - b) = unat a - unat b" using assms(2) by (simp add: unat_sub_le word_le_nat_alt)
  then have "n \<le> unat (a - b)" using assms(2) a by simp
  moreover have "\<not> bios_area a" using a assms(3) by (simp add: bios_area_def word_less_nat_alt)
  ultimately show "m' a = m a" using assms(1) by (simp add: changes_in_def)
qed

lemma div_mod_offset:
  "(a + k) div 512 = a div 512 + (a mod 512 + k) div (512::nat)" "(a + k) mod 512 = (a mod 512 + k) mod 512"
proof -
  have "a + k = (a mod 512 + k) + a div 512 * 512" by simp
  then have "(a + k) div 512 = (a mod 512 + k + a div 512 * 512) div 512" by (rule arg_cong)
  also have "\<dots> = a div 512 + (a mod 512 + k) div 512" by (simp only: div_mult_self1 [OF numeral_neq_zero])
  finally show "(a + k) div 512 = a div 512 + (a mod 512 + k) div 512" .
  show "(a + k) mod 512 = (a mod 512 + k) mod 512" by (rule mod_add_left_eq [symmetric])
qed

text \<open>A table whose sectors are numbered without wrapping.\<close>

definition table_ok :: "FatVolumeInformation \<Rightarrow> bool" where
  "table_ok v \<longleftrightarrow> unat (ActiveFatSectorStart v) < 2147483648"

lemma runs_volume_context:
  "fat_volume mount v disk s \<Longrightarrow> runs (bnd (fat_get_device_context mount) f) s Q = runs (f v) s Q"
  by (simp add: runs_def volume_context)

lemma fat_getFatEntry_decodes:
  assumes vol: "fat_volume mount v disk s" "table_ok v" and c: "unat c < 268435456"
    and st: "0x7000 + 1039 \<le> unat (stack_pointer s)" "unat (stack_pointer s) \<le> 0x100000"
  shows "runs (fat_getFatEntry mount c) s (\<lambda>r s'. r = Some (next_cluster v disk c) \<and> only_ram s s'
    \<and> kept_from (unat (stack_pointer s)) (ram s) (ram s'))"
proof -
  define off where "off = fat_offset (FatType v) c"
  define sector where "sector = ActiveFatSectorStart v + off div 512"
  define n where "n = fat_entry_sectors v (off mod 512)"
  define b where "b = (stack_pointer s - VolumeBytesPerSector v * 2) AND NOT 15"
  let ?s = "s\<lparr>stack_pointer := b\<rparr>"
  have bps: "VolumeBytesPerSector v = 512" using vol(1) by (simp add: fat_volume_def)
  have n: "0 < unat n" "unat n \<le> 2" by (simp_all add: n_def fat_entry_sectors_def)
  have b: "unat (stack_pointer s) - 1039 \<le> unat b" "unat b + 1024 \<le> unat (stack_pointer s)"
    using stack_place [of 1024 "stack_pointer s"] st by (simp_all add: b_def bps)
  have len: "\<And>l. length (disk l) = 512" using volume_sector_length [OF vol(1)] .
  have "unat off < 1073741824"
    using c unat_fat_offset [OF c, of "FatType v"] by (simp add: off_def split: FAT_TYPE.splits)
  then have sec: "unat sector = unat (ActiveFatSectorStart v) + unat off div 512"
    using vol(2) unfolding sector_def
    by (subst unat_add32) (simp_all add: unat_div_distrib table_ok_def)
  have fits: "unat off mod 512 + fat_width (FatType v) \<le> 512 * unat n"
    using entry_in_sectors [OF c bps] by (simp add: off_def n_def)
  have val: "fat_entry_value (FatType v) c m (b + off mod 512) = next_cluster v disk c"
    if m: "load_bytes m b (512 * unat n) = sectors_of disk (ucast sector) (unat n)" for m
    unfolding next_cluster_def
  proof (rule fat_entry_value_eq)
    fix k
    assume k: "k < fat_width (FatType v)"
    let ?j = "unat off mod 512 + k"
    have j: "?j < 512 * unat n" using fits k by simp
    have at: "(unat off + k) div 512 = unat off div 512 + ?j div 512" "(unat off + k) mod 512 = ?j mod 512"
      by (rule div_mod_offset)+
    have "of_nat ?j = (of_nat (unat (off mod 512)) + of_nat k :: u32)"
      unfolding unat_mod by simp
    then have "of_nat ?j = off mod 512 + of_nat k"
      by (simp only: of_nat_unat_same)
    then have "m (b + off mod 512 + of_nat k) = load_bytes m b (512 * unat n) ! ?j"
      using j by (simp add: add.assoc)
    also have "\<dots> = disk (ucast sector + of_nat (?j div 512)) ! (?j mod 512)"
      unfolding m using len j by (rule nth_sectors)
    also have "(ucast sector + of_nat (?j div 512) :: u64) = of_nat (unat sector + ?j div 512)"
      by simp
    finally show "unat (m (b + off mod 512 + of_nat k)) = fat_byte v disk (unat off + k)"
      unfolding fat_byte_def sec at by (simp add: add.assoc)
  next
    show "unat off = (case FatType v of FAT12 \<Rightarrow> unat c + unat c div 2 | FAT16 \<Rightarrow> 2 * unat c | FAT32 \<Rightarrow> 4 * unat c)"
      using unat_fat_offset [OF c] by (simp add: off_def)
  qed
  have "fat_volume mount v disk ?s" using vol(1) by simp
  then have rd: "runs (mount_read mount sector n b) ?s (\<lambda>done s'. done \<and> only_ram ?s s'
        \<and> load_bytes (ram s') b (512 * unat n) = sectors_of disk (ucast sector) (unat n)
        \<and> changes_in b (512 * unat n) (ram s) (ram s'))"
    using volume_read [of mount v disk ?s n b sector] n b st by simp
  have "runs (bnd (mount_read mount sector n b) (\<lambda>done s. if \<not> done then ret None s
          else ret (Some (fat_entry_value (FatType v) c (ram s) (b + off mod 512))) s)) ?s
        (\<lambda>r s'. r = Some (next_cluster v disk c) \<and> only_ram s (s'\<lparr>stack_pointer := stack_pointer s\<rparr>)
          \<and> kept_from (unat (stack_pointer s)) (ram s) (ram s'))"
    unfolding runs_bnd
    by (rule runs_weaken [OF rd])
      (use val n b st in \<open>auto simp: runs_def ret_def intro!: only_ram_stack elim!: changes_kept\<close>)
  then show ?thesis
    unfolding fat_getFatEntry_def runs_volume_context [OF vol(1)] runs_stack_array b_def [symmetric]
    by (simp add: bps off_def [symmetric] sector_def [symmetric] n_def [symmetric])
qed

section \<open>Reading a chain\<close>

text \<open>The clusters that hold data are numbered from 2; their sectors are numbered without wrapping.\<close>

definition data_cluster :: "FatVolumeInformation \<Rightarrow> u32 \<Rightarrow> bool" where
  "data_cluster v c \<longleftrightarrow> 2 \<le> unat c \<and> unat c < 268435456 \<and>
     unat (DataSectorStart v) + unat c * unat (SectorsPerCluster v) < 4294967296"

text \<open>The clusters of a chain, in order: the entry of each names the next, the entry of the last ends the chain.\<close>

fun chain :: "FatVolumeInformation \<Rightarrow> (u64 \<Rightarrow> u8 list) \<Rightarrow> u32 \<Rightarrow> u32 list \<Rightarrow> bool" where
  "chain v disk c [] = False"
| "chain v disk c (x # xs) =
     (x = c \<and> data_cluster v c \<and>
      (if end_of_chain v (next_cluster v disk c) then xs = [] else chain v disk (next_cluster v disk c) xs))"

definition cluster_data :: "FatVolumeInformation \<Rightarrow> (u64 \<Rightarrow> u8 list) \<Rightarrow> u32 \<Rightarrow> u8 list" where
  "cluster_data v disk c = sectors_of disk
     (of_nat (unat (DataSectorStart v) + (unat c - 2) * unat (SectorsPerCluster v))) (unat (SectorsPerCluster v))"

definition file_data :: "FatVolumeInformation \<Rightarrow> (u64 \<Rightarrow> u8 list) \<Rightarrow> u32 list \<Rightarrow> u8 list" where
  "file_data v disk cs = concat (map (cluster_data v disk) cs)"

lemma cluster_data_sector:
  assumes "data_cluster v c"
  shows "cluster_data v disk c = sectors_of disk (ucast (cluster_sector v c)) (unat (SectorsPerCluster v))"
proof -
  let ?d = "unat (DataSectorStart v)" and ?k = "unat (SectorsPerCluster v)"
  have c: "2 \<le> unat c" "?d + unat c * ?k < 4294967296" using assms by (simp_all add: data_cluster_def)
  have "(unat c - 2) * ?k \<le> unat c * ?k" by (intro mult_le_mono1) simp
  then have fit: "(unat c - 2) * ?k + ?d < 4294967296" using c(2) by linarith
  have "unat (c - 2) = unat c - 2" using c(1) by (simp add: unat_sub_le word_le_nat_alt)
  then have "unat ((c - 2) * SectorsPerCluster v) = (unat c - 2) * ?k"
    using fit by (simp add: unat_word_ariths take_bit_nat_eq_self)
  then have "unat (cluster_sector v c) = (unat c - 2) * ?k + ?d"
    unfolding cluster_sector_def using fit by (subst unat_add32) simp_all
  then have "(ucast (cluster_sector v c) :: u64) = of_nat ((unat c - 2) * ?k + ?d)"
    by (metis of_nat_unat)
  then show ?thesis by (simp add: cluster_data_def add.commute)
qed

text \<open>The bytes are put at \<open>b\<close>; apart from them the memory from \<open>h\<close> on is kept.\<close>

definition fills :: "nat \<Rightarrow> u32 \<Rightarrow> u8 list \<Rightarrow> mem \<Rightarrow> mem \<Rightarrow> bool" where
  "fills h b xs m m' \<longleftrightarrow> load_bytes m' b (length xs) = xs \<and>
     (\<forall>a. h \<le> unat a \<and> \<not> (unat b \<le> unat a \<and> unat a < unat b + length xs) \<longrightarrow> m' a = m a)"

lemma fills_nil [simp]: "fills h b [] m m"
  by (simp add: fills_def)

lemma fills_nil_iff: "fills h b [] m m' \<longleftrightarrow> kept_from h m m'"
  by (auto simp: fills_def kept_from_def)

lemma fills_kept: "fills h b xs m m' \<Longrightarrow> kept_from h m' m'' \<Longrightarrow> h \<le> unat b \<Longrightarrow>
  unat b + length xs \<le> 4294967296 \<Longrightarrow> fills h b xs m m''"
proof -
  assume f: "fills h b xs m m'" and k: "kept_from h m' m''" and b: "h \<le> unat b" "unat b + length xs \<le> 4294967296"
  have "unat (b + of_nat i) = unat b + i" if "i < length xs" for i
    using that b by (intro unat_add_of_nat32) simp
  then have "load_bytes m'' b (length xs) = load_bytes m' b (length xs)"
    using k b(1) by (simp add: load_bytes_def kept_from_def)
  with f k show ?thesis by (simp add: fills_def kept_from_def)
qed

lemma fills_append:
  assumes 1: "fills h b xs m m'" and 2: "fills h (b + of_nat (length xs)) ys m' m''"
    and b: "h \<le> unat b" "unat b + length xs + length ys \<le> 4294967296"
  shows "fills h b (xs @ ys) m m''"
proof (cases "ys = []")
  case True
  with assms show ?thesis using fills_kept [OF 1, of m''] by (simp add: fills_nil_iff)
next
  case False
  have u: "unat (b + of_nat i) = unat b + i" if "i \<le> length xs" for i
    using that b False by (intro unat_add_of_nat32) (cases ys; simp)
  have "m'' (b + of_nat i) = m' (b + of_nat i)" if "i < length xs" for i
    using 2 that u [of i] u [of "length xs"] b(1) unfolding fills_def by simp
  then have "load_bytes m'' b (length xs) = load_bytes m' b (length xs)"
    by (simp add: load_bytes_def)
  then have "load_bytes m'' b (length (xs @ ys)) = xs @ ys"
    using 1 2 by (simp add: load_bytes_append fills_def)
  moreover have "m'' a = m a" if "h \<le> unat a" "\<not> (unat b \<le> unat a \<and> unat a < unat b + length (xs @ ys))" for a
  proof -
    have "m' a = m a" using 1 that by (auto simp: fills_def)
    moreover have "m'' a = m' a" using 2 that u [of "length xs"] by (auto simp: fills_def)
    ultimately show ?thesis by simp
  qed
  ultimately show ?thesis unfolding fills_def by blast
qed

lemma kept_fills: "kept_from h m m' \<Longrightarrow> fills h b xs m' m'' \<Longrightarrow> fills h b xs m m''"
  by (simp add: fills_def kept_from_def)

lemma memcpy_fills:
  assumes "unat t + unat n \<le> unat b" "unat b + unat n \<le> 4294967296"
  shows "fills h b (load_bytes m t (unat n)) m (memcpy m b t n)"
proof -
  have "sep b (unat n) t (unat n)" using assms by (intro sep_above) simp_all
  then have v: "load_bytes (memcpy m b t n) b (unat n) = load_bytes m t (unat n)" by (rule memcpy_value)
  have "memcpy m b t n a = m a" if "\<not> (unat b \<le> unat a \<and> unat a < unat b + unat n)" for a
  proof -
    have "sep b (unat n) a 1"
    proof (cases "unat a < unat b")
      case True
      with assms(2) show ?thesis by (intro sep_above) simp_all
    next
      case False
      with that show ?thesis by (intro sep_below) (simp_all add: Suc_le_eq)
    qed
    from memcpy_frame [OF this, of m t] show ?thesis by (simp add: agree_def)
  qed
  with v show ?thesis by (simp add: fills_def)
qed

text \<open>The loop of \<open>fat_readClusterChain\<close>, with its buffer at \<open>t\<close> on the stack.\<close>

lemma length_file_data:
  assumes "\<And>l. length (disk l) = 512"
  shows "length (cluster_data v disk c) = 512 * unat (SectorsPerCluster v)"
    "length (file_data v disk cs) = length cs * (512 * unat (SectorsPerCluster v))"
proof -
  have len: "length (sectors_of disk l n) = 512 * n" for l n
    by (induction n) (simp_all add: sectors_of_def assms)
  then show 1: "length (cluster_data v disk c) = 512 * unat (SectorsPerCluster v)" for c
    by (simp add: cluster_data_def)
  show "length (file_data v disk cs) = length cs * (512 * unat (SectorsPerCluster v))"
    by (induction cs) (simp_all add: file_data_def 1)
qed

lemma kept_from_mono: "kept_from h m m' \<Longrightarrow> h \<le> h' \<Longrightarrow> kept_from h' m m'"
  by (simp add: kept_from_def)

lemma kept_from_trans: "kept_from h m m' \<Longrightarrow> kept_from h m' m'' \<Longrightarrow> kept_from h m m''"
  by (simp add: kept_from_def)

lemma runs_memcpy [simp]: "runs (memcpy_p d p n) s Q \<longleftrightarrow> Q () (s\<lparr>ram := memcpy (ram s) d p n\<rparr>)"
  by (simp add: memcpy_p_def)

lemma cluster_round:
  assumes vol: "fat_volume mount v disk s" "table_ok v" and c: "data_cluster v c"
    and sp: "stack_pointer s = t" "0x7000 + 1039 \<le> unat t"
    and h: "unat t + 512 * unat (SectorsPerCluster v) \<le> h" "h \<le> 0x100000"
    and b: "h \<le> unat buf" "unat buf + 512 * unat (SectorsPerCluster v) \<le> 4294967296"
  shows "runs (mount_read mount (cluster_sector v c) (SectorsPerCluster v) t) s (\<lambda>done s'. done \<and>
    runs (seq (memcpy_p buf t (cluster_size v)) (fat_getFatEntry mount c)) s' (\<lambda>r s'.
      r = Some (next_cluster v disk c) \<and> only_ram s s' \<and> fills h buf (cluster_data v disk c) (ram s) (ram s')))"
proof -
  let ?n = "512 * unat (SectorsPerCluster v)"
  have spc: "0 < unat (SectorsPerCluster v)" "unat (SectorsPerCluster v) \<le> 127" "VolumeBytesPerSector v = 512"
    using vol(1) by (auto simp: fat_volume_def)
  have size: "unat (cluster_size v) = ?n"
    using spc by (simp add: cluster_size_def unat_word_ariths)
  have len: "length (cluster_data v disk c) = ?n"
    using length_file_data(1) [OF volume_sector_length [OF vol(1)]] .
  have step: "runs (seq (memcpy_p buf t (cluster_size v)) (fat_getFatEntry mount c)) s1 (\<lambda>r s'.
      r = Some (next_cluster v disk c) \<and> only_ram s s' \<and> fills h buf (cluster_data v disk c) (ram s) (ram s'))"
    if s1: "only_ram s s1" "load_bytes (ram s1) t ?n = cluster_data v disk c" "changes_in t ?n (ram s) (ram s1)" for s1
  proof -
    let ?s2 = "s1\<lparr>ram := memcpy (ram s1) buf t (cluster_size v)\<rparr>"
    have "fills h buf (load_bytes (ram s1) t (unat (cluster_size v))) (ram s1) (ram ?s2)"
      using memcpy_fills [of t "cluster_size v" buf h "ram s1"] h b by (simp add: size)
    then have f: "fills h buf (cluster_data v disk c) (ram s1) (ram ?s2)" by (simp add: size s1(2))
    have k: "kept_from h (ram s) (ram s1)" using s1(3) h(1) sp by (intro changes_kept) simp_all
    have 2: "only_ram s ?s2" using s1(1) by (rule only_ram_trans) simp
    have st: "stack_pointer ?s2 = t" using only_ram_same(2) [OF 2] sp by simp
    have "runs (fat_getFatEntry mount c) ?s2 (\<lambda>r s'. r = Some (next_cluster v disk c) \<and> only_ram ?s2 s'
        \<and> kept_from (unat t) (ram ?s2) (ram s'))"
      using fat_getFatEntry_decodes [OF fat_volume_same [OF vol(1) 2] vol(2), of c] c sp h st by (simp add: data_cluster_def)
    then have "runs (fat_getFatEntry mount c) ?s2 (\<lambda>r s'.
      r = Some (next_cluster v disk c) \<and> only_ram s s' \<and> fills h buf (cluster_data v disk c) (ram s) (ram s'))"
    proof (rule runs_weaken)
      fix r s'
      assume "r = Some (next_cluster v disk c) \<and> only_ram ?s2 s' \<and> kept_from (unat t) (ram ?s2) (ram s')"
      then have r: "r = Some (next_cluster v disk c)" and o: "only_ram ?s2 s'"
        and e: "kept_from (unat t) (ram ?s2) (ram s')" by simp_all
      have "kept_from h (ram ?s2) (ram s')" using h(1) by (intro kept_from_mono [OF e]) simp
      then have "fills h buf (cluster_data v disk c) (ram s1) (ram s')"
        using b(2) len by (intro fills_kept [OF f _ b(1)]) simp_all
      then show "r = Some (next_cluster v disk c) \<and> only_ram s s' \<and> fills h buf (cluster_data v disk c) (ram s) (ram s')"
        using r kept_fills [OF k] only_ram_trans [OF 2 o] by simp
    qed
    then show ?thesis by simp
  qed
  have "runs (mount_read mount (cluster_sector v c) (SectorsPerCluster v) t) s (\<lambda>done s'. done \<and> only_ram s s'
      \<and> load_bytes (ram s') t ?n = cluster_data v disk c \<and> changes_in t ?n (ram s) (ram s'))"
    using volume_read [OF vol(1) spc(1,2), of t "cluster_sector v c"] h by (simp add: cluster_data_sector [OF c])
  then show ?thesis by (rule runs_weaken) (simp add: step del: runs_seq)
qed

lemma runs_cases:
  "runs (if b then p else q) s Q = (if b then runs p s Q else runs q s Q)"
  "runs (case r of None \<Rightarrow> p | Some x \<Rightarrow> f x) s Q = (case r of None \<Rightarrow> runs p s Q | Some x \<Rightarrow> runs (f x) s Q)"
  by (simp_all split: option.splits)

lemma cluster_loop_step:
  assumes "limit \<noteq> 0"
  shows "runs (cluster_chain_loop mount v t c limit buf) s Q \<longleftrightarrow>
    runs (mount_read mount (cluster_sector v c) (SectorsPerCluster v) t) s (\<lambda>done s'.
      if \<not> done then Q False s'
      else runs (seq (memcpy_p buf t (cluster_size v)) (fat_getFatEntry mount c)) s' (\<lambda>r s'. case r of
        None \<Rightarrow> Q False s'
      | Some c \<Rightarrow> if end_of_chain v c then Q True s'
          else runs (cluster_chain_loop mount v t c (limit - 1) (buf + cluster_size v)) s' Q))"
proof -
  have *: "cluster_chain_loop mount v t c limit buf s = bnd (mount_read mount (cluster_sector v c) (SectorsPerCluster v) t) (\<lambda>done.
      if \<not> done then ret False
      else seq (memcpy_p buf t (cluster_size v)) (bnd (fat_getFatEntry mount c) (\<lambda>r. case r of
        None \<Rightarrow> ret False
      | Some c \<Rightarrow> if end_of_chain v c then ret True
          else cluster_chain_loop mount v t c (limit - 1) (buf + cluster_size v)))) s"
    by (subst cluster_chain_loop.simps, simp add: assms, rule arg_cong [where f = "\<lambda>f. bnd _ f s"])
      (intro ext, simp, intro impI arg_cong [where f = "\<lambda>f. seq _ (bnd _ f) _"] ext, simp split: option.splits)
  show ?thesis unfolding runs_def [of "cluster_chain_loop mount v t c limit buf"] * runs_def [symmetric]
    by (simp add: runs_cases cong: option.case_cong)
qed

lemma cluster_loop_reads:
  assumes "fat_volume mount v disk s" "table_ok v" "chain v disk c cs"
    and "stack_pointer s = t" "0x7000 + 1039 \<le> unat t"
    and "unat t + 512 * unat (SectorsPerCluster v) \<le> h" "h \<le> 0x100000"
    and "h \<le> unat buf" "unat buf + length (file_data v disk (take (unat limit) cs)) < 4294967296"
  shows "runs (cluster_chain_loop mount v t c limit buf) s (\<lambda>done s'. done \<and> only_ram s s' \<and>
    fills h buf (file_data v disk (take (unat limit) cs)) (ram s) (ram s'))"
  using assms(1,3,4,8,9)
proof (induction cs arbitrary: c limit buf s)
  case Nil
  then show ?case by simp
next
  case (Cons x xs)
  show ?case
  proof (cases "limit = 0")
    case True
    then show ?thesis
      by (simp add: runs_def cluster_chain_loop.simps [of mount v t c] ret_def file_data_def ex_bool_eq)
  next
    case False
    let ?next = "next_cluster v disk c" and ?n = "512 * unat (SectorsPerCluster v)"
    have x: "x = c" "data_cluster v c"
      and xs: "if end_of_chain v ?next then xs = [] else chain v disk ?next xs" using Cons.prems(2) by simp_all
    obtain k where k: "unat limit = Suc k" using False by (cases "unat limit") (auto simp: unat_eq_zero)
    then have k': "unat (limit - 1) = k" using False by (simp add: unat_minus_one)
    have spc: "unat (SectorsPerCluster v) \<le> 127" "VolumeBytesPerSector v = 512"
      using Cons.prems(1) by (auto simp: fat_volume_def)
    note len = length_file_data [OF volume_sector_length [OF Cons.prems(1)], of v]
    have all: "file_data v disk (take (unat limit) (x # xs)) = cluster_data v disk c @ file_data v disk (take k xs)"
      by (simp add: k x(1) file_data_def)
    have room: "unat buf + ?n + length (file_data v disk (take k xs)) < 4294967296"
      using Cons.prems(5) unfolding all by (simp add: len(1))
    have round: "runs (mount_read mount (cluster_sector v c) (SectorsPerCluster v) t) s (\<lambda>done s'. done \<and>
      runs (seq (memcpy_p buf t (cluster_size v)) (fat_getFatEntry mount c)) s' (\<lambda>r s'.
        r = Some ?next \<and> only_ram s s' \<and> fills h buf (cluster_data v disk c) (ram s) (ram s')))"
      using Cons.prems(4) room
      by (intro cluster_round [OF Cons.prems(1) assms(2) x(2) Cons.prems(3) assms(5-7)]) simp_all
    have rest: "runs (cluster_chain_loop mount v t ?next (limit - 1) (buf + cluster_size v)) s' (\<lambda>done s''. done \<and> only_ram s s'' \<and>
      fills h buf (file_data v disk (take (unat limit) (x # xs))) (ram s) (ram s''))"
      if go: "\<not> end_of_chain v ?next" and o: "only_ram s s'"
        and f: "fills h buf (cluster_data v disk c) (ram s) (ram s')" for s'
    proof -
      have c': "chain v disk ?next xs" using xs go by simp
      have vol: "fat_volume mount v disk s'" by (rule fat_volume_same [OF Cons.prems(1) o])
      have sp: "stack_pointer s' = t" using only_ram_same(2) [OF o] Cons.prems(3) by simp
      have size: "cluster_size v = of_nat (length (cluster_data v disk c))"
        using spc by (simp add: cluster_size_def len(1))
      have u: "unat (buf + cluster_size v) = unat buf + ?n"
        unfolding size len(1) using room by (intro unat_add_of_nat32) simp
      have "runs (cluster_chain_loop mount v t ?next (limit - 1) (buf + cluster_size v)) s' (\<lambda>done s''. done \<and> only_ram s' s'' \<and>
        fills h (buf + cluster_size v) (file_data v disk (take k xs)) (ram s') (ram s''))"
        using Cons.IH [OF vol c' sp, of "buf + cluster_size v" "limit - 1"] u room Cons.prems(4) k' by simp
      then show ?thesis
      proof (rule runs_weaken)
        fix ok s''
        assume "ok \<and> only_ram s' s'' \<and>
          fills h (buf + cluster_size v) (file_data v disk (take k xs)) (ram s') (ram s'')"
        then have a: "ok" "only_ram s' s''"
          "fills h (buf + cluster_size v) (file_data v disk (take k xs)) (ram s') (ram s'')" by simp_all
        have "fills h buf (cluster_data v disk c @ file_data v disk (take k xs)) (ram s) (ram s'')"
          using room Cons.prems(4) a(3) unfolding size by (intro fills_append [OF f]) (simp_all add: len(1))
        then show "ok \<and> only_ram s s'' \<and>
          fills h buf (file_data v disk (take (unat limit) (x # xs))) (ram s) (ram s'')"
          using a(1) only_ram_trans [OF o a(2)] by (simp only: all)
      qed
    qed
    have last: "fills h buf (file_data v disk (take (unat limit) (x # xs))) (ram s) (ram s')"
      if "end_of_chain v ?next" "fills h buf (cluster_data v disk c) (ram s) (ram s')" for s'
      using that xs unfolding all by (simp add: file_data_def)
    show ?thesis
      unfolding cluster_loop_step [OF False]
    proof (rule runs_weaken [OF round], elim conjE, goal_cases)
      case (1 ok s')
      then show ?case
        by (simp only: not_True_eq_False if_False simp_thms)
          (erule runs_weaken, elim conjE, simp only: option.case split: if_splits, use rest last in blast)
    qed
  qed
qed

section \<open>The refinement\<close>

lemma chain_reads:
  assumes "fat_volume mount v disk s" "table_ok v" "chain v disk c cs"
    and "0x7000 + 2048 * unat (SectorsPerCluster v) + 1054 \<le> unat (stack_pointer s)"
    and "unat (stack_pointer s) \<le> 0x100000" "unat (stack_pointer s) \<le> unat buffer"
    and "unat buffer + length (file_data v disk (take (unat limit) cs)) < 4294967296"
  shows "runs (fat_readClusterChain mount c limit buffer) s (\<lambda>done s'. done \<and> only_ram s s' \<and>
    fills (unat (stack_pointer s)) buffer (file_data v disk (take (unat limit) cs)) (ram s) (ram s'))"
proof -
  define n where "n = 4 * cluster_size v"
  define t where "t = (stack_pointer s - n) AND NOT 15"
  have "unat (SectorsPerCluster v) \<le> 127" "VolumeBytesPerSector v = 512"
    using assms(1) by (simp_all add: fat_volume_def)
  then have n: "unat n = 2048 * unat (SectorsPerCluster v)"
    by (simp add: n_def cluster_size_def unat_word_ariths)
  have t: "unat (stack_pointer s) - unat n - 15 \<le> unat t" "unat t + unat n \<le> unat (stack_pointer s)"
    unfolding t_def using assms(4) n by (intro stack_place, simp)+
  have vol: "fat_volume mount v disk (s\<lparr>stack_pointer := t\<rparr>)" using assms(1) by simp
  have "runs (cluster_chain_loop mount v t c limit buffer) (s\<lparr>stack_pointer := t\<rparr>) (\<lambda>done s'. done \<and>
    only_ram (s\<lparr>stack_pointer := t\<rparr>) s' \<and>
    fills (unat (stack_pointer s)) buffer (file_data v disk (take (unat limit) cs)) (ram s) (ram s'))"
    using cluster_loop_reads [OF vol assms(2,3), of t "unat (stack_pointer s)" buffer limit] assms(4-7) t n by simp
  then have "runs (cluster_chain_loop mount v t c limit buffer) (s\<lparr>stack_pointer := t\<rparr>) (\<lambda>done s'. done \<and>
    only_ram s (s'\<lparr>stack_pointer := stack_pointer s\<rparr>) \<and>
    fills (unat (stack_pointer s)) buffer (file_data v disk (take (unat limit) cs)) (ram s) (ram s'))"
    by (rule runs_weaken) (auto intro: only_ram_stack)
  then show ?thesis
    unfolding fat_readClusterChain_def runs_volume_context [OF assms(1)] runs_stack_array n_def [symmetric] t_def [symmetric]
    by simp
qed

text \<open>C14. What \<open>fat_readClusterChain\<close> reads is the file: for a volume on a BIOS drive, reached directly
  or through partitions, of any of the three table formats, it returns true and the buffer holds the
  contents of the clusters of the chain, in order, at most \<open>limit\<close> of them. Above the stack nothing but
  the buffer is written, and nothing but the memory changes. The stack must hold four times a cluster.\<close>

theorem fat_readClusterChain_reads:
  assumes "fat_volume mount v disk s" "table_ok v" "chain v disk c cs"
    and "0x7000 + 2048 * unat (SectorsPerCluster v) + 1054 \<le> unat (stack_pointer s)"
    and "unat (stack_pointer s) \<le> 0x100000" "unat (stack_pointer s) \<le> unat buffer"
    and "unat buffer + length (file_data v disk (take (unat limit) cs)) < 4294967296"
  shows "runs (fat_readClusterChain mount c limit buffer) s (\<lambda>done s'. done \<and> only_ram s s' \<and>
    fills (unat (stack_pointer s)) buffer (file_data v disk (take (unat limit) cs)) (ram s) (ram s'))"
  using assms by (rule chain_reads)

text \<open>A BIOS with one drive, whose sectors are \<open>img\<close>.\<close>

definition ramdisk_bios ::
    "(u64 \<Rightarrow> u8 list) \<Rightarrow> nat \<Rightarrow> u8 \<Rightarrow> bios_int_registers \<Rightarrow> mem \<Rightarrow> bios_int_registers \<times> mem" where
  "ramdisk_bios img k i r m =
     (r\<lparr>flags := 0\<rparr>,
      if eax r = 0x4200 then
        (let p = push_bit 4 (ucast (ds r)) + esi r
         in store_bytes m (packet_buffer m p) (sectors_of img (packet_first m p) (packet_count m p)))
      else m)"

lemma ramdisk_drive:
  assumes len: "\<And>l. length (img l) = 512" and s: "bios_answer s = ramdisk_bios img"
  shows "bios_drive s n img"
proof -
  have l: "length (sectors_of img l k) = 512 * k" for l k
    by (induction k) (simp_all add: sectors_of_def len)
  have v: "load_bytes (store_bytes m b (sectors_of img l k)) b (512 * k) = sectors_of img l k" if "k \<le> 127" for m b l k
    using load_bytes_store_bytes [of "sectors_of img l k" m b] that by (simp add: l)
  have c: "changes_in b (512 * k) m (store_bytes m b (sectors_of img l k))" if "k \<le> 127" for m b l k
    unfolding changes_in_def
  proof (intro allI impI)
    fix a
    assume a: "\<not> bios_area a \<and> 512 * k \<le> unat (a - b)"
    have "sep b (512 * k) a 1"
      unfolding sep_def
    proof (cases "k = 0")
      case False
      then have "a - b \<noteq> 0" using a by auto
      then have "b - a \<noteq> 0" by simp
      then have "0 < unat (b - a)" unfolding unat_gt_0 .
      then have "1 \<le> unat (b - a)" by (simp only: One_nat_def Suc_le_eq)
      with a show "512 * k = 0 \<or> (1 :: nat) = 0 \<or> 512 * k \<le> unat (a - b) \<and> 1 \<le> unat (b - a)" by blast
    qed simp
    then have "agree m (store_bytes m b (sectors_of img l k)) a 1" by (intro store_bytes_frame) (simp add: l)
    then show "store_bytes m b (sectors_of img l k) a = m a" by (simp add: agree_def)
  qed
  show ?thesis
    unfolding bios_drive_def s by (simp add: ramdisk_bios_def carry_def EFLAGS_IS_SET_def Let_def len v c)
qed

text \<open>A volume with 16 bit entries and a file of the two clusters 5 and 7.\<close>

definition fat16_disk :: "u64 \<Rightarrow> u8 list" where
  "fat16_disk l = (if l = 1 then (replicate 512 0)[10 := 7, 14 := 0xFF, 15 := 0xFF] else replicate 512 (ucast l))"

definition fat16_volume :: FatVolumeInformation where
  "fat16_volume = \<lparr>VolumeBytesPerSector = 512, SectorsPerCluster = 1, FatSectorStart = 1, ActiveFatSectorStart = 1,
     NumberOfFats = 1, SectorsPerFat = 1, RootDirSectorStart = 2, RootDirSectors = 1, RootDirStartCluster = 0,
     DataSectorStart = 3, FatType = FAT16\<rparr>"

definition first_drive :: DiskDevice where
  "first_drive = \<lparr>startLBA = 0, endLBA = 100, device_type = DEVICETYPE_HDD, diskNumber = 0,
     parentDevice = 0, read_sectors = BiosDriver, get_disk_geometry = BiosDriver\<rparr>"

definition fat16_mount :: FilesystemMount where
  "fat16_mount = \<lparr>fsops = FatDriver, Device = 0x200000, umount = FatDriver, mount_context = 0x400000\<rparr>"

definition fat16_machine :: filesystems where
  "fat16_machine = \<lparr>ram = empty_ram, highestPhysicalPage = 0x1000, lowestPhysicalPage = 0, pageLookupTable = 0,
     FirmwareMemoryMap = 0, default_heap = 0x500000, bios_answer = ramdisk_bios fat16_disk, bios_calls = 0,
     stack_pointer = 0x9000, list_nodes = \<lparr>nxt = id, prv = id\<rparr>, DeviceList = 0,
     devices = (\<lambda>_. None)(0x200000 \<mapsto> first_drive),
     FsMountList = 0,
     mounts = (\<lambda>_. None)(0x300000 \<mapsto> fat16_mount),
     volumes = (\<lambda>_. None)(0x400000 \<mapsto> fat16_volume), files = (\<lambda>_. None), fat_files = (\<lambda>_. None)\<rparr>"

lemma fat16_disk_length: "length (fat16_disk l) = 512"
  by (simp add: fat16_disk_def)

lemma fat16_mounted:
  assumes "devices s 0x200000 = Some first_drive" "bios_answer s = ramdisk_bios disk" "\<And>l. length (disk l) = 512"
    and "mounts s 0x300000 = Some fat16_mount" "volumes s 0x400000 = Some fat16_volume"
  shows "fat_volume 0x300000 fat16_volume disk s"
proof -
  have "reaches s 0x200000 0x80 0"
    by (rule reaches.drive [where d = first_drive]) (simp_all add: assms(1) first_drive_def drive_of_def)
  moreover have "bios_drive s 0x80 disk" by (rule ramdisk_drive [OF assms(3,2)])
  ultimately have "device_ready (Device fat16_mount) 0x80 0 disk s" by (simp add: device_ready_def fat16_mount_def)
  moreover have "volumes s (mount_context fat16_mount) = Some fat16_volume" using assms(5) by (simp add: fat16_mount_def)
  moreover have "disk = (\<lambda>l. disk (l + 0))" by simp
  ultimately have "\<exists>mt n off img. mounts s 0x300000 = Some mt \<and> volumes s (mount_context mt) = Some fat16_volume \<and>
      device_ready (Device mt) n off img s \<and> disk = (\<lambda>l. img (l + off))" using assms(4) by metis
  then show ?thesis by (simp add: fat_volume_def fat16_volume_def)
qed

lemma fat16_chain: "chain fat16_volume fat16_disk 5 [5, 7]"
  by (simp add: data_cluster_def next_cluster_def fat_entry_def fat_byte_def fat16_volume_def fat16_disk_def end_of_chain_def)

theorem fat_readClusterChain_reads_witness:
  "runs (fat_readClusterChain 0x300000 5 3 0x600000) fat16_machine (\<lambda>done s'. done \<and> only_ram fat16_machine s' \<and>
    fills 0x9000 0x600000 (file_data fat16_volume fat16_disk [5, 7]) (ram fat16_machine) (ram s'))"
proof -
  have mounted: "fat_volume 0x300000 fat16_volume fat16_disk fat16_machine"
    by (rule fat16_mounted) (simp_all add: fat16_machine_def fat16_disk_length)
  have "unat (stack_pointer fat16_machine) = 0x9000" by (simp add: fat16_machine_def)
  moreover have "length (file_data fat16_volume fat16_disk cs) = length cs * 512" for cs
    by (subst length_file_data(2) [OF fat16_disk_length]) (simp add: fat16_volume_def)
  moreover have "table_ok fat16_volume" "unat (SectorsPerCluster fat16_volume) = 1"
    by (simp_all add: table_ok_def fat16_volume_def)
  ultimately show ?thesis
    using fat_readClusterChain_reads [OF mounted _ fat16_chain, of "0x600000" 3] by simp
qed

end
