(* ===== verification/FatFile.thy ===== *)
theory FatFile
  imports FatRead
begin

text \<open>
  Reading a file from any position: the parts \<open>fat_read\<close> splits a read into put the bytes of the file
  together, and where the file pointer is afterwards.
\<close>

section \<open>The data of a file\<close>

definition cluster_bytes :: "FatVolumeInformation \<Rightarrow> nat" where
  "cluster_bytes v = 512 * unat (SectorsPerCluster v)"

lemma file_data_Cons: "file_data v disk (c # cs) = cluster_data v disk c @ file_data v disk cs"
  by (simp add: file_data_def)

lemma file_data_drop:
  assumes "\<And>l. length (disk l) = 512"
  shows "drop (i * cluster_bytes v) (file_data v disk cs) = file_data v disk (drop i cs)"
proof (induction i arbitrary: cs)
  case (Suc i)
  note len = length_file_data(1) [OF assms, of v]
  show ?case
    by (cases cs) (simp_all add: file_data_Cons len cluster_bytes_def Suc [unfolded cluster_bytes_def], simp add: file_data_def)
qed simp

lemma file_data_take:
  assumes "\<And>l. length (disk l) = 512"
  shows "take (k * cluster_bytes v) (file_data v disk cs) = file_data v disk (take k cs)"
proof (induction k arbitrary: cs)
  case 0
  then show ?case by (simp add: file_data_def)
next
  case (Suc k)
  note len = length_file_data(1) [OF assms, of v]
  show ?case
    by (cases cs) (simp_all add: file_data_Cons len cluster_bytes_def Suc [unfolded cluster_bytes_def], simp add: file_data_def)
qed

text \<open>The bytes \<open>p\<close> to \<open>p + n\<close>.\<close>

definition piece :: "nat \<Rightarrow> nat \<Rightarrow> 'a list \<Rightarrow> 'a list" where
  "piece p n xs = take n (drop p xs)"

lemma piece_append: "piece p n xs @ piece (p + n) k xs = piece p (n + k) xs"
  by (simp only: piece_def take_add drop_drop add.commute [of n p])

lemma length_piece: "p + n \<le> length xs \<Longrightarrow> length (piece p n xs) = n"
  by (simp add: piece_def)

lemma piece_clusters:
  assumes "\<And>l. length (disk l) = 512"
  shows "piece (i * cluster_bytes v) (k * cluster_bytes v) (file_data v disk cs) = file_data v disk (take k (drop i cs))"
  by (simp add: piece_def file_data_drop [OF assms] file_data_take [OF assms])

lemma piece_in_cluster:
  assumes "\<And>l. length (disk l) = 512" "i < length cs" "off + n \<le> cluster_bytes v"
  shows "piece (i * cluster_bytes v + off) n (file_data v disk cs) = piece off n (cluster_data v disk (cs ! i))"
proof -
  note len = length_file_data(1) [OF assms(1), of v]
  have "drop i cs = cs ! i # drop (Suc i) cs" using assms(2) by (rule Cons_nth_drop_Suc [symmetric])
  then have "drop (i * cluster_bytes v) (file_data v disk cs)
      = cluster_data v disk (cs ! i) @ file_data v disk (drop (Suc i) cs)"
    by (simp add: file_data_drop [OF assms(1)] file_data_Cons)
  moreover have "drop (i * cluster_bytes v + off) (file_data v disk cs)
      = drop off (drop (i * cluster_bytes v) (file_data v disk cs))"
    by (simp add: add.commute)
  ultimately show ?thesis
    using assms(3) by (simp add: piece_def len cluster_bytes_def)
qed

section \<open>Part of a cluster\<close>

lemma load_bytes_piece:
  assumes "load_bytes m t k = xs" "unat off + n \<le> k"
  shows "load_bytes m (t + off) n = piece (unat off) n xs"
proof (rule nth_equalityI)
  have len: "length xs = k" using assms(1) by (metis length_load_bytes)
  then show "length (load_bytes m (t + off) n) = length (piece (unat off) n xs)"
    using assms(2) by (simp add: piece_def)
  fix i
  assume "i < length (load_bytes m (t + off) n)"
  then have i: "i < n" by simp
  have "xs ! (unat off + i) = m (t + of_nat (unat off + i))"
    using assms i by (metis add_less_cancel_left less_le_trans nth_load_bytes)
  then show "load_bytes m (t + off) n ! i = piece (unat off) n xs ! i"
    using i assms(2) len by (simp add: piece_def add.assoc)
qed

lemma partial_reads:
  assumes vol: "fat_volume mount v disk s" and c: "data_cluster v c"
    and st: "0x7000 + 2048 * unat (SectorsPerCluster v) + 1054 \<le> unat (stack_pointer s)"
      "unat (stack_pointer s) \<le> 0x100000" "unat (stack_pointer s) \<le> unat buf"
    and len: "unat off + unat len \<le> cluster_bytes v" "unat buf + unat len < 4294967296"
  shows "runs (fat_readPartialCluster mount c off len buf) s (\<lambda>done s'. done \<and> only_ram s s' \<and>
    fills (unat (stack_pointer s)) buf (piece (unat off) (unat len) (cluster_data v disk c)) (ram s) (ram s'))"
proof -
  define n where "n = 4 * cluster_size v"
  define t where "t = (stack_pointer s - n) AND NOT 15"
  let ?k = "512 * unat (SectorsPerCluster v)" and ?s = "s\<lparr>stack_pointer := t\<rparr>"
  have spc: "0 < unat (SectorsPerCluster v)" "unat (SectorsPerCluster v) \<le> 127" "VolumeBytesPerSector v = 512"
    using vol by (simp_all add: fat_volume_def)
  then have n: "unat n = 2048 * unat (SectorsPerCluster v)"
    by (simp add: n_def cluster_size_def unat_word_ariths)
  have t: "unat (stack_pointer s) - unat n - 15 \<le> unat t" "unat t + unat n \<le> unat (stack_pointer s)"
    unfolding t_def using st(1) n by (intro stack_place, simp)+
  have "fat_volume mount v disk ?s" using vol by simp
  then have rd: "runs (mount_read mount (cluster_sector v c) (SectorsPerCluster v) t) ?s (\<lambda>done s'. done \<and> only_ram ?s s'
      \<and> load_bytes (ram s') t ?k = cluster_data v disk c \<and> changes_in t ?k (ram s) (ram s'))"
    using volume_read [of mount v disk ?s "SectorsPerCluster v" t "cluster_sector v c"] spc t n st
    by (simp add: cluster_data_sector [OF c])
  have off: "unat (t + off) + unat len \<le> unat (stack_pointer s)"
  proof -
    have "unat (t + off) = unat t + unat off"
      using t(2) n st(2) len(1) by (intro unat_add32) (simp add: cluster_bytes_def)
    then show ?thesis using t(2) n len(1) by (simp add: cluster_bytes_def)
  qed
  have "runs (mount_read mount (cluster_sector v c) (SectorsPerCluster v) t) ?s (\<lambda>done s1.
      runs (if \<not> done then ret False else seq (memcpy_p buf (t + off) len) (ret True)) s1 (\<lambda>done s'. done \<and>
        only_ram s (s'\<lparr>stack_pointer := stack_pointer s\<rparr>) \<and>
        fills (unat (stack_pointer s)) buf (piece (unat off) (unat len) (cluster_data v disk c)) (ram s) (ram s')))"
  proof (rule runs_weaken [OF rd], elim conjE, goal_cases)
    case (1 ok s1)
    have k: "kept_from (unat (stack_pointer s)) (ram s) (ram s1)"
      using t(2) n st(1) by (intro changes_kept [OF 1(4)]) simp_all
    have "load_bytes (ram s1) (t + off) (unat len) = piece (unat off) (unat len) (cluster_data v disk c)"
      using load_bytes_piece [OF 1(3)] len(1) by (simp add: cluster_bytes_def)
    then have "fills (unat (stack_pointer s)) buf (piece (unat off) (unat len) (cluster_data v disk c)) (ram s1)
        (memcpy (ram s1) buf (t + off) len)"
      using memcpy_fills [of "t + off" len buf "unat (stack_pointer s)" "ram s1"] off st(3) len(2) by simp
    with k have f: "fills (unat (stack_pointer s)) buf (piece (unat off) (unat len) (cluster_data v disk c)) (ram s)
        (memcpy (ram s1) buf (t + off) len)" by (rule kept_fills)
    have "only_ram ?s (s1\<lparr>ram := memcpy (ram s1) buf (t + off) len\<rparr>)" by (rule only_ram_trans [OF 1(2)]) simp
    then show ?case using f 1(1) only_ram_stack by fastforce
  qed
  then show ?thesis
    unfolding fat_readPartialCluster_def runs_volume_context [OF vol] runs_stack_array n_def [symmetric] t_def [symmetric]
    by simp
qed

section \<open>An open file\<close>

text \<open>
  A file of the volume that is open at \<open>f\<close>: its clusters are \<open>cs\<close>, and the array its information
  points to holds their numbers, above the stack.
\<close>

definition open_fat_file ::
    "u32 \<Rightarrow> u32 \<Rightarrow> FatVolumeInformation \<Rightarrow> (u64 \<Rightarrow> u8 list) \<Rightarrow> FatFileInfo \<Rightarrow> u32 list \<Rightarrow> u32 \<Rightarrow> 'a filesystems_scheme \<Rightarrow> bool" where
  "open_fat_file f mount v disk fi cs p s \<longleftrightarrow>
     f \<noteq> 0 \<and> mount \<noteq> 0 \<and> (\<forall>mt. mounts s mount = Some mt \<longrightarrow> mount_context mt \<noteq> 0) \<and>
     fat_volume mount v disk s \<and> table_ok v \<and> cs \<noteq> [] \<and> chain v disk (hd cs) cs \<and>
     unat (Filesize fi) \<le> length (file_data v disk cs) \<and>
     (\<exists>file. files s f = Some file \<and> filePointer file = p \<and> file_mount file = mount \<and> fsContext file \<noteq> 0 \<and>
        fat_files s (fsContext file) = Some fi) \<and>
     0x7000 + 2048 * unat (SectorsPerCluster v) + 1054 \<le> unat (stack_pointer s) \<and>
     unat (stack_pointer s) \<le> 0x100000 \<and>
     unat (stack_pointer s) \<le> unat (FATChain fi) \<and> unat (FATChain fi) + 4 * length cs \<le> 4294967296 \<and>
     (\<forall>i < length cs. load32 (ram s) (FATChain fi + 4 * of_nat i) = cs ! i)"

lemma chain_data_clusters: "chain v disk c cs \<Longrightarrow> \<forall>c \<in> set cs. data_cluster v c"
  by (induction cs arbitrary: c) (auto split: if_splits)

lemma open_file_cluster: "open_fat_file f mount v disk fi cs p s \<Longrightarrow> i < length cs \<Longrightarrow> data_cluster v (cs ! i)"
  using chain_data_clusters by (fastforce simp: open_fat_file_def)

text \<open>The array is not in the buffer.\<close>

definition beside_chain :: "FatFileInfo \<Rightarrow> u32 list \<Rightarrow> u32 \<Rightarrow> nat \<Rightarrow> bool" where
  "beside_chain fi cs buf n \<longleftrightarrow>
     unat buf + n \<le> unat (FATChain fi) \<or> unat (FATChain fi) + 4 * length cs \<le> unat buf"

text \<open>What a read changes: memory, and the pointer of the file.\<close>

definition moved :: "u32 \<Rightarrow> u32 \<Rightarrow> 'a filesystems_scheme \<Rightarrow> 'a filesystems_scheme \<Rightarrow> bool" where
  "moved f p s s' \<longleftrightarrow> (\<exists>m k. s' = s\<lparr>ram := m, bios_calls := k, files := (files s)(f := map_option (filePointer_update (\<lambda>_. p)) (files s f))\<rparr>)"

lemma moved_same: "only_ram s s' \<Longrightarrow> files s f = Some file \<Longrightarrow> filePointer file = p \<Longrightarrow> moved f p s s'"
proof -
  assume o: "only_ram s s'" and f: "files s f = Some file" "filePointer file = p"
  have "(files s)(f := map_option (filePointer_update (\<lambda>_. p)) (files s f)) = files s"
    using f by (auto simp: fun_eq_iff)
  with o show ?thesis by (auto simp: only_ram_def moved_def)
qed

lemma moved_trans: "moved f p s s' \<Longrightarrow> moved f p' s' s'' \<Longrightarrow> moved f p' s s''"
proof -
  assume 1: "moved f p s s'" and 2: "moved f p' s' s''"
  have "map_option (filePointer_update (\<lambda>_. p')) (map_option (filePointer_update (\<lambda>_. p)) x)
      = map_option (filePointer_update (\<lambda>_. p')) x" for x :: "FILE option"
    by (cases x) simp_all
  note twice = this
  obtain m k where s': "s' = s\<lparr>ram := m, bios_calls := k,
      files := (files s)(f := map_option (filePointer_update (\<lambda>_. p)) (files s f))\<rparr>"
    using 1 by (auto simp: moved_def)
  obtain m' k' where "s'' = s'\<lparr>ram := m', bios_calls := k',
      files := (files s')(f := map_option (filePointer_update (\<lambda>_. p')) (files s' f))\<rparr>"
    using 2 by (auto simp: moved_def)
  then have "s'' = s\<lparr>ram := m', bios_calls := k',
      files := (files s)(f := map_option (filePointer_update (\<lambda>_. p')) (files s f))\<rparr>"
    by (simp add: s' twice)
  then show ?thesis unfolding moved_def by blast
qed

lemma fat_volume_moved: "moved f p s s' \<Longrightarrow> fat_volume mount v disk s \<Longrightarrow> fat_volume mount v disk s'"
proof -
  assume m: "moved f p s s'" and v: "fat_volume mount v disk s"
  have "reaches s' dev n off" if "reaches s dev n off" for dev n off
    using reaches_same [OF that, of s'] m by (auto simp: moved_def)
  moreover have "bios_answer s' = bios_answer s" "mounts s' = mounts s" "volumes s' = volumes s"
    using m by (auto simp: moved_def)
  ultimately show ?thesis using v bios_drive_same [of s' s] unfolding fat_volume_def device_ready_def by metis
qed

lemma open_fat_file_moved:
  assumes o: "open_fat_file f mount v disk fi cs p s" and m: "moved f p' s s'"
    and fl: "fills (unat (stack_pointer s)) buf xs (ram s) (ram s')" and b: "beside_chain fi cs buf (length xs)"
  shows "open_fat_file f mount v disk fi cs p' s'"
proof -
  have "load32 (ram s') (FATChain fi + 4 * of_nat i) = cs ! i" if i: "i < length cs" for i
  proof -
    let ?a = "FATChain fi + 4 * of_nat i"
    have c: "unat (FATChain fi) + 4 * length cs \<le> 4294967296" "unat (stack_pointer s) \<le> unat (FATChain fi)"
      "load32 (ram s) ?a = cs ! i"
      using o i by (simp_all add: open_fat_file_def)
    have a: "unat (?a + of_nat k) = unat (FATChain fi) + (4 * i + k)" if "k < 4" for k
      using unat_add_of_nat32 [of "FATChain fi" "4 * i + k"] that i c(1) by (simp add: add.assoc)
    have "ram s' (?a + of_nat k) = ram s (?a + of_nat k)" if k: "k < 4" for k
    proof -
      have "\<not> (unat buf \<le> unat (?a + of_nat k) \<and> unat (?a + of_nat k) < unat buf + length xs)"
        unfolding a [OF k] using b i k by (auto simp: beside_chain_def)
      moreover have "unat (stack_pointer s) \<le> unat (?a + of_nat k)" unfolding a [OF k] using c(2) by simp
      ultimately show ?thesis using fl by (simp add: fills_def)
    qed
    then have "load32 (ram s') ?a = load32 (ram s) ?a"
      by (intro load32_cong) (simp add: agree_def)
    then show ?thesis using c(3) by simp
  qed
  moreover have "fat_volume mount v disk s'"
    using fat_volume_moved [OF m] o by (simp add: open_fat_file_def)
  ultimately show ?thesis using o m by (auto simp: open_fat_file_def moved_def)
qed

lemma runs_chain_cluster:
  assumes o: "open_fat_file f mount v disk fi cs p s" and p: "unat q < length cs * cluster_bytes v"
  shows "runs (chain_cluster fi (q div cluster_size v)) s Q \<longleftrightarrow> Q (cs ! (unat q div cluster_bytes v)) s"
proof -
  have size: "unat (cluster_size v) = cluster_bytes v" "0 < cluster_bytes v"
    using o by (simp_all add: open_fat_file_def fat_volume_def cluster_size_def cluster_bytes_def unat_word_ariths)
  have i: "unat q div cluster_bytes v < length cs" using p size(2) by (simp add: less_mult_imp_div_less)
  have "q div cluster_size v = of_nat (unat q div cluster_bytes v)"
    unfolding size(1) [symmetric] unat_div [symmetric] by (simp add: of_nat_unat_same)
  moreover have "FATChain fi \<noteq> 0"
  proof
    assume "FATChain fi = 0"
    then have "unat (stack_pointer s) = 0" using o by (simp add: open_fat_file_def)
    then show False using o by (simp add: open_fat_file_def)
  qed
  ultimately show ?thesis using o i by (simp add: chain_cluster_def open_fat_file_def)
qed

lemma runs_advance:
  "files s f = Some file \<Longrightarrow> runs (advance f n) s Q \<longleftrightarrow>
   Q () (s\<lparr>files := (files s)(f \<mapsto> file\<lparr>filePointer := filePointer file + n\<rparr>)\<rparr>)"
  by (simp add: advance_def get_file_def set_file_def)

lemma moved_advance:
  assumes "moved f p s s'" "files s' f = Some file"
  shows "moved f q s (s'\<lparr>files := (files s')(f \<mapsto> file\<lparr>filePointer := q\<rparr>)\<rparr>)"
proof -
  obtain m k where s': "s' = s\<lparr>ram := m, bios_calls := k,
      files := (files s)(f := map_option (filePointer_update (\<lambda>_. p)) (files s f))\<rparr>"
    using assms(1) by (auto simp: moved_def)
  then obtain old where "files s f = Some old" "file = old\<lparr>filePointer := p\<rparr>" using assms(2) by auto
  then have "s'\<lparr>files := (files s')(f \<mapsto> file\<lparr>filePointer := q\<rparr>)\<rparr> = s\<lparr>ram := m, bios_calls := k,
      files := (files s)(f := map_option (filePointer_update (\<lambda>_. q)) (files s f))\<rparr>"
    by (simp add: s')
  then show ?thesis unfolding moved_def by blast
qed

section \<open>The parts of a read\<close>

lemma transfer_and_advance:
  assumes o: "open_fat_file f mount v disk fi cs p s"
    and r: "runs A s (\<lambda>done s'. done \<and> only_ram s s' \<and> fills h buf xs (ram s) (ram s'))"
  shows "runs A s (\<lambda>done s'. done \<and> runs (advance f n) s' (\<lambda>_ s'. moved f (p + n) s s' \<and> fills h buf xs (ram s) (ram s')))"
proof (rule runs_weaken [OF r], elim conjE, intro conjI, assumption, goal_cases)
  case (1 ok s')
  obtain fl where fl: "files s f = Some fl" "filePointer fl = p"
    using o by (auto simp: open_fat_file_def)
  have f': "files s' f = Some fl" using fl(1) only_ram_fs(3) [OF 1(2)] by simp
  have "moved f (p + n) s (s'\<lparr>files := (files s')(f \<mapsto> fl\<lparr>filePointer := p + n\<rparr>)\<rparr>)"
    using moved_advance [OF moved_same [OF 1(2) fl] f'] .
  then show ?case unfolding runs_advance [OF f'] using 1(3) fl(2) by simp
qed

lemma open_file_sizes:
  assumes "open_fat_file f mount v disk fi cs p s"
  shows "\<And>l. length (disk l) = 512" "unat (cluster_size v) = cluster_bytes v" "0 < cluster_bytes v" "cluster_bytes v \<le> 65024"
    "length (file_data v disk cs) = length cs * cluster_bytes v" "cluster_size v \<noteq> 0"
    "unat (Filesize fi) \<le> length cs * cluster_bytes v"
proof -
  have vol: "fat_volume mount v disk s" using assms by (simp add: open_fat_file_def)
  then show len: "length (disk l) = 512" for l by (rule volume_sector_length)
  show s: "unat (cluster_size v) = cluster_bytes v" "0 < cluster_bytes v" "cluster_bytes v \<le> 65024"
    using vol by (simp_all add: fat_volume_def cluster_size_def cluster_bytes_def unat_word_ariths)
  show d: "length (file_data v disk cs) = length cs * cluster_bytes v"
    using length_file_data(2) [OF len] by (simp add: cluster_bytes_def)
  show "cluster_size v \<noteq> 0" using s by auto
  show "unat (Filesize fi) \<le> length cs * cluster_bytes v" using assms d by (simp add: open_fat_file_def)
qed

text \<open>The number of bytes of the first part: up to the end of the cluster the pointer is in.\<close>

definition head_bytes :: "nat \<Rightarrow> nat \<Rightarrow> nat \<Rightarrow> nat" where
  "head_bytes b p n = (if p mod b = 0 then 0 else min (b - p mod b) n)"

lemma head_bytes_le: "head_bytes b p n \<le> n"
  by (simp add: head_bytes_def)

lemma head_bytes_boundary: "0 < b \<Longrightarrow> head_bytes b p n = n \<or> (p + head_bytes b p n) mod b = 0"
proof (cases "p mod b = 0 \<or> n \<le> b - p mod b")
  case False
  assume "0 < b"
  then have "p mod b \<le> b" by (simp add: less_imp_le)
  then have "p + (b - p mod b) = p div b * b + b" using div_mult_mod_eq [of p b] by linarith
  then show ?thesis using False by (simp add: head_bytes_def)
qed (auto simp: head_bytes_def)

text \<open>A transfer of \<open>l\<close> bytes at the pointer, with what is left of the read.\<close>

definition part_read ::
    "u32 \<Rightarrow> u8 list \<Rightarrow> u32 \<Rightarrow> u32 \<Rightarrow> u32 \<Rightarrow> u32 \<Rightarrow> nat \<Rightarrow> 'a filesystems_scheme \<Rightarrow> (u32 \<times> u32 \<times> u32) option \<Rightarrow> 'a filesystems_scheme \<Rightarrow> bool" where
  "part_read f D p got sz buf l s r s' \<longleftrightarrow>
     r = Some (got + of_nat l, sz - of_nat l, buf + of_nat l) \<and> moved f (p + of_nat l) s s' \<and>
     fills (unat (stack_pointer s)) buf (piece (unat p) l D) (ram s) (ram s')"

lemma part_read_nothing:
  "files s f = Some fl \<Longrightarrow> filePointer fl = p \<Longrightarrow> part_read f D p got sz buf 0 s (Some (got, sz, buf)) s"
  using moved_same [of s s f fl p] by (simp add: part_read_def piece_def)

lemma read_head_part:
  assumes o: "open_fat_file f mount v disk fi cs p s"
    and sz: "unat p + unat sz \<le> unat (Filesize fi)" "unat p < unat (Filesize fi)"
    and b: "unat (stack_pointer s) \<le> unat buf" "unat buf + unat sz < 4294967296"
  shows "runs (read_head f mount fi (cluster_size v) sz buf) s
    (part_read f (file_data v disk cs) p 0 sz buf (head_bytes (cluster_bytes v) (unat p) (unat sz)) s)"
proof -
  note size = open_file_sizes [OF o]
  obtain fl where fl: "files s f = Some fl" "filePointer fl = p"
    using o by (auto simp: open_fat_file_def)
  define off where "off = p mod cluster_size v"
  have off: "unat off = unat p mod cluster_bytes v" by (simp add: off_def unat_mod size(2))
  show ?thesis
  proof (cases "off = 0")
    case True
    then have "unat p mod cluster_bytes v = 0" using off by simp
    then have "head_bytes (cluster_bytes v) (unat p) (unat sz) = 0" by (simp add: head_bytes_def)
    then show ?thesis
      using True fl part_read_nothing [OF fl, of "file_data v disk cs" 0 sz buf]
      by (simp add: read_head_def get_file_def off_def [symmetric])
  next
    case False
    define len where "len = (if cluster_size v - off < sz then cluster_size v - off else sz)"
    define c where "c = cs ! (unat p div cluster_bytes v)"
    have off_lt: "unat off < cluster_bytes v" unfolding off using size(3) by simp
    have rest: "unat (cluster_size v - off) = cluster_bytes v - unat off"
      using off_lt size(2) by (simp add: unat_sub_le word_le_nat_alt)
    have "unat p mod cluster_bytes v \<noteq> 0" using False unfolding off [symmetric] unat_eq_zero .
    then have len: "unat len = head_bytes (cluster_bytes v) (unat p) (unat sz)"
      using rest off by (simp add: len_def head_bytes_def word_less_nat_alt min_def)
    have fit: "unat off + unat len \<le> cluster_bytes v" "unat len \<le> unat sz"
      using rest off_lt by (auto simp: len_def word_less_nat_alt)
    have p: "unat p < length cs * cluster_bytes v" using sz size(7) by linarith
    then have i: "unat p div cluster_bytes v < length cs" by (simp add: less_mult_imp_div_less)
    have "piece (unat p) (unat len) (file_data v disk cs) = piece (unat off) (unat len) (cluster_data v disk c)"
      using piece_in_cluster [OF size(1) i fit(1)] by (simp add: c_def off)
    then have "runs (fat_readPartialCluster mount c off len buf) s (\<lambda>done s'. done \<and> only_ram s s' \<and>
        fills (unat (stack_pointer s)) buf (piece (unat p) (unat len) (file_data v disk cs)) (ram s) (ram s'))"
      using partial_reads [of mount v disk s c buf off len] open_file_cluster [OF o i] o b fit
      by (simp add: open_fat_file_def c_def)
    note step = transfer_and_advance [OF o this, of len]
    have "runs (read_head f mount fi (cluster_size v) sz buf) s Q \<longleftrightarrow>
      runs (fat_readPartialCluster mount c off len buf) s (\<lambda>done s'. if \<not> done then Q None s'
        else runs (advance f len) s' (\<lambda>_. Q (Some (len, sz - len, buf + len))))" for Q
      using False fl
      by (simp add: read_head_def get_file_def off_def [symmetric] len_def [symmetric] runs_chain_cluster [OF o p]
          c_def [symmetric] runs_cases)
    then show ?thesis
      unfolding len [symmetric]
    proof (simp only:, intro runs_weaken [OF step], elim conjE, goal_cases)
      case (1 ok s')
      then show ?case by (simp, elim runs_weaken) (simp add: part_read_def)
    qed
  qed
qed

lemma chain_drop: "chain v disk c cs \<Longrightarrow> i < length cs \<Longrightarrow> chain v disk (cs ! i) (drop i cs)"
proof (induction cs arbitrary: c i)
  case (Cons x xs)
  show ?case
  proof (cases i)
    case 0
    then show ?thesis using Cons.prems by simp
  next
    case (Suc k)
    then have "xs \<noteq> []" using Cons.prems by auto
    then have "chain v disk (next_cluster v disk c) xs" using Cons.prems(1) by (auto split: if_splits)
    then show ?thesis using Cons.IH Suc Cons.prems(2) by simp
  qed
qed simp

lemma read_middle_part:
  assumes o: "open_fat_file f mount v disk fi cs p s"
    and sz: "unat p + unat sz \<le> unat (Filesize fi)" "unat sz = 0 \<or> unat p mod cluster_bytes v = 0"
    and b: "unat (stack_pointer s) \<le> unat buf" "unat buf + unat sz < 4294967296"
  shows "runs (read_middle f mount fi (cluster_size v) (got, sz, buf)) s
    (part_read f (file_data v disk cs) p got sz buf (unat sz div cluster_bytes v * cluster_bytes v) s)"
proof -
  note size = open_file_sizes [OF o]
  obtain fl where fl: "files s f = Some fl" "filePointer fl = p"
    using o by (auto simp: open_fat_file_def)
  define n where "n = sz div cluster_size v"
  have n: "unat n = unat sz div cluster_bytes v" by (simp add: n_def unat_div size(2))
  show ?thesis
  proof (cases "n = 0")
    case True
    then have "unat sz div cluster_bytes v = 0" using n by simp
    then show ?thesis
      using True fl part_read_nothing [OF fl, of "file_data v disk cs" got sz buf]
      by (simp add: read_middle_def Let_def n_def [symmetric])
  next
    case False
    define i where "i = unat p div cluster_bytes v"
    have pos: "0 < n" using False by (simp add: word_greater_zero_iff)
    have n0: "0 < unat n" using False by (simp add: unat_gt_0)
    then have sz0: "sz \<noteq> 0" "unat p mod cluster_bytes v = 0" using n sz(2) by auto
    then have at: "unat p = i * cluster_bytes v" using div_mult_mod_eq [of "unat p" "cluster_bytes v"] by (simp add: i_def)
    have all: "unat n * cluster_bytes v \<le> unat sz" by (simp add: n)
    have "(i + unat n) * cluster_bytes v \<le> length cs * cluster_bytes v"
      using all at sz(1) size(7) by (simp add: add_mult_distrib)
    then have room: "i + unat n \<le> length cs" using size(3) by simp
    have len: "unat (n * cluster_size v) = unat n * cluster_bytes v"
      using all unat_bound32 [of sz] by (simp add: unat_word_ariths size(2) take_bit_nat_eq_self del: unat_bound32)
    have bytes: "file_data v disk (take (unat n) (drop i cs)) = piece (unat p) (unat (n * cluster_size v)) (file_data v disk cs)"
      unfolding len at by (rule piece_clusters [OF size(1), symmetric])
    have "length (piece (unat p) (unat (n * cluster_size v)) (file_data v disk cs)) = unat (n * cluster_size v)"
      using all sz(1) size(5,7) len by (intro length_piece) simp
    then have "runs (fat_readClusterChain mount (cs ! i) n buf) s (\<lambda>done s'. done \<and> only_ram s s' \<and>
        fills (unat (stack_pointer s)) buf (piece (unat p) (unat (n * cluster_size v)) (file_data v disk cs)) (ram s) (ram s'))"
      using chain_reads [of mount v disk s "cs ! i" "drop i cs" buf n] chain_drop [of v disk "hd cs" cs i] o b bytes room n0 len all
      by (simp add: open_fat_file_def)
    note step = transfer_and_advance [OF o this, of "n * cluster_size v"]
    have p: "unat p < length cs * cluster_bytes v"
    proof -
      have "0 < unat sz" using sz0(1) by (simp add: unat_gt_0)
      then show ?thesis using sz(1) size(7) by linarith
    qed
    have "runs (read_middle f mount fi (cluster_size v) (got, sz, buf)) s Q \<longleftrightarrow>
      runs (fat_readClusterChain mount (cs ! i) n buf) s (\<lambda>done s'. if \<not> done then Q None s'
        else runs (advance f (n * cluster_size v)) s'
          (\<lambda>_. Q (Some (got + n * cluster_size v, sz - n * cluster_size v, buf + n * cluster_size v))))" for Q
      using pos sz0(1) fl
      by (simp add: read_middle_def get_file_def Let_def n_def [symmetric] runs_chain_cluster [OF o p] i_def [symmetric]
          runs_cases word_greater_zero_iff)
    then show ?thesis
      unfolding n [symmetric] len [symmetric]
    proof (simp only:, intro runs_weaken [OF step], elim conjE, goal_cases)
      case (1 ok s')
      then show ?case by (simp, elim runs_weaken) (simp add: part_read_def)
    qed
  qed
qed

text \<open>The last part: the pointer stays where it was, since the size is cleared before it is added.\<close>

lemma read_tail_part:
  assumes o: "open_fat_file f mount v disk fi cs p s"
    and sz: "unat p + unat sz \<le> unat (Filesize fi)" "unat sz = 0 \<or> unat p mod cluster_bytes v = 0" "unat sz < cluster_bytes v"
    and b: "unat (stack_pointer s) \<le> unat buf" "unat buf + unat sz < 4294967296"
  shows "runs (read_tail f mount fi (cluster_size v) (got, sz, buf)) s (\<lambda>r s'. r = got + sz \<and> moved f p s s' \<and>
    fills (unat (stack_pointer s)) buf (piece (unat p) (unat sz) (file_data v disk cs)) (ram s) (ram s'))"
proof -
  note size = open_file_sizes [OF o]
  obtain fl where fl: "files s f = Some fl" "filePointer fl = p"
    using o by (auto simp: open_fat_file_def)
  show ?thesis
  proof (cases "sz = 0")
    case True
    then show ?thesis using moved_same [of s s f fl p] fl by (simp add: read_tail_def piece_def)
  next
    case False
    define i where "i = unat p div cluster_bytes v"
    have pos: "0 < sz" "0 < unat sz" using False by (simp_all add: word_greater_zero_iff unat_gt_0)
    then have "unat p mod cluster_bytes v = 0" using sz(2) False by simp
    then have at: "unat p = i * cluster_bytes v" using div_mult_mod_eq [of "unat p" "cluster_bytes v"] by (simp add: i_def)
    have p: "unat p < length cs * cluster_bytes v" using pos(2) sz(1) size(7) by linarith
    then have i: "i < length cs" unfolding i_def by (simp add: less_mult_imp_div_less)
    have "piece (unat p) (unat sz) (file_data v disk cs) = piece 0 (unat sz) (cluster_data v disk (cs ! i))"
      using piece_in_cluster [OF size(1) i, where off = 0 and n = "unat sz"] sz(3) at by simp
    then have "runs (fat_readPartialCluster mount (cs ! i) 0 sz buf) s (\<lambda>done s'. done \<and> only_ram s s' \<and>
        fills (unat (stack_pointer s)) buf (piece (unat p) (unat sz) (file_data v disk cs)) (ram s) (ram s'))"
      using partial_reads [of mount v disk s "cs ! i" buf 0 sz] open_file_cluster [OF o i] o b sz(3)
      by (simp add: open_fat_file_def)
    note step = transfer_and_advance [OF o this, of 0]
    have "runs (read_tail f mount fi (cluster_size v) (got, sz, buf)) s Q \<longleftrightarrow>
      runs (fat_readPartialCluster mount (cs ! i) 0 sz buf) s (\<lambda>done s'. if \<not> done then Q (- 7) s'
        else runs (advance f 0) s' (\<lambda>_. Q (got + sz)))" for Q
      using pos(1) fl
      by (simp add: read_tail_def get_file_def runs_chain_cluster [OF o p] i_def [symmetric] runs_cases)
    then show ?thesis
    proof (simp only:, intro runs_weaken [OF step], elim conjE, goal_cases)
      case (1 ok s')
      then show ?case by simp
    qed
  qed
qed

section \<open>The whole read\<close>

text \<open>After \<open>k\<close> bytes of a read of \<open>n\<close> bytes at \<open>p\<close>.\<close>

definition reading :: "u32 \<Rightarrow> u8 list \<Rightarrow> u32 \<Rightarrow> u32 \<Rightarrow> nat \<Rightarrow> 'a filesystems_scheme \<Rightarrow> 'a filesystems_scheme \<Rightarrow> bool" where
  "reading f D p buf k s s' \<longleftrightarrow> moved f (p + of_nat k) s s' \<and>
     fills (unat (stack_pointer s)) buf (piece (unat p) k D) (ram s) (ram s')"

lemma reading_start: "files s f = Some fl \<Longrightarrow> filePointer fl = p \<Longrightarrow> reading f D p buf 0 s s"
  using moved_same [of s s f fl p] by (simp add: reading_def piece_def)

lemma moved_stack: "moved f p s s' \<Longrightarrow> stack_pointer s' = stack_pointer s"
  by (auto simp: moved_def)

lemma reading_fills:
  assumes "reading f D p buf k s s1" "moved f (p + of_nat k') s1 s2"
    and "fills (unat (stack_pointer s)) (buf + of_nat k) (piece (unat p + k) l D) (ram s1) (ram s2)"
    and "unat p + k + l \<le> length D" "unat (stack_pointer s) \<le> unat buf" "unat buf + k + l < 4294967296"
  shows "moved f (p + of_nat k') s s2" "fills (unat (stack_pointer s)) buf (piece (unat p) (k + l) D) (ram s) (ram s2)"
proof -
  show "moved f (p + of_nat k') s s2" using assms(1,2) moved_trans by (auto simp: reading_def)
  have len: "length (piece (unat p) k D) = k" "length (piece (unat p + k) l D) = l"
    using assms(4) by (simp_all add: length_piece)
  show "fills (unat (stack_pointer s)) buf (piece (unat p) (k + l) D) (ram s) (ram s2)"
    unfolding piece_append [symmetric]
    by (rule fills_append) (use assms len in \<open>simp_all add: reading_def\<close>)
qed

lemma reading_step:
  assumes r: "reading f D p buf k s s1"
    and s: "part_read f D (p + of_nat k) got sz (buf + of_nat k) l s1 r s2"
    and b: "unat p + k + l \<le> length D" "unat (stack_pointer s) \<le> unat buf" "unat buf + k + l < 4294967296"
      "unat (p + of_nat k) = unat p + k"
  shows "reading f D p buf (k + l) s s2" "r = Some (got + of_nat l, sz - of_nat l, buf + of_nat (k + l))"
proof -
  have sp: "stack_pointer s1 = stack_pointer s" using r moved_stack by (auto simp: reading_def)
  show "reading f D p buf (k + l) s s2"
    using reading_fills [OF r _ _ b(1-3), of "k + l" s2] s sp b(4)
    by (simp add: reading_def part_read_def add.assoc)
  show "r = Some (got + of_nat l, sz - of_nat l, buf + of_nat (k + l))"
    using s by (simp add: part_read_def add.assoc)
qed

lemma reading_open:
  assumes "open_fat_file f mount v disk fi cs p s" "reading f (file_data v disk cs) p buf k s s1"
    and "beside_chain fi cs buf n" "k \<le> n" "unat p + k \<le> length (file_data v disk cs)"
  shows "open_fat_file f mount v disk fi cs (p + of_nat k) s1"
proof (rule open_fat_file_moved [OF assms(1)])
  show "moved f (p + of_nat k) s s1"
    "fills (unat (stack_pointer s)) buf (piece (unat p) k (file_data v disk cs)) (ram s) (ram s1)"
    using assms(2) by (simp_all add: reading_def)
  show "beside_chain fi cs buf (length (piece (unat p) k (file_data v disk cs)))"
    using assms(3-5) by (auto simp: beside_chain_def length_piece)
qed

text \<open>
  Where the pointer is afterwards. A read that ends in the cluster it began in, but not at its start,
  moves it by the bytes read; any other read leaves it at the last cluster boundary.
\<close>

definition pointer_after :: "nat \<Rightarrow> nat \<Rightarrow> nat \<Rightarrow> nat" where
  "pointer_after b p n = (if p mod b \<noteq> 0 \<and> (p + n) div b = p div b then p + n else p + n - (p + n) mod b)"

lemma pointer_after_parts:
  assumes "0 < b"
  shows "p + head_bytes b p n + (n - head_bytes b p n) div b * b = pointer_after b p n"
proof -
  let ?l = "head_bytes b p n"
  have whole: "p + ?l + (n - ?l) div b * b = p + n - (p + n) mod b" if "(p + ?l) mod b = 0"
  proof -
    have e: "p + n = (p + ?l) + (n - ?l)" using head_bytes_le [of b p n] by simp
    have "(p + ?l + (n - ?l)) mod b = (n - ?l) mod b"
      using that by (subst mod_add_left_eq [symmetric]) simp
    then have "(p + n) mod b = (n - ?l) mod b" by (subst e)
    moreover have "(n - ?l) div b * b = (n - ?l) - (n - ?l) mod b" by (rule minus_mod_eq_div_mult [symmetric])
    moreover have "(n - ?l) mod b \<le> n - ?l" by simp
    ultimately show ?thesis using head_bytes_le [of b p n] by linarith
  qed
  show ?thesis
  proof (cases "p mod b = 0")
    case True
    then show ?thesis using whole by (simp add: head_bytes_def pointer_after_def)
  next
    case False
    have split: "p = p div b * b + p mod b" "p mod b < b" using assms by simp_all
    show ?thesis
    proof (cases "n < b - p mod b")
      case True
      then have "(p + n) div b = p div b"
      proof -
        have "p mod b + n < b" using True split(2) by linarith
        moreover have "(p div b * b + (p mod b + n)) div b = p div b + (p mod b + n) div b"
          using assms by (intro div_mult_self3) simp
        ultimately have "(p div b * b + (p mod b + n)) div b = p div b" by simp
        moreover have "p div b * b + (p mod b + n) = p + n" by simp
        ultimately show ?thesis by (simp only:)
      qed
      then show ?thesis using True False by (simp add: head_bytes_def pointer_after_def)
    next
      case far: False
      then have l: "?l = b - p mod b" using False by (simp add: head_bytes_def)
      have "p + ?l = (p div b + 1) * b"
        using split l by (simp only: add_mult_distrib)
      then have "(p + ?l) mod b = 0" "(p div b + 1) * b \<le> p + n" using far l by simp_all
      then have "p div b + 1 \<le> (p + n) div b" using assms by (metis div_le_mono nonzero_mult_div_cancel_right not_less0)
      then show ?thesis using whole [OF \<open>(p + ?l) mod b = 0\<close>] by (simp add: pointer_after_def)
    qed
  qed
qed

lemma fat_read_steps:
  assumes o: "open_fat_file f mount v disk fi cs p s"
    and p: "unat p < unat (Filesize fi)" "unat p + unat sz \<le> unat (Filesize fi)"
    and b: "unat (stack_pointer s) \<le> unat buf" "unat buf + unat sz < 4294967296" "beside_chain fi cs buf (unat sz)"
  shows "runs (bnd (read_head f mount fi (cluster_size v) sz buf) (\<lambda>r. case r of None \<Rightarrow> ret (- 5)
      | Some r \<Rightarrow> bnd (read_middle f mount fi (cluster_size v) r) (\<lambda>r. case r of None \<Rightarrow> ret 0
      | Some r \<Rightarrow> read_tail f mount fi (cluster_size v) r))) s
    (\<lambda>r s'. r = sz \<and> moved f (of_nat (pointer_after (cluster_bytes v) (unat p) (unat sz))) s s' \<and>
      fills (unat (stack_pointer s)) buf (piece (unat p) (unat sz) (file_data v disk cs)) (ram s) (ram s'))"
proof -
  define D where "D = file_data v disk cs"
  define c where "c = cluster_bytes v"
  define n where "n = unat sz"
  define l1 where "l1 = head_bytes c (unat p) n"
  define l2 where "l2 = (n - l1) div c * c"
  note size = open_file_sizes [OF o]
  have c: "0 < c" using size(3) by (simp add: c_def)
  have l1: "l1 \<le> n" "l1 = n \<or> (unat p + l1) mod c = 0"
    using head_bytes_le head_bytes_boundary [OF c] by (simp_all add: l1_def)
  have l2: "l1 + l2 \<le> n" "n - (l1 + l2) < c" "n - (l1 + l2) = 0 \<or> (unat p + (l1 + l2)) mod c = 0"
  proof -
    have d: "l2 = (n - l1) - (n - l1) mod c" "(n - l1) mod c \<le> n - l1" "(n - l1) mod c < c"
      using c by (simp_all add: l2_def minus_mod_eq_div_mult)
    then show "l1 + l2 \<le> n" "n - (l1 + l2) < c" using l1(1) by simp_all
    have "(unat p + l1 + l2) mod c = (unat p + l1) mod c" by (simp add: l2_def)
    then show "n - (l1 + l2) = 0 \<or> (unat p + (l1 + l2)) mod c = 0" using l1(2) by (auto simp: l2_def add.assoc)
  qed
  have D: "unat p + n \<le> length D" using p(2) size(5,7) by (simp add: n_def D_def)
  have small: "unat p + n < 4294967296" using p(2) unat_bound32 [of "Filesize fi"] by (simp add: n_def del: unat_bound32)
  have at: "unat (p + of_nat k) = unat p + k" "unat (buf + of_nat k) = unat buf + k" "unat (sz - of_nat k) = n - k" if "k \<le> n" for k
  proof -
    show "unat (p + of_nat k) = unat p + k" "unat (buf + of_nat k) = unat buf + k"
      using that small b(2) by (auto intro!: unat_add_of_nat32 simp: n_def)
    have "unat (of_nat k :: u32) = k" using that small by (simp add: unat_of_nat32)
    then show "unat (sz - of_nat k) = n - k" using that by (simp add: unat_sub_le word_le_nat_alt n_def)
  qed
  obtain fl where fl: "files s f = Some fl" "filePointer fl = p"
    using o by (auto simp: open_fat_file_def)
  have 1: "runs (read_head f mount fi (cluster_size v) sz buf) s (\<lambda>r s1.
      r = Some (of_nat l1, sz - of_nat l1, buf + of_nat l1) \<and> reading f D p buf l1 s s1)"
  proof (rule runs_weaken [OF read_head_part [OF o p(2,1) b(1,2)]])
    fix r s1
    assume "part_read f (file_data v disk cs) p 0 sz buf (head_bytes (cluster_bytes v) (unat p) (unat sz)) s r s1"
    then have r: "part_read f D (p + of_nat 0) 0 sz (buf + of_nat 0) l1 s r s1" by (simp add: D_def c_def n_def l1_def)
    show "r = Some (of_nat l1, sz - of_nat l1, buf + of_nat l1) \<and> reading f D p buf l1 s s1"
      using reading_step [OF reading_start [OF fl] r] l1(1) D b by (simp add: n_def)
  qed
  have 2: "runs (read_middle f mount fi (cluster_size v) (of_nat l1, sz - of_nat l1, buf + of_nat l1)) s1 (\<lambda>r s2.
      r = Some (of_nat (l1 + l2), sz - of_nat (l1 + l2), buf + of_nat (l1 + l2)) \<and> reading f D p buf (l1 + l2) s s2)"
    if s1: "reading f D p buf l1 s s1" for s1
  proof -
    have o1: "open_fat_file f mount v disk fi cs (p + of_nat l1) s1"
      using reading_open [OF o _ b(3), of l1 s1] s1 l1(1) D by (simp add: D_def n_def)
    have sp: "stack_pointer s1 = stack_pointer s" using s1 moved_stack by (auto simp: reading_def)
    have "runs (read_middle f mount fi (cluster_size v) (of_nat l1, sz - of_nat l1, buf + of_nat l1)) s1
        (part_read f D (p + of_nat l1) (of_nat l1) (sz - of_nat l1) (buf + of_nat l1) l2 s1)"
      using read_middle_part [OF o1, of "sz - of_nat l1" "buf + of_nat l1" "of_nat l1"] at [OF l1(1)] l1 p(2) b sp
      by (auto simp: D_def [symmetric] c_def [symmetric] n_def [symmetric] l2_def)
    then show ?thesis
    proof (rule runs_weaken)
      fix r s2
      assume r: "part_read f D (p + of_nat l1) (of_nat l1) (sz - of_nat l1) (buf + of_nat l1) l2 s1 r s2"
      show "r = Some (of_nat (l1 + l2), sz - of_nat (l1 + l2), buf + of_nat (l1 + l2)) \<and> reading f D p buf (l1 + l2) s s2"
        using reading_step [OF s1 r] at(1) [OF l1(1)] l2(1) D b by (simp add: n_def algebra_simps)
    qed
  qed
  have 3: "runs (read_tail f mount fi (cluster_size v) (of_nat (l1 + l2), sz - of_nat (l1 + l2), buf + of_nat (l1 + l2))) s2
      (\<lambda>r s3. r = sz \<and> moved f (p + of_nat (l1 + l2)) s s3 \<and>
        fills (unat (stack_pointer s)) buf (piece (unat p) n D) (ram s) (ram s3))"
    if s2: "reading f D p buf (l1 + l2) s s2" for s2
  proof -
    have o2: "open_fat_file f mount v disk fi cs (p + of_nat (l1 + l2)) s2"
      using reading_open [OF o _ b(3), of "l1 + l2" s2] s2 l2(1) D by (simp only: D_def n_def)
    have sp: "stack_pointer s2 = stack_pointer s" using s2 moved_stack by (auto simp: reading_def)
    have "runs (read_tail f mount fi (cluster_size v) (of_nat (l1 + l2), sz - of_nat (l1 + l2), buf + of_nat (l1 + l2))) s2
      (\<lambda>r s3. r = of_nat (l1 + l2) + (sz - of_nat (l1 + l2)) \<and> moved f (p + of_nat (l1 + l2)) s2 s3 \<and>
        fills (unat (stack_pointer s)) (buf + of_nat (l1 + l2)) (piece (unat p + (l1 + l2)) (n - (l1 + l2)) D) (ram s2) (ram s3))"
      using read_tail_part [OF o2, of "sz - of_nat (l1 + l2)" "buf + of_nat (l1 + l2)" "of_nat (l1 + l2)"]
        at [OF l2(1)] l2 p(2) b sp
      by (auto simp del: of_nat_add simp: D_def [symmetric] c_def [symmetric] n_def [symmetric])
    then show ?thesis
    proof (rule runs_weaken, elim conjE)
      fix r s3
      assume r: "r = of_nat (l1 + l2) + (sz - of_nat (l1 + l2))" and m: "moved f (p + of_nat (l1 + l2)) s2 s3"
        and fl: "fills (unat (stack_pointer s)) (buf + of_nat (l1 + l2)) (piece (unat p + (l1 + l2)) (n - (l1 + l2)) D) (ram s2) (ram s3)"
      show "r = sz \<and> moved f (p + of_nat (l1 + l2)) s s3 \<and>
          fills (unat (stack_pointer s)) buf (piece (unat p) n D) (ram s) (ram s3)"
        using reading_fills [OF s2 m fl] r l2(1) D b(1,2) by (simp add: n_def)
    qed
  qed
  have q: "p + of_nat (l1 + l2) = of_nat (pointer_after c (unat p) n)"
    using pointer_after_parts [OF c, of "unat p" n] unfolding l1_def [symmetric] l2_def [symmetric]
    by (metis of_nat_add of_nat_unat_same add.assoc)
  show ?thesis
    unfolding runs_bnd
    apply (rule runs_weaken [OF 1])
    apply (auto simp: runs_cases simp del: of_nat_add)
    apply (rule runs_weaken [OF 2])
     apply assumption
    apply (auto simp: runs_cases simp del: of_nat_add)
    using 3 q n_def c_def D_def by auto
qed


definition fat16_file :: FatFileInfo where
  "fat16_file = \<lparr>Attributes = 0x20, Filesize = 900, FATChain = 0x700000\<rparr>"

definition fat16_open :: filesystems where
  "fat16_open = fat16_machine\<lparr>ram := store32 (store32 empty_ram 0x700000 5) 0x700004 7,
     files := (\<lambda>_. None)(0x800000 \<mapsto> \<lparr>file_mount = 0x300000, fsContext = 0x900000, filePointer = 100\<rparr>),
     fat_files := (\<lambda>_. None)(0x900000 \<mapsto> fat16_file)\<rparr>"

lemma fat16_open_ok: "open_fat_file 0x800000 0x300000 fat16_volume fat16_disk fat16_file [5, 7] 100 fat16_open"
proof -
  have "fat_volume 0x300000 fat16_volume fat16_disk fat16_open"
    by (rule fat16_mounted) (simp_all add: fat16_open_def fat16_machine_def fat16_disk_length)
  moreover have "length (file_data fat16_volume fat16_disk [5, 7]) = 1024"
    by (subst length_file_data(2) [OF fat16_disk_length]) (simp add: fat16_volume_def)
  moreover have "load32 (store32 (store32 empty_ram 0x700000 5) 0x700004 7) 0x700000 = 5"
    by (simp add: c32.load_store_sep)
  moreover have "table_ok fat16_volume" "unat (SectorsPerCluster fat16_volume) = 1"
    by (simp_all add: table_ok_def fat16_volume_def)
  ultimately show ?thesis
    using fat16_chain unfolding open_fat_file_def
    by (simp add: All_less_Suc fat16_open_def fat16_file_def fat16_machine_def fat16_mount_def
        del: chain.simps)
qed


section \<open>Seeking\<close>

text \<open>The position a seek is meant to go to, from its origin, kept inside the file.\<close>

definition seek_origin :: "u32 \<Rightarrow> u32 \<Rightarrow> SeekMode \<Rightarrow> int" where
  "seek_origin pos filesize mode = (case mode of SEEK_SET \<Rightarrow> 0 | SEEK_END \<Rightarrow> uint filesize | SEEK_CUR \<Rightarrow> uint pos)"

definition clamp :: "int \<Rightarrow> int \<Rightarrow> int" where
  "clamp hi x = max 0 (min hi x)"

lemma sint_range32: "- 2147483648 \<le> sint (w :: u32)" "sint (w :: u32) < 2147483648"
  using sint_range_size [of w] by (simp_all add: word_size)

lemma uint_range32: "uint (w :: u32) < 4294967296"
  using uint_lt2p [of w] by simp

lemma uint_add_signed:
  fixes x off :: u32
  assumes "0 \<le> uint x + sint off" "uint x + sint off < 4294967296"
  shows "uint (x + off) = uint x + sint off"
proof -
  have "x + off = of_int (uint x + sint off)" by simp
  then have "uint (x + off) = (uint x + sint off) mod 4294967296"
    by (simp only: uint_word_of_int) (simp add: take_bit_eq_mod)
  then show ?thesis using assms by simp
qed

lemma seek_target_in_file: "seek_target pos filesize offset mode \<le> filesize"
proof (cases mode)
  case SEEK_SET
  have "uint offset = sint offset" if "0 \<le> sint offset"
    using uint_add_signed [of 0 offset] that sint_range32 [of offset] by simp
  then show ?thesis using SEEK_SET by (auto simp: seek_target_def word_le_def)
next
  case SEEK_END
  have "uint (filesize + offset) = uint filesize + sint offset" if "sint offset < 0" "0 \<le> uint filesize + sint offset"
    using uint_add_signed [of filesize offset] that uint_range32 [of filesize] by simp
  then show ?thesis using SEEK_END by (auto simp: seek_target_def word_le_def)
qed (auto simp: seek_target_def)

lemma seek_target_clamp:
  assumes "uint pos + sint offset < 4294967296"
  shows "uint (seek_target pos filesize offset mode) = clamp (uint filesize) (seek_origin pos filesize mode + sint offset)"
proof (cases mode)
  case SEEK_SET
  have "uint offset = sint offset" if "0 \<le> sint offset"
    using uint_add_signed [of 0 offset] that sint_range32 [of offset] by simp
  then show ?thesis using SEEK_SET by (auto simp: seek_target_def seek_origin_def clamp_def)
next
  case SEEK_END
  have "uint (filesize + offset) = uint filesize + sint offset" if "sint offset < 0" "0 \<le> uint filesize + sint offset"
    using uint_add_signed [of filesize offset] that uint_range32 [of filesize] by simp
  then show ?thesis using SEEK_END by (auto simp: seek_target_def seek_origin_def clamp_def)
next
  case SEEK_CUR
  have "uint (pos + offset) = uint pos + sint offset" if "0 \<le> uint pos + sint offset"
    using uint_add_signed [of pos offset] that assms by simp
  then show ?thesis using SEEK_CUR by (auto simp: seek_target_def seek_origin_def clamp_def word_less_def)
qed

text \<open>C38. \<open>fat_seek\<close> of an open file sets its pointer and changes nothing else. The pointer stays inside
  the file for every offset and every origin, and it is the position asked for, cut off at both ends of
  the file, as long as position and offset do not add up to 4 GB.\<close>

theorem fat_seek_in_file:
  assumes "f \<noteq> 0" "files s f = Some fl" "fsContext fl \<noteq> 0" "fat_files s (fsContext fl) = Some fi"
  shows "runs (fat_seek f offset mode) s (\<lambda>_ s'. \<exists>q. s' = s\<lparr>files := (files s)(f \<mapsto> fl\<lparr>filePointer := q\<rparr>)\<rparr> \<and>
    q \<le> Filesize fi \<and>
    (uint (filePointer fl) + sint offset < 4294967296 \<longrightarrow>
       uint q = clamp (uint (Filesize fi)) (seek_origin (filePointer fl) (Filesize fi) mode + sint offset)))"
  using assms seek_target_in_file seek_target_clamp
  by (fastforce simp: fat_seek_def get_file_def get_fat_file_def set_file_def)

theorem fat_seek_in_file_witness:
  "runs (fat_seek 0x800000 (- 300) SEEK_CUR) fat16_open (\<lambda>_ s'. \<exists>q.
    s' = fat16_open\<lparr>files := (files fat16_open)(0x800000 \<mapsto> \<lparr>file_mount = 0x300000, fsContext = 0x900000, filePointer = q\<rparr>)\<rparr> \<and>
    q \<le> 900 \<and> uint q = 0)"
proof -
  have "sint (- 300 :: u32) = - 300" by simp
  then show ?thesis
    using fat_seek_in_file [of "0x800000" fat16_open "\<lparr>file_mount = 0x300000, fsContext = 0x900000, filePointer = 100\<rparr>" fat16_file
        "- 300" SEEK_CUR]
    by (simp add: fat16_open_def fat16_file_def clamp_def seek_origin_def)
qed

end
