(* ===== verification/FatChain.thy ===== *)
theory FatChain
  imports FatRead
begin

text \<open>
  The chain of a file: counting its clusters, and the array of their numbers that is kept with an open
  file. The heap the array comes from is the one of the loader.
\<close>

section \<open>Counting the clusters of a chain\<close>

definition entry_room :: "'a filesystems_scheme \<Rightarrow> bool" where
  "entry_room s \<longleftrightarrow> 0x7000 + 1039 \<le> unat (stack_pointer s) \<and> unat (stack_pointer s) \<le> 0x100000"

lemma entry_room_ram: "only_ram s s' \<Longrightarrow> entry_room s' = entry_room s"
  by (simp add: entry_room_def only_ram_same)

lemma count_step:
  assumes "\<not> end_of_chain v c"
  shows "runs (count_clusters_loop mount v c i) s Q \<longleftrightarrow>
    runs (fat_getFatEntry mount c) s (\<lambda>r s'. case r of None \<Rightarrow> Q 0 s' | Some c \<Rightarrow> runs (count_clusters_loop mount v c (i + 1)) s' Q)"
proof -
  have "count_clusters_loop mount v c i s = bnd (fat_getFatEntry mount c) (\<lambda>r. case r of
      None \<Rightarrow> ret 0 | Some c \<Rightarrow> count_clusters_loop mount v c (i + 1)) s"
    by (subst count_clusters_loop.simps, simp add: assms, rule arg_cong [where f = "\<lambda>f. bnd _ f s"])
      (intro ext, simp split: option.splits)
  then show ?thesis
    unfolding runs_def [of "count_clusters_loop mount v c i"] by (simp add: runs_def [symmetric] runs_cases cong: option.case_cong)
qed

lemma count_end: "end_of_chain v c \<Longrightarrow> runs (count_clusters_loop mount v c i) s Q \<longleftrightarrow> Q i s"
  unfolding runs_def by (subst count_clusters_loop.simps) (simp add: ret_def)

lemma getFatEntry_entry:
  assumes "fat_volume mount v disk s" "table_ok v" "entry_room s" "data_cluster v c"
  shows "runs (fat_getFatEntry mount c) s (\<lambda>r s'. r = Some (next_cluster v disk c) \<and> only_ram s s'
    \<and> kept_from (unat (stack_pointer s)) (ram s) (ram s'))"
  using fat_getFatEntry_decodes [OF assms(1,2)] assms(3,4) by (simp add: entry_room_def data_cluster_def)

lemma count_chain:
  assumes "fat_volume mount v disk s" "table_ok v" "entry_room s" "chain v disk c cs" "\<not> end_of_chain v c"
  shows "runs (count_clusters_loop mount v c i) s (\<lambda>r s'. r = i + of_nat (length cs) \<and> only_ram s s'
    \<and> kept_from (unat (stack_pointer s)) (ram s) (ram s'))"
  using assms(1,3-5)
proof (induction cs arbitrary: c i s)
  case Nil
  then show ?case by simp
next
  case (Cons x xs)
  let ?next = "next_cluster v disk c" and ?h = "unat (stack_pointer s)"
  have c: "data_cluster v c" and xs: "if end_of_chain v ?next then xs = [] else chain v disk ?next xs"
    using Cons.prems(3) by simp_all
  have tail: "runs (count_clusters_loop mount v ?next (i + 1)) s' (\<lambda>r s''. r = i + of_nat (length (x # xs)) \<and> only_ram s s''
      \<and> kept_from ?h (ram s) (ram s''))"
    if o: "only_ram s s'" and k: "kept_from ?h (ram s) (ram s')" for s'
  proof (cases "end_of_chain v ?next")
    case True
    then show ?thesis using o k xs by (simp add: count_end)
  next
    case False
    have "runs (count_clusters_loop mount v ?next (i + 1)) s' (\<lambda>r s''. r = i + 1 + of_nat (length xs) \<and> only_ram s' s''
        \<and> kept_from (unat (stack_pointer s')) (ram s') (ram s''))"
      using Cons.IH [of s' ?next "i + 1"] fat_volume_same [OF Cons.prems(1) o] entry_room_ram [OF o] Cons.prems(2) xs False by simp
    then show ?thesis
      by (rule runs_weaken) (use o k only_ram_same(2) [OF o] in \<open>auto intro: only_ram_trans kept_from_trans\<close>)
  qed
  show ?case
    unfolding count_step [OF Cons.prems(4)]
    by (rule runs_weaken [OF getFatEntry_entry [OF Cons.prems(1) assms(2) Cons.prems(2) c]]) (use tail in simp)
qed

text \<open>A chain that never ends is followed for ever.\<close>

definition endless :: "FatVolumeInformation \<Rightarrow> (u64 \<Rightarrow> u8 list) \<Rightarrow> u32 \<Rightarrow> bool" where
  "endless v disk c \<longleftrightarrow> (\<forall>k. data_cluster v ((next_cluster v disk ^^ k) c) \<and> \<not> end_of_chain v ((next_cluster v disk ^^ k) c))"

lemma endless_step: "endless v disk c \<Longrightarrow> data_cluster v c \<and> \<not> end_of_chain v c \<and> endless v disk (next_cluster v disk c)"
  unfolding endless_def by (metis funpow_0 funpow_swap1 funpow_simps_right(2) o_apply)

lemma count_endless:
  assumes "count_clusters_loop mount v c i s = Some y"
  shows "fat_volume mount v disk s \<and> table_ok v \<and> entry_room s \<longrightarrow> \<not> endless v disk c"
proof (rule count_clusters_loop.raw_induct [OF _ assms], intro impI notI)
  fix loop :: "u32 \<Rightarrow> FatVolumeInformation \<Rightarrow> u32 \<Rightarrow> u32 \<Rightarrow> 'a filesystems_scheme \<Rightarrow> (fault + u32 \<times> 'a filesystems_scheme) option"
    and mount v c i s y
  assume IH: "\<And>mount v c i s y. loop mount v c i s = Some y \<Longrightarrow>
      fat_volume mount v disk s \<and> table_ok v \<and> entry_room s \<longrightarrow> \<not> endless v disk c"
    and body: "(if end_of_chain v c then ret i s else bnd (fat_getFatEntry mount c)
      (\<lambda>r s. case r of None \<Rightarrow> ret 0 s | Some c \<Rightarrow> loop mount v c (i + 1) s) s) = Some y"
    and pre: "fat_volume mount v disk s \<and> table_ok v \<and> entry_room s" and e: "endless v disk c"
  have c: "data_cluster v c" "\<not> end_of_chain v c" "endless v disk (next_cluster v disk c)"
    using endless_step [OF e] by simp_all
  obtain s1 where s1: "fat_getFatEntry mount c s = Some (Inr (Some (next_cluster v disk c), s1))" "only_ram s s1"
    using getFatEntry_entry [of mount v disk s c] pre c(1) by (auto simp: runs_def)
  have "loop mount v (next_cluster v disk c) (i + 1) s1 = Some y"
    using body c(2) s1(1) by (simp add: bnd_def)
  then have "\<not> endless v disk (next_cluster v disk c)"
    using IH fat_volume_same [OF _ s1(2)] entry_room_ram [OF s1(2)] pre by blast
  with c(3) show False by simp
qed

text \<open>C34. \<open>fat_countClustersInChain\<close> returns the number of clusters of a chain that ends, and does not return
  on one that does not, such as a chain that a damaged table closes to a circle.\<close>

theorem count_clusters_terminates:
  assumes "fat_volume mount v disk s" "table_ok v" "entry_room s"
  shows "(chain v disk c cs \<and> \<not> end_of_chain v c \<longrightarrow>
      runs (fat_countClustersInChain mount c) s (\<lambda>n s'. n = of_nat (length cs) \<and> only_ram s s' \<and>
        kept_from (unat (stack_pointer s)) (ram s) (ram s')))
    \<and> (endless v disk c \<longrightarrow> fat_countClustersInChain mount c s = None)"
proof (intro conjI impI)
  show "runs (fat_countClustersInChain mount c) s (\<lambda>n s'. n = of_nat (length cs) \<and> only_ram s s' \<and>
      kept_from (unat (stack_pointer s)) (ram s) (ram s'))" if "chain v disk c cs \<and> \<not> end_of_chain v c"
    using count_chain [OF assms, of c cs 0] that
    unfolding fat_countClustersInChain_def runs_volume_context [OF assms(1)] by simp
  show "fat_countClustersInChain mount c s = None" if "endless v disk c"
  proof -
    have "fat_countClustersInChain mount c s = count_clusters_loop mount v c 0 s"
      by (simp add: fat_countClustersInChain_def volume_context [OF assms(1)])
    then show ?thesis using count_endless [of mount v c 0 s _ disk] that assms by (cases "count_clusters_loop mount v c 0 s") auto
  qed
qed

section \<open>The array of a chain\<close>

text \<open>The bytes of a word, the low byte first.\<close>

definition le32 :: "u32 \<Rightarrow> u8 list" where
  "le32 w = [ucast w, ucast (drop_bit 8 w), ucast (drop_bit 16 w), ucast (drop_bit 24 w)]"

lemma length_le32 [simp]: "length (le32 w) = 4"
  by (simp add: le32_def)

lemma load_bytes_store32: "load_bytes (store32 m a w) a 4 = le32 w"
  by (simp add: load_bytes_def store32_def le32_def upt_rec)

lemma load32_le32: "load_bytes m a 4 = le32 w \<Longrightarrow> load32 m a = w"
proof -
  assume "load_bytes m a 4 = le32 w"
  then have "load_bytes m a 4 = load_bytes (store32 m a w) a 4" by (simp only: load_bytes_store32)
  then show ?thesis by (simp only: load_bytes_eq_iff load32_cong load32_store32)
qed

lemma store32_fills: "unat a + 4 \<le> 4294967296 \<Longrightarrow> fills h a (le32 w) m (store32 m a w)"
proof -
  assume a: "unat a + 4 \<le> 4294967296"
  have "store32 m a w x = m x" if "\<not> (unat a \<le> unat x \<and> unat x < unat a + 4)" for x
  proof -
    have "sep a 4 x 1"
    proof (cases "unat x < unat a")
      case True
      with a show ?thesis by (intro sep_above) simp_all
    next
      case False
      with that show ?thesis by (intro sep_below) (simp_all add: Suc_le_eq)
    qed
    from store32_frame [OF this, of m w] show ?thesis by (simp add: agree_def)
  qed
  then show ?thesis by (simp add: fills_def load_bytes_store32)
qed

definition le32s :: "u32 list \<Rightarrow> u8 list" where
  "le32s ws = concat (map le32 ws)"

lemma le32s_simps [simp]: "le32s [] = []" "le32s (w # ws) = le32 w @ le32s ws" "length (le32s ws) = 4 * length ws"
  by (induction ws) (simp_all add: le32s_def)

lemma load32_le32s: "load_bytes m a (4 * length ws) = le32s ws \<Longrightarrow> i < length ws \<Longrightarrow> load32 m (a + 4 * of_nat i) = ws ! i"
proof (induction ws arbitrary: a i)
  case (Cons w ws)
  have "load_bytes m a 4 @ load_bytes m (a + 4) (4 * length ws) = le32 w @ le32s ws"
    using Cons.prems(1) load_bytes_append [of m a 4 "4 * length ws"] by simp
  then have w: "load_bytes m a 4 = le32 w" "load_bytes m (a + 4) (4 * length ws) = le32s ws" by simp_all
  show ?case
  proof (cases i)
    case 0
    then show ?thesis using load32_le32 [OF w(1)] by simp
  next
    case (Suc j)
    then show ?thesis using Cons.IH [OF w(2), of j] Cons.prems(2) by (simp add: algebra_simps)
  qed
qed simp

lemma runs_store32 [simp]: "runs (store32_p a w) s Q \<longleftrightarrow> Q () (s\<lparr>ram := store32 (ram s) a w\<rparr>)"
  by (simp add: store32_p_def)

lemma chain_array:
  assumes "fat_volume mount v disk s" "table_ok v" "entry_room s" "chain v disk c cs" "\<not> end_of_chain v c"
    and "unat (stack_pointer s) \<le> unat (a + 4 * i)" "unat (a + 4 * i) + 4 * length cs < 4294967296"
  shows "runs (fat_chain_loop (length cs) mount v a i c) s (\<lambda>done s'. done \<and> only_ram s s' \<and>
    fills (unat (stack_pointer s)) (a + 4 * i) (le32s cs) (ram s) (ram s'))"
  using assms(1,3-)
proof (induction cs arbitrary: c i s)
  case Nil
  then show ?case by simp
next
  case (Cons x xs)
  let ?next = "next_cluster v disk c" and ?h = "unat (stack_pointer s)" and ?a = "a + 4 * i"
  let ?s = "s\<lparr>ram := store32 (ram s) ?a c\<rparr>"
  have c: "x = c" "data_cluster v c" and xs: "if end_of_chain v ?next then xs = [] else chain v disk ?next xs"
    using Cons.prems(3) by simp_all
  have f: "fills ?h ?a (le32 c) (ram s) (ram ?s)" using Cons.prems(6) by (simp add: store32_fills)
  have next_a: "a + 4 * (i + 1) = ?a + of_nat 4" by (simp add: algebra_simps)
  have ua: "unat (a + 4 * (i + 1)) = unat ?a + 4"
    unfolding next_a using Cons.prems(6) by (intro unat_add_of_nat32) simp
  have entry: "runs (fat_getFatEntry mount c) ?s (\<lambda>r s'. r = Some ?next \<and> only_ram ?s s' \<and> kept_from ?h (ram ?s) (ram s'))"
    using getFatEntry_entry [OF fat_volume_same [OF Cons.prems(1), of ?s] assms(2), of c] entry_room_ram [of s ?s] Cons.prems(2) c(2)
    by simp
  have tail: "runs (fat_chain_loop (length xs) mount v a (i + 1) ?next) s' (\<lambda>done s''. done \<and> only_ram s s'' \<and>
      fills ?h ?a (le32s (x # xs)) (ram s) (ram s''))"
    if o: "only_ram ?s s'" and k: "kept_from ?h (ram ?s) (ram s')" for s'
  proof -
    have o': "only_ram s s'" by (rule only_ram_trans [OF _ o]) simp
    have f': "fills ?h ?a (le32 c) (ram s) (ram s')"
      using Cons.prems(5,6) by (intro fills_kept [OF f k]) simp_all
    show ?thesis
    proof (cases "end_of_chain v ?next")
      case True
      then show ?thesis using xs o' f' c(1) by simp
    next
      case False
      have "runs (fat_chain_loop (length xs) mount v a (i + 1) ?next) s' (\<lambda>done s''. done \<and> only_ram s' s'' \<and>
          fills (unat (stack_pointer s')) (a + 4 * (i + 1)) (le32s xs) (ram s') (ram s''))"
        using Cons.IH [of s' ?next "i + 1"] fat_volume_same [OF Cons.prems(1) o'] entry_room_ram [OF o'] Cons.prems(2,5,6)
          xs False only_ram_same(2) [OF o'] ua by simp
      then show ?thesis
      proof (rule runs_weaken, elim conjE, intro conjI)
        fix ok s''
        assume r: "only_ram s' s''" "fills (unat (stack_pointer s')) (a + 4 * (i + 1)) (le32s xs) (ram s') (ram s'')"
        show "only_ram s s''" by (rule only_ram_trans [OF o' r(1)])
        show "fills ?h ?a (le32s (x # xs)) (ram s) (ram s'')"
          using r(2) Cons.prems(5,6) unfolding le32s_simps only_ram_same(2) [OF o'] next_a c(1)
          by (intro fills_append [OF f']) simp_all
      qed simp
    qed
  qed
  show ?case
    using runs_weaken [OF entry] tail Cons.prems(4) by (simp add: runs_cases)
qed

section \<open>The chain of a file\<close>

lemma block_room:
  assumes "heap_inv m h cs" "(p, k) \<in> blocks cs"
  shows "unat h < unat p" "unat p + k < 4294967296"
proof -
  obtain b n where b: "(b, n, False) \<in> set cs" "p = b + 4" "k = unat n" using assms(2) by (auto simp: blocks_def)
  then obtain A B where "cs = A @ (b, n, False) # B" by (auto dest: split_list)
  then have t: "unat b + 4 + unat n \<le> unat h + unat (heap_MaxSize m h)" "unat h + 16 \<le> unat b"
    "unat h + unat (heap_MaxSize m h) < 4294967296"
    using assms(1) tiles_split_unat [of "unat h + 16" A b n False B] by (auto simp: heap_inv_def)
  moreover have "unat (b + 4) = unat b + 4" using t by (subst unat_add32) simp_all
  ultimately show "unat h < unat p" "unat p + k < 4294967296" using b by simp_all
qed

lemma cell_above: "heap_inv m h cs \<Longrightarrow> x \<in> cells h cs \<Longrightarrow> unat h \<le> unat x \<and> unat x + 4 \<le> 4294967296"
proof -
  assume inv: "heap_inv m h cs" and x: "x \<in> cells h cs"
  obtain e where t: "tiles (unat h + 16) cs e" "e < 4294967296" using heap_inv_tiles [OF inv] by (auto simp: heap_tiles_def)
  have h: "unat h + 16 < 4294967296" using tiles_le [OF t(1)] t(2) by simp
  have head: "unat (h + of_nat j) = unat h + j" if "j \<le> 12" for j using h that by (intro unat_add_of_nat32) simp
  from x consider "x \<in> {h, h + 4, h + 8, h + 12}" | c where "c \<in> set cs" "x = fst c \<or> x = fst c + 4" by (auto simp: cells_def)
  then show ?thesis
  proof cases
    case 1
    then show ?thesis using h head [of 4] head [of 8] head [of 12] by auto
  next
    case 2
    obtain b n f where c: "c = (b, n, f)" by (cases c)
    then have b: "unat h + 16 \<le> unat b" "4 \<le> unat n" "unat b + 4 + unat n \<le> e" using tiles_mem [OF t(1)] 2(1) by auto
    then have "unat (b + 4) = unat b + 4" using t(2) by (subst unat_add32) simp_all
    then show ?thesis using 2(2) b t(2) by (auto simp: c)
  qed
qed

lemma heap_inv_above:
  assumes inv: "heap_inv m h cs" and k: "kept_from g m m'" "g \<le> unat h"
  shows "heap_inv m' h cs"
  using inv
proof (rule heap_inv_cong)
  fix x
  assume "x \<in> cells h cs"
  then have x: "unat h \<le> unat x" "unat x + 4 \<le> 4294967296" using cell_above [OF inv] by simp_all
  have "m (x + of_nat i) = m' (x + of_nat i)" if "i < 4" for i
  proof -
    have "unat (x + of_nat i) = unat x + i" using that x(2) by (intro unat_add_of_nat32) simp
    then show ?thesis using k x(1) by (simp add: kept_from_def)
  qed
  then show "load32 m' x = load32 m x" by (intro load32_cong) (simp add: agree_def)
qed

lemma runs_malloc:
  assumes "heap_alloc (ram s) (default_heap s) n = Some (Inr (p, m))" "default_heap s \<noteq> 0"
  shows "runs (malloc_p n) s Q \<longleftrightarrow> Q p (s\<lparr>ram := m\<rparr>)"
  using assms by (cases s) (simp add: runs_def malloc_p_def on_loader_def malloc_def loader.defs)

lemma malloc_full:
  assumes "heap_alloc (ram s) (default_heap s) n = Some (Inl e)" "default_heap s \<noteq> 0"
  shows "malloc_p n s = Some (Inl e)"
  using assms by (cases s) (simp add: malloc_p_def on_loader_def malloc_def loader.defs)

lemma fills_agree:
  assumes "fills h a xs m m'" "h \<le> unat q" "unat q + j \<le> 4294967296" "sep a (length xs) q j" "unat a + length xs \<le> 4294967296"
  shows "agree m m' q j"
  unfolding agree_def
proof (intro allI impI)
  fix i
  assume i: "i < j"
  have u: "unat (q + of_nat i) = unat q + i" using i assms(3) by (intro unat_add_of_nat32) simp
  have "\<not> (unat a \<le> unat q + i \<and> unat q + i < unat a + length xs)"
  proof
    assume l: "unat a \<le> unat q + i \<and> unat q + i < unat a + length xs"
    define k where "k = unat q + i - unat a"
    have "unat (a + of_nat k) = unat (q + of_nat i)"
      using l u assms(5) by (subst unat_add_of_nat32) (simp_all add: k_def)
    then have "a + of_nat k = q + of_nat i" by (simp only: word_unat_eq_iff)
    moreover have "k < length xs" using l unfolding k_def by linarith
    ultimately show False using sep_neq [OF assms(4), of k i] i by simp
  qed
  then show "m (q + of_nat i) = m' (q + of_nat i)" using assms(1,2) u by (simp add: fills_def)
qed

text \<open>C29. \<open>fat_getFatChain\<close> of a chain that ends either finds no free chunk that is large enough or returns a block of the heap that
  holds the numbers of the clusters in order; it overlaps no block in use, and these keep their bytes.\<close>

theorem fat_chain_array_holds:
  assumes "fat_volume mount v disk s" "table_ok v" "entry_room s" "chain v disk c cs" "\<not> end_of_chain v c"
    and "length cs < 1073741824" "heap_inv (ram s) (default_heap s) hs" "unat (stack_pointer s) \<le> unat (default_heap s)"
  shows "(fat_getFatChain mount c s = Some (Inl PanicHeapFull) \<and>
      (\<forall>b n. (b, n, True) \<in> set hs \<longrightarrow> n < request (of_nat (4 * length cs)))) \<or>
    runs (fat_getFatChain mount c) s (\<lambda>a s'. a \<noteq> 0 \<and> only_ram s s' \<and>
      (\<forall>i < length cs. load32 (ram s') (a + 4 * of_nat i) = cs ! i) \<and>
      (\<forall>(q, j) \<in> blocks hs. sep a (4 * length cs) q j \<and> agree (ram s) (ram s') q j))"
proof -
  let ?h = "default_heap s" and ?g = "unat (stack_pointer s)" and ?n = "of_nat (length cs) * 4 :: u32"
  have n: "unat ?n = 4 * length cs"
    using assms(6) by (simp add: unat_word_ariths unat_of_nat32 take_bit_nat_eq_self)
  have h0: "?h \<noteq> 0" using assms(3,8) by (auto simp: entry_room_def)
  have "runs (fat_countClustersInChain mount c) s (\<lambda>n s1. n = of_nat (length cs) \<and> only_ram s s1 \<and> kept_from ?g (ram s) (ram s1))"
    using count_chain [OF assms(1-5), of 0] unfolding fat_countClustersInChain_def runs_volume_context [OF assms(1)] by simp
  then obtain s1 where s1: "fat_countClustersInChain mount c s = Some (Inr (of_nat (length cs), s1))" "only_ram s s1"
      "kept_from ?g (ram s) (ram s1)" by (auto simp: runs_def)
  have same: "default_heap s1 = ?h" "stack_pointer s1 = stack_pointer s" using s1(2) by (auto simp: only_ram_def)
  have inv1: "heap_inv (ram s1) ?h hs" by (rule heap_inv_above [OF assms(7) s1(3) assms(8)])
  have body: "fat_getFatChain mount c s = bnd (malloc_p ?n) (\<lambda>a. if a = 0 then ret 0
      else bnd (fat_chain_loop (unat (of_nat (length cs) :: u32)) mount v a 0 c) (\<lambda>done.
        if done then ret a else seq (free_p a) (ret 0))) s1"
    unfolding fat_getFatChain_def volume_context [OF assms(1)] by (simp add: bnd_def s1(1) cong: option.case_cong)
  have count: "unat (of_nat (length cs) :: u32) = length cs" using assms(6) by (simp add: unat_of_nat32)
  obtain r where r: "heap_alloc (ram s1) ?h ?n = Some r" using heap.get_returns [OF inv1] by auto
  show ?thesis
  proof (cases r)
    case (Inl e)
    then have "e = PanicHeapFull \<and> (\<forall>b n. (b, n, True) \<in> set hs \<longrightarrow> n < request ?n)"
      using heap_alloc_correct [OF inv1, of ?n] r by auto
    moreover have "?n = of_nat (4 * length cs)" by simp
    ultimately show ?thesis using malloc_full [of s1 ?n] r Inl same h0 by (simp add: body bnd_def)
  next
    case (Inr pm)
    obtain a m where a: "heap_alloc (ram s1) ?h ?n = Some (Inr (a, m))" using r Inr by (cases pm) simp
    let ?s = "s1\<lparr>ram := m\<rparr>"
    have o: "only_ram s ?s" using s1(2) by (rule only_ram_trans) simp
    obtain hs' k where hs': "heap_inv m ?h hs'" "unat ?n \<le> k" "(a, k) \<in> blocks hs'" "\<forall>(q, j) \<in> blocks hs. agree (ram s1) m q j"
      using heap.get_block [OF inv1 a] by auto
    have room: "unat ?h < unat a" "unat a + 4 * length cs < 4294967296"
      using block_room [OF hs'(1,3)] hs'(2) n by simp_all
    have "runs (fat_chain_loop (length cs) mount v a 0 c) ?s (\<lambda>done s'. done \<and> only_ram ?s s' \<and>
        fills (unat (stack_pointer ?s)) (a + 4 * 0) (le32s cs) (ram ?s) (ram s'))"
      using fat_volume_same [OF assms(1) o] assms(2,4,5,8) entry_room_ram [OF o] assms(3) same room
      by (intro chain_array) simp_all
    then obtain s' where s': "fat_chain_loop (length cs) mount v a 0 c ?s = Some (Inr (True, s'))" "only_ram ?s s'"
        "fills ?g a (le32s cs) m (ram s')" using same by (auto simp: runs_def)
    have "agree (ram s) (ram s') q j" "sep a (4 * length cs) q j" if q: "(q, j) \<in> blocks hs" for q j
    proof -
      note br = block_room [OF assms(7) q]
      show sp: "sep a (4 * length cs) q j" using heap.get_fresh [OF inv1 a q] n by simp
      have "agree (ram s) (ram s1) q j" unfolding agree_def
      proof (intro allI impI)
        fix i assume "i < j"
        then have "unat (q + of_nat i) = unat q + i" using br by (intro unat_add_of_nat32) simp
        then show "ram s (q + of_nat i) = ram s1 (q + of_nat i)" using s1(3) br assms(8) by (simp add: kept_from_def)
      qed
      moreover have "agree (ram s1) m q j" using hs'(4) q by auto
      moreover have "agree m (ram s') q j"
        using fills_agree [OF s'(3), of q j] br assms(8) sp room by simp
      ultimately show "agree (ram s) (ram s') q j" using agree_trans by blast
    qed
    moreover have "load32 (ram s') (a + 4 * of_nat i) = cs ! i" if "i < length cs" for i
      using load32_le32s [OF _ that] s'(3) by (simp add: fills_def)
    moreover have "only_ram s s'" by (rule only_ram_trans [OF o s'(2)])
    moreover have "a \<noteq> 0" using room(1) by auto
    moreover have "fat_getFatChain mount c s = Some (Inr (a, s'))"
      using runs_malloc [of s1 ?n a m "\<lambda>x y. x = a \<and> y = ?s"] a same h0 \<open>a \<noteq> 0\<close> s'(1)
      by (auto simp: body runs_def bnd_def count ret_def)
    ultimately show ?thesis by (auto simp: runs_def)
  qed
qed

text \<open>A disk whose table closes cluster 5 to a circle.\<close>

definition circle_disk :: "u64 \<Rightarrow> u8 list" where
  "circle_disk l = (if l = 1 then (replicate 512 0)[10 := 5] else replicate 512 (ucast l))"

lemma circle_endless: "endless fat16_volume circle_disk 5"
proof -
  have step: "next_cluster fat16_volume circle_disk 5 = 5"
    by (simp add: next_cluster_def fat_entry_def fat_byte_def fat16_volume_def circle_disk_def)
  have "(next_cluster fat16_volume circle_disk ^^ k) 5 = 5" for k
    by (induction k) (simp_all add: step)
  then show ?thesis by (simp add: endless_def data_cluster_def end_of_chain_def fat16_volume_def)
qed

theorem count_clusters_terminates_witness:
  "runs (fat_countClustersInChain 0x300000 5) fat16_machine (\<lambda>n s'. n = 2 \<and> only_ram fat16_machine s' \<and>
      kept_from 0x9000 (ram fat16_machine) (ram s'))
    \<and> fat_countClustersInChain 0x300000 5 (fat16_machine\<lparr>bios_answer := ramdisk_bios circle_disk\<rparr>) = None"
proof
  have m: "fat_volume 0x300000 fat16_volume fat16_disk fat16_machine"
    by (rule fat16_mounted) (simp_all add: fat16_machine_def fat16_disk_length)
  have sp: "stack_pointer fat16_machine = 0x9000" by (simp add: fat16_machine_def)
  have t: "table_ok fat16_volume" "\<not> end_of_chain fat16_volume 5"
    by (simp_all add: table_ok_def end_of_chain_def fat16_volume_def)
  have e: "entry_room fat16_machine" by (simp add: entry_room_def sp)
  show "runs (fat_countClustersInChain 0x300000 5) fat16_machine (\<lambda>n s'. n = 2 \<and> only_ram fat16_machine s' \<and>
      kept_from 0x9000 (ram fat16_machine) (ram s'))"
  proof -
    have "runs (fat_countClustersInChain 0x300000 5) fat16_machine (\<lambda>n s'. n = of_nat (length [5, 7 :: u32]) \<and>
        only_ram fat16_machine s' \<and> kept_from (unat (stack_pointer fat16_machine)) (ram fat16_machine) (ram s'))"
      using count_clusters_terminates [OF m t(1) e, of 5 "[5, 7]"] fat16_chain t(2) by blast
    then show ?thesis by (rule runs_weaken) (simp add: sp)
  qed
  let ?s = "fat16_machine\<lparr>bios_answer := ramdisk_bios circle_disk\<rparr>"
  have "fat_volume 0x300000 fat16_volume circle_disk ?s"
    by (rule fat16_mounted) (simp_all add: fat16_machine_def circle_disk_def)
  moreover have "entry_room ?s" using e by (simp add: entry_room_def)
  ultimately show "fat_countClustersInChain 0x300000 5 ?s = None"
    using count_clusters_terminates [of "0x300000" fat16_volume circle_disk ?s] t(1) circle_endless by blast
qed

theorem fat_chain_array_holds_witness:
  "runs (fat_getFatChain 0x300000 5) (fat16_machine\<lparr>ram := example_heap, default_heap := 0x10000\<rparr>) (\<lambda>a s'. a \<noteq> 0 \<and>
    load32 (ram s') a = 5 \<and> load32 (ram s') (a + 4) = 7 \<and> sep a 8 0x10014 16 \<and> agree example_heap (ram s') 0x10014 16)"
proof -
  let ?s = "fat16_machine\<lparr>ram := example_heap, default_heap := 0x10000\<rparr>"
  have m: "fat_volume 0x300000 fat16_volume fat16_disk ?s"
    by (rule fat16_mounted) (simp_all add: fat16_machine_def fat16_disk_length)
  have sp: "stack_pointer ?s = 0x9000" by (simp add: fat16_machine_def)
  have t: "table_ok fat16_volume" "\<not> end_of_chain fat16_volume 5"
    by (simp_all add: table_ok_def end_of_chain_def fat16_volume_def)
  have e: "entry_room ?s" by (simp add: entry_room_def sp)
  have h: "heap_inv (ram ?s) (default_heap ?s) example_chunks" using example_heap_inv by simp
  have b: "(0x10014, 16) \<in> blocks example_chunks" by (auto simp: blocks_def example_chunks_def)
  have big: "\<not> (\<forall>b n. (b, n, True) \<in> set example_chunks \<longrightarrow> n < request (of_nat (4 * length [5, 7 :: u32])))"
    by (auto simp: request_def example_chunks_def)
  have "runs (fat_getFatChain 0x300000 5) ?s (\<lambda>a s'. a \<noteq> 0 \<and> only_ram ?s s' \<and>
      (\<forall>i < length [5, 7]. load32 (ram s') (a + 4 * of_nat i) = [5, 7] ! i) \<and>
      (\<forall>(q, j) \<in> blocks example_chunks. sep a (4 * length [5, 7 :: u32]) q j \<and> agree (ram ?s) (ram s') q j))"
  proof -
    have a: "length [5, 7 :: u32] < 1073741824" "unat (stack_pointer ?s) \<le> unat (default_heap ?s)" using sp by simp_all
    note holds = fat_chain_array_holds [OF m t(1) e fat16_chain t(2) a(1) h a(2)]
    from holds show ?thesis
    proof
      assume "fat_getFatChain 0x300000 5 ?s = Some (Inl PanicHeapFull) \<and>
        (\<forall>b n. (b, n, True) \<in> set example_chunks \<longrightarrow> n < request (of_nat (4 * length [5, 7 :: u32])))"
      with big show ?thesis by blast
    qed simp
  qed
  then show ?thesis
    by (rule runs_weaken) (use b in \<open>auto simp: All_less_Suc\<close>)
qed

end
