(* ===== verification/KernelList.thy ===== *)
theory KernelList
  imports ListHead
begin

text \<open>
  The doubly linked list of the kernel (DoublyLinkedList.h), a template whose elements inherit their
  links. Every element has one pair of links, kept here by the address of the element, so a list is
  its two end pointers and all lists of one element type share the links. The ends of a list are
  null pointers, unlike the rings of list.h.
\<close>

section \<open>State and operations\<close>

record links =
  next_link :: "u32 \<Rightarrow> u32"
  previous_link :: "u32 \<Rightarrow> u32"

record dll =
  head :: u32
  list_end :: u32

definition set_next :: "u32 \<Rightarrow> u32 \<Rightarrow> links \<Rightarrow> links" where
  "set_next e v s = s\<lparr>next_link := (next_link s)(e := v)\<rparr>"

definition set_previous :: "u32 \<Rightarrow> u32 \<Rightarrow> links \<Rightarrow> links" where
  "set_previous e v s = s\<lparr>previous_link := (previous_link s)(e := v)\<rparr>"

lemma link_fields [simp]:
  "next_link (set_next e v s) = (next_link s)(e := v)" "previous_link (set_next e v s) = previous_link s"
  "previous_link (set_previous e v s) = (previous_link s)(e := v)" "next_link (set_previous e v s) = next_link s"
  by (simp_all add: set_next_def set_previous_def)

definition empty_list :: dll where
  "empty_list = \<lparr>head = 0, list_end = 0\<rparr>"

definition IsEmpty :: "dll \<Rightarrow> bool" where
  "IsEmpty l \<longleftrightarrow> head l = 0"

text \<open>An ASSERT that fails halts the processor, so the test that repeats it is never reached.\<close>

definition Append :: "u32 \<Rightarrow> links \<times> dll \<Rightarrow> fault + links \<times> dll" where
  "Append new = (\<lambda>(s, l).
     if new = 0 then Inl AssertFailed
     else
       (let s = set_next new 0 (set_previous new (list_end l) s);
            (s, l) = (if list_end l \<noteq> 0 then (set_next (list_end l) new s, l) else (s, l\<lparr>head := new\<rparr>))
        in Inr (s, l\<lparr>list_end := new\<rparr>)))"

definition Prepend :: "u32 \<Rightarrow> links \<times> dll \<Rightarrow> fault + links \<times> dll" where
  "Prepend new = (\<lambda>(s, l).
     if new = 0 then Inl AssertFailed
     else
       (let s = set_next new (head l) (set_previous new 0 s);
            (s, l) = (if head l \<noteq> 0 then (set_previous (head l) new s, l) else (s, l\<lparr>list_end := new\<rparr>))
        in Inr (s, l\<lparr>head := new\<rparr>)))"

definition InsertBefore :: "u32 \<Rightarrow> u32 \<Rightarrow> links \<times> dll \<Rightarrow> fault + links \<times> dll" where
  "InsertBefore e new = (\<lambda>(s, l).
     if new = 0 \<or> e = 0 then Inl AssertFailed
     else
       (let s = set_next new e s;
            s = set_previous new (previous_link s e) s;
            s = set_previous e new s
        in if previous_link s new \<noteq> 0 then Inr (set_next (previous_link s new) new s, l)
           else Inr (s, l\<lparr>head := new\<rparr>)))"

definition InsertAfter :: "u32 \<Rightarrow> u32 \<Rightarrow> links \<times> dll \<Rightarrow> fault + links \<times> dll" where
  "InsertAfter e new = (\<lambda>(s, l).
     if new = 0 \<or> e = 0 then Inl AssertFailed
     else
       (let s = set_next new (next_link s e) s;
            s = set_previous new e s;
            s = set_next e new s
        in if next_link s new \<noteq> 0 then Inr (set_previous (next_link s new) new s, l)
           else Inr (s, l\<lparr>list_end := new\<rparr>)))"

definition Remove :: "u32 \<Rightarrow> links \<times> dll \<Rightarrow> links \<times> dll" where
  "Remove e = (\<lambda>(s, l).
     if e \<noteq> 0 then
       (let (s, l) = (if previous_link s e \<noteq> 0 then (set_next (previous_link s e) (next_link s e) s, l)
                      else (s, l\<lparr>head := next_link s e\<rparr>))
        in if next_link s e \<noteq> 0 then (set_previous (next_link s e) (previous_link s e) s, l)
           else (s, l\<lparr>list_end := previous_link s e\<rparr>))
     else (s, l))"

definition GetPrevious :: "links \<Rightarrow> u32 \<Rightarrow> u32" where
  "GetPrevious s e = (if e \<noteq> 0 then previous_link s e else 0)"

definition GetNext :: "links \<Rightarrow> u32 \<Rightarrow> u32" where
  "GetNext s e = (if e \<noteq> 0 then next_link s e else 0)"

text \<open>The walk all clients do, from the head along GetNext, as the elements it visits.\<close>

partial_function (option) visit_from :: "links \<Rightarrow> u32 \<Rightarrow> u32 list option" where
  "visit_from s e = (if e \<noteq> 0 then Option.bind (visit_from s (GetNext s e)) (\<lambda>es. Some (e # es)) else Some [])"

definition elements :: "links \<times> dll \<Rightarrow> u32 list option" where
  "elements = (\<lambda>(s, l). visit_from s (head l))"

section \<open>What a list is\<close>

primrec segment :: "links \<Rightarrow> u32 \<Rightarrow> u32 list \<Rightarrow> u32 \<Rightarrow> bool" where
  "segment s p [] n \<longleftrightarrow> True"
| "segment s p (x # xs) n \<longleftrightarrow> previous_link s x = p \<and> next_link s x = hd (xs @ [n]) \<and> segment s x xs n"

definition holds :: "links \<times> dll \<Rightarrow> u32 list \<Rightarrow> bool" where
  "holds = (\<lambda>(s, l) xs. head l = hd (xs @ [0]) \<and> list_end l = last (0 # xs) \<and> segment s 0 xs 0 \<and> distinct (0 # xs))"

lemma segment_append [simp]:
  "segment s p (xs @ ys) n \<longleftrightarrow> segment s p xs (hd (ys @ [n])) \<and> segment s (last (p # xs)) ys n"
  by (induction xs arbitrary: p) (auto simp: hd_append)

lemma segment_upd [simp]:
  "e \<notin> set xs \<Longrightarrow> segment (set_next e v s) p xs n = segment s p xs n"
  "e \<notin> set xs \<Longrightarrow> segment (set_previous e v s) p xs n = segment s p xs n"
  by (induction xs arbitrary: p) auto

lemma segment_last: "xs \<noteq> [] \<Longrightarrow> segment s p xs n \<longleftrightarrow> segment s p (butlast xs) (last xs) \<and>
    previous_link s (last xs) = last (p # butlast xs) \<and> next_link s (last xs) = n"
  by (cases xs rule: rev_cases) simp_all

text \<open>Two lists of distinct elements share the links without harm.\<close>

lemma segment_cong: "(\<And>x. x \<in> set xs \<Longrightarrow> next_link s' x = next_link s x \<and> previous_link s' x = previous_link s x) \<Longrightarrow>
    segment s' p xs n = segment s p xs n"
  by (induction xs arbitrary: p) simp_all

lemma holds_empty: "holds (s, empty_list) []"
  by (simp add: holds_def empty_list_def)

lemma holds_IsEmpty: "holds (s, l) xs \<Longrightarrow> IsEmpty l \<longleftrightarrow> xs = []"
  by (cases xs) (auto simp: holds_def IsEmpty_def)

lemma holds_Append:
  assumes "holds (s, l) xs" "new \<noteq> 0" "new \<notin> set xs"
  shows "\<exists>s' l'. Append new (s, l) = Inr (s', l') \<and> holds (s', l') (xs @ [new])"
  using assms
  by (cases xs rule: rev_cases) (auto simp: Append_def holds_def hd_append split: if_splits)

lemma holds_Prepend:
  assumes "holds (s, l) xs" "new \<noteq> 0" "new \<notin> set xs"
  shows "\<exists>s' l'. Prepend new (s, l) = Inr (s', l') \<and> holds (s', l') (new # xs)"
  using assms
  by (cases xs) (auto simp: Prepend_def holds_def split: if_splits)

lemma holds_InsertBefore:
  assumes "holds (s, l) (xs @ e # ys)" "new \<noteq> 0" "new \<notin> set (xs @ e # ys)"
  shows "\<exists>s' l'. InsertBefore e new (s, l) = Inr (s', l') \<and> holds (s', l') (xs @ new # e # ys)"
  using assms
  by (cases xs rule: rev_cases) (auto simp: InsertBefore_def holds_def hd_append split: if_splits)

lemma holds_InsertAfter:
  assumes "holds (s, l) (xs @ e # ys)" "new \<noteq> 0" "new \<notin> set (xs @ e # ys)"
  shows "\<exists>s' l'. InsertAfter e new (s, l) = Inr (s', l') \<and> holds (s', l') (xs @ e # new # ys)"
  using assms
  by (cases ys) (auto simp: InsertAfter_def holds_def hd_append split: if_splits)

lemma holds_Remove:
  assumes "holds (s, l) (xs @ e # ys)"
  shows "holds (Remove e (s, l)) (xs @ ys)"
  using assms
  by (cases xs rule: rev_cases; cases ys) (auto simp: Remove_def holds_def hd_append split: if_splits)

lemma visit_segment: "segment s p xs 0 \<Longrightarrow> 0 \<notin> set xs \<Longrightarrow> visit_from s (hd (xs @ [0])) = Some xs"
proof (induction xs arbitrary: p)
  case Nil
  then show ?case by (subst visit_from.simps) simp
next
  case (Cons x xs)
  have "visit_from s (hd (xs @ [0])) = Some xs" using Cons.prems Cons.IH [of x] by simp
  with Cons.prems show ?case by (subst visit_from.simps) (simp add: GetNext_def)
qed

lemma elements_holds: "holds sl xs \<Longrightarrow> elements sl = Some xs"
  using visit_segment by (auto simp: holds_def elements_def split: prod.splits)

text \<open>An operation changes no links but those of its own elements and the new one.\<close>

lemma links_frame:
  assumes "holds (s, l) xs" "y \<noteq> new" "y \<notin> set xs"
  shows "Append new (s, l) = Inr (s', l') \<Longrightarrow> next_link s' y = next_link s y \<and> previous_link s' y = previous_link s y"
    and "Prepend new (s, l) = Inr (s', l') \<Longrightarrow> next_link s' y = next_link s y \<and> previous_link s' y = previous_link s y"
  using assms by (cases xs rule: rev_cases; auto simp: Append_def holds_def split: if_splits)
    (cases xs; use assms in \<open>auto simp: Prepend_def holds_def split: if_splits\<close>)

lemma Remove_frame:
  assumes "holds (s, l) (xs @ e # ys)" "y \<notin> set (xs @ e # ys)" "Remove e (s, l) = (s', l')"
  shows "next_link s' y = next_link s y \<and> previous_link s' y = previous_link s y"
  using assms by (cases xs rule: rev_cases; cases ys) (auto simp: Remove_def holds_def hd_append split: if_splits)

lemma holds_cong:
  "(\<And>x. x \<in> set xs \<Longrightarrow> next_link s' x = next_link s x \<and> previous_link s' x = previous_link s x) \<Longrightarrow>
    holds (s', l) xs = holds (s, l) xs"
  by (simp add: holds_def cong: segment_cong)

lemma holds_other:
  assumes "holds (s, l) xs" "holds (s, k) ys" "set xs \<inter> set ys = {}"
  shows "new \<notin> set ys \<Longrightarrow> Append new (s, l) = Inr (s', l') \<Longrightarrow> holds (s', k) ys"
    and "new \<notin> set ys \<Longrightarrow> Prepend new (s, l) = Inr (s', l') \<Longrightarrow> holds (s', k) ys"
    and "e \<in> set xs \<Longrightarrow> Remove e (s, l) = (s', l') \<Longrightarrow> holds (s', k) ys"
proof -
  show "holds (s', k) ys" if "new \<notin> set ys" "Append new (s, l) = Inr (s', l')"
  proof (subst holds_cong [where s = s])
    fix x assume "x \<in> set ys"
    then have "x \<noteq> new" "x \<notin> set xs" using that(1) assms(3) by auto
    then show "next_link s' x = next_link s x \<and> previous_link s' x = previous_link s x"
      by (rule links_frame(1) [OF assms(1) _ _ that(2)])
  qed (rule assms(2))
  show "holds (s', k) ys" if "new \<notin> set ys" "Prepend new (s, l) = Inr (s', l')"
  proof (subst holds_cong [where s = s])
    fix x assume "x \<in> set ys"
    then have "x \<noteq> new" "x \<notin> set xs" using that(1) assms(3) by auto
    then show "next_link s' x = next_link s x \<and> previous_link s' x = previous_link s x"
      by (rule links_frame(2) [OF assms(1) _ _ that(2)])
  qed (rule assms(2))
  show "holds (s', k) ys" if e: "e \<in> set xs" "Remove e (s, l) = (s', l')"
  proof -
    obtain as bs where xs: "xs = as @ e # bs" using e(1) by (auto dest: split_list)
    from xs assms(1) have h: "holds (s, l) (as @ e # bs)" by simp
    show ?thesis
    proof (subst holds_cong [where s = s])
      fix x assume "x \<in> set ys"
      then have "x \<notin> set (as @ e # bs)" using xs assms(3) by blast
      then show "next_link s' x = next_link s x \<and> previous_link s' x = previous_link s x"
        by (rule Remove_frame [OF h _ e(2)])
    qed (rule assms(2))
  qed
qed

text \<open>The contract of a registry: adding at the head, removing, and the walk.\<close>

definition prepended :: "u32 \<Rightarrow> links \<times> dll \<Rightarrow> links \<times> dll" where
  "prepended x sl = (case Prepend x sl of Inl _ \<Rightarrow> sl | Inr sl \<Rightarrow> sl)"

interpretation klist: registry holds "\<lambda>x. x \<noteq> 0" prepended Remove elements
proof unfold_locales
  fix sl xs x
  assume "holds sl xs" "x \<noteq> (0 :: u32)" "x \<notin> set xs"
  then show "holds (prepended x sl) (x # xs)"
    using holds_Prepend [of "fst sl" "snd sl" xs x] by (auto simp: prepended_def)
next
  fix sl xs x ys
  assume "holds sl (xs @ x # ys)"
  then show "holds (Remove x sl) (xs @ ys)" using holds_Remove [of "fst sl" "snd sl"] by simp
qed (rule elements_holds)

text \<open>On a list of the kernel the five operations are the operations on the sequence of its elements; a
  null element fails the assertion; the walk visits the elements in order, and a list of other elements that
  shares the links keeps its own.\<close>

lemma kernel_list_operations:
  assumes "holds (s, l) (xs @ e # ys)" "new \<noteq> 0" "new \<notin> set (xs @ e # ys)"
    and "holds (s, k) zs" "set (new # xs @ e # ys) \<inter> set zs = {}"
  shows "elements (s, l) = Some (xs @ e # ys)
    \<and> (\<exists>t m. Append new (s, l) = Inr (t, m) \<and> holds (t, m) (xs @ e # ys @ [new]) \<and> holds (t, k) zs)
    \<and> (\<exists>t m. Prepend new (s, l) = Inr (t, m) \<and> holds (t, m) (new # xs @ e # ys) \<and> holds (t, k) zs)
    \<and> (\<exists>t m. InsertBefore e new (s, l) = Inr (t, m) \<and> holds (t, m) (xs @ new # e # ys))
    \<and> (\<exists>t m. InsertAfter e new (s, l) = Inr (t, m) \<and> holds (t, m) (xs @ e # new # ys))
    \<and> holds (Remove e (s, l)) (xs @ ys) \<and> holds (fst (Remove e (s, l)), k) zs
    \<and> Append 0 (s, l) = Inl AssertFailed"
proof (intro conjI)
  show "\<exists>t m. Append new (s, l) = Inr (t, m) \<and> holds (t, m) (xs @ e # ys @ [new]) \<and> holds (t, k) zs"
    using holds_Append [OF assms(1-3)] holds_other(1) [OF assms(1,4)] assms(5) by fastforce
  show "\<exists>t m. Prepend new (s, l) = Inr (t, m) \<and> holds (t, m) (new # xs @ e # ys) \<and> holds (t, k) zs"
    using holds_Prepend [OF assms(1-3)] holds_other(2) [OF assms(1,4)] assms(5) by fastforce
  show "holds (fst (Remove e (s, l)), k) zs"
    using holds_other(3) [OF assms(1,4), of e "fst (Remove e (s, l))" "snd (Remove e (s, l))"] assms(5) by auto
qed (use assms elements_holds holds_InsertBefore holds_InsertAfter holds_Remove in \<open>auto simp: Append_def\<close>)

definition kernel_links :: links where
  "kernel_links = \<lparr>next_link = (\<lambda>_. 0)(0x10 := 0x20), previous_link = (\<lambda>_. 0)(0x20 := 0x10)\<rparr>"

lemma kernel_list_operations_example:
  "elements (kernel_links, \<lparr>head = 0x10, list_end = 0x20\<rparr>) = Some [0x10, 0x20]
    \<and> (\<exists>t m. InsertBefore 0x20 0x30 (kernel_links, \<lparr>head = 0x10, list_end = 0x20\<rparr>) = Inr (t, m) \<and> holds (t, m) [0x10, 0x30, 0x20])
    \<and> holds (Remove 0x20 (kernel_links, \<lparr>head = 0x10, list_end = 0x20\<rparr>)) [0x10]"
  using kernel_list_operations [of kernel_links "\<lparr>head = 0x10, list_end = 0x20\<rparr>" "[0x10]" "0x20" "[]" "0x30"
      "\<lparr>head = 0x40, list_end = 0x40\<rparr>" "[0x40]"]
  by (simp add: holds_def kernel_links_def)

end
