(* ===== verification/FrameAllocator.thy ===== *)
theory FrameAllocator
  imports Prelude
begin

text \<open>
  Physical memory in the kernel: the bit field (Bitfield.cpp), the allocator of page frames on top of it
  (BitfieldPhysicalMemoryAllocator.cpp) and the allocator that runs before there is a heap
  (PlacementAllocator.cpp). An assertion that fails halts the processor.
\<close>

section \<open>Bit field\<close>

text \<open>
  The words of the field are the ones that fit the block the constructor allocates; an index past them is
  outside the object.
\<close>

record bitfield =
  numElements :: u32
  field_words :: "u32 list"

definition new_Bitfield :: "u32 \<Rightarrow> bitfield" where
  "new_Bitfield n = \<lparr>numElements = n, field_words = replicate ((unat n div 4 + 4) div 4) 0\<rparr>"

definition INDEX_FROM_BIT :: "u32 \<Rightarrow> u32" where
  "INDEX_FROM_BIT a = a div (8 * 4)"

definition OFFSET_FROM_BIT :: "u32 \<Rightarrow> u32" where
  "OFFSET_FROM_BIT a = a mod (8 * 4)"

definition word_at :: "bitfield \<Rightarrow> nat \<Rightarrow> fault + u32" where
  "word_at b i = (if i < length (field_words b) then Inr (field_words b ! i) else Inl OutOfBounds)"

definition SetBit :: "u32 \<Rightarrow> bitfield \<Rightarrow> fault + bitfield" where
  "SetBit Index b =
     (if \<not> Index < numElements b then Inl AssertFailed
      else
        (let idx = unat (INDEX_FROM_BIT Index); off = unat (OFFSET_FROM_BIT Index)
         in rbind (word_at b idx) (\<lambda>w.
            Inr (b\<lparr>field_words := (field_words b)[idx := w OR push_bit off 1]\<rparr>))))"

definition ClearBit :: "u32 \<Rightarrow> bitfield \<Rightarrow> fault + bitfield" where
  "ClearBit Index b =
     (if \<not> Index < numElements b then Inl AssertFailed
      else
        (let idx = unat (INDEX_FROM_BIT Index); off = unat (OFFSET_FROM_BIT Index)
         in rbind (word_at b idx) (\<lambda>w.
            Inr (b\<lparr>field_words := (field_words b)[idx := w AND NOT (push_bit off 1)]\<rparr>))))"

definition IsBitSet :: "u32 \<Rightarrow> bitfield \<Rightarrow> fault + bool" where
  "IsBitSet Index b =
     (if \<not> Index < numElements b then Inl AssertFailed
      else
        (let idx = unat (INDEX_FROM_BIT Index); off = unat (OFFSET_FROM_BIT Index)
         in rbind (word_at b idx) (\<lambda>w. Inr (w AND push_bit off 1 \<noteq> 0))))"

function cleared_bit :: "u32 \<Rightarrow> nat \<Rightarrow> nat option" where
  "cleared_bit w j =
     (if j < 32 then if w AND push_bit j 1 = 0 then Some j else cleared_bit w (j + 1) else None)"
  by pat_completeness auto
termination by (relation "measure (\<lambda>(w, j). 32 - j)") auto

function cleared_from :: "bitfield \<Rightarrow> nat \<Rightarrow> fault + u32" where
  "cleared_from b i =
     (if i < unat (INDEX_FROM_BIT (numElements b)) then
        rbind (word_at b i) (\<lambda>w.
          if w \<noteq> 0xFFFFFFFF then
            (case cleared_bit w 0 of
               Some j \<Rightarrow> Inr (of_nat (i * 4 * 8 + j))
             | None \<Rightarrow> cleared_from b (i + 1))
          else cleared_from b (i + 1))
      else Inr (- 1))"
  by pat_completeness auto
termination by (relation "measure (\<lambda>(b, i). unat (INDEX_FROM_BIT (numElements b)) - i)") auto

declare cleared_bit.simps [simp del] cleared_from.simps [simp del]

definition GetFirstClearedIndex :: "bitfield \<Rightarrow> fault + u32" where
  "GetFirstClearedIndex b = cleared_from b 0"

section \<open>Page frames\<close>

record frame_allocator =
  nFrames :: u32
  frames :: bitfield

definition KERNEL_PAGE_SIZE :: u32 where
  "KERNEL_PAGE_SIZE = 0x1000"

definition new_frame_allocator :: "u32 \<Rightarrow> frame_allocator" where
  "new_frame_allocator memorySize =
     (let n = memorySize * 1024 div KERNEL_PAGE_SIZE in \<lparr>nFrames = n, frames = new_Bitfield n\<rparr>)"

text \<open>\<open>ready\<close> is what IsHALFullyInitialized() returns.\<close>

definition AllocateFrame :: "bool \<Rightarrow> frame_allocator \<Rightarrow> fault + u32 \<times> frame_allocator" where
  "AllocateFrame ready fa =
     (if \<not> ready then Inl AssertFailed
      else
        rbind (GetFirstClearedIndex (frames fa)) (\<lambda>pageIndex.
        if pageIndex = - 1 then Inl PanicNoFrames
        else
          rbind (SetBit pageIndex (frames fa)) (\<lambda>b.
          Inr (pageIndex * KERNEL_PAGE_SIZE, fa\<lparr>frames := b\<rparr>))))"

definition DeallocateFrame :: "u32 \<Rightarrow> frame_allocator \<Rightarrow> fault + frame_allocator" where
  "DeallocateFrame physAddr fa =
     rbind (ClearBit (physAddr div KERNEL_PAGE_SIZE) (frames fa)) (\<lambda>b. Inr (fa\<lparr>frames := b\<rparr>))"

definition MarkAsUsed :: "u32 \<Rightarrow> frame_allocator \<Rightarrow> fault + frame_allocator" where
  "MarkAsUsed physAddr fa =
     (if physAddr div KERNEL_PAGE_SIZE \<le> nFrames fa then
        rbind (IsBitSet (physAddr div KERNEL_PAGE_SIZE) (frames fa)) (\<lambda>used.
        if used then Inl PanicFrameUsed
        else
          rbind (SetBit (physAddr div KERNEL_PAGE_SIZE) (frames fa)) (\<lambda>b. Inr (fa\<lparr>frames := b\<rparr>)))
      else Inr fa)"

definition IsFree :: "u32 \<Rightarrow> frame_allocator \<Rightarrow> fault + bool" where
  "IsFree physAddr fa =
     (let frameIndex = physAddr div KERNEL_PAGE_SIZE
      in if physAddr div KERNEL_PAGE_SIZE \<le> nFrames fa
         then rbind (IsBitSet frameIndex (frames fa)) (\<lambda>used. Inr (\<not> used))
         else Inr False)"

section \<open>Placement allocation\<close>

text \<open>The beginning of the placement region is a symbol of the linker script, the parameter \<open>placement\<close>.\<close>

definition KERNEL_PLACEMENT_SIZE :: u32 where
  "KERNEL_PLACEMENT_SIZE = 0x200000"

definition PAGEALIGN_MASK :: u32 where
  "PAGEALIGN_MASK = 0xFFFFF000"

definition GetPlacementAllocatedSize :: "u32 \<Rightarrow> u32 \<Rightarrow> u32" where
  "GetPlacementAllocatedSize placement placement_address = placement_address - placement"

definition placement_Allocate :: "u32 \<Rightarrow> u32 \<Rightarrow> bool \<Rightarrow> u32 \<Rightarrow> fault + u32 \<times> u32" where
  "placement_Allocate placement len pageAlign placement_address =
     (if KERNEL_PLACEMENT_SIZE < GetPlacementAllocatedSize placement placement_address + len then Inl PanicPlacement
      else
        (let a = (if pageAlign \<and> placement_address mod KERNEL_PAGE_SIZE \<noteq> 0
                  then (placement_address AND PAGEALIGN_MASK) + KERNEL_PAGE_SIZE
                  else placement_address)
         in Inr (a, a + len)))"

section \<open>The set of a bit field\<close>

text \<open>
  What a bit field stands for: the indices below its size whose bit is set. The words the constructor
  allocates hold every index.
\<close>

definition bitfield_ok :: "bitfield \<Rightarrow> bool" where
  "bitfield_ok b \<longleftrightarrow> length (field_words b) = (unat (numElements b) div 4 + 4) div 4"

definition has_bit :: "bitfield \<Rightarrow> nat \<Rightarrow> bool" where
  "has_bit b i \<longleftrightarrow> bit (field_words b ! (i div 32)) (i mod 32)"

definition set_bits :: "bitfield \<Rightarrow> nat set" where
  "set_bits b = {i. i < unat (numElements b) \<and> has_bit b i}"

lemma unat_index [simp]: "unat (INDEX_FROM_BIT i) = unat i div 32" "unat (OFFSET_FROM_BIT i) = unat i mod 32"
  by (simp_all add: INDEX_FROM_BIT_def OFFSET_FROM_BIT_def unat_div unat_mod)

lemma word_at_ok: "bitfield_ok b \<Longrightarrow> i \<le> unat (numElements b) div 32 \<Longrightarrow> word_at b i = Inr (field_words b ! i)"
  unfolding bitfield_ok_def word_at_def by (rule if_P) linarith

lemma and_push_bit_1: "w AND push_bit n 1 \<noteq> 0 \<longleftrightarrow> bit (w :: u32) n" if "n < 32"
proof
  assume "w AND push_bit n 1 \<noteq> 0"
  then obtain k where "bit (w AND push_bit n 1) k" using bit_eq_iff [of "w AND push_bit n 1" 0] by auto
  then show "bit w n" by (auto simp: bit_simps)
next
  assume "bit w n"
  then have "bit (w AND push_bit n 1) n" using that by (simp add: bit_simps)
  then show "w AND push_bit n 1 \<noteq> 0" by auto
qed

lemma upd_bit:
  assumes "bitfield_ok b" "i < unat (numElements b)" "j < unat (numElements b)"
  shows "bit ((field_words b)[i div 32 := f (field_words b ! (i div 32))] ! (j div 32)) (j mod 32) \<longleftrightarrow>
    (if j div 32 = i div 32 then bit (f (field_words b ! (i div 32))) (j mod 32) else has_bit b j)"
proof -
  have "i div 32 < length (field_words b)" using assms unfolding bitfield_ok_def by linarith
  then show ?thesis by (auto simp: has_bit_def nth_list_update)
qed

lemma div_mod_32: "(i :: nat) div 32 = j div 32 \<Longrightarrow> i mod 32 = j mod 32 \<longleftrightarrow> i = j"
  by (metis div_mod_decomp)

lemma SetBit_inserts:
  assumes "bitfield_ok b" "i < numElements b"
  shows "\<exists>b'. SetBit i b = Inr b' \<and> bitfield_ok b' \<and> numElements b' = numElements b \<and>
    set_bits b' = insert (unat i) (set_bits b)"
proof -
  have i: "unat i < unat (numElements b)" using assms(2) by (simp add: word_less_nat_alt)
  let ?b = "b\<lparr>field_words := (field_words b)[unat i div 32 := field_words b ! (unat i div 32) OR push_bit (unat i mod 32) 1]\<rparr>"
  have "SetBit i b = Inr ?b"
    using assms i by (simp add: SetBit_def Let_def word_at_ok div_le_mono)
  moreover have "has_bit ?b j \<longleftrightarrow> j = unat i \<or> has_bit b j" if "j < unat (numElements b)" for j
    using upd_bit [OF assms(1) i that, of "\<lambda>w. w OR push_bit (unat i mod 32) 1"] div_mod_32 [of j "unat i"]
    by (auto simp: has_bit_def bit_simps)
  ultimately show ?thesis using assms(1) i by (auto simp: bitfield_ok_def set_bits_def)
qed

lemma ClearBit_removes:
  assumes "bitfield_ok b" "i < numElements b"
  shows "\<exists>b'. ClearBit i b = Inr b' \<and> bitfield_ok b' \<and> numElements b' = numElements b \<and>
    set_bits b' = set_bits b - {unat i}"
proof -
  have i: "unat i < unat (numElements b)" using assms(2) by (simp add: word_less_nat_alt)
  let ?b = "b\<lparr>field_words := (field_words b)[unat i div 32 := field_words b ! (unat i div 32) AND NOT (push_bit (unat i mod 32) 1)]\<rparr>"
  have "ClearBit i b = Inr ?b"
    using assms i by (simp add: ClearBit_def Let_def word_at_ok div_le_mono)
  moreover have "has_bit ?b j \<longleftrightarrow> j \<noteq> unat i \<and> has_bit b j" if "j < unat (numElements b)" for j
    using upd_bit [OF assms(1) i that, of "\<lambda>w. w AND NOT (push_bit (unat i mod 32) 1)"] div_mod_32 [of j "unat i"]
    by (auto simp: has_bit_def bit_simps)
  ultimately show ?thesis using assms(1) i by (auto simp: bitfield_ok_def set_bits_def)
qed

lemma IsBitSet_member:
  "bitfield_ok b \<Longrightarrow> i < numElements b \<Longrightarrow> IsBitSet i b = Inr (unat i \<in> set_bits b)"
  using and_push_bit_1 [of "unat i mod 32" "field_words b ! (unat i div 32)"]
  by (simp add: IsBitSet_def Let_def word_at_ok div_le_mono word_less_nat_alt set_bits_def has_bit_def)

lemma cleared_bit_step: "cleared_bit w j = (if j < 32 then if bit w j then cleared_bit w (Suc j) else Some j else None)"
proof (cases "j < 32")
  case True
  show ?thesis using and_push_bit_1 [OF True, of w] True
    by (subst cleared_bit.simps) (simp only: if_True Suc_eq_plus1 split: if_splits, blast)
qed (subst cleared_bit.simps, simp)

lemma cleared_bit_Some: "cleared_bit w j = Some k \<Longrightarrow> j \<le> k \<and> k < 32 \<and> \<not> bit w k \<and> (\<forall>i. j \<le> i \<and> i < k \<longrightarrow> bit w i)"
proof (induction "32 - j" arbitrary: j)
  case 0
  then show ?case by (subst (asm) cleared_bit_step) simp
next
  case (Suc d)
  show ?case
  proof (cases "bit w j")
    case True
    then have "cleared_bit w (Suc j) = Some k" using Suc.prems by (subst (asm) cleared_bit_step) (simp split: if_splits)
    then have "Suc j \<le> k \<and> k < 32 \<and> \<not> bit w k \<and> (\<forall>i. Suc j \<le> i \<and> i < k \<longrightarrow> bit w i)"
      using Suc.hyps(2) by (intro Suc.hyps(1)) simp_all
    then show ?thesis using True by (metis Suc_leD le_antisym not_less_eq_eq)
  next
    case False
    then show ?thesis using Suc.prems by (subst (asm) cleared_bit_step) (auto split: if_splits)
  qed
qed

lemma cleared_bit_None: "cleared_bit w j = None \<Longrightarrow> i < 32 \<Longrightarrow> j \<le> i \<Longrightarrow> bit w i"
proof (induction "i - j" arbitrary: j)
  case 0
  then show ?case by (subst (asm) cleared_bit_step) (simp split: if_splits)
next
  case (Suc d)
  then have "cleared_bit w (Suc j) = None" by (subst (asm) cleared_bit_step) (simp split: if_splits)
  moreover have "d = i - Suc j" "Suc j \<le> i" using Suc.hyps(2) by simp_all
  ultimately show ?case using Suc.hyps(1) Suc.prems(2) by blast
qed

lemma all_ones: "(w :: u32) = 0xFFFFFFFF \<longleftrightarrow> (\<forall>i < 32. bit w i)"
proof -
  have "(0xFFFFFFFF :: u32) = - 1" by simp
  then show ?thesis by (simp only: bit_eq_iff bit_minus_1_iff) auto
qed


text \<open>The indices the search looks at: those of the whole words.\<close>

definition whole :: "bitfield \<Rightarrow> nat" where
  "whole b = 32 * (unat (numElements b) div 32)"

lemma has_bit_in_word: "k div 32 = i \<Longrightarrow> has_bit b k = bit (field_words b ! i) (k - 32 * i)"
  by (auto simp: has_bit_def minus_mult_div_eq_mod)

lemma cleared_from_finds:
  assumes "bitfield_ok b"
  shows "\<exists>r. cleared_from b i = Inr r \<and>
    (if r = - 1 then \<forall>k. 32 * i \<le> k \<and> k < whole b \<longrightarrow> has_bit b k
     else 32 * i \<le> unat r \<and> unat r < whole b \<and> \<not> has_bit b (unat r) \<and> (\<forall>k. 32 * i \<le> k \<and> k < unat r \<longrightarrow> has_bit b k))"
  using assms
proof (induction b i rule: cleared_from.induct)
  case (1 b i)
  let ?n = "unat (INDEX_FROM_BIT (numElements b))"
  show ?case
  proof (cases "i < ?n")
    case False
    then show ?thesis by (subst cleared_from.simps) (auto simp: whole_def)
  next
    case True
    define w where "w = field_words b ! i"
    have w: "word_at b i = Inr w" using 1(3) True unfolding w_def by (intro word_at_ok) simp_all
    show ?thesis
    proof (cases "w = 0xFFFFFFFF")
      case ones: True
      then have step: "cleared_from b i = cleared_from b (i + 1)" using True w by (subst cleared_from.simps) simp
      have ih: "\<exists>r. cleared_from b (i + 1) = Inr r \<and>
        (if r = - 1 then \<forall>k. 32 * (i + 1) \<le> k \<and> k < whole b \<longrightarrow> has_bit b k
         else 32 * (i + 1) \<le> unat r \<and> unat r < whole b \<and> \<not> has_bit b (unat r) \<and> (\<forall>k. 32 * (i + 1) \<le> k \<and> k < unat r \<longrightarrow> has_bit b k))"
        by (rule 1(2) [OF True w _ 1(3)]) (use ones in simp)
      have "has_bit b k" if "32 * i \<le> k" "k < 32 * (i + 1)" for k
      proof -
        from that have k: "k div 32 = i" "k - 32 * i < 32" by (auto simp: div_nat_eqI)
        then show ?thesis using ones all_ones [of w] by (simp add: has_bit_in_word w_def)
      qed
      then have low: "has_bit b k" if "32 * i \<le> k" "32 * (i + 1) \<le> k \<longrightarrow> has_bit b k" for k
        using that by (cases "k < 32 * (i + 1)") simp_all
      from ih obtain r where r: "cleared_from b (i + 1) = Inr r" "if r = - 1
         then \<forall>k. 32 * (i + 1) \<le> k \<and> k < whole b \<longrightarrow> has_bit b k
         else 32 * (i + 1) \<le> unat r \<and> unat r < whole b \<and> \<not> has_bit b (unat r) \<and> (\<forall>k. 32 * (i + 1) \<le> k \<and> k < unat r \<longrightarrow> has_bit b k)"
        by blast
      show ?thesis
      proof (cases "r = - 1")
        case True
        then show ?thesis using r low by (auto simp: step)
      next
        case False
        then show ?thesis using r low by (auto simp: step)
      qed
    next
      case False
      then obtain j where j: "j < 32" "\<not> bit w j" using all_ones [of w] by auto
      then obtain k where k: "cleared_bit w 0 = Some k" using cleared_bit_None [of w 0 j] by (cases "cleared_bit w 0") auto
      then have k': "k < 32" "\<not> bit w k" "\<And>i. i < k \<Longrightarrow> bit w i" using cleared_bit_Some [OF k] by auto
      have small: "32 * i + k < whole b" using True k'(1) by (simp add: whole_def)
      moreover have "whole b \<le> 4294967264" using div_le_mono [of "unat (numElements b)" 4294967295 32] unat_bound32 [of "numElements b"] by (simp add: whole_def)
      ultimately have lt: "32 * i + k < 4294967264" by linarith
      then have u: "unat (of_nat (32 * i + k) :: u32) = 32 * i + k" by (intro unat_of_nat32) simp
      have r: "cleared_from b i = Inr (of_nat (32 * i + k))"
        using True w False k by (subst cleared_from.simps) (simp add: mult.commute)
      have "of_nat (32 * i + k) \<noteq> (- 1 :: u32)"
      proof
        assume "of_nat (32 * i + k) = (- 1 :: u32)"
        then have "32 * i + k = 4294967295" using u by simp
        with lt show False by simp
      qed
      moreover have "\<not> has_bit b (32 * i + k)" using k' by (subst has_bit_in_word [of _ i]) (simp_all add: w_def)
      moreover have "has_bit b l" if "32 * i \<le> l" "l < 32 * i + k" for l
        using that k' by (subst has_bit_in_word [of _ i]) (auto simp: w_def div_nat_eqI)
      ultimately show ?thesis using small unfolding r
        by (intro exI [of _ "of_nat (32 * i + k)"]) (simp add: u del: of_nat_add of_nat_mult)
    qed
  qed
qed


section \<open>The frames in use\<close>

definition frames_ok :: "frame_allocator \<Rightarrow> bool" where
  "frames_ok fa \<longleftrightarrow> bitfield_ok (frames fa) \<and> nFrames fa = numElements (frames fa) \<and> unat (nFrames fa) \<le> 1048576"

definition used :: "frame_allocator \<Rightarrow> nat set" where
  "used fa = set_bits (frames fa)"

lemma has_bit_used: "i < unat (nFrames fa) \<Longrightarrow> nFrames fa = numElements (frames fa) \<Longrightarrow> has_bit (frames fa) i \<longleftrightarrow> i \<in> used fa"
  by (simp add: used_def set_bits_def)

lemma frame_address: "unat i \<le> 1048575 \<Longrightarrow> unat (i * KERNEL_PAGE_SIZE) = 4096 * unat i \<and> i * KERNEL_PAGE_SIZE div KERNEL_PAGE_SIZE = i"
proof -
  assume "unat i \<le> 1048575"
  then have "unat (i * KERNEL_PAGE_SIZE) = 4096 * unat i"
    by (simp add: KERNEL_PAGE_SIZE_def unat_word_ariths take_bit_nat_eq_self)
  moreover from this have "unat (i * KERNEL_PAGE_SIZE div KERNEL_PAGE_SIZE) = unat i"
    by (simp add: unat_div KERNEL_PAGE_SIZE_def)
  ultimately show ?thesis by (metis word_unat_eq_iff)
qed

lemma AllocateFrame_lowest:
  assumes "frames_ok fa"
  shows "(AllocateFrame True fa = Inl PanicNoFrames \<and> {..<32 * (unat (nFrames fa) div 32)} \<subseteq> used fa) \<or>
    (\<exists>a fa'. AllocateFrame True fa = Inr (a, fa') \<and> frames_ok fa' \<and> nFrames fa' = nFrames fa \<and> 4096 dvd unat a \<and>
      unat a div 4096 < 32 * (unat (nFrames fa) div 32) \<and> unat a div 4096 \<notin> used fa \<and> {..<unat a div 4096} \<subseteq> used fa \<and>
      used fa' = insert (unat a div 4096) (used fa) \<and>
      (\<exists>fa''. DeallocateFrame a fa' = Inr fa'' \<and> frames_ok fa'' \<and> used fa'' = used fa))"
proof -
  let ?b = "frames fa"
  have b: "bitfield_ok ?b" "numElements ?b = nFrames fa" "unat (nFrames fa) \<le> 1048576" using assms by (auto simp: frames_ok_def)
  have w: "whole ?b = 32 * (unat (nFrames fa) div 32)" "whole ?b \<le> unat (nFrames fa)" by (simp_all add: whole_def b)
  have bits: "has_bit ?b k \<longleftrightarrow> k \<in> used fa" if "k < whole ?b" for k using that w b by (intro has_bit_used) simp_all
  obtain r where r: "GetFirstClearedIndex ?b = Inr r"
    "if r = - 1 then \<forall>k. k < whole ?b \<longrightarrow> has_bit ?b k
     else unat r < whole ?b \<and> \<not> has_bit ?b (unat r) \<and> (\<forall>k. k < unat r \<longrightarrow> has_bit ?b k)"
    using cleared_from_finds [OF b(1), of 0] by (auto simp: GetFirstClearedIndex_def)
  show ?thesis
  proof (cases "r = - 1")
    case True
    then show ?thesis using r bits by (auto simp: AllocateFrame_def w(1))
  next
    case False
    then have lo: "unat r < whole ?b" "\<not> has_bit ?b (unat r)" "\<And>k. k < unat r \<Longrightarrow> has_bit ?b k" using r(2) by simp_all
    have rn: "r < numElements ?b" using lo(1) w b(2) by (simp add: word_less_nat_alt)
    obtain b' where b': "SetBit r ?b = Inr b'" "bitfield_ok b'" "numElements b' = numElements ?b"
      "set_bits b' = insert (unat r) (set_bits ?b)" using SetBit_inserts [OF b(1) rn] by blast
    let ?fa = "fa\<lparr>frames := b'\<rparr>" and ?a = "r * KERNEL_PAGE_SIZE"
    have a: "unat ?a = 4096 * unat r" "?a div KERNEL_PAGE_SIZE = r" using frame_address [of r] lo(1) w(2) b(3) by auto
    obtain b'' where b'': "ClearBit r b' = Inr b''" "bitfield_ok b''" "numElements b'' = numElements b'"
      "set_bits b'' = set_bits b' - {unat r}" using ClearBit_removes [OF b'(2), of r] rn b'(3) by auto
    have new: "unat r \<notin> used fa" using bits lo by blast
    have "AllocateFrame True fa = Inr (?a, ?fa)" using r(1) False b'(1) by (simp add: AllocateFrame_def)
    moreover have "DeallocateFrame ?a ?fa = Inr (?fa\<lparr>frames := b''\<rparr>)" using b'' a by (simp add: DeallocateFrame_def)
    moreover have "used (?fa\<lparr>frames := b''\<rparr>) = used fa" using b'' b' new by (auto simp: used_def)
    moreover have "{..<unat r} \<subseteq> used fa" using bits lo by auto
    moreover have "frames_ok ?fa" "frames_ok (?fa\<lparr>frames := b''\<rparr>)" "used ?fa = insert (unat r) (used fa)"
      using b b' b'' by (simp_all add: frames_ok_def used_def)
    ultimately show ?thesis using new lo(1) unfolding w(1) by (intro disjI2 exI [of _ ?a] exI [of _ ?fa]) (auto simp: a)
  qed
qed

text \<open>\<open>AllocateFrame\<close> hands out the lowest free frame and marks it; it panics exactly when no frame of the whole words
  of the bit field is free, so the frames behind the last whole word are never handed out. Freeing the frame
  again restores the set of used frames.\<close>

lemma frames_lowest_free:
  assumes "frames_ok fa"
  shows "(AllocateFrame True fa = Inl PanicNoFrames \<and> {..<32 * (unat (nFrames fa) div 32)} \<subseteq> used fa) \<or>
    (\<exists>a fa'. AllocateFrame True fa = Inr (a, fa') \<and> frames_ok fa' \<and> nFrames fa' = nFrames fa \<and> 4096 dvd unat a \<and>
      unat a div 4096 < 32 * (unat (nFrames fa) div 32) \<and> unat a div 4096 \<notin> used fa \<and> {..<unat a div 4096} \<subseteq> used fa \<and>
      used fa' = insert (unat a div 4096) (used fa) \<and>
      (\<exists>fa''. DeallocateFrame a fa' = Inr fa'' \<and> frames_ok fa'' \<and> used fa'' = used fa))"
  using assms by (rule AllocateFrame_lowest)

lemma new_frames_ok: "unat m * 1024 < 4294967296 \<Longrightarrow> frames_ok (new_frame_allocator m) \<and> used (new_frame_allocator m) = {}"
proof -
  assume "unat m * 1024 < 4294967296"
  then have "unat (m * 1024 div KERNEL_PAGE_SIZE) \<le> 1048576"
    by (simp add: KERNEL_PAGE_SIZE_def unat_div unat_word_ariths take_bit_nat_eq_self)
  moreover have "(0 :: u32) = replicate k 0 ! i" if "i < k" for k i using that by simp
  ultimately show ?thesis
    by (auto simp: new_frame_allocator_def new_Bitfield_def frames_ok_def bitfield_ok_def used_def set_bits_def has_bit_def Let_def)
qed

text \<open>A machine of 160 KB: 40 frames, of which the last eight are in no whole word.\<close>

definition small_frames :: frame_allocator where
  "small_frames = new_frame_allocator 160"

lemma small_frames_ok: "frames_ok small_frames" "used small_frames = {}" "nFrames small_frames = 40"
  using new_frames_ok [of 160] by (simp_all add: small_frames_def new_frame_allocator_def KERNEL_PAGE_SIZE_def Let_def)

lemma frames_lowest_free_example:
  "\<exists>a fa'. AllocateFrame True small_frames = Inr (a, fa') \<and> unat a div 4096 < 32 \<and> used fa' = {unat a div 4096} \<and>
    (\<exists>fa''. DeallocateFrame a fa' = Inr fa'' \<and> used fa'' = {})"
proof -
  have n: "32 * (unat (nFrames small_frames) div 32) = 32" by (simp add: small_frames_ok)
  have "\<not> {..<32 * (unat (nFrames small_frames) div 32)} \<subseteq> used small_frames" unfolding n small_frames_ok(2)
    by (metis empty_iff lessThan_iff subset_empty zero_less_numeral)
  with frames_lowest_free [OF small_frames_ok(1)] show ?thesis unfolding n small_frames_ok(2) by fastforce
qed

text \<open>\<open>MarkAsUsed\<close> and \<open>IsFree\<close> compare a frame number with the number of frames by \<open>\<le>\<close>: below it they are set
  insertion, with a panic for a used frame, and membership; past it they do nothing; at it they fail the assertion of
  the bit field.\<close>

lemma mark_frame_bounds:
  assumes "frames_ok fa" "p = unat a div 4096"
  shows "(p < unat (nFrames fa) \<longrightarrow> IsFree a fa = Inr (p \<notin> used fa) \<and>
      (if p \<in> used fa then MarkAsUsed a fa = Inl PanicFrameUsed
       else \<exists>fa'. MarkAsUsed a fa = Inr fa' \<and> frames_ok fa' \<and> used fa' = insert p (used fa)))
    \<and> (p = unat (nFrames fa) \<longrightarrow> IsFree a fa = Inl AssertFailed \<and> MarkAsUsed a fa = Inl AssertFailed)
    \<and> (p > unat (nFrames fa) \<longrightarrow> IsFree a fa = Inr False \<and> MarkAsUsed a fa = Inr fa)"
proof -
  define i where "i = a div KERNEL_PAGE_SIZE"
  have b: "bitfield_ok (frames fa)" "numElements (frames fa) = nFrames fa" "unat (nFrames fa) \<le> 1048576"
    using assms by (auto simp: frames_ok_def)
  have p: "unat i = p" by (simp add: i_def assms(2) unat_div KERNEL_PAGE_SIZE_def)
  have lt: "i < nFrames fa \<longleftrightarrow> p < unat (nFrames fa)" "i \<le> nFrames fa \<longleftrightarrow> p \<le> unat (nFrames fa)"
    by (simp_all add: word_less_nat_alt word_le_nat_alt p)
  have "IsFree a fa = Inr (p \<notin> used fa) \<and>
      (if p \<in> used fa then MarkAsUsed a fa = Inl PanicFrameUsed
       else \<exists>fa'. MarkAsUsed a fa = Inr fa' \<and> frames_ok fa' \<and> used fa' = insert p (used fa))" if "p < unat (nFrames fa)"
  proof -
    have bit: "IsBitSet i (frames fa) = Inr (p \<in> used fa)"
      using IsBitSet_member [OF b(1), of i] that lt(1) by (simp add: b(2) p used_def)
    have "i < numElements (frames fa)" using that lt(1) b(2) by simp
    then obtain b' where b': "SetBit i (frames fa) = Inr b'" "bitfield_ok b'" "numElements b' = numElements (frames fa)"
        "set_bits b' = insert (unat i) (set_bits (frames fa))"
      using SetBit_inserts [OF b(1)] by blast
    show ?thesis using bit b' b lt(2) that
      by (auto simp: IsFree_def MarkAsUsed_def Let_def i_def [symmetric] frames_ok_def used_def p)
  qed
  moreover have "IsFree a fa = Inl AssertFailed \<and> MarkAsUsed a fa = Inl AssertFailed" if "p = unat (nFrames fa)"
    using that lt b(2) by (simp add: IsFree_def MarkAsUsed_def i_def [symmetric] IsBitSet_def Let_def)
  moreover have "IsFree a fa = Inr False \<and> MarkAsUsed a fa = Inr fa" if "p > unat (nFrames fa)"
    using that lt by (simp add: IsFree_def MarkAsUsed_def i_def [symmetric] Let_def)
  ultimately show ?thesis by blast
qed

lemma mark_frame_bounds_example:
  "IsFree 0x28000 small_frames = Inl AssertFailed \<and> MarkAsUsed 0x28000 small_frames = Inl AssertFailed \<and>
    IsFree 0x27000 small_frames = Inr True \<and> MarkAsUsed 0x29000 small_frames = Inr small_frames"
  using mark_frame_bounds [OF small_frames_ok(1) refl, of "0x28000"] mark_frame_bounds [OF small_frames_ok(1) refl, of "0x27000"]
    mark_frame_bounds [OF small_frames_ok(1) refl, of "0x29000"]
  by (simp add: small_frames_ok)

section \<open>The placement region\<close>

lemma align_down:
  "unat ((a :: u32) AND PAGEALIGN_MASK) = 4096 * (unat a div 4096)"
proof -
  have "a AND PAGEALIGN_MASK = push_bit 12 (drop_bit 12 a)"
  proof -
    have m: "PAGEALIGN_MASK = NOT (mask 12)" by (simp add: PAGEALIGN_MASK_def mask_eq_exp_minus_1)
    show ?thesis unfolding m by (intro bit_word_eqI) (auto simp: bit_simps)
  qed
  moreover have "unat (push_bit 12 (drop_bit 12 a)) = 4096 * (unat a div 4096)"
  proof -
    have "4096 * (unat a div 4096) < 4294967296"
      using times_div_less_eq_dividend [of 4096 "unat a"] unat_bound32 [of a] by (rule le_less_trans)
    then show ?thesis by (simp add: push_bit_eq_mult unat_word_ariths unat_drop_bit_div take_bit_nat_eq_self mult.commute)
  qed
  ultimately show ?thesis by simp
qed

lemma aligned_up:
  assumes "unat (a :: u32) < 4294963200" "a mod KERNEL_PAGE_SIZE \<noteq> 0"
  shows "unat ((a AND PAGEALIGN_MASK) + KERNEL_PAGE_SIZE) = 4096 * (unat a div 4096 + 1)"
  using assms(1) align_down [of a] by (subst unat_add32) (auto simp: KERNEL_PAGE_SIZE_def)

text \<open>Without alignment the placement allocator hands out the next bytes inside its region and panics when they do not fit.
  The test comes before the alignment, so an aligned request may end up to a page behind the region.\<close>

lemma placement_alignment_overrun:
  assumes "placement \<le> a" "unat placement + 0x201000 \<le> 4294963200" "unat a \<le> unat placement + 0x200000" "unat len \<le> 0x200000"
  shows "(if unat a + unat len \<le> unat placement + 0x200000
     then placement_Allocate placement len False a = Inr (a, a + len) \<and> unat (a + len) = unat a + unat len \<and>
       (\<exists>b. placement_Allocate placement len True a = Inr (b, b + len) \<and> 4096 dvd unat b \<and> a \<le> b \<and>
         unat b < unat a + 4096 \<and> unat (b + len) < unat placement + 0x200000 + 4096)
     else \<forall>align. placement_Allocate placement len align a = Inl PanicPlacement)
   \<and> placement_Allocate 0xC0200000 0xFF8 True 0xC03FF008 = Inr (0xC0400000, 0xC0400FF8)"
proof -
  have d: "unat (a - placement) = unat a - unat placement" using assms(1) by (rule unat_sub_le)
  have le: "unat placement \<le> unat a" using assms(1) by (simp add: word_le_nat_alt)
  have s: "unat (a - placement + len) = unat a - unat placement + unat len"
    using d le assms by (subst unat_add32) simp_all
  have test: "KERNEL_PLACEMENT_SIZE < GetPlacementAllocatedSize placement a + len \<longleftrightarrow> unat placement + 0x200000 < unat a + unat len"
    using le by (simp add: KERNEL_PLACEMENT_SIZE_def GetPlacementAllocatedSize_def word_less_nat_alt s) linarith
  have "\<exists>b. placement_Allocate placement len True a = Inr (b, b + len) \<and> 4096 dvd unat b \<and> a \<le> b \<and>
      unat b < unat a + 4096 \<and> unat (b + len) < unat placement + 0x200000 + 4096"
    if fit: "unat a + unat len \<le> unat placement + 0x200000"
  proof (cases "a mod KERNEL_PAGE_SIZE = 0")
    case True
    then have "unat a mod 4096 = 0" by (simp add: KERNEL_PAGE_SIZE_def word_eq_unat_iff unat_mod)
    then show ?thesis using fit True test assms(2) by (simp add: placement_Allocate_def unat_add32 mod_eq_0_iff_dvd)
  next
    case False
    let ?b = "(a AND PAGEALIGN_MASK) + KERNEL_PAGE_SIZE"
    have b: "unat ?b = 4096 * (unat a div 4096 + 1)" using assms(2,3) by (intro aligned_up False) simp
    have "unat (?b + len) = unat ?b + unat len" using b assms fit times_div_less_eq_dividend [of 4096 "unat a"] by (intro unat_add32) simp
    moreover have "unat a < 4096 * (unat a div 4096 + 1)" by simp
    moreover have "unat a mod 4096 \<noteq> 0" using False by (simp add: KERNEL_PAGE_SIZE_def word_eq_unat_iff unat_mod)
    then have "4096 * (unat a div 4096) < unat a" using mult_div_mod_eq [of 4096 "unat a"] by linarith
    ultimately show ?thesis using fit False test b
      by (intro exI [of _ ?b]) (simp add: placement_Allocate_def word_le_nat_alt Let_def)
  qed
  then show ?thesis using test assms
    by (simp add: placement_Allocate_def unat_add32 KERNEL_PLACEMENT_SIZE_def GetPlacementAllocatedSize_def
        KERNEL_PAGE_SIZE_def PAGEALIGN_MASK_def)
qed

lemma placement_alignment_overrun_example:
  "placement_Allocate 0xC0200000 0x100 False 0xC0200010 = Inr (0xC0200010, 0xC0200110) \<and>
    (\<exists>b. placement_Allocate 0xC0200000 0x100 True 0xC0200010 = Inr (b, b + 0x100) \<and> 4096 dvd unat b)"
  using placement_alignment_overrun [of "0xC0200000" "0xC0200010" "0x100"] by auto

end
