(* ===== verification/Buddy.thy ===== *)
theory Buddy
  imports FrameAllocator Allocator
begin

text \<open>
  The buddy allocator of the kernel (BuddyAllocatedMemoryRegion.cpp): a region of \<open>2 ^ maxOrder\<close> bytes is
  divided into blocks whose size is a power of two. A free block carries its order and the link to the next free
  block of its order in its first eight bytes; a bit field has one bit for every page of the region. The
  pages of the region are mapped when they are first touched, which the memory of the model does not show.
\<close>

section \<open>State\<close>

record buddy =
  bram :: mem
  startAddress :: u32
  maxOrder :: u32
  minOrder :: u32
  freeElements :: "u32 list"
  elementsAllocated :: bitfield

definition element_order :: "mem \<Rightarrow> u32 \<Rightarrow> u32" where
  "element_order m e = load32 m e"

definition element_next :: "mem \<Rightarrow> u32 \<Rightarrow> u32" where
  "element_next m e = load32 m (e + 4)"

definition set_element_order :: "u32 \<Rightarrow> u32 \<Rightarrow> buddy \<Rightarrow> buddy" where
  "set_element_order e v s = s\<lparr>bram := store32 (bram s) e v\<rparr>"

definition set_element_next :: "u32 \<Rightarrow> u32 \<Rightarrow> buddy \<Rightarrow> buddy" where
  "set_element_next e v s = s\<lparr>bram := store32 (bram s) (e + 4) v\<rparr>"

text \<open>The array of list heads has \<open>maxOrder + 1\<close> entries.\<close>

definition list_head :: "buddy \<Rightarrow> u32 \<Rightarrow> fault + u32" where
  "list_head s i =
     (if unat i < length (freeElements s) then Inr (freeElements s ! unat i) else Inl OutOfBounds)"

definition set_list_head :: "u32 \<Rightarrow> u32 \<Rightarrow> buddy \<Rightarrow> fault + buddy" where
  "set_list_head i v s =
     (if unat i < length (freeElements s) then Inr (s\<lparr>freeElements := (freeElements s)[unat i := v]\<rparr>) else Inl OutOfBounds)"

definition IsPowerOf2 :: "u32 \<Rightarrow> bool" where
  "IsPowerOf2 n \<longleftrightarrow> n AND (n - 1) = 0"

definition PAGE_SHIFT :: nat where
  "PAGE_SHIFT = 12"

definition GetBitmapIndex :: "buddy \<Rightarrow> u32 \<Rightarrow> u32" where
  "GetBitmapIndex s buddyStart = drop_bit PAGE_SHIFT (buddyStart - startAddress s)"

definition MarkElementFree :: "u32 \<Rightarrow> buddy \<Rightarrow> fault + buddy" where
  "MarkElementFree a s =
     rbind (ClearBit (GetBitmapIndex s a) (elementsAllocated s)) (\<lambda>b. Inr (s\<lparr>elementsAllocated := b\<rparr>))"

definition MarkElementAllocated :: "u32 \<Rightarrow> buddy \<Rightarrow> fault + buddy" where
  "MarkElementAllocated a s =
     rbind (SetBit (GetBitmapIndex s a) (elementsAllocated s)) (\<lambda>b. Inr (s\<lparr>elementsAllocated := b\<rparr>))"

definition IsElementFree :: "u32 \<Rightarrow> buddy \<Rightarrow> fault + bool" where
  "IsElementFree a s = rbind (IsBitSet (GetBitmapIndex s a) (elementsAllocated s)) (\<lambda>b. Inr (\<not> b))"

text \<open>\<open>1 << i\<close> of an int has a defined value for \<open>i\<close> below 32 only.\<close>

definition one_shifted :: "u32 \<Rightarrow> fault + u32" where
  "one_shifted i = (if unat i < 32 then Inr (push_bit (unat i) 1) else Inl UndefinedShift)"

section \<open>Operations\<close>

text \<open>The number of halvings of the region size.\<close>

function order_loop :: "u32 \<Rightarrow> u32 \<Rightarrow> u32" where
  "order_loop RegionSize k = (if 1 < RegionSize then order_loop (drop_bit 1 RegionSize) (k + 1) else k)"
  by pat_completeness auto
termination
  by (relation "measure (unat \<circ> fst)") (auto simp: unat_drop_bit_div word_less_nat_alt)

declare order_loop.simps [simp del]

text \<open>The constructor, without the call that maps the first page.\<close>

definition new_buddy :: "mem \<Rightarrow> u32 \<Rightarrow> u32 \<Rightarrow> u32 \<Rightarrow> fault + buddy" where
  "new_buddy m RegionStart RegionSize MinimumOrder =
     (if \<not> IsPowerOf2 RegionSize then Inl AssertFailed
      else
        (let k = order_loop RegionSize 0
         in rbind (one_shifted k) (\<lambda>size. rbind (one_shifted MinimumOrder) (\<lambda>block.
            (let s = \<lparr>bram = m, startAddress = RegionStart, maxOrder = k, minOrder = MinimumOrder,
                      freeElements = replicate (unat k + 1) 0, elementsAllocated = new_Bitfield (size div block)\<rparr>
             in set_list_head k RegionStart (set_element_next RegionStart 0 (set_element_order RegionStart k s)))))))"

text \<open>Splitting a block that is larger than the order asked for.\<close>

function split_loop :: "u32 \<Rightarrow> u32 \<Rightarrow> u32 \<Rightarrow> buddy \<Rightarrow> fault + buddy" where
  "split_loop a order i s =
     (if order < i then
        (let i = i - 1
         in rbind (one_shifted i) (\<lambda>d.
            (let buddy = a + d; s = set_element_order buddy i s
             in rbind (MarkElementFree buddy s) (\<lambda>s.
                rbind (list_head s i) (\<lambda>h.
                rbind (set_list_head i buddy (set_element_next buddy h s)) (\<lambda>s.
                split_loop a order i s))))))
      else Inr s)"
  by pat_completeness auto
termination
  by (relation "measure (\<lambda>(a, order, i, s). unat i)") (auto simp: word_less_nat_alt unat_sub_le word_le_nat_alt)

lemma unat_Suc_neq: "(i :: u32) \<noteq> - 1 \<Longrightarrow> unat (i + 1) = Suc (unat i)"
  using unat_Suc_less [of i "- 1"] word_order.extremum [of i] by (simp add: order_less_le)

lemma unat_Suc_dist: "(i :: u32) \<noteq> - 1 \<Longrightarrow> 4294967296 - unat (i + 1) < 4294967296 - unat i"
  using unat_bound32 [of i] unat_Suc_neq [of i] by linarith

function alloc_loop :: "u32 \<Rightarrow> u32 \<Rightarrow> buddy \<Rightarrow> fault + u32 \<times> buddy" where
  "alloc_loop order i s =
     (if i \<le> maxOrder s then
        rbind (list_head s i) (\<lambda>e.
        if e = 0 then (if i = - 1 then Inl Diverges else alloc_loop order (i + 1) s)
        else
          rbind (set_list_head i (element_next (bram s) e) s) (\<lambda>s.
          rbind (MarkElementAllocated e s) (\<lambda>s.
          rbind (split_loop e order i s) (\<lambda>s. Inr (e, s)))))
      else Inr (0, s))"
  by pat_completeness auto
termination
  by (relation "measure (\<lambda>(order, i, s). 4294967296 - unat i)") (simp_all add: unat_Suc_dist)

declare split_loop.simps [simp del] alloc_loop.simps [simp del]

definition AllocateBuddy :: "u32 \<Rightarrow> buddy \<Rightarrow> fault + u32 \<times> buddy" where
  "AllocateBuddy order s =
     (let order = order + minOrder s
      in if \<not> order \<le> maxOrder s then Inl AssertFailed else alloc_loop order order s)"

text \<open>Walking the list for the predecessor of an element; a null pointer is dereferenced when the list is empty.\<close>

partial_function (option) remove_loop :: "u32 \<Rightarrow> u32 \<Rightarrow> buddy \<Rightarrow> (fault + buddy) option" where
  "remove_loop cur toRemove s =
     (if cur = 0 then Some (Inl NullPointer)
      else if element_next (bram s) cur = 0 then Some (Inr s)
      else if element_next (bram s) cur = toRemove
        then Some (Inr (set_element_next cur (element_next (bram s) toRemove) s))
      else remove_loop (element_next (bram s) cur) toRemove s)"

definition RemoveFromList :: "u32 \<Rightarrow> u32 \<Rightarrow> buddy \<Rightarrow> (fault + buddy) option" where
  "RemoveFromList order toRemove s =
     (case list_head s order of Inl e \<Rightarrow> Some (Inl e) | Inr h \<Rightarrow>
        if h = toRemove then Some (set_list_head order (element_next (bram s) toRemove) s)
        else remove_loop h toRemove s)"

partial_function (option) merge_loop :: "u32 \<Rightarrow> u32 \<Rightarrow> buddy \<Rightarrow> (fault + u32 \<times> u32 \<times> buddy) option" where
  "merge_loop block order s =
     (if order < maxOrder s then
        (case one_shifted order of Inl e \<Rightarrow> Some (Inl e) | Inr d \<Rightarrow>
          (let buddy = ((block - startAddress s) XOR d) + startAddress s
           in case IsElementFree buddy s of Inl e \<Rightarrow> Some (Inl e) | Inr free \<Rightarrow>
              if \<not> free \<or> element_order (bram s) buddy \<noteq> order then Some (Inr (block, order, s))
              else Option.bind (RemoveFromList order buddy s) (\<lambda>r.
                case r of Inl e \<Rightarrow> Some (Inl e) | Inr s \<Rightarrow>
                  (let block = (if buddy < block then buddy else block); order = order + 1
                   in merge_loop block order (set_element_order block order s)))))
      else Some (Inr (block, order, s)))"

definition FreeBuddy :: "u32 \<Rightarrow> u32 \<Rightarrow> buddy \<Rightarrow> (fault + buddy) option" where
  "FreeBuddy addr order s =
     (let order = order + minOrder s
      in if addr = 0 \<or> \<not> order \<le> maxOrder s then Some (Inl AssertFailed)
         else
           (case IsElementFree addr s of Inl e \<Rightarrow> Some (Inl e) | Inr free \<Rightarrow>
              if free then Some (Inl AssertFailed)
              else Option.bind (merge_loop addr order s) (\<lambda>r.
                case r of Inl e \<Rightarrow> Some (Inl e) | Inr (block, order, s) \<Rightarrow>
                  Some (rbind (MarkElementFree block (set_element_order block order s)) (\<lambda>s.
                        rbind (list_head s order) (\<lambda>h.
                        set_list_head order block (set_element_next block h s)))))))"

section \<open>Blocks\<close>

text \<open>
  The abstract state: from the offset of a block in the region to its order and whether it is in use. Every
  offset below the size of the region is in exactly one block, and a block is aligned to its size.
\<close>

type_synonym blockmap = "nat \<Rightarrow> (nat \<times> bool) option"

definition sibling :: "nat \<Rightarrow> nat \<Rightarrow> nat" where
  "sibling x k = (if even (x div 2 ^ k) then x + 2 ^ k else x - 2 ^ k)"

definition tiling :: "nat \<Rightarrow> blockmap \<Rightarrow> bool" where
  "tiling M B \<longleftrightarrow>
     (\<forall>x k u. B x = Some (k, u) \<longrightarrow> 12 \<le> k \<and> k \<le> M \<and> 2 ^ k dvd x \<and> x + 2 ^ k \<le> 2 ^ M) \<and>
     (\<forall>y < 2 ^ M. \<exists>x k u. B x = Some (k, u) \<and> x \<le> y \<and> y < x + 2 ^ k) \<and>
     (\<forall>x k u x' k' u'. B x = Some (k, u) \<and> B x' = Some (k', u') \<and> x \<noteq> x' \<longrightarrow> x + 2 ^ k \<le> x' \<or> x' + 2 ^ k' \<le> x)"

text \<open>Free buddies of the same order are merged.\<close>

definition coalesced :: "nat \<Rightarrow> blockmap \<Rightarrow> bool" where
  "coalesced M B \<longleftrightarrow> (\<forall>x k. B x = Some (k, False) \<and> k < M \<longrightarrow> B (sibling x k) \<noteq> Some (k, False))"

lemma tiling_block: "tiling M B \<Longrightarrow> B x = Some (k, u) \<Longrightarrow> 12 \<le> k \<and> k \<le> M \<and> 2 ^ k dvd x \<and> x + 2 ^ k \<le> 2 ^ M"
  unfolding tiling_def by blast

lemma tiling_cover: "tiling M B \<Longrightarrow> y < 2 ^ M \<Longrightarrow> \<exists>x k u. B x = Some (k, u) \<and> x \<le> y \<and> y < x + 2 ^ k"
  unfolding tiling_def by blast

lemma tiling_apart: "tiling M B \<Longrightarrow> B x = Some (k, u) \<Longrightarrow> B x' = Some (k', u') \<Longrightarrow> x \<noteq> x' \<Longrightarrow> x + 2 ^ k \<le> x' \<or> x' + 2 ^ k' \<le> x"
  unfolding tiling_def by blast

lemma sibling_cases:
  assumes "2 ^ k dvd x"
  obtains c where "x = 2 ^ k * (2 * c)" "sibling x k = 2 ^ k * (2 * c + 1)"
  | c where "x = 2 ^ k * (2 * c + 1)" "sibling x k = 2 ^ k * (2 * c)"
proof -
  obtain b where b: "x = 2 ^ k * b" using assms by (elim dvdE)
  then have s: "sibling x k = (if even b then 2 ^ k * (b + 1) else 2 ^ k * (b - 1))"
    by (simp add: sibling_def algebra_simps diff_mult_distrib2)
  show ?thesis
  proof (cases "even b")
    case True
    then obtain c where "b = 2 * c" by (elim evenE)
    then show ?thesis using b s that(1) [of c] by simp
  next
    case False
    then obtain c where "b = 2 * c + 1" by (elim oddE)
    then show ?thesis using b s that(2) [of c] by simp
  qed
qed

lemma sibling_facts:
  assumes "2 ^ k dvd x"
  shows "2 ^ k dvd sibling x k" "sibling (sibling x k) k = x" "sibling x k \<noteq> x"
    "2 ^ Suc k dvd min x (sibling x k)" "max x (sibling x k) = min x (sibling x k) + 2 ^ k"
proof -
  have "2 ^ k dvd sibling x k \<and> sibling (sibling x k) k = x \<and> sibling x k \<noteq> x \<and>
      2 ^ Suc k dvd min x (sibling x k) \<and> max x (sibling x k) = min x (sibling x k) + 2 ^ k"
    by (rule sibling_cases [OF assms]) (auto simp: sibling_def algebra_simps min_def max_def)
  then show "2 ^ k dvd sibling x k" "sibling (sibling x k) k = x" "sibling x k \<noteq> x"
    "2 ^ Suc k dvd min x (sibling x k)" "max x (sibling x k) = min x (sibling x k) + 2 ^ k" by simp_all
qed

text \<open>Aligned intervals are apart or nested.\<close>

lemma dyadic:
  assumes "2 ^ j dvd (x :: nat)" "2 ^ k dvd y" "j \<le> k" "y < x + 2 ^ j" "x < y + 2 ^ k"
  shows "y \<le> x \<and> x + 2 ^ j \<le> y + 2 ^ k"
proof -
  obtain c where c: "(2 :: nat) ^ k = 2 ^ j * c" using le_imp_power_dvd [OF assms(3), of 2] by (elim dvdE)
  obtain a b where ab: "x = 2 ^ j * a" "y = 2 ^ k * b" using assms(1,2) by (elim dvdE)
  have y: "y = 2 ^ j * (c * b)" by (simp add: ab c)
  have "2 ^ j * (c * b) < 2 ^ j * (a + 1)" "2 ^ j * a < 2 ^ j * (c * b + c)"
    using assms(4,5) by (simp_all add: y c ab(1) algebra_simps)
  then have "c * b \<le> a" "a + 1 \<le> c * b + c" unfolding nat_mult_less_cancel_disj by simp_all
  then have "2 ^ j * (c * b) \<le> 2 ^ j * a" "2 ^ j * (a + 1) \<le> 2 ^ j * (c * b + c)" by (intro mult_le_mono2; simp)+
  then show ?thesis by (simp add: y c ab(1) algebra_simps)
qed

text \<open>The buddy of a block is the start of a block that is not larger.\<close>

lemma sibling_in_region:
  assumes "2 ^ k dvd x" "k < M" "x + 2 ^ k \<le> 2 ^ M"
  shows "sibling x k + 2 ^ k \<le> 2 ^ M"
proof -
  let ?m = "min x (sibling x k)"
  have m: "2 ^ Suc k dvd ?m" using sibling_facts(4) [OF assms(1)] .
  have "?m + 2 ^ Suc k \<le> 0 + 2 ^ M"
  proof (rule dyadic [THEN conjunct2])
    show "2 ^ Suc k dvd ?m" by (rule m)
    show "Suc k \<le> M" using assms(2) by simp
    show "0 < ?m + 2 ^ Suc k" by simp
    show "?m < 0 + 2 ^ M" by (rule le_less_trans [OF min.cobounded1]) (use assms(3) in \<open>simp add: less_le_trans [of x "x + 2 ^ k"]\<close>)
  qed simp
  then show ?thesis using sibling_facts(5) [OF assms(1)] by (simp add: max_def min_def split: if_splits)
qed

lemma sibling_block:
  assumes "tiling M B" "B x = Some (k, u)" "k < M"
  shows "\<exists>k' u'. B (sibling x k) = Some (k', u') \<and> k' \<le> k"
proof -
  let ?y = "sibling x k"
  have x: "2 ^ k dvd x" "x + 2 ^ k \<le> 2 ^ M" using tiling_block [OF assms(1,2)] by simp_all
  note f = sibling_facts [OF x(1)]
  have y: "?y + 2 ^ k \<le> 2 ^ M" by (rule sibling_in_region [OF x(1) assms(3) x(2)])
  have "?y < ?y + 2 ^ k" by simp
  with y have "?y < 2 ^ M" by (rule less_le_trans [rotated])
  then obtain z j v where z: "B z = Some (j, v)" "z \<le> ?y" "?y < z + 2 ^ j" using tiling_cover [OF assms(1)] by blast
  have j: "2 ^ j dvd z" using tiling_block [OF assms(1) z(1)] by simp
  have le: "j \<le> k"
  proof (rule ccontr)
    assume "\<not> j \<le> k"
    let ?m = "min x ?y"
    have "?m \<le> ?y" "?y < ?m + 2 ^ Suc k" using f(5) by (auto simp: min_def max_def split: if_splits)
    then have "z \<le> ?m \<and> ?m + 2 ^ Suc k \<le> z + 2 ^ j"
      using \<open>\<not> j \<le> k\<close> z by (intro dyadic [OF f(4) j]) simp_all
    moreover have "?m \<le> x" "x < ?m + 2 ^ Suc k" using f(5) by (auto simp: min_def max_def split: if_splits)
    ultimately have in_z: "z \<le> x" "x < z + 2 ^ j" by simp_all
    have "z = x" using tiling_apart [OF assms(1,2) z(1)] in_z by fastforce
    then show False using assms(2) z(1) \<open>\<not> j \<le> k\<close> by simp
  qed
  have "?y \<le> z \<and> z + 2 ^ j \<le> ?y + 2 ^ k" using z(3) le le_less_trans [OF z(2) \<open>?y < ?y + 2 ^ k\<close>] by (intro dyadic [OF j f(1)])
  with z(2) have "z = ?y" by simp
  then show ?thesis using z(1) le by auto
qed

text \<open>Changing the use of a block, halving a block, joining two halves.\<close>

lemma inside_None: "tiling M B \<Longrightarrow> B x = Some (k, u) \<Longrightarrow> x < y \<Longrightarrow> y < x + 2 ^ k \<Longrightarrow> B y = None"
proof (rule ccontr)
  assume a: "tiling M B" "B x = Some (k, u)" "x < y" "y < x + 2 ^ k" "B y \<noteq> None"
  then obtain j v where y: "B y = Some (j, v)" by auto
  have "y < y + 2 ^ j" by simp
  with tiling_apart [OF a(1,2) y] a(3,4) show False by linarith
qed

lemma tiling_retag:
  assumes t: "tiling M B" and x: "B x = Some (k, u)"
  shows "tiling M (B(x \<mapsto> (k, v)))"
proof -
  let ?B = "B(x \<mapsto> (k, v))"
  have old: "\<exists>r. B z = Some (j, r)" if "?B z = Some (j, w)" for z j w using that x by (auto split: if_splits)
  have "12 \<le> j \<and> j \<le> M \<and> 2 ^ j dvd z \<and> z + 2 ^ j \<le> 2 ^ M" if "?B z = Some (j, w)" for z j w
    using old [OF that] tiling_block [OF t] by blast
  moreover have "\<exists>z j w. ?B z = Some (j, w) \<and> z \<le> y \<and> y < z + 2 ^ j" if y: "y < 2 ^ M" for y
  proof -
    obtain z j w where z: "B z = Some (j, w)" "z \<le> y" "y < z + 2 ^ j" using tiling_cover [OF t y] by blast
    then have "\<exists>w'. ?B z = Some (j, w')" using x by auto
    then show ?thesis using z by blast
  qed
  moreover have "z + 2 ^ j \<le> z' \<or> z' + 2 ^ j' \<le> z" if "?B z = Some (j, r)" "?B z' = Some (j', r')" "z \<noteq> z'" for z j r z' j' r'
    using old [OF that(1)] old [OF that(2)] that(3) tiling_apart [OF t] by blast
  ultimately show ?thesis unfolding tiling_def by blast
qed

lemma coalesced_retag:
  assumes "coalesced M B" "tiling M B" "B x = Some (k, u)" "\<not> v \<Longrightarrow> k < M \<Longrightarrow> B (sibling x k) \<noteq> Some (k, False)"
  shows "coalesced M (B(x \<mapsto> (k, v)))"
  unfolding coalesced_def
proof (intro allI impI)
  fix y j
  assume y: "(B(x \<mapsto> (k, v))) y = Some (j, False) \<and> j < M"
  have x: "sibling x k \<noteq> x" using tiling_block [OF assms(2,3)] sibling_facts(3) [of k x] by simp
  show "(B(x \<mapsto> (k, v))) (sibling y j) \<noteq> Some (j, False)"
  proof (cases "y = x")
    case True
    then show ?thesis using y assms(4) x by auto
  next
    case False
    then have y': "B y = Some (j, False)" using y by simp
    then have "sibling (sibling y j) j = y" using tiling_block [OF assms(2) y'] by (intro sibling_facts(2)) simp
    then show ?thesis using assms(1,4) y y' unfolding coalesced_def by (cases "sibling y j = x") auto
  qed
qed

lemma tiling_halve:
  assumes t: "tiling M B" and x: "B x = Some (Suc j, u)" and j: "12 \<le> j"
  shows "tiling M (B(x \<mapsto> (j, v), x + 2 ^ j \<mapsto> (j, w)))"
proof -
  let ?B = "B(x \<mapsto> (j, v), x + 2 ^ j \<mapsto> (j, w))"
  note xb = tiling_block [OF t x]
  have new: "z = x \<and> k = j \<or> z = x + 2 ^ j \<and> k = j \<or> z \<noteq> x \<and> z \<noteq> x + 2 ^ j \<and> B z = Some (k, r)"
    if "?B z = Some (k, r)" for z k r
    using that by (auto split: if_splits)
  have dvd: "2 ^ j dvd x" using xb by (auto intro: power_le_dvd [of 2 "Suc j"])
  have "12 \<le> k \<and> k \<le> M \<and> 2 ^ k dvd z \<and> z + 2 ^ k \<le> 2 ^ M" if "?B z = Some (k, r)" for z k r
    using new [OF that] xb dvd j tiling_block [OF t, of z k r] by auto
  moreover have "\<exists>z k r. ?B z = Some (k, r) \<and> z \<le> y \<and> y < z + 2 ^ k" if y: "y < 2 ^ M" for y
  proof -
    obtain z k r where z: "B z = Some (k, r)" "z \<le> y" "y < z + 2 ^ k" using tiling_cover [OF t y] by blast
    show ?thesis
    proof (cases "z = x")
      case True
      then have "y < x + 2 ^ j \<or> x + 2 ^ j \<le> y \<and> y < x + 2 ^ j + 2 ^ j" using z x by auto
      then show ?thesis using True z(2) by (cases "y < x + 2 ^ j") (force+)
    next
      case False
      moreover have "z \<noteq> x + 2 ^ j" using z(1) inside_None [OF t x, of z] by auto
      ultimately have "?B z = Some (k, r)" using z(1) by simp
      then show ?thesis using z by blast
    qed
  qed
  moreover have "z + 2 ^ k \<le> z' \<or> z' + 2 ^ k' \<le> z"
    if a: "?B z = Some (k, r)" "?B z' = Some (k', r')" "z \<noteq> z'" for z k r z' k' r'
    using new [OF a(1)] new [OF a(2)] a(3) tiling_apart [OF t, of z k r z' k' r'] tiling_apart [OF t x, of z k r]
      tiling_apart [OF t x, of z' k' r'] by auto
  ultimately show ?thesis unfolding tiling_def by blast
qed

lemma tiling_join:
  assumes t: "tiling M B" and x: "B x = Some (k, u)" "B (x + 2 ^ k) = Some (k, v)" "2 ^ Suc k dvd x" "k < M"
  shows "tiling M (B(x \<mapsto> (Suc k, w), x + 2 ^ k := None))"
proof -
  let ?B = "B(x \<mapsto> (Suc k, w), x + 2 ^ k := None)"
  note lo = tiling_block [OF t x(1)] and hi = tiling_block [OF t x(2)]
  have new: "z = x \<and> j = Suc k \<or> z \<noteq> x \<and> z \<noteq> x + 2 ^ k \<and> B z = Some (j, r)" if "?B z = Some (j, r)" for z j r
    using that by (auto split: if_splits)
  have "12 \<le> j \<and> j \<le> M \<and> 2 ^ j dvd z \<and> z + 2 ^ j \<le> 2 ^ M" if "?B z = Some (j, r)" for z j r
    using new [OF that] lo hi x(3,4) tiling_block [OF t, of z j r] by auto
  moreover have "\<exists>z j r. ?B z = Some (j, r) \<and> z \<le> y \<and> y < z + 2 ^ j" if y: "y < 2 ^ M" for y
  proof -
    obtain z j r where z: "B z = Some (j, r)" "z \<le> y" "y < z + 2 ^ j" using tiling_cover [OF t y] by blast
    show ?thesis
    proof (cases "z = x \<or> z = x + 2 ^ k")
      case True
      then have "x \<le> y \<and> y < x + 2 ^ Suc k" using z x by auto
      then show ?thesis by (intro exI [of _ x] exI [of _ "Suc k"] exI [of _ w]) simp
    next
      case False
      then show ?thesis using z by (intro exI [of _ z] exI [of _ j] exI [of _ r]) simp
    qed
  qed
  moreover have "z + 2 ^ j \<le> z' \<or> z' + 2 ^ j' \<le> z"
    if a: "?B z = Some (j, r)" "?B z' = Some (j', r')" "z \<noteq> z'" for z j r z' j' r'
    using new [OF a(1)] new [OF a(2)] a(3) tiling_apart [OF t, of z j r z' j' r']
      tiling_apart [OF t x(1), of z j r] tiling_apart [OF t x(1), of z' j' r']
      tiling_apart [OF t x(2), of z j r] tiling_apart [OF t x(2), of z' j' r'] by auto
  ultimately show ?thesis unfolding tiling_def by blast
qed

lemma coalesced_halve:
  assumes c: "coalesced M B" and t: "tiling M B" and x: "B x = Some (Suc j, True)"
  shows "coalesced M (B(x \<mapsto> (j, True), x + 2 ^ j \<mapsto> (j, False)))"
  unfolding coalesced_def
proof (intro allI impI)
  let ?B = "B(x \<mapsto> (j, True), x + 2 ^ j \<mapsto> (j, False))"
  fix y k
  assume y: "?B y = Some (k, False) \<and> k < M"
  have dvd: "2 ^ Suc j dvd x" using tiling_block [OF t x] by simp
  then obtain b where "x = 2 ^ Suc j * b" by (elim dvdE)
  then have sib: "sibling (x + 2 ^ j) j = x" by (simp add: sibling_def algebra_simps)
  show "?B (sibling y k) \<noteq> Some (k, False)"
  proof (cases "y = x + 2 ^ j")
    case True
    then show ?thesis using y sib by simp
  next
    case False
    then have y': "B y = Some (k, False)" "y \<noteq> x" using y by (auto split: if_splits)
    then have "2 ^ k dvd y" using tiling_block [OF t] by blast
    then have "sibling y k = x + 2 ^ j \<Longrightarrow> k \<noteq> j" using sibling_facts(2) [of k y] sib y'(2) by auto
    then show ?thesis using c y y' unfolding coalesced_def by auto
  qed
qed

lemma coalesced_join:
  assumes c: "coalesced M B"
  shows "coalesced M (B(x \<mapsto> (Suc k, True), z := None))"
  using c unfolding coalesced_def by auto

section \<open>Lists, tags and the invariant\<close>

definition block_address :: "buddy \<Rightarrow> nat \<Rightarrow> u32" where
  "block_address s x = startAddress s + of_nat x"

primrec linked_to :: "mem \<Rightarrow> u32 \<Rightarrow> u32 list \<Rightarrow> bool" where
  "linked_to m h [] \<longleftrightarrow> h = 0"
| "linked_to m h (e # es) \<longleftrightarrow> h = e \<and> e \<noteq> 0 \<and> linked_to m (element_next m e) es"

lemma linked_to_cong: "(\<And>e. e \<in> set es \<Longrightarrow> element_next m' e = element_next m e) \<Longrightarrow> linked_to m' h es = linked_to m h es"
  by (induction es arbitrary: h) auto

definition frees :: "buddy \<Rightarrow> blockmap \<Rightarrow> nat \<Rightarrow> u32 set" where
  "frees s B k = {block_address s x |x. B x = Some (k, False)}"

definition buddy_shape :: "buddy \<Rightarrow> bool" where
  "buddy_shape s \<longleftrightarrow> minOrder s = 12 \<and> 12 \<le> unat (maxOrder s) \<and> unat (maxOrder s) \<le> 31 \<and> startAddress s \<noteq> 0 \<and>
     unat (startAddress s) + 2 ^ unat (maxOrder s) \<le> 4294967296 \<and> length (freeElements s) = unat (maxOrder s) + 1 \<and>
     bitfield_ok (elementsAllocated s) \<and> unat (numElements (elementsAllocated s)) = 2 ^ (unat (maxOrder s) - 12)"

definition lists_ok :: "buddy \<Rightarrow> blockmap \<Rightarrow> bool" where
  "lists_ok s B \<longleftrightarrow> (\<forall>k \<le> unat (maxOrder s). \<exists>es. linked_to (bram s) (freeElements s ! k) es \<and> distinct es \<and> set es = frees s B k)"

definition orders_ok :: "buddy \<Rightarrow> blockmap \<Rightarrow> bool" where
  "orders_ok s B \<longleftrightarrow> (\<forall>x k. B x = Some (k, False) \<longrightarrow> element_order (bram s) (block_address s x) = of_nat k)"

text \<open>The bit of a block says whether it is in use; \<open>H\<close> holds the blocks an operation is working on.\<close>

definition bits_ok :: "buddy \<Rightarrow> blockmap \<Rightarrow> nat set \<Rightarrow> bool" where
  "bits_ok s B H \<longleftrightarrow> (\<forall>x k u. B x = Some (k, u) \<and> x \<notin> H \<longrightarrow> (x div 4096 \<in> set_bits (elementsAllocated s) \<longleftrightarrow> u))"

definition working :: "buddy \<Rightarrow> blockmap \<Rightarrow> nat set \<Rightarrow> bool" where
  "working s B H \<longleftrightarrow> buddy_shape s \<and> tiling (unat (maxOrder s)) B \<and> coalesced (unat (maxOrder s)) B \<and>
     lists_ok s B \<and> orders_ok s B \<and> bits_ok s B H"

definition buddy_inv :: "buddy \<Rightarrow> blockmap \<Rightarrow> bool" where
  "buddy_inv s B \<longleftrightarrow> working s B {}"

lemma workingD:
  assumes "working s B H"
  shows "buddy_shape s" "tiling (unat (maxOrder s)) B" "coalesced (unat (maxOrder s)) B" "lists_ok s B" "orders_ok s B" "bits_ok s B H"
  using assms by (simp_all add: working_def)

lemma shapeD:
  assumes "buddy_shape s"
  shows "minOrder s = 12" "12 \<le> unat (maxOrder s)" "unat (maxOrder s) \<le> 31" "startAddress s \<noteq> 0"
    "unat (startAddress s) + 2 ^ unat (maxOrder s) \<le> 4294967296" "length (freeElements s) = unat (maxOrder s) + 1"
    "bitfield_ok (elementsAllocated s)" "unat (numElements (elementsAllocated s)) = 2 ^ (unat (maxOrder s) - 12)"
  using assms by (simp_all add: buddy_shape_def)

lemma page_dvd: "12 \<le> k \<Longrightarrow> 2 ^ k dvd (x :: nat) \<Longrightarrow> 4096 dvd x"
  using power_le_dvd [of 2 k x 12] by simp

lemma page_le: "12 \<le> k \<Longrightarrow> (4096 :: nat) \<le> 2 ^ k"
  using power_increasing [of 12 k "2 :: nat"] by simp

lemma unat_block_address:
  assumes "buddy_shape s" "x < 2 ^ unat (maxOrder s)"
  shows "unat (block_address s x) = unat (startAddress s) + x" "unat (block_address s x - startAddress s) = x" "block_address s x \<noteq> 0"
proof -
  note sh = shapeD [OF assms(1)]
  show u: "unat (block_address s x) = unat (startAddress s) + x"
    unfolding block_address_def using assms(2) sh(5) by (intro unat_add_of_nat32) simp
  have "x < 4294967296" using assms(2) sh(5) by simp
  then show "unat (block_address s x - startAddress s) = x" by (simp add: block_address_def unat_of_nat32)
  have "unat (startAddress s) \<noteq> 0" using sh(4) by simp
  with u have "unat (block_address s x) \<noteq> 0" by linarith
  then show "block_address s x \<noteq> 0" by (metis unat_0)
qed

lemma block_start: "tiling M B \<Longrightarrow> B x = Some (k, u) \<Longrightarrow> x < 2 ^ M"
proof -
  assume "tiling M B" "B x = Some (k, u)"
  then have "x + 2 ^ k \<le> 2 ^ M" using tiling_block [of M B x k u] by simp
  moreover have "x < x + 2 ^ k" by simp
  ultimately show ?thesis by (rule less_le_trans [rotated])
qed

lemma block_address_inj:
  assumes "buddy_shape s" "x < 2 ^ unat (maxOrder s)" "y < 2 ^ unat (maxOrder s)"
  shows "block_address s x = block_address s y \<longleftrightarrow> x = y"
  using unat_block_address(2) [OF assms(1,2)] unat_block_address(2) [OF assms(1,3)] by metis

lemma blocks_apart:
  assumes "buddy_shape s" "tiling (unat (maxOrder s)) B" "B x = Some (k, u)" "B y = Some (j, v)" "x \<noteq> y"
  shows "sep (block_address s x) (2 ^ k) (block_address s y) (2 ^ j)"
proof -
  note b = tiling_block [OF assms(2,3)] tiling_block [OF assms(2,4)]
  note lt = block_start [OF assms(2,3)] block_start [OF assms(2,4)]
  note a = unat_block_address(1) [OF assms(1) lt(1)] unat_block_address(1) [OF assms(1) lt(2)]
  from tiling_apart [OF assms(2-5)] show ?thesis
  proof
    assume "x + 2 ^ k \<le> y"
    then show ?thesis using b a shapeD(5) [OF assms(1)] by (intro sep_below) simp_all
  next
    assume "y + 2 ^ j \<le> x"
    then show ?thesis using b a shapeD(5) [OF assms(1)] by (intro sep_above) simp_all
  qed
qed

text \<open>The bit of a block.\<close>

lemma bitmap_index:
  assumes "buddy_shape s" "x < 2 ^ unat (maxOrder s)"
  shows "unat (GetBitmapIndex s (block_address s x)) = x div 4096" "GetBitmapIndex s (block_address s x) < numElements (elementsAllocated s)"
proof -
  show i: "unat (GetBitmapIndex s (block_address s x)) = x div 4096"
    using unat_block_address(2) [OF assms] by (simp add: GetBitmapIndex_def PAGE_SHIFT_def unat_drop_bit_div)
  have "(2 :: nat) ^ unat (maxOrder s) = 4096 * 2 ^ (unat (maxOrder s) - 12)"
    using power_add [of "2 :: nat" 12 "unat (maxOrder s) - 12"] shapeD(2) [OF assms(1)] by simp
  then have "x div 4096 < 2 ^ (unat (maxOrder s) - 12)" using assms(2) by (simp add: less_mult_imp_div_less mult.commute)
  then show "GetBitmapIndex s (block_address s x) < numElements (elementsAllocated s)"
    by (simp add: word_less_nat_alt i shapeD(8) [OF assms(1)])
qed

lemma IsElementFree_bit:
  assumes "buddy_shape s" "x < 2 ^ unat (maxOrder s)"
  shows "IsElementFree (block_address s x) s = Inr (x div 4096 \<notin> set_bits (elementsAllocated s))"
  using IsBitSet_member [OF shapeD(7) [OF assms(1)] bitmap_index(2) [OF assms]] bitmap_index(1) [OF assms]
  by (simp add: IsElementFree_def)

lemma Mark_bit:
  assumes "buddy_shape s" "x < 2 ^ unat (maxOrder s)"
  shows "\<exists>b. MarkElementFree (block_address s x) s = Inr (s\<lparr>elementsAllocated := b\<rparr>) \<and> bitfield_ok b \<and>
      numElements b = numElements (elementsAllocated s) \<and> set_bits b = set_bits (elementsAllocated s) - {x div 4096}"
    "\<exists>b. MarkElementAllocated (block_address s x) s = Inr (s\<lparr>elementsAllocated := b\<rparr>) \<and> bitfield_ok b \<and>
      numElements b = numElements (elementsAllocated s) \<and> set_bits b = insert (x div 4096) (set_bits (elementsAllocated s))"
  using ClearBit_removes [OF shapeD(7) [OF assms(1)] bitmap_index(2) [OF assms]]
    SetBit_inserts [OF shapeD(7) [OF assms(1)] bitmap_index(2) [OF assms]] bitmap_index(1) [OF assms]
  by (auto simp: MarkElementFree_def MarkElementAllocated_def)

text \<open>Different blocks have different bits.\<close>

lemma block_bit_inj:
  assumes "tiling M B" "B x = Some (k, u)" "B y = Some (j, v)"
  shows "x div 4096 = y div 4096 \<longleftrightarrow> x = y"
proof -
  have "4096 dvd x" "4096 dvd y"
    using tiling_block [OF assms(1,2)] tiling_block [OF assms(1,3)] page_dvd by blast+
  then show ?thesis by (metis dvd_div_mult_self)
qed


text \<open>Writes into a block that is not free.\<close>

definition same_region :: "buddy \<Rightarrow> buddy \<Rightarrow> bool" where
  "same_region s s' \<longleftrightarrow> startAddress s' = startAddress s \<and> maxOrder s' = maxOrder s \<and> minOrder s' = minOrder s"

lemma same_region_address: "same_region s s' \<Longrightarrow> block_address s' x = block_address s x \<and> frees s' B k = frees s B k"
  by (simp add: same_region_def block_address_def frees_def)

lemma same_region_trans: "same_region s s' \<Longrightarrow> same_region s' s'' \<Longrightarrow> same_region s s''"
  by (simp add: same_region_def)

lemma same_region_refl [simp]: "same_region s s"
  by (simp add: same_region_def)

text \<open>The tag of a block: its order and link.\<close>

lemma tag_sep:
  assumes "buddy_shape s" "tiling (unat (maxOrder s)) B" "B x = Some (k, u)" "B y = Some (j, v)" "x \<noteq> y"
  shows "sep (block_address s x) 4 (block_address s y) 4" "sep (block_address s x + 4) 4 (block_address s y) 4"
    "sep (block_address s x) 4 (block_address s y + 4) 4" "sep (block_address s x + 4) 4 (block_address s y + 4) 4"
proof -
  have "8 \<le> (2 :: nat) ^ k" "8 \<le> (2 :: nat) ^ j"
    using tiling_block [OF assms(2,3)] tiling_block [OF assms(2,4)] page_le [of k] page_le [of j] by auto
  with blocks_apart [OF assms] have e: "sep (block_address s x) 8 (block_address s y) 8" by (rule sep_mono)
  show "sep (block_address s x) 4 (block_address s y) 4" using e by (rule sep_mono) simp_all
  have e4: "sep (block_address s x + 4) 4 (block_address s y) 8" using sep_sub [OF e, of 4 4] by simp
  then show "sep (block_address s x + 4) 4 (block_address s y) 4" by (rule sep_mono) simp_all
  show "sep (block_address s x + 4) 4 (block_address s y + 4) 4" using sep_sub2 [OF e4, of 4 4] by simp
  have "sep (block_address s x) 8 (block_address s y + 4) 4" using sep_sub2 [OF e, of 4 4] by simp
  then show "sep (block_address s x) 4 (block_address s y + 4) 4" by (rule sep_mono) simp_all
qed

lemma tag_in_block:
  assumes "buddy_shape s" "tiling (unat (maxOrder s)) B" "B x = Some (k, u)" "B y = Some (j, v)" "x \<noteq> y"
  shows "sep (block_address s x) 4 (block_address s y) (2 ^ j)" "sep (block_address s x + 4) 4 (block_address s y) (2 ^ j)"
proof -
  have "8 \<le> (2 :: nat) ^ k" using tiling_block [OF assms(2,3)] page_le [of k] by auto
  with blocks_apart [OF assms] have e: "sep (block_address s x) 8 (block_address s y) (2 ^ j)" by (rule sep_mono) simp
  show "sep (block_address s x) 4 (block_address s y) (2 ^ j)" using e by (rule sep_mono) simp_all
  show "sep (block_address s x + 4) 4 (block_address s y) (2 ^ j)" using sep_sub [OF e, of 4 4] by simp
qed

lemma store_other_tag:
  assumes "buddy_shape s" "tiling (unat (maxOrder s)) B" "B x = Some (k, u)" "B y = Some (j, v)" "x \<noteq> y"
    and "p = block_address s x \<or> p = block_address s x + 4"
  shows "element_order (store32 m p w) (block_address s y) = element_order m (block_address s y)"
    "element_next (store32 m p w) (block_address s y) = element_next m (block_address s y)"
  using tag_sep [OF assms(1-5)] assms(6)
  by (auto simp: element_order_def element_next_def intro!: c32.load_store_sep)

lemma store_other_block:
  assumes "buddy_shape s" "tiling (unat (maxOrder s)) B" "B x = Some (k, u)" "B y = Some (j, v)" "x \<noteq> y"
    and "p = block_address s x \<or> p = block_address s x + 4"
  shows "agree m (store32 m p w) (block_address s y) (2 ^ j)"
  using tag_in_block [OF assms(1-5)] assms(6) by (auto intro: store32_frame)

lemma store_used:
  assumes w: "working s B H" and x: "B x = Some (k, True)"
    and p: "p = block_address s x \<or> p = block_address s x + 4" and s': "s' = s\<lparr>bram := store32 (bram s) p v\<rparr>"
  shows "working s' B H"
proof -
  note d = workingD [OF w]
  have sh: "buddy_shape s'" using d(1) by (simp add: s' buddy_shape_def)
  have ad: "block_address s' y = block_address s y" "frees s' B j = frees s B j" for y j
    by (simp_all add: s' block_address_def frees_def)
  have tag: "element_order (bram s') (block_address s y) = element_order (bram s) (block_address s y)"
      "element_next (bram s') (block_address s y) = element_next (bram s) (block_address s y)" if y: "B y = Some (j, False)" for y j
  proof -
    have neq: "x \<noteq> y" using x y by auto
    show "element_order (bram s') (block_address s y) = element_order (bram s) (block_address s y)"
      "element_next (bram s') (block_address s y) = element_next (bram s) (block_address s y)"
      using store_other_tag [OF d(1,2) x y neq p] by (simp_all add: s')
  qed
  have "lists_ok s' B"
    unfolding lists_ok_def
  proof (intro allI impI)
    fix j
    assume "j \<le> unat (maxOrder s')"
    then obtain es where es: "linked_to (bram s) (freeElements s ! j) es" "distinct es" "set es = frees s B j"
      using d(4) by (auto simp: lists_ok_def s')
    have "linked_to (bram s') (freeElements s ! j) es = linked_to (bram s) (freeElements s ! j) es"
      using es(3) tag(2) by (intro linked_to_cong) (auto simp: frees_def)
    then show "\<exists>es. linked_to (bram s') (freeElements s' ! j) es \<and> distinct es \<and> set es = frees s' B j"
      using es ad(2) by (auto simp: s')
  qed
  moreover have "orders_ok s' B" using d(5) tag(1) by (auto simp: orders_ok_def ad)
  moreover have "bits_ok s' B H" using d(6) by (simp add: bits_ok_def s')
  moreover have "maxOrder s' = maxOrder s" by (simp add: s')
  ultimately show ?thesis using sh d by (simp add: working_def)
qed


lemma lists_okE:
  assumes "lists_ok s B" "k \<le> unat (maxOrder s)"
  obtains es where "linked_to (bram s) (freeElements s ! k) es" "distinct es" "set es = frees s B k"
  using assms by (auto simp: lists_ok_def)

lemma frees_retag:
  assumes "buddy_shape s" "tiling (unat (maxOrder s)) B" "B x = Some (k, u)"
  shows "frees s (B(x \<mapsto> (k, False))) k = insert (block_address s x) (frees s B k)"
    "frees s (B(x \<mapsto> (k, True))) k = frees s B k - {block_address s x}"
    "j \<noteq> k \<Longrightarrow> frees s (B(x \<mapsto> (k, v))) j = frees s B j"
proof -
  have ne: "block_address s y \<noteq> block_address s x" if "B y = Some w" "y \<noteq> x" for y w
  proof -
    have "y < 2 ^ unat (maxOrder s)" using block_start [OF assms(2), of y] that by (cases w) auto
    then show ?thesis using block_address_inj [OF assms(1) _ block_start [OF assms(2,3)]] that by simp
  qed
  show "frees s (B(x \<mapsto> (k, False))) k = insert (block_address s x) (frees s B k)" by (auto simp: frees_def)
  show "frees s (B(x \<mapsto> (k, True))) k = frees s B k - {block_address s x}"
  proof (intro set_eqI iffI)
    fix a
    assume "a \<in> frees s (B(x \<mapsto> (k, True))) k"
    then obtain y where "a = block_address s y" "y \<noteq> x" "B y = Some (k, False)" by (auto simp: frees_def split: if_splits)
    then show "a \<in> frees s B k - {block_address s x}" using ne by (auto simp: frees_def)
  next
    fix a
    assume "a \<in> frees s B k - {block_address s x}"
    then obtain y where "a = block_address s y" "y \<noteq> x" "B y = Some (k, False)" by (auto simp: frees_def)
    then show "a \<in> frees s (B(x \<mapsto> (k, True))) k" by (auto simp: frees_def)
  qed
  show "frees s (B(x \<mapsto> (k, v))) j = frees s B j" if "j \<noteq> k"
  proof -
    have "(B(x \<mapsto> (k, v))) y = Some (j, False) \<longleftrightarrow> B y = Some (j, False)" for y using that assms(3) by auto
    then show ?thesis by (simp only: frees_def)
  qed
qed

text \<open>Putting a block in front of the list of its order.\<close>

definition push_free :: "u32 \<Rightarrow> u32 \<Rightarrow> buddy \<Rightarrow> fault + buddy" where
  "push_free a k s =
     rbind (MarkElementFree a (set_element_order a k s)) (\<lambda>s.
     rbind (list_head s k) (\<lambda>h. set_list_head k a (set_element_next a h s)))"

lemma push_free_works:
  assumes w: "working s B H" and x: "B x = Some (unat k, True)" and H: "H \<subseteq> {x}"
    and sib: "k < maxOrder s \<Longrightarrow> B (sibling x (unat k)) \<noteq> Some (unat k, False)"
  shows "\<exists>s'. push_free (block_address s x) k s = Inr s' \<and> buddy_inv s' (B(x \<mapsto> (unat k, False))) \<and> same_region s s' \<and>
    (\<forall>y j v. B y = Some (j, v) \<and> y \<noteq> x \<longrightarrow> agree (bram s) (bram s') (block_address s y) (2 ^ j))"
proof -
  note d = workingD [OF w] and lt = block_start [OF workingD(2) [OF w] x]
  let ?a = "block_address s x" and ?B = "B(x \<mapsto> (unat k, False))"
  have k: "unat k \<le> unat (maxOrder s)" using tiling_block [OF d(2) x] by simp
  obtain es where es: "linked_to (bram s) (freeElements s ! unat k) es" "distinct es" "set es = frees s B (unat k)"
    by (rule lists_okE [OF d(4) k])
  let ?h = "freeElements s ! unat k" and ?s1 = "s\<lparr>bram := store32 (bram s) ?a k\<rparr>"
  let ?m = "store32 (store32 (bram s) ?a k) (?a + 4) ?h"
  let ?s2 = "s\<lparr>bram := ?m\<rparr>"
  have w1: "working ?s1 B H" by (rule store_used [OF w x]) simp_all
  have a1: "block_address ?s1 y = block_address s y" "block_address ?s2 y = block_address s y" for y by (simp_all add: block_address_def)
  have w2: "working ?s2 B H" by (rule store_used [OF w1 x]) (simp_all add: a1)
  note d2 = workingD [OF w2]
  obtain b where b: "MarkElementFree ?a ?s1 = Inr (?s1\<lparr>elementsAllocated := b\<rparr>)" "bitfield_ok b"
      "numElements b = numElements (elementsAllocated s)" "set_bits b = set_bits (elementsAllocated s) - {x div 4096}"
    using Mark_bit(1) [OF workingD(1) [OF w1], of x] lt by (auto simp: a1)
  let ?s' = "s\<lparr>bram := ?m, elementsAllocated := b, freeElements := (freeElements s)[unat k := ?a]\<rparr>"
  have len: "unat k < length (freeElements s)" using k shapeD(6) [OF d(1)] by simp
  have run: "push_free ?a k s = Inr ?s'"
    using b(1) len by (simp add: push_free_def set_element_order_def set_element_next_def list_head_def set_list_head_def)
  have fr: "frees ?s' C j = frees s C j" for C j by (simp add: frees_def block_address_def)
  have sh: "buddy_shape ?s'" using d(1) b by (simp add: buddy_shape_def)
  have lists: "lists_ok ?s' ?B"
    unfolding lists_ok_def
  proof (intro allI impI)
    fix j
    assume j: "j \<le> unat (maxOrder ?s')"
    show "\<exists>es. linked_to (bram ?s') (freeElements ?s' ! j) es \<and> distinct es \<and> set es = frees ?s' ?B j"
    proof (cases "j = unat k")
      case True
      obtain fs where fs: "linked_to ?m ?h fs" "distinct fs" "set fs = frees s B (unat k)"
        using lists_okE [OF d2(4), of "unat k"] k by (auto simp: frees_def block_address_def)
      have "?a \<notin> frees s B (unat k)"
        using frees_retag(2) [OF d(1,2) x] unfolding fun_upd_idem [of B x, OF x] by blast
      then have "linked_to ?m ?a (?a # fs) \<and> distinct (?a # fs) \<and> set (?a # fs) = frees s ?B (unat k)"
      proof (intro conjI)
        have "element_next ?m ?a = ?h" by (simp add: element_next_def)
        then show "linked_to ?m ?a (?a # fs)" using fs(1) unat_block_address(3) [OF d(1) lt] by simp
        show "distinct (?a # fs)" using fs(2,3) \<open>?a \<notin> frees s B (unat k)\<close> by simp
        show "set (?a # fs) = frees s ?B (unat k)" using fs(3) by (simp only: frees_retag(1) [OF d(1,2) x] list.set)
      qed
      then show ?thesis using True len by (intro exI [of _ "?a # fs"]) (simp add: fr del: linked_to.simps)
    next
      case False
      obtain fs where "linked_to ?m (freeElements s ! j) fs" "distinct fs" "set fs = frees s B j"
        using lists_okE [OF d2(4), of j] j by (auto simp: frees_def block_address_def)
      then show ?thesis using False frees_retag(3) [OF d(1,2) x False] by (intro exI [of _ fs]) (simp add: fr)
    qed
  qed
  have "element_order ?m ?a = k" by (simp add: element_order_def c32.load_store_sep)
  then have orders: "orders_ok ?s' ?B" using d2(5) by (auto simp: orders_ok_def block_address_def)
  have bits: "bits_ok ?s' ?B {}"
    unfolding bits_ok_def
  proof (intro allI impI)
    fix y j u
    assume y: "?B y = Some (j, u) \<and> y \<notin> {}"
    show "(y div 4096 \<in> set_bits (elementsAllocated ?s')) = u"
    proof (cases "y = x")
      case True
      then show ?thesis using y b(4) by simp
    next
      case False
      then have y': "B y = Some (j, u)" using y by simp
      then have "y div 4096 \<noteq> x div 4096" using block_bit_inj [OF d(2) y' x] False by simp
      then show ?thesis using d(6) y' False H b(4) by (auto simp: bits_ok_def)
    qed
  qed
  have "coalesced (unat (maxOrder s)) ?B"
    by (rule coalesced_retag [OF d(3,2) x]) (use sib in \<open>simp add: word_less_nat_alt\<close>)
  then have "buddy_inv ?s' ?B"
    using sh lists orders bits tiling_retag [OF d(2) x] by (simp add: buddy_inv_def working_def)
  moreover have "agree (bram s) (bram ?s') (block_address s y) (2 ^ j)" if "B y = Some (j, v)" "y \<noteq> x" for y j v
  proof -
    have "agree (bram s) (store32 (bram s) ?a k) (block_address s y) (2 ^ j)"
      "agree (store32 (bram s) ?a k) ?m (block_address s y) (2 ^ j)"
      using that by (intro store_other_block [OF d(1,2) x that(1)]; simp)+
    then show ?thesis by (auto intro: agree_trans)
  qed
  moreover have "same_region s ?s'" by (simp add: same_region_def)
  ultimately show ?thesis using run by blast
qed

text \<open>Taking a free block off the list of its order.\<close>

lemma unlinked_works:
  assumes w: "working s B H" and x: "B x = Some (k, False)" and s': "same_region s s'" "buddy_shape s'"
    and fs: "linked_to (bram s') (freeElements s' ! k) fs" "distinct fs" "set fs = frees s B k - {block_address s x}"
    and rest: "\<And>j. j \<noteq> k \<Longrightarrow> freeElements s' ! j = freeElements s ! j"
    and tags: "\<And>y j. B y = Some (j, False) \<Longrightarrow> element_order (bram s') (block_address s y) = element_order (bram s) (block_address s y)"
      "\<And>y j. B y = Some (j, False) \<Longrightarrow> j \<noteq> k \<Longrightarrow> element_next (bram s') (block_address s y) = element_next (bram s) (block_address s y)"
    and bits: "elementsAllocated s' = elementsAllocated s"
  shows "working s' (B(x \<mapsto> (k, True))) (insert x H)"
proof -
  note d = workingD [OF w]
  have M: "maxOrder s' = maxOrder s" using s'(1) by (simp add: same_region_def)
  note ad = same_region_address [OF s'(1)]
  let ?B = "B(x \<mapsto> (k, True))"
  have "lists_ok s' ?B"
    unfolding lists_ok_def
  proof (intro allI impI)
    fix j
    assume j: "j \<le> unat (maxOrder s')"
    show "\<exists>es. linked_to (bram s') (freeElements s' ! j) es \<and> distinct es \<and> set es = frees s' ?B j"
    proof (cases "j = k")
      case True
      then show ?thesis using fs frees_retag(2) [OF d(1,2) x] by (intro exI [of _ fs]) (simp add: ad)
    next
      case False
      obtain es where es: "linked_to (bram s) (freeElements s ! j) es" "distinct es" "set es = frees s B j"
        using lists_okE [OF d(4), of j] j M by auto
      have "linked_to (bram s') (freeElements s ! j) es = linked_to (bram s) (freeElements s ! j) es"
        using es(3) tags(2) False by (intro linked_to_cong) (auto simp: frees_def)
      then show ?thesis using es rest [OF False] frees_retag(3) [OF d(1,2) x False] by (intro exI [of _ es]) (simp add: ad)
    qed
  qed
  moreover have "orders_ok s' ?B" using d(5) tags(1) by (auto simp: orders_ok_def ad)
  moreover have "bits_ok s' ?B (insert x H)" using d(6) by (auto simp: bits_ok_def bits)
  moreover have "coalesced (unat (maxOrder s)) ?B" by (rule coalesced_retag [OF d(3,2) x]) simp
  moreover have "tiling (unat (maxOrder s)) ?B" by (rule tiling_retag [OF d(2) x])
  ultimately show ?thesis using s'(2) M by (simp add: working_def)
qed

lemma marked_works:
  assumes w: "working s B (insert x H)" and x: "B x = Some (k, True)"
  shows "\<exists>b. MarkElementAllocated (block_address s x) s = Inr (s\<lparr>elementsAllocated := b\<rparr>) \<and> working (s\<lparr>elementsAllocated := b\<rparr>) B H"
proof -
  note d = workingD [OF w]
  obtain b where b: "MarkElementAllocated (block_address s x) s = Inr (s\<lparr>elementsAllocated := b\<rparr>)" "bitfield_ok b"
      "numElements b = numElements (elementsAllocated s)" "set_bits b = insert (x div 4096) (set_bits (elementsAllocated s))"
    using Mark_bit(2) [OF d(1) block_start [OF d(2) x]] by blast
  let ?s = "s\<lparr>elementsAllocated := b\<rparr>"
  have "lists_ok ?s B" using d(4) by (simp add: lists_ok_def frees_def block_address_def)
  moreover have "orders_ok ?s B" using d(5) by (simp add: orders_ok_def block_address_def)
  moreover have "buddy_shape ?s" using d(1) b by (simp add: buddy_shape_def)
  moreover have "bits_ok ?s B H"
    unfolding bits_ok_def
  proof (intro allI impI)
    fix y j u
    assume y: "B y = Some (j, u) \<and> y \<notin> H"
    show "(y div 4096 \<in> set_bits (elementsAllocated ?s)) = u"
    proof (cases "y = x")
      case True
      then show ?thesis using x y b(4) by simp
    next
      case False
      then have "y div 4096 \<noteq> x div 4096" using block_bit_inj [OF d(2) _ x, of y j u] y by simp
      then show ?thesis using d(6) y False b(4) by (auto simp: bits_ok_def)
    qed
  qed
  ultimately show ?thesis using b(1) d by (auto simp: working_def)
qed

lemma take_works:
  assumes i: "buddy_inv s B" and k: "unat k \<le> unat (maxOrder s)" and e: "freeElements s ! unat k = e" "e \<noteq> 0"
  shows "\<exists>x s1 s2. e = block_address s x \<and> B x = Some (unat k, False) \<and>
    set_list_head k (element_next (bram s) e) s = Inr s1 \<and> MarkElementAllocated e s1 = Inr s2 \<and>
    buddy_inv s2 (B(x \<mapsto> (unat k, True))) \<and> bram s2 = bram s \<and> same_region s s2"
proof -
  have w: "working s B {}" using i by (simp add: buddy_inv_def)
  note d = workingD [OF w]
  obtain es where es: "linked_to (bram s) (freeElements s ! unat k) es" "distinct es" "set es = frees s B (unat k)"
    by (rule lists_okE [OF d(4) k])
  then obtain fs where fs: "es = e # fs" "linked_to (bram s) (element_next (bram s) e) fs" using e by (cases es) auto
  then have "e \<in> frees s B (unat k)" using es(3) by (metis list.set_intros(1))
  then obtain x where x: "e = block_address s x" "B x = Some (unat k, False)" by (auto simp: frees_def)
  have len: "unat k < length (freeElements s)" using k shapeD(6) [OF d(1)] by simp
  let ?s = "s\<lparr>freeElements := (freeElements s)[unat k := element_next (bram s) e]\<rparr>"
  have ad: "block_address ?s x = block_address s x" by (simp add: block_address_def)
  have "working ?s (B(x \<mapsto> (unat k, True))) {x}"
  proof (rule unlinked_works [OF w x(2)])
    show "buddy_shape ?s" using d(1) by (simp add: buddy_shape_def)
    show "linked_to (bram ?s) (freeElements ?s ! unat k) fs" using fs(2) len by simp
    show "distinct fs" "set fs = frees s B (unat k) - {block_address s x}" using es(2,3) fs(1) x(1) by auto
  qed (simp_all add: same_region_def)
  then obtain b where b: "MarkElementAllocated (block_address ?s x) ?s = Inr (?s\<lparr>elementsAllocated := b\<rparr>)"
      "working (?s\<lparr>elementsAllocated := b\<rparr>) (B(x \<mapsto> (unat k, True))) {}"
    using marked_works [of ?s "B(x \<mapsto> (unat k, True))" x "{}" "unat k"] by auto
  have "set_list_head k (element_next (bram s) e) s = Inr ?s" using len by (simp add: set_list_head_def)
  moreover have "same_region s (?s\<lparr>elementsAllocated := b\<rparr>)" by (simp add: same_region_def)
  moreover have "MarkElementAllocated e ?s = Inr (?s\<lparr>elementsAllocated := b\<rparr>)" using b(1) x(1) unfolding ad by simp
  moreover have "bram (?s\<lparr>elementsAllocated := b\<rparr>) = bram s" by simp
  ultimately show ?thesis using x b(2) unfolding buddy_inv_def by blast
qed

text \<open>Splitting the block taken down to the order asked for.\<close>

primrec split_map :: "nat \<Rightarrow> nat \<Rightarrow> nat \<Rightarrow> blockmap \<Rightarrow> blockmap" where
  "split_map 0 x k B = B(x \<mapsto> (k, True))"
| "split_map (Suc d) x k B = split_map d x k (B(x \<mapsto> (k + d, True), x + 2 ^ (k + d) \<mapsto> (k + d, False)))"

lemma working_same_frees:
  assumes "working s B H" "\<And>y k. B' y = Some (k, False) \<longleftrightarrow> B y = Some (k, False)" "tiling (unat (maxOrder s)) B'" "bits_ok s B' H'"
  shows "working s B' H'"
  using assms by (simp add: working_def coalesced_def lists_ok_def orders_ok_def frees_def)

lemma rbind_assoc: "rbind (rbind r f) g = rbind r (\<lambda>x. rbind (f x) g)"
  by (cases r) simp_all

lemma one_shifted_power: "unat i < 32 \<Longrightarrow> one_shifted i = Inr (of_nat (2 ^ unat i))"
  by (simp add: one_shifted_def push_bit_eq_mult)

lemma sibling_upper: "2 ^ Suc j dvd x \<Longrightarrow> sibling (x + 2 ^ j) j = x" "2 ^ Suc j dvd x \<Longrightarrow> sibling x j = x + 2 ^ j"
  by (auto simp: sibling_def elim!: dvdE) presburger

lemma halve_works:
  assumes i: "buddy_inv s B" and x: "B x = Some (Suc (unat j), True)" and j: "12 \<le> unat j"
  shows "\<exists>s'. push_free (block_address s (x + 2 ^ unat j)) j s = Inr s' \<and> same_region s s' \<and>
    buddy_inv s' (B(x \<mapsto> (unat j, True), x + 2 ^ unat j \<mapsto> (unat j, False))) \<and>
    (\<forall>y k v. B y = Some (k, v) \<and> y \<noteq> x \<longrightarrow> agree (bram s) (bram s') (block_address s y) (2 ^ k))"
proof -
  let ?z = "x + 2 ^ unat j"
  let ?B = "B(x \<mapsto> (unat j, True), ?z \<mapsto> (unat j, True))"
  have w: "working s B {}" using i by (simp add: buddy_inv_def)
  note d = workingD [OF w]
  have z: "B ?z = None" by (rule inside_None [OF d(2) x]) simp_all
  have dvd: "2 ^ Suc (unat j) dvd x" using tiling_block [OF d(2) x] by simp
  have w': "working s ?B {?z}"
  proof (rule working_same_frees [OF w])
    show "?B y = Some (k, False) \<longleftrightarrow> B y = Some (k, False)" for y k using x z by auto
    show "tiling (unat (maxOrder s)) ?B" by (rule tiling_halve [OF d(2) x j])
    show "bits_ok s ?B {?z}" using d(6) x by (auto simp: bits_ok_def)
  qed
  have "\<exists>s'. push_free (block_address s ?z) j s = Inr s' \<and> buddy_inv s' (?B(?z \<mapsto> (unat j, False))) \<and> same_region s s' \<and>
      (\<forall>y k v. ?B y = Some (k, v) \<and> y \<noteq> ?z \<longrightarrow> agree (bram s) (bram s') (block_address s y) (2 ^ k))"
    by (rule push_free_works [OF w']) (simp_all add: sibling_upper [OF dvd])
  moreover have "?B y = Some (k, v) \<and> y \<noteq> ?z" if "B y = Some (k, v)" "y \<noteq> x" for y k v using that z by auto
  ultimately show ?thesis unfolding fun_upd_upd by blast
qed

lemma split_step:
  assumes "order < i" "unat i \<le> 31"
  shows "split_loop a order i s = rbind (push_free (a + of_nat (2 ^ unat (i - 1))) (i - 1) s) (split_loop a order (i - 1))"
  using assms
  by (subst split_loop.simps)
    (simp add: push_free_def rbind_assoc one_shifted_power unat_sub_le word_le_nat_alt word_less_nat_alt Let_def)

lemma split_loop_works:
  assumes "buddy_inv s B" "B x = Some (unat i, True)" "12 \<le> unat order" "unat i = unat order + n"
  shows "\<exists>s'. split_loop (block_address s x) order i s = Inr s' \<and> buddy_inv s' (split_map n x (unat order) B) \<and>
    same_region s s' \<and> (\<forall>y k v. B y = Some (k, v) \<and> y \<noteq> x \<longrightarrow> agree (bram s) (bram s') (block_address s y) (2 ^ k))"
  using assms
proof (induction n arbitrary: s B i)
  case 0
  then have "i = order" by (simp add: word_eq_unat_iff)
  then show ?case using 0 by (subst split_loop.simps) (simp add: fun_upd_idem)
next
  case (Suc n)
  have sh: "buddy_shape s" "tiling (unat (maxOrder s)) B" using Suc.prems(1) by (simp_all add: buddy_inv_def working_def)
  have i: "unat i \<le> 31" using tiling_block [OF sh(2) Suc.prems(2)] shapeD(3) [OF sh(1)] by simp
  have lt: "order < i" using Suc.prems(4) by (simp add: word_less_nat_alt)
  have j: "unat (i - 1) = unat order + n" using Suc.prems(4) by (subst unat_sub_le) (simp_all add: word_le_nat_alt)
  let ?j = "i - 1"
  have z: "block_address s x + of_nat (2 ^ unat ?j) = block_address s (x + 2 ^ unat ?j)" by (simp add: block_address_def)
  have x: "B x = Some (Suc (unat ?j), True)" using Suc.prems(2,4) j by simp
  obtain s1 where s1: "push_free (block_address s (x + 2 ^ unat ?j)) ?j s = Inr s1" "same_region s s1"
      "buddy_inv s1 (B(x \<mapsto> (unat ?j, True), x + 2 ^ unat ?j \<mapsto> (unat ?j, False)))"
      "\<And>y k v. B y = Some (k, v) \<Longrightarrow> y \<noteq> x \<Longrightarrow> agree (bram s) (bram s1) (block_address s y) (2 ^ k)"
    using halve_works [OF Suc.prems(1) x] Suc.prems(3) j by auto
  let ?B = "B(x \<mapsto> (unat ?j, True), x + 2 ^ unat ?j \<mapsto> (unat ?j, False))"
  have "?B x = Some (unat ?j, True)" by simp
  then obtain s2 where s2: "split_loop (block_address s1 x) order ?j s1 = Inr s2" "buddy_inv s2 (split_map n x (unat order) ?B)"
      "same_region s1 s2" "\<And>y k v. ?B y = Some (k, v) \<Longrightarrow> y \<noteq> x \<Longrightarrow> agree (bram s1) (bram s2) (block_address s1 y) (2 ^ k)"
    using Suc.IH [OF s1(3) _ Suc.prems(3) j] by blast
  have ad: "block_address s1 y = block_address s y" for y using same_region_address [OF s1(2)] by simp
  have "split_loop (block_address s x) order i s = Inr s2"
    unfolding split_step [OF lt i] z s1(1) using s2(1) by (simp add: ad)
  moreover have "agree (bram s) (bram s2) (block_address s y) (2 ^ k)" if y: "B y = Some (k, v)" "y \<noteq> x" for y k v
  proof -
    have "y \<noteq> x + 2 ^ unat ?j" using inside_None [OF sh(2) x, of y] y(1) by auto
    then have "?B y = Some (k, v)" using y by simp
    then show ?thesis using s1(4) [OF y] s2(4) [of y k v] y(2) unfolding ad by (blast intro: agree_trans)
  qed
  moreover have "split_map (Suc n) x (unat order) B = split_map n x (unat order) ?B" by (simp add: j)
  ultimately show ?case using s2(2) same_region_trans [OF s1(2) s2(3)] by metis
qed

section \<open>Allocation\<close>

definition used_blocks :: "blockmap \<Rightarrow> (nat \<times> nat) set" where
  "used_blocks B = {(x, k). B x = Some (k, True)}"

lemma split_map_used:
  assumes "tiling M B" "B x = Some (k + n, True)" "12 \<le> k"
  shows "used_blocks (split_map n x k B) = insert (x, k) (used_blocks B - {(x, k + n)})"
  using assms
proof (induction n arbitrary: B)
  case 0
  then show ?case by (auto simp: used_blocks_def fun_upd_idem)
next
  case (Suc n)
  let ?z = "x + 2 ^ (k + n)"
  let ?B = "B(x \<mapsto> (k + n, True), ?z \<mapsto> (k + n, False))"
  have x: "B x = Some (Suc (k + n), True)" using Suc.prems(2) by simp
  have z: "B ?z = None" by (rule inside_None [OF Suc.prems(1) x]) simp_all
  have "tiling M ?B" by (rule tiling_halve [OF Suc.prems(1) x]) (use Suc.prems(3) in simp)
  then have "used_blocks (split_map n x k ?B) = insert (x, k) (used_blocks ?B - {(x, k + n)})"
    by (rule Suc.IH) (use Suc.prems(3) in simp_all)
  moreover have "used_blocks ?B - {(x, k + n)} = used_blocks B - {(x, k + Suc n)}"
    using x z by (auto simp: used_blocks_def split: if_splits)
  ultimately show ?case by simp
qed

lemma alloc_loop_works:
  assumes "buddy_inv s B" "12 \<le> unat order" "order \<le> i" "unat i \<le> Suc (unat (maxOrder s))"
  shows "(alloc_loop order i s = Inr (0, s) \<and> (\<forall>x j. B x = Some (j, False) \<longrightarrow> j < unat i)) \<or>
    (\<exists>x j s' B'. B x = Some (j, False) \<and> unat i \<le> j \<and> (\<forall>y l. B y = Some (l, False) \<and> unat i \<le> l \<longrightarrow> j \<le> l) \<and>
      alloc_loop order i s = Inr (block_address s x, s') \<and> buddy_inv s' B' \<and> same_region s s' \<and>
      used_blocks B' = insert (x, unat order) (used_blocks B) \<and>
      (\<forall>y k v. B y = Some (k, v) \<and> y \<noteq> x \<longrightarrow> agree (bram s) (bram s') (block_address s y) (2 ^ k)))"
  using assms(3,4)
proof (induction "Suc (unat (maxOrder s)) - unat i" arbitrary: i)
  case 0
  have sh: "buddy_shape s" "tiling (unat (maxOrder s)) B" using assms(1) by (simp_all add: buddy_inv_def working_def)
  from 0 have gt: "unat i = Suc (unat (maxOrder s))" by simp
  then have "\<not> i \<le> maxOrder s" by (simp add: word_le_nat_alt)
  then have "alloc_loop order i s = Inr (0, s)" by (subst alloc_loop.simps) simp
  moreover have "j < unat i" if "B x = Some (j, False)" for x j using tiling_block [OF sh(2) that] gt by simp
  ultimately show ?case by blast
next
  case (Suc n)
  have w: "working s B {}" using assms(1) by (simp add: buddy_inv_def)
  note d = workingD [OF w]
  from Suc.hyps(2) have i: "unat i \<le> unat (maxOrder s)" by simp
  then have le: "i \<le> maxOrder s" by (simp add: word_le_nat_alt)
  have i31: "unat i \<le> 31" using i shapeD(3) [OF d(1)] by simp
  then have ne: "i \<noteq> - 1" by auto
  have si: "unat (i + 1) = Suc (unat i)" by (rule unat_Suc_neq [OF ne])
  let ?e = "freeElements s ! unat i"
  have hd: "list_head s i = Inr ?e" using i shapeD(6) [OF d(1)] by (simp add: list_head_def)
  show ?case
  proof (cases "?e = 0")
    case True
    have step: "alloc_loop order i s = alloc_loop order (i + 1) s"
      using le hd True ne by (subst alloc_loop.simps) simp
    obtain es where es: "linked_to (bram s) ?e es" "set es = frees s B (unat i)" by (rule lists_okE [OF d(4) i])
    then have "es = []" using True by (cases es) auto
    then have none: "B x \<noteq> Some (unat i, False)" for x using es(2) by (auto simp: frees_def)
    then have ge: "Suc (unat i) \<le> l" if "B y = Some (l, False)" "unat i \<le> l" for y l
      using that none [of y] by (cases "l = unat i") auto
    have "order \<le> i + 1" using Suc.prems(1) by (simp add: word_le_nat_alt si)
    then have "(alloc_loop order (i + 1) s = Inr (0, s) \<and> (\<forall>x j. B x = Some (j, False) \<longrightarrow> j < Suc (unat i))) \<or>
      (\<exists>x j s' B'. B x = Some (j, False) \<and> Suc (unat i) \<le> j \<and> (\<forall>y l. B y = Some (l, False) \<and> Suc (unat i) \<le> l \<longrightarrow> j \<le> l) \<and>
        alloc_loop order (i + 1) s = Inr (block_address s x, s') \<and> buddy_inv s' B' \<and> same_region s s' \<and>
        used_blocks B' = insert (x, unat order) (used_blocks B) \<and>
        (\<forall>y k v. B y = Some (k, v) \<and> y \<noteq> x \<longrightarrow> agree (bram s) (bram s') (block_address s y) (2 ^ k)))"
      using Suc.hyps(1) [of "i + 1"] Suc.hyps(2) i by (simp add: si)
    then show ?thesis
    proof (elim disjE)
      assume "alloc_loop order (i + 1) s = Inr (0, s) \<and> (\<forall>x j. B x = Some (j, False) \<longrightarrow> j < Suc (unat i))"
      then show ?thesis using ge unfolding step by (metis not_less not_less_eq_eq)
    next
      assume "\<exists>x j s' B'. B x = Some (j, False) \<and> Suc (unat i) \<le> j \<and> (\<forall>y l. B y = Some (l, False) \<and> Suc (unat i) \<le> l \<longrightarrow> j \<le> l) \<and>
        alloc_loop order (i + 1) s = Inr (block_address s x, s') \<and> buddy_inv s' B' \<and> same_region s s' \<and>
        used_blocks B' = insert (x, unat order) (used_blocks B) \<and>
        (\<forall>y k v. B y = Some (k, v) \<and> y \<noteq> x \<longrightarrow> agree (bram s) (bram s') (block_address s y) (2 ^ k))"
      then show ?thesis unfolding step using ge by (metis Suc_leD)
    qed
  next
    case False
    obtain x s1 s2 where x: "?e = block_address s x" "B x = Some (unat i, False)"
        "set_list_head i (element_next (bram s) ?e) s = Inr s1" "MarkElementAllocated ?e s1 = Inr s2"
        "buddy_inv s2 (B(x \<mapsto> (unat i, True)))" "bram s2 = bram s" "same_region s s2"
      using take_works [OF assms(1) i refl False] by blast
    let ?B = "B(x \<mapsto> (unat i, True))" and ?n = "unat i - unat order"
    have io: "unat i = unat order + ?n" using Suc.prems(1) by (simp add: word_le_nat_alt)
    have ad: "block_address s2 y = block_address s y" for y using same_region_address [OF x(7)] by simp
    obtain s3 where s3: "split_loop (block_address s2 x) order i s2 = Inr s3" "buddy_inv s3 (split_map ?n x (unat order) ?B)"
        "same_region s2 s3" "\<forall>y k v. ?B y = Some (k, v) \<and> y \<noteq> x \<longrightarrow> agree (bram s2) (bram s3) (block_address s2 y) (2 ^ k)"
      using split_loop_works [OF x(5) fun_upd_same assms(2) io] by blast
    have "alloc_loop order i s = Inr (block_address s x, s3)"
      using le hd False x(1,3,4) s3(1) by (subst alloc_loop.simps) (simp add: ad)
    moreover have "used_blocks (split_map ?n x (unat order) ?B) = insert (x, unat order) (used_blocks B)"
    proof -
      have "tiling (unat (maxOrder s)) ?B" by (rule tiling_retag [OF d(2) x(2)])
      then have "used_blocks (split_map ?n x (unat order) ?B) = insert (x, unat order) (used_blocks ?B - {(x, unat order + ?n)})"
        by (rule split_map_used) (use io assms(2) in simp_all)
      moreover have "used_blocks ?B - {(x, unat order + ?n)} = used_blocks B"
        using x(2) io by (auto simp: used_blocks_def split: if_splits)
      ultimately show ?thesis by simp
    qed
    moreover have "same_region s s3" by (rule same_region_trans [OF x(7) s3(3)])
    moreover have "agree (bram s) (bram s3) (block_address s y) (2 ^ k)" if "B y = Some (k, v)" "y \<noteq> x" for y k v
      using s3(4) that unfolding ad x(6) by auto
    ultimately show ?thesis using x(2) s3(2) by blast
  qed
qed


section \<open>Release\<close>

lemma xor_power_sibling:
  assumes "2 ^ k dvd x" "k < 32" "x + 2 ^ k \<le> 4294967296"
  shows "(of_nat x :: u32) XOR of_nat (2 ^ k) = of_nat (sibling x k)"
proof -
  let ?w = "of_nat x :: u32" and ?p = "push_bit k 1 :: u32"
  have p: "of_nat (2 ^ k) = ?p" by (simp add: push_bit_eq_mult)
  have "x < x + 2 ^ k" by simp
  then have "x < 4294967296" using assms(3) by (rule less_le_trans)
  then have u: "unat ?w = x" by (rule unat_of_nat32)
  have b: "bit ?w k \<longleftrightarrow> odd (x div 2 ^ k)"
  proof -
    have "bit ?w k \<longleftrightarrow> bit (unat ?w) k" by (simp add: bit_unsigned_iff)
    also have "\<dots> \<longleftrightarrow> odd (x div 2 ^ k)" by (simp only: u bit_iff_odd)
    finally show ?thesis .
  qed
  show ?thesis
  proof (cases "bit ?w k")
    case True
    have "?w XOR ?p = ?w AND NOT ?p" using True assms(2) by (intro bit_word_eqI) (auto simp: bit_simps)
    moreover have "?w = (?w AND NOT ?p) + ?p"
      using True assms(2) by (subst disjunctive_add) (auto simp: bit_simps intro!: bit_word_eqI)
    ultimately have "?w XOR ?p = ?w - ?p" by (simp add: eq_diff_eq)
    moreover have "2 ^ k \<le> x" using True b by (metis div_less even_zero not_less)
    ultimately show ?thesis using True b by (simp add: sibling_def of_nat_diff p [symmetric])
  next
    case False
    have "?w XOR ?p = ?w OR ?p" using False assms(2) by (intro bit_word_eqI) (auto simp: bit_simps)
    also have "\<dots> = ?w + ?p" using False assms(2) by (subst disjunctive_add) (auto simp: bit_simps)
    finally show ?thesis using False b by (simp add: sibling_def p [symmetric])
  qed
qed

lemma remove_loop_finds:
  "linked_to (bram s) h (as @ p # e # es) \<Longrightarrow> distinct (as @ p # e # es) \<Longrightarrow>
    remove_loop h e s = Some (Inr (set_element_next p (element_next (bram s) e) s))"
proof (induction as arbitrary: h)
  case Nil
  then show ?case by (subst remove_loop.simps) simp
next
  case (Cons a as)
  then have "remove_loop (element_next (bram s) a) e s = Some (Inr (set_element_next p (element_next (bram s) e) s))" by simp
  moreover have "element_next (bram s) a \<noteq> e" "element_next (bram s) a \<noteq> 0" "a \<noteq> 0" using Cons.prems by (cases as; auto)+
  moreover have "h = a" using Cons.prems by simp
  ultimately show ?case by (subst remove_loop.simps) simp
qed

lemma linked_to_bypass:
  assumes "linked_to m h (as @ p # e # es)" "distinct (as @ p # e # es)"
    and "element_next m' p = element_next m e" "\<And>y. y \<in> set (as @ p # e # es) \<Longrightarrow> y \<noteq> p \<Longrightarrow> element_next m' y = element_next m y"
  shows "linked_to m' h (as @ p # es)"
  using assms
proof (induction as arbitrary: h)
  case Nil
  then have "linked_to m' (element_next m e) es = linked_to m (element_next m e) es" by (intro linked_to_cong) auto
  then show ?case using Nil by simp
next
  case (Cons a as)
  then show ?case by auto
qed

lemma remove_works:
  assumes w: "working s B H" and x: "B x = Some (unat k, False)"
  shows "\<exists>s'. RemoveFromList k (block_address s x) s = Some (Inr s') \<and> working s' (B(x \<mapsto> (unat k, True))) (insert x H) \<and>
    same_region s s' \<and> (\<forall>y j. B y = Some (j, True) \<longrightarrow> agree (bram s) (bram s') (block_address s y) (2 ^ j))"
proof -
  note d = workingD [OF w]
  let ?e = "block_address s x"
  have k: "unat k \<le> unat (maxOrder s)" using tiling_block [OF d(2) x] by simp
  have len: "unat k < length (freeElements s)" using k shapeD(6) [OF d(1)] by simp
  obtain es where es: "linked_to (bram s) (freeElements s ! unat k) es" "distinct es" "set es = frees s B (unat k)"
    by (rule lists_okE [OF d(4) k])
  have "?e \<in> set es" using es(3) x by (auto simp: frees_def)
  then obtain as fs where split: "es = as @ ?e # fs" by (auto dest: split_list)
  show ?thesis
  proof (cases as rule: rev_cases)
    case Nil
    let ?s = "s\<lparr>freeElements := (freeElements s)[unat k := element_next (bram s) ?e]\<rparr>"
    have "RemoveFromList k ?e s = Some (Inr ?s)"
      using es(1) split Nil len by (simp add: RemoveFromList_def list_head_def set_list_head_def)
    moreover have "working ?s (B(x \<mapsto> (unat k, True))) (insert x H)"
    proof (rule unlinked_works [OF w x])
      show "buddy_shape ?s" using d(1) by (simp add: buddy_shape_def)
      show "linked_to (bram ?s) (freeElements ?s ! unat k) fs" using es(1) split Nil len by simp
      show "distinct fs" "set fs = frees s B (unat k) - {?e}" using es(2,3) split Nil by auto
    qed (simp_all add: same_region_def)
    ultimately show ?thesis by (intro exI [of _ ?s]) (simp add: same_region_def)
  next
    case (snoc bs p)
    then have es': "es = bs @ p # ?e # fs" using split by simp
    then have "p \<in> frees s B (unat k)" using es(3) by auto
    then obtain z where z: "p = block_address s z" "B z = Some (unat k, False)" by (auto simp: frees_def)
    let ?v = "element_next (bram s) ?e"
    let ?s = "s\<lparr>bram := store32 (bram s) (p + 4) ?v\<rparr>"
    have tag: "element_order (bram ?s) (block_address s y) = element_order (bram s) (block_address s y)"
        "y \<noteq> z \<Longrightarrow> element_next (bram ?s) (block_address s y) = element_next (bram s) (block_address s y)" if "B y = Some (j, False)" for y j
    proof -
      show "element_next (bram ?s) (block_address s y) = element_next (bram s) (block_address s y)" if "y \<noteq> z"
        using store_other_tag(2) [OF d(1,2) z(2) \<open>B y = Some (j, False)\<close>, of "p + 4"] that z(1) by simp
      show "element_order (bram ?s) (block_address s y) = element_order (bram s) (block_address s y)"
      proof (cases "y = z")
        case True
        then show ?thesis using z(1) by (simp add: element_order_def c32.load_store_sep)
      next
        case False
        then show ?thesis using store_other_tag(1) [OF d(1,2) z(2) \<open>B y = Some (j, False)\<close>, of "p + 4"] z(1) by simp
      qed
    qed
    have "freeElements s ! unat k \<noteq> ?e" using es es' by (cases bs) auto
    then have "RemoveFromList k ?e s = Some (Inr ?s)"
      using remove_loop_finds [of s _ bs p ?e fs] es es' len by (simp add: RemoveFromList_def list_head_def set_element_next_def)
    moreover have "working ?s (B(x \<mapsto> (unat k, True))) (insert x H)"
    proof (rule unlinked_works [OF w x])
      show "buddy_shape ?s" using d(1) by (simp add: buddy_shape_def)
      have "linked_to (bram ?s) (freeElements s ! unat k) (bs @ p # fs)"
      proof (rule linked_to_bypass)
        show "linked_to (bram s) (freeElements s ! unat k) (bs @ p # ?e # fs)" "distinct (bs @ p # ?e # fs)" using es es' by simp_all
        show "element_next (bram ?s) p = element_next (bram s) ?e" by (simp add: element_next_def)
        fix y assume y: "y \<in> set (bs @ p # ?e # fs)" "y \<noteq> p"
        then have "y \<in> frees s B (unat k)" using es(3) es' by auto
        then obtain q where "y = block_address s q" "B q = Some (unat k, False)" by (auto simp: frees_def)
        then show "element_next (bram ?s) y = element_next (bram s) y" using tag(2) y(2) z(1) by auto
      qed
      then show "linked_to (bram ?s) (freeElements ?s ! unat k) (bs @ p # fs)" by simp
      show "distinct (bs @ p # fs)" "set (bs @ p # fs) = frees s B (unat k) - {?e}" using es(2,3) es' by auto
      show "element_next (bram ?s) (block_address s y) = element_next (bram s) (block_address s y)"
        if y: "B y = Some (j, False)" "j \<noteq> unat k" for y j
      proof -
        have "y \<noteq> z" using y z(2) by auto
        then show ?thesis by (rule tag(2) [OF y(1)])
      qed
      show "element_order (bram ?s) (block_address s y) = element_order (bram s) (block_address s y)" if "B y = Some (j, False)" for y j
        by (rule tag(1) [OF that])
    qed (simp_all add: same_region_def)
    moreover have "agree (bram s) (bram ?s) (block_address s y) (2 ^ j)" if y: "B y = Some (j, True)" for y j
    proof -
      have "z \<noteq> y" using z(2) y by auto
      then show ?thesis using store_other_block [OF d(1,2) z(2) y, of "p + 4"] z(1) by simp
    qed
    ultimately show ?thesis by (intro exI [of _ ?s]) (simp add: same_region_def)
  qed
qed


lemma merge_loop_works:
  assumes "working s B {x}" "B x = Some (unat k, True)"
  shows "\<exists>y l s' B'. merge_loop (block_address s x) k s = Some (Inr (block_address s y, l, s')) \<and> working s' B' {y} \<and>
    B' y = Some (unat l, True) \<and> (l < maxOrder s \<longrightarrow> B' (sibling y (unat l)) \<noteq> Some (unat l, False)) \<and> same_region s s' \<and>
    used_blocks B' - {(y, unat l)} = used_blocks B - {(x, unat k)} \<and>
    (\<forall>z j. B z = Some (j, True) \<and> z \<noteq> x \<longrightarrow> agree (bram s) (bram s') (block_address s z) (2 ^ j))"
  using assms
proof (induction "unat (maxOrder s) - unat k" arbitrary: s B x k)
  case 0
  have "unat k \<le> unat (maxOrder s)" using tiling_block [OF workingD(2) [OF 0(2)] 0(3)] by simp
  with 0(1) have n: "\<not> k < maxOrder s" by (simp add: word_less_nat_alt)
  then have "merge_loop (block_address s x) k s = Some (Inr (block_address s x, k, s))" by (subst merge_loop.simps) simp
  then show ?case using 0(2,3) n by (intro exI [of _ x] exI [of _ k] exI [of _ s] exI [of _ B]) simp
next
  case (Suc n)
  note d = workingD [OF Suc.prems(1)] and sh = shapeD [OF workingD(1) [OF Suc.prems(1)]]
  have lt: "unat k < unat (maxOrder s)" using Suc.hyps(2) by simp
  then have lt': "k < maxOrder s" by (simp add: word_less_nat_alt)
  let ?k = "unat k" and ?y = "sibling x (unat k)"
  have k32: "?k < 32" using lt sh(3) by simp
  note xb = tiling_block [OF d(2) Suc.prems(2)]
  obtain j u where y: "B ?y = Some (j, u)" "j \<le> ?k" using sibling_block [OF d(2) Suc.prems(2) lt] by auto
  have ylt: "?y < 2 ^ unat (maxOrder s)" by (rule block_start [OF d(2) y(1)])
  have small: "x + 2 ^ ?k \<le> 4294967296" using xb sh(5) by simp
  have off: "block_address s x - startAddress s = of_nat x" by (simp add: block_address_def)
  have addr: "((block_address s x - startAddress s) XOR of_nat (2 ^ ?k)) + startAddress s = block_address s ?y"
    unfolding off xor_power_sibling [OF conjunct1 [OF conjunct2 [OF conjunct2 [OF xb]]] k32 small] by (simp add: block_address_def)
  have yx: "?y \<noteq> x" using xb sibling_facts(3) by blast
  have free: "IsElementFree (block_address s ?y) s = Inr (\<not> u)"
    using IsElementFree_bit [OF d(1) ylt] d(6) y(1) yx by (auto simp: bits_ok_def)
  show ?case
  proof (cases "u \<or> j \<noteq> ?k")
    case True
    have "u \<or> element_order (bram s) (block_address s ?y) \<noteq> k"
    proof (cases u)
      case False
      then have "element_order (bram s) (block_address s ?y) = of_nat j" using d(5) y(1) by (simp add: orders_ok_def)
      moreover have "unat (of_nat j :: u32) = j" using y(2) k32 by (intro unat_of_nat32) simp
      ultimately show ?thesis using True False by auto
    qed simp
    then have "merge_loop (block_address s x) k s = Some (Inr (block_address s x, k, s))"
      using lt' free k32 by (subst merge_loop.simps) (auto simp: one_shifted_power addr Let_def simp del: of_nat_power)
    moreover have "B ?y \<noteq> Some (?k, False)" using y(1) True by auto
    ultimately show ?thesis using Suc.prems by (intro exI [of _ x] exI [of _ k] exI [of _ s] exI [of _ B]) simp
  next
    case False
    then have yb: "B ?y = Some (?k, False)" using y by simp
    obtain s1 where s1: "RemoveFromList k (block_address s ?y) s = Some (Inr s1)" "working s1 (B(?y \<mapsto> (?k, True))) (insert ?y {x})"
        "same_region s s1" "\<And>z j. B z = Some (j, True) \<Longrightarrow> agree (bram s) (bram s1) (block_address s z) (2 ^ j)"
      using remove_works [OF Suc.prems(1) yb] by blast
    let ?B1 = "B(?y \<mapsto> (?k, True))" and ?lo = "min x ?y"
    let ?hi = "?lo + 2 ^ ?k"
    have hi: "max x ?y = ?hi" "2 ^ Suc ?k dvd ?lo" using sibling_facts(4,5) [of ?k x] xb by simp_all
    have two: "{x, ?y} = {?lo, ?hi}" using hi(1) by (auto simp: min_def max_def split: if_splits)
    have both: "?B1 ?lo = Some (?k, True)" "?B1 ?hi = Some (?k, True)"
      using Suc.prems(2) hi(1) by (auto simp: min_def max_def split: if_splits)
    let ?B2 = "?B1(?lo \<mapsto> (Suc ?k, True), ?hi := None)"
    note d1 = workingD [OF s1(2)]
    have M: "maxOrder s1 = maxOrder s" using s1(3) by (simp add: same_region_def)
    have t2: "tiling (unat (maxOrder s1)) ?B2" by (rule tiling_join [OF d1(2) both hi(2)]) (use lt M in simp)
    have w2: "working s1 ?B2 {?lo}"
    proof (rule working_same_frees [OF s1(2) _ t2])
      show "?B2 z = Some (l, False) \<longleftrightarrow> ?B1 z = Some (l, False)" for z l using both by auto
      show "bits_ok s1 ?B2 {?lo}"
        unfolding bits_ok_def
      proof (intro allI impI)
        fix z l v
        assume z: "?B2 z = Some (l, v) \<and> z \<notin> {?lo}"
        then have "z \<notin> {?lo, ?hi}" by (auto split: if_splits)
        then have "z \<notin> insert ?y {x}" using two by auto
        moreover from this have "?B1 z = Some (l, v)" using z \<open>z \<notin> {?lo, ?hi}\<close> by auto
        ultimately show "(z div 4096 \<in> set_bits (elementsAllocated s1)) = v" using d1(6) unfolding bits_ok_def by blast
      qed
    qed
    have lo2: "?B2 ?lo = Some (Suc ?k, True)" by simp
    let ?s2 = "set_element_order (block_address s ?lo) (k + 1) s1"
    have ad1: "block_address s1 z = block_address s z" for z using same_region_address [OF s1(3)] by simp
    have s2: "?s2 = s1\<lparr>bram := store32 (bram s1) (block_address s ?lo) (k + 1)\<rparr>" by (simp add: set_element_order_def)
    have w3: "working ?s2 ?B2 {?lo}" unfolding s2 by (rule store_used [OF w2 lo2]) (simp_all add: ad1)
    have sr: "same_region s ?s2" using s1(3) by (simp add: same_region_def s2)
    have ad2: "block_address ?s2 z = block_address s z" for z using same_region_address [OF sr] by simp
    have sk: "unat (k + 1) = Suc ?k" using lt' by (rule unat_Suc_less)
    have min_block: "(if block_address s ?y < block_address s x then block_address s ?y else block_address s x) = block_address s ?lo"
      using unat_block_address(1) [OF d(1) ylt] unat_block_address(1) [OF d(1) block_start [OF d(2) Suc.prems(2)]]
      by (auto simp: word_less_nat_alt min_def)
    have "M - Suc k = n" if "Suc n = M - k" for M k using that by simp
    then have n: "n = unat (maxOrder ?s2) - unat (k + 1)" using Suc.hyps(2) sk M by (simp add: s2)
    have lo2': "?B2 ?lo = Some (unat (k + 1), True)" by (simp add: sk)
    obtain z l s3 B3 where ih: "merge_loop (block_address ?s2 ?lo) (k + 1) ?s2 = Some (Inr (block_address ?s2 z, l, s3))"
        "working s3 B3 {z}" "B3 z = Some (unat l, True)" "l < maxOrder ?s2 \<longrightarrow> B3 (sibling z (unat l)) \<noteq> Some (unat l, False)"
        "same_region ?s2 s3" "used_blocks B3 - {(z, unat l)} = used_blocks ?B2 - {(?lo, unat (k + 1))}"
        "\<forall>q j. ?B2 q = Some (j, True) \<and> q \<noteq> ?lo \<longrightarrow> agree (bram ?s2) (bram s3) (block_address ?s2 q) (2 ^ j)"
      using Suc.hyps(1) [OF n w3 lo2'] by (elim exE conjE) (rule that)
    have "merge_loop (block_address s x) k s = merge_loop (block_address s ?lo) (k + 1) ?s2"
    proof -
      have "element_order (bram s) (block_address s ?y) = k" using d(5) yb by (simp add: orders_ok_def)
      then show ?thesis using lt' free k32 False s1(1)
        by (subst merge_loop.simps) (simp add: one_shifted_power addr Let_def min_block del: of_nat_power)
    qed
    moreover have "used_blocks ?B2 - {(?lo, unat (k + 1))} = used_blocks B - {(x, ?k)}"
    proof (intro set_eqI iffI)
      fix p
      assume "p \<in> used_blocks ?B2 - {(?lo, unat (k + 1))}"
      then obtain q j where "p = (q, j)" "?B2 q = Some (j, True)" "q \<noteq> ?lo" "q \<noteq> ?hi" by (auto simp: used_blocks_def sk split: if_splits)
      moreover from this have "q \<noteq> x" "q \<noteq> ?y" using two by auto
      ultimately show "p \<in> used_blocks B - {(x, ?k)}" by (auto simp: used_blocks_def)
    next
      fix p
      assume "p \<in> used_blocks B - {(x, ?k)}"
      then obtain q j where p: "p = (q, j)" "B q = Some (j, True)" "(q, j) \<noteq> (x, ?k)" by (auto simp: used_blocks_def)
      then have "q \<noteq> x" "q \<noteq> ?y" using Suc.prems(2) yb by auto
      then have "q \<noteq> ?lo" "q \<noteq> ?hi" using two by auto
      then show "p \<in> used_blocks ?B2 - {(?lo, unat (k + 1))}" using p \<open>q \<noteq> ?y\<close> by (auto simp: used_blocks_def)
    qed
    moreover have "agree (bram s) (bram s3) (block_address s q) (2 ^ j)" if q: "B q = Some (j, True)" "q \<noteq> x" for q j
    proof -
      have "q \<noteq> ?y" using q yb by auto
      then have "q \<noteq> ?lo" "q \<noteq> ?hi" using two q(2) by auto
      then have q2: "?B2 q = Some (j, True)" using q \<open>q \<noteq> ?y\<close> by simp
      have "agree (bram s1) (bram ?s2) (block_address s q) (2 ^ j)"
        unfolding s2 using store_other_block [OF d1(1) t2 lo2 q2, of "block_address s ?lo"] \<open>q \<noteq> ?lo\<close> by (simp add: ad1)
      then show ?thesis using s1(4) [OF q(1)] ih(7) q2 \<open>q \<noteq> ?lo\<close> unfolding ad2 by (blast intro: agree_trans)
    qed
    moreover have "maxOrder ?s2 = maxOrder s" by (simp add: s2 M)
    ultimately show ?thesis using ih same_region_trans [OF sr ih(5)] unfolding ad2 by metis
  qed
qed

section \<open>What the operations promise\<close>

lemma buddy_inv_shape: "buddy_inv s B \<Longrightarrow> buddy_shape s \<and> tiling (unat (maxOrder s)) B"
  by (simp add: buddy_inv_def working_def)

lemma order_sum: "unat k < 4294967284 \<Longrightarrow> unat (k + 12 :: u32) = 12 + unat k"
  by (subst unat_add32) simp_all

lemma AllocateBuddy_works:
  assumes "buddy_inv s B" "12 + unat k \<le> unat (maxOrder s)"
  shows "(AllocateBuddy k s = Inr (0, s) \<and> (\<forall>x j. B x = Some (j, False) \<longrightarrow> j < 12 + unat k)) \<or>
    (\<exists>x j s' B'. B x = Some (j, False) \<and> 12 + unat k \<le> j \<and> (\<forall>y l. B y = Some (l, False) \<and> 12 + unat k \<le> l \<longrightarrow> j \<le> l) \<and>
      AllocateBuddy k s = Inr (block_address s x, s') \<and> block_address s x \<noteq> 0 \<and> buddy_inv s' B' \<and> same_region s s' \<and>
      used_blocks B' = insert (x, 12 + unat k) (used_blocks B) \<and>
      (\<forall>(y, l) \<in> used_blocks B. agree (bram s) (bram s') (block_address s y) (2 ^ l)))"
proof -
  have sh: "buddy_shape s" "tiling (unat (maxOrder s)) B" using buddy_inv_shape [OF assms(1)] by simp_all
  let ?k = "k + minOrder s"
  have k: "unat ?k = 12 + unat k"
    using assms(2) shapeD(1,3) [OF sh(1)] by (simp add: order_sum)
  then have le: "?k \<le> maxOrder s" using assms(2) by (simp add: word_le_nat_alt)
  have run: "AllocateBuddy k s = alloc_loop ?k ?k s" using le by (simp add: AllocateBuddy_def Let_def)
  from alloc_loop_works [OF assms(1), of ?k ?k] k assms(2)
  consider "alloc_loop ?k ?k s = Inr (0, s)" "\<And>x j. B x = Some (j, False) \<Longrightarrow> j < 12 + unat k"
    | x j s' B' where "B x = Some (j, False)" "12 + unat k \<le> j" "\<forall>y l. B y = Some (l, False) \<and> 12 + unat k \<le> l \<longrightarrow> j \<le> l"
      "alloc_loop ?k ?k s = Inr (block_address s x, s')" "buddy_inv s' B'" "same_region s s'"
      "used_blocks B' = insert (x, 12 + unat k) (used_blocks B)"
      "\<forall>y k v. B y = Some (k, v) \<and> y \<noteq> x \<longrightarrow> agree (bram s) (bram s') (block_address s y) (2 ^ k)"
    by (simp, blast)
  then show ?thesis
  proof cases
    case 1
    then show ?thesis by (simp add: run)
  next
    case (2 x j s' B')
    have "agree (bram s) (bram s') (block_address s y) (2 ^ l)" if "(y, l) \<in> used_blocks B" for y l
    proof -
      have "B y = Some (l, True)" using that by (simp add: used_blocks_def)
      moreover from this have "y \<noteq> x" using 2(1) by auto
      ultimately show ?thesis using 2(8) by blast
    qed
    then have "\<forall>(y, l) \<in> used_blocks B. agree (bram s) (bram s') (block_address s y) (2 ^ l)" by blast
    moreover have "block_address s x \<noteq> 0" using unat_block_address(3) [OF sh(1) block_start [OF sh(2) 2(1)]] .
    ultimately show ?thesis using 2 unfolding run by blast
  qed
qed

text \<open>C2. \<open>AllocateBuddy\<close> takes a block from the smallest order that has a free one and is large enough, splits it down
  to the order asked for and keeps the free buddies merged; the block joins the blocks in use, whose bytes stay as
  they were. It returns a null pointer, and changes nothing, exactly when no free block is large enough.\<close>

theorem buddy_allocates:
  assumes "buddy_inv s B" "12 + unat k \<le> unat (maxOrder s)"
  shows "(AllocateBuddy k s = Inr (0, s) \<and> (\<forall>x j. B x = Some (j, False) \<longrightarrow> j < 12 + unat k)) \<or>
    (\<exists>x j s' B'. B x = Some (j, False) \<and> 12 + unat k \<le> j \<and> (\<forall>y l. B y = Some (l, False) \<and> 12 + unat k \<le> l \<longrightarrow> j \<le> l) \<and>
      AllocateBuddy k s = Inr (block_address s x, s') \<and> block_address s x \<noteq> 0 \<and> buddy_inv s' B' \<and> same_region s s' \<and>
      used_blocks B' = insert (x, 12 + unat k) (used_blocks B) \<and>
      (\<forall>(y, l) \<in> used_blocks B. agree (bram s) (bram s') (block_address s y) (2 ^ l)))"
  using AllocateBuddy_works [OF assms] .

lemma FreeBuddy_works:
  assumes "buddy_inv s B" "(x, 12 + unat k) \<in> used_blocks B"
  shows "(\<exists>s' B'. FreeBuddy (block_address s x) k s = Some (Inr s') \<and> buddy_inv s' B' \<and> same_region s s' \<and>
      used_blocks B' = used_blocks B - {(x, 12 + unat k)} \<and>
      (\<forall>(y, l) \<in> used_blocks B. y \<noteq> x \<longrightarrow> agree (bram s) (bram s') (block_address s y) (2 ^ l)))
    \<and> FreeBuddy 0 k s = Some (Inl AssertFailed)
    \<and> (\<forall>y j. B y = Some (j, False) \<longrightarrow> FreeBuddy (block_address s y) k s = Some (Inl AssertFailed))"
proof -
  have w: "working s B {}" using assms(1) by (simp add: buddy_inv_def)
  note d = workingD [OF w] and sh = shapeD [OF workingD(1) [OF w]]
  let ?k = "k + minOrder s" and ?a = "block_address s x"
  have x: "B x = Some (12 + unat k, True)" using assms(2) by (simp add: used_blocks_def)
  have k: "unat ?k = 12 + unat k" using tiling_block [OF d(2) x] sh(1,3) by (simp add: order_sum)
  then have le: "?k \<le> maxOrder s" using tiling_block [OF d(2) x] by (simp add: word_le_nat_alt)
  have xk: "B x = Some (unat ?k, True)" using x k by simp
  note lt = block_start [OF d(2) x]
  have bit: "IsElementFree ?a s = Inr False" using IsElementFree_bit [OF d(1) lt] d(6) x by (auto simp: bits_ok_def)
  have w': "working s B {x}" using w by (auto simp: working_def bits_ok_def)
  obtain y l s1 B1 where m: "merge_loop ?a ?k s = Some (Inr (block_address s y, l, s1))" "working s1 B1 {y}"
      "B1 y = Some (unat l, True)" "l < maxOrder s \<longrightarrow> B1 (sibling y (unat l)) \<noteq> Some (unat l, False)" "same_region s s1"
      "used_blocks B1 - {(y, unat l)} = used_blocks B - {(x, unat ?k)}"
      "\<forall>z j. B z = Some (j, True) \<and> z \<noteq> x \<longrightarrow> agree (bram s) (bram s1) (block_address s z) (2 ^ j)"
    using merge_loop_works [OF w' xk] by (elim exE conjE) (rule that)
  have ad: "block_address s1 z = block_address s z" for z using same_region_address [OF m(5)] by simp
  have M: "maxOrder s1 = maxOrder s" using m(5) by (simp add: same_region_def)
  obtain s2 where s2: "push_free (block_address s1 y) l s1 = Inr s2" "buddy_inv s2 (B1(y \<mapsto> (unat l, False)))" "same_region s1 s2"
      "\<forall>z j v. B1 z = Some (j, v) \<and> z \<noteq> y \<longrightarrow> agree (bram s1) (bram s2) (block_address s1 z) (2 ^ j)"
    using push_free_works [OF m(2,3)] m(4) M by auto
  let ?B = "B1(y \<mapsto> (unat l, False))"
  have "FreeBuddy ?a k s = Some (Inr s2)"
    using le unat_block_address(3) [OF d(1) lt] bit m(1) s2(1) by (simp add: FreeBuddy_def Let_def push_free_def ad)
  moreover have used: "used_blocks ?B = used_blocks B - {(x, 12 + unat k)}"
  proof -
    have "used_blocks ?B = used_blocks B1 - {(y, unat l)}" using m(3) by (auto simp: used_blocks_def split: if_splits)
    then show ?thesis using m(6) k by simp
  qed
  moreover have "agree (bram s) (bram s2) (block_address s z) (2 ^ j)" if z: "(z, j) \<in> used_blocks B" "z \<noteq> x" for z j
  proof -
    have "(z, j) \<in> used_blocks ?B" unfolding used using z by simp
    then have "z \<noteq> y" "B1 z = Some (j, True)" by (auto simp: used_blocks_def split: if_splits)
    then have "agree (bram s1) (bram s2) (block_address s z) (2 ^ j)" using s2(4) ad by auto
    moreover have "agree (bram s) (bram s1) (block_address s z) (2 ^ j)" using m(7) z by (auto simp: used_blocks_def)
    ultimately show ?thesis by (blast intro: agree_trans)
  qed
  moreover have "FreeBuddy (block_address s z) k s = Some (Inl AssertFailed)" if z: "B z = Some (j, False)" for z j
  proof -
    note zl = block_start [OF d(2) z]
    have "IsElementFree (block_address s z) s = Inr True" using IsElementFree_bit [OF d(1) zl] d(6) z by (auto simp: bits_ok_def)
    then show ?thesis using le unat_block_address(3) [OF d(1) zl] by (simp add: FreeBuddy_def Let_def)
  qed
  ultimately show ?thesis using s2(2) same_region_trans [OF m(5) s2(3)] by (auto simp: FreeBuddy_def Let_def)
qed

text \<open>C3. \<open>FreeBuddy\<close> of a block in use always returns, takes exactly that block out of the blocks in use, merges it with its
  buddies as far as they are free and keeps the bytes of the other blocks in use. A null pointer and the address of a
  free block fail the assertions.\<close>

theorem buddy_releases:
  assumes "buddy_inv s B" "(x, 12 + unat k) \<in> used_blocks B"
  shows "(\<exists>s' B'. FreeBuddy (block_address s x) k s = Some (Inr s') \<and> buddy_inv s' B' \<and> same_region s s' \<and>
      used_blocks B' = used_blocks B - {(x, 12 + unat k)} \<and>
      (\<forall>(y, l) \<in> used_blocks B. y \<noteq> x \<longrightarrow> agree (bram s) (bram s') (block_address s y) (2 ^ l)))
    \<and> FreeBuddy 0 k s = Some (Inl AssertFailed)
    \<and> (\<forall>y j. B y = Some (j, False) \<longrightarrow> FreeBuddy (block_address s y) k s = Some (Inl AssertFailed))"
  using FreeBuddy_works [OF assms] .

section \<open>The constructor\<close>

lemma order_loop_power: "n < 32 \<Longrightarrow> order_loop (of_nat (2 ^ n)) k = k + of_nat n"
proof (induction n arbitrary: k)
  case 0
  then show ?case by (subst order_loop.simps) simp
next
  case (Suc n)
  have u: "unat (of_nat (2 ^ Suc n) :: u32) = 2 ^ Suc n" "unat (of_nat (2 ^ n) :: u32) = 2 ^ n"
    using power_strict_increasing [of "Suc n" 32 "2 :: nat"] power_strict_increasing [of n 32 "2 :: nat"] Suc.prems
    by (intro unat_of_nat32; simp)+
  have gt: "1 < (of_nat (2 ^ Suc n) :: u32)" unfolding word_less_nat_alt u using one_less_power [of "2 :: nat" "Suc n"] by (simp del: power_Suc)
  have "unat (drop_bit 1 (of_nat (2 ^ Suc n) :: u32)) = 2 ^ n" unfolding unat_drop_bit_div u by simp
  then have half: "drop_bit 1 (of_nat (2 ^ Suc n) :: u32) = of_nat (2 ^ n)" using u(2) by (metis word_unat_eq_iff)
  show ?case using gt half Suc by (subst order_loop.simps) (simp add: add.assoc del: of_nat_power power_Suc)
qed

lemma power_of_two: "n < 32 \<Longrightarrow> IsPowerOf2 (of_nat (2 ^ n))"
proof -
  assume n: "n < 32"
  have "(of_nat (2 ^ n) :: u32) = push_bit n 1" by (simp add: push_bit_eq_mult)
  moreover have "push_bit n 1 - 1 = (mask n :: u32)" by (simp add: mask_eq_exp_minus_1 push_bit_eq_mult)
  moreover have "push_bit n 1 AND mask n = (0 :: u32)" by (rule bit_word_eqI) (auto simp: bit_simps)
  ultimately show ?thesis by (simp add: IsPowerOf2_def)
qed

lemma new_buddy_inv:
  assumes "12 \<le> n" "n \<le> 31" "start \<noteq> 0" "unat start + 2 ^ n \<le> 4294967296"
  shows "\<exists>s. new_buddy m start (of_nat (2 ^ n)) 12 = Inr s \<and> buddy_inv s [0 \<mapsto> (n, False)] \<and>
    startAddress s = start \<and> unat (maxOrder s) = n"
proof -
  let ?k = "of_nat n :: u32"
  have k: "unat ?k = n" using assms(2) by (simp add: unat_of_nat32)
  have lt: "(2 :: nat) ^ n < 4294967296" using power_strict_increasing [of n 32 "2 :: nat"] assms(2) by simp
  let ?blocks = "(of_nat (2 ^ n) :: u32) div of_nat (2 ^ 12)"
  have "2 ^ n div 2 ^ 12 = (2 :: nat) ^ (n - 12)" using assms(1) by (simp add: power_diff)
  moreover have "unat (of_nat (2 ^ n) :: u32) = 2 ^ n" "unat (of_nat (2 ^ 12) :: u32) = 2 ^ 12" by (rule unat_of_nat32 [OF lt]) simp
  ultimately have blocks: "unat ?blocks = 2 ^ (n - 12)" by (simp add: unat_div del: of_nat_power)
  let ?m = "store32 (store32 m start ?k) (start + 4) 0"
  let ?s = "\<lparr>bram = ?m, startAddress = start, maxOrder = ?k, minOrder = 12,
      freeElements = (replicate (unat ?k + 1) 0)[unat ?k := start], elementsAllocated = new_Bitfield ?blocks\<rparr>"
  have run: "new_buddy m start (of_nat (2 ^ n)) 12 = Inr ?s"
  proof -
    have "one_shifted ?k = Inr (of_nat (2 ^ n))" using one_shifted_power [of ?k] k assms(2) by simp
    moreover have "one_shifted 12 = Inr (of_nat (2 ^ 12))" using one_shifted_power [of 12] by simp
    moreover have "order_loop (of_nat (2 ^ n)) 0 = ?k" using order_loop_power [of n 0] assms(2) by simp
    ultimately show ?thesis using power_of_two [of n] assms(2)
      by (simp add: new_buddy_def Let_def set_list_head_def set_element_order_def set_element_next_def del: of_nat_power)
  qed
  have sh: "buddy_shape ?s"
    using assms blocks by (simp add: buddy_shape_def k bitfield_ok_def new_Bitfield_def del: of_nat_power replicate_Suc list_update.simps)
  have "tiling n [0 \<mapsto> (n, False)]" using assms(1) by (auto simp: tiling_def)
  moreover have "coalesced n [0 \<mapsto> (n, False)]" by (auto simp: coalesced_def split: if_splits)
  moreover have "lists_ok ?s [0 \<mapsto> (n, False)]"
    unfolding lists_ok_def
  proof (intro allI impI)
    fix j
    assume j: "j \<le> unat (maxOrder ?s)"
    show "\<exists>es. linked_to (bram ?s) (freeElements ?s ! j) es \<and> distinct es \<and> set es = frees ?s [0 \<mapsto> (n, False)] j"
    proof (cases "j = n")
      case True
      then show ?thesis using assms(3)
        by (intro exI [of _ "[start]"])
          (auto simp: k frees_def block_address_def element_next_def simp del: replicate_Suc list_update.simps split: if_splits)
    next
      case False
      then show ?thesis using j k
        by (intro exI [of _ "[]"]) (auto simp: frees_def simp del: replicate_Suc list_update.simps split: if_splits)
    qed
  qed
  moreover have "orders_ok ?s [0 \<mapsto> (n, False)]"
    by (auto simp: orders_ok_def element_order_def block_address_def c32.load_store_sep split: if_splits)
  moreover have "bits_ok ?s [0 \<mapsto> (n, False)] {}"
    using assms(2) by (auto simp: bits_ok_def set_bits_def has_bit_def new_Bitfield_def split: if_splits)
  ultimately have "buddy_inv ?s [0 \<mapsto> (n, False)]" using sh k by (simp add: buddy_inv_def working_def)
  then show ?thesis using run k by (intro exI [of _ ?s]) simp
qed

section \<open>The contract of an allocator\<close>

text \<open>
  What a client sees of a call: the null pointer is a failure. The orders the slab caches ask for are small, so an
  order is a five bit number.
\<close>

definition buddy_get :: "buddy \<Rightarrow> 5 word \<Rightarrow> (fault + u32 \<times> buddy) option" where
  "buddy_get s k = Some (case AllocateBuddy (ucast k) s of Inl e \<Rightarrow> Inl e
     | Inr (a, s') \<Rightarrow> if a = 0 then Inl PanicHeapFull else Inr (a, s'))"

definition buddy_ok :: "buddy \<Rightarrow> u32 \<times> blockmap \<Rightarrow> bool" where
  "buddy_ok s = (\<lambda>(start, B). startAddress s = start \<and> buddy_inv s B)"

definition buddy_owned :: "u32 \<times> blockmap \<Rightarrow> (u32 \<times> nat) set" where
  "buddy_owned = (\<lambda>(start, B). {(start + of_nat x, 2 ^ k) |x k. (x, k) \<in> used_blocks B})"

definition buddy_room :: "5 word \<Rightarrow> nat" where
  "buddy_room k = 2 ^ (12 + unat k)"

lemma AllocateBuddy_refuses:
  assumes "buddy_inv s B" "unat (maxOrder s) < 12 + unat k" "unat k < 32"
  shows "AllocateBuddy k s = Inl AssertFailed"
  using assms buddy_inv_shape [OF assms(1)] shapeD(1) [of s] order_sum [of k]
  by (simp add: AllocateBuddy_def Let_def word_le_nat_alt)

lemma unat_ucast_5: "unat (ucast (k :: 5 word) :: u32) = unat k" "unat k < 32"
proof -
  show "unat k < 32" using unsigned_less [of k] by simp
  then have "unat k < 2 ^ 32" by simp
  then show "unat (ucast k :: u32) = unat k" by (simp add: unsigned_ucast_eq take_bit_nat_eq_self)
qed

interpretation buddies: allocator buddy_ok buddy_owned bram buddy_room buddy_get
proof unfold_locales
  show "buddy_get s n \<noteq> None" for s n by (simp add: buddy_get_def)
next
  fix s c n p s'
  assume ok: "buddy_ok s c" and get: "buddy_get s n = Some (Inr (p, s'))"
  obtain start B where c: "c = (start, B)" by (cases c)
  then have i: "startAddress s = start" "buddy_inv s B" using ok by (simp_all add: buddy_ok_def)
  let ?k = "ucast n :: u32"
  from get have run: "AllocateBuddy ?k s = Inr (p, s')" "p \<noteq> 0" by (auto simp: buddy_get_def split: sum.splits prod.splits if_splits)
  then have fit: "12 + unat ?k \<le> unat (maxOrder s)" using AllocateBuddy_refuses [OF i(2), of ?k] unat_ucast_5 [of n] by (metis not_le old.sum.distinct(2))
  obtain x j B' where x: "p = block_address s x" "B x = Some (j, False)" "buddy_inv s' B'" "same_region s s'"
      "used_blocks B' = insert (x, 12 + unat ?k) (used_blocks B)"
      "\<forall>(y, l) \<in> used_blocks B. agree (bram s) (bram s') (block_address s y) (2 ^ l)"
    using AllocateBuddy_works [OF i(2) fit] run by auto
  have sh: "buddy_shape s" "tiling (unat (maxOrder s)) B" using buddy_inv_shape [OF i(2)] by simp_all
  have "(p, buddy_room n) \<notin> buddy_owned c"
  proof
    assume "(p, buddy_room n) \<in> buddy_owned c"
    then obtain y l where y: "p = block_address s y" "B y = Some (l, True)"
      by (auto simp: c buddy_owned_def used_blocks_def block_address_def i(1))
    then have "x = y" using block_address_inj [OF sh(1) block_start [OF sh(2) x(2)] block_start [OF sh(2) y(2)]] x(1) by simp
    then show False using x(2) y(2) by simp
  qed
  moreover have "buddy_ok s' (start, B')" using x(3,4) i(1) by (simp add: buddy_ok_def same_region_def)
  moreover have "buddy_owned (start, B') = insert (p, buddy_room n) (buddy_owned c)"
    by (auto simp: c buddy_owned_def x(5) x(1) block_address_def i(1) buddy_room_def unat_ucast_5)
  moreover have "\<forall>(q, l) \<in> buddy_owned c. agree (bram s) (bram s') q l"
    using x(6) by (auto simp: c buddy_owned_def block_address_def i(1))
  ultimately show "\<exists>c' k. buddy_ok s' c' \<and> buddy_room n \<le> k \<and> (p, k) \<notin> buddy_owned c \<and>
      buddy_owned c' = insert (p, k) (buddy_owned c) \<and> (\<forall>(q, j) \<in> buddy_owned c. agree (bram s) (bram s') q j)" by blast
next
  fix s c p k q j
  assume ok: "buddy_ok s c" and own: "(p, k) \<in> buddy_owned c" "(q, j) \<in> buddy_owned c" "(p, k) \<noteq> (q, j)"
  obtain start B where c: "c = (start, B)" by (cases c)
  then have i: "startAddress s = start" "buddy_inv s B" using ok by (simp_all add: buddy_ok_def)
  have sh: "buddy_shape s" "tiling (unat (maxOrder s)) B" using buddy_inv_shape [OF i(2)] by simp_all
  obtain x l y m where xy: "p = block_address s x" "k = 2 ^ l" "B x = Some (l, True)" "q = block_address s y" "j = 2 ^ m" "B y = Some (m, True)"
    using own(1,2) by (auto simp: c buddy_owned_def used_blocks_def block_address_def i(1))
  then have "x \<noteq> y" using own(3) by auto
  then show "sep p k q j" using blocks_apart [OF sh xy(3,6)] xy by simp
qed

text \<open>A region of sixteen kilobytes, whole and with one page in use.\<close>

definition one_free_block :: blockmap where
  "one_free_block = [0 \<mapsto> (14, False)]"

lemma one_free_block [simp]: "one_free_block x = Some (j, u) \<longleftrightarrow> x = 0 \<and> j = 14 \<and> \<not> u" "used_blocks one_free_block = {}"
  by (auto simp: one_free_block_def used_blocks_def)

lemma small_buddy: "\<exists>s. new_buddy (\<lambda>_. 0) 0xD0500000 0x4000 12 = Inr s \<and> buddy_inv s one_free_block \<and>
    startAddress s = 0xD0500000 \<and> unat (maxOrder s) = 14"
  using new_buddy_inv [of 14 "0xD0500000" "\<lambda>_. 0"] by (simp add: one_free_block_def)

theorem buddy_allocates_witness:
  "\<exists>s s' B'. new_buddy (\<lambda>_. 0) 0xD0500000 0x4000 12 = Inr s \<and> AllocateBuddy 0 s = Inr (0xD0500000, s') \<and> buddy_inv s' B' \<and>
    used_blocks B' = {(0, 12)}"
proof -
  obtain s where s: "new_buddy (\<lambda>_. 0) 0xD0500000 0x4000 12 = Inr s" "buddy_inv s one_free_block" "startAddress s = 0xD0500000"
      "unat (maxOrder s) = 14" using small_buddy by blast
  have "12 + unat (0 :: u32) \<le> unat (maxOrder s)" using s(4) by simp
  from buddy_allocates [OF s(2) this] obtain s' B' where
    x: "AllocateBuddy 0 s = Inr (block_address s 0, s')" "buddy_inv s' B'" "used_blocks B' = {(0, 12)}" by auto
  moreover have "block_address s 0 = 0xD0500000" using s(3) by (simp add: block_address_def)
  ultimately show ?thesis using s(1) by metis
qed

lemma small_buddy_used: "\<exists>s B. buddy_inv s B \<and> used_blocks B = {(0, 12)}"
proof -
  obtain s where s: "buddy_inv s one_free_block" "unat (maxOrder s) = 14" using small_buddy by blast
  have "12 \<le> unat (12 :: u32)" "(12 :: u32) \<le> 12" "unat (12 :: u32) \<le> Suc (unat (maxOrder s))" using s(2) by simp_all
  from alloc_loop_works [OF s(1) this] obtain s' B' where "buddy_inv s' B'" "used_blocks B' = {(0, 12)}" by auto
  then show ?thesis by blast
qed

theorem buddy_releases_witness:
  "\<exists>s B. used_blocks B = {(0, 12)} \<and> (\<exists>s' B'. FreeBuddy (block_address s 0) 0 s = Some (Inr s') \<and> buddy_inv s' B' \<and> used_blocks B' = {})"
proof -
  obtain s B where s: "buddy_inv s B" "used_blocks B = {(0, 12)}" using small_buddy_used by blast
  then have "(0, 12 + unat (0 :: u32)) \<in> used_blocks B" by simp
  from conjunct1 [OF buddy_releases [OF s(1) this]] obtain s' B' where
    "FreeBuddy (block_address s 0) 0 s = Some (Inr s')" "buddy_inv s' B'" "used_blocks B' = used_blocks B - {(0, 12)}" by auto
  then show ?thesis using s by (intro exI [of _ s] exI [of _ B]) auto
qed

end
