(* ===== verification/Slab.thy ===== *)
theory Slab
  imports Buddy KernelList
begin

text \<open>
  The slab caches of the kernel (SlabCache.cpp, SmallCache.cpp). A slab is a block of the buddy
  allocator that starts with a header, followed by an array that links the free objects by index, and ends with the
  objects. Headers, links and free arrays are kept by the address of their slab; where they
  lie in the slab is stated with addresses.
\<close>

section \<open>Sizes\<close>

definition SLAB_MAXORDER :: u32 where
  "SLAB_MAXORDER = 5"

definition SLAB_LIMIT :: u32 where
  "SLAB_LIMIT = drop_bit 3 KERNEL_PAGE_SIZE"

definition SLAB_BUF_END :: u32 where
  "SLAB_BUF_END = - 1"

definition SLAB_MAGIC_VALID :: u32 where
  "SLAB_MAGIC_VALID = 0xDEADCAFE"

text \<open>The size of struct Slab: two links and five members.\<close>

definition sizeof_Slab :: u32 where
  "sizeof_Slab = 28"

definition ALIGN_TO_VAL :: "u32 \<Rightarrow> u32 \<Rightarrow> u32" where
  "ALIGN_TO_VAL val boundary = (val + boundary - 1) AND NOT (boundary - 1)"

text \<open>The least order of a slab that is not below \<open>sz\<close>.\<close>

function order_from :: "u32 \<Rightarrow> u32 \<Rightarrow> u32" where
  "order_from sz k = (if drop_bit 1 sz \<noteq> 0 then order_from (drop_bit 1 sz) (k + 1) else k + 1)"
  by pat_completeness auto
termination
proof (relation "measure (unat \<circ> fst)")
  fix sz k :: u32
  assume "drop_bit 1 sz \<noteq> 0"
  then have "unat sz div 2 \<noteq> 0" using unat_drop_bit_div [of 1 sz] by (metis power_one_right unat_eq_0)
  then have "unat sz div 2 < unat sz" by simp
  then show "((drop_bit 1 sz, k + 1), sz, k) \<in> measure (unat \<circ> fst)" by (simp add: unat_drop_bit_div)
qed simp

declare order_from.simps [simp del]

definition GetOrder :: "u32 \<Rightarrow> u32" where
  "GetOrder sz = order_from (drop_bit (PAGE_SHIFT - 1) (sz - 1)) (- 1)"

text \<open>
  The count of objects that fit, for an index that is a signed int and products that are unsigned; the index overflows in a loop that
  does not find its end.
\<close>

definition space_for :: "u32 \<Rightarrow> u32 \<Rightarrow> u32" where
  "space_for objSize i =
     (let headSize = (if objSize < SLAB_LIMIT then sizeof_Slab else 0);
          freeArraySizePerElement = (if objSize < SLAB_LIMIT then 4 else 0)
      in i * objSize + headSize + freeArraySizePerElement * i)"

function count_objects :: "u32 \<Rightarrow> u32 \<Rightarrow> u32 \<Rightarrow> fault + u32" where
  "count_objects objSize bytes i =
     (if 0x80000000 \<le> i then Inl Diverges
      else if space_for objSize i \<le> bytes then count_objects objSize bytes (i + 1) else Inr i)"
  by pat_completeness auto
termination
proof (relation "measure (\<lambda>(objSize, bytes, i). 4294967296 - unat i)")
  fix objSize bytes i :: u32
  assume "\<not> 0x80000000 \<le> i"
  then have "i \<noteq> - 1" by auto
  then show "((objSize, bytes, i + 1), objSize, bytes, i) \<in> measure (\<lambda>(objSize, bytes, i). 4294967296 - unat i)"
    using unat_Suc_dist [of i] by simp
qed simp

declare count_objects.simps [simp del]

text \<open>The result is the number of objects and the bytes that are left.\<close>

definition EstimateNrObjects :: "u32 \<Rightarrow> u32 \<Rightarrow> fault + u32 \<times> u32" where
  "EstimateNrObjects order objSize =
     (let bytes = push_bit PAGE_SHIFT (push_bit (unat order) 1)
      in rbind (count_objects objSize bytes 0) (\<lambda>i.
         (let i = (if i \<noteq> 0 then i - 1 else i) in Inr (i, bytes - space_for objSize i))))"

function halve_align :: "u32 \<Rightarrow> u32 \<Rightarrow> u32" where
  "halve_align sz align = (if sz < align div 2 then halve_align sz (align div 2) else align)"
  by pat_completeness auto
termination
proof (relation "measure (unat \<circ> snd)")
  fix sz align :: u32
  assume "sz < align div 2"
  then have "unat align div 2 \<noteq> 0" by (simp add: word_less_nat_alt unat_div)
  then have "unat align div 2 < unat align" by simp
  then show "((sz, align div 2), sz, align) \<in> measure (unat \<circ> snd)" by (simp add: unat_div)
qed simp

declare halve_align.simps [simp del]

text \<open>The smallest order with room for an object: the count, the order, the waste.\<close>

function choose_order :: "u32 \<Rightarrow> u32 \<Rightarrow> fault + u32 \<times> u32 \<times> u32" where
  "choose_order sz ord =
     rbind (EstimateNrObjects ord sz) (\<lambda>(nr, wastage).
       if nr = 0 then
         (if ord + 1 \<le> SLAB_MAXORDER then choose_order sz (ord + 1) else Inr (nr, ord + 1, wastage))
       else Inr (nr, ord, wastage))"
  by pat_completeness auto
termination
proof (relation "measure (\<lambda>(sz, ord). 4294967296 - unat (ord + 1))")
  fix sz ord :: u32
  assume "ord + 1 \<le> SLAB_MAXORDER"
  then have "unat (ord + 1) \<le> 5" by (simp add: SLAB_MAXORDER_def word_le_nat_alt)
  have "ord + 1 \<noteq> - 1"
  proof
    assume "ord + 1 = - 1"
    with \<open>unat (ord + 1) \<le> 5\<close> show False by (simp only: unat_neg1_32)
  qed
  then show "((sz, ord + 1), sz, ord) \<in> measure (\<lambda>(sz, ord). 4294967296 - unat (ord + 1))"
    using unat_Suc_dist [of "ord + 1"] by simp
qed simp

declare choose_order.simps [simp del]

definition aligned_size :: "u32 \<Rightarrow> u32 \<Rightarrow> u32" where
  "aligned_size objSize align =
     (let align = halve_align objSize align in if align \<noteq> 0 then ALIGN_TO_VAL objSize align else objSize)"

text \<open>The number of objects of a slab, their size after alignment, the order of the slab and the waste.\<close>

definition GetObjectCount :: "u32 \<Rightarrow> u32 \<Rightarrow> fault + u32 \<times> u32 \<times> u32 \<times> u32" where
  "GetObjectCount objSize align =
     (let sz = aligned_size objSize align in rbind (choose_order sz 0) (\<lambda>(nr, ord, wastage). Inr (nr, sz, ord, wastage)))"

section \<open>Caches\<close>

record Slab =
  slab_cache :: u32
  objectStart :: u32
  freeIndex :: u32
  inUse :: u32
  magic_valid :: u32

record slab_heap =
  buddies :: buddy
  slab_links :: links
  slabs :: "u32 \<Rightarrow> Slab"
  freeArray :: "u32 \<Rightarrow> u32 \<Rightarrow> u32"

record SlabCache =
  cache_this :: u32
  fullSlabList :: dll
  partialSlabList :: dll
  freeSlabList :: dll
  objSize :: u32
  cache_order :: u32
  objectsPerSlab :: u32
  objectsAllocated :: u32

definition slab_IsFull :: "Slab \<Rightarrow> bool" where
  "slab_IsFull sl \<longleftrightarrow> freeIndex sl = SLAB_BUF_END"

definition slab_IsEmpty :: "Slab \<Rightarrow> bool" where
  "slab_IsEmpty sl \<longleftrightarrow> inUse sl = 0"

definition set_slab :: "u32 \<Rightarrow> Slab \<Rightarrow> slab_heap \<Rightarrow> slab_heap" where
  "set_slab a sl h = h\<lparr>slabs := (slabs h)(a := sl)\<rparr>"

text \<open>The constructor; the address of the object and its parent do not change afterwards.\<close>

definition new_SlabCache :: "u32 \<Rightarrow> u32 \<Rightarrow> u32 \<Rightarrow> fault + SlabCache" where
  "new_SlabCache this Align Size =
     rbind (GetObjectCount Size Align) (\<lambda>(nr, sz, ord, wastage).
       if nr = 0 \<or> SLAB_MAXORDER < ord then Inl PanicCache
       else Inr \<lparr>cache_this = this, fullSlabList = empty_list, partialSlabList = empty_list, freeSlabList = empty_list,
                 objSize = sz, cache_order = ord, objectsPerSlab = nr, objectsAllocated = 0\<rparr>)"

primrec link_objects :: "nat \<Rightarrow> u32 \<Rightarrow> (u32 \<Rightarrow> u32) \<Rightarrow> u32 \<Rightarrow> u32" where
  "link_objects 0 i f = f"
| "link_objects (Suc n) i f = link_objects n (i + 1) (f(i := i + 1))"

text \<open>SmallCache::Grow. The address AllocateBuddy returns is not tested.\<close>

definition Grow :: "SlabCache \<Rightarrow> slab_heap \<Rightarrow> fault + u32 \<times> SlabCache \<times> slab_heap" where
  "Grow c h =
     rbind (AllocateBuddy (cache_order c) (buddies h)) (\<lambda>(newSlab, b).
     if newSlab = 0 then Inl NullPointer
     else
       (let sl = \<lparr>slab_cache = cache_this c,
                  objectStart = (newSlab + push_bit PAGE_SHIFT (push_bit (unat (cache_order c)) 1)) - objSize c * objectsPerSlab c,
                  freeIndex = 0, inUse = 0, magic_valid = SLAB_MAGIC_VALID\<rparr>;
            f = link_objects (unat (objectsPerSlab c - 1)) 0 (freeArray h newSlab);
            f = f(objectsPerSlab c - 1 := SLAB_BUF_END);
            h = set_slab newSlab sl (h\<lparr>buddies := b, freeArray := (freeArray h)(newSlab := f)\<rparr>)
        in rbind (Prepend newSlab (slab_links h, freeSlabList c)) (\<lambda>(ls, l).
           Inr (newSlab, c\<lparr>freeSlabList := l\<rparr>, h\<lparr>slab_links := ls\<rparr>))))"

definition GetNonEmptySlab :: "SlabCache \<Rightarrow> slab_heap \<Rightarrow> fault + u32 \<times> SlabCache \<times> slab_heap" where
  "GetNonEmptySlab c h =
     (if IsEmpty (partialSlabList c) then
        (if IsEmpty (freeSlabList c) then Grow c h else Inr (head (freeSlabList c), c, h))
      else Inr (head (partialSlabList c), c, h))"

text \<open>Moving a slab from one list of the cache to another.\<close>

definition free_to_partial :: "u32 \<Rightarrow> SlabCache \<times> slab_heap \<Rightarrow> fault + SlabCache \<times> slab_heap" where
  "free_to_partial a = (\<lambda>(c, h).
     (let (ls, l) = Remove a (slab_links h, freeSlabList c)
      in rbind (Prepend a (ls, partialSlabList c)) (\<lambda>(ls, p).
         Inr (c\<lparr>freeSlabList := l, partialSlabList := p\<rparr>, h\<lparr>slab_links := ls\<rparr>))))"

definition partial_to_free :: "u32 \<Rightarrow> SlabCache \<times> slab_heap \<Rightarrow> fault + SlabCache \<times> slab_heap" where
  "partial_to_free a = (\<lambda>(c, h).
     (let (ls, l) = Remove a (slab_links h, partialSlabList c)
      in rbind (Prepend a (ls, freeSlabList c)) (\<lambda>(ls, p).
         Inr (c\<lparr>partialSlabList := l, freeSlabList := p\<rparr>, h\<lparr>slab_links := ls\<rparr>))))"

definition partial_to_full :: "u32 \<Rightarrow> SlabCache \<times> slab_heap \<Rightarrow> fault + SlabCache \<times> slab_heap" where
  "partial_to_full a = (\<lambda>(c, h).
     (let (ls, l) = Remove a (slab_links h, partialSlabList c)
      in rbind (Prepend a (ls, fullSlabList c)) (\<lambda>(ls, p).
         Inr (c\<lparr>partialSlabList := l, fullSlabList := p\<rparr>, h\<lparr>slab_links := ls\<rparr>))))"

definition full_to_partial :: "u32 \<Rightarrow> SlabCache \<times> slab_heap \<Rightarrow> fault + SlabCache \<times> slab_heap" where
  "full_to_partial a = (\<lambda>(c, h).
     (let (ls, l) = Remove a (slab_links h, fullSlabList c)
      in rbind (Prepend a (ls, partialSlabList c)) (\<lambda>(ls, p).
         Inr (c\<lparr>fullSlabList := l, partialSlabList := p\<rparr>, h\<lparr>slab_links := ls\<rparr>))))"

definition AllocateObject :: "SlabCache \<Rightarrow> slab_heap \<Rightarrow> fault + u32 \<times> SlabCache \<times> slab_heap" where
  "AllocateObject c h =
     rbind (GetNonEmptySlab c h) (\<lambda>(slab, c, h).
     if magic_valid (slabs h slab) \<noteq> SLAB_MAGIC_VALID then Inl AssertFailed
     else
       rbind (if slab_IsEmpty (slabs h slab) then free_to_partial slab (c, h) else Inr (c, h)) (\<lambda>(c, h).
       (let sl = slabs h slab;
            allocatedObject = objectStart sl + freeIndex sl * objSize c;
            sl = sl\<lparr>freeIndex := freeArray h slab (freeIndex sl), inUse := inUse sl + 1\<rparr>;
            h = set_slab slab sl h
        in rbind (if slab_IsFull sl then partial_to_full slab (c, h) else Inr (c, h)) (\<lambda>(c, h).
           Inr (allocatedObject, c\<lparr>objectsAllocated := objectsAllocated c + 1\<rparr>, h)))))"

definition FreeObject :: "u32 \<Rightarrow> SlabCache \<Rightarrow> slab_heap \<Rightarrow> fault + SlabCache \<times> slab_heap" where
  "FreeObject obj c h =
     (let slab = obj AND PAGEALIGN_MASK
      in if magic_valid (slabs h slab) \<noteq> SLAB_MAGIC_VALID then Inl AssertFailed
         else
           rbind (if slab_IsFull (slabs h slab) then full_to_partial slab (c, h) else Inr (c, h)) (\<lambda>(c, h).
           if objSize c = 0 then Inl DivideError
           else
             (let sl = slabs h slab;
                  objectIndex = (obj - objectStart sl) div objSize c;
                  h = h\<lparr>freeArray := (freeArray h)(slab := (freeArray h slab)(objectIndex := freeIndex sl))\<rparr>;
                  sl = sl\<lparr>freeIndex := objectIndex, inUse := inUse sl - 1\<rparr>;
                  h = set_slab slab sl h
              in rbind (if slab_IsEmpty sl then partial_to_free slab (c, h) else Inr (c, h)) (\<lambda>(c, h).
                 Inr (c\<lparr>objectsAllocated := objectsAllocated c - 1\<rparr>, h)))))"

text \<open>SmallCache::ReleaseSlab and the loop of SlabCache::ReleaseUnusedMemory.\<close>

definition ReleaseSlab :: "u32 \<Rightarrow> SlabCache \<Rightarrow> slab_heap \<Rightarrow> (fault + slab_heap) option" where
  "ReleaseSlab slab c h =
     (if magic_valid (slabs h slab) \<noteq> SLAB_MAGIC_VALID then Some (Inl AssertFailed)
      else
        (let h = set_slab slab ((slabs h slab)\<lparr>magic_valid := 0\<rparr>) h
         in Option.bind (FreeBuddy slab (cache_order c) (buddies h)) (\<lambda>r.
              Some (rbind r (\<lambda>b. Inr (h\<lparr>buddies := b\<rparr>))))))"

partial_function (option) ReleaseUnusedMemory :: "SlabCache \<Rightarrow> slab_heap \<Rightarrow> (fault + SlabCache \<times> slab_heap) option" where
  "ReleaseUnusedMemory c h =
     (if head (freeSlabList c) = 0 then Some (Inr (c, h))
      else
        (let a = head (freeSlabList c); (ls, l) = Remove a (slab_links h, freeSlabList c);
             c = c\<lparr>freeSlabList := l\<rparr>
         in Option.bind (ReleaseSlab a c (h\<lparr>slab_links := ls\<rparr>)) (\<lambda>r.
            case r of Inl e \<Rightarrow> Some (Inl e) | Inr h \<Rightarrow> ReleaseUnusedMemory c h)))"

text \<open>SlabCache::Destroy walks the three lists and leaves them as they are.\<close>

partial_function (option) ReleaseList :: "u32 \<Rightarrow> SlabCache \<Rightarrow> slab_heap \<Rightarrow> (fault + slab_heap) option" where
  "ReleaseList curSlab c h =
     (if curSlab = 0 then Some (Inr h)
      else
        (let nextSlab = GetNext (slab_links h) curSlab
         in Option.bind (ReleaseSlab curSlab c h) (\<lambda>r.
            case r of Inl e \<Rightarrow> Some (Inl e) | Inr h \<Rightarrow> ReleaseList nextSlab c h)))"

definition Destroy :: "SlabCache \<Rightarrow> slab_heap \<Rightarrow> (fault + slab_heap) option" where
  "Destroy c h =
     Option.bind (ReleaseList (head (freeSlabList c)) c h) (\<lambda>r. case r of Inl e \<Rightarrow> Some (Inl e) | Inr h \<Rightarrow>
     Option.bind (ReleaseList (head (partialSlabList c)) c h) (\<lambda>r. case r of Inl e \<Rightarrow> Some (Inl e) | Inr h \<Rightarrow>
     ReleaseList (head (fullSlabList c)) c h))"

section \<open>How many objects fit\<close>

text \<open>The bytes a slab of \<open>i\<close> objects needs, without overflow.\<close>

definition slab_bytes :: "nat \<Rightarrow> nat \<Rightarrow> nat" where
  "slab_bytes sz i = (if sz < 512 then i * sz + 28 + 4 * i else i * sz)"

lemma SLAB_LIMIT_512: "unat SLAB_LIMIT = 512"
  by (simp add: SLAB_LIMIT_def KERNEL_PAGE_SIZE_def)

lemma space_for_bytes:
  assumes "unat i * unat sz + 28 + 4 * unat i < 4294967296"
  shows "unat (space_for sz i) = slab_bytes (unat sz) (unat i)"
proof -
  have m: "unat (i * sz) = unat i * unat sz" "unat (4 * i) = 4 * unat i"
    using assms by (simp_all add: unat_word_ariths take_bit_nat_eq_self)
  show ?thesis
  proof (cases "sz < SLAB_LIMIT")
    case True
    have "unat (i * sz + 28) = unat i * unat sz + 28" using assms m by (subst unat_add32) simp_all
    then have "unat (i * sz + 28 + 4 * i) = unat i * unat sz + 28 + 4 * unat i" using assms m by (subst unat_add32) simp_all
    then show ?thesis using True by (simp add: space_for_def Let_def sizeof_Slab_def slab_bytes_def word_less_nat_alt SLAB_LIMIT_512)
  next
    case False
    then show ?thesis using m by (simp add: space_for_def slab_bytes_def word_less_nat_alt SLAB_LIMIT_512)
  qed
qed

lemma slab_bytes_Suc: "slab_bytes sz (Suc i) = slab_bytes sz i + sz + (if sz < 512 then 4 else 0)"
  by (simp add: slab_bytes_def)

lemma slab_bytes_mono: "i \<le> j \<Longrightarrow> slab_bytes sz i \<le> slab_bytes sz j"
  by (simp add: slab_bytes_def add_mono mult_le_mono1)

lemma slab_bytes_count: "0 < sz \<Longrightarrow> i \<le> slab_bytes sz i"
proof -
  assume "0 < sz"
  then have "i * 1 \<le> i * sz" by (intro mult_le_mono2) simp
  then show ?thesis by (simp add: slab_bytes_def)
qed

text \<open>The index never gets far enough for a product to wrap.\<close>

lemma space_for_step:
  assumes "0 < unat sz" "unat sz \<le> 2147483648" "unat bytes \<le> 131072" "unat i \<le> 131073"
    and "unat i = 0 \<or> slab_bytes (unat sz) (unat i - 1) \<le> unat bytes"
  shows "unat (space_for sz i) = slab_bytes (unat sz) (unat i)"
proof (rule space_for_bytes)
  have "unat i * unat sz \<le> unat bytes + unat sz"
  proof (cases "unat i")
    case (Suc k)
    then have "k * unat sz \<le> unat bytes" using assms(5) by (simp add: slab_bytes_def split: if_splits)
    then show ?thesis by (simp only: Suc mult_Suc)
  qed simp
  then show "unat i * unat sz + 28 + 4 * unat i < 4294967296" using assms(2-4) by linarith
qed

lemma count_objects_max:
  assumes "0 < unat sz" "unat sz \<le> 2147483648" "unat bytes \<le> 131072" "unat i \<le> 131073"
    and "unat i = 0 \<or> slab_bytes (unat sz) (unat i - 1) \<le> unat bytes"
  shows "\<exists>n. count_objects sz bytes i = Inr n \<and> unat n \<le> 131073 \<and> (unat n = 0 \<or> slab_bytes (unat sz) (unat n - 1) \<le> unat bytes) \<and>
    unat bytes < slab_bytes (unat sz) (unat n)"
  using assms(4,5)
proof (induction "131073 - unat i" arbitrary: i rule: less_induct)
  case less
  have s: "unat (space_for sz i) = slab_bytes (unat sz) (unat i)" by (rule space_for_step [OF assms(1-3) less.prems])
  have i: "\<not> 0x80000000 \<le> i" using less.prems(1) by (simp add: word_le_nat_alt)
  show ?case
  proof (cases "space_for sz i \<le> bytes")
    case True
    then have le: "slab_bytes (unat sz) (unat i) \<le> unat bytes" by (simp add: word_le_nat_alt s)
    then have b: "unat i \<le> 131072" using slab_bytes_count [OF assms(1), of "unat i"] assms(3) by linarith
    have S: "unat (i + 1) = Suc (unat i)" by (rule unat_Suc_neq) (use b in auto)
    have "\<exists>n. count_objects sz bytes (i + 1) = Inr n \<and> unat n \<le> 131073 \<and> (unat n = 0 \<or> slab_bytes (unat sz) (unat n - 1) \<le> unat bytes) \<and>
        unat bytes < slab_bytes (unat sz) (unat n)"
    proof (rule less.hyps)
      show "131073 - unat (i + 1) < 131073 - unat i" using S b by simp
      show "unat (i + 1) \<le> 131073" using S b by simp
      show "unat (i + 1) = 0 \<or> slab_bytes (unat sz) (unat (i + 1) - 1) \<le> unat bytes" by (rule disjI2) (simp only: S diff_Suc_1 le)
    qed
    then show ?thesis using True i by (subst count_objects.simps) simp
  next
    case False
    then have "unat bytes < slab_bytes (unat sz) (unat i)" by (simp add: word_le_nat_alt s)
    then show ?thesis using False i less.prems by (subst count_objects.simps) simp
  qed
qed

text \<open>The pages of a slab.\<close>

lemma slab_total: "order \<le> SLAB_MAXORDER \<Longrightarrow> unat (push_bit PAGE_SHIFT (push_bit (unat order) (1 :: u32))) = 4096 * 2 ^ unat order \<and> unat order \<le> 5"
proof -
  assume "order \<le> SLAB_MAXORDER"
  then have o: "unat order \<le> 5" by (simp add: SLAB_MAXORDER_def word_le_nat_alt)
  then have "(2 :: nat) ^ unat order \<le> 2 ^ 5" by (intro power_increasing) simp_all
  then have "(4096 :: nat) * 2 ^ unat order \<le> 131072" by simp
  then have "4096 * 2 ^ unat order < (4294967296 :: nat)" by (rule le_less_trans) simp
  moreover have "push_bit PAGE_SHIFT (push_bit (unat order) (1 :: u32)) = of_nat (4096 * 2 ^ unat order)"
    by (simp add: push_bit_eq_mult PAGE_SHIFT_def)
  ultimately show ?thesis using o by (simp only: unat_of_nat32)
qed

lemma EstimateNrObjects_fits:
  assumes "0 < unat sz" "unat sz \<le> 2147483648" "order \<le> SLAB_MAXORDER"
  shows "\<exists>n w. EstimateNrObjects order sz = Inr (n, w)
    \<and> slab_bytes (unat sz) (unat n) \<le> 4096 * 2 ^ unat order \<and> unat w = 4096 * 2 ^ unat order - slab_bytes (unat sz) (unat n)
    \<and> 4096 * 2 ^ unat order < slab_bytes (unat sz) (unat n + 1)"
proof -
  let ?bytes = "push_bit PAGE_SHIFT (push_bit (unat order) (1 :: u32))"
  have b: "unat ?bytes = 4096 * 2 ^ unat order" and o: "unat order \<le> 5" using slab_total [OF assms(3)] by simp_all
  then have "(2 :: nat) ^ unat order \<le> 2 ^ 5" by (intro power_increasing) simp_all
  then have bb: "unat ?bytes \<le> 131072" using b by simp
  obtain m where m: "count_objects sz ?bytes 0 = Inr m" "unat m \<le> 131073" "unat m = 0 \<or> slab_bytes (unat sz) (unat m - 1) \<le> unat ?bytes"
      "unat ?bytes < slab_bytes (unat sz) (unat m)"
    using count_objects_max [OF assms(1,2) bb, of 0] by auto
  have "slab_bytes (unat sz) 0 \<le> 4096 * 1" by (simp add: slab_bytes_def)
  also have "\<dots> \<le> 4096 * 2 ^ unat order" by (intro mult_le_mono2) simp
  finally have "unat m \<noteq> 0" using m(4) b by (metis not_le)
  define n where "n = m - 1"
  have "unat (1 :: u32) \<le> unat m" unfolding unsigned_1 using \<open>unat m \<noteq> 0\<close> by linarith
  then have "1 \<le> m" by (simp only: word_le_nat_alt)
  then have "unat n = unat m - 1" by (simp add: n_def unat_sub_le)
  with \<open>unat m \<noteq> 0\<close> have nm: "unat m = Suc (unat n)" "m \<noteq> 0" by (linarith, simp)
  have le: "slab_bytes (unat sz) (unat n) \<le> unat ?bytes" using m(3) nm by simp
  have s: "unat (space_for sz n) = slab_bytes (unat sz) (unat n)"
  proof (rule space_for_step [OF assms(1,2) bb])
    show "unat n \<le> 131073" using m(2) nm by simp
    show "unat n = 0 \<or> slab_bytes (unat sz) (unat n - 1) \<le> unat ?bytes"
      using order_trans [OF slab_bytes_mono [of "unat n - 1" "unat n"] le] by simp
  qed
  then have w: "unat (?bytes - space_for sz n) = unat ?bytes - slab_bytes (unat sz) (unat n)"
    using le by (subst unat_sub_le) (simp_all add: word_le_nat_alt)
  have "EstimateNrObjects order sz = Inr (n, ?bytes - space_for sz n)"
    using m(1) nm(2) by (simp add: EstimateNrObjects_def Let_def n_def)
  then show ?thesis using le w b m(4) nm(1) by auto
qed

text \<open>C36. \<open>EstimateNrObjects\<close> returns for every object size up to half the address space and finds the largest number of objects
  that fits a slab together with the header and the free array of a small object, and the bytes left.\<close>

theorem estimate_fits:
  assumes "0 < unat sz" "unat sz \<le> 2147483648" "order \<le> SLAB_MAXORDER"
  shows "\<exists>n w. EstimateNrObjects order sz = Inr (n, w)
    \<and> slab_bytes (unat sz) (unat n) \<le> 4096 * 2 ^ unat order \<and> unat w = 4096 * 2 ^ unat order - slab_bytes (unat sz) (unat n)
    \<and> 4096 * 2 ^ unat order < slab_bytes (unat sz) (unat n + 1)"
  using EstimateNrObjects_fits [OF assms] .

theorem estimate_fits_witness:
  "\<exists>n w. EstimateNrObjects 0 64 = Inr (n, w) \<and> 28 + 68 * unat n \<le> 4096 \<and> 4096 < 28 + 68 * (unat n + 1)"
  using estimate_fits [of 64 0] by (auto simp: slab_bytes_def)

text \<open>A cache of small objects has one page for each slab, and the header, the free array and the objects fit.\<close>

definition small_cache :: "SlabCache \<Rightarrow> bool" where
  "small_cache c \<longleftrightarrow> 0 < unat (objSize c) \<and> unat (objSize c) < 512 \<and> cache_order c = 0 \<and> 0 < unat (objectsPerSlab c) \<and>
     slab_bytes (unat (objSize c)) (unat (objectsPerSlab c)) \<le> 4096"

lemma GetObjectCount_small:
  assumes "0 < unat (aligned_size Size Align)" "unat (aligned_size Size Align) < 512"
  shows "\<exists>nr w. GetObjectCount Size Align = Inr (nr, aligned_size Size Align, 0, w) \<and> 0 < unat nr \<and>
    slab_bytes (unat (aligned_size Size Align)) (unat nr) \<le> 4096"
proof -
  let ?sz = "aligned_size Size Align"
  obtain n v where e: "EstimateNrObjects 0 ?sz = Inr (n, v)" "slab_bytes (unat ?sz) (unat n) \<le> 4096" "4096 < slab_bytes (unat ?sz) (unat n + 1)"
    using EstimateNrObjects_fits [OF assms(1), of 0] assms(2) by auto
  have "n \<noteq> 0"
  proof
    assume "n = 0"
    then show False using e(3) assms(2) by (simp add: slab_bytes_def)
  qed
  then have "0 < unat n" by (intro gr0I) simp
  moreover have "choose_order ?sz 0 = Inr (n, 0, v)" using e(1) \<open>n \<noteq> 0\<close> by (subst choose_order.simps) simp
  then have "GetObjectCount Size Align = Inr (n, ?sz, 0, v)" by (simp add: GetObjectCount_def Let_def)
  ultimately show ?thesis using e(2) by blast
qed

lemma new_SlabCache_small:
  assumes "0 < unat (aligned_size Size Align)" "unat (aligned_size Size Align) < 512"
  shows "\<exists>c. new_SlabCache this Align Size = Inr c \<and> small_cache c \<and> objSize c = aligned_size Size Align \<and> objectsAllocated c = 0 \<and>
    fullSlabList c = empty_list \<and> partialSlabList c = empty_list \<and> freeSlabList c = empty_list"
proof -
  obtain nr w where g: "GetObjectCount Size Align = Inr (nr, aligned_size Size Align, 0, w)" "0 < unat nr"
      "slab_bytes (unat (aligned_size Size Align)) (unat nr) \<le> 4096" using GetObjectCount_small [OF assms] by blast
  have "nr \<noteq> 0" using g(2) by auto
  moreover have "\<not> SLAB_MAXORDER < (0 :: u32)" by simp
  ultimately show ?thesis
    unfolding new_SlabCache_def g(1) small_cache_def using g(2,3) assms by simp
qed

lemma small_cacheD:
  assumes "small_cache c"
  shows "0 < unat (objSize c)" "unat (objSize c) < 512" "cache_order c = 0" "0 < unat (objectsPerSlab c)"
    "unat (objectsPerSlab c) * unat (objSize c) + 28 + 4 * unat (objectsPerSlab c) \<le> 4096"
  using assms unfolding small_cache_def slab_bytes_def by presburger+

section \<open>One slab\<close>

text \<open>The address of an object of a slab, and the list of free slots that starts at an index.\<close>

definition slot :: "SlabCache \<Rightarrow> u32 \<Rightarrow> nat \<Rightarrow> u32" where
  "slot c a k = a + of_nat (4096 - unat (objectsPerSlab c) * unat (objSize c) + k * unat (objSize c))"

primrec free_chain :: "(u32 \<Rightarrow> u32) \<Rightarrow> u32 \<Rightarrow> nat list \<Rightarrow> bool" where
  "free_chain f i [] \<longleftrightarrow> i = SLAB_BUF_END"
| "free_chain f i (k # ks) \<longleftrightarrow> i = of_nat k \<and> free_chain f (f i) ks"

definition slab_ok :: "SlabCache \<Rightarrow> Slab \<Rightarrow> (u32 \<Rightarrow> u32) \<Rightarrow> u32 \<Rightarrow> nat list \<Rightarrow> bool" where
  "slab_ok c sl f a ks \<longleftrightarrow> magic_valid sl = SLAB_MAGIC_VALID \<and> objectStart sl = slot c a 0 \<and> free_chain f (freeIndex sl) ks \<and>
     distinct ks \<and> set ks \<subseteq> {..<unat (objectsPerSlab c)} \<and> inUse sl + of_nat (length ks) = objectsPerSlab c"

lemma free_chain_cong: "(\<And>k. k \<in> set ks \<Longrightarrow> f' (of_nat k) = f (of_nat k)) \<Longrightarrow> free_chain f' i ks = free_chain f i ks"
  by (induction ks arbitrary: i) auto

lemma slots_short:
  assumes "slab_ok c sl f a ks"
  shows "length ks \<le> unat (objectsPerSlab c)"
proof -
  have "card (set ks) \<le> card {..<unat (objectsPerSlab c)}" using assms by (intro card_mono) (simp_all add: slab_ok_def)
  then show ?thesis using assms by (simp add: slab_ok_def distinct_card)
qed

lemma slab_full_empty:
  assumes "small_cache c" "slab_ok c sl f a ks"
  shows "slab_IsFull sl \<longleftrightarrow> ks = []" "slab_IsEmpty sl \<longleftrightarrow> length ks = unat (objectsPerSlab c)"
proof -
  note s = small_cacheD [OF assms(1)]
  have n: "unat (objectsPerSlab c) < 1024" using s(1,5) by linarith
  show "slab_IsFull sl \<longleftrightarrow> ks = []"
  proof (cases ks)
    case Nil
    then show ?thesis using assms(2) by (simp add: slab_ok_def slab_IsFull_def)
  next
    case (Cons k js)
    then have "k < unat (objectsPerSlab c)" "freeIndex sl = of_nat k" using assms(2) by (simp_all add: slab_ok_def)
    then have "unat (freeIndex sl) < 1024" using n by (simp add: unat_of_nat32)
    then have "freeIndex sl \<noteq> SLAB_BUF_END" by (auto simp: SLAB_BUF_END_def)
    then show ?thesis using Cons by (simp add: slab_IsFull_def)
  qed
  have "inUse sl = objectsPerSlab c - of_nat (length ks)" using assms(2) by (simp add: slab_ok_def eq_diff_eq)
  moreover have "objectsPerSlab c = of_nat (length ks) \<longleftrightarrow> unat (objectsPerSlab c) = length ks"
    using slots_short [OF assms(2)] n by (subst word_eq_unat_iff) (simp add: unat_of_nat32)
  ultimately show "slab_IsEmpty sl \<longleftrightarrow> length ks = unat (objectsPerSlab c)" by (auto simp: slab_IsEmpty_def)
qed

lemma slab_take:
  assumes "slab_ok c sl f a (k # ks)"
  shows "slab_ok c (sl\<lparr>freeIndex := f (freeIndex sl), inUse := inUse sl + 1\<rparr>) f a ks" "objectStart sl + freeIndex sl * objSize c = slot c a k"
  using assms by (auto simp: slab_ok_def slot_def algebra_simps)

lemma slab_give:
  assumes "small_cache c" "slab_ok c sl f a ks" "k < unat (objectsPerSlab c)" "k \<notin> set ks"
  shows "slab_ok c (sl\<lparr>freeIndex := of_nat k, inUse := inUse sl - 1\<rparr>) (f(of_nat k := freeIndex sl)) a (k # ks)"
proof -
  have n: "unat (objectsPerSlab c) < 1024" using small_cacheD(1,5) [OF assms(1)] by linarith
  have "of_nat j \<noteq> (of_nat k :: u32)" if "j \<in> set ks" for j
  proof -
    have "j < 1024" "k < 1024" "j \<noteq> k" using that assms n by (auto simp: slab_ok_def)
    then show ?thesis using unat_of_nat32 [of j] unat_of_nat32 [of k] by auto
  qed
  then have "free_chain (f(of_nat k := freeIndex sl)) (freeIndex sl) ks = free_chain f (freeIndex sl) ks"
    by (intro free_chain_cong) simp
  then show ?thesis using assms by (simp add: slab_ok_def)
qed

text \<open>Objects lie behind the header and the free array, on the page of their slab, and do not overlap.\<close>

lemma unat_slot:
  assumes "small_cache c" "k < unat (objectsPerSlab c)" "unat a + 4096 \<le> 4294967296"
  shows "unat (slot c a k) = unat a + (4096 - unat (objectsPerSlab c) * unat (objSize c) + k * unat (objSize c))"
    "unat (slot c a k) + unat (objSize c) \<le> unat a + 4096"
    "unat a + 28 + 4 * unat (objectsPerSlab c) \<le> unat (slot c a k)"
proof -
  define P where "P = unat (objectsPerSlab c) * unat (objSize c)"
  define Q where "Q = k * unat (objSize c)"
  have PQ: "P + 28 + 4 * unat (objectsPerSlab c) \<le> 4096" unfolding P_def by (rule small_cacheD(5) [OF assms(1)])
  have "Suc k * unat (objSize c) \<le> P" unfolding P_def using assms(2) by (intro mult_le_mono1) simp
  then have QP: "Q + unat (objSize c) \<le> P" by (simp add: Q_def)
  then have le: "unat a + (4096 - P + Q) < 4294967296" using PQ assms(3) small_cacheD(1) [OF assms(1)] by linarith
  show u: "unat (slot c a k) = unat a + (4096 - unat (objectsPerSlab c) * unat (objSize c) + k * unat (objSize c))"
    unfolding slot_def P_def [symmetric] Q_def [symmetric] by (rule unat_add_of_nat32 [OF le])
  show "unat (slot c a k) + unat (objSize c) \<le> unat a + 4096" unfolding u P_def [symmetric] Q_def [symmetric] using PQ QP by linarith
  show "unat a + 28 + 4 * unat (objectsPerSlab c) \<le> unat (slot c a k)" unfolding u P_def [symmetric] Q_def [symmetric] using PQ QP by linarith
qed

lemma slot_page:
  assumes "small_cache c" "k < unat (objectsPerSlab c)" "unat a + 4096 \<le> 4294967296" "4096 dvd unat a"
  shows "slot c a k AND PAGEALIGN_MASK = a"
proof -
  note u = unat_slot [OF assms(1-3)]
  have "unat (slot c a k) div 4096 = unat a div 4096"
  proof -
    define d where "d = unat (slot c a k) - unat a"
    have d: "unat (slot c a k) = unat a + d" "d < 4096" using u(2,3) small_cacheD(1) [OF assms(1)] unfolding d_def by linarith+
    obtain q where "unat a = 4096 * q" using assms(4) by (elim dvdE)
    then show ?thesis using d by simp
  qed
  then have "unat (slot c a k AND PAGEALIGN_MASK) = unat a" using assms(4) by (simp add: align_down)
  then show ?thesis by (simp add: word_eq_unat_iff)
qed

lemma slot_index:
  assumes "small_cache c" "k < unat (objectsPerSlab c)"
  shows "(slot c a k - slot c a 0) div objSize c = of_nat k"
proof -
  have "k * unat (objSize c) \<le> unat (objectsPerSlab c) * unat (objSize c)" using assms(2) by (intro mult_le_mono1) simp
  also have "\<dots> \<le> 4096" by (rule order_trans [OF _ small_cacheD(5) [OF assms(1)]]) (simp only: le_add1 add.assoc)
  finally have le: "k * unat (objSize c) < 4294967296" by simp
  have "slot c a k - slot c a 0 = of_nat (k * unat (objSize c))" by (simp add: slot_def)
  then have "unat (slot c a k - slot c a 0) = k * unat (objSize c)" by (simp only: unat_of_nat32 [OF le])
  then have "unat ((slot c a k - slot c a 0) div objSize c) = k" using small_cacheD(1) [OF assms(1)] by (simp only: unat_div nonzero_mult_div_cancel_right)
  then show ?thesis by (metis of_nat_unat_same)
qed

section \<open>The lists of a cache\<close>

text \<open>The abstract state: the slabs of the three lists, and for every slab its free slots in the order of their links.\<close>

record slab_view =
  full_slabs :: "u32 list"
  partial_slabs :: "u32 list"
  free_slabs :: "u32 list"
  free_slots :: "u32 \<Rightarrow> nat list"

definition slabs_of :: "slab_view \<Rightarrow> u32 list" where
  "slabs_of v = full_slabs v @ partial_slabs v @ free_slabs v"

definition objects :: "SlabCache \<Rightarrow> slab_view \<Rightarrow> u32 set" where
  "objects c v = {slot c a k |a k. a \<in> set (slabs_of v) \<and> k < unat (objectsPerSlab c) \<and> k \<notin> set (free_slots v a)}"

definition lists_hold :: "SlabCache \<Rightarrow> links \<Rightarrow> slab_view \<Rightarrow> bool" where
  "lists_hold c s v \<longleftrightarrow> holds (s, fullSlabList c) (full_slabs v) \<and> holds (s, partialSlabList c) (partial_slabs v) \<and>
     holds (s, freeSlabList c) (free_slabs v) \<and> distinct (slabs_of v)"

text \<open>The list a slab belongs to; \<open>H\<close> holds the slab an operation is working on.\<close>

definition placed :: "nat \<Rightarrow> slab_view \<Rightarrow> u32 set \<Rightarrow> bool" where
  "placed n v H \<longleftrightarrow> (\<forall>a \<in> set (full_slabs v) - H. free_slots v a = []) \<and>
     (\<forall>a \<in> set (partial_slabs v) - H. free_slots v a \<noteq> [] \<and> length (free_slots v a) < n) \<and>
     (\<forall>a \<in> set (free_slabs v) - H. length (free_slots v a) = n)"

definition slabs_ok :: "SlabCache \<Rightarrow> slab_heap \<Rightarrow> slab_view \<Rightarrow> bool" where
  "slabs_ok c h v \<longleftrightarrow> (\<forall>a \<in> set (slabs_of v). slab_ok c (slabs h a) (freeArray h a) a (free_slots v a))"

definition slab_blocks :: "slab_heap \<Rightarrow> slab_view \<Rightarrow> bool" where
  "slab_blocks h v \<longleftrightarrow> (\<exists>B. buddy_inv (buddies h) B \<and> 4096 dvd unat (startAddress (buddies h)) \<and>
     (\<forall>a \<in> set (slabs_of v). \<exists>x. a = block_address (buddies h) x \<and> (x, 12) \<in> used_blocks B))"

definition cache_working :: "SlabCache \<Rightarrow> slab_heap \<Rightarrow> slab_view \<Rightarrow> u32 set \<Rightarrow> bool" where
  "cache_working c h v H \<longleftrightarrow> small_cache c \<and> lists_hold c (slab_links h) v \<and> placed (unat (objectsPerSlab c)) v H \<and>
     slabs_ok c h v \<and> slab_blocks h v"

definition cache_inv :: "SlabCache \<Rightarrow> slab_heap \<Rightarrow> slab_view \<Rightarrow> bool" where
  "cache_inv c h v \<longleftrightarrow> cache_working c h v {} \<and> objectsAllocated c = of_nat (card (objects c v))"

text \<open>The three lists of the caches change, the sizes do not.\<close>

definition same_cache :: "SlabCache \<Rightarrow> SlabCache \<Rightarrow> bool" where
  "same_cache c c' \<longleftrightarrow> objSize c' = objSize c \<and> objectsPerSlab c' = objectsPerSlab c \<and> cache_order c' = cache_order c \<and>
     cache_this c' = cache_this c"

lemma same_cache_slot: "same_cache c c' \<Longrightarrow> slot c' = slot c"
  by (intro ext) (simp add: same_cache_def slot_def)

lemma same_cache_eqs:
  assumes "same_cache c c'"
  shows "small_cache c' = small_cache c" "slab_ok c' = slab_ok c" "objects c' = objects c"
  using assms same_cache_slot [OF assms]
  by (auto simp: same_cache_def small_cache_def slab_ok_def objects_def fun_eq_iff)

text \<open>The links, the headers and the free arrays of other slabs do not change.\<close>

definition links_outside :: "u32 set \<Rightarrow> links \<Rightarrow> links \<Rightarrow> bool" where
  "links_outside S s s' \<longleftrightarrow> (\<forall>e. e \<notin> S \<longrightarrow> next_link s' e = next_link s e \<and> previous_link s' e = previous_link s e)"

definition outside :: "u32 set \<Rightarrow> slab_heap \<Rightarrow> slab_heap \<Rightarrow> bool" where
  "outside S h h' \<longleftrightarrow> links_outside S (slab_links h) (slab_links h') \<and> (\<forall>e. e \<notin> S \<longrightarrow> slabs h' e = slabs h e \<and> freeArray h' e = freeArray h e)"

lemma links_outside_mono: "links_outside S s s' \<Longrightarrow> S \<subseteq> S' \<Longrightarrow> links_outside S' s s'"
  by (auto simp: links_outside_def)

lemma outside_refl [simp]: "outside S h h"
  by (simp add: outside_def links_outside_def)

lemma outside_trans: "outside S h h1 \<Longrightarrow> outside S' h1 h' \<Longrightarrow> S \<subseteq> S' \<Longrightarrow> outside S' h h'"
  by (auto simp: outside_def links_outside_def)

lemma outside_set_slab [simp]: "a \<in> S \<Longrightarrow> outside S (h\<lparr>freeArray := (freeArray h)(a := f)\<rparr>) h' = outside S h h'"
    "a \<in> S \<Longrightarrow> outside S (set_slab a sl h) h' = outside S h h'" "outside S h (h\<lparr>slab_links := s\<rparr>) = links_outside S (slab_links h) s"
  by (auto simp: outside_def set_slab_def)

text \<open>Moving a slab from one list to the head of another, beside a third list.\<close>

lemma moved:
  assumes "holds (s, l1) (xs @ a # ys)" "holds (s, l2) zs" "holds (s, l3) ws"
    and "distinct (xs @ a # ys @ zs @ ws)"
  shows "\<exists>t l1' s' l2'. Remove a (s, l1) = (t, l1') \<and> Prepend a (t, l2) = Inr (s', l2') \<and>
    holds (s', l1') (xs @ ys) \<and> holds (s', l2') (a # zs) \<and> holds (s', l3) ws \<and> links_outside (set (xs @ a # ys @ zs)) s s'"
proof -
  obtain t l1' where r: "Remove a (s, l1) = (t, l1')" by (cases "Remove a (s, l1)")
  have 1: "holds (t, l1') (xs @ ys)" using holds_Remove [OF assms(1)] r by simp
  have 2: "holds (t, l2) zs" by (rule holds_other(3) [OF assms(1,2) _ _ r]) (use assms(4) in auto)
  have 3: "holds (t, l3) ws" by (rule holds_other(3) [OF assms(1,3) _ _ r]) (use assms(4) in auto)
  have "a \<noteq> 0" using assms(1) by (auto simp: holds_def)
  moreover have "a \<notin> set zs" using assms(4) by auto
  ultimately obtain s' l2' where p: "Prepend a (t, l2) = Inr (s', l2')" "holds (s', l2') (a # zs)"
    using holds_Prepend [OF 2] by blast
  have "holds (s', l1') (xs @ ys)" by (rule holds_other(2) [OF 2 1 _ _ p(1)]) (use assms(4) in auto)
  moreover have "holds (s', l3) ws" by (rule holds_other(2) [OF 2 3 _ _ p(1)]) (use assms(4) in auto)
  moreover have "next_link s' e = next_link s e \<and> previous_link s' e = previous_link s e" if "e \<notin> set (xs @ a # ys @ zs)" for e
    using Remove_frame [OF assms(1) _ r, of e] links_frame(2) [OF 2 _ _ p(1), of e] that by simp
  then have "links_outside (set (xs @ a # ys @ zs)) s s'" by (simp add: links_outside_def)
  ultimately show ?thesis using r p by blast
qed

lemma free_to_partial_moves:
  assumes "lists_hold c (slab_links h) v" "free_slabs v = xs @ a # ys"
  shows "\<exists>l p s'. free_to_partial a (c, h) = Inr (c\<lparr>freeSlabList := l, partialSlabList := p\<rparr>, h\<lparr>slab_links := s'\<rparr>) \<and>
    lists_hold (c\<lparr>freeSlabList := l, partialSlabList := p\<rparr>) s' (v\<lparr>free_slabs := xs @ ys, partial_slabs := a # partial_slabs v\<rparr>) \<and>
    links_outside (set (slabs_of v)) (slab_links h) s'"
proof -
  have d: "distinct (xs @ a # ys @ partial_slabs v @ full_slabs v)" using assms by (auto simp: lists_hold_def slabs_of_def)
  from assms obtain t l1' s' l2' where "Remove a (slab_links h, freeSlabList c) = (t, l1')" "Prepend a (t, partialSlabList c) = Inr (s', l2')"
      "holds (s', l1') (xs @ ys)" "holds (s', l2') (a # partial_slabs v)" "holds (s', fullSlabList c) (full_slabs v)" "links_outside (set (xs @ a # ys @ partial_slabs v)) (slab_links h) s'"
    using moved [of "slab_links h" "freeSlabList c" xs a ys "partialSlabList c" "partial_slabs v" "fullSlabList c" "full_slabs v", OF _ _ _ d]
    unfolding lists_hold_def by metis
  then have run: "free_to_partial a (c, h) = Inr (c\<lparr>freeSlabList := l1', partialSlabList := l2'\<rparr>, h\<lparr>slab_links := s'\<rparr>)"
      "lists_hold (c\<lparr>freeSlabList := l1', partialSlabList := l2'\<rparr>) s' (v\<lparr>free_slabs := xs @ ys, partial_slabs := a # partial_slabs v\<rparr>)"
      and "links_outside (set (xs @ a # ys @ partial_slabs v)) (slab_links h) s'"
    using assms by (auto simp: free_to_partial_def lists_hold_def slabs_of_def)
  from this(3) have "links_outside (set (slabs_of v)) (slab_links h) s'"
    by (rule links_outside_mono) (use assms(2) in \<open>auto simp: slabs_of_def\<close>)
  then show ?thesis using run by blast
qed

lemma partial_to_free_moves:
  assumes "lists_hold c (slab_links h) v" "partial_slabs v = xs @ a # ys"
  shows "\<exists>l p s'. partial_to_free a (c, h) = Inr (c\<lparr>partialSlabList := l, freeSlabList := p\<rparr>, h\<lparr>slab_links := s'\<rparr>) \<and>
    lists_hold (c\<lparr>partialSlabList := l, freeSlabList := p\<rparr>) s' (v\<lparr>partial_slabs := xs @ ys, free_slabs := a # free_slabs v\<rparr>) \<and>
    links_outside (set (slabs_of v)) (slab_links h) s'"
proof -
  have d: "distinct (xs @ a # ys @ free_slabs v @ full_slabs v)" using assms by (auto simp: lists_hold_def slabs_of_def)
  from assms obtain t l1' s' l2' where "Remove a (slab_links h, partialSlabList c) = (t, l1')" "Prepend a (t, freeSlabList c) = Inr (s', l2')"
      "holds (s', l1') (xs @ ys)" "holds (s', l2') (a # free_slabs v)" "holds (s', fullSlabList c) (full_slabs v)" "links_outside (set (xs @ a # ys @ free_slabs v)) (slab_links h) s'"
    using moved [of "slab_links h" "partialSlabList c" xs a ys "freeSlabList c" "free_slabs v" "fullSlabList c" "full_slabs v", OF _ _ _ d]
    unfolding lists_hold_def by metis
  then have run: "partial_to_free a (c, h) = Inr (c\<lparr>partialSlabList := l1', freeSlabList := l2'\<rparr>, h\<lparr>slab_links := s'\<rparr>)"
      "lists_hold (c\<lparr>partialSlabList := l1', freeSlabList := l2'\<rparr>) s' (v\<lparr>partial_slabs := xs @ ys, free_slabs := a # free_slabs v\<rparr>)"
      and "links_outside (set (xs @ a # ys @ free_slabs v)) (slab_links h) s'"
    using assms by (auto simp: partial_to_free_def lists_hold_def slabs_of_def)
  from this(3) have "links_outside (set (slabs_of v)) (slab_links h) s'"
    by (rule links_outside_mono) (use assms(2) in \<open>auto simp: slabs_of_def\<close>)
  then show ?thesis using run by blast
qed

lemma partial_to_full_moves:
  assumes "lists_hold c (slab_links h) v" "partial_slabs v = xs @ a # ys"
  shows "\<exists>l p s'. partial_to_full a (c, h) = Inr (c\<lparr>partialSlabList := l, fullSlabList := p\<rparr>, h\<lparr>slab_links := s'\<rparr>) \<and>
    lists_hold (c\<lparr>partialSlabList := l, fullSlabList := p\<rparr>) s' (v\<lparr>partial_slabs := xs @ ys, full_slabs := a # full_slabs v\<rparr>) \<and>
    links_outside (set (slabs_of v)) (slab_links h) s'"
proof -
  have d: "distinct (xs @ a # ys @ full_slabs v @ free_slabs v)" using assms by (auto simp: lists_hold_def slabs_of_def)
  from assms obtain t l1' s' l2' where "Remove a (slab_links h, partialSlabList c) = (t, l1')" "Prepend a (t, fullSlabList c) = Inr (s', l2')"
      "holds (s', l1') (xs @ ys)" "holds (s', l2') (a # full_slabs v)" "holds (s', freeSlabList c) (free_slabs v)" "links_outside (set (xs @ a # ys @ full_slabs v)) (slab_links h) s'"
    using moved [of "slab_links h" "partialSlabList c" xs a ys "fullSlabList c" "full_slabs v" "freeSlabList c" "free_slabs v", OF _ _ _ d]
    unfolding lists_hold_def by metis
  then have run: "partial_to_full a (c, h) = Inr (c\<lparr>partialSlabList := l1', fullSlabList := l2'\<rparr>, h\<lparr>slab_links := s'\<rparr>)"
      "lists_hold (c\<lparr>partialSlabList := l1', fullSlabList := l2'\<rparr>) s' (v\<lparr>partial_slabs := xs @ ys, full_slabs := a # full_slabs v\<rparr>)"
      and "links_outside (set (xs @ a # ys @ full_slabs v)) (slab_links h) s'"
    using assms by (auto simp: partial_to_full_def lists_hold_def slabs_of_def)
  from this(3) have "links_outside (set (slabs_of v)) (slab_links h) s'"
    by (rule links_outside_mono) (use assms(2) in \<open>auto simp: slabs_of_def\<close>)
  then show ?thesis using run by blast
qed

lemma full_to_partial_moves:
  assumes "lists_hold c (slab_links h) v" "full_slabs v = xs @ a # ys"
  shows "\<exists>l p s'. full_to_partial a (c, h) = Inr (c\<lparr>fullSlabList := l, partialSlabList := p\<rparr>, h\<lparr>slab_links := s'\<rparr>) \<and>
    lists_hold (c\<lparr>fullSlabList := l, partialSlabList := p\<rparr>) s' (v\<lparr>full_slabs := xs @ ys, partial_slabs := a # partial_slabs v\<rparr>) \<and>
    links_outside (set (slabs_of v)) (slab_links h) s'"
proof -
  have d: "distinct (xs @ a # ys @ partial_slabs v @ free_slabs v)" using assms by (auto simp: lists_hold_def slabs_of_def)
  from assms obtain t l1' s' l2' where "Remove a (slab_links h, fullSlabList c) = (t, l1')" "Prepend a (t, partialSlabList c) = Inr (s', l2')"
      "holds (s', l1') (xs @ ys)" "holds (s', l2') (a # partial_slabs v)" "holds (s', freeSlabList c) (free_slabs v)" "links_outside (set (xs @ a # ys @ partial_slabs v)) (slab_links h) s'"
    using moved [of "slab_links h" "fullSlabList c" xs a ys "partialSlabList c" "partial_slabs v" "freeSlabList c" "free_slabs v", OF _ _ _ d]
    unfolding lists_hold_def by metis
  then have run: "full_to_partial a (c, h) = Inr (c\<lparr>fullSlabList := l1', partialSlabList := l2'\<rparr>, h\<lparr>slab_links := s'\<rparr>)"
      "lists_hold (c\<lparr>fullSlabList := l1', partialSlabList := l2'\<rparr>) s' (v\<lparr>full_slabs := xs @ ys, partial_slabs := a # partial_slabs v\<rparr>)"
      and "links_outside (set (xs @ a # ys @ partial_slabs v)) (slab_links h) s'"
    using assms by (auto simp: full_to_partial_def lists_hold_def slabs_of_def)
  from this(3) have "links_outside (set (slabs_of v)) (slab_links h) s'"
    by (rule links_outside_mono) (use assms(2) in \<open>auto simp: slabs_of_def\<close>)
  then show ?thesis using run by blast
qed

section \<open>A new slab\<close>

lemma slab_block:
  assumes "slab_blocks h v" "a \<in> set (slabs_of v)"
  shows "4096 dvd unat a" "unat a + 4096 \<le> 4294967296" "a \<noteq> 0"
proof -
  obtain B x where b: "buddy_inv (buddies h) B" "4096 dvd unat (startAddress (buddies h))" "a = block_address (buddies h) x" "(x, 12) \<in> used_blocks B"
    using assms unfolding slab_blocks_def by blast
  have t: "buddy_shape (buddies h)" "tiling (unat (maxOrder (buddies h))) B" using buddy_inv_shape [OF b(1)] by simp_all
  have x: "B x = Some (12, True)" using b(4) by (simp add: used_blocks_def)
  note u = unat_block_address [OF t(1) block_start [OF t(2) x]] and k = tiling_block [OF t(2) x]
  have "4096 dvd x" using k by simp
  then show "4096 dvd unat a" using b(2) by (simp add: b(3) u(1))
  show "unat a + 4096 \<le> 4294967296" using k shapeD(5) [OF t(1)] by (simp add: b(3) u(1))
  show "a \<noteq> 0" using u(3) by (simp add: b(3))
qed

lemma link_objects_at:
  "unat i + m < 4294967296 \<Longrightarrow> link_objects m i f j = (if unat i \<le> unat j \<and> unat j < unat i + m then j + 1 else f j)"
proof (induction m arbitrary: i f)
  case (Suc m)
  have S: "unat (i + 1) = Suc (unat i)" by (rule unat_Suc_neq) (use Suc.prems in auto)
  have r: "link_objects (Suc m) i f j = (if Suc (unat i) \<le> unat j \<and> unat j < Suc (unat i) + m then j + 1 else (f(i := i + 1)) j)"
    unfolding link_objects.simps S [symmetric] by (rule Suc.IH) (use Suc.prems S in simp)
  show ?case
  proof (cases "j = i")
    case True
    then show ?thesis unfolding r by simp
  next
    case False
    then have "unat j \<noteq> unat i" by (simp add: word_eq_unat_iff)
    then show ?thesis unfolding r using False by auto
  qed
qed auto

lemma linked_chain:
  assumes "\<And>j. j + 1 < n \<Longrightarrow> f (of_nat j) = of_nat (j + 1)" "f (of_nat (n - 1)) = SLAB_BUF_END"
  shows "i < n \<Longrightarrow> free_chain f (of_nat i) [i..<n]"
proof (induction "n - i" arbitrary: i)
  case (Suc d)
  have u: "[i..<n] = i # [Suc i..<n]" using Suc.prems by (rule upt_conv_Cons)
  show ?case
  proof (cases "Suc i < n")
    case True
    then show ?thesis using Suc.hyps(1) [of "Suc i"] Suc.hyps(2) assms(1) [of i] unfolding u by simp
  next
    case False
    then have "i = n - 1" using Suc.prems by simp
    then show ?thesis using assms(2) False unfolding u by simp
  qed
qed simp

lemma new_slab_ok:
  assumes "small_cache c"
  shows "slab_ok c \<lparr>slab_cache = p, objectStart = (a + push_bit PAGE_SHIFT (push_bit (unat (cache_order c)) 1)) - objSize c * objectsPerSlab c,
      freeIndex = 0, inUse = 0, magic_valid = SLAB_MAGIC_VALID\<rparr>
    ((link_objects (unat (objectsPerSlab c - 1)) 0 f)(objectsPerSlab c - 1 := SLAB_BUF_END)) a [0..<unat (objectsPerSlab c)]"
proof -
  note s = small_cacheD [OF assms]
  define n where "n = unat (objectsPerSlab c)"
  have n: "0 < n" "n < 1024" using s(1,4,5) unfolding n_def by linarith+
  have "unat (1 :: u32) \<le> unat (objectsPerSlab c)" unfolding unsigned_1 using n(1) n_def by linarith
  then have m: "unat (objectsPerSlab c - 1) = n - 1" by (simp add: unat_sub_le word_le_nat_alt n_def)
  then have m': "objectsPerSlab c - 1 = of_nat (n - 1)" by (metis of_nat_unat_same)
  let ?f = "(link_objects (n - 1) 0 f)(of_nat (n - 1) := SLAB_BUF_END)"
  have neq: "of_nat j = (of_nat (n - 1) :: u32) \<longleftrightarrow> j = n - 1" if "j < n" for j
    using that n unat_of_nat32 [of j] unat_of_nat32 [of "n - 1"] by auto
  have "free_chain ?f (of_nat 0) [0..<n]"
  proof (rule linked_chain [OF _ _ n(1)])
    fix j assume j: "j + 1 < n"
    then have "unat (of_nat j :: u32) = j" using n by (intro unat_of_nat32) simp
    moreover have "j < n - 1" "n - 1 < 4294967296" using j n by simp_all
    ultimately show "?f (of_nat j) = of_nat (j + 1)" using j n neq [of j] link_objects_at [of 0 "n - 1" f "of_nat j"] by simp
  qed simp
  moreover have "a + push_bit PAGE_SHIFT (push_bit (unat (cache_order c)) 1) - objSize c * objectsPerSlab c = slot c a 0"
  proof -
    have "n * unat (objSize c) \<le> 4096" unfolding n_def by (rule order_trans [OF _ s(5)]) (simp only: le_add1 add.assoc)
    then have "(of_nat (4096 - n * unat (objSize c)) :: u32) = 4096 - of_nat n * objSize c" by (simp add: of_nat_diff)
    then show ?thesis by (simp add: slot_def s(3) PAGE_SHIFT_def push_bit_eq_mult flip: n_def) (simp add: n_def algebra_simps)
  qed
  moreover have "set [0..<n] \<subseteq> {..<n}" by auto
  ultimately show ?thesis unfolding m unfolding m' slab_ok_def by (simp add: n_def)
qed

text \<open>The buddy allocator has no free block left.\<close>

definition exhausted :: "slab_heap \<Rightarrow> bool" where
  "exhausted h \<longleftrightarrow> list_all (\<lambda>e. e = 0) (freeElements (buddies h))"

lemma exhausted_iff:
  assumes "buddy_inv (buddies h) B"
  shows "exhausted h \<longleftrightarrow> (\<forall>x k u. B x = Some (k, u) \<longrightarrow> u)"
proof -
  have w: "working (buddies h) B {}" using assms by (simp add: buddy_inv_def)
  note d = workingD [OF w] and len = shapeD(6) [OF workingD(1) [OF w]]
  have "freeElements (buddies h) ! k = 0 \<longleftrightarrow> frees (buddies h) B k = {}" if k: "k \<le> unat (maxOrder (buddies h))" for k
  proof -
    obtain es where es: "linked_to (bram (buddies h)) (freeElements (buddies h) ! k) es" "set es = frees (buddies h) B k"
      using d(4) k unfolding lists_ok_def by blast
    then show ?thesis by (cases es) auto
  qed
  then have "exhausted h \<longleftrightarrow> (\<forall>k \<le> unat (maxOrder (buddies h)). frees (buddies h) B k = {})"
    using len by (auto simp: exhausted_def list_all_length less_Suc_eq_le)
  also have "\<dots> \<longleftrightarrow> (\<forall>x k u. B x = Some (k, u) \<longrightarrow> u)"
  proof (intro iffI allI impI)
    fix x k u
    assume f: "\<forall>k \<le> unat (maxOrder (buddies h)). frees (buddies h) B k = {}" and x: "B x = Some (k, u)"
    then have "frees (buddies h) B k = {}" using tiling_block [OF d(2) x] by blast
    then show u using x unfolding frees_def by (cases u) auto
  next
    fix k
    assume "\<forall>x k u. B x = Some (k, u) \<longrightarrow> u"
    then have "B x \<noteq> Some (k, False)" for x by blast
    then show "frees (buddies h) B k = {}" by (simp add: frees_def)
  qed
  finally show ?thesis .
qed

definition with_slab :: "u32 \<Rightarrow> nat \<Rightarrow> slab_view \<Rightarrow> slab_view" where
  "with_slab a n v = v\<lparr>free_slabs := a # free_slabs v, free_slots := (free_slots v)(a := [0..<n])\<rparr>"

lemma AllocateBuddy_page:
  assumes "slab_blocks h v"
  shows "(AllocateBuddy 0 (buddies h) = Inr (0, buddies h) \<and> exhausted h) \<or>
    (\<exists>a b. AllocateBuddy 0 (buddies h) = Inr (a, b) \<and> a \<noteq> 0 \<and> a \<notin> set (slabs_of v) \<and>
      (\<exists>B. buddy_inv b B \<and> 4096 dvd unat (startAddress b) \<and>
        (\<forall>e \<in> set (a # slabs_of v). \<exists>x. e = block_address b x \<and> (x, 12) \<in> used_blocks B)) \<and>
      startAddress b = startAddress (buddies h) \<and> maxOrder b = maxOrder (buddies h) \<and> unat (startAddress b) \<le> unat a \<and>
      (\<forall>e \<in> set (slabs_of v). agree (bram (buddies h)) (bram b) e 4096))"
proof -
  obtain B where B: "buddy_inv (buddies h) B" "4096 dvd unat (startAddress (buddies h))"
      "\<forall>e \<in> set (slabs_of v). \<exists>x. e = block_address (buddies h) x \<and> (x, 12) \<in> used_blocks B"
    using assms unfolding slab_blocks_def by blast
  have t: "buddy_shape (buddies h)" "tiling (unat (maxOrder (buddies h))) B" using buddy_inv_shape [OF B(1)] by simp_all
  have "12 + unat (0 :: u32) \<le> unat (maxOrder (buddies h))" using shapeD(2) [OF t(1)] by simp
  from AllocateBuddy_works [OF B(1) this] show ?thesis
  proof (elim disjE exE conjE)
    assume a: "AllocateBuddy 0 (buddies h) = Inr (0, buddies h)" "\<forall>x j. B x = Some (j, False) \<longrightarrow> j < 12 + unat (0 :: u32)"
    have "u" if "B x = Some (k, u)" for x k u
    proof (rule ccontr)
      assume "\<not> u"
      then have "k < 12" using a(2) that by auto
      then show False using tiling_block [OF t(2) that] by simp
    qed
    then have "exhausted h" using exhausted_iff [OF B(1)] by blast
    then show ?thesis using a(1) by simp
  next
    fix x j s' B'
    assume x: "B x = Some (j, False)" "AllocateBuddy 0 (buddies h) = Inr (block_address (buddies h) x, s')"
      "block_address (buddies h) x \<noteq> 0" "buddy_inv s' B'" "same_region (buddies h) s'"
      "used_blocks B' = insert (x, 12 + unat (0 :: u32)) (used_blocks B)"
      and ag: "\<forall>(y, l) \<in> used_blocks B. agree (bram (buddies h)) (bram s') (block_address (buddies h) y) (2 ^ l)"
    have "block_address (buddies h) x \<notin> set (slabs_of v)"
    proof
      assume "block_address (buddies h) x \<in> set (slabs_of v)"
      then obtain y where y: "block_address (buddies h) x = block_address (buddies h) y" "B y = Some (12, True)"
        using B(3) by (auto simp: used_blocks_def)
      then have "x = y" using block_address_inj [OF t(1) block_start [OF t(2) x(1)] block_start [OF t(2) y(2)]] by simp
      then show False using x(1) y(2) by simp
    qed
    moreover have "\<forall>e \<in> set (block_address (buddies h) x # slabs_of v). \<exists>z. e = block_address s' z \<and> (z, 12) \<in> used_blocks B'"
      using B(3) x(6) same_region_address [OF x(5)] by auto
    moreover have "4096 dvd unat (startAddress s')" using B(2) x(5) by (simp add: same_region_def)
    moreover have "agree (bram (buddies h)) (bram s') e 4096" if "e \<in> set (slabs_of v)" for e using B(3) ag that by fastforce
    moreover have "startAddress s' = startAddress (buddies h)" "maxOrder s' = maxOrder (buddies h)" "unat (startAddress s') \<le> unat (block_address (buddies h) x)"
      using x(5) unat_block_address(1) [OF t(1) block_start [OF t(2) x(1)]] by (simp_all add: same_region_def)
    ultimately show ?thesis using x(2-4) by blast
  qed
qed

lemma Grow_adds:
  assumes w: "cache_working c h v {}"
  shows "(Grow c h = Inl NullPointer \<and> exhausted h) \<or>
    (\<exists>a l h'. Grow c h = Inr (a, c\<lparr>freeSlabList := l\<rparr>, h') \<and> a \<notin> set (slabs_of v) \<and>
      cache_working (c\<lparr>freeSlabList := l\<rparr>) h' (with_slab a (unat (objectsPerSlab c)) v) {} \<and>
      outside (insert a (set (slabs_of v))) h h' \<and> AllocateBuddy 0 (buddies h) = Inr (a, buddies h') \<and> a \<noteq> 0)"
proof -
  have d: "small_cache c" "lists_hold c (slab_links h) v" "placed (unat (objectsPerSlab c)) v {}" "slabs_ok c h v" "slab_blocks h v"
    using w by (simp_all add: cache_working_def)
  note s = small_cacheD [OF d(1)]
  from AllocateBuddy_page [OF d(5)] show ?thesis
  proof (elim disjE exE conjE)
    assume "AllocateBuddy 0 (buddies h) = Inr (0, buddies h)" "exhausted h"
    then show ?thesis by (simp add: Grow_def s(3))
  next
    fix a b B
    assume a: "AllocateBuddy 0 (buddies h) = Inr (a, b)" "a \<noteq> 0" "a \<notin> set (slabs_of v)" "buddy_inv b B" "4096 dvd unat (startAddress b)"
      "\<forall>e \<in> set (a # slabs_of v). \<exists>x. e = block_address b x \<and> (x, 12) \<in> used_blocks B"
    let ?n = "unat (objectsPerSlab c)" and ?v = "with_slab a (unat (objectsPerSlab c)) v"
    have hd: "holds (slab_links h, freeSlabList c) (free_slabs v)" "holds (slab_links h, fullSlabList c) (full_slabs v)"
        "holds (slab_links h, partialSlabList c) (partial_slabs v)" "distinct (slabs_of v)"
      using d(2) by (simp_all add: lists_hold_def)
    have "a \<notin> set (free_slabs v)" using a(3) by (simp add: slabs_of_def)
    from holds_Prepend [OF hd(1) a(2) this] obtain t l where p: "Prepend a (slab_links h, freeSlabList c) = Inr (t, l)" "holds (t, l) (a # free_slabs v)"
      by blast
    let ?c = "c\<lparr>freeSlabList := l\<rparr>"
    have other: "holds (t, fullSlabList c) (full_slabs v)" "holds (t, partialSlabList c) (partial_slabs v)"
      by (rule holds_other(2) [OF hd(1) _ _ _ p(1)]; use hd a(3) in \<open>auto simp: slabs_of_def\<close>)+
    obtain h' where g: "Grow c h = Inr (a, ?c, h')" "slab_links h' = t" "buddies h' = b"
        "slab_ok c (slabs h' a) (freeArray h' a) a [0..<?n]"
        "\<And>e. e \<noteq> a \<Longrightarrow> slabs h' e = slabs h e \<and> freeArray h' e = freeArray h e"
      using new_slab_ok [OF d(1), of "cache_this c" a "freeArray h a"] a(1,2) p(1)
      by (simp add: Grow_def s(3) Let_def set_slab_def)
    have sc: "same_cache c ?c" by (simp add: same_cache_def)
    have "set (slabs_of ?v) = insert a (set (slabs_of v))" by (auto simp: slabs_of_def with_slab_def)
    moreover have "lists_hold ?c t ?v" using p(2) other hd(4) a(3) by (auto simp: lists_hold_def with_slab_def slabs_of_def)
    moreover have "placed ?n ?v {}" using d(3) a(3) by (auto simp: placed_def with_slab_def slabs_of_def)
    moreover have "slabs_ok ?c h' ?v"
      using d(4) g(4,5) a(3) by (auto simp: slabs_ok_def same_cache_eqs [OF sc] with_slab_def slabs_of_def)
    moreover have "slab_blocks h' ?v" using a(4-6) calculation(1) unfolding slab_blocks_def g(3) by auto
    ultimately have "cache_working ?c h' ?v {}" using d(1) by (simp add: cache_working_def same_cache_eqs [OF sc] g(2))
    moreover have "outside (insert a (set (slabs_of v))) h h'"
      using g(2,5) links_frame(2) [OF hd(1) _ _ p(1)] by (auto simp: outside_def links_outside_def slabs_of_def)
    ultimately show ?thesis using g(1,3) a(1-3) by blast
  qed
qed

section \<open>Allocation and release\<close>

lemma working_slab:
  assumes "cache_working c h v H" "a \<in> set (slabs_of v)"
  shows "slab_ok c (slabs h a) (freeArray h a) a (free_slots v a)" "magic_valid (slabs h a) = SLAB_MAGIC_VALID"
    "slab_IsFull (slabs h a) \<longleftrightarrow> free_slots v a = []"
    "slab_IsEmpty (slabs h a) \<longleftrightarrow> length (free_slots v a) = unat (objectsPerSlab c)"
    "4096 dvd unat a" "unat a + 4096 \<le> 4294967296"
proof -
  have c: "small_cache c" and b: "slab_blocks h v" using assms(1) by (simp_all add: cache_working_def)
  show s: "slab_ok c (slabs h a) (freeArray h a) a (free_slots v a)" using assms by (simp add: cache_working_def slabs_ok_def)
  then show "magic_valid (slabs h a) = SLAB_MAGIC_VALID" by (simp add: slab_ok_def)
  show "slab_IsFull (slabs h a) \<longleftrightarrow> free_slots v a = []"
    "slab_IsEmpty (slabs h a) \<longleftrightarrow> length (free_slots v a) = unat (objectsPerSlab c)" by (rule slab_full_empty [OF c s])+
  show "4096 dvd unat a" "unat a + 4096 \<le> 4294967296" by (rule slab_block [OF b assms(2)])+
qed

lemma slot_inj:
  assumes "cache_working c h v H" "a \<in> set (slabs_of v)" "b \<in> set (slabs_of v)" "k < unat (objectsPerSlab c)" "j < unat (objectsPerSlab c)"
  shows "slot c a k = slot c b j \<longleftrightarrow> a = b \<and> k = j"
proof
  have c: "small_cache c" using assms(1) by (simp add: cache_working_def)
  assume e: "slot c a k = slot c b j"
  have "a = b" using slot_page [OF c assms(4) working_slab(6,5) [OF assms(1,2)]] slot_page [OF c assms(5) working_slab(6,5) [OF assms(1,3)]] e by simp
  moreover have "of_nat k = (of_nat j :: u32)" using slot_index [OF c assms(4), of a] slot_index [OF c assms(5), of a] e \<open>a = b\<close> by simp
  then have "unat (of_nat k :: u32) = unat (of_nat j :: u32)" by (simp only:)
  then have "k = j"
    unfolding unat_of_nat32 [OF less_trans [OF assms(4) unat_bound32]] unat_of_nat32 [OF less_trans [OF assms(5) unat_bound32]] .
  ultimately show "a = b \<and> k = j" ..
qed simp

text \<open>Working on the slab \<open>a\<close>, whose free slots and header change.\<close>

lemma working_update:
  assumes "cache_working c h v {a}" "slab_ok c sl f a ks"
  shows "cache_working c (set_slab a sl (h\<lparr>freeArray := (freeArray h)(a := f)\<rparr>)) (v\<lparr>free_slots := (free_slots v)(a := ks)\<rparr>) {a}"
  using assms by (auto simp: cache_working_def placed_def slabs_ok_def slab_blocks_def set_slab_def slabs_of_def lists_hold_def)

text \<open>The slots in use.\<close>

definition live :: "nat \<Rightarrow> slab_view \<Rightarrow> (u32 \<times> nat) set" where
  "live n v = {(a, k). a \<in> set (slabs_of v) \<and> k < n \<and> k \<notin> set (free_slots v a)}"

lemma objects_live: "objects c v = (\<lambda>(a, k). slot c a k) ` live (unat (objectsPerSlab c)) v"
  by (auto simp: objects_def live_def)

lemma live_inj: "cache_working c h v H \<Longrightarrow> inj_on (\<lambda>(a, k). slot c a k) (set (slabs_of v) \<times> {..<unat (objectsPerSlab c)})"
  by (auto simp: inj_on_def slot_inj)

lemma slabs_of_slots [simp]: "slabs_of (v\<lparr>free_slots := f\<rparr>) = slabs_of v"
  by (simp add: slabs_of_def)

lemma live_take:
  assumes "a \<in> set (slabs_of v)" "free_slots v a = k # ks" "distinct (k # ks)" "k < n"
  shows "live n (v\<lparr>free_slots := (free_slots v)(a := ks)\<rparr>) = insert (a, k) (live n v)" "(a, k) \<notin> live n v"
  using assms by (auto simp: live_def split: if_splits)

lemma live_give:
  "live n (v\<lparr>free_slots := (free_slots v)(a := k # free_slots v a)\<rparr>) = live n v - {(a, k)}"
  by (auto simp: live_def split: if_splits)

lemma objects_take:
  assumes "cache_working c h v {a}" "a \<in> set (slabs_of v)" "free_slots v a = k # ks"
  shows "objects c (v\<lparr>free_slots := (free_slots v)(a := ks)\<rparr>) = insert (slot c a k) (objects c v)" "slot c a k \<notin> objects c v"
proof -
  have f: "distinct (k # ks)" "k < unat (objectsPerSlab c)"
    using working_slab(1) [OF assms(1,2)] assms(3) by (simp_all add: slab_ok_def)
  show "objects c (v\<lparr>free_slots := (free_slots v)(a := ks)\<rparr>) = insert (slot c a k) (objects c v)"
    by (simp add: objects_live live_take(1) [OF assms(2,3) f])
  show "slot c a k \<notin> objects c v"
    using slot_inj [OF assms(1,2) _ f(2)] assms(3) by (auto simp: objects_def)
qed

lemma objects_give:
  assumes "cache_working c h v {a}" "a \<in> set (slabs_of v)" "k < unat (objectsPerSlab c)"
  shows "objects c (v\<lparr>free_slots := (free_slots v)(a := k # free_slots v a)\<rparr>) = objects c v - {slot c a k}"
proof -
  let ?P = "set (slabs_of v) \<times> {..<unat (objectsPerSlab c)}"
  have "live (unat (objectsPerSlab c)) v \<subseteq> ?P" "{(a, k)} \<subseteq> ?P" using assms(2,3) by (auto simp: live_def)
  from inj_on_image_set_diff [OF live_inj [OF assms(1)] _ this(2), of "live (unat (objectsPerSlab c)) v"] this(1)
  show ?thesis by (auto simp: objects_live live_give)
qed

lemma finite_objects: "finite (objects c v)"
proof -
  have "objects c v \<subseteq> (\<lambda>(a, k). slot c a k) ` (set (slabs_of v) \<times> {..<unat (objectsPerSlab c)})"
    by (auto simp: objects_def)
  then show ?thesis by (rule finite_subset) simp
qed

lemma objects_same:
  "same_cache c c' \<Longrightarrow> set (slabs_of v') = set (slabs_of v) \<Longrightarrow> free_slots v' = free_slots v \<Longrightarrow> objects c' v' = objects c v"
  by (simp add: same_cache_eqs objects_def)

lemma working_moved:
  assumes "cache_working c h v H" "same_cache c c'" "lists_hold c' s' v'" "placed (unat (objectsPerSlab c)) v' H'"
    "set (slabs_of v') = set (slabs_of v)" "free_slots v' = free_slots v"
  shows "cache_working c' (h\<lparr>slab_links := s'\<rparr>) v' H'"
  using assms(1,3-6) same_cache_eqs [OF assms(2)] assms(2)
  by (auto simp: cache_working_def slabs_ok_def slab_blocks_def same_cache_def)

text \<open>A slab with a free slot at the head of the partial list.\<close>

lemma enter_slab:
  assumes w: "cache_working c h v {}" and l: "partial_slabs v = a # ps \<or> free_slabs v = a # fs"
  shows "\<exists>c' h' v'. (if slab_IsEmpty (slabs h a) then free_to_partial a (c, h) else Inr (c, h)) = Inr (c', h') \<and>
    cache_working c' h' v' {a} \<and> same_cache c c' \<and> objectsAllocated c' = objectsAllocated c \<and> a \<in> set (partial_slabs v') \<and>
    objects c' v' = objects c v \<and> free_slots v' a \<noteq> [] \<and>
    outside (set (slabs_of v)) h h' \<and> buddies h' = buddies h \<and> set (slabs_of v') = set (slabs_of v)"
proof -
  have d: "small_cache c" "lists_hold c (slab_links h) v" "placed (unat (objectsPerSlab c)) v {}" using w by (simp_all add: cache_working_def)
  have a: "a \<in> set (slabs_of v)" using l by (auto simp: slabs_of_def)
  note n = small_cacheD(4) [OF d(1)] and e = working_slab(4) [OF w a]
  show ?thesis
  proof (cases "slab_IsEmpty (slabs h a)")
    case False
    have "a \<in> set (partial_slabs v)"
    proof (rule ccontr)
      assume "a \<notin> set (partial_slabs v)"
      then have "a \<in> set (free_slabs v)" using l by auto
      then show False using d(3) False e by (simp add: placed_def)
    qed
    moreover from this have "free_slots v a \<noteq> []" using d(3) by (simp add: placed_def)
    moreover have "cache_working c h v {a}" using w by (auto simp: cache_working_def placed_def)
    ultimately show ?thesis using False by (intro exI [of _ c] exI [of _ h] exI [of _ v]) (simp add: same_cache_def)
  next
    case True
    then have len: "length (free_slots v a) = unat (objectsPerSlab c)" using e by simp
    then have "a \<notin> set (partial_slabs v)" using d(3) by (auto simp: placed_def)
    then have fs: "free_slabs v = [] @ a # fs" using l by auto
    obtain l p s' where m: "free_to_partial a (c, h) = Inr (c\<lparr>freeSlabList := l, partialSlabList := p\<rparr>, h\<lparr>slab_links := s'\<rparr>)"
        "lists_hold (c\<lparr>freeSlabList := l, partialSlabList := p\<rparr>) s' (v\<lparr>free_slabs := [] @ fs, partial_slabs := a # partial_slabs v\<rparr>)"
        "links_outside (set (slabs_of v)) (slab_links h) s'"
      using free_to_partial_moves [OF d(2) fs] by blast
    let ?c = "c\<lparr>freeSlabList := l, partialSlabList := p\<rparr>" and ?v = "v\<lparr>free_slabs := [] @ fs, partial_slabs := a # partial_slabs v\<rparr>"
    have sc: "same_cache c ?c" by (simp add: same_cache_def)
    have st: "set (slabs_of ?v) = set (slabs_of v)" "free_slots ?v = free_slots v" using fs by (auto simp: slabs_of_def)
    have "cache_working ?c (h\<lparr>slab_links := s'\<rparr>) ?v {a}"
      by (rule working_moved [OF w sc m(2) _ st]) (use d(3) fs in \<open>auto simp: placed_def\<close>)
    moreover have "free_slots v a \<noteq> []" using len n by auto
    ultimately show ?thesis using True m(1,3) sc objects_same [OF sc st] st
      by (intro exI [of _ ?c] exI [of _ "h\<lparr>slab_links := s'\<rparr>"] exI [of _ ?v]) simp
  qed
qed

text \<open>The slab goes to the full list when it has no free slot left.\<close>

lemma leave_slab:
  assumes w: "cache_working c h v {a}" and a: "a \<in> set (partial_slabs v)" and len: "length (free_slots v a) < unat (objectsPerSlab c)"
  shows "\<exists>c' h' v'. (if slab_IsFull (slabs h a) then partial_to_full a (c, h) else Inr (c, h)) = Inr (c', h') \<and>
    cache_working c' h' v' {} \<and> same_cache c c' \<and> objectsAllocated c' = objectsAllocated c \<and> objects c' v' = objects c v \<and>
    outside (set (slabs_of v)) h h' \<and> buddies h' = buddies h \<and> set (slabs_of v') = set (slabs_of v)"
proof -
  have d: "lists_hold c (slab_links h) v" "placed (unat (objectsPerSlab c)) v {a}" using w by (simp_all add: cache_working_def)
  have dis: "distinct (slabs_of v)" using d(1) by (simp add: lists_hold_def)
  have "a \<in> set (slabs_of v)" using a by (simp add: slabs_of_def)
  note e = working_slab(3) [OF w this]
  show ?thesis
  proof (cases "slab_IsFull (slabs h a)")
    case False
    then have "free_slots v a \<noteq> []" using e by simp
    then have "cache_working c h v {}" using w a len dis by (auto simp: cache_working_def placed_def slabs_of_def)
    then show ?thesis using False by (intro exI [of _ c] exI [of _ h] exI [of _ v]) (simp add: same_cache_def)
  next
    case True
    then have "free_slots v a = []" using e by simp
    obtain xs ys where ps: "partial_slabs v = xs @ a # ys" using a by (auto dest: split_list)
    obtain l p s' where m: "partial_to_full a (c, h) = Inr (c\<lparr>partialSlabList := l, fullSlabList := p\<rparr>, h\<lparr>slab_links := s'\<rparr>)"
        "lists_hold (c\<lparr>partialSlabList := l, fullSlabList := p\<rparr>) s' (v\<lparr>partial_slabs := xs @ ys, full_slabs := a # full_slabs v\<rparr>)"
        "links_outside (set (slabs_of v)) (slab_links h) s'"
      using partial_to_full_moves [OF d(1) ps] by blast
    let ?c = "c\<lparr>partialSlabList := l, fullSlabList := p\<rparr>" and ?v = "v\<lparr>partial_slabs := xs @ ys, full_slabs := a # full_slabs v\<rparr>"
    have sc: "same_cache c ?c" by (simp add: same_cache_def)
    have st: "set (slabs_of ?v) = set (slabs_of v)" "free_slots ?v = free_slots v" using ps by (auto simp: slabs_of_def)
    have "cache_working ?c (h\<lparr>slab_links := s'\<rparr>) ?v {}"
      by (rule working_moved [OF w sc m(2) _ st]) (use d(2) ps dis \<open>free_slots v a = []\<close> in \<open>auto simp: placed_def slabs_of_def\<close>)
    then show ?thesis using True m(1,3) sc objects_same [OF sc st] st
      by (intro exI [of _ ?c] exI [of _ "h\<lparr>slab_links := s'\<rparr>"] exI [of _ ?v]) simp
  qed
qed

text \<open>The slabs of a cache after an allocation: the same ones, or one more from the buddy allocator.\<close>

definition grown :: "slab_heap \<Rightarrow> slab_view \<Rightarrow> slab_heap \<Rightarrow> slab_view \<Rightarrow> bool" where
  "grown h v h' v' \<longleftrightarrow> outside (set (slabs_of v')) h h' \<and>
     (set (slabs_of v') = set (slabs_of v) \<and> buddies h' = buddies h \<or>
      (\<exists>a. a \<noteq> 0 \<and> set (slabs_of v') = insert a (set (slabs_of v)) \<and> AllocateBuddy 0 (buddies h) = Inr (a, buddies h')))"

lemma grown_step:
  assumes "grown h v h1 v1" "outside (set (slabs_of v1)) h1 h2" "buddies h2 = buddies h1" "set (slabs_of v2) = set (slabs_of v1)"
  shows "grown h v h2 v2"
  using assms outside_trans [of "set (slabs_of v1)" h h1 "set (slabs_of v1)" h2] by (auto simp: grown_def)

lemma GetNonEmptySlab_works:
  assumes w: "cache_working c h v {}"
  shows "(GetNonEmptySlab c h = Inl NullPointer \<and> exhausted h \<and> partial_slabs v = [] \<and> free_slabs v = []) \<or>
    (\<exists>a c' h' v' ps fs. GetNonEmptySlab c h = Inr (a, c', h') \<and> cache_working c' h' v' {} \<and> same_cache c c' \<and>
      objectsAllocated c' = objectsAllocated c \<and> objects c' v' = objects c v \<and> (partial_slabs v' = a # ps \<or> free_slabs v' = a # fs) \<and>
      grown h v h' v')"
proof -
  have "lists_hold c (slab_links h) v" using w by (simp add: cache_working_def)
  then have l: "holds (slab_links h, partialSlabList c) (partial_slabs v)" "holds (slab_links h, freeSlabList c) (free_slabs v)"
    by (simp_all add: lists_hold_def)
  note e = holds_IsEmpty [OF l(1)] holds_IsEmpty [OF l(2)]
  have refl: "same_cache c c" "grown h v h v" by (simp_all add: same_cache_def grown_def)
  show ?thesis
  proof (cases "partial_slabs v")
    case (Cons a ps)
    then have "head (partialSlabList c) = a" using l(1) by (simp add: holds_def)
    then show ?thesis using Cons w e refl by (simp add: GetNonEmptySlab_def) blast
  next
    case Nil
    note p = this
    show ?thesis
    proof (cases "free_slabs v")
      case (Cons a fs)
      then have "head (freeSlabList c) = a" using l(2) by (simp add: holds_def)
      then show ?thesis using Cons p w e refl by (simp add: GetNonEmptySlab_def) blast
    next
      case Nil
      have g: "GetNonEmptySlab c h = Grow c h" using e p Nil by (simp add: GetNonEmptySlab_def)
      from Grow_adds [OF w] show ?thesis
      proof (elim disjE exE conjE)
        fix a l h'
        let ?c = "c\<lparr>freeSlabList := l\<rparr>" and ?n = "unat (objectsPerSlab c)"
        assume a: "Grow c h = Inr (a, ?c, h')" "a \<notin> set (slabs_of v)" "cache_working ?c h' (with_slab a ?n v) {}"
          and o: "outside (insert a (set (slabs_of v))) h h'" "AllocateBuddy 0 (buddies h) = Inr (a, buddies h')" "a \<noteq> 0"
        have "set (slabs_of (with_slab a ?n v)) = insert a (set (slabs_of v))" by (auto simp: slabs_of_def with_slab_def)
        then have gr: "grown h v h' (with_slab a ?n v)" using o by (auto simp: grown_def)
        have sc: "same_cache c ?c" by (simp add: same_cache_def)
        have "live ?n (with_slab a ?n v) = live ?n v"
          using a(2) by (auto simp: live_def with_slab_def slabs_of_def split: if_splits)
        then have "objects c (with_slab a ?n v) = objects c v" by (simp add: objects_live)
        moreover have "free_slabs (with_slab a ?n v) = a # free_slabs v" by (simp add: with_slab_def)
        ultimately show ?thesis using a(1,3) sc gr by (simp add: g same_cache_eqs [OF sc]) blast
      qed (simp add: g p Nil)
    qed
  qed
qed

lemma objects_sep:
  assumes w: "cache_working c h v H" and p: "p \<in> objects c v" "q \<in> objects c v" "p \<noteq> q"
  shows "sep p (unat (objSize c)) q (unat (objSize c))"
proof -
  have c: "small_cache c" using w by (simp add: cache_working_def)
  obtain a k b j where ab: "p = slot c a k" "a \<in> set (slabs_of v)" "k < unat (objectsPerSlab c)"
      "q = slot c b j" "b \<in> set (slabs_of v)" "j < unat (objectsPerSlab c)"
    using p(1,2) by (auto simp: objects_def)
  note a = working_slab(5,6) [OF w ab(2)] and b = working_slab(5,6) [OF w ab(5)]
  note u = unat_slot [OF c ab(3) a(2)] and v = unat_slot [OF c ab(6) b(2)]
  have "unat p + unat (objSize c) \<le> unat q \<or> unat q + unat (objSize c) \<le> unat p"
  proof (cases "a = b")
    case True
    then have "k \<noteq> j" using p(3) ab(1,4) by auto
    then have "Suc k * unat (objSize c) \<le> j * unat (objSize c) \<or> Suc j * unat (objSize c) \<le> k * unat (objSize c)"
      by (metis mult_le_mono1 Suc_leI linorder_neqE_nat)
    then show ?thesis unfolding ab(1,4) u(1) v(1) unfolding True by auto
  next
    case False
    obtain x y where xy: "unat a = 4096 * x" "unat b = 4096 * y" using a(1) b(1) by (elim dvdE)
    moreover have "x \<noteq> y" using False xy by (auto simp: word_eq_unat_iff)
    ultimately have "unat a + 4096 \<le> unat b \<or> unat b + 4096 \<le> unat a" by linarith
    then show ?thesis unfolding ab(1,4) using u(2,3) v(2,3) by linarith
  qed
  moreover have "unat p + unat (objSize c) \<le> 4294967296" "unat q + unat (objSize c) \<le> 4294967296"
    unfolding ab(1,4) using u(2) v(2) a(2) b(2) by linarith+
  ultimately show ?thesis by (auto intro: sep_below sep_above)
qed

lemma slabs_set_slab: "slabs (set_slab a sl h) a = sl"
  by (simp add: set_slab_def)

lemma AllocateObject_works:
  assumes "cache_inv c h v"
  shows "(AllocateObject c h = Inl NullPointer \<and> exhausted h \<and> partial_slabs v = [] \<and> free_slabs v = []) \<or>
    (\<exists>p c' h' v'. AllocateObject c h = Inr (p, c', h') \<and> cache_inv c' h' v' \<and> same_cache c c' \<and> p \<notin> objects c v \<and>
      objects c' v' = insert p (objects c v) \<and> grown h v h' v')"
proof -
  have w: "cache_working c h v {}" and n: "objectsAllocated c = of_nat (card (objects c v))" using assms by (simp_all add: cache_inv_def)
  from GetNonEmptySlab_works [OF w] show ?thesis
  proof (elim disjE [of "_ \<and> _"] exE conjE)
    fix a c1 h1 v1 ps fs
    assume g: "GetNonEmptySlab c h = Inr (a, c1, h1)" and w1: "cache_working c1 h1 v1 {}" and sc1: "same_cache c c1"
      and n1: "objectsAllocated c1 = objectsAllocated c" and o1: "objects c1 v1 = objects c v"
      and l: "partial_slabs v1 = a # ps \<or> free_slabs v1 = a # fs" and gr1: "grown h v h1 v1"
    have "a \<in> set (slabs_of v1)" using l by (auto simp: slabs_of_def)
    note magic = working_slab(2) [OF w1 this]
    obtain c2 h2 v2 where e: "(if slab_IsEmpty (slabs h1 a) then free_to_partial a (c1, h1) else Inr (c1, h1)) = Inr (c2, h2)"
        and w2: "cache_working c2 h2 v2 {a}" and sc2: "same_cache c1 c2" and n2: "objectsAllocated c2 = objectsAllocated c1"
        and p2: "a \<in> set (partial_slabs v2)" and o2: "objects c2 v2 = objects c1 v1" and f2: "free_slots v2 a \<noteq> []"
        and u2: "outside (set (slabs_of v1)) h1 h2" "buddies h2 = buddies h1" "set (slabs_of v2) = set (slabs_of v1)"
      using enter_slab [OF w1 l] by blast
    obtain k ks where k: "free_slots v2 a = k # ks" using f2 by (cases "free_slots v2 a") auto
    have a2: "a \<in> set (slabs_of v2)" using p2 by (simp add: slabs_of_def)
    have ok: "slab_ok c2 (slabs h2 a) (freeArray h2 a) a (k # ks)" using working_slab(1) [OF w2 a2] k by simp
    let ?sl = "(slabs h2 a)\<lparr>freeIndex := freeArray h2 a (freeIndex (slabs h2 a)), inUse := inUse (slabs h2 a) + 1\<rparr>"
    let ?h3 = "set_slab a ?sl h2" and ?v3 = "v2\<lparr>free_slots := (free_slots v2)(a := ks)\<rparr>"
    have w3: "cache_working c2 ?h3 ?v3 {a}" using working_update [OF w2 slab_take(1) [OF ok]] by simp
    have len: "length (free_slots ?v3 a) < unat (objectsPerSlab c2)" using slots_short [OF ok] by simp
    obtain c4 h4 v4 where x: "(if slab_IsFull (slabs ?h3 a) then partial_to_full a (c2, ?h3) else Inr (c2, ?h3)) = Inr (c4, h4)"
        and w4: "cache_working c4 h4 v4 {}" and sc4: "same_cache c2 c4" and n4: "objectsAllocated c4 = objectsAllocated c2"
        and o4: "objects c4 v4 = objects c2 ?v3"
        and u4: "outside (set (slabs_of ?v3)) ?h3 h4" "buddies h4 = buddies ?h3" "set (slabs_of v4) = set (slabs_of ?v3)"
      using leave_slab [OF w3 _ len] p2 by auto
    have gr2: "grown h v h2 v2" by (rule grown_step [OF gr1 u2])
    have "outside (set (slabs_of v2)) h2 h4" using u4(1) a2 by simp
    from grown_step [OF gr2 this] have gr: "grown h v h4 v4" using u4(2,3) by (simp add: set_slab_def)
    note t = objects_take [OF w2 a2 k]
    let ?p = "slot c2 a k" and ?c = "c4\<lparr>objectsAllocated := objectsAllocated c4 + 1\<rparr>"
    have run: "AllocateObject c h = Inr (?p, ?c, h4)"
      by (simp only: AllocateObject_def g rbind_simps prod.case magic e Let_def slab_take(2) [OF ok] x [unfolded slabs_set_slab] simp_thms if_False)
    have new: "?p \<notin> objects c v" "objects c4 v4 = insert ?p (objects c v)" using t o1 o2 o4 by simp_all
    have sc: "same_cache c4 ?c" "same_cache c ?c" using sc1 sc2 sc4 by (simp_all add: same_cache_def)
    have w': "cache_working ?c h4 v4 {}" using w4 sc(1) by (simp add: cache_working_def same_cache_eqs [OF sc(1)] slabs_ok_def lists_hold_def)
    have oc: "objects ?c v4 = insert ?p (objects c v)" using new(2) same_cache_eqs(3) [OF sc(1)] by simp
    have inv: "cache_inv ?c h4 v4"
      unfolding cache_inv_def oc using w' new(1) n n1 n2 n4 finite_objects [of c v] by simp
    then show ?thesis using run inv sc(2) new(1) oc gr by blast
  qed (simp add: AllocateObject_def)
qed

text \<open>C4. \<open>AllocateObject\<close> keeps the invariant of a cache of small objects (the three lists, the free slots of
  every slab, the counts) and hands out an object that was not in use and overlaps no object in use. It
  dereferences a null pointer exactly when no slab of the cache has a free slot and the buddy allocator has no free block.\<close>

theorem object_allocates:
  assumes "cache_inv c h v"
  shows "(AllocateObject c h = Inl NullPointer \<and> exhausted h \<and> partial_slabs v = [] \<and> free_slabs v = []) \<or>
    (\<exists>p c' h' v'. AllocateObject c h = Inr (p, c', h') \<and> cache_inv c' h' v' \<and> same_cache c c' \<and> p \<notin> objects c v \<and>
      objects c' v' = insert p (objects c v) \<and>
      (\<forall>q \<in> objects c v. sep p (unat (objSize c)) q (unat (objSize c))))"
  using AllocateObject_works [OF assms]
proof (elim disjE [of "_ \<and> _"] exE conjE)
  fix p c' h' v'
  assume x: "AllocateObject c h = Inr (p, c', h')" "cache_inv c' h' v'" "same_cache c c'" "p \<notin> objects c v" "objects c' v' = insert p (objects c v)"
  have w: "cache_working c' h' v' {}" using x(2) by (simp add: cache_inv_def)
  have "sep p (unat (objSize c)) q (unat (objSize c))" if "q \<in> objects c v" for q
    using objects_sep [OF w, of p q] x(3-5) that by (auto simp: same_cache_def)
  then show ?thesis using x by blast
qed simp

lemma reenter_slab:
  assumes w: "cache_working c h v {}" and a: "a \<in> set (slabs_of v)" and len: "length (free_slots v a) < unat (objectsPerSlab c)"
  shows "\<exists>c' h' v'. (if slab_IsFull (slabs h a) then full_to_partial a (c, h) else Inr (c, h)) = Inr (c', h') \<and>
    cache_working c' h' v' {a} \<and> same_cache c c' \<and> objectsAllocated c' = objectsAllocated c \<and> objects c' v' = objects c v \<and>
    a \<in> set (partial_slabs v') \<and> free_slots v' = free_slots v \<and> slabs h' = slabs h \<and> freeArray h' = freeArray h \<and> buddies h' = buddies h \<and>
    set (slabs_of v') = set (slabs_of v) \<and> outside (set (slabs_of v)) h h'"
proof -
  have d: "lists_hold c (slab_links h) v" "placed (unat (objectsPerSlab c)) v {}" using w by (simp_all add: cache_working_def)
  have dis: "distinct (slabs_of v)" using d(1) by (simp add: lists_hold_def)
  note e = working_slab(3) [OF w a]
  show ?thesis
  proof (cases "slab_IsFull (slabs h a)")
    case False
    then have "a \<in> set (partial_slabs v)" using d(2) a e len by (auto simp: placed_def slabs_of_def)
    moreover have "cache_working c h v {a}" using w by (auto simp: cache_working_def placed_def)
    ultimately show ?thesis using False by (intro exI [of _ c] exI [of _ h] exI [of _ v]) (simp add: same_cache_def)
  next
    case True
    then have "free_slots v a = []" using e by simp
    then have "a \<in> set (full_slabs v)" using d(2) a len by (auto simp: placed_def slabs_of_def)
    then obtain xs ys where ps: "full_slabs v = xs @ a # ys" by (auto dest: split_list)
    obtain l p s' where m: "full_to_partial a (c, h) = Inr (c\<lparr>fullSlabList := l, partialSlabList := p\<rparr>, h\<lparr>slab_links := s'\<rparr>)"
        "lists_hold (c\<lparr>fullSlabList := l, partialSlabList := p\<rparr>) s' (v\<lparr>full_slabs := xs @ ys, partial_slabs := a # partial_slabs v\<rparr>)"
        "links_outside (set (slabs_of v)) (slab_links h) s'"
      using full_to_partial_moves [OF d(1) ps] by blast
    let ?c = "c\<lparr>fullSlabList := l, partialSlabList := p\<rparr>" and ?v = "v\<lparr>full_slabs := xs @ ys, partial_slabs := a # partial_slabs v\<rparr>"
    have sc: "same_cache c ?c" by (simp add: same_cache_def)
    have st: "set (slabs_of ?v) = set (slabs_of v)" "free_slots ?v = free_slots v" using ps by (auto simp: slabs_of_def)
    have "cache_working ?c (h\<lparr>slab_links := s'\<rparr>) ?v {a}"
      by (rule working_moved [OF w sc m(2) _ st]) (use d(2) ps in \<open>auto simp: placed_def\<close>)
    then show ?thesis using True m(1,3) sc objects_same [OF sc st] st
      by (intro exI [of _ ?c] exI [of _ "h\<lparr>slab_links := s'\<rparr>"] exI [of _ ?v]) simp
  qed
qed

text \<open>The slab goes to the free list when all its slots are free.\<close>

lemma retire_slab:
  assumes w: "cache_working c h v {a}" and a: "a \<in> set (partial_slabs v)" and some: "free_slots v a \<noteq> []"
  shows "\<exists>c' h' v'. (if slab_IsEmpty (slabs h a) then partial_to_free a (c, h) else Inr (c, h)) = Inr (c', h') \<and>
    cache_working c' h' v' {} \<and> same_cache c c' \<and> objectsAllocated c' = objectsAllocated c \<and> objects c' v' = objects c v \<and>
    buddies h' = buddies h \<and> set (slabs_of v') = set (slabs_of v) \<and> outside (set (slabs_of v)) h h'"
proof -
  have d: "lists_hold c (slab_links h) v" "placed (unat (objectsPerSlab c)) v {a}" using w by (simp_all add: cache_working_def)
  have dis: "distinct (slabs_of v)" using d(1) by (simp add: lists_hold_def)
  have as: "a \<in> set (slabs_of v)" using a by (simp add: slabs_of_def)
  note e = working_slab(4) [OF w as] and le = slots_short [OF working_slab(1) [OF w as]]
  show ?thesis
  proof (cases "slab_IsEmpty (slabs h a)")
    case False
    then have "length (free_slots v a) < unat (objectsPerSlab c)" using e le by simp
    then have "cache_working c h v {}" using w a some dis by (auto simp: cache_working_def placed_def slabs_of_def)
    then show ?thesis using False by (intro exI [of _ c] exI [of _ h] exI [of _ v]) (simp add: same_cache_def)
  next
    case True
    then have len: "length (free_slots v a) = unat (objectsPerSlab c)" using e by simp
    obtain xs ys where ps: "partial_slabs v = xs @ a # ys" using a by (auto dest: split_list)
    obtain l p s' where m: "partial_to_free a (c, h) = Inr (c\<lparr>partialSlabList := l, freeSlabList := p\<rparr>, h\<lparr>slab_links := s'\<rparr>)"
        "lists_hold (c\<lparr>partialSlabList := l, freeSlabList := p\<rparr>) s' (v\<lparr>partial_slabs := xs @ ys, free_slabs := a # free_slabs v\<rparr>)"
        "links_outside (set (slabs_of v)) (slab_links h) s'"
      using partial_to_free_moves [OF d(1) ps] by blast
    let ?c = "c\<lparr>partialSlabList := l, freeSlabList := p\<rparr>" and ?v = "v\<lparr>partial_slabs := xs @ ys, free_slabs := a # free_slabs v\<rparr>"
    have sc: "same_cache c ?c" by (simp add: same_cache_def)
    have st: "set (slabs_of ?v) = set (slabs_of v)" "free_slots ?v = free_slots v" using ps by (auto simp: slabs_of_def)
    have "cache_working ?c (h\<lparr>slab_links := s'\<rparr>) ?v {}"
      by (rule working_moved [OF w sc m(2) _ st]) (use d(2) ps dis len in \<open>auto simp: placed_def slabs_of_def\<close>)
    then show ?thesis using True m(1,3) sc objects_same [OF sc st] st
      by (intro exI [of _ ?c] exI [of _ "h\<lparr>slab_links := s'\<rparr>"] exI [of _ ?v]) simp
  qed
qed

lemma FreeObject_works:
  assumes "cache_inv c h v" "p \<in> objects c v"
  shows "\<exists>c' h' v'. FreeObject p c h = Inr (c', h') \<and> cache_inv c' h' v' \<and> same_cache c c' \<and> objects c' v' = objects c v - {p} \<and>
    buddies h' = buddies h \<and> set (slabs_of v') = set (slabs_of v) \<and> outside (set (slabs_of v)) h h'"
proof -
  have w: "cache_working c h v {}" and n: "objectsAllocated c = of_nat (card (objects c v))" using assms(1) by (simp_all add: cache_inv_def)
  have sm: "small_cache c" using w by (simp add: cache_working_def)
  obtain a k where p: "p = slot c a k" "a \<in> set (slabs_of v)" "k < unat (objectsPerSlab c)" "k \<notin> set (free_slots v a)"
    using assms(2) by (auto simp: objects_def)
  have page: "p AND PAGEALIGN_MASK = a" unfolding p(1) by (rule slot_page [OF sm p(3) working_slab(6,5) [OF w p(2)]])
  note magic = working_slab(2) [OF w p(2)]
  have ok: "slab_ok c (slabs h a) (freeArray h a) a (free_slots v a)" by (rule working_slab(1) [OF w p(2)])
  have len: "length (free_slots v a) < unat (objectsPerSlab c)"
  proof -
    have "set (free_slots v a) \<subset> {..<unat (objectsPerSlab c)}" "distinct (free_slots v a)" using ok p(3,4) by (auto simp: slab_ok_def)
    then show ?thesis using psubset_card_mono [of "{..<unat (objectsPerSlab c)}" "set (free_slots v a)"] by (simp add: distinct_card)
  qed
  obtain c1 h1 v1 where e: "(if slab_IsFull (slabs h a) then full_to_partial a (c, h) else Inr (c, h)) = Inr (c1, h1)"
      and w1: "cache_working c1 h1 v1 {a}" and sc1: "same_cache c c1" and n1: "objectsAllocated c1 = objectsAllocated c"
      and o1: "objects c1 v1 = objects c v" and p1: "a \<in> set (partial_slabs v1)" and f1: "free_slots v1 = free_slots v"
      and h1: "slabs h1 = slabs h" "freeArray h1 = freeArray h" "buddies h1 = buddies h" "set (slabs_of v1) = set (slabs_of v)"
      and u1: "outside (set (slabs_of v)) h h1"
    using reenter_slab [OF w p(2) len] by blast
  have sl: "objectStart (slabs h a) = slot c a 0" using ok by (simp add: slab_ok_def)
  have sz: "objSize c1 = objSize c" "objectsPerSlab c1 = objectsPerSlab c" using sc1 by (simp_all add: same_cache_def)
  have nz: "objSize c \<noteq> 0" using small_cacheD(1) [OF sm] by auto
  have idx: "(p - objectStart (slabs h1 a)) div objSize c1 = of_nat k"
    unfolding h1(1) sl sz(1) p(1) by (rule slot_index [OF sm p(3)])
  let ?sl = "(slabs h1 a)\<lparr>freeIndex := of_nat k, inUse := inUse (slabs h1 a) - 1\<rparr>"
  let ?f = "(freeArray h1 a)(of_nat k := freeIndex (slabs h1 a))"
  let ?h2 = "set_slab a ?sl (h1\<lparr>freeArray := (freeArray h1)(a := ?f)\<rparr>)" and ?v2 = "v1\<lparr>free_slots := (free_slots v1)(a := k # free_slots v1 a)\<rparr>"
  have a1: "a \<in> set (slabs_of v1)" using p1 by (simp add: slabs_of_def)
  have sm1: "small_cache c1" using w1 by (simp add: cache_working_def)
  have w2: "cache_working c1 ?h2 ?v2 {a}"
    by (rule working_update [OF w1 slab_give [OF sm1 working_slab(1) [OF w1 a1]]]) (use p(3,4) f1 sz in simp_all)
  obtain c3 h3 v3 where x: "(if slab_IsEmpty (slabs ?h2 a) then partial_to_free a (c1, ?h2) else Inr (c1, ?h2)) = Inr (c3, h3)"
      and w3: "cache_working c3 h3 v3 {}" and sc3: "same_cache c1 c3" and n3: "objectsAllocated c3 = objectsAllocated c1"
      and o3: "objects c3 v3 = objects c1 ?v2" and h3: "buddies h3 = buddies ?h2" "set (slabs_of v3) = set (slabs_of ?v2)"
      and u3: "outside (set (slabs_of ?v2)) ?h2 h3"
    using retire_slab [OF w2] p1 by auto
  let ?c = "c3\<lparr>objectsAllocated := objectsAllocated c3 - 1\<rparr>"
  have nz1: "objSize c1 \<noteq> 0" using nz sz by simp
  have run: "FreeObject p c h = Inr (?c, h3)"
    by (simp only: FreeObject_def page rbind_simps prod.case magic e Let_def nz1 idx x [unfolded slabs_set_slab] simp_thms if_False)
  have sc: "same_cache c3 ?c" "same_cache c ?c" using sc1 sc3 by (simp_all add: same_cache_def)
  have "slot c1 a k = p" using same_cache_slot [OF sc1] p(1) by simp
  then have "objects c3 v3 = objects c v - {p}" using objects_give [OF w1 a1, of k] p(3) sz o1 o3 by simp
  then have oc: "objects ?c v3 = objects c v - {p}" using same_cache_eqs(3) [OF sc(1)] by simp
  have w': "cache_working ?c h3 v3 {}" using w3 sc(1) by (simp add: cache_working_def same_cache_eqs [OF sc(1)] slabs_ok_def lists_hold_def)
  have "0 < card (objects c v)" using assms(2) finite_objects [of c v] by (auto simp: card_gt_0_iff)
  then have "of_nat (card (objects c v - {p})) = (of_nat (card (objects c v)) - 1 :: u32)" using assms(2) by (simp add: of_nat_diff)
  then have "cache_inv ?c h3 v3" unfolding cache_inv_def oc using w' n n1 n3 by simp
  moreover have "outside (set (slabs_of v1)) h1 h3" using u3 a1 by simp
  then have "outside (set (slabs_of v)) h h3" using outside_trans [OF u1] h1(4) by simp
  ultimately show ?thesis using run sc(2) oc h1 h3 by (intro exI [of _ ?c] exI [of _ h3] exI [of _ v3]) (simp add: set_slab_def)
qed

text \<open>C5. \<open>FreeObject\<close> of an object in use finds its slab and its slot from the address alone, takes exactly that object out of the
  objects in use and keeps the invariant and the blocks of the buddy allocator.\<close>

theorem object_releases:
  assumes "cache_inv c h v" "p \<in> objects c v"
  shows "\<exists>c' h' v'. FreeObject p c h = Inr (c', h') \<and> cache_inv c' h' v' \<and> same_cache c c' \<and> objects c' v' = objects c v - {p} \<and>
    buddies h' = buddies h \<and> set (slabs_of v') = set (slabs_of v)"
  using FreeObject_works [OF assms] by blast

text \<open>The slabs are blocks of order 12 that the buddy allocator has given out, in the map \<open>B\<close> of its blocks.\<close>

definition slabs_in :: "slab_heap \<Rightarrow> slab_view \<Rightarrow> blockmap \<Rightarrow> bool" where
  "slabs_in h v B \<longleftrightarrow> buddy_inv (buddies h) B \<and> 4096 dvd unat (startAddress (buddies h)) \<and>
     (\<forall>a \<in> set (slabs_of v). \<exists>x. a = block_address (buddies h) x \<and> (x, 12) \<in> used_blocks B)"

lemma slab_blocks_in: "slab_blocks h v \<longleftrightarrow> (\<exists>B. slabs_in h v B)"
  by (simp add: slab_blocks_def slabs_in_def)

text \<open>The blocks of the slabs \<open>as\<close>.\<close>

definition blocks_of :: "slab_heap \<Rightarrow> u32 set \<Rightarrow> (nat \<times> nat) set" where
  "blocks_of h as = {(x, 12) |x. block_address (buddies h) x \<in> as}"

lemma used_block_unique:
  assumes B: "buddy_inv s B" and x: "(x, k) \<in> used_blocks B" "(y, l) \<in> used_blocks B" "block_address s x = block_address s y"
  shows "x = y"
proof -
  have t: "buddy_shape s" "tiling (unat (maxOrder s)) B" using workingD [of s B "{}"] B by (simp_all add: buddy_inv_def)
  have "B x = Some (k, True)" "B y = Some (l, True)" using x(1,2) by (simp_all add: used_blocks_def)
  from block_address_inj [OF t(1) block_start [OF t(2) this(1)] block_start [OF t(2) this(2)]] x(3) show ?thesis by simp
qed

lemma ReleaseSlab_frees:
  assumes c: "cache_order c = 0" and m: "magic_valid (slabs h a) = SLAB_MAGIC_VALID" and bl: "slabs_in h v B" and a: "a \<in> set (slabs_of v)"
    and v': "set (slabs_of v') \<subseteq> set (slabs_of v) - {a}"
  shows "\<exists>h' B'. ReleaseSlab a c h = Some (Inr h') \<and> slab_links h' = slab_links h \<and> slabs h' = (slabs h)(a := (slabs h a)\<lparr>magic_valid := 0\<rparr>) \<and>
    freeArray h' = freeArray h \<and> slabs_in h' v' B' \<and> same_region (buddies h) (buddies h') \<and> used_blocks B' = used_blocks B - blocks_of h {a}"
proof -
  note B = bl [unfolded slabs_in_def]
  obtain x where x: "a = block_address (buddies h) x" "(x, 12 + unat (0 :: u32)) \<in> used_blocks B" using B a by auto
  from conjunct1 [OF FreeBuddy_works [OF conjunct1 [OF B] x(2)]] obtain b B' where
    b: "FreeBuddy a 0 (buddies h) = Some (Inr b)" "buddy_inv b B'" "same_region (buddies h) b" "used_blocks B' = used_blocks B - {(x, 12)}"
    unfolding x(1) by auto
  have "\<exists>z. e = block_address b z \<and> (z, 12) \<in> used_blocks B'" if "e \<in> set (slabs_of v')" for e
  proof -
    from that v' have e: "e \<in> set (slabs_of v)" "e \<noteq> a" by auto
    then obtain z where z: "e = block_address (buddies h) z" "(z, 12) \<in> used_blocks B" using B by blast
    then have "z \<noteq> x" using e(2) x(1) by auto
    then show ?thesis using z b(4) same_region_address [OF b(3)] by auto
  qed
  moreover have "4096 dvd unat (startAddress b)" using B b(3) by (simp add: same_region_def)
  ultimately have "slabs_in (h\<lparr>slabs := (slabs h)(a := (slabs h a)\<lparr>magic_valid := 0\<rparr>), buddies := b\<rparr>) v' B'" using b(2) by (simp add: slabs_in_def)
  moreover have "used_blocks B' = used_blocks B - blocks_of h {a}"
    using b(4) x used_block_unique [OF conjunct1 [OF B] _ x(2)] by (auto simp: blocks_of_def)
  moreover have "ReleaseSlab a c h = Some (Inr (h\<lparr>slabs := (slabs h)(a := (slabs h a)\<lparr>magic_valid := 0\<rparr>), buddies := b\<rparr>))"
    using b(1) c m by (simp add: ReleaseSlab_def set_slab_def)
  ultimately show ?thesis using b(3) by auto
qed

lemma ReleaseSlab_works:
  assumes "cache_order c = 0" "magic_valid (slabs h a) = SLAB_MAGIC_VALID" "slab_blocks h v" "a \<in> set (slabs_of v)"
    and "set (slabs_of v') \<subseteq> set (slabs_of v) - {a}"
  shows "\<exists>h'. ReleaseSlab a c h = Some (Inr h') \<and> slab_links h' = slab_links h \<and> slabs h' = (slabs h)(a := (slabs h a)\<lparr>magic_valid := 0\<rparr>) \<and>
    freeArray h' = freeArray h \<and> slab_blocks h' v'"
  using assms(3) ReleaseSlab_frees [OF assms(1,2) _ assms(4,5)] unfolding slab_blocks_in by blast

lemma release_loop_works:
  assumes "cache_working c h v {}" "slabs_in h v B"
  shows "\<exists>c' h' B'. ReleaseUnusedMemory c h = Some (Inr (c', h')) \<and> cache_working c' h' (v\<lparr>free_slabs := []\<rparr>) {} \<and> same_cache c c' \<and>
    objectsAllocated c' = objectsAllocated c \<and> slabs_in h' (v\<lparr>free_slabs := []\<rparr>) B' \<and> same_region (buddies h) (buddies h') \<and>
    used_blocks B' = used_blocks B - blocks_of h (set (free_slabs v))"
  using assms
proof (induction "free_slabs v" arbitrary: c h v B)
  case Nil
  then have "holds (slab_links h, freeSlabList c) []" by (simp add: cache_working_def lists_hold_def)
  then have "head (freeSlabList c) = 0" by (simp add: holds_def)
  then have "ReleaseUnusedMemory c h = Some (Inr (c, h))" by (subst ReleaseUnusedMemory.simps) simp
  moreover have "blocks_of h {} = {}" by (simp add: blocks_of_def)
  moreover have v: "v\<lparr>free_slabs := []\<rparr> = v" using Nil(1) by simp
  ultimately show ?case using Nil(2,3) Nil(1) [symmetric] unfolding v
    by (intro exI [of _ c] exI [of _ h] exI [of _ B]) (simp add: same_cache_def same_region_def)
next
  case (Cons a fs)
  have fs: "free_slabs v = a # fs" using Cons.hyps(2) by simp
  have d: "small_cache c" "lists_hold c (slab_links h) v" "placed (unat (objectsPerSlab c)) v {}" "slabs_ok c h v" "slab_blocks h v"
    using Cons.prems(1) by (simp_all add: cache_working_def)
  have l: "holds (slab_links h, freeSlabList c) (a # fs)" "holds (slab_links h, fullSlabList c) (full_slabs v)"
      "holds (slab_links h, partialSlabList c) (partial_slabs v)" "distinct (slabs_of v)"
    using d(2) fs by (simp_all add: lists_hold_def)
  have hd: "head (freeSlabList c) = a" "a \<noteq> 0" using l(1) by (auto simp: holds_def)
  have as: "a \<in> set (slabs_of v)" by (simp add: slabs_of_def fs)
  obtain t m where r: "Remove a (slab_links h, freeSlabList c) = (t, m)" by (cases "Remove a (slab_links h, freeSlabList c)")
  let ?c = "c\<lparr>freeSlabList := m\<rparr>" and ?h = "h\<lparr>slab_links := t\<rparr>" and ?v = "v\<lparr>free_slabs := fs\<rparr>"
  have sc: "same_cache c ?c" by (simp add: same_cache_def)
  have hs: "holds (t, m) fs" using holds_Remove [of "slab_links h" "freeSlabList c" "[]" a fs] l(1) r by simp
  have ho: "holds (t, fullSlabList c) (full_slabs v)" "holds (t, partialSlabList c) (partial_slabs v)"
    by (rule holds_other(3) [OF l(1) _ _ _ r]; use l fs in \<open>auto simp: slabs_of_def\<close>)+
  have sub: "set (slabs_of ?v) = set (slabs_of v) - {a}" using l(4) fs by (auto simp: slabs_of_def)
  have "slabs_in ?h v B" using Cons.prems(2) by (simp add: slabs_in_def)
  moreover have "cache_order ?c = 0" "magic_valid (slabs ?h a) = SLAB_MAGIC_VALID"
    using small_cacheD(3) [OF d(1)] d(4) as by (simp_all add: slabs_ok_def slab_ok_def)
  ultimately obtain h' B1 where h': "ReleaseSlab a ?c ?h = Some (Inr h')" "slab_links h' = t" "slabs h' = (slabs h)(a := (slabs h a)\<lparr>magic_valid := 0\<rparr>)"
      "freeArray h' = freeArray h" "slabs_in h' ?v B1" "same_region (buddies h) (buddies h')" "used_blocks B1 = used_blocks B - blocks_of ?h {a}"
    using ReleaseSlab_frees [of ?c ?h a v B ?v] as sub by auto
  then have h5: "slab_blocks h' ?v" unfolding slab_blocks_in by blast
  have "cache_working ?c h' ?v {}"
    using d(1,3,4) h'(1-4) h5 hs ho l(4) fs sub
    by (auto simp: cache_working_def same_cache_eqs [OF sc] lists_hold_def placed_def slabs_ok_def slabs_of_def)
  from Cons.hyps(1) [of ?v ?c h', OF _ this h'(5)] obtain c' h2 B' where e: "ReleaseUnusedMemory ?c h' = Some (Inr (c', h2))"
      "cache_working c' h2 (?v\<lparr>free_slabs := []\<rparr>) {}" "same_cache ?c c'" "objectsAllocated c' = objectsAllocated ?c"
      "slabs_in h2 (?v\<lparr>free_slabs := []\<rparr>) B'" "same_region (buddies h') (buddies h2)" "used_blocks B' = used_blocks B1 - blocks_of h' (set fs)" by auto
  have "ReleaseUnusedMemory c h = Some (Inr (c', h2))"
    using hd r h'(1) e(1) by (subst ReleaseUnusedMemory.simps) (simp add: Let_def)
  moreover have "used_blocks B' = used_blocks B - blocks_of h (set (free_slabs v))"
    unfolding e(7) h'(7) fs by (auto simp: blocks_of_def same_region_address [OF h'(6)])
  moreover have "same_region (buddies h) (buddies h2)" using h'(6) e(6) by (rule same_region_trans)
  ultimately show ?case using e by (auto simp: same_cache_def)
qed

text \<open>C35. \<open>ReleaseUnusedMemory\<close> always returns and gives every slab without an object in use back to the buddy allocator: of the blocks the
  allocator has given out exactly those of these slabs are free again, whatever else it has given out. The objects in use and the invariant stay.\<close>

theorem unused_slabs_released:
  assumes "cache_inv c h v" "slabs_in h v B"
  shows "\<exists>c' h' B'. ReleaseUnusedMemory c h = Some (Inr (c', h')) \<and> cache_inv c' h' (v\<lparr>free_slabs := []\<rparr>) \<and> same_cache c c' \<and>
    objects c' (v\<lparr>free_slabs := []\<rparr>) = objects c v \<and> slabs_in h' (v\<lparr>free_slabs := []\<rparr>) B' \<and> same_region (buddies h) (buddies h') \<and>
    used_blocks B' = used_blocks B - blocks_of h (set (free_slabs v))"
proof -
  have w: "cache_working c h v {}" and n: "objectsAllocated c = of_nat (card (objects c v))" using assms(1) by (simp_all add: cache_inv_def)
  obtain c' h' B' where r: "ReleaseUnusedMemory c h = Some (Inr (c', h'))" "cache_working c' h' (v\<lparr>free_slabs := []\<rparr>) {}" "same_cache c c'"
      "objectsAllocated c' = objectsAllocated c" "slabs_in h' (v\<lparr>free_slabs := []\<rparr>) B'" "same_region (buddies h) (buddies h')"
      "used_blocks B' = used_blocks B - blocks_of h (set (free_slabs v))" using release_loop_works [OF w assms(2)] by blast
  have "k \<in> set (free_slots v a)" if "a \<in> set (free_slabs v)" "k < unat (objectsPerSlab c)" for a k
  proof -
    have "a \<in> set (slabs_of v)" using that(1) by (simp add: slabs_of_def)
    note ok = working_slab(1) [OF w this]
    have "length (free_slots v a) = unat (objectsPerSlab c)" using w that(1) by (simp add: cache_working_def placed_def)
    then have "set (free_slots v a) = {..<unat (objectsPerSlab c)}"
      using ok by (intro card_subset_eq) (simp_all add: slab_ok_def distinct_card)
    then show ?thesis using that(2) by simp
  qed
  then have "live (unat (objectsPerSlab c)) (v\<lparr>free_slabs := []\<rparr>) = live (unat (objectsPerSlab c)) v"
    by (auto simp: live_def slabs_of_def)
  then have "objects c (v\<lparr>free_slabs := []\<rparr>) = objects c v" by (simp add: objects_live)
  then have "cache_inv c' h' (v\<lparr>free_slabs := []\<rparr>)" "objects c' (v\<lparr>free_slabs := []\<rparr>) = objects c v"
    using r(1-4) n by (simp_all add: cache_inv_def same_cache_eqs [OF r(3)])
  then show ?thesis using r by blast
qed

section \<open>The caches of the kernel\<close>

definition no_slabs :: slab_view where
  "no_slabs = \<lparr>full_slabs = [], partial_slabs = [], free_slabs = [], free_slots = (\<lambda>_. [])\<rparr>"

text \<open>A new cache holds the invariant in any heap whose buddy allocator works on a region that starts on a page.\<close>

lemma new_cache_inv:
  assumes "0 < unat (aligned_size Size Align)" "unat (aligned_size Size Align) < 512"
    and "buddy_inv (buddies h) B" "4096 dvd unat (startAddress (buddies h))"
  shows "\<exists>c. new_SlabCache this Align Size = Inr c \<and> cache_inv c h no_slabs \<and> objects c no_slabs = {} \<and> objSize c = aligned_size Size Align"
proof -
  obtain c where c: "new_SlabCache this Align Size = Inr c" "small_cache c" "objectsAllocated c = 0" "objSize c = aligned_size Size Align"
      "fullSlabList c = empty_list" "partialSlabList c = empty_list" "freeSlabList c = empty_list"
    using new_SlabCache_small [OF assms(1,2)] by blast
  have "objects c no_slabs = {}" by (simp add: objects_def no_slabs_def slabs_of_def)
  moreover have "cache_working c h no_slabs {}"
    using c(2,5-7) assms(3,4)
    by (auto simp: cache_working_def lists_hold_def no_slabs_def holds_empty slabs_of_def placed_def slabs_ok_def slab_blocks_def)
  ultimately show ?thesis using c(1,3,4) by (auto simp: cache_inv_def)
qed

definition heap_with :: "buddy \<Rightarrow> slab_heap" where
  "heap_with b = \<lparr>buddies = b, slab_links = kernel_links, slabs = (\<lambda>_. \<lparr>slab_cache = 0, objectStart = 0, freeIndex = 0, inUse = 0, magic_valid = 0\<rparr>),
     freeArray = (\<lambda>_ _. 0)\<rparr>"

lemma empty_cache: "\<exists>c h. cache_inv c h no_slabs \<and> objects c no_slabs = {} \<and> \<not> exhausted h \<and> objSize c = 64"
proof -
  obtain s where s: "buddy_inv s one_free_block" "startAddress s = 0xD0500000" using small_buddy by blast
  have "aligned_size 64 0 = 64" by (subst aligned_size_def, subst halve_align.simps) simp
  then obtain c where c: "cache_inv c (heap_with s) no_slabs" "objects c no_slabs = {}" "objSize c = 64"
    using new_cache_inv [of 64 0 "heap_with s" one_free_block] s by (auto simp: heap_with_def)
  have "\<not> exhausted (heap_with s)" using exhausted_iff [of "heap_with s" one_free_block] s(1) by (auto simp: heap_with_def)
  with c show ?thesis by blast
qed

lemma cache_with_object: "\<exists>c h v p. cache_inv c h v \<and> objects c v = {p}"
proof -
  obtain c h where c: "cache_inv c h no_slabs" "objects c no_slabs = {}" "\<not> exhausted h" using empty_cache by blast
  from AllocateObject_works [OF c(1)] c(2,3) show ?thesis by auto
qed

theorem object_allocates_witness:
  "\<exists>c h p c' h' v'. cache_inv c h no_slabs \<and> objSize c = 64 \<and> AllocateObject c h = Inr (p, c', h') \<and> cache_inv c' h' v' \<and> objects c' v' = {p}"
proof -
  obtain c h where c: "cache_inv c h no_slabs" "objects c no_slabs = {}" "\<not> exhausted h" "objSize c = 64" using empty_cache by blast
  obtain p c' h' v' where "AllocateObject c h = Inr (p, c', h')" "cache_inv c' h' v'" "objects c' v' = {p}"
    using object_allocates [OF c(1)] c(2,3) by auto
  then show ?thesis using c(1,4) by blast
qed

theorem object_releases_witness:
  "\<exists>c h v p. objects c v = {p} \<and> (\<exists>c' h' v'. FreeObject p c h = Inr (c', h') \<and> cache_inv c' h' v' \<and> objects c' v' = {})"
proof -
  obtain c h v p where c: "cache_inv c h v" "objects c v = {p}" using cache_with_object by blast
  obtain c' h' v' where "FreeObject p c h = Inr (c', h')" "cache_inv c' h' v'" "objects c' v' = {}"
    using object_releases [OF c(1), of p] c(2) by auto
  then show ?thesis using c(2) by blast
qed

text \<open>Without objects in use every slab is a free one.\<close>

lemma no_objects_free:
  assumes "cache_inv c h v" "objects c v = {}" "0 < unat (objectsPerSlab c)"
  shows "set (free_slabs v) = set (slabs_of v)"
proof -
  have w: "placed (unat (objectsPerSlab c)) v {}" using assms(1) by (simp add: cache_inv_def cache_working_def)
  have "a \<in> set (free_slabs v)" if a: "a \<in> set (slabs_of v)" for a
  proof -
    have "{..<unat (objectsPerSlab c)} \<subseteq> set (free_slots v a)" using assms(2) a by (auto simp: objects_def)
    then have "card {..<unat (objectsPerSlab c)} \<le> length (free_slots v a)" by (meson List.finite_set card_mono card_length order_trans)
    then have "unat (objectsPerSlab c) \<le> length (free_slots v a)" by simp
    moreover from this have "free_slots v a \<noteq> []" using assms(3) by auto
    ultimately show ?thesis using w a by (auto simp: placed_def slabs_of_def)
  qed
  then show ?thesis by (auto simp: slabs_of_def)
qed

text \<open>A cache whose only object has been released: its slab is given back.\<close>

theorem unused_slabs_released_witness:
  "\<exists>c h v B a x. slabs_in h v B \<and> a \<in> set (free_slabs v) \<and> a = block_address (buddies h) x \<and> (x, 12) \<in> used_blocks B \<and>
    (\<exists>c' h' B'. ReleaseUnusedMemory c h = Some (Inr (c', h')) \<and> buddy_inv (buddies h') B' \<and> (x, 12) \<notin> used_blocks B')"
proof -
  obtain c0 h0 v0 p where c0: "cache_inv c0 h0 v0" "objects c0 v0 = {p}" using cache_with_object by blast
  from FreeObject_works [OF c0(1), of p] c0(2) obtain c h v where
    c: "cache_inv c h v" "same_cache c0 c" "objects c v = {}" "set (slabs_of v) = set (slabs_of v0)" by auto
  have "slabs_of v0 \<noteq> []" "0 < unat (objectsPerSlab c0)" using c0(2) by (auto simp: objects_def)
  then obtain a where a: "a \<in> set (free_slabs v)"
    using no_objects_free [OF c(1,3)] c(2,4) by (cases "slabs_of v0") (auto simp: same_cache_def)
  obtain B where B: "slabs_in h v B" using c(1) by (auto simp: cache_inv_def cache_working_def slab_blocks_in)
  moreover have "a \<in> set (slabs_of v)" using a by (simp add: slabs_of_def)
  ultimately obtain x where x: "a = block_address (buddies h) x" "(x, 12) \<in> used_blocks B" by (auto simp: slabs_in_def)
  obtain c' h' B' where r: "ReleaseUnusedMemory c h = Some (Inr (c', h'))" "slabs_in h' (v\<lparr>free_slabs := []\<rparr>) B'"
    "used_blocks B' = used_blocks B - blocks_of h (set (free_slabs v))" using unused_slabs_released [OF c(1) B] by blast
  have "(x, 12) \<notin> used_blocks B'" using r(3) a x(1) by (auto simp: blocks_of_def)
  moreover have "buddy_inv (buddies h') B'" using r(2) by (simp add: slabs_in_def)
  ultimately show ?thesis using B a x r(1) by blast
qed

section \<open>Destroying a cache\<close>

text \<open>Blocks of the slabs \<open>es\<close> are in use.\<close>

definition only_slabs :: "u32 list \<Rightarrow> slab_view" where
  "only_slabs es = no_slabs\<lparr>free_slabs := es\<rparr>"

lemma slabs_of_only [simp]: "slabs_of (only_slabs es) = es"
  by (simp add: only_slabs_def no_slabs_def slabs_of_def)

lemma slab_blocks_cong: "set (slabs_of v') = set (slabs_of v) \<Longrightarrow> buddies h' = buddies h \<Longrightarrow> slab_blocks h' v' = slab_blocks h v"
  by (simp add: slab_blocks_def)

lemma ReleaseList_works:
  assumes "segment (slab_links h) p es 0" "0 \<notin> set es" "distinct (es @ rest)" "slab_blocks h (only_slabs (es @ rest))" "cache_order c = 0"
    and "\<forall>a \<in> set (es @ rest). magic_valid (slabs h a) = SLAB_MAGIC_VALID"
  shows "\<exists>h'. ReleaseList (hd (es @ [0])) c h = Some (Inr h') \<and> slab_links h' = slab_links h \<and> slab_blocks h' (only_slabs rest) \<and>
    (\<forall>a. slabs h' a = (if a \<in> set es then (slabs h a)\<lparr>magic_valid := 0\<rparr> else slabs h a))"
  using assms
proof (induction es arbitrary: p h)
  case Nil
  then show ?case by (subst ReleaseList.simps) simp
next
  case (Cons a es)
  have a: "a \<noteq> 0" "a \<notin> set (es @ rest)" "GetNext (slab_links h) a = hd (es @ [0])" using Cons.prems(1-3) by (auto simp: GetNext_def)
  have "set (slabs_of (only_slabs (es @ rest))) \<subseteq> set (slabs_of (only_slabs ((a # es) @ rest))) - {a}" using a(2) by auto
  from ReleaseSlab_works [OF Cons.prems(5) _ Cons.prems(4) _ this] Cons.prems(6)
  obtain h1 where h1: "ReleaseSlab a c h = Some (Inr h1)" "slab_links h1 = slab_links h" "slab_blocks h1 (only_slabs (es @ rest))"
    and s1: "slabs h1 = (slabs h)(a := (slabs h a)\<lparr>magic_valid := 0\<rparr>)" by auto
  have seg: "segment (slab_links h1) a es 0" using Cons.prems(1) h1(2) by simp
  have ok: "0 \<notin> set es" "distinct (es @ rest)" "\<forall>e \<in> set (es @ rest). magic_valid (slabs h1 e) = SLAB_MAGIC_VALID"
    using Cons.prems(2,3,6) a(2) s1 by auto
  from Cons.IH [OF seg ok(1,2) h1(3) Cons.prems(5) ok(3)]
  obtain h' where h': "ReleaseList (hd (es @ [0])) c h1 = Some (Inr h')" "slab_links h' = slab_links h1" "slab_blocks h' (only_slabs rest)"
      "\<forall>e. slabs h' e = (if e \<in> set es then (slabs h1 e)\<lparr>magic_valid := 0\<rparr> else slabs h1 e)" by blast
  have "ReleaseList a c h = Some (Inr h')" using a h1(1) h'(1) by (subst ReleaseList.simps) (simp add: Let_def)
  then show ?case using h' h1(2) s1 a(2) by auto
qed

lemma Destroy_works:
  assumes "cache_working c h v {}"
  shows "\<exists>h'. Destroy c h = Some (Inr h') \<and> slab_blocks h' no_slabs \<and> (\<forall>a \<in> set (slabs_of v). magic_valid (slabs h' a) = 0)"
proof -
  let ?F = "free_slabs v" and ?P = "partial_slabs v" and ?U = "full_slabs v"
  have d: "small_cache c" "lists_hold c (slab_links h) v" "slabs_ok c h v" "slab_blocks h v" using assms by (simp_all add: cache_working_def)
  note o = small_cacheD(3) [OF d(1)]
  have l: "holds (slab_links h, freeSlabList c) ?F" "holds (slab_links h, partialSlabList c) ?P" "holds (slab_links h, fullSlabList c) ?U"
      "distinct (?F @ ?P @ ?U)"
    using d(2) by (auto simp: lists_hold_def slabs_of_def)
  have hd: "head (freeSlabList c) = hd (?F @ [0])" "head (partialSlabList c) = hd (?P @ [0])" "head (fullSlabList c) = hd (?U @ [0])"
    and seg: "segment (slab_links h) 0 ?F 0" "segment (slab_links h) 0 ?P 0" "segment (slab_links h) 0 ?U 0"
    and nz: "0 \<notin> set ?F" "0 \<notin> set ?P" "0 \<notin> set ?U"
    using l(1-3) by (simp_all add: holds_def)
  have m: "\<forall>a \<in> set (?F @ ?P @ ?U). magic_valid (slabs h a) = SLAB_MAGIC_VALID" using d(3) by (auto simp: slabs_ok_def slab_ok_def slabs_of_def)
  have "set (slabs_of (only_slabs (?F @ ?P @ ?U))) = set (slabs_of v)" unfolding slabs_of_only by (auto simp: slabs_of_def)
  then have "slab_blocks h (only_slabs (?F @ ?P @ ?U))" using d(4) slab_blocks_cong by blast
  from ReleaseList_works [OF seg(1) nz(1) l(4) this o m] obtain h1 where
    h1: "ReleaseList (hd (?F @ [0])) c h = Some (Inr h1)" "slab_links h1 = slab_links h" "slab_blocks h1 (only_slabs (?P @ ?U))"
      "\<forall>a. slabs h1 a = (if a \<in> set ?F then (slabs h a)\<lparr>magic_valid := 0\<rparr> else slabs h a)" by blast
  have m1: "\<forall>a \<in> set (?P @ ?U). magic_valid (slabs h1 a) = SLAB_MAGIC_VALID" using m h1(4) l(4) by auto
  have "segment (slab_links h1) 0 ?P 0" "distinct (?P @ ?U)" using seg(2) h1(2) l(4) by simp_all
  from ReleaseList_works [OF this(1) nz(2) this(2) h1(3) o m1] obtain h2 where
    h2: "ReleaseList (hd (?P @ [0])) c h1 = Some (Inr h2)" "slab_links h2 = slab_links h1" "slab_blocks h2 (only_slabs ?U)"
      "\<forall>a. slabs h2 a = (if a \<in> set ?P then (slabs h1 a)\<lparr>magic_valid := 0\<rparr> else slabs h1 a)" by blast
  have "\<forall>a \<in> set (?U @ []). magic_valid (slabs h2 a) = SLAB_MAGIC_VALID" "segment (slab_links h2) 0 ?U 0" "distinct (?U @ [])"
      "slab_blocks h2 (only_slabs (?U @ []))"
    using m1 h1(2) h2 l(4) seg(3) by auto
  from ReleaseList_works [OF this(2) nz(3) this(3,4) o this(1)] obtain h3 where
    h3: "ReleaseList (hd (?U @ [0])) c h2 = Some (Inr h3)" "slab_blocks h3 (only_slabs [])"
      "\<forall>a. slabs h3 a = (if a \<in> set ?U then (slabs h2 a)\<lparr>magic_valid := 0\<rparr> else slabs h2 a)" by blast
  have "slab_blocks h3 no_slabs" using h3(2) by (simp add: slab_blocks_def slabs_of_def no_slabs_def only_slabs_def)
  moreover have "\<forall>a \<in> set (slabs_of v). magic_valid (slabs h3 a) = 0" using h1(4) h2(4) h3(3) by (auto simp: slabs_of_def)
  ultimately show ?thesis using h1(1) h2(1) h3(1) by (simp add: Destroy_def hd)
qed

text \<open>
  An object of 512 bytes is small for \<open>CreateCache\<close>, which makes a \<open>SmallCache\<close> up to the limit, but not for \<open>EstimateNrObjects\<close>, which
  leaves room for the header below the limit only: eight objects fill the page and the first one is the header.
\<close>

lemma limit_objects_cover_header:
  "\<exists>c. new_SlabCache this 0 SLAB_LIMIT = Inr c \<and> objectsPerSlab c = 8 \<and> (\<forall>a. slot c a 0 = a)"
proof -
  have sz: "aligned_size SLAB_LIMIT 0 = 512" by (subst aligned_size_def, subst halve_align.simps) (simp add: SLAB_LIMIT_def KERNEL_PAGE_SIZE_def)
  obtain n w where e: "EstimateNrObjects 0 512 = Inr (n, w)" "slab_bytes 512 (unat n) \<le> 4096" "4096 < slab_bytes 512 (unat n + 1)"
    using EstimateNrObjects_fits [of 512 0] by auto
  have "unat n = 8" using e(2,3) by (simp add: slab_bytes_def)
  then have n: "n = 8" by (simp add: word_eq_unat_iff)
  have "choose_order 512 0 = Inr (8, 0, w)" using e(1) n by (subst choose_order.simps) simp
  then have "GetObjectCount SLAB_LIMIT 0 = Inr (8, 512, 0, w)" by (simp add: GetObjectCount_def sz)
  then show ?thesis by (simp add: new_SlabCache_def slot_def)
qed

end
