(* ===== verification/Crc32.thy ===== *)
theory Crc32
  imports Prelude
begin

text \<open>
  The checksum of the kernel (CRC32.cpp), by a table of 256 words, and the polynomial division bit by bit
  that the table stands for.
\<close>

section \<open>The code\<close>

definition crc32_tab :: "u32 list" where
  "crc32_tab = [
    0x00000000, 0x77073096, 0xee0e612c, 0x990951ba, 0x076dc419, 0x706af48f, 0xe963a535, 0x9e6495a3,
    0x0edb8832, 0x79dcb8a4, 0xe0d5e91e, 0x97d2d988, 0x09b64c2b, 0x7eb17cbd, 0xe7b82d07, 0x90bf1d91,
    0x1db71064, 0x6ab020f2, 0xf3b97148, 0x84be41de, 0x1adad47d, 0x6ddde4eb, 0xf4d4b551, 0x83d385c7,
    0x136c9856, 0x646ba8c0, 0xfd62f97a, 0x8a65c9ec, 0x14015c4f, 0x63066cd9, 0xfa0f3d63, 0x8d080df5,
    0x3b6e20c8, 0x4c69105e, 0xd56041e4, 0xa2677172, 0x3c03e4d1, 0x4b04d447, 0xd20d85fd, 0xa50ab56b,
    0x35b5a8fa, 0x42b2986c, 0xdbbbc9d6, 0xacbcf940, 0x32d86ce3, 0x45df5c75, 0xdcd60dcf, 0xabd13d59,
    0x26d930ac, 0x51de003a, 0xc8d75180, 0xbfd06116, 0x21b4f4b5, 0x56b3c423, 0xcfba9599, 0xb8bda50f,
    0x2802b89e, 0x5f058808, 0xc60cd9b2, 0xb10be924, 0x2f6f7c87, 0x58684c11, 0xc1611dab, 0xb6662d3d,
    0x76dc4190, 0x01db7106, 0x98d220bc, 0xefd5102a, 0x71b18589, 0x06b6b51f, 0x9fbfe4a5, 0xe8b8d433,
    0x7807c9a2, 0x0f00f934, 0x9609a88e, 0xe10e9818, 0x7f6a0dbb, 0x086d3d2d, 0x91646c97, 0xe6635c01,
    0x6b6b51f4, 0x1c6c6162, 0x856530d8, 0xf262004e, 0x6c0695ed, 0x1b01a57b, 0x8208f4c1, 0xf50fc457,
    0x65b0d9c6, 0x12b7e950, 0x8bbeb8ea, 0xfcb9887c, 0x62dd1ddf, 0x15da2d49, 0x8cd37cf3, 0xfbd44c65,
    0x4db26158, 0x3ab551ce, 0xa3bc0074, 0xd4bb30e2, 0x4adfa541, 0x3dd895d7, 0xa4d1c46d, 0xd3d6f4fb,
    0x4369e96a, 0x346ed9fc, 0xad678846, 0xda60b8d0, 0x44042d73, 0x33031de5, 0xaa0a4c5f, 0xdd0d7cc9,
    0x5005713c, 0x270241aa, 0xbe0b1010, 0xc90c2086, 0x5768b525, 0x206f85b3, 0xb966d409, 0xce61e49f,
    0x5edef90e, 0x29d9c998, 0xb0d09822, 0xc7d7a8b4, 0x59b33d17, 0x2eb40d81, 0xb7bd5c3b, 0xc0ba6cad,
    0xedb88320, 0x9abfb3b6, 0x03b6e20c, 0x74b1d29a, 0xead54739, 0x9dd277af, 0x04db2615, 0x73dc1683,
    0xe3630b12, 0x94643b84, 0x0d6d6a3e, 0x7a6a5aa8, 0xe40ecf0b, 0x9309ff9d, 0x0a00ae27, 0x7d079eb1,
    0xf00f9344, 0x8708a3d2, 0x1e01f268, 0x6906c2fe, 0xf762575d, 0x806567cb, 0x196c3671, 0x6e6b06e7,
    0xfed41b76, 0x89d32be0, 0x10da7a5a, 0x67dd4acc, 0xf9b9df6f, 0x8ebeeff9, 0x17b7be43, 0x60b08ed5,
    0xd6d6a3e8, 0xa1d1937e, 0x38d8c2c4, 0x4fdff252, 0xd1bb67f1, 0xa6bc5767, 0x3fb506dd, 0x48b2364b,
    0xd80d2bda, 0xaf0a1b4c, 0x36034af6, 0x41047a60, 0xdf60efc3, 0xa867df55, 0x316e8eef, 0x4669be79,
    0xcb61b38c, 0xbc66831a, 0x256fd2a0, 0x5268e236, 0xcc0c7795, 0xbb0b4703, 0x220216b9, 0x5505262f,
    0xc5ba3bbe, 0xb2bd0b28, 0x2bb45a92, 0x5cb36a04, 0xc2d7ffa7, 0xb5d0cf31, 0x2cd99e8b, 0x5bdeae1d,
    0x9b64c2b0, 0xec63f226, 0x756aa39c, 0x026d930a, 0x9c0906a9, 0xeb0e363f, 0x72076785, 0x05005713,
    0x95bf4a82, 0xe2b87a14, 0x7bb12bae, 0x0cb61b38, 0x92d28e9b, 0xe5d5be0d, 0x7cdcefb7, 0x0bdbdf21,
    0x86d3d2d4, 0xf1d4e242, 0x68ddb3f8, 0x1fda836e, 0x81be16cd, 0xf6b9265b, 0x6fb077e1, 0x18b74777,
    0x88085ae6, 0xff0f6a70, 0x66063bca, 0x11010b5c, 0x8f659eff, 0xf862ae69, 0x616bffd3, 0x166ccf45,
    0xa00ae278, 0xd70dd2ee, 0x4e048354, 0x3903b3c2, 0xa7672661, 0xd06016f7, 0x4969474d, 0x3e6e77db,
    0xaed16a4a, 0xd9d65adc, 0x40df0b66, 0x37d83bf0, 0xa9bcae53, 0xdebb9ec5, 0x47b2cf7f, 0x30b5ffe9,
    0xbdbdf21c, 0xcabac28a, 0x53b39330, 0x24b4a3a6, 0xbad03605, 0xcdd70693, 0x54de5729, 0x23d967bf,
    0xb3667a2e, 0xc4614ab8, 0x5d681b02, 0x2a6f2b94, 0xb40bbe37, 0xc30c8ea1, 0x5a05df1b, 0x2d02ef8d]"

text \<open>A step of the loop; a character is signed, of which only the low eight bits are used.\<close>

definition crc_step :: "u32 \<Rightarrow> u8 \<Rightarrow> u32" where
  "crc_step crc c = crc32_tab ! unat ((crc XOR scast c) AND 0xFF) XOR drop_bit 8 crc"

definition CRC32 :: "u8 list \<Rightarrow> u32" where
  "CRC32 buf = foldl crc_step 0 buf"

section \<open>The polynomial\<close>

text \<open>Division by the polynomial 0xEDB88320 (bits reversed), one bit at a time.\<close>

definition crc_bit :: "u32 \<Rightarrow> u32" where
  "crc_bit c = (if bit c 0 then drop_bit 1 c XOR 0xEDB88320 else drop_bit 1 c)"

definition crc_byte :: "u32 \<Rightarrow> u8 \<Rightarrow> u32" where
  "crc_byte crc c = (crc_bit ^^ 8) (crc XOR ucast c)"

section \<open>The table is the polynomial\<close>

text \<open>The table is checked over the integers.\<close>

primrec crc_int :: "nat \<Rightarrow> int \<Rightarrow> int" where
  "crc_int 0 c = c"
| "crc_int (Suc n) c = crc_int n (if odd c then (c div 2) XOR 0xEDB88320 else c div 2)"

lemma uint_crc_bit: "uint (crc_bit c) = (if odd (uint c) then (uint c div 2) XOR 0xEDB88320 else uint c div 2)"
proof -
  have d: "uint (drop_bit 1 c) = uint c div 2" by (simp add: drop_bit_eq_div uint_div)
  have "uint (drop_bit 1 c XOR 0xEDB88320) = (uint c div 2) XOR 0xEDB88320"
    unfolding unsigned_xor_eq d by simp
  moreover have "odd (uint c) = bit c 0" by (simp add: bit_unsigned_iff flip: bit_0)
  ultimately show ?thesis using d by (simp add: crc_bit_def)
qed

lemma uint_crc_bits: "uint ((crc_bit ^^ n) c) = crc_int n (uint c)"
  by (induction n arbitrary: c) (simp_all add: funpow_swap1 uint_crc_bit del: funpow.simps add: funpow_Suc_right)

lemma table_ints: "map uint crc32_tab = map (crc_int 8) [0..255]"
  unfolding crc32_tab_def by code_simp

lemma crc32_tab_polynomial: "i < 256 \<Longrightarrow> crc32_tab ! i = (crc_bit ^^ 8) (of_nat i)"
proof -
  assume i: "i < 256"
  have len: "length crc32_tab = 256" by (simp add: crc32_tab_def)
  have "uint (crc32_tab ! i) = map uint crc32_tab ! i" using i len by simp
  also have "\<dots> = crc_int 8 (int i)" unfolding table_ints using i by (simp del: crc_int.simps)
  also have "\<dots> = crc_int 8 (uint (of_nat i :: u32))" using i by (simp add: uint_nat unat_of_nat32 del: crc_int.simps)
  also have "\<dots> = uint ((crc_bit ^^ 8) (of_nat i :: u32))" by (rule uint_crc_bits [symmetric])
  finally show ?thesis by simp
qed

text \<open>Division is linear, and a zero bit only shifts.\<close>

lemma crc_bit_xor: "crc_bit (a XOR b) = crc_bit a XOR crc_bit b"
  by (auto simp: crc_bit_def bit_xor_iff intro!: bit_word_eqI)

lemma crc_bits_xor: "(crc_bit ^^ n) (a XOR b) = (crc_bit ^^ n) a XOR (crc_bit ^^ n) b"
  by (induction n) (simp_all add: crc_bit_xor)

lemma crc_bits_shift: "n \<le> 32 \<Longrightarrow> (crc_bit ^^ n) (push_bit n (drop_bit n c)) = drop_bit n c"
proof (induction n arbitrary: c)
  case (Suc n)
  have "crc_bit (push_bit (Suc n) (drop_bit (Suc n) c)) = push_bit n (drop_bit n (drop_bit 1 c))"
  proof -
    have "\<not> bit (push_bit (Suc n) (drop_bit (Suc n) c)) 0" by (simp add: bit_push_bit_iff del: push_bit_Suc)
    then have "crc_bit (push_bit (Suc n) (drop_bit (Suc n) c)) = drop_bit 1 (push_bit (Suc n) (drop_bit (Suc n) c))"
      by (simp only: crc_bit_def if_False)
    also have "\<dots> = push_bit n (drop_bit n (drop_bit 1 c))"
      by (intro bit_word_eqI) (auto simp: bit_drop_bit_eq bit_push_bit_iff simp del: push_bit_Suc dest: bit_imp_le_length)
    finally show ?thesis .
  qed
  then show ?case using Suc.IH [of "drop_bit 1 c"] Suc.prems by (simp add: funpow_Suc_right del: funpow.simps)
qed simp

lemma crc_bits_split: "(crc_bit ^^ 8) c = crc32_tab ! unat (c AND 0xFF) XOR drop_bit 8 c"
proof -
  have m: "(0xFF :: u32) = mask 8" by (simp add: mask_eq_exp_minus_1)
  have c: "c = (c AND 0xFF) XOR push_bit 8 (drop_bit 8 c)"
    unfolding m by (intro bit_word_eqI) (auto simp: bit_simps)
  have "c AND 0xFF \<le> 0xFF" by (rule word_and_le1)
  then have "unat (c AND 0xFF) < 256" by (simp add: word_le_nat_alt)
  then have t: "crc32_tab ! unat (c AND 0xFF) = (crc_bit ^^ 8) (c AND 0xFF)" using crc32_tab_polynomial by simp
  show ?thesis by (subst c, subst crc_bits_xor) (simp add: t crc_bits_shift [of 8] del: funpow.simps)
qed

lemma crc_step_byte: "crc_step crc c = crc_byte crc c"
proof -
  have m: "(0xFF :: u32) = mask 8" by (simp add: mask_eq_exp_minus_1)
  have "(crc XOR scast c) AND 0xFF = (crc XOR ucast c) AND (0xFF :: u32)"
    unfolding m by (intro bit_word_eqI) (auto simp: bit_simps)
  moreover have "drop_bit 8 (crc XOR ucast c) = drop_bit 8 crc"
    by (intro bit_word_eqI) (auto simp: bit_simps dest: bit_imp_le_length)
  ultimately show ?thesis using crc_bits_split [of "crc XOR ucast c"] by (simp add: crc_step_def crc_byte_def del: funpow.simps)
qed

section \<open>What the checksum tells apart\<close>

lemma CRC32_bytes: "CRC32 bs = foldl crc_byte 0 bs"
  by (simp add: CRC32_def crc_step_byte cong: foldl_cong)

lemma xor_cancel: "(a :: 'a::len word) XOR c = b XOR c \<longleftrightarrow> a = b"
proof
  assume "a XOR c = b XOR c"
  then have "(a XOR c) XOR c = (b XOR c) XOR c" by simp
  then show "a = b" by (simp only: xor.assoc xor_self_eq xor.right_neutral)
qed simp

lemma crc_bit_inj: "crc_bit a = crc_bit b \<longleftrightarrow> a = b"
proof
  assume e: "crc_bit a = crc_bit b"
  have top: "bit (crc_bit c) 31 = bit c 0" for c
    using bit_imp_le_length [of c 32] by (auto simp: crc_bit_def bit_xor_iff bit_drop_bit_eq)
  then have z: "bit a 0 = bit b 0" using e by metis
  then have d: "drop_bit 1 a = drop_bit 1 b" using e by (auto simp: crc_bit_def xor_cancel split: if_splits)
  show "a = b"
  proof (rule bit_word_eqI)
    fix n
    show "bit a n = bit b n"
    proof (cases n)
      case (Suc m)
      have "bit (drop_bit 1 a) m = bit (drop_bit 1 b) m" by (simp only: d)
      then show ?thesis by (simp add: Suc bit_drop_bit_eq)
    qed (use z in simp)
  qed
qed simp

lemma crc_bits_inj: "(crc_bit ^^ n) a = (crc_bit ^^ n) b \<longleftrightarrow> a = b"
  by (induction n) (simp_all add: crc_bit_inj)

lemma crc_byte_inj: "crc_byte crc a = crc_byte crc b \<longleftrightarrow> a = b" "crc_byte c a = crc_byte d a \<longleftrightarrow> c = d"
proof -
  have u: "unat (ucast c :: u32) = unat c" for c :: u8
  proof -
    have "unat c < 2 ^ 32" by (rule less_trans [OF unat_bound8]) simp
    then show ?thesis by (simp add: unsigned_ucast_eq take_bit_nat_eq_self)
  qed
  have "(ucast a :: u32) = ucast b \<longleftrightarrow> a = b" by (simp add: word_eq_unat_iff u)
  then show "crc_byte crc a = crc_byte crc b \<longleftrightarrow> a = b"
    using xor_cancel [of "ucast a" crc "ucast b"] by (simp add: crc_byte_def crc_bits_inj xor.commute)
  show "crc_byte c a = crc_byte d a \<longleftrightarrow> c = d" by (simp add: crc_byte_def crc_bits_inj xor_cancel)
qed

lemma crc_tail_inj: "foldl crc_byte c ys = foldl crc_byte d ys \<longleftrightarrow> c = d"
  by (induction ys arbitrary: c d) (simp_all add: crc_byte_inj)

text \<open>C40. The table driven checksum is division by the polynomial 0xEDB88320 one bit at a time, from the remainder 0;
  a change of one byte always changes it, and as the remainder starts at 0, zero bytes in front do not.\<close>

theorem crc_is_polynomial_division:
  "CRC32 bs = foldl (\<lambda>crc c. (crc_bit ^^ 8) (crc XOR ucast c)) 0 bs
    \<and> (CRC32 (xs @ a # ys) = CRC32 (xs @ b # ys) \<longleftrightarrow> a = b)
    \<and> CRC32 (replicate n 0 @ bs) = CRC32 bs"
proof (intro conjI)
  have z: "crc_byte 0 0 = 0" by (simp add: crc_byte_def eval_nat_numeral crc_bit_def)
  have "foldl crc_byte 0 (replicate n 0) = 0" by (induction n) (simp_all add: z)
  then show "CRC32 (replicate n 0 @ bs) = CRC32 bs" by (simp add: CRC32_bytes)
qed (simp_all add: CRC32_bytes crc_byte_def [abs_def] crc_tail_inj [unfolded crc_byte_def [abs_def]] crc_byte_inj [unfolded crc_byte_def])

end
