(* ===== verification/HashTable.thy ===== *)
theory HashTable
  imports Crc32
begin

text \<open>
  The hash table of the kernel (HashTable.h), a template over a definition with the hash functions, the comparison with a key and the link of a
  value, over the allocator, and over two flags. Values are addresses; the links of all values are one map. The functions of the
  definition are arguments of the operations, and so is the answer of the allocator.
\<close>

section \<open>State\<close>

record hashtable =
  curTableSize :: u32
  curItemCount :: u32
  storage :: "u32 list"
  HashTableNext :: "u32 \<Rightarrow> u32"

definition kMinimumSize :: u32 where
  "kMinimumSize = 8"

definition new_hashtable :: "(u32 \<Rightarrow> u32) \<Rightarrow> hashtable" where
  "new_hashtable links = \<lparr>curTableSize = 0, curItemCount = 0, storage = [], HashTableNext = links\<rparr>"

text \<open>The pointer to the buckets is null exactly as long as the size of the table is 0.\<close>

definition bucket_index :: "u32 \<Rightarrow> u32 \<Rightarrow> nat" where
  "bucket_index hash n = unat (hash AND (n - 1))"

definition bucket :: "hashtable \<Rightarrow> nat \<Rightarrow> fault + u32" where
  "bucket t i = (if curTableSize t = 0 then Inl NullPointer
     else if i < length (storage t) then Inr (storage t ! i) else Inl OutOfBounds)"

definition set_link :: "u32 \<Rightarrow> u32 \<Rightarrow> hashtable \<Rightarrow> hashtable" where
  "set_link v n t = t\<lparr>HashTableNext := (HashTableNext t)(v := n)\<rparr>"

section \<open>Operations\<close>

partial_function (option) lookup_loop :: "(u32 \<Rightarrow> bool) \<Rightarrow> (u32 \<Rightarrow> u32) \<Rightarrow> u32 \<Rightarrow> u32 option" where
  "lookup_loop cmp links slot =
     (if slot \<noteq> 0 then (if cmp slot then Some slot else lookup_loop cmp links (links slot)) else Some slot)"

definition hash_Lookup :: "('k \<Rightarrow> u32) \<Rightarrow> ('k \<Rightarrow> u32 \<Rightarrow> bool) \<Rightarrow> 'k \<Rightarrow> hashtable \<Rightarrow> (fault + u32) option" where
  "hash_Lookup HashKey Compare key t =
     (if curTableSize t = 0 then Some (Inr 0)
      else (case bucket t (bucket_index (HashKey key) (curTableSize t)) of Inl e \<Rightarrow> Some (Inl e)
        | Inr slot \<Rightarrow> Option.bind (lookup_loop (Compare key) (HashTableNext t) slot) (\<lambda>v. Some (Inr v))))"

text \<open>_Insert on a table that is not the current one yet: its buckets and the links.\<close>

definition insert_into :: "(u32 \<Rightarrow> u32) \<Rightarrow> u32 \<Rightarrow> u32 \<Rightarrow> u32 list \<times> (u32 \<Rightarrow> u32) \<Rightarrow> fault + u32 list \<times> (u32 \<Rightarrow> u32)" where
  "insert_into Hash n v = (\<lambda>(table, links).
     (let i = bucket_index (Hash v) n
      in if i < length table then Inr (table[i := v], links(v := table ! i)) else Inl OutOfBounds))"

partial_function (option) rehash_chain :: "(u32 \<Rightarrow> u32) \<Rightarrow> u32 \<Rightarrow> u32 \<Rightarrow> u32 list \<times> (u32 \<Rightarrow> u32) \<Rightarrow> (fault + u32 list \<times> (u32 \<Rightarrow> u32)) option" where
  "rehash_chain Hash n b st =
     (if b \<noteq> 0 then
        (let next = snd st b
         in case insert_into Hash n b st of Inl e \<Rightarrow> Some (Inl e) | Inr st \<Rightarrow> rehash_chain Hash n next st)
      else Some (Inr st))"

primrec rehash_all :: "(u32 \<Rightarrow> u32) \<Rightarrow> u32 \<Rightarrow> u32 list \<Rightarrow> u32 list \<times> (u32 \<Rightarrow> u32) \<Rightarrow> (fault + u32 list \<times> (u32 \<Rightarrow> u32)) option" where
  "rehash_all Hash n [] st = Some (Inr st)"
| "rehash_all Hash n (b # bs) st =
     Option.bind (rehash_chain Hash n b st) (\<lambda>r. case r of Inl e \<Rightarrow> Some (Inl e) | Inr st \<Rightarrow> rehash_all Hash n bs st)"

text \<open>_Resize with a new array of buckets.\<close>

definition resize_to :: "(u32 \<Rightarrow> u32) \<Rightarrow> u32 \<Rightarrow> hashtable \<Rightarrow> (fault + hashtable) option" where
  "resize_to Hash newSize t =
     Option.bind (rehash_all Hash newSize (storage t) (replicate (unat newSize) 0, HashTableNext t)) (\<lambda>r.
       Some (rbind r (\<lambda>(table, links). Inr (t\<lparr>curTableSize := newSize, storage := table, HashTableNext := links\<rparr>))))"

text \<open>_Resize with an allocation, which may fail; the result says whether it did not.\<close>

definition resize :: "(u32 \<Rightarrow> u32) \<Rightarrow> (u32 \<Rightarrow> bool) \<Rightarrow> u32 \<Rightarrow> hashtable \<Rightarrow> (fault + bool \<times> hashtable) option" where
  "resize Hash alloc newSize t =
     (if alloc (4 * newSize) then Option.bind (resize_to Hash newSize t) (\<lambda>r. Some (rbind r (\<lambda>t. Inr (True, t))))
      else Some (Inr (False, t)))"

partial_function (option) search_chain :: "u32 \<Rightarrow> (u32 \<Rightarrow> u32) \<Rightarrow> u32 \<Rightarrow> bool option" where
  "search_chain v links b = (if b \<noteq> 0 then (if b = v then Some True else search_chain v links (links b)) else Some False)"

primrec search_all :: "u32 \<Rightarrow> (u32 \<Rightarrow> u32) \<Rightarrow> u32 list \<Rightarrow> bool option" where
  "search_all v links [] = Some False"
| "search_all v links (b # bs) =
     Option.bind (search_chain v links b) (\<lambda>found. if found then Some True else search_all v links bs)"

definition ExhaustiveSearch :: "u32 \<Rightarrow> hashtable \<Rightarrow> bool option" where
  "ExhaustiveSearch v t = search_all v (HashTableNext t) (storage t)"

definition insert_value :: "(u32 \<Rightarrow> u32) \<Rightarrow> bool \<Rightarrow> u32 \<Rightarrow> hashtable \<Rightarrow> (fault + bool \<times> hashtable) option" where
  "insert_value Hash CheckDuplicates v t =
     Option.bind (if CheckDuplicates then ExhaustiveSearch v t else Some False) (\<lambda>found.
       if found then Some (Inl PanicDuplicate)
       else Some (rbind (insert_into Hash (curTableSize t) v (storage t, HashTableNext t)) (\<lambda>(table, links).
              Inr (True, t\<lparr>storage := table, HashTableNext := links, curItemCount := curItemCount t + 1\<rparr>))))"

definition hash_Insert :: "(u32 \<Rightarrow> u32) \<Rightarrow> bool \<Rightarrow> bool \<Rightarrow> (u32 \<Rightarrow> bool) \<Rightarrow> u32 \<Rightarrow> hashtable \<Rightarrow> (fault + bool \<times> hashtable) option" where
  "hash_Insert Hash AutoExpand CheckDuplicates alloc v t =
     (if curTableSize t = 0 then
        Option.bind (resize Hash alloc kMinimumSize t) (\<lambda>r.
          case r of Inl e \<Rightarrow> Some (Inl e)
          | Inr (grown, t) \<Rightarrow> if grown then insert_value Hash CheckDuplicates v t else Some (Inr (False, t)))
      else if AutoExpand \<and> curTableSize t * 200 div 256 \<le> curItemCount t then
        Option.bind (resize Hash alloc (curTableSize t * 2) t) (\<lambda>r.
          case r of Inl e \<Rightarrow> Some (Inl e) | Inr (_, t) \<Rightarrow> insert_value Hash CheckDuplicates v t)
      else insert_value Hash CheckDuplicates v t)"

text \<open>The loop of Remove: the value is unlinked where it is found; the result is the slot the loop ends at.\<close>

partial_function (option) remove_from :: "u32 \<Rightarrow> nat \<Rightarrow> u32 \<Rightarrow> u32 \<Rightarrow> hashtable \<Rightarrow> (u32 \<times> hashtable) option" where
  "remove_from v i previous slot t =
     (if slot \<noteq> 0 then
        (let next = HashTableNext t slot
         in if v = slot then
              Some (slot, if previous \<noteq> 0 then set_link previous next t else t\<lparr>storage := (storage t)[i := next]\<rparr>)
            else remove_from v i slot next t)
      else Some (slot, t))"

definition hash_Remove :: "(u32 \<Rightarrow> u32) \<Rightarrow> bool \<Rightarrow> bool \<Rightarrow> (u32 \<Rightarrow> bool) \<Rightarrow> u32 \<Rightarrow> hashtable \<Rightarrow> (fault + bool \<times> hashtable) option" where
  "hash_Remove Hash AutoExpand CheckDuplicates alloc v t =
     (let i = bucket_index (Hash v) (curTableSize t)
      in case bucket t i of Inl e \<Rightarrow> Some (Inl e) | Inr b \<Rightarrow>
         Option.bind (remove_from v i 0 b t) (\<lambda>(slot, t).
           if slot = 0 then Some (Inr (False, t))
           else Option.bind (if CheckDuplicates then ExhaustiveSearch v t else Some False) (\<lambda>found.
             if found then Some (Inl PanicDuplicate)
             else
               (let t = t\<lparr>curItemCount := curItemCount t - 1\<rparr>
                in if AutoExpand \<and> kMinimumSize < curTableSize t \<and> curItemCount t < curTableSize t * 50 div 256 then
                     Option.bind (resize Hash alloc (curTableSize t div 2) t) (\<lambda>r. Some (rbind r (\<lambda>(_, t). Inr (True, t))))
                   else Some (Inr (True, t))))))"

text \<open>
  Clear chains the lists of all buckets together when the elements are asked for: \<open>next\<close> is the element whose link is written next, 0 for the
  result. The item count stays.
\<close>

partial_function (option) last_element :: "(u32 \<Rightarrow> u32) \<Rightarrow> u32 \<Rightarrow> u32 option" where
  "last_element links e = (if links e \<noteq> 0 then last_element links (links e) else Some e)"

primrec chain_buckets :: "u32 list \<Rightarrow> u32 \<Rightarrow> u32 \<times> (u32 \<Rightarrow> u32) \<Rightarrow> (u32 \<times> (u32 \<Rightarrow> u32)) option" where
  "chain_buckets [] next rl = Some rl"
| "chain_buckets (b # bs) next rl =
     (if b \<noteq> 0 then
        (let (result, links) = rl;
             rl = (if next = 0 then (b, links) else (result, links(next := b)))
         in Option.bind (last_element (snd rl) b) (\<lambda>e. chain_buckets bs e rl))
      else chain_buckets bs next rl)"

definition hash_Clear :: "bool \<Rightarrow> hashtable \<Rightarrow> (u32 \<times> hashtable) option" where
  "hash_Clear returnElements t =
     (if curItemCount t = 0 then Some (0, t)
      else
        Option.bind (if returnElements then chain_buckets (storage t) 0 (0, HashTableNext t) else Some (0, HashTableNext t)) (\<lambda>(result, links).
          Some (result, t\<lparr>HashTableNext := links, storage := replicate (length (storage t)) 0\<rparr>)))"

partial_function (option) grow_size :: "u32 \<Rightarrow> u32 \<Rightarrow> u32 option" where
  "grow_size count n = (if n * 200 div 256 \<le> count then grow_size count (push_bit 1 n) else Some n)"

partial_function (option) shrink_size :: "u32 \<Rightarrow> u32 \<Rightarrow> u32 option" where
  "shrink_size count n = (if count < n * 50 div 256 then shrink_size count (drop_bit 1 n) else Some n)"

text \<open>The bytes of the table of the right size, 0 for the current one.\<close>

definition ResizeNeeded :: "hashtable \<Rightarrow> u32 option" where
  "ResizeNeeded t =
     Option.bind
       (if curTableSize t = 0 \<or> curTableSize t * 200 div 256 \<le> curItemCount t then
          grow_size (curItemCount t) (if curTableSize t = 0 then kMinimumSize else curTableSize t)
        else if kMinimumSize < curTableSize t \<and> curItemCount t < curTableSize t * 50 div 256 then
          Option.bind (shrink_size (curItemCount t) (curTableSize t)) (\<lambda>n. Some (if n < kMinimumSize then kMinimumSize else n))
        else Some (curTableSize t))
       (\<lambda>n. Some (if n = curTableSize t then 0 else n * 4))"

text \<open>Resize with a given array of a number of bytes: whether it was taken.\<close>

definition hash_Resize :: "(u32 \<Rightarrow> u32) \<Rightarrow> u32 \<Rightarrow> bool \<Rightarrow> hashtable \<Rightarrow> (fault + bool \<times> hashtable) option" where
  "hash_Resize Hash bytes force t =
     Option.bind (ResizeNeeded t) (\<lambda>needed.
       if \<not> force \<and> bytes \<noteq> needed then Some (Inr (False, t))
       else Option.bind (resize_to Hash (bytes div 4) t) (\<lambda>r. Some (rbind r (\<lambda>t. Inr (True, t)))))"

section \<open>Chains and buckets\<close>

primrec chained :: "(u32 \<Rightarrow> u32) \<Rightarrow> u32 \<Rightarrow> u32 list \<Rightarrow> bool" where
  "chained links h [] \<longleftrightarrow> h = 0"
| "chained links h (x # xs) \<longleftrightarrow> h = x \<and> x \<noteq> 0 \<and> chained links (links x) xs"

lemma chained_cong: "(\<And>x. x \<in> set xs \<Longrightarrow> links' x = links x) \<Longrightarrow> chained links' h xs = chained links h xs"
  by (induction xs arbitrary: h) auto

lemma chained_upd [simp]: "e \<notin> set xs \<Longrightarrow> chained (links(e := v)) h xs = chained links h xs"
  by (rule chained_cong) auto

lemma chained_zero: "chained links h xs \<Longrightarrow> 0 \<notin> set xs"
  by (induction xs arbitrary: h) auto

lemma chained_bypass:
  "chained links h (as @ v # bs) \<Longrightarrow> distinct (as @ v # bs) \<Longrightarrow> as \<noteq> [] \<Longrightarrow> chained (links(last as := links v)) h (as @ bs)"
proof (induction as arbitrary: h)
  case (Cons a as)
  let ?l = "links(last (a # as) := links v)"
  have a: "h = a" "a \<noteq> 0" "chained links (links a) (as @ v # bs)" using Cons.prems(1) by simp_all
  have "chained ?l (?l a) (as @ bs)"
  proof (cases "as = []")
    case True
    then have "?l a = links v" "a \<notin> set bs" "chained links (links v) bs" using a(3) Cons.prems(2) by auto
    then show ?thesis using True by simp
  next
    case False
    then have l: "last (a # as) = last as" "last as \<in> set as" by simp_all
    then have "last as \<noteq> a" using Cons.prems(2) by auto
    have e: "?l = links(last as := links v)" by (simp only: l(1))
    have la: "?l a = links a" unfolding e using \<open>last as \<noteq> a\<close> by simp
    show ?thesis unfolding la unfolding e by (rule Cons.IH [OF a(3) _ False]) (use Cons.prems(2) in simp)
  qed
  then show ?case unfolding append_Cons chained.simps using a(1,2) by blast
qed simp

definition buckets_ok :: "(u32 \<Rightarrow> u32) \<Rightarrow> u32 \<Rightarrow> u32 list \<Rightarrow> (u32 \<Rightarrow> u32) \<Rightarrow> (nat \<Rightarrow> u32 list) \<Rightarrow> bool" where
  "buckets_ok Hash n table links xs \<longleftrightarrow> (\<exists>m \<le> 30. unat n = 2 ^ m) \<and> length table = unat n \<and>
     (\<forall>i < unat n. chained links (table ! i) (xs i) \<and> distinct (xs i) \<and> (\<forall>v \<in> set (xs i). bucket_index (Hash v) n = i))"

definition members :: "u32 \<Rightarrow> (nat \<Rightarrow> u32 list) \<Rightarrow> u32 set" where
  "members n xs = (\<Union>i < unat n. set (xs i))"

text \<open>The state of a table that holds the values \<open>S\<close>.\<close>

definition table_inv :: "(u32 \<Rightarrow> u32) \<Rightarrow> hashtable \<Rightarrow> u32 set \<Rightarrow> bool" where
  "table_inv Hash t S \<longleftrightarrow>
     (curTableSize t = 0 \<and> storage t = [] \<and> curItemCount t = 0 \<and> S = {}) \<or>
     (\<exists>xs. buckets_ok Hash (curTableSize t) (storage t) (HashTableNext t) xs \<and> S = members (curTableSize t) xs \<and>
        curItemCount t = of_nat (card S))"

lemma index_below:
  assumes "unat n = 2 ^ m" "m \<le> 30"
  shows "bucket_index h n < unat n"
proof -
  have "(2 :: nat) ^ m \<le> 2 ^ 30" using assms(2) by (intro power_increasing) simp_all
  then have "(2 :: nat) ^ m < 4294967296" by (rule le_less_trans) simp
  then have "n = of_nat (2 ^ m)" using assms(1) by (metis of_nat_unat_same)
  then have "n - 1 = mask m" by (simp add: mask_eq_exp_minus_1)
  then have "bucket_index h n = unat (take_bit m h)" by (simp add: bucket_index_def take_bit_eq_mask)
  also have "\<dots> = take_bit m (unat h)" by (rule unsigned_take_bit_eq)
  also have "\<dots> < 2 ^ m" by simp
  finally show ?thesis using assms(1) by simp
qed

lemma buckets_okD:
  assumes "buckets_ok Hash n table links xs"
  shows "bucket_index h n < unat n" "length table = unat n" "n \<noteq> 0"
    "i < unat n \<Longrightarrow> chained links (table ! i) (xs i)" "i < unat n \<Longrightarrow> distinct (xs i)"
    "i < unat n \<Longrightarrow> v \<in> set (xs i) \<Longrightarrow> bucket_index (Hash v) n = i"
proof -
  obtain m where m: "unat n = 2 ^ m" "m \<le> 30" using assms by (auto simp: buckets_ok_def)
  show "bucket_index h n < unat n" by (rule index_below [OF m])
  have "unat n \<noteq> 0" using m(1) by (metis power_not_zero zero_neq_numeral)
  then show "n \<noteq> 0" by auto
qed (use assms in \<open>auto simp: buckets_ok_def\<close>)

lemma member_bucket:
  assumes "buckets_ok Hash n table links xs"
  shows "v \<in> members n xs \<longleftrightarrow> v \<in> set (xs (bucket_index (Hash v) n))"
  using buckets_okD(1,6) [OF assms] by (auto simp: members_def)

text \<open>A new value at the head of its bucket.\<close>

lemma insert_into_works:
  assumes b: "buckets_ok Hash n table links xs" and v: "v \<noteq> 0" "v \<notin> members n xs"
  shows "\<exists>table' links' xs'. insert_into Hash n v (table, links) = Inr (table', links') \<and> buckets_ok Hash n table' links' xs' \<and>
    members n xs' = insert v (members n xs) \<and> (\<forall>e. e \<noteq> v \<longrightarrow> links' e = links e)"
proof -
  let ?i = "bucket_index (Hash v) n"
  let ?xs = "xs(?i := v # xs ?i)"
  note d = buckets_okD [OF b]
  have i: "?i < unat n" by (rule d(1))
  have nv: "v \<notin> set (xs j)" if "j < unat n" for j using v(2) that by (auto simp: members_def)
  have "buckets_ok Hash n (table[?i := v]) (links(v := table ! ?i)) ?xs"
    unfolding buckets_ok_def
  proof (intro conjI allI impI)
    show "\<exists>m \<le> 30. unat n = 2 ^ m" using b by (simp add: buckets_ok_def)
    fix j assume j: "j < unat n"
    show "chained (links(v := table ! ?i)) (table[?i := v] ! j) (?xs j)"
      using d(2,4) j nv [OF j] nv [OF i] i v(1) by (cases "j = ?i") simp_all
    show "distinct (?xs j)" using d(5) [OF j] nv [OF j] by auto
    show "\<forall>e \<in> set (?xs j). bucket_index (Hash e) n = j" using d(6) [OF j] by auto
  qed (use d(2) in simp)
  moreover have "members n ?xs = insert v (members n xs)" using i by (auto simp: members_def split: if_splits)
  ultimately show ?thesis using i d(2) by (simp add: insert_into_def Let_def) fastforce
qed

lemma rehash_chain_works:
  assumes "chained links b zs" "distinct zs" "buckets_ok Hash n table links xs" "set zs \<inter> members n xs = {}"
  shows "\<exists>table' links' xs'. rehash_chain Hash n b (table, links) = Some (Inr (table', links')) \<and> buckets_ok Hash n table' links' xs' \<and>
    members n xs' = set zs \<union> members n xs \<and> (\<forall>e. e \<notin> set zs \<longrightarrow> links' e = links e)"
  using assms
proof (induction zs arbitrary: b table links xs)
  case Nil
  then show ?case by (subst rehash_chain.simps) auto
next
  case (Cons z zs)
  have z: "b = z" "z \<noteq> 0" "z \<notin> members n xs" "z \<notin> set zs" using Cons.prems by auto
  obtain table1 links1 xs1 where i: "insert_into Hash n z (table, links) = Inr (table1, links1)" "buckets_ok Hash n table1 links1 xs1"
      "members n xs1 = insert z (members n xs)" "\<forall>e. e \<noteq> z \<longrightarrow> links1 e = links e"
    using insert_into_works [OF Cons.prems(3) z(2,3)] by blast
  have "chained links1 (links z) zs = chained links (links z) zs" by (rule chained_cong) (use i(4) z(4) in auto)
  then have "chained links1 (links z) zs" using Cons.prems(1) by simp
  moreover have "set zs \<inter> members n xs1 = {}" using Cons.prems(4) i(3) z(4) by auto
  ultimately obtain table' links' xs' where r: "rehash_chain Hash n (links z) (table1, links1) = Some (Inr (table', links'))"
      "buckets_ok Hash n table' links' xs'" "members n xs' = set zs \<union> members n xs1" "\<forall>e. e \<notin> set zs \<longrightarrow> links' e = links1 e"
    using Cons.IH [of links1 "links z" table1 xs1] Cons.prems(2) i(2) by auto
  have "rehash_chain Hash n b (table, links) = Some (Inr (table', links'))"
    using z(1,2) i(1) r(1) by (subst rehash_chain.simps) (simp add: Let_def)
  then show ?case using r(2-4) i(3,4) by (intro exI [of _ table'] exI [of _ links'] exI [of _ xs']) auto
qed

lemma rehash_all_works:
  assumes "list_all2 (chained links) bs zss" "distinct (concat zss)" "buckets_ok Hash n table links xs" "set (concat zss) \<inter> members n xs = {}"
  shows "\<exists>table' links' xs'. rehash_all Hash n bs (table, links) = Some (Inr (table', links')) \<and> buckets_ok Hash n table' links' xs' \<and>
    members n xs' = set (concat zss) \<union> members n xs"
  using assms
proof (induction zss arbitrary: bs table links xs rule: list.induct)
  case Nil
  then have "bs = []" using list_all2_lengthD [OF Nil(1)] by simp
  then show ?case using Nil(3) by auto
next
  case (Cons zs zss)
  obtain b cs where bs: "bs = b # cs" "chained links b zs" "list_all2 (chained links) cs zss" using Cons.prems(1) by (auto simp: list_all2_Cons2)
  have dis: "distinct zs" "distinct (concat zss)" "set zs \<inter> set (concat zss) = {}" using Cons.prems(2) by auto
  have "set zs \<inter> members n xs = {}" using Cons.prems(4) by auto
  from rehash_chain_works [OF bs(2) dis(1) Cons.prems(3) this]
  obtain table1 links1 xs1 where i: "rehash_chain Hash n b (table, links) = Some (Inr (table1, links1))" "buckets_ok Hash n table1 links1 xs1"
      "members n xs1 = set zs \<union> members n xs" "\<forall>e. e \<notin> set zs \<longrightarrow> links1 e = links e" by blast
  have "list_all2 (chained links1) cs zss"
    unfolding list_all2_conv_all_nth
  proof (intro conjI allI impI)
    show "length cs = length zss" using bs(3) by (rule list_all2_lengthD)
    fix j assume j: "j < length cs"
    then have "zss ! j \<in> set zss" using bs(3) by (simp add: list_all2_lengthD)
    then have "\<And>e. e \<in> set (zss ! j) \<Longrightarrow> links1 e = links e" using dis(3) i(4) by auto
    then have "chained links1 (cs ! j) (zss ! j) = chained links (cs ! j) (zss ! j)" by (rule chained_cong)
    then show "chained links1 (cs ! j) (zss ! j)" using list_all2_nthD [OF bs(3) j] by simp
  qed
  moreover have "set (concat zss) \<inter> members n xs1 = {}" using Cons.prems(4) dis(3) i(3) by auto
  ultimately obtain table' links' xs' where r: "rehash_all Hash n cs (table1, links1) = Some (Inr (table', links'))"
      "buckets_ok Hash n table' links' xs'" "members n xs' = set (concat zss) \<union> members n xs1"
    using Cons.IH [of links1 cs table1 xs1] dis(2) i(2) by blast
  then show ?case using i(1,3) by (intro exI [of _ table'] exI [of _ links'] exI [of _ xs']) (auto simp: bs(1))
qed

section \<open>The operations on the set of values\<close>

lemma buckets_distinct:
  assumes "buckets_ok Hash n table links xs" "k \<le> unat n"
  shows "distinct (concat (map xs [0..<k])) \<and> (\<forall>v \<in> set (concat (map xs [0..<k])). bucket_index (Hash v) n < k)"
  using assms(2)
proof (induction k)
  case (Suc k)
  then show ?case using buckets_okD(5,6) [OF assms(1), of k] by fastforce
qed simp

lemma table_empty_or_buckets:
  assumes "table_inv Hash t S"
  shows "\<exists>zss. list_all2 (chained (HashTableNext t)) (storage t) zss \<and> distinct (concat zss) \<and> set (concat zss) = S"
proof (cases "curTableSize t = 0 \<and> storage t = [] \<and> S = {}")
  case True
  then show ?thesis by (intro exI [of _ "[]"]) simp
next
  case False
  then obtain xs where x: "buckets_ok Hash (curTableSize t) (storage t) (HashTableNext t) xs" "S = members (curTableSize t) xs"
    using assms by (auto simp: table_inv_def)
  let ?zss = "map xs [0..<unat (curTableSize t)]"
  have "list_all2 (chained (HashTableNext t)) (storage t) ?zss"
    using buckets_okD(2,4) [OF x(1)] by (simp add: list_all2_conv_all_nth)
  moreover have "set (concat ?zss) = S" by (auto simp: x(2) members_def)
  ultimately show ?thesis using buckets_distinct [OF x(1) order_refl] by blast
qed

lemma table_count: "table_inv Hash t S \<Longrightarrow> curItemCount t = of_nat (card S)"
  by (auto simp: table_inv_def)

lemma empty_buckets:
  assumes "unat n = 2 ^ m" "m \<le> 30"
  shows "buckets_ok Hash n (replicate (unat n) 0) links (\<lambda>_. [])" "members n (\<lambda>_. []) = {}"
  using assms by (auto simp: buckets_ok_def members_def)

lemma resize_to_works:
  assumes "table_inv Hash t S" "unat n = 2 ^ m" "m \<le> 30"
  shows "\<exists>t'. resize_to Hash n t = Some (Inr t') \<and> table_inv Hash t' S \<and> curTableSize t' = n \<and> curItemCount t' = curItemCount t"
proof -
  obtain zss where z: "list_all2 (chained (HashTableNext t)) (storage t) zss" "distinct (concat zss)" "set (concat zss) = S"
    using table_empty_or_buckets [OF assms(1)] by blast
  note e = empty_buckets(1) [OF assms(2,3), of Hash "HashTableNext t"] empty_buckets(2) [OF assms(2,3)]
  obtain table links xs where r: "rehash_all Hash n (storage t) (replicate (unat n) 0, HashTableNext t) = Some (Inr (table, links))"
      "buckets_ok Hash n table links xs" "members n xs = S"
    using rehash_all_works [OF z(1,2) e(1)] e(2) z(3) by auto
  then show ?thesis using table_count [OF assms(1)] by (auto simp: resize_to_def table_inv_def)
qed

lemma resize_works:
  assumes "table_inv Hash t S" "unat n = 2 ^ m" "m \<le> 30"
  shows "\<exists>t'. resize Hash alloc n t = Some (Inr (alloc (4 * n), t')) \<and> table_inv Hash t' S \<and>
    curTableSize t' = (if alloc (4 * n) then n else curTableSize t) \<and> curItemCount t' = curItemCount t"
  using resize_to_works [OF assms] assms(1) by (auto simp: resize_def)

lemma lookup_loop_finds:
  "chained links b xs \<Longrightarrow> \<exists>v. lookup_loop cmp links b = Some v \<and> (v = 0 \<and> (\<forall>x \<in> set xs. \<not> cmp x) \<or> v \<in> set xs \<and> cmp v)"
proof (induction xs arbitrary: b)
  case Nil
  then show ?case by (subst lookup_loop.simps) simp
next
  case (Cons x xs)
  then obtain v where "lookup_loop cmp links (links x) = Some v" "v = 0 \<and> (\<forall>x \<in> set xs. \<not> cmp x) \<or> v \<in> set xs \<and> cmp v" by auto
  then show ?case using Cons.prems by (subst lookup_loop.simps) auto
qed

text \<open>The law the code relies on: a value that compares equal to a key has the hash of the key.\<close>

lemma Lookup_works:
  assumes "table_inv Hash t S" "\<And>k v. Compare k v \<Longrightarrow> Hash v = HashKey k"
  shows "\<exists>v. hash_Lookup HashKey Compare key t = Some (Inr v) \<and> (v = 0 \<and> (\<forall>x \<in> S. \<not> Compare key x) \<or> v \<in> S \<and> Compare key v)"
proof (cases "curTableSize t = 0")
  case True
  then have "S = {}" using assms(1) by (auto simp: table_inv_def members_def)
  then show ?thesis using True by (simp add: hash_Lookup_def)
next
  case False
  then obtain xs where x: "buckets_ok Hash (curTableSize t) (storage t) (HashTableNext t) xs" "S = members (curTableSize t) xs"
    using assms(1) by (auto simp: table_inv_def)
  let ?i = "bucket_index (HashKey key) (curTableSize t)"
  have d: "?i < unat (curTableSize t)" "length (storage t) = unat (curTableSize t)" "chained (HashTableNext t) (storage t ! ?i) (xs ?i)"
    using buckets_okD [OF x(1)] by simp_all
  obtain v where v: "lookup_loop (Compare key) (HashTableNext t) (storage t ! ?i) = Some v"
      "v = 0 \<and> (\<forall>x \<in> set (xs ?i). \<not> Compare key x) \<or> v \<in> set (xs ?i) \<and> Compare key v"
    using lookup_loop_finds [OF d(3), of "Compare key"] by blast
  have "\<not> Compare key e" if "v = 0" "e \<in> S" for e
  proof
    assume c: "Compare key e"
    have "e \<in> set (xs (bucket_index (Hash e) (curTableSize t)))" using that(2) unfolding x(2) member_bucket [OF x(1)] .
    then have "e \<in> set (xs ?i)" unfolding assms(2) [OF c] .
    moreover have "0 \<notin> set (xs ?i)" by (rule chained_zero [OF d(3)])
    ultimately show False using v(2) c that(1) by blast
  qed
  moreover have "set (xs ?i) \<subseteq> S" using d(1) by (auto simp: x(2) members_def)
  moreover have "hash_Lookup HashKey Compare key t = Some (Inr v)" using False v(1) d(1,2) by (simp add: hash_Lookup_def bucket_def)
  ultimately show ?thesis using v(2) by (intro exI [of _ v]) blast
qed

lemma search_chain_finds: "chained links b xs \<Longrightarrow> search_chain v links b = Some (v \<in> set xs)"
proof (induction xs arbitrary: b)
  case Nil
  then show ?case by (subst search_chain.simps) simp
next
  case (Cons x xs)
  then show ?case by (subst search_chain.simps) auto
qed

lemma ExhaustiveSearch_finds:
  assumes "table_inv Hash t S"
  shows "ExhaustiveSearch v t = Some (v \<in> S)"
proof -
  have "search_all v links bs = Some (v \<in> set (concat zss))" if "list_all2 (chained links) bs zss" for links bs zss
    using that by (induction rule: list_all2_induct) (simp_all add: search_chain_finds)
  then show ?thesis using table_empty_or_buckets [OF assms] by (auto simp: ExhaustiveSearch_def)
qed

lemma table_finite: "table_inv Hash t S \<Longrightarrow> finite S"
  by (auto simp: table_inv_def members_def)

lemma insert_value_works:
  assumes "table_inv Hash t S" "curTableSize t \<noteq> 0" "v \<noteq> 0" "v \<notin> S"
  shows "\<exists>t'. insert_value Hash cd v t = Some (Inr (True, t')) \<and> table_inv Hash t' (insert v S)"
proof -
  obtain xs where x: "buckets_ok Hash (curTableSize t) (storage t) (HashTableNext t) xs" "S = members (curTableSize t) xs"
    using assms(1,2) by (auto simp: table_inv_def)
  have "v \<notin> members (curTableSize t) xs" using assms(4) x(2) by simp
  from insert_into_works [OF x(1) assms(3) this]
  obtain table links xs' where i: "insert_into Hash (curTableSize t) v (storage t, HashTableNext t) = Inr (table, links)"
      "buckets_ok Hash (curTableSize t) table links xs'" "members (curTableSize t) xs' = insert v S"
    using x(2) by blast
  let ?t = "t\<lparr>storage := table, HashTableNext := links, curItemCount := curItemCount t + 1\<rparr>"
  have "insert_value Hash cd v t = Some (Inr (True, ?t))"
    using ExhaustiveSearch_finds [OF assms(1), of v] assms(4) i(1) by (simp add: insert_value_def)
  moreover have "table_inv Hash ?t (insert v S)"
    unfolding table_inv_def
    by (rule disjI2, intro exI [of _ xs'])
      (use i(2,3) table_count [OF assms(1)] table_finite [OF assms(1)] assms(4) in \<open>simp add: card_insert_if\<close>)
  ultimately show ?thesis by blast
qed

lemma table_size:
  assumes "table_inv Hash t S" "curTableSize t \<noteq> 0"
  shows "\<exists>m \<le> 30. unat (curTableSize t) = 2 ^ m"
  using assms by (auto simp: table_inv_def buckets_ok_def)

lemma Insert_works:
  assumes "table_inv Hash t S" "v \<noteq> 0" "v \<notin> S" "unat (curTableSize t) < 2 ^ 30"
  shows "if curTableSize t = 0 \<and> \<not> alloc 32 then hash_Insert Hash ae cd alloc v t = Some (Inr (False, t))
    else \<exists>t'. hash_Insert Hash ae cd alloc v t = Some (Inr (True, t')) \<and> table_inv Hash t' (insert v S)"
proof (cases "curTableSize t = 0")
  case True
  have "unat kMinimumSize = 2 ^ 3" by (simp add: kMinimumSize_def)
  from resize_works [OF assms(1) this, of alloc] obtain t' where t': "resize Hash alloc kMinimumSize t = Some (Inr (alloc 32, t'))"
      "table_inv Hash t' S" "curTableSize t' = (if alloc 32 then kMinimumSize else 0)" using True by (auto simp: kMinimumSize_def)
  show ?thesis
  proof (cases "alloc 32")
    case True
    then have "curTableSize t' \<noteq> 0" using t'(3) by (simp add: kMinimumSize_def)
    from insert_value_works [OF t'(2) this assms(2,3)] True t'(1) \<open>curTableSize t = 0\<close> show ?thesis by (auto simp: hash_Insert_def)
  next
    case False
    then have "t' = t" using t'(1) by (simp add: resize_def kMinimumSize_def)
    then show ?thesis using False t'(1) True by (simp add: hash_Insert_def)
  qed
next
  case nz: False
  show ?thesis
  proof (cases "ae \<and> curTableSize t * 200 div 256 \<le> curItemCount t")
    case True
    obtain m where m: "unat (curTableSize t) = 2 ^ m" using table_size [OF assms(1) nz] by blast
    have "m < 30"
    proof (rule ccontr)
      assume "\<not> m < 30"
      then have "(2 :: nat) ^ 30 \<le> 2 ^ m" by (intro power_increasing) simp_all
      then show False using assms(4) m by linarith
    qed
    have "unat (curTableSize t * 2) = 2 ^ Suc m"
    proof -
      have "(2 :: nat) ^ Suc m \<le> 2 ^ 30" using \<open>m < 30\<close> by (intro power_increasing) simp_all
      then have "(2 :: nat) ^ Suc m < 4294967296" by (rule le_less_trans) simp
      then show ?thesis using m by (simp add: unat_word_ariths take_bit_nat_eq_self mult.commute)
    qed
    moreover have "Suc m \<le> 30" using \<open>m < 30\<close> by simp
    ultimately obtain t' where t': "resize Hash alloc (curTableSize t * 2) t = Some (Inr (alloc (4 * (curTableSize t * 2)), t'))"
        "table_inv Hash t' S" "curTableSize t' = (if alloc (4 * (curTableSize t * 2)) then curTableSize t * 2 else curTableSize t)"
      using resize_works [OF assms(1)] by blast
    have "curTableSize t' \<noteq> 0"
    proof
      assume "curTableSize t' = 0"
      then have "unat (curTableSize t * 2) = 0" using t'(3) nz by (simp split: if_splits)
      then show False using \<open>unat (curTableSize t * 2) = 2 ^ Suc m\<close> by (metis power_not_zero zero_neq_numeral)
    qed
    from insert_value_works [OF t'(2) this assms(2,3)] nz True t'(1) show ?thesis by (auto simp: hash_Insert_def)
  next
    case False
    have "hash_Insert Hash ae cd alloc v t = insert_value Hash cd v t" using nz False by (simp add: hash_Insert_def del: de_Morgan_conj)
    then show ?thesis using insert_value_works [OF assms(1) nz assms(2,3)] nz by simp
  qed
qed

section \<open>Removal\<close>

lemma remove_from_misses:
  "chained (HashTableNext t) slot zs \<Longrightarrow> v \<notin> set zs \<Longrightarrow> remove_from v i prev slot t = Some (0, t)"
proof (induction zs arbitrary: prev slot)
  case Nil
  then show ?case by (subst remove_from.simps) simp
next
  case (Cons z zs)
  then show ?case by (subst remove_from.simps) (simp add: Let_def)
qed

lemma remove_from_finds:
  "chained (HashTableNext t) slot (as @ v # bs) \<Longrightarrow> v \<notin> set as \<Longrightarrow>
    remove_from v i prev slot t = Some (v, if last (prev # as) \<noteq> 0 then set_link (last (prev # as)) (HashTableNext t v) t
      else t\<lparr>storage := (storage t)[i := HashTableNext t v]\<rparr>)"
proof (induction as arbitrary: prev slot)
  case Nil
  then show ?case by (subst remove_from.simps) (simp add: Let_def)
next
  case (Cons a as)
  then have "remove_from v i prev slot t = remove_from v i a (HashTableNext t a) t" by (subst remove_from.simps) (simp add: Let_def)
  then show ?case using Cons.IH [of "HashTableNext t a" a] Cons.prems by (cases as) simp_all
qed

lemma unlink_works:
  assumes b: "buckets_ok Hash n table links xs" and i: "i < unat n" and x: "xs i = as @ v # bs"
  shows "buckets_ok Hash n (if as = [] then table[i := links v] else table) (if as = [] then links else links(last as := links v)) (xs(i := as @ bs))"
    "members n (xs(i := as @ bs)) = members n xs - {v}"
proof -
  note d = buckets_okD [OF b]
  have vi: "bucket_index (Hash e) n = i" if "e \<in> set (as @ v # bs)" for e using d(6) [OF i] that x by simp
  have ne: "e \<notin> set (xs j)" if "j < unat n" "j \<noteq> i" "e \<in> set (as @ v # bs)" for e j
    using d(6) [OF that(1)] vi that by auto
  have dis: "distinct (as @ v # bs)" and ch: "chained links (table ! i) (as @ v # bs)" using d(4,5) [OF i] x by simp_all
  let ?links = "if as = [] then links else links(last as := links v)" and ?table = "if as = [] then table[i := links v] else table"
  have "chained ?links (?table ! j) ((xs(i := as @ bs)) j)" if j: "j < unat n" for j
  proof (cases "j = i")
    case True
    show ?thesis
    proof (cases "as = []")
      case t: True
      then show ?thesis using True ch i d(2) by simp
    next
      case False
      then show ?thesis using True chained_bypass [OF ch dis False] by simp
    qed
  next
    case False
    then have "last as \<notin> set (xs j)" if "as \<noteq> []" using ne [OF j False, of "last as"] that by simp
    then show ?thesis using False d(4) [OF j] by simp
  qed
  moreover have "distinct ((xs(i := as @ bs)) j) \<and> (\<forall>e \<in> set ((xs(i := as @ bs)) j). bucket_index (Hash e) n = j)" if "j < unat n" for j
    using d(5,6) [OF that] dis vi by (cases "j = i") auto
  ultimately show "buckets_ok Hash n ?table ?links (xs(i := as @ bs))" using b by (auto simp: buckets_ok_def)
  show "members n (xs(i := as @ bs)) = members n xs - {v}"
  proof -
    let ?rest = "\<Union>j \<in> {..<unat n} - {i}. set (xs j)"
    have "members n ys = set (ys i) \<union> (\<Union>j \<in> {..<unat n} - {i}. set (ys j))" for ys using i by (auto simp: members_def)
    then have e: "members n (xs(i := as @ bs)) = set (as @ bs) \<union> ?rest" "members n xs = set (as @ v # bs) \<union> ?rest" by (simp_all add: x)
    have "v \<notin> set (xs j)" if "j < unat n" "j \<noteq> i" for j by (rule ne [OF that]) simp
    then have nr: "v \<notin> ?rest" by blast
    have "set (as @ bs) = set (as @ v # bs) - {v}" using dis by auto
    then show ?thesis unfolding e using nr by blast
  qed
qed

lemma search_count [simp]: "ExhaustiveSearch v (t\<lparr>curItemCount := c\<rparr>) = ExhaustiveSearch v t"
  by (simp add: ExhaustiveSearch_def)

lemma unlinked_value:
  assumes "table_inv Hash t S" "curTableSize t \<noteq> 0" "v \<in> S"
  shows "\<exists>b t1. bucket t (bucket_index (Hash v) (curTableSize t)) = Inr b \<and>
    remove_from v (bucket_index (Hash v) (curTableSize t)) 0 b t = Some (v, t1) \<and> v \<noteq> 0 \<and> curItemCount t1 = curItemCount t \<and>
    curTableSize t1 = curTableSize t \<and> table_inv Hash (t1\<lparr>curItemCount := curItemCount t - 1\<rparr>) (S - {v})"
proof -
  obtain xs where x: "buckets_ok Hash (curTableSize t) (storage t) (HashTableNext t) xs" "S = members (curTableSize t) xs"
    using assms(1,2) by (auto simp: table_inv_def)
  let ?i = "bucket_index (Hash v) (curTableSize t)"
  have d: "?i < unat (curTableSize t)" "length (storage t) = unat (curTableSize t)" "chained (HashTableNext t) (storage t ! ?i) (xs ?i)"
      "distinct (xs ?i)" using buckets_okD [OF x(1)] by simp_all
  have "v \<in> set (xs ?i)" using assms(3) unfolding x(2) member_bucket [OF x(1)] .
  then obtain as bs where as: "xs ?i = as @ v # bs" "v \<notin> set as" by (auto dest: split_list_first)
  have nz: "0 \<notin> set (xs ?i)" by (rule chained_zero [OF d(3)])
  let ?t1 = "if as = [] then t\<lparr>storage := (storage t)[?i := HashTableNext t v]\<rparr> else set_link (last as) (HashTableNext t v) t"
  have "last as \<noteq> 0" if "as \<noteq> []" using nz as(1) last_in_set [OF that] by (intro notI) simp
  then have r: "remove_from v ?i 0 (storage t ! ?i) t = Some (v, ?t1)"
    using remove_from_finds [of t "storage t ! ?i" as v bs ?i 0] d(3) as by simp
  note u = unlink_works [OF x(1) d(1) as(1)]
  have "of_nat (card (S - {v})) = (of_nat (card S) - 1 :: u32)"
    using assms(3) table_finite [OF assms(1)] card_gt_0_iff [of S] by (auto simp: of_nat_diff)
  then have "table_inv Hash (?t1\<lparr>curItemCount := curItemCount t - 1\<rparr>) (S - {v})"
    unfolding table_inv_def using u table_count [OF assms(1)] x(2)
    by (intro disjI2 exI [of _ "xs(?i := as @ bs)"]) (cases "as = []"; simp add: set_link_def)
  moreover have "curItemCount ?t1 = curItemCount t" "curTableSize ?t1 = curTableSize t" by (simp_all add: set_link_def)
  moreover have "bucket t ?i = Inr (storage t ! ?i)" using assms(2) d(1,2) by (simp add: bucket_def)
  moreover have "v \<noteq> 0" using nz as(1) by auto
  ultimately show ?thesis using r by blast
qed

lemma Remove_works:
  assumes "table_inv Hash t S" "curTableSize t \<noteq> 0"
  shows "if v \<in> S then \<exists>t'. hash_Remove Hash ae cd alloc v t = Some (Inr (True, t')) \<and> table_inv Hash t' (S - {v})
    else hash_Remove Hash ae cd alloc v t = Some (Inr (False, t))"
proof (cases "v \<in> S")
  case False
  obtain xs where x: "buckets_ok Hash (curTableSize t) (storage t) (HashTableNext t) xs" "S = members (curTableSize t) xs"
    using assms by (auto simp: table_inv_def)
  let ?i = "bucket_index (Hash v) (curTableSize t)"
  have d: "?i < unat (curTableSize t)" "length (storage t) = unat (curTableSize t)" "chained (HashTableNext t) (storage t ! ?i) (xs ?i)"
    using buckets_okD [OF x(1)] by simp_all
  have "v \<notin> set (xs ?i)" using False unfolding x(2) member_bucket [OF x(1)] .
  then show ?thesis using False remove_from_misses [OF d(3)] d(1,2) assms(2) by (simp add: hash_Remove_def bucket_def Let_def)
next
  case True
  let ?i = "bucket_index (Hash v) (curTableSize t)"
  obtain b t1 where r: "bucket t ?i = Inr b" "remove_from v ?i 0 b t = Some (v, t1)" "v \<noteq> 0" "curItemCount t1 = curItemCount t"
      "curTableSize t1 = curTableSize t" "table_inv Hash (t1\<lparr>curItemCount := curItemCount t - 1\<rparr>) (S - {v})"
    using unlinked_value [OF assms True] by blast
  let ?t2 = "t1\<lparr>curItemCount := curItemCount t - 1\<rparr>"
  have s: "(if cd then ExhaustiveSearch v t1 else Some False) = Some False" using ExhaustiveSearch_finds [OF r(6), of v] by simp
  show ?thesis
  proof (cases "ae \<and> kMinimumSize < curTableSize ?t2 \<and> curItemCount ?t2 < curTableSize ?t2 * 50 div 256")
    case c: True
    obtain m where m: "unat (curTableSize t) = 2 ^ m" "m \<le> 30" using table_size [OF assms] by blast
    have "m \<noteq> 0"
    proof
      assume "m = 0"
      then show False using c m(1) r(5) by (simp add: kMinimumSize_def word_less_nat_alt)
    qed
    then have half: "unat (curTableSize ?t2 div 2) = 2 ^ (m - 1)" using m(1) r(5) by (cases m) (simp_all add: unat_div)
    have "m - 1 \<le> 30" using m(2) by simp
    from resize_works [OF r(6) half this, of alloc] obtain t' where t': "resize Hash alloc (curTableSize ?t2 div 2) ?t2 = Some (Inr (alloc (4 * (curTableSize ?t2 div 2)), t'))" "table_inv Hash t' (S - {v})" by blast
    have "hash_Remove Hash ae cd alloc v t = Some (Inr (True, t'))"
      unfolding hash_Remove_def Let_def r(1) using r(2-5) s c t'(1) by simp
    then show ?thesis using True t'(2) by simp
  next
    case c: False
    have "hash_Remove Hash ae cd alloc v t = Some (Inr (True, ?t2))"
      unfolding hash_Remove_def Let_def r(1) using r(2-5) s c by (auto simp del: de_Morgan_conj)
    then show ?thesis using True r(6) by auto
  qed
qed

section \<open>Clear\<close>

lemma last_element_last: "chained links b zs \<Longrightarrow> zs \<noteq> [] \<Longrightarrow> last_element links b = Some (last zs)"
proof (induction zs arbitrary: b)
  case (Cons z zs)
  show ?case
  proof (cases zs)
    case Nil
    then show ?thesis using Cons.prems by (subst last_element.simps) simp
  next
    case (Cons y ys)
    then show ?thesis using Cons.prems Cons.IH [of "links z"] by (subst last_element.simps) simp
  qed
qed simp

lemma chained_join:
  "chained links r ws \<Longrightarrow> ws \<noteq> [] \<Longrightarrow> chained links b zs \<Longrightarrow> distinct (ws @ zs) \<Longrightarrow> chained (links(last ws := b)) r (ws @ zs)"
proof (induction ws arbitrary: r)
  case (Cons w ws)
  show ?case
  proof (cases ws)
    case Nil
    have "chained (links(w := b)) b zs" using Cons.prems(3,4) by (subst chained_upd) simp_all
    then show ?thesis using Cons.prems(1) by (simp add: Nil fun_upd_same del: chained_upd fun_upd_apply)
  next
    case (Cons y ys)
    then have ne: "ws \<noteq> []" by simp
    then have "last ws \<in> set ws" by simp
    then have "last ws \<noteq> w" using Cons.prems(4) by auto
    have e: "links(last (w # ws) := b) = links(last ws := b)" using ne by simp
    have la: "(links(last ws := b)) w = links w" using \<open>last ws \<noteq> w\<close> by simp
    have "chained (links(last ws := b)) (links w) (ws @ zs)" by (rule Cons.IH) (use Cons.prems ne in simp_all)
    then show ?thesis using Cons.prems(1) unfolding e append_Cons chained.simps la by blast
  qed
qed simp

lemma chain_buckets_works:
  assumes "chained links result ws" "next = (if ws = [] then 0 else last ws)" "list_all2 (chained links) bs zss" "distinct (ws @ concat zss)"
  shows "\<exists>result' links' zs. chain_buckets bs next (result, links) = Some (result', links') \<and> chained links' result' zs \<and>
    set zs = set ws \<union> set (concat zss) \<and> distinct zs"
  using assms
proof (induction zss arbitrary: bs links result ws "next" rule: list.induct)
  case Nil
  then have "bs = []" using list_all2_lengthD [OF Nil(3)] by simp
  then show ?case using Nil by auto
next
  case (Cons zs zss)
  obtain b cs where bs: "bs = b # cs" "chained links b zs" "list_all2 (chained links) cs zss" using Cons.prems(3) by (auto simp: list_all2_Cons2)
  show ?case
  proof (cases zs)
    case Nil
    then have "b = 0" using bs(2) by simp
    then show ?thesis using Cons.IH [OF Cons.prems(1,2) bs(3)] Cons.prems(4) Nil bs(1) by simp
  next
    case c: (Cons z zs')
    then have b: "b \<noteq> 0" "zs \<noteq> []" using bs(2) by auto
    let ?links = "if ws = [] then links else links(last ws := b)" and ?result = "if ws = [] then b else result"
    have nz: "last ws \<noteq> 0" if "ws \<noteq> []" using chained_zero [OF Cons.prems(1)] last_in_set [OF that] by (intro notI) simp
    have lw: "last ws \<notin> set (concat (zs # zss))" if "ws \<noteq> []" using last_in_set [OF that] Cons.prems(4) by auto
    have "distinct (ws @ zs)" using Cons.prems(4) by auto
    then have "chained ?links ?result (ws @ zs)"
      using bs(2) chained_join [OF Cons.prems(1) _ bs(2)] by (cases "ws = []") simp_all
    moreover have "last (ws @ zs) = last zs" "ws @ zs \<noteq> []" using b(2) by simp_all
    moreover have "list_all2 (chained ?links) cs zss"
      unfolding list_all2_conv_all_nth
    proof (intro conjI allI impI)
      show "length cs = length zss" using bs(3) by (rule list_all2_lengthD)
      fix j assume j: "j < length cs"
      then have "zss ! j \<in> set zss" using bs(3) by (simp add: list_all2_lengthD)
      then have "\<And>e. e \<in> set (zss ! j) \<Longrightarrow> ?links e = links e" using lw by auto
      then have "chained ?links (cs ! j) (zss ! j) = chained links (cs ! j) (zss ! j)" by (rule chained_cong)
      then show "chained ?links (cs ! j) (zss ! j)" using list_all2_nthD [OF bs(3) j] by simp
    qed
    ultimately obtain result' links' us where r: "chain_buckets cs (last zs) (?result, ?links) = Some (result', links')" "chained links' result' us"
        "set us = set (ws @ zs) \<union> set (concat zss)" "distinct us"
      using Cons.IH [of ?links ?result "ws @ zs" "last zs" cs] Cons.prems(4) by auto
    have "chained ?links b zs = chained links b zs" by (rule chained_cong) (use lw in auto)
    then have "last_element ?links b = Some (last zs)" using last_element_last bs(2) b(2) by blast
    then have "chain_buckets bs next (result, links) = Some (result', links')"
      using b(1) r(1) nz Cons.prems(2) by (cases "ws = []") (simp_all add: bs(1) Let_def)
    then show ?thesis using r(2-4) by auto
  qed
qed

text \<open>\<open>Clear\<close> empties the buckets and returns all values in one chain, but leaves the item count at the number of values, so the
  table of an emptied hash table never counts as empty again.\<close>

lemma Clear_chains:
  assumes "table_inv Hash t S" "curItemCount t \<noteq> 0"
  shows "\<exists>r t' zs. hash_Clear True t = Some (r, t') \<and> chained (HashTableNext t') r zs \<and> set zs = S \<and> distinct zs
    \<and> storage t' = replicate (length (storage t)) 0 \<and> curItemCount t' = of_nat (card S) \<and> \<not> table_inv Hash t' {}"
proof -
  obtain zss where z: "list_all2 (chained (HashTableNext t)) (storage t) zss" "distinct (concat zss)" "set (concat zss) = S"
    using table_empty_or_buckets [OF assms(1)] by blast
  obtain r links zs where c: "chain_buckets (storage t) 0 (0, HashTableNext t) = Some (r, links)" "chained links r zs" "set zs = S" "distinct zs"
    using chain_buckets_works [of "HashTableNext t" 0 "[]" 0 "storage t" zss] z by auto
  let ?t = "t\<lparr>HashTableNext := links, storage := replicate (length (storage t)) 0\<rparr>"
  have "hash_Clear True t = Some (r, ?t)" using assms(2) c(1) by (simp add: hash_Clear_def)
  moreover have "\<not> table_inv Hash ?t {}"
  proof
    assume "table_inv Hash ?t {}"
    then have "curItemCount ?t = 0" by (auto simp: table_inv_def)
    then show False using assms(2) by simp
  qed
  ultimately show ?thesis using c(2-4) table_count [OF assms(1)] by (intro exI [of _ r] exI [of _ ?t] exI [of _ zs]) simp
qed

section \<open>The size\<close>

lemma load_limit:
  assumes "unat (n :: u32) = 2 ^ m" "m \<le> 24"
  shows "unat (n * 200 div 256) = 2 ^ m * 200 div 256" "unat (n * 50 div 256) = 2 ^ m * 50 div 256"
proof -
  have "(2 :: nat) ^ m \<le> 2 ^ 24" using assms(2) by (intro power_increasing) simp_all
  then have le: "(2 :: nat) ^ m \<le> 16777216" by simp
  have "unat (n * 200) = 2 ^ m * 200" "unat (n * 50) = 2 ^ m * 50"
    using assms(1) le by (simp_all add: unat_word_ariths take_bit_nat_eq_self)
  then show "unat (n * 200 div 256) = 2 ^ m * 200 div 256" "unat (n * 50 div 256) = 2 ^ m * 50 div 256" by (simp_all add: unat_div)
qed

lemma double_size: "unat (n :: u32) = 2 ^ m \<Longrightarrow> m < 24 \<Longrightarrow> unat (push_bit 1 n) = 2 ^ Suc m"
proof -
  assume n: "unat n = 2 ^ m" "m < 24"
  then have "(2 :: nat) ^ Suc m \<le> 2 ^ 24" by (intro power_increasing) simp_all
  then have "(2 :: nat) ^ Suc m < 4294967296" by (rule le_less_trans) simp
  then show ?thesis using n(1) by (simp add: push_bit_eq_mult unat_word_ariths take_bit_nat_eq_self mult.commute)
qed

lemma grow_size_returns:
  assumes "unat n = 2 ^ m" "m \<le> 24" "unat count < 13107200"
  shows "\<exists>k s. m \<le> k \<and> k \<le> 24 \<and> grow_size count n = Some s \<and> unat s = 2 ^ k \<and> unat count < 2 ^ k * 200 div 256"
  using assms(1,2)
proof (induction "24 - m" arbitrary: m n rule: less_induct)
  case less
  show ?case
  proof (cases "n * 200 div 256 \<le> count")
    case False
    then have "unat count < 2 ^ m * 200 div 256" by (simp add: word_le_nat_alt load_limit [OF less.prems])
    then show ?thesis using False less.prems by (subst grow_size.simps) auto
  next
    case True
    then have le: "2 ^ m * 200 div 256 \<le> unat count" by (simp add: word_le_nat_alt load_limit [OF less.prems])
    have "m \<noteq> 24" using le assms(3) by auto
    then have m: "m < 24" using less.prems(2) by simp
    then have "24 - Suc m < 24 - m" "Suc m \<le> 24" by simp_all
    from less.hyps [OF this(1) double_size [OF less.prems(1) m] this(2)] show ?thesis
      using True by (subst grow_size.simps) (auto dest: Suc_leD)
  qed
qed

lemma shrink_size_returns:
  assumes "unat n = 2 ^ m" "m \<le> 24"
  shows "\<exists>k s. k \<le> m \<and> shrink_size count n = Some s \<and> unat s = 2 ^ k \<and> 2 ^ k * 50 div 256 \<le> unat count"
  using assms
proof (induction m arbitrary: n)
  case 0
  then have "n = 1" by (simp add: word_eq_unat_iff)
  then show ?case by (subst shrink_size.simps) (simp add: 0)
next
  case (Suc m)
  show ?case
  proof (cases "count < n * 50 div 256")
    case False
    then have "2 ^ Suc m * 50 div 256 \<le> unat count" using load_limit(2) [OF Suc.prems] by (simp add: word_less_nat_alt)
    then show ?thesis using False Suc.prems(1) by (subst shrink_size.simps) auto
  next
    case True
    have "unat (drop_bit 1 n) = 2 ^ m" using Suc.prems(1) by (simp add: unat_drop_bit_div)
    from Suc.IH [OF this] Suc.prems(2) True show ?thesis by (subst shrink_size.simps) (auto intro: le_SucI)
  qed
qed

lemma two_powers: "(2 :: nat) ^ a \<le> 2 ^ b \<longleftrightarrow> a \<le> b"
  by simp

lemma bytes_of_size: "unat (n :: u32) = 2 ^ k \<Longrightarrow> k \<le> 24 \<Longrightarrow> unat (n * 4) = 4 * 2 ^ k"
proof -
  assume n: "unat n = 2 ^ k" "k \<le> 24"
  then have "(2 :: nat) ^ k \<le> 2 ^ 24" by (intro power_increasing) simp_all
  then show ?thesis using n(1) by (simp add: unat_word_ariths take_bit_nat_eq_self)
qed

text \<open>\<open>ResizeNeeded\<close> returns for tables of up to \<open>2 ^ 24\<close> buckets and fewer than 13107200 values: the answer is 0 or the bytes of a table
  of another size, a power of two of at least eight, and a table it grows to is below the load limit.\<close>

lemma resize_needed_returns:
  assumes "table_inv Hash t S" "curTableSize t = 0 \<or> 8 \<le> unat (curTableSize t)" "unat (curTableSize t) \<le> 2 ^ 24" "unat (curItemCount t) < 13107200"
  shows "\<exists>r. ResizeNeeded t = Some r \<and> (r = 0 \<or> (\<exists>k. 3 \<le> k \<and> k \<le> 24 \<and> unat r = 4 * 2 ^ k \<and> unat (curTableSize t) \<noteq> 2 ^ k
    \<and> (unat (curTableSize t) < 2 ^ k \<longrightarrow> unat (curItemCount t) < 2 ^ k * 200 div 256)))"
proof -
  have result: "\<exists>r. Some (if n = curTableSize t then 0 else n * 4) = Some r \<and> (r = 0 \<or> (\<exists>k. 3 \<le> k \<and> k \<le> 24 \<and> unat r = 4 * 2 ^ k \<and>
      unat (curTableSize t) \<noteq> 2 ^ k \<and> (unat (curTableSize t) < 2 ^ k \<longrightarrow> unat (curItemCount t) < 2 ^ k * 200 div 256)))"
    if n: "unat n = 2 ^ k" "3 \<le> k" "k \<le> 24" "unat (curTableSize t) < 2 ^ k \<longrightarrow> unat (curItemCount t) < 2 ^ k * 200 div 256" for n k
  proof (cases "n = curTableSize t")
    case False
    then have "unat (curTableSize t) \<noteq> 2 ^ k" using n(1) by (metis word_eq_unat_iff)
    then show ?thesis using False n bytes_of_size [OF n(1,3)] by auto
  qed simp
  show ?thesis
  proof (cases "curTableSize t = 0 \<or> curTableSize t * 200 div 256 \<le> curItemCount t")
    case True
    let ?n = "if curTableSize t = 0 then kMinimumSize else curTableSize t"
    obtain m where m: "unat ?n = 2 ^ m" "3 \<le> m" "m \<le> 24"
    proof (cases "curTableSize t = 0")
      case True
      then show ?thesis by (intro that [of 3]) (simp_all add: kMinimumSize_def)
    next
      case False
      then obtain m where m: "unat (curTableSize t) = 2 ^ m" using table_size [OF assms(1)] by blast
      then have "(2 :: nat) ^ 3 \<le> 2 ^ m" "(2 :: nat) ^ m \<le> 2 ^ 24" using assms(2,3) False by simp_all
      then have "3 \<le> m" "m \<le> 24" by (simp_all only: two_powers)
      then show ?thesis using m False by (intro that [of m]) simp_all
    qed
    obtain k s where k: "m \<le> k" "k \<le> 24" "grow_size (curItemCount t) ?n = Some s" "unat s = 2 ^ k" "unat (curItemCount t) < 2 ^ k * 200 div 256"
      using grow_size_returns [OF m(1,3) assms(4)] by blast
    then show ?thesis using True m(2) result [OF k(4) _ k(2)] by (simp add: ResizeNeeded_def)
  next
    case c: False
    then have nz: "curTableSize t \<noteq> 0" by simp
    then obtain m where m: "unat (curTableSize t) = 2 ^ m" using table_size [OF assms(1)] by blast
    have "(2 :: nat) ^ 3 \<le> 2 ^ m" "(2 :: nat) ^ m \<le> 2 ^ 24" using assms(2,3) nz m by simp_all
    then have mb: "3 \<le> m" "m \<le> 24" by (simp_all only: two_powers)
    show ?thesis
    proof (cases "kMinimumSize < curTableSize t \<and> curItemCount t < curTableSize t * 50 div 256")
      case True
      obtain k s where k: "k \<le> m" "shrink_size (curItemCount t) (curTableSize t) = Some s" "unat s = 2 ^ k"
        using shrink_size_returns [OF m mb(2)] by blast
      let ?s = "if s < kMinimumSize then kMinimumSize else s"
      have "\<exists>j. unat ?s = 2 ^ j \<and> 3 \<le> j \<and> j \<le> m"
      proof (cases "s < kMinimumSize")
        case False
        then have "(2 :: nat) ^ 3 \<le> 2 ^ k" using k(3) by (simp add: kMinimumSize_def word_less_nat_alt)
        then have "3 \<le> k" by (simp only: two_powers)
        then show ?thesis using False k(1,3) by auto
      qed (use mb(1) in \<open>auto simp: kMinimumSize_def intro: exI [of _ 3]\<close>)
      then obtain j where j: "unat ?s = 2 ^ j" "3 \<le> j" "j \<le> m" by blast
      then have "\<not> unat (curTableSize t) < 2 ^ j" using m by (simp add: not_less power_increasing)
      moreover have "ResizeNeeded t = Some (if ?s = curTableSize t then 0 else ?s * 4)" using c True k(2) by (simp add: ResizeNeeded_def del: de_Morgan_disj)
      ultimately show ?thesis using result [OF j(1,2)] j(3) mb(2) by simp
    next
      case False
      then have "ResizeNeeded t = Some 0" using c by (simp add: ResizeNeeded_def del: de_Morgan_disj de_Morgan_conj)
      then show ?thesis by simp
    qed
  qed
qed

section \<open>The contract of a definition\<close>

text \<open>What the table needs of the definition it is instantiated with, and what its clients get.\<close>

locale hash_definition =
  fixes HashKey :: "'k \<Rightarrow> u32"
    and Hash :: "u32 \<Rightarrow> u32"
    and Compare :: "'k \<Rightarrow> u32 \<Rightarrow> bool"
  assumes compare_hash: "Compare k v \<Longrightarrow> Hash v = HashKey k"
begin

lemma lookup_misses:
  assumes "table_inv Hash t S" "\<And>v. v \<in> S \<Longrightarrow> \<not> Compare key v"
  shows "hash_Lookup HashKey Compare key t = Some (Inr 0)"
  using Lookup_works [of Hash t S Compare HashKey key, OF assms(1) compare_hash] assms(2) by blast

lemma lookup_unique:
  assumes "table_inv Hash t S" "v \<in> S" "Compare key v" "\<And>x. x \<in> S \<Longrightarrow> Compare key x \<Longrightarrow> x = v"
  shows "hash_Lookup HashKey Compare key t = Some (Inr v)"
  using Lookup_works [of Hash t S Compare HashKey key, OF assms(1) compare_hash] assms(2-4) by blast

text \<open>A value whose key is new is found by its key after it is inserted, and not any more after it is removed.\<close>

lemma lookup_inserted:
  assumes "table_inv Hash t S" "v \<noteq> 0" "v \<notin> S" "unat (curTableSize t) < 2 ^ 30" "alloc 32 \<or> curTableSize t \<noteq> 0"
    and "Compare key v" "\<And>x. x \<in> S \<Longrightarrow> \<not> Compare key x"
  shows "\<exists>t'. hash_Insert Hash ae cd alloc v t = Some (Inr (True, t')) \<and> table_inv Hash t' (insert v S) \<and>
    hash_Lookup HashKey Compare key t' = Some (Inr v)"
proof -
  obtain t' where t': "hash_Insert Hash ae cd alloc v t = Some (Inr (True, t'))" "table_inv Hash t' (insert v S)"
    using Insert_works [OF assms(1-4), of alloc ae cd] assms(5) by (auto split: if_splits)
  moreover have "hash_Lookup HashKey Compare key t' = Some (Inr v)"
    by (rule lookup_unique [OF t'(2)]) (use assms(6,7) in auto)
  ultimately show ?thesis by blast
qed

end

section \<open>Dictionaries\<close>

text \<open>
  Dictionary.h: pairs of a key and a value, whose addresses are the values of a hash table. The hash is the checksum of the bytes of the key. The
  address of a new pair is an argument.
\<close>

record ('k, 'v) dictionary =
  hashTable :: hashtable
  kv_key :: "u32 \<Rightarrow> 'k"
  kv_value :: "u32 \<Rightarrow> 'v"

definition dict_HashKey :: "('k \<Rightarrow> u8 list) \<Rightarrow> 'k \<Rightarrow> u32" where
  "dict_HashKey bytes k = CRC32 (bytes k)"

definition dict_Hash :: "('k \<Rightarrow> u8 list) \<Rightarrow> (u32 \<Rightarrow> 'k) \<Rightarrow> u32 \<Rightarrow> u32" where
  "dict_Hash bytes keys v = dict_HashKey bytes (keys v)"

definition dict_Compare :: "(u32 \<Rightarrow> 'k) \<Rightarrow> 'k \<Rightarrow> u32 \<Rightarrow> bool" where
  "dict_Compare keys k v \<longleftrightarrow> keys v = k"

text \<open>The value of a key that is missing is read through a null pointer.\<close>

definition dict_Lookup :: "('k \<Rightarrow> u8 list) \<Rightarrow> 'k \<Rightarrow> ('k, 'v) dictionary \<Rightarrow> (fault + 'v) option" where
  "dict_Lookup bytes k d =
     Option.bind (hash_Lookup (dict_HashKey bytes) (dict_Compare (kv_key d)) k (hashTable d)) (\<lambda>r.
       Some (rbind r (\<lambda>v. if v = 0 then Inl NullPointer else Inr (kv_value d v))))"

definition dict_Insert :: "('k \<Rightarrow> u8 list) \<Rightarrow> (u32 \<Rightarrow> bool) \<Rightarrow> u32 \<Rightarrow> 'k \<Rightarrow> 'v \<Rightarrow> ('k, 'v) dictionary \<Rightarrow> (fault + bool \<times> ('k, 'v) dictionary) option" where
  "dict_Insert bytes alloc kv k x d =
     (let d = d\<lparr>kv_key := (kv_key d)(kv := k), kv_value := (kv_value d)(kv := x)\<rparr>
      in Option.bind (hash_Insert (dict_Hash bytes (kv_key d)) True False alloc kv (hashTable d)) (\<lambda>r.
           Some (rbind r (\<lambda>(b, t). Inr (b, d\<lparr>hashTable := t\<rparr>)))))"

definition dict_Remove :: "('k \<Rightarrow> u8 list) \<Rightarrow> (u32 \<Rightarrow> bool) \<Rightarrow> 'k \<Rightarrow> ('k, 'v) dictionary \<Rightarrow> (fault + bool \<times> ('k, 'v) dictionary) option" where
  "dict_Remove bytes alloc k d =
     Option.bind (hash_Lookup (dict_HashKey bytes) (dict_Compare (kv_key d)) k (hashTable d)) (\<lambda>r. case r of Inl e \<Rightarrow> Some (Inl e) | Inr v \<Rightarrow>
       if v \<noteq> 0 then
         Option.bind (hash_Remove (dict_Hash bytes (kv_key d)) True False alloc v (hashTable d)) (\<lambda>r.
           Some (rbind r (\<lambda>(b, t). Inr (b, d\<lparr>hashTable := t\<rparr>))))
       else Some (Inr (False, d)))"

text \<open>Clear takes the elements out of the table and deletes them along their links; the result lists the deleted pairs in order.\<close>

partial_function (option) delete_pairs :: "(u32 \<Rightarrow> u32) \<Rightarrow> u32 \<Rightarrow> u32 list \<Rightarrow> u32 list option" where
  "delete_pairs links v deleted = (if v \<noteq> 0 then delete_pairs links (links v) (deleted @ [v]) else Some deleted)"

definition dict_Clear :: "('k, 'v) dictionary \<Rightarrow> (u32 list \<times> ('k, 'v) dictionary) option" where
  "dict_Clear d =
     Option.bind (hash_Clear True (hashTable d)) (\<lambda>(items, t).
       Option.bind (delete_pairs (HashTableNext t) items []) (\<lambda>deleted. Some (deleted, d\<lparr>hashTable := t\<rparr>)))"

interpretation dict: hash_definition "dict_HashKey bytes" "dict_Hash bytes keys" "dict_Compare keys" for bytes keys
  by unfold_locales (simp add: dict_Hash_def dict_Compare_def)

text \<open>The finite map a dictionary stands for.\<close>

definition dict_holds :: "('k \<Rightarrow> u8 list) \<Rightarrow> ('k, 'v) dictionary \<Rightarrow> u32 set \<Rightarrow> ('k \<rightharpoonup> 'v) \<Rightarrow> bool" where
  "dict_holds bytes d S m \<longleftrightarrow> table_inv (dict_Hash bytes (kv_key d)) (hashTable d) S \<and> inj_on (kv_key d) S \<and>
     dom m = kv_key d ` S \<and> (\<forall>v \<in> S. m (kv_key d v) = Some (kv_value d v))"

lemma table_inv_cong:
  assumes "\<And>v. v \<in> S \<Longrightarrow> Hash' v = Hash v"
  shows "table_inv Hash' t S = table_inv Hash t S"
proof -
  have "buckets_ok Hash' n table links xs = buckets_ok Hash n table links xs" if "S = members n xs" for n table links xs
  proof -
    have "Hash' v = Hash v" if "i < unat n" "v \<in> set (xs i)" for i v
      using assms [of v] that \<open>S = members n xs\<close> by (auto simp: members_def)
    then show ?thesis by (auto simp: buckets_ok_def)
  qed
  then have "(buckets_ok Hash' n table links xs \<and> S = members n xs \<and> c) = (buckets_ok Hash n table links xs \<and> S = members n xs \<and> c)"
    for n table links xs c by blast
  then show ?thesis by (simp only: table_inv_def)
qed

lemma table_nonzero: "table_inv Hash t S \<Longrightarrow> 0 \<notin> S"
proof
  assume t: "table_inv Hash t S" "0 \<in> S"
  then obtain xs where x: "buckets_ok Hash (curTableSize t) (storage t) (HashTableNext t) xs" "S = members (curTableSize t) xs"
    by (auto simp: table_inv_def)
  then obtain i where "i < unat (curTableSize t)" "0 \<in> set (xs i)" using t(2) by (auto simp: members_def)
  then show False using chained_zero [OF buckets_okD(4) [OF x(1)]] by blast
qed

lemma dict_Lookup_map:
  assumes "dict_holds bytes d S m"
  shows "dict_Lookup bytes k d = Some (case m k of Some x \<Rightarrow> Inr x | None \<Rightarrow> Inl NullPointer)"
    "(m k = None \<and> hash_Lookup (dict_HashKey bytes) (dict_Compare (kv_key d)) k (hashTable d) = Some (Inr 0)) \<or>
     (\<exists>v \<in> S. v \<noteq> 0 \<and> kv_key d v = k \<and> m k = Some (kv_value d v) \<and>
        hash_Lookup (dict_HashKey bytes) (dict_Compare (kv_key d)) k (hashTable d) = Some (Inr v))"
proof -
  have t: "table_inv (dict_Hash bytes (kv_key d)) (hashTable d) S" and inj: "inj_on (kv_key d) S" and m: "dom m = kv_key d ` S"
      "\<forall>v \<in> S. m (kv_key d v) = Some (kv_value d v)" using assms by (simp_all add: dict_holds_def)
  show r: "(m k = None \<and> hash_Lookup (dict_HashKey bytes) (dict_Compare (kv_key d)) k (hashTable d) = Some (Inr 0)) \<or>
     (\<exists>v \<in> S. v \<noteq> 0 \<and> kv_key d v = k \<and> m k = Some (kv_value d v) \<and>
        hash_Lookup (dict_HashKey bytes) (dict_Compare (kv_key d)) k (hashTable d) = Some (Inr v))"
  proof (cases "m k")
    case None
    then have "k \<notin> kv_key d ` S" using m(1) by auto
    then show ?thesis using None dict.lookup_misses [OF t, of k] by (auto simp: dict_Compare_def)
  next
    case (Some x)
    then have "k \<in> kv_key d ` S" unfolding m(1) [symmetric] by blast
    then obtain v where v: "v \<in> S" "kv_key d v = k" by auto
    have "hash_Lookup (dict_HashKey bytes) (dict_Compare (kv_key d)) k (hashTable d) = Some (Inr v)"
    proof (rule dict.lookup_unique [OF t v(1)])
      fix x assume "x \<in> S" "dict_Compare (kv_key d) k x"
      then show "x = v" using inj_onD [OF inj, of x v] v by (simp add: dict_Compare_def)
    qed (use v(2) in \<open>simp add: dict_Compare_def\<close>)
    moreover have "v \<noteq> 0" using table_nonzero [OF t] v(1) by auto
    ultimately show ?thesis using v m(2) by auto
  qed
  then show "dict_Lookup bytes k d = Some (case m k of Some x \<Rightarrow> Inr x | None \<Rightarrow> Inl NullPointer)"
    by (elim disjE bexE conjE) (simp_all add: dict_Lookup_def)
qed

lemma dict_Remove_map:
  assumes "dict_holds bytes d S m"
  shows "if k \<in> dom m then \<exists>d' S'. dict_Remove bytes alloc k d = Some (Inr (True, d')) \<and> dict_holds bytes d' S' (m(k := None))
    else dict_Remove bytes alloc k d = Some (Inr (False, d))"
  using dict_Lookup_map(2) [OF assms, of k]
proof (elim disjE bexE conjE)
  assume "m k = None" "hash_Lookup (dict_HashKey bytes) (dict_Compare (kv_key d)) k (hashTable d) = Some (Inr 0)"
  then show ?thesis by (simp add: dict_Remove_def domIff)
next
  fix v
  assume v: "v \<in> S" "v \<noteq> 0" "kv_key d v = k" "m k = Some (kv_value d v)"
    "hash_Lookup (dict_HashKey bytes) (dict_Compare (kv_key d)) k (hashTable d) = Some (Inr v)"
  have t: "table_inv (dict_Hash bytes (kv_key d)) (hashTable d) S" and inj: "inj_on (kv_key d) S" and m: "dom m = kv_key d ` S"
      "\<forall>v \<in> S. m (kv_key d v) = Some (kv_value d v)" using assms by (simp_all add: dict_holds_def)
  have "curTableSize (hashTable d) \<noteq> 0"
  proof
    assume "curTableSize (hashTable d) = 0"
    then have "S = {}" using t by (auto simp: table_inv_def members_def)
    then show False using v(1) by simp
  qed
  from Remove_works [OF t this, of v True False alloc] v(1)
  obtain t' where t': "hash_Remove (dict_Hash bytes (kv_key d)) True False alloc v (hashTable d) = Some (Inr (True, t'))"
      "table_inv (dict_Hash bytes (kv_key d)) t' (S - {v})" by auto
  let ?d = "d\<lparr>hashTable := t'\<rparr>"
  have "dict_Remove bytes alloc k d = Some (Inr (True, ?d))" using v(2,5) t'(1) by (simp add: dict_Remove_def)
  moreover have "dict_holds bytes ?d (S - {v}) (m(k := None))"
    unfolding dict_holds_def
  proof (intro conjI ballI)
    show "inj_on (kv_key ?d) (S - {v})" using inj by (simp add: inj_on_diff)
    show "dom (m(k := None)) = kv_key ?d ` (S - {v})" using inj v(1,3) by (auto simp: m(1) inj_on_def)
    fix w assume w: "w \<in> S - {v}"
    then have "kv_key d w \<noteq> k" using inj v(1,3) by (auto simp: inj_on_def)
    then show "(m(k := None)) (kv_key ?d w) = Some (kv_value ?d w)" using m(2) w by simp
  qed (use t'(2) in simp)
  ultimately show ?thesis using v(4) by (auto simp: domIff)
qed

lemma dict_Insert_map:
  assumes "dict_holds bytes d S m" "kv \<noteq> 0" "kv \<notin> S" "k \<notin> dom m" "unat (curTableSize (hashTable d)) < 2 ^ 30"
    and "alloc 32 \<or> curTableSize (hashTable d) \<noteq> 0"
  shows "\<exists>d'. dict_Insert bytes alloc kv k x d = Some (Inr (True, d')) \<and> dict_holds bytes d' (insert kv S) (m(k \<mapsto> x))"
proof -
  have t: "table_inv (dict_Hash bytes (kv_key d)) (hashTable d) S" and inj: "inj_on (kv_key d) S" and m: "dom m = kv_key d ` S"
      "\<forall>v \<in> S. m (kv_key d v) = Some (kv_value d v)" using assms(1) by (simp_all add: dict_holds_def)
  let ?keys = "(kv_key d)(kv := k)"
  have "table_inv (dict_Hash bytes ?keys) (hashTable d) S"
    by (subst table_inv_cong [where Hash = "dict_Hash bytes (kv_key d)"]) (use t assms(3) in \<open>auto simp: dict_Hash_def\<close>)
  from Insert_works [OF this assms(2,3,5), of alloc True False] assms(6)
  obtain t' where t': "hash_Insert (dict_Hash bytes ?keys) True False alloc kv (hashTable d) = Some (Inr (True, t'))"
      "table_inv (dict_Hash bytes ?keys) t' (insert kv S)" by (auto split: if_splits)
  let ?d = "d\<lparr>kv_key := ?keys, kv_value := (kv_value d)(kv := x), hashTable := t'\<rparr>"
  have "dict_Insert bytes alloc kv k x d = Some (Inr (True, ?d))" using t'(1) by (simp add: dict_Insert_def Let_def)
  moreover have "dict_holds bytes ?d (insert kv S) (m(k \<mapsto> x))"
    unfolding dict_holds_def
  proof (intro conjI ballI)
    show "inj_on (kv_key ?d) (insert kv S)" using inj assms(3,4) m(1) by (auto simp: inj_on_def)
    show "dom (m(k \<mapsto> x)) = kv_key ?d ` insert kv S" using assms(3) by (auto simp: m(1))
    fix w assume w: "w \<in> insert kv S"
    have "k \<noteq> kv_key d w" if "w \<in> S" using that assms(4) m(1) by auto
    then show "(m(k \<mapsto> x)) (kv_key ?d w) = Some (kv_value ?d w)" using m(2) w assms(3) by auto
  qed (use t'(2) in simp)
  ultimately show ?thesis by blast
qed


lemma delete_pairs_chained: "chained links v xs \<Longrightarrow> delete_pairs links v deleted = Some (deleted @ xs)"
  by (induction xs arbitrary: v deleted) (simp_all add: delete_pairs.simps)

text \<open>Every pair is deleted once, but the item count still counts the pairs.\<close>

lemma dict_Clear_deletes:
  assumes "dict_holds bytes d S m" "curItemCount (hashTable d) \<noteq> 0"
  shows "\<exists>deleted d'. dict_Clear d = Some (deleted, d') \<and> set deleted = S \<and> distinct deleted \<and> curItemCount (hashTable d') = of_nat (card S)"
proof -
  have "table_inv (dict_Hash bytes (kv_key d)) (hashTable d) S" using assms(1) by (simp add: dict_holds_def)
  from Clear_chains [OF this assms(2)] obtain r t' zs where "hash_Clear True (hashTable d) = Some (r, t')" "chained (HashTableNext t') r zs"
    "set zs = S" "distinct zs" "curItemCount t' = of_nat (card S)" by blast
  then show ?thesis by (simp add: dict_Clear_def delete_pairs_chained)
qed

definition no_pairs :: "(u8, u32) dictionary" where
  "no_pairs = \<lparr>hashTable = new_hashtable (\<lambda>_. 0), kv_key = (\<lambda>_. 0), kv_value = (\<lambda>_. 0)\<rparr>"

lemma no_pairs_hold: "dict_holds (\<lambda>k. [k]) no_pairs {} Map.empty"
  by (auto simp: no_pairs_def dict_holds_def table_inv_def new_hashtable_def)

lemma one_pair: "\<exists>d. dict_holds (\<lambda>k. [k]) d {0x100} [7 \<mapsto> 9 :: u32]"
proof -
  have "curTableSize (hashTable no_pairs) = 0" by (simp add: no_pairs_def new_hashtable_def)
  then show ?thesis using dict_Insert_map [OF no_pairs_hold, of "0x100" 7 "\<lambda>_. True" 9] by auto
qed


lemma resize_needed_returns_example: "\<exists>t r. table_inv (\<lambda>_. 0) t {} \<and> ResizeNeeded t = Some r \<and> (r = 0 \<or> (\<exists>k. unat r = 4 * 2 ^ k))"
proof -
  have "table_inv (\<lambda>_. 0) (new_hashtable (\<lambda>_. 0)) {}" by (simp add: table_inv_def new_hashtable_def)
  from resize_needed_returns [OF this] this show ?thesis by (auto simp: new_hashtable_def)
qed

end
