(* ===== verification/KernelPaging.thy ===== *)
theory KernelPaging
  imports FrameAllocator
begin

text \<open>
  The paging of the kernel (x86Paging.h, x86Paging.cpp): page tables and page directories as objects at addresses of kernel memory, the
  placement pointer they are allocated from, the current directory and the register CR3. The invalidation of the TLB has no effect on this state.
\<close>

section \<open>Pages, tables and directories\<close>

record x86Page =
  pg_present :: bool
  pg_rw :: bool
  pg_user :: bool
  pg_writethrough :: bool
  pg_cachedisabled :: bool
  pg_accessed :: bool
  pg_dirty :: bool
  pg_zero :: bool
  pg_global :: bool
  pg_unused :: "3 word"
  pg_frame :: "20 word"

definition new_x86Page :: x86Page where
  "new_x86Page = \<lparr>pg_present = False, pg_rw = False, pg_user = False, pg_writethrough = False, pg_cachedisabled = False, pg_accessed = False,
     pg_dirty = False, pg_zero = False, pg_global = False, pg_unused = 0, pg_frame = 0\<rparr>"

definition Frame :: "x86Page \<Rightarrow> u32" where
  "Frame p = push_bit 12 (ucast (pg_frame p))"

definition set_Frame :: "u32 \<Rightarrow> x86Page \<Rightarrow> x86Page" where
  "set_Frame a p = p\<lparr>pg_frame := ucast (drop_bit 12 a AND 0xFFFFF)\<rparr>"

record x86PageDirectory =
  tablesPhysical :: "nat \<Rightarrow> u32"
  tables :: "nat \<Rightarrow> u32"

definition new_x86PageDirectory :: x86PageDirectory where
  "new_x86PageDirectory = \<lparr>tablesPhysical = (\<lambda>_. 0), tables = (\<lambda>_. 0)\<rparr>"

record x86_paging =
  kernel_directory :: u32
  current_directory :: u32
  page_directories :: "u32 \<Rightarrow> x86PageDirectory"
  page_tables :: "u32 \<Rightarrow> nat \<Rightarrow> x86Page"
  placement_address :: u32
  cr3 :: u32

definition pd_index :: "u32 \<Rightarrow> nat" where
  "pd_index v = unat (drop_bit 22 v)"

definition pt_index :: "u32 \<Rightarrow> nat" where
  "pt_index v = unat (drop_bit 12 v AND 0x03FF)"

definition OFFSET_MASK :: u32 where
  "OFFSET_MASK = 0xFFF"

section \<open>Operations\<close>

definition get_page :: "u32 \<Rightarrow> nat \<Rightarrow> x86_paging \<Rightarrow> x86Page" where
  "get_page t j s = page_tables s t j"

definition set_page :: "u32 \<Rightarrow> nat \<Rightarrow> x86Page \<Rightarrow> x86_paging \<Rightarrow> x86_paging" where
  "set_page t j p s = s\<lparr>page_tables := (page_tables s)(t := (page_tables s t)(j := p))\<rparr>"

definition SetTable :: "u32 \<Rightarrow> nat \<Rightarrow> u32 \<Rightarrow> u32 \<Rightarrow> x86_paging \<Rightarrow> fault + x86_paging" where
  "SetTable d i t tablePhysical s =
     (if \<not> i < 1024 then Inl AssertFailed
      else let pd = page_directories s d
           in Inr (s\<lparr>page_directories := (page_directories s)
                (d := pd\<lparr>tablesPhysical := (tablesPhysical pd)(i := tablePhysical), tables := (tables pd)(i := t)\<rparr>)\<rparr>))"

definition GetTablePhysical :: "u32 \<Rightarrow> nat \<Rightarrow> x86_paging \<Rightarrow> fault + u32" where
  "GetTablePhysical d i s = (if i < 1024 then Inr (tablesPhysical (page_directories s d) i) else Inl OutOfBounds)"

text \<open>GetTable without and with the creation of a missing table.\<close>

definition GetTable :: "u32 \<Rightarrow> nat \<Rightarrow> x86_paging \<Rightarrow> fault + u32" where
  "GetTable d i s = (if i < 1024 then Inr (tables (page_directories s d) i) else Inl OutOfBounds)"

definition GetPhysicalAddress :: "u32 \<Rightarrow> x86_paging \<Rightarrow> fault + u32" where
  "GetPhysicalAddress virtualaddr s =
     rbind (GetTable (current_directory s) (pd_index virtualaddr) s) (\<lambda>pt.
     if pt = 0 then Inr 0
     else let p = get_page pt (pt_index virtualaddr) s
          in if \<not> pg_present p then Inr 0 else Inr (Frame p + (virtualaddr AND OFFSET_MASK)))"

definition new_page_table :: "u32 \<Rightarrow> x86_paging \<Rightarrow> fault + u32 \<times> x86_paging" where
  "new_page_table placement s =
     rbind (placement_Allocate placement 0x1000 True (placement_address s)) (\<lambda>(t, a).
     Inr (t, s\<lparr>placement_address := a, page_tables := (page_tables s)(t := (\<lambda>_. new_x86Page))\<rparr>))"

definition GetTable_assign :: "u32 \<Rightarrow> u32 \<Rightarrow> nat \<Rightarrow> x86_paging \<Rightarrow> fault + u32 \<times> x86_paging" where
  "GetTable_assign placement d i s =
     rbind (GetTable d i s) (\<lambda>t.
     if t = 0 then
       rbind (new_page_table placement s) (\<lambda>(t, s).
       rbind (GetPhysicalAddress t s) (\<lambda>physicalPageTableAddress.
       rbind (SetTable d i t (physicalPageTableAddress OR 3) s) (\<lambda>s.
       rbind (GetTable d i s) (\<lambda>t. Inr (t, s)))))
     else Inr (t, s))"

definition MapAddress :: "u32 \<Rightarrow> u32 \<Rightarrow> u32 \<Rightarrow> bool \<Rightarrow> bool \<Rightarrow> x86_paging \<Rightarrow> fault + x86_paging" where
  "MapAddress placement virt phys readwrite usermode s =
     rbind (GetTable_assign placement (current_directory s) (pd_index virt) s) (\<lambda>(t, s).
     let p = get_page t (pt_index virt) s;
         p = (if \<not> pg_present p then p\<lparr>pg_present := True\<rparr> else p);
         p = set_Frame phys p;
         p = p\<lparr>pg_rw := readwrite, pg_user := usermode\<rparr>
     in Inr (set_page t (pt_index virt) p s))"

definition UnmapAddress :: "u32 \<Rightarrow> u32 \<Rightarrow> x86_paging \<Rightarrow> fault + x86_paging" where
  "UnmapAddress placement virt s =
     rbind (GetTable_assign placement (current_directory s) (pd_index virt) s) (\<lambda>(t, s).
     let p = get_page t (pt_index virt) s;
         p = set_Frame 0 (p\<lparr>pg_present := False\<rparr>)
     in Inr (set_page t (pt_index virt) (p\<lparr>pg_rw := False\<rparr>) s))"

definition IsPresent :: "u32 \<Rightarrow> x86_paging \<Rightarrow> fault + bool" where
  "IsPresent virt s =
     rbind (GetTable (current_directory s) (pd_index virt) s) (\<lambda>t.
     if t \<noteq> 0 then
       rbind (GetTablePhysical (current_directory s) (pd_index virt) s) (\<lambda>a.
       if a AND 1 = 1 then Inr (pg_present (get_page t (pt_index virt) s)) else Inr False)
     else Inr False)"

definition SwitchCurrentPageDirectory :: "u32 \<Rightarrow> x86_paging \<Rightarrow> fault + x86_paging" where
  "SwitchCurrentPageDirectory dir s =
     (let s = s\<lparr>current_directory := dir\<rparr>
      in rbind (GetPhysicalAddress dir s) (\<lambda>a. Inr (s\<lparr>cr3 := a\<rparr>)))"

text \<open>An object of a page directory takes two pages: the addresses of the tables for the processor and for the kernel.\<close>

definition new_page_directory :: "u32 \<Rightarrow> x86_paging \<Rightarrow> fault + u32 \<times> x86_paging" where
  "new_page_directory placement s =
     rbind (placement_Allocate placement 0x2000 True (placement_address s)) (\<lambda>(d, a).
     Inr (d, s\<lparr>placement_address := a, page_directories := (page_directories s)(d := new_x86PageDirectory)\<rparr>))"

text \<open>The loop of DeriveUserspaceDirectory over the addresses from 3 GB on, 4 MB each.\<close>

partial_function (option) derive_loop :: "u32 \<Rightarrow> u32 \<Rightarrow> x86_paging \<Rightarrow> (fault + x86_paging) option" where
  "derive_loop pd i s =
     (if i < 0xFFFFFFFF then
        let pdindex = unat (i div 4 * 1024 * 1024)
        in (case rbind (GetTable (current_directory s) pdindex s) (\<lambda>t.
                 rbind (GetTablePhysical (current_directory s) pdindex s) (\<lambda>a. SetTable pd pdindex t (a OR 3) s)) of
              Inl e \<Rightarrow> Some (Inl e)
            | Inr s \<Rightarrow> derive_loop pd (i + 4 * 1024 * 1024) s)
      else Some (Inr s))"

definition DeriveUserspaceDirectory :: "u32 \<Rightarrow> x86_paging \<Rightarrow> (fault + u32 \<times> x86_paging) option" where
  "DeriveUserspaceDirectory placement s =
     (case new_page_directory placement s of Inl e \<Rightarrow> Some (Inl e)
      | Inr (pd, s) \<Rightarrow> Option.bind (derive_loop pd 0xC0000000 s) (\<lambda>r. Some (rbind r (\<lambda>s. Inr (pd, s)))))"

section \<open>Initialisation\<close>

text \<open>
  The directory of the loader is identity mapped: \<open>loader\<close> gives its words at the address in CR3. Its page tables are read at their addresses.
\<close>

definition loader_table :: "(nat \<Rightarrow> u32) \<Rightarrow> nat \<Rightarrow> u32" where
  "loader_table loader i = loader i AND PAGEALIGN_MASK"

definition earlyFindPhysicalAddress :: "(nat \<Rightarrow> u32) \<Rightarrow> u32 \<Rightarrow> x86_paging \<Rightarrow> u32" where
  "earlyFindPhysicalAddress loader virt s =
     Frame (get_page (loader_table loader (pd_index virt)) (pt_index virt) s) + (virt AND OFFSET_MASK)"

definition copy_table :: "u32 \<Rightarrow> (nat \<Rightarrow> u32) \<Rightarrow> nat \<Rightarrow> x86_paging \<Rightarrow> fault + x86_paging" where
  "copy_table placement loader i s =
     (if loader i = 0 then Inr s
      else
        rbind (new_page_table placement s) (\<lambda>(ourTable, s).
        let s = s\<lparr>page_tables := (page_tables s)(ourTable := page_tables s (loader_table loader i))\<rparr>;
            physicalOfTable = earlyFindPhysicalAddress loader ourTable s
        in SetTable (kernel_directory s) i ourTable (physicalOfTable OR 3) s))"

primrec copy_tables :: "u32 \<Rightarrow> (nat \<Rightarrow> u32) \<Rightarrow> nat list \<Rightarrow> x86_paging \<Rightarrow> fault + x86_paging" where
  "copy_tables placement loader [] s = Inr s"
| "copy_tables placement loader (i # is) s = rbind (copy_table placement loader i s) (copy_tables placement loader is)"

definition paging_Init :: "u32 \<Rightarrow> (nat \<Rightarrow> u32) \<Rightarrow> x86_paging \<Rightarrow> fault + x86_paging" where
  "paging_Init placement loader s =
     rbind (new_page_directory placement s) (\<lambda>(d, s).
     rbind (copy_tables placement loader [1..<1024] (s\<lparr>kernel_directory := d\<rparr>)) (\<lambda>s.
     let s = s\<lparr>current_directory := kernel_directory s\<rparr>
     in Inr (s\<lparr>cr3 := earlyFindPhysicalAddress loader (kernel_directory s) s\<rparr>)))"

primrec create_tables :: "u32 \<Rightarrow> nat list \<Rightarrow> x86_paging \<Rightarrow> fault + x86_paging" where
  "create_tables placement [] s = Inr s"
| "create_tables placement (i # is) s =
     rbind (GetTable_assign placement (kernel_directory s) i s) (\<lambda>(_, s). create_tables placement is s)"

definition paging_InitDone :: "u32 \<Rightarrow> x86_paging \<Rightarrow> fault + x86_paging" where
  "paging_InitDone placement s = create_tables placement [769..<1024] s"

section \<open>Pages of addresses\<close>

definition page_no :: "u32 \<Rightarrow> nat" where
  "page_no v = unat v div 4096"

lemma index_values: "pd_index v = unat v div 4194304" "pt_index v = unat v div 4096 mod 1024"
proof -
  have "drop_bit 12 v AND 0x03FF = take_bit 10 (drop_bit 12 v)" by (simp add: take_bit_eq_mask mask_eq_exp_minus_1)
  then show "pt_index v = unat v div 4096 mod 1024" by (simp add: pt_index_def unat_mod unat_div drop_bit_eq_div take_bit_eq_mod)
qed (simp add: pd_index_def unat_div drop_bit_eq_div)

lemma index_bounds [simp]: "pd_index v < 1024" "pt_index v < 1024"
  using unat_bound32 [of v] by (simp_all add: index_values del: unat_bound32)

lemma same_page: "pd_index v = pd_index w \<and> pt_index v = pt_index w \<longleftrightarrow> page_no v = page_no w"
proof -
  have split: "pd_index v = page_no v div 1024" "pt_index v = page_no v mod 1024" for v
    by (simp_all add: index_values page_no_def div_mult2_eq [symmetric])
  show ?thesis unfolding split by (metis div_mult_mod_eq)
qed

lemma Frame_set_Frame [simp]: "Frame (set_Frame a p) = a AND PAGEALIGN_MASK"
proof -
  have m: "PAGEALIGN_MASK = NOT (mask 12)" "(0xFFFFF :: u32) = mask 20" by (simp_all add: PAGEALIGN_MASK_def mask_eq_exp_minus_1)
  show ?thesis unfolding Frame_def set_Frame_def m by (intro bit_word_eqI) (auto simp: bit_simps)
qed

lemma Frame_fields [simp]:
  "Frame (p\<lparr>pg_present := b\<rparr>) = Frame p" "Frame (p\<lparr>pg_rw := b\<rparr>) = Frame p" "Frame (p\<lparr>pg_user := b\<rparr>) = Frame p"
  by (simp_all add: Frame_def)

lemma offset_aligned: "4096 dvd unat v \<Longrightarrow> v AND OFFSET_MASK = 0"
proof -
  assume "4096 dvd unat v"
  moreover have "v AND OFFSET_MASK = take_bit 12 v" by (simp add: OFFSET_MASK_def take_bit_eq_mask mask_eq_exp_minus_1)
  moreover have "unat (take_bit 12 v) = unat v mod 4096" by (simp add: unat_mod take_bit_eq_mod)
  ultimately show ?thesis by (simp add: unat_eq_0 dvd_eq_mod_eq_0)
qed

section \<open>The mapping of a directory\<close>

definition table_of :: "x86_paging \<Rightarrow> u32 \<Rightarrow> u32" where
  "table_of s v = tables (page_directories s (current_directory s)) (pd_index v)"

definition page_of :: "x86_paging \<Rightarrow> u32 \<Rightarrow> x86Page option" where
  "page_of s v = (if table_of s v \<noteq> 0 \<and> pg_present (get_page (table_of s v) (pt_index v) s)
     then Some (get_page (table_of s v) (pt_index v) s) else None)"

lemma GetPhysicalAddress_page:
  "GetPhysicalAddress v s = Inr (case page_of s v of None \<Rightarrow> 0 | Some p \<Rightarrow> Frame p + (v AND OFFSET_MASK))"
  by (simp add: GetPhysicalAddress_def GetTable_def page_of_def table_of_def)

lemma page_of_no: "page_no v = page_no w \<Longrightarrow> page_of s v = page_of s w"
  by (simp add: page_of_def table_of_def flip: same_page)

text \<open>The placement region: 2 MB from the page-aligned address \<open>placement\<close>.\<close>

definition placement_ok :: "u32 \<Rightarrow> u32 \<Rightarrow> bool" where
  "placement_ok placement a \<longleftrightarrow> 4096 dvd unat placement \<and> 0 < unat placement \<and> unat placement + 0x200000 < 2 ^ 32 \<and>
     unat placement \<le> unat a \<and> unat a \<le> unat placement + 0x200000"

definition in_placement :: "u32 \<Rightarrow> u32 \<Rightarrow> bool" where
  "in_placement placement v \<longleftrightarrow> unat placement \<le> unat v \<and> unat v < unat placement + 0x200000"

text \<open>
  The invariant: the placement region is mapped, every table of the current directory is a page of the used part of that region, no two entries share
  a table, and the entry for the processor holds the physical address of the table, present and writable.
\<close>

definition paging_ok :: "u32 \<Rightarrow> x86_paging \<Rightarrow> bool" where
  "paging_ok placement s \<longleftrightarrow>
     (let pd = page_directories s (current_directory s)
      in placement_ok placement (placement_address s) \<and>
         (\<forall>v. in_placement placement v \<longrightarrow> page_of s v \<noteq> None) \<and>
         (\<forall>i < 1024. tables pd i \<noteq> 0 \<longrightarrow> 4096 dvd unat (tables pd i) \<and> unat placement \<le> unat (tables pd i) \<and>
            unat (tables pd i) + 4096 \<le> unat (placement_address s) \<and>
            (\<exists>p. page_of s (tables pd i) = Some p \<and> tablesPhysical pd i = Frame p OR 3)) \<and>
         (\<forall>i < 1024. \<forall>j < 1024. tables pd i \<noteq> 0 \<and> tables pd i = tables pd j \<longrightarrow> i = j))"

text \<open>Pages from the placement region: they lie behind the used part and inside the region.\<close>

lemma placement_pages:
  assumes "placement_ok placement pa" "4096 dvd unat len" "4096 \<le> unat len" "unat len \<le> 0x200000"
  shows "(unat placement + 0x200000 < unat pa + unat len \<and> placement_Allocate placement len True pa = Inl PanicPlacement) \<or>
    (\<exists>t a. placement_Allocate placement len True pa = Inr (t, a) \<and> 4096 dvd unat t \<and> t \<noteq> 0 \<and>
      unat pa \<le> unat t \<and> unat t < unat pa + 4096 \<and> unat a = unat t + unat len \<and> placement_ok placement a \<and>
      unat pa + unat len \<le> unat placement + 0x200000)"
proof -
  define b where "b = unat pa"
  define q where "q = unat placement"
  define n where "n = unat len"
  have q: "4096 dvd q" "0 < q" "q + 0x200000 < 4294967296" "q \<le> b" "b \<le> q + 0x200000" "4096 dvd n" "n \<le> 0x200000" "4096 \<le> n"
    using assms by (simp_all add: placement_ok_def q_def b_def n_def)
  have used: "unat (GetPlacementAllocatedSize placement pa) = b - q"
    using q(4) by (simp add: GetPlacementAllocatedSize_def unat_sub_le word_le_nat_alt q_def b_def)
  have len: "unat (GetPlacementAllocatedSize placement pa + len) = b - q + n"
    using q used by (subst unat_add32) (simp_all add: n_def)
  show ?thesis
  proof (cases "q + 0x200000 < b + n")
    case True
    then have "KERNEL_PLACEMENT_SIZE < GetPlacementAllocatedSize placement pa + len"
      using q(4) len by (simp add: word_less_nat_alt KERNEL_PLACEMENT_SIZE_def)
    then show ?thesis using True by (simp add: placement_Allocate_def q_def b_def n_def)
  next
    case False
    have no: "\<not> KERNEL_PLACEMENT_SIZE < GetPlacementAllocatedSize placement pa + len"
      using q(4) len False by (simp add: word_less_nat_alt KERNEL_PLACEMENT_SIZE_def)
    define t where "t = (if pa mod KERNEL_PAGE_SIZE \<noteq> 0 then (pa AND PAGEALIGN_MASK) + KERNEL_PAGE_SIZE else pa)"
    obtain k l m where klm: "b \<le> 4096 * k" "4096 * k < b + 4096" "q = 4096 * l" "n = 4096 * m" "b mod 4096 = 0 \<Longrightarrow> 4096 * k = b"
      "b mod 4096 \<noteq> 0 \<Longrightarrow> k = b div 4096 + 1"
    proof -
      define r c where "r = b div 4096" and "c = b mod 4096"
      have bc: "b = 4096 * r + c" "c < 4096" by (simp_all add: r_def c_def)
      obtain l m where lm: "q = 4096 * l" "n = 4096 * m" using q(1,6) by (auto elim!: dvdE)
      show thesis using that [of "if c = 0 then r else r + 1" l m] bc lm unfolding r_def [symmetric] c_def [symmetric] by simp
    qed
    have fit: "4096 * k + n \<le> q + 0x200000"
    proof -
      have "4096 * (k + m) < 4096 * (l + 513)" using klm(2-4) False by simp
      then have "k + m < l + 513" by (simp only: nat_mult_less_cancel_disj)
      then show ?thesis using klm(3,4) by simp
    qed
    have "pa mod KERNEL_PAGE_SIZE = 0 \<longleftrightarrow> b mod 4096 = 0"
      by (simp add: unat_mod KERNEL_PAGE_SIZE_def b_def flip: unat_eq_0)
    moreover have "unat pa < 4294963200" using False q(3,8) unfolding b_def by linarith
    ultimately have t: "unat t = 4096 * k"
      using klm(1,5,6) aligned_up [of pa] by (cases "b mod 4096 = 0") (auto simp: t_def b_def)
    have "unat (t + len) = unat t + n" using fit q(3) t by (subst unat_add32) (simp_all add: n_def)
    moreover have "unat t \<noteq> 0" using t klm(1) q by linarith
    then have "t \<noteq> 0" by auto
    ultimately show ?thesis using no t klm(1,2) fit q False
      by (intro disjI2 exI [of _ t] exI [of _ "t + len"])
        (simp add: placement_Allocate_def Let_def t_def [symmetric] q_def [symmetric] b_def [symmetric] n_def [symmetric] placement_ok_def)
  qed
qed

text \<open>The pages the region has left; a request succeeds exactly when it asks for no more.\<close>

definition placement_room :: "u32 \<Rightarrow> u32 \<Rightarrow> nat" where
  "placement_room placement a = (unat placement + 0x200000 - unat a) div 4096"

lemma placement_takes:
  assumes ok: "placement_ok placement pa" and len: "unat len = 4096 * m" "1 \<le> m" "m \<le> 512"
  shows "if m \<le> placement_room placement pa
    then \<exists>t a. placement_Allocate placement len True pa = Inr (t, a) \<and> 4096 dvd unat t \<and> t \<noteq> 0 \<and> unat pa \<le> unat t \<and>
      unat a = unat t + 4096 * m \<and> placement_ok placement a \<and> placement_room placement a = placement_room placement pa - m
    else placement_Allocate placement len True pa = Inl PanicPlacement"
proof -
  obtain e where e: "unat placement + 0x200000 = 4096 * e"
    using ok by (auto simp: placement_ok_def elim!: dvdE intro: that [of "_ + 512"])
  have le: "unat pa \<le> 4096 * e" using ok e by (simp add: placement_ok_def)
  have fits: "m \<le> placement_room placement pa \<longleftrightarrow> unat pa + 4096 * m \<le> 4096 * e"
    unfolding placement_room_def e using le by (auto simp: less_eq_div_iff_mult_less_eq)
  have "4096 dvd unat len" "4096 \<le> unat len" "unat len \<le> 0x200000" using len by simp_all
  from placement_pages [OF ok this] show ?thesis
  proof (elim disjE exE conjE)
    fix t a
    assume x: "placement_Allocate placement len True pa = Inr (t, a)" "4096 dvd unat t" "t \<noteq> 0" "unat pa \<le> unat t" "unat t < unat pa + 4096"
      "unat a = unat t + unat len" "placement_ok placement a" "unat pa + unat len \<le> unat placement + 0x200000"
    obtain k where k: "unat t = 4096 * k" using x(2) by (elim dvdE)
    have a: "unat a = 4096 * (k + m)" using x(6) k len(1) by simp
    have "4096 * (k + m) \<le> 4096 * e" using x(7) a e by (simp add: placement_ok_def)
    then have km: "k + m \<le> e" by simp
    have "placement_room placement a = e - (k + m)" unfolding placement_room_def e a by (simp flip: diff_mult_distrib2)
    moreover have "placement_room placement pa = e - k"
      unfolding placement_room_def e
    proof (rule div_nat_eqI)
      show "4096 * (e - k) \<le> 4096 * e - unat pa" using x(4) k by (simp add: diff_mult_distrib2)
      have "4096 * e - unat pa < 4096 * e - 4096 * k + 4096" using x(5) k km le by simp
      then show "4096 * e - unat pa < 4096 * Suc (e - k)" by (simp add: diff_mult_distrib2)
    qed
    ultimately show ?thesis using x fits e len(1) by auto
  qed (use fits e len(1) in simp)
qed

lemma paging_okD:
  assumes "paging_ok placement s"
  shows "4096 dvd unat placement" "0 < unat placement" "unat placement + 0x200000 < 2 ^ 32"
    "unat placement \<le> unat (placement_address s)" "unat (placement_address s) \<le> unat placement + 0x200000"
    "in_placement placement v \<Longrightarrow> page_of s v \<noteq> None"
    "table_of s v \<noteq> 0 \<Longrightarrow> 4096 dvd unat (table_of s v) \<and> unat placement \<le> unat (table_of s v) \<and> unat (table_of s v) + 4096 \<le> unat (placement_address s)"
    "i < 1024 \<Longrightarrow> tables (page_directories s (current_directory s)) i \<noteq> 0 \<Longrightarrow>
       unat (tables (page_directories s (current_directory s)) i) + 4096 \<le> unat (placement_address s)"
  using assms by (simp_all add: paging_ok_def placement_ok_def Let_def table_of_def)

text \<open>A table at an address where no table is changes no mapping.\<close>

lemma page_of_fresh:
  assumes "\<And>v. table_of s v \<noteq> t"
  shows "page_of (s\<lparr>placement_address := a, page_tables := (page_tables s)(t := f)\<rparr>) v = page_of s v"
  using assms [of v] by (simp add: page_of_def table_of_def get_page_def)

lemma SetTable_new:
  assumes "i < 1024" "tables (page_directories s (current_directory s)) i = 0" "\<And>j. \<not> pg_present (page_tables s t j)"
  shows "\<exists>s'. SetTable (current_directory s) i t a s = Inr s' \<and> page_of s' = page_of s \<and> placement_address s' = placement_address s \<and>
    current_directory s' = current_directory s \<and> kernel_directory s' = kernel_directory s \<and> cr3 s' = cr3 s \<and> page_tables s' = page_tables s \<and>
    tables (page_directories s' (current_directory s)) = (tables (page_directories s (current_directory s)))(i := t) \<and>
    tablesPhysical (page_directories s' (current_directory s)) = (tablesPhysical (page_directories s (current_directory s)))(i := a)"
  using assms by (auto simp: SetTable_def Let_def page_of_def table_of_def get_page_def fun_eq_iff)

text \<open>
  The entries of the current directory that have a table. A table that is made takes a page of the placement region, so the pages left and the tables
  made add up to the same number: an operation succeeds exactly when the tables it needs do not outnumber the pages.
\<close>

definition tables_made :: "x86_paging \<Rightarrow> nat set" where
  "tables_made s = {i. i < 1024 \<and> tables (page_directories s (current_directory s)) i \<noteq> 0}"

lemma tables_made_finite [simp]: "finite (tables_made s)"
  by (simp add: tables_made_def)

lemma table_of_made: "table_of s v \<noteq> 0 \<longleftrightarrow> pd_index v \<in> tables_made s"
  by (simp add: table_of_def tables_made_def)

definition made_table :: "u32 \<Rightarrow> nat \<Rightarrow> x86_paging \<Rightarrow> x86_paging \<Rightarrow> bool" where
  "made_table placement i s s' \<longleftrightarrow> tables_made s' = insert i (tables_made s) \<and>
     placement_room placement (placement_address s') + card (tables_made s') = placement_room placement (placement_address s) + card (tables_made s) \<and>
     current_directory s' = current_directory s \<and> kernel_directory s' = kernel_directory s \<and> cr3 s' = cr3 s"

lemma GetTable_assign_new:
  assumes ok: "paging_ok placement s" and i: "i < 1024" "tables (page_directories s (current_directory s)) i = 0"
    and a: "placement_Allocate placement 0x1000 True (placement_address s) = Inr (t, a)" "4096 dvd unat t" "t \<noteq> 0"
      "unat (placement_address s) \<le> unat t" "unat a = unat t + 4096" "placement_ok placement a"
  shows "\<exists>s'. GetTable_assign placement (current_directory s) i s = Inr (t, s') \<and> paging_ok placement s' \<and> placement_address s' = a \<and>
      tables (page_directories s' (current_directory s)) = (tables (page_directories s (current_directory s)))(i := t) \<and> page_of s' = page_of s \<and>
      current_directory s' = current_directory s \<and> kernel_directory s' = kernel_directory s \<and> cr3 s' = cr3 s"
proof -
  let ?d = "current_directory s" and ?pd = "page_directories s (current_directory s)"
  define s1 where "s1 = s\<lparr>placement_address := a, page_tables := (page_tables s)(t := (\<lambda>_. new_x86Page))\<rparr>"
  have other: "tables ?pd j \<noteq> t" if "j < 1024" for j
  proof (cases "tables ?pd j = 0")
    case False
    from paging_okD(8) [OF ok that this] a(4) show ?thesis by auto
  qed (use a(3) in simp)
  then have pages1: "page_of s1 = page_of s"
    unfolding s1_def by (intro ext page_of_fresh) (simp add: table_of_def)
  have d1: "current_directory s1 = ?d" "page_directories s1 = page_directories s" "kernel_directory s1 = kernel_directory s" "cr3 s1 = cr3 s"
    "placement_address s1 = a" by (simp_all add: s1_def)
  obtain p where p: "page_of s t = Some p"
    using paging_okD(6) [OF ok, of t] paging_okD(4) [OF ok] a(4-6) by (auto simp: in_placement_def placement_ok_def)
  have phys: "GetPhysicalAddress t s1 = Inr (Frame p)"
    using p offset_aligned [OF a(2)] by (simp add: GetPhysicalAddress_page pages1)
  obtain s2 where s2: "SetTable ?d i t (Frame p OR 3) s1 = Inr s2" "page_of s2 = page_of s" "placement_address s2 = a"
    "current_directory s2 = ?d" "kernel_directory s2 = kernel_directory s" "cr3 s2 = cr3 s" "tables (page_directories s2 ?d) = (tables ?pd)(i := t)"
    "tablesPhysical (page_directories s2 ?d) = (tablesPhysical ?pd)(i := Frame p OR 3)"
    using SetTable_new [of i s1 t "Frame p OR 3"] i d1 pages1 by (auto simp: s1_def new_x86Page_def)
  have "GetTable_assign placement ?d i s = Inr (t, s2)"
    using i a(1) phys s2(1,4,7) by (simp add: GetTable_assign_def GetTable_def new_page_table_def s1_def [symmetric])
  moreover have "unat (placement_address s) \<le> unat a" "unat placement \<le> unat t" using a paging_okD(4) [OF ok] by simp_all
  then have "paging_ok placement s2"
    using ok a p other [THEN not_sym] other i unfolding paging_ok_def s2(2-4,7,8) Let_def by auto
  ultimately show ?thesis using s2 by blast
qed

lemma GetTable_assign_works:
  assumes ok: "paging_ok placement s" and i: "i < 1024"
  shows "if i \<notin> tables_made s \<and> placement_room placement (placement_address s) = 0
    then GetTable_assign placement (current_directory s) i s = Inl PanicPlacement
    else \<exists>t s'. GetTable_assign placement (current_directory s) i s = Inr (t, s') \<and> paging_ok placement s' \<and> t \<noteq> 0 \<and>
      tables (page_directories s' (current_directory s)) i = t \<and> page_of s' = page_of s \<and> made_table placement i s s'"
proof (cases "i \<in> tables_made s")
  case True
  then show ?thesis using assms by (auto simp: GetTable_assign_def GetTable_def tables_made_def made_table_def)
next
  case False
  then have i0: "tables (page_directories s (current_directory s)) i = 0" using i by (simp add: tables_made_def)
  have pl: "placement_ok placement (placement_address s)" using ok by (simp add: paging_ok_def Let_def)
  note pt = placement_takes [OF pl, of "0x1000" 1]
  show ?thesis
  proof (cases "placement_room placement (placement_address s) = 0")
    case True
    then show ?thesis using False pt i i0 by (simp add: GetTable_assign_def GetTable_def new_page_table_def)
  next
    case room: False
    then obtain t a where a: "placement_Allocate placement 0x1000 True (placement_address s) = Inr (t, a)" "4096 dvd unat t" "t \<noteq> 0"
      "unat (placement_address s) \<le> unat t" "unat a = unat t + 4096" "placement_ok placement a"
      "placement_room placement a = placement_room placement (placement_address s) - 1" using pt by auto
    from GetTable_assign_new [OF ok i i0 a(1-6)] obtain s' where s': "GetTable_assign placement (current_directory s) i s = Inr (t, s')"
      "paging_ok placement s'" "placement_address s' = a"
      "tables (page_directories s' (current_directory s)) = (tables (page_directories s (current_directory s)))(i := t)" "page_of s' = page_of s"
      "current_directory s' = current_directory s" "kernel_directory s' = kernel_directory s" "cr3 s' = cr3 s" by blast
    have "tables_made s' = insert i (tables_made s)" using s'(4,6) i a(3) by (auto simp: tables_made_def)
    then have "made_table placement i s s'" using s'(3,6-8) a(7) room False by (simp add: made_table_def)
    then show ?thesis using s' a(3) room by auto
  qed
qed

lemma in_placement_page:
  assumes "4096 dvd unat placement" "page_no v = page_no w"
  shows "in_placement placement v \<longleftrightarrow> in_placement placement w"
proof -
  obtain k where k: "unat placement = 4096 * k" using assms(1) by (auto elim: dvdE)
  have "in_placement placement v \<longleftrightarrow> k \<le> page_no v \<and> page_no v < k + 512" for v
    using mult_div_mod_eq [of 4096 "unat v"] mod_less_divisor [of 4096 "unat v"]
    unfolding in_placement_def page_no_def k by linarith
  then show ?thesis using assms(2) by simp
qed

lemma set_page_works:
  assumes ok: "paging_ok placement s" and v: "table_of s v \<noteq> 0" "\<not> in_placement placement v"
  shows "page_of (set_page (table_of s v) (pt_index v) p s) =
      (\<lambda>w. if page_no w = page_no v then if pg_present p then Some p else None else page_of s w)"
    "paging_ok placement (set_page (table_of s v) (pt_index v) p s)"
proof -
  let ?s = "set_page (table_of s v) (pt_index v) p s"
  have inj: "pd_index w = pd_index v" if "table_of s w = table_of s v" for w
    using ok that v(1) unfolding paging_ok_def Let_def table_of_def by (metis index_bounds(1))
  have t: "table_of ?s w = table_of s w" for w by (simp add: table_of_def set_page_def)
  have same: "table_of s w = table_of s v \<and> pt_index w = pt_index v \<longleftrightarrow> page_no w = page_no v" for w
    using inj [of w] same_page [of w v] by (auto simp: table_of_def)
  have g: "get_page (table_of s w) (pt_index w) ?s =
      (if page_no w = page_no v then p else get_page (table_of s w) (pt_index w) s)" for w
    unfolding same [symmetric] by (auto simp: get_page_def set_page_def)
  have v0: "table_of s w \<noteq> 0" if "page_no w = page_no v" for w using that v(1) same by metis
  show pages: "page_of ?s = (\<lambda>w. if page_no w = page_no v then if pg_present p then Some p else None else page_of s w)"
    using v0 by (auto simp: fun_eq_iff page_of_def t g)
  have dir: "page_directories ?s = page_directories s" "current_directory ?s = current_directory s" "placement_address ?s = placement_address s"
    by (simp_all add: set_page_def)
  have keep: "page_of ?s w = page_of s w" if "in_placement placement w" for w
    using that v(2) in_placement_page [OF paging_okD(1) [OF ok], of w v] by (auto simp: pages)
  have reg: "in_placement placement (tables (page_directories s (current_directory s)) i)"
    if "i < 1024" "tables (page_directories s (current_directory s)) i \<noteq> 0" for i
    using ok that unfolding paging_ok_def placement_ok_def Let_def in_placement_def by fastforce
  have "\<forall>w. in_placement placement w \<longrightarrow> page_of ?s w \<noteq> None"
    using keep paging_okD(6) [OF ok] by simp
  moreover have "page_of ?s (tables (page_directories s (current_directory s)) i) = page_of s (tables (page_directories s (current_directory s)) i)"
    if "i < 1024" "tables (page_directories s (current_directory s)) i \<noteq> 0" for i
    using keep [OF reg [OF that]] .
  ultimately show "paging_ok placement ?s"
    using ok unfolding paging_ok_def Let_def dir by (elim conjE) (intro conjI, assumption+, simp, assumption)
qed

text \<open>Mapping an address outside the placement region changes the translation of its page and of nothing else.\<close>

lemma MapAddress_works:
  assumes ok: "paging_ok placement s" and v: "\<not> in_placement placement v"
  shows "if pd_index v \<notin> tables_made s \<and> placement_room placement (placement_address s) = 0
    then MapAddress placement v phys rw um s = Inl PanicPlacement
    else \<exists>s' p. MapAddress placement v phys rw um s = Inr s' \<and> paging_ok placement s' \<and>
      page_of s' = (\<lambda>w. if page_no w = page_no v then Some p else page_of s w) \<and>
      Frame p = phys AND PAGEALIGN_MASK \<and> pg_rw p = rw \<and> pg_user p = um \<and> made_table placement (pd_index v) s s'"
proof (cases "pd_index v \<notin> tables_made s \<and> placement_room placement (placement_address s) = 0")
  case True
  then show ?thesis using GetTable_assign_works [OF ok index_bounds(1), of v] by (simp add: MapAddress_def)
next
  case False
  with GetTable_assign_works [OF ok index_bounds(1), of v] obtain t s1 where
    g: "GetTable_assign placement (current_directory s) (pd_index v) s = Inr (t, s1)" "paging_ok placement s1" "t \<noteq> 0"
    "tables (page_directories s1 (current_directory s)) (pd_index v) = t" "page_of s1 = page_of s" "made_table placement (pd_index v) s s1"
    by (auto split: if_splits)
  let ?p0 = "get_page t (pt_index v) s1"
  define p where "p = set_Frame phys (if \<not> pg_present ?p0 then ?p0\<lparr>pg_present := True\<rparr> else ?p0)\<lparr>pg_rw := rw, pg_user := um\<rparr>"
  let ?s = "set_page t (pt_index v) p s1"
  have t: "table_of s1 v = t" using g(4,6) by (simp add: table_of_def made_table_def)
  have p: "pg_present p" "Frame p = phys AND PAGEALIGN_MASK" "pg_rw p = rw" "pg_user p = um"
    by (simp_all add: p_def) (simp add: set_Frame_def)
  have m: "MapAddress placement v phys rw um s = Inr ?s" by (simp add: MapAddress_def g(1) p_def Let_def)
  note s = set_page_works [OF g(2), of v p, unfolded t, OF g(3) v]
  have "made_table placement (pd_index v) s ?s = made_table placement (pd_index v) s s1"
    by (simp add: made_table_def tables_made_def set_page_def)
  then have mt: "made_table placement (pd_index v) s ?s" using g(6) by (simp only:)
  have "page_of ?s = (\<lambda>w. if page_no w = page_no v then Some p else page_of s w)" unfolding s(1) using p(1) g(5) by (simp cong: if_cong)
  then show ?thesis unfolding if_not_P [OF False] using m s(2) p(2-4) mt by blast
qed

lemma UnmapAddress_works:
  assumes ok: "paging_ok placement s" and v: "\<not> in_placement placement v" "table_of s v \<noteq> 0"
  shows "\<exists>s'. UnmapAddress placement v s = Inr s' \<and> paging_ok placement s' \<and>
      page_of s' = (\<lambda>w. if page_no w = page_no v then None else page_of s w) \<and>
      current_directory s' = current_directory s \<and> kernel_directory s' = kernel_directory s \<and> cr3 s' = cr3 s"
proof -
  let ?p = "(set_Frame 0 (get_page (table_of s v) (pt_index v) s\<lparr>pg_present := False\<rparr>))\<lparr>pg_rw := False\<rparr>"
  have "GetTable_assign placement (current_directory s) (pd_index v) s = Inr (table_of s v, s)"
    using v(2) by (simp add: GetTable_assign_def GetTable_def table_of_def)
  then have "UnmapAddress placement v s = Inr (set_page (table_of s v) (pt_index v) ?p s)" by (simp add: UnmapAddress_def Let_def)
  moreover have "\<not> pg_present ?p" by (simp add: set_Frame_def)
  ultimately show ?thesis using set_page_works [OF ok v(2,1), of ?p] by (simp add: set_page_def)
qed

lemma IsPresent_page: "paging_ok placement s \<Longrightarrow> IsPresent v s = Inr (page_of s v \<noteq> None)"
proof -
  assume ok: "paging_ok placement s"
  have "(x OR 3) AND 1 = (1 :: u32)" for x by (intro bit_word_eqI) (auto simp: bit_simps)
  then have "tablesPhysical (page_directories s (current_directory s)) (pd_index v) AND 1 = 1" if "table_of s v \<noteq> 0"
    using ok that unfolding paging_ok_def Let_def table_of_def by (metis index_bounds(1))
  then show ?thesis by (auto simp: IsPresent_def GetTable_def GetTablePhysical_def page_of_def table_of_def)
qed

section \<open>Taking over the mapping of the loader\<close>

definition loader_page :: "(nat \<Rightarrow> u32) \<Rightarrow> x86_paging \<Rightarrow> u32 \<Rightarrow> x86Page option" where
  "loader_page loader s v =
     (let p = get_page (loader_table loader (pd_index v)) (pt_index v) s
      in if loader (pd_index v) \<noteq> 0 \<and> pg_present p then Some p else None)"

text \<open>What the loader promises: the placement region is mapped above 4 MB and its own tables are not in it.\<close>

definition loader_ok :: "u32 \<Rightarrow> (nat \<Rightarrow> u32) \<Rightarrow> x86_paging \<Rightarrow> bool" where
  "loader_ok placement loader s \<longleftrightarrow> placement_ok placement (placement_address s) \<and> 4194304 \<le> unat placement \<and>
     (\<forall>v. in_placement placement v \<longrightarrow> loader_page loader s v \<noteq> None) \<and>
     (\<forall>i < 1024. loader i \<noteq> 0 \<longrightarrow> \<not> in_placement placement (loader_table loader i))"

text \<open>The state when the tables of the entries in \<open>A\<close> have been copied.\<close>

definition copied :: "u32 \<Rightarrow> (nat \<Rightarrow> u32) \<Rightarrow> x86_paging \<Rightarrow> nat set \<Rightarrow> x86_paging \<Rightarrow> bool" where
  "copied placement loader s0 A s \<longleftrightarrow>
     (let pd = page_directories s (kernel_directory s)
      in placement_ok placement (placement_address s) \<and>
         (\<forall>i < 1024. tables pd i \<noteq> 0 \<longleftrightarrow> i \<in> A \<and> loader i \<noteq> 0) \<and>
         (\<forall>i < 1024. tables pd i \<noteq> 0 \<longrightarrow> 4096 dvd unat (tables pd i) \<and> unat placement \<le> unat (tables pd i) \<and>
            unat (tables pd i) + 4096 \<le> unat (placement_address s) \<and>
            page_tables s (tables pd i) = page_tables s0 (loader_table loader i) \<and>
            tablesPhysical pd i = earlyFindPhysicalAddress loader (tables pd i) s0 OR 3) \<and>
         (\<forall>i < 1024. \<forall>j < 1024. tables pd i \<noteq> 0 \<and> tables pd i = tables pd j \<longrightarrow> i = j) \<and>
         (\<forall>a. \<not> in_placement placement a \<longrightarrow> page_tables s a = page_tables s0 a))"

lemma early_unchanged:
  assumes "loader_ok placement loader s0" "\<And>a. \<not> in_placement placement a \<Longrightarrow> page_tables s a = page_tables s0 a" "in_placement placement v"
  shows "earlyFindPhysicalAddress loader v s = earlyFindPhysicalAddress loader v s0"
proof -
  have "loader (pd_index v) \<noteq> 0" using assms(1,3) by (auto simp: loader_ok_def loader_page_def Let_def split: if_splits)
  then have "\<not> in_placement placement (loader_table loader (pd_index v))" using assms(1) by (simp add: loader_ok_def)
  then show ?thesis by (simp add: earlyFindPhysicalAddress_def get_page_def assms(2))
qed

text \<open>The tables of the loader among the entries \<open>is\<close>.\<close>

definition loader_tables :: "(nat \<Rightarrow> u32) \<Rightarrow> nat list \<Rightarrow> nat" where
  "loader_tables loader is = length (filter (\<lambda>i. loader i \<noteq> 0) is)"

lemma copy_table_step:
  assumes l: "loader_ok placement loader s0" and c: "copied placement loader s0 A s" and i: "i < 1024" "i \<notin> A"
  shows "if loader_tables loader [i] \<le> placement_room placement (placement_address s)
    then \<exists>s'. copy_table placement loader i s = Inr s' \<and> copied placement loader s0 (insert i A) s' \<and> kernel_directory s' = kernel_directory s \<and>
      placement_room placement (placement_address s') = placement_room placement (placement_address s) - loader_tables loader [i]
    else copy_table placement loader i s = Inl PanicPlacement"
proof (cases "loader i = 0")
  case True
  then have "copied placement loader s0 (insert i A) s" using c unfolding copied_def Let_def by auto
  then show ?thesis using True by (simp add: copy_table_def loader_tables_def)
next
  case False
  let ?pd = "page_directories s (kernel_directory s)"
  have pl: "placement_ok placement (placement_address s)" using c by (simp add: copied_def Let_def)
  have one: "loader_tables loader [i] = 1" using False by (simp add: loader_tables_def)
  note pt = placement_takes [OF pl, of "0x1000" 1]
  consider "placement_room placement (placement_address s) = 0" "placement_Allocate placement 0x1000 True (placement_address s) = Inl PanicPlacement"
    | t a where "placement_Allocate placement 0x1000 True (placement_address s) = Inr (t, a)" "4096 dvd unat t" "t \<noteq> 0"
      "unat (placement_address s) \<le> unat t" "unat a = unat t + 4096" "placement_ok placement a" "placement_room placement (placement_address s) \<noteq> 0"
      "placement_room placement a = placement_room placement (placement_address s) - 1"
    using pt by (cases "placement_room placement (placement_address s) = 0") auto
  then show ?thesis
  proof cases
    case 1
    then show ?thesis using False one by (simp add: copy_table_def new_page_table_def)
  next
    case 2
    have t: "in_placement placement t" "unat placement \<le> unat t" using 2(4-6) pl by (auto simp: in_placement_def placement_ok_def)
    have lt: "\<not> in_placement placement (loader_table loader i)" using l i False by (simp add: loader_ok_def)
    have keep: "page_tables s b = page_tables s0 b" if "\<not> in_placement placement b" for b using c that by (simp add: copied_def Let_def)
    have other: "tables ?pd j \<noteq> t" if "j < 1024" for j
    proof
      assume e: "tables ?pd j = t"
      then have "unat t + 4096 \<le> unat (placement_address s)" using c that 2(3) unfolding copied_def Let_def by blast
      then show False using 2(4) by simp
    qed
    define s2 where "s2 = s\<lparr>placement_address := a, page_tables := (page_tables s)(t := page_tables s0 (loader_table loader i))\<rparr>"
    define pd where "pd = ?pd\<lparr>tablesPhysical := (tablesPhysical ?pd)(i := earlyFindPhysicalAddress loader t s0 OR 3), tables := (tables ?pd)(i := t)\<rparr>"
    define s3 where "s3 = s2\<lparr>page_directories := (page_directories s)(kernel_directory s := pd)\<rparr>"
    have "loader_table loader i \<noteq> t" using lt t(1) by metis
    moreover have "earlyFindPhysicalAddress loader t s2 = earlyFindPhysicalAddress loader t s0"
      using l _ t(1) by (rule early_unchanged) (use keep t(1) in \<open>auto simp: s2_def\<close>)
    ultimately have "copy_table placement loader i s = Inr s3"
      using False i(1) 2(1) keep [OF lt]
      by (simp add: copy_table_def new_page_table_def SetTable_def Let_def s2_def s3_def pd_def)
    moreover have d3: "page_directories s3 (kernel_directory s3) = pd" "placement_address s3 = a"
      "page_tables s3 = (page_tables s)(t := page_tables s0 (loader_table loader i))" "kernel_directory s3 = kernel_directory s"
      by (simp_all add: s3_def s2_def)
    moreover have "copied placement loader s0 (insert i A) s3"
    proof -
      have i0: "tables ?pd i = 0" using c i unfolding copied_def Let_def by blast
      have less: "unat (placement_address s) \<le> unat a" using 2(4,5) by simp
      note c = c [unfolded copied_def Let_def]
      have ti: "tables pd i = t" "tablesPhysical pd i = earlyFindPhysicalAddress loader t s0 OR 3" by (simp_all add: pd_def)
      have tj: "tables pd j = tables ?pd j" "tablesPhysical pd j = tablesPhysical ?pd j" if "j \<noteq> i" for j using that by (simp_all add: pd_def)
      have used: "tables pd j \<noteq> 0 \<longleftrightarrow> j \<in> insert i A \<and> loader j \<noteq> 0" if "j < 1024" for j
        using c that 2(3) False by (cases "j = i") (auto simp: ti tj)
      have entry: "4096 dvd unat (tables pd j) \<and> unat placement \<le> unat (tables pd j) \<and> unat (tables pd j) + 4096 \<le> unat a \<and>
          page_tables s3 (tables pd j) = page_tables s0 (loader_table loader j) \<and>
          tablesPhysical pd j = earlyFindPhysicalAddress loader (tables pd j) s0 OR 3" if "j < 1024" "tables pd j \<noteq> 0" for j
      proof (cases "j = i")
        case False
        then show ?thesis using c that other [OF that(1)] less by (auto simp: tj d3)
      qed (use 2 t in \<open>simp add: ti d3\<close>)
      have inj: "j = k" if "j < 1024" "k < 1024" "tables pd j \<noteq> 0" "tables pd j = tables pd k" for j k
      proof (cases "j = i \<or> k = i")
        case True
        then show ?thesis using that other [of j] other [of k] by (auto simp: ti tj) (metis ti(1) tj(1))+
      next
        case False
        then show ?thesis using c that by (simp add: tj)
      qed
      have "page_tables s3 b = page_tables s0 b" if "\<not> in_placement placement b" for b using keep [OF that] that t(1) by (auto simp: d3)
      then show ?thesis unfolding copied_def Let_def d3(1,2) using 2(6) used entry inj by blast
    qed
    ultimately show ?thesis using 2(7,8) by (simp add: one Suc_le_eq)
  qed
qed

lemma copy_tables_works:
  assumes "loader_ok placement loader s0" "copied placement loader s0 A s" "set is \<subseteq> {..<1024} - A" "distinct is"
  shows "if loader_tables loader is \<le> placement_room placement (placement_address s)
    then \<exists>s'. copy_tables placement loader is s = Inr s' \<and> copied placement loader s0 (A \<union> set is) s' \<and> kernel_directory s' = kernel_directory s
    else copy_tables placement loader is s = Inl PanicPlacement"
  using assms(2-)
proof (induction "is" arbitrary: A s)
  case Nil
  then show ?case by (simp add: loader_tables_def)
next
  case (Cons i "is")
  let ?room = "\<lambda>s. placement_room placement (placement_address s)"
  have sum: "loader_tables loader (i # is) = loader_tables loader [i] + loader_tables loader is" by (simp add: loader_tables_def)
  have "i < 1024" "i \<notin> A" using Cons.prems(2) by auto
  note step = copy_table_step [OF assms(1) Cons.prems(1) this]
  show ?case
  proof (cases "loader_tables loader [i] \<le> ?room s")
    case False
    then show ?thesis using step by (simp add: sum)
  next
    case True
    then obtain s1 where s1: "copy_table placement loader i s = Inr s1" "copied placement loader s0 (insert i A) s1" "kernel_directory s1 = kernel_directory s"
      "?room s1 = ?room s - loader_tables loader [i]" using step by auto
    have "set is \<subseteq> {..<1024} - insert i A" "distinct is" using Cons.prems(2,3) by auto
    note ih = Cons.IH [OF s1(2) this]
    have iff: "loader_tables loader is \<le> ?room s1 \<longleftrightarrow> loader_tables loader (i # is) \<le> ?room s" using s1(4) True by (auto simp: sum)
    have run: "copy_tables placement loader (i # is) s = copy_tables placement loader is s1" by (simp add: s1(1))
    have "insert i A \<union> set is = A \<union> set (i # is)" by auto
    then show ?thesis using ih unfolding iff run s1(3) by (simp only:)
  qed
qed

lemma new_page_directory_works:
  assumes "placement_ok placement (placement_address s)"
  shows "if 2 \<le> placement_room placement (placement_address s)
    then \<exists>d a. new_page_directory placement s = Inr (d, s\<lparr>placement_address := a, page_directories := (page_directories s)(d := new_x86PageDirectory)\<rparr>) \<and>
      placement_ok placement a \<and> 4096 dvd unat d \<and> in_placement placement d \<and>
      placement_room placement a = placement_room placement (placement_address s) - 2
    else new_page_directory placement s = Inl PanicPlacement"
proof (cases "2 \<le> placement_room placement (placement_address s)")
  case True
  with placement_takes [OF assms, of "0x2000" 2] obtain t a where
    x: "placement_Allocate placement 0x2000 True (placement_address s) = Inr (t, a)" "4096 dvd unat t" "unat (placement_address s) \<le> unat t"
      "unat a = unat t + 0x2000" "placement_ok placement a" "placement_room placement a = placement_room placement (placement_address s) - 2" by auto
  then have "in_placement placement t" using assms by (simp add: in_placement_def placement_ok_def)
  then show ?thesis using True x by (simp add: new_page_directory_def) (intro exI [of _ a] conjI refl)
qed (use placement_takes [OF assms, of "0x2000" 2] in \<open>simp add: new_page_directory_def\<close>)

lemma early_physical:
  assumes "copied placement loader s0 {1..<1024} s" "loader_ok placement loader s0" "in_placement placement v" "current_directory s = kernel_directory s"
  shows "GetPhysicalAddress v s = Inr (earlyFindPhysicalAddress loader v s0)"
    "4096 dvd unat v \<Longrightarrow> \<exists>p. page_of s v = Some p \<and> earlyFindPhysicalAddress loader v s0 = Frame p"
proof -
  have l: "loader (pd_index v) \<noteq> 0" "pg_present (get_page (loader_table loader (pd_index v)) (pt_index v) s0)"
    using assms(2,3) by (auto simp: loader_ok_def loader_page_def Let_def split: if_splits)
  have "4194304 \<le> unat v" using assms(2,3) by (simp add: loader_ok_def in_placement_def)
  then have "1 \<le> pd_index v" by (simp add: index_values)
  then have p: "table_of s v \<noteq> 0" "page_tables s (table_of s v) = page_tables s0 (loader_table loader (pd_index v))"
    using assms(1,4) l(1) unfolding copied_def Let_def table_of_def by (metis atLeastLessThan_iff index_bounds(1))+
  then have "page_of s v = Some (get_page (loader_table loader (pd_index v)) (pt_index v) s0)"
    using l(2) by (simp add: page_of_def get_page_def)
  then show "GetPhysicalAddress v s = Inr (earlyFindPhysicalAddress loader v s0)"
      "4096 dvd unat v \<Longrightarrow> \<exists>p. page_of s v = Some p \<and> earlyFindPhysicalAddress loader v s0 = Frame p"
    by (simp_all add: GetPhysicalAddress_page earlyFindPhysicalAddress_def offset_aligned)
qed

text \<open>The state when all tables are copied and the kernel has changed to its directory.\<close>

lemma taken_over:
  assumes l: "loader_ok placement loader s" and c: "copied placement loader s {1..<1024} s3" and k: "current_directory s3 = kernel_directory s3"
  shows "paging_ok placement s3" "page_of s3 = (\<lambda>v. if 4194304 \<le> unat v then loader_page loader s v else None)"
proof -
  note c' = c [unfolded copied_def Let_def]
  have used: "table_of s3 v \<noteq> 0 \<longleftrightarrow> 1 \<le> pd_index v \<and> loader (pd_index v) \<noteq> 0" for v
    using c' by (simp add: table_of_def k del: set_upt)
  have table: "page_tables s3 (table_of s3 v) = page_tables s (loader_table loader (pd_index v))" if "table_of s3 v \<noteq> 0" for v
    using c' that unfolding table_of_def k by (metis index_bounds(1))
  have four: "1 \<le> pd_index v \<longleftrightarrow> 4194304 \<le> unat v" for v by (simp add: index_values) (simp add: div_greater_zero_iff Suc_le_eq)
  show pages: "page_of s3 = (\<lambda>v. if 4194304 \<le> unat v then loader_page loader s v else None)"
    using used table four by (auto simp: fun_eq_iff page_of_def loader_page_def Let_def get_page_def)
  have mapped: "page_of s3 v \<noteq> None" if "in_placement placement v" for v
    using that l by (simp add: pages loader_ok_def in_placement_def)
  have entry: "\<exists>p. page_of s3 t = Some p \<and> earlyFindPhysicalAddress loader t s OR 3 = Frame p OR 3"
    if "in_placement placement t" "4096 dvd unat t" for t
    using early_physical(2) [OF c l that(1) k that(2)] by auto
  have inside: "in_placement placement t" if "unat placement \<le> unat t" "unat t + 4096 \<le> unat (placement_address s3)" for t
    using that c' by (simp add: in_placement_def placement_ok_def)
  show "paging_ok placement s3"
    unfolding paging_ok_def Let_def k
  proof (intro conjI allI impI)
    show "placement_ok placement (placement_address s3)" using c' by blast
  next
    fix i assume i: "i < 1024" "tables (page_directories s3 (kernel_directory s3)) i \<noteq> 0"
    then show "\<exists>p. page_of s3 (tables (page_directories s3 (kernel_directory s3)) i) = Some p \<and>
        tablesPhysical (page_directories s3 (kernel_directory s3)) i = Frame p OR 3"
      using c' entry inside by metis
  qed (use c' mapped in \<open>blast+\<close>)
qed

lemma paging_Init_works:
  assumes l: "loader_ok placement loader s" and room: "2 + loader_tables loader [1..<1024] \<le> placement_room placement (placement_address s)"
  shows "\<exists>s'. paging_Init placement loader s = Inr s' \<and> paging_ok placement s' \<and> current_directory s' = kernel_directory s' \<and>
      page_of s' = (\<lambda>v. if 4194304 \<le> unat v then loader_page loader s v else None) \<and> GetPhysicalAddress (kernel_directory s') s' = Inr (cr3 s')"
proof -
  have "placement_ok placement (placement_address s)" using l by (simp add: loader_ok_def)
  from new_page_directory_works [OF this] room obtain d a where
    d: "new_page_directory placement s = Inr (d, s\<lparr>placement_address := a, page_directories := (page_directories s)(d := new_x86PageDirectory)\<rparr>)"
      "placement_ok placement a" "in_placement placement d" "placement_room placement a = placement_room placement (placement_address s) - 2"
    by (auto split: if_splits)
  define s1 where "s1 = s\<lparr>placement_address := a, page_directories := (page_directories s)(d := new_x86PageDirectory), kernel_directory := d\<rparr>"
  have "copied placement loader s {} s1" using d(2) by (simp add: copied_def Let_def s1_def new_x86PageDirectory_def)
  moreover have "set [1..<1024] \<subseteq> {..<1024 :: nat} - {}" by auto
  ultimately have cw: "if loader_tables loader [1..<1024] \<le> placement_room placement (placement_address s1)
    then \<exists>s2. copy_tables placement loader [1..<1024] s1 = Inr s2 \<and> copied placement loader s ({} \<union> set [1..<1024]) s2 \<and> kernel_directory s2 = kernel_directory s1
    else copy_tables placement loader [1..<1024] s1 = Inl PanicPlacement" using copy_tables_works [OF l] distinct_upt by blast
  have "loader_tables loader [1..<1024] \<le> placement_room placement (placement_address s1)" using room d(4) by (simp add: s1_def)
  with cw obtain s2 where s2: "copy_tables placement loader [1..<1024] s1 = Inr s2" "copied placement loader s ({} \<union> set [1..<1024]) s2"
      "kernel_directory s2 = kernel_directory s1"
    unfolding if_P [OF \<open>loader_tables loader [1..<1024] \<le> placement_room placement (placement_address s1)\<close>] by blast
  define s3 where "s3 = s2\<lparr>current_directory := kernel_directory s2, cr3 := earlyFindPhysicalAddress loader (kernel_directory s2) s2\<rparr>"
  have "copied placement loader s A s3 = copied placement loader s A s2" for A by (simp add: copied_def s3_def)
  moreover have "{} \<union> set [1..<1024] = {1..<1024 :: nat}" by simp
  ultimately have c: "copied placement loader s {1..<1024} s3" using s2(2) by (simp only:)
  have k: "kernel_directory s3 = d" "current_directory s3 = kernel_directory s3" using s2(3) by (simp_all add: s3_def s1_def)
  have early: "earlyFindPhysicalAddress loader v (s2\<lparr>current_directory := x\<rparr>) = earlyFindPhysicalAddress loader v s2" for v x
    by (simp add: earlyFindPhysicalAddress_def get_page_def)
  have "earlyFindPhysicalAddress loader d s2 = earlyFindPhysicalAddress loader d s"
    using l _ d(3) by (rule early_unchanged) (use s2(2) in \<open>auto simp: copied_def Let_def\<close>)
  then have "GetPhysicalAddress (kernel_directory s3) s3 = Inr (cr3 s3)"
    using early_physical(1) [OF c l d(3) k(2)] s2(3) by (simp add: k(1)) (simp add: s3_def s1_def)
  moreover have "paging_Init placement loader s = Inr s3"
    using s2 d(1) by (simp add: paging_Init_def s1_def s3_def Let_def early)
  ultimately show ?thesis using taken_over [OF l c k(2)] k(2) by blast
qed

lemma paging_Init_overflows:
  assumes l: "loader_ok placement loader s" and room: "placement_room placement (placement_address s) < 2 + loader_tables loader [1..<1024]"
  shows "paging_Init placement loader s = Inl PanicPlacement"
proof (cases "2 \<le> placement_room placement (placement_address s)")
  case True
  have "placement_ok placement (placement_address s)" using l by (simp add: loader_ok_def)
  from new_page_directory_works [OF this] True obtain d a where
    d: "new_page_directory placement s = Inr (d, s\<lparr>placement_address := a, page_directories := (page_directories s)(d := new_x86PageDirectory)\<rparr>)"
      "placement_ok placement a" "placement_room placement a = placement_room placement (placement_address s) - 2"
    by (auto split: if_splits)
  define s1 where "s1 = s\<lparr>placement_address := a, page_directories := (page_directories s)(d := new_x86PageDirectory), kernel_directory := d\<rparr>"
  have "copied placement loader s {} s1" using d(2) by (simp add: copied_def Let_def s1_def new_x86PageDirectory_def)
  moreover have "set [1..<1024] \<subseteq> {..<1024 :: nat} - {}" by auto
  ultimately have cw: "if loader_tables loader [1..<1024] \<le> placement_room placement (placement_address s1)
    then \<exists>s2. copy_tables placement loader [1..<1024] s1 = Inr s2 \<and> copied placement loader s ({} \<union> set [1..<1024]) s2 \<and> kernel_directory s2 = kernel_directory s1
    else copy_tables placement loader [1..<1024] s1 = Inl PanicPlacement" using copy_tables_works [OF l] distinct_upt by blast
  have "\<not> loader_tables loader [1..<1024] \<le> placement_room placement (placement_address s1)" using room d(3) True by (simp add: s1_def)
  with cw have "copy_tables placement loader [1..<1024] s1 = Inl PanicPlacement" by (simp only: if_False)
  then show ?thesis using d(1) by (simp add: paging_Init_def s1_def)
next
  case False
  then show ?thesis using new_page_directory_works [of placement s] l by (simp add: paging_Init_def loader_ok_def)
qed

text \<open>C23. \<open>Init\<close> takes over the mapping the loader made: from 4 MB on every address translates as before, below nothing is mapped any more, the
  tables are the kernel's own, and CR3 holds the physical address of the new directory. It succeeds exactly when the placement region has room for
  the directory (two pages) and one page for every table of the loader, and panics otherwise.\<close>

theorem init_keeps_translation:
  assumes l: "loader_ok placement loader s"
  shows "if 2 + loader_tables loader [1..<1024] \<le> placement_room placement (placement_address s)
    then \<exists>s'. paging_Init placement loader s = Inr s' \<and> paging_ok placement s' \<and> current_directory s' = kernel_directory s' \<and>
      page_of s' = (\<lambda>v. if 4194304 \<le> unat v then loader_page loader s v else None) \<and> GetPhysicalAddress (kernel_directory s') s' = Inr (cr3 s')
    else paging_Init placement loader s = Inl PanicPlacement"
  using paging_Init_works [OF l] paging_Init_overflows [OF l] by (simp add: not_le)

text \<open>An example: one table of the loader maps 4 MB from 3 GB on.\<close>

definition example_paging :: x86_paging where
  "example_paging = \<lparr>kernel_directory = 0, current_directory = 0, page_directories = (\<lambda>_. new_x86PageDirectory),
     page_tables = (\<lambda>t j. if t = 0x1000 then new_x86Page\<lparr>pg_present := True, pg_rw := True, pg_frame := of_nat j\<rparr> else new_x86Page),
     placement_address = 0xC0200000, cr3 = 0\<rparr>"

definition example_loader :: "nat \<Rightarrow> u32" where
  "example_loader i = (if i = 768 then 0x1003 else 0)"

lemma example_loader_ok: "loader_ok 0xC0200000 example_loader example_paging"
proof -
  have idx: "pd_index v = 768" if "in_placement 0xC0200000 v" for v
    using that unfolding in_placement_def index_values by (intro div_nat_eqI) simp_all
  have "loader_table example_loader 768 = 0x1000" by (simp add: loader_table_def example_loader_def PAGEALIGN_MASK_def)
  then show ?thesis
    using idx by (auto simp: loader_ok_def placement_ok_def loader_page_def Let_def example_paging_def example_loader_def get_page_def in_placement_def)
qed

theorem init_keeps_translation_witness:
  "(\<exists>s'. paging_Init 0xC0200000 example_loader example_paging = Inr s' \<and> paging_ok 0xC0200000 s' \<and> GetPhysicalAddress 0xC0000123 s' = Inr 0x123 \<and>
      GetPhysicalAddress 0x123 s' = Inr 0)"
proof -
  have "loader_tables example_loader [1..<1024] = card ({i. example_loader i \<noteq> 0} \<inter> {1..<1024})"
    by (simp add: loader_tables_def distinct_length_filter)
  also have "{i. example_loader i \<noteq> 0} \<inter> {1..<1024} = {768}" by (auto simp: example_loader_def)
  finally have "2 + loader_tables example_loader [1..<1024] \<le> placement_room 0xC0200000 (placement_address example_paging)"
    by (simp add: placement_room_def example_paging_def)
  then obtain s' where s: "paging_Init 0xC0200000 example_loader example_paging = Inr s'" "paging_ok 0xC0200000 s'"
    "page_of s' = (\<lambda>v. if 4194304 \<le> unat v then loader_page example_loader example_paging v else None)"
    using init_keeps_translation [OF example_loader_ok] by (auto split: if_splits)
  have "pd_index 0xC0000123 = 768" "pt_index 0xC0000123 = 0" by (simp_all add: index_values)
  then have "loader_page example_loader example_paging 0xC0000123 = Some (new_x86Page\<lparr>pg_present := True, pg_rw := True\<rparr>)"
    by (simp add: loader_page_def Let_def example_loader_def loader_table_def PAGEALIGN_MASK_def get_page_def example_paging_def new_x86Page_def)
  then show ?thesis using s by (simp add: GetPhysicalAddress_page Frame_def new_x86Page_def OFFSET_MASK_def)
qed

section \<open>The upper gigabyte\<close>

lemma GetTable_assign_others:
  "GetTable_assign placement d i s = Inr (t, s') \<Longrightarrow> j \<noteq> i \<Longrightarrow> tables (page_directories s' d) j = tables (page_directories s d) j"
  by (auto simp: GetTable_assign_def GetTable_def SetTable_def new_page_table_def Let_def rbind_Inr_iff split: if_splits)

text \<open>After \<open>InitDone\<close> the upper gigabyte has all its tables and no address translates differently.\<close>

lemma create_tables_works:
  assumes "paging_ok placement s" "current_directory s = kernel_directory s" "set is \<subseteq> {..<1024}"
  shows "if card (set is - tables_made s) \<le> placement_room placement (placement_address s)
    then \<exists>s'. create_tables placement is s = Inr s' \<and> paging_ok placement s' \<and> page_of s' = page_of s \<and> kernel_directory s' = kernel_directory s \<and>
      current_directory s' = current_directory s \<and> cr3 s' = cr3 s \<and> tables_made s' = tables_made s \<union> set is
    else create_tables placement is s = Inl PanicPlacement"
  using assms
proof (induction "is" arbitrary: s)
  case (Cons i "is")
  have i: "i < 1024" "set is \<subseteq> {..<1024}" using Cons.prems(3) by auto
  let ?room = "\<lambda>s. placement_room placement (placement_address s)"
  note g = GetTable_assign_works [OF Cons.prems(1) i(1)]
  show ?case
  proof (cases "i \<notin> tables_made s \<and> ?room s = 0")
    case True
    then have "i \<in> set (i # is) - tables_made s" by simp
    then have "card (set (i # is) - tables_made s) \<noteq> 0" by (metis card_eq_0_iff empty_iff finite_Diff finite_set)
    then show ?thesis using True g Cons.prems(2) by simp
  next
    case False
    with g obtain t s1 where s1: "GetTable_assign placement (current_directory s) i s = Inr (t, s1)" "paging_ok placement s1" "page_of s1 = page_of s"
      "made_table placement i s s1" by auto
    note m = s1(4) [unfolded made_table_def]
    have "current_directory s1 = kernel_directory s1" using m Cons.prems(2) by simp
    note ih = Cons.IH [OF s1(2) this i(2)]
    have "card (set (i # is) - tables_made s) \<le> ?room s \<longleftrightarrow> card (set is - tables_made s1) \<le> ?room s1"
    proof (cases "i \<in> tables_made s")
      case True
      then have eq: "tables_made s1 = tables_made s" "set (i # is) - tables_made s = set is - tables_made s" using m by auto
      then have "?room s1 = ?room s" using m by (metis add_right_imp_eq)
      then show ?thesis by (simp only: eq)
    next
      case new: False
      have "set (i # is) - tables_made s = insert i (set is - tables_made s1)" using m new by auto
      moreover have "i \<notin> set is - tables_made s1" using m by simp
      ultimately have "card (set (i # is) - tables_made s) = Suc (card (set is - tables_made s1))" by simp
      moreover have "card (tables_made s1) = Suc (card (tables_made s))" using m new by simp
      ultimately show ?thesis using m by linarith
    qed
    moreover have "create_tables placement (i # is) s = create_tables placement is s1" using s1(1) Cons.prems(2) by simp
    moreover have "tables_made s1 \<union> set is = tables_made s \<union> set (i # is)" using m by auto
    ultimately show ?thesis using ih m s1(3) by (simp only:)
  qed
qed auto

section \<open>Directories for user space\<close>

lemma derive_step:
  assumes "4194304 dvd unat (i :: u32)"
  shows "i < 0xFFFFFFFF" "unat (i div 4 * 1024 * 1024) = 0" "4194304 dvd unat (i + 4 * 1024 * 1024)"
proof -
  obtain k where k: "unat i = 4194304 * k" using assms by (auto elim: dvdE)
  have k1: "k < 1024" using unat_bound32 [of i] unfolding k by simp
  then show "i < 0xFFFFFFFF" using k by (simp add: word_less_nat_alt)
  have "i = of_nat (unat i)" by simp
  then have "i = (of_nat (4194304 * k) :: u32)" by (simp only: k)
  then have i: "i = push_bit 22 (of_nat k :: u32)" by (simp add: push_bit_eq_mult)
  have "i div 4 * 1024 * 1024 = push_bit 20 (drop_bit 2 i)" by (simp add: push_bit_eq_mult drop_bit_eq_div)
  also have "\<dots> = 0" unfolding i by (intro bit_word_eqI) (auto simp: bit_simps)
  finally show "unat (i div 4 * 1024 * 1024) = 0" by simp
  show "4194304 dvd unat (i + 4 * 1024 * 1024)"
    using assms by (simp add: unat_word_ariths take_bit_eq_mod dvd_mod_iff)
qed

text \<open>C32. \<open>DeriveUserspaceDirectory\<close> never returns a directory: the loop counter wraps around to 0 before it reaches the bound, and every
  round writes entry 0, since the index is computed as \<open>i / 4 * 1024 * 1024\<close>.\<close>

theorem derive_never_returns:
  "DeriveUserspaceDirectory placement s = None \<or> DeriveUserspaceDirectory placement s = Some (Inl PanicPlacement)"
proof -
  have "\<not> 4194304 dvd unat i" if "derive_loop pd i s = Some r" for pd i s r
  proof (rule derive_loop.raw_induct [OF _ that], intro notI)
    fix rec :: "u32 \<Rightarrow> u32 \<Rightarrow> x86_paging \<Rightarrow> (fault + x86_paging) option" and pd i s r
    assume IH: "\<And>pd i s r. rec pd i s = Some r \<Longrightarrow> \<not> 4194304 dvd unat i" and i: "4194304 dvd unat i"
      and body: "(if i < 0xFFFFFFFF then
        let pdindex = unat (i div 4 * 1024 * 1024)
        in (case rbind (GetTable (current_directory s) pdindex s) (\<lambda>t.
                 rbind (GetTablePhysical (current_directory s) pdindex s) (\<lambda>a. SetTable pd pdindex t (a OR 3) s)) of
              Inl e \<Rightarrow> Some (Inl e) | Inr s \<Rightarrow> rec pd (i + 4 * 1024 * 1024) s)
      else Some (Inr s)) = Some r"
    obtain s' where "rec pd (i + 4 * 1024 * 1024) s' = Some r"
      using body derive_step(1) [OF i] unfolding Let_def derive_step(2) [OF i] by (simp add: GetTable_def GetTablePhysical_def SetTable_def Let_def)
    from IH [OF this] derive_step(3) [OF i] show False by simp
  qed
  from this [of _ "0xC0000000"] have "derive_loop pd 0xC0000000 s = None" for pd s by (cases "derive_loop pd 0xC0000000 s") simp_all
  then show ?thesis
    by (cases "new_page_directory placement s")
      (auto simp: DeriveUserspaceDirectory_def new_page_directory_def placement_Allocate_def Let_def split: if_splits)
qed

end
