(* ===== verification/VirtualMemory.thy ===== *)
theory VirtualMemory
  imports KernelPaging
begin

text \<open>
  The virtual memory of the kernel: memory regions with their page fault handlers (VirtualMemoryRegion, LazyMemoryRegion, SwappedMemoryRegion,
  KernelProgramMemoryRegion; a BuddyAllocatedMemoryRegion is a lazy region whose blocks are modelled in Buddy), memory spaces (VirtualMemorySpace),
  the memory manager (VirtualMemoryManager), and the page fault handler with the interrupt dispatcher that calls it.

  Regions and spaces are objects at addresses; the lists of the kernel are their sequences of addresses, which is what KernelList proves of them.
\<close>

section \<open>State\<close>

datatype region_kind = PlainRegion | LazyRegion | SwappedRegion | BuddyRegion | ProgramRegion

record memory_region =
  region_flags :: u32
  region_start :: u32
  region_size :: u32
  region_name :: string
  region_kind :: region_kind

record memory_space =
  space_name :: string
  memoryRegionList :: "u32 list"
  pageDirectory :: u32

record virtual_memory =
  paging :: x86_paging
  phys_frames :: frame_allocator
  hal_ready :: bool
  regions :: "u32 \<Rightarrow> memory_region"
  spaces :: "u32 \<Rightarrow> memory_space"
  memorySpaceList :: "u32 list"
  currentSpace :: u32

definition ALLOCFLAG_USERMODE :: u32 where
  "ALLOCFLAG_USERMODE = 0x01"

definition ALLOCFLAG_WRITABLE :: u32 where
  "ALLOCFLAG_WRITABLE = 0x02"

definition IS_PAGE_ALIGNED :: "u32 \<Rightarrow> bool" where
  "IS_PAGE_ALIGNED x \<longleftrightarrow> x mod KERNEL_PAGE_SIZE = 0"

text \<open>Operations of the paging and of the frame allocator on this state.\<close>

definition vm_map :: "u32 \<Rightarrow> u32 \<Rightarrow> u32 \<Rightarrow> u32 \<Rightarrow> virtual_memory \<Rightarrow> fault + virtual_memory" where
  "vm_map placement virt phys flags s =
     rbind (MapAddress placement virt phys (flags AND ALLOCFLAG_WRITABLE \<noteq> 0) (flags AND ALLOCFLAG_USERMODE \<noteq> 0) (paging s)) (\<lambda>p.
     Inr (s\<lparr>paging := p\<rparr>))"

definition vm_mark_used :: "u32 \<Rightarrow> virtual_memory \<Rightarrow> fault + virtual_memory" where
  "vm_mark_used a s = rbind (MarkAsUsed a (phys_frames s)) (\<lambda>fa. Inr (s\<lparr>phys_frames := fa\<rparr>))"

text \<open>The loops over the pages of a range, with a 32-bit address that may wrap around.\<close>

partial_function (option) page_loop :: "(u32 \<Rightarrow> 's \<Rightarrow> fault + 's) \<Rightarrow> u32 \<Rightarrow> u32 \<Rightarrow> 's \<Rightarrow> (fault + 's) option" where
  "page_loop step i limit s =
     (if i < limit then
        (case step i s of Inl e \<Rightarrow> Some (Inl e) | Inr s \<Rightarrow> page_loop step (i + KERNEL_PAGE_SIZE) limit s)
      else Some (Inr s))"

section \<open>Memory regions\<close>

definition new_memory_region :: "u32 \<Rightarrow> u32 \<Rightarrow> string \<Rightarrow> u32 \<Rightarrow> region_kind \<Rightarrow> fault + memory_region" where
  "new_memory_region RegionStart RegionSize RegionName RegionFlags kind =
     (if \<not> IS_PAGE_ALIGNED RegionStart then Inl AssertFailed
      else if RegionSize mod KERNEL_PAGE_SIZE \<noteq> 0 then Inl AssertFailed
      else Inr \<lparr>region_flags = RegionFlags, region_start = RegionStart, region_size = RegionSize, region_name = RegionName, region_kind = kind\<rparr>)"

definition map_fresh_page :: "u32 \<Rightarrow> u32 \<Rightarrow> u32 \<Rightarrow> virtual_memory \<Rightarrow> fault + virtual_memory" where
  "map_fresh_page placement flags i s =
     rbind (AllocateFrame (hal_ready s) (phys_frames s)) (\<lambda>(frame, fa). vm_map placement i frame flags (s\<lparr>phys_frames := fa\<rparr>))"

definition MapFreshPages :: "u32 \<Rightarrow> u32 \<Rightarrow> u32 \<Rightarrow> u32 \<Rightarrow> virtual_memory \<Rightarrow> (fault + virtual_memory) option" where
  "MapFreshPages placement r start len s =
     (if \<not> (IS_PAGE_ALIGNED start \<and> IS_PAGE_ALIGNED len) then Some (Inl AssertFailed)
      else if start < region_start (regions s r) \<or> region_start (regions s r) + region_size (regions s r) < start + len then Some (Inl PanicBounds)
      else page_loop (map_fresh_page placement (region_flags (regions s r))) start (start + len) s)"

definition unmap_page :: "u32 \<Rightarrow> u32 \<Rightarrow> virtual_memory \<Rightarrow> fault + virtual_memory" where
  "unmap_page placement i s =
     rbind (GetPhysicalAddress i (paging s)) (\<lambda>phys.
     if phys \<noteq> 0 then
       rbind (UnmapAddress placement i (paging s)) (\<lambda>p.
       rbind (DeallocateFrame phys (phys_frames s)) (\<lambda>fa. Inr (s\<lparr>paging := p, phys_frames := fa\<rparr>)))
     else Inr s)"

definition UnmapPages :: "u32 \<Rightarrow> u32 \<Rightarrow> u32 \<Rightarrow> u32 \<Rightarrow> virtual_memory \<Rightarrow> (fault + virtual_memory) option" where
  "UnmapPages placement r start len s =
     (if \<not> (IS_PAGE_ALIGNED start \<and> IS_PAGE_ALIGNED len) then Some (Inl AssertFailed)
      else if start < region_start (regions s r) \<or> region_start (regions s r) + region_size (regions s r) < start + len then Some (Inl PanicBounds)
      else page_loop (unmap_page placement) start (start + len) s)"

definition delete_region :: "u32 \<Rightarrow> u32 \<Rightarrow> virtual_memory \<Rightarrow> (fault + virtual_memory) option" where
  "delete_region placement r s = UnmapPages placement r (region_start (regions s r)) (region_size (regions s r)) s"

text \<open>The constructor of a KernelProgramMemoryRegion marks the frames the loader mapped.\<close>

partial_function (option) program_loop :: "u32 \<Rightarrow> u32 \<Rightarrow> virtual_memory \<Rightarrow> (fault + virtual_memory) option" where
  "program_loop curAddress len s =
     (if len \<noteq> 0 then
        (case rbind (GetPhysicalAddress curAddress (paging s)) (\<lambda>a. vm_mark_used a s) of Inl e \<Rightarrow> Some (Inl e)
         | Inr s \<Rightarrow> program_loop (curAddress + KERNEL_PAGE_SIZE) (len - KERNEL_PAGE_SIZE) s)
      else Some (Inr s))"

definition new_program_region :: "u32 \<Rightarrow> u32 \<Rightarrow> u32 \<Rightarrow> string \<Rightarrow> u32 \<Rightarrow> virtual_memory \<Rightarrow> (fault + virtual_memory) option" where
  "new_program_region r RegionStart RegionSize RegionName RegionFlags s =
     (case new_memory_region RegionStart RegionSize RegionName RegionFlags ProgramRegion of Inl e \<Rightarrow> Some (Inl e)
      | Inr region \<Rightarrow> program_loop RegionStart RegionSize (s\<lparr>regions := (regions s)(r := region)\<rparr>))"

text \<open>The page fault handlers: true when the fault is resolved; the handler of the base class panics.\<close>

definition lazy_HandlePageFault :: "u32 \<Rightarrow> u32 \<Rightarrow> u32 \<Rightarrow> virtual_memory \<Rightarrow> (fault + bool \<times> virtual_memory) option" where
  "lazy_HandlePageFault placement r faultingAddress s =
     (case IsPresent faultingAddress (paging s) of Inl e \<Rightarrow> Some (Inl e)
      | Inr present \<Rightarrow>
          if present then Some (Inl PanicPageFault)
          else Option.bind (MapFreshPages placement r (faultingAddress AND PAGEALIGN_MASK) KERNEL_PAGE_SIZE s) (\<lambda>x.
            Some (rbind x (\<lambda>s. Inr (True, s)))))"

definition region_HandlePageFault :: "u32 \<Rightarrow> u32 \<Rightarrow> u32 \<Rightarrow> virtual_memory \<Rightarrow> (fault + bool \<times> virtual_memory) option" where
  "region_HandlePageFault placement r faultingAddress s =
     (case region_kind (regions s r) of
        PlainRegion \<Rightarrow> Some (Inl PanicPageFault)
      | ProgramRegion \<Rightarrow> Some (Inl PanicPageFault)
      | SwappedRegion \<Rightarrow> Some (Inr (True, s))
      | LazyRegion \<Rightarrow> lazy_HandlePageFault placement r faultingAddress s
      | BuddyRegion \<Rightarrow> lazy_HandlePageFault placement r faultingAddress s)"

section \<open>Memory spaces\<close>

primrec first_where :: "(u32 \<Rightarrow> bool) \<Rightarrow> u32 list \<Rightarrow> u32" where
  "first_where P [] = 0"
| "first_where P (r # rs) = (if P r then r else first_where P rs)"

definition new_memory_space :: "string \<Rightarrow> u32 \<Rightarrow> memory_space" where
  "new_memory_space SpaceName pageDir = \<lparr>space_name = SpaceName, memoryRegionList = [], pageDirectory = pageDir\<rparr>"

definition AddRegion :: "u32 \<Rightarrow> u32 \<Rightarrow> virtual_memory \<Rightarrow> virtual_memory" where
  "AddRegion sp r s = s\<lparr>spaces := (spaces s)(sp := (spaces s sp)\<lparr>memoryRegionList := memoryRegionList (spaces s sp) @ [r]\<rparr>)\<rparr>"

definition RemoveRegion :: "u32 \<Rightarrow> u32 \<Rightarrow> virtual_memory \<Rightarrow> virtual_memory" where
  "RemoveRegion sp r s = s\<lparr>spaces := (spaces s)(sp := (spaces s sp)\<lparr>memoryRegionList := remove1 r (memoryRegionList (spaces s sp))\<rparr>)\<rparr>"

definition FindRegionByName :: "u32 \<Rightarrow> string \<Rightarrow> virtual_memory \<Rightarrow> u32" where
  "FindRegionByName sp regionName s = first_where (\<lambda>r. region_name (regions s r) = regionName) (memoryRegionList (spaces s sp))"

definition FindRegionByStartAddress :: "u32 \<Rightarrow> u32 \<Rightarrow> virtual_memory \<Rightarrow> u32" where
  "FindRegionByStartAddress sp start s = first_where (\<lambda>r. region_start (regions s r) = start) (memoryRegionList (spaces s sp))"

definition encloses :: "memory_region \<Rightarrow> u32 \<Rightarrow> bool" where
  "encloses r a \<longleftrightarrow> region_start r \<le> a \<and> a < region_start r + region_size r"

definition FindRegionEnclosingAddress :: "u32 \<Rightarrow> u32 \<Rightarrow> virtual_memory \<Rightarrow> u32" where
  "FindRegionEnclosingAddress sp a s = first_where (\<lambda>r. encloses (regions s r) a) (memoryRegionList (spaces s sp))"

definition GetFlags :: "u32 \<Rightarrow> virtual_memory \<Rightarrow> u32" where
  "GetFlags r s = region_flags (regions s r)"

definition remap_page :: "u32 \<Rightarrow> u32 \<Rightarrow> u32 \<Rightarrow> virtual_memory \<Rightarrow> fault + virtual_memory" where
  "remap_page placement f i s =
     rbind (IsPresent i (paging s)) (\<lambda>present.
     if present then rbind (GetPhysicalAddress i (paging s)) (\<lambda>phys. vm_map placement i phys f s) else Inr s)"

definition SetFlags :: "u32 \<Rightarrow> u32 \<Rightarrow> u32 \<Rightarrow> virtual_memory \<Rightarrow> (fault + virtual_memory) option" where
  "SetFlags placement r f s =
     (let s = s\<lparr>regions := (regions s)(r := (regions s r)\<lparr>region_flags := f\<rparr>)\<rparr>
      in page_loop (remap_page placement f) (region_start (regions s r)) (region_start (regions s r) + region_size (regions s r)) s)"

definition space_HandlePageFault :: "u32 \<Rightarrow> u32 \<Rightarrow> u32 \<Rightarrow> virtual_memory \<Rightarrow> (fault + bool \<times> virtual_memory) option" where
  "space_HandlePageFault placement sp faultingAddress s =
     (let faultingRegion = FindRegionEnclosingAddress sp faultingAddress s
      in if faultingRegion = 0 then Some (Inr (False, s)) else region_HandlePageFault placement faultingRegion faultingAddress s)"

section \<open>The memory manager\<close>

definition AddSpace :: "u32 \<Rightarrow> virtual_memory \<Rightarrow> virtual_memory" where
  "AddSpace sp s = s\<lparr>memorySpaceList := memorySpaceList s @ [sp]\<rparr>"

definition RemoveSpace :: "u32 \<Rightarrow> virtual_memory \<Rightarrow> virtual_memory" where
  "RemoveSpace sp s = s\<lparr>memorySpaceList := remove1 sp (memorySpaceList s)\<rparr>"

definition FindSpaceByName :: "string \<Rightarrow> virtual_memory \<Rightarrow> u32" where
  "FindSpaceByName spaceName s = first_where (\<lambda>sp. space_name (spaces s sp) = spaceName) (memorySpaceList s)"

definition SetCurrentMemorySpace :: "u32 \<Rightarrow> virtual_memory \<Rightarrow> fault + virtual_memory" where
  "SetCurrentMemorySpace newSpace s =
     rbind (SwitchCurrentPageDirectory (pageDirectory (spaces s newSpace)) (paging s)) (\<lambda>p.
     Inr (s\<lparr>paging := p, currentSpace := newSpace\<rparr>))"

section \<open>Page faults\<close>

record registers =
  reg_int_no :: u32
  reg_err_code :: u32
  reg_eip :: u32

record x86PageFaultHandler =
  faultingInstruction :: u32
  faultingAddress :: u32
  NonPresent :: bool
  WriteOperation :: bool
  Usermode :: bool
  ReservedBit :: bool
  InstructionFetch :: bool

definition fault_Prepare :: "u32 \<Rightarrow> registers \<Rightarrow> x86PageFaultHandler" where
  "fault_Prepare cr2 regs = \<lparr>faultingInstruction = reg_eip regs, faultingAddress = cr2, NonPresent = (reg_err_code regs AND 0x1 = 0),
     WriteOperation = (reg_err_code regs AND 0x2 \<noteq> 0), Usermode = (reg_err_code regs AND 0x4 \<noteq> 0), ReservedBit = (reg_err_code regs AND 0x8 \<noteq> 0),
     InstructionFetch = (reg_err_code regs AND 0x10 \<noteq> 0)\<rparr>"

definition fault_Resolve :: "u32 \<Rightarrow> x86PageFaultHandler \<Rightarrow> virtual_memory \<Rightarrow> (fault + bool \<times> virtual_memory) option" where
  "fault_Resolve placement h s =
     (if currentSpace s = 0 then Some (Inl PanicPageFault)
      else Option.bind (space_HandlePageFault placement (currentSpace s) (faultingAddress h) s) (\<lambda>x.
        Some (rbind x (\<lambda>(resolved, s). if \<not> resolved then Inl PanicPageFault else Inr (True, s)))))"

definition exception_Execute :: "u32 \<Rightarrow> x86PageFaultHandler \<Rightarrow> virtual_memory \<Rightarrow> (fault + virtual_memory) option" where
  "exception_Execute placement h s =
     Option.bind (fault_Resolve placement h s) (\<lambda>x. Some (rbind x (\<lambda>(resolved, s). if \<not> resolved then Inl PanicPageFault else Inr s)))"

text \<open>
  The dispatcher: a handler of each vector, or null. The only handler the kernel defines is the one of page faults; what another one does is
  the argument \<open>isr\<close>.
\<close>

record interrupts =
  isrs :: "u32 list"
  nestedExceptions :: int

definition I86_IDT_MAX_ENTRY_COUNT :: nat where
  "I86_IDT_MAX_ENTRY_COUNT = 255"

definition MAX_NESTED_EXCEPTIONS :: int where
  "MAX_NESTED_EXCEPTIONS = 1"

definition new_dispatcher :: interrupts where
  "new_dispatcher = \<lparr>isrs = replicate I86_IDT_MAX_ENTRY_COUNT 0, nestedExceptions = 0\<rparr>"

definition RegisterInterruptVector :: "u32 \<Rightarrow> u32 \<Rightarrow> interrupts \<Rightarrow> fault + bool \<times> interrupts" where
  "RegisterInterruptVector vector isr d =
     (if \<not> unat vector < I86_IDT_MAX_ENTRY_COUNT then Inl AssertFailed else Inr (True, d\<lparr>isrs := (isrs d)[unat vector := isr]\<rparr>))"

definition UnregisterInterruptVector :: "u32 \<Rightarrow> interrupts \<Rightarrow> fault + bool \<times> interrupts" where
  "UnregisterInterruptVector vector d =
     (if \<not> unat vector < I86_IDT_MAX_ENTRY_COUNT then Inl AssertFailed else Inr (True, d\<lparr>isrs := (isrs d)[unat vector := 0]\<rparr>))"

definition dispatcher_Execute :: "(u32 \<Rightarrow> registers \<Rightarrow> bool \<Rightarrow> 's \<Rightarrow> (fault + 's) option) \<Rightarrow> registers \<Rightarrow> bool \<Rightarrow> interrupts \<Rightarrow> 's \<Rightarrow> (fault + 's) option" where
  "dispatcher_Execute isr regs isException d s =
     (if \<not> unat (reg_int_no regs) < length (isrs d) then Some (Inl OutOfBounds)
      else if isrs d ! unat (reg_int_no regs) \<noteq> 0 then isr (isrs d ! unat (reg_int_no regs)) regs isException s
      else Some (Inr s))"

definition fault_handler :: "(u32 \<Rightarrow> registers \<Rightarrow> bool \<Rightarrow> 's \<Rightarrow> (fault + 's) option) \<Rightarrow> registers \<Rightarrow> interrupts \<times> 's \<Rightarrow> (fault + interrupts \<times> 's) option" where
  "fault_handler isr regs = (\<lambda>(d, s).
     if MAX_NESTED_EXCEPTIONS < nestedExceptions d then Some (Inl PanicNested)
     else
       (let d = d\<lparr>nestedExceptions := nestedExceptions d + 1\<rparr>
        in Option.bind (dispatcher_Execute isr regs True d s) (\<lambda>x.
             Some (rbind x (\<lambda>s. Inr (d\<lparr>nestedExceptions := nestedExceptions d - 1\<rparr>, s))))))"

definition interrupt_handler :: "(u32 \<Rightarrow> registers \<Rightarrow> bool \<Rightarrow> 's \<Rightarrow> (fault + 's) option) \<Rightarrow> registers \<Rightarrow> interrupts \<times> 's \<Rightarrow> (fault + interrupts \<times> 's) option" where
  "interrupt_handler isr regs = (\<lambda>(d, s).
     Option.bind (dispatcher_Execute isr regs False d s) (\<lambda>x. Some (rbind x (\<lambda>s. Inr (d, s)))))"

text \<open>The handler the HAL registers for vector 14.\<close>

definition page_fault_isr :: "u32 \<Rightarrow> u32 \<Rightarrow> registers \<Rightarrow> virtual_memory \<Rightarrow> (fault + virtual_memory) option" where
  "page_fault_isr placement cr2 regs s = exception_Execute placement (fault_Prepare cr2 regs) s"

section \<open>Loops over pages\<close>

lemma unat_plus_nat: "unat i + m < 2 ^ 32 \<Longrightarrow> unat (i + of_nat m :: u32) = unat i + m"
  by (subst unat_add32) (simp_all add: unat_of_nat32)

text \<open>A property that every page of the range establishes for the next one holds at the end; the loop always returns.\<close>

lemma page_loop_rule:
  assumes "unat i + 4096 * n < 2 ^ 32" "P 0 s"
    and step: "\<And>k s. k < n \<Longrightarrow> P k s \<Longrightarrow> (case step (i + of_nat (4096 * k)) s of Inl e \<Rightarrow> E e | Inr s' \<Rightarrow> P (Suc k) s')"
  shows "\<exists>r. page_loop step i (i + of_nat (4096 * n)) s = Some r \<and> (case r of Inl e \<Rightarrow> E e | Inr s' \<Rightarrow> P n s')"
proof -
  let ?stop = "i + of_nat (4096 * n) :: u32"
  have val: "unat (i + of_nat (4096 * k) :: u32) = unat i + 4096 * k" if "k \<le> n" for k
    using that assms(1) by (intro unat_plus_nat) simp
  have "\<exists>r. page_loop step (i + of_nat (4096 * k)) ?stop s = Some r \<and> (case r of Inl e \<Rightarrow> E e | Inr s' \<Rightarrow> P n s')" if "k \<le> n" "P k s" for k s
    using that
  proof (induction "n - k" arbitrary: k s)
    case 0
    then show ?case by (subst page_loop.simps) simp
  next
    case (Suc m)
    then have k: "k < n" by simp
    then have less: "i + of_nat (4096 * k) < ?stop" by (simp add: word_less_nat_alt val del: of_nat_mult)
    have nxt: "i + of_nat (4096 * k) + KERNEL_PAGE_SIZE = (i + of_nat (4096 * Suc k) :: u32)" by (simp add: KERNEL_PAGE_SIZE_def)
    show ?case
    proof (cases "step (i + of_nat (4096 * k)) s")
      case (Inl e)
      then show ?thesis using step [OF k Suc.prems(2)] less by (subst page_loop.simps) simp
    next
      case (Inr s')
      then have "P (Suc k) s'" using step [OF k Suc.prems(2)] by simp
      moreover have "m = n - Suc k" "Suc k \<le> n" using Suc.hyps(2) k by simp_all
      ultimately obtain r where "page_loop step (i + of_nat (4096 * Suc k)) ?stop s' = Some r" "case r of Inl e \<Rightarrow> E e | Inr s' \<Rightarrow> P n s'"
        using Suc.hyps(1) by blast
      then show ?thesis using less Inr unfolding nxt [symmetric] by (subst page_loop.simps) (simp del: of_nat_mult)
    qed
  qed
  from this [OF le0 assms(2)] show ?thesis by simp
qed

lemma page_no_add:
  assumes "4096 dvd unat i" "unat i + 4096 * k < 2 ^ 32"
  shows "page_no (i + of_nat (4096 * k)) = page_no i + k" "4096 dvd unat (i + of_nat (4096 * k) :: u32)"
proof -
  have "unat (i + of_nat (4096 * k) :: u32) = unat i + 4096 * k" using assms(2) by (rule unat_plus_nat)
  then show "page_no (i + of_nat (4096 * k)) = page_no i + k" "4096 dvd unat (i + of_nat (4096 * k) :: u32)"
    using assms(1) by (simp_all add: page_no_def)
qed

lemma aligned_mask: "4096 dvd unat a \<Longrightarrow> a AND PAGEALIGN_MASK = a"
  using align_down [of a] by (simp add: word_unat_eq_iff)

section \<open>Mapping and unmapping ranges\<close>

definition vm_ok :: "u32 \<Rightarrow> virtual_memory \<Rightarrow> bool" where
  "vm_ok placement s \<longleftrightarrow> paging_ok placement (paging s) \<and> frames_ok (phys_frames s) \<and> hal_ready s"

text \<open>What mapping leaves alone.\<close>

definition same_objects :: "virtual_memory \<Rightarrow> virtual_memory \<Rightarrow> bool" where
  "same_objects s s' \<longleftrightarrow> s' = s\<lparr>paging := paging s', phys_frames := phys_frames s'\<rparr> \<and> nFrames (phys_frames s') = nFrames (phys_frames s) \<and>
     current_directory (paging s') = current_directory (paging s) \<and> kernel_directory (paging s') = kernel_directory (paging s) \<and> cr3 (paging s') = cr3 (paging s)"

lemma same_objects_refl [simp]: "same_objects s s"
  by (simp add: same_objects_def)

lemma same_objects_trans: "same_objects a b \<Longrightarrow> same_objects b c \<Longrightarrow> same_objects a c"
  unfolding same_objects_def by (metis (no_types, lifting) virtual_memory.surjective virtual_memory.update_convs(1,2))

definition page_maps :: "virtual_memory \<Rightarrow> u32 \<Rightarrow> u32 \<Rightarrow> nat \<Rightarrow> bool" where
  "page_maps s flags v f \<longleftrightarrow> (\<exists>p. page_of (paging s) v = Some p \<and> unat (Frame p) = 4096 * f \<and>
     pg_rw p = (flags AND ALLOCFLAG_WRITABLE \<noteq> 0) \<and> pg_user p = (flags AND ALLOCFLAG_USERMODE \<noteq> 0))"

text \<open>
  What a mapping needs: a free frame (\<open>AllocateFrame\<close> looks at whole words of the bit field), and a page of the placement region for every
  page table that is missing. The tables of addresses are given by the number of the page.
\<close>

definition free_frames :: "frame_allocator \<Rightarrow> nat set" where
  "free_frames fa = {..<32 * (unat (nFrames fa) div 32)} - used fa"

definition table_space :: "u32 \<Rightarrow> virtual_memory \<Rightarrow> nat" where
  "table_space placement s = placement_room placement (placement_address (paging s))"

definition missing_tables :: "virtual_memory \<Rightarrow> nat set \<Rightarrow> nat set" where
  "missing_tables s R = (\<lambda>x. x div 1024) ` R - tables_made (paging s)"

lemma pd_index_page: "pd_index v = page_no v div 1024"
  by (simp add: index_values page_no_def div_mult2_eq [symmetric])

lemma free_frames_finite [simp]: "finite (free_frames fa)"
  by (simp add: free_frames_def)

lemma missing_tables_finite [simp]: "finite R \<Longrightarrow> finite (missing_tables s R)"
  by (simp add: missing_tables_def)

lemma missing_tables_empty [simp]: "missing_tables s {} = {}"
  by (simp add: missing_tables_def)

lemma card_missing_insert:
  "finite R \<Longrightarrow> card (missing_tables s (insert x R)) =
     (if x div 1024 \<in> tables_made (paging s) \<union> (\<lambda>x. x div 1024) ` R then card (missing_tables s R) else Suc (card (missing_tables s R)))"
  unfolding missing_tables_def by (auto simp: insert_Diff_if insert_absorb)

text \<open>The pages \<open>R\<close> have been mapped, with or without frames.\<close>

definition tables_paid :: "u32 \<Rightarrow> nat set \<Rightarrow> virtual_memory \<Rightarrow> virtual_memory \<Rightarrow> bool" where
  "tables_paid placement R s s' \<longleftrightarrow> tables_made (paging s') = tables_made (paging s) \<union> (\<lambda>x. x div 1024) ` R \<and>
     table_space placement s' + card (missing_tables s R) = table_space placement s"

lemma tables_paid_step:
  assumes t: "tables_paid placement R s s1" and m: "made_table placement (x div 1024) (paging s1) (paging s')" and R: "finite R"
  shows "tables_paid placement (insert x R) s s'"
proof -
  have made: "tables_made (paging s') = insert (x div 1024) (tables_made (paging s1))"
    "table_space placement s' + card (tables_made (paging s')) = table_space placement s1 + card (tables_made (paging s1))"
    using m unfolding made_table_def table_space_def by blast+
  have c: "card (tables_made (paging s')) = (if x div 1024 \<in> tables_made (paging s1) then card (tables_made (paging s1)) else Suc (card (tables_made (paging s1))))"
    unfolding made(1) by (simp add: card_insert_if)
  have "x div 1024 \<in> tables_made (paging s1) \<longleftrightarrow> x div 1024 \<in> tables_made (paging s) \<union> (\<lambda>x. x div 1024) ` R"
    using t by (simp add: tables_paid_def)
  then have "table_space placement s' + card (missing_tables s (insert x R)) = table_space placement s"
    using t made(2) c card_missing_insert [OF R, of s x] by (simp add: tables_paid_def split: if_splits)
  then show ?thesis using t made(1) by (auto simp: tables_paid_def)
qed

text \<open>A page whose table can not be paid is one too many.\<close>

lemma tables_short:
  assumes t: "tables_paid placement R s s1" and x: "x \<in> S" "x div 1024 \<notin> tables_made (paging s1)" "table_space placement s1 = 0" and S: "R \<subseteq> S" "finite S"
  shows "table_space placement s < card (missing_tables s S)"
proof -
  have R: "finite R" using S by (rule finite_subset)
  have "x div 1024 \<notin> tables_made (paging s) \<union> (\<lambda>x. x div 1024) ` R" using t x(2) by (simp add: tables_paid_def)
  then have "card (missing_tables s (insert x R)) = Suc (table_space placement s)"
    using t x(3) card_missing_insert [OF R, of s x] by (simp add: tables_paid_def)
  moreover have "missing_tables s (insert x R) \<subseteq> missing_tables s S" using x(1) S(1) by (auto simp: missing_tables_def)
  then have "card (missing_tables s (insert x R)) \<le> card (missing_tables s S)" using S(2) by (intro card_mono) simp_all
  ultimately show ?thesis by simp
qed

lemma vm_map_works:
  assumes ok: "vm_ok placement s" and v: "\<not> in_placement placement v" and a: "unat a = 4096 * f"
  shows "if pd_index v \<notin> tables_made (paging s) \<and> table_space placement s = 0 then vm_map placement v a flags s = Inl PanicPlacement
    else \<exists>s'. vm_map placement v a flags s = Inr s' \<and> vm_ok placement s' \<and> same_objects s s' \<and> phys_frames s' = phys_frames s \<and>
      (\<forall>w. page_no w = page_no v \<longrightarrow> page_maps s' flags w f) \<and>
      (\<forall>w. page_no w \<noteq> page_no v \<longrightarrow> page_of (paging s') w = page_of (paging s) w) \<and> made_table placement (pd_index v) (paging s) (paging s')"
proof -
  have p: "paging_ok placement (paging s)" using ok by (simp add: vm_ok_def)
  have al: "a AND PAGEALIGN_MASK = a" using a by (intro aligned_mask) simp
  note m = MapAddress_works [OF p v, of a "flags AND ALLOCFLAG_WRITABLE \<noteq> 0" "flags AND ALLOCFLAG_USERMODE \<noteq> 0", folded table_space_def]
  show ?thesis
  proof (cases "pd_index v \<notin> tables_made (paging s) \<and> table_space placement s = 0")
    case True
    then show ?thesis using m by (simp add: vm_map_def)
  next
    case False
    with m obtain ps q where x: "MapAddress placement v a (flags AND ALLOCFLAG_WRITABLE \<noteq> 0) (flags AND ALLOCFLAG_USERMODE \<noteq> 0) (paging s) = Inr ps"
      "paging_ok placement ps" "page_of ps = (\<lambda>w. if page_no w = page_no v then Some q else page_of (paging s) w)" "Frame q = a AND PAGEALIGN_MASK"
      "pg_rw q = (flags AND ALLOCFLAG_WRITABLE \<noteq> 0)" "pg_user q = (flags AND ALLOCFLAG_USERMODE \<noteq> 0)" "made_table placement (pd_index v) (paging s) ps"
      unfolding if_not_P [OF False] by blast
    let ?s = "s\<lparr>paging := ps\<rparr>"
    have "vm_map placement v a flags s = Inr ?s" using x(1) by (simp add: vm_map_def)
    moreover have "vm_ok placement ?s" "same_objects s ?s" using ok x(2,7) by (simp_all add: vm_ok_def same_objects_def made_table_def)
    moreover have "\<forall>w. page_no w = page_no v \<longrightarrow> page_maps ?s flags w f" using x(3-6) a al by (simp add: page_maps_def)
    ultimately show ?thesis unfolding if_not_P [OF False] using x(3,7) by (intro exI [of _ ?s]) simp
  qed
qed

text \<open>The frame \<open>f\<close>, the lowest free one, is mapped to a page.\<close>

definition fresh_mapped :: "u32 \<Rightarrow> u32 \<Rightarrow> u32 \<Rightarrow> nat \<Rightarrow> virtual_memory \<Rightarrow> virtual_memory \<Rightarrow> bool" where
  "fresh_mapped placement flags v f s s' \<longleftrightarrow> vm_ok placement s' \<and> same_objects s s' \<and>
      f < unat (nFrames (phys_frames s)) \<and> f \<notin> used (phys_frames s) \<and> {..<f} \<subseteq> used (phys_frames s) \<and>
      used (phys_frames s') = insert f (used (phys_frames s)) \<and>
      (\<forall>w. page_no w = page_no v \<longrightarrow> page_maps s' flags w f) \<and>
      (\<forall>w. page_no w \<noteq> page_no v \<longrightarrow> page_of (paging s') w = page_of (paging s) w)"

lemma map_fresh_page_works:
  assumes ok: "vm_ok placement s" and v: "\<not> in_placement placement v"
  shows "if free_frames (phys_frames s) = {} then map_fresh_page placement flags v s = Inl PanicNoFrames
    else if pd_index v \<notin> tables_made (paging s) \<and> table_space placement s = 0 then map_fresh_page placement flags v s = Inl PanicPlacement
    else \<exists>s' f. map_fresh_page placement flags v s = Inr s' \<and> fresh_mapped placement flags v f s s' \<and> f \<in> free_frames (phys_frames s) \<and>
      made_table placement (pd_index v) (paging s) (paging s')"
proof -
  have fr: "frames_ok (phys_frames s)" "hal_ready s" using ok by (simp_all add: vm_ok_def)
  from AllocateFrame_lowest [OF fr(1)] show ?thesis
  proof (elim disjE exE conjE)
    fix a fa fa'
    assume a: "AllocateFrame True (phys_frames s) = Inr (a, fa)" "frames_ok fa" "nFrames fa = nFrames (phys_frames s)" "4096 dvd unat a"
      "unat a div 4096 < 32 * (unat (nFrames (phys_frames s)) div 32)" "unat a div 4096 \<notin> used (phys_frames s)"
      "{..<unat a div 4096} \<subseteq> used (phys_frames s)" "used fa = insert (unat a div 4096) (used (phys_frames s))"
    let ?s = "s\<lparr>phys_frames := fa\<rparr>"
    have s: "vm_ok placement ?s" "same_objects s ?s" using ok a(2,3) by (simp_all add: vm_ok_def same_objects_def)
    have less: "unat a div 4096 < unat (nFrames (phys_frames s))" using a(5) by (rule less_le_trans) simp
    have free: "unat a div 4096 \<in> free_frames (phys_frames s)" using a(5,6) by (simp add: free_frames_def)
    then have ne: "free_frames (phys_frames s) \<noteq> {}" by blast
    have m: "map_fresh_page placement flags v s = vm_map placement v a flags ?s" using a(1) fr(2) by (simp add: map_fresh_page_def)
    have sp: "paging ?s = paging s" "table_space placement ?s = table_space placement s" by (simp_all add: table_space_def)
    have "unat a = 4096 * (unat a div 4096)" using a(4) by simp
    note w = vm_map_works [OF s(1) v this, of flags, unfolded sp]
    show ?thesis
    proof (cases "pd_index v \<notin> tables_made (paging s) \<and> table_space placement s = 0")
      case True
      then show ?thesis unfolding if_not_P [OF ne] if_P [OF True] m using w unfolding if_P [OF True] by simp
    next
      case False
      then obtain s' where s': "vm_map placement v a flags ?s = Inr s'" "vm_ok placement s'" "same_objects ?s s'" "phys_frames s' = phys_frames ?s"
        "\<forall>w. page_no w = page_no v \<longrightarrow> page_maps s' flags w (unat a div 4096)"
        "\<forall>w. page_no w \<noteq> page_no v \<longrightarrow> page_of (paging s') w = page_of (paging s) w" "made_table placement (pd_index v) (paging s) (paging s')"
        using w unfolding if_not_P [OF False] by blast
      have "fresh_mapped placement flags v (unat a div 4096) s s'"
        using s' less a(6-8) same_objects_trans [OF s(2) s'(3)] by (simp add: fresh_mapped_def)
      then show ?thesis unfolding if_not_P [OF ne] if_not_P [OF False] m using s'(1,7) free by blast
    qed
  next
    assume "AllocateFrame True (phys_frames s) = Inl PanicNoFrames" "{..<32 * (unat (nFrames (phys_frames s)) div 32)} \<subseteq> used (phys_frames s)"
    then show ?thesis by (auto simp: map_fresh_page_def fr(2) free_frames_def)
  qed
qed

text \<open>The pages \<open>R\<close> are mapped to the frames \<open>f\<close>, and nothing else differs from the state before.\<close>

definition range_mapped :: "u32 \<Rightarrow> nat set \<Rightarrow> (nat \<Rightarrow> nat) \<Rightarrow> u32 \<Rightarrow> virtual_memory \<Rightarrow> virtual_memory \<Rightarrow> bool" where
  "range_mapped flags R f placement s s' \<longleftrightarrow> vm_ok placement s' \<and> same_objects s s' \<and> inj_on f R \<and> f ` R \<subseteq> free_frames (phys_frames s) \<and>
     used (phys_frames s') = used (phys_frames s) \<union> f ` R \<and> (\<forall>x \<in> R. f x < unat (nFrames (phys_frames s))) \<and>
     (\<forall>w. page_no w \<in> R \<longrightarrow> page_maps s' flags w (f (page_no w))) \<and> (\<forall>w. page_no w \<notin> R \<longrightarrow> page_of (paging s') w = page_of (paging s) w)"

lemma range_mapped_insert:
  assumes r: "range_mapped flags R f placement s s1" and v: "page_no v \<notin> R"
    and m: "fresh_mapped placement flags v a s1 s'" "a \<in> free_frames (phys_frames s1)"
  shows "range_mapped flags (insert (page_no v) R) (f(page_no v := a)) placement s s'"
proof -
  let ?g = "f(page_no v := a)"
  note m1 = m(1) [unfolded fresh_mapped_def]
  have img: "?g ` insert (page_no v) R = insert a (f ` R)" using v by auto
  have so1: "same_objects s s1" using r by (simp add: range_mapped_def)
  have "same_objects s1 s'" using m1 by blast
  with so1 have so: "same_objects s s'" by (rule same_objects_trans)
  have n: "nFrames (phys_frames s1) = nFrames (phys_frames s)" using so1 by (simp add: same_objects_def)
  show ?thesis
    unfolding range_mapped_def img
  proof (intro conjI)
    show "inj_on ?g (insert (page_no v) R)" using r m1 v by (auto simp: range_mapped_def inj_on_def)
    show "insert a (f ` R) \<subseteq> free_frames (phys_frames s)" using r m(2) by (auto simp: range_mapped_def free_frames_def n)
    show "used (phys_frames s') = used (phys_frames s) \<union> insert a (f ` R)" using r m1 by (auto simp: range_mapped_def)
    show "\<forall>x \<in> insert (page_no v) R. ?g x < unat (nFrames (phys_frames s))" using r m1 n by (auto simp: range_mapped_def)
    show "\<forall>w. page_no w \<in> insert (page_no v) R \<longrightarrow> page_maps s' flags w (?g (page_no w))"
      using r m1 v by (auto simp: range_mapped_def page_maps_def)
    show "\<forall>w. page_no w \<notin> insert (page_no v) R \<longrightarrow> page_of (paging s') w = page_of (paging s) w" using r m1 by (auto simp: range_mapped_def)
  qed (use m1 so in auto)
qed

lemma range_mapped_frames:
  assumes r: "range_mapped flags R f placement s s1" and R: "finite R"
  shows "card (free_frames (phys_frames s1)) + card R = card (free_frames (phys_frames s))"
proof -
  have n: "nFrames (phys_frames s1) = nFrames (phys_frames s)" using r by (simp add: range_mapped_def same_objects_def)
  have sub: "f ` R \<subseteq> free_frames (phys_frames s)" and inj: "inj_on f R" using r by (simp_all add: range_mapped_def)
  have "free_frames (phys_frames s1) = free_frames (phys_frames s) - f ` R" using r by (auto simp: range_mapped_def free_frames_def n)
  then have "card (free_frames (phys_frames s1)) = card (free_frames (phys_frames s)) - card R"
    using card_Diff_subset [OF finite_imageI [OF R] sub] card_image [OF inj] by simp
  moreover have "card R \<le> card (free_frames (phys_frames s))" using card_mono [OF _ sub] card_image [OF inj] by simp
  ultimately show ?thesis by simp
qed

text \<open>
  A step of the loop: the page is mapped, or the loop ends with a panic because a frame is missing, or space for a table, for the range \<open>S\<close>.
\<close>

definition map_panic :: "u32 \<Rightarrow> virtual_memory \<Rightarrow> nat set \<Rightarrow> fault \<Rightarrow> bool" where
  "map_panic placement s S e \<longleftrightarrow> e = PanicNoFrames \<and> card (free_frames (phys_frames s)) < card S \<or>
     e = PanicPlacement \<and> table_space placement s < card (missing_tables s S)"

lemma range_mapped_step:
  assumes r: "range_mapped flags R f placement s s1" "tables_paid placement R s s1" and v: "\<not> in_placement placement v" "page_no v \<notin> R"
    and S: "insert (page_no v) R \<subseteq> S" "finite S"
  shows "case map_fresh_page placement flags v s1 of Inl e \<Rightarrow> map_panic placement s S e
    | Inr s' \<Rightarrow> \<exists>g. range_mapped flags (insert (page_no v) R) g placement s s' \<and> tables_paid placement (insert (page_no v) R) s s'"
proof -
  have ok: "vm_ok placement s1" using r(1) by (simp add: range_mapped_def)
  have R: "finite R" using S by (meson finite_subset insert_subset)
  note m = map_fresh_page_works [OF ok v(1), of flags]
  consider "free_frames (phys_frames s1) = {}" | "free_frames (phys_frames s1) \<noteq> {}" "pd_index v \<notin> tables_made (paging s1) \<and> table_space placement s1 = 0"
    | "free_frames (phys_frames s1) \<noteq> {}" "\<not> (pd_index v \<notin> tables_made (paging s1) \<and> table_space placement s1 = 0)" by blast
  then show ?thesis
  proof cases
    case 1
    then have "card R = card (free_frames (phys_frames s))" using range_mapped_frames [OF r(1) R] by simp
    moreover have "Suc (card R) \<le> card S" using card_mono [OF S(2,1)] v(2) R by simp
    ultimately show ?thesis using m 1 by (simp add: map_panic_def)
  next
    case 2
    have "table_space placement s < card (missing_tables s S)"
      by (rule tables_short [OF r(2), of "page_no v"]) (use 2(2) S in \<open>auto simp: pd_index_page\<close>)
    then show ?thesis using m 2 by (simp add: map_panic_def)
  next
    case 3
    then obtain s' a where x: "map_fresh_page placement flags v s1 = Inr s'" "fresh_mapped placement flags v a s1 s'"
      "a \<in> free_frames (phys_frames s1)" "made_table placement (pd_index v) (paging s1) (paging s')"
      using m unfolding if_not_P [OF 3(1)] if_not_P [OF 3(2)] by blast
    then show ?thesis
      using range_mapped_insert [OF r(1) v(2) x(2,3)] tables_paid_step [OF r(2) _ R, of "page_no v" s'] by (auto simp: pd_index_page)
  qed
qed

lemma map_range:
  assumes ok: "vm_ok placement s" and i: "4096 dvd unat i" "unat i + 4096 * n < 2 ^ 32" and out: "\<And>w. page_no w \<in> {page_no i..<page_no i + n} \<Longrightarrow> \<not> in_placement placement w"
  defines "S \<equiv> {page_no i..<page_no i + n}"
  shows "\<exists>r. page_loop (map_fresh_page placement flags) i (i + of_nat (4096 * n)) s = Some r \<and>
    (case r of Inl e \<Rightarrow> map_panic placement s S e
     | Inr s' \<Rightarrow> \<exists>f. range_mapped flags S f placement s s' \<and> tables_paid placement S s s')"
proof (unfold S_def, rule page_loop_rule [where P = "\<lambda>k s'. \<exists>f. range_mapped flags {page_no i..<page_no i + k} f placement s s' \<and>
    tables_paid placement {page_no i..<page_no i + k} s s'"])
  show "\<exists>f. range_mapped flags {page_no i..<page_no i + 0} f placement s s \<and> tables_paid placement {page_no i..<page_no i + 0} s s"
    using ok by (simp add: range_mapped_def tables_paid_def)
next
  fix k s1
  assume k: "k < n" and "\<exists>f. range_mapped flags {page_no i..<page_no i + k} f placement s s1 \<and> tables_paid placement {page_no i..<page_no i + k} s s1"
  then obtain f where f: "range_mapped flags {page_no i..<page_no i + k} f placement s s1" "tables_paid placement {page_no i..<page_no i + k} s s1" by blast
  let ?v = "i + of_nat (4096 * k) :: u32"
  have v: "page_no ?v = page_no i + k" using k i by (intro page_no_add(1)) simp_all
  then have "\<not> in_placement placement ?v" using k by (intro out) simp
  moreover have ins: "insert (page_no ?v) {page_no i..<page_no i + k} = {page_no i..<page_no i + Suc k}" unfolding v by auto
  moreover have new: "page_no ?v \<notin> {page_no i..<page_no i + k}" unfolding v by simp
  moreover have sub: "insert (page_no ?v) {page_no i..<page_no i + k} \<subseteq> {page_no i..<page_no i + n}" unfolding ins using k by auto
  ultimately have "case map_fresh_page placement flags ?v s1 of Inl e \<Rightarrow> map_panic placement s {page_no i..<page_no i + n} e
      | Inr s' \<Rightarrow> \<exists>g. range_mapped flags (insert (page_no ?v) {page_no i..<page_no i + k}) g placement s s' \<and>
          tables_paid placement (insert (page_no ?v) {page_no i..<page_no i + k}) s s'"
    using range_mapped_step [OF f _ new sub finite_atLeastLessThan] by blast
  then show "case map_fresh_page placement flags ?v s1 of Inl e \<Rightarrow> map_panic placement s {page_no i..<page_no i + n} e
      | Inr s' \<Rightarrow> \<exists>f. range_mapped flags {page_no i..<page_no i + Suc k} f placement s s' \<and> tables_paid placement {page_no i..<page_no i + Suc k} s s'"
    unfolding ins .
qed (rule i(2))

text \<open>Unmapping: the state when the pages \<open>R\<close> have given back their frames \<open>f\<close>.\<close>

definition range_unmapped :: "nat set \<Rightarrow> (nat \<Rightarrow> nat) \<Rightarrow> u32 \<Rightarrow> virtual_memory \<Rightarrow> virtual_memory \<Rightarrow> bool" where
  "range_unmapped R f placement s s' \<longleftrightarrow> vm_ok placement s' \<and> same_objects s s' \<and> used (phys_frames s') = used (phys_frames s) - f ` R \<and>
     (\<forall>w. page_of (paging s') w = (if page_no w \<in> R then None else page_of (paging s) w))"

lemma DeallocateFrame_removes:
  assumes "frames_ok fa" "unat a = 4096 * f" "f < unat (nFrames fa)"
  shows "\<exists>fa'. DeallocateFrame a fa = Inr fa' \<and> frames_ok fa' \<and> nFrames fa' = nFrames fa \<and> used fa' = used fa - {f}"
proof -
  have f: "unat (a div KERNEL_PAGE_SIZE) = f" using assms(2) by (simp add: unat_div KERNEL_PAGE_SIZE_def)
  then have "a div KERNEL_PAGE_SIZE < numElements (frames fa)" using assms(1,3) by (simp add: word_less_nat_alt frames_ok_def)
  from ClearBit_removes [OF _ this] assms(1) f show ?thesis
    by (auto simp: frames_ok_def used_def DeallocateFrame_def)
qed

lemma unmap_page_works:
  assumes ok: "vm_ok placement s" and v: "\<not> in_placement placement v" "4096 dvd unat v" and m: "page_maps s flags v f" and f: "f \<noteq> 0" "f < unat (nFrames (phys_frames s))"
  shows "\<exists>s'. unmap_page placement v s = Inr s' \<and> range_unmapped {page_no v} (\<lambda>_. f) placement s s'"
proof -
  have p: "paging_ok placement (paging s)" using ok by (simp add: vm_ok_def)
  obtain pg where pg: "page_of (paging s) v = Some pg" "unat (Frame pg) = 4096 * f" using m by (auto simp: page_maps_def)
  have phys: "GetPhysicalAddress v (paging s) = Inr (Frame pg)" using pg(1) offset_aligned [OF v(2)] by (simp add: GetPhysicalAddress_page)
  have nz: "Frame pg \<noteq> 0" using pg(2) f(1) by auto
  have "table_of (paging s) v \<noteq> 0" using pg(1) by (auto simp: page_of_def split: if_splits)
  from UnmapAddress_works [OF p v(1) this] obtain ps where ps: "UnmapAddress placement v (paging s) = Inr ps" "paging_ok placement ps"
    "page_of ps = (\<lambda>w. if page_no w = page_no v then None else page_of (paging s) w)" "current_directory ps = current_directory (paging s)"
    "kernel_directory ps = kernel_directory (paging s)" "cr3 ps = cr3 (paging s)" by blast
  have "frames_ok (phys_frames s)" using ok by (simp add: vm_ok_def)
  from DeallocateFrame_removes [OF this pg(2) f(2)] obtain fa where fa: "DeallocateFrame (Frame pg) (phys_frames s) = Inr fa" "frames_ok fa"
    "nFrames fa = nFrames (phys_frames s)" "used fa = used (phys_frames s) - {f}" by blast
  have "unmap_page placement v s = Inr (s\<lparr>paging := ps, phys_frames := fa\<rparr>)" using phys nz ps(1) fa(1) by (simp add: unmap_page_def)
  then show ?thesis using ps fa ok by (simp add: range_unmapped_def vm_ok_def same_objects_def)
qed

lemma range_unmapped_step:
  assumes r: "range_unmapped R f placement s s1" and v: "\<not> in_placement placement v" "4096 dvd unat v" "page_no v \<notin> R"
    and m: "page_maps s flags v (f (page_no v))" "f (page_no v) \<noteq> 0" "f (page_no v) < unat (nFrames (phys_frames s))"
  shows "\<exists>s'. unmap_page placement v s1 = Inr s' \<and> range_unmapped (insert (page_no v) R) f placement s s'"
proof -
  have ok: "vm_ok placement s1" using r by (simp add: range_unmapped_def)
  have "page_maps s1 flags v (f (page_no v))" using r m(1) v(3) by (simp add: range_unmapped_def page_maps_def)
  moreover have "f (page_no v) < unat (nFrames (phys_frames s1))" using r m(3) by (simp add: range_unmapped_def same_objects_def)
  ultimately obtain s' where s': "unmap_page placement v s1 = Inr s'" "range_unmapped {page_no v} (\<lambda>_. f (page_no v)) placement s1 s'"
    using unmap_page_works [OF ok v(1,2)] m(2) by blast
  have "same_objects s s1" "same_objects s1 s'" using r s'(2) by (simp_all add: range_unmapped_def)
  then have so: "same_objects s s'" by (rule same_objects_trans)
  have "range_unmapped (insert (page_no v) R) f placement s s'"
    unfolding range_unmapped_def
  proof (intro conjI)
    show "used (phys_frames s') = used (phys_frames s) - f ` insert (page_no v) R" using r s'(2) unfolding range_unmapped_def by blast
    show "\<forall>w. page_of (paging s') w = (if page_no w \<in> insert (page_no v) R then None else page_of (paging s) w)"
      using r s'(2) unfolding range_unmapped_def by simp
  qed (use s'(2) so in \<open>simp_all add: range_unmapped_def\<close>)
  then show ?thesis using s'(1) by blast
qed

lemma unmap_range:
  assumes ok: "vm_ok placement s" and i: "4096 dvd unat i" "unat i + 4096 * n < 2 ^ 32" and out: "\<And>w. page_no w \<in> {page_no i..<page_no i + n} \<Longrightarrow> \<not> in_placement placement w"
    and m: "\<And>w. page_no w \<in> {page_no i..<page_no i + n} \<Longrightarrow> page_maps s flags w (f (page_no w)) \<and> f (page_no w) \<noteq> 0 \<and> f (page_no w) < unat (nFrames (phys_frames s))"
  shows "\<exists>s'. page_loop (unmap_page placement) i (i + of_nat (4096 * n)) s = Some (Inr s') \<and> range_unmapped {page_no i..<page_no i + n} f placement s s'"
proof -
  have "\<exists>r. page_loop (unmap_page placement) i (i + of_nat (4096 * n)) s = Some r \<and>
    (case r of Inl e \<Rightarrow> False | Inr s' \<Rightarrow> range_unmapped {page_no i..<page_no i + n} f placement s s')"
  proof (rule page_loop_rule [where P = "\<lambda>k s'. range_unmapped {page_no i..<page_no i + k} f placement s s'"])
    show "range_unmapped {page_no i..<page_no i + 0} f placement s s" using ok by (simp add: range_unmapped_def)
  next
    fix k s1
    assume k: "k < n" and r: "range_unmapped {page_no i..<page_no i + k} f placement s s1"
    let ?v = "i + of_nat (4096 * k) :: u32"
    have v: "page_no ?v = page_no i + k" "4096 dvd unat ?v" using k i by (auto intro!: page_no_add simp del: of_nat_mult)
    then have "page_no ?v \<in> {page_no i..<page_no i + n}" using k by simp
    note range_unmapped_step [OF r out [OF this] v(2) _ _ _ _, of flags] m [OF this]
    moreover have "insert (page_no ?v) {page_no i..<page_no i + k} = {page_no i..<page_no i + Suc k}" unfolding v by auto
    moreover have "page_no ?v \<notin> {page_no i..<page_no i + k}" unfolding v by simp
    ultimately show "case unmap_page placement ?v s1 of Inl e \<Rightarrow> False | Inr s' \<Rightarrow> range_unmapped {page_no i..<page_no i + Suc k} f placement s s'"
      by (auto simp del: of_nat_mult)
  qed (rule i(2))
  then obtain r where "page_loop (unmap_page placement) i (i + of_nat (4096 * n)) s = Some r"
    "case r of Inl e \<Rightarrow> False | Inr s' \<Rightarrow> range_unmapped {page_no i..<page_no i + n} f placement s s'" by blast
  then show ?thesis by (cases r) auto
qed

lemma encloses_unat:
  assumes "encloses r a"
  shows "unat (region_start r) \<le> unat a" "unat a < unat (region_start r) + unat (region_size r)"
    "unat (region_start r + region_size r) = unat (region_start r) + unat (region_size r)" "unat (region_start r) + unat (region_size r) < 2 ^ 32"
proof -
  have a: "unat (region_start r) \<le> unat a" "unat a < unat (region_start r + region_size r)"
    using assms by (simp_all add: encloses_def word_le_nat_alt word_less_nat_alt)
  have "unat (region_start r) + unat (region_size r) < 2 ^ 32"
  proof (rule ccontr)
    assume c: "\<not> ?thesis"
    have "unat (region_start r + region_size r) = (unat (region_start r) + unat (region_size r)) mod 2 ^ 32"
      by (simp add: unat_word_ariths take_bit_eq_mod)
    also have "\<dots> = unat (region_start r) + unat (region_size r) - 2 ^ 32"
      using c unat_bound32 [of "region_start r"] unat_bound32 [of "region_size r"] by (subst le_mod_geq) (simp_all del: unat_bound32)
    finally have "unat a < unat (region_start r) + unat (region_size r) - 2 ^ 32" using a(2) by simp
    moreover have "unat (region_size r) < 2 ^ 32" by simp
    ultimately show False using a(1) by linarith
  qed
  then show "unat (region_start r) + unat (region_size r) < 2 ^ 32" "unat (region_start r + region_size r) = unat (region_start r) + unat (region_size r)"
    by (simp_all add: unat_add32)
  with a show "unat (region_start r) \<le> unat a" "unat a < unat (region_start r) + unat (region_size r)" by simp_all
qed

lemma aligned_iff [simp]: "IS_PAGE_ALIGNED x \<longleftrightarrow> 4096 dvd unat x"
  by (simp add: IS_PAGE_ALIGNED_def KERNEL_PAGE_SIZE_def unat_mod dvd_eq_mod_eq_0 flip: unat_eq_0)

definition region_ok :: "memory_region \<Rightarrow> bool" where
  "region_ok r \<longleftrightarrow> 4096 dvd unat (region_start r) \<and> 4096 dvd unat (region_size r)"

lemma page_inside:
  assumes r: "region_ok r" "encloses r a"
  shows "\<not> a AND PAGEALIGN_MASK < region_start r" "\<not> region_start r + region_size r < (a AND PAGEALIGN_MASK) + KERNEL_PAGE_SIZE"
    "unat (a AND PAGEALIGN_MASK) + 4096 < 2 ^ 32" "4096 dvd unat (a AND PAGEALIGN_MASK)" "page_no (a AND PAGEALIGN_MASK) = page_no a"
proof -
  note e = encloses_unat [OF r(2)]
  obtain k m where km: "unat (region_start r) = 4096 * k" "unat (region_size r) = 4096 * m" using r(1) by (auto simp: region_ok_def elim!: dvdE)
  define q where "q = unat a div 4096"
  have u: "unat (a AND PAGEALIGN_MASK) = 4096 * q" by (simp add: align_down q_def)
  have a: "4096 * q \<le> unat a" "unat a < 4096 * (q + 1)" using times_div_less_eq_dividend [of 4096 "unat a"] dividend_less_times_div [of 4096 "unat a"] unfolding q_def by simp_all
  have "4096 * k < 4096 * (q + 1)" "4096 * q < 4096 * (k + m)" using e(1,2) a km by simp_all
  then have kq: "k \<le> q" "q + 1 \<le> k + m" by simp_all
  show "\<not> a AND PAGEALIGN_MASK < region_start r" using kq km u by (simp add: word_less_nat_alt)
  show up: "unat (a AND PAGEALIGN_MASK) + 4096 < 2 ^ 32" using kq km u e(4) by simp
  then have "unat ((a AND PAGEALIGN_MASK) + KERNEL_PAGE_SIZE) = 4096 * (q + 1)" using u by (subst unat_add32) (simp_all add: KERNEL_PAGE_SIZE_def)
  then show "\<not> region_start r + region_size r < (a AND PAGEALIGN_MASK) + KERNEL_PAGE_SIZE" using kq km e(3) by (simp add: word_less_nat_alt)
  show "4096 dvd unat (a AND PAGEALIGN_MASK)" "page_no (a AND PAGEALIGN_MASK) = page_no a" using u by (simp_all add: page_no_def q_def)
qed

text \<open>The frame of a fault: the lowest free one, mapped with the flags of the region.\<close>

lemma MapFreshPages_one:
  assumes ok: "vm_ok placement s" and r: "region_ok (regions s r)" "encloses (regions s r) a" and out: "\<not> in_placement placement a"
  defines "x \<equiv> MapFreshPages placement r (a AND PAGEALIGN_MASK) KERNEL_PAGE_SIZE s"
  shows "if free_frames (phys_frames s) = {} then x = Some (Inl PanicNoFrames)
    else if pd_index a \<notin> tables_made (paging s) \<and> table_space placement s = 0 then x = Some (Inl PanicPlacement)
    else \<exists>s' f. x = Some (Inr s') \<and> fresh_mapped placement (region_flags (regions s r)) a f s s'"
proof -
  let ?i = "a AND PAGEALIGN_MASK" and ?step = "map_fresh_page placement (region_flags (regions s r))"
  note p = page_inside [OF r]
  have "\<not> in_placement placement ?i" using out in_placement_page [OF _ p(5), of placement] ok by (simp add: vm_ok_def paging_ok_def placement_ok_def Let_def)
  note m = map_fresh_page_works [OF ok this, of "region_flags (regions s r)"]
  have "unat (?i + KERNEL_PAGE_SIZE) = unat ?i + 4096" using p(3) by (subst unat_add32) (simp_all add: KERNEL_PAGE_SIZE_def)
  then have "?i < ?i + KERNEL_PAGE_SIZE" by (simp add: word_less_nat_alt)
  then have "page_loop ?step ?i (?i + KERNEL_PAGE_SIZE) s = Some (?step ?i s)"
    by (subst page_loop.simps) (auto simp: page_loop.simps split: sum.splits)
  moreover have "IS_PAGE_ALIGNED KERNEL_PAGE_SIZE" by (simp add: KERNEL_PAGE_SIZE_def)
  ultimately have x: "x = Some (?step ?i s)" using p(1,2,4) by (simp add: x_def MapFreshPages_def)
  have "fresh_mapped placement fl ?i f s s' = fresh_mapped placement fl a f s s'" for fl f s' by (simp add: fresh_mapped_def p(5))
  then show ?thesis using m unfolding x pd_index_page p(5) by (auto split: if_splits)
qed

lemma MapFreshPages_one_no_fault:
  assumes "vm_ok placement s" "region_ok (regions s r)" "encloses (regions s r) a" "\<not> in_placement placement a"
  shows "MapFreshPages placement r (a AND PAGEALIGN_MASK) KERNEL_PAGE_SIZE s \<noteq> Some (Inl PanicPageFault)"
  using MapFreshPages_one [OF assms] by (auto split: if_splits)

lemma first_where_holds: "first_where P rs = r \<Longrightarrow> r \<noteq> 0 \<Longrightarrow> P r"
  by (induction rs) (auto split: if_splits)

lemma page_fault_lazy:
  assumes ok: "vm_ok placement s" and r: "currentSpace s \<noteq> 0" "r = FindRegionEnclosingAddress (currentSpace s) cr2 s" "r \<noteq> 0"
    "region_kind (regions s r) \<in> {LazyRegion, BuddyRegion}"
  shows "page_fault_isr placement cr2 regs s = (if page_of (paging s) cr2 = None then MapFreshPages placement r (cr2 AND PAGEALIGN_MASK) KERNEL_PAGE_SIZE s
    else Some (Inl PanicPageFault))"
proof -
  have "IsPresent cr2 (paging s) = Inr (page_of (paging s) cr2 \<noteq> None)" using ok by (intro IsPresent_page [of placement]) (simp add: vm_ok_def)
  then have "space_HandlePageFault placement (currentSpace s) cr2 s = (if page_of (paging s) cr2 = None then
      Option.bind (MapFreshPages placement r (cr2 AND PAGEALIGN_MASK) KERNEL_PAGE_SIZE s) (\<lambda>x. Some (rbind x (\<lambda>s. Inr (True, s))))
      else Some (Inl PanicPageFault))"
    using r(2,3,4) by (auto simp: space_HandlePageFault_def region_HandlePageFault_def lazy_HandlePageFault_def)
  then show ?thesis
    using r(1) by (cases "MapFreshPages placement r (cr2 AND PAGEALIGN_MASK) KERNEL_PAGE_SIZE s")
      (auto simp: page_fault_isr_def exception_Execute_def fault_Resolve_def fault_Prepare_def rbind_def split: sum.splits)
qed

lemma enclosing_region: "r = FindRegionEnclosingAddress sp a s \<Longrightarrow> r \<noteq> 0 \<Longrightarrow> encloses (regions s r) a"
  using first_where_holds [of "\<lambda>r. encloses (regions s r) a"] by (simp add: FindRegionEnclosingAddress_def)

section \<open>Properties\<close>

text \<open>C9. A page fault at an address of a lazy region that is not present is resolved with one frame: the handler maps the lowest free frame to the page
  of the address with the flags of the region, marks it, and changes no other page and no other object. This is what happens whenever a frame is
  free and the page has its page table or the placement region has a page left for it; without a free frame, or else without that page, it panics.\<close>

theorem page_fault_maps_lowest_frame:
  assumes ok: "vm_ok placement s" and r: "currentSpace s \<noteq> 0" "r = FindRegionEnclosingAddress (currentSpace s) cr2 s" "r \<noteq> 0" "region_ok (regions s r)"
    "region_kind (regions s r) \<in> {LazyRegion, BuddyRegion}" and a: "page_of (paging s) cr2 = None" "\<not> in_placement placement cr2"
  shows "if free_frames (phys_frames s) = {} then page_fault_isr placement cr2 regs s = Some (Inl PanicNoFrames)
    else if table_of (paging s) cr2 = 0 \<and> table_space placement s = 0 then page_fault_isr placement cr2 regs s = Some (Inl PanicPlacement)
    else \<exists>s' f. page_fault_isr placement cr2 regs s = Some (Inr s') \<and> vm_ok placement s' \<and> same_objects s s' \<and>
      f < unat (nFrames (phys_frames s)) \<and> f \<notin> used (phys_frames s) \<and> {..<f} \<subseteq> used (phys_frames s) \<and>
      used (phys_frames s') = insert f (used (phys_frames s)) \<and>
      (\<forall>w. page_no w = page_no cr2 \<longrightarrow> page_maps s' (region_flags (regions s r)) w f) \<and>
      (\<forall>w. page_no w \<noteq> page_no cr2 \<longrightarrow> page_of (paging s') w = page_of (paging s) w)"
proof -
  have t: "table_of (paging s) cr2 = 0 \<longleftrightarrow> pd_index cr2 \<notin> tables_made (paging s)" using table_of_made by blast
  have x: "page_fault_isr placement cr2 regs s = MapFreshPages placement r (cr2 AND PAGEALIGN_MASK) KERNEL_PAGE_SIZE s"
    using page_fault_lazy [OF ok r(1-3,5), of regs] a(1) by simp
  show ?thesis
    using MapFreshPages_one [OF ok r(4) enclosing_region [OF r(2,3)] a(2)] unfolding x t fresh_mapped_def .
qed

text \<open>C24. The page fault handler panics with an unresolved fault exactly when there is no current space, when no region of it encloses the address,
  when a lazy region has the page already (a violated protection), or when the region is a plain or a program region; a fault in a swapped region
  counts as resolved although nothing changes, so the instruction faults again.\<close>

theorem page_fault_panics:
  assumes ok: "vm_ok placement s" and "r = FindRegionEnclosingAddress (currentSpace s) cr2 s" "r \<noteq> 0 \<longrightarrow> region_ok (regions s r)" "\<not> in_placement placement cr2"
  shows "(page_fault_isr placement cr2 regs s = Some (Inl PanicPageFault) \<longleftrightarrow> currentSpace s = 0 \<or> r = 0 \<or>
      region_kind (regions s r) \<in> {PlainRegion, ProgramRegion} \<or>
      region_kind (regions s r) \<in> {LazyRegion, BuddyRegion} \<and> page_of (paging s) cr2 \<noteq> None)
    \<and> (currentSpace s \<noteq> 0 \<and> r \<noteq> 0 \<and> region_kind (regions s r) = SwappedRegion \<longrightarrow> page_fault_isr placement cr2 regs s = Some (Inr s))"
proof (cases "currentSpace s = 0 \<or> r = 0")
  case True
  then show ?thesis
    using assms(2) by (auto simp: page_fault_isr_def exception_Execute_def fault_Resolve_def fault_Prepare_def space_HandlePageFault_def)
next
  case False
  then have r: "currentSpace s \<noteq> 0" "r \<noteq> 0" "encloses (regions s r) cr2" "region_ok (regions s r)"
    using assms(3) enclosing_region [OF assms(2)] by auto
  show ?thesis
  proof (cases "region_kind (regions s r) \<in> {LazyRegion, BuddyRegion}")
    case True
    then show ?thesis
      using page_fault_lazy [OF ok r(1) assms(2) r(2) True, of regs] MapFreshPages_one_no_fault [OF ok r(4,3) assms(4)] r by auto
  next
    case lazy: False
    then show ?thesis
      using r(1,2) assms(2)
      by (cases "region_kind (regions s r)")
        (simp_all add: page_fault_isr_def exception_Execute_def fault_Resolve_def fault_Prepare_def space_HandlePageFault_def region_HandlePageFault_def)
  qed
qed

text \<open>The range lies in its region, so both calls run their loops.\<close>

lemma range_loops:
  assumes n: "4096 dvd unat start" "unat (region_start (regions s r)) \<le> unat start"
    "unat start + 4096 * n \<le> unat (region_start (regions s r)) + unat (region_size (regions s r))"
    "unat (region_start (regions s r)) + unat (region_size (regions s r)) < 2 ^ 32"
  shows "MapFreshPages placement r start (of_nat (4096 * n)) s =
      page_loop (map_fresh_page placement (region_flags (regions s r))) start (start + of_nat (4096 * n)) s"
    "UnmapPages placement r start (of_nat (4096 * n)) s = page_loop (unmap_page placement) start (start + of_nat (4096 * n)) s"
proof -
  let ?L = "of_nat (4096 * n) :: u32"
  have lim: "unat start + 4096 * n < 2 ^ 32" using n(3,4) by simp
  have sum: "unat (start + ?L) = unat start + 4096 * n" by (rule unat_plus_nat [OF lim])
  have len: "unat ?L = 4096 * n" using lim by (intro unat_of_nat32) simp
  have "IS_PAGE_ALIGNED start" "IS_PAGE_ALIGNED ?L" "\<not> start < region_start (regions s r)"
    "\<not> region_start (regions s r) + region_size (regions s r) < start + ?L"
    using n sum len by (simp_all only: aligned_iff word_less_nat_alt unat_add32) (simp_all add: unat_add32)
  then show "MapFreshPages placement r start ?L s = page_loop (map_fresh_page placement (region_flags (regions s r))) start (start + ?L) s"
      "UnmapPages placement r start ?L s = page_loop (unmap_page placement) start (start + ?L) s"
    by (simp_all add: MapFreshPages_def UnmapPages_def del: of_nat_mult)
qed

lemma unmap_mapped:
  assumes m: "range_mapped (region_flags (regions s r)) {page_no start..<page_no start + n} f placement s s1"
    and n: "4096 dvd unat start" "unat start + 4096 * n < 2 ^ 32" and out: "\<And>w. page_no w \<in> {page_no start..<page_no start + n} \<Longrightarrow> \<not> in_placement placement w"
    and zero: "0 \<in> used (phys_frames s)"
  shows "\<exists>s2. page_loop (unmap_page placement) start (start + of_nat (4096 * n)) s1 = Some (Inr s2) \<and> vm_ok placement s2 \<and> same_objects s s2 \<and>
    used (phys_frames s2) = used (phys_frames s) \<and>
    (\<forall>w. page_of (paging s2) w = (if page_no w \<in> {page_no start..<page_no start + n} then None else page_of (paging s) w))"
proof -
  let ?fl = "region_flags (regions s r)" and ?R = "{page_no start..<page_no start + n}"
  have ok1: "vm_ok placement s1" and so1: "same_objects s s1" using m by (simp_all add: range_mapped_def)
  have disj: "f ` ?R \<inter> used (phys_frames s) = {}" using m by (auto simp: range_mapped_def free_frames_def)
  have ne: "page_maps s1 ?fl w (f (page_no w)) \<and> f (page_no w) \<noteq> 0 \<and> f (page_no w) < unat (nFrames (phys_frames s1))" if "page_no w \<in> ?R" for w
  proof -
    have "f (page_no w) \<in> f ` ?R" using that by (rule imageI)
    then have "f (page_no w) \<noteq> 0" using disj zero by (metis IntI empty_iff)
    then show ?thesis using m that so1 by (simp add: range_mapped_def same_objects_def)
  qed
  from unmap_range [OF ok1 n out ne] obtain s2 where s2: "page_loop (unmap_page placement) start (start + of_nat (4096 * n)) s1 = Some (Inr s2)"
    "range_unmapped ?R f placement s1 s2" by blast
  have "same_objects s1 s2" using s2(2) by (simp add: range_unmapped_def)
  with so1 have "same_objects s s2" by (rule same_objects_trans)
  moreover have "used (phys_frames s2) = used (phys_frames s)" using m disj s2(2) by (auto simp: range_mapped_def range_unmapped_def)
  moreover have "\<forall>w. page_of (paging s2) w = (if page_no w \<in> ?R then None else page_of (paging s) w)"
    using m s2(2) by (simp add: range_mapped_def range_unmapped_def)
  ultimately show ?thesis using s2 by (auto simp: range_unmapped_def)
qed

text \<open>C10. Mapping fresh pages and unmapping them again is a round trip. When there are enough free frames, and room for the page tables that are missing,
  \<open>MapFreshPages\<close> gives every page of the range a free frame of its own, and \<open>UnmapPages\<close> then returns, gives exactly these frames back and leaves the
  other pages as they were. \<open>MapFreshPages\<close> panics for want of frames only when there are fewer than pages, and for want of table space only when the
  missing tables outnumber the pages of the placement region that are left; when either is so, it panics. Frame 0 has to be in use already:
  \<open>UnmapPages\<close> takes the physical address 0 for a page that is not mapped.\<close>

theorem map_unmap_round_trip:
  assumes ok: "vm_ok placement s" and n: "4096 dvd unat start" "unat (region_start (regions s r)) \<le> unat start"
    "unat start + 4096 * n \<le> unat (region_start (regions s r)) + unat (region_size (regions s r))"
    "unat (region_start (regions s r)) + unat (region_size (regions s r)) < 2 ^ 32"
    and out: "\<And>w. page_no w \<in> {page_no start..<page_no start + n} \<Longrightarrow> \<not> in_placement placement w" and zero: "0 \<in> used (phys_frames s)"
  shows "if n \<le> card (free_frames (phys_frames s)) \<and> card (missing_tables s {page_no start..<page_no start + n}) \<le> table_space placement s
    then \<exists>s1 s2 f. MapFreshPages placement r start (of_nat (4096 * n)) s = Some (Inr s1) \<and>
      range_mapped (region_flags (regions s r)) {page_no start..<page_no start + n} f placement s s1 \<and>
      UnmapPages placement r start (of_nat (4096 * n)) s1 = Some (Inr s2) \<and> vm_ok placement s2 \<and> same_objects s s2 \<and>
      used (phys_frames s2) = used (phys_frames s) \<and>
      (\<forall>w. page_of (paging s2) w = (if page_no w \<in> {page_no start..<page_no start + n} then None else page_of (paging s) w))
    else (MapFreshPages placement r start (of_nat (4096 * n)) s = Some (Inl PanicNoFrames) \<and> card (free_frames (phys_frames s)) < n) \<or>
      (MapFreshPages placement r start (of_nat (4096 * n)) s = Some (Inl PanicPlacement) \<and>
       table_space placement s < card (missing_tables s {page_no start..<page_no start + n}))"
proof -
  let ?R = "{page_no start..<page_no start + n}" and ?L = "of_nat (4096 * n) :: u32" and ?fl = "region_flags (regions s r)"
  have lim: "unat start + 4096 * n < 2 ^ 32" using n(3,4) by simp
  note map = range_loops(1) [OF n, of placement]
  from map_range [OF ok n(1) lim out, of ?fl] obtain x where x: "page_loop (map_fresh_page placement ?fl) start (start + ?L) s = Some x"
    "case x of Inl e \<Rightarrow> map_panic placement s ?R e
     | Inr s' \<Rightarrow> \<exists>f. range_mapped ?fl ?R f placement s s' \<and> tables_paid placement ?R s s'" by blast
  show ?thesis
  proof (cases x)
    case (Inl e)
    then have "map_panic placement s ?R e" using x(2) by simp
    then show ?thesis using x(1) Inl unfolding map by (auto simp: map_panic_def simp del: of_nat_mult)
  next
    case (Inr s1)
    then obtain f where f: "range_mapped ?fl ?R f placement s s1" "tables_paid placement ?R s s1" using x(2) by auto
    have enough: "n \<le> card (free_frames (phys_frames s)) \<and> card (missing_tables s ?R) \<le> table_space placement s"
      using range_mapped_frames [OF f(1)] f(2) by (simp add: tables_paid_def)
    have "same_objects s s1" using f(1) by (simp add: range_mapped_def)
    then have regs: "regions s1 = regions s"
      unfolding same_objects_def by (metis virtual_memory.select_convs(4) virtual_memory.surjective virtual_memory.update_convs(1,2))
    show ?thesis
      unfolding if_P [OF enough] map using unmap_mapped [OF f(1) n(1) lim out zero] range_loops(2) [of start s1 r n placement, unfolded regs, OF n]
        x(1) Inr f(1) by (simp del: of_nat_mult) blast
  qed
qed

section \<open>An example\<close>

lemma small_frames_whole: "32 * (unat (nFrames small_frames) div 32) = 32"
  by (simp add: small_frames_ok)

text \<open>One table maps 4 MB from 3 GB on; a lazy region from 1 GB on, a swapped region behind it.\<close>

definition example_tables :: x86_paging where
  "example_tables = \<lparr>kernel_directory = 0xC0100000, current_directory = 0xC0100000,
     page_directories = (\<lambda>_. \<lparr>tablesPhysical = (\<lambda>i. if i = 768 then 0x200003 else 0), tables = (\<lambda>i. if i = 768 then 0xC0200000 else 0)\<rparr>),
     page_tables = (\<lambda>t j. if t = 0xC0200000 then new_x86Page\<lparr>pg_present := True, pg_rw := True, pg_frame := of_nat j\<rparr> else new_x86Page),
     placement_address = 0xC0201000, cr3 = 0x100000\<rparr>"

lemma example_tables_ok: "paging_ok 0xC0200000 example_tables"
proof -
  have idx: "pd_index v = 768" if "in_placement 0xC0200000 v" for v
    using that unfolding in_placement_def index_values by (intro div_nat_eqI) simp_all
  have t: "pd_index 0xC0200000 = 768" "pt_index 0xC0200000 = 512" by (simp_all add: index_values)
  show ?thesis
    using idx by (auto simp: paging_ok_def placement_ok_def Let_def example_tables_def page_of_def table_of_def get_page_def t Frame_def)
qed

definition example_memory :: "frame_allocator \<Rightarrow> virtual_memory" where
  "example_memory fa = \<lparr>paging = example_tables, phys_frames = fa, hal_ready = True,
     regions = (\<lambda>a. \<lparr>region_flags = ALLOCFLAG_WRITABLE, region_start = if a = 0x100 then 0x40000000 else 0x50000000, region_size = 0x10000,
       region_name = ''heap'', region_kind = if a = 0x100 then LazyRegion else SwappedRegion\<rparr>),
     spaces = (\<lambda>_. \<lparr>space_name = ''KernelSpace'', memoryRegionList = [0x200, 0x100], pageDirectory = 0xC0100000\<rparr>),
     memorySpaceList = [0x300], currentSpace = 0x300\<rparr>"

lemma example_memory_ok: "frames_ok fa \<Longrightarrow> vm_ok 0xC0200000 (example_memory fa)"
  by (simp add: vm_ok_def example_memory_def example_tables_ok)

lemma example_region:
  "FindRegionEnclosingAddress 0x300 0x40001234 (example_memory fa) = 0x100" "FindRegionEnclosingAddress 0x300 0x50001234 (example_memory fa) = 0x200"
  "FindRegionEnclosingAddress 0x300 0x60001234 (example_memory fa) = 0"
  by (simp_all add: FindRegionEnclosingAddress_def example_memory_def encloses_def)

lemma example_absent: "page_of example_tables v = None" if "unat v < 0x80000000"
proof -
  have "pd_index v < 768" using that unfolding index_values by (intro div_less_iff_less_mult [THEN iffD2]) simp_all
  then show ?thesis by (simp add: page_of_def table_of_def example_tables_def)
qed

definition example_registers :: registers where
  "example_registers = \<lparr>reg_int_no = 14, reg_err_code = 2, reg_eip = 0xC0101234\<rparr>"

lemma example_resources:
  "table_space 0xC0200000 (example_memory fa) = 511" "table_of example_tables 0x40001234 = 0"
proof -
  have "pd_index 0x40001234 = 256" by (simp add: index_values)
  then show "table_of example_tables 0x40001234 = 0" by (simp add: table_of_def example_tables_def)
qed (simp add: table_space_def placement_room_def example_memory_def example_tables_def)

theorem page_fault_maps_lowest_frame_witness:
  "\<exists>s'. page_fault_isr 0xC0200000 0x40001234 example_registers (example_memory small_frames) = Some (Inr s') \<and> used (phys_frames s') = {0} \<and>
      page_maps s' ALLOCFLAG_WRITABLE 0x40001FFF 0"
proof -
  let ?s = "example_memory small_frames"
  have r: "currentSpace ?s = 0x300" "regions ?s 0x100 = \<lparr>region_flags = ALLOCFLAG_WRITABLE, region_start = 0x40000000, region_size = 0x10000,
      region_name = ''heap'', region_kind = LazyRegion\<rparr>" "paging ?s = example_tables" "phys_frames ?s = small_frames"
    by (simp_all add: example_memory_def)
  have n: "free_frames (phys_frames ?s) \<noteq> {}" by (simp add: r free_frames_def small_frames_ok(2) small_frames_whole lessThan_empty_iff)
  have sp: "\<not> (table_of (paging ?s) 0x40001234 = 0 \<and> table_space 0xC0200000 ?s = 0)" by (simp add: example_resources)
  have "region_ok (regions ?s 0x100)" by (simp add: r region_ok_def)
  moreover have "region_kind (regions ?s 0x100) \<in> {LazyRegion, BuddyRegion}" by (simp add: r)
  moreover have "page_of (paging ?s) 0x40001234 = None" unfolding r(3) by (rule example_absent) simp
  ultimately obtain s' f where s': "page_fault_isr 0xC0200000 0x40001234 example_registers ?s = Some (Inr s')" "{..<f} \<subseteq> used (phys_frames ?s)"
      "used (phys_frames s') = insert f (used (phys_frames ?s))"
      "\<forall>w. page_no w = page_no 0x40001234 \<longrightarrow> page_maps s' (region_flags (regions ?s 0x100)) w f"
    using page_fault_maps_lowest_frame [OF example_memory_ok [OF small_frames_ok(1)], of "0x100" "0x40001234" example_registers]
      example_region(1) [of small_frames] unfolding if_not_P [OF n] if_not_P [OF sp] by (auto simp: r in_placement_def)
  have "f = 0" using s'(2) by (simp add: r small_frames_ok(2) lessThan_empty_iff)
  then show ?thesis using s'(1,3,4) by (auto simp: r small_frames_ok(2) page_no_def)
qed

theorem page_fault_panics_witness:
  "page_fault_isr 0xC0200000 0x60001234 example_registers (example_memory small_frames) = Some (Inl PanicPageFault) \<and>
    page_fault_isr 0xC0200000 0x50001234 example_registers (example_memory small_frames) = Some (Inr (example_memory small_frames))"
  using page_fault_panics [OF example_memory_ok [OF small_frames_ok(1)] refl, of "0x60001234" example_registers]
    page_fault_panics [OF example_memory_ok [OF small_frames_ok(1)] refl, of "0x50001234" example_registers]
    example_region(2,3) [of small_frames]
  by (simp add: example_memory_def region_ok_def in_placement_def)

lemma frame_zero_used:
  obtains fa where "frames_ok fa" "used fa = {0}" "card (free_frames fa) = 31"
  using AllocateFrame_lowest [OF small_frames_ok(1), unfolded small_frames_whole small_frames_ok(2)]
proof (elim disjE exE conjE)
  assume "{..<32 :: nat} \<subseteq> {}"
  then show thesis by (simp add: lessThan_empty_iff)
next
  fix a fa assume a: "frames_ok fa" "nFrames fa = nFrames small_frames" "{..<unat a div 4096} \<subseteq> {}"
    "used fa = insert (unat a div 4096) {}"
  have z: "unat a div 4096 = 0" using a(3) lessThan_empty_iff [of "unat a div 4096"] by simp
  have fa: "used fa = {0}" "nFrames fa = nFrames small_frames" using a(2,4) unfolding z by simp_all
  have "free_frames fa = {1..<32}" using small_frames_whole by (auto simp: free_frames_def fa)
  then show thesis by (intro that [OF a(1) fa(1)]) simp
qed

theorem map_unmap_round_trip_witness:
  "\<exists>fa s1 s2. used fa = {0} \<and> MapFreshPages 0xC0200000 0x100 0x40000000 0x3000 (example_memory fa) = Some (Inr s1) \<and>
      card (used (phys_frames s1)) = 4 \<and>
      UnmapPages 0xC0200000 0x100 0x40000000 0x3000 s1 = Some (Inr s2) \<and> used (phys_frames s2) = used fa"
proof -
  obtain fa where fa: "frames_ok fa" "used fa = {0}" "card (free_frames fa) = 31" by (rule frame_zero_used)
  let ?s = "example_memory fa" and ?R = "{page_no 0x40000000..<page_no 0x40000000 + 3}"
  have out: "\<not> in_placement 0xC0200000 w" if "page_no w \<in> ?R" for w
  proof -
    have "unat w < 4096 * 262147" using that by (simp add: page_no_def div_less_iff_less_mult)
    then show ?thesis by (simp add: in_placement_def)
  qed
  have r: "region_start (regions ?s 0x100) = 0x40000000" "region_size (regions ?s 0x100) = 0x10000" "phys_frames ?s = fa"
    by (simp_all add: example_memory_def)
  have zero: "0 \<in> used (phys_frames ?s)" by (simp add: r fa(2))
  have hyps: "4096 dvd unat (0x40000000 :: u32)" "unat (region_start (regions ?s 0x100)) \<le> unat (0x40000000 :: u32)"
    "unat (0x40000000 :: u32) + 4096 * 3 \<le> unat (region_start (regions ?s 0x100)) + unat (region_size (regions ?s 0x100))"
    "unat (region_start (regions ?s 0x100)) + unat (region_size (regions ?s 0x100)) < 2 ^ 32"
    by (simp_all add: r)
  have "card (missing_tables ?s ?R) \<le> card ?R"
    unfolding missing_tables_def by (rule order_trans [OF card_mono card_image_le]) auto
  then have "3 \<le> card (free_frames (phys_frames ?s)) \<and> card (missing_tables ?s ?R) \<le> table_space 0xC0200000 ?s"
    using fa(3) example_resources(1) [of fa] by (simp add: r)
  note rt = map_unmap_round_trip [OF example_memory_ok [OF fa(1)] hyps out zero, unfolded if_P [OF this]]
  have three: "of_nat (4096 * 3) = (0x3000 :: u32)" by simp
  from rt [unfolded three] obtain s1 s2 f where x: "MapFreshPages 0xC0200000 0x100 0x40000000 0x3000 ?s = Some (Inr s1)"
    "range_mapped (region_flags (regions ?s 0x100)) ?R f 0xC0200000 ?s s1"
    "UnmapPages 0xC0200000 0x100 0x40000000 0x3000 s1 = Some (Inr s2)" "used (phys_frames s2) = used (phys_frames ?s)" by blast
  have "used (phys_frames s1) = {0} \<union> f ` ?R" "f ` ?R \<inter> {0} = {}" "inj_on f ?R"
    using x(2) by (auto simp: range_mapped_def free_frames_def r fa(2))
  then have "card (used (phys_frames s1)) = 4" using card_Un_disjoint [of "{0}" "f ` ?R"] card_image [of f ?R] by (simp add: Int_commute)
  then show ?thesis using x fa(2) by (auto simp: r)
qed

end
