(* ===== verification/IOMemory.thy ===== *)
theory IOMemory
  imports VirtualMemory
begin

text \<open>
  The I/O memory of the kernel (IOMemoryManager, IOMemoryRegion): a window of virtual addresses in which ranges of physical addresses are mapped.
  The regions are objects at addresses, the list of the manager is the sequence of their addresses; the address of a new region comes from the
  allocator and is an argument.
\<close>

section \<open>State and operations\<close>

record io_region =
  io_start :: u32
  io_startPhysical :: u32
  io_size :: u32
  io_name :: string

record io_manager =
  iomemStart :: u32
  iomemSize :: u32
  io_regions :: "u32 \<Rightarrow> io_region"
  regionList :: "u32 list"

definition KERNEL_IO_MEMORY_START :: u32 where
  "KERNEL_IO_MEMORY_START = 0xE0000000"

definition KERNEL_IO_MEMORY_END :: u32 where
  "KERNEL_IO_MEMORY_END = 0xFFFFFFFF"

definition new_IOMemoryManager :: "u32 \<Rightarrow> u32 \<Rightarrow> (u32 \<Rightarrow> io_region) \<Rightarrow> io_manager" where
  "new_IOMemoryManager IOMemoryStart IOMemorySize objects =
     \<lparr>iomemStart = IOMemoryStart, iomemSize = IOMemorySize, io_regions = objects, regionList = []\<rparr>"

text \<open>VirtualMemoryManager::Init.\<close>

definition VirtualMemoryManager_Init :: "(u32 \<Rightarrow> io_region) \<Rightarrow> io_manager" where
  "VirtualMemoryManager_Init = new_IOMemoryManager KERNEL_IO_MEMORY_START (KERNEL_IO_MEMORY_END - KERNEL_IO_MEMORY_START)"

definition io_AddRegion :: "u32 \<Rightarrow> io_manager \<Rightarrow> io_manager" where
  "io_AddRegion r m = m\<lparr>regionList := regionList m @ [r]\<rparr>"

definition io_FindRegionByName :: "string \<Rightarrow> io_manager \<Rightarrow> u32" where
  "io_FindRegionByName regionName m = first_where (\<lambda>r. io_name (io_regions m r) = regionName) (regionList m)"

definition FindRegionEnclosingPhysicalAddress :: "u32 \<Rightarrow> io_manager \<Rightarrow> u32" where
  "FindRegionEnclosingPhysicalAddress a m =
     first_where (\<lambda>r. io_startPhysical (io_regions m r) \<le> a \<and> a < io_startPhysical (io_regions m r) + io_size (io_regions m r)) (regionList m)"

definition FindRegionEnclosingVirtualAddress :: "u32 \<Rightarrow> io_manager \<Rightarrow> u32" where
  "FindRegionEnclosingVirtualAddress a m =
     first_where (\<lambda>r. io_start (io_regions m r) \<le> a \<and> a < io_start (io_regions m r) + io_size (io_regions m r)) (regionList m)"

text \<open>The body of the loop of Allocate, with the physical address beside the state.\<close>

definition io_map_page :: "u32 \<Rightarrow> u32 \<Rightarrow> u32 \<times> virtual_memory \<Rightarrow> fault + u32 \<times> virtual_memory" where
  "io_map_page placement i = (\<lambda>(physicalAddress, s).
     rbind (IsFree physicalAddress (phys_frames s)) (\<lambda>free.
     if free then Inl AssertFailed
     else
       rbind (IsPresent i (paging s)) (\<lambda>present.
       if present then Inl AssertFailed
       else
         rbind (MapAddress placement i physicalAddress True False (paging s)) (\<lambda>p.
         Inr (physicalAddress + KERNEL_PAGE_SIZE, s\<lparr>paging := p\<rparr>)))))"

definition io_Allocate :: "u32 \<Rightarrow> u32 \<Rightarrow> u32 \<Rightarrow> u32 \<Rightarrow> u32 \<Rightarrow> string \<Rightarrow> io_manager \<Rightarrow> virtual_memory \<Rightarrow> (fault + u32 \<times> io_manager \<times> virtual_memory) option" where
  "io_Allocate placement region virtualAddress physicalAddress len regionName m s =
     (let m = m\<lparr>io_regions := (io_regions m)(region :=
            \<lparr>io_start = virtualAddress, io_startPhysical = physicalAddress, io_size = len, io_name = regionName\<rparr>)\<rparr>
      in Option.bind (page_loop (io_map_page placement) virtualAddress (virtualAddress + len) (physicalAddress, s)) (\<lambda>x.
           Some (rbind x (\<lambda>(_, s). Inr (region, io_AddRegion region m, s)))))"

text \<open>The search for a hole: its address, or none when the end of the window is reached.\<close>

partial_function (option) find_hole :: "u32 \<Rightarrow> u32 \<Rightarrow> u32 \<Rightarrow> io_manager \<Rightarrow> u32 option option" where
  "find_hole len curAddr continousFreeSpace m =
     (if curAddr < iomemStart m + iomemSize m then
        if len \<le> continousFreeSpace then Some (Some (curAddr - len))
        else find_hole len (curAddr + KERNEL_PAGE_SIZE)
               (if FindRegionEnclosingVirtualAddress curAddr m = 0 then continousFreeSpace + KERNEL_PAGE_SIZE else 0) m
      else Some None)"

text \<open>The first component of the result is the new region, or null when there is no hole.\<close>

definition MapPhysical :: "u32 \<Rightarrow> u32 \<Rightarrow> u32 \<Rightarrow> u32 \<Rightarrow> string \<Rightarrow> io_manager \<Rightarrow> virtual_memory \<Rightarrow> (fault + u32 \<times> io_manager \<times> virtual_memory) option" where
  "MapPhysical placement region physicalAddress len regionName m s =
     (if \<not> IS_PAGE_ALIGNED physicalAddress then Some (Inl AssertFailed)
      else if \<not> IS_PAGE_ALIGNED len then Some (Inl AssertFailed)
      else Option.bind (find_hole len (iomemStart m) 0 m) (\<lambda>hole.
        case hole of None \<Rightarrow> Some (Inr (0, m, s)) | Some a \<Rightarrow> io_Allocate placement region a physicalAddress len regionName m s))"

definition TranslatePhysicalAddress :: "u32 \<Rightarrow> io_manager \<Rightarrow> u32" where
  "TranslatePhysicalAddress physicalAddress m =
     (let iomemregion = FindRegionEnclosingPhysicalAddress physicalAddress m
      in if iomemregion = 0 then 0
         else
           (let offsetInRegion = (physicalAddress AND PAGEALIGN_MASK) - io_startPhysical (io_regions m iomemregion);
                offset = io_start (io_regions m iomemregion) - (physicalAddress AND PAGEALIGN_MASK)
            in physicalAddress + offset + offsetInRegion))"

section \<open>Holes\<close>

definition free_page :: "io_manager \<Rightarrow> nat \<Rightarrow> bool" where
  "free_page m n \<longleftrightarrow> FindRegionEnclosingVirtualAddress (of_nat (4096 * n)) m = 0"

text \<open>
  A window of whole pages that does not pass 4 GB (the window of the kernel ends one byte below it), and the places in it: \<open>n\<close> pages from page
  \<open>k\<close> on that no region has and that end before the window does.
\<close>

definition window_end :: "io_manager \<Rightarrow> nat" where
  "window_end m = unat (iomemStart m) + unat (iomemSize m)"

definition window_ok :: "io_manager \<Rightarrow> bool" where
  "window_ok m \<longleftrightarrow> 4096 dvd unat (iomemStart m) \<and> window_end m < 2 ^ 32"

definition hole_at :: "io_manager \<Rightarrow> nat \<Rightarrow> nat \<Rightarrow> bool" where
  "hole_at m n k \<longleftrightarrow> unat (iomemStart m) \<le> 4096 * k \<and> 4096 * (k + n) < window_end m \<and> (\<forall>j. k \<le> j \<and> j < k + n \<longrightarrow> free_page m j)"

definition first_hole :: "io_manager \<Rightarrow> nat \<Rightarrow> nat \<Rightarrow> bool" where
  "first_hole m n k \<longleftrightarrow> hole_at m n k \<and> (\<forall>j. hole_at m n j \<longrightarrow> k \<le> j)"

lemma window_end_word: "window_ok m \<Longrightarrow> unat (iomemStart m + iomemSize m) = window_end m"
  by (simp add: window_ok_def window_end_def unat_add32)

text \<open>One step of the search, over page numbers: at page \<open>q\<close> with \<open>c\<close> free pages behind it.\<close>

definition searching :: "io_manager \<Rightarrow> nat \<Rightarrow> nat \<Rightarrow> u32 \<Rightarrow> u32 \<Rightarrow> bool" where
  "searching m q c cur cont \<longleftrightarrow> unat cur = 4096 * q \<and> unat cont = 4096 * c \<and> c \<le> q \<and> unat (iomemStart m) \<le> 4096 * (q - c) \<and>
     (\<forall>j. q - c \<le> j \<and> j < q \<longrightarrow> free_page m j)"

lemma find_hole_step:
  assumes w: "window_ok m" and c: "searching m q c cur cont" "4096 * q < window_end m" "c < n" "4096 * Suc q < 2 ^ 32" and l: "unat len = 4096 * n"
  shows "\<exists>cur' cont'. find_hole len cur cont m = find_hole len cur' cont' m \<and> searching m (Suc q) (if free_page m q then Suc c else 0) cur' cont'"
proof -
  let ?cur = "cur + KERNEL_PAGE_SIZE" and ?cont = "if FindRegionEnclosingVirtualAddress cur m = 0 then cont + KERNEL_PAGE_SIZE else 0"
  note c1 = c(1) [unfolded searching_def]
  have "cur = of_nat (unat cur)" by simp
  then have cur: "cur = of_nat (4096 * q)" using c1 by metis
  have "cur < iomemStart m + iomemSize m" "\<not> len \<le> cont"
    using c1 c(2,3) l window_end_word [OF w] by (simp_all add: word_less_nat_alt word_le_nat_alt)
  then have e: "find_hole len cur cont m = find_hole len ?cur ?cont m" by (subst find_hole.simps) simp
  have curv: "unat ?cur = 4096 * Suc q" using c1 c(4) by (subst unat_add32) (simp_all add: KERNEL_PAGE_SIZE_def)
  have "4096 * Suc c \<le> 4096 * Suc q" using c1 by simp
  then have "4096 * Suc c < 2 ^ 32" using c(4) by (rule order_le_less_trans)
  then have "unat (cont + KERNEL_PAGE_SIZE) = 4096 * Suc c" using c1 by (subst unat_add32) (simp_all add: KERNEL_PAGE_SIZE_def)
  then have contv: "unat ?cont = 4096 * (if free_page m q then Suc c else 0)" unfolding free_page_def cur [symmetric] by simp
  have "unat (iomemStart m) \<le> 4096 * (q - c)" "4096 * (q - c) \<le> 4096 * Suc q" using c1 by simp_all
  then have "unat (iomemStart m) \<le> 4096 * Suc q" by (rule order_trans)
  moreover have "free_page m j" if "free_page m q" "q - c \<le> j" "j < Suc q" for j using c1 that by (cases "j = q") simp_all
  ultimately have "searching m (Suc q) (if free_page m q then Suc c else 0) ?cur ?cont"
    using c1 unfolding searching_def curv contv by simp
  then show ?thesis using e by blast
qed

text \<open>A found hole is one, and the first; without a hole the end of the window is reached, unless it is in the last page of memory.\<close>

lemma find_hole_takes:
  assumes c: "searching m q c cur cont" "4096 * q < window_end m" "n \<le> c" and w: "window_ok m" and l: "unat len = 4096 * n"
  shows "find_hole len cur cont m = Some (Some (cur - len)) \<and> unat (cur - len) = 4096 * (q - n) \<and> hole_at m n (q - n)"
proof -
  note c1 = c(1) [unfolded searching_def]
  have "cur < iomemStart m + iomemSize m" "len \<le> cont" "len \<le> cur"
    using c1 c(2,3) l window_end_word [OF w] by (simp_all add: word_less_nat_alt word_le_nat_alt)
  moreover from this have "find_hole len cur cont m = Some (Some (cur - len))" by (subst find_hole.simps) simp
  moreover have "unat (cur - len) = 4096 * (q - n)" using c1 l calculation(3) by (simp add: unat_sub_le diff_mult_distrib2)
  moreover have "unat (iomemStart m) \<le> 4096 * (q - c)" "4096 * (q - c) \<le> 4096 * (q - n)" using c1 c(3) by simp_all
  then have "unat (iomemStart m) \<le> 4096 * (q - n)" by (rule order_trans)
  moreover have "q - n + n = q" using c1 c(3) by simp
  moreover have "\<forall>j. q - n \<le> j \<and> j < q \<longrightarrow> free_page m j" using c1 c(3) by auto
  ultimately show ?thesis using c(2) by (simp add: hole_at_def)
qed

lemma find_hole_finds:
  assumes w: "window_ok m" and k: "first_hole m n k" and l: "unat len = 4096 * n" and s: "searching m q c cur cont" "c \<le> n" "q - c \<le> k"
  shows "find_hole len cur cont m = Some (Some (of_nat (4096 * k)))"
  using s
proof (induction "k + n - q" arbitrary: q c cur cont rule: less_induct)
  case less
  have h: "unat (iomemStart m) \<le> 4096 * k" "4096 * (k + n) < window_end m" "\<And>j. k \<le> j \<Longrightarrow> j < k + n \<Longrightarrow> free_page m j"
    using k by (auto simp: first_hole_def hole_at_def)
  have qc: "c \<le> q" using less.prems(1) by (simp add: searching_def)
  then have "4096 * q \<le> 4096 * (k + n)" using less.prems(2,3) by simp
  then have qL: "4096 * q < window_end m" using h(2) by simp
  show ?case
  proof (cases "c = n")
    case True
    note t = find_hole_takes [OF less.prems(1) qL _ w l, unfolded True]
    then have "k \<le> q - n" using k by (simp add: first_hole_def)
    then have "q - n = k" using less.prems(3) True by simp
    then have "unat (cur - len) = 4096 * k" "find_hole len cur cont m = Some (Some (cur - len))" using t by simp_all
    moreover have "cur - len = of_nat (unat (cur - len))" by simp
    ultimately show ?thesis by metis
  next
    case False
    then have cn: "c < n" "q < k + n" using less.prems(2,3) qc by simp_all
    then have "4096 * Suc q \<le> 4096 * (k + n)" by simp
    then have "4096 * Suc q < 2 ^ 32" using h(2) w by (simp add: window_ok_def)
    from find_hole_step [OF w less.prems(1) qL cn(1) this l] obtain cur' cont' where
      s: "find_hole len cur cont m = find_hole len cur' cont' m" "searching m (Suc q) (if free_page m q then Suc c else 0) cur' cont'" by blast
    have "q < k" if "\<not> free_page m q" using that h(3) [of q] cn(2) by (cases "q < k") auto
    then have "(if free_page m q then Suc c else 0) \<le> n" "Suc q - (if free_page m q then Suc c else 0) \<le> k" using cn(1) less.prems(3) by auto
    then show ?thesis unfolding s(1) by (intro less.hyps [OF _ s(2)]) (use cn in simp_all)
  qed
qed

lemma find_hole_none:
  assumes w: "window_ok m" and e: "window_end m + 4096 \<le> 2 ^ 32" and k: "\<And>k. \<not> hole_at m n k" and l: "unat len = 4096 * n" and s: "searching m q c cur cont"
  shows "find_hole len cur cont m = Some None"
  using s
proof (induction "window_end m - 4096 * q" arbitrary: q c cur cont rule: less_induct)
  case less
  show ?case
  proof (cases "4096 * q < window_end m")
    case False
    then have "\<not> cur < iomemStart m + iomemSize m"
      using less.prems window_end_word [OF w] by (simp add: searching_def word_less_nat_alt)
    then show ?thesis by (subst find_hole.simps) simp
  next
    case True
    then have "c < n" using find_hole_takes [OF less.prems True _ w l] k by (meson not_le)
    moreover have "4096 * Suc q < 2 ^ 32" using True e by simp
    ultimately obtain cur' cont' where
      s: "find_hole len cur cont m = find_hole len cur' cont' m" "searching m (Suc q) (if free_page m q then Suc c else 0) cur' cont'"
      using find_hole_step [OF w less.prems True _ _ l] by blast
    have "window_end m - 4096 * Suc q < window_end m - 4096 * q" using True by simp
    then show ?thesis unfolding s(1) by (rule less.hyps [OF _ s(2)])
  qed
qed

text \<open>
  A window that ends in the last page of memory, as the kernel's does, has no page address behind it: the search never ends with null. When no page of the
  window is free it goes on at address 0, and takes the first pages of memory.
\<close>

lemma last_page_window_never_null:
  assumes "find_hole len cur cont m = Some r" "4096 dvd unat cur" "window_ok m" "2 ^ 32 < window_end m + 4096"
  shows "r \<noteq> None"
proof -
  have "4096 dvd unat cur \<and> window_ok m \<and> 2 ^ 32 < window_end m + 4096 \<longrightarrow> r \<noteq> None"
  proof (rule find_hole.raw_induct [OF _ assms(1)], intro impI, elim conjE)
    fix rec :: "u32 \<Rightarrow> u32 \<Rightarrow> u32 \<Rightarrow> io_manager \<Rightarrow> u32 option option" and len cur cont m r
    assume IH: "\<And>len cur cont m r. rec len cur cont m = Some r \<Longrightarrow> 4096 dvd unat cur \<and> window_ok m \<and> 2 ^ 32 < window_end m + 4096 \<longrightarrow> r \<noteq> None"
      and body: "(if cur < iomemStart m + iomemSize m then
        if len \<le> cont then Some (Some (cur - len))
        else rec len (cur + KERNEL_PAGE_SIZE) (if FindRegionEnclosingVirtualAddress cur m = 0 then cont + KERNEL_PAGE_SIZE else 0) m
      else Some None) = Some r" and c: "4096 dvd unat cur" and m: "window_ok m" "2 ^ 32 < window_end m + 4096"
    obtain k where k: "unat cur = 4096 * k" using c by (auto elim: dvdE)
    have "k < 1048576" using unat_bound32 [of cur] unfolding k by simp
    then have "unat cur \<le> 4294963200" using k by simp
    then have "cur < iomemStart m + iomemSize m" using m(2) window_end_word [OF m(1)] by (simp add: word_less_nat_alt)
    moreover have "4096 dvd unat (cur + KERNEL_PAGE_SIZE)"
      using c by (simp add: unat_word_ariths take_bit_eq_mod dvd_mod_iff KERNEL_PAGE_SIZE_def)
    ultimately show "r \<noteq> None" using body IH m by (auto split: if_splits)
  qed
  then show ?thesis using assms(2-4) by simp
qed

lemma find_hole_free_run:
  assumes w: "window_ok m" and l: "unat len = 4096 * n" and f: "unat cur = 4096 * q" "unat cont = 4096 * c" "c + d = n"
    "4096 * (q + d) < window_end m" "\<And>j. q \<le> j \<Longrightarrow> j < q + d \<Longrightarrow> free_page m j"
  shows "find_hole len cur cont m = Some (Some (of_nat (4096 * (q + d)) - len))"
  using f
proof (induction d arbitrary: q c cur cont)
  case 0
  then have "len \<le> cont" "cur < iomemStart m + iomemSize m" using l window_end_word [OF w] by (simp_all add: word_le_nat_alt word_less_nat_alt)
  moreover have "cur = of_nat (unat cur)" by simp
  ultimately show ?case using 0(1) by (subst find_hole.simps) (metis add.right_neutral)
next
  case (Suc d)
  have "cur = of_nat (unat cur)" by simp
  then have cur: "cur = of_nat (4096 * q)" using Suc.prems(1) by metis
  have "4096 * q < window_end m" using Suc.prems(4) by simp
  then have "cur < iomemStart m + iomemSize m" "\<not> len \<le> cont"
    using Suc.prems(1-3) l window_end_word [OF w] by (simp_all add: word_less_nat_alt word_le_nat_alt)
  moreover have "FindRegionEnclosingVirtualAddress cur m = 0" using Suc.prems(5) [of q] unfolding cur free_page_def by simp
  ultimately have e: "find_hole len cur cont m = find_hole len (cur + KERNEL_PAGE_SIZE) (cont + KERNEL_PAGE_SIZE) m"
    by (subst find_hole.simps) simp
  have "unat cur + 4096 < 4294967296" using Suc.prems(1,4) w by (simp add: window_ok_def)
  moreover have "4096 * Suc c \<le> unat len" using Suc.prems(3) l by simp
  then have "unat cont + 4096 \<le> unat len" using Suc.prems(2) by simp
  then have "unat cont + 4096 < 4294967296" using unat_bound32 [of len] by linarith
  ultimately have "unat (cur + KERNEL_PAGE_SIZE) = 4096 * Suc q" "unat (cont + KERNEL_PAGE_SIZE) = 4096 * Suc c"
    using Suc.prems(1,2) by (simp_all add: unat_add32 KERNEL_PAGE_SIZE_def)
  from Suc.IH [OF this] show ?case unfolding e using Suc.prems(3-5) by simp
qed

lemma full_window_goes_below:
  assumes w: "window_ok m" "2 ^ 32 < window_end m + 4096" and l: "unat len = 4096 * n" "0 < n" "4096 * n < window_end m"
    and full: "\<And>j. unat (iomemStart m) \<le> 4096 * j \<Longrightarrow> 4096 * j < 2 ^ 32 \<Longrightarrow> \<not> free_page m j" and low: "\<And>j. j < n \<Longrightarrow> free_page m j"
  shows "find_hole len (iomemStart m) 0 m = Some (Some 0)"
proof -
  have "find_hole len cur 0 m = Some (Some 0)" if "unat cur = 4096 * q" "unat (iomemStart m) \<le> 4096 * q" for cur q
    using that
  proof (induction "1048576 - q" arbitrary: cur q rule: less_induct)
    case less
    have q: "q < 1048576" using unat_bound32 [of cur] unfolding less.prems by simp
    then have "4096 * q \<le> 4294963200" by simp
    then have in_window: "4096 * q < window_end m" using w(2) by simp
    then have sm: "cur < iomemStart m + iomemSize m" "\<not> len \<le> 0"
      using less.prems(1) l window_end_word [OF w(1)] by (simp_all add: word_less_nat_alt word_le_nat_alt)
    have "cur = of_nat (unat cur)" by simp
    then have "cur = of_nat (4096 * q)" using less.prems(1) by metis
    then have "FindRegionEnclosingVirtualAddress cur m \<noteq> 0" using full [OF less.prems(2)] q by (simp add: free_page_def)
    then have e: "find_hole len cur 0 m = find_hole len (cur + KERNEL_PAGE_SIZE) 0 m" using sm by (subst find_hole.simps) simp
    show ?case
    proof (cases "Suc q < 1048576")
      case True
      then have "unat (cur + KERNEL_PAGE_SIZE) = 4096 * Suc q" using less.prems(1) by (subst unat_add32) (simp_all add: KERNEL_PAGE_SIZE_def)
      then show ?thesis unfolding e by (rule less.hyps [rotated]) (use q less.prems(2) in simp_all)
    next
      case False
      then have "q = 1048575" using q by simp
      then have "unat (cur + KERNEL_PAGE_SIZE) = 4096 * 0"
        using less.prems(1) by (simp add: unat_word_ariths take_bit_eq_mod KERNEL_PAGE_SIZE_def)
      from find_hole_free_run [OF w(1) l(1) this, of 0 0 n] l(3) low have "find_hole len (cur + KERNEL_PAGE_SIZE) 0 m = Some (Some (of_nat (4096 * n) - len))"
        by simp
      moreover have "len = of_nat (4096 * n)" by (simp only: flip: l(1)) simp
      ultimately show ?thesis unfolding e by simp
    qed
  qed
  moreover obtain q where "unat (iomemStart m) = 4096 * q" using w(1) by (auto simp: window_ok_def elim: dvdE)
  ultimately show ?thesis by simp
qed

lemma kernel_window: "window_ok (VirtualMemoryManager_Init objects) \<and> window_end (VirtualMemoryManager_Init objects) = 0xFFFFFFFF"
  by (simp add: window_ok_def window_end_def VirtualMemoryManager_Init_def new_IOMemoryManager_def KERNEL_IO_MEMORY_START_def KERNEL_IO_MEMORY_END_def)

section \<open>Mapping a range\<close>

text \<open>
  The loop takes a page when its frame is in use or behind the memory (the frame whose number is the number of frames is neither: \<open>IsFree\<close> asserts) and
  the page is not present.
\<close>

definition io_takes :: "virtual_memory \<Rightarrow> nat \<Rightarrow> nat \<Rightarrow> bool" where
  "io_takes s p x \<longleftrightarrow> (p < unat (nFrames (phys_frames s)) \<longrightarrow> p \<in> used (phys_frames s)) \<and> p \<noteq> unat (nFrames (phys_frames s)) \<and>
     page_of (paging s) (of_nat (4096 * x)) = None"

definition io_stop :: "u32 \<Rightarrow> virtual_memory \<Rightarrow> nat \<Rightarrow> nat \<Rightarrow> nat \<Rightarrow> fault \<Rightarrow> bool" where
  "io_stop placement s p x n e \<longleftrightarrow> e = AssertFailed \<and> (\<exists>j<n. \<not> io_takes s (p + j) (x + j)) \<or>
     e = PanicPlacement \<and> table_space placement s < card (missing_tables s {x..<x + n})"

definition io_mapped :: "u32 \<Rightarrow> nat \<Rightarrow> nat \<Rightarrow> nat \<Rightarrow> virtual_memory \<Rightarrow> virtual_memory \<Rightarrow> bool" where
  "io_mapped placement p x n s s' \<longleftrightarrow> vm_ok placement s' \<and> same_objects s s' \<and> phys_frames s' = phys_frames s \<and>
     (\<forall>w. page_no w \<in> {x..<x + n} \<longrightarrow> (\<exists>pg. page_of (paging s') w = Some pg \<and>
        unat (Frame pg) = 4096 * (p + (page_no w - x)) \<and> pg_rw pg \<and> \<not> pg_user pg)) \<and>
     (\<forall>w. page_no w \<notin> {x..<x + n} \<longrightarrow> page_of (paging s') w = page_of (paging s) w)"

lemma io_map_page_works:
  assumes ok: "vm_ok placement s" and v: "\<not> in_placement placement v" "unat v = 4096 * x" and pa: "unat pa = 4096 * p"
  shows "if \<not> io_takes s p x then io_map_page placement v (pa, s) = Inl AssertFailed
    else if x div 1024 \<notin> tables_made (paging s) \<and> table_space placement s = 0 then io_map_page placement v (pa, s) = Inl PanicPlacement
    else \<exists>s'. io_map_page placement v (pa, s) = Inr (pa + KERNEL_PAGE_SIZE, s') \<and> io_mapped placement p x 1 s s' \<and>
      made_table placement (x div 1024) (paging s) (paging s')"
proof -
  have pg: "paging_ok placement (paging s)" and f: "frames_ok (phys_frames s)" using ok by (simp_all add: vm_ok_def)
  have "v = of_nat (unat v)" by simp
  then have vx: "v = of_nat (4096 * x)" using v(2) by metis
  have x: "page_no v = x" by (simp add: page_no_def v(2))
  have present: "IsPresent v (paging s) = Inr (page_of (paging s) v \<noteq> None)" using IsPresent_page [OF pg] .
  have p: "unat pa div 4096 = p" by (simp add: pa)
  note free = mark_frame_bounds [OF f p [symmetric]]
  show ?thesis
  proof (cases "io_takes s p x")
    case False
    then show ?thesis using free present unfolding io_takes_def vx [symmetric]
      by (cases p "unat (nFrames (phys_frames s))" rule: linorder_cases) (auto simp: io_map_page_def)
  next
    case True
    then have "IsFree pa (phys_frames s) = Inr False" "page_of (paging s) v = None"
      using free unfolding io_takes_def vx [symmetric] by (cases p "unat (nFrames (phys_frames s))" rule: linorder_cases; simp)+
    then have m: "io_map_page placement v (pa, s) =
        rbind (MapAddress placement v pa True False (paging s)) (\<lambda>p. Inr (pa + KERNEL_PAGE_SIZE, s\<lparr>paging := p\<rparr>))"
      using present by (simp add: io_map_page_def)
    have al: "pa AND PAGEALIGN_MASK = pa" using pa by (intro aligned_mask) simp
    note w = MapAddress_works [OF pg v(1), of pa True False, folded table_space_def, unfolded pd_index_page x]
    show ?thesis
    proof (cases "x div 1024 \<notin> tables_made (paging s) \<and> table_space placement s = 0")
      case full: True
      then show ?thesis using w m True by simp
    next
      case False
      then obtain ps q where ps: "MapAddress placement v pa True False (paging s) = Inr ps" "paging_ok placement ps"
        "page_of ps = (\<lambda>w. if page_no w = x then Some q else page_of (paging s) w)" "Frame q = pa" "pg_rw q" "\<not> pg_user q"
        "made_table placement (x div 1024) (paging s) ps" using w unfolding if_not_P [OF False] by (auto simp: al)
      have "io_mapped placement p x 1 s (s\<lparr>paging := ps\<rparr>)"
        using ok ps pa by (auto simp: io_mapped_def vm_ok_def same_objects_def made_table_def)
      then show ?thesis unfolding if_not_P [OF False] using True m ps(1,7) by simp
    qed
  qed
qed

lemma io_mapped_step:
  assumes a: "io_mapped placement p x k s s1" and b: "io_mapped placement (p + k) (x + k) 1 s1 s'"
  shows "io_mapped placement p x (Suc k) s s'"
proof -
  have "same_objects s s1" "same_objects s1 s'" using a b by (simp_all add: io_mapped_def)
  then have so: "same_objects s s'" by (rule same_objects_trans)
  show ?thesis
    unfolding io_mapped_def
  proof (intro conjI allI impI)
    fix w assume w: "page_no w \<in> {x..<x + Suc k}"
    show "\<exists>pg. page_of (paging s') w = Some pg \<and> unat (Frame pg) = 4096 * (p + (page_no w - x)) \<and> pg_rw pg \<and> \<not> pg_user pg"
    proof (cases "page_no w = x + k")
      case True
      then show ?thesis using b by (simp add: io_mapped_def)
    next
      case False
      then have "page_no w \<in> {x..<x + k}" "page_no w \<notin> {x + k..<x + k + 1}" using w by auto
      then show ?thesis using a b unfolding io_mapped_def by metis
    qed
  next
    fix w assume w: "page_no w \<notin> {x..<x + Suc k}"
    then have "page_no w \<notin> {x..<x + k}" "page_no w \<notin> {x + k..<x + k + 1}" by auto
    then show "page_of (paging s') w = page_of (paging s) w" using a b unfolding io_mapped_def by metis
  qed (use a b so in \<open>simp_all add: io_mapped_def\<close>)
qed

lemma io_takes_later:
  assumes "io_mapped placement p x k s s1" "4096 * (x + k) < 2 ^ 32"
  shows "io_takes s1 q (x + k) = io_takes s q (x + k)"
proof -
  have "unat (of_nat (4096 * (x + k)) :: u32) = 4096 * (x + k)" using assms(2) by (intro unat_of_nat32) simp
  then have "page_no (of_nat (4096 * (x + k))) = x + k" by (simp add: page_no_def)
  then have "page_of (paging s1) (of_nat (4096 * (x + k))) = page_of (paging s) (of_nat (4096 * (x + k)))" "phys_frames s1 = phys_frames s"
    using assms(1) unfolding io_mapped_def by simp_all
  then show ?thesis by (simp add: io_takes_def)
qed

lemma io_map_range:
  assumes ok: "vm_ok placement s" and a: "unat a = 4096 * x" "4096 * (x + n) < 2 ^ 32" and ph: "unat phys = 4096 * p" "4096 * (p + n) < 2 ^ 32"
    and out: "\<And>w. page_no w \<in> {x..<x + n} \<Longrightarrow> \<not> in_placement placement w"
  shows "\<exists>r. page_loop (io_map_page placement) a (a + of_nat (4096 * n)) (phys, s) = Some r \<and>
    (case r of Inl e \<Rightarrow> io_stop placement s p x n e
     | Inr (_, s') \<Rightarrow> io_mapped placement p x n s s' \<and> (\<forall>j<n. io_takes s (p + j) (x + j)) \<and> card (missing_tables s {x..<x + n}) \<le> table_space placement s)"
proof -
  let ?P = "\<lambda>k (pa :: u32, s'). unat pa = 4096 * (p + k) \<and> io_mapped placement p x k s s' \<and> (\<forall>j<k. io_takes s (p + j) (x + j)) \<and>
    tables_paid placement {x..<x + k} s s'"
  have "\<exists>r. page_loop (io_map_page placement) a (a + of_nat (4096 * n)) (phys, s) = Some r \<and>
    (case r of Inl e \<Rightarrow> io_stop placement s p x n e | Inr x \<Rightarrow> ?P n x)"
  proof (rule page_loop_rule [where P = ?P])
    show "?P 0 (phys, s)" using ok ph(1) by (simp add: io_mapped_def tables_paid_def)
  next
    fix k y
    assume k: "k < n" and y: "?P k y"
    obtain pa s1 where p: "y = (pa, s1)" by (cases y)
    then have s1: "unat pa = 4096 * (p + k)" "io_mapped placement p x k s s1" "\<forall>j<k. io_takes s (p + j) (x + j)" "tables_paid placement {x..<x + k} s s1"
      using y by simp_all
    let ?v = "a + of_nat (4096 * k) :: u32"
    have lt: "4096 * (x + k) < 2 ^ 32" "4096 * (p + Suc k) < 2 ^ 32" using k a(2) ph(2) by simp_all
    have v: "unat ?v = 4096 * (x + k)" using a(1) lt(1) by (subst unat_plus_nat) simp_all
    then have "page_no ?v = x + k" by (simp add: page_no_def)
    then have "\<not> in_placement placement ?v" using k by (intro out) simp
    note st = io_map_page_works [OF _ this v s1(1)] io_takes_later [OF s1(2) lt(1)]
    have ok1: "vm_ok placement s1" using s1(2) by (simp add: io_mapped_def)
    have pa: "unat (pa + KERNEL_PAGE_SIZE) = 4096 * (p + Suc k)" using s1(1) lt(2) by (subst unat_add32) (simp_all add: KERNEL_PAGE_SIZE_def)
    consider "\<not> io_takes s (p + k) (x + k)" | "io_takes s (p + k) (x + k)" "(x + k) div 1024 \<notin> tables_made (paging s1) \<and> table_space placement s1 = 0"
      | "io_takes s (p + k) (x + k)" "\<not> ((x + k) div 1024 \<notin> tables_made (paging s1) \<and> table_space placement s1 = 0)" by blast
    then show "case io_map_page placement ?v y of Inl e \<Rightarrow> io_stop placement s p x n e | Inr s' \<Rightarrow> ?P (Suc k) s'"
    proof cases
      case 1
      then show ?thesis using st(1) [OF ok1] k unfolding st(2) p io_stop_def by auto
    next
      case 2
      have "table_space placement s < card (missing_tables s {x..<x + n})"
        by (rule tables_short [OF s1(4), of "x + k"]) (use 2(2) k in auto)
      then show ?thesis using st(1) [OF ok1] 2 unfolding st(2) p io_stop_def by simp
    next
      case 3
      then obtain s' where s': "io_map_page placement ?v (pa, s1) = Inr (pa + KERNEL_PAGE_SIZE, s')" "io_mapped placement (p + k) (x + k) 1 s1 s'"
        "made_table placement ((x + k) div 1024) (paging s1) (paging s')" using st(1) [OF ok1] unfolding st(2) by auto
      have "insert (x + k) {x..<x + k} = {x..<x + Suc k}" by auto
      then have "tables_paid placement {x..<x + Suc k} s s'" using tables_paid_step [OF s1(4) s'(3)] by simp
      then show ?thesis using s'(1) io_mapped_step [OF s1(2) s'(2)] pa s1(3) 3(1) unfolding p by (auto simp: less_Suc_eq)
    qed
  qed (use a in simp)
  then show ?thesis by (auto simp: tables_paid_def split: sum.splits)
qed

lemma first_where_append: "first_where P xs = 0 \<Longrightarrow> 0 \<notin> set xs \<Longrightarrow> P y \<Longrightarrow> first_where P (xs @ [y]) = y"
  by (induction xs) (auto split: if_splits)

lemma first_where_cong: "(\<And>x. x \<in> set xs \<Longrightarrow> P x = Q x) \<Longrightarrow> first_where P xs = first_where Q xs"
  by (induction xs) simp_all

lemma address_in_range:
  assumes "4096 dvd unat a" "4096 dvd unat phys" "unat phys \<le> unat p" "unat p < unat phys + 4096 * n" "unat a + 4096 * n < 2 ^ 32"
  shows "unat (a + (p - phys)) = unat a + (unat p - unat phys)" "page_no (a + (p - phys)) \<in> {page_no a..<page_no a + n}"
    "unat phys + 4096 * (page_no (a + (p - phys)) - page_no a) + unat p mod 4096 = unat p"
    "unat ((a + (p - phys)) AND OFFSET_MASK) = unat p mod 4096"
proof -
  have d: "unat (p - phys) = unat p - unat phys" using assms(3) by (simp add: unat_sub_le word_le_nat_alt)
  then show v: "unat (a + (p - phys)) = unat a + (unat p - unat phys)" using assms(4,5) by (subst unat_add32) simp_all
  obtain k l where kl: "unat a = 4096 * k" "unat phys = 4096 * l" using assms(1,2) by (auto elim!: dvdE)
  define e where "e = unat p - unat phys"
  have p: "unat p = 4096 * l + e" "e < 4096 * n" using assms(3,4) kl by (simp_all add: e_def)
  have "page_no (a + (p - phys)) = k + e div 4096" "page_no a = k" using v kl by (simp_all add: page_no_def e_def)
  moreover have "e div 4096 < n" using p(2) by (simp add: div_less_iff_less_mult mult.commute)
  ultimately show "page_no (a + (p - phys)) \<in> {page_no a..<page_no a + n}"
      "unat phys + 4096 * (page_no (a + (p - phys)) - page_no a) + unat p mod 4096 = unat p" using p kl by simp_all
  have "x AND OFFSET_MASK = take_bit 12 x" for x :: u32 by (simp add: OFFSET_MASK_def take_bit_eq_mask mask_eq_exp_minus_1)
  then have "unat (x AND OFFSET_MASK) = unat x mod 4096" for x :: u32 by (simp add: take_bit_eq_mod unat_mod)
  then have "unat ((a + (p - phys)) AND OFFSET_MASK) = (4096 * k + e) mod 4096" by (simp only: v e_def kl)
  then show "unat ((a + (p - phys)) AND OFFSET_MASK) = unat p mod 4096" by (simp only: p(1) mod_mult_self4)
qed

text \<open>The region in the list translates a physical address of its range.\<close>

lemma translate_appended:
  assumes r: "region \<noteq> 0" "region \<notin> set (regionList m)" "0 \<notin> set (regionList m)"
    and reg: "io_regions m' = (io_regions m)(region := \<lparr>io_start = a, io_startPhysical = phys, io_size = len, io_name = name\<rparr>)" "regionList m' = regionList m @ [region]"
    and p: "unat phys \<le> unat p" "unat p < unat phys + unat len" "unat phys + unat len < 2 ^ 32" "FindRegionEnclosingPhysicalAddress p m = 0"
  shows "TranslatePhysicalAddress p m' = a + (p - phys)"
proof -
  have "first_where (\<lambda>r. io_startPhysical (io_regions m' r) \<le> p \<and> p < io_startPhysical (io_regions m' r) + io_size (io_regions m' r)) (regionList m) = 0"
    using p(4) r(2) unfolding FindRegionEnclosingPhysicalAddress_def
    by (subst first_where_cong [where Q = "\<lambda>r. io_startPhysical (io_regions m r) \<le> p \<and> p < io_startPhysical (io_regions m r) + io_size (io_regions m r)"])
      (auto simp: reg(1))
  moreover have "phys \<le> p \<and> p < phys + len" using p(1-3) by (simp add: word_le_nat_alt word_less_nat_alt unat_add32)
  ultimately have "FindRegionEnclosingPhysicalAddress p m' = region"
    unfolding FindRegionEnclosingPhysicalAddress_def reg(2) using r(3) by (intro first_where_append) (simp_all add: reg(1))
  then show ?thesis using r(1) by (simp add: TranslatePhysicalAddress_def Let_def reg(1))
qed

text \<open>The processor translates the addresses of a mapped range back.\<close>

lemma io_mapped_translates:
  assumes im: "io_mapped placement q k n s s'" and a: "unat a = 4096 * k" "4096 * (k + n) < 2 ^ 32" and ph: "unat phys = 4096 * q"
    and p: "unat phys \<le> unat p" "unat p < unat phys + 4096 * n"
  shows "GetPhysicalAddress (a + (p - phys)) (paging s') = Inr p \<and> unat (a + (p - phys)) = 4096 * k + (unat p - unat phys)"
proof -
  have al: "4096 dvd unat a" "4096 dvd unat phys" "unat a + 4096 * n < 2 ^ 32" "page_no a = k" using a ph by (simp_all add: page_no_def)
  note v = address_in_range [OF al(1,2) p al(3), unfolded al(4)]
  obtain pg where pg: "page_of (paging s') (a + (p - phys)) = Some pg" "unat (Frame pg) = 4096 * (q + (page_no (a + (p - phys)) - k))"
    using im v(2) unfolding io_mapped_def by blast
  have "unat (Frame pg + ((a + (p - phys)) AND OFFSET_MASK)) = unat p"
    using v(3,4) pg(2) ph by (subst unat_add32) simp_all
  then have "Frame pg + ((a + (p - phys)) AND OFFSET_MASK) = p" by (simp add: word_unat_eq_iff)
  then show ?thesis using pg(1) v(1) a(1) by (auto simp: GetPhysicalAddress_page)
qed

lemma io_Allocate_works:
  fixes region :: u32 and name :: string and m :: io_manager
  assumes ok: "vm_ok placement s" and a: "unat a = 4096 * k" "4096 * (k + n) < 2 ^ 32" and ph: "unat phys = 4096 * q" "unat len = 4096 * n" "4096 * (q + n) < 2 ^ 32"
    and out: "\<And>w. page_no w \<in> {k..<k + n} \<Longrightarrow> \<not> in_placement placement w"
  defines "x \<equiv> io_Allocate placement region a phys len name m s"
  shows "if (\<forall>j<n. io_takes s (q + j) (k + j)) \<and> card (missing_tables s {k..<k + n}) \<le> table_space placement s
    then \<exists>m' s'. x = Some (Inr (region, m', s')) \<and> io_mapped placement q k n s s' \<and> regionList m' = regionList m @ [region] \<and>
      io_regions m' = (io_regions m)(region := \<lparr>io_start = a, io_startPhysical = phys, io_size = len, io_name = name\<rparr>)
    else \<exists>e. x = Some (Inl e) \<and> io_stop placement s q k n e"
proof -
  have "len = of_nat (4096 * n)" by (simp only: flip: ph(2)) simp
  with io_map_range [OF ok a ph(1,3) out] obtain r where r: "page_loop (io_map_page placement) a (a + len) (phys, s) = Some r"
    "case r of Inl e \<Rightarrow> io_stop placement s q k n e
     | Inr (_, s') \<Rightarrow> io_mapped placement q k n s s' \<and> (\<forall>j<n. io_takes s (q + j) (k + j)) \<and> card (missing_tables s {k..<k + n}) \<le> table_space placement s"
    by (auto simp del: of_nat_mult)
  show ?thesis
  proof (cases r)
    case (Inl e)
    then have "io_stop placement s q k n e" using r(2) by simp
    moreover from this have "\<not> ((\<forall>j<n. io_takes s (q + j) (k + j)) \<and> card (missing_tables s {k..<k + n}) \<le> table_space placement s)"
      by (auto simp: io_stop_def)
    ultimately show ?thesis using r(1) Inl by (simp add: x_def io_Allocate_def Let_def)
  next
    case (Inr y)
    then show ?thesis using r by (cases y) (auto simp: x_def io_Allocate_def io_AddRegion_def Let_def)
  qed
qed

text \<open>The call when the window has a hole.\<close>

lemma MapPhysical_at_hole:
  fixes name :: string
  assumes ok: "vm_ok placement s" and w: "window_ok m" "\<And>v. unat (iomemStart m) \<le> unat v \<Longrightarrow> unat v < window_end m \<Longrightarrow> \<not> in_placement placement v"
    and r: "region \<noteq> 0" "region \<notin> set (regionList m)" "0 \<notin> set (regionList m)"
    and ph: "unat phys = 4096 * q" "unat len = 4096 * n" "unat phys + unat len < 2 ^ 32"
      "\<And>p. unat phys \<le> unat p \<Longrightarrow> unat p < unat phys + unat len \<Longrightarrow> FindRegionEnclosingPhysicalAddress p m = 0"
    and k: "first_hole m n k"
  defines "x \<equiv> MapPhysical placement region phys len name m s"
  shows "if (\<forall>j<n. io_takes s (q + j) (k + j)) \<and> card (missing_tables s {k..<k + n}) \<le> table_space placement s
    then \<exists>m' s'. x = Some (Inr (region, m', s')) \<and> io_mapped placement q k n s s' \<and> regionList m' = regionList m @ [region] \<and>
      (\<forall>p. unat phys \<le> unat p \<and> unat p < unat phys + unat len \<longrightarrow>
        unat (TranslatePhysicalAddress p m') = 4096 * k + (unat p - unat phys) \<and>
        GetPhysicalAddress (TranslatePhysicalAddress p m') (paging s') = Inr p)
    else \<exists>e. x = Some (Inl e) \<and> io_stop placement s q k n e"
proof -
  obtain b where b: "unat (iomemStart m) = 4096 * b" using w(1) by (auto simp: window_ok_def elim: dvdE)
  have start: "searching m b 0 (iomemStart m) 0" using b by (auto simp: searching_def)
  have x: "x = Option.bind (find_hole len (iomemStart m) 0 m) (\<lambda>hole. case hole of None \<Rightarrow> Some (Inr (0, m, s))
      | Some a \<Rightarrow> io_Allocate placement region a phys len name m s)" using ph(1,2) by (simp add: x_def MapPhysical_def)
  have h: "4096 * b \<le> 4096 * k" "4096 * (k + n) < window_end m" using k by (simp_all add: first_hole_def hole_at_def b)
  then have k4: "4096 * (k + n) < 2 ^ 32" "4096 * k < 4294967296" using w(1) by (simp_all add: window_ok_def)
  define a where "a = (of_nat (4096 * k) :: u32)"
  have a: "unat a = 4096 * k" unfolding a_def using k4(2) by (rule unat_of_nat32)
  have "b \<le> k" using h(1) by simp
  then have xa: "x = io_Allocate placement region a phys len name m s" using find_hole_finds [OF w(1) k ph(2) start] by (simp add: x a_def)
  have out: "\<not> in_placement placement v" if "page_no v \<in> {k..<k + n}" for v
  proof (rule w(2))
    have "4096 * page_no v \<le> unat v" "unat v < 4096 * Suc (page_no v)"
      using times_div_less_eq_dividend [of 4096 "unat v"] dividend_less_times_div [of 4096 "unat v"] by (simp_all add: page_no_def)
    moreover have "4096 * k \<le> 4096 * page_no v" "4096 * Suc (page_no v) \<le> 4096 * (k + n)" using that by simp_all
    ultimately show "unat (iomemStart m) \<le> unat v" "unat v < window_end m" using h b by linarith+
  qed
  have q4: "4096 * (q + n) < 2 ^ 32" using ph(1-3) by simp
  note al = io_Allocate_works [OF ok a k4(1) ph(1,2) q4 out, of region name m, folded xa]
  show ?thesis
  proof (cases "(\<forall>j<n. io_takes s (q + j) (k + j)) \<and> card (missing_tables s {k..<k + n}) \<le> table_space placement s")
    case True
    then obtain m' s' where y: "x = Some (Inr (region, m', s'))" "io_mapped placement q k n s s'" "regionList m' = regionList m @ [region]"
      "io_regions m' = (io_regions m)(region := \<lparr>io_start = a, io_startPhysical = phys, io_size = len, io_name = name\<rparr>)" using al unfolding if_P [OF True] by blast
    have "unat (TranslatePhysicalAddress p m') = 4096 * k + (unat p - unat phys) \<and> GetPhysicalAddress (TranslatePhysicalAddress p m') (paging s') = Inr p"
      if p: "unat phys \<le> unat p" "unat p < unat phys + unat len" for p
      unfolding translate_appended [OF r y(4,3) p ph(3) ph(4) [OF p]]
      using io_mapped_translates [OF y(2) a k4(1) ph(1) p [unfolded ph(2)]] by blast
    then show ?thesis unfolding if_P [OF True] using y(1-3) by blast
  next
    case False
    then show ?thesis unfolding if_not_P [OF False] using al [unfolded if_not_P [OF False]] by blast
  qed
qed


definition example_objects :: "u32 \<Rightarrow> io_region" where
  "example_objects = (\<lambda>_. \<lparr>io_start = 0, io_startPhysical = 0, io_size = 0, io_name = []\<rparr>)"


end
