(* ===== verification/KernelString.thy ===== *)
theory KernelString
  imports CLib "HOL-Library.Signed_Division"
begin

text \<open>
  The C library of the kernel (libkcpp: string.cpp, ctype.h, stdlib.cpp), on the byte memory. It differs from the one of the loader in \<open>memmove\<close>, the
  comparisons and \<open>strncpy\<close>, and adds \<open>strsep\<close>, \<open>strtoul\<close> and \<open>itoa\<close>. Loops that count are recursions on the count and reuse those of the
  loader where the code is the same; scans that may not end are partial functions, and a null result is the address 0. Characters are signed.
\<close>

section \<open>ctype.h\<close>

definition isdigit :: "int \<Rightarrow> bool" where
  "isdigit ch \<longleftrightarrow> 48 \<le> ch \<and> ch \<le> 57"

definition islower :: "int \<Rightarrow> bool" where
  "islower ch \<longleftrightarrow> 97 \<le> ch \<and> ch \<le> 122"

definition isupper :: "int \<Rightarrow> bool" where
  "isupper ch \<longleftrightarrow> 65 \<le> ch \<and> ch \<le> 90"

definition isxdigit :: "int \<Rightarrow> bool" where
  "isxdigit ch \<longleftrightarrow> (48 \<le> ch \<and> ch \<le> 57) \<or> (97 \<le> ch \<and> ch \<le> 102) \<or> (65 \<le> ch \<and> ch \<le> 70)"

definition isalpha :: "int \<Rightarrow> bool" where
  "isalpha ch \<longleftrightarrow> islower ch \<or> isupper ch"

definition isspace :: "int \<Rightarrow> bool" where
  "isspace ch \<longleftrightarrow> ch = 9 \<or> ch = 10 \<or> ch = 11 \<or> ch = 12 \<or> ch = 13 \<or> ch = 32"

definition k_toupper :: "int \<Rightarrow> int" where
  "k_toupper ch = (if isalpha ch then ch AND NOT 0x20 else ch)"

definition k_tolower :: "int \<Rightarrow> int" where
  "k_tolower ch = (if isalpha ch then ch OR 0x20 else ch)"

section \<open>string.cpp\<close>

definition k_memcpy :: "mem \<Rightarrow> u32 \<Rightarrow> u32 \<Rightarrow> u32 \<Rightarrow> mem" where
  "k_memcpy m dest src count = memcpy_loop (unat count) m dest src"

definition k_memset :: "mem \<Rightarrow> u32 \<Rightarrow> u8 \<Rightarrow> u32 \<Rightarrow> mem" where
  "k_memset m dest val count = memset_loop (unat count) m dest val"

definition k_memmove :: "mem \<Rightarrow> u32 \<Rightarrow> u32 \<Rightarrow> u32 \<Rightarrow> mem" where
  "k_memmove m dest src count =
     (if src \<noteq> dest then
        if dest < src then memcpy_loop (unat count) m dest src
        else memmove_back (unat count) m (dest + (count - 1)) (src + (count - 1))
      else m)"

primrec k_memcmp_loop :: "nat \<Rightarrow> mem \<Rightarrow> u32 \<Rightarrow> u32 \<Rightarrow> int" where
  "k_memcmp_loop 0 m a b = 0"
| "k_memcmp_loop (Suc n) m a b = (if m a \<noteq> m b then 1 else k_memcmp_loop n m (a + 1) (b + 1))"

definition k_memcmp :: "mem \<Rightarrow> u32 \<Rightarrow> u32 \<Rightarrow> u32 \<Rightarrow> int" where
  "k_memcmp m a b count = k_memcmp_loop (unat count) m a b"

definition k_strlen :: "mem \<Rightarrow> u32 \<Rightarrow> u32 option" where
  "k_strlen m str = strlen_loop m str 0"

partial_function (option) k_strnlen_loop :: "mem \<Rightarrow> u32 \<Rightarrow> u32 \<Rightarrow> u32 \<Rightarrow> u32 option" where
  "k_strnlen_loop m str retval count =
     (if m str \<noteq> 0 \<and> retval < count then k_strnlen_loop m (str + 1) (retval + 1) count else Some retval)"

definition k_strnlen :: "mem \<Rightarrow> u32 \<Rightarrow> u32 \<Rightarrow> u32 option" where
  "k_strnlen m str count = k_strnlen_loop m str 0 count"

partial_function (option) k_strcmp :: "mem \<Rightarrow> u32 \<Rightarrow> u32 \<Rightarrow> int option" where
  "k_strcmp m s1 s2 =
     (if m s1 \<noteq> m s2 then Some (sint (m s1) - sint (m s2))
      else if m s1 = 0 then Some (sint (m s1) - sint (m s2))
      else k_strcmp m (s1 + 1) (s2 + 1))"

text \<open>The comparisons with a count end at the address \<open>fini\<close>.\<close>

partial_function (option) k_strncmp_loop :: "mem \<Rightarrow> u32 \<Rightarrow> u32 \<Rightarrow> u32 \<Rightarrow> int option" where
  "k_strncmp_loop m a b fini =
     (if a < fini then
        (let res = sint (m a) - sint (m b)
         in if res \<noteq> 0 then Some res else if m a = 0 then Some 0 else k_strncmp_loop m (a + 1) (b + 1) fini)
      else Some 0)"

definition k_strncmp :: "mem \<Rightarrow> u32 \<Rightarrow> u32 \<Rightarrow> u32 \<Rightarrow> int option" where
  "k_strncmp m s1 s2 count = k_strncmp_loop m s1 s2 (s1 + count)"

partial_function (option) strcasecmp :: "mem \<Rightarrow> u32 \<Rightarrow> u32 \<Rightarrow> int option" where
  "strcasecmp m s1 s2 =
     (if m s2 = 0 \<or> k_tolower (sint (m s1)) \<noteq> k_tolower (sint (m s2))
      then Some (k_tolower (sint (m s1)) - k_tolower (sint (m s2)))
      else strcasecmp m (s1 + 1) (s2 + 1))"

partial_function (option) strncasecmp_loop :: "mem \<Rightarrow> u32 \<Rightarrow> u32 \<Rightarrow> u32 \<Rightarrow> int option" where
  "strncasecmp_loop m a b fini =
     (if a < fini then
        (let res = k_tolower (sint (m a)) - k_tolower (sint (m b))
         in if res \<noteq> 0 then Some res else if m a = 0 then Some 0 else strncasecmp_loop m (a + 1) (b + 1) fini)
      else Some 0)"

definition strncasecmp :: "mem \<Rightarrow> u32 \<Rightarrow> u32 \<Rightarrow> u32 \<Rightarrow> int option" where
  "strncasecmp m s1 s2 count = strncasecmp_loop m s1 s2 (s1 + count)"

text \<open>
  \<open>strsep\<close>: the inner loop looks for the character among the delimiters and the zero byte behind them; the result is the token, the new value of the
  pointer and the memory.
\<close>

partial_function (option) in_delims :: "mem \<Rightarrow> u8 \<Rightarrow> u32 \<Rightarrow> bool option" where
  "in_delims m c spanp = (if m spanp = c then Some True else if m spanp \<noteq> 0 then in_delims m c (spanp + 1) else Some False)"

partial_function (option) strsep_loop :: "mem \<Rightarrow> u32 \<Rightarrow> u32 \<Rightarrow> u32 \<Rightarrow> (u32 \<times> u32 \<times> mem) option" where
  "strsep_loop m tok s delim =
     Option.bind (in_delims m (m s) delim) (\<lambda>found.
       if found then
         (if m s = 0 then Some (tok, 0, m) else Some (tok, s + 1, m(s := 0)))
       else strsep_loop m tok (s + 1) delim)"

definition strsep :: "mem \<Rightarrow> u32 \<Rightarrow> u32 \<Rightarrow> (u32 \<times> u32 \<times> mem) option" where
  "strsep m stringp delim = (if stringp = 0 then Some (0, stringp, m) else strsep_loop m stringp stringp delim)"

partial_function (option) k_strchr :: "mem \<Rightarrow> u32 \<Rightarrow> u8 \<Rightarrow> u32 option" where
  "k_strchr m s c = (if m s = c then Some s else if m s = 0 then Some 0 else k_strchr m (s + 1) c)"

partial_function (option) k_strrchr_loop :: "mem \<Rightarrow> u32 \<Rightarrow> int \<Rightarrow> u32 \<Rightarrow> u32 option" where
  "k_strrchr_loop m s c l =
     (let l = (if sint (m s) = c then s else l) in if m s = 0 then Some l else k_strrchr_loop m (s + 1) c l)"

definition k_strrchr :: "mem \<Rightarrow> u32 \<Rightarrow> int \<Rightarrow> u32 option" where
  "k_strrchr m s c = k_strrchr_loop m s c 0"

partial_function (option) k_strcpy :: "mem \<Rightarrow> u32 \<Rightarrow> u32 \<Rightarrow> mem option" where
  "k_strcpy m d src = (let c = m src; m = m(d := c) in if c \<noteq> 0 then k_strcpy m (d + 1) (src + 1) else Some m)"

text \<open>\<open>strncpy\<close> does not pad.\<close>

primrec k_strncpy_loop :: "nat \<Rightarrow> mem \<Rightarrow> u32 \<Rightarrow> u32 \<Rightarrow> mem" where
  "k_strncpy_loop 0 m dest src = m"
| "k_strncpy_loop (Suc n) m dest src =
     (let m = m(dest := m src) in if m src = 0 then m else k_strncpy_loop n m (dest + 1) (src + 1))"

definition k_strncpy :: "mem \<Rightarrow> u32 \<Rightarrow> u32 \<Rightarrow> u32 \<Rightarrow> mem" where
  "k_strncpy m dest src count = k_strncpy_loop (unat count) m dest src"

primrec k_strncat_loop :: "nat \<Rightarrow> mem \<Rightarrow> u32 \<Rightarrow> u32 \<Rightarrow> u32 \<times> mem" where
  "k_strncat_loop 0 m d s = (d, m)"
| "k_strncat_loop (Suc n) m d s =
     (let c = m s; m = m(d := c) in if c = 0 then (d, m) else k_strncat_loop n m (d + 1) (s + 1))"

partial_function (option) string_end :: "mem \<Rightarrow> u32 \<Rightarrow> u32 option" where
  "string_end m d = (if m d \<noteq> 0 then string_end m (d + 1) else Some d)"

definition k_strncat :: "mem \<Rightarrow> u32 \<Rightarrow> u32 \<Rightarrow> u32 \<Rightarrow> mem option" where
  "k_strncat m dst src n =
     (if n \<noteq> 0 then
        Option.bind (string_end m dst) (\<lambda>d. let (d, m) = k_strncat_loop (unat n) m d src in Some (m(d := 0)))
      else Some m)"

section \<open>strtoul\<close>

text \<open>The character after the white space and the address behind it.\<close>

partial_function (option) skip_space :: "mem \<Rightarrow> u32 \<Rightarrow> (int \<times> u32) option" where
  "skip_space m s = (if isspace (uint (m s)) then skip_space m (s + 1) else Some (uint (m s), s + 1))"

definition ULONG_MAX :: u32 where
  "ULONG_MAX = 0xFFFFFFFF"

definition digit_value :: "int \<Rightarrow> int option" where
  "digit_value c = (if isdigit c then Some (c - 48) else if isalpha c then Some (c - (if isupper c then 65 - 10 else 97 - 10)) else None)"

partial_function (option) strtoul_loop :: "mem \<Rightarrow> int \<Rightarrow> int \<Rightarrow> u32 \<Rightarrow> u32 \<Rightarrow> int \<Rightarrow> (u32 \<times> u32 \<times> int) option" where
  "strtoul_loop m base c s acc any =
     (case digit_value c of None \<Rightarrow> Some (s, acc, any)
      | Some c \<Rightarrow>
          if base \<le> c then Some (s, acc, any)
          else if any < 0 then strtoul_loop m base (uint (m s)) (s + 1) acc any
          else if ULONG_MAX div of_int base < acc \<or> (acc = ULONG_MAX div of_int base \<and> sint (ULONG_MAX mod of_int base) < c)
          then strtoul_loop m base (uint (m s)) (s + 1) ULONG_MAX (- 1)
          else strtoul_loop m base (uint (m s)) (s + 1) (acc * of_int base + of_int c) 1)"

text \<open>The value and what is stored through \<open>endptr\<close>.\<close>

definition strtoul :: "mem \<Rightarrow> u32 \<Rightarrow> int \<Rightarrow> (u32 \<times> u32) option" where
  "strtoul m nptr base =
     Option.bind (skip_space m nptr) (\<lambda>(c, s).
       let (neg, c, s) = (if c = 45 then (True, sint (m s), s + 1) else if c = 43 then (False, sint (m s), s + 1) else (False, c, s));
           (c, s, base) = (if (base = 0 \<or> base = 16) \<and> c = 48 \<and> (m s = 0x78 \<or> m s = 0x58) then (sint (m (s + 1)), s + 2, 16) else (c, s, base));
           base = (if base = 0 then if c = 48 then 8 else 10 else base)
       in Option.bind (strtoul_loop m base c s 0 0) (\<lambda>(s, acc, any).
            Some (if neg \<and> 0 < any then - acc else acc, if any \<noteq> 0 then s - 1 else nptr)))"

section \<open>stdlib.cpp\<close>

definition hexChars :: "u8 list" where
  "hexChars = [0x30, 0x31, 0x32, 0x33, 0x34, 0x35, 0x36, 0x37, 0x38, 0x39, 0x41, 0x42, 0x43, 0x44, 0x45, 0x46]"

function reverse_loop :: "mem \<Rightarrow> u32 \<Rightarrow> int \<Rightarrow> int \<Rightarrow> mem" where
  "reverse_loop m arr i j =
     (if i < j then
        (let c = m (arr + of_int i); m = m(arr + of_int i := m (arr + of_int j))
         in reverse_loop (m(arr + of_int j := c)) arr (i + 1) (j - 1))
      else m)"
  by auto
termination by (relation "measure (\<lambda>(m, arr, i, j). nat (j - i))") auto

declare reverse_loop.simps [simp del]

definition reverseArray :: "mem \<Rightarrow> u32 \<Rightarrow> mem option" where
  "reverseArray m arr = Option.bind (k_strlen m arr) (\<lambda>n. Some (reverse_loop m arr 0 (sint (n - 1))))"

definition c_abs :: "u32 \<Rightarrow> u32" where
  "c_abs i = (if sint i < 0 then - i else i)"

partial_function (option) itoa_loop :: "mem \<Rightarrow> u32 \<Rightarrow> int \<Rightarrow> int \<Rightarrow> int \<Rightarrow> (fault + mem \<times> int) option" where
  "itoa_loop m str i val base =
     (if base = 0 then Some (Inl DivideError)
      else if val smod base < 0 \<or> 16 \<le> val smod base then Some (Inl OutOfBounds)
      else
        (let m = m(str + of_int i := hexChars ! nat (val smod base)); val = val sdiv base
         in if val \<noteq> 0 then itoa_loop m str (i + 1) val base else Some (Inr (m, i + 1))))"

definition itoa :: "mem \<Rightarrow> u32 \<Rightarrow> u32 \<Rightarrow> int \<Rightarrow> (fault + mem) option" where
  "itoa m val str base =
     Option.bind (itoa_loop m str 0 (sint (if sint val < 0 then - val else val)) base) (\<lambda>r.
       case r of Inl e \<Rightarrow> Some (Inl e)
       | Inr (m, i) \<Rightarrow>
           (let m = (if sint val < 0 then m(str + of_int i := 0x2D) else m);
                m = m(str + of_int (i + 1) := 0)
            in Option.bind (reverseArray m str) (\<lambda>m. Some (Inr (m(str + of_int (i + 1) := 0))))))"

section \<open>memmove\<close>

lemma memcpy_loop_outside: "(\<And>i. i < n \<Longrightarrow> x \<noteq> d + of_nat i) \<Longrightarrow> memcpy_loop n m d s x = m x"
proof (induction n arbitrary: m d s)
  case (Suc n)
  have "x \<noteq> d" using Suc.prems [of 0] by simp
  moreover have "x \<noteq> d + 1 + of_nat i" if "i < n" for i using Suc.prems [of "Suc i"] that by (simp add: add.assoc)
  ultimately show ?case using Suc.IH by simp
qed simp

text \<open>C30. The \<open>memmove\<close> of the kernel copies correctly in both directions: whatever the overlap, the destination afterwards holds the bytes the source held
  before, and no other byte changes. The one of the loader starts its backward copy a byte too far.\<close>

theorem kernel_memmove_moves:
  assumes "unat dest + unat n \<le> 2 ^ 32" "unat src + unat n \<le> 2 ^ 32"
  shows "load_bytes (k_memmove m dest src n) dest (unat n) = load_bytes m src (unat n) \<and>
    (\<forall>x. \<not> (unat dest \<le> unat x \<and> unat x < unat dest + unat n) \<longrightarrow> k_memmove m dest src n x = m x)"
proof -
  have off: "unat (dest + of_nat i) = unat dest + i" "unat (src + of_nat i) = unat src + i" if "i < unat n" for i
    using that assms by (auto intro!: unat_add_of_nat32)
  have neq: "x \<noteq> dest + of_nat i" if "\<not> (unat dest \<le> unat x \<and> unat x < unat dest + unat n)" "i < unat n" for x i
    using that off(1) [of i] by auto
  consider "dest < src" | "src = dest" | "src < dest" by (cases dest src rule: linorder_cases) auto
  then show ?thesis
  proof cases
    case 1
    then have m: "k_memmove m dest src n = memcpy_loop (unat n) m dest src" by (auto simp: k_memmove_def)
    have "fwd_ok dest src (unat n)" using fwd_ok_below [OF 1] assms by simp
    then have "load_bytes (k_memmove m dest src n) dest (unat n) = load_bytes m src (unat n)" unfolding m by (simp add: memcpy_loop_value less_imp_le)
    then show ?thesis using neq memcpy_loop_outside unfolding m by blast
  next
    case 2
    then show ?thesis by (simp add: k_memmove_def)
  next
    case 3
    then have m: "k_memmove m dest src n = memmove_back (unat n) m (dest + (n - 1)) (src + (n - 1))" by (auto simp: k_memmove_def)
    have from_end: "a + of_nat i = a + (n - 1) - of_nat (unat n - 1 - i)" if "i < unat n" for a i
    proof -
      have "1 + i \<le> unat n" using that by simp
      then have "of_nat (unat n - 1 - i) = n - 1 - of_nat i" by (simp add: of_nat_diff)
      then show ?thesis by simp
    qed
    have "k_memmove m dest src n (dest + of_nat i) = m (src + of_nat i)" if i: "i < unat n" for i
      unfolding m from_end [OF i]
    proof (rule memmove_back_value)
      fix k j assume j: "j < unat n" "k < j"
      define a b where "a = unat n - 1 - k" and "b = unat n - 1 - j"
      have ab: "a < unat n" "b < unat n" "b < a" using j by (simp_all add: a_def b_def)
      have "unat (dest + of_nat a) > unat (src + of_nat b)" using off ab 3 by (simp add: word_less_nat_alt)
      then have "dest + of_nat a \<noteq> src + of_nat b" by auto
      moreover have "k = unat n - 1 - a" "j = unat n - 1 - b" using j by (simp_all add: a_def b_def)
      ultimately show "dest + (n - 1) - of_nat k \<noteq> src + (n - 1) - of_nat j" using from_end [OF ab(1)] from_end [OF ab(2)] by metis
    qed (use i in \<open>simp_all add: less_imp_le\<close>)
    moreover have "k_memmove m dest src n x = m x" if x: "\<not> (unat dest \<le> unat x \<and> unat x < unat dest + unat n)" for x
      unfolding m
    proof (rule memmove_back_other)
      fix i assume i: "i < unat n"
      have "dest + of_nat (unat n - 1 - i) = dest + (n - 1) - of_nat i" using from_end [of "unat n - 1 - i" dest] i by simp
      then show "x \<noteq> dest + (n - 1) - of_nat i" using neq [OF x, of "unat n - 1 - i"] i by auto
    qed
    ultimately show ?thesis by (auto simp: load_bytes_def)
  qed
qed

theorem kernel_memmove_moves_witness:
  "load_bytes (k_memmove two_names 0x102 0x100 4) 0x102 4 = load_bytes two_names 0x100 4"
  using kernel_memmove_moves [of "0x102" 4 "0x100" two_names] by simp

section \<open>Reversing a string in place\<close>

lemma of_int_inj: "0 \<le> k \<Longrightarrow> k < 2 ^ 32 \<Longrightarrow> 0 \<le> l \<Longrightarrow> l < 2 ^ 32 \<Longrightarrow> (of_int k :: u32) = of_int l \<longleftrightarrow> k = l"
  by (simp add: word_of_int_eq_iff take_bit_int_eq_self_iff [THEN iffD2])

lemma reverse_loop_spec:
  "0 \<le> i \<Longrightarrow> j < 2 ^ 32 \<Longrightarrow> 0 \<le> k \<Longrightarrow> k < 2 ^ 32 \<Longrightarrow>
    reverse_loop m arr i j (arr + of_int k) = (if i \<le> k \<and> k \<le> j then m (arr + of_int (i + j - k)) else m (arr + of_int k))"
proof (induction m arr i j rule: reverse_loop.induct)
  case (1 m arr i j)
  have u: "(arr + of_int a = arr + (of_int b :: u32)) \<longleftrightarrow> a = b" if "0 \<le> a" "a < 2 ^ 32" "0 \<le> b" "b < 2 ^ 32" for a b
    using of_int_inj [OF that] by simp
  show ?case
  proof (cases "i < j")
    case True
    let ?m = "(m(arr + of_int i := m (arr + of_int j)))(arr + of_int j := m (arr + of_int i))"
    have e: "reverse_loop m arr i j = reverse_loop ?m arr (i + 1) (j - 1)" using True by (subst reverse_loop.simps) simp
    define h g where "h = (\<lambda>a. ?m (arr + of_int a))" and "g = (\<lambda>a. m (arr + of_int a))"
    have v: "h a = (if a = j then g i else if a = i then g j else g a)" if "0 \<le> a" "a < 2 ^ 32" for a
      unfolding h_def g_def using that 1(2,3) True u [of a i] u [of a j] by simp
    have "reverse_loop ?m arr (i + 1) (j - 1) (arr + of_int k) = (if i + 1 \<le> k \<and> k \<le> j - 1 then h (i + 1 + (j - 1) - k) else h k)"
      unfolding h_def by (rule 1(1) [OF True refl refl]) (use 1(2-5) in simp_all)
    also have "i + 1 + (j - 1) - k = i + j - k" by simp
    also have "(if i + 1 \<le> k \<and> k \<le> j - 1 then h (i + j - k) else h k) = (if i \<le> k \<and> k \<le> j then g (i + j - k) else g k)"
      using v [of k] v [of "i + j - k"] 1(2-5) True by auto
    finally show ?thesis unfolding e g_def .
  next
    case False
    then show ?thesis by (subst reverse_loop.simps) (auto dest: antisym)
  qed
qed

lemma cstr_nth: "cstr m p xs \<longleftrightarrow> (\<forall>i < length xs. m (p + of_nat i) = xs ! i) \<and> m (p + of_nat (length xs)) = 0 \<and> 0 \<notin> set xs"
proof (induction xs arbitrary: p)
  case (Cons x xs)
  show ?case
    unfolding cstr.simps Cons.IH by (auto simp: All_less_Suc2 add.assoc)
qed simp

lemma reverseArray_reverses:
  assumes "cstr m p xs" "length xs < 2 ^ 31"
  shows "\<exists>m'. reverseArray m p = Some m' \<and> cstr m' p (rev xs) \<and> (\<forall>k. length xs \<le> k \<and> k < 2 ^ 32 \<longrightarrow> m' (p + of_nat k) = m (p + of_nat k))"
proof -
  let ?n = "length xs" and ?m = "reverse_loop m p 0 (int (length xs) - 1)"
  have "sint (of_nat ?n - 1 :: u32) = int ?n - 1"
  proof (cases "?n = 0")
    case False
    have "of_nat ?n - 1 = (of_nat (?n - 1) :: u32)" using False by (cases xs) simp_all
    moreover have "sint (of_nat (?n - 1) :: u32) = int (?n - 1)"
      using assms(2) by (simp add: signed_of_nat signed_take_bit_int_eq_self_iff)
    ultimately show ?thesis using False by (simp add: of_nat_diff)
  qed simp
  then have r: "reverseArray m p = Some ?m" using strlen_cstr [OF assms(1)] by (simp add: reverseArray_def k_strlen_def strlen_def)
  have v: "?m (p + of_nat k) = (if k < ?n then m (p + of_nat (?n - 1 - k)) else m (p + of_nat k))" if "k < 2 ^ 32" for k
    using reverse_loop_spec [of 0 "int ?n - 1" "int k" m p] that assms(2) by (auto simp: of_nat_diff algebra_simps)
  have "cstr ?m p (rev xs)"
    unfolding cstr_nth
  proof (intro conjI allI impI)
    fix i assume i: "i < length (rev xs)"
    then have "?m (p + of_nat i) = m (p + of_nat (?n - 1 - i))" using assms(2) by (subst v) simp_all
    also have "\<dots> = xs ! (?n - 1 - i)"
    proof -
      have "?n - 1 - i < ?n" using i by simp
      then show ?thesis using assms(1) unfolding cstr_nth by blast
    qed
    also have "\<dots> = rev xs ! i" using i by (simp add: rev_nth)
    finally show "?m (p + of_nat i) = rev xs ! i" .
  next
    show "?m (p + of_nat (length (rev xs))) = 0" using assms by (subst v) (simp_all add: cstr_nth)
  qed (use assms(1) in \<open>simp add: cstr_nth\<close>)
  then show ?thesis using r v by auto
qed

section \<open>Printing a number and reading it back\<close>

text \<open>The digits of a number, the lowest first.\<close>

fun digits :: "nat \<Rightarrow> nat \<Rightarrow> nat list" where
  "digits b n = (if n < b \<or> b < 2 then [n] else n mod b # digits b (n div b))"

declare digits.simps [simp del]

lemma digits_small: "n < b \<Longrightarrow> digits b n = [n]"
  by (simp add: digits.simps)

lemma digits_step: "b \<le> n \<Longrightarrow> 2 \<le> b \<Longrightarrow> digits b n = n mod b # digits b (n div b)"
  by (subst digits.simps) simp

lemma digits_value: "foldr (\<lambda>d a. a * b + d) (digits b n) 0 = n"
  by (induction b n rule: digits.induct) (subst digits.simps, simp add: div_mult_mod_eq)

lemma digits_less: "2 \<le> b \<Longrightarrow> d \<in> set (digits b n) \<Longrightarrow> d < b"
proof (induction b n rule: digits.induct)
  case (1 b n)
  then show ?case by (cases "n < b") (auto simp: digits_small digits_step)
qed

lemma digits_nonempty: "digits b n \<noteq> []"
  by (subst digits.simps) simp

lemma digits_length: "2 \<le> b \<Longrightarrow> n < 2 ^ k \<Longrightarrow> 0 < k \<Longrightarrow> length (digits b n) \<le> k"
proof (induction k arbitrary: n)
  case (Suc k)
  show ?case
  proof (cases "n < b")
    case False
    then have "n div b \<le> n div 2" using Suc.prems by (simp add: div_le_mono2)
    then have "n div b < 2 ^ k" using Suc.prems by simp
    moreover have "k \<noteq> 0"
    proof
      assume "k = 0"
      then have "n < 2" using Suc.prems by simp
      then show False using False Suc.prems by simp
    qed
    ultimately show ?thesis using False Suc by (simp add: digits_step)
  qed (simp add: digits_small)
qed simp

lemma digits_no_leading_zero: "2 \<le> b \<Longrightarrow> 0 < n \<Longrightarrow> last (digits b n) \<noteq> 0"
proof (induction b n rule: digits.induct)
  case (1 b n)
  then show ?case by (cases "n < b") (auto simp: digits_small digits_step digits_nonempty div_greater_zero_iff)
qed

abbreviation hex_char :: "nat \<Rightarrow> u8" where
  "hex_char d \<equiv> hexChars ! d"

lemma hex_chars_read:
  "list_all (\<lambda>d. let c = hex_char d in digit_value (uint c) = Some (int d) \<and> \<not> isspace (uint c) \<and> c \<noteq> 0 \<and> uint c \<noteq> 45 \<and> uint c \<noteq> 43 \<and>
     c \<noteq> 0x78 \<and> c \<noteq> 0x58 \<and> sint c = uint c) [0..<16]"
  by code_simp

lemma hex_char_reads:
  assumes "d < 16"
  shows "digit_value (uint (hex_char d)) = Some (int d)" "\<not> isspace (uint (hex_char d))" "hex_char d \<noteq> 0" "uint (hex_char d) \<noteq> 45" "uint (hex_char d) \<noteq> 43"
    "hex_char d \<noteq> 0x78" "hex_char d \<noteq> 0x58" "sint (hex_char d) = uint (hex_char d)"
  using hex_chars_read assms by (auto simp: list_all_iff Let_def)

lemma digit_value_zero: "digit_value 0 = None"
  by (simp add: digit_value_def isdigit_def isalpha_def isupper_def islower_def)

lemma itoa_loop_stores:
  assumes "2 \<le> b" "b \<le> 16"
  shows "itoa_loop m str (int i) (int n) (int b) =
    Some (Inr (store_bytes m (str + of_nat i) (map hex_char (digits b n)), int (i + length (digits b n))))"
proof (induction n arbitrary: m i rule: less_induct)
  case (less n)
  have q: "int n smod int b = int (n mod b)" "int n sdiv int b = int (n div b)"
    using assms by (cases "n = 0"; simp add: signed_modulo_int_def signed_divide_int_def zmod_int zdiv_int)+
  have r: "n mod b < 16" using assms mod_less_divisor [of b n] by linarith
  have step: "itoa_loop m str (int i) (int n) (int b) = (let m = m(str + of_nat i := hex_char (n mod b))
      in if n div b \<noteq> 0 then itoa_loop m str (int (Suc i)) (int (n div b)) (int b) else Some (Inr (m, int (Suc i))))"
    using r assms by (subst itoa_loop.simps) (simp add: q Let_def add.commute)
  show ?case
  proof (cases "n < b")
    case True
    then show ?thesis unfolding step by (simp add: digits_small fun_upd_def)
  next
    case False
    then have "n div b < n" "n div b \<noteq> 0" using assms by (simp_all add: div_less_dividend div_eq_0_iff)
    then show ?thesis unfolding step Let_def using less.IH [of "n div b" "m(str + of_nat i := hex_char (n mod b))" "Suc i"] False assms
      by (simp add: digits_step ac_simps del: fun_upd_apply)
  qed
qed

text \<open>Reading the digits, the highest first; the last character read ends the number.\<close>

lemma foldl_digits_mono: "0 < b \<Longrightarrow> a \<le> foldl (\<lambda>a d. a * b + d) (a :: nat) ds"
proof (induction ds arbitrary: a)
  case (Cons d ds)
  have "a \<le> a * b + d" using Cons.prems by (cases b) simp_all
  then show ?case using Cons.IH [OF Cons.prems, of "a * b + d"] by simp
qed simp

lemma no_overflow:
  assumes "2 \<le> b" "b \<le> 16" "acc * b + d < 2 ^ 32"
  shows "\<not> (ULONG_MAX div of_int (int b) < of_nat acc \<or> of_nat acc = ULONG_MAX div of_int (int b) \<and> sint (ULONG_MAX mod of_int (int b)) < int d)"
proof -
  have acc: "acc < 2 ^ 32"
  proof -
    have "acc \<le> acc * b" using assms(1) by simp
    then show ?thesis using assms(3) by linarith
  qed
  have b: "unat (of_nat b :: u32) = b" using assms(2) by (intro unat_of_nat32) simp
  have q: "unat (ULONG_MAX div of_int (int b)) = 4294967295 div b" by (simp add: ULONG_MAX_def unat_div b)
  have r: "unat (ULONG_MAX mod of_int (int b)) = 4294967295 mod b" by (simp add: ULONG_MAX_def unat_mod b)
  have "4294967295 mod b < b" using assms(1) by simp
  then have "unat (ULONG_MAX mod of_int (int b)) < 2 ^ 31" using r assms(2) by simp
  then have "sint (of_nat (4294967295 mod b) :: u32) = int (4294967295 mod b)" using r by (simp add: signed_of_nat signed_take_bit_int_eq_self_iff)
  moreover have "ULONG_MAX mod of_int (int b) = of_nat (4294967295 mod b)" unfolding r [symmetric] by simp
  ultimately have s: "sint (ULONG_MAX mod of_int (int b)) = int (4294967295 mod b)" by simp
  have le: "acc * b + d \<le> 4294967295" using assms(3) by simp
  then have 1: "acc \<le> 4294967295 div b" using assms(1) by (simp add: less_eq_div_iff_mult_less_eq)
  have 2: "d \<le> 4294967295 mod b" if "acc = 4294967295 div b"
    using le div_mult_mod_eq [of 4294967295 b] unfolding that by linarith
  have u: "unat (of_nat acc :: u32) = acc" using acc by (intro unat_of_nat32) simp
  show ?thesis using 1 2 u q s by (auto simp: word_less_nat_alt word_unat_eq_iff)
qed

lemma strtoul_loop_reads:
  assumes "2 \<le> b" "b \<le> 16"
  shows "\<lbrakk>cstr m s (map hex_char ds); \<forall>d\<in>set ds. d < b; foldl (\<lambda>a d. a * b + d) acc ds < 2 ^ 32; 0 \<le> any\<rbrakk> \<Longrightarrow>
    strtoul_loop m (int b) (uint (m s)) (s + 1) (of_nat acc) any =
      Some (s + of_nat (length ds) + 1, of_nat (foldl (\<lambda>a d. a * b + d) acc ds), if ds = [] then any else 1)"
proof (induction ds arbitrary: s acc any)
  case Nil
  then show ?case by (subst strtoul_loop.simps) (simp add: digit_value_zero)
next
  case (Cons d ds)
  have d: "d < b" "d < 16" and m: "m s = hex_char d" and rest: "cstr m (s + 1) (map hex_char ds)" using Cons.prems assms by auto
  have "acc * b + d \<le> foldl (\<lambda>a d. a * b + d) (acc * b + d) ds" using assms by (intro foldl_digits_mono) simp
  then have "acc * b + d < 2 ^ 32" using Cons.prems by simp
  note fits = no_overflow [OF assms this]
  have "strtoul_loop m (int b) (uint (m s)) (s + 1) (of_nat acc) any
      = strtoul_loop m (int b) (uint (m (s + 1))) (s + 1 + 1) (of_nat acc * of_int (int b) + of_int (int d)) 1"
    using fits Cons.prems(4) d by (subst strtoul_loop.simps) (simp add: m hex_char_reads(1) if_not_P)
  also have "of_nat acc * of_int (int b) + of_int (int d) = (of_nat (acc * b + d) :: u32)" by simp
  finally show ?case using Cons.IH [OF rest, of "acc * b + d" 1] Cons.prems by (simp add: ac_simps)
qed

lemma store_bytes_nth:
  "length bs \<le> 2 ^ 32 \<Longrightarrow> k < 2 ^ 32 \<Longrightarrow> store_bytes m a bs (a + of_nat k) = (if k < length bs then bs ! k else m (a + of_nat k))"
proof (induction bs arbitrary: m a k)
  case (Cons c bs)
  show ?case
  proof (cases k)
    case 0
    have "store_bytes (m(a := c)) (a + 1) bs (a + 1 + of_nat (2 ^ 32 - 1)) = (m(a := c)) (a + 1 + of_nat (2 ^ 32 - 1))"
      using Cons.prems by (subst Cons.IH) simp_all
    moreover have "of_nat (2 ^ 32 - 1) = (- 1 :: u32)" by simp
    ultimately show ?thesis using 0 by (simp del: of_nat_diff of_nat_numeral)
  next
    case (Suc l)
    have "a + of_nat k \<noteq> a" using Suc Cons.prems of_int_inj [of "int k" 0] by simp
    then show ?thesis using Cons Suc by (simp add: add.assoc [symmetric])
  qed
qed simp

lemma cstr_first: "cstr m p (c # cs) \<Longrightarrow> m p = c"
  by simp

lemma cstr_upd_behind:
  assumes "cstr m p xs" "length xs \<le> k" "k < 2 ^ 32"
  shows "cstr (m(p + of_nat k := 0)) p xs"
proof -
  have "p + of_nat i \<noteq> p + of_nat k" if "i < length xs" for i
    using that assms of_int_inj [of "int i" "int k"] by simp
  then show ?thesis using assms(1) unfolding cstr_nth by auto
qed

lemma skip_no_space: "\<not> isspace (uint (m s)) \<Longrightarrow> skip_space m s = Some (uint (m s), s + 1)"
  by (subst skip_space.simps) simp

text \<open>What \<open>strtoul\<close> makes of the text of a number.\<close>

lemma strtoul_reads:
  assumes b: "2 \<le> b" "b \<le> 16" and ds: "ds \<noteq> []" "\<forall>d\<in>set ds. d < b"
    and s: "cstr m s ((if neg then [0x2D] else []) @ map hex_char ds)" and fits: "foldl (\<lambda>a d. a * b + d) 0 ds < 2 ^ 32"
  defines "n \<equiv> foldl (\<lambda>a d. a * b + d) 0 ds"
  shows "strtoul m s (int b) = Some (if neg then - of_nat n else of_nat n, s + of_nat (length ds + (if neg then 1 else 0)))"
proof -
  obtain d ds' where dds: "ds = d # ds'" using ds(1) by (cases ds) auto
  have d: "d < 16" and ds': "\<forall>d\<in>set ds'. d < 16" using ds b dds by auto
  define p where "p = (if neg then s + 1 else s)"
  have p: "cstr m p (map hex_char ds)" using s by (auto simp: p_def)
  then have mp: "m p = hex_char d" using dds by simp
  have x: "m (p + 1) \<noteq> 0x78 \<and> m (p + 1) \<noteq> 0x58"
    using p ds' hex_char_reads(6,7) unfolding dds by (cases ds') auto
  note digit = hex_char_reads [OF d]
  have start: "\<not> isspace (uint (m s))" "uint (m s) = 45 \<longleftrightarrow> neg" "uint (m s) \<noteq> 43"
    using s mp digit by (auto simp: p_def isspace_def split: if_splits)
  have skip: "skip_space m s = Some (uint (m s), s + 1)" using start(1) by (rule skip_no_space)
  have loop: "strtoul_loop m (int b) (uint (m p)) (p + 1) 0 0 = Some (p + of_nat (length ds) + 1, of_nat n, 1)"
    using strtoul_loop_reads [OF b p ds(2), of 0 0] fits ds(1) by (simp add: n_def)
  show ?thesis
    using loop x mp digit skip start(2,3) b by (cases neg) (simp_all add: strtoul_def p_def if_not_P add.commute add.left_commute)
qed

text \<open>The text of a number with its sign, as \<open>itoa\<close> leaves it.\<close>

definition number_text :: "nat \<Rightarrow> int \<Rightarrow> u8 list" where
  "number_text b v = (if v < 0 then [0x2D] else []) @ map hex_char (rev (digits b (nat \<bar>v\<bar>)))"

lemma abs_value:
  assumes "sint (v :: u32) \<noteq> - (2 ^ 31)"
  shows "sint (if sint v < 0 then - v else v) = int (nat \<bar>sint v\<bar>)" "nat \<bar>sint v\<bar> < 2 ^ 31"
proof -
  have "- (2 ^ 31) \<le> sint v" "sint v < 2 ^ 31" using sint_ge [of v] sint_lt [of v] by simp_all
  then have "\<bar>sint v\<bar> < 2 ^ 31" using assms by (simp add: abs_less_iff)
  then show "nat \<bar>sint v\<bar> < 2 ^ 31" by simp
  have "sint (- v) = - sint v" if "sint v < 0"
    using that assms \<open>- (2 ^ 31) \<le> sint v\<close> by (simp add: sint_word_ariths signed_take_bit_int_eq_self)
  then show "sint (if sint v < 0 then - v else v) = int (nat \<bar>sint v\<bar>)" by simp
qed

lemma itoa_prints:
  assumes b: "2 \<le> b" "b \<le> 16" and v: "sint v \<noteq> - (2 ^ 31)" and z: "sint v < 0 \<or> m (str + of_nat (length (digits b (nat \<bar>sint v\<bar>)))) = 0"
  shows "\<exists>m'. itoa m v str (int b) = Some (Inr m') \<and> cstr m' str (number_text b (sint v))"
proof -
  define n where "n = nat \<bar>sint v\<bar>"
  define k where "k = length (digits b n)"
  note vn = abs_value [OF v, folded n_def]
  have k: "k \<le> 31" "0 < k" using digits_length [OF b(1) vn(2)] digits_nonempty by (simp_all add: k_def)
  let ?ds = "map hex_char (digits b n)" and ?neg = "sint v < 0"
  define m1 where "m1 = store_bytes m str ?ds"
  define m2 where "m2 = (if ?neg then m1(str + of_nat k := 0x2D) else m1)"
  define m3 where "m3 = m2(str + of_nat (k + 1) := 0)"
  define xs where "xs = ?ds @ (if ?neg then [0x2D] else [])"
  have at: "(str + of_nat i = str + (of_nat j :: u32)) \<longleftrightarrow> i = j" if "i \<le> 40" "j \<le> 40" for i j
    using that of_int_inj [of "int i" "int j"] by simp
  have m1: "m1 (str + of_nat i) = (if i < k then ?ds ! i else m (str + of_nat i))" if "i \<le> 40" for i
    unfolding m1_def k_def using that k by (subst store_bytes_nth) (simp_all add: k_def)
  have nz: "0 \<notin> set xs"
    using digits_less [OF b(1)] b(2) hex_char_reads(3) by (fastforce simp: xs_def)
  have len: "length xs = (if ?neg then k + 1 else k)" by (simp add: xs_def k_def)
  have m3: "m3 (str + of_nat i) = (if i = k + 1 then 0 else if i = k \<and> ?neg then 0x2D else m1 (str + of_nat i))" if "i \<le> 40" for i
    unfolding m3_def m2_def using at [OF that] k by (simp del: of_nat_add of_nat_Suc)
  have c3: "cstr m3 str xs"
    unfolding cstr_nth
  proof (intro conjI allI impI nz)
    fix i assume i: "i < length xs"
    then show "m3 (str + of_nat i) = xs ! i" using k len m3 [of i] m1 [of i] by (auto simp: xs_def nth_append k_def split: if_splits)
  next
    have "?neg \<or> m (str + of_nat k) = 0" using z unfolding k_def n_def .
    then show "m3 (str + of_nat (length xs)) = 0" using k len m3 [of "length xs"] m1 [of "length xs"] by (cases ?neg) simp_all
  qed
  have "length xs < 2 ^ 31" using len k by simp
  then obtain m4 where m4: "reverseArray m3 str = Some m4" "cstr m4 str (rev xs)"
    using reverseArray_reverses [OF c3] by blast
  have loop: "itoa_loop m str 0 (sint (if ?neg then - v else v)) (int b) = Some (Inr (m1, int k))"
    using itoa_loop_stores [OF b, of m str 0 n] unfolding vn(1) m1_def k_def by simp
  have "itoa m v str (int b) = Option.bind (reverseArray m3 str) (\<lambda>m. Some (Inr (m(str + of_nat (k + 1) := 0))))"
    unfolding itoa_def loop m3_def m2_def by (simp add: Let_def add.commute if_distrib cong: if_cong)
  moreover have "cstr (m4(str + of_nat (k + 1) := 0)) str (rev xs)" using k len by (intro cstr_upd_behind m4) simp_all
  moreover have "rev xs = number_text b (sint v)" by (simp add: xs_def number_text_def n_def rev_map)
  ultimately show ?thesis using m4 by simp
qed

text \<open>C27. \<open>itoa\<close> and \<open>strtoul\<close> are inverse: in every base from 2 to 16 and for every value except the least one, the text that \<open>itoa\<close> leaves in a cleared
  buffer (it never writes the byte behind the last digit of a positive number) is read by \<open>strtoul\<close> as the same value, negative numbers included, and
  \<open>endptr\<close> is the terminating zero of the text.\<close>

theorem number_text_round_trip:
  assumes "2 \<le> b" "b \<le> 16" "sint v \<noteq> - (2 ^ 31)" "\<forall>i<32. m (str + of_nat i) = 0"
  shows "\<exists>m' e. itoa m v str (int b) = Some (Inr m') \<and> strtoul m' str (int b) = Some (v, e) \<and>
    cstr m' str (number_text b (sint v)) \<and> e = str + of_nat (length (number_text b (sint v)))"
proof -
  define n where "n = nat \<bar>sint v\<bar>"
  note vn = abs_value [OF assms(3), folded n_def]
  have k: "length (digits b n) \<le> 31" using digits_length [OF assms(1) vn(2)] by simp
  have "m (str + of_nat (length (digits b n))) = 0" using assms(4) k by simp
  then obtain m' where m': "itoa m v str (int b) = Some (Inr m')" "cstr m' str (number_text b (sint v))"
    using itoa_prints [OF assms(1-3)] unfolding n_def by blast
  have val: "foldl (\<lambda>a d. a * b + d) 0 (rev (digits b n)) = n"
    using digits_value [of b n] by (simp add: foldl_conv_foldr)
  have "strtoul m' str (int b) = Some (if sint v < 0 then - of_nat n else of_nat n, str + of_nat (length (rev (digits b n)) + (if sint v < 0 then 1 else 0)))"
    by (rule strtoul_reads [where b = b and ds = "rev (digits b n)" and neg = "sint v < 0", unfolded val])
      (use assms m'(2) digits_less [OF assms(1)] digits_nonempty vn(2) in \<open>simp_all add: number_text_def n_def\<close>)
  moreover have "(if sint v < 0 then - of_nat n else of_nat n) = v"
    by (simp add: n_def flip: of_int_minus)
  ultimately show ?thesis using m' by (auto simp: number_text_def n_def)
qed

theorem number_text_round_trip_witness:
  "\<exists>m' e. itoa (\<lambda>_. 0) (- 300) 0x1000 10 = Some (Inr m') \<and> strtoul m' 0x1000 10 = Some (- 300, e) \<and> cstr m' 0x1000 [0x2D, 0x33, 0x30, 0x30]"
proof -
  have "number_text 10 (- 300) = [0x2D, 0x33, 0x30, 0x30]"
    by (simp add: number_text_def digits_step digits_small hexChars_def)
  then show ?thesis using number_text_round_trip [of 10 "- 300" "\<lambda>_. 0" "0x1000"] by auto
qed

end
