(* ===== verification/KernelDescriptors.thy ===== *)
theory KernelDescriptors
  imports Descriptors
begin

text \<open>
  The descriptor tables of the kernel (GDT.cpp, IDT.cpp, TSS.h) in the byte memory: the six entries of the global table, of which the last describes
  the task state segment, and the gates of all 256 vectors. The addresses of the tables and of the assembly stubs are arguments; loading the table
  registers does not change the memory. The entries have the layout of those of the loader.
\<close>

section \<open>The global table and the task state segment\<close>

definition K_GDT_ENTRY_COUNT :: u16 where
  "K_GDT_ENTRY_COUNT = 6"

definition GDT_KERNEL_CODE :: u16 where
  "GDT_KERNEL_CODE = 0x08"

definition GDT_KERNEL_DATA :: u16 where
  "GDT_KERNEL_DATA = 0x10"

text \<open>The check lets the index 6 through, one past the end of the table.\<close>

definition k_gdt_set_descriptor :: "u32 \<Rightarrow> u16 \<Rightarrow> u64 \<Rightarrow> u64 \<Rightarrow> u8 \<Rightarrow> u8 \<Rightarrow> mem \<Rightarrow> fault + mem" where
  "k_gdt_set_descriptor gdt i base limit access granularity m =
     (if K_GDT_ENTRY_COUNT < i then Inr m
      else if i = K_GDT_ENTRY_COUNT then Inl OutOfBounds
      else
        (let e = gdt_entry gdt i;
             m = memset m e 0 8;
             m = store16 m (e + 2) (ucast (base AND 0xFFFF));
             m = store8 m (e + 4) (ucast (drop_bit 16 base AND 0xFF));
             m = store8 m (e + 7) (ucast (drop_bit 24 base AND 0xFF));
             m = store16 m e (ucast (limit AND 0xFFFF));
             m = store8 m (e + 5) access;
             m = store8 m (e + 6) (ucast (drop_bit 16 limit AND 0x0F));
             m = store8 m (e + 6) (m (e + 6) OR (granularity AND 0xF0))
         in Inr m))"

text \<open>\<open>tss_entry\<close>, 104 bytes: \<open>esp0\<close> at 4, \<open>ss0\<close> at 8, the segment registers from 72 on.\<close>

definition sizeof_tss_entry :: u32 where
  "sizeof_tss_entry = 104"

definition gdt_set_tss :: "u32 \<Rightarrow> u32 \<Rightarrow> u16 \<Rightarrow> u16 \<Rightarrow> u32 \<Rightarrow> mem \<Rightarrow> fault + mem" where
  "gdt_set_tss gdt tss i ss0 esp0 m =
     (let base = tss; limit = base + sizeof_tss_entry
      in rbind (k_gdt_set_descriptor gdt i (ucast base) (ucast limit) 0xE9 0x00 m) (\<lambda>m.
         let m = memset m tss 0 sizeof_tss_entry;
             m = store32 m (tss + 8) (ucast ss0);
             m = store32 m (tss + 4) esp0;
             m = store32 m (tss + 76) 0x0B
         in Inr (store32 (store32 (store32 (store32 (store32 m (tss + 92) 0x13) (tss + 88) 0x13) (tss + 72) 0x13) (tss + 84) 0x13) (tss + 80) 0x13)))"

definition gdt_setup :: "u32 \<Rightarrow> u32 \<Rightarrow> mem \<Rightarrow> fault + mem" where
  "gdt_setup gdt tss m =
     rbind (k_gdt_set_descriptor gdt 0 0 0 0 0 m) (\<lambda>m.
     rbind (k_gdt_set_descriptor gdt 1 0 0xFFFFFFFF 0x9A 0xCF m) (\<lambda>m.
     rbind (k_gdt_set_descriptor gdt 2 0 0xFFFFFFFF 0x92 0xCF m) (\<lambda>m.
     rbind (k_gdt_set_descriptor gdt 3 0 0xFFFFFFFF 0xFA 0xCF m) (\<lambda>m.
     rbind (k_gdt_set_descriptor gdt 4 0 0xFFFFFFFF 0xF2 0xCF m) (\<lambda>m.
     gdt_set_tss gdt tss 5 GDT_KERNEL_DATA 0x0 m)))))"

definition k_gdt_install :: "u32 \<Rightarrow> u32 \<Rightarrow> mem \<Rightarrow> mem" where
  "k_gdt_install gdt gp m = store32 (store16 m gp (8 * K_GDT_ENTRY_COUNT - 1)) (gp + 2) gdt"

definition gdt_set_kernel_stack :: "u32 \<Rightarrow> u32 \<Rightarrow> mem \<Rightarrow> mem" where
  "gdt_set_kernel_stack tss esp0 m = store32 m (tss + 4) esp0"

section \<open>The interrupt table\<close>

text \<open>The table has 255 entries; the gate of vector 255 is written behind it.\<close>

definition K_IDT_MAX_ENTRY_COUNT :: u32 where
  "K_IDT_MAX_ENTRY_COUNT = 255"

definition k_idt_set_gate :: "u32 \<Rightarrow> u8 \<Rightarrow> u32 \<Rightarrow> u16 \<Rightarrow> u8 \<Rightarrow> mem \<Rightarrow> mem" where
  "k_idt_set_gate idt i base sel flags m =
     (let e = idt_entry idt i;
          m = store16 m e (ucast (base AND 0xFFFF));
          m = store16 m (e + 6) (ucast (drop_bit 16 base AND 0xFFFF));
          m = store16 m (e + 2) sel;
          m = store8 m (e + 4) 0
      in store8 m (e + 5) flags)"

text \<open>\<open>stub i\<close> is the address of \<open>exceptioni\<close> or \<open>irqi\<close>.\<close>

definition idt_setup :: "u32 \<Rightarrow> (u8 \<Rightarrow> u32) \<Rightarrow> mem \<Rightarrow> mem" where
  "idt_setup idt stub m =
     fold (\<lambda>i. k_idt_set_gate idt i (stub i) GDT_KERNEL_CODE (I86_IDT_ATTR_PRESENT OR I86_IDT_ATTR_32BIT_INT_GATE OR I86_IDT_ATTR_PRIV_KERNEL))
       (map of_nat [0..<256]) (memset m idt 0 (8 * K_IDT_MAX_ENTRY_COUNT))"

definition idt_install :: "u32 \<Rightarrow> u32 \<Rightarrow> mem \<Rightarrow> mem" where
  "idt_install idt ip m = store32 (store16 m ip (ucast (8 * K_IDT_MAX_ENTRY_COUNT - 1))) (ip + 2) idt"

section \<open>What the processor reads\<close>

lemma k_idt_set_gate_eq: "k_idt_set_gate = idt_set_gate"
  by (intro ext) (simp add: k_idt_set_gate_def idt_set_gate_def)

lemma k_gdt_set_descriptor_eq:
  "i < 5 \<Longrightarrow> k_gdt_set_descriptor gdt i (ucast base) (ucast limit) access granularity m = gdt_set_descriptor gdt i base limit access granularity m"
proof -
  assume "i < 5"
  then have "\<not> 6 < i" "i \<noteq> 6" "\<not> 5 < i" "i \<noteq> 5" by (auto dest: less_trans)
  moreover have "(ucast ((ucast w :: u64) AND 0xFFFF) :: u16) = ucast (w AND 0xFFFF)"
    "(ucast (drop_bit 16 (ucast w :: u64) AND 0xFF) :: u8) = ucast (drop_bit 16 w AND 0xFF)"
    "(ucast (drop_bit 24 (ucast w :: u64) AND 0xFF) :: u8) = ucast (drop_bit 24 w AND 0xFF)"
    "(ucast (drop_bit 16 (ucast w :: u64) AND 0x0F) :: u8) = ucast (drop_bit 16 w AND 0x0F)" for w :: u32
  proof -
    have ff: "(0xFFFF :: u64) = mask 16" "(0xFFFF :: u32) = mask 16" "(0xFF :: u64) = mask 8" "(0xFF :: u32) = mask 8" "(0x0F :: u64) = mask 4" "(0x0F :: u32) = mask 4"
      by (simp_all add: mask_eq_exp_minus_1)
    show "(ucast ((ucast w :: u64) AND 0xFFFF) :: u16) = ucast (w AND 0xFFFF)"
      "(ucast (drop_bit 16 (ucast w :: u64) AND 0xFF) :: u8) = ucast (drop_bit 16 w AND 0xFF)"
      "(ucast (drop_bit 24 (ucast w :: u64) AND 0xFF) :: u8) = ucast (drop_bit 24 w AND 0xFF)"
      "(ucast (drop_bit 16 (ucast w :: u64) AND 0x0F) :: u8) = ucast (drop_bit 16 w AND 0x0F)"
      unfolding ff by (auto intro!: bit_word_eqI simp: bit_simps)
  qed
  ultimately show ?thesis
    by (simp add: k_gdt_set_descriptor_def gdt_set_descriptor_def K_GDT_ENTRY_COUNT_def I86_GDT_ENTRY_COUNT_def)
qed

lemma gdt_setup_returns: "\<exists>m'. gdt_setup gdt tss m = Inr m'"
  by (simp add: gdt_setup_def gdt_set_tss_def k_gdt_set_descriptor_def K_GDT_ENTRY_COUNT_def Let_def)

text \<open>After \<open>idt_setup\<close> every vector leads to its stub; the gate of vector 255 lies in the eight bytes behind the table, which changes no other byte.\<close>

lemma all_vectors: "set (map of_nat [0..<256]) = (UNIV :: u8 set)" "distinct (map of_nat [0..<256] :: u8 list)"
proof -
  have "i \<in> of_nat ` {0..<256}" for i :: u8
  proof (rule image_eqI)
    show "i = of_nat (unat i)" by simp
    have "unat i < 256" by simp
    then show "unat i \<in> {0..<256}" by simp
  qed
  then show "set (map of_nat [0..<256]) = (UNIV :: u8 set)" by auto
  show "distinct (map of_nat [0..<256] :: u8 list)"
    by (auto simp: distinct_map inj_on_def word_of_nat_eq_iff take_bit_nat_eq_self)
qed

lemma fold_gates_outside:
  "sep idt 2048 a n \<Longrightarrow> agree m (fold (\<lambda>k. idt_set_gate idt k (ex k) sel flags) ks m) a n"
proof (induction ks arbitrary: m)
  case (Cons k ks)
  note frame = idt_gate_decodes [THEN conjunct2, THEN conjunct2, THEN conjunct2, THEN conjunct2, rule_format]
  have "unat k < 256" by simp
  then have "8 * unat k + 8 \<le> 2048" by linarith
  then have "sep (idt + of_nat (8 * unat k)) 8 a n" by (intro sep_sub [OF Cons.prems])
  then have "sep (idt_entry idt k) 8 a n" by (simp add: idt_entry_def unsigned_ucast_eq)
  from agree_trans [OF frame [OF this] Cons.IH [OF Cons.prems]] show ?case by simp
qed simp

lemma kernel_gates_installed:
  "gate_offset (idt_setup idt stub m) (idt_entry idt v) = stub v \<and> load16 (idt_setup idt stub m) (idt_entry idt v + 2) = GDT_KERNEL_CODE \<and>
   idt_setup idt stub m (idt_entry idt v + 5) = 0x8E \<and>
   (sep idt 2048 a n \<longrightarrow> agree m (idt_setup idt stub m) a n)"
proof -
  let ?start = "memset m idt 0 2040"
  let ?fin = "idt_setup idt stub m" and ?e = "idt_entry idt v"
  have m: "?fin = fold (\<lambda>k. idt_set_gate idt k (stub k) 8 0x8E) (map of_nat [0..<256]) ?start"
    by (simp add: idt_setup_def k_idt_set_gate_eq GDT_KERNEL_CODE_def I86_IDT_ATTR_PRESENT_def I86_IDT_ATTR_32BIT_INT_GATE_def
        I86_IDT_ATTR_PRIV_KERNEL_def K_IDT_MAX_ENTRY_COUNT_def del: upt_Suc)
  have "v \<in> set (map of_nat [0..<256])" unfolding all_vectors(1) by simp
  from fold_gates(1) [OF all_vectors(2) this] obtain m1 where
    a: "agree (idt_set_gate idt v (stub v) 8 0x8E m1) ?fin ?e 8" unfolding m by blast
  note g = idt_gate_decodes [of idt v "stub v" 8 "0x8E" m1]
  have "load16 ?fin ?e = load16 (idt_set_gate idt v (stub v) 8 0x8E m1) ?e"
    "load16 ?fin (?e + 6) = load16 (idt_set_gate idt v (stub v) 8 0x8E m1) (?e + 6)"
    "load16 ?fin (?e + 2) = load16 (idt_set_gate idt v (stub v) 8 0x8E m1) (?e + 2)"
    using load16_cong [OF agree_sub [OF a, of 0 2]] load16_cong [OF agree_sub [OF a, of 6 2]]
      load16_cong [OF agree_sub [OF a, of 2 2]] by simp_all
  moreover have "?fin (?e + of_nat 5) = idt_set_gate idt v (stub v) 8 0x8E m1 (?e + of_nat 5)"
    using a unfolding agree_def by (elim allE [of _ 5] impE) simp_all
  moreover have "agree m ?fin a n" if "sep idt 2048 a n"
  proof -
    have "sep idt 2040 a n" using sep_sub [OF that, of 0 2040] by simp
    then have "agree m ?start a n" by (intro memset_frame) simp
    then show ?thesis using fold_gates_outside [OF that] unfolding m by (rule agree_trans)
  qed
  ultimately show ?thesis using g by (simp add: gate_offset_def GDT_KERNEL_CODE_def)
qed

end
