(* ===== verification/KernelBoot.thy ===== *)
theory KernelBoot
  imports Geexos IOMemory KernelString KernelDescriptors
begin

text \<open>
  The start of the kernel (x86BootEnvironment.cpp, HAL.cpp and the first half of kmain): it copies the loader block, creates the frame allocator from the
  memory boundary in it, marks the frames of the memory descriptors, installs the descriptor tables, the dispatcher and the page fault handler,
  and turns to its own page tables. Before there is a heap every object comes from the placement allocator; the addresses the linker and the
  assembly give are collected in \<open>kernel_symbols\<close>.
\<close>

section \<open>The boot environment\<close>

text \<open>The kernel's enumeration of memory types; a descriptor holds the number of the loader's.\<close>

datatype kernel_memory_type = KMemoryTypeFree | KMemoryTypeBad | KMemoryTypeSpecial | KMemoryTypeLoaderExecutable | KMemoryTypeLoaderTemporary
  | KMemoryTypeLoaderStack | KMemoryTypeLoaderHeap | KMemoryTypeFirmware | KMemoryTypePageLookupTable | KMemoryTypeGeexOSPageStructures
  | KMemoryTypeGeexOSPageDirectory | KMemoryTypeGeexOSKernelEnvironmentInformation | KMemoryTypeGeexOSKernelExecutable
  | KMemoryTypeGeexOSKernelStack | KMemoryTypeGeexOSKernelLibrary

primrec type_number :: "kernel_memory_type \<Rightarrow> u32" where
  "type_number KMemoryTypeFree = 0"
| "type_number KMemoryTypeBad = 1"
| "type_number KMemoryTypeSpecial = 2"
| "type_number KMemoryTypeLoaderExecutable = 3"
| "type_number KMemoryTypeLoaderTemporary = 4"
| "type_number KMemoryTypeLoaderStack = 5"
| "type_number KMemoryTypeLoaderHeap = 6"
| "type_number KMemoryTypeFirmware = 7"
| "type_number KMemoryTypePageLookupTable = 8"
| "type_number KMemoryTypeGeexOSPageStructures = 9"
| "type_number KMemoryTypeGeexOSPageDirectory = 10"
| "type_number KMemoryTypeGeexOSKernelEnvironmentInformation = 11"
| "type_number KMemoryTypeGeexOSKernelExecutable = 12"
| "type_number KMemoryTypeGeexOSKernelStack = 13"
| "type_number KMemoryTypeGeexOSKernelLibrary = 14"

text \<open>\<open>KernelInformation\<close> has the layout of the loader block.\<close>

definition sizeof_KernelInformation :: u32 where
  "sizeof_KernelInformation = 2716"

record x86BootEnvironment =
  kernelInformation :: u32
  env_memory :: u64

definition new_x86BootEnvironment :: "u32 \<Rightarrow> u32 \<Rightarrow> mem \<Rightarrow> u32 \<Rightarrow> fault + x86BootEnvironment \<times> mem \<times> u32" where
  "new_x86BootEnvironment placement info m pos =
     (if sizeof_KernelInformation \<noteq> load32 m info then Inl AssertFailed
      else
        rbind (placement_Allocate placement (load32 m info) False pos) (\<lambda>(p, a).
        let m = k_memcpy m p info (load32 m info)
        in Inr (\<lparr>kernelInformation = p, env_memory = load64 m (block_UpperMemoryBoundary p)\<rparr>, m, a)))"

definition GetInstalledMemory :: "x86BootEnvironment \<Rightarrow> u64" where
  "GetInstalledMemory env = env_memory env"

definition GetMemoryRegions :: "mem \<Rightarrow> x86BootEnvironment \<Rightarrow> u32 \<times> u32" where
  "GetMemoryRegions m env = (block_descriptor (kernelInformation env) 0, ucast (descriptor_count m (kernelInformation env)))"

definition sizeof_MEMORY_DESCRIPTOR :: u32 where
  "sizeof_MEMORY_DESCRIPTOR = 20"

primrec region_loop :: "nat \<Rightarrow> mem \<Rightarrow> u32 \<Rightarrow> u32 \<Rightarrow> u32" where
  "region_loop 0 m start type = 0"
| "region_loop (Suc n) m start type = (if load32 m (start + 16) = type then start else region_loop n m (start + sizeof_MEMORY_DESCRIPTOR) type)"

definition GetMemoryRegionByType :: "mem \<Rightarrow> x86BootEnvironment \<Rightarrow> u32 \<Rightarrow> u32 \<Rightarrow> fault + u32" where
  "GetMemoryRegionByType m env start type =
     (let MemoryDescriptors = block_descriptor (kernelInformation env) 0; count = descriptor_count m (kernelInformation env)
      in if \<not> (start = 0 \<or> MemoryDescriptors < start \<and> start < MemoryDescriptors + ucast count * sizeof_MEMORY_DESCRIPTOR) then Inl AssertFailed
         else
           (let (start, i) = (if start = 0 then (MemoryDescriptors, 0 :: u16)
                  else (start + sizeof_MEMORY_DESCRIPTOR, ucast ((start + sizeof_MEMORY_DESCRIPTOR - MemoryDescriptors) div sizeof_MEMORY_DESCRIPTOR)))
            in Inr (region_loop (unat count - unat i) m start type)))"

section \<open>The hardware abstraction layer\<close>

record kernel_symbols =
  sym_placement :: u32
  sym_gdt :: u32
  sym_tss :: u32
  sym_gp :: u32
  sym_idt :: u32
  sym_ip :: u32
  sym_stub :: "u8 \<Rightarrow> u32"

record x86HAL =
  hal_memory :: mem
  bootenv :: x86BootEnvironment
  interruptDispatcher :: interrupts
  hal_vm :: virtual_memory
  hal_io :: io_manager
  kernelSpace :: u32

text \<open>\<open>kmalloc\<close> before there is a slab allocator.\<close>

definition early_kmalloc :: "kernel_symbols \<Rightarrow> u32 \<Rightarrow> (x86HAL, u32) prog" where
  "early_kmalloc ks len s =
     bnd (lift_result (placement_Allocate (sym_placement ks) len False (placement_address (paging (hal_vm s))))) (\<lambda>(p, a).
     seq (modify (\<lambda>s. s\<lparr>hal_vm := (hal_vm s)\<lparr>paging := (paging (hal_vm s))\<lparr>placement_address := a\<rparr>\<rparr>\<rparr>)) (ret p)) s"

text \<open>The types whose frames are marked, and the loop over the pages of a descriptor.\<close>

definition marked_type :: "u32 \<Rightarrow> bool" where
  "marked_type t \<longleftrightarrow> t \<in> type_number ` {KMemoryTypeBad, KMemoryTypeSpecial, KMemoryTypeFirmware, KMemoryTypeGeexOSKernelEnvironmentInformation,
     KMemoryTypeGeexOSKernelExecutable, KMemoryTypeGeexOSKernelStack, KMemoryTypeGeexOSKernelLibrary}"

partial_function (option) mark_range :: "u32 \<Rightarrow> u64 \<Rightarrow> frame_allocator \<Rightarrow> (fault + frame_allocator) option" where
  "mark_range a limit fa =
     (if ucast a < limit then
        (case MarkAsUsed (a * KERNEL_PAGE_SIZE) fa of Inl e \<Rightarrow> Some (Inl e) | Inr fa \<Rightarrow> mark_range (a + 1) limit fa)
      else Some (Inr fa))"

definition mark_descriptor :: "mem \<Rightarrow> u32 \<Rightarrow> frame_allocator \<Rightarrow> (fault + frame_allocator) option" where
  "mark_descriptor m d fa =
     (if marked_type (load32 m (d + 16)) then mark_range (ucast (load64 m d)) (load64 m d + load64 m (d + 8)) fa else Some (Inr fa))"

primrec mark_descriptors :: "nat \<Rightarrow> mem \<Rightarrow> u32 \<Rightarrow> frame_allocator \<Rightarrow> (fault + frame_allocator) option" where
  "mark_descriptors 0 m d fa = Some (Inr fa)"
| "mark_descriptors (Suc n) m d fa =
     Option.bind (mark_descriptor m d fa) (\<lambda>r. case r of Inl e \<Rightarrow> Some (Inl e)
       | Inr fa \<Rightarrow> mark_descriptors n m (d + sizeof_MEMORY_DESCRIPTOR) fa)"

text \<open>The part of Initialize that fills the frame allocator.\<close>

definition create_frame_allocator :: "mem \<Rightarrow> x86BootEnvironment \<Rightarrow> (fault + frame_allocator) option" where
  "create_frame_allocator m env =
     (let (descriptor, descriptorCount) = GetMemoryRegions m env
      in mark_descriptors (unat descriptorCount) m descriptor (new_frame_allocator (ucast (GetInstalledMemory env))))"

text \<open>
  Initialize. The objects are taken from the placement region in the order of the code, with the sizes they have on the i386; the number of
  bytes of the bit field follows from the number of frames. \<open>CPUhasMSR\<close> is what the processor reports, \<open>loader\<close> its page directory.
\<close>

definition x86HAL_Initialize :: "kernel_symbols \<Rightarrow> bool \<Rightarrow> u32 \<Rightarrow> (nat \<Rightarrow> u32) \<Rightarrow> (x86HAL, unit) prog" where
  "x86HAL_Initialize ks CPUhasMSR info loader =
     (if \<not> CPUhasMSR then stop AssertFailed
      else
        seq (\<lambda>s. bnd (lift_result (gdt_setup (sym_gdt ks) (sym_tss ks) (hal_memory s))) (\<lambda>m. modify (\<lambda>s. s\<lparr>hal_memory := m\<rparr>)) s) (
        seq (modify (\<lambda>s. s\<lparr>hal_memory := k_gdt_install (sym_gdt ks) (sym_gp ks) (hal_memory s)\<rparr>)) (
        seq (modify (\<lambda>s. s\<lparr>hal_memory := idt_install (sym_idt ks) (sym_ip ks) (idt_setup (sym_idt ks) (sym_stub ks) (hal_memory s))\<rparr>)) (
        if info = 0 then stop PanicNoKernelInfo
        else
          seq (early_kmalloc ks 16) (
          seq (\<lambda>s. bnd (lift_result (new_x86BootEnvironment (sym_placement ks) info (hal_memory s) (placement_address (paging (hal_vm s))))) (\<lambda>(env, m, a).
                modify (\<lambda>s. s\<lparr>bootenv := env, hal_memory := m, hal_vm := (hal_vm s)\<lparr>paging := (paging (hal_vm s))\<lparr>placement_address := a\<rparr>\<rparr>\<rparr>)) s) (
          seq (early_kmalloc ks 12) (
          seq (early_kmalloc ks 8) (
          seq (\<lambda>s. early_kmalloc ks (nFrames (new_frame_allocator (ucast (GetInstalledMemory (bootenv s)))) div 4 + 4) s) (
          seq (\<lambda>s. case create_frame_allocator (hal_memory s) (bootenv s) of None \<Rightarrow> None
                | Some r \<Rightarrow> bnd (lift_result r) (\<lambda>fa. modify (\<lambda>s. s\<lparr>hal_vm := (hal_vm s)\<lparr>phys_frames := fa\<rparr>\<rparr>)) s) (
          seq (early_kmalloc ks 1024) (
          seq (modify (\<lambda>s. s\<lparr>interruptDispatcher := new_dispatcher\<rparr>)) (
          bnd (early_kmalloc ks 20) (\<lambda>pageFaultHandler.
          seq (\<lambda>s. bnd (lift_result (RegisterInterruptVector 14 pageFaultHandler (interruptDispatcher s))) (\<lambda>(_, d). modify (\<lambda>s. s\<lparr>interruptDispatcher := d\<rparr>)) s) (
          seq (early_kmalloc ks 16) (
          \<lambda>s. bnd (lift_result (paging_Init (sym_placement ks) loader (paging (hal_vm s)))) (\<lambda>p.
            modify (\<lambda>s. s\<lparr>hal_vm := (hal_vm s)\<lparr>paging := p\<rparr>\<rparr>)) s)))))))))))))))"

definition x86HAL_InitializationDone :: "kernel_symbols \<Rightarrow> (x86HAL, unit) prog" where
  "x86HAL_InitializationDone ks s =
     bnd (lift_result (paging_InitDone (sym_placement ks) (paging (hal_vm s)))) (\<lambda>p.
     modify (\<lambda>s. s\<lparr>hal_vm := (hal_vm s)\<lparr>paging := p, hal_ready := True\<rparr>\<rparr>)) s"

text \<open>\<open>kmain\<close> up to the creation of the slab allocator.\<close>

definition kmain_memory :: "kernel_symbols \<Rightarrow> bool \<Rightarrow> u32 \<Rightarrow> (nat \<Rightarrow> u32) \<Rightarrow> (x86HAL, unit) prog" where
  "kmain_memory ks CPUhasMSR info loader =
     seq (x86HAL_Initialize ks CPUhasMSR info loader) (
     seq (early_kmalloc ks 16) (
     seq (modify (\<lambda>s. s\<lparr>hal_io := VirtualMemoryManager_Init (io_regions (hal_io s))\<rparr>)) (
     bnd (early_kmalloc ks 28) (\<lambda>space.
     seq (modify (\<lambda>s. s\<lparr>hal_vm := (hal_vm s)\<lparr>spaces := (spaces (hal_vm s))(space := new_memory_space ''KernelSpace'' (kernel_directory (paging (hal_vm s))))\<rparr>, kernelSpace := space\<rparr>)) (
     seq (\<lambda>s. bnd (lift_result (SetCurrentMemorySpace space (hal_vm s))) (\<lambda>v. modify (\<lambda>s. s\<lparr>hal_vm := v\<rparr>)) s) (
     x86HAL_InitializationDone ks))))))"

section \<open>The number of frames\<close>

text \<open>The loader hands over the memory boundary in bytes; the frame allocator takes it for a number of kilobytes, computed in 32 bits.\<close>

lemma frames_from_boundary:
  "unat (nFrames (new_frame_allocator (ucast (of_nat (4096 * P) :: u64)))) = 1024 * (P mod 1024)"
  "frames_ok (new_frame_allocator k)" "used (new_frame_allocator k) = {}"
proof -
  have "(ucast (of_nat (4096 * P) :: u64) :: u32) = of_nat (4096 * P)"
    by (simp add: unsigned_of_nat word_of_nat_eq_iff del: of_nat_mult)
  then have n: "nFrames (new_frame_allocator (ucast (of_nat (4096 * P) :: u64))) = of_nat (4194304 * P) div KERNEL_PAGE_SIZE"
    by (simp add: new_frame_allocator_def Let_def)
  have "unat (of_nat (4194304 * P) :: u32) = 4194304 * (P mod 1024)"
    using mult_mod_right [of 4194304 P 1024] by (simp add: unat_of_nat take_bit_eq_mod del: of_nat_mult)
  then show "unat (nFrames (new_frame_allocator (ucast (of_nat (4096 * P) :: u64)))) = 1024 * (P mod 1024)"
    unfolding n by (simp add: unat_div KERNEL_PAGE_SIZE_def)
  have small: "unat (k * 1024 div KERNEL_PAGE_SIZE) \<le> 1048576"
  proof -
    have "unat (k * 1024) < 4294967296" by (rule unat_bound32)
    then have "unat (k * 1024) div 4096 \<le> 4294967295 div 4096" by (intro div_le_mono) linarith
    then show ?thesis by (simp add: unat_div KERNEL_PAGE_SIZE_def)
  qed
  then show "frames_ok (new_frame_allocator k)"
    by (simp add: new_frame_allocator_def Let_def frames_ok_def new_Bitfield_def bitfield_ok_def)
  show "used (new_frame_allocator k) = {}"
  proof -
    have "i div 32 < (unat (k * 1024 div KERNEL_PAGE_SIZE) div 4 + 4) div 4" if "i < unat (k * 1024 div KERNEL_PAGE_SIZE)" for i
      using that by linarith
    then show ?thesis by (auto simp: used_def set_bits_def new_frame_allocator_def Let_def new_Bitfield_def has_bit_def)
  qed
qed

section \<open>Marking the descriptors\<close>

lemma MarkAsUsed_nFrames: "MarkAsUsed a fa = Inr fa' \<Longrightarrow> nFrames fa' = nFrames fa"
  by (auto simp: MarkAsUsed_def rbind_def split: if_splits sum.splits)

lemma ucast_of_nat_64: "a < 4294967296 \<Longrightarrow> (ucast (of_nat a :: u32) :: u64) = of_nat a"
  by (simp add: unsigned_of_nat take_bit_nat_eq_self)

text \<open>Marking the pages of a set: it fails the assertion exactly when the first page behind the frames is among them, ignores the pages behind it.\<close>

definition marks :: "nat set \<Rightarrow> frame_allocator \<Rightarrow> fault + frame_allocator \<Rightarrow> bool" where
  "marks M fa r \<longleftrightarrow>
     (if unat (nFrames fa) \<in> M then r = Inl AssertFailed
      else \<exists>fa'. r = Inr fa' \<and> frames_ok fa' \<and> nFrames fa' = nFrames fa \<and> used fa' = used fa \<union> {p \<in> M. p < unat (nFrames fa)})"

lemma mark_range_marks:
  assumes "frames_ok fa" "a + l \<le> 1048576" "used fa \<inter> {a..} = {}"
  shows "\<exists>r. mark_range (of_nat a) (of_nat (a + l)) fa = Some r \<and> marks {a..<a + l} fa r"
  using assms
proof (induction l arbitrary: a fa)
  case 0
  have "(ucast (of_nat a :: u32) :: u64) = of_nat a" using 0(2) by (intro ucast_of_nat_64) simp
  then show ?case using 0 by (subst mark_range.simps) (auto simp: marks_def)
next
  case (Suc l)
  let ?N = "unat (nFrames fa)"
  have a: "unat (of_nat a :: u32) = a" using Suc.prems(2) by (intro unat_of_nat32) simp
  have u: "(ucast (of_nat a :: u32) :: u64) = of_nat a" using Suc.prems(2) by (intro ucast_of_nat_64) simp
  have lt: "(of_nat a :: u64) < of_nat (a + Suc l)"
    using Suc.prems(2) by (simp add: word_less_nat_alt unat_of_nat64 del: of_nat_add of_nat_Suc)
  have pg: "unat ((of_nat a :: u32) * KERNEL_PAGE_SIZE) div 4096 = a"
    using frame_address [of "of_nat a"] a Suc.prems(2) by simp
  note step = mark_frame_bounds [OF Suc.prems(1) pg [symmetric]]
  have nxt: "(of_nat a :: u32) + 1 = of_nat (Suc a)" "a + Suc l = Suc a + l" by simp_all
  have rec: "mark_range (of_nat a) (of_nat (a + Suc l)) fa = (case MarkAsUsed (of_nat a * KERNEL_PAGE_SIZE) fa of Inl e \<Rightarrow> Some (Inl e)
      | Inr fa \<Rightarrow> mark_range (of_nat (Suc a)) (of_nat (Suc a + l)) fa)"
    using lt unfolding nxt(2) by (subst mark_range.simps) (simp only: u nxt(1) if_True)
  have set: "{a..<a + Suc l} = insert a {Suc a..<Suc a + l}" by auto
  show ?case
  proof (cases "a = ?N")
    case True
    then show ?thesis using step unfolding rec by (simp add: marks_def)
  next
    case False
    obtain fa1 where fa1: "MarkAsUsed (of_nat a * KERNEL_PAGE_SIZE) fa = Inr fa1" "frames_ok fa1" "nFrames fa1 = nFrames fa"
      "used fa1 = used fa \<union> {p \<in> {a}. p < ?N}"
    proof (cases "a < ?N")
      case True
      have "a \<notin> used fa" using Suc.prems(3) by auto
      then obtain fa1 where "MarkAsUsed (of_nat a * KERNEL_PAGE_SIZE) fa = Inr fa1" "frames_ok fa1" "used fa1 = insert a (used fa)"
        using step True by auto
      then show ?thesis using that True MarkAsUsed_nFrames by auto
    next
      case False
      then show ?thesis using that step Suc.prems(1) \<open>a \<noteq> ?N\<close> by auto
    qed
    have "used fa1 \<inter> {Suc a..} = {}" using fa1(4) Suc.prems(3) by auto
    then obtain r where r: "mark_range (of_nat (Suc a)) (of_nat (Suc a + l)) fa1 = Some r" "marks {Suc a..<Suc a + l} fa1 r"
      using Suc.IH [OF fa1(2), of "Suc a"] Suc.prems(2) by auto
    have "marks {a..<a + Suc l} fa r"
      using r(2) False unfolding marks_def set fa1(3,4) by auto
    then show ?thesis unfolding rec using fa1(1) r(1) by simp
  qed
qed

lemma marks_Un:
  "marks A fa r \<Longrightarrow> (\<And>fa1. r = Inr fa1 \<Longrightarrow> marks B fa1 (f fa1)) \<Longrightarrow> marks (A \<union> B) fa (case r of Inl e \<Rightarrow> Inl e | Inr fa1 \<Rightarrow> f fa1)"
  unfolding marks_def by (auto split: if_splits)

lemma marks_empty: "frames_ok fa \<Longrightarrow> marks {} fa (Inr fa)"
  by (simp add: marks_def)

text \<open>Runs of pages one behind the other, and the pages of them that are marked.\<close>

primrec runs_ok :: "nat \<Rightarrow> (nat \<times> nat \<times> u32) list \<Rightarrow> bool" where
  "runs_ok start [] \<longleftrightarrow> True"
| "runs_ok start (r # rs) \<longleftrightarrow> (case r of (a, l, t) \<Rightarrow> start \<le> a \<and> a + l \<le> 1048576 \<and> runs_ok (a + l) rs)"

definition marked_pages :: "(nat \<times> nat \<times> u32) list \<Rightarrow> nat set" where
  "marked_pages rs = {p. \<exists>(a, l, t) \<in> set rs. marked_type t \<and> a \<le> p \<and> p < a + l}"

lemma marked_pages_simps [simp]:
  "marked_pages [] = {}"
  "marked_pages ((a, l, t) # rs) = (if marked_type t then {a..<a + l} else {}) \<union> marked_pages rs"
  by (auto simp: marked_pages_def)

lemma runs_ok_mono: "runs_ok start rs \<Longrightarrow> start' \<le> start \<Longrightarrow> runs_ok start' rs"
  by (cases rs) auto

lemma runs_ok_filter: "runs_ok start rs \<Longrightarrow> runs_ok start (filter P rs)"
proof (induction rs arbitrary: start)
  case (Cons r rs)
  obtain a l t where r: "r = (a, l, t)" by (cases r)
  have "runs_ok (a + l) (filter P rs)" "start \<le> a + l" using Cons by (simp_all add: r)
  then show ?case using Cons.prems runs_ok_mono by (auto simp: r)
qed simp

lemma page_runs_ok: "start + len + length xs \<le> 1048576 \<Longrightarrow> runs_ok start (page_runs start len t xs)"
proof (induction xs arbitrary: start len t)
  case (Cons x xs)
  then show ?case using Cons.IH [of start "len + 1" t] Cons.IH [of "start + len" 1 x] by auto
qed simp

lemma mark_descriptors_marks:
  assumes "map (descriptor m b) [i..<i + length rs] = map (\<lambda>(a, l, t). (of_nat a, of_nat l, t)) rs"
    "runs_ok start rs" "frames_ok fa" "used fa \<inter> {start..} = {}"
  shows "\<exists>r. mark_descriptors (length rs) m (block_descriptor b (of_nat i)) fa = Some r \<and> marks (marked_pages rs) fa r"
  using assms
proof (induction rs arbitrary: i start fa)
  case Nil
  then show ?case by (simp add: marks_empty)
next
  case (Cons x rs)
  obtain a l t where x: "x = (a, l, t)" by (cases x)
  have up: "[i..<i + length (x # rs)] = i # [Suc i..<Suc i + length rs]" by (subst upt_conv_Cons) simp_all
  let ?d = "block_descriptor b (of_nat i)"
  have d: "load64 m ?d = of_nat a" "load64 m (?d + 8) = of_nat l" "load32 m (?d + 16) = t"
    and rest: "map (descriptor m b) [Suc i..<Suc i + length rs] = map (\<lambda>(a, l, t). (of_nat a, of_nat l, t)) rs"
  proof -
    have "descriptor m b i # map (descriptor m b) [Suc i..<Suc i + length rs] = (of_nat a, of_nat l, t) # map (\<lambda>(a, l, t). (of_nat a, of_nat l, t)) rs"
      using Cons.prems(1) unfolding up by (simp only: list.map x prod.case)
    then show "load64 m ?d = of_nat a" "load64 m (?d + 8) = of_nat l" "load32 m (?d + 16) = t"
      "map (descriptor m b) [Suc i..<Suc i + length rs] = map (\<lambda>(a, l, t). (of_nat a, of_nat l, t)) rs"
      unfolding list.inject by (simp_all add: descriptor_def Let_def)
  qed
  have al: "start \<le> a" "a + l \<le> 1048576" "runs_ok (a + l) rs" using Cons.prems(2) unfolding x by simp_all
  have free: "used fa \<inter> {a..} = {}" using Cons.prems(4) al(1) by auto
  let ?A = "if marked_type t then {a..<a + l} else {}"
  obtain r where r: "mark_descriptor m ?d fa = Some r" "marks ?A fa r"
  proof (cases "marked_type t")
    case True
    have "(ucast (of_nat a :: u64) :: u32) = of_nat a" by (simp add: unsigned_of_nat word_of_nat_eq_iff)
    then show ?thesis using that mark_range_marks [OF Cons.prems(3) al(2) free] True by (auto simp: mark_descriptor_def d)
  next
    case False
    then show ?thesis using that marks_empty [OF Cons.prems(3)] by (simp add: mark_descriptor_def d)
  qed
  have nxt: "?d + sizeof_MEMORY_DESCRIPTOR = block_descriptor b (of_nat (Suc i))"
    by (simp add: block_descriptor_def sizeof_MEMORY_DESCRIPTOR_def algebra_simps)
  show ?case
  proof (cases r)
    case (Inl e)
    then show ?thesis using r marks_Un [OF r(2), of "marked_pages rs" Inr] unfolding x by auto
  next
    case (Inr fa1)
    have fa1: "frames_ok fa1" "used fa1 \<inter> {a + l..} = {}"
      using r(2) free Inr unfolding marks_def by (auto split: if_splits)
    obtain r' where r': "mark_descriptors (length rs) m (block_descriptor b (of_nat (Suc i))) fa1 = Some r'" "marks (marked_pages rs) fa1 r'"
      using Cons.IH [OF rest al(3) fa1] by blast
    have "marks (?A \<union> marked_pages rs) fa r'"
      using marks_Un [OF r(2), of "marked_pages rs" "\<lambda>_. r'"] r'(2) Inr by simp
    moreover have "mark_descriptors (length (x # rs)) m ?d fa = Some r'"
      using r(1) r'(1) Inr unfolding mark_descriptors.simps list.size nxt by (simp add: nxt)
    ultimately show ?thesis unfolding x by simp
  qed
qed

section \<open>The copy of the loader block\<close>

definition same_bytes :: "mem \<Rightarrow> u32 \<Rightarrow> mem \<Rightarrow> u32 \<Rightarrow> nat \<Rightarrow> bool" where
  "same_bytes m a m' b n \<longleftrightarrow> (\<forall>i<n. m (a + of_nat i) = m' (b + of_nat i))"

lemma load_cong_at:
  assumes "same_bytes m a m' b n"
  shows "k + 2 \<le> n \<Longrightarrow> load16 m (a + of_nat k) = load16 m' (b + of_nat k)"
    "k + 4 \<le> n \<Longrightarrow> load32 m (a + of_nat k) = load32 m' (b + of_nat k)"
    "k + 8 \<le> n \<Longrightarrow> load64 m (a + of_nat k) = load64 m' (b + of_nat k)"
proof -
  have at: "m (a + of_nat k + of_nat j) = m' (b + of_nat k + of_nat j)" if "k + j < n" for k j
    using assms that unfolding same_bytes_def by (simp add: add.assoc flip: of_nat_add)
  show "k + 2 \<le> n \<Longrightarrow> load16 m (a + of_nat k) = load16 m' (b + of_nat k)"
    using at [of k 0] at [of k 1] by (simp add: load16_def)
  show "k + 4 \<le> n \<Longrightarrow> load32 m (a + of_nat k) = load32 m' (b + of_nat k)"
    using at [of k 0] at [of k 1] at [of k 2] at [of k 3] by (simp add: load32_def)
  show "k + 8 \<le> n \<Longrightarrow> load64 m (a + of_nat k) = load64 m' (b + of_nat k)"
    using at [of k 0] at [of k 1] at [of k 2] at [of k 3] at [of k 4] at [of k 5] at [of k 6] at [of k 7] by (simp add: load64_def load32_def add.assoc)
qed

lemma block_copy:
  assumes "same_bytes m a m' b 2716"
  shows "descriptor_count m a = descriptor_count m' b" "i < 32 \<Longrightarrow> descriptor m a i = descriptor m' b i"
    "load64 m (block_UpperMemoryBoundary a) = load64 m' (block_UpperMemoryBoundary b)"
proof -
  note c = load_cong_at [OF assms]
  show "descriptor_count m a = descriptor_count m' b" using c(1) [of 2056] by (simp add: descriptor_count_def block_MemoryDescriptorCount_def)
  show "load64 m (block_UpperMemoryBoundary a) = load64 m' (block_UpperMemoryBoundary b)" using c(3) [of 2708] by (simp add: block_UpperMemoryBoundary_def)
  assume i: "i < 32"
  have o: "block_descriptor x (of_nat i) = x + of_nat (2060 + 20 * i)" "x + of_nat (2060 + 20 * i) + 8 = x + of_nat (2068 + 20 * i)"
    "x + of_nat (2060 + 20 * i) + 16 = x + of_nat (2076 + 20 * i)" for x
    by (simp_all add: block_descriptor_def)
  show "descriptor m a i = descriptor m' b i"
    unfolding descriptor_def Let_def o prod.inject by (intro conjI c) (use i in simp_all)
qed

section \<open>From the loader to the kernel\<close>

text \<open>The loader's types of the pages whose frames the kernel marks: it reads the number in its own enumeration, which has no \<open>Unusable\<close>.\<close>

definition frame_kept :: "MemoryType \<Rightarrow> bool" where
  "frame_kept t \<longleftrightarrow> t \<in> {MemoryTypeBad, MemoryTypeUnusable, MemoryTypeGeexOSPageDirectory, MemoryTypeGeexOSKernelEnvironmentInformation,
     MemoryTypeGeexOSKernelExecutable, MemoryTypeGeexOSKernelStack}"

lemma frame_kept_iff: "reported_type t \<and> marked_type t \<longleftrightarrow> frame_kept t"
  unfolding reported_type_def marked_type_def frame_kept_def image_insert image_empty type_number.simps insert_iff empty_iff
  by (elim disjE conjE | intro iffI | simp)+

lemma marked_pages_reported:
  assumes "0 < n" "rs = page_runs 0 0 (T 0) (map T [0..<n - 1])"
  shows "marked_pages (filter (\<lambda>(a, l, t). reported_type t) rs) = {p. p + 1 < n \<and> frame_kept (T p)}"
proof -
  have "p \<in> marked_pages (filter (\<lambda>(a, l, t). reported_type t) rs) \<longleftrightarrow> (\<exists>t. frame_kept t \<and> (\<exists>(a, l, ty) \<in> set rs. a \<le> p \<and> p < a + l \<and> ty = t))" for p
  proof -
    have "p \<in> marked_pages (filter (\<lambda>(a, l, t). reported_type t) rs) \<longleftrightarrow> (\<exists>(a, l, t) \<in> set rs. frame_kept t \<and> a \<le> p \<and> p < a + l)"
      by (simp only: marked_pages_def mem_Collect_eq set_filter frame_kept_iff [symmetric]) (simp add: Bex_def case_prod_beta conj_ac)
    then show ?thesis by (auto simp: Bex_def)
  qed
  moreover have "(\<exists>(a, l, ty) \<in> set rs. a \<le> p \<and> p < a + l \<and> ty = t) \<longleftrightarrow> p + 1 < n \<and> T p = t" for p t
    unfolding assms(2) page_runs_cover using assms(1) by auto
  ultimately show ?thesis by (intro set_eqI) (simp add: conj_commute)
qed

text \<open>C1. What the kernel makes of the loader block: it takes the memory boundary, in bytes, for kilobytes and computes in 32 bits, so it manages 1024 times the
  number of pages modulo 1024 as frames, and it reads the types of the descriptors in an enumeration that is shifted by one: of the pages the loader
  reported exactly the bad and unusable ones, the page directory, the environment information, the kernel and its stack are marked as used; the pages
  of the firmware, of special memory and of the loaded libraries stay free. It fails an assertion exactly when the first page behind the frames is one
  of them.\<close>

theorem kernel_marks_handed_over_pages:
  assumes "pageLookupTable s \<noteq> 0" "n = unat (ucast (highestPhysicalPage s - lowestPhysicalPage s) :: u32)" "0 < n" "n \<le> 1048576"
    and "sep b 2716 (pageLookupTable s) (12 * n)" "descriptor_count (ram s) b = 0"
    and loaded: "loader_buildPhysicalMemoryMap b s = Some (Inr (u, s'))"
    and handed: "same_bytes m info (store64 (ram s') (block_UpperMemoryBoundary b) ((highestPhysicalPage s + 1) * ucast arch_pagesize)) b 2716"
    and env: "new_x86BootEnvironment placement info m pos = Inr (env, m', pos')" "sep (kernelInformation env) 2716 info 2716"
  defines "N \<equiv> 1024 * (unat (highestPhysicalPage s + 1) mod 1024)" and "T \<equiv> page_types (ram s) (pageLookupTable s)"
  shows "\<exists>r. create_frame_allocator m' env = Some r \<and>
    (if N + 1 < n \<and> frame_kept (T N) then r = Inl AssertFailed
     else \<exists>fa. r = Inr fa \<and> frames_ok fa \<and> unat (nFrames fa) = N \<and> used fa = {p. p < N \<and> p + 1 < n \<and> frame_kept (T p)})"
proof -
  let ?p = "kernelInformation env" and ?m = "store64 (ram s') (block_UpperMemoryBoundary b) ((highestPhysicalPage s + 1) * ucast arch_pagesize)"
  define rs where "rs = page_runs 0 0 (T 0) (map T [0..<n - 1])"
  define ds where "ds = filter (\<lambda>(a, l, t). reported_type t) rs"
  have ds: "descriptors (ram s') b = map (\<lambda>(a, l, t). (of_nat a, of_nat l, t)) ds" "length ds \<le> 32"
    using memory_map_runs [OF assms(1-3,5,6) rs_def [unfolded T_def]] loaded by (auto simp: ds_def reported_runs_def)
  have m': "m' = k_memcpy m ?p info 2716" "load32 m info = 2716" "env_memory env = load64 m' (block_UpperMemoryBoundary ?p)"
    using env(1) by (auto simp: new_x86BootEnvironment_def sizeof_KernelInformation_def Let_def rbind_def split: if_splits sum.splits)
  have "load_bytes m' ?p 2716 = load_bytes m info 2716"
    unfolding m'(1) k_memcpy_def using memcpy_loop_value [OF _ fwd_ok_sep [OF env(2)]] by simp
  then have "same_bytes m' ?p m info 2716" by (auto simp: same_bytes_def load_bytes_def)
  then have copy: "same_bytes m' ?p ?m b 2716" using handed by (simp add: same_bytes_def)
  have keep: "descriptor_count ?m b = descriptor_count (ram s') b" "\<And>i. i < 32 \<Longrightarrow> descriptor ?m b i = descriptor (ram s') b i"
  proof -
    have up: "block_UpperMemoryBoundary b = b + of_nat 2708" by (simp add: block_UpperMemoryBoundary_def)
    show "descriptor_count ?m b = descriptor_count (ram s') b"
      unfolding descriptor_count_def block_offsets up
      by (intro load16_cong [symmetric] store64_frame sep_offsets) simp_all
    show "descriptor ?m b i = descriptor (ram s') b i" if "i < 32" for i
      unfolding up by (intro descriptor_cong store64_frame) (unfold block_offsets, intro sep_offsets, use that in simp_all)
  qed
  have count: "unat (descriptor_count m' ?p) = length ds"
    using block_copy(1) [OF copy] keep(1) arg_cong [OF ds(1), of length] by (simp add: descriptors_def)
  have list: "map (descriptor m' ?p) [0..<0 + length ds] = map (\<lambda>(a, l, t). (of_nat a, of_nat l, t)) ds"
  proof -
    have "map (descriptor m' ?p) [0..<length ds] = map (descriptor (ram s') b) [0..<length ds]"
      using block_copy(2) [OF copy] keep(2) ds(2) by simp
    also have "\<dots> = descriptors (ram s') b" using count block_copy(1) [OF copy] keep(1) by (simp add: descriptors_def)
    finally show ?thesis using ds(1) by simp
  qed
  define P where "P = unat (highestPhysicalPage s + 1)"
  have "env_memory env = (highestPhysicalPage s + 1) * ucast arch_pagesize"
    unfolding m'(3) block_copy(3) [OF copy] by (simp add: load_store_simps)
  then have mem: "GetInstalledMemory env = of_nat (4096 * P)"
    by (simp add: GetInstalledMemory_def arch_pagesize_def P_def mult.commute)
  let ?fa = "new_frame_allocator (ucast (GetInstalledMemory env))"
  have N: "unat (nFrames ?fa) = N" unfolding mem frames_from_boundary by (simp add: N_def P_def)
  have runs: "runs_ok 0 ds" unfolding ds_def rs_def using assms(4) by (intro runs_ok_filter page_runs_ok) simp
  have M: "marked_pages ds = {p. p + 1 < n \<and> frame_kept (T p)}"
    unfolding ds_def by (rule marked_pages_reported [OF assms(3) rs_def])
  obtain r where r: "mark_descriptors (length ds) m' (block_descriptor ?p (of_nat 0)) ?fa = Some r" "marks (marked_pages ds) ?fa r"
    using mark_descriptors_marks [OF list runs frames_from_boundary(2)] frames_from_boundary(3) by blast
  have "create_frame_allocator m' env = Some r"
    using r(1) count unat_ucast_16_32 [of "descriptor_count m' ?p"] by (simp add: create_frame_allocator_def GetMemoryRegions_def)
  moreover have "if N + 1 < n \<and> frame_kept (T N) then r = Inl AssertFailed
     else \<exists>fa. r = Inr fa \<and> frames_ok fa \<and> unat (nFrames fa) = N \<and> used fa = {p. p < N \<and> p + 1 < n \<and> frame_kept (T p)}"
    using r(2) N unfolding marks_def M frames_from_boundary(3) by (auto split: if_splits)
  ultimately show ?thesis by blast
qed


text \<open>Four pages: the kernel, a library, a free page and the last one, which is in no descriptor.\<close>

definition loaded_pages :: executables where
  "loaded_pages = special_pages\<lparr>ram := empty_ram(0x100000 := ucast MemoryTypeGeexOSKernelExecutable, 0x10000C := ucast MemoryTypeGeexOSKernelLibrary,
     0x200000 := 0x9C, 0x200001 := 0x0A), highestPhysicalPage := 3\<rparr>"

lemma loaded_pages_map:
  "\<exists>s'. loader_buildPhysicalMemoryMap 0x200000 loaded_pages = Some (Inr ((), s')) \<and> load32 (ram s') 0x200000 = 2716"
proof -
  let ?T = "page_types (ram loaded_pages) (pageLookupTable loaded_pages)"
  have T: "?T 0 = 13" "?T 1 = 15" by (simp_all add: page_types_def loaded_pages_def special_pages_def load32_def empty_ram_def)
  define rs where "rs = page_runs 0 0 (?T 0) (map ?T [0..<3 - 1])"
  have runs: "length (reported_runs rs) = 2"
    using T by (simp add: rs_def upt_rec reported_type_def)
  have pre: "pageLookupTable loaded_pages \<noteq> 0" "3 = unat (ucast (highestPhysicalPage loaded_pages - lowestPhysicalPage loaded_pages) :: u32)"
    "sep 0x200000 2716 (pageLookupTable loaded_pages) (12 * 3)" "descriptor_count (ram loaded_pages) 0x200000 = 0"
    by (simp_all add: loaded_pages_def special_pages_def descriptor_count_def block_MemoryDescriptorCount_def load16_def empty_ram_def sep_above)
  obtain s' where s': "loader_buildPhysicalMemoryMap 0x200000 loaded_pages = Some (Inr ((), s'))"
    using memory_map_runs [OF pre(1,2) _ pre(3,4) rs_def] runs
    by (cases "loader_buildPhysicalMemoryMap 0x200000 loaded_pages") (auto split: sum.splits)
  then obtain m where m: "build_map_loop 3 0x100000 3 0x200000 0 0 0 (load32 (ram loaded_pages) 0x100000) (ram loaded_pages) = Inr m" "ram s' = m"
    unfolding loader_buildPhysicalMemoryMap_def Let_def
    by (auto simp: loaded_pages_def special_pages_def stop_def simp del: build_map_loop.simps split: sum.splits)
  have "agree (ram loaded_pages) m 0x200000 4"
    by (rule build_map_frame [OF m(1)]) (intro sep_above, simp_all)
  then have "load32 m 0x200000 = load32 (ram loaded_pages) 0x200000" by (rule load32_cong [symmetric])
  also have "\<dots> = 2716" by (simp add: loaded_pages_def load32_def empty_ram_def)
  finally show ?thesis using s' m(2) by blast
qed

text \<open>What the loader leaves at 0x200000 is what the kernel finds at 0xE0004000.\<close>

definition handed_memory :: "executables \<Rightarrow> mem" where
  "handed_memory s' = (\<lambda>x. store64 (ram s') (block_UpperMemoryBoundary 0x200000) (4 * ucast arch_pagesize) (x - 0xE0004000 + 0x200000))"

theorem kernel_marks_handed_over_pages_witness:
  "\<exists>s' env m' pos' fa. loader_buildPhysicalMemoryMap 0x200000 loaded_pages = Some (Inr ((), s')) \<and>
    new_x86BootEnvironment 0xC0200000 0xE0004000 (handed_memory s') 0xC0200000 = Inr (env, m', pos') \<and>
    create_frame_allocator m' env = Some (Inr fa) \<and> unat (nFrames fa) = 4096 \<and> used fa = {0}"
proof -
  obtain s' where s': "loader_buildPhysicalMemoryMap 0x200000 loaded_pages = Some (Inr ((), s'))" "load32 (ram s') 0x200000 = 2716"
    using loaded_pages_map by blast
  let ?m = "handed_memory s'" and ?ld = "store64 (ram s') (block_UpperMemoryBoundary 0x200000) ((highestPhysicalPage loaded_pages + 1) * ucast arch_pagesize)"
  have same: "same_bytes ?m 0xE0004000 ?ld 0x200000 2716"
  proof -
    have h: "highestPhysicalPage loaded_pages + 1 = 4" by (simp add: loaded_pages_def)
    have "?m (0xE0004000 + y) = ?ld (0x200000 + y)" for y
    proof -
      have "0xE0004000 + y - 0xE0004000 + 0x200000 = 0x200000 + y" by (simp add: add.commute)
      then show ?thesis unfolding handed_memory_def h by (rule arg_cong)
    qed
    then show ?thesis unfolding same_bytes_def by blast
  qed
  have "load32 ?m 0xE0004000 = load32 ?ld 0x200000" using load_cong_at(2) [OF same, of 0] by simp
  also have "\<dots> = load32 (ram s') 0x200000"
    by (intro load32_cong [symmetric] store64_frame sep_above) (simp_all add: block_UpperMemoryBoundary_def)
  finally have sz: "load32 ?m 0xE0004000 = 2716" using s'(2) by simp
  obtain env m' pos' where env: "new_x86BootEnvironment 0xC0200000 0xE0004000 ?m 0xC0200000 = Inr (env, m', pos')" "kernelInformation env = 0xC0200000"
    by (simp add: new_x86BootEnvironment_def sz sizeof_KernelInformation_def placement_Allocate_def KERNEL_PLACEMENT_SIZE_def GetPlacementAllocatedSize_def Let_def)
  have pre: "pageLookupTable loaded_pages \<noteq> 0" "3 = unat (ucast (highestPhysicalPage loaded_pages - lowestPhysicalPage loaded_pages) :: u32)"
    "sep 0x200000 2716 (pageLookupTable loaded_pages) (12 * 3)" "descriptor_count (ram loaded_pages) 0x200000 = 0"
    by (simp_all add: loaded_pages_def special_pages_def descriptor_count_def block_MemoryDescriptorCount_def load16_def empty_ram_def sep_above)
  have apart: "sep (kernelInformation env) 2716 0xE0004000 2716" unfolding env(2) by (intro sep_below) simp_all
  have N: "1024 * (unat (highestPhysicalPage loaded_pages + 1) mod 1024) = 4096" by (simp add: loaded_pages_def)
  have T: "page_types (ram loaded_pages) (pageLookupTable loaded_pages) 0 = 13" "page_types (ram loaded_pages) (pageLookupTable loaded_pages) 1 = 15"
    by (simp_all add: page_types_def loaded_pages_def special_pages_def load32_def empty_ram_def)
  have in_use: "{p. p < 4096 \<and> p + 1 < 3 \<and> frame_kept (page_types (ram loaded_pages) (pageLookupTable loaded_pages) p)} = {0}"
  proof -
    have "{p. p < 4096 \<and> p + 1 < 3 \<and> frame_kept (Q p)} = {p. (p = 0 \<or> p = 1) \<and> frame_kept (Q p)}" for Q :: "nat \<Rightarrow> u32"
      by (intro Collect_cong) auto
    moreover have "{p. (p = (0 :: nat) \<or> p = 1) \<and> frame_kept (Q p)} = {0}" if "frame_kept (Q 0)" "\<not> frame_kept (Q 1)" for Q using that by blast
    moreover have "frame_kept 13" "\<not> frame_kept 15" by (simp_all add: frame_kept_def)
    ultimately show ?thesis using T by (simp only: refl) simp
  qed
  have n3: "0 < (3 :: nat)" "(3 :: nat) \<le> 1048576" by simp_all
  note main = kernel_marks_handed_over_pages [OF pre(1,2) n3 pre(3,4) s'(1) same env(1) apart, unfolded N]
  have no: "\<not> (4096 + 1 < (3 :: nat) \<and> X)" for X by simp
  from main [unfolded if_not_P [OF no] in_use] obtain fa
    where "create_frame_allocator m' env = Some (Inr fa)" "unat (nFrames fa) = 4096" "used fa = {0}"
    by (elim exE conjE) (simp only:)
  then show ?thesis using s'(1) env(1) by (intro exI conjI)
qed

section \<open>Searching the descriptors\<close>

lemma region_loop_finds:
  "region_loop n m (block_descriptor b (of_nat i)) type =
    (case find (\<lambda>j. snd (snd (descriptor m b j)) = type) [i..<i + n] of None \<Rightarrow> 0 | Some j \<Rightarrow> block_descriptor b (of_nat j))"
proof (induction n arbitrary: i)
  case (Suc n)
  have up: "[i..<i + Suc n] = i # [Suc i..<Suc i + n]" by (subst upt_conv_Cons) simp_all
  have nextd: "block_descriptor b (of_nat i) + sizeof_MEMORY_DESCRIPTOR = block_descriptor b (of_nat (Suc i))"
    by (simp add: block_descriptor_def sizeof_MEMORY_DESCRIPTOR_def algebra_simps)
  have ty: "load32 m (block_descriptor b (of_nat i) + 16) = snd (snd (descriptor m b i))" by (simp add: descriptor_def Let_def)
  show ?case unfolding up region_loop.simps nextd Suc.IH ty find.simps by simp
qed simp

text \<open>\<open>GetMemoryRegionByType\<close> finds the first descriptor of a type and, from any descriptor but the first, the next one; the first descriptor itself fails the
  assertion, which asks for an address above that of the table.\<close>

lemma region_by_type:
  fixes type :: u32
  assumes count: "unat (descriptor_count m (kernelInformation env)) \<le> 32" and fits: "unat (kernelInformation env) + 2716 \<le> 2 ^ 32"
    and k: "k < unat (descriptor_count m (kernelInformation env))"
  defines "b \<equiv> kernelInformation env"
  defines "nextd \<equiv> \<lambda>i. case find (\<lambda>j. snd (snd (descriptor m b j)) = type) [i..<unat (descriptor_count m b)] of None \<Rightarrow> 0 | Some j \<Rightarrow> block_descriptor b (of_nat j)"
  shows "GetMemoryRegionByType m env 0 type = Inr (nextd 0) \<and>
    GetMemoryRegionByType m env (block_descriptor b (of_nat k)) type = (if k = 0 then Inl AssertFailed else Inr (nextd (Suc k)))"
proof -
  let ?n = "unat (descriptor_count m b)"
  have addr: "unat (block_descriptor b (of_nat j)) = unat b + 2060 + 20 * j" if "j \<le> 32" for j
  proof -
    have "block_descriptor b (of_nat j) = b + of_nat (2060 + 20 * j)" by (simp add: block_descriptor_def)
    moreover have "unat b + (2060 + 20 * j) < 2 ^ 32" using fits that by (simp add: b_def)
    ultimately show ?thesis by (simp add: unat_plus_nat del: of_nat_add)
  qed
  have n: "?n \<le> 32" "k < ?n" using count k by (simp_all add: b_def)
  have lim: "block_descriptor b 0 + ucast (descriptor_count m b) * sizeof_MEMORY_DESCRIPTOR = block_descriptor b (of_nat ?n)"
  proof -
    have "ucast (descriptor_count m b) = (of_nat ?n :: u32)" by simp
    then show ?thesis by (simp only: block_descriptor_def sizeof_MEMORY_DESCRIPTOR_def) simp
  qed
  have first: "GetMemoryRegionByType m env 0 type = Inr (nextd 0)"
    using region_loop_finds [of ?n m b 0 type] by (simp add: GetMemoryRegionByType_def Let_def b_def nextd_def)
  have "GetMemoryRegionByType m env (block_descriptor b (of_nat k)) type = Inr (nextd (Suc k))" if "k \<noteq> 0"
  proof -
    let ?d = "block_descriptor b (of_nat k)"
    have d: "?d \<noteq> 0" "block_descriptor b 0 < ?d" "?d < block_descriptor b (of_nat ?n)"
      using addr [of k] addr [of 0] addr [of ?n] n that by (auto simp: word_less_nat_alt)
    have step: "?d + sizeof_MEMORY_DESCRIPTOR = block_descriptor b (of_nat (Suc k))"
      by (simp add: block_descriptor_def sizeof_MEMORY_DESCRIPTOR_def algebra_simps)
    have diff: "block_descriptor b (of_nat (Suc k)) - block_descriptor b 0 = of_nat (20 * Suc k)"
      by (simp add: block_descriptor_def)
    have idx: "unat (ucast (of_nat (20 * Suc k) div sizeof_MEMORY_DESCRIPTOR :: u32) :: u16) = Suc k"
    proof -
      have "unat (of_nat (20 * Suc k) :: u32) = 20 * Suc k" using n by (intro unat_of_nat32) simp
      then have "unat (of_nat (20 * Suc k) div sizeof_MEMORY_DESCRIPTOR :: u32) = Suc k" by (simp add: unat_div sizeof_MEMORY_DESCRIPTOR_def del: of_nat_mult)
      then show ?thesis using n by (simp add: unsigned_ucast_eq take_bit_nat_eq_self del: of_nat_mult)
    qed
    have "[Suc k..<Suc k + (?n - Suc k)] = [Suc k..<?n]" using n by simp
    then show ?thesis
      using region_loop_finds [of "?n - Suc k" m b "Suc k" type] d
      unfolding GetMemoryRegionByType_def Let_def b_def [symmetric] lim step diff nextd_def by (simp add: idx if_not_P del: of_nat_mult of_nat_Suc mult_Suc_right upt_Suc)
  qed
  moreover have "GetMemoryRegionByType m env (block_descriptor b 0) type = Inl AssertFailed"
  proof -
    have "block_descriptor b 0 \<noteq> 0" using addr [of 0] by auto
    then show ?thesis by (simp add: GetMemoryRegionByType_def Let_def b_def)
  qed
  ultimately show ?thesis using first by simp
qed

end
