(* ===== verification/SizeCaches.thy ===== *)
theory SizeCaches
  imports Slab HashTable KernelString Program
begin

text \<open>
  The allocator of the kernel (SlabAllocator.cpp, LargeCache.cpp, kmalloc and kfree of global.cpp): a cache for every size class, and the caches for
  objects above an eighth of a page, which keep the headers and the free arrays of their slabs outside of them, in smaller objects, and
  find the slab of an object through a hash table. An operation of a large cache allocates and frees objects of other caches; the depth of
  this nesting is an argument, and \<open>None\<close> stands for a deeper nesting. The bytes of the objects are the ones of the region of the
  buddy allocator; a cache is a record at its address, which is gone when the memory is handed out again.
\<close>

section \<open>State\<close>

datatype cache_kind = SmallCache | LargeCache

record cache_object =
  cache_kind :: cache_kind
  cache_name :: "u8 list"
  cache_base :: SlabCache
  hash_table :: hashtable
  hash_storage :: u32

text \<open>
  \<open>cacheSizes\<close> is the static array without its last entry; \<open>hashed_array\<close> is the address of the free array of a slab of a large cache. The
  free arrays themselves are those of the slab heap.
\<close>

record kernel_heap =
  slab_mem :: slab_heap
  cache_objects :: "u32 \<Rightarrow> cache_object option"
  cache_links :: links
  cacheHead :: u32
  cacheList :: dll
  cacheSizes :: "(u32 \<times> u32) list"
  hashed_array :: "u32 \<Rightarrow> u32"
  region_size :: u32
  slab_ready :: bool
  placement_position :: u32

definition SLAB_MAX_NAMELEN :: nat where
  "SLAB_MAX_NAMELEN = 40"

definition SLAB_HWCACHE_ALIGN :: u32 where
  "SLAB_HWCACHE_ALIGN = 0x20"

text \<open>The sizes of the classes on the i386: SmallCache is 24 bytes of lists, 40 of the name, seven words and the table of its virtual functions.\<close>

definition sizeof_SmallCache :: u32 where
  "sizeof_SmallCache = 96"

definition sizeof_LargeCache :: u32 where
  "sizeof_LargeCache = 116"

definition sizeof_HashedSlab :: u32 where
  "sizeof_HashedSlab = 36"

text \<open>The memory of the objects.\<close>

definition object_bytes :: "kernel_heap \<Rightarrow> mem" where
  "object_bytes s = bram (buddies (slab_mem s))"

definition get_cache :: "u32 \<Rightarrow> (kernel_heap, cache_object) prog" where
  "get_cache = deref cache_objects"

definition put_cache :: "u32 \<Rightarrow> cache_object \<Rightarrow> kernel_heap \<Rightarrow> kernel_heap" where
  "put_cache a obj s = s\<lparr>cache_objects := (cache_objects s)(a \<mapsto> obj)\<rparr>"

definition on_cache :: "u32 \<Rightarrow> (SlabCache \<Rightarrow> slab_heap \<Rightarrow> fault + 'a \<times> SlabCache \<times> slab_heap) \<Rightarrow> (kernel_heap, 'a) prog" where
  "on_cache a f =
     bnd (get_cache a) (\<lambda>obj s.
     bnd (lift_result (f (cache_base obj) (slab_mem s))) (\<lambda>(x, c, h).
     seq (modify (\<lambda>s. put_cache a (obj\<lparr>cache_base := c\<rparr>) (s\<lparr>slab_mem := h\<rparr>))) (ret x)) s)"

definition move_slab :: "(u32 \<Rightarrow> SlabCache \<times> slab_heap \<Rightarrow> fault + SlabCache \<times> slab_heap) \<Rightarrow> u32 \<Rightarrow> u32 \<Rightarrow> (kernel_heap, unit) prog" where
  "move_slab f slab a = on_cache a (\<lambda>c h. rbind (f slab (c, h)) (\<lambda>(c, h). Inr ((), c, h)))"

definition on_table :: "u32 \<Rightarrow> (SlabCache \<Rightarrow> slab_heap \<Rightarrow> hashtable \<Rightarrow> (fault + 'a \<times> hashtable) option) \<Rightarrow> (kernel_heap, 'a) prog" where
  "on_table a f =
     bnd (get_cache a) (\<lambda>obj s. case f (cache_base obj) (slab_mem s) (hash_table obj) of None \<Rightarrow> None
       | Some r \<Rightarrow> bnd (lift_result r) (\<lambda>(x, t). seq (modify (put_cache a (obj\<lparr>hash_table := t\<rparr>))) (ret x)) s)"

definition set_storage :: "u32 \<Rightarrow> u32 \<Rightarrow> (kernel_heap, unit) prog" where
  "set_storage a p = bnd (get_cache a) (\<lambda>obj. modify (put_cache a (obj\<lparr>hash_storage := p\<rparr>)))"

definition set_header :: "u32 \<Rightarrow> Slab \<Rightarrow> (kernel_heap, unit) prog" where
  "set_header slab sl = modify (\<lambda>s. s\<lparr>slab_mem := set_slab slab sl (slab_mem s)\<rparr>)"

definition count_object :: "u32 \<Rightarrow> u32 \<Rightarrow> (kernel_heap, unit) prog" where
  "count_object a d = on_cache a (\<lambda>c h. Inr ((), c\<lparr>objectsAllocated := objectsAllocated c + d\<rparr>, h))"

definition free_block :: "u32 \<Rightarrow> u32 \<Rightarrow> (kernel_heap, unit) prog" where
  "free_block start ord s = (case FreeBuddy start ord (buddies (slab_mem s)) of None \<Rightarrow> None
     | Some r \<Rightarrow> bnd (lift_result r) (\<lambda>b. modify (\<lambda>s. s\<lparr>slab_mem := (slab_mem s)\<lparr>buddies := b\<rparr>\<rparr>)) s)"

section \<open>Large caches\<close>

text \<open>The allocation and the release of objects that an operation of a large cache calls.\<close>

type_synonym nested = "(u32 \<Rightarrow> (kernel_heap, u32) prog) \<times> (u32 \<Rightarrow> (kernel_heap, unit) prog)"

definition LowerBoundary :: "u32 \<Rightarrow> u32 \<Rightarrow> u32" where
  "LowerBoundary addr n = addr AND NOT (n - 1)"

definition slab_size :: "SlabCache \<Rightarrow> u32" where
  "slab_size c = push_bit (unat (cache_order c)) (push_bit PAGE_SHIFT 1)"

definition large_HashKey :: "SlabCache \<Rightarrow> u32 \<Rightarrow> u32" where
  "large_HashKey c key = drop_bit PAGE_SHIFT (drop_bit (unat (cache_order c)) (LowerBoundary key (slab_size c)))"

definition large_Hash :: "SlabCache \<Rightarrow> slab_heap \<Rightarrow> u32 \<Rightarrow> u32" where
  "large_Hash c h v = large_HashKey c (objectStart (slabs h v))"

definition large_Compare :: "slab_heap \<Rightarrow> u32 \<Rightarrow> u32 \<Rightarrow> bool" where
  "large_Compare h key v \<longleftrightarrow> objectStart (slabs h v) = key"

definition table_resize_needed :: "u32 \<Rightarrow> (kernel_heap, u32) prog" where
  "table_resize_needed a = bnd (get_cache a) (\<lambda>obj. lift_option (\<lambda>_. ResizeNeeded (hash_table obj)))"

text \<open>The pointer to the old table is set only if there was one.\<close>

definition ResizeHashTableIfNeeded :: "nested \<Rightarrow> u32 \<Rightarrow> (kernel_heap, unit) prog" where
  "ResizeHashTableIfNeeded mem a =
     bnd (table_resize_needed a) (\<lambda>hashSize.
     if hashSize = 0 then ret ()
     else
       bnd (fst mem hashSize) (\<lambda>newBuffer.
       if newBuffer = 0 then ret ()
       else
         bnd (table_resize_needed a) (\<lambda>needed.
         if needed \<noteq> hashSize then ret ()
         else
           bnd (get_cache a) (\<lambda>obj.
           seq (on_table a (\<lambda>c h. hash_Resize (large_Hash c h) hashSize True)) (
           seq (set_storage a newBuffer) (
           if hash_storage obj = 0 then stop OutOfBounds else snd mem (hash_storage obj)))))))"

text \<open>Insert of a table that does not expand: the first table is allocated; when that fails the value is not inserted.\<close>

definition large_Insert :: "nested \<Rightarrow> u32 \<Rightarrow> u32 \<Rightarrow> (kernel_heap, unit) prog" where
  "large_Insert mem a slab =
     bnd (get_cache a) (\<lambda>obj.
     if curTableSize (hash_table obj) = 0 then
       bnd (fst mem (4 * kMinimumSize)) (\<lambda>newStorage.
       if newStorage = 0 then ret ()
       else
         seq (on_table a (\<lambda>c h. hash_Insert (large_Hash c h) False False (\<lambda>_. True) slab)) (set_storage a newStorage))
     else seq (on_table a (\<lambda>c h. hash_Insert (large_Hash c h) False False (\<lambda>_. True) slab)) (ret ()))"

text \<open>LargeCache::Grow. The address of the block is not tested.\<close>

definition large_Grow :: "nested \<Rightarrow> u32 \<Rightarrow> (kernel_heap, u32) prog" where
  "large_Grow mem a =
     bnd (fst mem sizeof_HashedSlab) (\<lambda>slab.
     seq (set_header slab \<lparr>slab_cache = a, objectStart = 0, freeIndex = 0, inUse = 0, magic_valid = SLAB_MAGIC_VALID\<rparr>) (
     bnd (on_cache a (\<lambda>c h. rbind (AllocateBuddy (cache_order c) (buddies h)) (\<lambda>(start, b). Inr (start, c, h\<lparr>buddies := b\<rparr>)))) (\<lambda>start.
     seq (set_header slab \<lparr>slab_cache = a, objectStart = start, freeIndex = 0, inUse = 0, magic_valid = SLAB_MAGIC_VALID\<rparr>) (
     bnd (get_cache a) (\<lambda>obj.
     bnd (fst mem (objectsPerSlab (cache_base obj) * 4)) (\<lambda>arr.
     seq (on_cache a (\<lambda>c h.
       (let f = link_objects (unat (objectsPerSlab c - 1)) 0 (freeArray h arr);
            f = f(objectsPerSlab c - 1 := SLAB_BUF_END)
        in rbind (Prepend slab (slab_links h, freeSlabList c)) (\<lambda>(ls, l).
             Inr ((), c\<lparr>freeSlabList := l\<rparr>, h\<lparr>slab_links := ls, freeArray := (freeArray h)(arr := f)\<rparr>))))) (
     seq (modify (\<lambda>s. s\<lparr>hashed_array := (hashed_array s)(slab := arr)\<rparr>)) (
     seq (large_Insert mem a slab) (
     seq (ResizeHashTableIfNeeded mem a) (
     ret slab))))))))))"

definition large_GetNonEmptySlab :: "nested \<Rightarrow> u32 \<Rightarrow> (kernel_heap, u32) prog" where
  "large_GetNonEmptySlab mem a =
     bnd (get_cache a) (\<lambda>obj.
     if IsEmpty (partialSlabList (cache_base obj)) then
       (if IsEmpty (freeSlabList (cache_base obj)) then large_Grow mem a else ret (head (freeSlabList (cache_base obj))))
     else ret (head (partialSlabList (cache_base obj))))"

definition large_AllocateObject :: "nested \<Rightarrow> u32 \<Rightarrow> (kernel_heap, u32) prog" where
  "large_AllocateObject mem a =
     bnd (large_GetNonEmptySlab mem a) (\<lambda>slab.
     bnd (reads_of (\<lambda>s. slabs (slab_mem s) slab)) (\<lambda>sl.
     if magic_valid sl \<noteq> SLAB_MAGIC_VALID then stop AssertFailed
     else
       seq (if slab_IsEmpty sl then move_slab free_to_partial slab a else ret ()) (
       bnd (get_cache a) (\<lambda>obj.
       bnd (reads_of (\<lambda>s. freeArray (slab_mem s) (hashed_array s slab))) (\<lambda>f.
       (let allocatedObject = objectStart sl + freeIndex sl * objSize (cache_base obj);
            sl = sl\<lparr>freeIndex := f (freeIndex sl), inUse := inUse sl + 1\<rparr>
        in seq (set_header slab sl) (
           seq (if slab_IsFull sl then move_slab partial_to_full slab a else ret ()) (
           seq (count_object a 1) (
           ret allocatedObject)))))))))"

text \<open>FreeObject reads the header of the slab before it tests whether there is one.\<close>

definition large_FreeObject :: "nested \<Rightarrow> u32 \<Rightarrow> u32 \<Rightarrow> (kernel_heap, unit) prog" where
  "large_FreeObject mem p a =
     bnd (get_cache a) (\<lambda>obj.
     bnd (\<lambda>s. case hash_Lookup (large_HashKey (cache_base obj)) (large_Compare (slab_mem s)) (LowerBoundary p (slab_size (cache_base obj)))
              (hash_table obj) of None \<Rightarrow> None | Some r \<Rightarrow> lift_result r s) (\<lambda>slab.
     if slab = 0 then stop NullPointer
     else
       bnd (reads_of (\<lambda>s. slabs (slab_mem s) slab)) (\<lambda>sl.
       if magic_valid sl \<noteq> SLAB_MAGIC_VALID then stop AssertFailed
       else
         seq (if slab_IsFull sl then move_slab full_to_partial slab a else ret ()) (
         if objSize (cache_base obj) = 0 then stop DivideError
         else
           (let objectIndex = (p - objectStart sl) div objSize (cache_base obj)
            in seq (modify (\<lambda>s. let arr = hashed_array s slab
                 in s\<lparr>slab_mem := (slab_mem s)\<lparr>freeArray := (freeArray (slab_mem s))(arr := (freeArray (slab_mem s) arr)(objectIndex := freeIndex sl))\<rparr>\<rparr>)) (
               (let sl = sl\<lparr>freeIndex := objectIndex, inUse := inUse sl - 1\<rparr>
                in seq (set_header slab sl) (
                   seq (if slab_IsEmpty sl then move_slab partial_to_free slab a else ret ()) (
                   seq (ResizeHashTableIfNeeded mem a) (
                   count_object a (- 1)))))))))))"

definition large_ReleaseSlab :: "nested \<Rightarrow> u32 \<Rightarrow> u32 \<Rightarrow> (kernel_heap, unit) prog" where
  "large_ReleaseSlab mem slab a =
     bnd (reads_of (\<lambda>s. slabs (slab_mem s) slab)) (\<lambda>sl.
     if magic_valid sl \<noteq> SLAB_MAGIC_VALID then stop AssertFailed
     else
       seq (set_header slab (sl\<lparr>magic_valid := 0\<rparr>)) (
       seq (on_table a (\<lambda>c h. hash_Remove (large_Hash c h) False False (\<lambda>_. True) slab)) (
       seq (bnd (reads_of (\<lambda>s. hashed_array s slab)) (snd mem)) (
       bnd (get_cache a) (\<lambda>obj.
       seq (free_block (objectStart sl) (cache_order (cache_base obj))) (
       seq (snd mem slab) (
       ResizeHashTableIfNeeded mem a)))))))"

section \<open>Any cache\<close>

text \<open>The calls of the virtual functions.\<close>

definition cache_AllocateObject :: "nested \<Rightarrow> u32 \<Rightarrow> (kernel_heap, u32) prog" where
  "cache_AllocateObject mem a =
     bnd (get_cache a) (\<lambda>obj. case cache_kind obj of SmallCache \<Rightarrow> on_cache a AllocateObject | LargeCache \<Rightarrow> large_AllocateObject mem a)"

definition cache_FreeObject :: "nested \<Rightarrow> u32 \<Rightarrow> u32 \<Rightarrow> (kernel_heap, unit) prog" where
  "cache_FreeObject mem p a =
     bnd (get_cache a) (\<lambda>obj. case cache_kind obj of
         SmallCache \<Rightarrow> on_cache a (\<lambda>c h. rbind (FreeObject p c h) (\<lambda>(c, h). Inr ((), c, h)))
       | LargeCache \<Rightarrow> large_FreeObject mem p a)"

definition cache_ReleaseSlab :: "nested \<Rightarrow> u32 \<Rightarrow> u32 \<Rightarrow> (kernel_heap, unit) prog" where
  "cache_ReleaseSlab mem slab a =
     bnd (get_cache a) (\<lambda>obj. case cache_kind obj of
         SmallCache \<Rightarrow> (\<lambda>s. case ReleaseSlab slab (cache_base obj) (slab_mem s) of None \<Rightarrow> None
           | Some r \<Rightarrow> bnd (lift_result r) (\<lambda>h. modify (\<lambda>s. s\<lparr>slab_mem := h\<rparr>)) s)
       | LargeCache \<Rightarrow> large_ReleaseSlab mem slab a)"

partial_function (option) cache_ReleaseUnusedMemory :: "nested \<Rightarrow> u32 \<Rightarrow> kernel_heap \<Rightarrow> (fault + unit \<times> kernel_heap) option" where
  "cache_ReleaseUnusedMemory mem a s =
     bnd (bnd (get_cache a) (\<lambda>obj. ret (head (freeSlabList (cache_base obj))))) (\<lambda>curSlab s.
     if curSlab = 0 then ret () s
     else
       seq (on_cache a (\<lambda>c h. let (ls, l) = Remove curSlab (slab_links h, freeSlabList c) in Inr ((), c\<lparr>freeSlabList := l\<rparr>, h\<lparr>slab_links := ls\<rparr>))) (
       seq (cache_ReleaseSlab mem curSlab a) (\<lambda>s. cache_ReleaseUnusedMemory mem a s)) s) s"

partial_function (option) release_slabs :: "nested \<Rightarrow> u32 \<Rightarrow> u32 \<Rightarrow> kernel_heap \<Rightarrow> (fault + unit \<times> kernel_heap) option" where
  "release_slabs mem a curSlab s =
     (if curSlab = 0 then ret () s
      else
        bnd (reads_of (\<lambda>s. GetNext (slab_links (slab_mem s)) curSlab)) (\<lambda>nextSlab.
        seq (cache_ReleaseSlab mem curSlab a) (\<lambda>s. release_slabs mem a nextSlab s)) s)"

text \<open>Destroy; a large cache gives its table back as well. The object of the cache is not released here.\<close>

definition cache_Destroy :: "nested \<Rightarrow> u32 \<Rightarrow> (kernel_heap, unit) prog" where
  "cache_Destroy mem a =
     seq (bnd (get_cache a) (\<lambda>obj. release_slabs mem a (head (freeSlabList (cache_base obj))))) (
     seq (bnd (get_cache a) (\<lambda>obj. release_slabs mem a (head (partialSlabList (cache_base obj))))) (
     seq (bnd (get_cache a) (\<lambda>obj. release_slabs mem a (head (fullSlabList (cache_base obj))))) (
     bnd (get_cache a) (\<lambda>obj.
     if cache_kind obj = LargeCache \<and> hash_storage obj \<noteq> 0 then snd mem (hash_storage obj) else ret ()))))"

section \<open>Size classes\<close>

text \<open>The cache of the first class with room, 0 if there is none.\<close>

primrec class_cache :: "u32 \<Rightarrow> (u32 \<times> u32) list \<Rightarrow> u32" where
  "class_cache totalSize [] = 0"
| "class_cache totalSize (e # es) = (if fst e < totalSize then class_cache totalSize es else snd e)"

text \<open>
  The address of the cache in front of an object. An object that starts in the header of a slab cannot be handled further: the write destroys the
  links of the slab, and the model stops.
\<close>

definition store_owner :: "u32 \<Rightarrow> u32 \<Rightarrow> (kernel_heap, unit) prog" where
  "store_owner p c s =
     (let slab = p AND PAGEALIGN_MASK
      in if p = 0 then stop NullPointer s
         else if p - slab < sizeof_Slab \<and> magic_valid (slabs (slab_mem s) slab) = SLAB_MAGIC_VALID then stop CorruptsSlab s
         else modify (\<lambda>s. s\<lparr>slab_mem := (slab_mem s)\<lparr>buddies := (buddies (slab_mem s))\<lparr>bram := store32 (object_bytes s) p c\<rparr>\<rparr>\<rparr>) s)"

definition size_alloc :: "nested \<Rightarrow> u32 \<Rightarrow> (kernel_heap, u32) prog" where
  "size_alloc mem len =
     bnd (reads_of (\<lambda>s. class_cache (len + 4) (cacheSizes s))) (\<lambda>c.
     if c = 0 then stop PanicCache
     else
       bnd (cache_AllocateObject mem c) (\<lambda>p.
       seq (store_owner p c) (
       seq (modify (\<lambda>s. s\<lparr>cache_objects := (cache_objects s)(p + 4 := None)\<rparr>)) (
       ret (p + 4)))))"

definition size_free :: "nested \<Rightarrow> u32 \<Rightarrow> (kernel_heap, unit) prog" where
  "size_free mem p = bnd (reads_of (\<lambda>s. load32 (object_bytes s) (p - 4))) (\<lambda>c. cache_FreeObject mem (p - 4) c)"

primrec size_slabs :: "nat \<Rightarrow> nested" where
  "size_slabs 0 = (\<lambda>_ _. None, \<lambda>_ _. None)"
| "size_slabs (Suc n) = (size_alloc (size_slabs n), size_free (size_slabs n))"

definition AllocateFromSizeSlabs :: "nat \<Rightarrow> u32 \<Rightarrow> (kernel_heap, u32) prog" where
  "AllocateFromSizeSlabs n = fst (size_slabs n)"

definition FreeFromSizeSlabs :: "nat \<Rightarrow> u32 \<Rightarrow> (kernel_heap, unit) prog" where
  "FreeFromSizeSlabs n = snd (size_slabs n)"

section \<open>The slab allocator\<close>

primrec name_taken :: "u8 list \<Rightarrow> u32 list \<Rightarrow> (kernel_heap, bool) prog" where
  "name_taken name [] = ret False"
| "name_taken name (a # as) = bnd (get_cache a) (\<lambda>obj. if cache_name obj = name then ret True else name_taken name as)"

text \<open>
  The constructor at a given address. A name of 40 characters is longer than its array: the terminating zero is stored in the low byte of
  the object size behind it.
\<close>

definition new_cache :: "cache_kind \<Rightarrow> u32 \<Rightarrow> u8 list \<Rightarrow> u32 \<Rightarrow> u32 \<Rightarrow> (kernel_heap, unit) prog" where
  "new_cache kind a name align len =
     bnd (lift_result (new_SlabCache a align len)) (\<lambda>c.
     (let c = (if length name = SLAB_MAX_NAMELEN then c\<lparr>objSize := objSize c AND 0xFFFFFF00\<rparr> else c)
      in modify (put_cache a \<lparr>cache_kind = kind, cache_name = name, cache_base = c, hash_table = new_hashtable (\<lambda>_. 0), hash_storage = 0\<rparr>)))"

definition append_cache :: "u32 \<Rightarrow> (kernel_heap, unit) prog" where
  "append_cache a s =
     bnd (lift_result (Append a (cache_links s, cacheList s))) (\<lambda>(ls, l). modify (\<lambda>s. s\<lparr>cache_links := ls, cacheList := l\<rparr>)) s"

text \<open>The result is the null pointer when the cache is refused.\<close>

definition CreateCache :: "nat \<Rightarrow> u8 list \<Rightarrow> u32 \<Rightarrow> u32 \<Rightarrow> (kernel_heap, u32) prog" where
  "CreateCache n cacheName objectSize alignment =
     (if SLAB_MAX_NAMELEN < length cacheName \<or> SLAB_MAXORDER < GetOrder objectSize then ret 0
      else
        bnd (lift_option (\<lambda>s. elements (cache_links s, cacheList s))) (\<lambda>caches.
        bnd (name_taken cacheName caches) (\<lambda>taken.
        if taken then ret 0
        else if SLAB_LIMIT < objectSize then
          bnd (AllocateFromSizeSlabs n sizeof_LargeCache) (\<lambda>a.
          if a = 0 then ret 0
          else seq (new_cache LargeCache a cacheName alignment objectSize) (seq (append_cache a) (ret a)))
        else
          bnd (reads_of cacheHead) (\<lambda>hd.
          bnd (cache_AllocateObject (size_slabs n) hd) (\<lambda>a.
          if a = 0 then ret 0
          else seq (new_cache SmallCache a cacheName alignment objectSize) (seq (append_cache a) (ret a)))))))"

text \<open>The object of a large cache is released before the cache is destroyed.\<close>

definition DestroyCache :: "nat \<Rightarrow> u32 \<Rightarrow> (kernel_heap, unit) prog" where
  "DestroyCache n a =
     seq (modify (\<lambda>s. let (ls, l) = Remove a (cache_links s, cacheList s) in s\<lparr>cache_links := ls, cacheList := l\<rparr>)) (
     bnd (get_cache a) (\<lambda>obj.
     seq (if SLAB_LIMIT < objSize (cache_base obj) then FreeFromSizeSlabs n a else ret ()) (
     cache_Destroy (size_slabs n) a)))"

definition FreeUnusedMemory :: "nat \<Rightarrow> (kernel_heap, unit) prog" where
  "FreeUnusedMemory n =
     bnd (lift_option (\<lambda>s. elements (cache_links s, cacheList s))) (\<lambda>caches. for_each caches (cache_ReleaseUnusedMemory (size_slabs n)))"

text \<open>The names are the ones \<open>itoa\<close> and \<open>strncat\<close> build.\<close>

definition size_cache_name :: "u32 \<Rightarrow> u8 list" where
  "size_cache_name len = [0x73, 0x69, 0x7A, 0x65, 0x2D] @ number_text 10 (sint len)"

definition init_size_cache :: "nat \<Rightarrow> nat \<Rightarrow> (kernel_heap, unit) prog" where
  "init_size_cache n i =
     bnd (reads_of (\<lambda>s. fst (cacheSizes s ! i))) (\<lambda>len.
     bnd (CreateCache n (size_cache_name len) len 0) (\<lambda>cache.
     if cache = 0 then stop PanicCache
     else modify (\<lambda>s. s\<lparr>cacheSizes := (cacheSizes s)[i := (len, cache)]\<rparr>)))"

definition InitializeSizeCaches :: "nat \<Rightarrow> (kernel_heap, unit) prog" where
  "InitializeSizeCaches n = bnd (reads_of (\<lambda>s. length (cacheSizes s))) (\<lambda>k. for_each [0..<k] (init_size_cache n))"

definition size_classes :: "(u32 \<times> u32) list" where
  "size_classes = [(0x20, 0), (0x40, 0), (0x80, 0), (0x100, 0), (0x200, 0), (0x400, 0), (0x800, 0), (0x1000, 0), (0x2000, 0)]"

text \<open>
  The constructor. The cache of caches comes from the placement region, at \<open>a\<close>; the rest of the state is what the static objects hold at the start.
\<close>

definition new_SlabAllocator :: "mem \<Rightarrow> u32 \<Rightarrow> u32 \<Rightarrow> u32 \<Rightarrow> u32 \<Rightarrow> fault + kernel_heap" where
  "new_SlabAllocator m RegionStart RegionSize a position =
     rbind (new_buddy m RegionStart RegionSize (of_nat PAGE_SHIFT)) (\<lambda>b.
     rbind (new_SlabCache a SLAB_HWCACHE_ALIGN sizeof_SmallCache) (\<lambda>c.
     Inr \<lparr>slab_mem = \<lparr>buddies = b, slab_links = \<lparr>next_link = \<lambda>_. 0, previous_link = \<lambda>_. 0\<rparr>,
            slabs = (\<lambda>_. \<lparr>slab_cache = 0, objectStart = 0, freeIndex = 0, inUse = 0, magic_valid = 0\<rparr>), freeArray = (\<lambda>_ _. 0)\<rparr>,
          cache_objects = [a \<mapsto> \<lparr>cache_kind = SmallCache, cache_name = [0x43, 0x61, 0x63, 0x68, 0x65, 0x48, 0x65, 0x61, 0x64], cache_base = c,
            hash_table = new_hashtable (\<lambda>_. 0), hash_storage = 0\<rparr>],
          cache_links = \<lparr>next_link = \<lambda>_. 0, previous_link = \<lambda>_. 0\<rparr>, cacheHead = a, cacheList = empty_list, cacheSizes = size_classes,
          hashed_array = (\<lambda>_. 0), region_size = RegionSize, slab_ready = False, placement_position = position\<rparr>))"

definition KERNEL_SLAB_ALLOCATOR_START :: u32 where
  "KERNEL_SLAB_ALLOCATOR_START = 0xD0500000"

definition KERNEL_SLAB_ALLOCATOR_SIZE :: u32 where
  "KERNEL_SLAB_ALLOCATOR_SIZE = 0x8000000"

text \<open>The part of \<open>kmain\<close> that makes the allocator and its size classes and hands it to the memory manager.\<close>

definition kmain_slabs :: "nat \<Rightarrow> mem \<Rightarrow> u32 \<Rightarrow> u32 \<Rightarrow> (fault + kernel_heap) option" where
  "kmain_slabs n m a position =
     (case new_SlabAllocator m KERNEL_SLAB_ALLOCATOR_START KERNEL_SLAB_ALLOCATOR_SIZE a position of Inl e \<Rightarrow> Some (Inl e)
      | Inr s \<Rightarrow> (case seq (InitializeSizeCaches n) (modify (\<lambda>s. s\<lparr>slab_ready := True\<rparr>)) s of None \<Rightarrow> None
          | Some (Inl e) \<Rightarrow> Some (Inl e) | Some (Inr (_, s)) \<Rightarrow> Some (Inr s)))"

section \<open>kmalloc and kfree\<close>

definition kmalloc :: "u32 \<Rightarrow> nat \<Rightarrow> u32 \<Rightarrow> (kernel_heap, u32) prog" where
  "kmalloc placement n len s =
     (if slab_ready s then AllocateFromSizeSlabs n len s
      else bnd (lift_result (placement_Allocate placement len False (placement_position s))) (\<lambda>(p, position).
        seq (modify (\<lambda>s. s\<lparr>placement_position := position\<rparr>)) (ret p)) s)"

definition kfree :: "nat \<Rightarrow> u32 \<Rightarrow> (kernel_heap, unit) prog" where
  "kfree n p s =
     (let start = startAddress (buddies (slab_mem s))
      in if \<not> slab_ready s then stop NullPointer s
         else if start \<le> p \<and> p < start + region_size s then FreeFromSizeSlabs n p s
         else stop PanicForeign s)"

end
