(* ===== verification/KernelHeap.thy ===== *)
theory KernelHeap
  imports SizeCaches
begin

text \<open>
  What \<open>kmalloc\<close> and \<open>kfree\<close> do for the classes whose slabs are on one page with their header (requests up to 252 bytes), whatever the other
  caches hold: the caches of the classes and the cache of caches share the buddy allocator, the links and the headers, and the invariant
  keeps their slabs apart.
\<close>

section \<open>Writes to objects\<close>

text \<open>Bytes that are not the tag of a free block may change.\<close>

lemma buddy_inv_write:
  assumes inv: "buddy_inv s B" and eq: "\<And>y j. B y = Some (j, False) \<Longrightarrow> agree (bram s) m (block_address s y) 8"
  shows "buddy_inv (s\<lparr>bram := m\<rparr>) B"
proof -
  let ?s = "s\<lparr>bram := m\<rparr>"
  have w: "working s B {}" using inv by (simp add: buddy_inv_def)
  note d = workingD [OF w]
  have ad: "block_address ?s y = block_address s y" "Buddy.frees ?s B j = Buddy.frees s B j" for y j by (simp_all add: block_address_def Buddy.frees_def)
  have tag: "element_order m (block_address s y) = element_order (bram s) (block_address s y)"
      "element_next m (block_address s y) = element_next (bram s) (block_address s y)" if "B y = Some (j, False)" for y j
    using load32_cong [OF agree_sub [OF eq [OF that], of 0 4]] load32_cong [OF agree_sub [OF eq [OF that], of 4 4]]
    by (simp_all add: element_order_def element_next_def)
  have "lists_ok ?s B"
    unfolding lists_ok_def
  proof (intro allI impI)
    fix j
    assume "j \<le> unat (maxOrder ?s)"
    then obtain es where es: "linked_to (bram s) (freeElements s ! j) es" "distinct es" "set es = Buddy.frees s B j"
      using d(4) by (auto simp: lists_ok_def)
    have "linked_to m (freeElements s ! j) es = linked_to (bram s) (freeElements s ! j) es"
      using es(3) tag(2) by (intro linked_to_cong) (auto simp: Buddy.frees_def)
    then show "\<exists>es. linked_to (bram ?s) (freeElements ?s ! j) es \<and> distinct es \<and> set es = Buddy.frees ?s B j" using es ad(2) by auto
  qed
  moreover have "orders_ok ?s B" using d(5) tag(1) by (auto simp: orders_ok_def ad)
  ultimately show ?thesis using d by (simp add: buddy_inv_def working_def buddy_shape_def bits_ok_def)
qed

lemma slab_blocks_subset: "slab_blocks h v \<Longrightarrow> set (slabs_of u) \<subseteq> set (slabs_of v) \<Longrightarrow> slab_blocks h u"
  unfolding slab_blocks_def by blast

text \<open>\<open>pages h v B\<close>: the slabs are pages of the tiling \<open>B\<close> in use.\<close>

definition pages :: "slab_heap \<Rightarrow> slab_view \<Rightarrow> blockmap \<Rightarrow> bool" where
  "pages h v B \<longleftrightarrow> buddy_inv (buddies h) B \<and> (\<forall>e \<in> set (slabs_of v). \<exists>x. e = block_address (buddies h) x \<and> (x, 12) \<in> used_blocks B)"

lemma slab_blocks_pages: "slab_blocks h v \<longleftrightarrow> (\<exists>B. pages h v B \<and> 4096 dvd unat (startAddress (buddies h)))"
  by (auto simp: slab_blocks_def pages_def)

lemma pages_write:
  assumes B: "pages h v B" and a: "a \<in> set (slabs_of v)" "unat a + 4096 \<le> 4294967296" and p: "unat a \<le> unat p" "unat p + n \<le> unat a + 4096"
    and eq: "\<And>q j. sep p n q j \<Longrightarrow> agree (bram (buddies h)) m q j"
  shows "pages (h\<lparr>buddies := (buddies h)\<lparr>bram := m\<rparr>\<rparr>) v B"
proof -
  have inv: "buddy_inv (buddies h) B" using B by (simp add: pages_def)
  have t: "buddy_shape (buddies h)" "tiling (unat (maxOrder (buddies h))) B" using buddy_inv_shape [OF inv] by simp_all
  obtain x where x: "a = block_address (buddies h) x" "B x = Some (12, True)" using B a(1) by (auto simp: used_blocks_def pages_def)
  have "buddy_inv ((buddies h)\<lparr>bram := m\<rparr>) B"
  proof (rule buddy_inv_write [OF inv eq])
    fix y j
    assume y: "B y = Some (j, False)"
    then have "x \<noteq> y" using x(2) by auto
    have "sep a (2 ^ 12) (block_address (buddies h) y) (2 ^ j)" using blocks_apart [OF t x(2) y \<open>x \<noteq> y\<close>] by (simp add: x(1))
    then have "sep a (2 ^ 12) (block_address (buddies h) y) 8"
      by (rule sep_mono) (use tiling_block [OF t(2) y] page_le [of j] in simp_all)
    then have "sep (a + of_nat (unat p - unat a)) n (block_address (buddies h) y) 8" by (rule sep_sub) (use p in simp)
    moreover have "a + of_nat (unat p - unat a) = p" using p(1) by (simp add: of_nat_diff)
    ultimately show "sep p n (block_address (buddies h) y) 8" by simp
  qed
  then show ?thesis using B by (auto simp: pages_def block_address_def)
qed

lemma slab_blocks_write:
  assumes bl: "slab_blocks h v" and a: "a \<in> set (slabs_of v)" and p: "unat a \<le> unat p" "unat p + n \<le> unat a + 4096"
    and eq: "\<And>q j. sep p n q j \<Longrightarrow> agree (bram (buddies h)) m q j"
  shows "slab_blocks (h\<lparr>buddies := (buddies h)\<lparr>bram := m\<rparr>\<rparr>) v"
proof -
  obtain B where B: "pages h v B" "4096 dvd unat (startAddress (buddies h))" using bl unfolding slab_blocks_pages by blast
  have "pages (h\<lparr>buddies := (buddies h)\<lparr>bram := m\<rparr>\<rparr>) v B" by (rule pages_write [OF B(1) a slab_block(2) [OF bl a] p eq])
  then show ?thesis using B(2) by (auto simp: slab_blocks_pages)
qed

section \<open>Caches that share the heap\<close>

text \<open>An allocation of one cache leaves the others as they are.\<close>

lemma lists_hold_cong:
  assumes "lists_hold c s u" "\<And>e. e \<in> set (slabs_of u) \<Longrightarrow> next_link s' e = next_link s e \<and> previous_link s' e = previous_link s e"
  shows "lists_hold c s' u"
  using assms unfolding lists_hold_def by (auto simp: holds_cong [of _ s' s] slabs_of_def)

lemma foreign_cache:
  assumes inv: "cache_inv c h u" and out: "outside S h h'" and dis: "set (slabs_of u) \<inter> S = {}" and bl: "slab_blocks h' u"
  shows "cache_inv c h' u"
proof -
  have w: "small_cache c" "lists_hold c (slab_links h) u" "placed (unat (objectsPerSlab c)) u {}" "slabs_ok c h u"
    and n: "objectsAllocated c = of_nat (card (objects c u))" using inv by (simp_all add: cache_inv_def cache_working_def)
  have e: "next_link (slab_links h') e = next_link (slab_links h) e \<and> previous_link (slab_links h') e = previous_link (slab_links h) e \<and>
      slabs h' e = slabs h e \<and> freeArray h' e = freeArray h e" if "e \<in> set (slabs_of u)" for e
    using out dis that by (auto simp: outside_def links_outside_def)
  have "lists_hold c (slab_links h') u" by (rule lists_hold_cong [OF w(2)]) (use e in auto)
  moreover have "slabs_ok c h' u" using w(4) e by (simp add: slabs_ok_def)
  ultimately show ?thesis using w bl n by (simp add: cache_inv_def cache_working_def)
qed

text \<open>Only the memory changes.\<close>

lemma cache_inv_memory:
  assumes "cache_inv c h v" "slab_blocks (h\<lparr>buddies := b\<rparr>) v"
  shows "cache_inv c (h\<lparr>buddies := b\<rparr>) v"
  using foreign_cache [OF assms(1), of "{}"] assms(2) by (simp add: outside_def links_outside_def)

text \<open>The pages of several caches together.\<close>

definition all_slabs :: "u32 list \<Rightarrow> (u32 \<Rightarrow> slab_view) \<Rightarrow> slab_view" where
  "all_slabs as v = only_slabs (concat (map (\<lambda>a. slabs_of (v a)) as))"

lemma set_all_slabs [simp]: "set (slabs_of (all_slabs as v)) = (\<Union>a \<in> set as. set (slabs_of (v a)))"
  by (simp add: all_slabs_def)

lemma grown_blocks:
  assumes bl: "slab_blocks h (all_slabs as v)" and c: "c \<in> set as" and g: "grown h (v c) h' v'"
  shows "slab_blocks h' (all_slabs as (v(c := v')))"
    and "b \<in> set as \<Longrightarrow> b \<noteq> c \<Longrightarrow> set (slabs_of (v b)) \<inter> set (slabs_of (v c)) = {} \<Longrightarrow> set (slabs_of (v b)) \<inter> set (slabs_of v') = {}"
    and "startAddress (buddies h') = startAddress (buddies h)" "maxOrder (buddies h') = maxOrder (buddies h)"
    and "e \<in> set (slabs_of (all_slabs as v)) \<Longrightarrow> agree (bram (buddies h)) (bram (buddies h')) e 4096"
proof -
  let ?A = "set (slabs_of (all_slabs as v))"
  have sub: "set (slabs_of v') = S \<Longrightarrow> set (slabs_of (v c)) \<subseteq> S \<Longrightarrow>
      set (slabs_of (all_slabs as (v(c := v')))) = (\<Union>a \<in> set as - {c}. set (slabs_of (v a))) \<union> S" for S
    using c by (auto split: if_splits)
  have mem: "?A = (\<Union>a \<in> set as - {c}. set (slabs_of (v a))) \<union> set (slabs_of (v c))" using c by auto
  consider (same) "set (slabs_of v') = set (slabs_of (v c))" "buddies h' = buddies h"
    | (new) a where "a \<noteq> 0" "set (slabs_of v') = insert a (set (slabs_of (v c)))" "AllocateBuddy 0 (buddies h) = Inr (a, buddies h')"
    using g unfolding grown_def by blast
  then have "slab_blocks h' (all_slabs as (v(c := v'))) \<and> startAddress (buddies h') = startAddress (buddies h) \<and> maxOrder (buddies h') = maxOrder (buddies h) \<and>
     (\<forall>e \<in> ?A. agree (bram (buddies h)) (bram (buddies h')) e 4096) \<and>
     (\<forall>b \<in> set as - {c}. set (slabs_of (v b)) \<inter> set (slabs_of (v c)) = {} \<longrightarrow> set (slabs_of (v b)) \<inter> set (slabs_of v') = {})"
  proof cases
    case same
    have "set (slabs_of (all_slabs as (v(c := v')))) = ?A" using sub [OF same(1)] mem by simp
    then have "slab_blocks h' (all_slabs as (v(c := v')))" using bl same(2) slab_blocks_cong by blast
    then show ?thesis using same by simp
  next
    case new
    have S: "set (slabs_of (all_slabs as (v(c := v')))) = insert a ?A" using sub [OF new(2)] mem by auto
    have "AllocateBuddy 0 (buddies h) \<noteq> Inr (0, buddies h)" using new(1,3) by simp
    with AllocateBuddy_page [OF bl] obtain a0 b B where ab: "AllocateBuddy 0 (buddies h) = Inr (a0, b)" "a0 \<notin> ?A" "buddy_inv b B"
        "4096 dvd unat (startAddress b)" "\<forall>e \<in> set (a0 # slabs_of (all_slabs as v)). \<exists>x. e = block_address b x \<and> (x, 12) \<in> used_blocks B"
        "startAddress b = startAddress (buddies h)" "maxOrder b = maxOrder (buddies h)" "\<forall>e \<in> ?A. agree (bram (buddies h)) (bram b) e 4096"
      by blast
    have eq: "a0 = a" "b = buddies h'" using ab(1) new(3) by simp_all
    from ab(2-8) have B: "a \<notin> ?A" "buddy_inv (buddies h') B" "4096 dvd unat (startAddress (buddies h'))"
        "\<forall>e \<in> insert a ?A. \<exists>x. e = block_address (buddies h') x \<and> (x, 12) \<in> used_blocks B"
        "startAddress (buddies h') = startAddress (buddies h)" "maxOrder (buddies h') = maxOrder (buddies h)" "\<forall>e \<in> ?A. agree (bram (buddies h)) (bram (buddies h')) e 4096"
      unfolding eq by simp_all
    then have "slab_blocks h' (all_slabs as (v(c := v')))" unfolding slab_blocks_def S by blast
    moreover have "set (slabs_of (v b)) \<inter> set (slabs_of v') = {}" if "b \<in> set as - {c}" "set (slabs_of (v b)) \<inter> set (slabs_of (v c)) = {}" for b
      using that B(1) new(2) by auto
    ultimately show ?thesis using B(5-7) by blast
  qed
  then show "slab_blocks h' (all_slabs as (v(c := v')))" "startAddress (buddies h') = startAddress (buddies h)"
    "maxOrder (buddies h') = maxOrder (buddies h)" "b \<in> set as \<Longrightarrow> b \<noteq> c \<Longrightarrow> set (slabs_of (v b)) \<inter> set (slabs_of (v c)) = {} \<Longrightarrow> set (slabs_of (v b)) \<inter> set (slabs_of v') = {}"
    "e \<in> ?A \<Longrightarrow> agree (bram (buddies h)) (bram (buddies h')) e 4096"
    by blast+
qed

section \<open>Families of caches\<close>

definition cache_of :: "kernel_heap \<Rightarrow> u32 \<Rightarrow> SlabCache" where
  "cache_of s a = cache_base (the (cache_objects s a))"

definition family_ok :: "u32 list \<Rightarrow> kernel_heap \<Rightarrow> (u32 \<Rightarrow> slab_view) \<Rightarrow> bool" where
  "family_ok as s v \<longleftrightarrow> distinct as \<and> 0 \<notin> set as \<and> slab_blocks (slab_mem s) (all_slabs as v) \<and>
     (\<forall>a \<in> set as. \<exists>obj. cache_objects s a = Some obj \<and> cache_kind obj = SmallCache \<and> cache_inv (cache_base obj) (slab_mem s) (v a)) \<and>
     (\<forall>a \<in> set as. \<forall>b \<in> set as. a \<noteq> b \<longrightarrow> set (slabs_of (v a)) \<inter> set (slabs_of (v b)) = {})"

lemma family_cong:
  "slab_mem s' = slab_mem s \<Longrightarrow> (\<And>a. a \<in> set as \<Longrightarrow> cache_objects s' a = cache_objects s a) \<Longrightarrow> family_ok as s' v = family_ok as s v"
  by (simp add: family_ok_def)

lemma family_cache:
  assumes "family_ok as s v" "a \<in> set as"
  obtains obj where "cache_objects s a = Some obj" "cache_kind obj = SmallCache" "cache_inv (cache_base obj) (slab_mem s) (v a)"
    "cache_of s a = cache_base obj"
  using assms unfolding family_ok_def cache_of_def by fastforce

text \<open>An object lies behind the header of its slab and ends with the page.\<close>

lemma object_page:
  assumes "cache_inv c h u" "p \<in> objects c u"
  obtains e where "e \<in> set (slabs_of u)" "p AND PAGEALIGN_MASK = e" "unat e + 28 \<le> unat p" "unat p + unat (objSize c) \<le> unat e + 4096"
    "4096 dvd unat e" "unat e + 4096 \<le> 4294967296"
proof -
  have w: "cache_working c h u {}" and sm: "small_cache c" using assms(1) by (simp_all add: cache_inv_def cache_working_def)
  obtain e k where e: "p = slot c e k" "e \<in> set (slabs_of u)" "k < unat (objectsPerSlab c)" using assms(2) by (auto simp: objects_def)
  note page = working_slab(5,6) [OF w e(2)]
  have "p AND PAGEALIGN_MASK = e" "unat e + 28 \<le> unat p" "unat p + unat (objSize c) \<le> unat e + 4096"
    using slot_page [OF sm e(3) page(2,1)] unat_slot(2,3) [OF sm e(3) page(2)] by (simp_all add: e(1))
  then show ?thesis using that e(2) page by blast
qed

lemma family_objects_sep:
  assumes ok: "family_ok as s v" and a: "a \<in> set as" "b \<in> set as"
    and p: "p \<in> objects (cache_of s a) (v a)" "q \<in> objects (cache_of s b) (v b)" "(a, p) \<noteq> (b, q)"
  shows "sep p (unat (objSize (cache_of s a))) q (unat (objSize (cache_of s b)))"
proof -
  obtain c where c: "cache_inv (cache_of s a) (slab_mem s) (v a)" using family_cache [OF ok a(1)] by metis
  obtain d where d: "cache_inv (cache_of s b) (slab_mem s) (v b)" using family_cache [OF ok a(2)] by metis
  show ?thesis
  proof (cases "a = b")
    case True
    have "cache_working (cache_of s a) (slab_mem s) (v a) {}" using c by (simp add: cache_inv_def)
    from objects_sep [OF this p(1)] p True show ?thesis by simp
  next
    case False
    obtain e where e: "e \<in> set (slabs_of (v a))" "unat e + 28 \<le> unat p" "unat p + unat (objSize (cache_of s a)) \<le> unat e + 4096"
      "4096 dvd unat e" "unat e + 4096 \<le> 4294967296" using object_page [OF c p(1)] by metis
    obtain f where f: "f \<in> set (slabs_of (v b))" "unat f + 28 \<le> unat q" "unat q + unat (objSize (cache_of s b)) \<le> unat f + 4096"
      "4096 dvd unat f" "unat f + 4096 \<le> 4294967296" using object_page [OF d p(2)] by metis
    have "set (slabs_of (v a)) \<inter> set (slabs_of (v b)) = {}" using ok a False by (simp add: family_ok_def)
    then have "e \<noteq> f" using e(1) f(1) by auto
    obtain x y where xy: "unat e = 4096 * x" "unat f = 4096 * y" using e(4) f(4) by (elim dvdE)
    moreover have "x \<noteq> y" using \<open>e \<noteq> f\<close> xy by (auto simp: word_eq_unat_iff)
    ultimately have "unat e + 4096 \<le> unat f \<or> unat f + 4096 \<le> unat e" by linarith
    then have "unat p + unat (objSize (cache_of s a)) \<le> unat q \<or> unat q + unat (objSize (cache_of s b)) \<le> unat p"
      using e(2,3) f(2,3) by linarith
    then show ?thesis using e(3,5) f(3,5) by (auto intro: sep_below sep_above)
  qed
qed

definition set_bytes :: "mem \<Rightarrow> kernel_heap \<Rightarrow> kernel_heap" where
  "set_bytes m s = s\<lparr>slab_mem := (slab_mem s)\<lparr>buddies := (buddies (slab_mem s))\<lparr>bram := m\<rparr>\<rparr>\<rparr>"

lemma set_bytes_fields [simp]:
  "object_bytes (set_bytes m s) = m" "cache_objects (set_bytes m s) = cache_objects s" "cacheSizes (set_bytes m s) = cacheSizes s"
  "cacheHead (set_bytes m s) = cacheHead s" "cache_of (set_bytes m s) a = cache_of s a"
  "startAddress (buddies (slab_mem (set_bytes m s))) = startAddress (buddies (slab_mem s))"
  by (simp_all add: set_bytes_def object_bytes_def cache_of_def)

text \<open>Writing to an object keeps the family.\<close>

lemma family_write:
  assumes ok: "family_ok as s v" and a: "a \<in> set as" and p: "p \<in> objects (cache_of s a) (v a)"
    and i: "i + n \<le> unat (objSize (cache_of s a))"
    and eq: "\<And>q j. sep (p + of_nat i) n q j \<Longrightarrow> agree (object_bytes s) m q j"
  shows "family_ok as (set_bytes m s) v"
proof -
  have d: "cache_inv (cache_of s a) (slab_mem s) (v a)" using family_cache [OF ok a] by metis
  have bl: "slab_blocks (slab_mem s) (all_slabs as v)" using ok by (simp add: family_ok_def)
  obtain e where e: "e \<in> set (slabs_of (v a))" "unat e + 28 \<le> unat p" "unat p + unat (objSize (cache_of s a)) \<le> unat e + 4096"
      "unat e + 4096 \<le> 4294967296" using object_page [OF d p] by metis
  have "0 < unat (objSize (cache_of s a))" using d small_cacheD(1) by (simp add: cache_inv_def cache_working_def)
  have u: "unat (p + of_nat i) = unat p + i" if "n \<noteq> 0" using that i e by (intro unat_add_of_nat32) linarith
  have "slab_blocks ((slab_mem s)\<lparr>buddies := (buddies (slab_mem s))\<lparr>bram := m\<rparr>\<rparr>) (all_slabs as v)"
  proof (cases "n = 0")
    case True
    then have "m = object_bytes s" using eq [of _ 1] by (auto simp: sep_def agree_def fun_eq_iff)
    then show ?thesis using bl by (simp add: object_bytes_def)
  next
    case False
    show ?thesis
    proof (rule slab_blocks_write [OF bl])
      show "e \<in> set (slabs_of (all_slabs as v))" using e(1) a by auto
      show "unat e \<le> unat (p + of_nat i)" "unat (p + of_nat i) + n \<le> unat e + 4096" using u False i e by linarith+
    qed (use eq in \<open>simp add: object_bytes_def\<close>)
  qed
  then have blk: "slab_blocks (slab_mem (set_bytes m s)) (all_slabs as v)" by (simp add: set_bytes_def)
  have "cache_inv c (slab_mem (set_bytes m s)) (v b)" if "b \<in> set as" "cache_inv c (slab_mem s) (v b)" for b c
    unfolding set_bytes_def using cache_inv_memory [OF that(2)] slab_blocks_subset [OF blk] that(1)
    by (auto simp: set_bytes_def)
  then show ?thesis using ok blk by (auto simp: family_ok_def)
qed

lemma run_on_cache:
  assumes "cache_objects s a = Some obj"
  shows "on_cache a f s = (case f (cache_base obj) (slab_mem s) of Inl e \<Rightarrow> Some (Inl e)
    | Inr (x, c, h) \<Rightarrow> Some (Inr (x, put_cache a (obj\<lparr>cache_base := c\<rparr>) (s\<lparr>slab_mem := h\<rparr>))))"
  using assms by (auto simp: on_cache_def get_cache_def bnd_def deref_def seq_def ret_def stop_def modify_def lift_result_def split: sum.splits)

lemma run_get_cache: "cache_objects s a = Some obj \<Longrightarrow> bnd (get_cache a) f s = f obj s"
  by (simp add: bnd_def get_cache_def deref_def)

lemma put_cache_fields [simp]:
  "cache_objects (put_cache a obj s) = (cache_objects s)(a \<mapsto> obj)" "slab_mem (put_cache a obj s) = slab_mem s"
  "cacheSizes (put_cache a obj s) = cacheSizes s" "cacheHead (put_cache a obj s) = cacheHead s"
  "region_size (put_cache a obj s) = region_size s" "slab_ready (put_cache a obj s) = slab_ready s" "cache_links (put_cache a obj s) = cache_links s" "cacheList (put_cache a obj s) = cacheList s"
  "object_bytes (put_cache a obj s) = object_bytes s" "cache_of (put_cache a obj s) b = (if b = a then cache_base obj else cache_of s b)"
  by (simp_all add: put_cache_def object_bytes_def cache_of_def)

text \<open>What an operation on one cache of a family leaves alone.\<close>

definition same_family :: "u32 list \<Rightarrow> kernel_heap \<Rightarrow> kernel_heap \<Rightarrow> bool" where
  "same_family as s s' \<longleftrightarrow> cacheSizes s' = cacheSizes s \<and> cacheHead s' = cacheHead s \<and> cache_links s' = cache_links s \<and> cacheList s' = cacheList s \<and>
     startAddress (buddies (slab_mem s')) = startAddress (buddies (slab_mem s)) \<and>
     maxOrder (buddies (slab_mem s')) = maxOrder (buddies (slab_mem s)) \<and> region_size s' = region_size s \<and> slab_ready s' = slab_ready s \<and>
     (\<forall>b \<in> set as. same_cache (cache_of s b) (cache_of s' b))"

lemma same_cache_refl [simp]: "same_cache c c"
  by (simp add: same_cache_def)

lemma family_allocates:
  assumes ok: "family_ok as s v" and a: "a \<in> set as"
  shows "(cache_AllocateObject mem a s = Some (Inl NullPointer) \<and> exhausted (slab_mem s)) \<or>
    (\<exists>p s' u. cache_AllocateObject mem a s = Some (Inr (p, s')) \<and> family_ok as s' (v(a := u)) \<and> same_family as s s' \<and>
      (\<forall>b. b \<noteq> a \<longrightarrow> cache_objects s' b = cache_objects s b) \<and>
      p \<notin> objects (cache_of s a) (v a) \<and> objects (cache_of s' a) u = insert p (objects (cache_of s a) (v a)) \<and>
      (\<forall>e \<in> set (slabs_of (all_slabs as v)). agree (object_bytes s) (object_bytes s') e 4096) \<and> grown (slab_mem s) (v a) (slab_mem s') u \<and>
      (\<forall>b. map_option cache_name (cache_objects s' b) = map_option cache_name (cache_objects s b)))"
proof -
  obtain obj where obj: "cache_objects s a = Some obj" "cache_kind obj = SmallCache" "cache_inv (cache_base obj) (slab_mem s) (v a)"
    "cache_of s a = cache_base obj" using family_cache [OF ok a] by metis
  have run: "cache_AllocateObject mem a s = on_cache a AllocateObject s"
    by (simp add: cache_AllocateObject_def run_get_cache [OF obj(1)] obj(2))
  have bl: "slab_blocks (slab_mem s) (all_slabs as v)" using ok by (simp add: family_ok_def)
  from AllocateObject_works [OF obj(3)] show ?thesis
  proof (elim disjE [of "_ \<and> _"] exE conjE)
    assume "AllocateObject (cache_base obj) (slab_mem s) = Inl NullPointer" "exhausted (slab_mem s)"
    then show ?thesis by (simp add: run run_on_cache [OF obj(1)])
  next
    fix p c h u
    assume x: "AllocateObject (cache_base obj) (slab_mem s) = Inr (p, c, h)" "cache_inv c h u" "same_cache (cache_base obj) c"
      "p \<notin> objects (cache_base obj) (v a)" "objects c u = insert p (objects (cache_base obj) (v a))" "grown (slab_mem s) (v a) h u"
    let ?s = "put_cache a (obj\<lparr>cache_base := c\<rparr>) (s\<lparr>slab_mem := h\<rparr>)"
    note g = grown_blocks [OF bl a x(6)]
    have dis: "set (slabs_of (v b)) \<inter> set (slabs_of u) = {}" if "b \<in> set as" "b \<noteq> a" for b
      by (rule g(2) [OF that]) (use ok a that in \<open>simp add: family_ok_def\<close>)
    have other: "cache_inv d h (v b)" if "b \<in> set as" "b \<noteq> a" "cache_inv d (slab_mem s) (v b)" for b d
    proof (rule foreign_cache [OF that(3)])
      show "outside (set (slabs_of u)) (slab_mem s) h" using x(6) by (simp add: grown_def)
      show "set (slabs_of (v b)) \<inter> set (slabs_of u) = {}" by (rule dis [OF that(1,2)])
      show "slab_blocks h (v b)" by (rule slab_blocks_subset [OF g(1)]) (use that(1,2) in auto)
    qed
    have "family_ok as ?s (v(a := u))"
      using ok g(1) x(2) other dis obj(1,2) unfolding family_ok_def by (auto simp: Int_commute)
    moreover have "same_family as s ?s" using g(3,4) x(3) obj(4) by (simp add: same_family_def cache_of_def obj(1))
    moreover have "agree (object_bytes s) (object_bytes ?s) e 4096" if "e \<in> set (slabs_of (all_slabs as v))" for e
      using g(5) [OF that] by (simp add: object_bytes_def)
    moreover have "cache_AllocateObject mem a s = Some (Inr (p, ?s))" by (simp add: run run_on_cache [OF obj(1)] x(1))
    ultimately show ?thesis using x(4-6) obj(1,4) by (intro disjI2 exI [of _ p] exI [of _ ?s] exI [of _ u]) simp
  qed
qed

lemma family_frees:
  assumes ok: "family_ok as s v" and a: "a \<in> set as" and p: "p \<in> objects (cache_of s a) (v a)"
  shows "\<exists>s' u. cache_FreeObject mem p a s = Some (Inr ((), s')) \<and> family_ok as s' (v(a := u)) \<and> same_family as s s' \<and>
      (\<forall>b. b \<noteq> a \<longrightarrow> cache_objects s' b = cache_objects s b) \<and>
      objects (cache_of s' a) u = objects (cache_of s a) (v a) - {p} \<and> object_bytes s' = object_bytes s"
proof -
  obtain obj where obj: "cache_objects s a = Some obj" "cache_kind obj = SmallCache" "cache_inv (cache_base obj) (slab_mem s) (v a)"
    "cache_of s a = cache_base obj" using family_cache [OF ok a] by metis
  have bl: "slab_blocks (slab_mem s) (all_slabs as v)" using ok by (simp add: family_ok_def)
  obtain c h u where x: "FreeObject p (cache_base obj) (slab_mem s) = Inr (c, h)" "cache_inv c h u" "same_cache (cache_base obj) c"
      "objects c u = objects (cache_base obj) (v a) - {p}" "buddies h = buddies (slab_mem s)" "set (slabs_of u) = set (slabs_of (v a))"
      "outside (set (slabs_of (v a))) (slab_mem s) h"
    using FreeObject_works [OF obj(3), of p] p obj(4) by auto
  let ?s = "put_cache a (obj\<lparr>cache_base := c\<rparr>) (s\<lparr>slab_mem := h\<rparr>)"
  have run: "cache_FreeObject mem p a s = Some (Inr ((), ?s))"
    by (simp add: cache_FreeObject_def run_get_cache [OF obj(1)] obj(2) run_on_cache [OF obj(1)] x(1))
  have all: "set (slabs_of (all_slabs as (v(a := u)))) = set (slabs_of (all_slabs as v))" using x(6) a by (auto split: if_splits)
  have bl': "slab_blocks h (all_slabs as (v(a := u)))" using bl slab_blocks_cong [OF all x(5)] by simp
  have other: "cache_inv d h (v b)" if "b \<in> set as" "b \<noteq> a" "cache_inv d (slab_mem s) (v b)" for b d
  proof (rule foreign_cache [OF that(3) x(7)])
    show "set (slabs_of (v b)) \<inter> set (slabs_of (v a)) = {}" using ok a that by (simp add: family_ok_def)
    show "slab_blocks h (v b)" by (rule slab_blocks_subset [OF bl']) (use that(1,2) in auto)
  qed
  have "family_ok as ?s (v(a := u))"
    using ok bl' x(2,6) other obj(1,2) a unfolding family_ok_def by auto
  moreover have "same_family as s ?s" using x(3,5) obj(4) by (simp add: same_family_def cache_of_def obj(1))
  moreover have "object_bytes ?s = object_bytes s" using x(5) by (simp add: object_bytes_def)
  ultimately show ?thesis using run x(4) obj(4) by (intro exI [of _ ?s] exI [of _ u]) simp
qed

text \<open>The word in front of an object.\<close>

lemma family_store_owner:
  assumes ok: "family_ok as s v" and a: "a \<in> set as" and p: "p \<in> objects (cache_of s a) (v a)" and len: "4 \<le> unat (objSize (cache_of s a))"
  shows "store_owner p c s = Some (Inr ((), set_bytes (store32 (object_bytes s) p c) s))" "family_ok as (set_bytes (store32 (object_bytes s) p c) s) v"
    "p \<noteq> 0"
proof -
  have d: "cache_inv (cache_of s a) (slab_mem s) (v a)" using family_cache [OF ok a] by metis
  obtain e where e: "p AND PAGEALIGN_MASK = e" "unat e + 28 \<le> unat p" using object_page [OF d p] by metis
  then have "unat (p - e) = unat p - unat e" by (intro unat_sub_le) (simp add: word_le_nat_alt)
  then have "\<not> p - e < sizeof_Slab" using e(2) by (simp add: sizeof_Slab_def word_less_nat_alt)
  moreover show "p \<noteq> 0" using e(2) by auto
  ultimately show "store_owner p c s = Some (Inr ((), set_bytes (store32 (object_bytes s) p c) s))"
    by (simp add: store_owner_def e(1) modify_def set_bytes_def Let_def)
  show "family_ok as (set_bytes (store32 (object_bytes s) p c) s) v"
    by (rule family_write [OF ok a p, of 0 4]) (use len in \<open>simp_all add: store32_frame\<close>)
qed

section \<open>The invariant\<close>

text \<open>
  The four classes below 512 bytes, and the family of their caches and the cache of caches. The caches of the classes are objects of the cache of caches,
  which is below the region; the word in front of an object is the cache it comes from.
\<close>

definition classes :: "kernel_heap \<Rightarrow> (u32 \<times> u32) list" where
  "classes s = take 4 (cacheSizes s)"

definition family :: "kernel_heap \<Rightarrow> u32 list" where
  "family s = cacheHead s # map snd (classes s)"

definition kheap_ok :: "kernel_heap \<Rightarrow> (u32 \<Rightarrow> slab_view) \<Rightarrow> bool" where
  "kheap_ok s v \<longleftrightarrow> map fst (classes s) = [0x20, 0x40, 0x80, 0x100] \<and> family_ok (family s) s v \<and>
     unat (cacheHead s) < unat (startAddress (buddies (slab_mem s))) \<and>
     (\<forall>(len, c) \<in> set (classes s). objSize (cache_of s c) = len \<and> c \<in> objects (cache_of s (cacheHead s)) (v (cacheHead s)) \<and>
       (\<forall>q \<in> objects (cache_of s c) (v c). load32 (object_bytes s) q = c))"

text \<open>The blocks the clients own: an object without its first word.\<close>

definition kblocks :: "kernel_heap \<Rightarrow> (u32 \<Rightarrow> slab_view) \<Rightarrow> (u32 \<times> nat) set" where
  "kblocks s v = {(q + 4, unat len - 4) |len c q. (len, c) \<in> set (classes s) \<and> q \<in> objects (cache_of s c) (v c)}"

lemma kheapD:
  assumes "kheap_ok s v"
  shows "map fst (classes s) = [0x20, 0x40, 0x80, 0x100]" "family_ok (family s) s v" "unat (cacheHead s) < unat (startAddress (buddies (slab_mem s)))"
    "(len, c) \<in> set (classes s) \<Longrightarrow> objSize (cache_of s c) = len"
    "(len, c) \<in> set (classes s) \<Longrightarrow> c \<in> objects (cache_of s (cacheHead s)) (v (cacheHead s))"
    "(len, c) \<in> set (classes s) \<Longrightarrow> q \<in> objects (cache_of s c) (v c) \<Longrightarrow> load32 (object_bytes s) q = c"
    "(len, c) \<in> set (classes s) \<Longrightarrow> c \<in> set (family s)" "(len, c) \<in> set (classes s) \<Longrightarrow> c \<noteq> cacheHead s"
    "(len, c) \<in> set (classes s) \<Longrightarrow> 32 \<le> unat len"
proof -
  show "map fst (classes s) = [0x20, 0x40, 0x80, 0x100]" "family_ok (family s) s v" "unat (cacheHead s) < unat (startAddress (buddies (slab_mem s)))"
    "(len, c) \<in> set (classes s) \<Longrightarrow> objSize (cache_of s c) = len"
    "(len, c) \<in> set (classes s) \<Longrightarrow> c \<in> objects (cache_of s (cacheHead s)) (v (cacheHead s))"
    "(len, c) \<in> set (classes s) \<Longrightarrow> q \<in> objects (cache_of s c) (v c) \<Longrightarrow> load32 (object_bytes s) q = c"
    using assms by (auto simp: kheap_ok_def)
  show "c \<in> set (family s)" "c \<noteq> cacheHead s" if "(len, c) \<in> set (classes s)"
    using assms that by (force simp: kheap_ok_def family_def family_ok_def)+
  show "32 \<le> unat len" if "(len, c) \<in> set (classes s)"
  proof -
    have "len \<in> set (map fst (classes s))" using that by force
    then show ?thesis using assms by (auto simp: kheap_ok_def)
  qed
qed

text \<open>The class of a request is the first one with room.\<close>

lemma class_for_request:
  assumes "map fst (classes s) = [0x20, 0x40, 0x80, 0x100]" "unat n \<le> 252"
  shows "\<exists>len. (len, class_cache (n + 4) (cacheSizes s)) \<in> set (classes s) \<and> unat n + 4 \<le> unat len \<and>
    (\<forall>(l, d) \<in> set (classes s). unat n + 4 \<le> unat l \<longrightarrow> unat len \<le> unat l)"
proof -
  obtain c1 c2 c3 c4 where c: "classes s = [(0x20, c1), (0x40, c2), (0x80, c3), (0x100, c4)]"
    using assms(1) by (auto simp: map_eq_Cons_conv)
  then obtain es where es: "cacheSizes s = [(0x20, c1), (0x40, c2), (0x80, c3), (0x100, c4)] @ es"
    using append_take_drop_id [of 4 "cacheSizes s"] unfolding classes_def by metis
  have n4: "unat (n + 4) = unat n + 4" using assms(2) by (intro unat_add32 [THEN trans]) simp_all
  consider "unat n \<le> 28" | "28 < unat n" "unat n \<le> 60" | "60 < unat n" "unat n \<le> 124" | "124 < unat n" "unat n \<le> 252"
    using assms(2) by linarith
  then show ?thesis
    unfolding c es
    by cases (rule exI [of _ "0x20"], simp add: word_less_nat_alt n4, rule exI [of _ "0x40"], simp add: word_less_nat_alt n4,
      rule exI [of _ "0x80"], simp add: word_less_nat_alt n4, rule exI [of _ "0x100"], simp add: word_less_nat_alt n4)
qed

text \<open>Objects and pages.\<close>

lemma family_page:
  assumes "family_ok as s v" "a \<in> set as" "p \<in> objects (cache_of s a) (v a)"
  obtains e where "e \<in> set (slabs_of (all_slabs as v))" "unat e + 28 \<le> unat p" "unat p + unat (objSize (cache_of s a)) \<le> unat e + 4096"
    "unat e + 4096 \<le> 4294967296" "unat (startAddress (buddies (slab_mem s))) \<le> unat e"
proof -
  have d: "cache_inv (cache_of s a) (slab_mem s) (v a)" using family_cache [OF assms(1,2)] by metis
  obtain e where e: "e \<in> set (slabs_of (v a))" "unat e + 28 \<le> unat p" "unat p + unat (objSize (cache_of s a)) \<le> unat e + 4096"
      "unat e + 4096 \<le> 4294967296" using object_page [OF d assms(3)] by metis
  have all: "e \<in> set (slabs_of (all_slabs as v))" using e(1) assms(2) by auto
  obtain B x where b: "buddy_inv (buddies (slab_mem s)) B" "e = block_address (buddies (slab_mem s)) x" "(x, 12) \<in> used_blocks B"
    using assms(1) all unfolding family_ok_def slab_blocks_def by blast
  have t: "buddy_shape (buddies (slab_mem s))" "tiling (unat (maxOrder (buddies (slab_mem s)))) B" using buddy_inv_shape [OF b(1)] by simp_all
  have "B x = Some (12, True)" using b(3) by (simp add: used_blocks_def)
  then have "unat (startAddress (buddies (slab_mem s))) \<le> unat e" using unat_block_address(1) [OF t(1) block_start [OF t(2)]] by (simp add: b(2))
  then show ?thesis using that e all by blast
qed

lemma object_agree:
  assumes "family_ok as s v" "a \<in> set as" "p \<in> objects (cache_of s a) (v a)" "i + j \<le> unat (objSize (cache_of s a))"
    and "\<forall>e \<in> set (slabs_of (all_slabs as v)). agree m m' e 4096"
  shows "agree m m' (p + of_nat i) j"
proof -
  obtain e where e: "e \<in> set (slabs_of (all_slabs as v))" "unat e + 28 \<le> unat p" "unat p + unat (objSize (cache_of s a)) \<le> unat e + 4096"
    using family_page [OF assms(1-3)] by metis
  have "agree m m' (e + of_nat (unat p - unat e + i)) j"
    by (rule agree_sub [of m m' e 4096]) (use assms(4,5) e in auto)
  moreover have "e + of_nat (unat p - unat e + i) = p + of_nat i" using e(2) by (simp add: of_nat_diff)
  ultimately show ?thesis by (simp only:)
qed

text \<open>Two blocks of the clients are apart, and the word in front of a block is not in another one.\<close>

lemma class_objects_sep:
  assumes k: "kheap_ok s v" and c: "(l, c) \<in> set (classes s)" "(m, d) \<in> set (classes s)"
    and q: "q \<in> objects (cache_of s c) (v c)" "r \<in> objects (cache_of s d) (v d)" "(c, q) \<noteq> (d, r)"
  shows "sep q (unat l) r (unat m)"
  using family_objects_sep [OF kheapD(2) [OF k] kheapD(7) [OF k c(1)] kheapD(7) [OF k c(2)] q] kheapD(4) [OF k c(1)] kheapD(4) [OF k c(2)] by simp

lemma kblocks_unique:
  assumes k: "kheap_ok s v" and c: "(l, c) \<in> set (classes s)" "(m, d) \<in> set (classes s)"
    and q: "q \<in> objects (cache_of s c) (v c)" "q \<in> objects (cache_of s d) (v d)"
  shows "c = d \<and> l = m"
proof -
  have "c = d"
  proof (rule ccontr)
    assume "c \<noteq> d"
    then have "sep q (unat l) q (unat m)" using class_objects_sep [OF k c q] by simp
    then show False using kheapD(9) [OF k c(1)] kheapD(9) [OF k c(2)] by (auto simp: sep_def)
  qed
  then show ?thesis using kheapD(4) [OF k c(1)] kheapD(4) [OF k c(2)] by simp
qed

lemma kblocks_sep:
  assumes k: "kheap_ok s v" and b: "(p, i) \<in> kblocks s v" "(r, j) \<in> kblocks s v" "(p, i) \<noteq> (r, j)"
  shows "sep p i r j"
proof -
  obtain l c q where q: "p = q + 4" "i = unat l - 4" "(l, c) \<in> set (classes s)" "q \<in> objects (cache_of s c) (v c)" using b(1) by (auto simp: kblocks_def)
  obtain m d t where t: "r = t + 4" "j = unat m - 4" "(m, d) \<in> set (classes s)" "t \<in> objects (cache_of s d) (v d)" using b(2) by (auto simp: kblocks_def)
  have "q \<noteq> t" using kblocks_unique [OF k q(3) t(3)] q t b(3) by auto
  then have s: "sep q (unat l) t (unat m)" using class_objects_sep [OF k q(3) t(3) q(4) t(4)] by simp
  have "sep (q + of_nat 4) i t (unat m)" by (rule sep_sub [OF s]) (use q(2) kheapD(9) [OF k q(3)] in simp)
  then have "sep (q + of_nat 4) i (t + of_nat 4) j" by (rule sep_sub2) (use t(2) kheapD(9) [OF k t(3)] in simp)
  then have "sep p i (t + of_nat 4) j" by (simp add: q(1))
  then show ?thesis by (simp add: t(1))
qed

text \<open>Objects of the classes are not where caches are.\<close>

lemma object_not_cache:
  assumes fam: "family_ok (family s) s v" and head: "unat (cacheHead s) < unat (startAddress (buddies (slab_mem s)))"
    and cs: "\<And>l d. (l, d) \<in> set (classes s) \<Longrightarrow> d \<in> objects (cache_of s (cacheHead s)) (v (cacheHead s))"
    and c: "c \<in> set (family s)" "c \<noteq> cacheHead s" and q: "q \<in> objects (cache_of s c) (v c)" and i: "i < unat (objSize (cache_of s c))"
  shows "q + of_nat i \<notin> set (family s)"
proof
  assume x: "q + of_nat i \<in> set (family s)"
  obtain e where "e \<in> set (slabs_of (all_slabs (family s) v))" and
      e: "unat e + 28 \<le> unat q" "unat q + unat (objSize (cache_of s c)) \<le> unat e + 4096" "unat e + 4096 \<le> 4294967296"
      "unat (startAddress (buddies (slab_mem s))) \<le> unat e" by (rule family_page [OF fam c(1) q])
  have u: "unat (q + of_nat i) = unat q + i" using i e by (intro unat_add_of_nat32) linarith
  then have "q + of_nat i \<noteq> cacheHead s" using head e by (intro notI) simp
  then obtain l where "(l, q + of_nat i) \<in> set (classes s)" using x by (auto simp: family_def)
  then have d: "q + of_nat i \<in> objects (cache_of s (cacheHead s)) (v (cacheHead s))" by (rule cs)
  have hd: "cacheHead s \<in> set (family s)" by (simp add: family_def)
  have "cache_inv (cache_of s (cacheHead s)) (slab_mem s) (v (cacheHead s))" using family_cache [OF fam hd] by metis
  then have "0 < unat (objSize (cache_of s (cacheHead s)))" using small_cacheD(1) by (simp add: cache_inv_def cache_working_def)
  moreover have "sep q (unat (objSize (cache_of s c))) (q + of_nat i) (unat (objSize (cache_of s (cacheHead s))))"
    using family_objects_sep [OF fam c(1) hd q d] c(2) by simp
  ultimately show False using i sep_neq [of q _ "q + of_nat i" _ i 0] by auto
qed

text \<open>The cache \<open>c\<close> of a class has handed out the object \<open>q\<close>; then the owner is stored and the block is the client's.\<close>

definition took :: "kernel_heap \<Rightarrow> (u32 \<Rightarrow> slab_view) \<Rightarrow> u32 \<Rightarrow> u32 \<Rightarrow> kernel_heap \<Rightarrow> slab_view \<Rightarrow> bool" where
  "took s v c q s1 u \<longleftrightarrow> family_ok (family s) s1 (v(c := u)) \<and> same_family (family s) s s1 \<and>
     (\<forall>b. b \<noteq> c \<longrightarrow> cache_objects s1 b = cache_objects s b) \<and> q \<notin> objects (cache_of s c) (v c) \<and>
     objects (cache_of s1 c) u = insert q (objects (cache_of s c) (v c)) \<and>
     (\<forall>e \<in> set (slabs_of (all_slabs (family s) v)). agree (object_bytes s) (object_bytes s1) e 4096) \<and>
     grown (slab_mem s) (v c) (slab_mem s1) u \<and> (\<forall>b. map_option cache_name (cache_objects s1 b) = map_option cache_name (cache_objects s b))"

definition handed :: "u32 \<Rightarrow> u32 \<Rightarrow> kernel_heap \<Rightarrow> kernel_heap" where
  "handed q c s = (set_bytes (store32 (object_bytes s) q c) s)\<lparr>cache_objects := (cache_objects s)(q + 4 := None)\<rparr>"

lemma tookD:
  assumes k: "kheap_ok s v" and len: "(len, c) \<in> set (classes s)" and t: "took s v c q s1 u"
  shows "classes s1 = classes s" "family s1 = family s" "cacheHead s1 = cacheHead s"
    and "b \<in> set (family s) \<Longrightarrow> objSize (cache_of s1 b) = objSize (cache_of s b)"
    and "objects (cache_of s1 d) ((v(c := u)) d) = (if d = c then insert q (objects (cache_of s c) (v c)) else objects (cache_of s d) (v d))"
    and "q \<in> objects (cache_of s1 c) ((v(c := u)) c)" "unat (objSize (cache_of s1 c)) = unat len"
    and "b \<noteq> c \<Longrightarrow> cache_of s1 b = cache_of s b"
proof -
  note kd = kheapD [OF k]
  show "classes s1 = classes s" "family s1 = family s" "cacheHead s1 = cacheHead s" "q \<in> objects (cache_of s1 c) ((v(c := u)) c)"
    using t by (simp_all add: took_def same_family_def classes_def family_def)
  show sz: "objSize (cache_of s1 b) = objSize (cache_of s b)" if "b \<in> set (family s)" for b using t that by (simp add: took_def same_family_def same_cache_def)
  then show "unat (objSize (cache_of s1 c)) = unat len" using kd(4,7) [OF len] by simp
  show same: "cache_of s1 b = cache_of s b" if "b \<noteq> c" for b using t that by (simp add: took_def cache_of_def)
  show "objects (cache_of s1 d) ((v(c := u)) d) = (if d = c then insert q (objects (cache_of s c) (v c)) else objects (cache_of s d) (v d))"
    using t same [of d] by (simp add: took_def)
qed

lemma handed_family:
  assumes k: "kheap_ok s v" and len: "(len, c) \<in> set (classes s)" and t: "took s v c q s1 u"
  shows "store_owner q c s1 = Some (Inr ((), set_bytes (store32 (object_bytes s1) q c) s1))" "q + 4 \<notin> set (family s)"
    "family_ok (family s) (handed q c s1) (v(c := u))" "b \<in> set (family s) \<Longrightarrow> cache_of (handed q c s1) b = cache_of s1 b"
    "classes (handed q c s1) = classes s" "family (handed q c s1) = family s" "cacheSizes (handed q c s1) = cacheSizes s"
    "cacheHead (handed q c s1) = cacheHead s"
    "startAddress (buddies (slab_mem (handed q c s1))) = startAddress (buddies (slab_mem s))"
    "object_bytes (handed q c s1) = store32 (object_bytes s1) q c" "same_family [] s (handed q c s1)"
proof -
  note kd = kheapD [OF k] and td = tookD [OF k len t]
  note cf = kd(7,8) [OF len] and l32 = kd(9) [OF len]
  have fam: "family_ok (family s) s1 (v(c := u))" and same: "same_family (family s) s s1" using t by (simp_all add: took_def)
  have "4 \<le> unat (objSize (cache_of s1 c))" using td(7) l32 by simp
  note st = family_store_owner(1,2) [OF fam cf(1) td(6) this, of c]
  show "store_owner q c s1 = Some (Inr ((), set_bytes (store32 (object_bytes s1) q c) s1))" by (rule st(1))
  have cls: "d \<in> objects (cache_of s1 (cacheHead s1)) ((v(c := u)) (cacheHead s1))" if "(l, d) \<in> set (classes s1)" for l d
    using kd(5) that td(1,3) td(8) [of "cacheHead s"] cf(2) by simp
  show nc: "q + 4 \<notin> set (family s)"
    using object_not_cache [of s1 "v(c := u)" c q 4] fam cls td(6) cf kd(3) same td(2,3,7) l32 by (simp add: same_family_def)
  have "family_ok (family s) (handed q c s1) (v(c := u)) = family_ok (family s) (set_bytes (store32 (object_bytes s1) q c) s1) (v(c := u))"
    by (rule family_cong) (use nc in \<open>auto simp: handed_def\<close>)
  then show "family_ok (family s) (handed q c s1) (v(c := u))" using st(2) by (simp only:)
  show "cache_of (handed q c s1) b = cache_of s1 b" if "b \<in> set (family s)" for b using nc that by (auto simp: cache_of_def handed_def)
  show "cacheSizes (handed q c s1) = cacheSizes s" "cacheHead (handed q c s1) = cacheHead s"
      "startAddress (buddies (slab_mem (handed q c s1))) = startAddress (buddies (slab_mem s))"
      "object_bytes (handed q c s1) = store32 (object_bytes s1) q c" "same_family [] s (handed q c s1)"
    using same by (simp_all add: handed_def same_family_def object_bytes_def set_bytes_def)
  then show "classes (handed q c s1) = classes s" "family (handed q c s1) = family s" by (simp_all add: classes_def family_def)
qed

text \<open>The bytes of the objects in use before are kept.\<close>

lemma handed_keeps:
  assumes k: "kheap_ok s v" and len: "(len, c) \<in> set (classes s)" and t: "took s v c q s1 u"
    and d: "(l, d) \<in> set (classes s)" "r \<in> objects (cache_of s d) (v d)" "i + j \<le> unat l"
  shows "agree (object_bytes s) (object_bytes (handed q c s1)) (r + of_nat i) j"
proof -
  note kd = kheapD [OF k] and td = tookD [OF k len t]
  note cf = kd(7,8) [OF len] and l32 = kd(9) [OF len] and df = kd(7) [OF d(1)] and ld = kd(4) [OF d(1)]
  have fam: "family_ok (family s) s1 (v(c := u))" using t by (simp add: took_def)
  have "agree (object_bytes s) (object_bytes s1) (r + of_nat i) j"
    by (rule object_agree [OF kd(2) df d(2)]) (use t d(3) ld in \<open>simp_all add: took_def\<close>)
  moreover have "agree (object_bytes s1) (object_bytes (handed q c s1)) (r + of_nat i) j"
    unfolding handed_family(10) [OF k len t]
  proof (rule store32_frame)
    have r1: "r \<in> objects (cache_of s1 d) ((v(c := u)) d)" using td(5) [of d] d(2) by auto
    have "(c, q) \<noteq> (d, r)" using t d(2) by (auto simp: took_def)
    then have "sep q (unat (objSize (cache_of s1 c))) r (unat (objSize (cache_of s1 d)))" by (rule family_objects_sep [OF fam cf(1) df td(6) r1])
    then have "sep q 4 r (unat l)" by (rule sep_mono) (use td(7) l32 td(4) [OF df] ld in simp_all)
    then show "sep q 4 (r + of_nat i) j" by (rule sep_sub2) (rule d(3))
  qed
  ultimately show ?thesis by (rule agree_trans)
qed

lemma handed_ok:
  assumes k: "kheap_ok s v" and len: "(len, c) \<in> set (classes s)" and t: "took s v c q s1 u"
  shows "kheap_ok (handed q c s1) (v(c := u))"
proof -
  let ?s = "handed q c s1" and ?v = "v(c := u)"
  note kd = kheapD [OF k] and td = tookD [OF k len t] and hf = handed_family [OF k len t]
  have head: "cacheHead s \<in> set (family s)" "cacheHead s \<noteq> c" using kd(8) [OF len] by (auto simp: family_def)
  have "objSize (cache_of ?s d) = l \<and> d \<in> objects (cache_of ?s (cacheHead ?s)) (?v (cacheHead ?s)) \<and>
      (\<forall>r \<in> objects (cache_of ?s d) (?v d). load32 (object_bytes ?s) r = d)" if d: "(l, d) \<in> set (classes s)" for l d
  proof (intro conjI ballI)
    note df = kd(7) [OF d]
    show "objSize (cache_of ?s d) = l" using hf(4) [OF df] td(4) [OF df] kd(4) [OF d] by simp
    show "d \<in> objects (cache_of ?s (cacheHead ?s)) (?v (cacheHead ?s))"
      using kd(5) [OF d] hf(8) hf(4) [OF head(1)] td(8) [OF head(2)] head(2) by simp
    fix r
    assume r: "r \<in> objects (cache_of ?s d) (?v d)"
    show "load32 (object_bytes ?s) r = d"
    proof (cases "d = c \<and> r = q")
      case True
      then show ?thesis by (simp add: hf(10) load32_store32)
    next
      case False
      then have ro: "r \<in> objects (cache_of s d) (v d)" using r td(5) [of d] hf(4) [OF df] by (auto split: if_splits)
      have "agree (object_bytes s) (object_bytes ?s) r 4" using handed_keeps [OF k len t d ro, of 0 4] kd(9) [OF d] by simp
      then show ?thesis using load32_cong kd(6) [OF d ro] by metis
    qed
  qed
  then have "\<forall>(l, d) \<in> set (classes ?s). objSize (cache_of ?s d) = l \<and> d \<in> objects (cache_of ?s (cacheHead ?s)) (?v (cacheHead ?s)) \<and>
      (\<forall>r \<in> objects (cache_of ?s d) (?v d). load32 (object_bytes ?s) r = d)" unfolding hf(5) by blast
  moreover have "map fst (classes ?s) = [0x20, 0x40, 0x80, 0x100]" "family_ok (family ?s) ?s ?v"
    "unat (cacheHead ?s) < unat (startAddress (buddies (slab_mem ?s)))"
    using kd(1,3) hf(3,5,6,8,9) by (simp_all only:)
  ultimately show ?thesis unfolding kheap_ok_def by blast
qed

lemma handed_blocks:
  assumes k: "kheap_ok s v" and len: "(len, c) \<in> set (classes s)" and t: "took s v c q s1 u"
  shows "kblocks (handed q c s1) (v(c := u)) = insert (q + 4, unat len - 4) (kblocks s v)" "(q + 4, unat len - 4) \<notin> kblocks s v"
proof -
  let ?s = "handed q c s1" and ?v = "v(c := u)"
  note kd = kheapD [OF k] and td = tookD [OF k len t] and hf = handed_family [OF k len t]
  have ob: "objects (cache_of ?s d) (?v d) = (if d = c then insert q (objects (cache_of s c) (v c)) else objects (cache_of s d) (v d))"
    if "(l, d) \<in> set (classes s)" for l d using td(5) [of d] hf(4) [OF kd(7) [OF that]] by (simp only:)
  show "kblocks ?s ?v = insert (q + 4, unat len - 4) (kblocks s v)"
  proof (intro set_eqI iffI)
    fix b
    assume "b \<in> kblocks ?s ?v"
    then obtain l d r where b: "b = (r + 4, unat l - 4)" "(l, d) \<in> set (classes s)" "r \<in> objects (cache_of ?s d) (?v d)"
      unfolding kblocks_def hf(5) by blast
    show "b \<in> insert (q + 4, unat len - 4) (kblocks s v)"
    proof (cases "d = c \<and> r = q")
      case True
      then have "l = len" using kd(4) [OF b(2)] kd(4) [OF len] by simp
      then show ?thesis using b(1) True by simp
    next
      case False
      then have "r \<in> objects (cache_of s d) (v d)" using b(3) unfolding ob [OF b(2)] by (simp split: if_splits)
      then show ?thesis using b(1,2) unfolding kblocks_def by blast
    qed
  next
    fix b
    assume "b \<in> insert (q + 4, unat len - 4) (kblocks s v)"
    then obtain l d r where b: "b = (r + 4, unat l - 4)" "(l, d) \<in> set (classes s)" "r \<in> objects (cache_of s d) (v d) \<or> d = c \<and> r = q"
      unfolding kblocks_def using len by blast
    then have "r \<in> objects (cache_of ?s d) (?v d)" unfolding ob [OF b(2)] by (auto split: if_splits)
    then show "b \<in> kblocks ?s ?v" using b(1,2) unfolding kblocks_def hf(5) by blast
  qed
  show "(q + 4, unat len - 4) \<notin> kblocks s v"
  proof
    assume "(q + 4, unat len - 4) \<in> kblocks s v"
    then obtain l d where d: "(l, d) \<in> set (classes s)" "q \<in> objects (cache_of s d) (v d)" by (auto simp: kblocks_def)
    then have "d \<noteq> c" using t by (auto simp: took_def)
    then have "q \<in> objects (cache_of ?s d) (?v d)" "q \<in> objects (cache_of ?s c) (?v c)" using ob [OF d(1)] ob [OF len] d(2) by simp_all
    then show False using kblocks_unique [OF handed_ok [OF k len t], of l d len c q] d(1) len hf(5) \<open>d \<noteq> c\<close> by simp
  qed
qed

text \<open>A request up to 252 bytes.\<close>

lemma size_alloc_handed:
  assumes k: "kheap_ok s v" and n: "unat n \<le> 252"
  shows "(size_alloc mem n s = Some (Inl NullPointer) \<and> exhausted (slab_mem s)) \<or>
    (\<exists>len c q s1 u. (len, c) \<in> set (classes s) \<and> unat n + 4 \<le> unat len \<and>
      (\<forall>(l, d) \<in> set (classes s). unat n + 4 \<le> unat l \<longrightarrow> unat len \<le> unat l) \<and> c \<in> set (family s) \<and>
      cache_AllocateObject mem c s = Some (Inr (q, s1)) \<and> took s v c q s1 u \<and> size_alloc mem n s = Some (Inr (q + 4, handed q c s1)))"
proof -
  note kd = kheapD [OF k]
  define c where "c = class_cache (n + 4) (cacheSizes s)"
  obtain len where len: "(len, c) \<in> set (classes s)" "unat n + 4 \<le> unat len" "\<forall>(l, d) \<in> set (classes s). unat n + 4 \<le> unat l \<longrightarrow> unat len \<le> unat l"
    using class_for_request [OF kd(1) n] unfolding c_def by blast
  note cf = kd(7) [OF len(1)]
  then have "c \<noteq> 0" using kd(2) unfolding family_ok_def by metis
  then have run: "size_alloc mem n s = bnd (cache_AllocateObject mem c) (\<lambda>p. seq (store_owner p c) (
      seq (modify (\<lambda>s. s\<lparr>cache_objects := (cache_objects s)(p + 4 := None)\<rparr>)) (ret (p + 4)))) s"
    by (simp add: size_alloc_def c_def)
  from family_allocates [OF kd(2) cf, of mem] show ?thesis
  proof (elim disjE [of "_ \<and> _"] exE conjE)
    assume "cache_AllocateObject mem c s = Some (Inl NullPointer)" "exhausted (slab_mem s)"
    then show ?thesis by (simp add: run bnd_def)
  next
    fix q s1 u
    assume q: "cache_AllocateObject mem c s = Some (Inr (q, s1))" and f: "family_ok (family s) s1 (v(c := u))" "same_family (family s) s s1"
      "\<forall>b. b \<noteq> c \<longrightarrow> cache_objects s1 b = cache_objects s b" "q \<notin> objects (cache_of s c) (v c)"
      "objects (cache_of s1 c) u = insert q (objects (cache_of s c) (v c))"
      "\<forall>e \<in> set (slabs_of (all_slabs (family s) v)). agree (object_bytes s) (object_bytes s1) e 4096" "grown (slab_mem s) (v c) (slab_mem s1) u"
      "\<forall>b. map_option cache_name (cache_objects s1 b) = map_option cache_name (cache_objects s b)"
    from f have t: "took s v c q s1 u" by (simp add: took_def)
    have "size_alloc mem n s = Some (Inr (q + 4, handed q c s1))"
      unfolding run using q handed_family(1) [OF k len(1) t] by (simp add: bnd_def seq_def modify_def ret_def handed_def)
    then show ?thesis using len q t cf by blast
  qed
qed

lemma size_alloc_works:
  assumes k: "kheap_ok s v" and n: "unat n \<le> 252"
  shows "(size_alloc mem n s = Some (Inl NullPointer) \<and> exhausted (slab_mem s)) \<or>
    (\<exists>p s' v' j. size_alloc mem n s = Some (Inr (p, s')) \<and> kheap_ok s' v' \<and> unat n \<le> j \<and> (p, j) \<notin> kblocks s v \<and>
      kblocks s' v' = insert (p, j) (kblocks s v) \<and> same_family [] s s' \<and>
      (\<forall>(l, d) \<in> set (classes s). unat n + 4 \<le> unat l \<longrightarrow> j + 4 \<le> unat l) \<and>
      (\<forall>(q, i) \<in> kblocks s v. agree (object_bytes s) (object_bytes s') q i))"
proof -
  note kd = kheapD [OF k]
  from size_alloc_handed [OF k n, of mem] show ?thesis
  proof (elim disjE [of "_ \<and> _"] exE conjE)
    fix len c q s1 u
    assume len: "(len, c) \<in> set (classes s)" "unat n + 4 \<le> unat len" "\<forall>(l, d) \<in> set (classes s). unat n + 4 \<le> unat l \<longrightarrow> unat len \<le> unat l"
      and t: "took s v c q s1 u" and run: "size_alloc mem n s = Some (Inr (q + 4, handed q c s1))"
    have "agree (object_bytes s) (object_bytes (handed q c s1)) p i" if b: "(p, i) \<in> kblocks s v" for p i
    proof -
      obtain l d r where r: "p = r + 4" "i = unat l - 4" "(l, d) \<in> set (classes s)" "r \<in> objects (cache_of s d) (v d)" using b by (auto simp: kblocks_def)
      show ?thesis using handed_keeps [OF k len(1) t r(3,4), of 4 i] kd(9) [OF r(3)] r(1,2) by simp
    qed
    moreover have "\<forall>(l, d) \<in> set (classes s). unat n + 4 \<le> unat l \<longrightarrow> unat len - 4 + 4 \<le> unat l" using len(3) kd(9) [OF len(1)] by simp
    ultimately show ?thesis using run handed_ok [OF k len(1) t] handed_blocks [OF k len(1) t] len(2) handed_family(11) [OF k len(1) t]
      by (intro disjI2 exI [of _ "q + 4"] exI [of _ "handed q c s1"] exI [of _ "v(c := u)"] exI [of _ "unat len - 4"] conjI)
        (simp_all only: case_prod_beta, auto)
  qed simp
qed

text \<open>A release.\<close>

lemma same_family_trans: "same_family as s s' \<Longrightarrow> same_family as s' s'' \<Longrightarrow> same_family as s s''"
  by (auto simp: same_family_def same_cache_def)

lemma same_family_subset: "same_family as s s' \<Longrightarrow> set bs \<subseteq> set as \<Longrightarrow> same_family bs s s'"
  by (auto simp: same_family_def)

lemma size_free_works:
  assumes k: "kheap_ok s v" and b: "(p, j) \<in> kblocks s v"
  shows "\<exists>s' v'. size_free mem p s = Some (Inr ((), s')) \<and> kheap_ok s' v' \<and> kblocks s' v' = kblocks s v - {(p, j)} \<and>
    object_bytes s' = object_bytes s \<and> same_family [] s s'"
proof -
  note kd = kheapD [OF k]
  obtain len c q where q: "p = q + 4" "j = unat len - 4" and c: "(len, c) \<in> set (classes s)" "q \<in> objects (cache_of s c) (v c)"
    using b by (auto simp: kblocks_def)
  note cf = kd(7,8) [OF c(1)]
  have run: "size_free mem p s = cache_FreeObject mem q c s" using kd(6) [OF c] by (simp add: size_free_def q(1))
  obtain s' u where x: "cache_FreeObject mem q c s = Some (Inr ((), s'))" "family_ok (family s) s' (v(c := u))" "same_family (family s) s s'"
      "\<forall>b. b \<noteq> c \<longrightarrow> cache_objects s' b = cache_objects s b" "objects (cache_of s' c) u = objects (cache_of s c) (v c) - {q}"
      "object_bytes s' = object_bytes s"
    using family_frees [OF kd(2) cf(1) c(2), of mem] by blast
  let ?v = "v(c := u)"
  have fl: "classes s' = classes s" "family s' = family s" "cacheHead s' = cacheHead s"
      "startAddress (buddies (slab_mem s')) = startAddress (buddies (slab_mem s))"
    using x(3) by (simp_all add: same_family_def classes_def family_def)
  have same: "cache_of s' d = cache_of s d" if "d \<noteq> c" for d using x(4) that by (simp add: cache_of_def)
  have sz: "objSize (cache_of s' d) = objSize (cache_of s d)" if "d \<in> set (family s)" for d using x(3) that by (simp add: same_family_def same_cache_def)
  have ob: "objects (cache_of s' d) (?v d) = objects (cache_of s d) (v d) - (if d = c then {q} else {})" for d
    using x(5) same [of d] by simp
  have "kheap_ok s' ?v"
    unfolding kheap_ok_def fl
  proof (intro conjI)
    show "\<forall>(l, d) \<in> set (classes s). objSize (cache_of s' d) = l \<and> d \<in> objects (cache_of s' (cacheHead s)) (?v (cacheHead s)) \<and>
        (\<forall>r \<in> objects (cache_of s' d) (?v d). load32 (object_bytes s') r = d)"
      unfolding ob x(6) using kd(4-6) cf(2) sz kd(7) by auto
  qed (use kd(1,3) x(2) in simp_all)
  moreover have "kblocks s' ?v = kblocks s v - {(p, j)}"
  proof (intro set_eqI iffI)
    fix x
    assume "x \<in> kblocks s' ?v"
    then obtain l d r where x: "x = (r + 4, unat l - 4)" "(l, d) \<in> set (classes s)" "r \<in> objects (cache_of s' d) (?v d)"
      unfolding kblocks_def fl by blast
    have ro: "r \<in> objects (cache_of s d) (v d)" and ne: "d \<noteq> c \<or> r \<noteq> q" using x(3) unfolding ob by (auto split: if_splits)
    have "r \<noteq> q" using kblocks_unique [OF k x(2) c(1)] ro c(2) ne by auto
    then show "x \<in> kblocks s v - {(p, j)}" using x(1,2) ro q(1) unfolding kblocks_def by auto
  next
    fix x
    assume "x \<in> kblocks s v - {(p, j)}"
    then obtain l d r where x: "x = (r + 4, unat l - 4)" "(l, d) \<in> set (classes s)" "r \<in> objects (cache_of s d) (v d)" "x \<noteq> (p, j)"
      unfolding kblocks_def by blast
    have "\<not> (d = c \<and> r = q)" using x(1,2,4) q kd(4) [OF x(2)] kd(4) [OF c(1)] by auto
    then have "r \<in> objects (cache_of s' d) (?v d)" using x(3) unfolding ob by auto
    then show "x \<in> kblocks s' ?v" using x(1,2) unfolding kblocks_def fl by blast
  qed
  moreover have "same_family [] s s'" using x(3) by (rule same_family_subset) simp
  ultimately show ?thesis using run x(1,6) by (intro exI [of _ s'] exI [of _ ?v]) simp
qed

text \<open>A client may write to its blocks.\<close>

lemma client_write:
  assumes k: "kheap_ok s v" and b: "(p, j) \<in> kblocks s v" and len: "length bs \<le> j"
  shows "kheap_ok (set_bytes (store_bytes (object_bytes s) p bs) s) v" "kblocks (set_bytes (store_bytes (object_bytes s) p bs) s) v = kblocks s v"
proof -
  let ?s = "set_bytes (store_bytes (object_bytes s) p bs) s"
  note kd = kheapD [OF k]
  have fl: "classes ?s = classes s" "family ?s = family s" by (simp_all add: classes_def family_def)
  obtain l c q where q: "p = q + 4" "j = unat l - 4" and c: "(l, c) \<in> set (classes s)" "q \<in> objects (cache_of s c) (v c)"
    using b by (auto simp: kblocks_def)
  have "family_ok (family s) ?s v"
    by (rule family_write [OF kd(2) kd(7) [OF c(1)] c(2), of 4 "length bs"])
      (use len kd(4,9) [OF c(1)] q in \<open>auto intro: store_bytes_frame\<close>)
  moreover have "load32 (store_bytes (object_bytes s) p bs) r = d" if d: "(m, d) \<in> set (classes s)" "r \<in> objects (cache_of s d) (v d)" for m d r
  proof -
    have "sep (q + of_nat 4) j r 4"
    proof (cases "(c, q) = (d, r)")
      case True
      have "unat l - 4 \<le> 4294967292" using unat_bound32 [of l] by linarith
      then show ?thesis using True q(2) by (simp add: sep_def)
    next
      case False
      then have "sep q (unat l) r (unat m)" by (rule class_objects_sep [OF k c(1) d(1) c(2) d(2)])
      then have "sep q (unat l) r 4" by (rule sep_mono) (use kd(9) [OF d(1)] in simp_all)
      then show ?thesis by (rule sep_sub) (use q(2) kd(9) [OF c(1)] in simp)
    qed
    then have "sep p j r 4" by (simp add: q(1))
    then have "sep p (length bs) r 4" by (rule sep_mono) (use len in simp_all)
    then have "load32 (store_bytes (object_bytes s) p bs) r = load32 (object_bytes s) r" using store_bytes_frame load32_cong by metis
    then show ?thesis using kd(6) [OF d] by simp
  qed
  ultimately show "kheap_ok ?s v" using kd(1,3-6) unfolding kheap_ok_def fl by auto
  show "kblocks ?s v = kblocks s v" unfolding kblocks_def fl by simp
qed


section \<open>kmalloc and kfree\<close>

text \<open>The allocator is in use, and its region is the one \<open>kfree\<close> compares with.\<close>

definition kernel_heap_ok :: "kernel_heap \<Rightarrow> (u32 \<Rightarrow> slab_view) \<Rightarrow> bool" where
  "kernel_heap_ok s v \<longleftrightarrow> kheap_ok s v \<and> slab_ready s \<and> unat (region_size s) = 2 ^ unat (maxOrder (buddies (slab_mem s))) \<and>
     unat (startAddress (buddies (slab_mem s))) + unat (region_size s) < 4294967296"

lemma kernel_heap_same:
  "kernel_heap_ok s v \<Longrightarrow> kheap_ok s' v' \<Longrightarrow> same_family [] s s' \<Longrightarrow> kernel_heap_ok s' v'"
  by (simp add: kernel_heap_ok_def same_family_def)

lemma kernel_heapD: "kernel_heap_ok s v \<Longrightarrow> kheap_ok s v" "kernel_heap_ok s v \<Longrightarrow> slab_ready s"
  by (simp_all add: kernel_heap_ok_def)

lemma size_slabs_Suc: "AllocateFromSizeSlabs (Suc d) = size_alloc (size_slabs d)" "FreeFromSizeSlabs (Suc d) = size_free (size_slabs d)"
  by (simp_all add: AllocateFromSizeSlabs_def FreeFromSizeSlabs_def)

lemma kmalloc_works:
  assumes ok: "kernel_heap_ok s v" and n: "unat n \<le> 252"
  shows "(kmalloc placement (Suc d) n s = Some (Inl NullPointer) \<and> exhausted (slab_mem s)) \<or>
    (\<exists>p s' v' j. kmalloc placement (Suc d) n s = Some (Inr (p, s')) \<and> kernel_heap_ok s' v' \<and> unat n \<le> j \<and>
      (\<forall>k \<in> {28, 60, 124, 252}. unat n \<le> k \<longrightarrow> j \<le> k) \<and> (p, j) \<notin> kblocks s v \<and> kblocks s' v' = insert (p, j) (kblocks s v) \<and>
      (\<forall>(q, i) \<in> kblocks s v. agree (object_bytes s) (object_bytes s') q i))"
proof -
  note k = kernel_heapD [OF ok]
  have run: "kmalloc placement (Suc d) n s = size_alloc (size_slabs d) n s" by (simp add: kmalloc_def k(2) size_slabs_Suc)
  obtain c1 c2 c3 c4 where c: "classes s = [(0x20, c1), (0x40, c2), (0x80, c3), (0x100, c4)]"
    using kheapD(1) [OF k(1)] by (auto simp: map_eq_Cons_conv)
  from size_alloc_works [OF k(1) n, of "size_slabs d"] show ?thesis
  proof (elim disjE [of "_ \<and> _"] exE conjE)
    fix p s' v' j
    assume x: "size_alloc (size_slabs d) n s = Some (Inr (p, s'))" "kheap_ok s' v'" "unat n \<le> j" "(p, j) \<notin> kblocks s v"
      "kblocks s' v' = insert (p, j) (kblocks s v)" "same_family [] s s'" "\<forall>(q, i) \<in> kblocks s v. agree (object_bytes s) (object_bytes s') q i"
      and fit: "\<forall>(l, d) \<in> set (classes s). unat n + 4 \<le> unat l \<longrightarrow> j + 4 \<le> unat l"
    have "\<forall>k \<in> {28, 60, 124, 252}. unat n \<le> k \<longrightarrow> j \<le> k" using fit unfolding c by auto
    moreover have "kernel_heap_ok s' v'" by (rule kernel_heap_same [OF ok x(2,6)])
    ultimately show ?thesis unfolding run using x(1,3-5,7) by (intro disjI2 exI [of _ p] exI [of _ s'] exI [of _ v'] exI [of _ j] conjI)
  qed (simp add: run)
qed

lemma kblock_above:
  assumes k: "kheap_ok s v" and b: "(p, j) \<in> kblocks s v"
  shows "startAddress (buddies (slab_mem s)) \<le> p" "unat p < unat (startAddress (buddies (slab_mem s))) + 2 ^ unat (maxOrder (buddies (slab_mem s)))"
proof -
  note kd = kheapD [OF k]
  let ?b = "buddies (slab_mem s)"
  obtain l c q where q: "p = q + 4" and c: "(l, c) \<in> set (classes s)" "q \<in> objects (cache_of s c) (v c)" using b by (auto simp: kblocks_def)
  obtain e where e: "e \<in> set (slabs_of (all_slabs (family s) v))" "unat e + 28 \<le> unat q" "unat q + unat (objSize (cache_of s c)) \<le> unat e + 4096"
      "unat e + 4096 \<le> 4294967296" "unat (startAddress ?b) \<le> unat e" by (rule family_page [OF kd(2) kd(7) [OF c(1)] c(2)])
  obtain B x where B: "buddy_inv ?b B" "e = block_address ?b x" "(x, 12) \<in> used_blocks B"
    using kd(2) e(1) unfolding family_ok_def slab_blocks_def by blast
  have t: "buddy_shape ?b" "tiling (unat (maxOrder ?b)) B" using buddy_inv_shape [OF B(1)] by simp_all
  have xB: "B x = Some (12, True)" using B(3) by (simp add: used_blocks_def)
  have le: "unat e + 4096 \<le> unat (startAddress ?b) + 2 ^ unat (maxOrder ?b)"
    using tiling_block [OF t(2) xB] unat_block_address(1) [OF t(1) block_start [OF t(2) xB]] by (simp add: B(2))
  have l: "32 \<le> unat (objSize (cache_of s c))" using kd(4,9) [OF c(1)] by simp
  have up: "unat p = unat q + 4" unfolding q using e l by (intro unat_add32 [THEN trans]) simp_all
  show "startAddress ?b \<le> p" using up e by (simp add: word_le_nat_alt)
  show "unat p < unat (startAddress ?b) + 2 ^ unat (maxOrder ?b)" using up le e l by linarith
qed

lemma kblock_in_region:
  assumes ok: "kernel_heap_ok s v" and b: "(p, j) \<in> kblocks s v"
  shows "startAddress (buddies (slab_mem s)) \<le> p" "p < startAddress (buddies (slab_mem s)) + region_size s"
proof -
  let ?b = "buddies (slab_mem s)"
  note ab = kblock_above [OF kernel_heapD(1) [OF ok] b]
  show "startAddress ?b \<le> p" by (rule ab(1))
  have r: "unat (region_size s) = 2 ^ unat (maxOrder ?b)" "unat (startAddress ?b) + unat (region_size s) < 4294967296"
    using ok by (simp_all add: kernel_heap_ok_def)
  have "unat (startAddress ?b + region_size s) = unat (startAddress ?b) + unat (region_size s)" by (rule unat_add32) (rule r(2))
  then show "p < startAddress ?b + region_size s" using ab(2) r(1) by (simp add: word_less_nat_alt)
qed

lemma kfree_works:
  assumes ok: "kernel_heap_ok s v" and b: "(p, j) \<in> kblocks s v"
  shows "\<exists>s' v'. kfree (Suc d) p s = Some (Inr ((), s')) \<and> kernel_heap_ok s' v' \<and> kblocks s' v' = kblocks s v - {(p, j)} \<and>
    object_bytes s' = object_bytes s"
proof -
  note k = kernel_heapD [OF ok]
  have run: "kfree (Suc d) p s = size_free (size_slabs d) p s"
    using kblock_in_region [OF ok b] k(2) by (simp add: kfree_def size_slabs_Suc Let_def)
  obtain s' v' where x: "size_free (size_slabs d) p s = Some (Inr ((), s'))" "kheap_ok s' v'" "kblocks s' v' = kblocks s v - {(p, j)}"
      "object_bytes s' = object_bytes s" "same_family [] s s'" using size_free_works [OF k(1) b] by blast
  then show ?thesis using run kernel_heap_same [OF ok x(2,5)] by (intro exI [of _ s'] exI [of _ v']) simp
qed

text \<open>The contract of an allocator, for requests the small classes take.\<close>

definition small_kmalloc :: "kernel_heap \<Rightarrow> u32 \<Rightarrow> (fault + u32 \<times> kernel_heap) option" where
  "small_kmalloc s n = (if 252 < n then Some (Inl PanicCache) else kmalloc 0 1 n s)"

definition kernel_ok :: "kernel_heap \<Rightarrow> (u32 \<Rightarrow> slab_view) \<times> (u32 \<times> nat) set \<Rightarrow> bool" where
  "kernel_ok s = (\<lambda>(v, bs). kernel_heap_ok s v \<and> bs = kblocks s v)"

interpretation kernel: allocator kernel_ok snd object_bytes unat small_kmalloc
proof unfold_locales
  fix s :: kernel_heap and c :: "(u32 \<Rightarrow> slab_view) \<times> (u32 \<times> nat) set" and n :: u32
  assume ok: "kernel_ok s c"
  then have k: "kernel_heap_ok s (fst c)" "snd c = kblocks s (fst c)" by (auto simp: kernel_ok_def)
  have small: "unat n \<le> 252" if "\<not> 252 < n" using that by (simp add: word_less_nat_alt)
  show "small_kmalloc s n \<noteq> None" using kmalloc_works [OF k(1) small, of 0 0] by (auto simp: small_kmalloc_def)
  fix p s'
  assume g: "small_kmalloc s n = Some (Inr (p, s'))"
  then have n: "\<not> 252 < n" and run: "kmalloc 0 (Suc 0) n s = Some (Inr (p, s'))" by (auto simp: small_kmalloc_def split: if_splits)
  obtain v' j where x: "kernel_heap_ok s' v'" "unat n \<le> j" "(p, j) \<notin> kblocks s (fst c)" "kblocks s' v' = insert (p, j) (kblocks s (fst c))"
      "\<forall>(q, i) \<in> kblocks s (fst c). agree (object_bytes s) (object_bytes s') q i"
    using kmalloc_works [OF k(1) small [OF n], of 0 0] run by auto
  then show "\<exists>c' k. kernel_ok s' c' \<and> unat n \<le> k \<and> (p, k) \<notin> snd c \<and> snd c' = insert (p, k) (snd c) \<and>
      (\<forall>(q, j)\<in>snd c. agree (object_bytes s) (object_bytes s') q j)"
    unfolding k(2) by (intro exI [of _ "(v', kblocks s' v')"] exI [of _ j]) (simp add: kernel_ok_def)
next
  fix s c p k q j
  assume "kernel_ok s c" "(p, k) \<in> snd c" "(q, j) \<in> snd c" "(p, k) \<noteq> (q, j)"
  then show "sep p k q j" using kblocks_sep [of s "fst c" p k q j] by (auto simp: kernel_ok_def kernel_heap_ok_def)
qed

end
