(* ===== verification/SlabStart.thy ===== *)
theory SlabStart
  imports KernelHeap
begin

text \<open>
  The start of the allocator of the kernel: the constructor and \<open>InitializeSizeCaches\<close> run to their ends without running out of memory, and
  leave a heap that holds the invariant of \<open>kmalloc\<close> and \<open>kfree\<close>.
\<close>

section \<open>Pages in use\<close>

text \<open>At most \<open>k\<close> pages are in use, and no larger block.\<close>

definition room :: "slab_heap \<Rightarrow> slab_view \<Rightarrow> nat \<Rightarrow> bool" where
  "room h v k \<longleftrightarrow> (\<exists>B. pages h v B \<and> finite (used_blocks B) \<and> card (used_blocks B) \<le> k \<and> snd ` used_blocks B \<subseteq> {12})"

lemma room_not_exhausted:
  assumes r: "room h v k" and k: "4096 * k < 2 ^ unat (maxOrder (buddies h))"
  shows "\<not> exhausted h"
proof
  assume ex: "exhausted h"
  obtain B where B: "buddy_inv (buddies h) B" "finite (used_blocks B)" "card (used_blocks B) \<le> k" "snd ` used_blocks B \<subseteq> {12}"
    using r by (auto simp: room_def pages_def)
  have t: "tiling (unat (maxOrder (buddies h))) B" using buddy_inv_shape [OF B(1)] by simp
  have used: "\<And>x j u. B x = Some (j, u) \<Longrightarrow> u" using ex exhausted_iff [OF B(1)] by blast
  have "(4096 * i, 12) \<in> used_blocks B" if "i \<le> k" for i
  proof -
    have "4096 * i < 2 ^ unat (maxOrder (buddies h))" using that k by linarith
    then obtain x j u where x: "B x = Some (j, u)" "x \<le> 4096 * i" "4096 * i < x + 2 ^ j" using tiling_cover [OF t] by blast
    then have m: "(x, j) \<in> used_blocks B" using used [OF x(1)] by (simp add: used_blocks_def)
    then have j: "j = 12" using B(4) by force
    obtain y where "x = 2 ^ j * y" using tiling_block [OF t x(1)] by (elim conjE dvdE)
    then have "x = 4096 * i" using x(2,3) j by simp
    then show ?thesis using m j by simp
  qed
  then have "(\<lambda>i. (4096 * i, 12)) ` {..k} \<subseteq> used_blocks B" by auto
  then have "card ((\<lambda>i. (4096 * i, 12 :: nat)) ` {..k}) \<le> card (used_blocks B)" by (rule card_mono [OF B(2)])
  moreover have "card ((\<lambda>i. (4096 * i, 12 :: nat)) ` {..k}) = Suc k" by (subst card_image) (auto simp: inj_on_def)
  ultimately show False using B(3) by simp
qed

lemma room_cong: "buddies h' = buddies h \<Longrightarrow> set (slabs_of u) = set (slabs_of v) \<Longrightarrow> room h' u k = room h v k"
  by (simp add: room_def pages_def)

lemma room_mono: "room h v k \<Longrightarrow> k \<le> j \<Longrightarrow> room h v j"
  unfolding room_def by fastforce

lemma room_grown:
  assumes r: "room h (all_slabs as v) k" and c: "c \<in> set as" and g: "grown h (v c) h' u"
  shows "room h' (all_slabs as (v(c := u))) (Suc k)"
proof -
  let ?A = "set (slabs_of (all_slabs as v))"
  have sub: "set (slabs_of u) = S \<Longrightarrow> set (slabs_of (v c)) \<subseteq> S \<Longrightarrow>
      set (slabs_of (all_slabs as (v(c := u)))) = (\<Union>a \<in> set as - {c}. set (slabs_of (v a))) \<union> S" for S
    using c by (auto split: if_splits)
  have mem: "?A = (\<Union>a \<in> set as - {c}. set (slabs_of (v a))) \<union> set (slabs_of (v c))" using c by auto
  obtain B where B: "buddy_inv (buddies h) B" "\<forall>e \<in> ?A. \<exists>x. e = block_address (buddies h) x \<and> (x, 12) \<in> used_blocks B"
      "finite (used_blocks B)" "card (used_blocks B) \<le> k" "snd ` used_blocks B \<subseteq> {12}"
    using r unfolding room_def pages_def by blast
  consider (same) "set (slabs_of u) = set (slabs_of (v c))" "buddies h' = buddies h"
    | (new) a where "a \<noteq> 0" "set (slabs_of u) = insert a (set (slabs_of (v c)))" "AllocateBuddy 0 (buddies h) = Inr (a, buddies h')"
    using g unfolding grown_def by blast
  then show ?thesis
  proof cases
    case same
    have "set (slabs_of (all_slabs as (v(c := u)))) = ?A" using sub [OF same(1)] mem by simp
    then have "room h' (all_slabs as (v(c := u))) k" using r room_cong [OF same(2)] by (simp only:)
    then show ?thesis by (rule room_mono) simp
  next
    case new
    have S: "set (slabs_of (all_slabs as (v(c := u)))) = insert a ?A" using sub [OF new(2)] mem by auto
    have "12 + unat (0 :: u32) \<le> unat (maxOrder (buddies h))" using shapeD(2) buddy_inv_shape [OF B(1)] by simp
    from AllocateBuddy_works [OF B(1) this] new(1,3) obtain x B' where x: "block_address (buddies h) x = a" "buddy_inv (buddies h') B'"
        "same_region (buddies h) (buddies h')" "used_blocks B' = insert (x, 12) (used_blocks B)" by auto
    have ad: "block_address (buddies h') y = block_address (buddies h) y" for y using same_region_address [OF x(3)] by simp
    have "pages h' (all_slabs as (v(c := u))) B'" unfolding pages_def S using x(1,2,4) B(2) ad by (auto simp del: set_all_slabs)
    moreover have "card (used_blocks B') \<le> Suc k" unfolding x(4) using card_insert_le_m1 B(3,4) by (metis card_insert_if le_SucI Suc_le_mono)
    moreover have "finite (used_blocks B')" "snd ` used_blocks B' \<subseteq> {12}" using B(3,5) x(4) by auto
    ultimately show ?thesis unfolding room_def by blast
  qed
qed

section \<open>The first allocations\<close>

lemma room_allocates:
  assumes ok: "family_ok as s v" and a: "a \<in> set as" and r: "room (slab_mem s) (all_slabs as v) k"
    and k: "4096 * k < 2 ^ unat (maxOrder (buddies (slab_mem s)))"
  shows "\<exists>p s' u. cache_AllocateObject mem a s = Some (Inr (p, s')) \<and> family_ok as s' (v(a := u)) \<and> same_family as s s' \<and>
      (\<forall>b. b \<noteq> a \<longrightarrow> cache_objects s' b = cache_objects s b) \<and>
      p \<notin> objects (cache_of s a) (v a) \<and> objects (cache_of s' a) u = insert p (objects (cache_of s a) (v a)) \<and>
      room (slab_mem s') (all_slabs as (v(a := u))) (Suc k) \<and>
      (\<forall>b. map_option cache_name (cache_objects s' b) = map_option cache_name (cache_objects s b))"
proof -
  have "\<not> exhausted (slab_mem s)" by (rule room_not_exhausted [OF r k])
  then obtain p s' u where x: "cache_AllocateObject mem a s = Some (Inr (p, s'))" "family_ok as s' (v(a := u))" "same_family as s s'"
      "\<forall>b. b \<noteq> a \<longrightarrow> cache_objects s' b = cache_objects s b" "p \<notin> objects (cache_of s a) (v a)"
      "objects (cache_of s' a) u = insert p (objects (cache_of s a) (v a))" "grown (slab_mem s) (v a) (slab_mem s') u"
      "\<forall>b. map_option cache_name (cache_objects s' b) = map_option cache_name (cache_objects s b)"
    using family_allocates [OF ok a, of mem] by blast
  then show ?thesis using room_grown [OF r a x(7)] by blast
qed

lemma room_handed:
  assumes k: "kheap_ok s v" and len: "(len, c) \<in> set (classes s)" and t: "took s v c q s1 u"
    and r: "room (slab_mem s) (all_slabs (family s) v) k"
  shows "room (slab_mem (handed q c s1)) (all_slabs (family s) (v(c := u))) (Suc k)"
proof -
  note kd = kheapD [OF k] and td = tookD [OF k len t]
  note cf = kd(7) [OF len]
  have fam: "family_ok (family s) s1 (v(c := u))" and g: "grown (slab_mem s) (v c) (slab_mem s1) u" using t by (simp_all add: took_def)
  obtain e where e: "e \<in> set (slabs_of (all_slabs (family s) (v(c := u))))" "unat e + 28 \<le> unat q" "unat q + unat (objSize (cache_of s1 c)) \<le> unat e + 4096"
      "unat e + 4096 \<le> 4294967296" by (rule family_page [OF fam cf td(6)])
  have "unat q + 4 \<le> unat e + 4096" using e(3) td(7) kd(9) [OF len] by linarith
  then have w: "pages (slab_mem (handed q c s1)) (all_slabs (family s) (v(c := u))) B" if "pages (slab_mem s1) (all_slabs (family s) (v(c := u))) B" for B
    using pages_write [OF that e(1,4), of q 4 "store32 (object_bytes s1) q c"] e(2) store32_frame
    by (simp add: handed_def set_bytes_def object_bytes_def)
  show ?thesis using room_grown [OF r cf g] w unfolding room_def by blast
qed

section \<open>The sizes and the names of the classes\<close>

lemma aligned_size_0: "aligned_size len 0 = len"
  by (subst aligned_size_def, subst halve_align.simps) simp

lemma aligned_size_head: "aligned_size sizeof_SmallCache SLAB_HWCACHE_ALIGN = 96"
  by (subst aligned_size_def, subst halve_align.simps) (simp add: sizeof_SmallCache_def SLAB_HWCACHE_ALIGN_def ALIGN_TO_VAL_def)

lemma order_from_small: "order_from 0 k = k + 1" "order_from 1 k = k + 1" "order_from 3 k = k + 2"
  by (simp_all add: order_from.simps [of 0] order_from.simps [of 1] order_from.simps [of 3])

lemma class_orders: "(len, d) \<in> set size_classes \<Longrightarrow> GetOrder len \<le> SLAB_MAXORDER"
  by (auto simp: size_classes_def GetOrder_def PAGE_SHIFT_def SLAB_MAXORDER_def order_from_small)

lemma estimate_large:
  assumes "512 \<le> unat len" "unat len \<le> 8192" "unat ord \<le> 1"
  shows "\<exists>w. EstimateNrObjects ord len = Inr (of_nat (4096 * 2 ^ unat ord div unat len), w)"
proof -
  have "ord \<le> SLAB_MAXORDER" using assms(3) by (simp add: SLAB_MAXORDER_def word_le_nat_alt)
  then obtain n w where e: "EstimateNrObjects ord len = Inr (n, w)" "slab_bytes (unat len) (unat n) \<le> 4096 * 2 ^ unat ord"
     "4096 * 2 ^ unat ord < slab_bytes (unat len) (unat n + 1)"
    using EstimateNrObjects_fits [of len ord] assms(1,2) by auto
  have "unat n = 4096 * 2 ^ unat ord div unat len"
    using e(2,3) assms(1) by (intro sym [OF div_nat_eqI]) (simp_all add: slab_bytes_def mult.commute)
  then have "n = of_nat (4096 * 2 ^ unat ord div unat len)" by (metis of_nat_unat ucast_id)
  then show ?thesis using e(1) by simp
qed

lemma new_SlabCache_large:
  assumes "512 \<le> unat len" "unat len \<le> 8192"
  shows "\<exists>c. new_SlabCache a 0 len = Inr c"
proof -
  have ne: "(of_nat (4096 * 2 ^ k div unat len) :: u32) \<noteq> 0" if "unat len \<le> 4096 * 2 ^ k" "k \<le> 1" for k
  proof -
    have "4096 * 2 ^ k div unat len \<le> 8192 div unat len" using that(2) by (intro div_le_mono) (cases k; simp)
    also have "\<dots> \<le> 8192" by (rule div_le_dividend)
    finally have "4096 * 2 ^ k div unat len < 2 ^ 32" by simp
    moreover have "0 < 4096 * 2 ^ k div unat len" using that(1) assms(1) by (simp add: div_greater_zero_iff)
    ultimately show ?thesis using unat_of_nat32 [of "4096 * 2 ^ k div unat len"] by (intro notI) (simp only: unat_0, simp)
  qed
  obtain w where w: "EstimateNrObjects 0 len = Inr (of_nat (4096 div unat len), w)" using estimate_large [OF assms, of 0] by auto
  obtain z where z: "EstimateNrObjects 1 len = Inr (of_nat (8192 div unat len), z)" using estimate_large [OF assms, of 1] by auto
  have "\<exists>nr ord w. choose_order len 0 = Inr (nr, ord, w) \<and> nr \<noteq> 0 \<and> ord \<le> 1"
  proof (cases "unat len \<le> 4096")
    case True
    then show ?thesis using w ne [of 0] by (subst choose_order.simps) auto
  next
    case False
    then have "4096 div unat len = 0" by simp
    moreover have "choose_order len 1 = Inr (of_nat (8192 div unat len), 1, z)" using z ne [of 1] assms(2) by (subst choose_order.simps) simp
    ultimately show ?thesis using w ne [of 1] assms(2) by (subst choose_order.simps) (simp add: SLAB_MAXORDER_def)
  qed
  then obtain nr ord w where x: "choose_order len 0 = Inr (nr, ord, w)" "nr \<noteq> 0" "ord \<le> 1" by blast
  moreover have "\<not> SLAB_MAXORDER < ord" using x(3) by (simp add: SLAB_MAXORDER_def word_less_nat_alt word_le_nat_alt)
  ultimately show ?thesis by (simp add: new_SlabCache_def GetObjectCount_def aligned_size_0)
qed

lemma class_names:
  "map (\<lambda>(len, _). size_cache_name len) size_classes = map (\<lambda>ds. [0x73, 0x69, 0x7A, 0x65, 0x2D] @ ds)
     [[0x33, 0x32], [0x36, 0x34], [0x31, 0x32, 0x38], [0x32, 0x35, 0x36], [0x35, 0x31, 0x32], [0x31, 0x30, 0x32, 0x34], [0x32, 0x30, 0x34, 0x38],
      [0x34, 0x30, 0x39, 0x36], [0x38, 0x31, 0x39, 0x32]]"
  by (simp add: size_classes_def size_cache_name_def number_text_def hexChars_def digits_small digits_step)


section \<open>CreateCache\<close>

lemma runs_value: "p s = Some (Inr (x, s')) \<Longrightarrow> runs p s Q = Q x s'"
  by (simp add: runs_def)

lemma name_taken_runs:
  "\<forall>a \<in> set as. \<exists>obj. cache_objects s a = Some obj \<and> cache_name obj \<noteq> name \<Longrightarrow> name_taken name as s = Some (Inr (False, s))"
  by (induction as) (auto simp: run_get_cache ret_def)

text \<open>A cache at an address, at the end of the list.\<close>

definition with_cache :: "cache_kind \<Rightarrow> u32 \<Rightarrow> u8 list \<Rightarrow> SlabCache \<Rightarrow> links \<Rightarrow> dll \<Rightarrow> kernel_heap \<Rightarrow> kernel_heap" where
  "with_cache kind p name c ls l s =
     (put_cache p \<lparr>cache_kind = kind, cache_name = name, cache_base = c, hash_table = new_hashtable (\<lambda>_. 0), hash_storage = 0\<rparr> s)
     \<lparr>cache_links := ls, cacheList := l\<rparr>"

lemma with_cache_fields [simp]:
  "slab_mem (with_cache kind p name c ls l s) = slab_mem s" "cacheSizes (with_cache kind p name c ls l s) = cacheSizes s"
  "cacheHead (with_cache kind p name c ls l s) = cacheHead s" "region_size (with_cache kind p name c ls l s) = region_size s"
  "slab_ready (with_cache kind p name c ls l s) = slab_ready s" "cache_links (with_cache kind p name c ls l s) = ls"
  "cacheList (with_cache kind p name c ls l s) = l" "object_bytes (with_cache kind p name c ls l s) = object_bytes s"
  "cache_of (with_cache kind p name c ls l s) b = (if b = p then c else cache_of s b)"
  "cache_objects (with_cache kind p name c ls l s) b = (if b = p
     then Some \<lparr>cache_kind = kind, cache_name = name, cache_base = c, hash_table = new_hashtable (\<lambda>_. 0), hash_storage = 0\<rparr> else cache_objects s b)"
  by (simp_all add: with_cache_def object_bytes_def cache_of_def put_cache_def)

lemma new_cache_runs:
  assumes "new_SlabCache p align len = Inr c" "length name < SLAB_MAX_NAMELEN" "holds (cache_links s, cacheList s) L" "p \<noteq> 0" "p \<notin> set L"
  shows "\<exists>ls l. holds (ls, l) (L @ [p]) \<and>
    seq (new_cache kind p name align len) (seq (append_cache p) (ret p)) s = Some (Inr (p, with_cache kind p name c ls l s))"
proof -
  obtain ls l where x: "Append p (cache_links s, cacheList s) = Inr (ls, l)" "holds (ls, l) (L @ [p])"
    using holds_Append [OF assms(3-5)] by blast
  then show ?thesis using assms(1,2)
    by (intro exI [of _ ls] exI [of _ l]) (simp add: new_cache_def append_cache_def with_cache_def bnd_def seq_def lift_result_def modify_def ret_def)
qed

lemma CreateCache_refused_not:
  assumes "length name < SLAB_MAX_NAMELEN" "GetOrder len \<le> SLAB_MAXORDER" "holds (cache_links s, cacheList s) L"
    and "\<forall>a \<in> set L. \<exists>obj. cache_objects s a = Some obj \<and> cache_name obj \<noteq> name"
  shows "CreateCache n name len align s = (if SLAB_LIMIT < len
    then bnd (AllocateFromSizeSlabs n sizeof_LargeCache) (\<lambda>a. if a = 0 then ret 0
       else seq (new_cache LargeCache a name align len) (seq (append_cache a) (ret a))) s
    else bnd (cache_AllocateObject (size_slabs n) (cacheHead s)) (\<lambda>a. if a = 0 then ret 0
       else seq (new_cache SmallCache a name align len) (seq (append_cache a) (ret a))) s)"
proof -
  have "\<not> (SLAB_MAX_NAMELEN < length name \<or> SLAB_MAXORDER < GetOrder len)" using assms(1,2) by simp
  moreover have "elements (cache_links s, cacheList s) = Some L" by (rule elements_holds [OF assms(3)])
  ultimately show ?thesis
    using name_taken_runs [OF assms(4)] by (simp add: CreateCache_def bnd_def lift_option_def reads_of_def)
qed

section \<open>A new member of a family\<close>

lemma zip_right_member:
  assumes "y \<in> set ys" "length ys \<le> length xs"
  obtains x where "(x, y) \<in> set (zip xs ys)"
proof -
  have "map snd (zip xs ys) = ys" using assms(2) by (simp add: map_snd_zip_take)
  then have "y \<in> snd ` set (zip xs ys)" using assms(1) by (metis list.set_map)
  then show ?thesis using that by auto
qed

lemma slabs_of_none [simp]: "slabs_of no_slabs = []"
  by (simp add: no_slabs_def slabs_of_def)

lemma family_view_cong: "(\<And>a. a \<in> set as \<Longrightarrow> v' a = v a) \<Longrightarrow> family_ok as s v' = family_ok as s v"
proof -
  assume eq: "\<And>a. a \<in> set as \<Longrightarrow> v' a = v a"
  then have "slab_blocks h (all_slabs as v') = slab_blocks h (all_slabs as v)" for h
    by (intro slab_blocks_cong) simp_all
  then show ?thesis using eq by (simp add: family_ok_def)
qed

lemma family_add:
  assumes ok: "family_ok as s v" and p: "p \<notin> set as" "p \<noteq> 0"
    and obj: "cache_objects s' p = Some obj" "cache_kind obj = SmallCache" "cache_inv (cache_base obj) (slab_mem s) no_slabs"
    and same: "slab_mem s' = slab_mem s" "\<And>a. a \<in> set as \<Longrightarrow> cache_objects s' a = cache_objects s a"
  shows "family_ok (as @ [p]) s' (v(p := no_slabs))"
proof -
  have old: "(v(p := no_slabs)) a = v a" if "a \<in> set as" for a using p(1) that by auto
  have set: "set (slabs_of (all_slabs (as @ [p]) (v(p := no_slabs)))) = set (slabs_of (all_slabs as v))" using old by simp
  have "slab_blocks (slab_mem s) (all_slabs as v)" using ok by (simp add: family_ok_def)
  then have "slab_blocks (slab_mem s) (all_slabs (as @ [p]) (v(p := no_slabs)))" using slab_blocks_cong [OF set] by simp
  then show ?thesis using ok p obj same old unfolding family_ok_def by auto
qed

section \<open>The invariant of the start\<close>

text \<open>\<open>i\<close> classes have their caches, the addresses \<open>L\<close>.\<close>

definition region_ok :: "kernel_heap \<Rightarrow> bool" where
  "region_ok s \<longleftrightarrow> unat (cacheHead s) < unat KERNEL_SLAB_ALLOCATOR_START \<and>
     startAddress (buddies (slab_mem s)) = KERNEL_SLAB_ALLOCATOR_START \<and> unat (maxOrder (buddies (slab_mem s))) = 27 \<and>
     region_size s = KERNEL_SLAB_ALLOCATOR_SIZE"

definition names_ok :: "kernel_heap \<Rightarrow> u32 list \<Rightarrow> bool" where
  "names_ok s L \<longleftrightarrow> map (\<lambda>a. map_option cache_name (cache_objects s a)) L = map (\<lambda>e. Some (size_cache_name (fst e))) (take (length L) size_classes)"

definition starting :: "kernel_heap \<Rightarrow> (u32 \<Rightarrow> slab_view) \<Rightarrow> u32 list \<Rightarrow> bool" where
  "starting s v L \<longleftrightarrow> length L \<le> 9 \<and> cacheSizes s = zip (map fst size_classes) (L @ replicate (9 - length L) 0) \<and>
     family_ok (cacheHead s # take 4 L) s v \<and> room (slab_mem s) (all_slabs (cacheHead s # take 4 L) v) (length L) \<and>
     holds (cache_links s, cacheList s) L \<and> names_ok s L \<and> region_ok s \<and>
     set (take 5 L) \<subseteq> objects (cache_of s (cacheHead s)) (v (cacheHead s)) \<and>
     (\<forall>(len, c) \<in> set (zip (map fst size_classes) (take 4 L)). objSize (cache_of s c) = len \<and>
       (\<forall>q \<in> objects (cache_of s c) (v c). load32 (object_bytes s) q = c)) \<and>
     (length L \<le> 5 \<longrightarrow> (\<forall>c \<in> set (take 4 L). objects (cache_of s c) (v c) = {})) \<and>
     (\<forall>p \<in> set (drop 5 L). \<exists>j. (p, j) \<in> kblocks s v)"

lemma startingD:
  assumes "starting s v L"
  shows "length L \<le> 9" "cacheSizes s = zip (map fst size_classes) (L @ replicate (9 - length L) 0)"
    "family_ok (cacheHead s # take 4 L) s v" "room (slab_mem s) (all_slabs (cacheHead s # take 4 L) v) (length L)"
    "holds (cache_links s, cacheList s) L" "names_ok s L" "region_ok s"
    "set (take 5 L) \<subseteq> objects (cache_of s (cacheHead s)) (v (cacheHead s))"
    "(len, c) \<in> set (zip (map fst size_classes) (take 4 L)) \<Longrightarrow> objSize (cache_of s c) = len"
    "(len, c) \<in> set (zip (map fst size_classes) (take 4 L)) \<Longrightarrow> q \<in> objects (cache_of s c) (v c) \<Longrightarrow> load32 (object_bytes s) q = c"
    "length L \<le> 5 \<Longrightarrow> c \<in> set (take 4 L) \<Longrightarrow> objects (cache_of s c) (v c) = {}"
    "p \<in> set (drop 5 L) \<Longrightarrow> \<exists>j. (p, j) \<in> kblocks s v"
  using assms unfolding starting_def by auto

lemma size_classes_length [simp]: "length size_classes = 9"
  by (simp add: size_classes_def)

lemma starting_kheap:
  assumes st: "starting s v L" and four: "4 \<le> length L"
  shows "kheap_ok s v" "classes s = zip (take 4 (map fst size_classes)) (take 4 L)" "family s = cacheHead s # take 4 L"
proof -
  note d = startingD [OF st]
  show cl: "classes s = zip (take 4 (map fst size_classes)) (take 4 L)"
    using four by (simp add: classes_def d(2) take_zip)
  then show fam: "family s = cacheHead s # take 4 L" using four by (simp add: family_def)
  have "map fst (classes s) = take 4 (map fst size_classes)" unfolding cl using four by simp
  also have "\<dots> = [0x20, 0x40, 0x80, 0x100]" by (simp add: size_classes_def)
  finally have sz: "map fst (classes s) = [0x20, 0x40, 0x80, 0x100]" .
  have "objSize (cache_of s c) = len \<and> c \<in> objects (cache_of s (cacheHead s)) (v (cacheHead s)) \<and>
      (\<forall>q \<in> objects (cache_of s c) (v c). load32 (object_bytes s) q = c)" if c: "(len, c) \<in> set (classes s)" for len c
  proof -
    have z: "(len, c) \<in> set (zip (map fst size_classes) (take 4 L))"
      using c in_set_takeD [of "(len, c)" 4 "zip (map fst size_classes) (take 4 L)"] unfolding cl by (simp only: take_zip take_take min.idem)
    have "c \<in> set (take 4 L)" using c unfolding cl by (rule set_zip_rightD)
    then have "c \<in> set (take 5 L)" using set_take_subset_set_take [of 4 5 L] by auto
    then show ?thesis using d(8-10) z by blast
  qed
  moreover have "unat (cacheHead s) < unat (startAddress (buddies (slab_mem s)))" using d(7) by (simp add: region_ok_def)
  ultimately show "kheap_ok s v" unfolding kheap_ok_def fam using sz d(3) by blast
qed

lemma names_fresh:
  assumes "names_ok s L" "length L < 9"
  shows "\<forall>a \<in> set L. \<exists>obj. cache_objects s a = Some obj \<and> cache_name obj \<noteq> size_cache_name (fst (size_classes ! length L))"
proof
  fix a
  assume "a \<in> set L"
  then obtain k where k: "k < length L" "a = L ! k" by (auto simp: in_set_conv_nth)
  let ?N = "map (\<lambda>(len, _). size_cache_name len) size_classes"
  have "map (\<lambda>a. map_option cache_name (cache_objects s a)) L ! k = map (\<lambda>e. Some (size_cache_name (fst e))) (take (length L) size_classes) ! k"
    using assms(1) by (simp add: names_ok_def)
  then have "map_option cache_name (cache_objects s a) = Some (size_cache_name (fst (size_classes ! k)))" using k assms(2) by simp
  then obtain obj where obj: "cache_objects s a = Some obj" "cache_name obj = size_cache_name (fst (size_classes ! k))" by auto
  have "distinct ?N" unfolding class_names by simp
  moreover have "length ?N = 9" by simp
  ultimately have "?N ! k \<noteq> ?N ! length L" using k(1) assms(2) nth_eq_iff_index_eq [of ?N k "length L"] by linarith
  moreover have "?N ! j = size_cache_name (fst (size_classes ! j))" if "j < 9" for j using that by (simp add: case_prod_beta)
  ultimately have "cache_name obj \<noteq> size_cache_name (fst (size_classes ! length L))" using obj(2) k(1) assms(2) by simp
  then show "\<exists>obj. cache_objects s a = Some obj \<and> cache_name obj \<noteq> size_cache_name (fst (size_classes ! length L))" using obj(1) by blast
qed

lemma names_append:
  assumes "names_ok s L" "length L < 9" "\<And>a. a \<in> set L \<Longrightarrow> map_option cache_name (cache_objects s' a) = map_option cache_name (cache_objects s a)"
    and "map_option cache_name (cache_objects s' p) = Some (size_cache_name (fst (size_classes ! length L)))"
  shows "names_ok s' (L @ [p])"
proof -
  have "map (\<lambda>a. map_option cache_name (cache_objects s' a)) L = map (\<lambda>a. map_option cache_name (cache_objects s a)) L" using assms(3) by simp
  then have "map (\<lambda>a. map_option cache_name (cache_objects s' a)) L = map (\<lambda>e. Some (size_cache_name (fst e))) (take (length L) size_classes)"
    using assms(1) by (simp only: names_ok_def)
  moreover have "take (length (L @ [p])) size_classes = take (length L) size_classes @ [size_classes ! length L]"
    using assms(2) by (simp add: take_Suc_conv_app_nth)
  ultimately show ?thesis using assms(4) by (simp only: names_ok_def map_append) simp
qed

lemma sizes_append:
  assumes "length L < 9"
  shows "(zip (map fst size_classes) (L @ replicate (9 - length L) 0))[length L := (fst (size_classes ! length L), p)] =
    zip (map fst size_classes) ((L @ [p]) @ replicate (9 - length (L @ [p])) 0)"
proof -
  have "9 - length L = Suc (9 - Suc (length L))" using assms by simp
  then have "(L @ replicate (9 - length L) 0)[length L := p] = (L @ [p]) @ replicate (9 - length (L @ [p])) 0" by simp
  moreover have "(map fst size_classes)[length L := fst (size_classes ! length L)] = map fst size_classes"
    using list_update_id [of "map fst size_classes" "length L"] nth_map [of "length L" size_classes fst] assms by simp
  ultimately show ?thesis by (simp only: update_zip fst_conv snd_conv)
qed

section \<open>A step of the start\<close>

definition class_size :: "nat \<Rightarrow> u32" where
  "class_size i = fst (size_classes ! i)"

lemma class_size_values:
  "class_size 0 = 0x20" "class_size 1 = 0x40" "class_size 2 = 0x80" "class_size 3 = 0x100" "class_size 4 = 0x200" "class_size 5 = 0x400"
  "class_size 6 = 0x800" "class_size 7 = 0x1000" "class_size 8 = 0x2000"
  by (simp_all add: class_size_def size_classes_def)

lemma class_size_bounds:
  "i < 4 \<Longrightarrow> 32 \<le> unat (class_size i) \<and> unat (class_size i) \<le> 256" "class_size 4 = 512"
  "5 \<le> i \<Longrightarrow> i < 9 \<Longrightarrow> 512 < unat (class_size i) \<and> unat (class_size i) \<le> 8192"
  "i < 9 \<Longrightarrow> GetOrder (class_size i) \<le> SLAB_MAXORDER" "i < 9 \<Longrightarrow> length (size_cache_name (class_size i)) < SLAB_MAX_NAMELEN"
proof -
  show "class_size 4 = 512" by (simp add: class_size_values)
  show "32 \<le> unat (class_size i) \<and> unat (class_size i) \<le> 256" if "i < 4"
  proof -
    have "i = 0 \<or> i = 1 \<or> i = 2 \<or> i = 3" using that by linarith
    then show ?thesis by (elim disjE) (simp_all only: class_size_values, simp_all)
  qed
  show "512 < unat (class_size i) \<and> unat (class_size i) \<le> 8192" if "5 \<le> i" "i < 9"
  proof -
    have "i = 5 \<or> i = 6 \<or> i = 7 \<or> i = 8" using that by linarith
    then show ?thesis by (elim disjE) (simp_all only: class_size_values, simp_all)
  qed
  show "i < 9 \<Longrightarrow> GetOrder (class_size i) \<le> SLAB_MAXORDER"
    by (rule class_orders [of _ "snd (size_classes ! i)"]) (simp add: class_size_def)
  let ?N = "map (\<lambda>(len, _). size_cache_name len) size_classes"
  have "list_all (\<lambda>x. length x < 40) ?N" unfolding class_names by simp
  then show "i < 9 \<Longrightarrow> length (size_cache_name (class_size i)) < SLAB_MAX_NAMELEN"
    by (simp add: list_all_length class_size_def SLAB_MAX_NAMELEN_def case_prod_beta)
qed

text \<open>The step with the address of the new cache.\<close>

lemma init_size_cache_step:
  assumes st: "starting s v L" and i: "length L < 9" and c: "CreateCache n (size_cache_name (class_size (length L))) (class_size (length L)) 0 s = Some (Inr (p, s'))"
    and p: "p \<noteq> 0"
  shows "init_size_cache n (length L) s = Some (Inr ((), s'\<lparr>cacheSizes := (cacheSizes s')[length L := (class_size (length L), p)]\<rparr>))"
proof -
  have "fst (cacheSizes s ! length L) = class_size (length L)" using startingD(2) [OF st] i by (simp add: class_size_def)
  then show ?thesis using c p by (simp add: init_size_cache_def bnd_def reads_of_def modify_def)
qed

lemma CreateCache_start:
  assumes st: "starting s v L" and i: "length L < 9" and p: "p \<noteq> 0" "p \<notin> set L" and c: "new_SlabCache p 0 (class_size (length L)) = Inr c"
    and a: "if length L < 5 then cache_AllocateObject (size_slabs n) (cacheHead s) s = Some (Inr (p, s1))
      else AllocateFromSizeSlabs n sizeof_LargeCache s = Some (Inr (p, s1))"
    and same: "cache_links s1 = cache_links s" "cacheList s1 = cacheList s"
  shows "\<exists>ls l. holds (ls, l) (L @ [p]) \<and> CreateCache n (size_cache_name (class_size (length L))) (class_size (length L)) 0 s =
    Some (Inr (p, with_cache (if length L < 5 then SmallCache else LargeCache) p (size_cache_name (class_size (length L))) c ls l s1))"
proof -
  note d = startingD [OF st] and b = class_size_bounds
  let ?kind = "if length L < 5 then SmallCache else LargeCache" and ?len = "class_size (length L)"
  have lim: "SLAB_LIMIT < ?len \<longleftrightarrow> \<not> length L < 5"
  proof -
    have "length L < 4 \<or> length L = 4 \<or> 5 \<le> length L" by linarith
    then show ?thesis using b(1) [of "length L"] b(2) b(3) [of "length L"] i by (auto simp: word_less_nat_alt SLAB_LIMIT_512)
  qed
  have "holds (cache_links s1, cacheList s1) L" using d(5) same by simp
  then obtain ls l where x: "holds (ls, l) (L @ [p])" "seq (new_cache ?kind p (size_cache_name ?len) 0 ?len) (seq (append_cache p) (ret p)) s1 =
      Some (Inr (p, with_cache ?kind p (size_cache_name ?len) c ls l s1))"
    using new_cache_runs [OF c b(5) [OF i] _ p, of s1 ?kind] by blast
  have fresh: "\<forall>a \<in> set L. \<exists>obj. cache_objects s a = Some obj \<and> cache_name obj \<noteq> size_cache_name ?len"
    using names_fresh [OF d(6) i] by (simp add: class_size_def)
  have "CreateCache n (size_cache_name ?len) ?len 0 s = Some (Inr (p, with_cache ?kind p (size_cache_name ?len) c ls l s1))"
    unfolding CreateCache_refused_not [OF b(5) [OF i] b(4) [OF i] d(5) fresh] lim using a x(2) p(1)
    by (cases "length L < 5") (simp_all add: bnd_def)
  then show ?thesis using x(1) by blast
qed

text \<open>The cache of caches has handed out the object \<open>p\<close>.\<close>

definition small_took :: "kernel_heap \<Rightarrow> (u32 \<Rightarrow> slab_view) \<Rightarrow> u32 list \<Rightarrow> u32 \<Rightarrow> kernel_heap \<Rightarrow> slab_view \<Rightarrow> bool" where
  "small_took s v L p s1 u \<longleftrightarrow> family_ok (cacheHead s # take 4 L) s1 (v(cacheHead s := u)) \<and> same_family (cacheHead s # take 4 L) s s1 \<and>
     (\<forall>b. b \<noteq> cacheHead s \<longrightarrow> cache_objects s1 b = cache_objects s b) \<and> p \<notin> objects (cache_of s (cacheHead s)) (v (cacheHead s)) \<and>
     objects (cache_of s1 (cacheHead s)) u = insert p (objects (cache_of s (cacheHead s)) (v (cacheHead s))) \<and>
     room (slab_mem s1) (all_slabs (cacheHead s # take 4 L) (v(cacheHead s := u))) (Suc (length L)) \<and>
     (\<forall>b. map_option cache_name (cache_objects s1 b) = map_option cache_name (cache_objects s b))"

lemma small_tookD:
  assumes st: "starting s v L" and i: "length L < 5" and t: "small_took s v L p s1 u"
  shows "cacheSizes s1 = cacheSizes s" "cacheHead s1 = cacheHead s" "cache_links s1 = cache_links s" "cacheList s1 = cacheList s"
    "region_ok s1" "slab_ready s1 = slab_ready s" "p \<noteq> 0" "p \<noteq> cacheHead s" "p \<notin> set L" "p \<notin> set (take 4 L)"
    "b \<noteq> cacheHead s \<Longrightarrow> cache_of s1 b = cache_of s b"
proof -
  note d = startingD [OF st]
  let ?hd = "cacheHead s" and ?as = "cacheHead s # take 4 L"
  have same: "same_family ?as s s1" and fam: "family_ok ?as s1 (v(?hd := u))" using t by (simp_all add: small_took_def)
  show fl: "cacheSizes s1 = cacheSizes s" "cacheHead s1 = ?hd" "cache_links s1 = cache_links s" "cacheList s1 = cacheList s"
      "region_ok s1" "slab_ready s1 = slab_ready s" using same d(7) by (simp_all add: same_family_def region_ok_def)
  have hd: "?hd \<in> set ?as" by simp
  have po: "p \<in> objects (cache_of s1 ?hd) ((v(?hd := u)) ?hd)" using t by (simp add: small_took_def)
  obtain e where "e \<in> set (slabs_of (all_slabs ?as (v(?hd := u))))" and e: "unat e + 28 \<le> unat p"
      "unat p + unat (objSize (cache_of s1 ?hd)) \<le> unat e + 4096" "unat e + 4096 \<le> 4294967296"
      "unat (startAddress (buddies (slab_mem s1))) \<le> unat e" by (rule family_page [OF fam hd po])
  show "p \<noteq> 0" "p \<noteq> ?hd" using e(1,4) fl(2,5) by (auto simp: region_ok_def)
  show "p \<notin> set L" using d(8) i t by (auto simp: small_took_def)
  then show "p \<notin> set (take 4 L)" using set_take_subset by fast
  show "b \<noteq> cacheHead s \<Longrightarrow> cache_of s1 b = cache_of s b" using t by (simp add: small_took_def cache_of_def)
qed

lemma small_cache_made:
  assumes i: "length L < 5" and t: "small_took s v L p s1 u"
  shows "\<exists>c. new_SlabCache p 0 (class_size (length L)) = Inr c \<and>
    (length L < 4 \<longrightarrow> cache_inv c (slab_mem s1) no_slabs \<and> objects c no_slabs = {} \<and> objSize c = class_size (length L))"
proof (cases "length L < 4")
  case True
  obtain B where B: "buddy_inv (buddies (slab_mem s1)) B" "4096 dvd unat (startAddress (buddies (slab_mem s1)))"
    using t unfolding small_took_def family_ok_def slab_blocks_def by blast
  then show ?thesis using new_cache_inv [of "class_size (length L)" 0 "slab_mem s1" B p] class_size_bounds(1) [OF True] True
    by (simp add: aligned_size_0)
next
  case False
  then have "length L = 4" using i by simp
  then show ?thesis using new_SlabCache_large [of "class_size 4" p] class_size_bounds(2) by simp
qed

lemma classes_snoc:
  assumes a: "(m, a) \<in> set (zip (map fst size_classes) (take 4 (L @ [p])))"
  shows "(m, a) \<in> set (zip (map fst size_classes) (take 4 L)) \<or> length L < 4 \<and> m = class_size (length L) \<and> a = p"
proof (cases "length L < 4")
  case True
  then obtain k where k: "k < length L + 1" "m = class_size k" "a = (L @ [p]) ! k" using a by (auto simp: set_zip class_size_def)
  show ?thesis
  proof (cases "k < length L")
    case l: True
    then have "(m, a) = zip (map fst size_classes) (take 4 L) ! k" "k < length (zip (map fst size_classes) (take 4 L))"
      using k True by (simp_all add: class_size_def nth_append)
    then show ?thesis using nth_mem by metis
  next
    case False
    then have "k = length L" using k(1) by simp
    then show ?thesis using k True by simp
  qed
qed (use a in simp)

lemma small_family:
  assumes st: "starting s v L" and i: "length L < 5" and t: "small_took s v L p s1 u"
    and s': "slab_mem s' = slab_mem s1" "\<And>b. b \<noteq> p \<Longrightarrow> cache_objects s' b = cache_objects s1 b"
    and obj: "cache_objects s' p = Some obj" "cache_kind obj = SmallCache" "length L < 4 \<Longrightarrow> cache_inv (cache_base obj) (slab_mem s1) no_slabs"
  shows "family_ok (cacheHead s # take 4 (L @ [p])) s' (v(cacheHead s := u, p := no_slabs))"
    "room (slab_mem s') (all_slabs (cacheHead s # take 4 (L @ [p])) (v(cacheHead s := u, p := no_slabs))) (length (L @ [p]))"
proof -
  let ?hd = "cacheHead s" and ?as = "cacheHead s # take 4 L" and ?v = "v(cacheHead s := u, p := no_slabs)"
  note p = small_tookD(7,8,10) [OF st i t]
  have fam: "family_ok ?as s1 (v(?hd := u))" and room: "room (slab_mem s1) (all_slabs ?as (v(?hd := u))) (Suc (length L))"
    using t by (simp_all add: small_took_def)
  have other: "cache_objects s' b = cache_objects s1 b" if "b \<in> set ?as" for b by (rule s'(2)) (use that p in auto)
  have "family_ok (?hd # take 4 (L @ [p])) s' ?v \<and>
      set (slabs_of (all_slabs (?hd # take 4 (L @ [p])) ?v)) = set (slabs_of (all_slabs ?as (v(?hd := u))))"
  proof (cases "length L < 4")
    case True
    have "family_ok (?as @ [p]) s' ((v(?hd := u))(p := no_slabs))"
      by (rule family_add [OF fam]) (use p obj True s'(1) other in auto)
    then show ?thesis using True p by (auto split: if_splits)
  next
    case False
    have "family_ok ?as s' ?v = family_ok ?as s1 ?v" by (rule family_cong) (use s'(1) other in auto)
    also have "\<dots> = family_ok ?as s1 (v(?hd := u))" by (rule family_view_cong) (use p in auto)
    finally have "family_ok ?as s' ?v" using fam by simp
    moreover have "?v a = (v(?hd := u)) a" if "a \<in> set ?as" for a using that p by auto
    ultimately show ?thesis using False by simp
  qed
  then show "family_ok (?hd # take 4 (L @ [p])) s' ?v" and set: "room (slab_mem s') (all_slabs (?hd # take 4 (L @ [p])) ?v) (length (L @ [p]))"
    using room room_cong [of "slab_mem s'" "slab_mem s1"] s'(1) by (metis length_append_singleton)+
qed

text \<open>The classes of a start with a new small cache have no objects.\<close>

lemma small_classes:
  assumes st: "starting s v L" and i: "length L < 5" and t: "small_took s v L p s1 u"
    and of: "\<And>b. cache_of s' b = (if b = p then c else cache_of s1 b)"
    and c: "length L < 4 \<Longrightarrow> objects c no_slabs = {} \<and> objSize c = class_size (length L)"
  shows "(m, a) \<in> set (zip (map fst size_classes) (take 4 (L @ [p]))) \<Longrightarrow>
      objSize (cache_of s' a) = m \<and> objects (cache_of s' a) ((v(cacheHead s := u, p := no_slabs)) a) = {}"
    and "a \<in> set (take 4 (L @ [p])) \<Longrightarrow> objects (cache_of s' a) ((v(cacheHead s := u, p := no_slabs)) a) = {}"
proof -
  note d = startingD [OF st] and td = small_tookD [OF st i t]
  show cls: "objSize (cache_of s' a) = m \<and> objects (cache_of s' a) ((v(cacheHead s := u, p := no_slabs)) a) = {}"
    if a: "(m, a) \<in> set (zip (map fst size_classes) (take 4 (L @ [p])))" for m a
    using classes_snoc [OF a]
  proof
    assume z: "(m, a) \<in> set (zip (map fst size_classes) (take 4 L))"
    then have "a \<in> set (take 4 L)" by (rule set_zip_rightD)
    moreover from this have "a \<noteq> cacheHead s" "a \<noteq> p" using d(3) td(10) by (auto simp: family_ok_def)
    ultimately show ?thesis using d(9) [OF z] d(11) i of td(11) by simp
  qed (use c of in simp)
  assume mem: "a \<in> set (take 4 (L @ [p]))"
  have "length (take 4 (L @ [p])) \<le> length (map fst size_classes)" unfolding length_take length_map size_classes_length by linarith
  from zip_right_member [OF mem this] obtain m where "(m, a) \<in> set (zip (map fst size_classes) (take 4 (L @ [p])))" by blast
  then show "objects (cache_of s' a) ((v(cacheHead s := u, p := no_slabs)) a) = {}" using cls by blast
qed

lemma starting_small:
  assumes st: "starting s v L" and i: "length L < 5" and t: "small_took s v L p s1 u" and l: "holds (ls, l) (L @ [p])"
    and c: "length L < 4 \<longrightarrow> cache_inv c (slab_mem s1) no_slabs \<and> objects c no_slabs = {} \<and> objSize c = class_size (length L)"
    and s2: "s2 = with_cache SmallCache p (size_cache_name (class_size (length L))) c ls l s1"
  shows "starting (s2\<lparr>cacheSizes := (cacheSizes s2)[length L := (class_size (length L), p)]\<rparr>) (v(cacheHead s := u, p := no_slabs)) (L @ [p])"
    (is "starting ?s ?v _")
proof -
  note d = startingD [OF st] and td = small_tookD [OF st i t]
  have of: "cache_of ?s b = (if b = p then c else cache_of s1 b)" for b using with_cache_fields(9) by (simp add: cache_of_def s2)
  have obj: "cache_objects ?s p = Some \<lparr>cache_kind = SmallCache, cache_name = size_cache_name (class_size (length L)), cache_base = c,
      hash_table = new_hashtable (\<lambda>_. 0), hash_storage = 0\<rparr>" by (simp add: s2)
  have L5: "take 5 L = L" "take 5 (L @ [p]) = L @ [p]" "drop 5 (L @ [p]) = []" using i by simp_all
  have sz: "cacheSizes ?s = zip (map fst size_classes) ((L @ [p]) @ replicate (9 - length (L @ [p])) 0)"
    using sizes_append [of L p] i td(1) d(2) by (simp add: class_size_def s2)
  have fam: "family_ok (cacheHead s # take 4 (L @ [p])) ?s ?v" "room (slab_mem ?s) (all_slabs (cacheHead s # take 4 (L @ [p])) ?v) (length (L @ [p]))"
    by (rule small_family [OF st i t _ _ obj]; use c in \<open>simp add: s2\<close>)+
  have nm: "names_ok ?s (L @ [p])"
    by (rule names_append [OF d(6)]) (use i td(9) t in \<open>auto simp: class_size_def s2 small_took_def\<close>)
  have cls: "objSize (cache_of ?s a) = m \<and> objects (cache_of ?s a) (?v a) = {}" if "(m, a) \<in> set (zip (map fst size_classes) (take 4 (L @ [p])))" for m a
    by (rule small_classes(1) [OF st i t of _ that]) (use c in simp)
  have none: "objects (cache_of ?s a) (?v a) = {}" if "a \<in> set (take 4 (L @ [p]))" for a
    by (rule small_classes(2) [OF st i t of _ that]) (use c in simp)
  show ?thesis
    unfolding starting_def
  proof (intro conjI)
    show "set (take 5 (L @ [p])) \<subseteq> objects (cache_of ?s (cacheHead ?s)) (?v (cacheHead ?s))"
      using d(8) t L5 of td(2,8) by (auto simp: small_took_def s2)
    show "\<forall>(m, a) \<in> set (zip (map fst size_classes) (take 4 (L @ [p]))). objSize (cache_of ?s a) = m \<and>
        (\<forall>q \<in> objects (cache_of ?s a) (?v a). load32 (object_bytes ?s) q = a)"
    proof (rule ballI)
      fix e
      assume "e \<in> set (zip (map fst size_classes) (take 4 (L @ [p])))"
      then show "case e of (m, a) \<Rightarrow> objSize (cache_of ?s a) = m \<and> (\<forall>q \<in> objects (cache_of ?s a) (?v a). load32 (object_bytes ?s) q = a)"
        using cls [of "fst e" "snd e"] by (simp only: prod.collapse case_prod_beta ball_empty simp_thms)
    qed
    show "length (L @ [p]) \<le> 5 \<longrightarrow> (\<forall>a \<in> set (take 4 (L @ [p])). objects (cache_of ?s a) (?v a) = {})" using none by blast
    show "region_ok ?s" using td(5) by (simp add: region_ok_def s2)
  qed (use i sz fam l nm td(2) L5 s2 in simp_all)
qed

lemma start_small:
  assumes st: "starting s v L" and i: "length L < 5"
  shows "\<exists>s' v' p. init_size_cache n (length L) s = Some (Inr ((), s')) \<and> starting s' v' (L @ [p]) \<and> slab_ready s' = slab_ready s"
proof -
  note d = startingD [OF st]
  have hd: "cacheHead s \<in> set (cacheHead s # take 4 L)" by simp
  have max: "unat (maxOrder (buddies (slab_mem s))) = 27" using d(7) by (simp add: region_ok_def)
  have room: "4096 * length L < 2 ^ unat (maxOrder (buddies (slab_mem s)))" using i unfolding max by simp
  obtain p s1 u where x: "cache_AllocateObject (size_slabs n) (cacheHead s) s = Some (Inr (p, s1))" "small_took s v L p s1 u"
    using room_allocates [OF d(3) hd d(4) room, of "size_slabs n"] unfolding small_took_def by blast
  note td = small_tookD [OF st i x(2)]
  obtain c where c: "new_SlabCache p 0 (class_size (length L)) = Inr c"
      "length L < 4 \<longrightarrow> cache_inv c (slab_mem s1) no_slabs \<and> objects c no_slabs = {} \<and> objSize c = class_size (length L)"
    using small_cache_made [OF i x(2)] by blast
  let ?name = "size_cache_name (class_size (length L))"
  obtain ls l where w: "holds (ls, l) (L @ [p])" "CreateCache n ?name (class_size (length L)) 0 s =
      Some (Inr (p, with_cache SmallCache p ?name c ls l s1))"
    using CreateCache_start [OF st _ td(7,9) c(1), of n s1] x(1) td(3,4) i by auto
  show ?thesis using init_size_cache_step [OF st _ w(2) td(7)] starting_small [OF st i x(2) w(1) c(2) refl] td(6) i by fastforce
qed

text \<open>A new block of a client is not where a cache is.\<close>

lemma kblock_fresh:
  assumes k: "kheap_ok s v" and len: "(len, c) \<in> set (classes s)" and t: "took s v c q s1 u" and x: "(x, j) \<in> kblocks s v"
  shows "x \<noteq> q + 4"
proof
  assume eq: "x = q + 4"
  let ?s = "handed q c s1" and ?v = "v(c := u)"
  note ok = handed_ok [OF k len t] and b = handed_blocks [OF k len t]
  obtain l d where d: "(l, d) \<in> set (classes s)" "j = unat l - 4" using x by (auto simp: kblocks_def)
  have ne: "j \<noteq> unat len - 4" using x b(2) eq by auto
  have "sep (q + 4) j (q + 4) (unat len - 4)" by (rule kblocks_sep [OF ok]) (use x ne in \<open>auto simp: b(1) eq\<close>)
  moreover have "0 < j" "0 < unat len - 4" using kheapD(9) [OF k d(1)] kheapD(9) [OF k len] d(2) by simp_all
  ultimately show False by (auto simp: sep_def)
qed

lemma object_fresh:
  assumes k: "kheap_ok s v" and len: "(len, c) \<in> set (classes s)" and t: "took s v c q s1 u"
    and x: "x \<in> objects (cache_of s (cacheHead s)) (v (cacheHead s))"
  shows "x \<noteq> q + 4"
proof -
  note kd = kheapD [OF k] and td = tookD [OF k len t]
  have fam: "family_ok (family s) s1 (v(c := u))" using t by (simp add: took_def)
  have hd: "cacheHead s \<in> set (family s)" "cacheHead s \<noteq> c" using kd(8) [OF len] by (auto simp: family_def)
  have x1: "x \<in> objects (cache_of s1 (cacheHead s)) ((v(c := u)) (cacheHead s))" using td(5) [of "cacheHead s"] hd(2) x by simp
  have "cache_inv (cache_of s1 (cacheHead s)) (slab_mem s1) ((v(c := u)) (cacheHead s))" using family_cache [OF fam hd(1)] by metis
  then have "0 < unat (objSize (cache_of s1 (cacheHead s)))" using small_cacheD(1) by (simp add: cache_inv_def cache_working_def)
  moreover have "sep q (unat (objSize (cache_of s1 c))) x (unat (objSize (cache_of s1 (cacheHead s))))"
    using family_objects_sep [OF fam kd(7) [OF len] hd(1) td(6) x1] hd(2) by simp
  ultimately show ?thesis using sep_neq [of q _ x _ 4 0] td(7) kd(9) [OF len] by fastforce
qed

lemma classes_zip:
  assumes st: "starting s v L" and four: "4 \<le> length L"
  shows "zip (map fst size_classes) (take 4 L) = classes s"
proof -
  have "length (zip (map fst size_classes) (take 4 L)) = 4" using four by simp
  then have "zip (map fst size_classes) (take 4 L) = take 4 (zip (map fst size_classes) (take 4 L))" by simp
  then show ?thesis unfolding starting_kheap(2) [OF st four] by (simp only: take_zip take_take min.idem)
qed

text \<open>A large cache.\<close>

lemma start_large:
  assumes st: "starting s v L" and i: "5 \<le> length L" "length L < 9"
  shows "\<exists>s' v' p. init_size_cache (Suc n) (length L) s = Some (Inr ((), s')) \<and> starting s' v' (L @ [p]) \<and> slab_ready s' = slab_ready s"
proof -
  note d = startingD [OF st] and b = class_size_bounds
  have four: "4 \<le> length L" using i by simp
  note k = starting_kheap [OF st four]
  let ?len = "class_size (length L)" and ?hd = "cacheHead s"
  have max: "unat (maxOrder (buddies (slab_mem s))) = 27" using d(7) by (simp add: region_ok_def)
  have room: "4096 * length L < 2 ^ unat (maxOrder (buddies (slab_mem s)))" using i unfolding max by simp
  have small: "unat sizeof_LargeCache \<le> 252" by (simp add: sizeof_LargeCache_def)
  obtain len c q s1 u where c: "(len, c) \<in> set (classes s)" and t: "took s v c q s1 u"
      and run: "size_alloc (size_slabs n) sizeof_LargeCache s = Some (Inr (q + 4, handed q c s1))"
    using size_alloc_handed [OF k(1) small, of "size_slabs n"] room_not_exhausted [OF d(4) room] by blast
  let ?p = "q + 4" and ?h = "handed q c s1" and ?v = "v(c := u)"
  note hf = handed_family [OF k(1) c t] and hb = handed_blocks [OF k(1) c t] and ho = handed_ok [OF k(1) c t] and td = tookD [OF k(1) c t]
  have hd: "?hd \<in> set (family s)" "?hd \<noteq> c" using kheapD(8) [OF k(1) c] by (auto simp: family_def)
  have p4: "?p \<notin> set (family s)" by (rule hf(2))
  have p0: "?p \<noteq> 0"
  proof -
    have "(?p, unat len - 4) \<in> kblocks ?h ?v" by (simp add: hb(1))
    then have "startAddress (buddies (slab_mem ?h)) \<le> ?p" by (rule kblock_above [OF ho])
    then show ?thesis using hf(9) d(7) by (auto simp: region_ok_def KERNEL_SLAB_ALLOCATOR_START_def word_le_nat_alt)
  qed
  have pL: "?p \<notin> set L"
  proof
    assume "?p \<in> set L"
    then have "?p \<in> set (take 5 L) \<or> ?p \<in> set (drop 5 L)" by (metis UnE append_take_drop_id set_append)
    then show False
    proof
      assume "?p \<in> set (take 5 L)"
      then show False using object_fresh [OF k(1) c t, of ?p] d(8) by blast
    next
      assume "?p \<in> set (drop 5 L)"
      then show False using d(12) kblock_fresh [OF k(1) c t] by blast
    qed
  qed
  have fl: "cacheSizes ?h = cacheSizes s" "cacheHead ?h = ?hd" "cache_links ?h = cache_links s" "cacheList ?h = cacheList s" "region_ok ?h"
      "slab_ready ?h = slab_ready s" using hf(11) d(7) by (simp_all add: same_family_def region_ok_def)
  have "512 \<le> unat ?len" "unat ?len \<le> 8192" using b(3) [of "length L"] i by simp_all
  then obtain cc where cc: "new_SlabCache ?p 0 ?len = Inr cc" using new_SlabCache_large by blast
  obtain ls l where w: "holds (ls, l) (L @ [?p])" "CreateCache (Suc n) (size_cache_name ?len) ?len 0 s =
      Some (Inr (?p, with_cache LargeCache ?p (size_cache_name ?len) cc ls l ?h))"
    using CreateCache_start [OF st i(2) p0 pL cc, of "Suc n" ?h] run fl(3,4) i(1) by (auto simp: size_slabs_Suc)
  let ?s2 = "with_cache LargeCache ?p (size_cache_name ?len) cc ls l ?h"
  let ?s = "?s2\<lparr>cacheSizes := (cacheSizes ?s2)[length L := (?len, ?p)]\<rparr>"
  have run: "init_size_cache (Suc n) (length L) s = Some (Inr ((), ?s))" by (rule init_size_cache_step [OF st i(2) w(2) p0])
  have of: "cache_of ?s a = cache_of ?h a" if "a \<in> set (family s)" for a
    using with_cache_fields(9) p4 that by (auto simp: cache_of_def)
  have take: "take 4 (L @ [?p]) = take 4 L" "take 5 (L @ [?p]) = take 5 L" "drop 5 (L @ [?p]) = drop 5 L @ [?p]" using i by simp_all
  have sz: "cacheSizes ?s = zip (map fst size_classes) ((L @ [?p]) @ replicate (9 - length (L @ [?p])) 0)"
    using sizes_append [OF i(2), of ?p] fl(1) d(2) by (simp add: class_size_def)
  have cl: "classes ?s = classes s"
    unfolding k(2) unfolding classes_def sz using i by (simp add: take_zip)
  have "family_ok (family s) ?s ?v = family_ok (family s) ?h ?v" by (rule family_cong) (use p4 in auto)
  then have fam: "family_ok (?hd # take 4 L) ?s ?v" using hf(3) k(3) by simp
  have bytes: "object_bytes ?s = object_bytes ?h" using with_cache_fields(8) by (simp add: object_bytes_def)
  have kb: "kblocks ?s ?v = kblocks ?h ?v"
    unfolding kblocks_def cl hf(5) using of kheapD(7) [OF k(1)] by (intro Collect_cong) metis
  have nm: "names_ok ?s (L @ [?p])"
  proof (rule names_append [OF d(6) i(2)])
    show "map_option cache_name (cache_objects ?s a) = map_option cache_name (cache_objects s a)" if "a \<in> set L" for a
    proof -
      have "a \<noteq> ?p" using pL that by auto
      then show ?thesis using t by (simp add: handed_def took_def)
    qed
  qed (simp add: class_size_def)
  have "starting ?s ?v (L @ [?p])"
    unfolding starting_def take
  proof (intro conjI)
    show "room (slab_mem ?s) (all_slabs (cacheHead ?s # take 4 L) ?v) (length (L @ [?p]))"
      using room_handed [OF k(1) c t, of "length L"] d(4) k(3) fl(2) by simp
    show "set (take 5 L) \<subseteq> objects (cache_of ?s (cacheHead ?s)) (?v (cacheHead ?s))"
      using d(8) of [OF hd(1)] hf(4) [OF hd(1)] td(8) [OF hd(2)] hd(2) fl(2) by simp
    show "\<forall>(m, a) \<in> set (zip (map fst size_classes) (take 4 L)). objSize (cache_of ?s a) = m \<and>
        (\<forall>q \<in> objects (cache_of ?s a) (?v a). load32 (object_bytes ?s) q = a)"
      unfolding classes_zip [OF st four] bytes using kheapD(4,6) [OF ho] of kheapD(7) [OF k(1)] hf(5) by auto
    show "\<forall>p \<in> set (drop 5 L @ [?p]). \<exists>j. (p, j) \<in> kblocks ?s ?v"
      unfolding kb hb(1) using d(12) by auto
    show "region_ok ?s" using fl(5) by (simp add: region_ok_def)
  qed (use i sz fam w(1) nm fl in simp_all)
  then show ?thesis using run fl(6) by (intro exI [of _ ?s] exI [of _ ?v] exI [of _ ?p]) simp
qed

section \<open>The start\<close>

lemma new_SlabAllocator_starts:
  assumes "a \<noteq> 0" "a < KERNEL_SLAB_ALLOCATOR_START"
  shows "\<exists>s. new_SlabAllocator m KERNEL_SLAB_ALLOCATOR_START KERNEL_SLAB_ALLOCATOR_SIZE a position = Inr s \<and> starting s (\<lambda>_. no_slabs) []"
proof -
  have "KERNEL_SLAB_ALLOCATOR_SIZE = of_nat (2 ^ 27)" "(of_nat PAGE_SHIFT :: u32) = 12"
    by (simp_all add: KERNEL_SLAB_ALLOCATOR_SIZE_def PAGE_SHIFT_def)
  then obtain b where b: "new_buddy m KERNEL_SLAB_ALLOCATOR_START KERNEL_SLAB_ALLOCATOR_SIZE (of_nat PAGE_SHIFT) = Inr b"
      "buddy_inv b [0 \<mapsto> (27, False)]" "startAddress b = KERNEL_SLAB_ALLOCATOR_START" "unat (maxOrder b) = 27"
    using new_buddy_inv [of 27 KERNEL_SLAB_ALLOCATOR_START m] by (auto simp: KERNEL_SLAB_ALLOCATOR_START_def)
  let ?h = "\<lparr>buddies = b, slab_links = \<lparr>next_link = \<lambda>_. 0, previous_link = \<lambda>_. 0\<rparr>,
     slabs = (\<lambda>_. \<lparr>slab_cache = 0, objectStart = 0, freeIndex = 0, inUse = 0, magic_valid = 0\<rparr>), freeArray = (\<lambda>_ _. 0)\<rparr>"
  have page: "4096 dvd unat (startAddress (buddies ?h))" by (simp add: b(3) KERNEL_SLAB_ALLOCATOR_START_def)
  obtain c where c: "new_SlabCache a SLAB_HWCACHE_ALIGN sizeof_SmallCache = Inr c" "cache_inv c ?h no_slabs"
    using new_cache_inv [of sizeof_SmallCache SLAB_HWCACHE_ALIGN ?h "[0 \<mapsto> (27, False)]" a] b(2) page by (auto simp: aligned_size_head)
  obtain s where s: "new_SlabAllocator m KERNEL_SLAB_ALLOCATOR_START KERNEL_SLAB_ALLOCATOR_SIZE a position = Inr s"
      and f: "slab_mem s = ?h" "cacheHead s = a" "cacheList s = empty_list" "cacheSizes s = size_classes" "region_size s = KERNEL_SLAB_ALLOCATOR_SIZE"
      "cache_objects s a = Some \<lparr>cache_kind = SmallCache, cache_name = [0x43, 0x61, 0x63, 0x68, 0x65, 0x48, 0x65, 0x61, 0x64], cache_base = c,
         hash_table = new_hashtable (\<lambda>_. 0), hash_storage = 0\<rparr>"
    by (simp add: new_SlabAllocator_def b(1) c(1))
  have none: "slabs_of (all_slabs [a] (\<lambda>_. no_slabs)) = []" by (simp add: all_slabs_def)
  have used: "used_blocks [0 \<mapsto> (27, False)] = {}" by (auto simp: used_blocks_def split: if_splits)
  have "room ?h (all_slabs [a] (\<lambda>_. no_slabs)) 0"
    unfolding room_def pages_def none by (rule exI [of _ "[0 \<mapsto> (27, False)]"]) (simp add: b(2) used)
  moreover have "slab_blocks ?h (all_slabs [a] (\<lambda>_. no_slabs))"
    unfolding slab_blocks_def none using b(2) page by auto
  then have "family_ok [a] s (\<lambda>_. no_slabs)" using assms(1) c(2) f(1,6) by (simp add: family_ok_def)
  moreover have "region_ok s" using f b(3,4) assms(2) by (simp add: region_ok_def word_less_nat_alt)
  moreover have "cacheSizes s = zip (map fst size_classes) (replicate 9 0)" unfolding f(4) by (simp add: size_classes_def numeral_eq_Suc)
  ultimately have "starting s (\<lambda>_. no_slabs) []" using f(1-3) by (simp add: starting_def names_ok_def holds_empty)
  then show ?thesis using s by blast
qed

lemma InitializeSizeCaches_runs:
  assumes "starting s v []"
  shows "runs (InitializeSizeCaches (Suc n)) s (\<lambda>_ s'. \<exists>v' L. length L = 9 \<and> starting s' v' L \<and> slab_ready s' = slab_ready s)"
proof -
  let ?P = "\<lambda>js t. \<exists>v' L. js = [length L..<9] \<and> starting t v' L \<and> slab_ready t = slab_ready s"
  have "runs (for_each [0..<9] (init_size_cache (Suc n))) s (\<lambda>_. ?P [])"
  proof (rule runs_for_each)
    show "?P [0..<9] s" using assms by (intro exI [of _ v] exI [of _ "[]"]) simp
    fix i js t
    assume "?P (i # js) t"
    then obtain v' L where t: "i # js = [length L..<9]" "starting t v' L" "slab_ready t = slab_ready s" by blast
    then have l: "length L < 9" by (metis list.simps(3) upt_eq_Nil_conv not_less)
    then have i: "i = length L" "js = [Suc (length L)..<9]" using t(1) by (simp_all add: upt_conv_Cons)
    obtain t' w p where x: "init_size_cache (Suc n) (length L) t = Some (Inr ((), t'))" "starting t' w (L @ [p])" "slab_ready t' = slab_ready t"
    proof (cases "length L < 5")
      case True
      then show ?thesis using start_small [OF t(2)] that by blast
    next
      case False
      then show ?thesis using start_large [OF t(2) _ l] that by fastforce
    qed
    then have "?P js t'" using i(2) t(3) by (intro exI [of _ w] exI [of _ "L @ [p]"]) simp
    then show "runs (init_size_cache (Suc n) i) t (\<lambda>_. ?P js)" unfolding i(1) runs_def using x(1) by blast
  qed
  moreover have "length (cacheSizes s) = 9" using startingD(2) [OF assms] by simp
  ultimately have "runs (InitializeSizeCaches (Suc n)) s (\<lambda>_. ?P [])" by (simp add: InitializeSizeCaches_def)
  then show ?thesis
  proof (rule runs_weaken)
    fix t
    assume "?P [] t"
    then obtain v' L where x: "[] = [length L..<9]" "starting t v' L" "slab_ready t = slab_ready s" by blast
    have "9 \<le> length L" using x(1) [symmetric] by (simp add: upt_eq_Nil_conv)
    then have "length L = 9" using startingD(1) [OF x(2)] by simp
    then show "\<exists>v' L. length L = 9 \<and> starting t v' L \<and> slab_ready t = slab_ready s" using x(2,3) by blast
  qed
qed

lemma starting_done:
  assumes st: "starting s v L" and nine: "length L = 9"
  shows "kernel_heap_ok (s\<lparr>slab_ready := True\<rparr>) v" "\<not> exhausted (slab_mem s)" "cacheSizes s = zip (map fst size_classes) L"
    "map (\<lambda>a. map_option cache_name (cache_objects s a)) L = map (\<lambda>e. Some (size_cache_name (fst e))) size_classes"
proof -
  note d = startingD [OF st]
  have four: "4 \<le> length L" using nine by simp
  let ?s = "s\<lparr>slab_ready := True\<rparr>"
  have r: "startAddress (buddies (slab_mem s)) = KERNEL_SLAB_ALLOCATOR_START" "unat (maxOrder (buddies (slab_mem s))) = 27"
    "region_size s = KERNEL_SLAB_ALLOCATOR_SIZE" using d(7) by (simp_all add: region_ok_def)
  have of: "cache_of ?s = cache_of s" "classes ?s = classes s" "family ?s = family s" "object_bytes ?s = object_bytes s"
    by (simp_all add: cache_of_def fun_eq_iff classes_def family_def object_bytes_def)
  have "family_ok (family s) ?s v = family_ok (family s) s v" by (rule family_cong) simp_all
  then have "kheap_ok ?s v" using starting_kheap(1) [OF st four] by (simp add: kheap_ok_def of)
  then show "kernel_heap_ok ?s v" using r by (simp add: kernel_heap_ok_def KERNEL_SLAB_ALLOCATOR_START_def KERNEL_SLAB_ALLOCATOR_SIZE_def)
  show "\<not> exhausted (slab_mem s)" by (rule room_not_exhausted [OF d(4)]) (simp add: r(2) nine)
  show "cacheSizes s = zip (map fst size_classes) L" using d(2) nine by simp
  show "map (\<lambda>a. map_option cache_name (cache_objects s a)) L = map (\<lambda>e. Some (size_cache_name (fst e))) size_classes"
    using d(6) nine by (simp add: names_ok_def)
qed

lemma kmain_slabs_works:
  assumes "a \<noteq> 0" "a < KERNEL_SLAB_ALLOCATOR_START"
  shows "\<exists>s v L. kmain_slabs (Suc n) m a position = Some (Inr s) \<and> kernel_heap_ok s v \<and> \<not> exhausted (slab_mem s) \<and>
    elements (cache_links s, cacheList s) = Some L \<and> cacheSizes s = zip (map fst size_classes) L \<and>
    map (\<lambda>p. map_option cache_name (cache_objects s p)) L = map (\<lambda>e. Some (size_cache_name (fst e))) size_classes"
proof -
  obtain s where s: "new_SlabAllocator m KERNEL_SLAB_ALLOCATOR_START KERNEL_SLAB_ALLOCATOR_SIZE a position = Inr s" "starting s (\<lambda>_. no_slabs) []"
    using new_SlabAllocator_starts [OF assms] by blast
  obtain s' v L where x: "InitializeSizeCaches (Suc n) s = Some (Inr ((), s'))" "length L = 9" "starting s' v L"
    using InitializeSizeCaches_runs [OF s(2), of n] by (auto simp: runs_def)
  have "kmain_slabs (Suc n) m a position = Some (Inr (s'\<lparr>slab_ready := True\<rparr>))"
    using s(1) x(1) by (simp add: kmain_slabs_def seq_def bnd_def modify_def)
  moreover have "elements (cache_links s', cacheList s') = Some L" by (rule elements_holds [OF startingD(5) [OF x(3)]])
  ultimately show ?thesis using starting_done [OF x(3,2)]
    by (intro exI [of _ "s'\<lparr>slab_ready := True\<rparr>"] exI [of _ v] exI [of _ L]) simp
qed

text \<open>C8. \<open>kmain\<close> makes the allocator and the nine size classes: for any placement of the cache of caches below the region, and any contents of
  memory, the constructor and \<open>InitializeSizeCaches\<close> return, never run out of pages, and leave a heap with the invariant of \<open>kmalloc\<close> and
  \<open>kfree\<close>, in which the list of caches holds the caches of the classes in their order, with their names.\<close>

theorem kernel_heap_starts:
  assumes "a \<noteq> 0" "a < KERNEL_SLAB_ALLOCATOR_START"
  shows "\<exists>s v L. kmain_slabs (Suc n) m a position = Some (Inr s) \<and> kernel_heap_ok s v \<and> \<not> exhausted (slab_mem s) \<and>
    elements (cache_links s, cacheList s) = Some L \<and> cacheSizes s = zip (map fst size_classes) L \<and>
    map (\<lambda>p. map_option cache_name (cache_objects s p)) L = map (\<lambda>e. Some (size_cache_name (fst e))) size_classes"
  using kmain_slabs_works [OF assms] .

theorem kernel_heap_starts_witness:
  "\<exists>s v. kmain_slabs 1 (\<lambda>_. 0xCC) 0xD0001000 0xD0001060 = Some (Inr s) \<and> kernel_heap_ok s v \<and> length (cacheSizes s) = 9"
proof -
  have "\<exists>s v L. kmain_slabs (Suc 0) (\<lambda>_. 0xCC) 0xD0001000 0xD0001060 = Some (Inr s) \<and> kernel_heap_ok s v \<and> \<not> exhausted (slab_mem s) \<and>
    elements (cache_links s, cacheList s) = Some L \<and> cacheSizes s = zip (map fst size_classes) L \<and>
    map (\<lambda>p. map_option cache_name (cache_objects s p)) L = map (\<lambda>e. Some (size_cache_name (fst e))) size_classes"
    by (rule kernel_heap_starts) (simp_all add: KERNEL_SLAB_ALLOCATOR_START_def)
  then obtain s v L where s: "kmain_slabs (Suc 0) (\<lambda>_. 0xCC) 0xD0001000 0xD0001060 = Some (Inr s)" "kernel_heap_ok s v"
      "cacheSizes s = zip (map fst size_classes) L"
      "map (\<lambda>p. map_option cache_name (cache_objects s p)) L = map (\<lambda>e. Some (size_cache_name (fst e))) size_classes" by blast
  have "length L = 9" using arg_cong [OF s(4), of length] by simp
  then show ?thesis using s(1-3) by auto
qed

section \<open>kmalloc and kfree\<close>

lemma running_heap: "\<exists>s v. kernel_heap_ok s v \<and> \<not> exhausted (slab_mem s)"
  using kmain_slabs_works [of "0xD0001000" 0 "\<lambda>_. 0" 0] by (auto simp: KERNEL_SLAB_ALLOCATOR_START_def)

text \<open>C6. A request of up to 252 bytes fails only when the region has no free page; otherwise it returns a block of the smallest class with room for it,
  inside the region and apart from every block a client owns, whose bytes are kept, and the invariant holds with this block added.\<close>

theorem kmalloc_allocates:
  assumes "kernel_heap_ok s v" "unat n \<le> 252"
  shows "(kmalloc placement (Suc d) n s = Some (Inl NullPointer) \<and> exhausted (slab_mem s)) \<or>
    (\<exists>p s' v' j. kmalloc placement (Suc d) n s = Some (Inr (p, s')) \<and> kernel_heap_ok s' v' \<and> unat n \<le> j \<and>
      (\<forall>k \<in> {28, 60, 124, 252}. unat n \<le> k \<longrightarrow> j \<le> k) \<and> (p, j) \<notin> kblocks s v \<and> kblocks s' v' = insert (p, j) (kblocks s v) \<and>
      (\<forall>(q, i) \<in> kblocks s v. sep p j q i \<and> agree (object_bytes s) (object_bytes s') q i) \<and>
      startAddress (buddies (slab_mem s')) \<le> p \<and> p < startAddress (buddies (slab_mem s')) + region_size s')"
  using kmalloc_works [OF assms, of placement d]
proof (elim disjE [of "_ \<and> _"] exE conjE)
  fix p s' v' j
  assume x: "kmalloc placement (Suc d) n s = Some (Inr (p, s'))" "kernel_heap_ok s' v'" "unat n \<le> j"
    "\<forall>k \<in> {28, 60, 124, 252}. unat n \<le> k \<longrightarrow> j \<le> k" "(p, j) \<notin> kblocks s v" "kblocks s' v' = insert (p, j) (kblocks s v)"
    "\<forall>(q, i) \<in> kblocks s v. agree (object_bytes s) (object_bytes s') q i"
  have "sep p j q i" if "(q, i) \<in> kblocks s v" for q i
    by (rule kblocks_sep [OF kernel_heapD(1) [OF x(2)]]) (use that x(5,6) in auto)
  moreover have "(p, j) \<in> kblocks s' v'" by (simp add: x(6))
  ultimately show ?thesis using x kblock_in_region [OF x(2)]
    by (intro disjI2 exI [of _ p] exI [of _ s'] exI [of _ v'] exI [of _ j]) blast
qed simp

theorem kmalloc_allocates_witness:
  "\<exists>s v p s' v'. kernel_heap_ok s v \<and> kmalloc 0 1 100 s = Some (Inr (p, s')) \<and> kernel_heap_ok s' v' \<and> (p, 124) \<in> kblocks s' v'"
proof -
  obtain s v where s: "kernel_heap_ok s v" "\<not> exhausted (slab_mem s)" using running_heap by blast
  have "unat (100 :: u32) \<le> 252" by simp
  from kmalloc_allocates [OF s(1) this, of 0 0] s(2) obtain p s' v' j where x: "kmalloc 0 (Suc 0) 100 s = Some (Inr (p, s'))" "kernel_heap_ok s' v'"
      "unat (100 :: u32) \<le> j" "\<forall>k \<in> {28, 60, 124, 252}. unat (100 :: u32) \<le> k \<longrightarrow> j \<le> k" "kblocks s' v' = insert (p, j) (kblocks s v)" by blast
  have pj: "(p, j) \<in> kblocks s' v'" by (simp add: x(5))
  then obtain len c where "(len, c) \<in> set (classes s')" "j = unat len - 4" by (auto simp: kblocks_def)
  then have "len \<in> set (map fst (classes s'))" "j = unat len - 4" by force+
  then have "j = 124" using x(3,4) kheapD(1) [OF kernel_heapD(1) [OF x(2)]] by auto
  then show ?thesis using s(1) x(1,2) pj by auto
qed

text \<open>C7. Releasing a block a client owns returns, takes exactly this block back, writes to no object, and keeps the invariant; an address
  outside the region, the null pointer among them, is refused with a panic.\<close>

theorem kfree_releases:
  assumes "kernel_heap_ok s v" "(p, j) \<in> kblocks s v"
  shows "(\<exists>s' v'. kfree (Suc d) p s = Some (Inr ((), s')) \<and> kernel_heap_ok s' v' \<and> kblocks s' v' = kblocks s v - {(p, j)} \<and>
      object_bytes s' = object_bytes s) \<and>
    (\<forall>r. r = 0 \<or> r < startAddress (buddies (slab_mem s)) \<or> startAddress (buddies (slab_mem s)) + region_size s \<le> r \<longrightarrow>
      kfree (Suc d) r s = Some (Inl PanicForeign))"
proof -
  have "0 < startAddress (buddies (slab_mem s))"
    using kheapD(3) [OF kernel_heapD(1) [OF assms(1)]] by (simp add: word_less_nat_alt)
  then show ?thesis using kfree_works [OF assms] kernel_heapD(2) [OF assms(1)] by (auto simp: kfree_def stop_def Let_def)
qed

theorem kfree_releases_witness:
  "\<exists>s v p s' s'' v''. kmalloc 0 1 100 s = Some (Inr (p, s')) \<and> kfree 1 p s' = Some (Inr ((), s'')) \<and> kernel_heap_ok s'' v'' \<and>
    kblocks s'' v'' = kblocks s v \<and> kfree 1 0 s' = Some (Inl PanicForeign)"
proof -
  obtain s v where s: "kernel_heap_ok s v" "\<not> exhausted (slab_mem s)" using running_heap by blast
  have "unat (100 :: u32) \<le> 252" by simp
  from kmalloc_works [OF s(1) this, of 0 0] s(2) obtain p s' v' j where x: "kmalloc 0 (Suc 0) 100 s = Some (Inr (p, s'))" "kernel_heap_ok s' v'"
      "(p, j) \<notin> kblocks s v" "kblocks s' v' = insert (p, j) (kblocks s v)" by blast
  have b: "(p, j) \<in> kblocks s' v'" by (simp add: x(4))
  from kfree_releases [OF x(2) b, of 0] obtain s'' v'' where y: "kfree (Suc 0) p s' = Some (Inr ((), s''))" "kernel_heap_ok s'' v''"
      "kblocks s'' v'' = kblocks s' v' - {(p, j)}" "kfree (Suc 0) 0 s' = Some (Inl PanicForeign)" by blast
  have "kblocks s'' v'' = kblocks s v" using x(3,4) y(3) by auto
  then show ?thesis unfolding One_nat_def using x(1) y(1,2,4) by blast
qed

text \<open>
  What larger requests do: above 8188 bytes no class has room, and \<open>kmalloc\<close> panics; the size wraps with the word in front of the object, so
  that the four largest requests get a block of the first class.
\<close>

lemma class_cache_none: "\<forall>e \<in> set es. fst e < t \<Longrightarrow> class_cache t es = 0"
  by (induction es) auto

lemma kmalloc_too_large:
  assumes "slab_ready s" "map fst (cacheSizes s) = map fst size_classes" "8188 < unat n" "unat n < 4294967292"
  shows "kmalloc placement (Suc d) n s = Some (Inl PanicCache)"
proof -
  have n4: "unat (n + 4) = unat n + 4" using assms(4) by (intro unat_add32 [THEN trans]) simp_all
  have "\<forall>x \<in> set (map fst size_classes). unat x \<le> 8192" by (simp add: size_classes_def)
  then have "\<forall>e \<in> set (cacheSizes s). unat (fst e) \<le> 8192" unfolding assms(2) [symmetric] by simp
  then have "\<forall>e \<in> set (cacheSizes s). fst e < n + 4" using assms(3) n4 by (auto simp: word_less_nat_alt)
  then have "class_cache (n + 4) (cacheSizes s) = 0" by (rule class_cache_none)
  then show ?thesis using assms(1) by (simp add: kmalloc_def AllocateFromSizeSlabs_def size_alloc_def bnd_def reads_of_def stop_def)
qed

lemma kmalloc_wraps:
  assumes "slab_ready s" "map fst (cacheSizes s) = map fst size_classes" "4294967292 \<le> unat n"
  shows "kmalloc placement (Suc d) n s = kmalloc placement (Suc d) 0 s"
proof -
  obtain c es where es: "cacheSizes s = (0x20, c) # es" using assms(2) by (auto simp: size_classes_def map_eq_Cons_conv)
  have "unat (n + 4) = (unat n + 4) mod 4294967296" by (simp add: unat_word_ariths)
  also have "\<dots> = (unat n + 4 - 4294967296) mod 4294967296" by (rule le_mod_geq) (use assms(3) in simp)
  also have "\<dots> = unat n - 4294967292" by (subst mod_less) (use unat_bound32 [of n] in \<open>linarith, simp\<close>)
  finally have "unat (n + 4) < 4" using unat_bound32 [of n] by linarith
  then have "\<not> 0x20 < n + 4" by (simp add: word_less_nat_alt)
  then have "class_cache (n + 4) (cacheSizes s) = class_cache (0 + 4) (cacheSizes s)" by (simp add: es)
  then have "size_alloc mem n s = size_alloc mem 0 s" for mem by (simp only: size_alloc_def bnd_def reads_of_def option.case sum.case prod.case)
  then show ?thesis using assms(1) by (simp add: kmalloc_def AllocateFromSizeSlabs_def)
qed

end
