(* ===== verification/KernelOutput.thy ===== *)
theory KernelOutput
  imports Console KernelString
begin

text \<open>
  The output devices of the kernel: the base class with the formatted output (BaseOutputDevice.cpp), the text screen
  (TextmodeDebugOutput.cpp), the serial port (SerialDebugOutput.cpp), the device that prints nothing, and the choice of the debug
  device (HAL.cpp). A virtual call is a case distinction on the kind of the device. Strings in memory are read from the same memory the
  text screen is in; \<open>None\<close> stands for a serial port that never becomes ready.
\<close>

section \<open>State\<close>

datatype output_kind = NullDebugOutputDevice | TextmodeDebugOutput | SerialDebugOutput

datatype special = Endl | Hex | Dec

record output_device = console +
  device_kind :: output_kind
  portNum :: u16
  printMode :: special

definition White :: Color where "White = 15"
definition Black :: Color where "Black = 0"

text \<open>What the constructors share: the colours and the mode. Ports and memory are those the device is attached to.\<close>

definition new_BaseOutputDevice :: "output_kind \<Rightarrow> u16 \<Rightarrow> 'a console_scheme \<Rightarrow> output_device" where
  "new_BaseOutputDevice kind port s =
     \<lparr>answers = answers s, reads = reads s, writes = writes s, vram = vram s, cursorX = 0, cursorY = 0,
      foregroundColor = White, backgroundColor = Black, device_kind = kind, portNum = port, printMode = Hex\<rparr>"

definition SetForeground :: "Color \<Rightarrow> output_device \<Rightarrow> output_device" where
  "SetForeground c d = d\<lparr>foregroundColor := c\<rparr>"

definition SetBackground :: "Color \<Rightarrow> output_device \<Rightarrow> output_device" where
  "SetBackground c d = d\<lparr>backgroundColor := c\<rparr>"

section \<open>The text screen\<close>

definition new_TextmodeDebugOutput :: "'a console_scheme \<Rightarrow> output_device" where
  "new_TextmodeDebugOutput = new_BaseOutputDevice TextmodeDebugOutput 0"

definition text_attribute :: "output_device \<Rightarrow> u16" where
  "text_attribute d = push_bit 8 (ucast (ucast (push_bit 4 (backgroundColor d) OR (foregroundColor d AND 0x0F)) :: u8))"

definition text_moveCursor :: "output_device \<Rightarrow> output_device" where
  "text_moveCursor d =
     (let temp = ucast (cursorY d * 80 + cursorX d) :: u16
      in portio_outb 0x3D5 (ucast temp) (portio_outb 0x3D4 15
           (portio_outb 0x3D5 (ucast (drop_bit 8 temp)) (portio_outb 0x3D4 14 d))))"

definition text_scroll :: "output_device \<Rightarrow> output_device" where
  "text_scroll d =
     (if 25 \<le> cursorY d
      then d\<lparr>vram := fill_cells 80 (24 * 80) (0x20 OR text_attribute d) (copy_cells (24 * 80) 0 (vram d)), cursorY := 24\<rparr>
      else d)"

definition text_PrintChar :: "u8 \<Rightarrow> output_device \<Rightarrow> output_device" where
  "text_PrintChar c d =
     (let d = (if c = 0x08 \<and> cursorX d \<noteq> 0 then d\<lparr>cursorX := cursorX d - 1\<rparr>
               else if c = 0x09 then d\<lparr>cursorX := (cursorX d + 8) AND NOT (8 - 1)\<rparr>
               else if c = 0x0D then d\<lparr>cursorX := 0\<rparr>
               else if c = 0x0A then d\<lparr>cursorX := 0, cursorY := cursorY d + 1\<rparr>
               else if 0x20 \<le> sint c
                 then d\<lparr>vram := store16 (vram d) (screen_cell (cursorY d * 80 + cursorX d)) (ucast c OR text_attribute d),
                        cursorX := cursorX d + 1\<rparr>
               else d);
          d = (if 80 \<le> cursorX d then d\<lparr>cursorX := 0, cursorY := cursorY d + 1\<rparr> else d)
      in text_moveCursor (text_scroll d))"

definition text_Clear :: "output_device \<Rightarrow> output_device" where
  "text_Clear d =
     (let d = d\<lparr>cursorX := 0, cursorY := 0\<rparr>
      in text_moveCursor (d\<lparr>vram := fill_cells (25 * 80) 0 (0x20 OR text_attribute d) (vram d)\<rparr>))"

section \<open>The serial port\<close>

definition SERIAL_COM1 :: u16 where "SERIAL_COM1 = 0x3F8"
definition SERIAL_COM2 :: u16 where "SERIAL_COM2 = 0x2F8"

definition new_SerialDebugOutput :: "u16 \<Rightarrow> 'a console_scheme \<Rightarrow> output_device" where
  "new_SerialDebugOutput port s =
     fold (\<lambda>(p, v). portio_outb p v)
       [(port + 1, 0x00), (port + 3, 0x80), (port + 0, 0x01), (port + 1, 0x00), (port + 3, 0x03),
        (port + 2, 0xC7), (port + 4, 0x0B), (port + 1, 0x0C)] (new_BaseOutputDevice SerialDebugOutput port s)"

text \<open>The constructor without an argument.\<close>

definition default_SerialDebugOutput :: "'a console_scheme \<Rightarrow> output_device" where
  "default_SerialDebugOutput = new_SerialDebugOutput SERIAL_COM1"

definition readyToTransmit :: "output_device \<Rightarrow> bool \<times> output_device" where
  "readyToTransmit d = (let (status, d) = portio_inb (portNum d + 5) d in (status AND 0x20 \<noteq> 0, d))"

partial_function (option) wait_ready :: "output_device \<Rightarrow> output_device option" where
  "wait_ready d = (if fst (readyToTransmit d) then Some (snd (readyToTransmit d)) else wait_ready (snd (readyToTransmit d)))"

definition put_serial :: "u8 \<Rightarrow> output_device \<Rightarrow> output_device option" where
  "put_serial c d = Option.bind (wait_ready d) (\<lambda>d. Some (portio_outb (portNum d) c d))"

text \<open>The colours of a terminal, for a build with \<open>SERIAL_COLOR\<close>; the source has the definition commented out.\<close>

definition SERIAL_COLOR :: bool where
  "SERIAL_COLOR = False"

primrec printColorString :: "u8 list \<Rightarrow> output_device \<Rightarrow> output_device option" where
  "printColorString [] d = Some d"
| "printColorString (c # cs) d = Option.bind (put_serial c d) (printColorString cs)"

definition color_digits :: "(Color \<times> u8 list) list" where
  "color_digits = [(0, [0x30]), (4, [0x31]), (2, [0x32]), (14, [0x33]), (1, [0x34]), (5, [0x35]), (3, [0x36]), (15, [0x37])]"

definition foreground_code :: "Color \<Rightarrow> u8 list" where
  "foreground_code c = (case map_of color_digits c of Some ds \<Rightarrow> 0x33 # ds
     | None \<Rightarrow> (case map_of [(12, 0x31), (10, 0x32), (9, 0x34), (13, 0x35), (11, 0x36)] c of
         Some x \<Rightarrow> [0x31, 0x3B, 0x33, x] | None \<Rightarrow> [0x31]))"

definition background_code :: "Color \<Rightarrow> u8 list" where
  "background_code c = (case map_of color_digits c of Some ds \<Rightarrow> 0x34 # ds | None \<Rightarrow> [])"

text \<open>The constant \<open>None\<close> the colours are compared with is that of the device types, which is the colour black.\<close>

definition startColor :: "output_device \<Rightarrow> output_device option" where
  "startColor d =
     (if SERIAL_COLOR then
        Option.bind (printColorString [0x5C, 0x65, 0x5B] d) (\<lambda>d.
        Option.bind (if foregroundColor d \<noteq> 0 then printColorString (foreground_code (foregroundColor d)) d else Some d) (\<lambda>d.
        Option.bind (if backgroundColor d \<noteq> 0 then printColorString (background_code (backgroundColor d)) d else Some d)
          (printColorString [0x6D])))
      else Some d)"

definition endColor :: "output_device \<Rightarrow> output_device option" where
  "endColor d = (if SERIAL_COLOR then printColorString [0x5C, 0x65, 0x5B, 0x30, 0x6D] d else Some d)"

definition serial_PrintChar :: "u8 \<Rightarrow> output_device \<Rightarrow> output_device option" where
  "serial_PrintChar c d =
     Option.bind (if foregroundColor d \<noteq> 0 \<or> backgroundColor d \<noteq> 0 then startColor d else Some d) (\<lambda>d.
     Option.bind (put_serial c d) (\<lambda>d.
     if foregroundColor d \<noteq> 0 \<or> backgroundColor d \<noteq> 0 then endColor d else Some d))"

section \<open>Any device\<close>

definition PrintChar :: "u8 \<Rightarrow> output_device \<Rightarrow> output_device option" where
  "PrintChar c d = (case device_kind d of NullDebugOutputDevice \<Rightarrow> Some d | TextmodeDebugOutput \<Rightarrow> Some (text_PrintChar c d)
     | SerialDebugOutput \<Rightarrow> serial_PrintChar c d)"

definition Clear :: "output_device \<Rightarrow> output_device" where
  "Clear d = (case device_kind d of TextmodeDebugOutput \<Rightarrow> text_Clear d | _ \<Rightarrow> d)"

text \<open>A string that is constant in the source.\<close>

primrec print_text :: "u8 list \<Rightarrow> output_device \<Rightarrow> output_device option" where
  "print_text [] d = Some d"
| "print_text (c # cs) d = Option.bind (PrintChar c d) (print_text cs)"

partial_function (option) print_from :: "u32 \<Rightarrow> u32 \<Rightarrow> output_device \<Rightarrow> output_device option" where
  "print_from c i d = (if vram d (c + i) = 0 then Some d else Option.bind (PrintChar (vram d (c + i)) d) (print_from c (i + 1)))"

definition PrintString :: "u32 \<Rightarrow> output_device \<Rightarrow> output_device option" where
  "PrintString c d = print_from c 0 d"

section \<open>Numbers\<close>

text \<open>The buffer on the stack is at the address \<open>num\<close>; the base is 10 or 16. The loop ends for any base above 1.\<close>

definition base_reverseArray :: "mem \<Rightarrow> u32 \<Rightarrow> mem option" where
  "base_reverseArray m arr = Option.bind (k_strlen m arr) (\<lambda>n. Some (reverse_loop m arr 0 (sint (n - 1))))"

function digit_loop :: "u64 \<Rightarrow> (u64 \<Rightarrow> u8) \<Rightarrow> mem \<Rightarrow> u32 \<Rightarrow> u32 \<Rightarrow> u64 \<Rightarrow> mem" where
  "digit_loop b char m num i n =
     (let m = m(num + i := char (n mod b)); n' = n div b
      in if n' \<noteq> 0 \<and> 2 \<le> b then digit_loop b char m num (i + 1) n' else m)"
  by pat_completeness auto
termination
proof (relation "measure (\<lambda>(b, char, m, num, i, n). unat n)")
  fix b n :: u64 and char :: "u64 \<Rightarrow> u8" and m and num i :: u32 and m' n'
  assume "n' = n div b" "n' \<noteq> 0 \<and> 2 \<le> b"
  then have n: "n \<noteq> 0" and b: "2 \<le> unat b" by (auto simp: word_le_nat_alt)
  then have "unat n div unat b < unat n" by (intro div_less_dividend) (simp_all add: unat_gt_0)
  then show "((b, char, m', num, i + 1, n'), b, char, m, num, i, n) \<in> measure (\<lambda>(b, char, m, num, i, n). unat n)"
    using \<open>n' = n div b\<close> by (simp add: unat_div)
qed simp

declare digit_loop.simps [simp del]

definition print_digits :: "u64 \<Rightarrow> (u64 \<Rightarrow> u8) \<Rightarrow> u8 list \<Rightarrow> u32 \<Rightarrow> u64 \<Rightarrow> output_device \<Rightarrow> output_device option" where
  "print_digits b char prefix num n d =
     Option.bind (base_reverseArray (digit_loop b char (k_memset (vram d) num 0 20) num 0 n) num) (\<lambda>m.
     Option.bind (print_text prefix (d\<lparr>vram := m\<rparr>)) (PrintString num))"

definition PrintHex :: "u32 \<Rightarrow> u64 \<Rightarrow> output_device \<Rightarrow> output_device option" where
  "PrintHex = print_digits 16 (\<lambda>x. hexChars ! unat x) [0x30, 0x78]"

definition PrintDec :: "u32 \<Rightarrow> u64 \<Rightarrow> output_device \<Rightarrow> output_device option" where
  "PrintDec = print_digits 10 (\<lambda>x. ucast x + 0x30) []"

text \<open>
  For a signed number the sign is taken from its low 32 bits, one byte more than the buffer has is cleared, and the remainders of a
  negative number are negative.
\<close>

function signed_digit_loop :: "mem \<Rightarrow> u32 \<Rightarrow> u32 \<Rightarrow> int \<Rightarrow> mem \<times> u32" where
  "signed_digit_loop m num i n =
     (let m = m(num + i := of_int (n smod 10 + 0x30)); n' = n sdiv 10
      in if n' \<noteq> 0 then signed_digit_loop m num (i + 1) n' else (m, i + 1))"
  by pat_completeness auto
termination
proof (relation "measure (\<lambda>(m, num, i, n). nat \<bar>n\<bar>)")
  fix m and num i :: u32 and n m' n' :: int
  assume "n' = n sdiv 10" "n' \<noteq> 0"
  then have "n \<noteq> 0" "\<bar>n'\<bar> = \<bar>n\<bar> div 10" by (auto simp: abs_sdiv)
  then have "nat \<bar>n'\<bar> < nat \<bar>n\<bar>" by linarith
  then show "((m', num, i + 1, n'), m, num, i, n) \<in> measure (\<lambda>(m, num, i, n). nat \<bar>n\<bar>)" for m' by simp
qed simp

declare signed_digit_loop.simps [simp del]

definition PrintDec_signed :: "u32 \<Rightarrow> u64 \<Rightarrow> output_device \<Rightarrow> output_device option" where
  "PrintDec_signed num n d =
     (let sign = sint (ucast n :: u32); n = (if sign < 0 then - n else n);
          (m, i) = signed_digit_loop (k_memset (vram d) num 0 21) num 0 (sint n);
          m = (if sign < 0 then m(num + i := 0x2D) else m)
      in Option.bind (base_reverseArray m num) (\<lambda>m. PrintString num (d\<lparr>vram := m\<rparr>)))"

section \<open>Memory dumps and the output operators\<close>

primrec dump_hex :: "nat \<Rightarrow> u32 \<Rightarrow> u32 \<Rightarrow> output_device \<Rightarrow> output_device option" where
  "dump_hex 0 num ptr d = Some d"
| "dump_hex (Suc n) num ptr d =
     Option.bind (PrintHex num (scast (vram d ptr)) d) (\<lambda>d. Option.bind (print_text [0x20] d) (dump_hex n num (ptr + 1)))"

primrec dump_text :: "nat \<Rightarrow> u32 \<Rightarrow> output_device \<Rightarrow> output_device option" where
  "dump_text 0 ptr d = Some d"
| "dump_text (Suc n) ptr d =
     (let c = vram d ptr
      in Option.bind (PrintChar (if sint c < 0x20 \<or> 0x7E < sint c then 0x2E else c) d) (dump_text n (ptr + 1)))"

text \<open>A pointer is extended with its sign.\<close>

primrec dump_rows :: "nat \<Rightarrow> u32 \<Rightarrow> u32 \<Rightarrow> output_device \<Rightarrow> output_device option" where
  "dump_rows 0 num start d = Some d"
| "dump_rows (Suc n) num start d =
     Option.bind (PrintHex num (scast start) d) (\<lambda>d.
     Option.bind (print_text [0x3A, 0x20] d) (\<lambda>d.
     Option.bind (dump_hex 16 num start d) (\<lambda>d.
     Option.bind (print_text [0x09] d) (\<lambda>d.
     Option.bind (dump_text 16 start d) (\<lambda>d.
     Option.bind (print_text [0x0D, 0x0A] d) (dump_rows n num (start + 0x10)))))))"

definition PrintData :: "u32 \<Rightarrow> u32 \<Rightarrow> u32 \<Rightarrow> output_device \<Rightarrow> output_device option" where
  "PrintData num start len = dump_rows (unat (len div 0x10 + 1)) num start"

definition output_string :: "u32 \<Rightarrow> output_device \<Rightarrow> output_device option" where
  "output_string c = PrintString c"

definition output_uint :: "u32 \<Rightarrow> u32 \<Rightarrow> output_device \<Rightarrow> output_device option" where
  "output_uint num i d = (if printMode d = Dec then PrintDec num (ucast i) d else PrintHex num (ucast i) d)"

definition output_special :: "special \<Rightarrow> output_device \<Rightarrow> output_device option" where
  "output_special sp d = (case sp of Endl \<Rightarrow> Option.bind (PrintChar 0x0D d) (PrintChar 0x0A)
     | Dec \<Rightarrow> Some (d\<lparr>printMode := Dec\<rparr>) | Hex \<Rightarrow> Some (d\<lparr>printMode := Hex\<rparr>))"

section \<open>The debug device of the kernel\<close>

text \<open>\<open>NoDevice\<close> is the constant \<open>None\<close> of the source.\<close>

datatype DebugOutputDeviceType = NoDevice | Serial

record debug_hal =
  nullDebug :: output_device
  serialDebug :: "output_device option"
  currentDebugDevice :: DebugOutputDeviceType

definition new_debug_hal :: "'a console_scheme \<Rightarrow> debug_hal" where
  "new_debug_hal s = \<lparr>nullDebug = new_BaseOutputDevice NullDebugOutputDevice 0 s, serialDebug = None, currentDebugDevice = NoDevice\<rparr>"

text \<open>The serial device is made when it is first chosen; it is attached to the ports as they are.\<close>

definition SetCurrentDebugOutputDeviceType :: "DebugOutputDeviceType \<Rightarrow> debug_hal \<Rightarrow> debug_hal" where
  "SetCurrentDebugOutputDeviceType type h =
     (let h = (case type of
           Serial \<Rightarrow> if serialDebug h = None then h\<lparr>serialDebug := Some (new_SerialDebugOutput SERIAL_COM1 (nullDebug h))\<rparr> else h
         | NoDevice \<Rightarrow> h)
      in h\<lparr>currentDebugDevice := type\<rparr>)"

text \<open>The null pointer, \<open>None\<close>, if the serial device has not been made.\<close>

definition GetCurrentDebugOutputDevice :: "debug_hal \<Rightarrow> output_device option" where
  "GetCurrentDebugOutputDevice h = (case currentDebugDevice h of Serial \<Rightarrow> serialDebug h | NoDevice \<Rightarrow> Some (nullDebug h))"

definition kmain_debug_device :: "'a console_scheme \<Rightarrow> output_device option" where
  "kmain_debug_device s =
     Option.bind (GetCurrentDebugOutputDevice (SetCurrentDebugOutputDeviceType Serial (new_debug_hal s))) (\<lambda>d. Some (Clear d))"

section \<open>What printing changes\<close>

text \<open>The text screen prints as the one of the loader does.\<close>

lemma text_PrintChar_loader: "text_PrintChar c d = print_i386_char c d"
  unfolding text_PrintChar_def print_i386_char_def text_moveCursor_def moveCursor_def text_scroll_def scroll_def blank_def
    text_attribute_def attribute_def attributeByte_def by (rule refl)

lemma text_Clear_loader: "text_Clear d = print_i386_clear d"
  by (simp add: text_Clear_def print_i386_clear_def text_moveCursor_def moveCursor_def blank_def
      text_attribute_def attribute_def attributeByte_def)

text \<open>The colours, the kind and the mode of a device, and the answers it gets.\<close>

definition same_device :: "output_device \<Rightarrow> output_device \<Rightarrow> bool" where
  "same_device d d' \<longleftrightarrow> answers d' = answers d \<and> foregroundColor d' = foregroundColor d \<and> backgroundColor d' = backgroundColor d \<and>
     device_kind d' = device_kind d \<and> portNum d' = portNum d \<and> printMode d' = printMode d"

definition text_ok :: "output_device \<Rightarrow> bool" where
  "text_ok d \<longleftrightarrow> device_kind d = TextmodeDebugOutput \<longrightarrow> cursor_ok d"

lemma same_device_refl [simp]: "same_device d d"
  by (simp add: same_device_def)

lemma same_device_trans: "same_device d d' \<Longrightarrow> same_device d' d'' \<Longrightarrow> same_device d d''"
  by (simp add: same_device_def)

lemma same_device_text: "same_device d (print_i386_char c d)"
  by (simp add: same_device_def print_i386_char_def moveCursor_def scroll_def portio_outb_def Let_def)

text \<open>Waiting for the serial port only reads.\<close>

lemma wait_ready_reads: "wait_ready d = Some d' \<Longrightarrow> \<exists>r. d' = d\<lparr>reads := r\<rparr>"
proof (rule wait_ready.raw_induct [of "\<lambda>d d'. \<exists>r. d' = d\<lparr>reads := r\<rparr>"])
  fix f :: "output_device \<Rightarrow> output_device option" and d d'
  assume ih: "\<And>d d'. f d = Some d' \<Longrightarrow> \<exists>r. d' = d\<lparr>reads := r\<rparr>"
    and x: "(if fst (readyToTransmit d) then Some (snd (readyToTransmit d)) else f (snd (readyToTransmit d))) = Some d'"
  have e: "snd (readyToTransmit d) = d\<lparr>reads := (reads d)(portNum d + 5 := reads d (portNum d + 5) + 1)\<rparr>"
    by (simp add: readyToTransmit_def portio_inb_def)
  show "\<exists>r. d' = d\<lparr>reads := r\<rparr>"
  proof (cases "fst (readyToTransmit d)")
    case True
    then show ?thesis using x e by auto
  next
    case False
    then obtain r where "d' = (snd (readyToTransmit d))\<lparr>reads := r\<rparr>" using x ih by fastforce
    then show ?thesis using e by auto
  qed
qed

lemma put_serial_effect:
  assumes "put_serial c d = Some d'"
  shows "\<exists>r. d' = d\<lparr>reads := r, writes := writes d @ [(portNum d, c)]\<rparr>"
proof -
  obtain e where e: "wait_ready d = Some e" "d' = portio_outb (portNum e) c e" using assms by (auto simp: put_serial_def bind_eq_Some_conv)
  then obtain r where "e = d\<lparr>reads := r\<rparr>" using wait_ready_reads by blast
  then show ?thesis using e(2) by (intro exI [of _ r]) (simp add: portio_outb_def)
qed

lemma serial_PrintChar_put: "serial_PrintChar c d = put_serial c d"
  by (simp add: serial_PrintChar_def startColor_def endColor_def SERIAL_COLOR_def bind_eq_Some_conv split: bind_splits)

lemma PrintChar_effect:
  assumes "PrintChar c d = Some d'" "text_ok d"
  shows "same_device d d'" "text_ok d'" "screen_only (vram d) (vram d')"
proof -
  show "same_device d d'"
    using assms put_serial_effect same_device_text
    by (fastforce simp: PrintChar_def text_PrintChar_loader serial_PrintChar_put same_device_def split: output_kind.splits)
  show "text_ok d'" "screen_only (vram d) (vram d')"
    using assms print_char_ok put_serial_effect
    by (fastforce simp: PrintChar_def text_PrintChar_loader serial_PrintChar_put text_ok_def split: output_kind.splits)+
qed

lemma print_text_Nil [simp]: "print_text [] = Some"
  by (rule ext) simp

lemma print_text_append: "print_text (cs @ ds) d = Option.bind (print_text cs d) (print_text ds)"
  by (induction cs arbitrary: d) (auto split: bind_splits)

lemma print_text_effect: "print_text cs d = Some d' \<Longrightarrow> text_ok d \<Longrightarrow> same_device d d' \<and> text_ok d' \<and> screen_only (vram d) (vram d')"
proof (induction cs arbitrary: d)
  case (Cons c cs)
  then obtain e where e: "PrintChar c d = Some e" "print_text cs e = Some d'" by (auto simp: bind_eq_Some_conv)
  from PrintChar_effect [OF e(1) Cons.prems(2)] Cons.IH [OF e(2)] show ?case
    using same_device_trans screen_only_trans by blast
qed simp

text \<open>A string away from the screen is printed as it is before.\<close>

definition off_screen :: "u32 \<Rightarrow> nat \<Rightarrow> bool" where
  "off_screen a n \<longleftrightarrow> (\<forall>k < n. 4000 \<le> a + of_nat k - videoram)"

lemma off_screen_step: "off_screen a (Suc n) \<Longrightarrow> 4000 \<le> a - videoram \<and> off_screen (a + 1) n"
proof -
  assume a: "off_screen a (Suc n)"
  have "4000 \<le> a + of_nat (Suc k) - videoram" if "k < n" for k using a that unfolding off_screen_def by blast
  moreover have "4000 \<le> a + of_nat 0 - videoram" using a unfolding off_screen_def by blast
  ultimately show ?thesis by (simp add: off_screen_def add.assoc)
qed

lemma cstr_screen:
  assumes "cstr m a cs" "screen_only m m'" "off_screen a (Suc (length cs))"
  shows "cstr m' a cs"
  using assms
proof (induction cs arbitrary: a)
  case Nil
  then show ?case using off_screen_step [of a 0] by (simp add: screen_only_def)
next
  case (Cons c cs)
  then show ?case using off_screen_step [of a "Suc (length cs)"] by (simp add: screen_only_def)
qed

lemma print_from_text:
  "cstr (vram d) (c + i) cs \<Longrightarrow> text_ok d \<Longrightarrow> off_screen (c + i) (Suc (length cs)) \<Longrightarrow> print_from c i d = print_text cs d"
proof (induction cs arbitrary: i d)
  case Nil
  then show ?case by (subst print_from.simps) simp
next
  case (Cons x xs)
  then have x: "vram d (c + i) = x" "x \<noteq> 0" by simp_all
  have "print_from c (i + 1) e = print_text xs e" if e: "PrintChar x d = Some e" for e
  proof (rule Cons.IH)
    note ef = PrintChar_effect [OF e Cons.prems(2)]
    show "text_ok e" by (rule ef(2))
    have off: "off_screen (c + i + 1) (Suc (length xs))" using off_screen_step [of "c + i" "Suc (length xs)"] Cons.prems(3) by simp
    then show "off_screen (c + (i + 1)) (Suc (length xs))" by (simp add: add.assoc)
    have "cstr (vram d) (c + i + 1) xs" using Cons.prems(1) by simp
    from cstr_screen [OF this ef(3) off] show "cstr (vram e) (c + (i + 1)) xs" by (simp add: add.assoc)
  qed
  then show ?case using x by (subst print_from.simps) (auto split: bind_splits)
qed

lemma PrintString_text:
  "cstr (vram d) c cs \<Longrightarrow> text_ok d \<Longrightarrow> off_screen c (Suc (length cs)) \<Longrightarrow> PrintString c d = print_text cs d"
  using print_from_text [of d c 0 cs] by (simp add: PrintString_def)

section \<open>Numbers as text\<close>

lemma digit_loop_stores:
  assumes "2 \<le> b" "b < 2 ^ 64"
  shows "digit_loop (of_nat b) char m num i n = store_bytes m (num + i) (map (\<lambda>k. char (of_nat k)) (digits b (unat n)))"
proof (induction "unat n" arbitrary: n m i rule: less_induct)
  case less
  have ub: "unat (of_nat b :: u64) = b" using assms(2) by (simp add: unat_of_nat take_bit_nat_eq_self)
  then have ge: "2 \<le> (of_nat b :: u64)" using assms(1) by (simp add: word_le_nat_alt)
  have md: "n mod of_nat b = of_nat (unat n mod b)" 
  proof (rule iffD2 [OF word_eq_unat_iff])
    have "unat n mod b < 2 ^ 64" using unsigned_less [of n] le_less_trans [OF mod_less_eq_dividend] by simp
    then show "unat (n mod of_nat b) = unat (of_nat (unat n mod b) :: u64)" unfolding unat_mod ub by (simp add: unat_of_nat take_bit_nat_eq_self)
  qed
  have dv: "unat (n div of_nat b) = unat n div b" by (simp add: unat_div ub)
  show ?case
  proof (cases "unat n < b")
    case True
    then have "unat (n div of_nat b) = 0" unfolding dv by simp
    then have "n div of_nat b = 0" by (simp only: unat_eq_0)
    then show ?thesis using True md by (subst digit_loop.simps) (simp add: digits_small)
  next
    case False
    then have "unat n div b \<noteq> 0" using assms(1) by (simp add: div_eq_0_iff)
    then have nz: "n div of_nat b \<noteq> 0" using dv by (metis unat_0)
    have "unat (n div of_nat b) < unat n" using dv False assms(1) by (simp add: div_less_dividend)
    then have ih: "digit_loop (of_nat b) char (m(num + i := char (n mod of_nat b))) num (i + 1) (n div of_nat b) =
        store_bytes (m(num + i := char (n mod of_nat b))) (num + (i + 1)) (map (\<lambda>k. char (of_nat k)) (digits b (unat (n div of_nat b))))"
      by (rule less)
    have "digits b (unat n) = unat n mod b # digits b (unat n div b)" using False assms(1) by (intro digits_step) simp_all
    then show ?thesis using nz ge md dv ih by (subst digit_loop.simps) (simp add: add.assoc Let_def)
  qed
qed

lemma memset_store: "memset_loop n m d v = store_bytes m d (replicate n v)"
  by (induction n arbitrary: m d) simp_all

text \<open>A short text in the cleared buffer, reversed and printed behind a prefix.\<close>

lemma buffer_text:
  assumes "length cs < k" "k \<le> 32" "0 \<notin> set cs"
  shows "\<exists>m'. base_reverseArray (store_bytes (k_memset m num 0 (of_nat k)) num cs) num = Some m' \<and> cstr m' num (rev cs) \<and>
    (\<forall>j. length cs \<le> j \<and> j < k \<longrightarrow> m' (num + of_nat j) = 0) \<and>
    (\<forall>j. k \<le> j \<and> j < 2 ^ 32 \<longrightarrow> m' (num + of_nat j) = m (num + of_nat j))"
proof -
  let ?m = "store_bytes (k_memset m num 0 (of_nat k)) num cs"
  have ms: "k_memset m num 0 (of_nat k) = store_bytes m num (replicate k 0)"
    using assms(2) by (simp add: k_memset_def memset_store unat_of_nat32)
  have v: "?m (num + of_nat j) = (if j < length cs then cs ! j else if j < k then 0 else m (num + of_nat j))" if "j < 2 ^ 32" for j
    using that assms unfolding ms by (simp add: store_bytes_nth)
  have "cstr ?m num cs" unfolding cstr_nth using v assms by simp
  then obtain m' where m': "reverseArray ?m num = Some m'" "cstr m' num (rev cs)"
      "\<forall>j. length cs \<le> j \<and> j < 2 ^ 32 \<longrightarrow> m' (num + of_nat j) = ?m (num + of_nat j)"
    using reverseArray_reverses [of ?m num cs] assms by auto
  have "base_reverseArray ?m num = reverseArray ?m num" by (simp add: base_reverseArray_def reverseArray_def)
  then show ?thesis using m' v assms by (intro exI [of _ m']) auto
qed

text \<open>The bytes of the buffer are the only ones that differ when printing starts.\<close>

definition buffer_only :: "u32 \<Rightarrow> nat \<Rightarrow> mem \<Rightarrow> mem \<Rightarrow> bool" where
  "buffer_only num k m m' \<longleftrightarrow> (\<forall>j. k \<le> j \<and> j < 2 ^ 32 \<longrightarrow> m' (num + of_nat j) = m (num + of_nat j))"

lemma off_screen_less: "off_screen a n \<Longrightarrow> k \<le> n \<Longrightarrow> off_screen a k"
  by (simp add: off_screen_def)

lemma print_buffer:
  assumes "cstr m num cs" "text_ok d" "off_screen num (Suc (length cs))"
  shows "Option.bind (print_text prefix (d\<lparr>vram := m\<rparr>)) (PrintString num) = print_text (prefix @ cs) (d\<lparr>vram := m\<rparr>)"
proof -
  have "PrintString num e = print_text cs e" if e: "print_text prefix (d\<lparr>vram := m\<rparr>) = Some e" for e
  proof -
    have "text_ok (d\<lparr>vram := m\<rparr>)" using assms(2) by (simp add: text_ok_def cursor_ok_def)
    then have "text_ok e" "screen_only m (vram e)" using print_text_effect [OF e] by simp_all
    then show ?thesis using PrintString_text cstr_screen [OF assms(1) _ assms(3)] assms(3) by blast
  qed
  then show ?thesis by (auto simp: print_text_append split: bind_splits)
qed

lemma print_digits_text:
  assumes b: "2 \<le> b" "b \<le> 16" and ok: "text_ok d" "off_screen num 20" and len: "length (digits b (unat n)) < 20"
    and ch: "\<And>k. k < b \<Longrightarrow> char (of_nat k) = hex_char k"
  shows "\<exists>m. print_digits (of_nat b) char prefix num n d = print_text (prefix @ number_text b (uint n)) (d\<lparr>vram := m\<rparr>) \<and> buffer_only num 20 (vram d) m"
proof -
  let ?ds = "digits b (unat n)"
  have mp: "map (\<lambda>k. char (of_nat k)) ?ds = map hex_char ?ds" using ch digits_less [OF b(1)] by simp
  have nz: "0 \<notin> set (map hex_char ?ds)" using digits_less [OF b(1)] b(2) hex_char_reads(3) by fastforce
  have "digit_loop (of_nat b) char (k_memset (vram d) num 0 20) num 0 n = store_bytes (k_memset (vram d) num 0 20) num (map hex_char ?ds)"
    using b by (subst digit_loop_stores) (simp_all add: mp)
  then obtain m where m: "base_reverseArray (digit_loop (of_nat b) char (k_memset (vram d) num 0 20) num 0 n) num = Some m"
      "cstr m num (rev (map hex_char ?ds))" "buffer_only num 20 (vram d) m"
    using buffer_text [of "map hex_char ?ds" 20 "vram d" num] len nz by (auto simp: buffer_only_def)
  have nt: "rev (map hex_char ?ds) = number_text b (uint n)" by (simp add: number_text_def rev_map nat_uint_eq)
  have "Suc (length (rev (map hex_char ?ds))) \<le> 20" using len by simp
  from print_buffer [OF m(2) ok(1) off_screen_less [OF ok(2) this], of prefix] show ?thesis unfolding nt print_digits_def using m(1,3)
    by (intro exI [of _ m]) simp
qed

lemma digits_decimal: "n < 10 ^ k \<Longrightarrow> 0 < k \<Longrightarrow> length (digits 10 n) \<le> k"
proof (induction k arbitrary: n)
  case (Suc k)
  show ?case
  proof (cases "n < 10")
    case False
    then have "n div 10 < 10 ^ k" using Suc.prems by simp
    moreover have "k \<noteq> 0" using False Suc.prems by (intro notI) simp
    ultimately show ?thesis using False Suc.IH [of "n div 10"] by (simp add: digits_step)
  qed (simp add: digits_small)
qed simp

lemma PrintHex_text:
  assumes "text_ok d" "off_screen num 20"
  shows "\<exists>m. PrintHex num n d = print_text ([0x30, 0x78] @ number_text 16 (uint n)) (d\<lparr>vram := m\<rparr>) \<and> buffer_only num 20 (vram d) m"
proof -
  have len: "length (digits 16 k) \<le> j" if "k < 16 ^ j" "0 < j" for k j
    using that
  proof (induction j arbitrary: k)
    case (Suc j)
    show ?case
    proof (cases "k < 16")
      case False
      then have "k div 16 < 16 ^ j" using Suc.prems by simp
      moreover have "j \<noteq> 0" using False Suc.prems by (intro notI) simp
      ultimately show ?thesis using False Suc.IH [of "k div 16"] by (simp add: digits_step)
    qed (simp add: digits_small)
  qed simp
  have "unat n < 16 ^ 16" using unsigned_less [of n] by simp
  then have "length (digits 16 (unat n)) < 20" using len [of "unat n" 16] by simp
  moreover have "hexChars ! unat (of_nat k :: u64) = hex_char k" if "k < 16" for k
    using that by (simp add: unat_of_nat take_bit_nat_eq_self)
  ultimately show ?thesis unfolding PrintHex_def
    using print_digits_text [of 16 d num n "\<lambda>x. hexChars ! unat x" "[0x30, 0x78]"] assms by (simp only: of_nat_numeral)
qed

lemma PrintDec_text:
  assumes "text_ok d" "off_screen num 20" "unat n < 10 ^ 19"
  shows "\<exists>m. PrintDec num n d = print_text (number_text 10 (uint n)) (d\<lparr>vram := m\<rparr>) \<and> buffer_only num 20 (vram d) m"
proof -
  have "length (digits 10 (unat n)) < 20" using digits_decimal [OF assms(3)] by simp
  moreover have "ucast (of_nat k :: u64) + 0x30 = hex_char k" if "k < 10" for k
  proof -
    have "list_all (\<lambda>k. ucast (of_nat k :: u64) + 0x30 = hex_char k) [0..<10]" by code_simp
    then show ?thesis using that by (simp add: list_all_iff)
  qed
  ultimately show ?thesis using print_digits_text [of 10 d num n "\<lambda>x. ucast x + 0x30" "[]"] assms by (simp only: PrintDec_def of_nat_numeral append_Nil)
qed

text \<open>A value of 20 digits fills the buffer, so the text has no end in it.\<close>

lemma digits_decimal_long: "10 ^ k \<le> n \<Longrightarrow> k < length (digits 10 n)"
proof (induction k arbitrary: n)
  case 0
  then show ?case using digits_nonempty [of 10 n] by simp
next
  case (Suc k)
  then have "10 ^ k \<le> n div 10" by simp
  moreover have "10 \<le> n" using Suc.prems by (rule order_trans [rotated]) simp
  ultimately show ?case using Suc.IH [of "n div 10"] by (simp add: digits_step)
qed

lemma PrintDec_unterminated:
  assumes "10 ^ 19 \<le> unat n" "k < 20"
  shows "digit_loop 10 (\<lambda>x. ucast x + 0x30) m num 0 n (num + of_nat k) \<noteq> 0"
proof -
  let ?ds = "digits 10 (unat n)"
  have "unat n < 2 ^ LENGTH(64)" by (rule unsigned_less)
  then have "unat n < 10 ^ 20" by (rule less_trans) simp
  then have len: "length ?ds = 20" using digits_decimal_long [OF assms(1)] digits_decimal [of "unat n" 20] by simp
  have "list_all (\<lambda>k. ucast (of_nat k :: u64) + 0x30 \<noteq> (0 :: u8)) [0..<10]" by code_simp
  then have nz: "ucast (of_nat j :: u64) + 0x30 \<noteq> (0 :: u8)" if "j < 10" for j using that by (simp add: list_all_iff)
  have "?ds ! k < 10" using digits_less [of 10 "?ds ! k" "unat n"] len assms(2) by simp
  then show ?thesis
    using digit_loop_stores [of 10 "\<lambda>x. ucast x + 0x30" m num 0 n] nz len assms(2) by (simp add: store_bytes_nth)
qed

section \<open>Signed numbers\<close>

lemma signed_digit_loop_stores:
  assumes sg: "sg = 1 \<or> sg = - 1"
  shows "signed_digit_loop m num i (sg * int n) =
    (store_bytes m (num + i) (map (\<lambda>k. of_int (sg * int k + 0x30)) (digits 10 n)), i + of_nat (length (digits 10 n)))"
proof (induction n arbitrary: m i rule: less_induct)
  case (less n)
  have md: "(sg * int n) smod 10 = sg * int (n mod 10)" "(sg * int n) sdiv 10 = sg * int (n div 10)"
    using sg by (cases "n = 0"; auto simp: signed_modulo_int_def signed_divide_int_def zmod_int zdiv_int)+
  show ?case
  proof (cases "n < 10")
    case True
    then show ?thesis using md by (subst signed_digit_loop.simps) (simp add: digits_small add.commute)
  next
    case False
    then have "n div 10 < n" "sg * int (n div 10) \<noteq> 0" using sg by auto
    moreover have "digits 10 n = n mod 10 # digits 10 (n div 10)" using False by (intro digits_step) simp_all
    ultimately show ?thesis using less [of "n div 10"] md by (subst signed_digit_loop.simps) (simp add: Let_def ac_simps)
  qed
qed

lemma PrintDec_signed_text:
  assumes ok: "text_ok d" "off_screen num 21" and n: "- (2 ^ 31) \<le> sint n" "sint n < 2 ^ 31"
  shows "\<exists>m. PrintDec_signed num n d = print_text (number_text 10 (sint n)) (d\<lparr>vram := m\<rparr>) \<and> buffer_only num 21 (vram d) m \<and> m (num + 20) = 0"
proof -
  define k where "k = nat \<bar>sint n\<bar>"
  let ?ds = "map hex_char (digits 10 k)" and ?neg = "sint n < 0"
  define cs where "cs = ?ds @ (if ?neg then [0x2D] else [])"
  have sg: "sint (ucast n :: u32) = sint n" 
  proof -
    have "signed_take_bit 31 (uint n) = signed_take_bit 31 (sint n)" by (simp add: sint_uint signed_take_bit_signed_take_bit)
    also have "\<dots> = sint n" using n by (simp add: signed_take_bit_int_eq_self)
    finally show ?thesis by (simp add: signed_ucast_eq)
  qed
  have k: "sint (if ?neg then - n else n) = 1 * int k"
    using n by (auto simp: k_def sint_word_ariths signed_take_bit_int_eq_self)
  have "k < 10 ^ 10" using n by (simp add: k_def nat_less_iff abs_less_iff)
  then have len: "length (digits 10 k) \<le> 10" by (rule digits_decimal) simp
  have "list_all (\<lambda>k. of_int (1 * int k + 0x30) = hex_char k) [0..<10]" by code_simp
  then have mp: "map (\<lambda>k. of_int (1 * int k + 0x30)) (digits 10 k) = ?ds" using digits_less [of 10] by (simp add: list_all_iff)
  have nz: "0 \<notin> set cs" using digits_less [of 10] hex_char_reads(3) by (fastforce simp: cs_def)
  have app: "store_bytes m a (xs @ [c]) = (store_bytes m a xs)(a + of_nat (length xs) := c)" for m a xs c
    by (induction xs arbitrary: m a) (simp_all add: add.assoc)
  let ?z = "k_memset (vram d) num 0 21"
  have loop: "signed_digit_loop ?z num 0 (sint (if ?neg then - n else n)) = (store_bytes ?z num ?ds, of_nat (length ?ds))"
    unfolding k signed_digit_loop_stores [of 1, OF disjI1, OF refl] mp by simp
  have eq: "(if ?neg then (store_bytes ?z num ?ds)(num + of_nat (length ?ds) := 0x2D) else store_bytes ?z num ?ds) = store_bytes ?z num cs"
    by (simp add: cs_def app)
  have run: "PrintDec_signed num n d = Option.bind (base_reverseArray (store_bytes ?z num cs) num) (\<lambda>m. PrintString num (d\<lparr>vram := m\<rparr>))"
    unfolding PrintDec_signed_def Let_def sg loop prod.case eq by (rule refl)
  have "length cs \<le> 11" using len by (simp add: cs_def)
  then have cl: "length cs < 21" "length cs \<le> 20" by simp_all
  from buffer_text [of cs 21 "vram d" num, OF cl(1) _ nz] obtain m where m: "base_reverseArray (store_bytes ?z num cs) num = Some m" "cstr m num (rev cs)"
      "\<forall>j. length cs \<le> j \<and> j < 21 \<longrightarrow> m (num + of_nat j) = 0" "buffer_only num 21 (vram d) m" by (auto simp: buffer_only_def)
  from m(3) [rule_format, of 20] cl(2) have m20: "m (num + 20) = 0" by simp
  have nt: "rev cs = number_text 10 (sint n)" by (simp add: cs_def number_text_def k_def rev_map)
  have "Suc (length (rev cs)) \<le> 21" using cl(1) by simp
  from PrintString_text [of "d\<lparr>vram := m\<rparr>" num "rev cs"] off_screen_less [OF ok(2) this] m(2) ok(1)
  have "PrintString num (d\<lparr>vram := m\<rparr>) = print_text (rev cs) (d\<lparr>vram := m\<rparr>)" by (simp add: text_ok_def cursor_ok_def)
  then show ?thesis using run m(1,4) m20 nt by (intro exI [of _ m]) simp
qed

text \<open>The sign of a larger value is that of its low half: for \<open>2 ^ 31\<close> the buffer has the characters \<open>-./,),(-*,(\<close>.\<close>

lemma PrintDec_signed_wrong:
  "fst (signed_digit_loop m num 0 (sint (- (0x80000000 :: u64)))) =
     store_bytes m num (map (\<lambda>k. 0x30 - of_nat k) (digits 10 2147483648)) \<and> sint (ucast (0x80000000 :: u64) :: u32) < 0"
proof -
  have "sint (- (0x80000000 :: u64)) = - 1 * int 2147483648" by simp
  then have "fst (signed_digit_loop m num 0 (sint (- (0x80000000 :: u64)))) =
      store_bytes m num (map (\<lambda>k. of_int (- 1 * int k + 0x30)) (digits 10 2147483648))"
    by (simp only: signed_digit_loop_stores [of "- 1", OF disjI2, OF refl] fst_conv add_0_right)
  then show ?thesis by simp
qed

section \<open>The serial port\<close>

definition always_ready :: "output_device \<Rightarrow> bool" where
  "always_ready d \<longleftrightarrow> device_kind d = SerialDebugOutput \<and> (\<forall>k. answers d (portNum d + 5) k AND 0x20 \<noteq> 0)"

text \<open>A port that answers is sent the characters in their order.\<close>

lemma put_serial_ready:
  assumes "always_ready d"
  shows "\<exists>r. PrintChar c d = Some (d\<lparr>reads := r, writes := writes d @ [(portNum d, c)]\<rparr>)"
proof -
  have "fst (readyToTransmit d)" using assms by (simp add: always_ready_def readyToTransmit_def portio_inb_def)
  then have "wait_ready d = Some (snd (readyToTransmit d))" by (subst wait_ready.simps) simp
  then have "put_serial c d \<noteq> None" by (simp add: put_serial_def)
  then show ?thesis using put_serial_effect [of c d] assms by (auto simp: PrintChar_def always_ready_def serial_PrintChar_put)
qed

lemma serial_text:
  "always_ready d \<Longrightarrow> \<exists>r. print_text cs d = Some (d\<lparr>reads := r, writes := writes d @ map (Pair (portNum d)) cs\<rparr>)"
proof (induction cs arbitrary: d)
  case Nil
  show ?case by (rule exI [of _ "reads d"]) simp
next
  case (Cons c cs)
  obtain r where r: "PrintChar c d = Some (d\<lparr>reads := r, writes := writes d @ [(portNum d, c)]\<rparr>)" using put_serial_ready [OF Cons.prems] by blast
  let ?d = "d\<lparr>reads := r, writes := writes d @ [(portNum d, c)]\<rparr>"
  have "always_ready ?d" using Cons.prems by (simp add: always_ready_def)
  from Cons.IH [OF this] obtain q where "print_text cs ?d = Some (?d\<lparr>reads := q, writes := writes ?d @ map (Pair (portNum ?d)) cs\<rparr>)" by blast
  then show ?case using r by (intro exI [of _ q]) simp
qed

text \<open>The debug device \<open>kmain\<close> chooses is the serial port.\<close>

lemma kmain_debug_device_serial:
  "\<exists>d. kmain_debug_device s = Some d \<and> device_kind d = SerialDebugOutput \<and> portNum d = SERIAL_COM1 \<and> answers d = answers s \<and> text_ok d"
  by (simp add: kmain_debug_device_def SetCurrentDebugOutputDeviceType_def new_debug_hal_def GetCurrentDebugOutputDevice_def Clear_def
      new_SerialDebugOutput_def new_BaseOutputDevice_def portio_outb_def text_ok_def)

section \<open>Dumping memory to the serial port\<close>

definition sends :: "u32 \<Rightarrow> output_device \<Rightarrow> u8 list \<Rightarrow> output_device \<Rightarrow> bool" where
  "sends num d cs d' \<longleftrightarrow> same_device d d' \<and> writes d' = writes d @ map (Pair (portNum d)) cs \<and> buffer_only num 20 (vram d) (vram d')"

lemma sends_trans: "sends num d cs e \<Longrightarrow> sends num e ds f \<Longrightarrow> sends num d (cs @ ds) f"
  by (auto simp: sends_def same_device_def buffer_only_def)

lemma sends_ready: "sends num d cs e \<Longrightarrow> always_ready d \<Longrightarrow> always_ready e"
  by (simp add: sends_def same_device_def always_ready_def)

lemma print_text_sends: "always_ready d \<Longrightarrow> \<exists>e. print_text cs d = Some e \<and> sends num d cs e"
  using serial_text [of d cs] by (auto simp: sends_def same_device_def buffer_only_def)

definition hex_text :: "u64 \<Rightarrow> u8 list" where
  "hex_text n = [0x30, 0x78] @ number_text 16 (uint n)"

lemma PrintHex_sends:
  assumes "always_ready d" "off_screen num 20"
  shows "\<exists>e. PrintHex num n d = Some e \<and> sends num d (hex_text n) e"
proof -
  have "text_ok d" using assms(1) by (simp add: always_ready_def text_ok_def)
  then obtain m where m: "PrintHex num n d = print_text (hex_text n) (d\<lparr>vram := m\<rparr>)" "buffer_only num 20 (vram d) m"
    using PrintHex_text [OF _ assms(2)] by (auto simp: hex_text_def)
  have "always_ready (d\<lparr>vram := m\<rparr>)" using assms(1) by (simp add: always_ready_def)
  from serial_text [OF this, of "hex_text n"] show ?thesis using m by (auto simp: sends_def same_device_def)
qed

text \<open>Bytes outside the buffer.\<close>

definition off_buffer :: "u32 \<Rightarrow> u32 \<Rightarrow> nat \<Rightarrow> bool" where
  "off_buffer num a n \<longleftrightarrow> (\<forall>k < n. 20 \<le> unat (a + of_nat k - num))"

lemma off_buffer_step: "off_buffer num a (Suc n) \<Longrightarrow> 20 \<le> unat (a - num) \<and> off_buffer num (a + 1) n"
proof -
  assume o: "off_buffer num a (Suc n)"
  have "20 \<le> unat (a + of_nat (Suc k) - num)" if "k < n" for k using o that unfolding off_buffer_def by blast
  moreover have "20 \<le> unat (a + of_nat 0 - num)" using o unfolding off_buffer_def by blast
  ultimately show ?thesis by (simp add: off_buffer_def add.assoc)
qed

lemma off_buffer_more: "off_buffer num a (m + n) \<Longrightarrow> off_buffer num a m \<and> off_buffer num (a + of_nat m) n"
proof -
  assume o: "off_buffer num a (m + n)"
  have "20 \<le> unat (a + of_nat (m + k) - num)" if "k < n" for k using o that unfolding off_buffer_def by (metis add_strict_left_mono)
  then have "off_buffer num (a + of_nat m) n" by (simp add: off_buffer_def add.assoc)
  moreover have "off_buffer num a m" using o by (simp add: off_buffer_def)
  ultimately show ?thesis by simp
qed

lemma off_buffer_block:
  assumes "off_buffer num a (16 * n)" "i < n"
  shows "off_buffer num (a + of_nat (16 * i)) 16"
proof (unfold off_buffer_def, intro allI impI)
  fix k :: nat
  assume "k < 16"
  then have "16 * i + k < 16 * n" using assms(2) by simp
  then have "20 \<le> unat (a + of_nat (16 * i + k) - num)" using assms(1) by (simp add: off_buffer_def del: of_nat_add)
  then show "20 \<le> unat (a + of_nat (16 * i) + of_nat k - num)" by (simp add: add.assoc)
qed

lemma sends_byte: "sends num d cs e \<Longrightarrow> 20 \<le> unat (a - num) \<Longrightarrow> vram e a = vram d a"
proof -
  assume e: "sends num d cs e" and a: "20 \<le> unat (a - num)"
  have b: "unat (a - num) < 2 ^ 32" by simp
  have "vram e (num + of_nat (unat (a - num))) = vram d (num + of_nat (unat (a - num)))"
    using e a b unfolding sends_def buffer_only_def by blast
  then show ?thesis by simp
qed

lemma sends_bytes: "sends num d cs e \<Longrightarrow> off_buffer num a n \<Longrightarrow> load_bytes (vram e) a n = load_bytes (vram d) a n"
proof (induction n arbitrary: a)
  case (Suc n)
  then show ?case using off_buffer_step [OF Suc.prems(2)] sends_byte [OF Suc.prems(1)] by (simp add: load_bytes_Suc)
qed simp

definition printable :: "u8 \<Rightarrow> u8" where
  "printable c = (if sint c < 0x20 \<or> 0x7E < sint c then 0x2E else c)"

lemma dump_hex_sends:
  "always_ready d \<Longrightarrow> off_screen num 20 \<Longrightarrow> off_buffer num a n \<Longrightarrow>
    \<exists>e. dump_hex n num a d = Some e \<and> sends num d (concat (map (\<lambda>c. hex_text (scast c) @ [0x20]) (load_bytes (vram d) a n))) e"
proof (induction n arbitrary: a d)
  case 0
  then show ?case by (simp add: sends_def buffer_only_def)
next
  case (Suc n)
  note st = off_buffer_step [OF Suc.prems(3)]
  obtain e where e: "PrintHex num (scast (vram d a)) d = Some e" "sends num d (hex_text (scast (vram d a))) e"
    using PrintHex_sends [OF Suc.prems(1,2)] by blast
  obtain f where f: "print_text [0x20] e = Some f" "sends num e [0x20] f"
    using print_text_sends [OF sends_ready [OF e(2) Suc.prems(1)], of "[0x20]" num] by blast
  note ef = sends_trans [OF e(2) f(2)]
  obtain g where g: "dump_hex n num (a + 1) f = Some g"
      "sends num f (concat (map (\<lambda>c. hex_text (scast c) @ [0x20]) (load_bytes (vram f) (a + 1) n))) g"
    using Suc.IH [OF sends_ready [OF ef Suc.prems(1)] Suc.prems(2) conjunct2 [OF st]] by blast
  have "load_bytes (vram f) (a + 1) n = load_bytes (vram d) (a + 1) n" by (rule sends_bytes [OF ef conjunct2 [OF st]])
  then show ?case using e(1) f(1) g sends_trans [OF ef g(2)] by (simp add: load_bytes_Suc)
qed

lemma dump_text_sends:
  "always_ready d \<Longrightarrow> off_buffer num a n \<Longrightarrow> \<exists>e. dump_text n a d = Some e \<and> sends num d (map printable (load_bytes (vram d) a n)) e"
proof (induction n arbitrary: a d)
  case 0
  then show ?case by (simp add: sends_def buffer_only_def)
next
  case (Suc n)
  note st = off_buffer_step [OF Suc.prems(2)]
  obtain e where e: "print_text [printable (vram d a)] d = Some e" "sends num d [printable (vram d a)] e"
    using print_text_sends [OF Suc.prems(1), of "[printable (vram d a)]" num] by blast
  obtain f where f: "dump_text n (a + 1) e = Some f" "sends num e (map printable (load_bytes (vram e) (a + 1) n)) f"
    using Suc.IH [OF sends_ready [OF e(2) Suc.prems(1)] conjunct2 [OF st]] by blast
  have "load_bytes (vram e) (a + 1) n = load_bytes (vram d) (a + 1) n" by (rule sends_bytes [OF e(2) conjunct2 [OF st]])
  moreover have "dump_text (Suc n) a d = Option.bind (PrintChar (printable (vram d a)) d) (dump_text n (a + 1))"
    by (simp add: printable_def Let_def)
  ultimately show ?case using e(1) f sends_trans [OF e(2) f(2)] by (simp add: load_bytes_Suc)
qed

definition dump_row :: "mem \<Rightarrow> u32 \<Rightarrow> u8 list" where
  "dump_row m a = hex_text (scast a) @ [0x3A, 0x20] @ concat (map (\<lambda>c. hex_text (scast c) @ [0x20]) (load_bytes m a 16)) @ [0x09] @
     map printable (load_bytes m a 16) @ [0x0D, 0x0A]"

lemma dump_rows_sends:
  "always_ready d \<Longrightarrow> off_screen num 20 \<Longrightarrow> off_buffer num a (16 * n) \<Longrightarrow>
    \<exists>e. dump_rows n num a d = Some e \<and> sends num d (concat (map (\<lambda>i. dump_row (vram d) (a + 16 * of_nat i)) [0..<n])) e"
proof (induction n arbitrary: a d)
  case 0
  then show ?case by (simp add: sends_def buffer_only_def)
next
  case (Suc n)
  have off: "off_buffer num a 16" "off_buffer num (a + 16) (16 * n)" using off_buffer_more [of num a 16 "16 * n"] Suc.prems(3) by simp_all
  obtain d1 where d1: "PrintHex num (scast a) d = Some d1" "sends num d (hex_text (scast a)) d1" using PrintHex_sends [OF Suc.prems(1,2)] by blast
  obtain d2 where d2: "print_text [0x3A, 0x20] d1 = Some d2" "sends num d1 [0x3A, 0x20] d2"
    using print_text_sends [OF sends_ready [OF d1(2) Suc.prems(1)], of _ num] by blast
  note s2 = sends_trans [OF d1(2) d2(2)]
  obtain d3 where d3: "dump_hex 16 num a d2 = Some d3" "sends num d2 (concat (map (\<lambda>c. hex_text (scast c) @ [0x20]) (load_bytes (vram d) a 16))) d3"
    using dump_hex_sends [OF sends_ready [OF s2 Suc.prems(1)] Suc.prems(2) off(1)] sends_bytes [OF s2 off(1)] by auto
  note s3 = sends_trans [OF s2 d3(2)]
  obtain d4 where d4: "print_text [0x09] d3 = Some d4" "sends num d3 [0x09] d4"
    using print_text_sends [OF sends_ready [OF s3 Suc.prems(1)], of _ num] by blast
  note s4 = sends_trans [OF s3 d4(2)]
  obtain d5 where d5: "dump_text 16 a d4 = Some d5" "sends num d4 (map printable (load_bytes (vram d) a 16)) d5"
    using dump_text_sends [OF sends_ready [OF s4 Suc.prems(1)] off(1)] sends_bytes [OF s4 off(1)] by auto
  note s5 = sends_trans [OF s4 d5(2)]
  obtain d6 where d6: "print_text [0x0D, 0x0A] d5 = Some d6" "sends num d5 [0x0D, 0x0A] d6"
    using print_text_sends [OF sends_ready [OF s5 Suc.prems(1)], of _ num] by blast
  note s6 = sends_trans [OF s5 d6(2)]
  have row: "sends num d (dump_row (vram d) a) d6" using s6 by (simp add: dump_row_def)
  obtain e where e: "dump_rows n num (a + 16) d6 = Some e"
      "sends num d6 (concat (map (\<lambda>i. dump_row (vram d6) (a + 16 + 16 * of_nat i)) [0..<n])) e"
    using Suc.IH [OF sends_ready [OF row Suc.prems(1)] Suc.prems(2) off(2)] by blast
  have same: "dump_row (vram d6) (a + 16 + 16 * of_nat i) = dump_row (vram d) (a + 16 + 16 * of_nat i)" if "i < n" for i
  proof -
    have "off_buffer num (a + 16 + of_nat (16 * i)) 16" by (rule off_buffer_block [OF off(2) that])
    then show ?thesis using sends_bytes [OF row] by (simp add: dump_row_def)
  qed
  have rest: "map (\<lambda>i. dump_row (vram d) (a + 16 + 16 * of_nat i)) [0..<n] = map (\<lambda>i. dump_row (vram d6) (a + 16 + 16 * of_nat i)) [0..<n]"
    using same by (intro map_cong) simp_all
  have first: "concat (map (\<lambda>i. dump_row (vram d) (a + 16 * of_nat i)) [0..<Suc n]) =
      dump_row (vram d) a @ concat (map (\<lambda>i. dump_row (vram d) (a + 16 + 16 * of_nat i)) [0..<n])"
    by (simp add: upt_conv_Cons map_Suc_upt [symmetric] comp_def algebra_simps del: upt_Suc)
  have all: "concat (map (\<lambda>i. dump_row (vram d) (a + 16 * of_nat i)) [0..<Suc n]) =
      dump_row (vram d) a @ concat (map (\<lambda>i. dump_row (vram d6) (a + 16 + 16 * of_nat i)) [0..<n])"
    unfolding first rest ..
  have run: "dump_rows (Suc n) num a d = Some e" by (simp only: dump_rows.simps d1(1) d2(1) d3(1) d4(1) d5(1) d6(1) e(1) Option.bind.simps)
  show ?case unfolding all run using sends_trans [OF row e(2)] by blast
qed

lemma PrintData_sends:
  assumes "always_ready d" "off_screen num 20" "off_buffer num start (16 * unat (len div 0x10 + 1))"
  shows "\<exists>e. PrintData num start len d = Some e \<and>
    sends num d (concat (map (\<lambda>i. dump_row (vram d) (start + 16 * of_nat i)) [0..<unat (len div 0x10 + 1)])) e"
  unfolding PrintData_def by (rule dump_rows_sends [OF assms])

section \<open>Properties\<close>

text \<open>A serial port that is always ready, with a buffer away from the screen, for the examples.\<close>

definition example_console :: console where
  "example_console = \<lparr>answers = (\<lambda>p k. 0x20), reads = (\<lambda>p. 0), writes = [], vram = (\<lambda>a. 0x41), cursorX = 0, cursorY = 0,
     foregroundColor = 7, backgroundColor = 0\<rparr>"

definition example_device :: output_device where
  "example_device = new_SerialDebugOutput SERIAL_COM1 example_console"

lemma example_device_fields:
  "device_kind example_device = SerialDebugOutput" "portNum example_device = 0x3F8" "answers example_device = (\<lambda>p k. 0x20)"
  "vram example_device = (\<lambda>a. 0x41)"
  by (simp_all add: example_device_def new_SerialDebugOutput_def new_BaseOutputDevice_def example_console_def portio_outb_def SERIAL_COM1_def)

lemma example_device_ready: "always_ready example_device" "text_ok example_device"
  by (simp_all add: always_ready_def text_ok_def example_device_fields)

lemma example_buffer: "off_screen 0x1000 21" "off_screen 0x1000 20"
proof -
  have "list_all (\<lambda>k. 4000 \<le> 0x1000 + of_nat k - videoram) [0..<21]" by code_simp
  then show "off_screen 0x1000 21" by (simp add: off_screen_def list_all_iff)
  then show "off_screen 0x1000 20" by (rule off_screen_less) simp
qed

text \<open>C25. The devices print numbers as the numeral systems write them: a hexadecimal number is the text 0x and its digits for every 64-bit
  value, a decimal number its digits for every value below 10 to the power of 19, a signed number the sign and the digits for every
  32-bit value. Beside what printing the text does, the first two write nothing but the 20 bytes of their buffer; the signed one writes 21:
  it clears the byte behind its buffer of 20 bytes, whatever is there.\<close>

theorem kernel_prints_numbers:
  assumes "text_ok d" "off_screen num 21"
  shows "(\<exists>m. PrintHex num n d = print_text ([0x30, 0x78] @ number_text 16 (uint n)) (d\<lparr>vram := m\<rparr>) \<and> buffer_only num 20 (vram d) m) \<and>
    (unat n < 10 ^ 19 \<longrightarrow>
      (\<exists>m. PrintDec num n d = print_text (number_text 10 (uint n)) (d\<lparr>vram := m\<rparr>) \<and> buffer_only num 20 (vram d) m)) \<and>
    (- (2 ^ 31) \<le> sint n \<and> sint n < 2 ^ 31 \<longrightarrow>
      (\<exists>m. PrintDec_signed num n d = print_text (number_text 10 (sint n)) (d\<lparr>vram := m\<rparr>) \<and> buffer_only num 21 (vram d) m \<and> m (num + 20) = 0))"
proof -
  have "off_screen num 20" using assms(2) by (rule off_screen_less) simp
  then show ?thesis
    using PrintHex_text [OF assms(1), of num n] PrintDec_text [OF assms(1), of num n] PrintDec_signed_text [OF assms, of n] by blast
qed

text \<open>The byte behind the buffer was 0x41.\<close>

theorem kernel_prints_numbers_witness:
  "(\<exists>m. PrintDec 0x1000 300 example_device = print_text [0x33, 0x30, 0x30] (example_device\<lparr>vram := m\<rparr>) \<and> m 0x1014 = vram example_device 0x1014) \<and>
   (\<exists>m. PrintDec_signed 0x1000 (- 42) example_device = print_text [0x2D, 0x34, 0x32] (example_device\<lparr>vram := m\<rparr>) \<and>
      vram example_device 0x1014 = 0x41 \<and> m 0x1014 = 0)"
proof -
  have t: "number_text 10 300 = [0x33, 0x30, 0x30]" "number_text 10 (- 42) = [0x2D, 0x34, 0x32]"
    by (simp_all add: number_text_def digits_step digits_small hexChars_def)
  note k = kernel_prints_numbers [OF example_device_ready(2) example_buffer(1)]
  have b: "m 0x1014 = vram example_device 0x1014" if "buffer_only 0x1000 20 (vram example_device) m" for m
    using that [unfolded buffer_only_def, rule_format, of 20] by simp
  obtain m where "PrintDec 0x1000 300 example_device = print_text (number_text 10 300) (example_device\<lparr>vram := m\<rparr>)"
      "buffer_only 0x1000 20 (vram example_device) m"
    using k [of 300] by auto
  moreover obtain m' where "PrintDec_signed 0x1000 (- 42) example_device = print_text (number_text 10 (- 42)) (example_device\<lparr>vram := m'\<rparr>)" "m' 0x1014 = 0"
    using k [of "- 42"] by auto
  ultimately show ?thesis unfolding t using b example_device_fields(4) by auto
qed

text \<open>C26. A memory dump to a serial port that answers returns and sends one row for every 16 bytes begun and always one more than
  complete rows: the address, the 16 bytes in hexadecimal with their sign, the printable characters, and the end of the line. The port
  is sent nothing else and no memory but the buffer of the numbers changes.\<close>

theorem memory_dump_sends_rows:
  assumes "always_ready d" "off_screen num 20" "off_buffer num start (16 * unat (len div 0x10 + 1))"
  shows "\<exists>e. PrintData num start len d = Some e \<and>
    writes e = writes d @ map (Pair (portNum d))
      (concat (map (\<lambda>i. dump_row (vram d) (start + 16 * of_nat i)) [0..<unat (len div 0x10 + 1)])) \<and>
    buffer_only num 20 (vram d) (vram e)"
  using PrintData_sends [OF assms] unfolding sends_def by blast

theorem memory_dump_sends_rows_witness:
  "\<exists>e. PrintData 0x1000 0x2000 5 example_device = Some e \<and>
     writes e = writes example_device @ map (Pair 0x3F8)
       ([0x30, 0x78, 0x32, 0x30, 0x30, 0x30, 0x3A, 0x20] @ concat (replicate 16 [0x30, 0x78, 0x34, 0x31, 0x20]) @ [0x09] @
        replicate 16 0x41 @ [0x0D, 0x0A])"
proof -
  have "list_all (\<lambda>k. 20 \<le> unat (0x2000 + of_nat k - 0x1000 :: u32)) [0..<16]" by code_simp
  then have "off_buffer 0x1000 0x2000 (16 * unat (5 div 0x10 + 1 :: u32))" by (simp add: off_buffer_def list_all_iff)
  note w = memory_dump_sends_rows [OF example_device_ready(1) example_buffer(2) this]
  have "dump_row (\<lambda>a. 0x41) 0x2000 = [0x30, 0x78, 0x32, 0x30, 0x30, 0x30, 0x3A, 0x20] @ concat (replicate 16 [0x30, 0x78, 0x34, 0x31, 0x20]) @
      [0x09] @ replicate 16 0x41 @ [0x0D, 0x0A]"
  proof -
    have "number_text 16 65 = [0x34, 0x31]" "number_text 16 8192 = [0x32, 0x30, 0x30, 0x30]"
      by (simp_all add: number_text_def digits_step digits_small hexChars_def)
    then have "hex_text (scast (0x41 :: u8)) = [0x30, 0x78, 0x34, 0x31]" "hex_text (scast (0x2000 :: u32)) = [0x30, 0x78, 0x32, 0x30, 0x30, 0x30]"
      by (simp_all add: hex_text_def)
    moreover have "load_bytes (\<lambda>a. 0x41) a n = replicate n 0x41" for a n by (induction n arbitrary: a) (simp_all add: load_bytes_Suc)
    ultimately show ?thesis by (simp add: dump_row_def printable_def)
  qed
  then show ?thesis using w by (auto simp: example_device_fields)
qed

end
