(* ===== verification/Spec2Isabelle.thy ===== *)
theory Spec2Isabelle
  imports Math64 Kmain FatFile FatChain KernelList Buddy Slab HashTable KernelBoot SlabStart KernelOutput
begin

text \<open>
  Verification of GeexOS: the second stage of its boot loader, src/bootloader/stage2/stage2 (C, called S2 below), and the
  memory management, the data structures and the start of its kernel, src/kernel (C++, called K below).

  \<^bold>\<open>The program.\<close> The loader starts with the memory and the disks as the BIOS left them. It builds a map of the physical memory from
  the answers of the BIOS, manages the pages with it, keeps a heap and the page tables on these pages, enumerates the disks and their
  partitions, mounts a FAT volume, reads the kernel from it, links it with the libraries it needs, and jumps to the kernel with a
  block of information that says which physical memory is in use. The kernel copies this block, marks the frames it reports, sets up
  its own page tables and descriptor tables, and from then on maps pages when they are first touched; its allocators (frames,
  blocks of pages, objects) and its containers are built on that.

  \<^bold>\<open>Common ground.\<close> Prelude has the machine integers (\<open>u8\<close> to \<open>u64\<close> are words of the library, so every operation
  wraps as the machine does), the results (a sum of a fault and a value: a panic, a failed assertion and a use of released memory are
  faults), and the collections \<open>mem_simps\<close>, \<open>sep_intros\<close> and \<open>wf_intros\<close>. ByteMemory has the memory, a
  function from addresses to bytes, with the loads and stores of 8 to 64 bits. The laws of one access are the locale \<open>cell\<close>, those
  of two accesses of different width the locale \<open>cell_pair\<close>; both are interpreted for all widths in use, and the facts are the
  bundles \<open>load_store_simps\<close> and \<open>store_frames\<close>. Program is the calculus for the parts of the loader that change
  more than one component: a program takes the state and does not return, faults, or returns a value and the state after it;
  \<open>runs\<close> states that it returns, and \<open>runs_intros\<close> collects its rules. A loop or scan that need not end is a
  \<open>partial_function\<close> with the result \<open>None\<close> for not returning; every theorem about such an operation shows that it
  returns \<open>Some\<close>, unless it says that it does not. All other operations are total and executable.

  \<^bold>\<open>The loader.\<close> One theory is one part:
    \<^item> CLib: the memory and string functions of S2/src/lib.c; Math64: the 64-bit division of src/arch/i386/math_support.c; ListHead:
      the circular lists of include/list.h; Printf: the formatted output of src/print.c; Console: the screen, the serial ports, the
      debug output and the random numbers (src/arch/i386/print.c, serial.c, src/debug.c, rand.c).
    \<^item> PhysMem: the memory map and the page types of src/memory.c; HeapAlloc: src/heap.c; Paging: src/arch/i386/paging.c;
      Descriptors: gdt.c and idt.c.
    \<^item> Firmware: the calls of the BIOS (bioscall.h) and src/arch/i386/memory.c; Disk, BiosDisk, Partitions: src/disk.c,
      src/arch/i386/biosdisk.c and mbr_partmap.c; BlockDevice states what a device that reads promises.
    \<^item> FileTypes and Fs: src/fs.c; Fat: src/fs/fat.c; FatRead, FatFile and FatChain prove that reading a file gives its bytes.
    \<^item> Images, ElfLoader, ElfLink: src/exeformats/loader.c and elfloader.c; Geexos: src/loaders/geexos.c; Kmain: the setup of
      arch.c and src/main.c; Gdbstub and Exception: src/arch/i386/gdbstub.c and exception.c.

  \<^bold>\<open>The kernel.\<close>
    \<^item> KernelList: DoublyLinkedList.h; Crc32: Utils/CRC32.cpp; HashTable: HashTable.h and Dictionary.h; KernelString: libkcpp's
      string.cpp, stdlib.cpp and ctype.h.
    \<^item> FrameAllocator: Bitfield.cpp, BitfieldPhysicalMemoryAllocator.cpp and PlacementAllocator.cpp; Buddy:
      BuddyAllocatedMemoryRegion.cpp; Slab: SlabCache.cpp and SmallCache.cpp.
    \<^item> KernelPaging: x86Paging.cpp; VirtualMemory: the regions, spaces and the manager of Memory/Virtual, the page fault handler
      and the interrupt dispatcher; IOMemory: Memory/IO.
    \<^item> KernelDescriptors: GDT.cpp and IDT.cpp; KernelBoot: x86BootEnvironment.cpp, HAL.cpp and main.cpp.
    \<^item> SizeCaches: LargeCache.cpp, SlabAllocator.cpp, kmalloc and kfree of global.cpp. An operation of a large cache allocates and frees
      objects of other caches, so these operations take the depth of the nesting. KernelHeap proves what kmalloc and kfree
      do, SlabStart that the start of the kernel establishes their invariant.
    \<^item> KernelOutput: BaseOutputDevice.cpp, TextmodeDebugOutput.cpp, SerialDebugOutput.cpp and the choice of the debug device in HAL.cpp. A
      virtual call is a case distinction on the kind of the device.

  \<^bold>\<open>State and correspondence.\<close> A structure that the code keeps in memory whose layout matters (heap chunks, page tables, FAT
  sectors, ELF files, the loader block, the buddy free lists) is in the byte memory at the offsets of the source. A structure the code
  only reaches through pointers is a record per address. The state of the loader grows by record extension along its parts, from
  \<open>machine\<close> of Program to the images of Images, so that an operation of a lower part applies to the state of every higher one. In the
  kernel a component has a record of its own, and \<open>virtual_memory\<close>, \<open>slab_heap\<close> and \<open>x86HAL\<close> hold the records of the
  components they use. Definitions have the names of the functions they model; a prefix or suffix tells kernel from loader.

  \<^bold>\<open>Interfaces.\<close> \<open>allocator\<close> (Allocator) is the contract of an allocator: a call returns, the new block joins the owned ones, the
  bytes of the others are kept, and owned blocks never overlap; the heap of the loader (\<open>heap\<close>), the buddy allocator of the kernel
  (\<open>buddies\<close>) and kmalloc (\<open>kernel\<close>) keep it. \<open>registry\<close> (ListHead) is the contract of a list of objects, kept by the loader's and the kernel's list
  (\<open>lst\<close>, \<open>klist\<close>). \<open>block_device\<close> is kept by the disks behind the BIOS, and the FAT theorems rest on it.
  \<open>unsigned_division\<close> carries signed division over to any correct unsigned one. \<open>hash_definition\<close> is the parameter class of the
  hash table, kept by the definition of the dictionary.

  \<^bold>\<open>What the lemmas show.\<close> Each allocator has a well-formedness invariant that every operation keeps (\<open>heap_inv\<close>,
  \<open>buddy_inv\<close>, the slab cache invariant, \<open>frames_ok\<close>), and the theorems say which block is handed out and that no block is
  handed out twice. KernelHeap composes the allocators: the caches of the size classes and the cache of the caches share one buddy
  allocator, and kmalloc and kfree keep them apart; SlabStart counts the
  pages in use to show that the start never runs out of them. The paging theories relate the tables in memory to the translation of addresses and show that mapping changes
  exactly the page it maps. An operation that needs frames, pages or page tables is shown to succeed when they are there, and each panic
  comes with the shortage behind it (\<open>free_frames\<close>, \<open>table_space\<close> and \<open>missing_tables\<close> in VirtualMemory, \<open>placement_room\<close> in
  KernelPaging). The FAT theories refine the reading of files to an abstract view of a volume. The containers refine
  a list, a set or a map. The textual formats (GDB packets, hexadecimal text, numbers of libkcpp) are proved to round trip. Geexos and
  KernelBoot together follow the physical memory from the loader's page types through the block of information to the bits of the
  kernel's frame allocator. Where the code does something else than it means to, the theorem states what it does, and its text says so.

  \<^bold>\<open>Bounds.\<close> \<open>elf_loadFile\<close> takes the depth of the nesting of libraries as an argument, since linking an image loads others; the
  theorems about ELF files do not depend on it. The theorem on buddies holds for orders below 32, which is what the five bits
  of the order field hold. The theorem on slab caches has caches whose slabs are one page, which is what the constructor makes of object sizes up
  to 512. Resizing a hash table is for tables whose byte size a 32-bit word holds. The early page tables are for the two
  megabytes of placement memory the code maps. The page allocation of the loader is for a lowest page not above the highest. The window of I/O
  memory does not pass 4 GB; that of the kernel ends in the last page of memory, and the theorem says what differs there.

  \<^bold>\<open>Parameters.\<close> What the BIOS answers to a call and what a port yields when it is read are functions in the state, indexed by the
  number of the access. The addresses of linker symbols and of buffers on the stack are arguments.

  \<^bold>\<open>Not modelled.\<close> The assembly files (start, real mode trampoline, interrupt stubs; their effect on the C state is what the models of the calls
  say); messages that only go to the screen or the debug port, except where the formatting or the device is the subject; GNU EFI, which is a
  vendored copy of another project; the test programs; in the kernel the object manager, which only builds a tree of
  names and prints it, the run-time support of C++ and the functions that only print (the Dump functions).
\<close>

end
